(* ===== verification/Prelude.thy ===== *)
theory Prelude
  imports Main "HOL-Library.Monad_Syntax" "HOL-Library.Multiset"
begin

text \<open>
  Shared vocabulary of the development: the Rust standard library operations the code
  uses on vectors and integers, and the generic lemmas about them.

  A Rust operation that can panic (an index out of range, a failed \<open>unwrap\<close> or
  \<open>assert!\<close>, a \<open>usize\<close> subtraction below zero) returns an \<open>option\<close>, with
  \<open>None\<close> for the panic; a handler is then a \<open>do\<close> block in the option monad. The
  collection \<open>vec_defs\<close> holds the definitions of the vector operations.
\<close>

named_theorems vec_defs "definitions of the vector operations"

named_theorems inv_intros "preservation lemmas of the invariants"

section \<open>Integers\<close>

definition i32_min :: int where
  "i32_min = - 2147483648"

definition i32_max :: int where
  "i32_max = 2147483647"

text \<open>\<open>i32::saturating_add\<close>\<close>

definition sat_add_i32 :: "int \<Rightarrow> int \<Rightarrow> int" where
  "sat_add_i32 a b = max i32_min (min i32_max (a + b))"

lemma sat_add_i32_ge: "a \<le> i32_max \<Longrightarrow> 0 \<le> b \<Longrightarrow> a \<le> sat_add_i32 a b"
  by (auto simp: sat_add_i32_def)

lemma sat_add_i32_exact:
  "i32_min \<le> a + b \<Longrightarrow> a + b \<le> i32_max \<Longrightarrow> sat_add_i32 a b = a + b"
  by (auto simp: sat_add_i32_def)

text \<open>\<open>usize\<close> subtraction: a panic when the result would be negative\<close>

definition sub_usize :: "nat \<Rightarrow> nat \<Rightarrow> nat option" where
  "sub_usize a b = (if b \<le> a then Some (a - b) else None)"

lemma sub_usize_Some [simp]: "b \<le> a \<Longrightarrow> sub_usize a b = Some (a - b)"
  by (simp add: sub_usize_def)

text \<open>\<open>assert!\<close>\<close>

definition assert_that :: "bool \<Rightarrow> unit option" where
  "assert_that b = (if b then Some () else None)"

lemma assert_that_simps [simp]:
  "assert_that True = Some ()" "assert_that False = None"
  by (simp_all add: assert_that_def)

section \<open>Total correctness of handlers\<close>

text \<open>
  \<open>returns m P\<close>: the handler does not panic and its result satisfies \<open>P\<close>. The rules
  walk through a \<open>do\<close> block one step at a time.
\<close>

definition returns :: "'a option \<Rightarrow> ('a \<Rightarrow> bool) \<Rightarrow> bool" where
  "returns m P \<longleftrightarrow> (\<exists>x. m = Some x \<and> P x)"

lemma returns_Some [simp]: "returns (Some x) P \<longleftrightarrow> P x"
  by (simp add: returns_def)

lemma returns_None [simp]: "\<not> returns None P"
  by (simp add: returns_def)

lemma returns_bind [simp]:
  "returns (Option.bind m f) P \<longleftrightarrow> returns m (\<lambda>x. returns (f x) P)"
  by (cases m) simp_all

lemma returns_map_option [simp]: "returns (map_option f m) P \<longleftrightarrow> returns m (\<lambda>x. P (f x))"
  by (cases m) simp_all

lemma returns_mono: "returns m P \<Longrightarrow> (\<And>x. P x \<Longrightarrow> Q x) \<Longrightarrow> returns m Q"
  by (auto simp: returns_def)

lemma returns_conj: "returns m P \<Longrightarrow> returns m Q \<Longrightarrow> returns m (\<lambda>x. P x \<and> Q x)"
  by (auto simp: returns_def)

lemma returnsE: "returns m P \<Longrightarrow> (\<And>x. m = Some x \<Longrightarrow> P x \<Longrightarrow> R) \<Longrightarrow> R"
  by (auto simp: returns_def)

lemma returnsI: "m = Some x \<Longrightarrow> P x \<Longrightarrow> returns m P"
  by (simp add: returns_def)

lemma returns_Ex: "returns m P \<longleftrightarrow> (\<exists>x. m = Some x \<and> P x)"
  by (rule returns_def)

section \<open>Vectors\<close>

text \<open>\<open>v[i]\<close>, \<open>Vec::insert\<close> and \<open>Vec::remove\<close>, with their panics\<close>

definition vec_get :: "'a list \<Rightarrow> nat \<Rightarrow> 'a option" where
  "vec_get xs i = (if i < length xs then Some (xs ! i) else None)"

definition insert_at :: "nat \<Rightarrow> 'a \<Rightarrow> 'a list \<Rightarrow> 'a list" where
  "insert_at i x xs = take i xs @ x # drop i xs"

definition remove_at :: "nat \<Rightarrow> 'a list \<Rightarrow> 'a list" where
  "remove_at i xs = take i xs @ drop (Suc i) xs"

definition vec_insert :: "nat \<Rightarrow> 'a \<Rightarrow> 'a list \<Rightarrow> 'a list option" where
  "vec_insert i x xs = (if i \<le> length xs then Some (insert_at i x xs) else None)"

definition vec_remove :: "nat \<Rightarrow> 'a list \<Rightarrow> ('a \<times> 'a list) option" where
  "vec_remove i xs = (if i < length xs then Some (xs ! i, remove_at i xs) else None)"

lemmas [vec_defs] = vec_get_def vec_insert_def vec_remove_def

lemma vec_get_Some [simp]: "i < length xs \<Longrightarrow> vec_get xs i = Some (xs ! i)"
  by (simp add: vec_get_def)

lemma vec_insert_Some [simp]: "i \<le> length xs \<Longrightarrow> vec_insert i x xs = Some (insert_at i x xs)"
  by (simp add: vec_insert_def)

lemma vec_remove_Some [simp]:
  "i < length xs \<Longrightarrow> vec_remove i xs = Some (xs ! i, remove_at i xs)"
  by (simp add: vec_remove_def)

lemma length_insert_at [simp]: "length (insert_at i x xs) = Suc (length xs)"
  by (auto simp: insert_at_def min_def)

lemma length_remove_at [simp]: "i < length xs \<Longrightarrow> length (remove_at i xs) = length xs - 1"
  by (auto simp: remove_at_def min_def)

lemma set_insert_at [simp]: "set (insert_at i x xs) = insert x (set xs)"
proof -
  have "set xs = set (take i xs) \<union> set (drop i xs)"
    by (metis append_take_drop_id set_append)
  then show ?thesis by (auto simp: insert_at_def)
qed

lemma set_remove_at_subset: "set (remove_at i xs) \<subseteq> set xs"
  by (auto simp: remove_at_def dest: in_set_takeD in_set_dropD)

lemma insert_at_0 [simp]: "insert_at 0 x xs = x # xs"
  by (simp add: insert_at_def)

lemma insert_at_length [simp]: "insert_at (length xs) x xs = xs @ [x]"
  by (simp add: insert_at_def)

lemma nth_insert_at:
  "i \<le> length xs \<Longrightarrow> k \<le> length xs \<Longrightarrow>
   insert_at i x xs ! k = (if k < i then xs ! k else if k = i then x else xs ! (k - 1))"
  by (auto simp: insert_at_def nth_append min_def nth_Cons' not_less)

lemma nth_remove_at:
  "i < length xs \<Longrightarrow> k < length xs - 1 \<Longrightarrow>
   remove_at i xs ! k = (if k < i then xs ! k else xs ! Suc k)"
  by (auto simp: remove_at_def nth_append min_def)

lemma remove_at_insert_at [simp]: "i \<le> length xs \<Longrightarrow> remove_at i (insert_at i x xs) = xs"
  by (simp add: remove_at_def insert_at_def min_def)

lemma map_insert_at: "map f (insert_at i x xs) = insert_at i (f x) (map f xs)"
  by (simp add: insert_at_def take_map drop_map)

lemma map_remove_at: "map f (remove_at i xs) = remove_at i (map f xs)"
  by (simp add: remove_at_def take_map drop_map)

lemma distinct_remove_at: "distinct xs \<Longrightarrow> distinct (remove_at i xs)"
  unfolding remove_at_def
  by (simp add: set_take_disj_set_drop_if_distinct)

lemma list_update_conv_insert_remove:
  "i < length xs \<Longrightarrow> xs[i := x] = insert_at i x (remove_at i xs)"
  by (simp add: upd_conv_take_nth_drop insert_at_def remove_at_def min_def)

lemma insert_remove_same: "i < length xs \<Longrightarrow> insert_at i (xs ! i) (remove_at i xs) = xs"
  by (metis list_update_conv_insert_remove list_update_id)

lemma mset_insert_at [simp]: "mset (insert_at i x xs) = add_mset x (mset xs)"
proof -
  have "mset xs = mset (take i xs) + mset (drop i xs)"
    by (metis append_take_drop_id mset_append)
  then show ?thesis by (simp add: insert_at_def)
qed

lemma mset_remove_at: "i < length xs \<Longrightarrow> mset xs = add_mset (xs ! i) (mset (remove_at i xs))"
  by (metis insert_remove_same mset_insert_at)

lemma concat_insert_at_mset:
  "mset (concat (insert_at i x xs)) = mset x + mset (concat xs)"
proof -
  have "mset (concat xs) = mset (concat (take i xs)) + mset (concat (drop i xs))"
    by (metis append_take_drop_id concat_append mset_append)
  then show ?thesis by (simp add: insert_at_def)
qed

lemma concat_remove_at_mset:
  "i < length xs \<Longrightarrow> mset (concat xs) = mset (xs ! i) + mset (concat (remove_at i xs))"
  by (metis concat_insert_at_mset insert_remove_same)

lemma concat_update_mset:
  "i < length xs \<Longrightarrow>
   mset (concat (xs[i := x])) + mset (xs ! i) = mset x + mset (concat xs)"
  by (simp add: list_update_conv_insert_remove concat_insert_at_mset concat_remove_at_mset [of i xs])

text \<open>\<open>iter().position(p)\<close>\<close>

fun position :: "('a \<Rightarrow> bool) \<Rightarrow> 'a list \<Rightarrow> nat option" where
  "position p [] = None"
| "position p (x # xs) = (if p x then Some 0 else map_option Suc (position p xs))"

lemma position_None: "position p xs = None \<longleftrightarrow> (\<forall>x \<in> set xs. \<not> p x)"
  by (induction xs) auto

lemma position_SomeD:
  "position p xs = Some i \<Longrightarrow> i < length xs \<and> p (xs ! i) \<and> (\<forall>j < i. \<not> p (xs ! j))"
proof (induction xs arbitrary: i)
  case Nil
  then show ?case by simp
next
  case (Cons x xs)
  show ?case
  proof (cases "p x")
    case True
    with Cons.prems show ?thesis by simp
  next
    case False
    with Cons.prems obtain k where k: "position p xs = Some k" "i = Suc k" by auto
    from Cons.IH [OF k(1)] False k(2) show ?thesis by (auto simp: less_Suc_eq_0_disj)
  qed
qed

lemma position_SomeI:
  "i < length xs \<Longrightarrow> p (xs ! i) \<Longrightarrow> (\<And>j. j < i \<Longrightarrow> \<not> p (xs ! j)) \<Longrightarrow> position p xs = Some i"
proof (induction xs arbitrary: i)
  case Nil
  then show ?case by simp
next
  case (Cons x xs)
  show ?case
  proof (cases i)
    case 0
    with Cons.prems show ?thesis by simp
  next
    case (Suc k)
    with Cons.prems(3) [of 0] have "\<not> p x" by simp
    moreover have "position p xs = Some k"
      using Cons.prems Suc by (intro Cons.IH) (auto, metis Suc_less_eq nth_Cons_Suc)
    ultimately show ?thesis using Suc by simp
  qed
qed

section \<open>Components as state machines\<close>

text \<open>
  A run of operations: one that its callers would not issue in the current state is skipped,
  and the first panic ends the run with \<open>None\<close>.
\<close>

fun run_ops :: "('op \<Rightarrow> 's \<Rightarrow> bool) \<Rightarrow> ('op \<Rightarrow> 's \<Rightarrow> 's option) \<Rightarrow> 'op list \<Rightarrow> 's \<Rightarrow> 's option" where
  "run_ops enabled exec [] s = Some s"
| "run_ops enabled exec (op # ops) s =
     (if enabled op s then Option.bind (exec op s) (run_ops enabled exec ops)
      else run_ops enabled exec ops s)"

text \<open>
  The contract of a component: in a good state every operation its callers may issue returns
  and leads to a good state again.
\<close>

locale component =
  fixes good :: "'s \<Rightarrow> bool"
    and enabled :: "'op \<Rightarrow> 's \<Rightarrow> bool"
    and exec :: "'op \<Rightarrow> 's \<Rightarrow> 's option"
  assumes step: "good s \<Longrightarrow> enabled op s \<Longrightarrow> returns (exec op s) good"
begin

lemma run_good: "good s \<Longrightarrow> returns (run_ops enabled exec ops s) good"
proof (induction ops arbitrary: s)
  case Nil
  then show ?case by simp
next
  case (Cons op ops)
  show ?case
  proof (cases "enabled op s")
    case True
    from step [OF Cons.prems True] obtain s' where "exec op s = Some s'" "good s'"
      by (auto elim!: returnsE)
    with Cons.IH True show ?thesis by simp
  next
    case False
    with Cons show ?thesis by simp
  qed
qed

lemma run_append:
  "run_ops enabled exec (xs @ ys) s =
     Option.bind (run_ops enabled exec xs s) (run_ops enabled exec ys)"
  by (induction xs arbitrary: s) (auto split: bind_split)

text \<open>After any run from a good state, a further enabled operation still returns\<close>

lemma run_then_step:
  assumes "good s"
  shows "returns (run_ops enabled exec ops s) (\<lambda>s'. enabled op s' \<longrightarrow> returns (exec op s') good)"
  using run_good [OF assms, of ops] step by (auto elim!: returns_mono)

end

end
