(* ===== verification/Region.thy ===== *)
theory Region
  imports Prelude
begin

text \<open>
  \<open>src/utils/region.rs\<close>: turning a client's region, a list of added and subtracted
  rectangles, into a list of non-overlapping rectangles.

  Coordinates are \<open>i32\<close>, modelled as \<open>int\<close> with \<open>saturating_add\<close> written out.
  A span is a half-open interval on the X axis; the vector of spans of one Y band is
  mutated in place by index, going backwards, and the recursion over the index keeps that
  shape. The constructor \<open>Rectangle::from_extremities\<close> belongs to the Smithay library
  and is the parameter \<open>from_extremities\<close>.
\<close>

section \<open>Model\<close>

datatype rect_kind = Add | Subtract

record rect =
  rect_x :: int
  rect_y :: int
  rect_w :: int
  rect_h :: int

type_synonym span = "int \<times> int"
type_synonym region = "(rect_kind \<times> rect) list"
type_synonym extremities = "(int \<times> int) \<times> (int \<times> int)"

definition rect_right :: "rect \<Rightarrow> int" where
  "rect_right r = sat_add_i32 (rect_x r) (rect_w r)"

definition rect_bottom :: "rect \<Rightarrow> int" where
  "rect_bottom r = sat_add_i32 (rect_y r) (rect_h r)"

text \<open>All unique Y coordinates, in the order of the \<open>BTreeSet\<close>\<close>

definition y_coords :: "region \<Rightarrow> int list" where
  "y_coords region =
     sort (remdups (concat (map (\<lambda>(_, r). [rect_y r, rect_bottom r]) region)))"

text \<open>The \<open>Add\<close> loop: index \<open>i\<close> runs down from \<open>spans.len()\<close>\<close>

fun add_span :: "nat \<Rightarrow> span list \<Rightarrow> int \<Rightarrow> int \<Rightarrow> span list" where
  "add_span 0 spans x1 x2 = insert_at 0 (x1, x2) spans"
| "add_span (Suc i) spans x1 x2 =
     (let (start, end') = spans ! i in
      if end' < x1 then insert_at (i + 1) (x1, x2) spans
      else if x2 < start then add_span i spans x1 x2
      else add_span i (remove_at i spans) (min x1 start) (max x2 end'))"

text \<open>The \<open>Subtract\<close> loop\<close>

fun sub_span :: "nat \<Rightarrow> span list \<Rightarrow> int \<Rightarrow> int \<Rightarrow> span list" where
  "sub_span 0 spans x1 x2 = spans"
| "sub_span (Suc i) spans x1 x2 =
     (let (start, end') = spans ! i in
      if end' \<le> x1 then spans
      else if x2 \<le> start then sub_span i spans x1 x2
      else
        (let spans1 = remove_at i spans;
             spans2 = (if x2 < end' then insert_at i (x2, end') spans1 else spans1);
             spans3 = (if start < x1 then insert_at i (start, x1) spans2 else spans2)
         in sub_span i spans3 x1 x2))"

text \<open>One iteration of the loop over the region's rectangles, in the band \<open>lo..hi\<close>\<close>

definition apply_rect :: "int \<Rightarrow> int \<Rightarrow> span list \<Rightarrow> rect_kind \<times> rect \<Rightarrow> span list" where
  "apply_rect lo hi spans kr =
     (case kr of (kind, r) \<Rightarrow>
        if hi \<le> rect_y r \<or> rect_bottom r \<le> lo then spans
        else
          (let x1 = rect_x r; x2 = rect_right r in
           if x1 = x2 then spans
           else
             (case kind of
                Add \<Rightarrow> add_span (length spans) spans x1 x2
              | Subtract \<Rightarrow> sub_span (length spans) spans x1 x2)))"

definition band_spans :: "int \<Rightarrow> int \<Rightarrow> region \<Rightarrow> span list" where
  "band_spans lo hi region = foldl (apply_rect lo hi) [] region"

text \<open>The loop over the Y bands, pushing the extremities of each output rectangle\<close>

fun bands :: "region \<Rightarrow> int \<Rightarrow> int list \<Rightarrow> extremities list" where
  "bands region lo [] = []"
| "bands region lo (hi # ys) =
     map (\<lambda>(x1, x2). ((x1, lo), (x2, hi))) (band_spans lo hi region) @ bands region hi ys"

definition region_extremities :: "region \<Rightarrow> extremities list" where
  "region_extremities region =
     (case y_coords region of
        [] \<Rightarrow> []
      | lo # ys \<Rightarrow> bands region lo ys)"

definition region_to_non_overlapping_rects ::
  "(int \<times> int \<Rightarrow> int \<times> int \<Rightarrow> 'r) \<Rightarrow> region \<Rightarrow> 'r list" where
  "region_to_non_overlapping_rects from_extremities region =
     map (\<lambda>(a, b). from_extremities a b) (region_extremities region)"

section \<open>Specification: regions as point sets\<close>

definition rect_covers :: "rect \<Rightarrow> int \<times> int \<Rightarrow> bool" where
  "rect_covers r p \<longleftrightarrow>
     rect_x r \<le> fst p \<and> fst p < rect_right r \<and> rect_y r \<le> snd p \<and> snd p < rect_bottom r"

text \<open>The rectangles apply in order: the last one that covers a point decides\<close>

definition rect_decides :: "int \<times> int \<Rightarrow> bool \<Rightarrow> rect_kind \<times> rect \<Rightarrow> bool" where
  "rect_decides p b kr = (case kr of (kind, r) \<Rightarrow> if rect_covers r p then kind = Add else b)"

definition in_region :: "region \<Rightarrow> int \<times> int \<Rightarrow> bool" where
  "in_region region p = foldl (rect_decides p) False region"

definition box_covers :: "extremities \<Rightarrow> int \<times> int \<Rightarrow> bool" where
  "box_covers b p \<longleftrightarrow>
     (case b of ((x1, y1), (x2, y2)) \<Rightarrow> x1 \<le> fst p \<and> fst p < x2 \<and> y1 \<le> snd p \<and> snd p < y2)"

definition wf_region :: "region \<Rightarrow> bool" where
  "wf_region region \<longleftrightarrow>
     (\<forall>(kind, r) \<in> set region. rect_x r \<le> i32_max \<and> rect_y r \<le> i32_max \<and> 0 \<le> rect_w r)"

definition span_pts :: "span list \<Rightarrow> int set" where
  "span_pts spans = (\<Union>(s, e) \<in> set spans. {s..<e})"

text \<open>Spans are sorted, non-empty, and separated by a gap\<close>

definition spans_ok :: "span list \<Rightarrow> bool" where
  "spans_ok spans \<longleftrightarrow>
     sorted_wrt (\<lambda>a b. snd a < fst b) spans \<and> (\<forall>(s, e) \<in> set spans. s < e)"

lemma span_pts_simps [simp]:
  "span_pts [] = {}"
  "span_pts ((s, e) # xs) = {s..<e} \<union> span_pts xs"
  "span_pts (xs @ ys) = span_pts xs \<union> span_pts ys"
  by (auto simp: span_pts_def)

lemma spans_ok_append:
  "spans_ok (xs @ ys) \<longleftrightarrow>
     spans_ok xs \<and> spans_ok ys \<and> (\<forall>a \<in> set xs. \<forall>b \<in> set ys. snd a < fst b)"
  by (auto simp: spans_ok_def sorted_wrt_append)

lemma spans_ok_Cons:
  "spans_ok ((s, e) # ys) \<longleftrightarrow> s < e \<and> spans_ok ys \<and> (\<forall>b \<in> set ys. e < fst b)"
  by (auto simp: spans_ok_def)

lemma spans_ok_Nil [simp]: "spans_ok []"
  by (simp add: spans_ok_def)

section \<open>The span loops\<close>

lemma spans_nth [simp]: "(A @ x # B) ! length A = x"
  by simp

lemma remove_at_append [simp]: "remove_at (length A) (A @ x # B) = A @ B"
  by (simp add: remove_at_def)

lemma insert_at_append [simp]: "insert_at (length A) y (A @ B) = A @ y # B"
  by (simp add: insert_at_def)

lemma insert_at_Suc_append: "insert_at (Suc (length A)) y (A @ x # B) = A @ x # y # B"
  by (simp add: insert_at_def)

lemma add_span_correct:
  assumes "spans_ok (A @ B)" "x1 < x2" "\<forall>b \<in> set B. x2 < fst b"
  shows "spans_ok (add_span (length A) (A @ B) x1 x2) \<and>
         span_pts (add_span (length A) (A @ B) x1 x2) = span_pts (A @ B) \<union> {x1..<x2}"
  using assms
proof (induction A arbitrary: B x1 x2 rule: rev_induct)
  case Nil
  then show ?case by (auto simp: spans_ok_Cons)
next
  case (snoc x A)
  obtain s e where x: "x = (s, e)" by (cases x)
  from snoc.prems x have ok: "spans_ok A" "spans_ok B" "s < e"
      "\<forall>a \<in> set A. snd a < s" "\<forall>b \<in> set B. e < fst b" "\<forall>a \<in> set A. \<forall>b \<in> set B. snd a < fst b"
    by (auto simp: spans_ok_append spans_ok_Cons)
  consider (right) "e < x1" | (left) "\<not> e < x1" "x2 < s" | (merge) "\<not> e < x1" "\<not> x2 < s" by blast
  then show ?case
  proof cases
    case right
    with ok snoc.prems x show ?thesis
      by (auto simp: insert_at_Suc_append spans_ok_append spans_ok_Cons)
  next
    case left
    with snoc.prems x snoc.IH [of "(s, e) # B" x1 x2] show ?thesis by simp
  next
    case merge
    have "spans_ok (A @ B)" using ok by (simp add: spans_ok_append)
    with merge ok snoc.prems x snoc.IH [of B "min x1 s" "max x2 e"]
    have "spans_ok (add_span (length A) (A @ B) (min x1 s) (max x2 e)) \<and>
          span_pts (add_span (length A) (A @ B) (min x1 s) (max x2 e)) =
            span_pts (A @ B) \<union> {min x1 s..<max x2 e}" by auto
    moreover have "{min x1 s..<max x2 e} = {x1..<x2} \<union> {s..<e}"
      using merge ok(3) snoc.prems(2) by auto
    ultimately show ?thesis using merge x by auto
  qed
qed

lemma sub_span_correct:
  assumes "spans_ok (A @ B)" "x1 < x2" "\<forall>(s, e) \<in> set B. e \<le> x1 \<or> x2 \<le> s"
  shows "spans_ok (sub_span (length A) (A @ B) x1 x2) \<and>
         span_pts (sub_span (length A) (A @ B) x1 x2) = span_pts (A @ B) - {x1..<x2}"
  using assms
proof (induction A arbitrary: B rule: rev_induct)
  case Nil
  then show ?case by (fastforce simp: span_pts_def)
next
  case (snoc x A)
  obtain s e where x: "x = (s, e)" by (cases x)
  from snoc.prems x have ok: "spans_ok A" "spans_ok B" "s < e"
      "\<forall>a \<in> set A. snd a < s" "\<forall>b \<in> set B. e < fst b" "\<forall>a \<in> set A. \<forall>b \<in> set B. snd a < fst b"
    by (auto simp: spans_ok_append spans_ok_Cons)
  have disjB: "span_pts B \<inter> {x1..<x2} = {}"
    using snoc.prems(3) by (fastforce simp: span_pts_def)
  consider (right) "e \<le> x1" | (left) "\<not> e \<le> x1" "x2 \<le> s" | (cut) "\<not> e \<le> x1" "\<not> x2 \<le> s" by blast
  then show ?case
  proof cases
    case right
    have "span_pts A \<inter> {x1..<x2} = {}"
      using ok(3,4) right by (fastforce simp: span_pts_def)
    with disjB right snoc.prems x show ?thesis by auto
  next
    case left
    with snoc.prems x snoc.IH [of "(s, e) # B"] show ?thesis by simp
  next
    case cut
    define B' where "B' = (if s < x1 then [(s, x1)] else []) @ (if x2 < e then [(x2, e)] else []) @ B"
    have "spans_ok (A @ B')" "\<forall>(s, e) \<in> set B'. e \<le> x1 \<or> x2 \<le> s"
      using ok cut snoc.prems(2,3) by (auto simp: B'_def spans_ok_append spans_ok_Cons)
    with snoc.IH [of B'] snoc.prems(2) have IH:
      "spans_ok (sub_span (length A) (A @ B') x1 x2) \<and>
       span_pts (sub_span (length A) (A @ B') x1 x2) = span_pts (A @ B') - {x1..<x2}" by blast
    have "sub_span (length (A @ [x])) ((A @ [x]) @ B) x1 x2 = sub_span (length A) (A @ B') x1 x2"
      using cut x by (simp add: B'_def Let_def)
    moreover have "span_pts (A @ B') - {x1..<x2} = span_pts ((A @ [x]) @ B) - {x1..<x2}"
      using cut x by (auto simp: B'_def)
    ultimately show ?thesis using IH by simp
  qed
qed

section \<open>One band\<close>

text \<open>A band is elementary for a rectangle when no horizontal edge of it lies strictly inside\<close>

definition elementary :: "int \<Rightarrow> int \<Rightarrow> rect \<Rightarrow> bool" where
  "elementary lo hi r \<longleftrightarrow>
     (rect_y r \<le> lo \<or> hi \<le> rect_y r) \<and> (rect_bottom r \<le> lo \<or> hi \<le> rect_bottom r)"

lemma rect_x_le_right: "rect_x r \<le> i32_max \<Longrightarrow> 0 \<le> rect_w r \<Longrightarrow> rect_x r \<le> rect_right r"
  by (simp add: rect_right_def sat_add_i32_ge)

lemma apply_rect_correct:
  assumes "spans_ok spans" "rect_x r \<le> rect_right r" "elementary lo hi r" "lo \<le> y" "y < hi"
  shows "spans_ok (apply_rect lo hi spans (kind, r)) \<and>
         (x \<in> span_pts (apply_rect lo hi spans (kind, r)) \<longleftrightarrow>
            (if rect_covers r (x, y) then kind = Add else x \<in> span_pts spans))"
proof (cases "(hi \<le> rect_y r \<or> rect_bottom r \<le> lo) \<or> rect_x r = rect_right r")
  case True
  then show ?thesis
    using assms by (auto simp: apply_rect_def rect_covers_def)
next
  case False
  have covers: "rect_covers r (x, y) \<longleftrightarrow> x \<in> {rect_x r..<rect_right r}"
    using False assms by (auto simp: rect_covers_def elementary_def)
  have lt: "rect_x r < rect_right r" using False assms(2) by simp
  show ?thesis
    using False covers assms(1) lt
      add_span_correct [of spans "[]" "rect_x r" "rect_right r"]
      sub_span_correct [of spans "[]" "rect_x r" "rect_right r"]
    by (cases kind) (auto simp: apply_rect_def)
qed

lemma band_spans_correct:
  assumes "\<forall>(kind, r) \<in> set region. rect_x r \<le> rect_right r \<and> elementary lo hi r"
    and "lo \<le> y" "y < hi"
  shows "spans_ok (band_spans lo hi region) \<and>
         (x \<in> span_pts (band_spans lo hi region) \<longleftrightarrow> in_region region (x, y))"
  using assms(1)
proof (induction region rule: rev_induct)
  case Nil
  then show ?case by (simp add: band_spans_def in_region_def)
next
  case (snoc kr region)
  obtain kind r where kr: "kr = (kind, r)" by (cases kr)
  with snoc have IH: "spans_ok (band_spans lo hi region)"
      "x \<in> span_pts (band_spans lo hi region) \<longleftrightarrow> in_region region (x, y)"
    and r: "rect_x r \<le> rect_right r" "elementary lo hi r" by auto
  show ?case
    using apply_rect_correct [OF IH(1) r assms(2,3), of kind x] IH(2) kr
    by (simp add: band_spans_def in_region_def rect_decides_def)
qed

section \<open>All bands\<close>

text \<open>Two rectangles with no point in common\<close>

definition boxes_disjoint :: "extremities \<Rightarrow> extremities \<Rightarrow> bool" where
  "boxes_disjoint a b \<longleftrightarrow> (\<forall>p. \<not> (box_covers a p \<and> box_covers b p))"

definition box_nonempty :: "extremities \<Rightarrow> bool" where
  "box_nonempty b \<longleftrightarrow> (case b of ((x1, y1), (x2, y2)) \<Rightarrow> x1 < x2 \<and> y1 < y2)"

text \<open>The bands of a strictly increasing list of coordinates\<close>

definition all_elementary :: "region \<Rightarrow> int list \<Rightarrow> bool" where
  "all_elementary region ys \<longleftrightarrow>
     (\<forall>(kind, r) \<in> set region. rect_x r \<le> rect_right r \<and>
        (\<forall>y \<in> {rect_y r, rect_bottom r}. \<forall>i. Suc i < length ys \<longrightarrow> y \<le> ys ! i \<or> ys ! Suc i \<le> y))"

lemma all_elementary_Cons2:
  "all_elementary region (lo # hi # ys) \<longleftrightarrow>
     (\<forall>(kind, r) \<in> set region. rect_x r \<le> rect_right r \<and> elementary lo hi r) \<and>
     all_elementary region (hi # ys)"
proof -
  have all_nat: "(\<forall>i. Suc i < length (lo # hi # ys) \<longrightarrow> y \<le> (lo # hi # ys) ! i \<or> (lo # hi # ys) ! Suc i \<le> y)
        \<longleftrightarrow> (y \<le> lo \<or> hi \<le> y) \<and>
            (\<forall>i. Suc i < length (hi # ys) \<longrightarrow> y \<le> (hi # ys) ! i \<or> (hi # ys) ! Suc i \<le> y)" for y
    by (auto simp: all_simps nth_Cons split: nat.splits)
  show ?thesis
    unfolding all_elementary_def elementary_def all_nat by (auto; blast)
qed

lemma bands_y:
  assumes "sorted_wrt (<) (lo # ys)" "b \<in> set (bands region lo ys)"
  shows "\<exists>x1 y1 x2 y2. b = ((x1, y1), (x2, y2)) \<and> lo \<le> y1 \<and> y1 < y2"
  using assms
proof (induction ys arbitrary: lo)
  case Nil
  then show ?case by simp
next
  case (Cons hi ys)
  from Cons.prems Cons.IH [of hi] show ?case by fastforce
qed

lemma bands_cover:
  assumes "sorted_wrt (<) (lo # ys)" "all_elementary region (lo # ys)"
  shows "(\<exists>b \<in> set (bands region lo ys). box_covers b (x, y)) \<longleftrightarrow>
         lo \<le> y \<and> y < last (lo # ys) \<and> in_region region (x, y)"
  using assms
proof (induction ys arbitrary: lo)
  case Nil
  then show ?case by simp
next
  case (Cons hi ys)
  from Cons.prems have prems: "lo < hi" "sorted_wrt (<) (hi # ys)" "all_elementary region (hi # ys)"
    and el: "\<forall>(kind, r) \<in> set region. rect_x r \<le> rect_right r \<and> elementary lo hi r"
    by (auto simp: all_elementary_Cons2)
  have here: "(\<exists>b \<in> set (map (\<lambda>(x1, x2). ((x1, lo), (x2, hi))) (band_spans lo hi region)). box_covers b (x, y))
      \<longleftrightarrow> lo \<le> y \<and> y < hi \<and> x \<in> span_pts (band_spans lo hi region)"
    by (force simp: span_pts_def box_covers_def)
  have hl: "hi \<le> last (hi # ys)"
    using prems(2) by (cases ys rule: rev_cases) (auto simp: sorted_wrt_append less_imp_le)
  show ?case
    using here Cons.IH [OF prems(2,3)] band_spans_correct [OF el, of y x] prems(1) hl
    by (auto simp: bex_Un)
qed

lemma band_pairwise:
  assumes "spans_ok spans" "lo < hi"
  shows "sorted_wrt boxes_disjoint (map (\<lambda>(x1, x2). ((x1, lo), (x2, hi))) spans)"
    and "\<forall>b \<in> set (map (\<lambda>(x1, x2). ((x1, lo), (x2, hi))) spans). box_nonempty b"
  using assms
  by (auto simp: spans_ok_def sorted_wrt_map boxes_disjoint_def box_covers_def box_nonempty_def
      elim!: sorted_wrt_mono_rel [rotated])

lemma bands_disjoint:
  assumes "sorted_wrt (<) (lo # ys)" "all_elementary region (lo # ys)"
  shows "sorted_wrt boxes_disjoint (bands region lo ys) \<and>
         (\<forall>b \<in> set (bands region lo ys). box_nonempty b)"
  using assms
proof (induction ys arbitrary: lo)
  case Nil
  then show ?case by simp
next
  case (Cons hi ys)
  from Cons.prems have prems: "lo < hi" "sorted_wrt (<) (hi # ys)" "all_elementary region (hi # ys)"
    and el: "\<forall>(kind, r) \<in> set region. rect_x r \<le> rect_right r \<and> elementary lo hi r"
    by (auto simp: all_elementary_Cons2)
  let ?B = "map (\<lambda>(x1, x2). ((x1, lo), (x2, hi))) (band_spans lo hi region)"
  have ok: "spans_ok (band_spans lo hi region)"
    using band_spans_correct [OF el, of lo] prems(1) by simp
  have "boxes_disjoint a b" if "a \<in> set ?B" "b \<in> set (bands region hi ys)" for a b
    using that bands_y [OF prems(2) that(2)]
    by (auto simp: boxes_disjoint_def box_covers_def)
  with band_pairwise [OF ok prems(1)] Cons.IH [OF prems(2,3)]
  show ?case by (auto simp: sorted_wrt_append)
qed

section \<open>The whole region\<close>

lemma set_y_coords: "set (y_coords region) = (\<Union>(k, r) \<in> set region. {rect_y r, rect_bottom r})"
  by (auto simp: y_coords_def)

lemma sorted_y_coords: "sorted_wrt (<) (y_coords region)"
  by (simp add: y_coords_def strict_sorted_iff)

lemma sorted_adjacent:
  assumes "sorted_wrt (<) ys" "(y :: int) \<in> set ys" "Suc i < length ys"
  shows "y \<le> ys ! i \<or> ys ! Suc i \<le> y"
proof -
  from assms(2) obtain j where j: "j < length ys" "y = ys ! j"
    by (auto simp: in_set_conv_nth)
  show ?thesis
  proof (cases "j \<le> i")
    case True
    with assms(1,3) j show ?thesis
      by (metis Suc_lessD le_neq_implies_less less_imp_le order_refl sorted_wrt_iff_nth_less)
  next
    case False
    then have "Suc i \<le> j" by simp
    with assms(1) j show ?thesis
      by (metis le_neq_implies_less less_imp_le order_refl sorted_wrt_iff_nth_less)
  qed
qed

lemma wf_region_elementary:
  assumes "wf_region region"
  shows "all_elementary region (y_coords region)"
proof -
  have "\<forall>(kind, r) \<in> set region. rect_x r \<le> rect_right r"
    using assms by (auto simp: wf_region_def intro!: rect_x_le_right)
  moreover have "y \<le> y_coords region ! i \<or> y_coords region ! Suc i \<le> y"
    if "(kind, r) \<in> set region" "y \<in> {rect_y r, rect_bottom r}" "Suc i < length (y_coords region)"
    for kind r y i
    using that by (intro sorted_adjacent [OF sorted_y_coords]) (auto simp: set_y_coords)
  ultimately show ?thesis by (fastforce simp: all_elementary_def)
qed

lemma in_region_rect:
  "in_region region p \<Longrightarrow> \<exists>(kind, r) \<in> set region. rect_covers r p"
  by (induction region rule: rev_induct) (auto simp: in_region_def rect_decides_def split: if_splits)

lemma in_region_y:
  assumes "in_region region (x, y)" "y_coords region = lo # ys"
  shows "lo \<le> y \<and> y < last (lo # ys)"
proof -
  from in_region_rect [OF assms(1)] obtain kind r
    where r: "(kind, r) \<in> set region" "rect_covers r (x, y)" by auto
  then have "rect_y r \<in> set (lo # ys)" "rect_bottom r \<in> set (lo # ys)"
    unfolding assms(2) [symmetric] by (auto simp: set_y_coords)
  moreover have "\<forall>z \<in> set (lo # ys). lo \<le> z \<and> z \<le> last (lo # ys)"
    using sorted_y_coords [of region] unfolding assms(2)
    by (cases ys rule: rev_cases) (auto simp: sorted_wrt_append less_imp_le)
  ultimately show ?thesis using r(2) by (auto simp: rect_covers_def)
qed

lemma region_extremities_correct:
  assumes "wf_region region"
  shows "(\<exists>b \<in> set (region_extremities region). box_covers b p) \<longleftrightarrow> in_region region p"
    and "sorted_wrt boxes_disjoint (region_extremities region)"
    and "\<forall>b \<in> set (region_extremities region). box_nonempty b"
proof -
  obtain x y where p: "p = (x, y)" by (cases p)
  show "(\<exists>b \<in> set (region_extremities region). box_covers b p) \<longleftrightarrow> in_region region p"
  proof (cases "y_coords region")
    case Nil
    then have "region = []"
      using set_y_coords [of region] by (cases region) auto
    then have "\<not> in_region region p" by (simp add: in_region_def)
    then show ?thesis unfolding region_extremities_def Nil by simp
  next
    case (Cons lo ys)
    with sorted_y_coords [of region] wf_region_elementary [OF assms]
    show ?thesis
      using bands_cover [of lo ys region x y] in_region_y [of region x y lo ys] p
      by (auto simp: region_extremities_def)
  qed
  have "sorted_wrt boxes_disjoint (region_extremities region) \<and>
        (\<forall>b \<in> set (region_extremities region). box_nonempty b)"
    using sorted_y_coords [of region] wf_region_elementary [OF assms]
    by (cases "y_coords region") (simp_all add: region_extremities_def bands_disjoint)
  then show "sorted_wrt boxes_disjoint (region_extremities region)"
    and "\<forall>b \<in> set (region_extremities region). box_nonempty b" by blast+
qed

text \<open>
  C3. For a region whose rectangles have non-negative widths, the rectangles the function
  pushes cover exactly the points of the region: a point is in some output rectangle if and
  only if the last rectangle of the region that contains it is an added one. The hypothesis
  on \<open>from_extremities\<close> is its documented meaning, that the rectangle built from two
  corners holds the points between them.
\<close>

theorem region_rects_cover:
  assumes "wf_region region"
    and "\<And>a b p. covers (from_extremities a b) p \<longleftrightarrow> box_covers (a, b) p"
  shows "(\<exists>r \<in> set (region_to_non_overlapping_rects from_extremities region). covers r p)
         \<longleftrightarrow> in_region region p"
  unfolding region_extremities_correct(1) [OF assms(1), symmetric]
  by (simp add: region_to_non_overlapping_rects_def case_prod_unfold assms(2))

definition example_region :: region where
  "example_region =
     [(Add, \<lparr>rect_x = 0, rect_y = 0, rect_w = 20, rect_h = 20\<rparr>),
      (Subtract, \<lparr>rect_x = 5, rect_y = 5, rect_w = 10, rect_h = 10\<rparr>)]"

lemma wf_example_region: "wf_region example_region"
  by (simp add: wf_region_def example_region_def i32_max_def)

theorem region_rects_cover_witness:
  "(\<exists>r \<in> set (region_to_non_overlapping_rects Pair example_region). box_covers r (17, 7)) \<longleftrightarrow>
   in_region example_region (17, 7)"
  by (rule region_rects_cover [OF wf_example_region]) simp

text \<open>
  C4. The output rectangles of such a region are all non-empty and no two of them, taken at
  different positions of the output, have a point in common.
\<close>

theorem region_rects_disjoint:
  assumes "wf_region region"
  shows "sorted_wrt boxes_disjoint (region_to_non_overlapping_rects Pair region) \<and>
         list_all box_nonempty (region_to_non_overlapping_rects Pair region)"
  using region_extremities_correct(2,3) [OF assms]
  by (simp add: region_to_non_overlapping_rects_def case_prod_unfold list_all_iff)

theorem region_rects_disjoint_witness:
  "sorted_wrt boxes_disjoint (region_to_non_overlapping_rects Pair example_region) \<and>
   list_all box_nonempty (region_to_non_overlapping_rects Pair example_region)"
  by (rule region_rects_disjoint [OF wf_example_region])

lemma example_region_rects:
  "region_to_non_overlapping_rects Pair example_region =
     [((0, 0), (20, 5)), ((0, 5), (5, 15)), ((15, 5), (20, 15)), ((0, 15), (20, 20))]"
  by code_simp

end
