(* ===== verification/Tiles.thy ===== *)
theory Tiles
  imports Prelude Complex_Main "HOL-Library.Multiset"
begin

text \<open>
  Data shared by the layout components (\<open>src/layout/mod.rs\<close>, \<open>src/layout/scrolling.rs\<close>,
  \<open>niri-ipc\<close>): sizing modes, column displays and widths, the tile, the layout options, and
  the result of removing a tile.

  The layout is modelled on its discrete state: which windows are in which column, row,
  workspace and monitor, what is active, and the flags that decide it. Pixel geometry, view
  offsets and animations are left out; no field kept here is computed from them, except
  where a definition says so and takes the value as an argument.
\<close>

type_synonym win_id = nat

text \<open>\<open>layout::SizingMode\<close> and \<open>niri_ipc::ColumnDisplay\<close>\<close>

datatype sizing_mode = ModeNormal | Maximized | Fullscreen

datatype column_display = DisplayNormal | Tabbed

text \<open>\<open>ColumnWidth\<close>; the width is only carried around by the operations modelled here\<close>

datatype column_width = Proportion real | FixedWidth real

text \<open>
  A tile with the part of its window the layout asks about: the identity, the sizing mode
  last requested from it (\<open>pending_sizing_mode\<close>) and the window rule that overrides the
  column display. \<open>restore_to_floating\<close> is a flag of the tile itself.
\<close>

record tile =
  win :: win_id
  pending_mode :: sizing_mode
  rule_display :: "column_display option"
  restore_to_floating :: bool

text \<open>The part of \<open>layout::Options\<close> that decides discrete behaviour\<close>

record options =
  default_column_display :: column_display
  empty_workspace_above_first :: bool
  main_axis_vertical :: bool

text \<open>\<open>layout::RemovedTile\<close>\<close>

record removed_tile =
  rt_tile :: tile
  rt_width :: column_width
  rt_is_full_width :: bool
  rt_is_floating :: bool
  rt_is_sticky :: bool

text \<open>
  \<open>layout::ActivateWindow\<close> with \<open>map_smart\<close>; the closure runs only for \<open>Smart\<close>, and
  it may panic
\<close>

datatype activate_request = ActivateYes | ActivateSmart | ActivateNo

fun map_smart :: "activate_request \<Rightarrow> bool option \<Rightarrow> bool option" where
  "map_smart ActivateYes f = Some True"
| "map_smart ActivateSmart f = f"
| "map_smart ActivateNo f = Some False"

end
