(* ===== verification/Scrolling.thy ===== *)
theory Scrolling
  imports Tiles
begin

text \<open>
  \<open>src/layout/scrolling.rs\<close>: the scrollable-tiling space of one workspace, a vector of
  columns of tiles with an active column and an active tile in each.

  The record \<open>column\<close> keeps the fields of \<open>Column\<close> that decide structure and focus;
  \<open>scrolling\<close> keeps those of \<open>ScrollingSpace\<close>. \<open>activate_prev_column_on_removal\<close>
  is an \<open>Option<f64>\<close> in the code, whose number is a view offset: the flag says whether
  it is set. Every operation returns \<open>None\<close> where the code would panic.
\<close>

section \<open>Columns\<close>

record column =
  tiles :: "tile list"
  active_tile_idx :: nat
  col_width :: column_width
  is_full_width :: bool
  is_pending_fullscreen :: bool
  is_pending_maximized :: bool
  display_mode :: column_display

definition pending_sizing_mode :: "column \<Rightarrow> sizing_mode" where
  "pending_sizing_mode c =
     (if is_pending_fullscreen c then Fullscreen
      else if is_pending_maximized c then Maximized
      else ModeNormal)"

definition column_contains :: "win_id \<Rightarrow> column \<Rightarrow> bool" where
  "column_contains w c = list_ex (\<lambda>t. win t = w) (tiles c)"

definition column_position :: "win_id \<Rightarrow> column \<Rightarrow> nat option" where
  "column_position w c = position (\<lambda>t. win t = w) (tiles c)"

definition activate_idx :: "nat \<Rightarrow> column \<Rightarrow> (column \<times> bool) option" where
  "activate_idx idx c =
     (if active_tile_idx c = idx then Some (c, False)
      else if idx < length (tiles c) then Some (c\<lparr>active_tile_idx := idx\<rparr>, True)
      else None)"

definition column_activate_window :: "win_id \<Rightarrow> column \<Rightarrow> column option" where
  "column_activate_window w c =
     do {
       idx \<leftarrow> column_position w c;
       (c', _) \<leftarrow> activate_idx idx c;
       Some c'
     }"

text \<open>
  Every tile is asked for the sizing mode of the column. The requested sizes are not
  modelled; computing them takes the maximum over the tiles, which panics when there is none.
\<close>

definition update_tile_sizes :: "column \<Rightarrow> column option" where
  "update_tile_sizes c =
     (if pending_sizing_mode c = ModeNormal \<and> tiles c = [] then None
      else Some (c\<lparr>tiles := map (\<lambda>t. t\<lparr>pending_mode := pending_sizing_mode c\<rparr>) (tiles c)\<rparr>))"

definition add_tile_at :: "nat \<Rightarrow> tile \<Rightarrow> column \<Rightarrow> column option" where
  "add_tile_at idx t c =
     do {
       let c = (if display_mode c \<noteq> Tabbed
                then c\<lparr>is_pending_fullscreen := False, is_pending_maximized := False\<rparr>
                else c);
       ts \<leftarrow> vec_insert idx t (tiles c);
       update_tile_sizes (c\<lparr>tiles := ts\<rparr>)
     }"

definition column_set_fullscreen :: "bool \<Rightarrow> column \<Rightarrow> column option" where
  "column_set_fullscreen is_fullscreen c =
     (if is_pending_fullscreen c = is_fullscreen then Some c
      else do {
        assert_that (is_fullscreen \<longrightarrow> length (tiles c) = 1 \<or> display_mode c = Tabbed);
        update_tile_sizes (c\<lparr>is_pending_fullscreen := is_fullscreen\<rparr>)
      })"

definition column_set_maximized :: "bool \<Rightarrow> column \<Rightarrow> column option" where
  "column_set_maximized maximize c =
     (if is_pending_maximized c = maximize then Some c
      else do {
        assert_that (maximize \<longrightarrow> length (tiles c) = 1 \<or> display_mode c = Tabbed);
        update_tile_sizes (c\<lparr>is_pending_maximized := maximize\<rparr>)
      })"

definition column_set_display :: "column_display \<Rightarrow> column \<Rightarrow> column option" where
  "column_set_display display c =
     (if display_mode c = display then Some c
      else update_tile_sizes (c\<lparr>display_mode := display\<rparr>))"

definition new_with_tile :: "options \<Rightarrow> tile \<Rightarrow> column_width \<Rightarrow> bool \<Rightarrow> column option" where
  "new_with_tile opts t width full =
     do {
       let display = (case rule_display t of
           Some d \<Rightarrow> d
         | None \<Rightarrow> default_column_display opts);
       let rv = \<lparr>tiles = [], active_tile_idx = 0, col_width = width, is_full_width = full,
                 is_pending_fullscreen = False, is_pending_maximized = False,
                 display_mode = display\<rparr>;
       rv \<leftarrow> add_tile_at 0 t rv;
       (case pending_mode t of
          ModeNormal \<Rightarrow> Some rv
        | Maximized \<Rightarrow> column_set_maximized True rv
        | Fullscreen \<Rightarrow> column_set_fullscreen True rv)
     }"

text \<open>Focus and movement inside a column; the flag says whether anything changed\<close>

definition column_focus_index :: "nat \<Rightarrow> column \<Rightarrow> column option" where
  "column_focus_index index c =
     do {
       last \<leftarrow> sub_usize (length (tiles c)) 1;
       (c', _) \<leftarrow> activate_idx (min (index - 1) last) c;
       Some c'
     }"

definition column_focus_up :: "column \<Rightarrow> (column \<times> bool) option" where
  "column_focus_up c = activate_idx (active_tile_idx c - 1) c"

definition column_focus_down :: "column \<Rightarrow> (column \<times> bool) option" where
  "column_focus_down c =
     do {
       last \<leftarrow> sub_usize (length (tiles c)) 1;
       activate_idx (min (active_tile_idx c + 1) last) c
     }"

definition column_focus_top :: "column \<Rightarrow> column option" where
  "column_focus_top c = map_option fst (activate_idx 0 c)"

definition column_focus_bottom :: "column \<Rightarrow> column option" where
  "column_focus_bottom c =
     do {
       last \<leftarrow> sub_usize (length (tiles c)) 1;
       map_option fst (activate_idx last c)
     }"

definition vec_swap :: "nat \<Rightarrow> nat \<Rightarrow> 'a list \<Rightarrow> 'a list option" where
  "vec_swap i j xs =
     (if i < length xs \<and> j < length xs then Some (xs[i := xs ! j, j := xs ! i]) else None)"

definition move_active_tile_to_adjacent :: "nat \<Rightarrow> column \<Rightarrow> (column \<times> bool) option" where
  "move_active_tile_to_adjacent new_idx c =
     (let old_idx = active_tile_idx c in
      if old_idx = new_idx then Some (c, False)
      else do {
        ts \<leftarrow> vec_swap old_idx new_idx (tiles c);
        Some (c\<lparr>tiles := ts, active_tile_idx := new_idx\<rparr>, True)
      })"

definition column_move_up :: "column \<Rightarrow> (column \<times> bool) option" where
  "column_move_up c = move_active_tile_to_adjacent (active_tile_idx c - 1) c"

definition column_move_down :: "column \<Rightarrow> (column \<times> bool) option" where
  "column_move_down c =
     do {
       last \<leftarrow> sub_usize (length (tiles c)) 1;
       move_active_tile_to_adjacent (min (active_tile_idx c + 1) last) c
     }"

section \<open>The scrolling space\<close>

record scrolling =
  columns :: "column list"
  active_column_idx :: nat
  activate_prev_column_on_removal :: bool
  interactive_resize :: "win_id option"

definition empty_scrolling :: scrolling where
  "empty_scrolling =
     \<lparr>columns = [], active_column_idx = 0, activate_prev_column_on_removal = False,
      interactive_resize = None\<rparr>"

text \<open>The windows of the space, column by column\<close>

definition scrolling_windows :: "scrolling \<Rightarrow> win_id list" where
  "scrolling_windows s = concat (map (\<lambda>c. map win (tiles c)) (columns s))"

definition scrolling_active_window :: "scrolling \<Rightarrow> win_id option option" where
  "scrolling_active_window s =
     (if columns s = [] then Some None
      else do {
        col \<leftarrow> vec_get (columns s) (active_column_idx s);
        t \<leftarrow> vec_get (tiles col) (active_tile_idx col);
        Some (Some (win t))
      })"

definition is_active_pending_fullscreen :: "scrolling \<Rightarrow> bool option" where
  "is_active_pending_fullscreen s =
     (if columns s = [] then Some False
      else do {
        col \<leftarrow> vec_get (columns s) (active_column_idx s);
        Some (pending_sizing_mode col = Fullscreen)
      })"

definition activate_column :: "nat \<Rightarrow> scrolling \<Rightarrow> scrolling option" where
  "activate_column idx s =
     (if active_column_idx s = idx then Some s
      else if idx < length (columns s)
      then Some (s\<lparr>active_column_idx := idx, activate_prev_column_on_removal := False,
                   interactive_resize := None\<rparr>)
      else None)"

definition set_column :: "nat \<Rightarrow> column \<Rightarrow> scrolling \<Rightarrow> scrolling" where
  "set_column i c s = s\<lparr>columns := (columns s)[i := c]\<rparr>"

definition add_column :: "nat option \<Rightarrow> column \<Rightarrow> bool \<Rightarrow> scrolling \<Rightarrow> scrolling option" where
  "add_column idx_opt c activate s =
     do {
       let was_empty = (columns s = []);
       let idx = (case idx_opt of
           Some i \<Rightarrow> i
         | None \<Rightarrow> (if was_empty then 0 else active_column_idx s + 1));
       cols \<leftarrow> vec_insert idx c (columns s);
       let s = s\<lparr>columns := cols,
                 active_column_idx :=
                   (if \<not> was_empty \<and> idx \<le> active_column_idx s
                    then active_column_idx s + 1 else active_column_idx s)\<rparr>;
       if activate then do {
         let prev_offset = (\<not> was_empty \<and> idx = active_column_idx s + 1);
         s \<leftarrow> activate_column idx s;
         Some (s\<lparr>activate_prev_column_on_removal := prev_offset\<rparr>)
       } else Some s
     }"

definition add_tile ::
  "options \<Rightarrow> nat option \<Rightarrow> tile \<Rightarrow> bool \<Rightarrow> column_width \<Rightarrow> bool \<Rightarrow> scrolling \<Rightarrow> scrolling option"
  where
  "add_tile opts col_idx t activate width full s =
     do {
       c \<leftarrow> new_with_tile opts t width full;
       add_column col_idx c activate s
     }"

definition add_tile_to_column ::
  "nat \<Rightarrow> nat option \<Rightarrow> tile \<Rightarrow> bool \<Rightarrow> scrolling \<Rightarrow> scrolling option" where
  "add_tile_to_column col_idx tile_idx t activate s =
     do {
       c \<leftarrow> vec_get (columns s) col_idx;
       let tile_idx = (case tile_idx of Some i \<Rightarrow> i | None \<Rightarrow> length (tiles c));
       let prev_active_tile_idx = active_tile_idx c;
       c \<leftarrow> add_tile_at tile_idx t c;
       let c = (if tile_idx \<le> prev_active_tile_idx
                then c\<lparr>active_tile_idx := active_tile_idx c + 1\<rparr> else c);
       if activate then do {
         (c, _) \<leftarrow> activate_idx tile_idx c;
         let s = set_column col_idx c s;
         if active_column_idx s \<noteq> col_idx then activate_column col_idx s else Some s
       } else Some (set_column col_idx c s)
     }"

definition add_tile_right_of ::
  "options \<Rightarrow> win_id \<Rightarrow> tile \<Rightarrow> bool \<Rightarrow> column_width \<Rightarrow> bool \<Rightarrow> scrolling \<Rightarrow> scrolling option"
  where
  "add_tile_right_of opts right_of t activate width full s =
     do {
       right_of_idx \<leftarrow> position (column_contains right_of) (columns s);
       add_tile opts (Some (right_of_idx + 1)) t activate width full s
     }"

definition stop_resize_of :: "(win_id \<Rightarrow> bool) \<Rightarrow> win_id option \<Rightarrow> win_id option" where
  "stop_resize_of p r = (case r of Some w \<Rightarrow> (if p w then None else Some w) | None \<Rightarrow> None)"

definition remove_column_by_idx :: "nat \<Rightarrow> scrolling \<Rightarrow> (column \<times> scrolling) option" where
  "remove_column_by_idx column_idx s =
     do {
       (column, cols) \<leftarrow> vec_remove column_idx (columns s);
       let s = s\<lparr>columns := cols,
                 interactive_resize :=
                   stop_resize_of (\<lambda>w. column_contains w column) (interactive_resize s)\<rparr>;
       let s = (if column_idx + 1 = active_column_idx s
                then s\<lparr>activate_prev_column_on_removal := False\<rparr> else s);
       if columns s = [] then Some (column, s)
       else if column_idx < active_column_idx s then
         Some (column, s\<lparr>active_column_idx := active_column_idx s - 1,
                         activate_prev_column_on_removal := False\<rparr>)
       else if column_idx = active_column_idx s \<and> activate_prev_column_on_removal s then
         (if 0 < column_idx
          then do { s \<leftarrow> activate_column (active_column_idx s - 1) s; Some (column, s) }
          else Some (column, s))
       else do {
         s \<leftarrow> activate_column (min (active_column_idx s) (length (columns s) - 1)) s;
         Some (column, s)
       }
     }"

text \<open>The active tile index after the tile at \<open>tile_idx\<close> has been taken out of the vector\<close>

definition keep_active_tile :: "nat \<Rightarrow> column \<Rightarrow> column option" where
  "keep_active_tile tile_idx c =
     (if tile_idx < active_tile_idx c
      then Some (c\<lparr>active_tile_idx := active_tile_idx c - 1\<rparr>)
      else if tile_idx = active_tile_idx c \<and> tile_idx = length (tiles c)
      then do { i \<leftarrow> sub_usize tile_idx 1; map_option fst (activate_idx i c) }
      else Some c)"

definition remove_tile_by_idx ::
  "nat \<Rightarrow> nat \<Rightarrow> scrolling \<Rightarrow> (removed_tile \<times> scrolling) option" where
  "remove_tile_by_idx column_idx tile_idx s =
     do {
       c \<leftarrow> vec_get (columns s) column_idx;
       if length (tiles c) = 1 then do {
         (col, s) \<leftarrow> remove_column_by_idx column_idx s;
         (t, _) \<leftarrow> vec_remove tile_idx (tiles col);
         Some (\<lparr>rt_tile = t, rt_width = col_width col, rt_is_full_width = is_full_width col,
                rt_is_floating = False, rt_is_sticky = False\<rparr>, s)
       } else do {
         (t, ts) \<leftarrow> vec_remove tile_idx (tiles c);
         let c = c\<lparr>tiles := ts\<rparr>;
         let s = s\<lparr>interactive_resize :=
                   stop_resize_of (\<lambda>w. win t = w) (interactive_resize s)\<rparr>;
         c \<leftarrow> keep_active_tile tile_idx c;
         c \<leftarrow> update_tile_sizes c;
         Some (\<lparr>rt_tile = t, rt_width = col_width c, rt_is_full_width = is_full_width c,
                rt_is_floating = False, rt_is_sticky = False\<rparr>, set_column column_idx c s)
       }
     }"

definition remove_tile :: "win_id \<Rightarrow> scrolling \<Rightarrow> (removed_tile \<times> scrolling) option" where
  "remove_tile w s =
     do {
       column_idx \<leftarrow> position (column_contains w) (columns s);
       c \<leftarrow> vec_get (columns s) column_idx;
       tile_idx \<leftarrow> column_position w c;
       remove_tile_by_idx column_idx tile_idx s
     }"

definition remove_active_column :: "scrolling \<Rightarrow> (column option \<times> scrolling) option" where
  "remove_active_column s =
     (if columns s = [] then Some (None, s)
      else do {
        (c, s) \<leftarrow> remove_column_by_idx (active_column_idx s) s;
        Some (Some c, s)
      })"

definition activate_window :: "win_id \<Rightarrow> scrolling \<Rightarrow> (scrolling \<times> bool) option" where
  "activate_window w s =
     (case position (column_contains w) (columns s) of
        None \<Rightarrow> Some (s, False)
      | Some column_idx \<Rightarrow> do {
          c \<leftarrow> vec_get (columns s) column_idx;
          c \<leftarrow> column_activate_window w c;
          s \<leftarrow> activate_column column_idx (set_column column_idx c s);
          Some (s, True)
        })"

section \<open>Focus\<close>

definition focus_left :: "scrolling \<Rightarrow> (scrolling \<times> bool) option" where
  "focus_left s =
     (if active_column_idx s = 0 then Some (s, False)
      else do { s \<leftarrow> activate_column (active_column_idx s - 1) s; Some (s, True) })"

definition focus_right :: "scrolling \<Rightarrow> (scrolling \<times> bool) option" where
  "focus_right s =
     (if length (columns s) \<le> active_column_idx s + 1 then Some (s, False)
      else do { s \<leftarrow> activate_column (active_column_idx s + 1) s; Some (s, True) })"

definition focus_column_first :: "scrolling \<Rightarrow> scrolling option" where
  "focus_column_first s = activate_column 0 s"

definition focus_column_last :: "scrolling \<Rightarrow> scrolling option" where
  "focus_column_last s =
     (if columns s = [] then Some s else activate_column (length (columns s) - 1) s)"

definition focus_column :: "nat \<Rightarrow> scrolling \<Rightarrow> scrolling option" where
  "focus_column index s =
     (if columns s = [] then Some s
      else activate_column (min (index - 1) (length (columns s) - 1)) s)"

text \<open>The operations that forward to the active column, with their early return\<close>

definition on_active_column ::
  "(column \<Rightarrow> (column \<times> bool) option) \<Rightarrow> scrolling \<Rightarrow> (scrolling \<times> bool) option" where
  "on_active_column f s =
     (if columns s = [] then Some (s, False)
      else do {
        c \<leftarrow> vec_get (columns s) (active_column_idx s);
        (c, changed) \<leftarrow> f c;
        Some (set_column (active_column_idx s) c s, changed)
      })"

definition focus_window_in_column :: "nat \<Rightarrow> scrolling \<Rightarrow> scrolling option" where
  "focus_window_in_column index s =
     map_option fst
       (on_active_column (\<lambda>c. map_option (\<lambda>c. (c, True)) (column_focus_index index c)) s)"

definition focus_down :: "scrolling \<Rightarrow> (scrolling \<times> bool) option" where
  "focus_down s = on_active_column column_focus_down s"

definition focus_up :: "scrolling \<Rightarrow> (scrolling \<times> bool) option" where
  "focus_up s = on_active_column column_focus_up s"

definition focus_or ::
  "(scrolling \<Rightarrow> (scrolling \<times> bool) option) \<Rightarrow> (scrolling \<Rightarrow> (scrolling \<times> bool) option)
   \<Rightarrow> scrolling \<Rightarrow> scrolling option" where
  "focus_or first second s =
     (if columns s = [] then Some s
      else do {
        (s, changed) \<leftarrow> first s;
        if changed then Some s else map_option fst (second s)
      })"

definition focus_down_or_left :: "scrolling \<Rightarrow> scrolling option" where
  "focus_down_or_left s = focus_or focus_down focus_left s"

definition focus_down_or_right :: "scrolling \<Rightarrow> scrolling option" where
  "focus_down_or_right s = focus_or focus_down focus_right s"

definition focus_up_or_left :: "scrolling \<Rightarrow> scrolling option" where
  "focus_up_or_left s = focus_or focus_up focus_left s"

definition focus_up_or_right :: "scrolling \<Rightarrow> scrolling option" where
  "focus_up_or_right s = focus_or focus_up focus_right s"

definition focus_top :: "scrolling \<Rightarrow> scrolling option" where
  "focus_top s =
     map_option fst (on_active_column (\<lambda>c. map_option (\<lambda>c. (c, True)) (column_focus_top c)) s)"

definition focus_bottom :: "scrolling \<Rightarrow> scrolling option" where
  "focus_bottom s =
     map_option fst
       (on_active_column (\<lambda>c. map_option (\<lambda>c. (c, True)) (column_focus_bottom c)) s)"

section \<open>Movement\<close>

definition cancel_resize_for_column :: "column \<Rightarrow> scrolling \<Rightarrow> scrolling" where
  "cancel_resize_for_column c s =
     s\<lparr>interactive_resize := stop_resize_of (\<lambda>w. column_contains w c) (interactive_resize s)\<rparr>"

definition move_column_to :: "nat \<Rightarrow> scrolling \<Rightarrow> scrolling option" where
  "move_column_to new_idx s =
     (if active_column_idx s = new_idx then Some s
      else do {
        (column, cols) \<leftarrow> vec_remove (active_column_idx s) (columns s);
        let s = cancel_resize_for_column column s;
        cols \<leftarrow> vec_insert new_idx column cols;
        activate_column new_idx (s\<lparr>columns := cols\<rparr>)
      })"

definition move_column_to_index :: "nat \<Rightarrow> scrolling \<Rightarrow> scrolling option" where
  "move_column_to_index index s =
     (if columns s = [] then Some s
      else move_column_to (min (index - 1) (length (columns s) - 1)) s)"

definition move_left :: "scrolling \<Rightarrow> (scrolling \<times> bool) option" where
  "move_left s =
     (if active_column_idx s = 0 then Some (s, False)
      else do { s \<leftarrow> move_column_to (active_column_idx s - 1) s; Some (s, True) })"

definition move_right :: "scrolling \<Rightarrow> (scrolling \<times> bool) option" where
  "move_right s =
     (let new_idx = active_column_idx s + 1 in
      if length (columns s) \<le> new_idx then Some (s, False)
      else do { s \<leftarrow> move_column_to new_idx s; Some (s, True) })"

definition move_column_to_first :: "scrolling \<Rightarrow> scrolling option" where
  "move_column_to_first s = move_column_to 0 s"

definition move_column_to_last :: "scrolling \<Rightarrow> scrolling option" where
  "move_column_to_last s =
     (if columns s = [] then Some s else move_column_to (length (columns s) - 1) s)"

definition move_down :: "scrolling \<Rightarrow> (scrolling \<times> bool) option" where
  "move_down s = on_active_column column_move_down s"

definition move_up :: "scrolling \<Rightarrow> (scrolling \<times> bool) option" where
  "move_up s = on_active_column column_move_up s"

section \<open>Interactive resize\<close>

definition sc_resize_begin :: "win_id \<Rightarrow> scrolling \<Rightarrow> (scrolling \<times> bool) option" where
  "sc_resize_begin w s =
     (if interactive_resize s \<noteq> None then Some (s, False)
      else do {
        ci \<leftarrow> position (column_contains w) (columns s);
        c \<leftarrow> vec_get (columns s) ci;
        if pending_sizing_mode c \<noteq> ModeNormal then Some (s, False)
        else do {
          _ \<leftarrow> column_position w c;
          Some (s\<lparr>interactive_resize := Some w\<rparr>, True)
        }
      })"

definition sc_resize_end :: "win_id option \<Rightarrow> scrolling \<Rightarrow> scrolling option" where
  "sc_resize_end window s =
     (case interactive_resize s of
        None \<Rightarrow> Some s
      | Some r \<Rightarrow>
          (case window of
             Some w \<Rightarrow>
               (if w \<noteq> r then Some s
                else do {
                  _ \<leftarrow> vec_get (columns s) (active_column_idx s);
                  Some (s\<lparr>interactive_resize := None\<rparr>)
                })
           | None \<Rightarrow> Some (s\<lparr>interactive_resize := None\<rparr>)))"

end
