(* ===== verification/ScrollingMoves.thy ===== *)
theory ScrollingMoves
  imports Scrolling
begin

text \<open>
  \<open>src/layout/scrolling.rs\<close>, continued: the operations that move windows between columns
  (consume, expel, swap) and the ones that change how a column is displayed (tabs,
  fullscreen, maximized).
\<close>

section \<open>Consume and expel\<close>

definition locate :: "win_id \<Rightarrow> column list \<Rightarrow> (nat \<times> nat) option" where
  "locate w cols =
     do {
       ci \<leftarrow> position (column_contains w) cols;
       c \<leftarrow> vec_get cols ci;
       ti \<leftarrow> column_position w c;
       Some (ci, ti)
     }"

definition locate_or_active :: "win_id option \<Rightarrow> scrolling \<Rightarrow> (nat \<times> nat) option" where
  "locate_or_active window s =
     (case window of
        Some w \<Rightarrow> locate w (columns s)
      | None \<Rightarrow> do {
          c \<leftarrow> vec_get (columns s) (active_column_idx s);
          Some (active_column_idx s, active_tile_idx c)
        })"

definition consume_or_expel_window_left ::
  "options \<Rightarrow> win_id option \<Rightarrow> scrolling \<Rightarrow> scrolling option" where
  "consume_or_expel_window_left opts window s =
     (if columns s = [] then Some s
      else do {
        (source_col_idx, source_tile_idx) \<leftarrow> locate_or_active window s;
        source \<leftarrow> vec_get (columns s) source_col_idx;
        let was_active = (active_column_idx s = source_col_idx \<and>
                          active_tile_idx source = source_tile_idx);
        if length (tiles source) = 1 then
          (if source_col_idx = 0 then Some s
           else do {
             let target_column_idx = source_col_idx - 1;
             let s = (if was_active then s\<lparr>activate_prev_column_on_removal := True\<rparr> else s);
             (removed, s) \<leftarrow> remove_tile_by_idx source_col_idx 0 s;
             add_tile_to_column target_column_idx None (rt_tile removed) was_active s
           })
        else do {
          (removed, s) \<leftarrow> remove_tile_by_idx source_col_idx source_tile_idx s;
          s \<leftarrow> add_tile opts (Some source_col_idx) (rt_tile removed) was_active
                 (rt_width removed) (rt_is_full_width removed) s;
          Some (if was_active then s\<lparr>activate_prev_column_on_removal := False\<rparr> else s)
        }
      })"

definition consume_or_expel_window_right ::
  "options \<Rightarrow> win_id option \<Rightarrow> scrolling \<Rightarrow> scrolling option" where
  "consume_or_expel_window_right opts window s =
     (if columns s = [] then Some s
      else do {
        (source_col_idx, source_tile_idx) \<leftarrow> locate_or_active window s;
        source \<leftarrow> vec_get (columns s) source_col_idx;
        let was_active = (active_column_idx s = source_col_idx \<and>
                          active_tile_idx source = source_tile_idx);
        if length (tiles source) = 1 then
          (if source_col_idx + 1 = length (columns s) then Some s
           else do {
             let s = (if was_active then s\<lparr>activate_prev_column_on_removal := False\<rparr> else s);
             (removed, s) \<leftarrow> remove_tile_by_idx source_col_idx 0 s;
             add_tile_to_column source_col_idx None (rt_tile removed) was_active s
           })
        else do {
          (removed, s) \<leftarrow> remove_tile_by_idx source_col_idx source_tile_idx s;
          add_tile opts (Some (source_col_idx + 1)) (rt_tile removed) was_active
            (rt_width removed) (rt_is_full_width removed) s
        }
      })"

definition consume_into_column :: "scrolling \<Rightarrow> scrolling option" where
  "consume_into_column s =
     (if length (columns s) < 2 then Some s
      else if active_column_idx s = length (columns s) - 1 then Some s
      else do {
        let target_column_idx = active_column_idx s;
        let source_column_idx = active_column_idx s + 1;
        (removed, s) \<leftarrow> remove_tile_by_idx source_column_idx 0 s;
        add_tile_to_column target_column_idx None (rt_tile removed) False s
      })"

definition expel_from_column :: "options \<Rightarrow> scrolling \<Rightarrow> scrolling option" where
  "expel_from_column opts s =
     (if columns s = [] then Some s
      else do {
        let source_col_idx = active_column_idx s;
        let target_col_idx = active_column_idx s + 1;
        source \<leftarrow> vec_get (columns s) source_col_idx;
        if length (tiles source) = 1 then Some s
        else do {
          source_tile_idx \<leftarrow> sub_usize (length (tiles source)) 1;
          (removed, s) \<leftarrow> remove_tile_by_idx source_col_idx source_tile_idx s;
          add_tile opts (Some target_col_idx) (rt_tile removed) False
            (rt_width removed) (rt_is_full_width removed) s
        }
      })"

section \<open>Swapping windows between adjacent columns\<close>

datatype scroll_direction = ScrollLeft | ScrollRight

definition set_active_tile :: "nat \<Rightarrow> nat \<Rightarrow> scrolling \<Rightarrow> scrolling option" where
  "set_active_tile col_idx tile_idx s =
     do {
       c \<leftarrow> vec_get (columns s) col_idx;
       Some (set_column col_idx (c\<lparr>active_tile_idx := tile_idx\<rparr>) s)
     }"

definition swap_windows ::
  "options \<Rightarrow> scroll_direction \<Rightarrow> nat \<Rightarrow> nat \<Rightarrow> column \<Rightarrow> column \<Rightarrow> scrolling \<Rightarrow> scrolling option" where
  "swap_windows opts direction source_column_idx target_column_idx source target s =
     do {
       let source_tile_idx = active_tile_idx source;
       let target_tile_idx = active_tile_idx target;
       let source_column_drained = (length (tiles source) = 1);
       (source_removed, s) \<leftarrow> remove_tile_by_idx source_column_idx source_tile_idx s;
       let adjusted_target_column_idx =
         (if direction = ScrollRight \<and> source_column_drained
          then target_column_idx - 1 else target_column_idx);
       s \<leftarrow> add_tile_to_column adjusted_target_column_idx (Some target_tile_idx)
              (rt_tile source_removed) False s;
       (target_removed, s) \<leftarrow> remove_tile_by_idx adjusted_target_column_idx
              (target_tile_idx + 1) s;
       s \<leftarrow> (if source_column_drained
             then add_tile opts (Some source_column_idx) (rt_tile target_removed) True
                    (rt_width source_removed) (rt_is_full_width source_removed) s
             else add_tile_to_column source_column_idx (Some source_tile_idx)
                    (rt_tile target_removed) False s);
       s \<leftarrow> set_active_tile source_column_idx source_tile_idx s;
       s \<leftarrow> set_active_tile target_column_idx target_tile_idx s;
       activate_column target_column_idx s
     }"

definition swap_window_in_direction ::
  "options \<Rightarrow> scroll_direction \<Rightarrow> scrolling \<Rightarrow> scrolling option" where
  "swap_window_in_direction opts direction s =
     (if columns s = [] then Some s
      else if direction = ScrollLeft \<and> active_column_idx s = 0 then Some s
      else if direction = ScrollRight \<and> active_column_idx s = length (columns s) - 1 then Some s
      else do {
        let source_column_idx = active_column_idx s;
        let target_column_idx =
          (case direction of
             ScrollLeft \<Rightarrow> active_column_idx s - 1
           | ScrollRight \<Rightarrow> active_column_idx s + 1);
        source \<leftarrow> vec_get (columns s) source_column_idx;
        target \<leftarrow> vec_get (columns s) target_column_idx;
        if length (tiles source) = 1 \<and> length (tiles target) = 1
        then move_column_to target_column_idx s
        else swap_windows opts direction source_column_idx target_column_idx source target s
      })"

section \<open>Fullscreen, maximized and tabbed display\<close>

definition set_fullscreen ::
  "options \<Rightarrow> win_id \<Rightarrow> bool \<Rightarrow> scrolling \<Rightarrow> (scrolling \<times> bool) option" where
  "set_fullscreen opts window is_fullscreen s =
     do {
       col_idx \<leftarrow> position (column_contains window) (columns s);
       col \<leftarrow> vec_get (columns s) col_idx;
       if is_fullscreen = is_pending_fullscreen col then Some (s, False)
       else do {
         let is_tabbed = (display_mode col = Tabbed);
         let s = cancel_resize_for_column col s;
         (s, col_idx) \<leftarrow>
           (if is_fullscreen \<and> 1 < length (tiles col) \<and> \<not> is_tabbed
            then do {
              s \<leftarrow> consume_or_expel_window_right opts (Some window) s;
              Some (s, col_idx + 1)
            } else Some (s, col_idx));
         col \<leftarrow> vec_get (columns s) col_idx;
         col \<leftarrow> column_set_fullscreen is_fullscreen col;
         Some (set_column col_idx col s, True)
       }
     }"

definition set_maximized ::
  "options \<Rightarrow> win_id \<Rightarrow> bool \<Rightarrow> scrolling \<Rightarrow> (scrolling \<times> bool) option" where
  "set_maximized opts window maximize s =
     do {
       col_idx \<leftarrow> position (column_contains window) (columns s);
       col \<leftarrow> vec_get (columns s) col_idx;
       if maximize = is_pending_maximized col then Some (s, False)
       else do {
         let is_tabbed = (display_mode col = Tabbed);
         let s = cancel_resize_for_column col s;
         (s, col_idx) \<leftarrow>
           (if maximize \<and> 1 < length (tiles col) \<and> \<not> is_tabbed
            then do {
              s \<leftarrow> consume_or_expel_window_right opts (Some window) s;
              Some (s, col_idx + 1)
            } else Some (s, col_idx));
         col \<leftarrow> vec_get (columns s) col_idx;
         col \<leftarrow> column_set_maximized maximize col;
         Some (set_column col_idx col s, True)
       }
     }"

definition set_column_display ::
  "options \<Rightarrow> column_display \<Rightarrow> scrolling \<Rightarrow> scrolling option" where
  "set_column_display opts display s =
     (if columns s = [] then Some s
      else do {
        col \<leftarrow> vec_get (columns s) (active_column_idx s);
        if display_mode col = display then Some s
        else do {
          let s = cancel_resize_for_column col s;
          col \<leftarrow> column_set_display display col;
          col \<leftarrow> update_tile_sizes col;
          let s = set_column (active_column_idx s) col s;
          if display_mode col \<noteq> Tabbed \<and> 1 < length (tiles col) then do {
            t \<leftarrow> vec_get (tiles col) (active_tile_idx col);
            (s, _) \<leftarrow> set_fullscreen opts (win t) False s;
            (s, _) \<leftarrow> set_maximized opts (win t) False s;
            Some s
          } else Some s
        }
      })"

definition toggle_column_tabbed_display :: "options \<Rightarrow> scrolling \<Rightarrow> scrolling option" where
  "toggle_column_tabbed_display opts s =
     (if columns s = [] then Some s
      else do {
        col \<leftarrow> vec_get (columns s) (active_column_idx s);
        set_column_display opts
          (case display_mode col of DisplayNormal \<Rightarrow> Tabbed | Tabbed \<Rightarrow> DisplayNormal) s
      })"

end
