(* ===== verification/ScrollingInv.thy ===== *)
theory ScrollingInv
  imports ScrollingMoves
begin

text \<open>
  The invariant of the scrolling space (\<open>Column::verify_invariants\<close> and
  \<open>ScrollingSpace::verify_invariants\<close> of \<open>src/layout/scrolling.rs\<close>), the multiset of
  windows each operation keeps, and the fact that no operation panics on a space that
  satisfies the invariant.
\<close>

section \<open>The invariant\<close>

definition col_ok :: "column \<Rightarrow> bool" where
  "col_ok c \<longleftrightarrow>
     tiles c \<noteq> [] \<and> active_tile_idx c < length (tiles c) \<and>
     (pending_sizing_mode c \<noteq> ModeNormal \<longrightarrow> length (tiles c) = 1 \<or> display_mode c = Tabbed) \<and>
     list_all (\<lambda>t. pending_mode t = pending_sizing_mode c) (tiles c)"

definition scrolling_ok :: "scrolling \<Rightarrow> bool" where
  "scrolling_ok s \<longleftrightarrow>
     list_all col_ok (columns s) \<and>
     (if columns s = [] then active_column_idx s = 0
      else active_column_idx s < length (columns s)) \<and>
     (\<forall>w. interactive_resize s = Some w \<longrightarrow> w \<in> set (scrolling_windows s))"

definition wins :: "column \<Rightarrow> win_id list" where
  "wins c = map win (tiles c)"

lemma scrolling_windows_wins: "scrolling_windows s = concat (map wins (columns s))"
  by (simp add: scrolling_windows_def wins_def [abs_def])

lemma column_contains_wins [simp]: "column_contains w c \<longleftrightarrow> w \<in> set (wins c)"
  by (auto simp: column_contains_def wins_def list_ex_iff)

lemma scrolling_ok_empty: "scrolling_ok empty_scrolling"
  by (simp add: scrolling_ok_def empty_scrolling_def)

section \<open>Columns\<close>

lemma activate_idx_Some [simp]:
  "idx < length (tiles c) \<Longrightarrow>
   activate_idx idx c = Some (c\<lparr>active_tile_idx := idx\<rparr>, active_tile_idx c \<noteq> idx)"
  by (auto simp: activate_idx_def)

lemma pending_sizing_mode_upd [simp]:
  "pending_sizing_mode (c\<lparr>active_tile_idx := i\<rparr>) = pending_sizing_mode c"
  "pending_sizing_mode (c\<lparr>tiles := ts\<rparr>) = pending_sizing_mode c"
  "pending_sizing_mode (c\<lparr>display_mode := d\<rparr>) = pending_sizing_mode c"
  by (simp_all add: pending_sizing_mode_def)

lemma wins_upd [simp]:
  "wins (c\<lparr>active_tile_idx := i\<rparr>) = wins c"
  "wins (c\<lparr>display_mode := d\<rparr>) = wins c"
  "wins (c\<lparr>is_pending_fullscreen := b\<rparr>) = wins c"
  "wins (c\<lparr>is_pending_maximized := b\<rparr>) = wins c"
  "wins (c\<lparr>tiles := ts\<rparr>) = map win ts"
  by (simp_all add: wins_def)

lemma length_wins [simp]: "length (wins c) = length (tiles c)"
  by (simp add: wins_def)

lemma col_ok_active: "col_ok c \<Longrightarrow> i < length (tiles c) \<Longrightarrow> col_ok (c\<lparr>active_tile_idx := i\<rparr>)"
  by (simp add: col_ok_def)

lemma col_okD:
  assumes "col_ok c"
  shows "tiles c \<noteq> []" "active_tile_idx c < length (tiles c)" "0 < length (tiles c)"
  using assms by (auto simp: col_ok_def)

lemma update_tile_sizes_Some:
  "tiles c \<noteq> [] \<Longrightarrow>
   update_tile_sizes c =
     Some (c\<lparr>tiles := map (\<lambda>t. t\<lparr>pending_mode := pending_sizing_mode c\<rparr>) (tiles c)\<rparr>)"
  by (simp add: update_tile_sizes_def)

lemma col_ok_retile:
  assumes "ts \<noteq> []" "m < length ts"
    and "pending_sizing_mode c \<noteq> ModeNormal \<longrightarrow> length ts = 1 \<or> display_mode c = Tabbed"
  shows "col_ok (c\<lparr>tiles := map (\<lambda>t. t\<lparr>pending_mode := pending_sizing_mode c\<rparr>) ts,
                   active_tile_idx := m\<rparr>)"
  using assms by (auto simp: col_ok_def list_all_iff)

lemma wins_map_mode [simp]:
  "map win (map (\<lambda>t. t\<lparr>pending_mode := m\<rparr>) ts) = map win ts"
  by simp

lemma add_tile_at_returns:
  assumes "idx \<le> length (tiles c)"
  shows "returns (add_tile_at idx t c) (\<lambda>c'.
           length (tiles c') = Suc (length (tiles c)) \<and> wins c' = insert_at idx (win t) (wins c) \<and>
           active_tile_idx c' = active_tile_idx c \<and> display_mode c' = display_mode c \<and>
           col_width c' = col_width c \<and> is_full_width c' = is_full_width c \<and>
           (pending_sizing_mode c' \<noteq> ModeNormal \<longrightarrow> display_mode c' = Tabbed) \<and>
           list_all (\<lambda>t. pending_mode t = pending_sizing_mode c') (tiles c'))"
proof -
  have ne: "insert_at idx t (tiles c) \<noteq> []"
    by (simp add: insert_at_def)
  show ?thesis
    using assms ne
    by (auto simp: add_tile_at_def Let_def update_tile_sizes_Some wins_def map_insert_at list_all_iff
        pending_sizing_mode_def comp_def)
qed

lemma column_set_fullscreen_returns:
  assumes "col_ok c" "b \<longrightarrow> length (tiles c) = 1 \<or> display_mode c = Tabbed"
  shows "returns (column_set_fullscreen b c) (\<lambda>c'. col_ok c' \<and> wins c' = wins c \<and>
           is_pending_fullscreen c' = b \<and> is_pending_maximized c' = is_pending_maximized c \<and>
           active_tile_idx c' = active_tile_idx c \<and> display_mode c' = display_mode c)"
  using assms
  by (auto simp: column_set_fullscreen_def update_tile_sizes_Some col_ok_def wins_def list_all_iff comp_def
      pending_sizing_mode_def split: if_splits)

lemma column_set_maximized_returns:
  assumes "col_ok c" "b \<longrightarrow> length (tiles c) = 1 \<or> display_mode c = Tabbed"
  shows "returns (column_set_maximized b c) (\<lambda>c'. col_ok c' \<and> wins c' = wins c \<and>
           is_pending_maximized c' = b \<and> is_pending_fullscreen c' = is_pending_fullscreen c \<and>
           active_tile_idx c' = active_tile_idx c \<and> display_mode c' = display_mode c)"
  using assms
  by (auto simp: column_set_maximized_def update_tile_sizes_Some col_ok_def wins_def list_all_iff comp_def
      pending_sizing_mode_def split: if_splits)

lemma new_with_tile_returns:
  "returns (new_with_tile opts t width full) (\<lambda>c. col_ok c \<and> wins c = [win t] \<and>
     active_tile_idx c = 0 \<and> col_width c = width \<and> is_full_width c = full \<and>
     pending_sizing_mode c = pending_mode t)"
proof -
  let ?d = "case rule_display t of Some d \<Rightarrow> d | None \<Rightarrow> default_column_display opts"
  have "insert_at 0 t [] = [t]" by simp
  then show ?thesis
    by (cases "pending_mode t")
      (auto simp: new_with_tile_def Let_def add_tile_at_def update_tile_sizes_Some
        column_set_fullscreen_def column_set_maximized_def pending_sizing_mode_def
        col_ok_def wins_def)
qed

section \<open>The space without its active column\<close>

text \<open>
  While an operation runs, the active index can be stale (one past the end after the last
  column was removed); \<open>cols_ok\<close> is the part of the invariant that still holds.
\<close>

definition cols_ok :: "scrolling \<Rightarrow> bool" where
  "cols_ok s \<longleftrightarrow>
     list_all col_ok (columns s) \<and>
     (\<forall>w. interactive_resize s = Some w \<longrightarrow> w \<in> set (scrolling_windows s))"

lemma scrolling_ok_cols:
  "scrolling_ok s \<longleftrightarrow> cols_ok s \<and>
     (if columns s = [] then active_column_idx s = 0
      else active_column_idx s < length (columns s))"
  by (auto simp: scrolling_ok_def cols_ok_def)

lemma scrolling_okD:
  assumes "scrolling_ok s"
  shows "cols_ok s" "columns s = [] \<Longrightarrow> active_column_idx s = 0"
    "columns s \<noteq> [] \<Longrightarrow> active_column_idx s < length (columns s)"
  using assms by (auto simp: scrolling_ok_cols split: if_splits)

lemma cols_ok_nth: "cols_ok s \<Longrightarrow> i < length (columns s) \<Longrightarrow> col_ok (columns s ! i)"
  by (simp add: cols_ok_def list_all_length)

lemma scrolling_windows_upd [simp]:
  "scrolling_windows (s\<lparr>active_column_idx := i\<rparr>) = scrolling_windows s"
  "scrolling_windows (s\<lparr>activate_prev_column_on_removal := b\<rparr>) = scrolling_windows s"
  "scrolling_windows (s\<lparr>interactive_resize := r\<rparr>) = scrolling_windows s"
  by (simp_all add: scrolling_windows_def)

lemma cols_ok_upd [simp]:
  "cols_ok (s\<lparr>active_column_idx := i\<rparr>) = cols_ok s"
  "cols_ok (s\<lparr>activate_prev_column_on_removal := b\<rparr>) = cols_ok s"
  by (simp_all add: cols_ok_def)

lemma scrolling_ok_prev [simp]:
  "scrolling_ok (s\<lparr>activate_prev_column_on_removal := b\<rparr>) = scrolling_ok s"
  by (simp add: scrolling_ok_cols)

lemma activate_column_returns:
  assumes "cols_ok s" "idx < length (columns s)"
  shows "returns (activate_column idx s) (\<lambda>s'. scrolling_ok s' \<and> columns s' = columns s \<and>
           active_column_idx s' = idx \<and>
           activate_prev_column_on_removal s' =
             (activate_prev_column_on_removal s \<and> active_column_idx s = idx))"
proof -
  have "columns s \<noteq> []" using assms(2) by auto
  with assms show ?thesis
    by (auto simp: activate_column_def scrolling_ok_cols cols_ok_def)
qed

lemma set_column_simps [simp]:
  "columns (set_column i c s) = (columns s)[i := c]"
  "active_column_idx (set_column i c s) = active_column_idx s"
  "activate_prev_column_on_removal (set_column i c s) = activate_prev_column_on_removal s"
  "interactive_resize (set_column i c s) = interactive_resize s"
  by (simp_all add: set_column_def)

lemma scrolling_windows_set_column:
  "i < length (columns s) \<Longrightarrow>
   mset (scrolling_windows (set_column i c s)) + mset (wins (columns s ! i)) =
     mset (wins c) + mset (scrolling_windows s)"
  using concat_update_mset [of i "map wins (columns s)" "wins c"]
  by (simp add: scrolling_windows_wins map_update)

lemma set_mset_eqI: "mset xs = mset ys \<Longrightarrow> set xs = set ys"
  by (metis set_mset_mset)

lemma in_windows_conv:
  "w \<in> set (scrolling_windows s) \<longleftrightarrow>
     (\<exists>i < length (columns s). w \<in> set (wins (columns s ! i)))"
  by (simp add: scrolling_windows_wins) (metis in_set_conv_nth)

lemma set_windows_set_column:
  assumes "i < length (columns s)" "set (wins (columns s ! i)) \<subseteq> set (wins c)"
  shows "set (scrolling_windows s) \<subseteq> set (scrolling_windows (set_column i c s))"
proof
  fix w assume "w \<in> set (scrolling_windows s)"
  then obtain j where j: "j < length (columns s)" "w \<in> set (wins (columns s ! j))"
    by (auto simp: in_windows_conv)
  then have "w \<in> set (wins ((columns s)[i := c] ! j))"
    using assms by (cases "i = j") auto
  moreover have "(columns s)[i := c] ! j \<in> set ((columns s)[i := c])"
    using j(1) by (simp add: nth_mem)
  ultimately show "w \<in> set (scrolling_windows (set_column i c s))"
    by (auto simp: scrolling_windows_wins)
qed

lemma cols_ok_set_column:
  assumes "cols_ok s" "i < length (columns s)" "col_ok c"
    and "\<And>w. interactive_resize s = Some w \<Longrightarrow> w \<in> set (wins (columns s ! i)) \<Longrightarrow> w \<in> set (wins c)"
  shows "cols_ok (set_column i c s)"
proof -
  have all: "list_all col_ok ((columns s)[i := c])"
    using assms by (auto simp: cols_ok_def list_all_length nth_list_update)
  have "w \<in> set (scrolling_windows (set_column i c s))" if w: "interactive_resize s = Some w" for w
  proof -
    from assms(1) w have "w \<in> set (scrolling_windows s)" by (simp add: cols_ok_def)
    then obtain j where j: "j < length (columns s)" "w \<in> set (wins (columns s ! j))"
      by (auto simp: in_windows_conv)
    then have "w \<in> set (wins ((columns s)[i := c] ! j))"
      using assms(4) [OF w] assms(2) by (cases "i = j") auto
    moreover have "(columns s)[i := c] ! j \<in> set ((columns s)[i := c])"
      using j(1) by (simp add: nth_mem)
    ultimately show ?thesis by (auto simp: scrolling_windows_wins)
  qed
  with all show ?thesis by (simp add: cols_ok_def)
qed

lemma scrolling_ok_set_column:
  assumes "scrolling_ok s" "i < length (columns s)" "col_ok c"
    and "\<And>w. interactive_resize s = Some w \<Longrightarrow> w \<in> set (wins (columns s ! i)) \<Longrightarrow> w \<in> set (wins c)"
  shows "scrolling_ok (set_column i c s)"
  using assms cols_ok_set_column [OF _ assms(2-4)]
  by (auto simp: scrolling_ok_cols split: if_splits)

section \<open>Adding\<close>

lemma windows_columns_insert:
  "mset (concat (map wins (insert_at i c cs))) = mset (wins c) + mset (concat (map wins cs))"
  by (simp add: map_insert_at concat_insert_at_mset)

lemma cols_ok_insert:
  assumes "cols_ok s" "col_ok c"
  shows "cols_ok (s\<lparr>columns := insert_at i c (columns s)\<rparr>)"
  using assms by (auto simp: cols_ok_def list_all_iff scrolling_windows_wins)

definition add_column_index :: "nat option \<Rightarrow> scrolling \<Rightarrow> nat" where
  "add_column_index idx_opt s =
     (case idx_opt of Some i \<Rightarrow> i
      | None \<Rightarrow> (if columns s = [] then 0 else active_column_idx s + 1))"

lemma add_column_returns:
  assumes "scrolling_ok s" "col_ok c" "add_column_index idx_opt s \<le> length (columns s)"
  shows "returns (add_column idx_opt c activate s) (\<lambda>s'. scrolling_ok s' \<and>
           columns s' = insert_at (add_column_index idx_opt s) c (columns s) \<and>
           active_column_idx s' =
             (if activate \<or> columns s = [] then add_column_index idx_opt s
              else if add_column_index idx_opt s \<le> active_column_idx s
              then active_column_idx s + 1 else active_column_idx s) \<and>
           activate_prev_column_on_removal s' =
             (if activate
              then columns s \<noteq> [] \<and> add_column_index idx_opt s = active_column_idx s + 1
              else activate_prev_column_on_removal s))"
proof -
  let ?i = "add_column_index idx_opt s"
  let ?s = "s\<lparr>columns := insert_at ?i c (columns s), active_column_idx :=
              (if columns s \<noteq> [] \<and> ?i \<le> active_column_idx s
               then active_column_idx s + 1 else active_column_idx s)\<rparr>"
  have ne: "insert_at ?i c (columns s) \<noteq> []"
    using length_insert_at [of ?i c "columns s"] by (metis list.size(3) nat.distinct(1))
  have ok: "cols_ok ?s"
    using cols_ok_insert [OF scrolling_okD(1) [OF assms(1)] assms(2)] by simp
  have zero: "columns s = [] \<Longrightarrow> ?i = 0" using assms(3) by simp
  have step: "returns (activate_column ?i ?s) (\<lambda>s'. scrolling_ok s' \<and>
      columns s' = insert_at ?i c (columns s) \<and> active_column_idx s' = ?i)"
    by (rule returns_mono [OF activate_column_returns [OF ok]]) (use assms(3) in auto)
  have sok: "scrolling_ok ?s"
    using ok ne assms scrolling_okD [OF assms(1)] by (auto simp: scrolling_ok_cols)
  show ?thesis
  proof (cases activate)
    case True
    have "add_column idx_opt c activate s =
        Option.bind (activate_column ?i ?s) (\<lambda>s'. Some (s'\<lparr>activate_prev_column_on_removal :=
           (columns s \<noteq> [] \<and> ?i = active_column_idx ?s + 1)\<rparr>))"
      using True assms(3) by (simp add: add_column_def add_column_index_def Let_def)
    with step True show ?thesis
      by (auto elim!: returns_mono)
  next
    case False
    then have "add_column idx_opt c activate s = Some ?s"
      using assms(3) by (simp add: add_column_def add_column_index_def Let_def)
    with sok False zero scrolling_okD(2) [OF assms(1)] show ?thesis by auto
  qed
qed

lemma add_tile_returns:
  assumes "scrolling_ok s" "add_column_index idx_opt s \<le> length (columns s)"
  shows "returns (add_tile opts idx_opt t activate width full s) (\<lambda>s'. scrolling_ok s' \<and>
           (\<exists>c. col_ok c \<and> wins c = [win t] \<and> active_tile_idx c = 0 \<and> col_width c = width \<and>
                is_full_width c = full \<and> pending_sizing_mode c = pending_mode t \<and>
                columns s' = insert_at (add_column_index idx_opt s) c (columns s)) \<and>
           active_column_idx s' =
             (if activate \<or> columns s = [] then add_column_index idx_opt s
              else if add_column_index idx_opt s \<le> active_column_idx s
              then active_column_idx s + 1 else active_column_idx s) \<and>
           activate_prev_column_on_removal s' =
             (if activate
              then columns s \<noteq> [] \<and> add_column_index idx_opt s = active_column_idx s + 1
              else activate_prev_column_on_removal s))"
proof -
  from new_with_tile_returns [of opts t width full] obtain c where
    c: "new_with_tile opts t width full = Some c" "col_ok c" "wins c = [win t]" "active_tile_idx c = 0"
       "col_width c = width" "is_full_width c = full" "pending_sizing_mode c = pending_mode t"
    by (auto elim!: returnsE)
  show ?thesis
    unfolding add_tile_def c(1) Option.bind.bind_lunit
    by (rule returns_mono [OF add_column_returns [OF assms(1) c(2) assms(2)]])
      (use c in blast)
qed

text \<open>Where a tile added at \<open>tile_idx\<close> leaves the active tile of its column\<close>

definition active_after_add :: "bool \<Rightarrow> nat \<Rightarrow> nat \<Rightarrow> nat" where
  "active_after_add activate tile_idx prev =
     (if activate then tile_idx else if tile_idx \<le> prev then prev + 1 else prev)"

lemma add_tile_to_column_returns:
  assumes "scrolling_ok s" "ci < length (columns s)"
    and "ti = (case tile_idx of Some i \<Rightarrow> i | None \<Rightarrow> length (tiles (columns s ! ci)))"
    and "ti \<le> length (tiles (columns s ! ci))"
  shows "returns (add_tile_to_column ci tile_idx t activate s) (\<lambda>s'. scrolling_ok s' \<and>
           (\<exists>c. col_ok c \<and> wins c = insert_at ti (win t) (wins (columns s ! ci)) \<and>
                active_tile_idx c = active_after_add activate ti (active_tile_idx (columns s ! ci)) \<and>
                display_mode c = display_mode (columns s ! ci) \<and>
                columns s' = (columns s)[ci := c]) \<and>
           active_column_idx s' = (if activate then ci else active_column_idx s) \<and>
           activate_prev_column_on_removal s' =
             (activate_prev_column_on_removal s \<and> (activate \<longrightarrow> active_column_idx s = ci)))"
proof -
  let ?c0 = "columns s ! ci"
  have c0: "col_ok ?c0" using cols_ok_nth scrolling_okD(1) assms(1,2) by blast
  from add_tile_at_returns [OF assms(4), of t] obtain c1 where
    c1: "add_tile_at ti t ?c0 = Some c1" "length (tiles c1) = Suc (length (tiles ?c0))"
      "wins c1 = insert_at ti (win t) (wins ?c0)" "active_tile_idx c1 = active_tile_idx ?c0"
      "display_mode c1 = display_mode ?c0"
      "pending_sizing_mode c1 \<noteq> ModeNormal \<longrightarrow> display_mode c1 = Tabbed"
      "list_all (\<lambda>t. pending_mode t = pending_sizing_mode c1) (tiles c1)"
    by (auto elim!: returnsE)
  define c2 where "c2 = (if ti \<le> active_tile_idx ?c0
      then c1\<lparr>active_tile_idx := active_tile_idx c1 + 1\<rparr> else c1)"
  define c3 where "c3 = c2\<lparr>active_tile_idx := active_after_add activate ti (active_tile_idx ?c0)\<rparr>"
  have lt: "active_after_add activate ti (active_tile_idx ?c0) < length (tiles c1)"
    using c1(2) col_okD(2) [OF c0] assms(4) by (auto simp: active_after_add_def)
  have len2: "length (tiles c2) = length (tiles c1)" by (simp add: c2_def)
  have ne: "tiles c1 \<noteq> []" using c1(2) by auto
  have c3: "col_ok c3" "wins c3 = insert_at ti (win t) (wins ?c0)" "display_mode c3 = display_mode ?c0"
    using c1 lt ne by (auto simp: c3_def c2_def col_ok_def pending_sizing_mode_def)
  have act: "active_tile_idx c3 = active_after_add activate ti (active_tile_idx ?c0)"
    by (simp add: c3_def)
  let ?s = "set_column ci c3 s"
  have ok: "scrolling_ok ?s"
    by (rule scrolling_ok_set_column [OF assms(1,2) c3(1)]) (simp add: c3(2))
  have get: "vec_get (columns s) ci = Some ?c0" using assms(2) by simp
  show ?thesis
  proof (cases activate)
    case False
    have "c3 = c2" using False c1(4) by (simp add: c3_def c2_def active_after_add_def)
    then have "add_tile_to_column ci tile_idx t activate s = Some ?s"
      using False c1(1) get assms(3)
      by (simp add: add_tile_to_column_def Let_def c2_def split: option.splits)
    with ok c3 act False show ?thesis by auto
  next
    case True
    have ti: "ti < length (tiles c2)" using lt len2 True by (simp add: active_after_add_def)
    have "activate_idx ti c2 = Some (c3, active_tile_idx c2 \<noteq> ti)"
      using activate_idx_Some [OF ti] True by (simp add: c3_def active_after_add_def)
    then have eq: "add_tile_to_column ci tile_idx t activate s =
        (if active_column_idx s \<noteq> ci then activate_column ci ?s else Some ?s)"
      using True c1(1) get assms(3)
      by (simp add: add_tile_to_column_def Let_def c2_def split: option.splits if_splits)
    have "returns (if active_column_idx s \<noteq> ci then activate_column ci ?s else Some ?s)
        (\<lambda>s'. scrolling_ok s' \<and> columns s' = columns ?s \<and> active_column_idx s' = ci \<and>
           activate_prev_column_on_removal s' =
             (activate_prev_column_on_removal ?s \<and> active_column_idx ?s = ci))"
      using activate_column_returns [OF scrolling_okD(1) [OF ok], of ci] ok assms(2) by auto
    then show ?thesis
      unfolding eq by (rule returns_mono) (use c3 act True in auto)
  qed
qed

lemma add_tile_right_of_returns:
  assumes "scrolling_ok s" "right_of \<in> set (scrolling_windows s)"
  shows "returns (add_tile_right_of opts right_of t activate width full s) (\<lambda>s'. scrolling_ok s' \<and>
           (\<exists>i c. i < length (columns s) \<and> right_of \<in> set (wins (columns s ! i)) \<and>
              col_ok c \<and> wins c = [win t] \<and> columns s' = insert_at (i + 1) c (columns s)))"
proof -
  from assms(2) have "position (column_contains right_of) (columns s) \<noteq> None"
    by (auto simp: position_None scrolling_windows_wins)
  then obtain i where i: "position (column_contains right_of) (columns s) = Some i" by auto
  then have i': "i < length (columns s)" "right_of \<in> set (wins (columns s ! i))"
    by (auto dest: position_SomeD)
  have "add_column_index (Some (i + 1)) s \<le> length (columns s)"
    using i' by (simp add: add_column_index_def)
  from add_tile_returns [OF assms(1) this, of opts t activate width full] i i' show ?thesis
    by (auto simp: add_tile_right_of_def add_column_index_def elim!: returns_mono)
qed

section \<open>Removing\<close>

lemma stop_resize_of_Some [simp]: "stop_resize_of p r = Some w \<longleftrightarrow> r = Some w \<and> \<not> p w"
  by (auto simp: stop_resize_of_def split: option.splits)

lemma in_windows_remove:
  assumes "w \<in> set (scrolling_windows s)" "i < length (columns s)" "w \<notin> set (wins (columns s ! i))"
  shows "w \<in> set (concat (map wins (remove_at i (columns s))))"
proof -
  have "set (columns s) = insert (columns s ! i) (set (remove_at i (columns s)))"
    by (metis assms(2) insert_remove_same set_insert_at)
  with assms show ?thesis by (auto simp: scrolling_windows_wins)
qed

definition active_after_remove :: "nat \<Rightarrow> scrolling \<Rightarrow> nat" where
  "active_after_remove ci s =
     (if length (columns s) = 1 then 0
      else if ci < active_column_idx s then active_column_idx s - 1
      else if ci = active_column_idx s \<and> activate_prev_column_on_removal s
      then active_column_idx s - 1
      else min (active_column_idx s) (length (columns s) - 2))"

lemma remove_column_by_idx_returns:
  assumes "scrolling_ok s" "ci < length (columns s)"
  shows "returns (remove_column_by_idx ci s) (\<lambda>(c, s'). scrolling_ok s' \<and>
           c = columns s ! ci \<and> columns s' = remove_at ci (columns s) \<and>
           active_column_idx s' = active_after_remove ci s)"
proof -
  let ?cols = "remove_at ci (columns s)"
  let ?s = "s\<lparr>columns := ?cols, interactive_resize :=
      stop_resize_of (\<lambda>w. column_contains w (columns s ! ci)) (interactive_resize s)\<rparr>"
  let ?s2 = "if ci + 1 = active_column_idx s
      then ?s\<lparr>activate_prev_column_on_removal := False\<rparr> else ?s"
  have ne: "columns s \<noteq> []" using assms(2) by auto
  have lt: "active_column_idx s < length (columns s)" using scrolling_okD(3) [OF assms(1) ne] .
  have ok: "cols_ok ?s2"
    using scrolling_okD(1) [OF assms(1)] in_windows_remove [OF _ assms(2)] set_remove_at_subset [of ci "columns s"]
    by (auto simp: cols_ok_def list_all_iff scrolling_windows_wins)
  have len: "length ?cols = length (columns s) - 1" using assms(2) by simp
  have pos: "0 < length (columns s)" using ne by simp
  consider (last) "?cols = []" | (before) "?cols \<noteq> []" "ci < active_column_idx s"
    | (prev) "?cols \<noteq> []" "ci = active_column_idx s" "activate_prev_column_on_removal s"
    | (other) "?cols \<noteq> []" "\<not> ci < active_column_idx s"
        "\<not> (ci = active_column_idx s \<and> activate_prev_column_on_removal s)" by blast
  then show ?thesis
  proof cases
    case last
    then have "length (columns s) = 1" using len ne by (cases "columns s") auto
    with last ok assms lt show ?thesis
      by (auto simp: remove_column_by_idx_def Let_def scrolling_ok_cols active_after_remove_def)
  next
    case before
    then have "length (columns s) \<noteq> 1" using lt by auto
    with before ok assms lt len show ?thesis
      by (auto simp: remove_column_by_idx_def Let_def scrolling_ok_cols active_after_remove_def
          split: if_splits)
  next
    case prev
    then have l2: "length (columns s) \<noteq> 1" using len by auto
    show ?thesis
    proof (cases "0 < ci")
      case True
      have "returns (activate_column (ci - 1) ?s2) (\<lambda>s'. scrolling_ok s' \<and> columns s' = ?cols \<and>
              active_column_idx s' = ci - 1)"
        by (rule returns_mono [OF activate_column_returns [OF ok]]) (use lt len prev True in auto)
      then show ?thesis
        using prev True assms l2
        by (auto simp: remove_column_by_idx_def Let_def active_after_remove_def elim!: returns_mono)
    next
      case False
      have "1 < length (columns s)" using pos l2 by linarith
      with False prev ok assms lt show ?thesis
        by (auto simp: remove_column_by_idx_def Let_def scrolling_ok_cols active_after_remove_def)
    qed
  next
    case other
    then have l2: "length (columns s) \<noteq> 1" using len by auto
    have "returns (activate_column (min (active_column_idx s) (length ?cols - 1)) ?s2)
            (\<lambda>s'. scrolling_ok s' \<and> columns s' = ?cols \<and>
              active_column_idx s' = min (active_column_idx s) (length ?cols - 1))"
    proof (rule returns_mono [OF activate_column_returns [OF ok]])
      have "1 < length (columns s)" using pos l2 by linarith
      then show "min (active_column_idx s) (length ?cols - 1) < length (columns ?s2)"
        using len by (simp add: min_def) linarith
    qed auto
    moreover have "length ?cols - 1 = length (columns s) - 2" using len by simp
    ultimately show ?thesis
      using other assms l2
      by (auto simp: remove_column_by_idx_def Let_def active_after_remove_def elim!: returns_mono)
  qed
qed

text \<open>Where removing the tile \<open>ti\<close> leaves the active tile of a column of several tiles\<close>

definition active_tile_after_remove :: "nat \<Rightarrow> column \<Rightarrow> nat" where
  "active_tile_after_remove ti c =
     (if ti < active_tile_idx c then active_tile_idx c - 1
      else if ti = active_tile_idx c \<and> ti = length (tiles c) - 1 then ti - 1
      else active_tile_idx c)"

lemma remove_tile_by_idx_returns:
  assumes "scrolling_ok s" "ci < length (columns s)" "ti < length (tiles (columns s ! ci))"
  shows "returns (remove_tile_by_idx ci ti s) (\<lambda>(r, s'). scrolling_ok s' \<and>
           rt_tile r = tiles (columns s ! ci) ! ti \<and>
           rt_width r = col_width (columns s ! ci) \<and>
           rt_is_full_width r = is_full_width (columns s ! ci) \<and>
           \<not> rt_is_floating r \<and> \<not> rt_is_sticky r \<and>
           (if length (tiles (columns s ! ci)) = 1
            then columns s' = remove_at ci (columns s) \<and>
                 active_column_idx s' = active_after_remove ci s
            else (\<exists>c. columns s' = (columns s)[ci := c] \<and> col_ok c \<and>
                    wins c = remove_at ti (wins (columns s ! ci)) \<and>
                    active_tile_idx c = active_tile_after_remove ti (columns s ! ci) \<and>
                    display_mode c = display_mode (columns s ! ci) \<and>
                    col_width c = col_width (columns s ! ci)) \<and>
                 active_column_idx s' = active_column_idx s \<and>
                 activate_prev_column_on_removal s' = activate_prev_column_on_removal s))"
proof (cases "length (tiles (columns s ! ci)) = 1")
  case True
  from remove_column_by_idx_returns [OF assms(1,2)] obtain s' where
    s': "remove_column_by_idx ci s = Some (columns s ! ci, s')" "scrolling_ok s'"
      "columns s' = remove_at ci (columns s)" "active_column_idx s' = active_after_remove ci s"
    by (auto elim!: returnsE)
  with True assms show ?thesis by (simp add: remove_tile_by_idx_def)
next
  case False
  let ?c = "columns s ! ci"
  let ?t = "tiles ?c ! ti"
  let ?ts = "remove_at ti (tiles ?c)"
  let ?m = "active_tile_after_remove ti ?c"
  let ?c1 = "?c\<lparr>tiles := ?ts, active_tile_idx := ?m\<rparr>"
  let ?c2 = "?c1\<lparr>tiles := map (\<lambda>t. t\<lparr>pending_mode := pending_sizing_mode ?c1\<rparr>) ?ts\<rparr>"
  let ?s = "s\<lparr>interactive_resize := stop_resize_of (\<lambda>w. win ?t = w) (interactive_resize s)\<rparr>"
  have c: "col_ok ?c" using cols_ok_nth scrolling_okD(1) assms(1,2) by blast
  have len: "length ?ts = length (tiles ?c) - 1" "1 < length (tiles ?c)"
    using assms(3) False col_okD(3) [OF c] by auto
  have ne: "?ts \<noteq> []" using len by (metis less_numeral_extra(3) list.size(3) zero_less_diff)
  have m: "?m < length ?ts"
    using col_okD(2) [OF c] len assms(3) by (auto simp: active_tile_after_remove_def)
  have c2: "col_ok ?c2"
    using col_ok_retile [OF ne m, of ?c] c False by (auto simp: col_ok_def)
  have w2: "wins ?c2 = remove_at ti (wins ?c)"
    by (simp add: wins_def map_remove_at comp_def)
  have sub: "w \<in> set (wins ?c2)" if "w \<in> set (wins ?c)" "w \<noteq> win ?t" for w
  proof -
    have "wins ?c ! ti = win ?t" using assms(3) by (simp add: wins_def)
    then have "set (wins ?c) = insert (win ?t) (set (remove_at ti (wins ?c)))"
      by (metis assms(3) insert_remove_same length_wins set_insert_at)
    with that show ?thesis unfolding w2 by auto
  qed
  have ok0: "scrolling_ok ?s"
    using assms(1) by (auto simp: scrolling_ok_def)
  have ok: "scrolling_ok (set_column ci ?c2 ?s)"
    by (rule scrolling_ok_set_column [OF ok0 _ c2]) (use assms(2) sub in auto)
  have eq: "keep_active_tile ti (?c\<lparr>tiles := ?ts\<rparr>) = Some ?c1"
    using len m by (auto simp: keep_active_tile_def active_tile_after_remove_def)
  have "update_tile_sizes ?c1 = Some ?c2"
    using ne by (simp add: update_tile_sizes_Some)
  with eq have run: "remove_tile_by_idx ci ti s =
     Some (\<lparr>rt_tile = ?t, rt_width = col_width ?c, rt_is_full_width = is_full_width ?c,
            rt_is_floating = False, rt_is_sticky = False\<rparr>, set_column ci ?c2 ?s)"
    using assms False by (simp add: remove_tile_by_idx_def Let_def)
  show ?thesis
    unfolding run using ok c2 w2 False by auto
qed

end
