(* ===== verification/ScrollingOps.thy ===== *)
theory ScrollingOps
  imports ScrollingInv
begin

text \<open>
  The operations of the scrolling space (\<open>src/layout/scrolling.rs\<close>) on a space that
  satisfies the invariant: none panics, each keeps the invariant, and each keeps the
  multiset of windows, up to the window it adds or removes.
\<close>

section \<open>Multisets of windows\<close>

definition win_mset :: "column list \<Rightarrow> win_id multiset" where
  "win_mset cols = mset (concat (map wins cols))"

lemma win_mset_scrolling: "win_mset (columns s) = mset (scrolling_windows s)"
  by (simp add: win_mset_def scrolling_windows_wins)

lemma win_mset_insert: "win_mset (insert_at i c cols) = mset (wins c) + win_mset cols"
  by (simp add: win_mset_def map_insert_at concat_insert_at_mset)

lemma win_mset_remove:
  "i < length cols \<Longrightarrow> win_mset cols = mset (wins (cols ! i)) + win_mset (remove_at i cols)"
  using concat_remove_at_mset [of i "map wins cols"] by (simp add: win_mset_def map_remove_at)

lemma win_mset_update:
  "i < length cols \<Longrightarrow>
   win_mset (cols[i := c]) + mset (wins (cols ! i)) = mset (wins c) + win_mset cols"
  using concat_update_mset [of i "map wins cols" "wins c"] by (simp add: win_mset_def map_update)

lemma win_mset_update_same:
  "i < length cols \<Longrightarrow> mset (wins c) = mset (wins (cols ! i)) \<Longrightarrow> win_mset (cols[i := c]) = win_mset cols"
  using win_mset_update [of i cols c] by (simp add: add.commute)

text \<open>An operation that keeps the invariant and the windows\<close>

definition keeps :: "scrolling \<Rightarrow> scrolling \<Rightarrow> bool" where
  "keeps s s' \<longleftrightarrow> scrolling_ok s' \<and> win_mset (columns s') = win_mset (columns s)"

lemma keeps_refl: "scrolling_ok s \<Longrightarrow> keeps s s"
  by (simp add: keeps_def)

lemma keeps_trans: "keeps s s' \<Longrightarrow> keeps s' s'' \<Longrightarrow> keeps s s''"
  by (simp add: keeps_def)

lemma keeps_ok: "keeps s s' \<Longrightarrow> scrolling_ok s'"
  by (simp add: keeps_def)

lemma keeps_set:
  "keeps s s' \<Longrightarrow> set (scrolling_windows s') = set (scrolling_windows s)"
  unfolding keeps_def win_mset_scrolling by (metis set_mset_mset)

section \<open>Adding and removing\<close>

lemma add_tile_win_mset:
  assumes "scrolling_ok s" "add_column_index idx_opt s \<le> length (columns s)"
  shows "returns (add_tile opts idx_opt t activate width full s) (\<lambda>s'. scrolling_ok s' \<and>
           win_mset (columns s') = add_mset (win t) (win_mset (columns s)))"
  by (rule returns_mono [OF add_tile_returns [OF assms]]) (auto simp: win_mset_insert)

lemma add_column_index_None: "scrolling_ok s \<Longrightarrow> add_column_index None s \<le> length (columns s)"
  using scrolling_okD(3) [of s] by (auto simp: add_column_index_def)

lemma add_tile_to_column_win_mset:
  assumes "scrolling_ok s" "ci < length (columns s)"
    and "case tile_idx of Some i \<Rightarrow> i \<le> length (tiles (columns s ! ci)) | None \<Rightarrow> True"
  shows "returns (add_tile_to_column ci tile_idx t activate s) (\<lambda>s'. scrolling_ok s' \<and>
           win_mset (columns s') = add_mset (win t) (win_mset (columns s)))"
proof -
  let ?ti = "case tile_idx of Some i \<Rightarrow> i | None \<Rightarrow> length (tiles (columns s ! ci))"
  have "?ti \<le> length (tiles (columns s ! ci))" using assms(3) by (cases tile_idx) auto
  from add_tile_to_column_returns [OF assms(1,2) refl this, of t activate]
  show ?thesis
  proof (rule returns_mono)
    fix s' assume "scrolling_ok s' \<and>
           (\<exists>c. col_ok c \<and> wins c = insert_at ?ti (win t) (wins (columns s ! ci)) \<and>
                active_tile_idx c = active_after_add activate ?ti (active_tile_idx (columns s ! ci)) \<and>
                display_mode c = display_mode (columns s ! ci) \<and>
                columns s' = (columns s)[ci := c]) \<and>
           active_column_idx s' = (if activate then ci else active_column_idx s) \<and>
           activate_prev_column_on_removal s' =
             (activate_prev_column_on_removal s \<and> (activate \<longrightarrow> active_column_idx s = ci))"
    then obtain c where c: "scrolling_ok s'" "wins c = insert_at ?ti (win t) (wins (columns s ! ci))"
        "columns s' = (columns s)[ci := c]" by blast
    from win_mset_update [OF assms(2), of c] c(2)
    show "scrolling_ok s' \<and> win_mset (columns s') = add_mset (win t) (win_mset (columns s))"
      by (simp add: c(1,3))
  qed
qed

lemma remove_column_win_mset:
  assumes "scrolling_ok s" "ci < length (columns s)"
  shows "returns (remove_column_by_idx ci s) (\<lambda>(c, s'). scrolling_ok s' \<and> c = columns s ! ci \<and>
           win_mset (columns s) = mset (wins c) + win_mset (columns s'))"
  using remove_column_by_idx_returns [OF assms]
  by (rule returns_mono) (auto simp: win_mset_remove [OF assms(2)])

lemma remove_tile_by_idx_win_mset:
  assumes "scrolling_ok s" "ci < length (columns s)" "ti < length (tiles (columns s ! ci))"
  shows "returns (remove_tile_by_idx ci ti s) (\<lambda>(r, s'). scrolling_ok s' \<and>
           rt_tile r = tiles (columns s ! ci) ! ti \<and>
           win_mset (columns s) = add_mset (win (rt_tile r)) (win_mset (columns s')))"
proof -
  let ?c = "columns s ! ci"
  obtain x where x: "remove_tile_by_idx ci ti s = Some x"
    "case x of (r, s') \<Rightarrow> scrolling_ok s' \<and> rt_tile r = tiles ?c ! ti \<and>
       (if length (tiles ?c) = 1 then columns s' = remove_at ci (columns s)
        else (\<exists>c. columns s' = (columns s)[ci := c] \<and> wins c = remove_at ti (wins ?c)))"
    by (rule returnsE [OF remove_tile_by_idx_returns [OF assms]]) (auto split: prod.splits if_splits)
  obtain r s' where rs: "x = (r, s')" by (cases x)
  note run = x(1) [unfolded rs] and post = x(2) [unfolded rs prod.case]
  have w: "mset (wins ?c) = add_mset (win (tiles ?c ! ti)) (mset (remove_at ti (wins ?c)))"
    using mset_remove_at [of ti "wins ?c"] assms(3) by (simp add: wins_def)
  have "win_mset (columns s) = add_mset (win (tiles ?c ! ti)) (win_mset (columns s'))"
  proof (cases "length (tiles ?c) = 1")
    case True
    then have "remove_at ti (wins ?c) = []"
      using assms(3) by (cases "wins ?c") (auto simp: remove_at_def simp flip: length_wins)
    with w post True show ?thesis by (simp add: win_mset_remove [OF assms(2)])
  next
    case False
    with post obtain c where c: "columns s' = (columns s)[ci := c]" "wins c = remove_at ti (wins ?c)"
      by auto
    from win_mset_update [OF assms(2), of c] w c show ?thesis by simp
  qed
  with post show ?thesis unfolding run by simp
qed

lemma position_contains:
  assumes "w \<in> set (scrolling_windows s)"
  obtains ci ti where "position (column_contains w) (columns s) = Some ci" "ci < length (columns s)"
    "column_position w (columns s ! ci) = Some ti" "ti < length (tiles (columns s ! ci))"
    "win (tiles (columns s ! ci) ! ti) = w"
proof -
  from assms have "position (column_contains w) (columns s) \<noteq> None"
    by (auto simp: position_None scrolling_windows_wins)
  then obtain ci where ci: "position (column_contains w) (columns s) = Some ci" by auto
  then have ci': "ci < length (columns s)" "w \<in> set (wins (columns s ! ci))"
    by (auto dest: position_SomeD)
  then have "column_position w (columns s ! ci) \<noteq> None"
    by (auto simp: column_position_def position_None wins_def)
  then obtain ti where ti: "column_position w (columns s ! ci) = Some ti" by auto
  then have "ti < length (tiles (columns s ! ci))" "win (tiles (columns s ! ci) ! ti) = w"
    by (auto simp: column_position_def dest: position_SomeD)
  with ci ci' ti that show thesis by blast
qed

lemma remove_tile_win_mset:
  assumes "scrolling_ok s" "w \<in> set (scrolling_windows s)"
  shows "returns (remove_tile w s) (\<lambda>(r, s'). scrolling_ok s' \<and> win (rt_tile r) = w \<and>
           win_mset (columns s) = add_mset w (win_mset (columns s')))"
proof -
  from position_contains [OF assms(2)] obtain ci ti where
    p: "position (column_contains w) (columns s) = Some ci" "ci < length (columns s)"
      "column_position w (columns s ! ci) = Some ti" "ti < length (tiles (columns s ! ci))"
      "win (tiles (columns s ! ci) ! ti) = w" .
  show ?thesis
    using remove_tile_by_idx_win_mset [OF assms(1) p(2,4)] p
    by (auto simp: remove_tile_def elim!: returns_mono)
qed

lemma remove_active_column_win_mset:
  assumes "scrolling_ok s"
  shows "returns (remove_active_column s) (\<lambda>(c, s'). scrolling_ok s' \<and>
           (case c of None \<Rightarrow> columns s = [] \<and> s' = s
            | Some c \<Rightarrow> col_ok c \<and> win_mset (columns s) = mset (wins c) + win_mset (columns s')))"
proof (cases "columns s = []")
  case True
  with assms show ?thesis by (simp add: remove_active_column_def)
next
  case False
  have lt: "active_column_idx s < length (columns s)" using scrolling_okD(3) [OF assms False] .
  have "col_ok (columns s ! active_column_idx s)"
    using cols_ok_nth scrolling_okD(1) [OF assms] lt by blast
  with remove_column_win_mset [OF assms lt] False show ?thesis
    by (auto simp: remove_active_column_def elim!: returns_mono)
qed

section \<open>Focus and movement\<close>

lemma activate_column_keeps:
  assumes "scrolling_ok s" "idx < length (columns s)"
  shows "returns (activate_column idx s) (keeps s)"
  by (rule returns_mono [OF activate_column_returns [OF scrolling_okD(1) [OF assms(1)] assms(2)]])
    (simp add: keeps_def)

lemma set_column_keeps:
  assumes "scrolling_ok s" "i < length (columns s)" "col_ok c"
    and "mset (wins c) = mset (wins (columns s ! i))"
  shows "keeps s (set_column i c s)"
proof -
  have "set (wins c) = set (wins (columns s ! i))"
    using assms(4) by (metis set_mset_mset)
  then have "scrolling_ok (set_column i c s)"
    by (intro scrolling_ok_set_column [OF assms(1-3)]) simp
  then show ?thesis by (simp add: keeps_def win_mset_update_same [OF assms(2,4)])
qed

lemma on_active_column_keeps:
  assumes "scrolling_ok s"
    and "\<And>c. col_ok c \<Longrightarrow> returns (f c) (\<lambda>(c', b). col_ok c' \<and> mset (wins c') = mset (wins c))"
  shows "returns (on_active_column f s) (\<lambda>(s', b). keeps s s')"
proof (cases "columns s = []")
  case True
  with assms(1) show ?thesis by (simp add: on_active_column_def keeps_refl)
next
  case False
  have lt: "active_column_idx s < length (columns s)" using scrolling_okD(3) [OF assms(1) False] .
  have ok: "col_ok (columns s ! active_column_idx s)"
    using cols_ok_nth scrolling_okD(1) [OF assms(1)] lt by blast
  from assms(2) [OF ok] obtain c' b where c': "f (columns s ! active_column_idx s) = Some (c', b)"
      "col_ok c'" "mset (wins c') = mset (wins (columns s ! active_column_idx s))"
    by (auto elim!: returnsE)
  with set_column_keeps [OF assms(1) lt c'(2,3)] lt False show ?thesis
    by (simp add: on_active_column_def)
qed

lemma column_activate_returns:
  assumes "col_ok c" "i < length (tiles c)"
  shows "returns (activate_idx i c) (\<lambda>(c', b). col_ok c' \<and> mset (wins c') = mset (wins c))"
  using assms by (simp add: col_ok_active)

lemma vec_swap_mset:
  assumes "i < length xs" "j < length xs"
  shows "mset (xs[i := xs ! j, j := xs ! i]) = mset xs"
  using mset_swap [of j xs i] assms by simp

lemma move_active_tile_returns:
  assumes "col_ok c" "j < length (tiles c)"
  shows "returns (move_active_tile_to_adjacent j c)
           (\<lambda>(c', b). col_ok c' \<and> mset (wins c') = mset (wins c))"
proof -
  let ?ts = "(tiles c)[active_tile_idx c := tiles c ! j, j := tiles c ! active_tile_idx c]"
  have m: "mset ?ts = mset (tiles c)"
    by (rule vec_swap_mset) (use assms col_okD in auto)
  then have set: "set ?ts = set (tiles c)" by (metis set_mset_mset)
  have "mset (map win ?ts) = mset (map win (tiles c))" using m by (simp add: mset_map del: map_update)
  moreover have "col_ok (c\<lparr>tiles := ?ts, active_tile_idx := j\<rparr>)"
    using assms set unfolding col_ok_def list_all_iff
    by (auto simp: pending_sizing_mode_def simp del: set_update_distinct)
  ultimately show ?thesis
    using assms col_okD(2) [OF assms(1)]
    by (simp add: move_active_tile_to_adjacent_def vec_swap_def Let_def wins_def)
qed

lemmas column_steps =
  column_focus_up_def column_focus_down_def column_focus_top_def column_focus_bottom_def
  column_focus_index_def column_move_up_def column_move_down_def

lemma column_step_returns:
  assumes "col_ok c"
  shows "returns (column_focus_up c) (\<lambda>(c', b). col_ok c' \<and> mset (wins c') = mset (wins c))"
    and "returns (column_focus_down c) (\<lambda>(c', b). col_ok c' \<and> mset (wins c') = mset (wins c))"
    and "returns (column_focus_top c) (\<lambda>c'. col_ok c' \<and> mset (wins c') = mset (wins c))"
    and "returns (column_focus_bottom c) (\<lambda>c'. col_ok c' \<and> mset (wins c') = mset (wins c))"
    and "returns (column_focus_index k c) (\<lambda>c'. col_ok c' \<and> mset (wins c') = mset (wins c))"
    and "returns (column_move_up c) (\<lambda>(c', b). col_ok c' \<and> mset (wins c') = mset (wins c))"
    and "returns (column_move_down c) (\<lambda>(c', b). col_ok c' \<and> mset (wins c') = mset (wins c))"
proof -
  have pos: "1 \<le> length (tiles c)" using col_okD(1) [OF assms] by (simp add: Suc_le_eq)
  then have lt: "min (active_tile_idx c + 1) (length (tiles c) - 1) < length (tiles c)"
    and lt0: "0 < length (tiles c)" and ltl: "length (tiles c) - 1 < length (tiles c)"
    and ltk: "min (k - 1) (length (tiles c) - 1) < length (tiles c)"
    by linarith+
  show "returns (column_focus_up c) (\<lambda>(c', b). col_ok c' \<and> mset (wins c') = mset (wins c))"
    unfolding column_focus_up_def
    by (rule column_activate_returns [OF assms]) (use col_okD(2) [OF assms] in simp)
  show "returns (column_focus_down c) (\<lambda>(c', b). col_ok c' \<and> mset (wins c') = mset (wins c))"
    using pos column_activate_returns [OF assms lt]
    by (simp add: column_focus_down_def del: activate_idx_Some)
  show "returns (column_focus_top c) (\<lambda>c'. col_ok c' \<and> mset (wins c') = mset (wins c))"
    using pos column_activate_returns [OF assms lt0]
    by (simp add: column_focus_top_def case_prod_unfold del: activate_idx_Some)
  show "returns (column_focus_bottom c) (\<lambda>c'. col_ok c' \<and> mset (wins c') = mset (wins c))"
    using pos column_activate_returns [OF assms ltl]
    by (simp add: column_focus_bottom_def case_prod_unfold del: activate_idx_Some)
  show "returns (column_focus_index k c) (\<lambda>c'. col_ok c' \<and> mset (wins c') = mset (wins c))"
    using pos column_activate_returns [OF assms ltk]
    by (simp add: column_focus_index_def case_prod_unfold del: activate_idx_Some)
  show "returns (column_move_up c) (\<lambda>(c', b). col_ok c' \<and> mset (wins c') = mset (wins c))"
    unfolding column_move_up_def
    by (rule move_active_tile_returns [OF assms]) (use col_okD(2) [OF assms] in simp)
  show "returns (column_move_down c) (\<lambda>(c', b). col_ok c' \<and> mset (wins c') = mset (wins c))"
    using pos move_active_tile_returns [OF assms lt] by (simp add: column_move_down_def)
qed

lemma focus_column_step_keeps:
  assumes "scrolling_ok s"
  shows "returns (focus_up s) (\<lambda>(s', b). keeps s s')"
    and "returns (focus_down s) (\<lambda>(s', b). keeps s s')"
    and "returns (focus_top s) (keeps s)"
    and "returns (focus_bottom s) (keeps s)"
    and "returns (focus_window_in_column k s) (keeps s)"
    and "returns (move_up s) (\<lambda>(s', b). keeps s s')"
    and "returns (move_down s) (\<lambda>(s', b). keeps s s')"
proof -
  show "returns (focus_up s) (\<lambda>(s', b). keeps s s')"
    unfolding focus_up_def by (rule on_active_column_keeps [OF assms column_step_returns(1)])
  show "returns (focus_down s) (\<lambda>(s', b). keeps s s')"
    unfolding focus_down_def by (rule on_active_column_keeps [OF assms column_step_returns(2)])
  show "returns (focus_top s) (keeps s)"
    using on_active_column_keeps [OF assms, of "\<lambda>c. map_option (\<lambda>c. (c, True)) (column_focus_top c)"]
      column_step_returns(3)
    by (simp add: focus_top_def case_prod_unfold)
  show "returns (focus_bottom s) (keeps s)"
    using on_active_column_keeps [OF assms, of "\<lambda>c. map_option (\<lambda>c. (c, True)) (column_focus_bottom c)"]
      column_step_returns(4)
    by (simp add: focus_bottom_def case_prod_unfold)
  show "returns (focus_window_in_column k s) (keeps s)"
    using on_active_column_keeps [OF assms, of "\<lambda>c. map_option (\<lambda>c. (c, True)) (column_focus_index k c)"]
      column_step_returns(5)
    by (simp add: focus_window_in_column_def case_prod_unfold)
  show "returns (move_up s) (\<lambda>(s', b). keeps s s')"
    unfolding move_up_def by (rule on_active_column_keeps [OF assms column_step_returns(6)])
  show "returns (move_down s) (\<lambda>(s', b). keeps s s')"
    unfolding move_down_def by (rule on_active_column_keeps [OF assms column_step_returns(7)])
qed

lemma focus_horizontal_keeps:
  assumes "scrolling_ok s"
  shows "returns (focus_left s) (\<lambda>(s', b). keeps s s')"
    and "returns (focus_right s) (\<lambda>(s', b). keeps s s')"
    and "returns (focus_column_first s) (keeps s)"
    and "returns (focus_column_last s) (keeps s)"
    and "returns (focus_column k s) (keeps s)"
proof -
  have act: "columns s \<noteq> [] \<Longrightarrow> active_column_idx s < length (columns s)"
    and nil: "columns s = [] \<Longrightarrow> active_column_idx s = 0"
    using scrolling_okD(2,3) [OF assms] by auto
  show "returns (focus_left s) (\<lambda>(s', b). keeps s s')"
    using act nil activate_column_keeps [OF assms, of "active_column_idx s - 1"] keeps_refl [OF assms]
    by (cases "columns s = []") (auto simp: focus_left_def)
  show "returns (focus_right s) (\<lambda>(s', b). keeps s s')"
    using activate_column_keeps [OF assms, of "active_column_idx s + 1"] keeps_refl [OF assms]
    by (auto simp: focus_right_def)
  show "returns (focus_column_first s) (keeps s)"
    using nil activate_column_keeps [OF assms, of 0] keeps_refl [OF assms]
    by (cases "columns s = []") (auto simp: focus_column_first_def activate_column_def)
  show "returns (focus_column_last s) (keeps s)"
    using activate_column_keeps [OF assms, of "length (columns s) - 1"] keeps_refl [OF assms]
    by (auto simp: focus_column_last_def)
  show "returns (focus_column k s) (keeps s)"
    using activate_column_keeps [OF assms, of "min (k - 1) (length (columns s) - 1)"] keeps_refl [OF assms]
    by (auto simp: focus_column_def min_less_iff_disj)
qed

lemma focus_or_keeps:
  assumes "scrolling_ok s" "returns (f s) (\<lambda>(s', b). keeps s s')"
    and "\<And>s. scrolling_ok s \<Longrightarrow> returns (g s) (\<lambda>(s', b). keeps s s')"
  shows "returns (focus_or f g s) (keeps s)"
proof (cases "columns s = []")
  case True
  then show ?thesis by (simp add: focus_or_def keeps_refl assms(1))
next
  case False
  from assms(2) obtain s1 b where s1: "f s = Some (s1, b)" "keeps s s1"
    by (auto elim!: returnsE)
  from assms(3) [OF keeps_ok [OF s1(2)]] obtain s2 b2 where s2: "g s1 = Some (s2, b2)" "keeps s1 s2"
    by (auto elim!: returnsE)
  show ?thesis
    using s1 s2 False keeps_trans by (auto simp: focus_or_def)
qed

lemma focus_vertical_or_keeps:
  assumes "scrolling_ok s"
  shows "returns (focus_down_or_left s) (keeps s)" "returns (focus_down_or_right s) (keeps s)"
    "returns (focus_up_or_left s) (keeps s)" "returns (focus_up_or_right s) (keeps s)"
proof -
  note fo = focus_or_keeps [OF assms]
  note fu = focus_column_step_keeps [OF assms]
  show "returns (focus_down_or_left s) (keeps s)"
    unfolding focus_down_or_left_def by (rule fo, rule fu(2), erule focus_horizontal_keeps(1))
  show "returns (focus_down_or_right s) (keeps s)"
    unfolding focus_down_or_right_def by (rule fo, rule fu(2), erule focus_horizontal_keeps(2))
  show "returns (focus_up_or_left s) (keeps s)"
    unfolding focus_up_or_left_def by (rule fo, rule fu(1), erule focus_horizontal_keeps(1))
  show "returns (focus_up_or_right s) (keeps s)"
    unfolding focus_up_or_right_def by (rule fo, rule fu(1), erule focus_horizontal_keeps(2))
qed

section \<open>Moving columns and activating windows\<close>

lemma activate_window_keeps:
  assumes "scrolling_ok s"
  shows "returns (activate_window w s) (\<lambda>(s', b). keeps s s' \<and> (b \<longleftrightarrow> w \<in> set (scrolling_windows s)) \<and>
           (b \<longrightarrow> scrolling_active_window s' = Some (Some w)))"
proof (cases "w \<in> set (scrolling_windows s)")
  case False
  then have "position (column_contains w) (columns s) = None"
    by (auto simp: position_None scrolling_windows_wins)
  with False assms show ?thesis by (simp add: activate_window_def keeps_refl)
next
  case True
  from position_contains [OF True] obtain ci ti where
    p: "position (column_contains w) (columns s) = Some ci" "ci < length (columns s)"
      "column_position w (columns s ! ci) = Some ti" "ti < length (tiles (columns s ! ci))"
      "win (tiles (columns s ! ci) ! ti) = w" .
  let ?c = "columns s ! ci"
  let ?c' = "?c\<lparr>active_tile_idx := ti\<rparr>"
  let ?s = "set_column ci ?c' s"
  have c: "col_ok ?c" using cols_ok_nth scrolling_okD(1) [OF assms] p(2) by blast
  have k: "keeps s ?s"
    by (rule set_column_keeps [OF assms p(2) col_ok_active [OF c p(4)]]) simp
  have lt: "ci < length (columns ?s)" using p(2) by simp
  from activate_column_returns [OF scrolling_okD(1) [OF keeps_ok [OF k]] lt] obtain s' where
    s': "activate_column ci ?s = Some s'" "scrolling_ok s'" "columns s' = columns ?s"
      "active_column_idx s' = ci"
    by (auto elim!: returnsE)
  have "keeps s s'" using k s' by (simp add: keeps_def)
  moreover have "scrolling_active_window s' = Some (Some w)"
    using s' p by (auto simp: scrolling_active_window_def)
  moreover have "activate_window w s = Some (s', True)"
    using p s'(1) by (simp add: activate_window_def column_activate_window_def)
  ultimately show ?thesis using True by simp
qed

lemma move_column_to_returns:
  assumes "scrolling_ok s" "columns s \<noteq> []" "new_idx < length (columns s)"
  shows "returns (move_column_to new_idx s) (\<lambda>s'. keeps s s' \<and>
           columns s' = insert_at new_idx (columns s ! active_column_idx s)
                          (remove_at (active_column_idx s) (columns s)) \<and>
           active_column_idx s' = new_idx)"
proof (cases "active_column_idx s = new_idx")
  case True
  with assms show ?thesis by (simp add: move_column_to_def keeps_refl insert_remove_same)
next
  case False
  let ?a = "active_column_idx s"
  let ?cols = "insert_at new_idx (columns s ! ?a) (remove_at ?a (columns s))"
  let ?s = "cancel_resize_for_column (columns s ! ?a) s\<lparr>columns := ?cols\<rparr>"
  have lt: "?a < length (columns s)" using scrolling_okD(3) [OF assms(1,2)] .
  have m: "win_mset ?cols = win_mset (columns s)"
    by (simp add: win_mset_insert win_mset_remove [OF lt])
  have sub: "set ?cols \<subseteq> set (columns s)"
    using lt set_remove_at_subset [of ?a "columns s"] by auto
  have ok: "cols_ok ?s"
  proof -
    have "set (concat (map wins ?cols)) = set (scrolling_windows s)"
      using m unfolding win_mset_def scrolling_windows_wins by (metis set_mset_mset)
    moreover have "list_all col_ok ?cols"
      using scrolling_okD(1) [OF assms(1)] sub by (auto simp: cols_ok_def list_all_iff)
    moreover have "interactive_resize s = Some w \<Longrightarrow> w \<in> set (scrolling_windows s)" for w
      using scrolling_okD(1) [OF assms(1)] by (simp add: cols_ok_def)
    ultimately show ?thesis
      by (simp add: cols_ok_def cancel_resize_for_column_def scrolling_windows_wins)
  qed
  have le: "new_idx \<le> length (remove_at ?a (columns s))" using assms(3) lt by simp
  have "new_idx < length (columns ?s)" using assms(3) lt by (simp add: cancel_resize_for_column_def)
  from activate_column_returns [OF ok this] show ?thesis
    using False lt le m
    by (auto simp: move_column_to_def Let_def keeps_def cancel_resize_for_column_def elim!: returns_mono)
qed

lemma move_column_keeps:
  assumes "scrolling_ok s"
  shows "returns (move_left s) (\<lambda>(s', b). keeps s s')"
    and "returns (move_right s) (\<lambda>(s', b). keeps s s')"
    and "returns (move_column_to_first s) (keeps s)"
    and "returns (move_column_to_last s) (keeps s)"
    and "returns (move_column_to_index k s) (keeps s)"
proof -
  have act: "columns s \<noteq> [] \<Longrightarrow> active_column_idx s < length (columns s)"
    and nil: "columns s = [] \<Longrightarrow> active_column_idx s = 0"
    using scrolling_okD(2,3) [OF assms] by auto
  have mv: "returns (move_column_to i s) (keeps s)" if "i < length (columns s)" for i
    by (rule returns_mono [OF move_column_to_returns [OF assms _ that]]) (use that in auto)
  note k = keeps_refl [OF assms]
  show "returns (move_left s) (\<lambda>(s', b). keeps s s')"
    using act nil mv [of "active_column_idx s - 1"] k
    by (cases "columns s = []") (auto simp: move_left_def)
  show "returns (move_right s) (\<lambda>(s', b). keeps s s')"
    using mv [of "active_column_idx s + 1"] k by (auto simp: move_right_def Let_def)
  show "returns (move_column_to_first s) (keeps s)"
    using nil mv [of 0] k
    by (cases "columns s = []") (auto simp: move_column_to_first_def move_column_to_def)
  show "returns (move_column_to_last s) (keeps s)"
    using mv [of "length (columns s) - 1"] k by (auto simp: move_column_to_last_def)
  show "returns (move_column_to_index k s) (keeps s)"
    using mv [of "min (k - 1) (length (columns s) - 1)"] k
    by (auto simp: move_column_to_index_def min_less_iff_disj)
qed

section \<open>Consume and expel\<close>

lemma locate_or_active_returns:
  assumes "scrolling_ok s" "columns s \<noteq> []"
    and "\<And>w. window = Some w \<Longrightarrow> w \<in> set (scrolling_windows s)"
  shows "returns (locate_or_active window s) (\<lambda>(ci, ti). ci < length (columns s) \<and>
           ti < length (tiles (columns s ! ci)) \<and>
           (case window of
              Some w \<Rightarrow> win (tiles (columns s ! ci) ! ti) = w \<and>
                        position (column_contains w) (columns s) = Some ci
            | None \<Rightarrow> ci = active_column_idx s \<and> ti = active_tile_idx (columns s ! ci)))"
proof (cases window)
  case None
  have lt: "active_column_idx s < length (columns s)" using scrolling_okD(3) [OF assms(1,2)] .
  have "col_ok (columns s ! active_column_idx s)"
    using cols_ok_nth scrolling_okD(1) [OF assms(1)] lt by blast
  with lt None show ?thesis by (auto simp: locate_or_active_def dest: col_okD(2))
next
  case (Some w)
  from position_contains [OF assms(3) [OF Some]] obtain ci ti where
    "position (column_contains w) (columns s) = Some ci" "ci < length (columns s)"
      "column_position w (columns s ! ci) = Some ti" "ti < length (tiles (columns s ! ci))"
      "win (tiles (columns s ! ci) ! ti) = w" .
  with Some show ?thesis by (simp add: locate_or_active_def locate_def)
qed

text \<open>A tile is removed and added back elsewhere, in a new column or in an existing one\<close>

lemma remove_then_add_tile_keeps:
  assumes "scrolling_ok s" "ci < length (columns s)" "ti < length (tiles (columns s ! ci))"
    and "\<And>r s1. remove_tile_by_idx ci ti s = Some (r, s1) \<Longrightarrow> scrolling_ok s1 \<Longrightarrow>
           rt_tile r = tiles (columns s ! ci) ! ti \<Longrightarrow>
           returns (f r s1) (\<lambda>s2. scrolling_ok s2 \<and>
             win_mset (columns s2) = add_mset (win (rt_tile r)) (win_mset (columns s1)))"
  shows "returns (do { (r, s1) \<leftarrow> remove_tile_by_idx ci ti s; f r s1 }) (keeps s)"
proof -
  from remove_tile_by_idx_win_mset [OF assms(1-3)] obtain r s1 where
    r: "remove_tile_by_idx ci ti s = Some (r, s1)" "scrolling_ok s1" "rt_tile r = tiles (columns s ! ci) ! ti"
      "win_mset (columns s) = add_mset (win (rt_tile r)) (win_mset (columns s1))"
    by (auto elim!: returnsE)
  from assms(4) [OF r(1-3)] r show ?thesis
    by (auto simp: keeps_def elim!: returns_mono)
qed

lemma remove_tile_length:
  assumes "scrolling_ok s" "ci < length (columns s)" "ti < length (tiles (columns s ! ci))"
    and "remove_tile_by_idx ci ti s = Some (r, s1)"
  shows "length (columns s1) =
           (if length (tiles (columns s ! ci)) = 1 then length (columns s) - 1 else length (columns s))"
  using remove_tile_by_idx_returns [OF assms(1-3)] assms(2,4) by (auto split: if_splits)

lemma keeps_prev: "keeps s (s'\<lparr>activate_prev_column_on_removal := b\<rparr>) = keeps s s'"
  by (simp add: keeps_def)

lemma keeps_prev2: "keeps (s\<lparr>activate_prev_column_on_removal := b\<rparr>) s' = keeps s s'"
  by (simp add: keeps_def)

lemma consume_left_keeps:
  assumes "scrolling_ok s" and "0 < ci" and "ci < length (columns s)"
    and "length (tiles (columns s ! ci)) = 1"
  shows "returns (do { (r, s1) \<leftarrow> remove_tile_by_idx ci 0 s;
                       add_tile_to_column (ci - 1) None (rt_tile r) b s1 }) (keeps s)"
proof (rule remove_then_add_tile_keeps [OF assms(1,3)])
  show t: "0 < length (tiles (columns s ! ci))" using assms(4) by simp
  fix r s1
  assume r: "remove_tile_by_idx ci 0 s = Some (r, s1)" and ok: "scrolling_ok s1"
  have "ci - 1 < length (columns s1)"
    using remove_tile_length [OF assms(1,3) t r] assms by simp
  then show "returns (add_tile_to_column (ci - 1) None (rt_tile r) b s1) (\<lambda>s2. scrolling_ok s2 \<and>
      win_mset (columns s2) = add_mset (win (rt_tile r)) (win_mset (columns s1)))"
    by (intro add_tile_to_column_win_mset ok) auto
qed

lemma consume_right_keeps:
  assumes "scrolling_ok s" "Suc ci < length (columns s)" "length (tiles (columns s ! ci)) = 1"
  shows "returns (do { (r, s1) \<leftarrow> remove_tile_by_idx ci 0 s;
                       add_tile_to_column ci None (rt_tile r) b s1 }) (keeps s)"
proof (rule remove_then_add_tile_keeps [OF assms(1)])
  show ci: "ci < length (columns s)" using assms(2) by simp
  show t: "0 < length (tiles (columns s ! ci))" using assms(3) by simp
  fix r s1
  assume r: "remove_tile_by_idx ci 0 s = Some (r, s1)" and ok: "scrolling_ok s1"
  have "ci < length (columns s1)"
    using remove_tile_length [OF assms(1) ci t r] assms by simp
  then show "returns (add_tile_to_column ci None (rt_tile r) b s1) (\<lambda>s2. scrolling_ok s2 \<and>
      win_mset (columns s2) = add_mset (win (rt_tile r)) (win_mset (columns s1)))"
    by (intro add_tile_to_column_win_mset ok) auto
qed

lemma expel_keeps:
  assumes "scrolling_ok s" "ci < length (columns s)" "ti < length (tiles (columns s ! ci))"
    and "length (tiles (columns s ! ci)) \<noteq> 1" "i \<le> Suc ci"
  shows "returns (do { (r, s1) \<leftarrow> remove_tile_by_idx ci ti s;
                       add_tile opts (Some i) (rt_tile r) b (rt_width r) (rt_is_full_width r) s1 })
           (keeps s)"
proof (rule remove_then_add_tile_keeps [OF assms(1-3)])
  fix r s1
  assume r: "remove_tile_by_idx ci ti s = Some (r, s1)" and ok: "scrolling_ok s1"
  have "length (columns s1) = length (columns s)"
    using remove_tile_length [OF assms(1-3) r] assms(4) by simp
  then have "add_column_index (Some i) s1 \<le> length (columns s1)"
    using assms(2,5) by (simp add: add_column_index_def)
  then show "returns (add_tile opts (Some i) (rt_tile r) b (rt_width r) (rt_is_full_width r) s1)
      (\<lambda>s2. scrolling_ok s2 \<and>
         win_mset (columns s2) = add_mset (win (rt_tile r)) (win_mset (columns s1)))"
    by (rule add_tile_win_mset [OF ok])
qed

lemma consume_or_expel_window_left_keeps:
  assumes "scrolling_ok s" "\<And>w. window = Some w \<Longrightarrow> w \<in> set (scrolling_windows s)"
  shows "returns (consume_or_expel_window_left opts window s) (keeps s)"
proof (cases "columns s = []")
  case True
  with assms(1) show ?thesis by (simp add: consume_or_expel_window_left_def keeps_refl)
next
  case False
  have "returns (locate_or_active window s) (\<lambda>(ci, ti). ci < length (columns s) \<and>
      ti < length (tiles (columns s ! ci)))"
    by (rule returns_mono [OF locate_or_active_returns [of s window, OF assms(1) False assms(2)]]) auto
  then obtain ci ti where
    l: "locate_or_active window s = Some (ci, ti)" "ci < length (columns s)"
      "ti < length (tiles (columns s ! ci))"
    by (auto elim!: returnsE)
  define b where "b = (active_column_idx s = ci \<and> active_tile_idx (columns s ! ci) = ti)"
  define s0 where "s0 = (if b then s\<lparr>activate_prev_column_on_removal := True\<rparr> else s)"
  have s0: "scrolling_ok s0" "columns s0 = columns s" "keeps s0 = keeps s"
    using assms(1) by (auto simp: s0_def keeps_prev2 fun_eq_iff)
  show ?thesis
  proof (cases "length (tiles (columns s ! ci)) = 1")
    case True
    show ?thesis
    proof (cases "ci = 0")
      case c0: True
      with True l False keeps_refl [OF assms(1)] show ?thesis
        by (simp add: consume_or_expel_window_left_def)
    next
      case c0: False
      then have "consume_or_expel_window_left opts window s =
          do { (r, s1) \<leftarrow> remove_tile_by_idx ci 0 s0; add_tile_to_column (ci - 1) None (rt_tile r) b s1 }"
        using True l False by (simp add: consume_or_expel_window_left_def s0_def b_def Let_def)
      with consume_left_keeps [OF s0(1), of ci b] c0 l(2) True s0(2,3) show ?thesis by simp
    qed
  next
    case multi: False
    obtain s2 where s2: "do { (r, s1) \<leftarrow> remove_tile_by_idx ci ti s;
        add_tile opts (Some ci) (rt_tile r) b (rt_width r) (rt_is_full_width r) s1 } = Some s2" "keeps s s2"
      by (rule returnsE [OF expel_keeps [OF assms(1) l(2,3) multi, of ci opts b]]) auto
    then obtain r s1 where "remove_tile_by_idx ci ti s = Some (r, s1)"
        "add_tile opts (Some ci) (rt_tile r) b (rt_width r) (rt_is_full_width r) s1 = Some s2"
      by (auto simp: bind_eq_Some_conv)
    with s2(2) show ?thesis
      using multi l False
      by (simp add: consume_or_expel_window_left_def b_def Let_def keeps_prev)
  qed
qed

lemma consume_or_expel_window_right_keeps:
  assumes "scrolling_ok s" "\<And>w. window = Some w \<Longrightarrow> w \<in> set (scrolling_windows s)"
  shows "returns (consume_or_expel_window_right opts window s) (keeps s)"
proof (cases "columns s = []")
  case True
  with assms(1) show ?thesis by (simp add: consume_or_expel_window_right_def keeps_refl)
next
  case False
  have "returns (locate_or_active window s) (\<lambda>(ci, ti). ci < length (columns s) \<and>
      ti < length (tiles (columns s ! ci)))"
    by (rule returns_mono [OF locate_or_active_returns [of s window, OF assms(1) False assms(2)]]) auto
  then obtain ci ti where
    l: "locate_or_active window s = Some (ci, ti)" "ci < length (columns s)"
      "ti < length (tiles (columns s ! ci))"
    by (auto elim!: returnsE)
  define b where "b = (active_column_idx s = ci \<and> active_tile_idx (columns s ! ci) = ti)"
  define s0 where "s0 = (if b then s\<lparr>activate_prev_column_on_removal := False\<rparr> else s)"
  have s0: "scrolling_ok s0" "columns s0 = columns s" "keeps s0 = keeps s"
    using assms(1) by (auto simp: s0_def keeps_prev2 fun_eq_iff)
  show ?thesis
  proof (cases "length (tiles (columns s ! ci)) = 1")
    case True
    show ?thesis
    proof (cases "ci + 1 = length (columns s)")
      case c0: True
      with True l False keeps_refl [OF assms(1)] show ?thesis
        by (simp add: consume_or_expel_window_right_def)
    next
      case c0: False
      then have "consume_or_expel_window_right opts window s =
          do { (r, s1) \<leftarrow> remove_tile_by_idx ci 0 s0; add_tile_to_column ci None (rt_tile r) b s1 }"
        using True l False by (simp add: consume_or_expel_window_right_def s0_def b_def Let_def)
      with consume_right_keeps [OF s0(1), of ci b] c0 l(2) True s0(2,3) show ?thesis by simp
    qed
  next
    case multi: False
    then have "consume_or_expel_window_right opts window s =
        do { (r, s1) \<leftarrow> remove_tile_by_idx ci ti s;
             add_tile opts (Some (Suc ci)) (rt_tile r) b (rt_width r) (rt_is_full_width r) s1 }"
      using l False by (simp add: consume_or_expel_window_right_def b_def Let_def)
    with expel_keeps [OF assms(1) l(2,3) multi, of "Suc ci" opts b] show ?thesis by simp
  qed
qed

lemma consume_into_column_keeps:
  assumes "scrolling_ok s"
  shows "returns (consume_into_column s) (keeps s)"
proof -
  let ?a = "active_column_idx s"
  consider "length (columns s) < 2 \<or> ?a = length (columns s) - 1"
    | "2 \<le> length (columns s)" "?a \<noteq> length (columns s) - 1" by linarith
  then show ?thesis
  proof cases
    case 1
    with keeps_refl [OF assms] show ?thesis by (auto simp: consume_into_column_def)
  next
    case 2
    then have ne: "columns s \<noteq> []" by auto
    with 2 scrolling_okD(3) [OF assms] have lt: "Suc ?a < length (columns s)" by fastforce
    have "col_ok (columns s ! Suc ?a)"
      using cols_ok_nth scrolling_okD(1) [OF assms] lt by blast
    then have t: "0 < length (tiles (columns s ! Suc ?a))" by (rule col_okD)
    have "returns (do { (r, s1) \<leftarrow> remove_tile_by_idx (Suc ?a) 0 s;
                        add_tile_to_column ?a None (rt_tile r) False s1 }) (keeps s)"
    proof (rule remove_then_add_tile_keeps [OF assms lt t])
      fix r s1
      assume r: "remove_tile_by_idx (Suc ?a) 0 s = Some (r, s1)" and ok: "scrolling_ok s1"
      have "?a < length (columns s1)"
        using remove_tile_length [OF assms lt t r] lt by (simp only: split: if_splits) linarith+
      then show "returns (add_tile_to_column ?a None (rt_tile r) False s1) (\<lambda>s2. scrolling_ok s2 \<and>
          win_mset (columns s2) = add_mset (win (rt_tile r)) (win_mset (columns s1)))"
        by (intro add_tile_to_column_win_mset ok) auto
    qed
    with 2 show ?thesis by (simp add: consume_into_column_def Let_def)
  qed
qed

lemma expel_from_column_keeps:
  assumes "scrolling_ok s"
  shows "returns (expel_from_column opts s) (keeps s)"
proof (cases "columns s = []")
  case True
  with assms show ?thesis by (simp add: expel_from_column_def keeps_refl)
next
  case False
  let ?a = "active_column_idx s"
  have lt: "?a < length (columns s)" using scrolling_okD(3) [OF assms False] .
  have c: "col_ok (columns s ! ?a)" using cols_ok_nth scrolling_okD(1) [OF assms] lt by blast
  show ?thesis
  proof (cases "length (tiles (columns s ! ?a)) = 1")
    case True
    with lt False keeps_refl [OF assms] show ?thesis by (simp add: expel_from_column_def Let_def)
  next
    case multi: False
    have t: "length (tiles (columns s ! ?a)) - 1 < length (tiles (columns s ! ?a))"
      and le: "1 \<le> length (tiles (columns s ! ?a))"
      using col_okD(3) [OF c] by linarith+
    from expel_keeps [OF assms lt t multi, of "Suc ?a" opts False] multi lt False le
    show ?thesis by (simp add: expel_from_column_def Let_def)
  qed
qed

section \<open>Fullscreen, maximized and tabbed display\<close>

lemma cancel_resize_simps [simp]:
  "columns (cancel_resize_for_column c s) = columns s"
  "active_column_idx (cancel_resize_for_column c s) = active_column_idx s"
  "scrolling_windows (cancel_resize_for_column c s) = scrolling_windows s"
  by (simp_all add: cancel_resize_for_column_def)

lemma cancel_resize_keeps: "scrolling_ok s \<Longrightarrow> keeps s (cancel_resize_for_column c s)"
  by (auto simp: keeps_def scrolling_ok_def cancel_resize_for_column_def)

lemma keeps_cancel: "keeps (cancel_resize_for_column c s) s' = keeps s s'"
  by (simp add: keeps_def)

text \<open>Expelling a given window of a column of several puts it alone into the next column\<close>

lemma expel_right_alone:
  assumes "scrolling_ok s" "position (column_contains w) (columns s) = Some ci"
    and "length (tiles (columns s ! ci)) \<noteq> 1"
  shows "returns (consume_or_expel_window_right opts (Some w) s) (\<lambda>s'. keeps s s' \<and>
           Suc ci < length (columns s') \<and> length (tiles (columns s' ! Suc ci)) = 1)"
proof -
  have ci: "ci < length (columns s)" "w \<in> set (wins (columns s ! ci))"
    using position_SomeD [OF assms(2)] by auto
  then have w: "w \<in> set (scrolling_windows s)" by (auto simp: in_windows_conv)
  have ne: "columns s \<noteq> []" using ci by auto
  from position_contains [OF w] assms(2) obtain ti where
    p: "column_position w (columns s ! ci) = Some ti" "ti < length (tiles (columns s ! ci))"
    by auto
  define b where "b = (active_column_idx s = ci \<and> active_tile_idx (columns s ! ci) = ti)"
  obtain r s1 where r: "remove_tile_by_idx ci ti s = Some (r, s1)" and ok1: "scrolling_ok s1"
    by (rule returnsE [OF remove_tile_by_idx_win_mset [OF assms(1) ci(1) p(2)]]) auto
  have s1: "scrolling_ok s1" "length (columns s1) = length (columns s)"
    using ok1 remove_tile_length [OF assms(1) ci(1) p(2) r] assms(3) by auto
  have le: "add_column_index (Some (Suc ci)) s1 \<le> length (columns s1)"
    using ci s1(2) by (simp add: add_column_index_def)
  from add_tile_returns [OF s1(1) le, of opts "rt_tile r" b "rt_width r" "rt_is_full_width r"]
  obtain s2 c where s2:
    "add_tile opts (Some (Suc ci)) (rt_tile r) b (rt_width r) (rt_is_full_width r) s1 = Some s2"
    "wins c = [win (rt_tile r)]" "columns s2 = insert_at (Suc ci) c (columns s1)"
    by (auto simp: add_column_index_def elim!: returnsE)
  have "consume_or_expel_window_right opts (Some w) s = Some s2"
    using ne assms(2,3) ci p r s2(1)
    by (simp add: consume_or_expel_window_right_def locate_or_active_def locate_def b_def Let_def)
  moreover have "length (tiles c) = 1" using s2(2) by (simp flip: length_wins)
  moreover have "keeps s s2"
    using consume_or_expel_window_right_keeps [OF assms(1), of "Some w" opts] w calculation(1) by simp
  ultimately show ?thesis
    using s2(3) ci(1) s1(2) by (simp add: nth_insert_at)
qed

text \<open>\<open>set_fullscreen\<close> and \<open>set_maximized\<close> share their shape: expel if needed, then set the flag\<close>

lemma set_flag_keeps:
  assumes "scrolling_ok s" "w \<in> set (scrolling_windows s)"
    and col: "\<And>c. col_ok c \<Longrightarrow> (b \<longrightarrow> length (tiles c) = 1 \<or> display_mode c = Tabbed) \<Longrightarrow>
        returns (f b c) (\<lambda>c'. col_ok c' \<and> wins c' = wins c)"
  shows "returns (do {
       col_idx \<leftarrow> position (column_contains w) (columns s);
       col \<leftarrow> vec_get (columns s) col_idx;
       if b = flag col then Some (s, False)
       else do {
         let is_tabbed = (display_mode col = Tabbed);
         let s = cancel_resize_for_column col s;
         (s, col_idx) \<leftarrow>
           (if b \<and> 1 < length (tiles col) \<and> \<not> is_tabbed
            then do {
              s \<leftarrow> consume_or_expel_window_right opts (Some w) s;
              Some (s, col_idx + 1)
            } else Some (s, col_idx));
         col \<leftarrow> vec_get (columns s) col_idx;
         col \<leftarrow> f b col;
         Some (set_column col_idx col s, True)
       }
     }) (\<lambda>(s', changed). keeps s s')"
proof -
  from position_contains [OF assms(2)] obtain ci ti where
    p: "position (column_contains w) (columns s) = Some ci" "ci < length (columns s)" .
  let ?c = "columns s ! ci"
  let ?s = "cancel_resize_for_column ?c s"
  have c: "col_ok ?c" using cols_ok_nth scrolling_okD(1) [OF assms(1)] p(2) by blast
  have k: "keeps s ?s" by (rule cancel_resize_keeps [OF assms(1)])
  have fin: "returns (do { col \<leftarrow> vec_get (columns s1) i; col \<leftarrow> f b col;
       Some (set_column i col s1, True) }) (\<lambda>(s', changed). keeps s s')"
    if "keeps s s1" "i < length (columns s1)"
      "b \<longrightarrow> length (tiles (columns s1 ! i)) = 1 \<or> display_mode (columns s1 ! i) = Tabbed" for s1 i
  proof -
    have "col_ok (columns s1 ! i)"
      using cols_ok_nth scrolling_okD(1) [OF keeps_ok [OF that(1)]] that(2) by blast
    from col [OF this that(3)] obtain c' where "f b (columns s1 ! i) = Some c'" "col_ok c'"
        "wins c' = wins (columns s1 ! i)" by (auto elim!: returnsE)
    with set_column_keeps [OF keeps_ok [OF that(1)] that(2), of c'] that(1,2) keeps_trans [OF that(1)]
    show ?thesis by simp
  qed
  show ?thesis
  proof (cases "b = flag ?c")
    case True
    with p assms(1) show ?thesis by (simp add: keeps_refl)
  next
    case False
    show ?thesis
    proof (cases "b \<and> 1 < length (tiles ?c) \<and> display_mode ?c \<noteq> Tabbed")
      case True
      then have "length (tiles (columns ?s ! ci)) \<noteq> 1" by simp
      from expel_right_alone [OF keeps_ok [OF k] _ this, of w opts] p(1) obtain s1 where
        s1: "consume_or_expel_window_right opts (Some w) ?s = Some s1" "keeps ?s s1"
          "Suc ci < length (columns s1)" "length (tiles (columns s1 ! Suc ci)) = 1"
        by (auto elim!: returnsE)
      have "keeps s s1" using s1(2) k keeps_trans by blast
      from fin [OF this s1(3)] s1 p True False show ?thesis by simp
    next
      case expel: False
      have "b \<longrightarrow> length (tiles (columns ?s ! ci)) = 1 \<or> display_mode (columns ?s ! ci) = Tabbed"
      proof -
        have "length (tiles ?c) = 1 \<or> 1 < length (tiles ?c)" using col_okD(3) [OF c] by linarith
        with expel show ?thesis by auto
      qed
      from fin [OF k _ this] p expel False show ?thesis
        by (cases b; cases "1 < length (tiles ?c)"; simp add: Let_def)
    qed
  qed
qed

lemma set_fullscreen_keeps:
  assumes "scrolling_ok s" "w \<in> set (scrolling_windows s)"
  shows "returns (set_fullscreen opts w b s) (\<lambda>(s', changed). keeps s s')"
  unfolding set_fullscreen_def
  by (rule set_flag_keeps [OF assms])
    (rule returns_mono [OF column_set_fullscreen_returns], auto)

lemma set_maximized_keeps:
  assumes "scrolling_ok s" "w \<in> set (scrolling_windows s)"
  shows "returns (set_maximized opts w b s) (\<lambda>(s', changed). keeps s s')"
  unfolding set_maximized_def
  by (rule set_flag_keeps [OF assms])
    (rule returns_mono [OF column_set_maximized_returns], auto)

lemma distinct_position:
  assumes "distinct (concat (map wins cols))" "ci < length cols" "w \<in> set (wins (cols ! ci))"
  shows "position (column_contains w) cols = Some ci"
proof (rule position_SomeI)
  fix j assume j: "j < ci"
  have "cols = take ci cols @ cols ! ci # drop (Suc ci) cols"
    using assms(2) by (rule id_take_nth_drop)
  then have "distinct (concat (map wins (take ci cols)) @ wins (cols ! ci) @ concat (map wins (drop (Suc ci) cols)))"
    using assms(1) by (metis concat.simps(2) concat_append list.simps(9) map_append)
  moreover have "cols ! j \<in> set (take ci cols)"
    using j assms(2) by (auto simp: in_set_conv_nth intro!: exI [of _ j])
  ultimately show "\<not> column_contains w (cols ! j)"
    using assms(3) by auto
qed (use assms in simp_all)

lemma set_fullscreen_off:
  assumes "position (column_contains w) (columns s) = Some ci" "tiles (columns s ! ci) \<noteq> []"
  shows "\<exists>s' c' b. set_fullscreen opts w False s = Some (s', b) \<and> columns s' = (columns s)[ci := c'] \<and>
           active_column_idx s' = active_column_idx s \<and>
           (\<forall>r. interactive_resize s' = Some r \<longrightarrow> interactive_resize s = Some r) \<and>
           wins c' = wins (columns s ! ci) \<and> length (tiles c') = length (tiles (columns s ! ci)) \<and>
           active_tile_idx c' = active_tile_idx (columns s ! ci) \<and> \<not> is_pending_fullscreen c' \<and>
           is_pending_maximized c' = is_pending_maximized (columns s ! ci) \<and>
           (list_all (\<lambda>t. pending_mode t = pending_sizing_mode (columns s ! ci)) (tiles (columns s ! ci)) \<longrightarrow>
            list_all (\<lambda>t. pending_mode t = pending_sizing_mode c') (tiles c'))"
proof -
  have ci: "ci < length (columns s)" using position_SomeD [OF assms(1)] by simp
  show ?thesis
  proof (cases "is_pending_fullscreen (columns s ! ci)")
    case False
    with assms ci show ?thesis
      by (auto simp: set_fullscreen_def intro!: exI [of _ s] exI [of _ "columns s ! ci"])
  next
    case True
    let ?c = "(columns s ! ci)\<lparr>is_pending_fullscreen := False\<rparr>"
    let ?c' = "?c\<lparr>tiles := map (\<lambda>t. t\<lparr>pending_mode := pending_sizing_mode ?c\<rparr>) (tiles ?c)\<rparr>"
    have "set_fullscreen opts w False s =
        Some (set_column ci ?c' (cancel_resize_for_column (columns s ! ci) s), True)"
      using True assms ci
      by (simp add: set_fullscreen_def Let_def column_set_fullscreen_def update_tile_sizes_Some)
    moreover have "list_all (\<lambda>t. pending_mode t = pending_sizing_mode ?c') (tiles ?c')"
      by (simp add: list_all_iff pending_sizing_mode_def)
    ultimately show ?thesis
      by (intro exI [of _ "set_column ci ?c' (cancel_resize_for_column (columns s ! ci) s)"]
          exI [of _ ?c'] exI [of _ True])
        (simp add: wins_def comp_def cancel_resize_for_column_def)
  qed
qed

lemma set_maximized_off:
  assumes "position (column_contains w) (columns s) = Some ci" "tiles (columns s ! ci) \<noteq> []"
  shows "\<exists>s' c' b. set_maximized opts w False s = Some (s', b) \<and> columns s' = (columns s)[ci := c'] \<and>
           active_column_idx s' = active_column_idx s \<and>
           (\<forall>r. interactive_resize s' = Some r \<longrightarrow> interactive_resize s = Some r) \<and>
           wins c' = wins (columns s ! ci) \<and> length (tiles c') = length (tiles (columns s ! ci)) \<and>
           active_tile_idx c' = active_tile_idx (columns s ! ci) \<and> \<not> is_pending_maximized c' \<and>
           is_pending_fullscreen c' = is_pending_fullscreen (columns s ! ci) \<and>
           (list_all (\<lambda>t. pending_mode t = pending_sizing_mode (columns s ! ci)) (tiles (columns s ! ci)) \<longrightarrow>
            list_all (\<lambda>t. pending_mode t = pending_sizing_mode c') (tiles c'))"
proof -
  have ci: "ci < length (columns s)" using position_SomeD [OF assms(1)] by simp
  show ?thesis
  proof (cases "is_pending_maximized (columns s ! ci)")
    case False
    with assms ci show ?thesis
      by (auto simp: set_maximized_def intro!: exI [of _ s] exI [of _ "columns s ! ci"])
  next
    case True
    let ?c = "(columns s ! ci)\<lparr>is_pending_maximized := False\<rparr>"
    let ?c' = "?c\<lparr>tiles := map (\<lambda>t. t\<lparr>pending_mode := pending_sizing_mode ?c\<rparr>) (tiles ?c)\<rparr>"
    have "set_maximized opts w False s =
        Some (set_column ci ?c' (cancel_resize_for_column (columns s ! ci) s), True)"
      using True assms ci
      by (simp add: set_maximized_def Let_def column_set_maximized_def update_tile_sizes_Some)
    moreover have "list_all (\<lambda>t. pending_mode t = pending_sizing_mode ?c') (tiles ?c')"
      by (simp add: list_all_iff pending_sizing_mode_def)
    ultimately show ?thesis
      by (intro exI [of _ "set_column ci ?c' (cancel_resize_for_column (columns s ! ci) s)"]
          exI [of _ ?c'] exI [of _ True])
        (simp add: wins_def comp_def cancel_resize_for_column_def)
  qed
qed

lemma set_column_display_keeps:
  assumes "scrolling_ok s" "distinct (scrolling_windows s)"
  shows "returns (set_column_display opts display s) (keeps s)"
proof (cases "columns s = []")
  case True
  with assms(1) show ?thesis by (simp add: set_column_display_def keeps_refl)
next
  case False
  let ?a = "active_column_idx s"
  let ?c = "columns s ! ?a"
  have lt: "?a < length (columns s)" using scrolling_okD(3) [OF assms(1) False] .
  have c: "col_ok ?c" using cols_ok_nth scrolling_okD(1) [OF assms(1)] lt by blast
  show ?thesis
  proof (cases "display_mode ?c = display")
    case True
    with False lt assms(1) show ?thesis by (simp add: set_column_display_def keeps_refl)
  next
    case diff: False
    let ?s = "cancel_resize_for_column ?c s"
    let ?c1 = "?c\<lparr>display_mode := display,
        tiles := map (\<lambda>t. t\<lparr>pending_mode := pending_sizing_mode ?c\<rparr>) (tiles ?c)\<rparr>"
    let ?s1 = "set_column ?a ?c1 ?s"
    have ne: "tiles ?c \<noteq> []" using col_okD(1) [OF c] .
    have k: "keeps s ?s" by (rule cancel_resize_keeps [OF assms(1)])
    have w1: "wins ?c1 = wins ?c" by (simp add: wins_def comp_def)
    have run: "column_set_display display ?c = Some ?c1" "update_tile_sizes ?c1 = Some ?c1"
      using diff ne by (simp_all add: column_set_display_def update_tile_sizes_Some comp_def)
    show ?thesis
    proof (cases "display \<noteq> Tabbed \<and> 1 < length (tiles ?c)")
      case False
      have "length (tiles ?c) = 1 \<or> display = Tabbed"
        using False col_okD(3) [OF c] by linarith
      then have "col_ok ?c1" using c by (auto simp: col_ok_def list_all_iff)
      moreover have "mset (wins ?c1) = mset (wins (columns ?s ! ?a))"
        by (simp only: w1 cancel_resize_simps)
      ultimately have "keeps ?s ?s1"
        using lt by (intro set_column_keeps [OF keeps_ok [OF k]]) simp_all
      then show ?thesis
        using run False diff lt \<open>columns s \<noteq> []\<close> keeps_trans [OF k]
        by (auto simp: set_column_display_def Let_def)
    next
      case True
      let ?w = "win (tiles ?c ! active_tile_idx ?c)"
      have win: "?w \<in> set (wins ?c)" using col_okD(2) [OF c] by (simp add: wins_def)
      have pos: "position (column_contains ?w) cols = Some ?a"
        if "map wins cols = map wins (columns s)" for cols
      proof -
        have "distinct (concat (map wins cols))" "?a < length cols"
          using assms(2) lt that by (auto simp: scrolling_windows_wins dest: arg_cong [where f = length])
        moreover have "wins (cols ! ?a) = wins ?c"
          using lt that calculation(2) by (metis nth_map)
        ultimately show ?thesis using win by (intro distinct_position) auto
      qed
      have m1: "map wins (columns ?s1) = map wins (columns s)"
        using w1 lt by (simp add: map_update list_update_same_conv)
      from set_fullscreen_off [OF pos [OF m1], of opts] ne lt obtain s2 c2 b where
        s2: "set_fullscreen opts ?w False ?s1 = Some (s2, b)" "columns s2 = (columns s)[?a := c2]"
          "active_column_idx s2 = ?a"
          "\<forall>r. interactive_resize s2 = Some r \<longrightarrow> interactive_resize ?s = Some r"
          "wins c2 = wins ?c" "length (tiles c2) = length (tiles ?c)"
          "active_tile_idx c2 = active_tile_idx ?c" "\<not> is_pending_fullscreen c2"
          "list_all (\<lambda>t. pending_mode t = pending_sizing_mode c2) (tiles c2)"
        using w1 by (auto simp: list_all_iff)
      have m2: "map wins (columns s2) = map wins (columns s)"
        using s2(2,5) lt by (simp add: map_update list_update_same_conv)
      have ne2: "tiles c2 \<noteq> []" using s2(6) ne by auto
      from set_maximized_off [OF pos [OF m2], of opts] s2 ne2 lt obtain s3 c3 b2 where
        s3: "set_maximized opts ?w False s2 = Some (s3, b2)" "columns s3 = (columns s)[?a := c3]"
          "active_column_idx s3 = ?a"
          "\<forall>r. interactive_resize s3 = Some r \<longrightarrow> interactive_resize ?s = Some r"
          "wins c3 = wins ?c" "length (tiles c3) = length (tiles ?c)"
          "active_tile_idx c3 = active_tile_idx ?c" "\<not> is_pending_fullscreen c3"
          "\<not> is_pending_maximized c3"
          "list_all (\<lambda>t. pending_mode t = pending_sizing_mode c3) (tiles c3)"
        by auto
      have c3: "col_ok c3"
        using s3 ne col_okD(2) [OF c] by (auto simp: col_ok_def pending_sizing_mode_def)
      have "keeps ?s (set_column ?a c3 ?s)"
        using set_column_keeps [OF keeps_ok [OF k], of ?a c3] lt c3 s3(5) by simp
      then have "keeps s s3"
        using k s3 lt False
        by (auto simp: keeps_def scrolling_ok_def scrolling_windows_def)
      then show ?thesis
        using run True diff lt \<open>columns s \<noteq> []\<close> s2(1) s3(1) col_okD(2) [OF c]
        by (simp add: set_column_display_def Let_def)
    qed
  qed
qed

lemma toggle_column_tabbed_display_keeps:
  assumes "scrolling_ok s" "distinct (scrolling_windows s)"
  shows "returns (toggle_column_tabbed_display opts s) (keeps s)"
  using scrolling_okD(3) [OF assms(1)] set_column_display_keeps [OF assms] keeps_refl [OF assms(1)]
  by (auto simp: toggle_column_tabbed_display_def)

lemma sc_resize_begin_keeps:
  assumes "scrolling_ok s" "w \<in> set (scrolling_windows s)"
  shows "returns (sc_resize_begin w s) (\<lambda>(s', b). keeps s s')"
proof (cases "interactive_resize s = None")
  case False
  with assms(1) show ?thesis by (simp add: sc_resize_begin_def keeps_refl)
next
  case True
  from position_contains [OF assms(2)] obtain ci ti where
    p: "position (column_contains w) (columns s) = Some ci" "ci < length (columns s)"
      "column_position w (columns s ! ci) = Some ti" .
  have "keeps s (s\<lparr>interactive_resize := Some w\<rparr>)"
    using assms by (auto simp: keeps_def scrolling_ok_def)
  with p True assms(1) show ?thesis by (simp add: sc_resize_begin_def keeps_refl)
qed

lemma sc_resize_end_keeps:
  assumes "scrolling_ok s"
  shows "returns (sc_resize_end w s) (keeps s)"
proof (cases "interactive_resize s")
  case None
  with assms show ?thesis by (simp add: sc_resize_end_def keeps_refl)
next
  case (Some r)
  then have "r \<in> set (scrolling_windows s)" using assms by (simp add: scrolling_ok_def)
  then have "columns s \<noteq> []" by (auto simp: scrolling_windows_def)
  then have a: "active_column_idx s < length (columns s)" using scrolling_okD(3) [OF assms] by blast
  have "keeps s (s\<lparr>interactive_resize := None\<rparr>)"
    using assms by (auto simp: keeps_def scrolling_ok_def)
  with Some a assms show ?thesis by (auto simp: sc_resize_end_def keeps_refl split: option.splits)
qed

end
