(* ===== verification/ScrollingSwap.thy ===== *)
theory ScrollingSwap
  imports ScrollingOps
begin

text \<open>
  \<open>ScrollingSpace::swap_window_in_direction\<close> (\<open>src/layout/scrolling.rs\<close>): its four
  removals and insertions exchange exactly the active windows of two adjacent columns. The
  proofs work on the grid of window ids, the list of the windows of each column.
\<close>

definition grid :: "scrolling \<Rightarrow> win_id list list" where
  "grid s = map wins (columns s)"

lemma length_grid [simp]: "length (grid s) = length (columns s)"
  by (simp add: grid_def)

lemma nth_grid: "i < length (columns s) \<Longrightarrow> grid s ! i = wins (columns s ! i)"
  by (simp add: grid_def)

lemma length_nth_grid [simp]:
  "i < length (columns s) \<Longrightarrow> length (grid s ! i) = length (tiles (columns s ! i))"
  by (simp add: nth_grid)

lemma scrolling_windows_grid: "scrolling_windows s = concat (grid s)"
  by (simp add: grid_def scrolling_windows_wins)

lemma length_columns_grid: "grid s = g \<Longrightarrow> length (columns s) = length g"
  by auto

section \<open>The steps on the grid\<close>

lemma remove_tile_grid:
  assumes "scrolling_ok s" "ci < length (columns s)" "ti < length (grid s ! ci)"
  shows "returns (remove_tile_by_idx ci ti s) (\<lambda>(r, s'). scrolling_ok s' \<and>
           win (rt_tile r) = grid s ! ci ! ti \<and>
           grid s' = (if length (grid s ! ci) = 1 then remove_at ci (grid s)
                      else (grid s)[ci := remove_at ti (grid s ! ci)]))"
proof -
  have ti: "ti < length (tiles (columns s ! ci))" using assms(2,3) by simp
  from remove_tile_by_idx_returns [OF assms(1,2) ti] obtain r s' where
    r: "remove_tile_by_idx ci ti s = Some (r, s')" "scrolling_ok s'" "rt_tile r = tiles (columns s ! ci) ! ti"
    and one: "length (tiles (columns s ! ci)) = 1 \<Longrightarrow> columns s' = remove_at ci (columns s)"
    and more: "length (tiles (columns s ! ci)) \<noteq> 1 \<Longrightarrow> \<exists>c. columns s' = (columns s)[ci := c] \<and>
                 wins c = remove_at ti (wins (columns s ! ci))"
    by (auto elim!: returnsE split: if_splits)
  have "win (rt_tile r) = grid s ! ci ! ti"
    using r(3) ti assms(2) by (simp add: nth_grid wins_def)
  moreover have "grid s' = (if length (grid s ! ci) = 1 then remove_at ci (grid s)
                      else (grid s)[ci := remove_at ti (grid s ! ci)])"
    using one more assms(2) by (auto simp: grid_def map_remove_at map_update)
  ultimately show ?thesis using r by simp
qed

lemma add_tile_to_column_grid:
  assumes "scrolling_ok s" "ci < length (columns s)" "ti \<le> length (grid s ! ci)"
  shows "returns (add_tile_to_column ci (Some ti) t False s) (\<lambda>s'. scrolling_ok s' \<and>
           grid s' = (grid s)[ci := insert_at ti (win t) (grid s ! ci)])"
  by (rule returns_mono [OF add_tile_to_column_returns [OF assms(1,2), of ti "Some ti"]])
    (use assms in \<open>auto simp: grid_def map_update\<close>)

lemma add_tile_grid:
  assumes "scrolling_ok s" "i \<le> length (columns s)"
  shows "returns (add_tile opts (Some i) t activate width full s) (\<lambda>s'. scrolling_ok s' \<and>
           grid s' = insert_at i [win t] (grid s))"
  by (rule returns_mono [OF add_tile_returns [OF assms(1), of "Some i"]])
    (use assms in \<open>auto simp: grid_def add_column_index_def map_insert_at\<close>)

lemma set_active_tile_grid:
  assumes "scrolling_ok s" "ci < length (columns s)" "ti < length (grid s ! ci)"
  shows "returns (set_active_tile ci ti s) (\<lambda>s'. scrolling_ok s' \<and> grid s' = grid s \<and>
           active_tile_idx (columns s' ! ci) = ti)"
proof -
  let ?c = "(columns s ! ci)\<lparr>active_tile_idx := ti\<rparr>"
  have "col_ok ?c"
    using assms cols_ok_nth [OF scrolling_okD(1) [OF assms(1)] assms(2)] by (simp add: col_ok_active)
  then have "scrolling_ok (set_column ci ?c s)"
    using assms by (intro scrolling_ok_set_column) auto
  then show ?thesis
    using assms(2) by (simp add: set_active_tile_def grid_def map_update list_update_same_conv)
qed

lemma activate_column_grid:
  assumes "scrolling_ok s" "idx < length (columns s)"
  shows "returns (activate_column idx s) (\<lambda>s'. scrolling_ok s' \<and> columns s' = columns s \<and>
           active_column_idx s' = idx)"
  by (rule returns_mono [OF activate_column_returns [OF scrolling_okD(1) [OF assms(1)] assms(2)]]) auto

section \<open>The exchange\<close>

lemma remove_insert_update:
  "i < length xs \<Longrightarrow> remove_at (Suc i) (insert_at i x xs) = xs[i := x]"
  by (simp add: remove_at_def insert_at_def upd_conv_take_nth_drop min_def)

lemma drained_exchange:
  assumes "a < length g" "b < length g" "b \<noteq> a"
  shows "insert_at a x ((remove_at a g)[if a < b then b - 1 else b := y]) = g[a := x, b := y]"
proof (rule nth_equalityI)
  show "length (insert_at a x ((remove_at a g)[if a < b then b - 1 else b := y])) = length (g[a := x, b := y])"
    using assms by simp
  fix i assume "i < length (insert_at a x ((remove_at a g)[if a < b then b - 1 else b := y]))"
  then have i: "i < length g" using assms by simp
  show "insert_at a x ((remove_at a g)[if a < b then b - 1 else b := y]) ! i = g[a := x, b := y] ! i"
    using assms i by (auto simp: nth_insert_at nth_remove_at nth_list_update not_less)
qed

lemma adjacent_exchange:
  assumes "a < length g" "b < length g" "b = Suc a \<or> a = Suc b"
  shows "insert_at b (g ! a) (remove_at a g) = g[a := g ! b, b := g ! a]"
proof (rule nth_equalityI)
  show "length (insert_at b (g ! a) (remove_at a g)) = length (g[a := g ! b, b := g ! a])"
    using assms by simp
  fix i assume "i < length (insert_at b (g ! a) (remove_at a g))"
  then have i: "i < length g" using assms by simp
  show "insert_at b (g ! a) (remove_at a g) ! i = g[a := g ! b, b := g ! a] ! i"
    using assms i by (auto simp: nth_insert_at nth_remove_at nth_list_update not_less)
qed

text \<open>The exchange of the tiles \<open>i\<close> of column \<open>a\<close> and \<open>j\<close> of column \<open>b\<close>\<close>

definition exchanged :: "win_id list list \<Rightarrow> nat \<Rightarrow> nat \<Rightarrow> nat \<Rightarrow> nat \<Rightarrow> win_id list list" where
  "exchanged g a i b j = g[a := (g ! a)[i := g ! b ! j], b := (g ! b)[j := g ! a ! i]]"

lemma put_and_take:
  assumes "scrolling_ok s" "ci < length (columns s)" "j < length (grid s ! ci)"
  shows "\<exists>s1 r s2. add_tile_to_column ci (Some j) t False s = Some s1 \<and>
           remove_tile_by_idx ci (j + 1) s1 = Some (r, s2) \<and> scrolling_ok s2 \<and>
           win (rt_tile r) = grid s ! ci ! j \<and> grid s2 = (grid s)[ci := (grid s ! ci)[j := win t]]"
proof -
  let ?xs = "insert_at j (win t) (grid s ! ci)"
  from add_tile_to_column_grid [OF assms(1,2), of j t] assms(3) obtain s1 where
    s1: "add_tile_to_column ci (Some j) t False s = Some s1" "scrolling_ok s1"
      "grid s1 = (grid s)[ci := ?xs]"
    by (auto elim!: returnsE)
  have ci: "ci < length (columns s1)" and xs: "grid s1 ! ci = ?xs"
    using length_columns_grid [OF s1(3)] s1(3) assms(2) by simp_all
  have j1: "j + 1 < length (grid s1 ! ci)" and l: "length (grid s1 ! ci) \<noteq> 1"
    using assms(3) by (auto simp: xs)
  from remove_tile_grid [OF s1(2) ci j1] obtain r s2 where
    s2: "remove_tile_by_idx ci (j + 1) s1 = Some (r, s2)" "scrolling_ok s2"
      "win (rt_tile r) = ?xs ! (j + 1)" "grid s2 = (grid s1)[ci := remove_at (j + 1) ?xs]"
    unfolding xs using l xs by (auto elim!: returnsE split: if_splits)
  have "win (rt_tile r) = grid s ! ci ! j" using s2(3) assms(3) by (simp add: nth_insert_at)
  moreover have "grid s2 = (grid s)[ci := (grid s ! ci)[j := win t]]"
    using s2(4) s1(3) assms(3) by (simp add: remove_insert_update)
  ultimately show ?thesis using s1(1) s2(1,2) by blast
qed

lemma set_focus_grid:
  assumes "scrolling_ok s" "a < length (columns s)" "b < length (columns s)" "a \<noteq> b"
    and "i < length (grid s ! a)" "j < length (grid s ! b)"
  shows "returns (do { s \<leftarrow> set_active_tile a i s; s \<leftarrow> set_active_tile b j s; activate_column b s })
           (\<lambda>s'. scrolling_ok s' \<and> grid s' = grid s \<and> active_column_idx s' = b \<and>
              active_tile_idx (columns s' ! b) = j)"
proof -
  from set_active_tile_grid [OF assms(1,2,5)] obtain s1 where
    s1: "set_active_tile a i s = Some s1" "scrolling_ok s1" "grid s1 = grid s" by (auto elim!: returnsE)
  have b: "b < length (columns s1)" "j < length (grid s1 ! b)"
    using length_columns_grid [OF s1(3)] s1(3) assms by simp_all
  from set_active_tile_grid [OF s1(2) b] obtain s2 where
    s2: "set_active_tile b j s1 = Some s2" "scrolling_ok s2" "grid s2 = grid s1"
      "active_tile_idx (columns s2 ! b) = j" by (auto elim!: returnsE)
  have "b < length (columns s2)" using length_columns_grid [OF s2(3)] b by simp
  from activate_column_grid [OF s2(2) this] show ?thesis
    unfolding returns_bind s1(1) s2(1) returns_Some
    by (rule returns_mono) (use s1 s2 in \<open>auto simp: grid_def\<close>)
qed

lemma exchanged_lengths:
  assumes "a < length g" "b < length g" "a \<noteq> b"
  shows "length (exchanged g a i b j) = length g"
    "length (exchanged g a i b j ! a) = length (g ! a)"
    "length (exchanged g a i b j ! b) = length (g ! b)"
    "j < length (g ! b) \<Longrightarrow> exchanged g a i b j ! b ! j = g ! a ! i"
  using assms by (simp_all add: exchanged_def)

lemma swap_windows_exchanges:
  assumes ok: "scrolling_ok s" and a: "a < length (columns s)" and b: "b < length (columns s)"
    and dir: "(direction = ScrollRight \<and> b = Suc a) \<or> (direction = ScrollLeft \<and> a = Suc b)"
    and many: "\<not> (length (tiles (columns s ! a)) = 1 \<and> length (tiles (columns s ! b)) = 1)"
    and i: "i = active_tile_idx (columns s ! a)" and j: "j = active_tile_idx (columns s ! b)"
  shows "returns (swap_windows opts direction a b (columns s ! a) (columns s ! b) s) (\<lambda>s'.
           scrolling_ok s' \<and> grid s' = exchanged (grid s) a i b j \<and> active_column_idx s' = b \<and>
           active_tile_idx (columns s' ! b) = j)"
proof -
  let ?g = "grid s"
  let ?one = "length (tiles (columns s ! a)) = 1"
  let ?b = "if direction = ScrollRight \<and> ?one then b - 1 else b"
  have col: "col_ok (columns s ! a)" "col_ok (columns s ! b)"
    using cols_ok_nth scrolling_okD(1) [OF ok] a b by blast+
  have il: "i < length (?g ! a)" using col_okD(2) [OF col(1)] i a by simp
  have jl: "j < length (?g ! b)" using col_okD(2) [OF col(2)] j b by simp
  have ab: "a \<noteq> b" using dir by auto
  from remove_tile_grid [OF ok a il] obtain r1 s1 where
    s1: "remove_tile_by_idx a i s = Some (r1, s1)" "scrolling_ok s1" "win (rt_tile r1) = ?g ! a ! i"
      "grid s1 = (if ?one then remove_at a ?g else ?g[a := remove_at i (?g ! a)])"
    using a by (auto elim!: returnsE split: if_splits)
  have b1: "?b < length (columns s1)" "grid s1 ! ?b = ?g ! b"
    using length_columns_grid [OF s1(4)] s1(4) dir a b by (auto simp: nth_remove_at)
  then have j1: "j < length (grid s1 ! ?b)" using jl by simp
  from put_and_take [OF s1(2) b1(1) j1, of "rt_tile r1"] obtain s2 r2 s3 where
    s2: "add_tile_to_column ?b (Some j) (rt_tile r1) False s1 = Some s2"
      "remove_tile_by_idx ?b (j + 1) s2 = Some (r2, s3)" "scrolling_ok s3"
      "win (rt_tile r2) = ?g ! b ! j" "grid s3 = (grid s1)[?b := (?g ! b)[j := ?g ! a ! i]]"
    unfolding b1(2) s1(3) by blast
  obtain s4 where
    s4: "(if ?one then add_tile opts (Some a) (rt_tile r2) True (rt_width r1) (rt_is_full_width r1) s3
          else add_tile_to_column a (Some i) (rt_tile r2) False s3) = Some s4"
      "scrolling_ok s4" "grid s4 = exchanged ?g a i b j"
  proof (cases ?one)
    case True
    have g3: "grid s3 = (remove_at a ?g)[if a < b then b - 1 else b := (?g ! b)[j := ?g ! a ! i]]"
      using s2(5) s1(4) True dir by auto
    have "a \<le> length (columns s3)" using length_columns_grid [OF g3] a by simp
    from add_tile_grid [OF s2(3) this, of opts "rt_tile r2" True "rt_width r1" "rt_is_full_width r1"]
    obtain s4 where s4: "add_tile opts (Some a) (rt_tile r2) True (rt_width r1) (rt_is_full_width r1) s3 = Some s4"
        "scrolling_ok s4" "grid s4 = insert_at a [?g ! b ! j] (grid s3)"
      using s2(4) by (auto elim!: returnsE)
    obtain x where "?g ! a = [x]"
      using True a by (metis length_nth_grid One_nat_def length_0_conv length_Suc_conv)
    with il have "[?g ! b ! j] = (?g ! a)[i := ?g ! b ! j]" by simp
    then have "grid s4 = exchanged ?g a i b j"
      using s4(3) g3 drained_exchange [of a ?g b] a b ab by (simp add: exchanged_def)
    with s4 True that show ?thesis by simp
  next
    case False
    have g3: "grid s3 = ?g[a := remove_at i (?g ! a), b := (?g ! b)[j := ?g ! a ! i]]"
      using s2(5) s1(4) False by auto
    have a3: "a < length (columns s3)" "grid s3 ! a = remove_at i (?g ! a)"
      using length_columns_grid [OF g3] g3 a ab by simp_all
    have "i \<le> length (grid s3 ! a)" using il by (simp add: a3(2))
    from add_tile_to_column_grid [OF s2(3) a3(1) this, of "rt_tile r2"] obtain s4 where
      s4: "add_tile_to_column a (Some i) (rt_tile r2) False s3 = Some s4" "scrolling_ok s4"
        "grid s4 = (grid s3)[a := insert_at i (?g ! b ! j) (remove_at i (?g ! a))]"
      using s2(4) a3(2) by (auto elim!: returnsE)
    have "grid s4 = exchanged ?g a i b j"
      unfolding s4(3) g3 exchanged_def list_update_conv_insert_remove [OF il, symmetric]
      using ab by (metis list_update_overwrite list_update_swap)
    with s4 False that show ?thesis by simp
  qed
  note len = exchanged_lengths [of a ?g b i j, OF _ _ ab]
  have "returns (do { s \<leftarrow> set_active_tile a i s4; s \<leftarrow> set_active_tile b j s; activate_column b s })
          (\<lambda>s'. scrolling_ok s' \<and> grid s' = grid s4 \<and> active_column_idx s' = b \<and>
              active_tile_idx (columns s' ! b) = j)"
    using length_columns_grid [OF s4(3)] a b il jl len
    by (intro set_focus_grid [OF s4(2)] ab) (simp_all only: s4(3) length_grid)
  then show ?thesis
    using s1(1) s2(1,2) s4(1,3) i j by (cases ?one) (simp_all add: swap_windows_def Let_def)
qed

lemma move_column_exchanges:
  assumes ok: "scrolling_ok s" and b: "b < length (columns s)"
    and ab: "b = Suc (active_column_idx s) \<or> active_column_idx s = Suc b"
    and one: "length (tiles (columns s ! active_column_idx s)) = 1" "length (tiles (columns s ! b)) = 1"
  shows "returns (move_column_to b s) (\<lambda>s'. scrolling_ok s' \<and>
           grid s' = exchanged (grid s) (active_column_idx s) 0 b 0 \<and> active_column_idx s' = b \<and>
           active_tile_idx (columns s' ! b) = 0)"
proof -
  let ?a = "active_column_idx s"
  have ne: "columns s \<noteq> []" using b by auto
  have a: "?a < length (columns s)" using scrolling_okD(3) [OF ok ne] .
  obtain x y where xy: "grid s ! ?a = [x]" "grid s ! b = [y]"
    using one a b by (metis length_nth_grid One_nat_def length_0_conv length_Suc_conv)
  have g: "insert_at b (grid s ! ?a) (remove_at ?a (grid s)) = exchanged (grid s) ?a 0 b 0"
    using adjacent_exchange [of ?a "grid s" b] a b ab xy by (simp add: exchanged_def)
  show ?thesis
  proof (rule returns_mono [OF move_column_to_returns [OF ok ne b]])
    fix s'
    assume s': "keeps s s' \<and> columns s' = insert_at b (columns s ! ?a) (remove_at ?a (columns s)) \<and>
      active_column_idx s' = b"
    then have gs: "grid s' = exchanged (grid s) ?a 0 b 0"
      using g a by (simp add: grid_def map_insert_at map_remove_at)
    have "b < length (columns s')" using length_columns_grid [OF gs] b by (simp add: exchanged_def)
    moreover have "columns s' ! b = columns s ! ?a"
      using s' a b by (auto simp: nth_insert_at)
    moreover have "active_tile_idx (columns s ! ?a) = 0"
      using cols_ok_nth [OF scrolling_okD(1) [OF ok] a] one(1) by (simp add: col_ok_def)
    ultimately show "scrolling_ok s' \<and> grid s' = exchanged (grid s) ?a 0 b 0 \<and>
        active_column_idx s' = b \<and> active_tile_idx (columns s' ! b) = 0"
      using s' gs keeps_ok by auto
  qed
qed

section \<open>The operation\<close>

definition swap_target :: "scroll_direction \<Rightarrow> scrolling \<Rightarrow> nat option" where
  "swap_target direction s =
     (case direction of
        ScrollLeft \<Rightarrow> (if active_column_idx s = 0 then None else Some (active_column_idx s - 1))
      | ScrollRight \<Rightarrow> (if active_column_idx s + 1 < length (columns s)
                        then Some (active_column_idx s + 1) else None))"

lemma swap_window_returns:
  assumes ok: "scrolling_ok s" and b: "swap_target direction s = Some b"
  shows "returns (swap_window_in_direction opts direction s) (\<lambda>s'. scrolling_ok s' \<and>
           grid s' = exchanged (grid s) (active_column_idx s)
             (active_tile_idx (columns s ! active_column_idx s)) b (active_tile_idx (columns s ! b)) \<and>
           active_column_idx s' = b \<and>
           active_tile_idx (columns s' ! b) = active_tile_idx (columns s ! b))"
proof -
  let ?a = "active_column_idx s"
  have ne: "columns s \<noteq> []"
    using b scrolling_okD(2) [OF ok]
    by (cases direction) (auto simp: swap_target_def split: if_splits)
  have a: "?a < length (columns s)" using scrolling_okD(3) [OF ok ne] .
  have dir: "(direction = ScrollRight \<and> b = Suc ?a) \<or> (direction = ScrollLeft \<and> ?a = Suc b)"
    and bl: "b < length (columns s)"
    using b a by (cases direction; auto simp: swap_target_def split: if_splits)+
  have act: "active_tile_idx (columns s ! k) = 0"
    if "k < length (columns s)" "length (tiles (columns s ! k)) = 1" for k
    using cols_ok_nth [OF scrolling_okD(1) [OF ok] that(1)] that(2) by (simp add: col_ok_def)
  have run: "swap_window_in_direction opts direction s =
      (if length (tiles (columns s ! ?a)) = 1 \<and> length (tiles (columns s ! b)) = 1
       then move_column_to b s
       else swap_windows opts direction ?a b (columns s ! ?a) (columns s ! b) s)"
    using ne a bl dir by (auto simp: swap_window_in_direction_def Let_def)
  show ?thesis
  proof (cases "length (tiles (columns s ! ?a)) = 1 \<and> length (tiles (columns s ! b)) = 1")
    case True
    with move_column_exchanges [OF ok bl] dir act [OF a] act [OF bl] show ?thesis
      unfolding run by auto
  next
    case False
    with swap_windows_exchanges [OF ok a bl dir False refl refl, of opts] show ?thesis
      unfolding run by (simp only: if_False)
  qed
qed

lemma exchanged_mset:
  assumes "a < length g" "b < length g" "a \<noteq> b" "i < length (g ! a)" "j < length (g ! b)"
  shows "mset (concat (exchanged g a i b j)) = mset (concat g)"
proof -
  let ?g1 = "g[a := (g ! a)[i := g ! b ! j]]"
  have "mset (concat ?g1) + mset (g ! a) = mset ((g ! a)[i := g ! b ! j]) + mset (concat g)"
    using concat_update_mset [OF assms(1)] .
  moreover have "mset ((g ! a)[i := g ! b ! j]) + {#g ! a ! i#} = mset (g ! a) + {#g ! b ! j#}"
    using mset_update [OF assms(4), of "g ! b ! j"] assms(4)
    by (simp add: nth_mem)
  moreover have "mset (concat (exchanged g a i b j)) + mset (g ! b) =
      mset ((g ! b)[j := g ! a ! i]) + mset (concat ?g1)"
    using concat_update_mset [of b ?g1 "(g ! b)[j := g ! a ! i]"] assms by (simp add: exchanged_def)
  moreover have "mset ((g ! b)[j := g ! a ! i]) + {#g ! b ! j#} = mset (g ! b) + {#g ! a ! i#}"
    using mset_update [OF assms(5), of "g ! a ! i"] assms(5) by (simp add: nth_mem)
  ultimately have "mset (concat (exchanged g a i b j)) + (mset (g ! b) + mset (g ! a) + {#g ! a ! i#} + {#g ! b ! j#})
      = mset (concat g) + (mset (g ! b) + mset (g ! a) + {#g ! a ! i#} + {#g ! b ! j#})"
    by (smt (verit) add.assoc add.commute)
  then show ?thesis by (simp only: add_right_cancel)
qed

lemma swap_window_keeps:
  assumes "scrolling_ok s"
  shows "returns (swap_window_in_direction opts direction s) (keeps s)"
proof (cases "swap_target direction s")
  case None
  then have "columns s = [] \<or> direction = ScrollLeft \<and> active_column_idx s = 0 \<or>
      direction = ScrollRight \<and> active_column_idx s = length (columns s) - 1"
    using scrolling_okD(3) [OF assms]
    by (cases "columns s = []"; cases direction) (auto simp: swap_target_def split: if_splits)
  then show ?thesis using assms by (auto simp: swap_window_in_direction_def keeps_refl)
next
  case (Some b)
  have ne: "columns s \<noteq> []"
    using Some scrolling_okD(2) [OF assms] by (cases direction) (auto simp: swap_target_def split: if_splits)
  let ?a = "active_column_idx s"
  have a: "?a < length (columns s)" using scrolling_okD(3) [OF assms ne] .
  have b: "b < length (columns s)" "?a \<noteq> b"
    using Some a by (cases direction; auto simp: swap_target_def split: if_splits)+
  have "mset (concat (exchanged (grid s) ?a (active_tile_idx (columns s ! ?a)) b
      (active_tile_idx (columns s ! b)))) = mset (concat (grid s))"
    using a b cols_ok_nth [OF scrolling_okD(1) [OF assms]] col_okD(2)
    by (intro exchanged_mset) auto
  with swap_window_returns [OF assms Some, of opts] show ?thesis
    by (auto simp: keeps_def win_mset_scrolling scrolling_windows_grid elim!: returns_mono)
qed

end
