(* ===== verification/ScrollingSpec.thy ===== *)
theory ScrollingSpec
  imports ScrollingSwap
begin

text \<open>
  The scrolling space as a state machine: every operation as a step, the states a client
  can reach from the empty space, and the contract of the space: no operation panics, no
  window is lost or duplicated, and the invariant of \<open>verify_invariants\<close> holds in between.
\<close>

section \<open>Operations as data\<close>

datatype sc_op =
    OpAddTile "nat option" tile bool column_width bool
  | OpAddTileToColumn nat "nat option" tile bool
  | OpAddTileRightOf win_id tile bool column_width bool
  | OpRemoveTile win_id
  | OpRemoveActiveColumn
  | OpActivateWindow win_id
  | OpFocusLeft | OpFocusRight | OpFocusFirst | OpFocusLast | OpFocusColumn nat
  | OpFocusUp | OpFocusDown | OpFocusTop | OpFocusBottom | OpFocusWindowInColumn nat
  | OpFocusDownOrLeft | OpFocusDownOrRight | OpFocusUpOrLeft | OpFocusUpOrRight
  | OpMoveLeft | OpMoveRight | OpMoveToFirst | OpMoveToLast | OpMoveToIndex nat
  | OpMoveUp | OpMoveDown
  | OpConsumeOrExpelLeft "win_id option" | OpConsumeOrExpelRight "win_id option"
  | OpConsumeIntoColumn | OpExpelFromColumn
  | OpSwap scroll_direction
  | OpSetFullscreen win_id bool | OpSetMaximized win_id bool
  | OpSetDisplay column_display | OpToggleTabbed
  | OpResizeBegin win_id | OpResizeEnd "win_id option"

fun sc_exec :: "options \<Rightarrow> sc_op \<Rightarrow> scrolling \<Rightarrow> scrolling option" where
  "sc_exec opts (OpAddTile i t a w f) s = add_tile opts i t a w f s"
| "sc_exec opts (OpAddTileToColumn c i t a) s = add_tile_to_column c i t a s"
| "sc_exec opts (OpAddTileRightOf r t a w f) s = add_tile_right_of opts r t a w f s"
| "sc_exec opts (OpRemoveTile w) s = map_option snd (remove_tile w s)"
| "sc_exec opts OpRemoveActiveColumn s = map_option snd (remove_active_column s)"
| "sc_exec opts (OpActivateWindow w) s = map_option fst (activate_window w s)"
| "sc_exec opts OpFocusLeft s = map_option fst (focus_left s)"
| "sc_exec opts OpFocusRight s = map_option fst (focus_right s)"
| "sc_exec opts OpFocusFirst s = focus_column_first s"
| "sc_exec opts OpFocusLast s = focus_column_last s"
| "sc_exec opts (OpFocusColumn k) s = focus_column k s"
| "sc_exec opts OpFocusUp s = map_option fst (focus_up s)"
| "sc_exec opts OpFocusDown s = map_option fst (focus_down s)"
| "sc_exec opts OpFocusTop s = focus_top s"
| "sc_exec opts OpFocusBottom s = focus_bottom s"
| "sc_exec opts (OpFocusWindowInColumn k) s = focus_window_in_column k s"
| "sc_exec opts OpFocusDownOrLeft s = focus_down_or_left s"
| "sc_exec opts OpFocusDownOrRight s = focus_down_or_right s"
| "sc_exec opts OpFocusUpOrLeft s = focus_up_or_left s"
| "sc_exec opts OpFocusUpOrRight s = focus_up_or_right s"
| "sc_exec opts OpMoveLeft s = map_option fst (move_left s)"
| "sc_exec opts OpMoveRight s = map_option fst (move_right s)"
| "sc_exec opts OpMoveToFirst s = move_column_to_first s"
| "sc_exec opts OpMoveToLast s = move_column_to_last s"
| "sc_exec opts (OpMoveToIndex k) s = move_column_to_index k s"
| "sc_exec opts OpMoveUp s = map_option fst (move_up s)"
| "sc_exec opts OpMoveDown s = map_option fst (move_down s)"
| "sc_exec opts (OpConsumeOrExpelLeft w) s = consume_or_expel_window_left opts w s"
| "sc_exec opts (OpConsumeOrExpelRight w) s = consume_or_expel_window_right opts w s"
| "sc_exec opts OpConsumeIntoColumn s = consume_into_column s"
| "sc_exec opts OpExpelFromColumn s = expel_from_column opts s"
| "sc_exec opts (OpSwap d) s = swap_window_in_direction opts d s"
| "sc_exec opts (OpSetFullscreen w b) s = map_option fst (set_fullscreen opts w b s)"
| "sc_exec opts (OpSetMaximized w b) s = map_option fst (set_maximized opts w b s)"
| "sc_exec opts (OpSetDisplay d) s = set_column_display opts d s"
| "sc_exec opts OpToggleTabbed s = toggle_column_tabbed_display opts s"
| "sc_exec opts (OpResizeBegin w) s = map_option fst (sc_resize_begin w s)"
| "sc_exec opts (OpResizeEnd w) s = sc_resize_end w s"

text \<open>
  What the callers in \<open>workspace.rs\<close> guarantee: a tile that is added is new, an index is
  in range, and an operation on a window is only forwarded for a window of the space.
\<close>

fun sc_enabled :: "sc_op \<Rightarrow> scrolling \<Rightarrow> bool" where
  "sc_enabled (OpAddTile i t a w f) s =
     (win t \<notin> set (scrolling_windows s) \<and>
      (case i of Some k \<Rightarrow> k \<le> length (columns s) | None \<Rightarrow> True))"
| "sc_enabled (OpAddTileToColumn c i t a) s =
     (win t \<notin> set (scrolling_windows s) \<and> c < length (columns s) \<and>
      (case i of Some k \<Rightarrow> k \<le> length (tiles (columns s ! c)) | None \<Rightarrow> True))"
| "sc_enabled (OpAddTileRightOf r t a w f) s =
     (win t \<notin> set (scrolling_windows s) \<and> r \<in> set (scrolling_windows s))"
| "sc_enabled (OpRemoveTile w) s = (w \<in> set (scrolling_windows s))"
| "sc_enabled (OpConsumeOrExpelLeft w) s =
     (case w of Some w \<Rightarrow> w \<in> set (scrolling_windows s) | None \<Rightarrow> True)"
| "sc_enabled (OpConsumeOrExpelRight w) s =
     (case w of Some w \<Rightarrow> w \<in> set (scrolling_windows s) | None \<Rightarrow> True)"
| "sc_enabled (OpSetFullscreen w b) s = (w \<in> set (scrolling_windows s))"
| "sc_enabled (OpSetMaximized w b) s = (w \<in> set (scrolling_windows s))"
| "sc_enabled (OpResizeBegin w) s = (w \<in> set (scrolling_windows s))"
| "sc_enabled _ s = True"

text \<open>The windows after an operation, as a set: what it adds and what it takes away\<close>

fun sc_windows_after :: "sc_op \<Rightarrow> scrolling \<Rightarrow> win_id multiset" where
  "sc_windows_after (OpAddTile i t a w f) s = add_mset (win t) (win_mset (columns s))"
| "sc_windows_after (OpAddTileToColumn c i t a) s = add_mset (win t) (win_mset (columns s))"
| "sc_windows_after (OpAddTileRightOf r t a w f) s = add_mset (win t) (win_mset (columns s))"
| "sc_windows_after (OpRemoveTile w) s = win_mset (columns s) - {#w#}"
| "sc_windows_after OpRemoveActiveColumn s =
     (if columns s = [] then {#}
      else win_mset (columns s) - mset (wins (columns s ! active_column_idx s)))"
| "sc_windows_after _ s = win_mset (columns s)"

section \<open>Every step is total and keeps the contract\<close>

definition sc_good :: "scrolling \<Rightarrow> bool" where
  "sc_good s \<longleftrightarrow> scrolling_ok s \<and> distinct (scrolling_windows s)"

lemma keeps_step: "returns m (keeps s) \<Longrightarrow>
   returns m (\<lambda>s'. scrolling_ok s' \<and> win_mset (columns s') = win_mset (columns s))"
  by (erule returns_mono) (simp add: keeps_def)

lemma keeps_step_fst: "returns m (\<lambda>(s', b). keeps s s') \<Longrightarrow>
   returns m (\<lambda>x. scrolling_ok (fst x) \<and> win_mset (columns (fst x)) = win_mset (columns s))"
  by (auto simp: keeps_def elim!: returns_mono)

lemma add_tile_right_of_win_mset:
  assumes "scrolling_ok s" "right_of \<in> set (scrolling_windows s)"
  shows "returns (add_tile_right_of opts right_of t activate width full s) (\<lambda>s'. scrolling_ok s' \<and>
           win_mset (columns s') = add_mset (win t) (win_mset (columns s)))"
  by (rule returns_mono [OF add_tile_right_of_returns [OF assms]]) (auto simp: win_mset_insert)

lemma activate_window_keeps_fst:
  "scrolling_ok s \<Longrightarrow> returns (activate_window w s) (\<lambda>(s', b). keeps s s')"
  by (rule returns_mono [OF activate_window_keeps]) auto

lemmas sc_flag_steps = focus_column_step_keeps(1,2,6,7) focus_horizontal_keeps(1,2)
  move_column_keeps(1,2) activate_window_keeps_fst

lemmas sc_plain_steps = focus_column_step_keeps(3,4,5) focus_horizontal_keeps(3,4,5)
  move_column_keeps(3,4,5) focus_vertical_or_keeps consume_into_column_keeps
  expel_from_column_keeps swap_window_keeps

lemma sc_exec_returns:
  assumes "sc_good s" "sc_enabled op s"
  shows "returns (sc_exec opts op s)
           (\<lambda>s'. scrolling_ok s' \<and> win_mset (columns s') = sc_windows_after op s)"
proof -
  have ok: "scrolling_ok s" and d: "distinct (scrolling_windows s)"
    using assms(1) by (simp_all add: sc_good_def)
  have ne: "columns s \<noteq> [] \<Longrightarrow> active_column_idx s < length (columns s)"
    using scrolling_okD(3) [OF ok] .
  note steps = sc_flag_steps [OF ok, THEN keeps_step_fst] sc_plain_steps [OF ok, THEN keeps_step]
    set_column_display_keeps [OF ok d, THEN keeps_step]
    toggle_column_tabbed_display_keeps [OF ok d, THEN keeps_step]
    sc_resize_end_keeps [OF ok, THEN keeps_step]
  show ?thesis
  proof (cases op)
    case (OpAddTile i t a w f)
    with assms(2) add_column_index_None [OF ok] show ?thesis
      by (cases i) (auto intro!: add_tile_win_mset [OF ok] simp: add_column_index_def)
  next
    case (OpAddTileToColumn c i t a)
    with assms(2) add_tile_to_column_win_mset [OF ok] show ?thesis by simp
  next
    case (OpAddTileRightOf r t a w f)
    with assms(2) add_tile_right_of_win_mset [OF ok] show ?thesis by simp
  next
    case (OpRemoveTile w)
    with assms(2) remove_tile_win_mset [OF ok, of w] show ?thesis
      by (auto elim!: returns_mono)
  next
    case OpRemoveActiveColumn
    show ?thesis
    proof (cases "columns s = []")
      case True
      with OpRemoveActiveColumn ok show ?thesis by (simp add: remove_active_column_def win_mset_def)
    next
      case False
      from remove_column_win_mset [OF ok ne [OF False]] False OpRemoveActiveColumn show ?thesis
        by (auto simp: remove_active_column_def elim!: returns_mono)
    qed
  next
    case (OpConsumeOrExpelLeft w)
    with assms(2) have "\<And>x. w = Some x \<Longrightarrow> x \<in> set (scrolling_windows s)" by simp
    from keeps_step [OF consume_or_expel_window_left_keeps [OF ok this]] OpConsumeOrExpelLeft
    show ?thesis by simp
  next
    case (OpConsumeOrExpelRight w)
    with assms(2) have "\<And>x. w = Some x \<Longrightarrow> x \<in> set (scrolling_windows s)" by simp
    from keeps_step [OF consume_or_expel_window_right_keeps [OF ok this]] OpConsumeOrExpelRight
    show ?thesis by simp
  next
    case (OpSetFullscreen w b)
    with assms(2) keeps_step_fst [OF set_fullscreen_keeps [OF ok]] show ?thesis by simp
  next
    case (OpSetMaximized w b)
    with assms(2) keeps_step_fst [OF set_maximized_keeps [OF ok]] show ?thesis by simp
  next
    case (OpResizeBegin w)
    with assms(2) keeps_step_fst [OF sc_resize_begin_keeps [OF ok]] show ?thesis by simp
  qed (simp_all add: steps)
qed

lemma sc_windows_after_distinct:
  assumes "sc_good s" "sc_enabled op s" "mset ws = sc_windows_after op s"
  shows "distinct ws"
proof -
  have d: "distinct (scrolling_windows s)" and m: "win_mset (columns s) = mset (scrolling_windows s)"
    using assms(1) by (simp_all add: sc_good_def win_mset_scrolling)
  have sub: "distinct ws" if "mset ws \<subseteq># mset (scrolling_windows s)"
    using that d by (metis distinct_count_atmost_1 mset_subset_eq_count le_antisym linorder_not_le
        not_less_eq_eq less_one le_0_eq le_eq_less_or_eq count_mset_0_iff)
  have add: "distinct ws" if "mset ws = add_mset w (mset (scrolling_windows s))"
      "w \<notin> set (scrolling_windows s)" for w
    using that d by (metis distinct.simps(2) mset.simps(2) mset_eq_imp_distinct_iff)
  have same: "distinct ws" if "mset ws = mset (scrolling_windows s)"
    using that d by (metis mset_eq_imp_distinct_iff)
  show ?thesis
    using assms(2,3) add sub same m by (cases op) (auto split: if_splits)
qed

lemma sc_step_good:
  assumes "sc_good s" "sc_enabled op s"
  shows "returns (sc_exec opts op s) sc_good"
  by (rule returns_mono [OF sc_exec_returns [OF assms]])
    (use sc_windows_after_distinct [OF assms] in \<open>auto simp: sc_good_def win_mset_scrolling\<close>)

interpretation sc: component sc_good sc_enabled "sc_exec opts" for opts
  by unfold_locales (rule sc_step_good)

lemma sc_good_empty: "sc_good empty_scrolling"
  using scrolling_ok_empty
  by (simp add: sc_good_def) (simp add: scrolling_windows_def empty_scrolling_def)

section \<open>Properties\<close>

text \<open>
  C5. No sequence of operations on a scrolling space, starting from the empty one, panics:
  every index, \<open>unwrap\<close> and assertion on the way is safe, and afterwards
  \<open>verify_invariants\<close> holds and no window is in the space twice.
\<close>

theorem scrolling_runs_never_panic:
  "\<exists>s. run_ops sc_enabled (sc_exec opts) ops empty_scrolling = Some s \<and>
       scrolling_ok s \<and> distinct (scrolling_windows s)"
  using sc.run_good [OF sc_good_empty, of opts ops] by (auto simp: sc_good_def elim!: returnsE)

text \<open>
  C6. An operation on the scrolling space changes the windows exactly as it announces: adding
  a tile adds its window, removing one removes it, and every other operation (focusing,
  moving, consuming, expelling, swapping, fullscreen, tabs) loses and duplicates nothing.
\<close>

theorem scrolling_ops_account_for_windows:
  assumes "scrolling_ok s" "distinct (scrolling_windows s)" "sc_enabled op s"
  shows "\<exists>s'. sc_exec opts op s = Some s' \<and> mset (scrolling_windows s') = sc_windows_after op s"
  using sc_exec_returns [of s op opts] assms
  by (auto simp: sc_good_def win_mset_scrolling elim!: returnsE)

definition demo_tile :: "win_id \<Rightarrow> tile" where
  "demo_tile w = \<lparr>win = w, pending_mode = ModeNormal, rule_display = None, restore_to_floating = False\<rparr>"

definition demo_column :: "win_id list \<Rightarrow> nat \<Rightarrow> column" where
  "demo_column ws i =
     \<lparr>tiles = map demo_tile ws, active_tile_idx = i, col_width = Proportion 1, is_full_width = False,
      is_pending_fullscreen = False, is_pending_maximized = False, display_mode = DisplayNormal\<rparr>"

definition demo_space :: scrolling where
  "demo_space =
     \<lparr>columns = [demo_column [1, 2] 1, demo_column [3] 0, demo_column [4, 5, 6] 2],
      active_column_idx = 0, activate_prev_column_on_removal = False, interactive_resize = None\<rparr>"

lemmas demo_defs = demo_space_def demo_column_def demo_tile_def

lemma demo_space_ok: "scrolling_ok demo_space"
  by (simp add: demo_defs scrolling_ok_def col_ok_def pending_sizing_mode_def)

lemma demo_space_grid: "grid (demo_space\<lparr>active_column_idx := i\<rparr>) = [[1, 2], [3], [4, 5, 6]]"
  by (simp add: demo_defs grid_def wins_def)

lemma demo_space_more: "length (columns demo_space) = 3"
  by (simp add: demo_defs)

lemma demo_space_windows: "scrolling_windows demo_space = [1, 2, 3, 4, 5, 6]"
  by (simp add: demo_defs scrolling_windows_def)

lemma scrolling_ops_account_for_windows_witness:
  "\<exists>s'. sc_exec \<lparr>default_column_display = DisplayNormal, empty_workspace_above_first = False,
        main_axis_vertical = False\<rparr>
        (OpRemoveTile 5) demo_space = Some s' \<and>
      mset (scrolling_windows s') = sc_windows_after (OpRemoveTile 5) demo_space"
  by (rule scrolling_ops_account_for_windows)
    (use demo_space_ok in \<open>simp_all add: demo_space_windows\<close>)

text \<open>
  C7. Swapping the active window with its neighbour column's active window exchanges exactly
  those two windows: every other window keeps its column and row, the focus stays on the
  window that moved, also when a column is emptied on the way and has to be created again.
\<close>

theorem swap_window_exchanges_two_windows:
  assumes "scrolling_ok s" "swap_target direction s = Some b"
    and "a = active_column_idx s" "i = active_tile_idx (columns s ! a)" "j = active_tile_idx (columns s ! b)"
  shows "\<exists>s'. swap_window_in_direction opts direction s = Some s' \<and>
           grid s' = (grid s)[a := (grid s ! a)[i := grid s ! b ! j], b := (grid s ! b)[j := grid s ! a ! i]] \<and>
           scrolling_ok s' \<and> scrolling_active_window s' = scrolling_active_window s"
proof -
  from swap_window_returns [OF assms(1,2), of opts] obtain s' where
    s': "swap_window_in_direction opts direction s = Some s'" "scrolling_ok s'"
      "grid s' = exchanged (grid s) a i b j" "active_column_idx s' = b"
      "active_tile_idx (columns s' ! b) = j"
    unfolding assms(3-5) by (auto elim!: returnsE)
  have ne: "columns s \<noteq> []"
    using assms(2) scrolling_okD(2) [OF assms(1)]
    by (cases direction) (auto simp: swap_target_def split: if_splits)
  have a: "a < length (columns s)" using scrolling_okD(3) [OF assms(1) ne] assms(3) by simp
  have b: "b < length (columns s)" "a \<noteq> b"
    using assms(2,3) a by (cases direction; auto simp: swap_target_def split: if_splits)+
  have il: "i < length (grid s ! a)" and jl: "j < length (grid s ! b)"
    using cols_ok_nth [OF scrolling_okD(1) [OF assms(1)]] a b assms(4,5) col_okD(2) by auto
  have b': "b < length (columns s')" using length_columns_grid [OF s'(3)] b by (simp add: exchanged_def)
  have "scrolling_active_window s' = Some (Some (grid s' ! b ! j))"
    using s'(4,5) b' cols_ok_nth [OF scrolling_okD(1) [OF s'(2)] b'] col_okD(2)
    by (auto simp: scrolling_active_window_def nth_grid wins_def)
  also have "grid s' ! b ! j = grid s ! a ! i"
    using s'(3) exchanged_lengths(4) [of a "grid s" b j i] a b jl by simp
  also have "Some (Some (grid s ! a ! i)) = scrolling_active_window s"
    using ne a il assms(3,4) by (auto simp: scrolling_active_window_def nth_grid wins_def)
  finally show ?thesis using s' by (simp add: exchanged_def)
qed

lemma swap_window_exchanges_two_windows_witness:
  "\<exists>s'. swap_window_in_direction \<lparr>default_column_display = Tabbed, empty_workspace_above_first = False,
        main_axis_vertical = False\<rparr>
        ScrollRight demo_space = Some s' \<and>
      grid s' = [[1, 3], [2], [4, 5, 6]] \<and> scrolling_ok s' \<and>
      scrolling_active_window s' = scrolling_active_window demo_space"
  using swap_window_exchanges_two_windows
    [OF demo_space_ok, of ScrollRight 1 0 1 0
      "\<lparr>default_column_display = Tabbed, empty_workspace_above_first = False,
        main_axis_vertical = False\<rparr>"]
  by (simp add: demo_defs swap_target_def grid_def wins_def)

lemma active_windowI:
  assumes "scrolling_ok s" "active_column_idx s < length (columns s)"
  shows "scrolling_active_window s =
           Some (Some (wins (columns s ! active_column_idx s) ! active_tile_idx (columns s ! active_column_idx s)))"
  using assms(2) cols_ok_nth [OF scrolling_okD(1) [OF assms(1)] assms(2)] col_okD(2)
  by (auto simp: scrolling_active_window_def wins_def)

lemma position_insert_fresh:
  assumes "i \<le> length cols" "w \<notin> set (concat (map wins cols))" "w \<in> set (wins c)"
  shows "position (column_contains w) (insert_at i c cols) = Some i"
proof (rule position_SomeI)
  fix j assume "j < i"
  then have "insert_at i c cols ! j \<in> set cols" using assms(1) by (simp add: nth_insert_at)
  then show "\<not> column_contains w (insert_at i c cols ! j)" using assms(2) by auto
qed (use assms in \<open>auto simp: nth_insert_at\<close>)

text \<open>
  C8. Opening a window focuses it in a new column right of the active one; closing it again
  removes that column and gives the focus back to the column that had it before, wherever
  in the space that was.
\<close>

theorem closing_new_window_restores_focus:
  assumes "scrolling_ok s" "win t \<notin> set (scrolling_windows s)"
  shows "\<exists>s1 r s2. add_tile opts None t True width full s = Some s1 \<and>
           scrolling_active_window s1 = Some (Some (win t)) \<and>
           remove_tile (win t) s1 = Some (r, s2) \<and>
           rt_width r = width \<and> rt_is_full_width r = full \<and>
           columns s2 = columns s \<and> active_column_idx s2 = active_column_idx s"
proof -
  let ?i = "add_column_index None s"
  note i = add_column_index_None [OF assms(1)]
  from add_tile_returns [OF assms(1) i, of opts t True width full] obtain s1 c where
    s1: "add_tile opts None t True width full s = Some s1" "scrolling_ok s1" "wins c = [win t]"
      "active_tile_idx c = 0" "col_width c = width" "is_full_width c = full"
      "columns s1 = insert_at ?i c (columns s)" "active_column_idx s1 = ?i"
      "activate_prev_column_on_removal s1 = (columns s \<noteq> [] \<and> ?i = active_column_idx s + 1)"
    by (auto elim!: returnsE)
  have ci: "?i < length (columns s1)" "columns s1 ! ?i = c"
    using s1(7) i by (simp_all add: nth_insert_at)
  have len: "length (tiles c) = 1" using s1(3) length_wins [of c] by simp
  have tw: "win (tiles c ! 0) = win t" using s1(3) len by (auto simp: wins_def)
  have pos: "position (column_contains (win t)) (columns s1) = Some ?i"
    using position_insert_fresh [OF i, of "win t" c] assms(2) s1(3,7)
    by (simp add: scrolling_windows_wins)
  have tpos: "column_position (win t) c = Some 0"
    unfolding column_position_def using len tw by (intro position_SomeI) auto
  have t0: "0 < length (tiles (columns s1 ! ?i))" using ci len by simp
  from remove_tile_by_idx_returns [OF s1(2) ci(1) t0] obtain r s2 where
    s2: "remove_tile_by_idx ?i 0 s1 = Some (r, s2)" "rt_width r = width" "rt_is_full_width r = full"
      "columns s2 = remove_at ?i (columns s1)" "active_column_idx s2 = active_after_remove ?i s1"
    using ci len s1(5,6) by (auto elim!: returnsE)
  have "columns s2 = columns s" using s2(4) s1(7) i by simp
  moreover have "active_column_idx s2 = active_column_idx s"
    using s2(5) s1 scrolling_okD(2) [OF assms(1)]
    by (auto simp: active_after_remove_def add_column_index_def)
  moreover have "scrolling_active_window s1 = Some (Some (win t))"
    using active_windowI [OF s1(2)] s1(3,4,8) ci by simp
  moreover have "remove_tile (win t) s1 = Some (r, s2)"
    using pos tpos ci s2(1) by (simp add: remove_tile_def)
  ultimately show ?thesis using s1(1) s2(2,3) by blast
qed

lemma closing_new_window_restores_focus_witness:
  "\<exists>s1 r s2. add_tile \<lparr>default_column_display = DisplayNormal, empty_workspace_above_first = False,
        main_axis_vertical = False\<rparr>
        None (demo_tile 9) True (Proportion 1) False demo_space = Some s1 \<and>
      scrolling_active_window s1 = Some (Some 9) \<and> remove_tile 9 s1 = Some (r, s2) \<and>
      columns s2 = columns demo_space \<and> active_column_idx s2 = active_column_idx demo_space"
  using closing_new_window_restores_focus [OF demo_space_ok, of "demo_tile 9"
      "\<lparr>default_column_display = DisplayNormal, empty_workspace_above_first = False,
        main_axis_vertical = False\<rparr>" "Proportion 1" False]
  by (auto simp: demo_space_windows) (auto simp: demo_tile_def)

text \<open>
  C9. Closing a window that does not have the focus never moves the focus: the same window is
  active before and after, although columns and rows shift under it.
\<close>

theorem remove_tile_keeps_focus:
  assumes "scrolling_ok s" "w \<in> set (scrolling_windows s)"
    and "scrolling_active_window s \<noteq> Some (Some w)"
  shows "\<exists>r s'. remove_tile w s = Some (r, s') \<and> win (rt_tile r) = w \<and>
           scrolling_active_window s' = scrolling_active_window s"
proof -
  let ?a = "active_column_idx s"
  from position_contains [OF assms(2)] obtain ci ti where
    p: "position (column_contains w) (columns s) = Some ci" "ci < length (columns s)"
      "column_position w (columns s ! ci) = Some ti" "ti < length (tiles (columns s ! ci))"
      "win (tiles (columns s ! ci) ! ti) = w" .
  have ne: "columns s \<noteq> []" using p(2) by auto
  have a: "?a < length (columns s)" using scrolling_okD(3) [OF assms(1) ne] .
  have ca: "col_ok (columns s ! ?a)" using cols_ok_nth scrolling_okD(1) [OF assms(1)] a by blast
  note act = active_windowI [OF assms(1) a]
  have other: "ci \<noteq> ?a \<or> ti \<noteq> active_tile_idx (columns s ! ?a)"
    using act assms(3) p by (auto simp: wins_def)
  from remove_tile_by_idx_returns [OF assms(1) p(2,4)] obtain r s' where
    r: "remove_tile_by_idx ci ti s = Some (r, s')" "scrolling_ok s'" "rt_tile r = tiles (columns s ! ci) ! ti"
    and one: "length (tiles (columns s ! ci)) = 1 \<Longrightarrow>
      columns s' = remove_at ci (columns s) \<and> active_column_idx s' = active_after_remove ci s"
    and more: "length (tiles (columns s ! ci)) \<noteq> 1 \<Longrightarrow> \<exists>c. columns s' = (columns s)[ci := c] \<and>
      wins c = remove_at ti (wins (columns s ! ci)) \<and>
      active_tile_idx c = active_tile_after_remove ti (columns s ! ci) \<and> active_column_idx s' = ?a"
    by (auto elim!: returnsE split: if_splits)
  have run: "remove_tile w s = Some (r, s')" using p r(1) by (simp add: remove_tile_def)
  have "scrolling_active_window s' = scrolling_active_window s"
  proof (cases "length (tiles (columns s ! ci)) = 1")
    case True
    have "ci \<noteq> ?a" using other True p(4) col_okD(2) [OF ca] by auto
    then have "active_column_idx s' < length (columns s')" "columns s' ! active_column_idx s' = columns s ! ?a"
      using one [OF True] a p(2) by (auto simp: active_after_remove_def nth_remove_at)
    with active_windowI [OF r(2)] act show ?thesis by simp
  next
    case False
    from more [OF False] obtain c where c: "columns s' = (columns s)[ci := c]"
      "wins c = remove_at ti (wins (columns s ! ci))"
      "active_tile_idx c = active_tile_after_remove ti (columns s ! ci)" "active_column_idx s' = ?a"
      by blast
    have lt: "active_column_idx s' < length (columns s')" using c a by simp
    show ?thesis
    proof (cases "ci = ?a")
      case True
      then have "wins c ! active_tile_idx c = wins (columns s ! ?a) ! active_tile_idx (columns s ! ?a)"
        using c other p(4) False col_okD(2) [OF ca]
        by (auto simp: active_tile_after_remove_def nth_remove_at)
      with active_windowI [OF r(2) lt] act c True a show ?thesis by simp
    next
      case ci: False
      with active_windowI [OF r(2) lt] act c a show ?thesis by simp
    qed
  qed
  with run r(3) p(5) show ?thesis by simp
qed

lemma remove_tile_keeps_focus_witness:
  "\<exists>r s'. remove_tile 1 demo_space = Some (r, s') \<and> win (rt_tile r) = 1 \<and>
     scrolling_active_window s' = scrolling_active_window demo_space"
  by (rule remove_tile_keeps_focus [OF demo_space_ok])
    (simp_all add: demo_space_windows, simp add: demo_defs scrolling_active_window_def)

lemma consume_left_active:
  assumes "scrolling_ok s" "0 < active_column_idx s"
    and "grid s ! active_column_idx s = [w]"
  shows "returns (consume_or_expel_window_left opts None s) (\<lambda>s'. scrolling_ok s' \<and>
           active_column_idx s' = active_column_idx s - 1 \<and>
           grid s' = (remove_at (active_column_idx s) (grid s))
                       [active_column_idx s - 1 := grid s ! (active_column_idx s - 1) @ [w]] \<and>
           active_tile_idx (columns s' ! (active_column_idx s - 1)) =
             length (grid s ! (active_column_idx s - 1)))"
proof -
  let ?a = "active_column_idx s"
  let ?s = "s\<lparr>activate_prev_column_on_removal := True\<rparr>"
  have ne: "columns s \<noteq> []" using assms(2) scrolling_okD(2) [OF assms(1)] by auto
  have a: "?a < length (columns s)" using scrolling_okD(3) [OF assms(1) ne] .
  have one: "length (tiles (columns s ! ?a)) = 1" using assms(3) a by (metis One_nat_def length_nth_grid length_Cons list.size(3))
  have t0: "active_tile_idx (columns s ! ?a) = 0"
    using cols_ok_nth [OF scrolling_okD(1) [OF assms(1)] a] one by (simp add: col_ok_def)
  have ok: "scrolling_ok ?s" "?a < length (columns ?s)" "0 < length (tiles (columns ?s ! ?a))"
    using assms(1) a one by simp_all
  from remove_tile_by_idx_returns [OF ok] obtain r s1 where
    s1: "remove_tile_by_idx ?a 0 ?s = Some (r, s1)" "scrolling_ok s1"
      "rt_tile r = tiles (columns s ! ?a) ! 0" "columns s1 = remove_at ?a (columns s)"
      "active_column_idx s1 = active_after_remove ?a ?s"
    using one by (auto elim!: returnsE)
  have "win (rt_tile r) = grid s ! ?a ! 0" using s1(3) a one by (simp add: nth_grid wins_def)
  then have w: "win (rt_tile r) = w" using assms(3) by simp
  have l1: "?a - 1 < length (columns s1)" and p1: "columns s1 ! (?a - 1) = columns s ! (?a - 1)"
    and g1: "grid s1 = remove_at ?a (grid s)"
    using s1(4) assms(2) a by (simp_all add: nth_remove_at grid_def map_remove_at)
  have ti: "length (tiles (columns s1 ! (?a - 1))) =
      (case None of Some i \<Rightarrow> i | None \<Rightarrow> length (tiles (columns s1 ! (?a - 1))))" by simp
  from add_tile_to_column_returns [OF s1(2) l1 ti le_refl, of "rt_tile r" True] obtain s2 c where
    s2: "add_tile_to_column (?a - 1) None (rt_tile r) True s1 = Some s2" "scrolling_ok s2"
      "wins c = insert_at (length (tiles (columns s1 ! (?a - 1)))) (win (rt_tile r)) (wins (columns s1 ! (?a - 1)))"
      "active_tile_idx c = active_after_add True (length (tiles (columns s1 ! (?a - 1))))
         (active_tile_idx (columns s1 ! (?a - 1)))"
      "columns s2 = (columns s1)[?a - 1 := c]" "active_column_idx s2 = ?a - 1"
    by (auto elim!: returnsE)
  have wc: "wins c = grid s ! (?a - 1) @ [w]"
    using s2(3) w p1 a by (simp add: nth_grid insert_at_def)
  have g2: "grid s2 = (remove_at ?a (grid s))[?a - 1 := grid s ! (?a - 1) @ [w]]"
    using s2(5) wc g1 by (simp add: grid_def map_update)
  have "active_tile_idx (columns s2 ! (?a - 1)) = length (grid s ! (?a - 1))"
    using s2(4,5) l1 p1 a by (simp add: active_after_add_def)
  with s2 g2 show ?thesis
    using ne a one t0 s1(1) assms(2) by (simp add: consume_or_expel_window_left_def locate_or_active_def Let_def)
qed

lemma expel_right_active:
  assumes "scrolling_ok s" "columns s \<noteq> []" "a = active_column_idx s"
    and "grid s ! a = ws @ [w]" "ws \<noteq> []" "active_tile_idx (columns s ! a) = length ws"
  shows "returns (consume_or_expel_window_right opts None s) (\<lambda>s'. scrolling_ok s' \<and>
           active_column_idx s' = a + 1 \<and> grid s' = insert_at (a + 1) [w] ((grid s)[a := ws]))"
proof -
  have a: "a < length (columns s)" using scrolling_okD(3) [OF assms(1,2)] assms(3) by simp
  have len: "length (tiles (columns s ! a)) = Suc (length ws)"
    using length_nth_grid [OF a] assms(4) by simp
  have many: "length (grid s ! a) \<noteq> 1" "length ws < length (grid s ! a)"
    using assms(4,5) by simp_all
  have ti: "length ws < length (tiles (columns s ! a))" using len by simp
  from remove_tile_grid [OF assms(1) a many(2)] obtain r s1 where
    s1: "remove_tile_by_idx a (length ws) s = Some (r, s1)" "scrolling_ok s1" "win (rt_tile r) = w"
      "grid s1 = (grid s)[a := ws]"
    using many(1) assms(4) by (auto elim!: returnsE simp: nth_append remove_at_def)
  have l1: "a + 1 \<le> length (columns s1)" using length_columns_grid [OF s1(4)] a by simp
  then have l1': "add_column_index (Some (a + 1)) s1 \<le> length (columns s1)" by (simp add: add_column_index_def)
  from add_tile_returns [OF s1(2) l1', of opts "rt_tile r" True "rt_width r" "rt_is_full_width r"]
  obtain s2 c where
    s2: "add_tile opts (Some (a + 1)) (rt_tile r) True (rt_width r) (rt_is_full_width r) s1 = Some s2"
      "scrolling_ok s2" "wins c = [w]" "columns s2 = insert_at (a + 1) c (columns s1)" "active_column_idx s2 = a + 1"
    using s1(3) by (auto elim!: returnsE simp: add_column_index_def)
  have "grid s2 = insert_at (a + 1) [w] ((grid s)[a := ws])"
    using s2(3,4) s1(4) by (simp add: grid_def map_insert_at)
  with s2 show ?thesis
    using assms(2,3,5,6) a len s1(1)
    by (simp add: consume_or_expel_window_right_def locate_or_active_def Let_def)
qed

text \<open>
  C10. Consuming a lone active window into the column on its left and expelling it to the right
  again puts every window back where it was, the focus included.
\<close>

theorem consume_then_expel_is_identity_on_windows:
  assumes "scrolling_ok s" "0 < active_column_idx s" "grid s ! active_column_idx s = [w]"
  shows "\<exists>s1 s2. consume_or_expel_window_left opts None s = Some s1 \<and>
           consume_or_expel_window_right opts None s1 = Some s2 \<and>
           length (columns s1) = length (columns s) - 1 \<and>
           grid s2 = grid s \<and> active_column_idx s2 = active_column_idx s"
proof -
  let ?a = "active_column_idx s" let ?ws = "grid s ! (?a - 1)"
  have ne: "columns s \<noteq> []" using assms(2) scrolling_okD(2) [OF assms(1)] by auto
  have a: "?a < length (columns s)" using scrolling_okD(3) [OF assms(1) ne] .
  from consume_left_active [OF assms, of opts] obtain s1 where
    s1: "consume_or_expel_window_left opts None s = Some s1" "scrolling_ok s1"
      "active_column_idx s1 = ?a - 1" "grid s1 = (remove_at ?a (grid s))[?a - 1 := ?ws @ [w]]"
      "active_tile_idx (columns s1 ! (?a - 1)) = length ?ws"
    by (auto elim!: returnsE)
  have l1: "length (columns s1) = length (columns s) - 1" using length_columns_grid [OF s1(4)] a by simp
  then have ne1: "columns s1 \<noteq> []" using assms(2) a by auto
  have g1: "grid s1 ! (?a - 1) = ?ws @ [w]" using s1(4) assms(2) a by simp
  have ws: "?ws \<noteq> []"
    using cols_ok_nth [OF scrolling_okD(1) [OF assms(1)], of "?a - 1"] a
    by (auto simp: col_ok_def nth_grid wins_def)
  from expel_right_active [OF s1(2) ne1 s1(3) [symmetric] g1 ws s1(5), of opts] obtain s2 where
    s2: "consume_or_expel_window_right opts None s1 = Some s2" "active_column_idx s2 = ?a"
      "grid s2 = insert_at ?a [w] ((grid s1)[?a - 1 := ?ws])"
    using assms(2) by (auto elim!: returnsE)
  have "(grid s1)[?a - 1 := ?ws] = (remove_at ?a (grid s))[?a - 1 := remove_at ?a (grid s) ! (?a - 1)]"
    using s1(4) assms(2) a by (simp add: nth_remove_at)
  then have "(grid s1)[?a - 1 := ?ws] = remove_at ?a (grid s)" by simp
  then have "grid s2 = grid s"
    using s2(3) a insert_remove_same [of ?a "grid s"] assms(3) by simp
  with s1(1) s2(1,2) l1 show ?thesis by blast
qed

lemma consume_then_expel_is_identity_on_windows_witness:
  "\<exists>s1 s2. consume_or_expel_window_left \<lparr>default_column_display = Tabbed, empty_workspace_above_first = False,
        main_axis_vertical = False\<rparr>
        None (demo_space\<lparr>active_column_idx := 1\<rparr>) = Some s1 \<and>
      consume_or_expel_window_right \<lparr>default_column_display = Tabbed, empty_workspace_above_first = False,
        main_axis_vertical = False\<rparr>
        None s1 = Some s2 \<and> length (columns s1) = 2 \<and> grid s2 = [[1, 2], [3], [4, 5, 6]] \<and>
      active_column_idx s2 = 1"
proof -
  let ?s = "demo_space\<lparr>active_column_idx := 1\<rparr>"
  have "scrolling_ok ?s"
    by (simp add: demo_defs scrolling_ok_def col_ok_def pending_sizing_mode_def)
  from consume_then_expel_is_identity_on_windows [OF this, of 3
      "\<lparr>default_column_display = Tabbed, empty_workspace_above_first = False,
        main_axis_vertical = False\<rparr>"]
  show ?thesis by (simp add: demo_space_grid demo_space_more)
qed

text \<open>
  Moving the active column one place to the left and then to the right (and the other way
  round) leaves the columns and the focus as they were.
\<close>

theorem move_left_right_inverse:
  assumes "scrolling_ok s" "0 < active_column_idx s"
  shows "\<exists>s1 s2. move_left s = Some (s1, True) \<and> active_column_idx s1 = active_column_idx s - 1 \<and>
           move_right s1 = Some (s2, True) \<and> columns s2 = columns s \<and>
           active_column_idx s2 = active_column_idx s"
proof -
  let ?a = "active_column_idx s" let ?c = "columns s ! ?a"
  have ne: "columns s \<noteq> []" using assms(2) scrolling_okD(2) [OF assms(1)] by auto
  have a: "?a < length (columns s)" using scrolling_okD(3) [OF assms(1) ne] .
  have a1: "?a - 1 < length (columns s)" using a by simp
  from move_column_to_returns [OF assms(1) ne a1] obtain s1 where
    s1: "move_column_to (?a - 1) s = Some s1" "scrolling_ok s1"
      "columns s1 = insert_at (?a - 1) ?c (remove_at ?a (columns s))" "active_column_idx s1 = ?a - 1"
    by (auto elim!: returnsE dest: keeps_ok)
  have l1: "length (columns s1) = length (columns s)" using s1(3) a by simp
  then have ne1: "columns s1 \<noteq> []" using ne by (metis length_0_conv)
  have bk: "remove_at (?a - 1) (columns s1) = remove_at ?a (columns s)" "columns s1 ! (?a - 1) = ?c"
    using s1(3) a by (simp_all add: nth_insert_at)
  have a2: "?a < length (columns s1)" using a l1 by simp
  from move_column_to_returns [OF s1(2) ne1 a2] bk s1(4) obtain s2 where
    s2: "move_column_to ?a s1 = Some s2" "columns s2 = insert_at ?a ?c (remove_at ?a (columns s))"
      "active_column_idx s2 = ?a"
    by (auto elim!: returnsE)
  have "columns s2 = columns s" using s2(2) insert_remove_same [OF a] by simp
  then show ?thesis
    using s1 s2 assms(2) a l1 by (auto simp: move_left_def move_right_def Let_def)
qed

lemma move_left_right_inverse_witness:
  "\<exists>s1 s2. move_left (demo_space\<lparr>active_column_idx := 2\<rparr>) = Some (s1, True) \<and>
      active_column_idx s1 = 1 \<and> move_right s1 = Some (s2, True) \<and>
      columns s2 = columns demo_space \<and> active_column_idx s2 = 2"
proof -
  let ?s = "demo_space\<lparr>active_column_idx := 2\<rparr>"
  have "scrolling_ok ?s"
    by (simp add: demo_defs scrolling_ok_def col_ok_def pending_sizing_mode_def)
  from move_left_right_inverse [OF this] show ?thesis by simp
qed

end
