(* ===== verification/Floating.thy ===== *)
theory Floating
  imports Tiles
begin

text \<open>
  \<open>src/layout/floating.rs\<close>: the floating layer of a workspace, its tiles in
  top-to-bottom stacking order, the active window and the running interactive resize.

  What the layer reads of its windows and of the geometry is collected in the record
  \<open>client_view\<close>, an argument of the operations that use it: the parent relation of the
  toplevels (\<open>is_child_of\<close>, kept by the Wayland library), and the position, centre and
  width of each tile. The stored sizes and positions themselves are not modelled.
\<close>

record client_view =
  child_of :: "win_id \<Rightarrow> win_id \<Rightarrow> bool"
  tile_pos :: "win_id \<Rightarrow> real \<times> real"
  tile_center :: "win_id \<Rightarrow> real \<times> real"
  tile_width :: "win_id \<Rightarrow> real"

record floating =
  fl_tiles :: "tile list"
  fl_active :: "win_id option"
  fl_resize :: "win_id option"

definition empty_floating :: floating where
  "empty_floating = \<lparr>fl_tiles = [], fl_active = None, fl_resize = None\<rparr>"

definition fl_windows :: "floating \<Rightarrow> win_id list" where
  "fl_windows f = map win (fl_tiles f)"

definition idx_of :: "win_id \<Rightarrow> floating \<Rightarrow> nat option" where
  "idx_of w f = position (\<lambda>t. win t = w) (fl_tiles f)"

definition fl_has_window :: "win_id \<Rightarrow> floating \<Rightarrow> bool" where
  "fl_has_window w f = list_ex (\<lambda>t. win t = w) (fl_tiles f)"

definition fl_active_window :: "floating \<Rightarrow> win_id option" where
  "fl_active_window f =
     do {
       w \<leftarrow> fl_active f;
       t \<leftarrow> List.find (\<lambda>t. win t = w) (fl_tiles f);
       Some (win t)
     }"

section \<open>Stacking\<close>

definition raise_window :: "nat \<Rightarrow> nat \<Rightarrow> floating \<Rightarrow> floating option" where
  "raise_window from_idx to_idx f =
     do {
       assert_that (to_idx \<le> from_idx);
       (t, ts) \<leftarrow> vec_remove from_idx (fl_tiles f);
       ts \<leftarrow> vec_insert to_idx t ts;
       Some (f\<lparr>fl_tiles := ts\<rparr>)
     }"

text \<open>The walk of \<open>bring_up_descendants_of\<close> over the indices below, back to front\<close>

fun collect_descendants ::
  "(win_id \<Rightarrow> win_id \<Rightarrow> bool) \<Rightarrow> win_id list \<Rightarrow> win_id \<Rightarrow> nat list \<Rightarrow> nat list \<Rightarrow> nat list" where
  "collect_descendants child ws w [] descendants = descendants"
| "collect_descendants child ws w (i # below) descendants =
     collect_descendants child ws w below
       (if child (ws ! i) w \<or> list_ex (\<lambda>d. child (ws ! i) (ws ! d)) descendants
        then descendants @ [i] else descendants)"

fun raise_all :: "nat list \<Rightarrow> nat \<Rightarrow> floating \<Rightarrow> floating option" where
  "raise_all [] idx f = Some f"
| "raise_all (d # ds) idx f = do { f \<leftarrow> raise_window d idx f; raise_all ds (idx + 1) f }"

definition bring_up_descendants_of :: "client_view \<Rightarrow> nat \<Rightarrow> floating \<Rightarrow> floating option" where
  "bring_up_descendants_of cv idx f =
     do {
       t \<leftarrow> vec_get (fl_tiles f) idx;
       let below = rev [idx + 1..<length (fl_tiles f)];
       let descendants = collect_descendants (child_of cv) (fl_windows f) (win t) below [];
       raise_all (rev descendants) idx f
     }"

section \<open>Adding and removing\<close>

text \<open>A tile that enters the layer is asked for a normal size\<close>

definition fl_add_tile_at ::
  "client_view \<Rightarrow> nat \<Rightarrow> tile \<Rightarrow> bool \<Rightarrow> floating \<Rightarrow> floating option" where
  "fl_add_tile_at cv idx t activate f =
     do {
       let t = t\<lparr>pending_mode := ModeNormal\<rparr>;
       let f = (if activate \<or> fl_tiles f = [] then f\<lparr>fl_active := Some (win t)\<rparr> else f);
       let idx = (case position (\<lambda>above. child_of cv (win t) (win above)) (take idx (fl_tiles f)) of
           Some i \<Rightarrow> i
         | None \<Rightarrow> idx);
       ts \<leftarrow> vec_insert idx t (fl_tiles f);
       bring_up_descendants_of cv idx (f\<lparr>fl_tiles := ts\<rparr>)
     }"

definition fl_add_tile :: "client_view \<Rightarrow> tile \<Rightarrow> bool \<Rightarrow> floating \<Rightarrow> floating option" where
  "fl_add_tile cv t activate f = fl_add_tile_at cv 0 t activate f"

definition fl_add_tile_above ::
  "client_view \<Rightarrow> win_id \<Rightarrow> tile \<Rightarrow> bool \<Rightarrow> floating \<Rightarrow> floating option" where
  "fl_add_tile_above cv above_id t activate f =
     do {
       idx \<leftarrow> idx_of above_id f;
       fl_add_tile_at cv idx t activate f
     }"

definition fl_remove_tile_by_idx ::
  "client_view \<Rightarrow> nat \<Rightarrow> floating \<Rightarrow> (removed_tile \<times> floating) option" where
  "fl_remove_tile_by_idx cv idx f =
     do {
       (t, ts) \<leftarrow> vec_remove idx (fl_tiles f);
       let f = f\<lparr>fl_tiles := ts\<rparr>;
       f \<leftarrow> (if ts = [] then Some (f\<lparr>fl_active := None\<rparr>)
             else if fl_active f = Some (win t)
             then do { top \<leftarrow> vec_get ts 0; Some (f\<lparr>fl_active := Some (win top)\<rparr>) }
             else Some f);
       let f = (if fl_resize f = Some (win t) then f\<lparr>fl_resize := None\<rparr> else f);
       Some (\<lparr>rt_tile = t, rt_width = FixedWidth (tile_width cv (win t)), rt_is_full_width = False,
              rt_is_floating = True, rt_is_sticky = False\<rparr>, f)
     }"

definition fl_remove_tile ::
  "client_view \<Rightarrow> win_id \<Rightarrow> floating \<Rightarrow> (removed_tile \<times> floating) option" where
  "fl_remove_tile cv w f = do { idx \<leftarrow> idx_of w f; fl_remove_tile_by_idx cv idx f }"

section \<open>Activation\<close>

definition fl_activate_window_without_raising :: "win_id \<Rightarrow> floating \<Rightarrow> floating \<times> bool" where
  "fl_activate_window_without_raising w f =
     (if idx_of w f = None then (f, False) else (f\<lparr>fl_active := Some w\<rparr>, True))"

definition fl_activate_window ::
  "client_view \<Rightarrow> win_id \<Rightarrow> floating \<Rightarrow> (floating \<times> bool) option" where
  "fl_activate_window cv w f =
     (case idx_of w f of
        None \<Rightarrow> Some (f, False)
      | Some idx \<Rightarrow> do {
          f \<leftarrow> raise_window idx 0 f;
          f \<leftarrow> bring_up_descendants_of cv 0 (f\<lparr>fl_active := Some w\<rparr>);
          Some (f, True)
        })"

definition descendants_added ::
  "client_view \<Rightarrow> win_id \<Rightarrow> floating \<Rightarrow> (floating \<times> bool) option" where
  "descendants_added cv w f =
     (case idx_of w f of
        None \<Rightarrow> Some (f, False)
      | Some idx \<Rightarrow> do { f \<leftarrow> bring_up_descendants_of cv idx f; Some (f, True) })"

text \<open>\<open>Iterator::min_by\<close> keeps the first of several minima, \<open>max_by\<close> the last maximum\<close>

fun min_by :: "('a \<Rightarrow> real) \<Rightarrow> 'a list \<Rightarrow> 'a option" where
  "min_by k [] = None"
| "min_by k (x # xs) =
     (case min_by k xs of
        None \<Rightarrow> Some x
      | Some y \<Rightarrow> if k x \<le> k y then Some x else Some y)"

fun max_by :: "('a \<Rightarrow> real) \<Rightarrow> 'a list \<Rightarrow> 'a option" where
  "max_by k [] = None"
| "max_by k (x # xs) =
     (case max_by k xs of
        None \<Rightarrow> Some x
      | Some y \<Rightarrow> if k y < k x then Some x else Some y)"

definition focus_directional ::
  "client_view \<Rightarrow> (real \<times> real \<Rightarrow> real \<times> real \<Rightarrow> real) \<Rightarrow> floating \<Rightarrow> (floating \<times> bool) option" where
  "focus_directional cv distance f =
     (case fl_active f of
        None \<Rightarrow> Some (f, False)
      | Some active_id \<Rightarrow> do {
          _ \<leftarrow> idx_of active_id f;
          let dist = (\<lambda>w. distance (tile_center cv active_id) (tile_center cv w));
          let candidates = filter (\<lambda>w. w \<noteq> active_id \<and> 0 < dist w) (fl_windows f);
          (case min_by dist candidates of
             Some w \<Rightarrow> do { (f, _) \<leftarrow> fl_activate_window cv w f; Some (f, True) }
           | None \<Rightarrow> Some (f, False))
        })"

definition fl_focus_left :: "client_view \<Rightarrow> floating \<Rightarrow> (floating \<times> bool) option" where
  "fl_focus_left cv f = focus_directional cv (\<lambda>focus other. fst focus - fst other) f"

definition fl_focus_right :: "client_view \<Rightarrow> floating \<Rightarrow> (floating \<times> bool) option" where
  "fl_focus_right cv f = focus_directional cv (\<lambda>focus other. fst other - fst focus) f"

definition fl_focus_up :: "client_view \<Rightarrow> floating \<Rightarrow> (floating \<times> bool) option" where
  "fl_focus_up cv f = focus_directional cv (\<lambda>focus other. snd focus - snd other) f"

definition fl_focus_down :: "client_view \<Rightarrow> floating \<Rightarrow> (floating \<times> bool) option" where
  "fl_focus_down cv f = focus_directional cv (\<lambda>focus other. snd other - snd focus) f"

definition activate_found :: "client_view \<Rightarrow> win_id option \<Rightarrow> floating \<Rightarrow> floating option" where
  "activate_found cv r f =
     (case r of
        Some w \<Rightarrow> map_option fst (fl_activate_window cv w f)
      | None \<Rightarrow> Some f)"

definition fl_focus_leftmost :: "client_view \<Rightarrow> floating \<Rightarrow> floating option" where
  "fl_focus_leftmost cv f = activate_found cv (min_by (\<lambda>w. fst (tile_pos cv w)) (fl_windows f)) f"

definition fl_focus_rightmost :: "client_view \<Rightarrow> floating \<Rightarrow> floating option" where
  "fl_focus_rightmost cv f = activate_found cv (max_by (\<lambda>w. fst (tile_pos cv w)) (fl_windows f)) f"

definition fl_focus_topmost :: "client_view \<Rightarrow> floating \<Rightarrow> floating option" where
  "fl_focus_topmost cv f = activate_found cv (min_by (\<lambda>w. snd (tile_pos cv w)) (fl_windows f)) f"

definition fl_focus_bottommost :: "client_view \<Rightarrow> floating \<Rightarrow> floating option" where
  "fl_focus_bottommost cv f = activate_found cv (max_by (\<lambda>w. snd (tile_pos cv w)) (fl_windows f)) f"

section \<open>Interactive resize\<close>

definition fl_interactive_resize_begin :: "win_id \<Rightarrow> floating \<Rightarrow> (floating \<times> bool) option" where
  "fl_interactive_resize_begin w f =
     (if fl_resize f \<noteq> None then Some (f, False)
      else do {
        _ \<leftarrow> List.find (\<lambda>t. win t = w) (fl_tiles f);
        Some (f\<lparr>fl_resize := Some w\<rparr>, True)
      })"

definition fl_interactive_resize_end :: "win_id option \<Rightarrow> floating \<Rightarrow> floating" where
  "fl_interactive_resize_end window f =
     (case fl_resize f of
        None \<Rightarrow> f
      | Some r \<Rightarrow>
          (case window of
             Some w \<Rightarrow> (if w \<noteq> r then f else f\<lparr>fl_resize := None\<rparr>)
           | None \<Rightarrow> f\<lparr>fl_resize := None\<rparr>))"

text \<open>
  Moving a window (\<open>move_left\<close> and its siblings, \<open>move_window\<close>, \<open>center_window\<close>):
  the new position is not modelled, but every move ends a running resize.
\<close>

definition fl_move_window :: "win_id option \<Rightarrow> floating \<Rightarrow> floating option" where
  "fl_move_window window f =
     (case (case window of Some w \<Rightarrow> Some w | None \<Rightarrow> fl_active f) of
        None \<Rightarrow> Some f
      | Some w \<Rightarrow> do { _ \<leftarrow> idx_of w f; Some (fl_interactive_resize_end None f) })"

end
