(* ===== verification/FloatingInv.thy ===== *)
theory FloatingInv
  imports Floating
begin

text \<open>
  The floating layer: \<open>bring_up_descendants_of\<close> computes a stable partition of the tiles
  below a window, and the invariant of \<open>FloatingSpace::verify_invariants\<close>, whose core is
  that a child window is always stacked above its parent.
\<close>

section \<open>The walk over the descendants is a stable partition\<close>

text \<open>The tiles of a list that descend from \<open>w\<close>, and the other ones, both in order\<close>

fun split_descendants ::
  "(win_id \<Rightarrow> win_id \<Rightarrow> bool) \<Rightarrow> win_id \<Rightarrow> tile list \<Rightarrow> tile list \<times> tile list" where
  "split_descendants child w [] = ([], [])"
| "split_descendants child w (t # ts) =
     (case split_descendants child w ts of
        (ds, ns) \<Rightarrow>
          if child (win t) w \<or> list_ex (\<lambda>d. child (win t) (win d)) ds
          then (t # ds, ns) else (ds, t # ns))"

lemma collect_append:
  "collect_descendants child ws w (xs @ ys) ds =
     collect_descendants child ws w ys (collect_descendants child ws w xs ds)"
  by (induction xs arbitrary: ds) auto

definition others :: "nat \<Rightarrow> nat \<Rightarrow> nat list \<Rightarrow> nat list" where
  "others k n is = filter (\<lambda>i. i \<notin> set is) [k..<n]"

lemma others_cong: "(\<And>i. k \<le> i \<Longrightarrow> i \<in> set is \<longleftrightarrow> i \<in> set js) \<Longrightarrow> others k n is = others k n js"
  by (auto simp: others_def intro: filter_cong)

lemma others_step: "k < n \<Longrightarrow> others k n is = (if k \<in> set is then [] else [k]) @ others (Suc k) n is"
  by (simp add: others_def upt_conv_Cons)

lemma collect_split:
  assumes "a \<le> length ts"
  shows "\<exists>is. collect_descendants child (map win ts) w (rev [a..<length ts]) [] = rev is \<and>
           sorted_wrt (<) is \<and> set is \<subseteq> {a..<length ts} \<and>
           split_descendants child w (drop a ts) =
             (map ((!) ts) is, map ((!) ts) (others a (length ts) is))"
  using assms
proof (induction a rule: inc_induct)
  case base
  then show ?case by (simp add: others_def)
next
  case (step a)
  then obtain "is" where
    c: "collect_descendants child (map win ts) w (rev [Suc a..<length ts]) [] = rev is"
    and srt: "sorted_wrt (<) is" "set is \<subseteq> {Suc a..<length ts}"
    and sp: "split_descendants child w (drop (Suc a) ts) =
      (map ((!) ts) is, map ((!) ts) (others (Suc a) (length ts) is))" by blast
  let ?hit = "child (win (ts ! a)) w \<or> list_ex (\<lambda>d. child (win (ts ! a)) (win (ts ! d))) is"
  have rev: "rev [a..<length ts] = rev [Suc a..<length ts] @ [a]"
    using step(2) by (simp add: upt_conv_Cons)
  have nth: "map win ts ! d = win (ts ! d)" if "d \<in> set is" for d
    using srt(2) that by (auto dest: subsetD)
  have ex: "list_ex (\<lambda>d. child (map win ts ! a) (map win ts ! d)) (rev is) =
      list_ex (\<lambda>d. child (win (ts ! a)) (win (ts ! d))) is"
    using step(2) nth by (simp add: list_ex_iff)
  have c': "collect_descendants child (map win ts) w (rev [a..<length ts]) [] =
      rev ((if ?hit then [a] else []) @ is)"
    unfolding rev collect_append c using ex step(2) by simp
  have drop: "drop a ts = ts ! a # drop (Suc a) ts" using step(2) by (simp add: Cons_nth_drop_Suc)
  have na: "a \<notin> set is" using srt(2) by auto
  have sp': "split_descendants child w (drop a ts) =
      (map ((!) ts) ((if ?hit then [a] else []) @ is),
       map ((!) ts) (others a (length ts) ((if ?hit then [a] else []) @ is)))"
  proof -
    have o: "others (Suc a) (length ts) (a # is) = others (Suc a) (length ts) is"
      by (rule others_cong) auto
    have "list_ex (\<lambda>d. child (win (ts ! a)) (win d)) (map ((!) ts) is) =
        list_ex (\<lambda>d. child (win (ts ! a)) (win (ts ! d))) is" by (simp add: list_ex_iff)
    then show ?thesis
      unfolding drop split_descendants.simps sp using na o others_step [OF step(2)]
      by simp
  qed
  show ?case
    using c' sp' srt step(2)
    by (intro exI [of _ "(if ?hit then [a] else []) @ is"]) auto
qed

lemma raise_window_eq:
  assumes "to_idx \<le> from_idx" "from_idx < length (fl_tiles f)"
  shows "raise_window from_idx to_idx f =
           Some (f\<lparr>fl_tiles := take to_idx (fl_tiles f) @ fl_tiles f ! from_idx #
                             drop to_idx (remove_at from_idx (fl_tiles f))\<rparr>)"
  using assms by (simp add: raise_window_def insert_at_def remove_at_def)

lemma raise_all_eq:
  assumes "sorted_wrt (<) is" "set is \<subseteq> {k..<length (fl_tiles f)}" "k \<le> length (fl_tiles f)"
  shows "raise_all is k f =
           Some (f\<lparr>fl_tiles := take k (fl_tiles f) @ map ((!) (fl_tiles f)) is @
                             map ((!) (fl_tiles f)) (others k (length (fl_tiles f)) is)\<rparr>)"
  using assms
proof (induction "is" arbitrary: k f)
  case Nil
  have "map ((!) (fl_tiles f)) (others k (length (fl_tiles f)) []) = drop k (fl_tiles f)"
    by (simp add: others_def) (metis drop_map drop_upt map_nth plus_nat.add_0)
  then show ?case by simp
next
  case (Cons d ds)
  let ?ts = "fl_tiles f" let ?n = "length ?ts"
  let ?us = "take k ?ts @ ?ts ! d # drop k (remove_at d ?ts)"
  have d: "k \<le> d" "d < ?n" using Cons.prems(2) by auto
  have ds: "sorted_wrt (<) ds" "\<forall>e \<in> set ds. d < e" using Cons.prems(1) by simp_all
  have len: "length ?us = ?n" using d by simp
  have us: "?us ! i = (if i < k then ?ts ! i else if i = k then ?ts ! d
      else if i \<le> d then ?ts ! (i - 1) else ?ts ! i)" if "i < ?n" for i
    using d that by (auto simp: nth_append nth_remove_at min_def nth_Cons')
  have IH: "raise_all ds (Suc k) (f\<lparr>fl_tiles := ?us\<rparr>) =
      Some (f\<lparr>fl_tiles := take (Suc k) ?us @ map ((!) ?us) ds @ map ((!) ?us) (others (Suc k) ?n ds)\<rparr>)"
    using Cons.IH [of "Suc k" "f\<lparr>fl_tiles := ?us\<rparr>"] ds Cons.prems(2) d len by fastforce
  have take: "take (Suc k) ?us = take k ?ts @ [?ts ! d]" using d by simp
  have ds_eq: "map ((!) ?us) ds = map ((!) ?ts) ds"
  proof (rule map_cong [OF refl])
    fix x assume x: "x \<in> set ds"
    then have "d < x" "x < ?n" using ds(2) Cons.prems(2) by auto
    then show "?us ! x = ?ts ! x" using us [of x] d by simp
  qed
  have low: "others (Suc k) (Suc d) ds = [Suc k..<Suc d]" "others k d (d # ds) = [k..<d]"
    using ds(2) by (auto simp: others_def filter_id_conv simp del: upt_Suc)
  have up: "[Suc k..<?n] = [Suc k..<Suc d] @ [Suc d..<?n]" "[k..<?n] = [k..<d] @ d # [Suc d..<?n]"
    using d by (metis Suc_le_mono Suc_leI le_iff_add upt_add_eq_append)
      (metis d upt_add_eq_append upt_conv_Cons le_iff_add less_imp_le)
  have "map ((!) ?us) (others (Suc k) ?n ds) = map ((!) ?ts) (others k ?n (d # ds))"
  proof -
    have "map ((!) ?us) [Suc k..<Suc d] = map ((!) ?ts) [k..<d]"
      using d by (intro nth_equalityI) (auto simp del: upt_Suc simp: us)
    moreover have "map ((!) ?us) (others (Suc d) ?n ds) = map ((!) ?ts) (others (Suc d) ?n (d # ds))"
      using d us by (auto simp: others_def intro!: map_cong filter_cong)
    ultimately show ?thesis
      using up low by (simp add: others_def del: upt_Suc)
  qed
  then show ?case
    using IH take ds_eq d by (simp add: raise_window_eq)
qed

lemma bring_up_eq:
  assumes "idx < length (fl_tiles f)"
    and "split_descendants (child_of cv) (win (fl_tiles f ! idx)) (drop (Suc idx) (fl_tiles f)) = (ds, ns)"
  shows "bring_up_descendants_of cv idx f =
           Some (f\<lparr>fl_tiles := take idx (fl_tiles f) @ ds @ fl_tiles f ! idx # ns\<rparr>)"
proof -
  let ?ts = "fl_tiles f" let ?n = "length ?ts" let ?w = "win (?ts ! idx)"
  from collect_split [of "Suc idx" ?ts "child_of cv" ?w] assms obtain "is" where
    c: "collect_descendants (child_of cv) (map win ?ts) ?w (rev [Suc idx..<?n]) [] = rev is"
    and srt: "sorted_wrt (<) is" "set is \<subseteq> {Suc idx..<?n}"
    and dn: "ds = map ((!) ?ts) is" "ns = map ((!) ?ts) (others (Suc idx) ?n is)"
    by auto
  have "idx \<notin> set is" using srt(2) by auto
  then have "others idx ?n is = idx # others (Suc idx) ?n is"
    using others_step [OF assms(1)] by simp
  moreover have "raise_all is idx f = Some (f\<lparr>fl_tiles := take idx ?ts @ map ((!) ?ts) is @
      map ((!) ?ts) (others idx ?n is)\<rparr>)"
    using srt assms(1) by (intro raise_all_eq) auto
  ultimately show ?thesis
    using assms(1) c dn by (simp add: bring_up_descendants_of_def Let_def fl_windows_def)
qed

lemma split_descendants_mset:
  "split_descendants child w ts = (ds, ns) \<Longrightarrow> mset ds + mset ns = mset ts"
  by (induction ts arbitrary: ds ns) (auto split: prod.splits if_splits)

lemma split_descendants_set:
  assumes "split_descendants child w ts = (ds, ns)"
  shows "set ds \<union> set ns = set ts"
  using split_descendants_mset [OF assms] by (metis set_mset_mset set_mset_union)

section \<open>Stacking\<close>

text \<open>Read from the top: no tile further down is a child of a tile above it\<close>

abbreviation not_below :: "(win_id \<Rightarrow> win_id \<Rightarrow> bool) \<Rightarrow> tile \<Rightarrow> tile \<Rightarrow> bool" where
  "not_below child t u \<equiv> \<not> child (win u) (win t)"

definition stacked :: "(win_id \<Rightarrow> win_id \<Rightarrow> bool) \<Rightarrow> tile list \<Rightarrow> bool" where
  "stacked child ts = sorted_wrt (not_below child) ts"

lemma split_descendants_stacked:
  assumes "split_descendants child w ts = (ds, ns)" "stacked child ts"
  shows "stacked child ds \<and> stacked child ns \<and>
         (\<forall>d \<in> set ds. \<forall>n \<in> set ns. not_below child d n) \<and> (\<forall>n \<in> set ns. \<not> child (win n) w)"
  using assms
proof (induction ts arbitrary: ds ns)
  case Nil
  then show ?case by (simp add: stacked_def)
next
  case (Cons t ts)
  obtain ds' ns' where sp: "split_descendants child w ts = (ds', ns')" by fastforce
  have st: "stacked child ts" "\<forall>u \<in> set ts. not_below child t u"
    using Cons.prems(2) by (simp_all add: stacked_def)
  note IH = Cons.IH [OF sp st(1)]
  have t: "\<forall>u \<in> set ds'. not_below child t u" "\<forall>u \<in> set ns'. not_below child t u"
    using st(2) split_descendants_set [OF sp] by blast+
  show ?case
    using Cons.prems(1) IH t sp
    by (auto simp: stacked_def list_ex_iff split: if_splits)
qed

lemma split_descendants_descend:
  assumes "split_descendants child w ts = (ds, ns)" "d \<in> set ds"
  shows "(win d, w) \<in> {(c, p). child c p}\<^sup>+"
  using assms
proof (induction ts arbitrary: ds ns d)
  case Nil
  then show ?case by simp
next
  case (Cons t ts)
  obtain ds' ns' where sp: "split_descendants child w ts = (ds', ns')" by fastforce
  note IH = Cons.IH [OF sp]
  show ?case
  proof (cases "d \<in> set ds'")
    case True
    with IH show ?thesis .
  next
    case False
    with Cons.prems sp have "d = t" "child (win t) w \<or> (\<exists>e \<in> set ds'. child (win t) (win e))"
      by (auto simp: list_ex_iff split: if_splits)
    with IH show ?thesis by (auto intro: trancl_into_trancl2)
  qed
qed

text \<open>The protocol forbids a toplevel from being its own ancestor\<close>

definition parents_acyclic :: "client_view \<Rightarrow> bool" where
  "parents_acyclic cv = acyclic {(c, p). child_of cv c p}"

lemma bring_up_stacked:
  assumes "parents_acyclic cv" "split_descendants (child_of cv) (win t) below = (ds, ns)"
    and "stacked (child_of cv) (pre @ below)"
    and "\<forall>p \<in> set pre. not_below (child_of cv) p t"
  shows "stacked (child_of cv) (pre @ ds @ t # ns)"
proof -
  have b: "stacked (child_of cv) below" "stacked (child_of cv) pre"
    "\<forall>p \<in> set pre. \<forall>u \<in> set below. not_below (child_of cv) p u"
    using assms(3) by (auto simp: stacked_def sorted_wrt_append)
  note sp = split_descendants_stacked [OF assms(2) b(1)]
  have "not_below (child_of cv) d t" if "d \<in> set ds" for d
  proof
    assume "child_of cv (win t) (win d)"
    with split_descendants_descend [OF assms(2) that]
    have "(win t, win t) \<in> {(c, p). child_of cv c p}\<^sup>+" by (auto intro: trancl_into_trancl2)
    with assms(1) show False by (auto simp: parents_acyclic_def acyclic_def)
  qed
  with sp b split_descendants_set [OF assms(2)] assms(4) show ?thesis
    by (auto simp: stacked_def sorted_wrt_append)
qed

section \<open>The invariant\<close>

definition fl_ok :: "client_view \<Rightarrow> floating \<Rightarrow> bool" where
  "fl_ok cv f \<longleftrightarrow>
     list_all (\<lambda>t. pending_mode t = ModeNormal) (fl_tiles f) \<and>
     stacked (child_of cv) (fl_tiles f) \<and>
     (case fl_active f of Some w \<Rightarrow> w \<in> set (fl_windows f) | None \<Rightarrow> fl_tiles f = []) \<and>
     (case fl_resize f of Some w \<Rightarrow> w \<in> set (fl_windows f) | None \<Rightarrow> True)"

lemma fl_ok_empty: "fl_ok cv empty_floating"
  by (simp add: fl_ok_def empty_floating_def stacked_def)

lemma fl_okD:
  assumes "fl_ok cv f"
  shows "stacked (child_of cv) (fl_tiles f)" "fl_active f = None \<longleftrightarrow> fl_tiles f = []"
    "\<And>w. fl_active f = Some w \<Longrightarrow> w \<in> set (fl_windows f)"
    "\<And>w. fl_resize f = Some w \<Longrightarrow> w \<in> set (fl_windows f)"
  using assms by (auto simp: fl_ok_def fl_windows_def split: option.splits)

lemma idx_of_None: "idx_of w f = None \<longleftrightarrow> w \<notin> set (fl_windows f)"
  by (auto simp: idx_of_def position_None fl_windows_def)

lemma idx_of_Some:
  assumes "idx_of w f = Some i"
  shows "i < length (fl_tiles f)" "win (fl_tiles f ! i) = w" "w \<in> set (fl_windows f)"
  using position_SomeD [OF assms [unfolded idx_of_def]] by (auto simp: fl_windows_def)

lemma fl_has_window_set [simp]: "fl_has_window w f \<longleftrightarrow> w \<in> set (fl_windows f)"
  by (auto simp: fl_has_window_def fl_windows_def list_ex_iff)

lemma find_win:
  "w \<in> set (map win ts) \<Longrightarrow> \<exists>t. List.find (\<lambda>t. win t = w) ts = Some t \<and> win t = w"
  by (induction ts) auto

lemma fl_active_window_eq: "fl_ok cv f \<Longrightarrow> fl_active_window f = fl_active f"
  using fl_okD(3) [of cv f] find_win [of _ "fl_tiles f"]
  by (cases "fl_active f") (fastforce simp: fl_active_window_def fl_windows_def)+

text \<open>The stacking step shared by the operations that put a tile somewhere and bring its descendants up\<close>

lemma bring_up_returns:
  assumes "parents_acyclic cv" "fl_tiles f = pre @ t # below"
    and "stacked (child_of cv) (pre @ below)" "\<forall>p \<in> set pre. not_below (child_of cv) p t"
    and "list_all (\<lambda>t. pending_mode t = ModeNormal) (fl_tiles f)"
    and "\<exists>w. fl_active f = Some w \<and> w \<in> set (fl_windows f)"
    and "\<And>w. fl_resize f = Some w \<Longrightarrow> w \<in> set (fl_windows f)"
  shows "returns (bring_up_descendants_of cv (length pre) f) (\<lambda>f'. fl_ok cv f' \<and>
           mset (fl_tiles f') = mset (fl_tiles f) \<and> fl_active f' = fl_active f \<and>
           fl_resize f' = fl_resize f)"
proof -
  obtain ds ns where sp: "split_descendants (child_of cv) (win t) below = (ds, ns)" by fastforce
  have eq: "bring_up_descendants_of cv (length pre) f = Some (f\<lparr>fl_tiles := pre @ ds @ t # ns\<rparr>)"
    using bring_up_eq [of "length pre" f cv ds ns] assms(2) sp by simp
  have m: "mset (pre @ ds @ t # ns) = mset (fl_tiles f)"
    using split_descendants_mset [OF sp] assms(2) by (simp add: union_assoc [symmetric])
  have s: "set (pre @ ds @ t # ns) = set (fl_tiles f)" using m by (metis set_mset_mset)
  then have w: "set (fl_windows (f\<lparr>fl_tiles := pre @ ds @ t # ns\<rparr>)) = set (fl_windows f)"
  proof -
    have "fl_windows (f\<lparr>fl_tiles := pre @ ds @ t # ns\<rparr>) = map win (pre @ ds @ t # ns)"
      by (simp add: fl_windows_def)
    with s show ?thesis by (simp only: fl_windows_def set_map)
  qed
  have "fl_ok cv (f\<lparr>fl_tiles := pre @ ds @ t # ns\<rparr>)"
    using bring_up_stacked [OF assms(1) sp assms(3,4)] assms(5-7) s w
    by (auto simp: fl_ok_def list_all_iff split: option.splits)
  with eq m show ?thesis by simp
qed

section \<open>The operations\<close>

definition fl_mset :: "floating \<Rightarrow> win_id multiset" where
  "fl_mset f = mset (fl_windows f)"

lemma fl_mset_tiles: "fl_mset f = image_mset win (mset (fl_tiles f))"
  by (simp add: fl_mset_def fl_windows_def)

lemma stacked_insert_pre:
  assumes "stacked child ts" "i \<le> length ts"
  shows "stacked child (take i ts @ drop i ts)"
  using assms by simp

lemma fl_add_tile_at_returns:
  assumes "parents_acyclic cv" "fl_ok cv f" "idx \<le> length (fl_tiles f)"
  shows "returns (fl_add_tile_at cv idx t activate f) (\<lambda>f'. fl_ok cv f' \<and>
           fl_mset f' = add_mset (win t) (fl_mset f) \<and>
           fl_active f' = (if activate \<or> fl_tiles f = [] then Some (win t) else fl_active f))"
proof -
  let ?t = "t\<lparr>pending_mode := ModeNormal\<rparr>" let ?ts = "fl_tiles f"
  let ?p = "position (\<lambda>above. child_of cv (win ?t) (win above)) (take idx ?ts)"
  let ?i = "case ?p of Some i \<Rightarrow> i | None \<Rightarrow> idx"
  let ?f = "(if activate \<or> ?ts = [] then f\<lparr>fl_active := Some (win ?t)\<rparr> else f)\<lparr>fl_tiles := insert_at ?i ?t ?ts\<rparr>"
  have i: "?i \<le> idx" "?i \<le> length ?ts"
    using assms(3) by (auto split: option.splits dest: position_SomeD)
  have parents: "not_below (child_of cv) p ?t" if "p \<in> set (take ?i ?ts)" for p
  proof (cases ?p)
    case None
    then have "p \<in> set (take idx ?ts)" using that by simp
    with None show ?thesis unfolding position_None by simp
  next
    case (Some k)
    from that Some obtain j where j: "j < k" "j < length ?ts" "p = ?ts ! j"
      by (auto simp: in_set_conv_nth)
    have "\<not> child_of cv (win ?t) (win (take idx ?ts ! j))" "j < idx"
      using position_SomeD [OF Some] j(1) by auto
    with j(3) show ?thesis by simp
  qed
  have ws: "set (fl_windows ?f) = insert (win t) (set (fl_windows f))"
    by (simp add: fl_windows_def)
  have "returns (bring_up_descendants_of cv (length (take ?i ?ts)) ?f) (\<lambda>f'. fl_ok cv f' \<and>
      mset (fl_tiles f') = mset (fl_tiles ?f) \<and> fl_active f' = fl_active ?f \<and> fl_resize f' = fl_resize ?f)"
  proof (rule bring_up_returns [OF assms(1)])
    show "fl_tiles ?f = take ?i ?ts @ ?t # drop ?i ?ts" by (simp add: insert_at_def)
    show "stacked (child_of cv) (take ?i ?ts @ drop ?i ?ts)" using fl_okD(1) [OF assms(2)] by simp
    show "\<forall>p \<in> set (take ?i ?ts). not_below (child_of cv) p ?t" using parents by blast
    show "list_all (\<lambda>t. pending_mode t = ModeNormal) (fl_tiles ?f)"
      using assms(2) by (auto simp: fl_ok_def list_all_iff)
    show "\<exists>w. fl_active ?f = Some w \<and> w \<in> set (fl_windows ?f)"
      unfolding ws using fl_okD(2,3) [OF assms(2)] by (cases "fl_active f") auto
    show "w \<in> set (fl_windows ?f)" if "fl_resize ?f = Some w" for w
      unfolding ws using fl_okD(4) [OF assms(2), of w] that by (auto split: if_splits)
  qed
  moreover have "length (take ?i ?ts) = ?i" using i(2) by simp
  moreover have "fl_add_tile_at cv idx t activate f = bring_up_descendants_of cv ?i ?f"
    using i by (cases "activate \<or> ?ts = []") (simp_all add: fl_add_tile_at_def Let_def)
  ultimately have "returns (fl_add_tile_at cv idx t activate f) (\<lambda>f'. fl_ok cv f' \<and>
      mset (fl_tiles f') = mset (fl_tiles ?f) \<and> fl_active f' = fl_active ?f \<and> fl_resize f' = fl_resize ?f)"
    by (simp only:)
  then show ?thesis
    by (rule returns_mono) (auto simp: fl_mset_tiles)
qed

lemma stacked_remove_at:
  assumes "stacked child ts"
  shows "stacked child (remove_at i ts)"
proof (cases "i < length ts")
  case True
  then have "ts = take i ts @ ts ! i # drop (Suc i) ts" by (rule id_take_nth_drop)
  with assms have "stacked child (take i ts @ ts ! i # drop (Suc i) ts)" by simp
  then show ?thesis by (auto simp: remove_at_def stacked_def sorted_wrt_append)
next
  case False
  with assms show ?thesis by (simp add: remove_at_def)
qed

lemma fl_remove_tile_returns:
  assumes "fl_ok cv f" "w \<in> set (fl_windows f)"
  shows "returns (fl_remove_tile cv w f) (\<lambda>(r, f'). fl_ok cv f' \<and> win (rt_tile r) = w \<and>
           pending_mode (rt_tile r) = ModeNormal \<and> rt_is_floating r \<and> \<not> rt_is_sticky r \<and>
           fl_mset f = add_mset w (fl_mset f') \<and>
           (fl_active f \<noteq> Some w \<longrightarrow> fl_active f' = fl_active f))"
proof -
  from assms(2) obtain i where i: "idx_of w f = Some i" using idx_of_None by (cases "idx_of w f") auto
  note il = idx_of_Some [OF i]
  let ?ts = "remove_at i (fl_tiles f)"
  have m: "mset (fl_tiles f) = add_mset (fl_tiles f ! i) (mset ?ts)" using mset_remove_at [OF il(1)] .
  have sub: "set ?ts \<subseteq> set (fl_tiles f)" by (rule set_remove_at_subset)
  have in_w: "x \<in> win ` set ?ts" if "x \<in> set (fl_windows f)" "x \<noteq> w" for x
    using that il(2) arg_cong [OF m, of set_mset] by (auto simp: fl_windows_def)
  have st: "stacked (child_of cv) ?ts"
    using stacked_remove_at fl_okD(1) [OF assms(1)] by blast
  have mode: "list_all (\<lambda>t. pending_mode t = ModeNormal) ?ts"
    "pending_mode (fl_tiles f ! i) = ModeNormal"
    using assms(1) sub il(1) by (auto simp: fl_ok_def list_all_iff)
  let ?r = "\<lparr>rt_tile = fl_tiles f ! i, rt_width = FixedWidth (tile_width cv w), rt_is_full_width = False,
      rt_is_floating = True, rt_is_sticky = False\<rparr>"
  define a where "a = (if ?ts = [] then None
      else if fl_active f = Some w then Some (win (?ts ! 0)) else fl_active f)"
  define r where "r = (if fl_resize f = Some w then None else fl_resize f)"
  let ?f = "f\<lparr>fl_tiles := ?ts, fl_active := a, fl_resize := r\<rparr>"
  have run: "fl_remove_tile cv w f = Some (?r, ?f)"
    using i il(1,2)
    by (cases ?ts) (auto simp: fl_remove_tile_def fl_remove_tile_by_idx_def Let_def a_def r_def)
  have "case a of Some x \<Rightarrow> x \<in> win ` set ?ts | None \<Rightarrow> ?ts = []"
    using fl_okD(2,3) [OF assms(1)] in_w il(1)
    by (cases "fl_active f"; cases ?ts) (auto simp: a_def)
  moreover have "case r of Some x \<Rightarrow> x \<in> win ` set ?ts | None \<Rightarrow> True"
    using fl_okD(4) [OF assms(1)] in_w by (cases "fl_resize f") (auto simp: r_def)
  ultimately have "fl_ok cv ?f"
    using st mode by (auto simp: fl_ok_def fl_windows_def split: option.splits)
  moreover have "fl_active f \<noteq> Some w \<Longrightarrow> fl_active ?f = fl_active f"
    using fl_okD(2,3) [OF assms(1)] in_w il(1) by (cases "fl_active f") (auto simp: a_def)
  ultimately show ?thesis
    using run il(2) mode(2) m by (simp add: fl_mset_tiles)
qed

lemma fl_activate_window_returns:
  assumes "parents_acyclic cv" "fl_ok cv f"
  shows "returns (fl_activate_window cv w f) (\<lambda>(f', b). fl_ok cv f' \<and>
           fl_mset f' = fl_mset f \<and> (b \<longleftrightarrow> w \<in> set (fl_windows f)) \<and>
           fl_active f' = (if b then Some w else fl_active f))"
proof (cases "idx_of w f")
  case None
  then show ?thesis using assms(2) idx_of_None [of w f] by (simp add: fl_activate_window_def)
next
  case (Some i)
  note il = idx_of_Some [OF Some]
  let ?ts = "fl_tiles f" let ?rest = "remove_at i ?ts"
  let ?f = "f\<lparr>fl_tiles := ?ts ! i # ?rest, fl_active := Some w\<rparr>"
  have m: "mset (?ts ! i # ?rest) = mset ?ts" using mset_remove_at [OF il(1)] by simp
  then have s: "set (?ts ! i # ?rest) = set ?ts" by (metis set_mset_mset)
  have ws: "set (fl_windows ?f) = set (fl_windows f)"
  proof -
    have "fl_windows ?f = map win (?ts ! i # ?rest)" by (simp add: fl_windows_def)
    with s show ?thesis by (simp only: fl_windows_def set_map)
  qed
  have st: "stacked (child_of cv) ?rest" using stacked_remove_at fl_okD(1) [OF assms(2)] by blast
  have "returns (bring_up_descendants_of cv (length ([] :: tile list)) ?f) (\<lambda>f'. fl_ok cv f' \<and>
      mset (fl_tiles f') = mset (fl_tiles ?f) \<and> fl_active f' = fl_active ?f \<and> fl_resize f' = fl_resize ?f)"
    by (rule bring_up_returns [OF assms(1), of ?f "[]" "?ts ! i" ?rest])
      (use st il assms(2) s ws fl_okD(4) [OF assms(2)] in \<open>auto simp: fl_ok_def list_all_iff\<close>)
  then show ?thesis
    using Some il m
    by (auto simp: fl_activate_window_def raise_window_def fl_mset_tiles elim!: returns_mono)
qed

text \<open>The stacking is right for every pair of tiles but those whose parent is the tile at \<open>i\<close>\<close>

definition stacked_except :: "(win_id \<Rightarrow> win_id \<Rightarrow> bool) \<Rightarrow> nat \<Rightarrow> tile list \<Rightarrow> bool" where
  "stacked_except child i ts \<longleftrightarrow>
     stacked child (take i ts @ drop (Suc i) ts) \<and>
     (\<forall>p \<in> set (take i ts). not_below child p (ts ! i))"

lemma stacked_imp_except:
  assumes "stacked child ts" "i < length ts"
  shows "stacked_except child i ts"
proof -
  have "ts = take i ts @ ts ! i # drop (Suc i) ts" using assms(2) by (rule id_take_nth_drop)
  with assms(1) have "stacked child (take i ts @ ts ! i # drop (Suc i) ts)" by simp
  then show ?thesis by (auto simp: stacked_except_def stacked_def sorted_wrt_append)
qed

lemma descendants_added_returns:
  assumes "parents_acyclic cv" "idx_of w f = Some i" "stacked_except (child_of cv) i (fl_tiles f)"
    and "list_all (\<lambda>t. pending_mode t = ModeNormal) (fl_tiles f)"
    and "\<exists>w. fl_active f = Some w \<and> w \<in> set (fl_windows f)"
    and "\<And>w. fl_resize f = Some w \<Longrightarrow> w \<in> set (fl_windows f)"
  shows "returns (descendants_added cv w f) (\<lambda>(f', b). b \<and> fl_ok cv f' \<and>
           fl_mset f' = fl_mset f \<and> fl_active f' = fl_active f)"
proof -
  note il = idx_of_Some [OF assms(2)]
  let ?ts = "fl_tiles f"
  have len: "length (take i ?ts) = i" using il(1) by simp
  have "returns (bring_up_descendants_of cv (length (take i ?ts)) f) (\<lambda>f'. fl_ok cv f' \<and>
      mset (fl_tiles f') = mset (fl_tiles f) \<and> fl_active f' = fl_active f \<and> fl_resize f' = fl_resize f)"
    using id_take_nth_drop [OF il(1)] assms
    by (intro bring_up_returns) (auto simp: stacked_except_def)
  then show ?thesis
    using assms(2) len by (auto simp: descendants_added_def fl_mset_tiles elim!: returns_mono)
qed

lemma descendants_added_keeps:
  assumes "parents_acyclic cv" "fl_ok cv f"
  shows "returns (descendants_added cv w f) (\<lambda>(f', b). fl_ok cv f' \<and> fl_mset f' = fl_mset f \<and>
           fl_active f' = fl_active f)"
proof (cases "idx_of w f")
  case None
  with assms(2) show ?thesis by (simp add: descendants_added_def)
next
  case (Some i)
  note il = idx_of_Some [OF Some]
  have "fl_active f \<noteq> None" using il(1) fl_okD(2) [OF assms(2)] by auto
  then have act: "\<exists>w. fl_active f = Some w \<and> w \<in> set (fl_windows f)"
    using fl_okD(3) [OF assms(2)] by auto
  have mode: "list_all (\<lambda>t. pending_mode t = ModeNormal) (fl_tiles f)"
    using assms(2) by (simp add: fl_ok_def)
  show ?thesis
    by (rule returns_mono [OF descendants_added_returns [OF assms(1) Some
          stacked_imp_except [OF fl_okD(1) [OF assms(2)] il(1)] mode act fl_okD(4) [OF assms(2)]]]) auto
qed

lemma idx_of_le: "idx_of w f = Some i \<Longrightarrow> i \<le> length (fl_tiles f)"
  by (drule idx_of_Some(1)) simp

lemma fl_add_tile_returns:
  assumes "parents_acyclic cv" "fl_ok cv f"
  shows "returns (fl_add_tile cv t activate f) (\<lambda>f'. fl_ok cv f' \<and>
           fl_mset f' = add_mset (win t) (fl_mset f) \<and>
           fl_active f' = (if activate \<or> fl_tiles f = [] then Some (win t) else fl_active f))"
  unfolding fl_add_tile_def by (rule fl_add_tile_at_returns [OF assms]) simp

lemma fl_add_tile_above_returns:
  assumes "parents_acyclic cv" "fl_ok cv f" "a \<in> set (fl_windows f)"
  shows "returns (fl_add_tile_above cv a t activate f) (\<lambda>f'. fl_ok cv f' \<and>
           fl_mset f' = add_mset (win t) (fl_mset f) \<and>
           fl_active f' = (if activate \<or> fl_tiles f = [] then Some (win t) else fl_active f))"
proof -
  from assms(3) idx_of_None obtain i where i: "idx_of a f = Some i" by (cases "idx_of a f") auto
  from fl_add_tile_at_returns [OF assms(1,2) idx_of_le [OF i]] i show ?thesis
    by (simp add: fl_add_tile_above_def)
qed

text \<open>An operation that keeps the invariant and the windows\<close>

definition fl_keeps :: "client_view \<Rightarrow> floating \<Rightarrow> floating \<Rightarrow> bool" where
  "fl_keeps cv f f' \<longleftrightarrow> fl_ok cv f' \<and> fl_mset f' = fl_mset f"

lemma fl_keeps_refl: "fl_ok cv f \<Longrightarrow> fl_keeps cv f f"
  by (simp add: fl_keeps_def)

lemma fl_keeps_set: "fl_keeps cv f f' \<Longrightarrow> set (fl_windows f') = set (fl_windows f)"
  unfolding fl_keeps_def fl_mset_def by (metis set_mset_mset)

lemma fl_keeps_empty: "fl_keeps cv f f' \<Longrightarrow> fl_tiles f' = [] \<longleftrightarrow> fl_tiles f = []"
  by (drule fl_keeps_set) (auto simp: fl_windows_def)

lemma fl_activate_window_keeps:
  assumes "parents_acyclic cv" "fl_ok cv f"
  shows "returns (fl_activate_window cv w f) (\<lambda>(f', b). fl_keeps cv f f')"
  by (rule returns_mono [OF fl_activate_window_returns [OF assms]]) (auto simp: fl_keeps_def)

lemma fl_activate_without_raising_keeps:
  "fl_ok cv f \<Longrightarrow> fl_keeps cv f (fst (fl_activate_window_without_raising w f))"
  using idx_of_None [of w f]
  by (auto simp: fl_activate_window_without_raising_def fl_keeps_def fl_ok_def fl_mset_def
      fl_windows_def split: option.splits)

lemma min_by_None: "min_by k xs = None \<longleftrightarrow> xs = []"
  by (cases xs) (auto split: option.splits)

lemma min_by_Some:
  "min_by k xs = Some x \<Longrightarrow> x \<in> set xs \<and> (\<forall>y \<in> set xs. k x \<le> k y)"
proof (induction xs arbitrary: x)
  case Nil
  then show ?case by simp
next
  case (Cons a xs)
  show ?case
  proof (cases "min_by k xs")
    case None
    with Cons.prems show ?thesis using min_by_None [of k xs] by auto
  next
    case (Some y)
    from Cons.IH [OF Some] Cons.prems Some show ?thesis by (force split: if_splits)
  qed
qed

lemma max_by_None: "max_by k xs = None \<longleftrightarrow> xs = []"
  by (cases xs) (auto split: option.splits)

lemma max_by_Some:
  "max_by k xs = Some x \<Longrightarrow> x \<in> set xs \<and> (\<forall>y \<in> set xs. k y \<le> k x)"
proof (induction xs arbitrary: x)
  case Nil
  then show ?case by simp
next
  case (Cons a xs)
  show ?case
  proof (cases "max_by k xs")
    case None
    with Cons.prems show ?thesis using max_by_None [of k xs] by auto
  next
    case (Some y)
    from Cons.IH [OF Some] Cons.prems Some show ?thesis by (force split: if_splits)
  qed
qed

lemma focus_directional_returns:
  assumes "parents_acyclic cv" "fl_ok cv f"
  shows "returns (focus_directional cv delta f) (\<lambda>(f', b). fl_keeps cv f f' \<and>
           (case fl_active f of
              None \<Rightarrow> \<not> b
            | Some a \<Rightarrow>
                let d = \<lambda>w. delta (tile_center cv a) (tile_center cv w);
                    cand = {w \<in> set (fl_windows f). w \<noteq> a \<and> 0 < d w}
                in (b \<longleftrightarrow> cand \<noteq> {}) \<and>
                   (b \<longrightarrow> (\<exists>w \<in> cand. fl_active f' = Some w \<and> (\<forall>v \<in> cand. d w \<le> d v))) \<and>
                   (\<not> b \<longrightarrow> f' = f)))"
proof (cases "fl_active f")
  case None
  with assms(2) show ?thesis by (simp add: focus_directional_def fl_keeps_refl)
next
  case (Some a)
  have a: "\<exists>i. idx_of a f = Some i" using idx_of_None fl_okD(3) [OF assms(2) Some] by (metis not_None_eq)
  let ?d = "\<lambda>w. delta (tile_center cv a) (tile_center cv w)"
  let ?c = "filter (\<lambda>w. w \<noteq> a \<and> 0 < ?d w) (fl_windows f)"
  show ?thesis
  proof (cases "min_by ?d ?c")
    case none: None
    then have "?c = []" by (simp only: min_by_None)
    then have "\<forall>w \<in> set (fl_windows f). \<not> (w \<noteq> a \<and> 0 < ?d w)" by (simp only: filter_empty_conv)
    with a Some none assms(2) show ?thesis by (auto simp: focus_directional_def Let_def fl_keeps_refl)
  next
    case w: (Some w)
    from min_by_Some [OF w] have "w \<in> set (fl_windows f)" "w \<noteq> a" "0 < ?d w"
      "\<forall>v \<in> set ?c. ?d w \<le> ?d v" by auto
    moreover from fl_activate_window_returns [OF assms, of w] obtain f' where
      "fl_activate_window cv w f = Some (f', True)" "fl_ok cv f'" "fl_mset f' = fl_mset f" "fl_active f' = Some w"
      using calculation(1) by (auto elim!: returnsE)
    ultimately show ?thesis
      using a Some w by (auto simp: focus_directional_def Let_def fl_keeps_def)
  qed
qed

lemma focus_directional_keeps:
  assumes "parents_acyclic cv" "fl_ok cv f"
  shows "returns (focus_directional cv delta f) (\<lambda>(f', b). fl_keeps cv f f')"
  by (rule returns_mono [OF focus_directional_returns [OF assms]]) auto

lemma fl_focus_keeps:
  assumes "parents_acyclic cv" "fl_ok cv f"
  shows "returns (fl_focus_left cv f) (\<lambda>(f', b). fl_keeps cv f f')"
    "returns (fl_focus_right cv f) (\<lambda>(f', b). fl_keeps cv f f')"
    "returns (fl_focus_up cv f) (\<lambda>(f', b). fl_keeps cv f f')"
    "returns (fl_focus_down cv f) (\<lambda>(f', b). fl_keeps cv f f')"
  unfolding fl_focus_left_def fl_focus_right_def fl_focus_up_def fl_focus_down_def
  by (rule focus_directional_keeps [OF assms])+

lemma activate_found_keeps:
  assumes "parents_acyclic cv" "fl_ok cv f"
  shows "returns (activate_found cv r f) (fl_keeps cv f)"
  using fl_activate_window_keeps [OF assms] fl_keeps_refl [OF assms(2)]
  by (cases r) (auto simp: activate_found_def case_prod_unfold)

lemma fl_focus_edge_keeps:
  assumes "parents_acyclic cv" "fl_ok cv f"
  shows "returns (fl_focus_leftmost cv f) (fl_keeps cv f)" "returns (fl_focus_rightmost cv f) (fl_keeps cv f)"
    "returns (fl_focus_topmost cv f) (fl_keeps cv f)" "returns (fl_focus_bottommost cv f) (fl_keeps cv f)"
  unfolding fl_focus_leftmost_def fl_focus_rightmost_def fl_focus_topmost_def fl_focus_bottommost_def
  by (rule activate_found_keeps [OF assms])+

lemma fl_resize_end_keeps: "fl_ok cv f \<Longrightarrow> fl_keeps cv f (fl_interactive_resize_end w f)"
  by (auto simp: fl_interactive_resize_end_def fl_keeps_def fl_ok_def fl_mset_def fl_windows_def
      split: option.splits)

lemma fl_resize_begin_keeps:
  assumes "fl_ok cv f" "w \<in> set (fl_windows f)"
  shows "returns (fl_interactive_resize_begin w f) (\<lambda>(f', b). fl_keeps cv f f')"
proof -
  from assms(2) obtain t where "List.find (\<lambda>t. win t = w) (fl_tiles f) = Some t"
    using find_win [of w "fl_tiles f"] by (auto simp: fl_windows_def)
  with assms show ?thesis
    by (auto simp: fl_interactive_resize_begin_def fl_keeps_def fl_ok_def fl_mset_def fl_windows_def
        split: option.splits)
qed

lemma fl_move_window_keeps:
  assumes "fl_ok cv f" "\<And>w. window = Some w \<Longrightarrow> w \<in> set (fl_windows f)"
  shows "returns (fl_move_window window f) (fl_keeps cv f)"
proof (cases "case window of Some w \<Rightarrow> Some w | None \<Rightarrow> fl_active f")
  case None
  with assms(1) show ?thesis by (simp add: fl_move_window_def fl_keeps_refl)
next
  case (Some w)
  then have "w \<in> set (fl_windows f)"
    using assms(2) fl_okD(3) [OF assms(1)] by (auto split: option.splits)
  then have "idx_of w f \<noteq> None" using idx_of_None by blast
  with Some fl_resize_end_keeps [OF assms(1)] show ?thesis by (auto simp: fl_move_window_def)
qed

end
