(* ===== verification/FloatingSpec.thy ===== *)
theory FloatingSpec
  imports FloatingInv
begin

text \<open>
  The floating layer as a state machine, and what it promises: no panic, children above
  their parents at all times, stable stacking, and directional focus on the nearest window.
\<close>

section \<open>Operations as data\<close>

datatype fl_op =
    FlAddTile tile bool
  | FlAddTileAbove win_id tile bool
  | FlRemoveTile win_id
  | FlActivate win_id
  | FlActivateWithoutRaising win_id
  | FlDescendantsAdded win_id
  | FlFocusLeft | FlFocusRight | FlFocusUp | FlFocusDown
  | FlFocusLeftmost | FlFocusRightmost | FlFocusTopmost | FlFocusBottommost
  | FlResizeBegin win_id | FlResizeEnd "win_id option"
  | FlMoveWindow "win_id option"

fun fl_exec :: "client_view \<Rightarrow> fl_op \<Rightarrow> floating \<Rightarrow> floating option" where
  "fl_exec cv (FlAddTile t a) f = fl_add_tile cv t a f"
| "fl_exec cv (FlAddTileAbove w t a) f = fl_add_tile_above cv w t a f"
| "fl_exec cv (FlRemoveTile w) f = map_option snd (fl_remove_tile cv w f)"
| "fl_exec cv (FlActivate w) f = map_option fst (fl_activate_window cv w f)"
| "fl_exec cv (FlActivateWithoutRaising w) f = Some (fst (fl_activate_window_without_raising w f))"
| "fl_exec cv (FlDescendantsAdded w) f = map_option fst (descendants_added cv w f)"
| "fl_exec cv FlFocusLeft f = map_option fst (fl_focus_left cv f)"
| "fl_exec cv FlFocusRight f = map_option fst (fl_focus_right cv f)"
| "fl_exec cv FlFocusUp f = map_option fst (fl_focus_up cv f)"
| "fl_exec cv FlFocusDown f = map_option fst (fl_focus_down cv f)"
| "fl_exec cv FlFocusLeftmost f = fl_focus_leftmost cv f"
| "fl_exec cv FlFocusRightmost f = fl_focus_rightmost cv f"
| "fl_exec cv FlFocusTopmost f = fl_focus_topmost cv f"
| "fl_exec cv FlFocusBottommost f = fl_focus_bottommost cv f"
| "fl_exec cv (FlResizeBegin w) f = map_option fst (fl_interactive_resize_begin w f)"
| "fl_exec cv (FlResizeEnd w) f = Some (fl_interactive_resize_end w f)"
| "fl_exec cv (FlMoveWindow w) f = fl_move_window w f"

fun fl_enabled :: "fl_op \<Rightarrow> floating \<Rightarrow> bool" where
  "fl_enabled (FlAddTile t a) f = (win t \<notin> set (fl_windows f))"
| "fl_enabled (FlAddTileAbove w t a) f = (win t \<notin> set (fl_windows f) \<and> w \<in> set (fl_windows f))"
| "fl_enabled (FlRemoveTile w) f = (w \<in> set (fl_windows f))"
| "fl_enabled (FlResizeBegin w) f = (w \<in> set (fl_windows f))"
| "fl_enabled (FlMoveWindow w) f = (case w of Some w \<Rightarrow> w \<in> set (fl_windows f) | None \<Rightarrow> True)"
| "fl_enabled _ f = True"

definition fl_good :: "client_view \<Rightarrow> floating \<Rightarrow> bool" where
  "fl_good cv f \<longleftrightarrow> parents_acyclic cv \<and> fl_ok cv f \<and> distinct (fl_windows f)"

lemma fl_good_keeps:
  assumes "fl_good cv f" "fl_keeps cv f f'"
  shows "fl_good cv f'"
  using assms unfolding fl_good_def fl_keeps_def fl_mset_def
  by (metis mset_eq_imp_distinct_iff)

lemma fl_good_add:
  assumes "fl_good cv f" "w \<notin> set (fl_windows f)" "fl_ok cv f'" "fl_mset f' = add_mset w (fl_mset f)"
  shows "fl_good cv f'"
proof -
  have "mset (fl_windows f') = mset (w # fl_windows f)" using assms(4) by (simp add: fl_mset_def)
  then have "distinct (fl_windows f') = distinct (w # fl_windows f)" by (rule mset_eq_imp_distinct_iff)
  with assms show ?thesis by (simp add: fl_good_def)
qed

lemma fl_good_remove:
  assumes "fl_good cv f" "fl_ok cv f'" "fl_mset f = add_mset w (fl_mset f')"
  shows "fl_good cv f'"
proof -
  have "mset (fl_windows f) = mset (w # fl_windows f')" using assms(3) by (simp add: fl_mset_def)
  then have "distinct (fl_windows f) = distinct (w # fl_windows f')" by (rule mset_eq_imp_distinct_iff)
  with assms show ?thesis by (simp add: fl_good_def)
qed

lemma fl_step_good:
  assumes "fl_good cv f" "fl_enabled op f"
  shows "returns (fl_exec cv op f) (fl_good cv)"
proof -
  have acy: "parents_acyclic cv" and ok: "fl_ok cv f" using assms(1) by (simp_all add: fl_good_def)
  have keep: "returns m (fl_good cv)" if "returns m (fl_keeps cv f)" for m
    using that by (rule returns_mono) (rule fl_good_keeps [OF assms(1)])
  have keep_fst: "returns m (\<lambda>x. fl_good cv (fst x))" if "returns m (\<lambda>(f', b). fl_keeps cv f f')"
    for m :: "(floating \<times> bool) option"
    using that by (rule returns_mono) (auto intro: fl_good_keeps [OF assms(1)])
  note steps = fl_focus_edge_keeps [OF acy ok, THEN keep] fl_focus_keeps [OF acy ok, THEN keep_fst]
    fl_activate_window_keeps [OF acy ok, THEN keep_fst]
    fl_good_keeps [OF assms(1) fl_activate_without_raising_keeps [OF ok]]
    fl_good_keeps [OF assms(1) fl_resize_end_keeps [OF ok]]
  show ?thesis
  proof (cases op)
    case (FlAddTile t a)
    with assms(2) show ?thesis
      by (auto intro!: returns_mono [OF fl_add_tile_returns [OF acy ok]] fl_good_add [OF assms(1)])
  next
    case (FlAddTileAbove w t a)
    with assms(2) show ?thesis
      by (auto intro!: returns_mono [OF fl_add_tile_above_returns [OF acy ok]] fl_good_add [OF assms(1)])
  next
    case (FlRemoveTile w)
    with assms(2) show ?thesis
      by (auto intro!: returns_mono [OF fl_remove_tile_returns [OF ok]] intro: fl_good_remove [OF assms(1)])
  next
    case (FlDescendantsAdded w)
    have "returns (descendants_added cv w f) (\<lambda>(f', b). fl_keeps cv f f')"
      by (rule returns_mono [OF descendants_added_keeps [OF acy ok]]) (auto simp: fl_keeps_def)
    with FlDescendantsAdded keep_fst show ?thesis by simp
  next
    case (FlResizeBegin w)
    with assms(2) keep_fst [OF fl_resize_begin_keeps [OF ok]] show ?thesis by simp
  next
    case (FlMoveWindow w)
    with assms(2) have "\<And>x. w = Some x \<Longrightarrow> x \<in> set (fl_windows f)" by simp
    from keep [OF fl_move_window_keeps [OF ok this]] FlMoveWindow show ?thesis by simp
  qed (simp_all add: steps)
qed

interpretation fl: component "fl_good cv" fl_enabled "fl_exec cv" for cv
  by unfold_locales (rule fl_step_good)

lemma fl_good_empty: "parents_acyclic cv \<Longrightarrow> fl_good cv empty_floating"
  using fl_ok_empty by (simp add: fl_good_def) (simp add: fl_windows_def empty_floating_def)

section \<open>Properties\<close>

text \<open>Window 2 is a child of 1, and 3 of 2\<close>

definition demo_clients :: client_view where
  "demo_clients =
     \<lparr>child_of = (\<lambda>c p. c = Suc p \<and> 1 \<le> p \<and> p \<le> 2), tile_pos = (\<lambda>w. (real w, 0)),
      tile_center = (\<lambda>w. (real w, 0)), tile_width = (\<lambda>_. 1)\<rparr>"

lemma demo_clients_acyclic: "parents_acyclic demo_clients"
proof -
  have "{(c, p). child_of demo_clients c p} \<subseteq> (measure id)\<inverse>"
    by (auto simp: demo_clients_def)
  moreover have "acyclic ((measure id)\<inverse> :: (nat \<times> nat) set)"
    by (simp add: wf_acyclic)
  ultimately show ?thesis unfolding parents_acyclic_def by (rule acyclic_subset [rotated])
qed

definition demo_tile_of :: "win_id \<Rightarrow> tile" where
  "demo_tile_of w = \<lparr>win = w, pending_mode = ModeNormal, rule_display = None, restore_to_floating = False\<rparr>"

definition demo_floating :: floating where
  "demo_floating = \<lparr>fl_tiles = map demo_tile_of [4, 3, 5, 2, 1, 6], fl_active = Some 4, fl_resize = None\<rparr>"

lemmas fl_demo = demo_floating_def demo_tile_of_def demo_clients_def

lemma demo_floating_ok: "fl_ok demo_clients demo_floating"
  by (simp add: fl_demo fl_ok_def stacked_def fl_windows_def)

text \<open>
  C15. No sequence of operations on the floating layer panics, and at every point a child
  window is stacked above its parent, the active window is one of the layer's (none exactly
  when the layer is empty) and no window is listed twice.
\<close>

theorem floating_runs_never_panic:
  assumes "parents_acyclic cv"
  shows "\<exists>f. run_ops fl_enabled (fl_exec cv) ops empty_floating = Some f \<and>
           fl_ok cv f \<and> distinct (fl_windows f)"
  using fl.run_good [OF fl_good_empty [OF assms], of ops] by (auto simp: fl_good_def elim!: returnsE)

lemma floating_runs_never_panic_witness:
  "\<exists>f. run_ops fl_enabled (fl_exec demo_clients)
         [FlAddTile (demo_tile_of 2) True, FlAddTile (demo_tile_of 1) False, FlActivate 1,
          FlFocusRight, FlRemoveTile 2] empty_floating = Some f \<and>
       fl_ok demo_clients f \<and> distinct (fl_windows f)"
  by (rule floating_runs_never_panic [OF demo_clients_acyclic])

text \<open>
  C16. Activating a floating window brings it to the top with all its descendants (children,
  grandchildren, and so on) directly above it; descendants and other windows each keep their
  order, so nothing else is restacked.
\<close>

theorem activating_raises_the_family:
  assumes "parents_acyclic cv" "fl_ok cv f" "idx_of w f = Some i"
  shows "\<exists>f' ds ns. fl_activate_window cv w f = Some (f', True) \<and> fl_active f' = Some w \<and>
           fl_tiles f' = ds @ fl_tiles f ! i # ns \<and>
           (ds, ns) = split_descendants (child_of cv) w (remove_at i (fl_tiles f)) \<and>
           (\<forall>d \<in> set ds. (win d, w) \<in> {(c, p). child_of cv c p}\<^sup>+) \<and>
           (\<forall>n \<in> set ns. \<not> child_of cv (win n) w \<and> (\<forall>d \<in> set ds. \<not> child_of cv (win n) (win d)))"
proof -
  note il = idx_of_Some [OF assms(3)]
  obtain ds ns where sp: "split_descendants (child_of cv) w (remove_at i (fl_tiles f)) = (ds, ns)" by fastforce
  let ?f = "f\<lparr>fl_tiles := fl_tiles f ! i # remove_at i (fl_tiles f), fl_active := Some w\<rparr>"
  have "bring_up_descendants_of cv 0 ?f = Some (?f\<lparr>fl_tiles := ds @ fl_tiles f ! i # ns\<rparr>)"
    using bring_up_eq [of 0 ?f cv ds ns] sp il(2) by simp
  then have "fl_activate_window cv w f = Some (?f\<lparr>fl_tiles := ds @ fl_tiles f ! i # ns\<rparr>, True)"
    using assms(3) il by (simp add: fl_activate_window_def raise_window_def)
  moreover have "stacked (child_of cv) (remove_at i (fl_tiles f))"
    using stacked_remove_at fl_okD(1) [OF assms(2)] by blast
  ultimately show ?thesis
    using split_descendants_stacked [OF sp] split_descendants_descend [OF sp] sp
    by (intro exI [of _ "?f\<lparr>fl_tiles := ds @ fl_tiles f ! i # ns\<rparr>"] exI [of _ ds] exI [of _ ns]) auto
qed

lemma activating_raises_the_family_witness:
  "\<exists>f'. fl_activate_window demo_clients 1 demo_floating = Some (f', True) \<and>
     fl_windows f' = [3, 2, 1, 4, 5, 6]"
proof -
  have "idx_of 1 demo_floating = Some 4" by (simp add: fl_demo idx_of_def)
  from activating_raises_the_family [OF demo_clients_acyclic demo_floating_ok this]
  show ?thesis by (auto simp: fl_demo fl_windows_def remove_at_def)
qed

text \<open>
  C17. When windows become children of a floating window they can lie below it. The call to
  \<open>descendants_added\<close> that follows repairs the stacking whatever the number of new
  children: it is enough that all pairs of windows other than the ones with that parent were
  stacked correctly before.
\<close>

theorem new_children_are_restacked:
  assumes "parents_acyclic cv" "idx_of w f = Some i"
    and "stacked_except (child_of cv) i (fl_tiles f)"
    and "list_all (\<lambda>t. pending_mode t = ModeNormal) (fl_tiles f)"
    and "fl_active f = Some a" "a \<in> set (fl_windows f)" "fl_resize f = None"
  shows "\<exists>f'. descendants_added cv w f = Some (f', True) \<and> fl_ok cv f' \<and>
           mset (fl_windows f') = mset (fl_windows f) \<and> fl_active f' = fl_active f"
  using descendants_added_returns [OF assms(1-4)] assms(5-7)
  by (auto simp: fl_mset_def elim!: returnsE)

lemma new_children_are_restacked_witness:
  "\<exists>f'. descendants_added demo_clients 1
         \<lparr>fl_tiles = map demo_tile_of [5, 1, 4, 3, 2, 6], fl_active = Some 5, fl_resize = None\<rparr>
           = Some (f', True) \<and> fl_ok demo_clients f' \<and>
       mset (fl_windows f') = mset [5, 1, 4, 3, 2, 6]"
proof -
  let ?f = "\<lparr>fl_tiles = map demo_tile_of [5, 1, 4, 3, 2, 6], fl_active = Some 5, fl_resize = None\<rparr>"
  have "\<exists>f'. descendants_added demo_clients 1 ?f = Some (f', True) \<and> fl_ok demo_clients f' \<and>
      mset (fl_windows f') = mset (fl_windows ?f) \<and> fl_active f' = fl_active ?f"
    by (rule new_children_are_restacked [OF demo_clients_acyclic, of 1 ?f 1 5])
      (simp_all add: idx_of_def stacked_except_def stacked_def fl_windows_def fl_demo)
  moreover have "fl_windows ?f = [5, 1, 4, 3, 2, 6]" by (simp add: fl_windows_def fl_demo)
  ultimately show ?thesis by metis
qed

text \<open>
  C18. Directional focus in the floating layer goes to the nearest window on that side, by
  the distance of the centres along the axis, and reports false exactly when there is none.
\<close>

theorem focus_left_goes_to_nearest:
  assumes "parents_acyclic cv" "fl_ok cv f" "fl_active f = Some a"
  shows "\<exists>f' b. fl_focus_left cv f = Some (f', b) \<and>
           (b \<longleftrightarrow> (\<exists>w \<in> set (fl_windows f). fst (tile_center cv w) < fst (tile_center cv a))) \<and>
           (if b then \<exists>w \<in> set (fl_windows f). fl_active f' = Some w \<and>
                   fst (tile_center cv w) < fst (tile_center cv a) \<and>
                   (\<forall>v \<in> set (fl_windows f). \<not> (fst (tile_center cv w) < fst (tile_center cv v) \<and>
                                               fst (tile_center cv v) < fst (tile_center cv a)))
            else f' = f)"
proof -
  let ?x = "\<lambda>w. fst (tile_center cv w)"
  from focus_directional_returns [OF assms(1,2), of "\<lambda>focus other. fst focus - fst other"] assms(3)
  obtain f' b where r: "fl_focus_left cv f = Some (f', b)"
    "b \<longleftrightarrow> {w \<in> set (fl_windows f). w \<noteq> a \<and> 0 < ?x a - ?x w} \<noteq> {}"
    "b \<longrightarrow> (\<exists>w \<in> {w \<in> set (fl_windows f). w \<noteq> a \<and> 0 < ?x a - ?x w}. fl_active f' = Some w \<and>
       (\<forall>v \<in> {w \<in> set (fl_windows f). w \<noteq> a \<and> 0 < ?x a - ?x w}. ?x a - ?x w \<le> ?x a - ?x v))"
    "\<not> b \<longrightarrow> f' = f"
    by (auto simp: fl_focus_left_def Let_def elim!: returnsE)
  have "(\<exists>w \<in> set (fl_windows f). ?x w < ?x a) \<longleftrightarrow> b" using r(2) by auto
  moreover have "\<exists>w \<in> set (fl_windows f). fl_active f' = Some w \<and> ?x w < ?x a \<and>
      (\<forall>v \<in> set (fl_windows f). \<not> (?x w < ?x v \<and> ?x v < ?x a))" if b
    using r(3) that by force
  ultimately show ?thesis using r(1,4) by auto
qed

lemma focus_left_goes_to_nearest_witness:
  "\<exists>f' b. fl_focus_left demo_clients demo_floating = Some (f', b) \<and> b"
proof -
  have "fl_active demo_floating = Some 4" by (simp add: fl_demo)
  from focus_left_goes_to_nearest [OF demo_clients_acyclic demo_floating_ok this]
  show ?thesis by (auto simp: fl_demo fl_windows_def)
qed

end
