(* ===== verification/Outputs.thy ===== *)
theory Outputs
  imports Prelude
begin

text \<open>
  Output names and how a workspace remembers its outputs: \<open>OutputName\<close> of
  \<open>niri-config/src/output.rs\<close> and \<open>OutputId\<close> of \<open>src/layout/workspace.rs\<close>.

  A Rust string is the list of its UTF-8 bytes, so \<open>str::get(..n)\<close> fails past the end and
  inside a character. An \<open>Output\<close> is an object of the Smithay library that carries its
  name; two handles are equal when they are the same object, which is the number \<open>out_handle\<close>.
\<close>

section \<open>Strings\<close>

definition byte :: "char \<Rightarrow> nat" where
  "byte c = of_char c"

definition ascii_lower :: "char \<Rightarrow> char" where
  "ascii_lower c = (if 65 \<le> byte c \<and> byte c \<le> 90 then char_of (byte c + 32) else c)"

definition eq_ignore_ascii_case :: "string \<Rightarrow> string \<Rightarrow> bool" where
  "eq_ignore_ascii_case s t \<longleftrightarrow> map ascii_lower s = map ascii_lower t"

definition is_char_boundary :: "string \<Rightarrow> nat \<Rightarrow> bool" where
  "is_char_boundary s n \<longleftrightarrow>
     n = 0 \<or> n = length s \<or> (n < length s \<and> \<not> (128 \<le> byte (s ! n) \<and> byte (s ! n) < 192))"

text \<open>\<open>s.get(..n)\<close> and \<open>&s[n..]\<close>\<close>

definition str_get :: "nat \<Rightarrow> string \<Rightarrow> string option" where
  "str_get n s = (if is_char_boundary s n then Some (take n s) else None)"

section \<open>Names\<close>

record output_name =
  on_connector :: string
  on_make :: "string option"
  on_model :: "string option"
  on_serial :: "string option"

definition unwrap_or_unknown :: "string option \<Rightarrow> string" where
  "unwrap_or_unknown s = (case s of Some x \<Rightarrow> x | None \<Rightarrow> ''Unknown'')"

definition missing_make_model_serial :: "output_name \<Rightarrow> bool" where
  "missing_make_model_serial n \<longleftrightarrow> on_make n = None \<and> on_model n = None \<and> on_serial n = None"

definition format_make_model_serial :: "output_name \<Rightarrow> string" where
  "format_make_model_serial n =
     unwrap_or_unknown (on_make n) @ '' '' @ unwrap_or_unknown (on_model n) @ '' '' @
     unwrap_or_unknown (on_serial n)"

definition format_make_model_serial_or_connector :: "output_name \<Rightarrow> string" where
  "format_make_model_serial_or_connector n =
     (if missing_make_model_serial n then on_connector n else format_make_model_serial n)"

text \<open>
  The step \<open>matches\<close> takes for the make and again for the model: the field, ignoring case,
  then a space; the rest of the string follows.
\<close>

definition strip_field :: "string \<Rightarrow> string \<Rightarrow> string option" where
  "strip_field field target =
     do {
       target_field \<leftarrow> str_get (length field) target;
       let rest = drop (length field) target;
       if \<not> eq_ignore_ascii_case target_field field then None
       else if take 1 rest \<noteq> '' '' then None
       else Some (drop 1 rest)
     }"

definition name_matches :: "output_name \<Rightarrow> string \<Rightarrow> bool" where
  "name_matches n target =
     (if eq_ignore_ascii_case target (on_connector n) then True
      else if missing_make_model_serial n then False
      else
        (case strip_field (unwrap_or_unknown (on_make n)) target of
           None \<Rightarrow> False
         | Some rest \<Rightarrow>
             (case strip_field (unwrap_or_unknown (on_model n)) rest of
                None \<Rightarrow> False
              | Some rest \<Rightarrow> eq_ignore_ascii_case rest (unwrap_or_unknown (on_serial n)))))"

section \<open>Outputs of a workspace\<close>

record wl_output =
  out_handle :: nat
  out_name :: output_name

type_synonym output_id = string

definition output_id_new :: "wl_output \<Rightarrow> output_id" where
  "output_id_new out = format_make_model_serial_or_connector (out_name out)"

definition output_id_matches :: "output_id \<Rightarrow> wl_output \<Rightarrow> bool" where
  "output_id_matches oid out = name_matches (out_name out) oid"

text \<open>\<open>normalize_original_outputs\<close>: rename the entries for this output, then drop later duplicates\<close>

fun drop_duplicates :: "nat \<Rightarrow> 'a list \<Rightarrow> 'a list" where
  "drop_duplicates 0 outs = outs"
| "drop_duplicates (Suc idx) outs =
     drop_duplicates idx
       (if outs ! idx \<in> set (take idx outs) then remove_at idx outs else outs)"

definition normalize_original_outputs :: "output_id list \<Rightarrow> wl_output \<Rightarrow> output_id list" where
  "normalize_original_outputs outs out =
     (let outs = map (\<lambda>oid. if output_id_matches oid out then output_id_new out else oid) outs
      in drop_duplicates (length outs) outs)"

text \<open>\<open>find_preferred_output\<close>: the first original output that is among the given ones\<close>

fun find_preferred_output :: "output_id list \<Rightarrow> wl_output list \<Rightarrow> nat option" where
  "find_preferred_output [] outs = None"
| "find_preferred_output (oid # oids) outs =
     (case position (output_id_matches oid) outs of
        Some i \<Rightarrow> Some i
      | None \<Rightarrow> find_preferred_output oids outs)"

section \<open>Matching a name\<close>

lemma eq_ignore_refl [simp]: "eq_ignore_ascii_case s s"
  by (simp add: eq_ignore_ascii_case_def)

lemma eq_ignore_length: "eq_ignore_ascii_case s t \<Longrightarrow> length s = length t"
  unfolding eq_ignore_ascii_case_def by (drule arg_cong [of _ _ length]) simp

lemma eq_ignore_append:
  "length s = length t \<Longrightarrow> eq_ignore_ascii_case (s @ s') (t @ t') \<longleftrightarrow>
     eq_ignore_ascii_case s t \<and> eq_ignore_ascii_case s' t'"
  by (simp add: eq_ignore_ascii_case_def)

lemma byte_char_of [simp]: "n < 256 \<Longrightarrow> byte (char_of n) = n"
  by (simp add: byte_def)

lemma ascii_lower_space: "ascii_lower c = CHR '' '' \<longleftrightarrow> c = CHR '' ''"
proof
  assume a: "ascii_lower c = CHR '' ''"
  show "c = CHR '' ''"
  proof (cases "65 \<le> byte c \<and> byte c \<le> 90")
    case True
    then have "byte (ascii_lower c) = byte c + 32" by (simp add: ascii_lower_def)
    with a True show ?thesis by (simp add: byte_def)
  next
    case False
    with a show ?thesis by (simp add: ascii_lower_def)
  qed
qed (simp add: ascii_lower_def byte_def)

lemma ascii_lower_of_space [simp]: "ascii_lower (CHR '' '') = CHR '' ''"
  by (simp add: ascii_lower_space)

lemma eq_ignore_space: "eq_ignore_ascii_case (c # s) (CHR '' '' # t) \<longleftrightarrow>
    c = CHR '' '' \<and> eq_ignore_ascii_case s t"
  by (auto simp: eq_ignore_ascii_case_def ascii_lower_space)

lemma boundary_space: "n < length s \<Longrightarrow> s ! n = CHR '' '' \<Longrightarrow> is_char_boundary s n"
  by (simp add: is_char_boundary_def byte_def)

lemma strip_field_iff:
  "strip_field field target = Some rest \<longleftrightarrow>
     (\<exists>p. target = p @ '' '' @ rest \<and> eq_ignore_ascii_case p field)"
  (is "?l \<longleftrightarrow> ?r")
proof
  assume ?l
  then have p: "eq_ignore_ascii_case (take (length field) target) field"
    and sp: "take 1 (drop (length field) target) = '' ''"
    and rest: "rest = drop 1 (drop (length field) target)"
    by (auto simp: strip_field_def str_get_def Let_def split: if_splits)
  from sp rest have "drop (length field) target = '' '' @ rest"
    by (metis append_take_drop_id)
  then have "target = take (length field) target @ '' '' @ rest"
    by (metis append_take_drop_id)
  with p show ?r by blast
next
  assume ?r
  then obtain p where t: "target = p @ '' '' @ rest" "eq_ignore_ascii_case p field" by blast
  have len: "length p = length field" using eq_ignore_length t(2) .
  have "is_char_boundary target (length field)"
    unfolding t(1) len [symmetric] by (rule boundary_space) simp_all
  with t len show ?l by (simp add: strip_field_def str_get_def)
qed

lemma eq_ignore_field:
  "eq_ignore_ascii_case t (f @ '' '' @ g) \<longleftrightarrow>
     (\<exists>rest. strip_field f t = Some rest \<and> eq_ignore_ascii_case rest g)"
  (is "?l \<longleftrightarrow> ?r")
proof
  assume e: ?l
  then have len: "length t = length f + 1 + length g" using eq_ignore_length by fastforce
  then obtain c r where cr: "drop (length f) t = c # r" by (cases "drop (length f) t") auto
  have t: "t = take (length f) t @ c # r" using cr by (metis append_take_drop_id)
  have "length (take (length f) t) = length f" using len by simp
  from eq_ignore_append [OF this, of "c # r" "'' '' @ g"] e t
  have "eq_ignore_ascii_case (take (length f) t) f" "eq_ignore_ascii_case (c # r) (CHR '' '' # g)"
    by simp_all
  then have "c = CHR '' ''" "eq_ignore_ascii_case r g" by (simp_all add: eq_ignore_space)
  with t \<open>eq_ignore_ascii_case (take (length f) t) f\<close> show ?r
    by (auto simp: strip_field_iff)
next
  assume ?r
  then obtain p rest where "t = p @ '' '' @ rest" "eq_ignore_ascii_case p f" "eq_ignore_ascii_case rest g"
    by (auto simp: strip_field_iff)
  then show ?l using eq_ignore_length [of p f]
    by (simp add: eq_ignore_append eq_ignore_space)
qed

lemma name_matches_iff:
  "name_matches n target \<longleftrightarrow>
     eq_ignore_ascii_case target (on_connector n) \<or>
     (\<not> missing_make_model_serial n \<and> eq_ignore_ascii_case target (format_make_model_serial n))"
  by (auto simp: name_matches_def format_make_model_serial_def eq_ignore_field
      simp del: append_Cons append_Nil split: option.splits)

section \<open>Normalising the original outputs\<close>

lemma output_id_new_matches [simp]: "output_id_matches (output_id_new out) out"
  by (simp add: output_id_matches_def output_id_new_def name_matches_iff
      format_make_model_serial_or_connector_def)

lemma drop_duplicates_eq:
  "idx \<le> length outs \<Longrightarrow>
   drop_duplicates idx outs = rev (remdups (rev (take idx outs))) @ drop idx outs"
proof (induction idx arbitrary: outs)
  case 0
  then show ?case by simp
next
  case (Suc idx)
  let ?outs = "if outs ! idx \<in> set (take idx outs) then remove_at idx outs else outs"
  have take: "take idx ?outs = take idx outs"
    using Suc.prems by (simp add: remove_at_def min_def)
  have drop: "drop idx ?outs =
      (if outs ! idx \<in> set (take idx outs) then drop (Suc idx) outs else outs ! idx # drop (Suc idx) outs)"
    using Suc.prems by (simp add: remove_at_def Cons_nth_drop_Suc)
  have "idx \<le> length ?outs" using Suc.prems by auto
  from Suc.IH [OF this] have "drop_duplicates (Suc idx) outs =
      rev (remdups (rev (take idx outs))) @ drop idx ?outs" by (simp add: take)
  moreover have "take (Suc idx) outs = take idx outs @ [outs ! idx]"
    using Suc.prems by (simp add: take_Suc_conv_app_nth)
  ultimately show ?case by (simp add: drop)
qed

lemma drop_duplicates_all: "drop_duplicates (length outs) outs = rev (remdups (rev outs))"
  by (simp add: drop_duplicates_eq)

lemma normalize_set:
  "set (normalize_original_outputs outs out) =
     (\<lambda>oid. if output_id_matches oid out then output_id_new out else oid) ` set outs"
  "distinct (normalize_original_outputs outs out)"
  by (simp_all add: normalize_original_outputs_def Let_def drop_duplicates_all)

lemma find_preferred_output_Some:
  "find_preferred_output oids outs = Some i \<Longrightarrow>
     i < length outs \<and> (\<exists>oid \<in> set oids. output_id_matches oid (outs ! i))"
  by (induction oids) (auto split: option.splits dest: position_SomeD)

lemma find_preferred_output_None:
  "find_preferred_output oids outs = None \<longleftrightarrow>
     (\<forall>oid \<in> set oids. \<forall>out \<in> set outs. \<not> output_id_matches oid out)"
proof (induction oids)
  case (Cons oid oids)
  show ?case
  proof (cases "position (output_id_matches oid) outs")
    case None
    moreover from None have "\<forall>out \<in> set outs. \<not> output_id_matches oid out"
      by (simp only: position_None)
    ultimately show ?thesis using Cons by simp
  next
    case (Some i)
    then have "outs ! i \<in> set outs" "output_id_matches oid (outs ! i)"
      using position_SomeD by fastforce+
    with Some show ?thesis by auto
  qed
qed simp

section \<open>Properties\<close>

text \<open>
  C19. An output matches a configured name exactly when the name is its connector or its
  make, model and serial written with single spaces, ignoring the case of ASCII letters;
  slicing the name by the lengths of the fields never cuts a character, so it never panics.
\<close>

theorem output_name_matches_exactly:
  "name_matches n target \<longleftrightarrow>
     eq_ignore_ascii_case target (on_connector n) \<or>
     eq_ignore_ascii_case target (format_make_model_serial n) \<and>
       {on_make n, on_model n, on_serial n} \<noteq> {None}"
  by (auto simp: name_matches_iff missing_make_model_serial_def)

lemma position_snoc:
  "position P (xs @ [x]) = (case position P xs of Some i \<Rightarrow> Some i | None \<Rightarrow> if P x then Some (length xs) else None)"
proof (cases "position P xs")
  case None
  show ?thesis
  proof (cases "P x")
    case True
    have "position P (xs @ [x]) = Some (length xs)"
      using None True by (intro position_SomeI) (auto simp: position_None nth_append)
    with None True show ?thesis by simp
  next
    case False
    with None have "position P (xs @ [x]) = None" by (simp add: position_None)
    with None False show ?thesis by simp
  qed
next
  case (Some i)
  note d = position_SomeD [OF Some]
  have "position P (xs @ [x]) = Some i" by (rule position_SomeI) (use d in \<open>auto simp: nth_append\<close>)
  with Some show ?thesis by simp
qed

text \<open>Going through the entries in order, their first occurrences before the removal ascend\<close>

lemma position_bound: "x \<in> set xs \<Longrightarrow> \<exists>i < length xs. position ((=) x) xs = Some i"
  using position_None [of "(=) x" xs] position_SomeD [of "(=) x" xs] by (cases "position ((=) x) xs") auto

lemma first_occurrences_ascend: "sorted (map (\<lambda>x. the (position ((=) x) xs)) (rev (remdups (rev xs))))"
proof (induction xs rule: rev_induct)
  case (snoc z xs)
  have same: "position ((=) x) (xs @ [z]) = position ((=) x) xs" if "x \<in> set xs" for x
    using position_bound [OF that] by (auto simp: position_snoc)
  have old: "map (\<lambda>x. the (position ((=) x) (xs @ [z]))) (rev (remdups (rev xs))) =
      map (\<lambda>x. the (position ((=) x) xs)) (rev (remdups (rev xs)))"
    by (rule map_cong) (simp_all add: same)
  show ?case
  proof (cases "z \<in> set xs")
    case True
    then have "rev (remdups (rev (xs @ [z]))) = rev (remdups (rev xs))" by simp
    with snoc old show ?thesis by argo
  next
    case False
    then have "position ((=) z) xs = None" by (auto simp: position_None)
    then have "the (position ((=) z) (xs @ [z])) = length xs" by (simp add: position_snoc)
    moreover have "the (position ((=) x) xs) < length xs" if "x \<in> set xs" for x using position_bound [OF that] by auto
    moreover have "sorted (map (\<lambda>x. the (position ((=) x) (xs @ [z]))) (rev (remdups (rev xs))))" using snoc old by argo
    moreover have "rev (remdups (rev (xs @ [z]))) = rev (remdups (rev xs)) @ [z]" using False by simp
    ultimately show ?thesis by (auto simp: sorted_append same less_imp_le)
  qed
qed simp

text \<open>
  C20. Normalising the remembered outputs of a workspace for an output it is put on renames
  every entry that stands for that output to its canonical name and drops all but the first of
  equal entries: the result has no duplicates, its entries are those of the renamed list in the
  order in which they first occur there, and doing it again changes nothing.
\<close>

theorem normalize_original_outputs_canonical:
  "let renamed = map (\<lambda>oid. if output_id_matches oid out then output_id_new out else oid) outs;
       n = normalize_original_outputs outs out
   in distinct n \<and> set n = set renamed \<and> sorted (map (\<lambda>oid. the (position ((=) oid) renamed)) n) \<and>
      normalize_original_outputs n out = n"
proof -
  let ?f = "\<lambda>oid. if output_id_matches oid out then output_id_new out else oid"
  let ?n = "normalize_original_outputs outs out"
  have "map ?f ?n = ?n"
    by (rule map_idI) (use normalize_set(1) [of outs out] in auto)
  moreover have "distinct ?n" by (rule normalize_set(2))
  ultimately have "normalize_original_outputs ?n out = ?n"
    by (simp add: normalize_original_outputs_def [of ?n] Let_def drop_duplicates_all distinct_remdups_id)
  moreover have "sorted (map (\<lambda>oid. the (position ((=) oid) (map ?f outs))) ?n)"
    unfolding normalize_original_outputs_def Let_def drop_duplicates_all by (rule first_occurrences_ascend)
  ultimately show ?thesis by (simp add: Let_def normalize_set)
qed

end
