(* ===== verification/Workspace.thy ===== *)
theory Workspace
  imports ScrollingMoves Floating Outputs
begin

text \<open>
  \<open>src/layout/workspace.rs\<close>: one workspace, a scrolling space and a floating layer with the
  flag that says which of them has the focus, its name, its hidden state and the outputs it
  remembers. Most operations dispatch to one of the two spaces.
\<close>

section \<open>State\<close>

datatype floating_active = FloatingNo | NoButRaised | FloatingYes

text \<open>The part of \<open>niri_config::LayoutPart\<close> that the options kept here depend on\<close>

record layout_part =
  lp_default_column_display :: "column_display option"
  lp_empty_workspace_above_first :: "bool option"
  lp_main_axis_vertical :: "bool option"

definition with_merged_layout :: "layout_part option \<Rightarrow> options \<Rightarrow> options" where
  "with_merged_layout part opts =
     (case part of
        None \<Rightarrow> opts
      | Some p \<Rightarrow> opts
          \<lparr>default_column_display :=
             (case lp_default_column_display p of Some d \<Rightarrow> d | None \<Rightarrow> default_column_display opts),
           empty_workspace_above_first :=
             (case lp_empty_workspace_above_first p of Some b \<Rightarrow> b | None \<Rightarrow> empty_workspace_above_first opts),
           main_axis_vertical :=
             (case lp_main_axis_vertical p of Some v \<Rightarrow> v | None \<Rightarrow> main_axis_vertical opts)\<rparr>)"

record workspace_config =
  cfg_name :: string
  cfg_open_on_output :: "string list"
  cfg_hidden :: "bool option"
  cfg_layout :: "layout_part option"

record workspace =
  ws_scrolling :: scrolling
  ws_floating :: floating
  floating_is_active :: floating_active
  original_outputs :: "output_id list"
  ws_output :: "wl_output option"
  base_options :: options
  ws_options :: options
  ws_name :: "string option"
  layout_config :: "layout_part option"
  ws_id :: nat
  original_idx :: "nat option"
  ws_hidden :: bool
  needs_hidden :: bool

text \<open>The workspace id comes from a global counter; it is an argument here\<close>

definition new_with_config ::
  "nat \<Rightarrow> wl_output \<Rightarrow> workspace_config option \<Rightarrow> options \<Rightarrow> workspace" where
  "new_with_config fresh_id out config opts =
     (let outs = (case config of Some c \<Rightarrow> cfg_open_on_output c | None \<Rightarrow> []);
          outs = (if outs = [] then [output_id_new out] else normalize_original_outputs outs out);
          part = (case config of Some c \<Rightarrow> cfg_layout c | None \<Rightarrow> None)
      in \<lparr>ws_scrolling = empty_scrolling, ws_floating = empty_floating,
          floating_is_active = FloatingNo, original_outputs = outs, ws_output = Some out,
          base_options = opts, ws_options = with_merged_layout part opts,
          ws_name = map_option cfg_name config, layout_config = part, ws_id = fresh_id,
          original_idx = None,
          ws_hidden = (case config of Some c \<Rightarrow> cfg_hidden c = Some True | None \<Rightarrow> False),
          needs_hidden = False\<rparr>)"

definition new_with_config_no_outputs ::
  "nat \<Rightarrow> workspace_config option \<Rightarrow> options \<Rightarrow> workspace" where
  "new_with_config_no_outputs fresh_id config opts =
     (let part = (case config of Some c \<Rightarrow> cfg_layout c | None \<Rightarrow> None)
      in \<lparr>ws_scrolling = empty_scrolling, ws_floating = empty_floating,
          floating_is_active = FloatingNo,
          original_outputs = (case config of Some c \<Rightarrow> cfg_open_on_output c | None \<Rightarrow> []),
          ws_output = None, base_options = opts, ws_options = with_merged_layout part opts,
          ws_name = map_option cfg_name config, layout_config = part, ws_id = fresh_id,
          original_idx = None,
          ws_hidden = (case config of Some c \<Rightarrow> cfg_hidden c = Some True | None \<Rightarrow> False),
          needs_hidden = False\<rparr>)"

definition workspace_new :: "nat \<Rightarrow> wl_output \<Rightarrow> options \<Rightarrow> workspace" where
  "workspace_new fresh_id out opts = new_with_config fresh_id out None opts"

definition workspace_new_no_outputs :: "nat \<Rightarrow> options \<Rightarrow> workspace" where
  "workspace_new_no_outputs fresh_id opts = new_with_config_no_outputs fresh_id None opts"

definition floating_active_get :: "workspace \<Rightarrow> bool" where
  "floating_active_get ws \<longleftrightarrow> floating_is_active ws = FloatingYes"

definition ws_windows :: "workspace \<Rightarrow> win_id list" where
  "ws_windows ws = scrolling_windows (ws_scrolling ws) @ fl_windows (ws_floating ws)"

definition ws_has_windows :: "workspace \<Rightarrow> bool" where
  "ws_has_windows ws \<longleftrightarrow> ws_windows ws \<noteq> []"

definition ws_has_window :: "win_id \<Rightarrow> workspace \<Rightarrow> bool" where
  "ws_has_window w ws \<longleftrightarrow> w \<in> set (ws_windows ws)"

definition has_windows_or_name :: "workspace \<Rightarrow> bool" where
  "has_windows_or_name ws \<longleftrightarrow> ws_has_windows ws \<or> ws_name ws \<noteq> None"

definition ws_unname :: "workspace \<Rightarrow> workspace" where
  "ws_unname ws = ws\<lparr>ws_name := None\<rparr>"

definition ws_is_floating :: "win_id \<Rightarrow> workspace \<Rightarrow> bool" where
  "ws_is_floating w ws = fl_has_window w (ws_floating ws)"

definition ws_active_window :: "workspace \<Rightarrow> win_id option option" where
  "ws_active_window ws =
     (if floating_active_get ws then Some (fl_active_window (ws_floating ws))
      else scrolling_active_window (ws_scrolling ws))"

definition ws_set_output :: "wl_output option \<Rightarrow> workspace \<Rightarrow> workspace" where
  "ws_set_output out ws =
     (if ws_output ws = out then ws
      else
        (case out of
           None \<Rightarrow> ws\<lparr>ws_output := None\<rparr>
         | Some o' \<Rightarrow> ws
             \<lparr>ws_output := Some o',
              original_outputs :=
                (if original_outputs ws = [] then [output_id_new o']
                 else normalize_original_outputs (original_outputs ws) o')\<rparr>))"

definition ws_update_config :: "options \<Rightarrow> workspace \<Rightarrow> workspace" where
  "ws_update_config opts ws =
     ws\<lparr>base_options := opts, ws_options := with_merged_layout (layout_config ws) opts\<rparr>"

definition ws_update_layout_config :: "layout_part option \<Rightarrow> workspace \<Rightarrow> workspace" where
  "ws_update_layout_config part ws =
     (if layout_config ws = part then ws
      else ws_update_config (base_options ws) (ws\<lparr>layout_config := part\<rparr>))"

section \<open>Running an operation of one of the two spaces\<close>

definition on_scrolling :: "(scrolling \<Rightarrow> scrolling option) \<Rightarrow> workspace \<Rightarrow> workspace option" where
  "on_scrolling f ws = do { s \<leftarrow> f (ws_scrolling ws); Some (ws\<lparr>ws_scrolling := s\<rparr>) }"

definition on_floating :: "(floating \<Rightarrow> floating option) \<Rightarrow> workspace \<Rightarrow> workspace option" where
  "on_floating f ws = do { s \<leftarrow> f (ws_floating ws); Some (ws\<lparr>ws_floating := s\<rparr>) }"

definition on_scrolling_flag ::
  "(scrolling \<Rightarrow> (scrolling \<times> bool) option) \<Rightarrow> workspace \<Rightarrow> (workspace \<times> bool) option" where
  "on_scrolling_flag f ws = do { (s, b) \<leftarrow> f (ws_scrolling ws); Some (ws\<lparr>ws_scrolling := s\<rparr>, b) }"

definition on_floating_flag ::
  "(floating \<Rightarrow> (floating \<times> bool) option) \<Rightarrow> workspace \<Rightarrow> (workspace \<times> bool) option" where
  "on_floating_flag f ws = do { (s, b) \<leftarrow> f (ws_floating ws); Some (ws\<lparr>ws_floating := s\<rparr>, b) }"

definition focus_tiling_if :: "bool \<Rightarrow> workspace \<Rightarrow> workspace" where
  "focus_tiling_if activate ws = (if activate then ws\<lparr>floating_is_active := FloatingNo\<rparr> else ws)"

definition focus_floating_if :: "bool \<Rightarrow> workspace \<Rightarrow> workspace" where
  "focus_floating_if activate ws =
     (if activate \<or> columns (ws_scrolling ws) = [] then ws\<lparr>floating_is_active := FloatingYes\<rparr> else ws)"

section \<open>Adding and removing\<close>

datatype add_window_target = Auto | NewColumnAt nat | NextTo win_id

definition ws_add_tile ::
  "client_view \<Rightarrow> tile \<Rightarrow> add_window_target \<Rightarrow> activate_request \<Rightarrow> column_width \<Rightarrow> bool \<Rightarrow> bool
   \<Rightarrow> workspace \<Rightarrow> workspace option" where
  "ws_add_tile cv t target activate width full is_floating ws =
     (let t = t\<lparr>restore_to_floating := is_floating\<rparr>;
          floats = (is_floating \<and> pending_mode t = ModeNormal) in
      case target of
        Auto \<Rightarrow> do {
          activate \<leftarrow> map_smart activate
              (map_option Not (is_active_pending_fullscreen (ws_scrolling ws)));
          if floats then do {
            ws \<leftarrow> on_floating (fl_add_tile cv t activate) ws;
            Some (focus_floating_if activate ws)
          } else do {
            ws \<leftarrow> on_scrolling (add_tile (ws_options ws) None t activate width full) ws;
            Some (focus_tiling_if activate ws)
          }
        }
      | NewColumnAt col_idx \<Rightarrow> do {
          activate \<leftarrow> map_smart activate (Some False);
          ws \<leftarrow> on_scrolling (add_tile (ws_options ws) (Some col_idx) t activate width full) ws;
          Some (focus_tiling_if activate ws)
        }
      | NextTo next_to \<Rightarrow> do {
          activate \<leftarrow> map_smart activate
              (do { active \<leftarrow> ws_active_window ws; w \<leftarrow> active; Some (w = next_to) });
          let floating_has_window = fl_has_window next_to (ws_floating ws);
          if floats then do {
            ws \<leftarrow> (if floating_has_window
                   then on_floating (fl_add_tile_above cv next_to t activate) ws
                   else do {
                     _ \<leftarrow> position (column_contains next_to) (columns (ws_scrolling ws));
                     on_floating (fl_add_tile cv t activate) ws
                   });
            Some (focus_floating_if activate ws)
          } else if floating_has_window then do {
            ws \<leftarrow> on_scrolling (add_tile (ws_options ws) None t activate width full) ws;
            Some (focus_tiling_if activate ws)
          } else do {
            ws \<leftarrow> on_scrolling (add_tile_right_of (ws_options ws) next_to t activate width full) ws;
            Some (focus_tiling_if activate ws)
          }
        })"

definition ws_add_tile_to_column ::
  "nat \<Rightarrow> nat option \<Rightarrow> tile \<Rightarrow> bool \<Rightarrow> workspace \<Rightarrow> workspace option" where
  "ws_add_tile_to_column col_idx tile_idx t activate ws =
     do {
       ws \<leftarrow> on_scrolling (add_tile_to_column col_idx tile_idx t activate) ws;
       Some (focus_tiling_if activate ws)
     }"

definition ws_add_column :: "column \<Rightarrow> bool \<Rightarrow> workspace \<Rightarrow> workspace option" where
  "ws_add_column c activate ws =
     do {
       ws \<leftarrow> on_scrolling (add_column None c activate) ws;
       Some (focus_tiling_if activate ws)
     }"

definition update_focus_floating_tiling_after_removing :: "bool \<Rightarrow> workspace \<Rightarrow> workspace" where
  "update_focus_floating_tiling_after_removing removed_from_floating ws =
     (if removed_from_floating then
        (if fl_tiles (ws_floating ws) = [] then ws\<lparr>floating_is_active := FloatingNo\<rparr> else ws)
      else if columns (ws_scrolling ws) = [] \<and> fl_tiles (ws_floating ws) \<noteq> []
      then ws\<lparr>floating_is_active := FloatingYes\<rparr> else ws)"

definition ws_remove_tile ::
  "client_view \<Rightarrow> win_id \<Rightarrow> workspace \<Rightarrow> (removed_tile \<times> workspace) option" where
  "ws_remove_tile cv w ws =
     (if fl_has_window w (ws_floating ws) then do {
        (r, f) \<leftarrow> fl_remove_tile cv w (ws_floating ws);
        Some (r, update_focus_floating_tiling_after_removing True (ws\<lparr>ws_floating := f\<rparr>))
      } else do {
        (r, s) \<leftarrow> remove_tile w (ws_scrolling ws);
        Some (r, update_focus_floating_tiling_after_removing False (ws\<lparr>ws_scrolling := s\<rparr>))
      })"

definition ws_remove_active_column :: "workspace \<Rightarrow> (column option \<times> workspace) option" where
  "ws_remove_active_column ws =
     (if floating_active_get ws then Some (None, ws)
      else do {
        (c, s) \<leftarrow> remove_active_column (ws_scrolling ws);
        case c of
          None \<Rightarrow> Some (None, ws\<lparr>ws_scrolling := s\<rparr>)
        | Some c \<Rightarrow>
            Some (Some c, update_focus_floating_tiling_after_removing False (ws\<lparr>ws_scrolling := s\<rparr>))
      })"

section \<open>Focus\<close>

definition switch_focus_floating_tiling :: "workspace \<Rightarrow> workspace" where
  "switch_focus_floating_tiling ws =
     (if fl_tiles (ws_floating ws) = [] then ws
      else if columns (ws_scrolling ws) = [] then ws
      else ws\<lparr>floating_is_active := (if floating_active_get ws then FloatingNo else FloatingYes)\<rparr>)"

definition focus_floating :: "workspace \<Rightarrow> workspace" where
  "focus_floating ws = (if \<not> floating_active_get ws then switch_focus_floating_tiling ws else ws)"

definition focus_tiling :: "workspace \<Rightarrow> workspace" where
  "focus_tiling ws = (if floating_active_get ws then switch_focus_floating_tiling ws else ws)"

definition ws_vertical :: "workspace \<Rightarrow> bool" where
  "ws_vertical ws = main_axis_vertical (ws_options ws)"

text \<open>The four directions: floating by geometry, tiling along or across the main axis\<close>

definition ws_focus_left :: "client_view \<Rightarrow> workspace \<Rightarrow> (workspace \<times> bool) option" where
  "ws_focus_left cv ws =
     (if floating_active_get ws then on_floating_flag (fl_focus_left cv) ws
      else on_scrolling_flag (if ws_vertical ws then focus_up else focus_left) ws)"

definition ws_focus_right :: "client_view \<Rightarrow> workspace \<Rightarrow> (workspace \<times> bool) option" where
  "ws_focus_right cv ws =
     (if floating_active_get ws then on_floating_flag (fl_focus_right cv) ws
      else on_scrolling_flag (if ws_vertical ws then focus_down else focus_right) ws)"

definition ws_focus_down :: "client_view \<Rightarrow> workspace \<Rightarrow> (workspace \<times> bool) option" where
  "ws_focus_down cv ws =
     (if floating_active_get ws then on_floating_flag (fl_focus_down cv) ws
      else on_scrolling_flag (if ws_vertical ws then focus_right else focus_down) ws)"

definition ws_focus_up :: "client_view \<Rightarrow> workspace \<Rightarrow> (workspace \<times> bool) option" where
  "ws_focus_up cv ws =
     (if floating_active_get ws then on_floating_flag (fl_focus_up cv) ws
      else on_scrolling_flag (if ws_vertical ws then focus_left else focus_up) ws)"

definition focus_column_in_direction :: "client_view \<Rightarrow> bool \<Rightarrow> workspace \<Rightarrow> workspace option" where
  "focus_column_in_direction cv forward ws =
     map_option fst
       (if floating_active_get ws
        then on_floating_flag
          (if forward
           then (if ws_vertical ws then fl_focus_down cv else fl_focus_right cv)
           else (if ws_vertical ws then fl_focus_up cv else fl_focus_left cv)) ws
        else on_scrolling_flag (if forward then focus_right else focus_left) ws)"

definition ws_focus_column_first :: "client_view \<Rightarrow> workspace \<Rightarrow> workspace option" where
  "ws_focus_column_first cv ws =
     (if floating_active_get ws
      then on_floating (if ws_vertical ws then fl_focus_topmost cv else fl_focus_leftmost cv) ws
      else on_scrolling focus_column_first ws)"

definition ws_focus_column_last :: "client_view \<Rightarrow> workspace \<Rightarrow> workspace option" where
  "ws_focus_column_last cv ws =
     (if floating_active_get ws
      then on_floating (if ws_vertical ws then fl_focus_bottommost cv else fl_focus_rightmost cv) ws
      else on_scrolling focus_column_last ws)"

definition focus_column_right_or_first :: "client_view \<Rightarrow> workspace \<Rightarrow> workspace option" where
  "focus_column_right_or_first cv ws =
     do {
       (ws, changed) \<leftarrow> ws_focus_right cv ws;
       if changed then Some ws
       else if floating_active_get ws then on_floating (fl_focus_leftmost cv) ws
       else on_scrolling (if ws_vertical ws then focus_top else focus_column_first) ws
     }"

definition focus_column_left_or_last :: "client_view \<Rightarrow> workspace \<Rightarrow> workspace option" where
  "focus_column_left_or_last cv ws =
     do {
       (ws, changed) \<leftarrow> ws_focus_left cv ws;
       if changed then Some ws
       else if floating_active_get ws then on_floating (fl_focus_rightmost cv) ws
       else on_scrolling (if ws_vertical ws then focus_bottom else focus_column_last) ws
     }"

definition ws_focus_column :: "nat \<Rightarrow> workspace \<Rightarrow> workspace option" where
  "ws_focus_column index ws =
     on_scrolling (focus_column index) (if floating_active_get ws then focus_tiling ws else ws)"

definition tiling_only :: "(scrolling \<Rightarrow> scrolling option) \<Rightarrow> workspace \<Rightarrow> workspace option" where
  "tiling_only f ws = (if floating_active_get ws then Some ws else on_scrolling f ws)"

definition ws_focus_window_in_column :: "nat \<Rightarrow> workspace \<Rightarrow> workspace option" where
  "ws_focus_window_in_column index ws = tiling_only (focus_window_in_column index) ws"

definition focus_or_side ::
  "(workspace \<Rightarrow> (workspace \<times> bool) option) \<Rightarrow> (workspace \<Rightarrow> (workspace \<times> bool) option)
   \<Rightarrow> workspace \<Rightarrow> workspace option" where
  "focus_or_side first second ws =
     do {
       (ws, changed) \<leftarrow> first ws;
       if \<not> changed \<and> \<not> floating_active_get ws then map_option fst (second ws) else Some ws
     }"

definition ws_focus_down_or_left :: "client_view \<Rightarrow> workspace \<Rightarrow> workspace option" where
  "ws_focus_down_or_left cv = focus_or_side (ws_focus_down cv) (ws_focus_left cv)"

definition ws_focus_down_or_right :: "client_view \<Rightarrow> workspace \<Rightarrow> workspace option" where
  "ws_focus_down_or_right cv = focus_or_side (ws_focus_down cv) (ws_focus_right cv)"

definition ws_focus_up_or_left :: "client_view \<Rightarrow> workspace \<Rightarrow> workspace option" where
  "ws_focus_up_or_left cv = focus_or_side (ws_focus_up cv) (ws_focus_left cv)"

definition ws_focus_up_or_right :: "client_view \<Rightarrow> workspace \<Rightarrow> workspace option" where
  "ws_focus_up_or_right cv = focus_or_side (ws_focus_up cv) (ws_focus_right cv)"

definition focus_window_top :: "client_view \<Rightarrow> workspace \<Rightarrow> workspace option" where
  "focus_window_top cv ws =
     (if floating_active_get ws then on_floating (fl_focus_topmost cv) ws
      else on_scrolling (if ws_vertical ws then focus_column_first else focus_top) ws)"

definition focus_window_bottom :: "client_view \<Rightarrow> workspace \<Rightarrow> workspace option" where
  "focus_window_bottom cv ws =
     (if floating_active_get ws then on_floating (fl_focus_bottommost cv) ws
      else on_scrolling (if ws_vertical ws then focus_column_last else focus_bottom) ws)"

definition focus_window_down_or_top :: "client_view \<Rightarrow> workspace \<Rightarrow> workspace option" where
  "focus_window_down_or_top cv ws =
     do {
       (ws, changed) \<leftarrow> ws_focus_down cv ws;
       if changed then Some ws else focus_window_top cv ws
     }"

definition focus_window_up_or_bottom :: "client_view \<Rightarrow> workspace \<Rightarrow> workspace option" where
  "focus_window_up_or_bottom cv ws =
     do {
       (ws, changed) \<leftarrow> ws_focus_up cv ws;
       if changed then Some ws else focus_window_bottom cv ws
     }"

section \<open>Movement\<close>

definition floating_moved :: "workspace \<Rightarrow> (workspace \<times> bool) option" where
  "floating_moved ws = map_option (\<lambda>ws. (ws, True)) (on_floating (fl_move_window None) ws)"

definition ws_move_left :: "workspace \<Rightarrow> (workspace \<times> bool) option" where
  "ws_move_left ws =
     (if floating_active_get ws then floating_moved ws
      else on_scrolling_flag (if ws_vertical ws then move_up else move_left) ws)"

definition ws_move_right :: "workspace \<Rightarrow> (workspace \<times> bool) option" where
  "ws_move_right ws =
     (if floating_active_get ws then floating_moved ws
      else on_scrolling_flag (if ws_vertical ws then move_down else move_right) ws)"

definition ws_move_down :: "workspace \<Rightarrow> (workspace \<times> bool) option" where
  "ws_move_down ws =
     (if floating_active_get ws then floating_moved ws
      else on_scrolling_flag (if ws_vertical ws then move_right else move_down) ws)"

definition ws_move_up :: "workspace \<Rightarrow> (workspace \<times> bool) option" where
  "ws_move_up ws =
     (if floating_active_get ws then floating_moved ws
      else on_scrolling_flag (if ws_vertical ws then move_left else move_up) ws)"

definition ws_move_column_to_first :: "workspace \<Rightarrow> workspace option" where
  "ws_move_column_to_first ws = tiling_only move_column_to_first ws"

definition ws_move_column_to_last :: "workspace \<Rightarrow> workspace option" where
  "ws_move_column_to_last ws = tiling_only move_column_to_last ws"

definition ws_move_column_to_index :: "nat \<Rightarrow> workspace \<Rightarrow> workspace option" where
  "ws_move_column_to_index index ws = tiling_only (move_column_to_index index) ws"

text \<open>Whether an operation on a window, or on the active one, concerns the floating layer\<close>

definition targets_floating :: "win_id option \<Rightarrow> workspace \<Rightarrow> bool" where
  "targets_floating window ws =
     (case window of
        Some w \<Rightarrow> fl_has_window w (ws_floating ws)
      | None \<Rightarrow> floating_active_get ws)"

definition ws_consume_or_expel_window_left :: "win_id option \<Rightarrow> workspace \<Rightarrow> workspace option" where
  "ws_consume_or_expel_window_left window ws =
     (if targets_floating window ws then Some ws
      else on_scrolling (consume_or_expel_window_left (ws_options ws) window) ws)"

definition ws_consume_or_expel_window_right :: "win_id option \<Rightarrow> workspace \<Rightarrow> workspace option" where
  "ws_consume_or_expel_window_right window ws =
     (if targets_floating window ws then Some ws
      else on_scrolling (consume_or_expel_window_right (ws_options ws) window) ws)"

definition ws_consume_into_column :: "workspace \<Rightarrow> workspace option" where
  "ws_consume_into_column ws = tiling_only consume_into_column ws"

definition ws_expel_from_column :: "workspace \<Rightarrow> workspace option" where
  "ws_expel_from_column ws = tiling_only (expel_from_column (ws_options ws)) ws"

definition ws_swap_window_in_direction :: "scroll_direction \<Rightarrow> workspace \<Rightarrow> workspace option" where
  "ws_swap_window_in_direction direction ws =
     tiling_only (swap_window_in_direction (ws_options ws) direction) ws"

definition ws_toggle_column_tabbed_display :: "workspace \<Rightarrow> workspace option" where
  "ws_toggle_column_tabbed_display ws = tiling_only (toggle_column_tabbed_display (ws_options ws)) ws"

definition ws_set_column_display :: "column_display \<Rightarrow> workspace \<Rightarrow> workspace option" where
  "ws_set_column_display display ws = tiling_only (set_column_display (ws_options ws) display) ws"

section \<open>Between tiling and floating, fullscreen, maximized\<close>

definition toggle_window_floating ::
  "client_view \<Rightarrow> win_id option \<Rightarrow> workspace \<Rightarrow> workspace option" where
  "toggle_window_floating cv window ws =
     do {
       active \<leftarrow> ws_active_window ws;
       let target_is_active = (window = None \<or> window = active);
       (case (case window of Some w \<Rightarrow> Some w | None \<Rightarrow> active) of
          None \<Rightarrow> Some ws
        | Some w \<Rightarrow> do {
            assert_that (ws_has_window w ws);
            if fl_has_window w (ws_floating ws) then do {
              (r, f) \<leftarrow> fl_remove_tile cv w (ws_floating ws);
              s \<leftarrow> add_tile (ws_options ws) None (rt_tile r) target_is_active (rt_width r)
                     (rt_is_full_width r) (ws_scrolling ws);
              Some (focus_tiling_if target_is_active (ws\<lparr>ws_floating := f, ws_scrolling := s\<rparr>))
            } else do {
              (r, s) \<leftarrow> remove_tile w (ws_scrolling ws);
              f \<leftarrow> fl_add_tile cv (rt_tile r) target_is_active (ws_floating ws);
              let ws = ws\<lparr>ws_scrolling := s, ws_floating := f\<rparr>;
              Some (if target_is_active then ws\<lparr>floating_is_active := FloatingYes\<rparr> else ws)
            }
          })
     }"

definition set_window_floating ::
  "client_view \<Rightarrow> win_id option \<Rightarrow> bool \<Rightarrow> workspace \<Rightarrow> workspace option" where
  "set_window_floating cv window floating ws =
     (if targets_floating window ws = floating then Some ws
      else toggle_window_floating cv window ws)"

definition find_tile :: "win_id \<Rightarrow> scrolling \<Rightarrow> tile option" where
  "find_tile w s = List.find (\<lambda>t. win t = w) (concat (map tiles (columns s)))"

definition find_column :: "win_id \<Rightarrow> scrolling \<Rightarrow> column option" where
  "find_column w s = List.find (column_contains w) (columns s)"

text \<open>\<open>tiles_mut().find(..)\<close> followed by an assignment to \<open>restore_to_floating\<close>\<close>

definition set_restore_to_floating :: "win_id \<Rightarrow> bool \<Rightarrow> scrolling \<Rightarrow> scrolling option" where
  "set_restore_to_floating w b s =
     do {
       ci \<leftarrow> position (column_contains w) (columns s);
       c \<leftarrow> vec_get (columns s) ci;
       ti \<leftarrow> column_position w c;
       Some (set_column ci
         (c\<lparr>tiles := (tiles c)[ti := (tiles c ! ti)\<lparr>restore_to_floating := b\<rparr>]\<rparr>) s)
     }"

text \<open>The common tail of \<open>set_fullscreen\<close> and \<open>set_maximized\<close>\<close>

definition change_sizing ::
  "(scrolling \<Rightarrow> (scrolling \<times> bool) option) \<Rightarrow> win_id \<Rightarrow> bool \<Rightarrow> workspace \<Rightarrow> workspace option" where
  "change_sizing change w restore ws =
     do {
       t \<leftarrow> find_tile w (ws_scrolling ws);
       let was_normal = (pending_mode t = ModeNormal);
       (s, _) \<leftarrow> change (ws_scrolling ws);
       t \<leftarrow> find_tile w s;
       s \<leftarrow> (if was_normal \<and> pending_mode t \<noteq> ModeNormal
             then set_restore_to_floating w restore s else Some s);
       Some (ws\<lparr>ws_scrolling := s\<rparr>)
     }"

definition ws_set_fullscreen ::
  "client_view \<Rightarrow> win_id \<Rightarrow> bool \<Rightarrow> workspace \<Rightarrow> workspace option" where
  "ws_set_fullscreen cv w is_fullscreen ws =
     (if fl_has_window w (ws_floating ws) then
        (if is_fullscreen then do {
           ws \<leftarrow> toggle_window_floating cv (Some w) ws;
           change_sizing (set_fullscreen (ws_options ws) w is_fullscreen) w True ws
         } else Some ws)
      else if \<not> is_fullscreen then do {
        col \<leftarrow> find_column w (ws_scrolling ws);
        t \<leftarrow> List.find (\<lambda>t. win t = w) (tiles col);
        if is_pending_fullscreen col \<and> \<not> is_pending_maximized col \<and> restore_to_floating t
        then toggle_window_floating cv (Some w) ws
        else change_sizing (set_fullscreen (ws_options ws) w is_fullscreen) w False ws
      } else change_sizing (set_fullscreen (ws_options ws) w is_fullscreen) w False ws)"

definition toggle_fullscreen :: "client_view \<Rightarrow> win_id \<Rightarrow> workspace \<Rightarrow> workspace option" where
  "toggle_fullscreen cv w ws =
     do {
       t \<leftarrow> List.find (\<lambda>t. win t = w)
              (concat (map tiles (columns (ws_scrolling ws))) @ fl_tiles (ws_floating ws));
       ws_set_fullscreen cv w (pending_mode t \<noteq> Fullscreen) ws
     }"

definition ws_set_maximized ::
  "client_view \<Rightarrow> win_id \<Rightarrow> bool \<Rightarrow> workspace \<Rightarrow> workspace option" where
  "ws_set_maximized cv w maximize ws =
     (if fl_has_window w (ws_floating ws) then
        (if maximize then do {
           ws \<leftarrow> toggle_window_floating cv (Some w) ws;
           change_sizing (set_maximized (ws_options ws) w maximize) w True ws
         } else Some ws)
      else if \<not> maximize then do {
        t \<leftarrow> find_tile w (ws_scrolling ws);
        if pending_mode t = Maximized \<and> restore_to_floating t
        then toggle_window_floating cv (Some w) ws
        else change_sizing (set_maximized (ws_options ws) w maximize) w False ws
      } else change_sizing (set_maximized (ws_options ws) w maximize) w False ws)"

definition toggle_maximized :: "client_view \<Rightarrow> win_id \<Rightarrow> workspace \<Rightarrow> workspace option" where
  "toggle_maximized cv w ws =
     ws_set_maximized cv w
       (case find_column w (ws_scrolling ws) of
          Some col \<Rightarrow> \<not> is_pending_maximized col
        | None \<Rightarrow> True) ws"

section \<open>Activation and the rest\<close>

definition ws_activate_window ::
  "client_view \<Rightarrow> win_id \<Rightarrow> workspace \<Rightarrow> (workspace \<times> bool) option" where
  "ws_activate_window cv w ws =
     do {
       (f, found) \<leftarrow> fl_activate_window cv w (ws_floating ws);
       if found then Some (ws\<lparr>ws_floating := f, floating_is_active := FloatingYes\<rparr>, True)
       else do {
         (s, found) \<leftarrow> activate_window w (ws_scrolling ws);
         Some (if found then ws\<lparr>ws_scrolling := s, floating_is_active := FloatingNo\<rparr>
               else ws, found)
       }
     }"

definition ws_activate_window_without_raising :: "win_id \<Rightarrow> workspace \<Rightarrow> (workspace \<times> bool) option" where
  "ws_activate_window_without_raising w ws =
     (case fl_activate_window_without_raising w (ws_floating ws) of
        (f, True) \<Rightarrow> Some (ws\<lparr>ws_floating := f, floating_is_active := FloatingYes\<rparr>, True)
      | (_, False) \<Rightarrow> do {
          (s, found) \<leftarrow> activate_window w (ws_scrolling ws);
          Some (if found
                then ws\<lparr>ws_scrolling := s, floating_is_active :=
                       (case floating_is_active ws of
                          FloatingNo \<Rightarrow> FloatingNo
                        | NoButRaised \<Rightarrow> NoButRaised
                        | FloatingYes \<Rightarrow> NoButRaised)\<rparr>
                else ws, found)
        })"

definition ws_descendants_added ::
  "client_view \<Rightarrow> win_id \<Rightarrow> workspace \<Rightarrow> (workspace \<times> bool) option" where
  "ws_descendants_added cv w ws = on_floating_flag (descendants_added cv w) ws"

definition ws_interactive_resize_begin :: "win_id \<Rightarrow> workspace \<Rightarrow> (workspace \<times> bool) option" where
  "ws_interactive_resize_begin w ws =
     (if fl_has_window w (ws_floating ws) then on_floating_flag (fl_interactive_resize_begin w) ws
      else on_scrolling_flag (sc_resize_begin w) ws)"

definition ws_interactive_resize_end :: "win_id option \<Rightarrow> workspace \<Rightarrow> workspace option" where
  "ws_interactive_resize_end window ws =
     (case window of
        Some w \<Rightarrow>
          (if fl_has_window w (ws_floating ws)
           then on_floating (\<lambda>f. Some (fl_interactive_resize_end (Some w) f)) ws
           else on_scrolling (sc_resize_end (Some w)) ws)
      | None \<Rightarrow> do {
          ws \<leftarrow> on_floating (\<lambda>f. Some (fl_interactive_resize_end None f)) ws;
          on_scrolling (sc_resize_end None) ws
        })"

end
