(* ===== verification/Monitor.thy ===== *)
theory Monitor
  imports Workspace
begin

text \<open>
  \<open>src/layout/monitor.rs\<close>: the workspaces of one output. The visible ones come first and end
  with an empty, unnamed one; hidden ones, always named, are kept behind them. The switch
  animation or gesture in progress matters because empty workspaces are only removed when
  there is none.

  Positions of gestures and of the rendered view are real numbers that geometry and timing
  determine; operations take them as arguments.
\<close>

section \<open>State\<close>

record switch_gesture =
  sg_center_idx :: nat
  sg_current_idx :: real
  sg_is_touchpad :: bool
  sg_is_clamped :: bool
  sg_dnd :: bool

text \<open>An animation is kept by the index it leads to\<close>

datatype switch_state = SwitchAnimation nat | SwitchGesture switch_gesture

datatype active_space_kind = SpaceWorkspace | SpaceSticky

text \<open>\<open>next_ws_id\<close> is the global counter behind \<open>WorkspaceId::next\<close>\<close>

record monitor =
  mon_output :: wl_output
  workspaces :: "workspace list"
  active_workspace_idx :: nat
  previous_workspace_id :: "nat option"
  workspace_switch :: "switch_state option"
  sticky :: floating
  active_space :: active_space_kind
  overview_open :: bool
  mon_base_options :: options
  mon_options :: options
  mon_layout_config :: "layout_part option"
  next_ws_id :: nat

datatype mon_add_target =
    MonAuto
  | MonWorkspace nat "nat option"
  | MonNextTo win_id

abbreviation above_first :: "monitor \<Rightarrow> bool" where
  "above_first m \<equiv> empty_workspace_above_first (mon_options m)"

definition visible_workspace_count :: "monitor \<Rightarrow> nat" where
  "visible_workspace_count m =
     (case position ws_hidden (workspaces m) of Some i \<Rightarrow> i | None \<Rightarrow> length (workspaces m))"

definition active_workspace :: "monitor \<Rightarrow> workspace option" where
  "active_workspace m = vec_get (workspaces m) (active_workspace_idx m)"

definition idx_of_ws :: "nat \<Rightarrow> monitor \<Rightarrow> nat option" where
  "idx_of_ws i m = position (\<lambda>ws. ws_id ws = i) (workspaces m)"

definition named :: "string \<Rightarrow> workspace \<Rightarrow> bool" where
  "named name ws \<longleftrightarrow> (case ws_name ws of Some n \<Rightarrow> eq_ignore_ascii_case n name | None \<Rightarrow> False)"

definition find_named_workspace_index :: "string \<Rightarrow> monitor \<Rightarrow> nat option" where
  "find_named_workspace_index name m = position (named name) (workspaces m)"

definition mon_windows :: "monitor \<Rightarrow> win_id list" where
  "mon_windows m = fl_windows (sticky m) @ concat (map ws_windows (workspaces m))"

definition mon_active_window :: "monitor \<Rightarrow> win_id option option" where
  "mon_active_window m =
     (case (if active_space m = SpaceSticky then fl_active_window (sticky m) else None) of
        Some w \<Rightarrow> Some (Some w)
      | None \<Rightarrow> do { ws \<leftarrow> active_workspace m; ws_active_window ws })"

definition set_workspace :: "nat \<Rightarrow> workspace \<Rightarrow> monitor \<Rightarrow> monitor" where
  "set_workspace idx ws m = m\<lparr>workspaces := (workspaces m)[idx := ws]\<rparr>"

definition on_workspace :: "nat \<Rightarrow> (workspace \<Rightarrow> workspace option) \<Rightarrow> monitor \<Rightarrow> monitor option" where
  "on_workspace idx f m =
     do { ws \<leftarrow> vec_get (workspaces m) idx; ws \<leftarrow> f ws; Some (set_workspace idx ws m) }"

section \<open>Construction and removal of a monitor\<close>

text \<open>
  The loop of \<open>Monitor::new\<close> that moves hidden workspaces out of the vector; the first
  argument holds the workspaces before position \<open>i\<close>
\<close>

fun extract_hidden ::
  "workspace list \<Rightarrow> workspace list \<Rightarrow> nat \<Rightarrow> workspace list \<times> workspace list \<times> nat" where
  "extract_hidden vis [] active = (vis, [], active)"
| "extract_hidden vis (ws # rest) active =
     (if ws_hidden ws then
        (let ws = (if original_idx ws = None then ws\<lparr>original_idx := Some (length vis)\<rparr> else ws);
             (v, h, a) = extract_hidden vis rest
               (if length vis < active then active - 1 else active)
         in (v, ws # h, a))
      else extract_hidden (vis @ [ws]) rest active)"

definition monitor_new ::
  "nat \<Rightarrow> wl_output \<Rightarrow> workspace list \<Rightarrow> nat option \<Rightarrow> options \<Rightarrow> layout_part option \<Rightarrow> monitor option"
  where
  "monitor_new fresh_id out wss to_activate base_opts part =
     do {
       let opts = with_merged_layout part base_opts;
       assert_that (list_all has_windows_or_name wss);
       let active = (case to_activate of
           None \<Rightarrow> 0
         | Some i \<Rightarrow> (case position (\<lambda>ws. ws_id ws = i) wss of Some k \<Rightarrow> k | None \<Rightarrow> 0));
       let wss = map (\<lambda>ws. ws_update_config opts (ws_set_output (Some out) ws)) wss;
       let (vis, hid, active) = extract_hidden [] wss active;
       let above = (empty_workspace_above_first opts \<and> vis \<noteq> []);
       let vis = (if above then workspace_new fresh_id out opts # vis else vis);
       let fresh_id = (if above then fresh_id + 1 else fresh_id);
       Some \<lparr>mon_output = out,
             workspaces = vis @ [workspace_new fresh_id out opts] @ hid,
             active_workspace_idx = (if above then active + 1 else active),
             previous_workspace_id = None, workspace_switch = None, sticky = empty_floating,
             active_space = SpaceWorkspace, overview_open = False, mon_base_options = base_opts,
             mon_options = opts, mon_layout_config = part, next_ws_id = fresh_id + 1\<rparr>
     }"

definition into_workspaces :: "monitor \<Rightarrow> workspace list" where
  "into_workspaces m = map (ws_set_output None) (filter has_windows_or_name (workspaces m))"

definition into_workspaces_and_sticky :: "monitor \<Rightarrow> workspace list \<times> tile list" where
  "into_workspaces_and_sticky m = (into_workspaces m, fl_tiles (sticky m))"

section \<open>Adding empty workspaces and removing them\<close>

definition switch_target_idx :: "switch_state \<Rightarrow> real" where
  "switch_target_idx s =
     (case s of SwitchAnimation to \<Rightarrow> real to | SwitchGesture g \<Rightarrow> sg_current_idx g)"

text \<open>\<open>WorkspaceSwitch::offset\<close>, which is only called with 1\<close>

definition switch_offset_1 :: "switch_state \<Rightarrow> switch_state" where
  "switch_offset_1 s =
     (case s of
        SwitchAnimation to \<Rightarrow> SwitchAnimation (to + 1)
      | SwitchGesture g \<Rightarrow>
          SwitchGesture (g\<lparr>sg_center_idx := sg_center_idx g + 1, sg_current_idx := sg_current_idx g + 1\<rparr>))"

definition shift_hidden ::
  "(nat \<Rightarrow> nat) \<Rightarrow> workspace \<Rightarrow> workspace" where
  "shift_hidden f ws =
     (if ws_hidden ws then ws\<lparr>original_idx := map_option f (original_idx ws)\<rparr> else ws)"

definition shift_hidden_original_indices_for_removal :: "nat \<Rightarrow> monitor \<Rightarrow> monitor" where
  "shift_hidden_original_indices_for_removal removed m =
     m\<lparr>workspaces := map (shift_hidden (\<lambda>i. if removed < i then i - 1 else i)) (workspaces m)\<rparr>"

definition shift_hidden_original_indices_for_insertion :: "nat \<Rightarrow> monitor \<Rightarrow> monitor" where
  "shift_hidden_original_indices_for_insertion inserted m =
     m\<lparr>workspaces := map (shift_hidden (\<lambda>i. if inserted \<le> i then i + 1 else i)) (workspaces m)\<rparr>"

definition add_workspace_at :: "nat \<Rightarrow> monitor \<Rightarrow> monitor option" where
  "add_workspace_at idx m =
     do {
       let ws = workspace_new (next_ws_id m) (mon_output m) (mon_options m);
       wss \<leftarrow> vec_insert idx ws (workspaces m);
       let m = shift_hidden_original_indices_for_insertion idx
                 (m\<lparr>workspaces := wss, next_ws_id := next_ws_id m + 1\<rparr>);
       let m = (if idx \<le> active_workspace_idx m
                then m\<lparr>active_workspace_idx := active_workspace_idx m + 1\<rparr> else m);
       Some (m\<lparr>workspace_switch :=
         map_option (\<lambda>s. if real idx \<le> switch_target_idx s then switch_offset_1 s else s)
           (workspace_switch m)\<rparr>)
     }"

definition add_workspace_top :: "monitor \<Rightarrow> monitor option" where
  "add_workspace_top m = add_workspace_at 0 m"

definition add_workspace_bottom :: "monitor \<Rightarrow> monitor option" where
  "add_workspace_bottom m = add_workspace_at (visible_workspace_count m) m"

definition ensure_empty_before_hidden :: "monitor \<Rightarrow> monitor option" where
  "ensure_empty_before_hidden m =
     (case position ws_hidden (workspaces m) of
        None \<Rightarrow> Some m
      | Some hidden_idx \<Rightarrow>
          if hidden_idx = 0 then add_workspace_at hidden_idx m
          else do {
            ws \<leftarrow> vec_get (workspaces m) (hidden_idx - 1);
            if has_windows_or_name ws then add_workspace_at hidden_idx m else Some m
          })"

definition clean_up_at :: "nat \<Rightarrow> monitor \<Rightarrow> monitor option" where
  "clean_up_at idx m =
     (if active_workspace_idx m = idx then Some m
      else do {
        ws \<leftarrow> vec_get (workspaces m) idx;
        if ws_hidden ws then Some m
        else if has_windows_or_name ws then Some m
        else do {
          (_, wss) \<leftarrow> vec_remove idx (workspaces m);
          let m = shift_hidden_original_indices_for_removal idx (m\<lparr>workspaces := wss\<rparr>);
          Some (if idx < active_workspace_idx m
                then m\<lparr>active_workspace_idx := active_workspace_idx m - 1\<rparr> else m)
        }
      })"

fun clean_up_all :: "nat list \<Rightarrow> monitor \<Rightarrow> monitor option" where
  "clean_up_all [] m = Some m"
| "clean_up_all (idx # idxs) m = do { m \<leftarrow> clean_up_at idx m; clean_up_all idxs m }"

definition clean_up_workspaces :: "monitor \<Rightarrow> monitor option" where
  "clean_up_workspaces m =
     do {
       assert_that (workspace_switch m = None);
       let range_start = (if above_first m then 1 else 0);
       last_index_to_clean \<leftarrow>
         (case position ws_hidden (workspaces m) of
            Some hidden_idx \<Rightarrow> sub_usize hidden_idx 1
          | None \<Rightarrow> sub_usize (length (workspaces m)) 1);
       m \<leftarrow> clean_up_all (rev [range_start..<last_index_to_clean]) m;
       if above_first m \<and> length (workspaces m) = 2 \<and> \<not> list_ex ws_hidden (workspaces m) then do {
         assert_that (\<not> has_windows_or_name (workspaces m ! 0));
         assert_that (\<not> has_windows_or_name (workspaces m ! 1));
         Some (m\<lparr>workspaces := remove_at 1 (workspaces m), active_workspace_idx := 0\<rparr>)
       } else Some m
     }"

section \<open>Hidden workspaces\<close>

definition remove_workspace_by_idx :: "nat \<Rightarrow> monitor \<Rightarrow> (workspace \<times> monitor) option" where
  "remove_workspace_by_idx idx m =
     do {
       let visible_end = visible_workspace_count m;
       m \<leftarrow> (if idx + 1 = visible_end
             then do {
               ws \<leftarrow> vec_get (workspaces m) idx;
               if \<not> ws_hidden ws then add_workspace_bottom m else Some m
             } else Some m);
       (m, idx) \<leftarrow> (if above_first m \<and> idx = 0
             then do { m \<leftarrow> add_workspace_top m; Some (m, idx + 1) } else Some (m, idx));
       (ws, wss) \<leftarrow> vec_remove idx (workspaces m);
       let m = m\<lparr>workspaces := wss\<rparr>;
       let (ws, m) = (if \<not> ws_hidden ws
             then (ws_set_output None ws, shift_hidden_original_indices_for_removal idx m)
             else (ws, m));
       let m = (if idx \<le> active_workspace_idx m \<and> 0 < active_workspace_idx m
                then m\<lparr>active_workspace_idx := active_workspace_idx m - 1\<rparr> else m);
       m \<leftarrow> clean_up_workspaces (m\<lparr>workspace_switch := None\<rparr>);
       Some (ws, m)
     }"

definition hide_workspace_by_idx :: "nat \<Rightarrow> monitor \<Rightarrow> monitor option" where
  "hide_workspace_by_idx idx m =
     do {
       last \<leftarrow> sub_usize (length (workspaces m)) 1;
       if idx = last then Some m
       else do {
         (m, idx) \<leftarrow> (if above_first m \<and> idx = 0
               then do { m \<leftarrow> add_workspace_top m; Some (m, idx + 1) } else Some (m, idx));
         m \<leftarrow> on_workspace idx (\<lambda>ws. Some (ws\<lparr>ws_hidden := True, needs_hidden := False\<rparr>)) m;
         (ws, m) \<leftarrow> remove_workspace_by_idx idx m;
         let m = m\<lparr>workspaces := workspaces m @ [ws\<lparr>original_idx := Some idx\<rparr>]\<rparr>;
         ensure_empty_before_hidden m
       }
     }"

definition hide_workspace_by_name :: "string \<Rightarrow> monitor \<Rightarrow> monitor option" where
  "hide_workspace_by_name name m =
     (case find_named_workspace_index name m of
        None \<Rightarrow> Some m
      | Some idx \<Rightarrow> hide_workspace_by_idx idx m)"

definition name_of_ws :: "nat \<Rightarrow> monitor \<Rightarrow> string option" where
  "name_of_ws i m = Option.bind (List.find (\<lambda>ws. ws_id ws = i) (workspaces m)) ws_name"

definition hide_workspace_by_id :: "nat \<Rightarrow> monitor \<Rightarrow> (monitor \<times> bool) option" where
  "hide_workspace_by_id i m =
     (case name_of_ws i m of
        None \<Rightarrow> Some (m, False)
      | Some name \<Rightarrow> map_option (\<lambda>m. (m, True)) (hide_workspace_by_name name m))"

definition hide_needs_hidden :: "nat \<Rightarrow> monitor \<Rightarrow> (monitor \<times> bool) option" where
  "hide_needs_hidden idx m =
     do {
       ws \<leftarrow> vec_get (workspaces m) idx;
       if needs_hidden ws then map_option (\<lambda>m. (m, True)) (hide_workspace_by_idx idx m)
       else Some (m, False)
     }"

section \<open>Activation\<close>

definition activate_workspace :: "nat \<Rightarrow> monitor \<Rightarrow> monitor option" where
  "activate_workspace idx m =
     do {
       m \<leftarrow> (if active_workspace_idx m \<noteq> idx
             then do {
               ws \<leftarrow> active_workspace m;
               Some (m\<lparr>previous_workspace_id := Some (ws_id ws)\<rparr>)
             } else Some m);
       let prev_active_idx = active_workspace_idx m;
       let m = m\<lparr>active_workspace_idx := idx\<rparr>;
       let animate = (if prev_active_idx = idx then Some m
         else do {
           target \<leftarrow> vec_get (workspaces m) idx;
           (m, was_hidden) \<leftarrow> hide_needs_hidden prev_active_idx m;
           if was_hidden then do {
             idx \<leftarrow> (case idx_of_ws (ws_id target) m of
                 Some i \<Rightarrow> Some i
               | None \<Rightarrow> do { last \<leftarrow> sub_usize (visible_workspace_count m) 1; Some (min idx last) });
             Some (m\<lparr>active_workspace_idx := idx\<rparr>)
           } else Some (m\<lparr>workspace_switch := Some (SwitchAnimation idx)\<rparr>)
         });
       (case workspace_switch m of
          Some (SwitchGesture g) \<Rightarrow>
            (if sg_dnd g
             then Some (m\<lparr>workspace_switch :=
                    Some (SwitchGesture (g\<lparr>sg_center_idx := idx, sg_current_idx := real idx\<rparr>))\<rparr>)
             else animate)
        | _ \<Rightarrow> animate)
     }"

section \<open>Inserting workspaces\<close>

definition adopt :: "monitor \<Rightarrow> workspace \<Rightarrow> workspace" where
  "adopt m ws = ws_update_config (mon_options m) (ws_set_output (Some (mon_output m)) ws)"

definition insert_hidden_workspace :: "workspace \<Rightarrow> nat \<Rightarrow> monitor \<Rightarrow> monitor option" where
  "insert_hidden_workspace ws idx m =
     do {
       let ws = adopt m ws;
       idx \<leftarrow> (if idx = length (workspaces m) then sub_usize idx 1 else Some idx);
       let idx = (if idx = 0 \<and> above_first m then idx + 1 else idx);
       let ws = ws\<lparr>original_idx := Some idx\<rparr>;
       m \<leftarrow> clean_up_workspaces
             (m\<lparr>workspaces := workspaces m @ [ws], workspace_switch := None\<rparr>);
       ensure_empty_before_hidden m
     }"

definition insert_workspace :: "workspace \<Rightarrow> nat \<Rightarrow> bool \<Rightarrow> monitor \<Rightarrow> (nat \<times> monitor) option" where
  "insert_workspace ws idx activate m =
     (if ws_hidden ws then do {
        m \<leftarrow> insert_hidden_workspace ws idx m;
        (case idx_of_ws (ws_id ws) m of
           Some i \<Rightarrow> Some (i, m)
         | None \<Rightarrow> do { last \<leftarrow> sub_usize (length (workspaces m)) 1; Some (last, m) })
      } else do {
        let ws = adopt m ws;
        let visible_end = visible_workspace_count m;
        let idx = min idx visible_end;
        let idx = (if idx = visible_end \<and> 0 < idx then idx - 1 else idx);
        (m, idx) \<leftarrow> (if idx = 0 \<and> above_first m
              then do { m \<leftarrow> add_workspace_top m; Some (m, idx + 1) } else Some (m, idx));
        wss \<leftarrow> vec_insert idx ws (workspaces m);
        let m = shift_hidden_original_indices_for_insertion idx (m\<lparr>workspaces := wss\<rparr>);
        let m = (if idx \<le> active_workspace_idx m
                 then m\<lparr>active_workspace_idx := active_workspace_idx m + 1\<rparr> else m);
        m \<leftarrow> (if activate then activate_workspace idx (m\<lparr>workspace_switch := None\<rparr>) else Some m);
        m \<leftarrow> clean_up_workspaces (m\<lparr>workspace_switch := None\<rparr>);
        Some ((case idx_of_ws (ws_id ws) m of
                 Some i \<Rightarrow> i
               | None \<Rightarrow> min idx (length (workspaces m) - 1)), m)
      })"

definition append_workspaces :: "workspace list \<Rightarrow> monitor \<Rightarrow> monitor option" where
  "append_workspaces incoming m =
     (if incoming = [] then Some m
      else do {
        let incoming = map (adopt m) incoming;
        let incoming_visible = filter (\<lambda>ws. \<not> ws_hidden ws) incoming;
        let incoming_hidden = map (\<lambda>ws. ws\<lparr>original_idx := None\<rparr>) (filter ws_hidden incoming);
        empty_idx \<leftarrow> sub_usize (visible_workspace_count m) 1;
        empty \<leftarrow> vec_get (workspaces m) empty_idx;
        let empty_was_focused = (active_workspace_idx m = empty_idx);
        let m = ((shift_hidden_original_indices_for_insertion empty_idx) ^^ length incoming_visible) m;
        let m = m\<lparr>workspaces := take empty_idx (workspaces m) @ incoming_visible @
                    drop empty_idx (workspaces m) @ incoming_hidden\<rparr>;
        first \<leftarrow> vec_get (workspaces m) 0;
        m \<leftarrow> (if above_first m \<and> has_windows_or_name first then add_workspace_top m else Some m);
        m \<leftarrow> (if empty_was_focused
              then do {
                idx \<leftarrow> idx_of_ws (ws_id empty) m;
                Some (m\<lparr>active_workspace_idx := idx\<rparr>)
              } else Some m);
        clean_up_workspaces (m\<lparr>workspace_switch := None\<rparr>)
      })"

definition unhide_workspace_by_id :: "nat \<Rightarrow> bool \<Rightarrow> monitor \<Rightarrow> (nat option \<times> monitor) option" where
  "unhide_workspace_by_id i needs m =
     (case Option.bind (name_of_ws i m) (\<lambda>name. find_named_workspace_index name m) of
        None \<Rightarrow> Some (None, m)
      | Some idx \<Rightarrow> do {
          ws \<leftarrow> vec_get (workspaces m) idx;
          if \<not> ws_hidden ws then Some (None, m)
          else do {
            let original = (case original_idx ws of Some k \<Rightarrow> k | None \<Rightarrow> idx);
            (ws, m) \<leftarrow> remove_workspace_by_idx idx m;
            (final_idx, m) \<leftarrow> insert_workspace
              (ws\<lparr>ws_hidden := False, needs_hidden := needs, original_idx := None\<rparr>) original False m;
            Some (Some final_idx, m)
          }
        })"

definition unname_workspace :: "nat \<Rightarrow> monitor \<Rightarrow> (monitor \<times> bool) option" where
  "unname_workspace i m =
     do {
       (_, m) \<leftarrow> unhide_workspace_by_id i False m;
       (case idx_of_ws i m of
          None \<Rightarrow> Some (m, False)
        | Some idx \<Rightarrow> do {
            m \<leftarrow> on_workspace idx (\<lambda>ws. Some (ws_unname (ws\<lparr>needs_hidden := False\<rparr>))) m;
            m \<leftarrow> (if workspace_switch m = None then clean_up_workspaces m else Some m);
            Some (m, True)
          })
     }"

end
