(* ===== verification/MonitorMoves.thy ===== *)
theory MonitorMoves
  imports Monitor
begin

text \<open>
  \<open>src/layout/monitor.rs\<close>, continued: windows and columns entering a monitor and moving
  between its workspaces, switching and reordering workspaces, sticky windows, gestures and
  configuration changes.
\<close>

section \<open>Adding windows\<close>

text \<open>Unhiding a workspace that is about to become active; the index may change\<close>

definition unhide_if :: "bool \<Rightarrow> nat \<Rightarrow> monitor \<Rightarrow> (nat \<times> monitor) option" where
  "unhide_if wanted idx m =
     (if \<not> wanted then Some (idx, m)
      else do {
        ws \<leftarrow> vec_get (workspaces m) idx;
        if ws_hidden ws then do {
          (found, m) \<leftarrow> unhide_workspace_by_id (ws_id ws) True m;
          Some (case found of Some i \<Rightarrow> i | None \<Rightarrow> idx, m)
        } else Some (idx, m)
      })"

definition own_if_unnamed :: "wl_output \<Rightarrow> workspace \<Rightarrow> workspace" where
  "own_if_unnamed out ws =
     (if ws_name ws = None then ws\<lparr>original_outputs := [output_id_new out]\<rparr> else ws)"

definition is_last_visible :: "nat \<Rightarrow> monitor \<Rightarrow> bool" where
  "is_last_visible idx m \<longleftrightarrow>
     (case position ws_hidden (workspaces m) of
        Some hidden_idx \<Rightarrow> idx + 1 = hidden_idx
      | None \<Rightarrow> idx + 1 = length (workspaces m))"

text \<open>
  The common part of \<open>add_column\<close> and \<open>add_tile\<close>: run the operation on the workspace, keep
  an empty workspace at the end and, if configured, at the start
\<close>

definition add_to_workspace ::
  "nat \<Rightarrow> (workspace \<Rightarrow> workspace option) \<Rightarrow> monitor \<Rightarrow> (nat \<times> monitor) option" where
  "add_to_workspace idx f m =
     do {
       let last_visible = is_last_visible idx m;
       let any_hidden = (position ws_hidden (workspaces m) \<noteq> None);
       m \<leftarrow> on_workspace idx (\<lambda>ws. map_option (own_if_unnamed (mon_output m)) (f ws)) m;
       m \<leftarrow> (if last_visible
             then (if any_hidden then ensure_empty_before_hidden m else add_workspace_bottom m)
             else Some m);
       if above_first m \<and> idx = 0
       then do { m \<leftarrow> add_workspace_top m; Some (idx + 1, m) }
       else Some (idx, m)
     }"

definition mon_add_column :: "nat \<Rightarrow> column \<Rightarrow> bool \<Rightarrow> monitor \<Rightarrow> monitor option" where
  "mon_add_column idx c activate m =
     do {
       (idx, m) \<leftarrow> unhide_if activate idx m;
       (idx, m) \<leftarrow> add_to_workspace idx (ws_add_column c activate) m;
       if activate then activate_workspace idx m else Some m
     }"

definition resolve_add_window_target ::
  "mon_add_target \<Rightarrow> monitor \<Rightarrow> (nat \<times> add_window_target) option" where
  "resolve_add_window_target target m =
     (case target of
        MonAuto \<Rightarrow> Some (active_workspace_idx m, Auto)
      | MonWorkspace i column_idx \<Rightarrow> do {
          idx \<leftarrow> idx_of_ws i m;
          Some (idx, case column_idx of Some c \<Rightarrow> NewColumnAt c | None \<Rightarrow> Auto)
        }
      | MonNextTo w \<Rightarrow> do {
          idx \<leftarrow> position (ws_has_window w) (workspaces m);
          Some (idx, NextTo w)
        })"

definition mon_add_tile ::
  "client_view \<Rightarrow> tile \<Rightarrow> mon_add_target \<Rightarrow> activate_request \<Rightarrow> bool \<Rightarrow> column_width \<Rightarrow> bool \<Rightarrow> bool
   \<Rightarrow> bool \<Rightarrow> monitor \<Rightarrow> monitor option" where
  "mon_add_tile cv t target activate allow width full is_floating force_unhide m =
     do {
       (idx, target) \<leftarrow> resolve_add_window_target target m;
       wants \<leftarrow> map_smart activate (Some False);
       let will_activate = (allow \<and> wants);
       (idx, m) \<leftarrow> unhide_if (force_unhide \<or> will_activate) idx m;
       (idx, m) \<leftarrow> add_to_workspace idx (ws_add_tile cv t target activate width full is_floating) m;
       if will_activate then activate_workspace idx m else Some m
     }"

definition mon_add_tile_to_column ::
  "nat \<Rightarrow> nat \<Rightarrow> nat option \<Rightarrow> tile \<Rightarrow> bool \<Rightarrow> bool \<Rightarrow> monitor \<Rightarrow> monitor option" where
  "mon_add_tile_to_column idx column_idx tile_idx t activate allow m =
     do {
       (idx, m) \<leftarrow> unhide_if (allow \<and> activate) idx m;
       m \<leftarrow> on_workspace idx
             (\<lambda>ws. map_option (own_if_unnamed (mon_output m))
                (ws_add_tile_to_column column_idx tile_idx t activate ws)) m;
       if allow \<and> activate then activate_workspace idx m else Some m
     }"

section \<open>Sticky windows\<close>

definition add_sticky_tile :: "client_view \<Rightarrow> tile \<Rightarrow> bool \<Rightarrow> monitor \<Rightarrow> monitor option" where
  "add_sticky_tile cv t activate m =
     do {
       f \<leftarrow> fl_add_tile cv (t\<lparr>restore_to_floating := True\<rparr>) activate (sticky m);
       let m = m\<lparr>sticky := f\<rparr>;
       Some (if activate then m\<lparr>active_space := SpaceSticky\<rparr> else m)
     }"

definition mon_add_window ::
  "client_view \<Rightarrow> tile \<Rightarrow> mon_add_target \<Rightarrow> activate_request \<Rightarrow> column_width \<Rightarrow> bool \<Rightarrow> bool \<Rightarrow> bool
   \<Rightarrow> bool \<Rightarrow> monitor \<Rightarrow> monitor option" where
  "mon_add_window cv t target activate width full is_floating is_sticky force_unhide m =
     (if is_sticky then do {
        activate \<leftarrow> map_smart activate
          (do { ws \<leftarrow> active_workspace m;
                map_option Not (is_active_pending_fullscreen (ws_scrolling ws)) });
        add_sticky_tile cv t activate m
      } else do {
        _ \<leftarrow> vec_get (workspaces m) 0;
        mon_add_tile cv t target activate True width full is_floating force_unhide m
      })"

definition remove_sticky_tile ::
  "client_view \<Rightarrow> win_id \<Rightarrow> monitor \<Rightarrow> (removed_tile option \<times> monitor) option" where
  "remove_sticky_tile cv w m =
     (if \<not> fl_has_window w (sticky m) then Some (None, m)
      else do {
        (r, f) \<leftarrow> fl_remove_tile cv w (sticky m);
        let m = m\<lparr>sticky := f\<rparr>;
        Some (Some (r\<lparr>rt_is_sticky := True\<rparr>),
              if active_space m = SpaceSticky \<and> fl_active_window f = None
              then m\<lparr>active_space := SpaceWorkspace\<rparr> else m)
      })"

definition activate_sticky_window :: "client_view \<Rightarrow> win_id \<Rightarrow> monitor \<Rightarrow> (monitor \<times> bool) option" where
  "activate_sticky_window cv w m =
     do {
       (f, found) \<leftarrow> fl_activate_window cv w (sticky m);
       Some (if found then (m\<lparr>sticky := f, active_space := SpaceSticky\<rparr>, True) else (m, False))
     }"

definition activate_sticky_window_without_raising :: "win_id \<Rightarrow> monitor \<Rightarrow> monitor \<times> bool" where
  "activate_sticky_window_without_raising w m =
     (case fl_activate_window_without_raising w (sticky m) of
        (f, True) \<Rightarrow> (m\<lparr>sticky := f, active_space := SpaceSticky\<rparr>, True)
      | (_, False) \<Rightarrow> (m, False))"

definition focus_workspace :: "monitor \<Rightarrow> monitor" where
  "focus_workspace m = m\<lparr>active_space := SpaceWorkspace\<rparr>"

definition on_active_workspace :: "(workspace \<Rightarrow> workspace option) \<Rightarrow> monitor \<Rightarrow> monitor option" where
  "on_active_workspace f m = on_workspace (active_workspace_idx m) f m"

definition mon_focus_floating :: "monitor \<Rightarrow> monitor option" where
  "mon_focus_floating m =
     (if active_space m = SpaceSticky then Some m
      else do {
        ws \<leftarrow> active_workspace m;
        if fl_tiles (ws_floating ws) \<noteq> [] then on_active_workspace (\<lambda>ws. Some (focus_floating ws)) m
        else Some (if fl_tiles (sticky m) \<noteq> [] then m\<lparr>active_space := SpaceSticky\<rparr> else m)
      })"

definition mon_focus_tiling :: "monitor \<Rightarrow> monitor option" where
  "mon_focus_tiling m =
     do {
       ws \<leftarrow> active_workspace m;
       if columns (ws_scrolling ws) = [] then Some m
       else on_active_workspace (\<lambda>ws. Some (focus_tiling ws)) (focus_workspace m)
     }"

definition mon_switch_focus_floating_tiling :: "monitor \<Rightarrow> monitor option" where
  "mon_switch_focus_floating_tiling m =
     do {
       ws \<leftarrow> active_workspace m;
       if active_space m = SpaceSticky \<or> floating_active_get ws then mon_focus_tiling m
       else mon_focus_floating m
     }"

section \<open>Switching workspaces\<close>

text \<open>The gesture of a drag-and-drop scroll, if there is one\<close>

definition dnd_gesture :: "monitor \<Rightarrow> switch_gesture option" where
  "dnd_gesture m =
     (case workspace_switch m of
        Some (SwitchGesture g) \<Rightarrow> (if sg_dnd g then Some g else None)
      | _ \<Rightarrow> None)"

text \<open>The loops that step over hidden workspaces, upwards and downwards\<close>

fun skip_hidden_up :: "workspace list \<Rightarrow> nat \<Rightarrow> nat" where
  "skip_hidden_up wss 0 = 0"
| "skip_hidden_up wss (Suc i) = (if ws_hidden (wss ! Suc i) then skip_hidden_up wss i else Suc i)"

function skip_hidden_down :: "workspace list \<Rightarrow> nat \<Rightarrow> nat \<Rightarrow> nat" where
  "skip_hidden_down wss max_idx i =
     (if i < max_idx \<and> ws_hidden (wss ! i) then skip_hidden_down wss max_idx (i + 1) else i)"
  by pat_completeness auto
termination by (relation "measure (\<lambda>(wss, max_idx, i). max_idx - i)") auto

definition switch_workspace_up :: "monitor \<Rightarrow> monitor option" where
  "switch_workspace_up m =
     (case dnd_gesture m of
        Some g \<Rightarrow> do {
          end_idx \<leftarrow> sub_usize (length (workspaces m)) 1;
          activate_workspace (nat (max 0 (min (int end_idx) (\<lceil>sg_current_idx g\<rceil> - 1)))) m
        }
      | None \<Rightarrow> do {
          let new_idx = skip_hidden_up (workspaces m) (active_workspace_idx m - 1);
          ws \<leftarrow> vec_get (workspaces m) new_idx;
          activate_workspace (if ws_hidden ws then active_workspace_idx m else new_idx) m
        })"

definition switch_workspace_down :: "monitor \<Rightarrow> monitor option" where
  "switch_workspace_down m =
     (case dnd_gesture m of
        Some g \<Rightarrow> do {
          end_idx \<leftarrow> sub_usize (visible_workspace_count m) 1;
          activate_workspace (nat (max 0 (min (int end_idx) (\<lfloor>sg_current_idx g\<rfloor> + 1)))) m
        }
      | None \<Rightarrow> do {
          end_idx \<leftarrow> sub_usize (length (workspaces m)) 1;
          let new_idx = skip_hidden_down (workspaces m) end_idx (min (active_workspace_idx m + 1) end_idx);
          ws \<leftarrow> vec_get (workspaces m) new_idx;
          if ws_hidden ws then Some m else activate_workspace new_idx m
        })"

definition switch_workspace :: "nat \<Rightarrow> bool \<Rightarrow> monitor \<Rightarrow> monitor option" where
  "switch_workspace idx force_unhide m =
     do {
       end_idx \<leftarrow> sub_usize (length (workspaces m)) 1;
       let actual = min idx end_idx;
       (actual, m) \<leftarrow> (if force_unhide
             then do {
               ws \<leftarrow> vec_get (workspaces m) actual;
               (found, m) \<leftarrow> unhide_workspace_by_id (ws_id ws) force_unhide m;
               Some (case found of Some i \<Rightarrow> i | None \<Rightarrow> actual, m)
             } else Some (actual, m));
       ws \<leftarrow> vec_get (workspaces m) actual;
       if ws_hidden ws \<and> \<not> force_unhide
       then (case List.find (\<lambda>i. \<not> ws_hidden (workspaces m ! i)) (rev [0..<actual]) of
               Some visible_idx \<Rightarrow> activate_workspace visible_idx m
             | None \<Rightarrow> Some m)
       else activate_workspace actual m
     }"

definition previous_workspace_idx :: "monitor \<Rightarrow> nat option" where
  "previous_workspace_idx m = Option.bind (previous_workspace_id m) (\<lambda>i. idx_of_ws i m)"

definition switch_workspace_auto_back_and_forth :: "nat \<Rightarrow> monitor \<Rightarrow> monitor option" where
  "switch_workspace_auto_back_and_forth idx m =
     do {
       end_idx \<leftarrow> sub_usize (length (workspaces m)) 1;
       let idx = min idx end_idx;
       if idx = active_workspace_idx m
       then (case previous_workspace_idx m of
               Some prev \<Rightarrow> switch_workspace prev False m
             | None \<Rightarrow> Some m)
       else switch_workspace idx False m
     }"

definition switch_workspace_previous :: "monitor \<Rightarrow> monitor option" where
  "switch_workspace_previous m =
     (case previous_workspace_idx m of
        Some idx \<Rightarrow> switch_workspace idx False m
      | None \<Rightarrow> Some m)"

section \<open>Moving windows and columns between workspaces\<close>

definition clamp_target_workspace_idx :: "nat \<Rightarrow> bool \<Rightarrow> monitor \<Rightarrow> nat option" where
  "clamp_target_workspace_idx idx allow_hidden m =
     do {
       end_idx \<leftarrow> sub_usize (if allow_hidden then length (workspaces m) else visible_workspace_count m) 1;
       Some (min idx end_idx)
     }"

definition move_to_workspace ::
  "client_view \<Rightarrow> win_id option \<Rightarrow> nat \<Rightarrow> activate_request \<Rightarrow> bool \<Rightarrow> monitor \<Rightarrow> monitor option" where
  "move_to_workspace cv window idx activate allow_hidden m =
     do {
       source \<leftarrow> (case window of
           Some w \<Rightarrow> position (ws_has_window w) (workspaces m)
         | None \<Rightarrow> Some (active_workspace_idx m));
       _ \<leftarrow> vec_get (workspaces m) source;
       new_idx \<leftarrow> clamp_target_workspace_idx idx allow_hidden m;
       if new_idx = source then Some m
       else do {
         target \<leftarrow> vec_get (workspaces m) new_idx;
         activate \<leftarrow> map_smart activate
           (case window of
              None \<Rightarrow> Some True
            | Some w \<Rightarrow> do { a \<leftarrow> mon_active_window m; Some (a = Some w) });
         ws \<leftarrow> vec_get (workspaces m) source;
         found \<leftarrow> (case window of Some w \<Rightarrow> Some (Some w) | None \<Rightarrow> ws_active_window ws);
         (case found of
            None \<Rightarrow> Some m
          | Some w \<Rightarrow> do {
              assert_that (ws_has_window w ws);
              (r, ws) \<leftarrow> ws_remove_tile cv w ws;
              m \<leftarrow> mon_add_tile cv (rt_tile r) (MonWorkspace (ws_id target) None)
                    (if activate then ActivateYes else ActivateNo) True (rt_width r)
                    (rt_is_full_width r) (rt_is_floating r) activate (set_workspace source ws m);
              m \<leftarrow> (if workspace_switch m = None then clean_up_workspaces m else Some m);
              new_idx \<leftarrow> idx_of_ws (ws_id target) m;
              ws \<leftarrow> vec_get (workspaces m) new_idx;
              assert_that (ws_has_window w ws);
              Some m
            })
       }
     }"

definition move_to_workspace_up :: "client_view \<Rightarrow> activate_request \<Rightarrow> monitor \<Rightarrow> monitor option" where
  "move_to_workspace_up cv activate m =
     move_to_workspace cv None (active_workspace_idx m - 1) activate False m"

definition move_to_workspace_down :: "client_view \<Rightarrow> activate_request \<Rightarrow> monitor \<Rightarrow> monitor option" where
  "move_to_workspace_down cv activate m =
     do {
       end_idx \<leftarrow> sub_usize (visible_workspace_count m) 1;
       move_to_workspace cv None (min (active_workspace_idx m + 1) end_idx) activate False m
     }"

definition move_column_to_workspace ::
  "client_view \<Rightarrow> nat \<Rightarrow> bool \<Rightarrow> bool \<Rightarrow> monitor \<Rightarrow> monitor option" where
  "move_column_to_workspace cv idx activate allow_hidden m =
     do {
       let source = active_workspace_idx m;
       new_idx \<leftarrow> clamp_target_workspace_idx idx allow_hidden m;
       if new_idx = source then Some m
       else do {
         ws \<leftarrow> vec_get (workspaces m) source;
         if floating_active_get ws
         then move_to_workspace cv None new_idx (if activate then ActivateSmart else ActivateNo)
                allow_hidden m
         else if columns (ws_scrolling ws) = [] then Some m
         else do {
           (c, ws) \<leftarrow> ws_remove_active_column ws;
           c \<leftarrow> c;
           let m = set_workspace source ws m;
           target \<leftarrow> vec_get (workspaces m) new_idx;
           m \<leftarrow> mon_add_column new_idx c activate m;
           new_idx \<leftarrow> idx_of_ws (ws_id target) m;
           ws \<leftarrow> vec_get (workspaces m) new_idx;
           assert_that (list_ex (\<lambda>c'. map win (tiles c') = map win (tiles c)) (columns (ws_scrolling ws)));
           Some m
         }
       }
     }"

definition move_column_to_workspace_up :: "client_view \<Rightarrow> bool \<Rightarrow> monitor \<Rightarrow> monitor option" where
  "move_column_to_workspace_up cv activate m =
     move_column_to_workspace cv (active_workspace_idx m - 1) activate False m"

definition move_column_to_workspace_down :: "client_view \<Rightarrow> bool \<Rightarrow> monitor \<Rightarrow> monitor option" where
  "move_column_to_workspace_down cv activate m =
     do {
       end_idx \<leftarrow> sub_usize (visible_workspace_count m) 1;
       move_column_to_workspace cv (min (active_workspace_idx m + 1) end_idx) activate False m
     }"

definition active_workspace_flag ::
  "(workspace \<Rightarrow> (workspace \<times> bool) option) \<Rightarrow> monitor \<Rightarrow> (monitor \<times> bool) option" where
  "active_workspace_flag f m =
     do {
       ws \<leftarrow> active_workspace m;
       (ws, changed) \<leftarrow> f ws;
       Some (set_workspace (active_workspace_idx m) ws m, changed)
     }"

definition move_down_or_to_workspace_down :: "client_view \<Rightarrow> monitor \<Rightarrow> monitor option" where
  "move_down_or_to_workspace_down cv m =
     do {
       (m, changed) \<leftarrow> active_workspace_flag ws_move_down m;
       if changed then Some m else move_to_workspace_down cv ActivateSmart m
     }"

definition move_up_or_to_workspace_up :: "client_view \<Rightarrow> monitor \<Rightarrow> monitor option" where
  "move_up_or_to_workspace_up cv m =
     do {
       (m, changed) \<leftarrow> active_workspace_flag ws_move_up m;
       if changed then Some m else move_to_workspace_up cv ActivateSmart m
     }"

definition focus_window_or_workspace_down :: "client_view \<Rightarrow> monitor \<Rightarrow> monitor option" where
  "focus_window_or_workspace_down cv m =
     do {
       (m, changed) \<leftarrow> active_workspace_flag (ws_focus_down cv) m;
       if changed then Some m else switch_workspace_down m
     }"

definition focus_window_or_workspace_up :: "client_view \<Rightarrow> monitor \<Rightarrow> monitor option" where
  "focus_window_or_workspace_up cv m =
     do {
       (m, changed) \<leftarrow> active_workspace_flag (ws_focus_up cv) m;
       if changed then Some m else switch_workspace_up m
     }"

section \<open>Reordering workspaces\<close>

text \<open>The end of \<open>move_workspace_down\<close> and \<open>move_workspace_up\<close>\<close>

definition follow_moved_workspace :: "nat \<Rightarrow> monitor \<Rightarrow> monitor option" where
  "follow_moved_workspace new_idx m =
     do {
       let previous = previous_workspace_id m;
       m \<leftarrow> activate_workspace new_idx m;
       clean_up_workspaces (m\<lparr>workspace_switch := None, previous_workspace_id := previous\<rparr>)
     }"

definition move_workspace_down :: "monitor \<Rightarrow> monitor option" where
  "move_workspace_down m =
     do {
       end_idx \<leftarrow> sub_usize (visible_workspace_count m) 1;
       let new_idx = min (active_workspace_idx m + 1) end_idx;
       if new_idx = active_workspace_idx m then Some m
       else do {
         wss \<leftarrow> vec_swap (active_workspace_idx m) new_idx (workspaces m);
         let m = m\<lparr>workspaces := wss\<rparr>;
         m \<leftarrow> (if new_idx = end_idx then add_workspace_bottom m else Some m);
         (m, new_idx) \<leftarrow> (if above_first m \<and> active_workspace_idx m = 0
               then do { m \<leftarrow> add_workspace_top m; Some (m, new_idx + 1) } else Some (m, new_idx));
         follow_moved_workspace new_idx m
       }
     }"

definition move_workspace_up :: "monitor \<Rightarrow> monitor option" where
  "move_workspace_up m =
     (let new_idx = active_workspace_idx m - 1 in
      if new_idx = active_workspace_idx m then Some m
      else do {
        wss \<leftarrow> vec_swap (active_workspace_idx m) new_idx (workspaces m);
        let m = m\<lparr>workspaces := wss\<rparr>;
        end_idx \<leftarrow> sub_usize (visible_workspace_count m) 1;
        m \<leftarrow> (if active_workspace_idx m = end_idx then add_workspace_bottom m else Some m);
        (m, new_idx) \<leftarrow> (if above_first m \<and> new_idx = 0
              then do { m \<leftarrow> add_workspace_top m; Some (m, new_idx + 1) } else Some (m, new_idx));
        follow_moved_workspace new_idx m
      })"

definition move_workspace_to_idx :: "nat \<Rightarrow> nat \<Rightarrow> monitor \<Rightarrow> monitor option" where
  "move_workspace_to_idx old_idx new_idx m =
     (if length (workspaces m) \<le> old_idx then Some m
      else do {
        ws \<leftarrow> vec_get (workspaces m) old_idx;
        if ws_hidden ws then Some m
        else do {
          end_idx \<leftarrow> sub_usize (visible_workspace_count m) 1;
          let new_idx = min new_idx end_idx;
          if old_idx = new_idx then Some m
          else do {
            (ws, wss) \<leftarrow> vec_remove old_idx (workspaces m);
            wss \<leftarrow> vec_insert new_idx ws wss;
            let m = m\<lparr>workspaces := wss\<rparr>;
            m \<leftarrow> (if max old_idx new_idx = end_idx then add_workspace_bottom m else Some m);
            (m, new_idx) \<leftarrow> (if above_first m \<and> min old_idx new_idx = 0
                  then do { m \<leftarrow> add_workspace_top m; Some (m, new_idx + 1) } else Some (m, new_idx));
            let active = active_workspace_idx m;
            let m = m\<lparr>active_workspace_idx :=
              (if active = old_idx then new_idx
               else if new_idx \<le> active \<and> active < old_idx then active + 1
               else if active \<le> new_idx \<and> old_idx < active then active - 1
               else active)\<rparr>;
            clean_up_workspaces (m\<lparr>workspace_switch := None\<rparr>)
          }
        }
      })"

section \<open>Gestures, animations and configuration\<close>

definition workspace_switch_gesture_begin :: "real \<Rightarrow> bool \<Rightarrow> monitor \<Rightarrow> monitor" where
  "workspace_switch_gesture_begin render_idx is_touchpad m =
     m\<lparr>workspace_switch := Some (SwitchGesture
       \<lparr>sg_center_idx = active_workspace_idx m, sg_current_idx = render_idx,
        sg_is_touchpad = is_touchpad, sg_is_clamped = \<not> overview_open m, sg_dnd = False\<rparr>)\<rparr>"

definition dnd_scroll_gesture_begin :: "real \<Rightarrow> monitor \<Rightarrow> monitor" where
  "dnd_scroll_gesture_begin render_idx m =
     (if dnd_gesture m \<noteq> None \<or> \<not> overview_open m then m
      else m\<lparr>workspace_switch := Some (SwitchGesture
        \<lparr>sg_center_idx = active_workspace_idx m, sg_current_idx = render_idx,
         sg_is_touchpad = False, sg_is_clamped = False, sg_dnd = True\<rparr>)\<rparr>)"

text \<open>The position after the rubber band is an argument\<close>

definition workspace_switch_gesture_update :: "real \<Rightarrow> bool \<Rightarrow> monitor \<Rightarrow> monitor \<times> bool option" where
  "workspace_switch_gesture_update new_idx is_touchpad m =
     (case workspace_switch m of
        Some (SwitchGesture g) \<Rightarrow>
          (if sg_is_touchpad g \<noteq> is_touchpad \<or> sg_dnd g then (m, None)
           else if sg_current_idx g = new_idx then (m, Some False)
           else (m\<lparr>workspace_switch := Some (SwitchGesture (g\<lparr>sg_current_idx := new_idx\<rparr>))\<rparr>, Some True))
      | _ \<Rightarrow> (m, None))"

text \<open>\<open>WorkspaceSwitchGesture::min_max\<close> and \<open>f64::clamp\<close>, which panics on an empty range\<close>

definition gesture_min_max :: "switch_gesture \<Rightarrow> nat \<Rightarrow> (nat \<times> nat) option" where
  "gesture_min_max g n =
     do {
       end_idx \<leftarrow> sub_usize n 1;
       Some (if sg_is_clamped g
             then (sg_center_idx g - 1, min (sg_center_idx g + 1) end_idx) else (0, end_idx))
     }"

definition clamp_real :: "nat \<Rightarrow> nat \<Rightarrow> real \<Rightarrow> real option" where
  "clamp_real lo hi x =
     (if lo \<le> hi then Some (max (real lo) (min (real hi) x)) else None)"

text \<open>\<open>f64::round\<close> of a number that is not negative\<close>

definition round_half_up :: "real \<Rightarrow> nat" where
  "round_half_up x = nat \<lfloor>x + 1 / 2\<rfloor>"

text \<open>The position before clamping comes from the tracker\<close>

definition workspace_switch_gesture_end ::
  "bool option \<Rightarrow> real \<Rightarrow> monitor \<Rightarrow> (monitor \<times> bool) option" where
  "workspace_switch_gesture_end is_touchpad projected m =
     (case workspace_switch m of
        Some (SwitchGesture g) \<Rightarrow>
          (if (case is_touchpad of Some x \<Rightarrow> sg_is_touchpad g \<noteq> x | None \<Rightarrow> False) then Some (m, False)
           else do {
             (lo, hi) \<leftarrow> gesture_min_max g (visible_workspace_count m);
             x \<leftarrow> clamp_real lo hi projected;
             let new_idx = round_half_up x;
             m \<leftarrow> (if active_workspace_idx m \<noteq> new_idx
                   then do {
                     ws \<leftarrow> active_workspace m;
                     Some (m\<lparr>previous_workspace_id := Some (ws_id ws)\<rparr>)
                   } else Some m);
             Some (m\<lparr>active_workspace_idx := new_idx,
                     workspace_switch := Some (SwitchAnimation new_idx)\<rparr>, True)
           })
      | _ \<Rightarrow> Some (m, False))"

definition dnd_scroll_gesture_scroll :: "real \<Rightarrow> monitor \<Rightarrow> monitor option" where
  "dnd_scroll_gesture_scroll unclamped m =
     (case workspace_switch m of
        Some (SwitchGesture g) \<Rightarrow>
          (if sg_dnd g then do {
             (lo, hi) \<leftarrow> gesture_min_max g (visible_workspace_count m);
             x \<leftarrow> clamp_real lo hi unclamped;
             Some (m\<lparr>workspace_switch := Some (SwitchGesture (g\<lparr>sg_current_idx := x\<rparr>))\<rparr>)
           } else Some m)
      | _ \<Rightarrow> Some m)"

definition dnd_scroll_gesture_end :: "real \<Rightarrow> monitor \<Rightarrow> monitor option" where
  "dnd_scroll_gesture_end projected m =
     (if dnd_gesture m = None then Some m
      else map_option fst (workspace_switch_gesture_end None projected m))"

text \<open>The part of \<open>advance_animations\<close> that ends a switch; the argument says whether it is done\<close>

definition mon_advance_animations :: "bool \<Rightarrow> monitor \<Rightarrow> monitor option" where
  "mon_advance_animations is_done m =
     (case workspace_switch m of
        Some (SwitchAnimation _) \<Rightarrow>
          (if is_done then clean_up_workspaces (m\<lparr>workspace_switch := None\<rparr>) else Some m)
      | _ \<Rightarrow> Some m)"

definition mon_update_config :: "options \<Rightarrow> monitor \<Rightarrow> monitor option" where
  "mon_update_config base_opts m =
     do {
       let opts = with_merged_layout (mon_layout_config m) base_opts;
       m \<leftarrow> (if above_first m \<noteq> empty_workspace_above_first opts \<and> 1 < length (workspaces m)
             then (if empty_workspace_above_first opts then add_workspace_top m
                   else if workspace_switch m = None \<and> active_workspace_idx m \<noteq> 0
                   then do {
                     (_, wss) \<leftarrow> vec_remove 0 (workspaces m);
                     Some (m\<lparr>workspaces := wss, active_workspace_idx := active_workspace_idx m - 1\<rparr>)
                   } else Some m)
             else Some m);
       Some (m\<lparr>workspaces := map (ws_update_config opts) (workspaces m),
               mon_base_options := base_opts, mon_options := opts\<rparr>)
     }"

definition mon_update_layout_config :: "layout_part option \<Rightarrow> monitor \<Rightarrow> (monitor \<times> bool) option" where
  "mon_update_layout_config part m =
     (if mon_layout_config m = part then Some (m, False)
      else map_option (\<lambda>m. (m, True))
             (mon_update_config (mon_base_options m) (m\<lparr>mon_layout_config := part\<rparr>)))"

end
