(* ===== verification/WorkspaceInv.thy ===== *)
theory WorkspaceInv
  imports Workspace ScrollingSpec FloatingSpec
begin

text \<open>
  The invariant of a workspace (\<open>Workspace::verify_invariants\<close>), and the fact that its
  operations return, keep the invariant and account for the windows of both spaces.
\<close>

section \<open>The invariant\<close>

definition spaces_ok :: "client_view \<Rightarrow> scrolling \<Rightarrow> floating \<Rightarrow> floating_active \<Rightarrow> bool" where
  "spaces_ok cv s f a \<longleftrightarrow>
     scrolling_ok s \<and> fl_ok cv f \<and> distinct (scrolling_windows s @ fl_windows f) \<and>
     (fl_tiles f = [] \<longrightarrow> a \<noteq> FloatingYes) \<and>
     (fl_tiles f \<noteq> [] \<and> columns s = [] \<longrightarrow> a = FloatingYes)"

definition ws_ok :: "client_view \<Rightarrow> workspace \<Rightarrow> bool" where
  "ws_ok cv ws \<longleftrightarrow> spaces_ok cv (ws_scrolling ws) (ws_floating ws) (floating_is_active ws)"

text \<open>Only the two spaces and the focus flag differ\<close>

definition ws_frame :: "workspace \<Rightarrow> workspace \<Rightarrow> bool" where
  "ws_frame ws ws' \<longleftrightarrow>
     ws' = ws\<lparr>ws_scrolling := ws_scrolling ws', ws_floating := ws_floating ws',
             floating_is_active := floating_is_active ws'\<rparr>"

lemma ws_frame_upd [simp]:
  "ws_frame ws (ws\<lparr>ws_scrolling := s\<rparr>)" "ws_frame ws (ws\<lparr>ws_floating := f\<rparr>)"
  "ws_frame ws (ws\<lparr>floating_is_active := a\<rparr>)"
  "ws_frame ws (ws\<lparr>ws_scrolling := s, ws_floating := f\<rparr>)"
  "ws_frame ws (ws\<lparr>ws_scrolling := s, floating_is_active := a\<rparr>)"
  "ws_frame ws (ws\<lparr>ws_floating := f, floating_is_active := a\<rparr>)"
  "ws_frame ws (ws\<lparr>ws_scrolling := s, ws_floating := f, floating_is_active := a\<rparr>)"
  by (simp_all add: ws_frame_def)

lemma ws_frame_refl [simp]: "ws_frame ws ws"
  by (simp add: ws_frame_def)

lemma ws_frame_trans:
  assumes "ws_frame a b" "ws_frame b c"
  shows "ws_frame a c"
proof -
  from assms(1) obtain s f x where
    b: "b = a\<lparr>ws_scrolling := s, ws_floating := f, floating_is_active := x\<rparr>"
    unfolding ws_frame_def by blast
  from assms(2) obtain s' f' x' where
    c: "c = b\<lparr>ws_scrolling := s', ws_floating := f', floating_is_active := x'\<rparr>"
    unfolding ws_frame_def by blast
  show ?thesis by (simp add: b c ws_frame_def)
qed

lemma ws_frameD:
  assumes "ws_frame ws ws'"
  shows "ws_id ws' = ws_id ws" "ws_name ws' = ws_name ws" "ws_hidden ws' = ws_hidden ws"
    "needs_hidden ws' = needs_hidden ws" "original_idx ws' = original_idx ws"
    "ws_output ws' = ws_output ws" "original_outputs ws' = original_outputs ws"
    "base_options ws' = base_options ws" "ws_options ws' = ws_options ws"
    "layout_config ws' = layout_config ws"
proof -
  from assms obtain s f a where "ws' = ws\<lparr>ws_scrolling := s, ws_floating := f, floating_is_active := a\<rparr>"
    unfolding ws_frame_def by blast
  then show "ws_id ws' = ws_id ws" "ws_name ws' = ws_name ws" "ws_hidden ws' = ws_hidden ws"
    "needs_hidden ws' = needs_hidden ws" "original_idx ws' = original_idx ws"
    "ws_output ws' = ws_output ws" "original_outputs ws' = original_outputs ws"
    "base_options ws' = base_options ws" "ws_options ws' = ws_options ws"
    "layout_config ws' = layout_config ws" by simp_all
qed

definition ws_mset :: "workspace \<Rightarrow> win_id multiset" where
  "ws_mset ws = win_mset (columns (ws_scrolling ws)) + fl_mset (ws_floating ws)"

lemma ws_mset_windows: "ws_mset ws = mset (ws_windows ws)"
  by (simp add: ws_mset_def ws_windows_def win_mset_scrolling fl_mset_def)

definition ws_keeps :: "client_view \<Rightarrow> workspace \<Rightarrow> workspace \<Rightarrow> bool" where
  "ws_keeps cv ws ws' \<longleftrightarrow> ws_ok cv ws' \<and> ws_mset ws' = ws_mset ws \<and> ws_frame ws ws'"

lemma ws_keeps_refl: "ws_ok cv ws \<Longrightarrow> ws_keeps cv ws ws"
  by (simp add: ws_keeps_def)

lemma ws_keeps_trans: "ws_keeps cv a b \<Longrightarrow> ws_keeps cv b c \<Longrightarrow> ws_keeps cv a c"
  by (auto simp: ws_keeps_def intro: ws_frame_trans)

lemma ws_okD:
  assumes "ws_ok cv ws"
  shows "scrolling_ok (ws_scrolling ws)" "fl_ok cv (ws_floating ws)" "distinct (ws_windows ws)"
    "distinct (scrolling_windows (ws_scrolling ws))" "distinct (fl_windows (ws_floating ws))"
    "set (scrolling_windows (ws_scrolling ws)) \<inter> set (fl_windows (ws_floating ws)) = {}"
    "fl_tiles (ws_floating ws) = [] \<Longrightarrow> floating_is_active ws \<noteq> FloatingYes"
    "fl_tiles (ws_floating ws) \<noteq> [] \<Longrightarrow> columns (ws_scrolling ws) = [] \<Longrightarrow>
       floating_is_active ws = FloatingYes"
  using assms by (auto simp: ws_ok_def spaces_ok_def ws_windows_def)

lemma scrolling_empty_iff:
  assumes "scrolling_ok s"
  shows "columns s = [] \<longleftrightarrow> win_mset (columns s) = {#}"
proof
  assume "win_mset (columns s) = {#}"
  then have "\<forall>c \<in> set (columns s). wins c = []" by (simp add: win_mset_def)
  moreover have "\<forall>c \<in> set (columns s). tiles c \<noteq> []"
    using scrolling_okD(1) [OF assms] by (auto simp: cols_ok_def list_all_iff col_ok_def)
  ultimately show "columns s = []"
    by (metis length_0_conv length_wins list.set_intros(1) neq_Nil_conv)
qed (simp add: win_mset_def)

lemma keeps_empty: "scrolling_ok s \<Longrightarrow> keeps s s' \<Longrightarrow> columns s' = [] \<longleftrightarrow> columns s = []"
  unfolding keeps_def by (metis scrolling_empty_iff)

lemma distinct_by_mset: "mset xs = mset ys \<Longrightarrow> distinct ys \<Longrightarrow> distinct xs"
  by (metis mset_eq_imp_distinct_iff)

text \<open>Exchanging one of the two spaces for one with the same windows\<close>

lemma ws_keeps_scrolling:
  assumes "ws_ok cv ws" "keeps (ws_scrolling ws) s"
  shows "ws_keeps cv ws (ws\<lparr>ws_scrolling := s\<rparr>)"
proof -
  have "mset (scrolling_windows s @ fl_windows (ws_floating ws)) = mset (ws_windows ws)"
    using assms(2) by (simp add: keeps_def win_mset_scrolling ws_windows_def)
  with ws_okD(3) [OF assms(1)] have "distinct (scrolling_windows s @ fl_windows (ws_floating ws))"
    using distinct_by_mset by blast
  then show ?thesis
    using assms keeps_empty [OF ws_okD(1) [OF assms(1)] assms(2)]
    by (simp add: ws_keeps_def ws_ok_def spaces_ok_def ws_mset_def keeps_def)
qed

lemma ws_keeps_floating:
  assumes "ws_ok cv ws" "fl_keeps cv (ws_floating ws) f"
  shows "ws_keeps cv ws (ws\<lparr>ws_floating := f\<rparr>)"
proof -
  have "mset (scrolling_windows (ws_scrolling ws) @ fl_windows f) = mset (ws_windows ws)"
    using assms(2) by (simp add: fl_keeps_def fl_mset_def ws_windows_def)
  with ws_okD(3) [OF assms(1)] have "distinct (scrolling_windows (ws_scrolling ws) @ fl_windows f)"
    using distinct_by_mset by blast
  then show ?thesis
    using assms fl_keeps_empty [OF assms(2)]
    by (simp add: ws_keeps_def ws_ok_def spaces_ok_def ws_mset_def fl_keeps_def)
qed

lemma on_scrolling_keeps:
  assumes "ws_ok cv ws" "returns (f (ws_scrolling ws)) (keeps (ws_scrolling ws))"
  shows "returns (on_scrolling f ws) (ws_keeps cv ws)"
  using assms(2) ws_keeps_scrolling [OF assms(1)] by (auto simp: on_scrolling_def elim!: returns_mono)

lemma on_floating_keeps:
  assumes "ws_ok cv ws" "returns (f (ws_floating ws)) (fl_keeps cv (ws_floating ws))"
  shows "returns (on_floating f ws) (ws_keeps cv ws)"
  using assms(2) ws_keeps_floating [OF assms(1)] by (auto simp: on_floating_def elim!: returns_mono)

lemma on_scrolling_flag_keeps:
  assumes "ws_ok cv ws" "returns (f (ws_scrolling ws)) (\<lambda>(s, b). keeps (ws_scrolling ws) s)"
  shows "returns (on_scrolling_flag f ws) (\<lambda>(ws', b). ws_keeps cv ws ws')"
  using assms(2) ws_keeps_scrolling [OF assms(1)] by (auto simp: on_scrolling_flag_def elim!: returns_mono)

lemma on_floating_flag_keeps:
  assumes "ws_ok cv ws" "returns (f (ws_floating ws)) (\<lambda>(s, b). fl_keeps cv (ws_floating ws) s)"
  shows "returns (on_floating_flag f ws) (\<lambda>(ws', b). ws_keeps cv ws ws')"
  using assms(2) ws_keeps_floating [OF assms(1)] by (auto simp: on_floating_flag_def elim!: returns_mono)

lemma ws_keeps_ok: "ws_keeps cv ws ws' \<Longrightarrow> ws_ok cv ws'"
  by (simp add: ws_keeps_def)

lemma ws_keeps_set: "ws_keeps cv ws ws' \<Longrightarrow> set (ws_windows ws') = set (ws_windows ws)"
  unfolding ws_keeps_def ws_mset_windows by (metis set_mset_mset)

text \<open>The active window: there is one exactly when the workspace has a window\<close>

lemma scrolling_active_returns:
  assumes "scrolling_ok s"
  shows "returns (scrolling_active_window s) (\<lambda>a. case a of
           None \<Rightarrow> columns s = [] | Some w \<Rightarrow> w \<in> set (scrolling_windows s))"
proof (cases "columns s = []")
  case True
  then show ?thesis by (simp add: scrolling_active_window_def)
next
  case False
  let ?a = "active_column_idx s"
  have a: "?a < length (columns s)" using scrolling_okD(3) [OF assms False] .
  have c: "col_ok (columns s ! ?a)" using cols_ok_nth scrolling_okD(1) [OF assms] a by blast
  have "wins (columns s ! ?a) ! active_tile_idx (columns s ! ?a) \<in> set (scrolling_windows s)"
    using a col_okD(2) [OF c] unfolding in_windows_conv by (intro exI [of _ ?a]) simp
  with active_windowI [OF assms a] show ?thesis by simp
qed

lemma ws_active_window_returns:
  assumes "ws_ok cv ws"
  shows "returns (ws_active_window ws) (\<lambda>a. case a of
           None \<Rightarrow> ws_windows ws = []
         | Some w \<Rightarrow> w \<in> set (if floating_active_get ws then fl_windows (ws_floating ws)
                             else scrolling_windows (ws_scrolling ws)))"
proof (cases "floating_active_get ws")
  case True
  then have ne: "fl_tiles (ws_floating ws) \<noteq> []"
    using ws_okD(7) [OF assms] by (auto simp: floating_active_get_def)
  note f = ws_okD(2) [OF assms]
  from ne fl_okD(2) [OF f] obtain w where "fl_active (ws_floating ws) = Some w" by auto
  with True fl_active_window_eq [OF f] fl_okD(3) [OF f] show ?thesis
    by (simp add: ws_active_window_def)
next
  case False
  have "columns (ws_scrolling ws) = [] \<Longrightarrow> fl_tiles (ws_floating ws) = []"
    using False ws_okD(8) [OF assms] by (auto simp: floating_active_get_def)
  then have "columns (ws_scrolling ws) = [] \<Longrightarrow> ws_windows ws = []"
    by (simp add: ws_windows_def scrolling_windows_def fl_windows_def)
  with False scrolling_active_returns [OF ws_okD(1) [OF assms]] show ?thesis
    by (auto simp: ws_active_window_def elim!: returns_mono split: option.splits)
qed

section \<open>Focus and movement\<close>

lemma ws_focus_keeps:
  assumes "parents_acyclic cv" "ws_ok cv ws"
  shows "returns (ws_focus_left cv ws) (\<lambda>(ws', b). ws_keeps cv ws ws')"
    "returns (ws_focus_right cv ws) (\<lambda>(ws', b). ws_keeps cv ws ws')"
    "returns (ws_focus_up cv ws) (\<lambda>(ws', b). ws_keeps cv ws ws')"
    "returns (ws_focus_down cv ws) (\<lambda>(ws', b). ws_keeps cv ws ws')"
proof -
  note sc = sc_flag_steps [OF ws_okD(1) [OF assms(2)]]
  note fl = fl_focus_keeps [OF assms(1) ws_okD(2) [OF assms(2)]]
  note lift = on_scrolling_flag_keeps [OF assms(2)] on_floating_flag_keeps [OF assms(2)]
  show "returns (ws_focus_left cv ws) (\<lambda>(ws', b). ws_keeps cv ws ws')"
    using sc fl unfolding ws_focus_left_def by (auto intro!: lift split: if_split)
  show "returns (ws_focus_right cv ws) (\<lambda>(ws', b). ws_keeps cv ws ws')"
    using sc fl unfolding ws_focus_right_def by (auto intro!: lift split: if_split)
  show "returns (ws_focus_up cv ws) (\<lambda>(ws', b). ws_keeps cv ws ws')"
    using sc fl unfolding ws_focus_up_def by (auto intro!: lift split: if_split)
  show "returns (ws_focus_down cv ws) (\<lambda>(ws', b). ws_keeps cv ws ws')"
    using sc fl unfolding ws_focus_down_def by (auto intro!: lift split: if_split)
qed

lemma tiling_only_keeps:
  assumes "ws_ok cv ws" "returns (f (ws_scrolling ws)) (keeps (ws_scrolling ws))"
  shows "returns (tiling_only f ws) (ws_keeps cv ws)"
  using on_scrolling_keeps [where f = f, OF assms] ws_keeps_refl [OF assms(1)]
  by (simp add: tiling_only_def)

text \<open>A second operation after a first one that kept the workspace\<close>

lemma keeps_then:
  assumes "returns m (\<lambda>(ws', b). ws_keeps cv ws ws')"
    and "\<And>ws' b. ws_keeps cv ws ws' \<Longrightarrow> returns (g ws' b) (ws_keeps cv ws')"
  shows "returns (do { (ws', b) \<leftarrow> m; g ws' b }) (ws_keeps cv ws)"
proof -
  from assms(1) obtain ws' b where m: "m = Some (ws', b)" "ws_keeps cv ws ws'"
    by (auto elim!: returnsE)
  from assms(2) [OF m(2), of b] m show ?thesis
    by (auto elim!: returns_mono intro: ws_keeps_trans)
qed

lemma keeps_fst: "returns m (\<lambda>(ws', b). ws_keeps cv ws ws') \<Longrightarrow> returns (map_option fst m) (ws_keeps cv ws)"
  by (auto elim!: returns_mono)

lemma ws_focus_edges_keep:
  assumes "parents_acyclic cv" "ws_ok cv ws"
  shows "returns (ws_focus_column_first cv ws) (ws_keeps cv ws)"
    "returns (ws_focus_column_last cv ws) (ws_keeps cv ws)"
    "returns (focus_window_top cv ws) (ws_keeps cv ws)"
    "returns (focus_window_bottom cv ws) (ws_keeps cv ws)"
    "returns (if floating_active_get ws then on_floating (fl_focus_leftmost cv) ws
       else on_scrolling (if ws_vertical ws then focus_top else focus_column_first) ws) (ws_keeps cv ws)"
    "returns (if floating_active_get ws then on_floating (fl_focus_rightmost cv) ws
       else on_scrolling (if ws_vertical ws then focus_bottom else focus_column_last) ws) (ws_keeps cv ws)"
    "returns (focus_column_in_direction cv fwd ws) (ws_keeps cv ws)"
proof -
  note sc = sc_plain_steps [OF ws_okD(1) [OF assms(2)]]
  note fl = fl_focus_edge_keeps [OF assms(1) ws_okD(2) [OF assms(2)]]
  note lift = on_scrolling_keeps [OF assms(2)] on_floating_keeps [OF assms(2)]
  note flags = on_scrolling_flag_keeps [OF assms(2)] on_floating_flag_keeps [OF assms(2)]
  show "returns (ws_focus_column_first cv ws) (ws_keeps cv ws)"
    using sc fl unfolding ws_focus_column_first_def by (auto intro!: lift split: if_split)
  show "returns (ws_focus_column_last cv ws) (ws_keeps cv ws)"
    using sc fl unfolding ws_focus_column_last_def by (auto intro!: lift split: if_split)
  show "returns (focus_window_top cv ws) (ws_keeps cv ws)"
    using sc fl unfolding focus_window_top_def by (auto intro!: lift split: if_split)
  show "returns (focus_window_bottom cv ws) (ws_keeps cv ws)"
    using sc fl unfolding focus_window_bottom_def by (auto intro!: lift split: if_split)
  show "returns (if floating_active_get ws then on_floating (fl_focus_leftmost cv) ws
      else on_scrolling (if ws_vertical ws then focus_top else focus_column_first) ws) (ws_keeps cv ws)"
    using sc fl by (auto intro!: lift split: if_split)
  show "returns (if floating_active_get ws then on_floating (fl_focus_rightmost cv) ws
      else on_scrolling (if ws_vertical ws then focus_bottom else focus_column_last) ws) (ws_keeps cv ws)"
    using sc fl by (auto intro!: lift split: if_split)
  show "returns (focus_column_in_direction cv fwd ws) (ws_keeps cv ws)"
    unfolding focus_column_in_direction_def
    using sc_flag_steps [OF ws_okD(1) [OF assms(2)]]
      fl_focus_keeps [OF assms(1) ws_okD(2) [OF assms(2)]]
    by (intro keeps_fst) (auto intro!: flags split: if_split)
qed

lemma ws_focus_wrap_keeps:
  assumes "parents_acyclic cv" "ws_ok cv ws"
  shows "returns (focus_column_right_or_first cv ws) (ws_keeps cv ws)"
    "returns (focus_column_left_or_last cv ws) (ws_keeps cv ws)"
    "returns (focus_window_down_or_top cv ws) (ws_keeps cv ws)"
    "returns (focus_window_up_or_bottom cv ws) (ws_keeps cv ws)"
proof -
  have next_step: "returns (if b then Some ws' else g) (ws_keeps cv ws')"
    if "ws_keeps cv ws ws'" "returns g (ws_keeps cv ws')" for ws' b g
    using that ws_keeps_refl [OF ws_keeps_ok [OF that(1)]] by simp
  note edge = ws_focus_edges_keep [OF assms(1) ws_keeps_ok]
  show "returns (focus_column_right_or_first cv ws) (ws_keeps cv ws)"
    unfolding focus_column_right_or_first_def
    by (rule keeps_then [OF ws_focus_keeps(2) [OF assms]]) (blast intro: next_step edge(5))
  show "returns (focus_column_left_or_last cv ws) (ws_keeps cv ws)"
    unfolding focus_column_left_or_last_def
    by (rule keeps_then [OF ws_focus_keeps(1) [OF assms]]) (blast intro: next_step edge(6))
  show "returns (focus_window_down_or_top cv ws) (ws_keeps cv ws)"
    unfolding focus_window_down_or_top_def
    by (rule keeps_then [OF ws_focus_keeps(4) [OF assms]]) (blast intro: next_step edge(3))
  show "returns (focus_window_up_or_bottom cv ws) (ws_keeps cv ws)"
    unfolding focus_window_up_or_bottom_def
    by (rule keeps_then [OF ws_focus_keeps(3) [OF assms]]) (blast intro: next_step edge(4))
qed

lemma focus_or_side_keeps:
  assumes "returns (f ws) (\<lambda>(ws', b). ws_keeps cv ws ws')"
    and "\<And>ws'. ws_ok cv ws' \<Longrightarrow> returns (g ws') (\<lambda>(ws'', b). ws_keeps cv ws' ws'')"
  shows "returns (focus_or_side f g ws) (ws_keeps cv ws)"
  unfolding focus_or_side_def
proof (rule keeps_then [OF assms(1)])
  fix ws' b
  assume "ws_keeps cv ws ws'"
  then have ok: "ws_ok cv ws'" by (rule ws_keeps_ok)
  show "returns (if \<not> b \<and> \<not> floating_active_get ws' then map_option fst (g ws') else Some ws')
      (ws_keeps cv ws')"
    using keeps_fst [OF assms(2) [OF ok]] ws_keeps_refl [OF ok] by (simp del: returns_map_option)
qed

lemma ws_focus_or_side_keeps:
  assumes "parents_acyclic cv" "ws_ok cv ws"
  shows "returns (ws_focus_down_or_left cv ws) (ws_keeps cv ws)"
    "returns (ws_focus_down_or_right cv ws) (ws_keeps cv ws)"
    "returns (ws_focus_up_or_left cv ws) (ws_keeps cv ws)"
    "returns (ws_focus_up_or_right cv ws) (ws_keeps cv ws)"
  unfolding ws_focus_down_or_left_def ws_focus_down_or_right_def ws_focus_up_or_left_def
    ws_focus_up_or_right_def
  by (intro focus_or_side_keeps ws_focus_keeps assms; assumption)+

lemma switch_focus_keeps: "ws_ok cv ws \<Longrightarrow> ws_keeps cv ws (switch_focus_floating_tiling ws)"
  by (auto simp: switch_focus_floating_tiling_def ws_keeps_def ws_ok_def spaces_ok_def ws_mset_def)

lemma focus_floating_keeps:
  assumes "ws_ok cv ws"
  shows "ws_keeps cv ws (focus_floating ws)" "ws_keeps cv ws (focus_tiling ws)"
  using switch_focus_keeps [OF assms] ws_keeps_refl [OF assms]
  by (simp_all add: focus_floating_def focus_tiling_def)

lemma ws_focus_column_keeps:
  assumes "ws_ok cv ws"
  shows "returns (ws_focus_column k ws) (ws_keeps cv ws)"
proof -
  let ?w = "if floating_active_get ws then focus_tiling ws else ws"
  have k: "ws_keeps cv ws ?w" using focus_floating_keeps(2) [OF assms] ws_keeps_refl [OF assms] by simp
  note ok = ws_keeps_ok [OF k]
  have "returns (on_scrolling (focus_column k) ?w) (ws_keeps cv ?w)"
    by (rule on_scrolling_keeps [OF ok]) (rule sc_plain_steps(6) [OF ws_okD(1) [OF ok]])
  then show ?thesis
    unfolding ws_focus_column_def by (rule returns_mono) (rule ws_keeps_trans [OF k])
qed

lemma ws_move_keeps:
  assumes "ws_ok cv ws"
  shows "returns (ws_move_left ws) (\<lambda>(ws', b). ws_keeps cv ws ws')"
    "returns (ws_move_right ws) (\<lambda>(ws', b). ws_keeps cv ws ws')"
    "returns (ws_move_up ws) (\<lambda>(ws', b). ws_keeps cv ws ws')"
    "returns (ws_move_down ws) (\<lambda>(ws', b). ws_keeps cv ws ws')"
proof -
  note sc = sc_flag_steps [OF ws_okD(1) [OF assms]]
  have "returns (fl_move_window None (ws_floating ws)) (fl_keeps cv (ws_floating ws))"
    by (rule fl_move_window_keeps [OF ws_okD(2) [OF assms]]) simp
  from on_floating_keeps [where f = "fl_move_window None", OF assms this]
  have fl: "returns (floating_moved ws) (\<lambda>(ws', b). ws_keeps cv ws ws')"
    by (simp add: floating_moved_def)
  note lift = on_scrolling_flag_keeps [OF assms]
  show "returns (ws_move_left ws) (\<lambda>(ws', b). ws_keeps cv ws ws')"
    using sc fl unfolding ws_move_left_def by (auto intro!: lift split: if_split)
  show "returns (ws_move_right ws) (\<lambda>(ws', b). ws_keeps cv ws ws')"
    using sc fl unfolding ws_move_right_def by (auto intro!: lift split: if_split)
  show "returns (ws_move_up ws) (\<lambda>(ws', b). ws_keeps cv ws ws')"
    using sc fl unfolding ws_move_up_def by (auto intro!: lift split: if_split)
  show "returns (ws_move_down ws) (\<lambda>(ws', b). ws_keeps cv ws ws')"
    using sc fl unfolding ws_move_down_def by (auto intro!: lift split: if_split)
qed

section \<open>Adding and removing\<close>

text \<open>The workspace gained exactly the window \<open>w\<close>\<close>

definition ws_gains :: "client_view \<Rightarrow> win_id multiset \<Rightarrow> workspace \<Rightarrow> workspace \<Rightarrow> bool" where
  "ws_gains cv ws_new ws ws' \<longleftrightarrow> ws_ok cv ws' \<and> ws_mset ws' = ws_new + ws_mset ws \<and> ws_frame ws ws'"

lemma ws_mset_fresh: "w \<notin> set (ws_windows ws) \<longleftrightarrow> w \<notin># ws_mset ws"
  by (simp add: ws_mset_windows)

lemma distinct_gain:
  assumes "distinct xs" "mset ys = mset zs + mset xs" "distinct zs" "set zs \<inter> set xs = {}"
  shows "distinct ys"
proof -
  have "distinct (zs @ xs)" using assms by auto
  moreover have "mset ys = mset (zs @ xs)" using assms(2) by simp
  ultimately show ?thesis using distinct_by_mset by blast
qed

lemma ws_gains_scrolling:
  assumes "ws_ok cv ws" "scrolling_ok s" "win_mset (columns s) = mset zs + win_mset (columns (ws_scrolling ws))"
    and "distinct zs" "set zs \<inter> set (ws_windows ws) = {}" "zs \<noteq> []"
  shows "ws_gains cv (mset zs) ws (focus_tiling_if b (ws\<lparr>ws_scrolling := s\<rparr>))"
proof -
  have "mset (scrolling_windows s @ fl_windows (ws_floating ws)) = mset zs + mset (ws_windows ws)"
    using assms(3) by (simp add: win_mset_scrolling ws_windows_def)
  from distinct_gain [OF ws_okD(3) [OF assms(1)] this assms(4,5)]
  have d: "distinct (scrolling_windows s @ fl_windows (ws_floating ws))" .
  have "win_mset (columns s) \<noteq> {#}" using assms(3,6) by simp
  then have ne: "columns s \<noteq> []" by (auto simp: win_mset_def)
  have "ws_ok cv (ws\<lparr>ws_scrolling := s\<rparr>)"
    using d ne assms(1,2) by (simp add: ws_ok_def spaces_ok_def)
  moreover have "ws_ok cv (ws\<lparr>ws_scrolling := s, floating_is_active := FloatingNo\<rparr>)"
    using d ne assms(1,2) by (simp add: ws_ok_def spaces_ok_def)
  moreover have "ws_mset (ws\<lparr>ws_scrolling := s\<rparr>) = mset zs + ws_mset ws"
    "ws_mset (ws\<lparr>ws_scrolling := s, floating_is_active := FloatingNo\<rparr>) = mset zs + ws_mset ws"
    using assms(3) by (simp_all add: ws_mset_def)
  ultimately show ?thesis by (simp add: ws_gains_def focus_tiling_if_def)
qed

lemma ws_gains_floating:
  assumes "ws_ok cv ws" "fl_ok cv f" "fl_mset f = add_mset w (fl_mset (ws_floating ws))"
    and "w \<notin> set (ws_windows ws)"
  shows "ws_gains cv {#w#} ws (focus_floating_if b (ws\<lparr>ws_floating := f\<rparr>))"
proof -
  have "mset (scrolling_windows (ws_scrolling ws) @ fl_windows f) = mset [w] + mset (ws_windows ws)"
    using assms(3) by (simp add: fl_mset_def ws_windows_def)
  from distinct_gain [OF ws_okD(3) [OF assms(1)] this] assms(4)
  have d: "distinct (scrolling_windows (ws_scrolling ws) @ fl_windows f)" by simp
  have ne: "fl_tiles f \<noteq> []" using assms(3) by (auto simp: fl_mset_tiles)
  have "ws_ok cv (ws\<lparr>ws_floating := f, floating_is_active := FloatingYes\<rparr>)"
    using d ne assms(1,2) by (simp add: ws_ok_def spaces_ok_def)
  moreover have "columns (ws_scrolling ws) \<noteq> [] \<Longrightarrow> ws_ok cv (ws\<lparr>ws_floating := f\<rparr>)"
    using d ne assms(1,2) by (simp add: ws_ok_def spaces_ok_def)
  moreover have "ws_mset (ws\<lparr>ws_floating := f\<rparr>) = {#w#} + ws_mset ws"
    "ws_mset (ws\<lparr>ws_floating := f, floating_is_active := FloatingYes\<rparr>) = {#w#} + ws_mset ws"
    using assms(3) by (simp_all add: ws_mset_def)
  ultimately show ?thesis by (simp add: ws_gains_def focus_floating_if_def)
qed

lemma on_scrolling_add:
  assumes "ws_ok cv ws" "w \<notin> set (ws_windows ws)"
    and "returns (f (ws_scrolling ws)) (\<lambda>s. scrolling_ok s \<and>
           win_mset (columns s) = add_mset w (win_mset (columns (ws_scrolling ws))))"
  shows "returns (do { ws \<leftarrow> on_scrolling f ws; Some (focus_tiling_if b ws) }) (ws_gains cv {#w#} ws)"
proof -
  from assms(3) obtain s where s: "f (ws_scrolling ws) = Some s" "scrolling_ok s"
    "win_mset (columns s) = mset [w] + win_mset (columns (ws_scrolling ws))"
    by (auto elim!: returnsE)
  from ws_gains_scrolling [OF assms(1) s(2,3)] assms(2) s(1) show ?thesis
    by (simp add: on_scrolling_def)
qed

lemma on_floating_add:
  assumes "ws_ok cv ws" "w \<notin> set (ws_windows ws)"
    and "returns (f (ws_floating ws)) (\<lambda>s. fl_ok cv s \<and> fl_mset s = add_mset w (fl_mset (ws_floating ws)))"
  shows "returns (do { ws \<leftarrow> on_floating f ws; Some (focus_floating_if b ws) }) (ws_gains cv {#w#} ws)"
proof -
  from assms(3) obtain s where s: "f (ws_floating ws) = Some s" "fl_ok cv s"
    "fl_mset s = add_mset w (fl_mset (ws_floating ws))"
    by (auto elim!: returnsE)
  from ws_gains_floating [OF assms(1) s(2,3) assms(2)] s(1) show ?thesis
    by (simp add: on_floating_def)
qed

text \<open>Where a caller may put a new window\<close>

fun target_valid :: "add_window_target \<Rightarrow> workspace \<Rightarrow> bool" where
  "target_valid Auto ws = True"
| "target_valid (NewColumnAt i) ws = (i \<le> length (columns (ws_scrolling ws)))"
| "target_valid (NextTo w) ws = (w \<in> set (ws_windows ws))"

lemma map_smart_returns: "returns f (\<lambda>_. True) \<Longrightarrow> returns (map_smart a f) (\<lambda>_. True)"
  by (cases a) simp_all

lemma fullscreen_returns: "scrolling_ok s \<Longrightarrow> returns (is_active_pending_fullscreen s) (\<lambda>_. True)"
  using scrolling_okD(3) [of s] by (simp add: is_active_pending_fullscreen_def)

lemma ws_add_tile_returns:
  assumes cv: "parents_acyclic cv" and ok: "ws_ok cv ws"
    and fresh: "win t \<notin> set (ws_windows ws)" and target: "target_valid target ws"
  shows "returns (ws_add_tile cv t target activate width full fl ws) (ws_gains cv {#win t#} ws)"
proof -
  define u where "u = t\<lparr>restore_to_floating := fl\<rparr>"
  have wu: "win u = win t" by (simp add: u_def)
  let ?s = "ws_scrolling ws" and ?f = "ws_floating ws"
  have sc: "returns (add_tile (ws_options ws) i u a width full ?s) (\<lambda>s. scrolling_ok s \<and>
      win_mset (columns s) = add_mset (win t) (win_mset (columns ?s)))"
    if "add_column_index i ?s \<le> length (columns ?s)" for i a
    using add_tile_win_mset [OF ws_okD(1) [OF ok] that, of "ws_options ws" u a width full] by (simp add: wu)
  have fl: "returns (fl_add_tile cv u a ?f) (\<lambda>s. fl_ok cv s \<and> fl_mset s = add_mset (win t) (fl_mset ?f))" for a
    using fl_add_tile_returns [OF cv ws_okD(2) [OF ok], of u a] by (auto simp: wu elim!: returns_mono)
  note none = add_column_index_None [OF ws_okD(1) [OF ok]]
  note sc_add = on_scrolling_add [OF ok fresh] and fl_add = on_floating_add [OF ok fresh]
  have tiled: "returns (do { ws \<leftarrow> on_scrolling (add_tile (ws_options ws) i u a width full) ws;
        Some (focus_tiling_if a ws) }) (ws_gains cv {#win t#} ws)"
    if "add_column_index i ?s \<le> length (columns ?s)" for i a
    by (rule sc_add) (rule sc [OF that])
  have floated: "returns (do { ws \<leftarrow> on_floating (fl_add_tile cv u a) ws;
        Some (focus_floating_if a ws) }) (ws_gains cv {#win t#} ws)" for a
    by (rule fl_add) (rule fl)
  have act: "\<exists>a. map_smart activate m = Some a" if "returns m (\<lambda>_. True)" for m
    using map_smart_returns [OF that, of activate] by (auto simp: returns_Ex)
  show ?thesis
  proof (cases target)
    case Auto
    have "returns (map_option Not (is_active_pending_fullscreen ?s)) (\<lambda>_. True)"
      using fullscreen_returns [OF ws_okD(1) [OF ok]] by simp
    from act [OF this] obtain a where a:
      "map_smart activate (map_option Not (is_active_pending_fullscreen ?s)) = Some a" by blast
    have "ws_add_tile cv t target activate width full fl ws =
        (if fl \<and> pending_mode t = ModeNormal
         then do { ws \<leftarrow> on_floating (fl_add_tile cv u a) ws; Some (focus_floating_if a ws) }
         else do { ws \<leftarrow> on_scrolling (add_tile (ws_options ws) None u a width full) ws;
                   Some (focus_tiling_if a ws) })"
      using Auto a by (simp add: ws_add_tile_def Let_def u_def)
    with tiled [OF none] floated show ?thesis by simp
  next
    case (NewColumnAt i)
    from act [of "Some False"] obtain a where a: "map_smart activate (Some False) = Some a" by auto
    have i: "add_column_index (Some i) ?s \<le> length (columns ?s)"
      using target NewColumnAt by (simp add: add_column_index_def)
    have "ws_add_tile cv t target activate width full fl ws =
        do { ws \<leftarrow> on_scrolling (add_tile (ws_options ws) (Some i) u a width full) ws;
             Some (focus_tiling_if a ws) }"
      using NewColumnAt a by (simp add: ws_add_tile_def Let_def u_def)
    with tiled [OF i] show ?thesis by simp
  next
    case (NextTo w)
    with target have w: "w \<in> set (ws_windows ws)" by simp
    then have ne: "ws_windows ws \<noteq> []" by auto
    from ws_active_window_returns [OF ok] ne
    have "returns (do { active \<leftarrow> ws_active_window ws; x \<leftarrow> active; Some (x = w) }) (\<lambda>_. True)"
      by (auto elim!: returns_mono split: option.splits)
    from act [OF this] obtain a where a:
      "map_smart activate (do { active \<leftarrow> ws_active_window ws; x \<leftarrow> active; Some (x = w) }) = Some a" by blast
    show ?thesis
    proof (cases "w \<in> set (fl_windows ?f)")
      case True
      have above: "returns (fl_add_tile_above cv w u a ?f)
          (\<lambda>s. fl_ok cv s \<and> fl_mset s = add_mset (win t) (fl_mset ?f))"
        using fl_add_tile_above_returns [OF cv ws_okD(2) [OF ok] True, of u a]
        by (auto simp: wu elim!: returns_mono)
      have "ws_add_tile cv t target activate width full fl ws =
          (if fl \<and> pending_mode t = ModeNormal
           then do { ws \<leftarrow> on_floating (fl_add_tile_above cv w u a) ws; Some (focus_floating_if a ws) }
           else do { ws \<leftarrow> on_scrolling (add_tile (ws_options ws) None u a width full) ws;
                     Some (focus_tiling_if a ws) })"
        using NextTo a True by (simp add: ws_add_tile_def Let_def u_def)
      moreover have "returns (do { ws \<leftarrow> on_floating (fl_add_tile_above cv w u a) ws;
          Some (focus_floating_if a ws) }) (ws_gains cv {#win t#} ws)"
        by (rule fl_add) (rule above)
      ultimately show ?thesis using tiled [OF none] by simp
    next
      case False
      then have w': "w \<in> set (scrolling_windows ?s)" using w by (simp add: ws_windows_def)
      from position_contains [OF w'] obtain ci where ci:
        "position (column_contains w) (columns ?s) = Some ci" by blast
      have right: "returns (add_tile_right_of (ws_options ws) w u a width full ?s) (\<lambda>s. scrolling_ok s \<and>
          win_mset (columns s) = add_mset (win t) (win_mset (columns ?s)))"
        using add_tile_right_of_win_mset [OF ws_okD(1) [OF ok] w', of "ws_options ws" u a width full] by (simp add: wu)
      have "ws_add_tile cv t target activate width full fl ws =
          (if fl \<and> pending_mode t = ModeNormal
           then do { ws \<leftarrow> on_floating (fl_add_tile cv u a) ws; Some (focus_floating_if a ws) }
           else do { ws \<leftarrow> on_scrolling (add_tile_right_of (ws_options ws) w u a width full) ws;
                     Some (focus_tiling_if a ws) })"
        using NextTo a False ci by (simp add: ws_add_tile_def Let_def u_def)
      moreover have "returns (do { ws \<leftarrow> on_scrolling (add_tile_right_of (ws_options ws) w u a width full) ws;
          Some (focus_tiling_if a ws) }) (ws_gains cv {#win t#} ws)"
        by (rule sc_add) (rule right)
      ultimately show ?thesis using floated by simp
    qed
  qed
qed

lemma ws_add_tile_to_column_returns:
  assumes "ws_ok cv ws" "win t \<notin> set (ws_windows ws)" "ci < length (columns (ws_scrolling ws))"
    and "case ti of Some i \<Rightarrow> i \<le> length (tiles (columns (ws_scrolling ws) ! ci)) | None \<Rightarrow> True"
  shows "returns (ws_add_tile_to_column ci ti t activate ws) (ws_gains cv {#win t#} ws)"
  unfolding ws_add_tile_to_column_def
  by (rule on_scrolling_add [OF assms(1,2)])
    (rule add_tile_to_column_win_mset [OF ws_okD(1) [OF assms(1)] assms(3,4)])

lemma ws_add_column_returns:
  assumes "ws_ok cv ws" "col_ok c" "distinct (wins c)" "set (wins c) \<inter> set (ws_windows ws) = {}"
  shows "returns (ws_add_column c activate ws) (ws_gains cv (mset (wins c)) ws)"
proof -
  have ne: "wins c \<noteq> []" using col_okD(1) [OF assms(2)] by (simp add: wins_def)
  from add_column_returns [OF ws_okD(1) [OF assms(1)] assms(2) add_column_index_None [OF ws_okD(1) [OF assms(1)]],
      of activate]
  obtain s where s: "add_column None c activate (ws_scrolling ws) = Some s" "scrolling_ok s"
    "win_mset (columns s) = mset (wins c) + win_mset (columns (ws_scrolling ws))"
    by (auto simp: win_mset_insert elim!: returnsE)
  from ws_gains_scrolling [OF assms(1) s(2,3) assms(3,4) ne] s(1) show ?thesis
    by (simp add: ws_add_column_def on_scrolling_def)
qed

text \<open>The workspace lost exactly these windows\<close>

definition ws_loses :: "client_view \<Rightarrow> win_id multiset \<Rightarrow> workspace \<Rightarrow> workspace \<Rightarrow> bool" where
  "ws_loses cv gone ws ws' \<longleftrightarrow> ws_ok cv ws' \<and> ws_mset ws = gone + ws_mset ws' \<and> ws_frame ws ws'"

lemma distinct_loss: "distinct xs \<Longrightarrow> mset xs = zs + mset ys \<Longrightarrow> distinct ys"
  by (metis distinct_append ex_mset mset_append distinct_by_mset)

lemma update_focus_frame [simp]:
  "ws_scrolling (update_focus_floating_tiling_after_removing b ws) = ws_scrolling ws"
  "ws_floating (update_focus_floating_tiling_after_removing b ws) = ws_floating ws"
  "ws_mset (update_focus_floating_tiling_after_removing b ws) = ws_mset ws"
  "ws_frame ws (update_focus_floating_tiling_after_removing b ws)"
  by (simp_all add: update_focus_floating_tiling_after_removing_def ws_mset_def)

lemma ws_loses_scrolling:
  assumes "ws_ok cv ws" "scrolling_ok s" "win_mset (columns (ws_scrolling ws)) = gone + win_mset (columns s)"
  shows "ws_loses cv gone ws
           (update_focus_floating_tiling_after_removing False (ws\<lparr>ws_scrolling := s\<rparr>))"
proof -
  let ?ws = "ws\<lparr>ws_scrolling := s\<rparr>"
  have "mset (ws_windows ws) = gone + mset (scrolling_windows s @ fl_windows (ws_floating ws))"
    using assms(3) by (simp add: win_mset_scrolling ws_windows_def)
  from distinct_loss [OF ws_okD(3) [OF assms(1)] this]
  have d: "distinct (scrolling_windows s @ fl_windows (ws_floating ws))" .
  have "ws_ok cv (update_focus_floating_tiling_after_removing False ?ws)"
    using d assms(1,2) ws_okD(7) [OF assms(1)]
    by (auto simp: update_focus_floating_tiling_after_removing_def ws_ok_def spaces_ok_def)
  moreover have "ws_mset ws = gone + ws_mset ?ws" using assms(3) by (simp add: ws_mset_def)
  moreover have "ws_frame ws (update_focus_floating_tiling_after_removing False ?ws)"
    by (rule ws_frame_trans [OF ws_frame_upd(1) update_focus_frame(4)])
  ultimately show ?thesis by (simp add: ws_loses_def)
qed

lemma ws_loses_floating:
  assumes "ws_ok cv ws" "fl_ok cv f" "fl_mset (ws_floating ws) = add_mset w (fl_mset f)"
  shows "ws_loses cv {#w#} ws
           (update_focus_floating_tiling_after_removing True (ws\<lparr>ws_floating := f\<rparr>))"
proof -
  let ?ws = "ws\<lparr>ws_floating := f\<rparr>"
  have ne: "fl_tiles (ws_floating ws) \<noteq> []" using assms(3) by (auto simp: fl_mset_tiles)
  have "mset (ws_windows ws) = {#w#} + mset (scrolling_windows (ws_scrolling ws) @ fl_windows f)"
    using assms(3) by (simp add: fl_mset_def ws_windows_def)
  from distinct_loss [OF ws_okD(3) [OF assms(1)] this]
  have d: "distinct (scrolling_windows (ws_scrolling ws) @ fl_windows f)" .
  have "ws_ok cv (update_focus_floating_tiling_after_removing True ?ws)"
    using d assms(1,2) ws_okD(8) [OF assms(1) ne]
    by (auto simp: update_focus_floating_tiling_after_removing_def ws_ok_def spaces_ok_def)
  moreover have "ws_mset ws = {#w#} + ws_mset ?ws" using assms(3) by (simp add: ws_mset_def)
  moreover have "ws_frame ws (update_focus_floating_tiling_after_removing True ?ws)"
    by (rule ws_frame_trans [OF ws_frame_upd(2) update_focus_frame(4)])
  ultimately show ?thesis by (simp add: ws_loses_def)
qed

lemma ws_remove_tile_returns:
  assumes "ws_ok cv ws" "w \<in> set (ws_windows ws)"
  shows "returns (ws_remove_tile cv w ws) (\<lambda>(r, ws'). ws_loses cv {#w#} ws ws' \<and> win (rt_tile r) = w \<and>
           rt_is_floating r = (w \<in> set (fl_windows (ws_floating ws))) \<and> \<not> rt_is_sticky r \<and>
           (rt_is_floating r \<longrightarrow> pending_mode (rt_tile r) = ModeNormal))"
proof (cases "w \<in> set (fl_windows (ws_floating ws))")
  case True
  from fl_remove_tile_returns [OF ws_okD(2) [OF assms(1)] True] obtain r f where
    r: "fl_remove_tile cv w (ws_floating ws) = Some (r, f)" "fl_ok cv f" "win (rt_tile r) = w"
      "pending_mode (rt_tile r) = ModeNormal" "rt_is_floating r" "\<not> rt_is_sticky r"
      "fl_mset (ws_floating ws) = add_mset w (fl_mset f)"
    by (auto elim!: returnsE)
  from ws_loses_floating [OF assms(1) r(2,7)] r True show ?thesis by (simp add: ws_remove_tile_def)
next
  case False
  with assms(2) have w: "w \<in> set (scrolling_windows (ws_scrolling ws))" by (simp add: ws_windows_def)
  from remove_tile_win_mset [OF ws_okD(1) [OF assms(1)] w] obtain r s where
    r: "remove_tile w (ws_scrolling ws) = Some (r, s)" "scrolling_ok s" "win (rt_tile r) = w"
      "win_mset (columns (ws_scrolling ws)) = {#w#} + win_mset (columns s)"
    by (auto elim!: returnsE)
  have "\<not> rt_is_floating r \<and> \<not> rt_is_sticky r"
    using r(1) by (auto simp: remove_tile_def remove_tile_by_idx_def Let_def bind_eq_Some_conv split: if_splits)
  with ws_loses_scrolling [OF assms(1) r(2,4)] r False show ?thesis by (simp add: ws_remove_tile_def)
qed

lemma ws_remove_active_column_returns:
  assumes "ws_ok cv ws"
  shows "returns (ws_remove_active_column ws) (\<lambda>(c, ws').
           case c of
             None \<Rightarrow> ws' = ws
           | Some c \<Rightarrow> col_ok c \<and> distinct (wins c) \<and> ws_loses cv (mset (wins c)) ws ws')"
proof (cases "floating_active_get ws")
  case True
  then show ?thesis by (simp add: ws_remove_active_column_def)
next
  case False
  from remove_active_column_win_mset [OF ws_okD(1) [OF assms]] obtain c s where
    r: "remove_active_column (ws_scrolling ws) = Some (c, s)" "scrolling_ok s"
      "case c of None \<Rightarrow> columns (ws_scrolling ws) = [] \<and> s = ws_scrolling ws
       | Some c \<Rightarrow> col_ok c \<and> win_mset (columns (ws_scrolling ws)) = mset (wins c) + win_mset (columns s)"
    by (auto elim!: returnsE)
  show ?thesis
  proof (cases c)
    case None
    with r False show ?thesis by (simp add: ws_remove_active_column_def)
  next
    case (Some c')
    with r(3) have c': "col_ok c'" "win_mset (columns (ws_scrolling ws)) = mset (wins c') + win_mset (columns s)"
      by simp_all
    have "mset (scrolling_windows (ws_scrolling ws)) = win_mset (columns s) + mset (wins c')"
      using c'(2) by (simp add: win_mset_scrolling add.commute)
    from distinct_loss [OF ws_okD(4) [OF assms] this] have "distinct (wins c')" .
    with ws_loses_scrolling [OF assms r(2) c'(2)] Some r(1) False c'(1) show ?thesis
      by (simp add: ws_remove_active_column_def)
  qed
qed

section \<open>Floating and tiling\<close>

lemma add_tile_any:
  assumes "scrolling_ok s"
  shows "returns (add_tile opts None t b width full s) (\<lambda>s'. scrolling_ok s' \<and>
           win_mset (columns s') = add_mset (win t) (win_mset (columns s)))"
  by (rule add_tile_win_mset [OF assms add_column_index_None [OF assms]])

lemma toggle_window_floating_returns:
  assumes cv: "parents_acyclic cv" and ok: "ws_ok cv ws"
    and w: "\<And>w. window = Some w \<Longrightarrow> w \<in> set (ws_windows ws)"
  shows "returns (toggle_window_floating cv window ws) (\<lambda>ws'. ws_keeps cv ws ws' \<and>
           (\<forall>w. window = Some w \<longrightarrow>
              (w \<in> set (fl_windows (ws_floating ws')) \<longleftrightarrow> w \<notin> set (fl_windows (ws_floating ws)))))"
proof -
  let ?s = "ws_scrolling ws" and ?f = "ws_floating ws"
  from ws_active_window_returns [OF ok] obtain active where
    a: "ws_active_window ws = Some active" "active = None \<Longrightarrow> ws_windows ws = []"
      "\<And>w. active = Some w \<Longrightarrow> w \<in> set (if floating_active_get ws then fl_windows ?f else scrolling_windows ?s)"
    by (auto elim!: returnsE split: option.splits)
  let ?b = "window = None \<or> window = active"
  show ?thesis
  proof (cases "case window of Some w \<Rightarrow> Some w | None \<Rightarrow> active")
    case None
    with a(1) ok show ?thesis
      by (auto simp: toggle_window_floating_def Let_def ws_keeps_refl split: option.splits)
  next
    case (Some v)
    then have v: "v \<in> set (ws_windows ws)"
      using w a(3) by (auto simp: ws_windows_def split: option.splits if_splits)
    have wv: "window = Some x \<Longrightarrow> x = v" for x using Some by simp
    have d: "distinct (scrolling_windows ?s @ fl_windows ?f)" using ws_okD(3) [OF ok] by (simp add: ws_windows_def)
    have bv: "?b \<longleftrightarrow> active = Some v" using Some by (auto split: option.splits)
    show ?thesis
    proof (cases "v \<in> set (fl_windows ?f)")
      case True
      from fl_remove_tile_returns [OF ws_okD(2) [OF ok] True] obtain r f where
        r: "fl_remove_tile cv v ?f = Some (r, f)" "fl_ok cv f" "win (rt_tile r) = v"
          "fl_mset ?f = add_mset v (fl_mset f)"
        by (auto elim!: returnsE)
      from add_tile_any [OF ws_okD(1) [OF ok], of "ws_options ws" "rt_tile r" ?b "rt_width r" "rt_is_full_width r"] r(3)
      obtain s where s: "add_tile (ws_options ws) None (rt_tile r) ?b (rt_width r) (rt_is_full_width r) ?s = Some s"
          "scrolling_ok s" "win_mset (columns s) = add_mset v (win_mset (columns ?s))"
        by (auto elim!: returnsE)
      let ?ws = "focus_tiling_if ?b (ws\<lparr>ws_floating := f, ws_scrolling := s\<rparr>)"
      have run: "toggle_window_floating cv window ws = Some ?ws"
        using a(1) Some True r(1) s(1) v
        by (simp add: toggle_window_floating_def Let_def ws_has_window_def)
      have ms: "mset (scrolling_windows s @ fl_windows f) = mset (ws_windows ws)"
        using r(4) s(3) by (simp add: ws_windows_def win_mset_scrolling fl_mset_def)
      with ws_okD(3) [OF ok] have d': "distinct (scrolling_windows s @ fl_windows f)"
        using distinct_by_mset by blast
      have ne: "columns s \<noteq> []" using s(3) by (auto simp: win_mset_def)
      have vs: "v \<in># mset (scrolling_windows s)" using s(3) by (simp add: win_mset_scrolling)
      have "floating_is_active ws = FloatingYes \<Longrightarrow> \<not> ?b \<Longrightarrow> fl_tiles f \<noteq> []"
      proof -
        assume fa: "floating_is_active ws = FloatingYes" and "\<not> ?b"
        then have "active \<noteq> Some v" using bv by simp
        have "active \<noteq> None"
        proof
          assume "active = None"
          with a(2) v show False by simp
        qed
        then obtain x where x: "active = Some x" "x \<noteq> v" "x \<in> set (fl_windows ?f)"
          using a(3) fa \<open>active \<noteq> Some v\<close> by (auto simp: floating_active_get_def)
        then have "x \<in># fl_mset f" using r(4) by (simp add: fl_mset_def insert_iff)
          (metis (no_types, lifting) add_mset_remove_trivial_eq insertE set_mset_add_mset_insert set_mset_mset)
        then show "fl_tiles f \<noteq> []" by (auto simp: fl_mset_tiles)
      qed
      then have "ws_ok cv ?ws"
        using d' ne r(2) s(2) by (auto simp: focus_tiling_if_def ws_ok_def spaces_ok_def)
      moreover have "ws_mset ?ws = ws_mset ws"
        using r(4) s(3) by (simp add: focus_tiling_if_def ws_mset_def)
      moreover have "ws_frame ws ?ws"
        by (simp add: focus_tiling_if_def ws_frame_def)
      moreover have "v \<notin> set (fl_windows f)" using d' vs by auto
      ultimately show ?thesis
        unfolding run using True wv by (auto simp: ws_keeps_def focus_tiling_if_def)
    next
      case False
      then have v': "v \<in> set (scrolling_windows ?s)" using v by (simp add: ws_windows_def)
      from remove_tile_win_mset [OF ws_okD(1) [OF ok] v'] obtain r s where
        r: "remove_tile v ?s = Some (r, s)" "scrolling_ok s" "win (rt_tile r) = v"
          "win_mset (columns ?s) = add_mset v (win_mset (columns s))"
        by (auto elim!: returnsE)
      from fl_add_tile_returns [OF cv ws_okD(2) [OF ok], of "rt_tile r" ?b] r(3) obtain f where
        f: "fl_add_tile cv (rt_tile r) ?b ?f = Some f" "fl_ok cv f" "fl_mset f = add_mset v (fl_mset ?f)"
        by (auto elim!: returnsE)
      define ws1 where "ws1 = ws\<lparr>ws_scrolling := s, ws_floating := f\<rparr>"
      let ?ws = "if ?b then ws1\<lparr>floating_is_active := FloatingYes\<rparr> else ws1"
      have run: "toggle_window_floating cv window ws = Some ?ws"
        using a(1) Some False r(1) f(1) v
        by (simp add: toggle_window_floating_def Let_def ws_has_window_def ws1_def)
      have ms: "mset (scrolling_windows s @ fl_windows f) = mset (ws_windows ws)"
        using r(4) f(3) by (simp add: ws_windows_def win_mset_scrolling fl_mset_def)
      with ws_okD(3) [OF ok] have d': "distinct (scrolling_windows s @ fl_windows f)"
        using distinct_by_mset by blast
      have ne: "fl_tiles f \<noteq> []" using f(3) by (auto simp: fl_mset_tiles)
      have "floating_is_active ws \<noteq> FloatingYes \<Longrightarrow> \<not> ?b \<Longrightarrow> columns s \<noteq> []"
      proof -
        assume fa: "floating_is_active ws \<noteq> FloatingYes" and "\<not> ?b"
        then have "active \<noteq> Some v" using bv by simp
        have "active \<noteq> None"
        proof
          assume "active = None"
          with a(2) v show False by simp
        qed
        then obtain x where x: "active = Some x" "x \<noteq> v" "x \<in> set (scrolling_windows ?s)"
          using a(3) fa \<open>active \<noteq> Some v\<close> by (auto simp: floating_active_get_def)
        then have "x \<in># win_mset (columns s)"
          using arg_cong [OF r(4), of set_mset] by (auto simp: win_mset_scrolling)
        then show "columns s \<noteq> []" by (auto simp: win_mset_def)
      qed
      then have "ws_ok cv ?ws"
        using d' ne r(2) f(2) by (auto simp: ws1_def ws_ok_def spaces_ok_def)
      moreover have "ws_mset ?ws = ws_mset ws"
        using r(4) f(3) by (simp add: ws1_def ws_mset_def)
      moreover have "ws_frame ws ?ws" by (simp add: ws1_def ws_frame_def)
      moreover have "v \<in> set (fl_windows f)"
        using f(3) unfolding fl_mset_def by (metis set_mset_mset union_single_eq_member)
      ultimately show ?thesis
        unfolding run using False wv by (auto simp: ws_keeps_def ws1_def)
    qed
  qed
qed

section \<open>Fullscreen and maximized\<close>

lemma windows_tiles: "scrolling_windows s = map win (concat (map tiles (columns s)))"
  by (simp add: scrolling_windows_def map_concat comp_def)

lemma find_tile_Some:
  "w \<in> set (scrolling_windows s) \<Longrightarrow> \<exists>t. find_tile w s = Some t \<and> win t = w"
  using find_win [of w "concat (map tiles (columns s))"] by (simp add: find_tile_def windows_tiles)

lemma set_restore_keeps:
  assumes "scrolling_ok s" "w \<in> set (scrolling_windows s)"
  shows "returns (set_restore_to_floating w b s) (keeps s)"
proof -
  from position_contains [OF assms(2)] obtain ci ti where
    p: "position (column_contains w) (columns s) = Some ci" "ci < length (columns s)"
      "column_position w (columns s ! ci) = Some ti" "ti < length (tiles (columns s ! ci))" .
  let ?c = "columns s ! ci"
  let ?c' = "?c\<lparr>tiles := (tiles ?c)[ti := (tiles ?c ! ti)\<lparr>restore_to_floating := b\<rparr>]\<rparr>"
  have c: "col_ok ?c" using cols_ok_nth scrolling_okD(1) [OF assms(1)] p(2) by blast
  have "wins ?c' = wins ?c"
    using p(4) by (simp add: wins_def map_update) (metis list_update_id map_update)
  moreover have "col_ok ?c'"
    using c p(4) by (auto simp: col_ok_def list_all_length nth_list_update)
  ultimately have "keeps s (set_column ci ?c' s)"
    using set_column_keeps [OF assms(1) p(2), of ?c'] by simp
  with p show ?thesis by (simp add: set_restore_to_floating_def)
qed

lemma change_sizing_keeps:
  assumes "ws_ok cv ws" "w \<in> set (scrolling_windows (ws_scrolling ws))"
    and "returns (change (ws_scrolling ws)) (\<lambda>(s, b). keeps (ws_scrolling ws) s)"
  shows "returns (change_sizing change w restore ws) (ws_keeps cv ws)"
proof -
  let ?s = "ws_scrolling ws"
  from find_tile_Some [OF assms(2)] obtain t where t: "find_tile w ?s = Some t" by blast
  from assms(3) obtain s b where s: "change ?s = Some (s, b)" "keeps ?s s"
    by (auto elim!: returnsE)
  have w: "w \<in> set (scrolling_windows s)" using keeps_set [OF s(2)] assms(2) by simp
  from find_tile_Some [OF w] obtain t' where t': "find_tile w s = Some t'" by blast
  from set_restore_keeps [OF keeps_ok [OF s(2)] w, of restore] obtain s2 where
    s2: "set_restore_to_floating w restore s = Some s2" "keeps s s2" by (auto elim!: returnsE)
  show ?thesis
    using t s t' s2 ws_keeps_scrolling [OF assms(1)] keeps_trans [OF s(2) s2(2)]
    by (auto simp: change_sizing_def Let_def)
qed

lemma toggled_to_tiling:
  assumes "ws_keeps cv ws ws'" "w \<in> set (ws_windows ws)" "w \<notin> set (fl_windows (ws_floating ws'))"
  shows "w \<in> set (scrolling_windows (ws_scrolling ws'))"
  using ws_keeps_set [OF assms(1)] assms(2,3) by (auto simp: ws_windows_def)

lemma find_position: "position p xs = Some i \<Longrightarrow> List.find p xs = Some (xs ! i)"
  by (induction xs arbitrary: i) (auto split: if_splits)

lemma find_column_position:
  "position (column_contains w) (columns s) = Some ci \<Longrightarrow> find_column w s = Some (columns s ! ci)"
  by (simp add: find_column_def find_position)

lemma ws_sizing_keeps:
  assumes cv: "parents_acyclic cv" and ok: "ws_ok cv ws" and w: "w \<in> set (ws_windows ws)"
  shows "returns (ws_set_fullscreen cv w b ws) (ws_keeps cv ws)"
    and "returns (ws_set_maximized cv w b ws) (ws_keeps cv ws)"
proof -
  have fs: "returns (change_sizing (set_fullscreen (ws_options ws) w b) w r ws') (ws_keeps cv ws')"
    and mx: "returns (change_sizing (set_maximized (ws_options ws) w b) w r ws') (ws_keeps cv ws')"
    if "ws_ok cv ws'" "w \<in> set (scrolling_windows (ws_scrolling ws'))" for ws' r b
    using set_fullscreen_keeps [OF ws_okD(1) [OF that(1)] that(2), of "ws_options ws" b]
      set_maximized_keeps [OF ws_okD(1) [OF that(1)] that(2), of "ws_options ws" b]
    by (auto intro!: change_sizing_keeps [OF that])
  have "returns (toggle_window_floating cv (Some w) ws) (\<lambda>ws'. ws_keeps cv ws ws' \<and>
      (w \<in> set (fl_windows (ws_floating ws')) \<longleftrightarrow> w \<notin> set (fl_windows (ws_floating ws))))"
    by (rule returns_mono [OF toggle_window_floating_returns [OF cv ok, of "Some w"]]) (use w in auto)
  then obtain ws1 where ws1: "toggle_window_floating cv (Some w) ws = Some ws1" "ws_keeps cv ws ws1"
    "w \<in> set (fl_windows (ws_floating ws1)) \<longleftrightarrow> w \<notin> set (fl_windows (ws_floating ws))"
    by (auto elim!: returnsE)
  note refl = ws_keeps_refl [OF ok] and ok1 = ws_keeps_ok [OF ws1(2)]
  have opts: "ws_options ws1 = ws_options ws"
    using ws1(2) ws_frameD(9) by (simp add: ws_keeps_def)
  show "returns (ws_set_fullscreen cv w b ws) (ws_keeps cv ws)"
  proof (cases "w \<in> set (fl_windows (ws_floating ws))")
    case True
    then have "w \<in> set (scrolling_windows (ws_scrolling ws1))"
      using toggled_to_tiling [OF ws1(2) w] ws1(3) by simp
    from fs [OF ok1 this] have "returns (change_sizing (set_fullscreen (ws_options ws) w b) w True ws1)
        (ws_keeps cv ws)"
      by (rule returns_mono) (rule ws_keeps_trans [OF ws1(2)])
    with True ws1(1) refl opts show ?thesis by (cases b) (simp_all add: ws_set_fullscreen_def)
  next
    case False
    then have ws: "w \<in> set (scrolling_windows (ws_scrolling ws))" using w by (simp add: ws_windows_def)
    from position_contains [OF ws] obtain ci ti where
      p: "position (column_contains w) (columns (ws_scrolling ws)) = Some ci"
        "ci < length (columns (ws_scrolling ws))" .
    from find_column_position [OF p(1)] have col: "find_column w (ws_scrolling ws) = Some (columns (ws_scrolling ws) ! ci)" .
    have "w \<in> set (map win (tiles (columns (ws_scrolling ws) ! ci)))"
      using position_SomeD [OF p(1)] by (simp add: wins_def)
    from find_win [OF this] obtain t where t: "List.find (\<lambda>t. win t = w) (tiles (columns (ws_scrolling ws) ! ci)) = Some t"
      by blast
    show ?thesis using False col t ws1(1,2) fs [OF ok ws] by (simp add: ws_set_fullscreen_def)
  qed
  show "returns (ws_set_maximized cv w b ws) (ws_keeps cv ws)"
  proof (cases "w \<in> set (fl_windows (ws_floating ws))")
    case True
    then have "w \<in> set (scrolling_windows (ws_scrolling ws1))"
      using toggled_to_tiling [OF ws1(2) w] ws1(3) by simp
    from mx [OF ok1 this] have "returns (change_sizing (set_maximized (ws_options ws) w b) w True ws1)
        (ws_keeps cv ws)"
      by (rule returns_mono) (rule ws_keeps_trans [OF ws1(2)])
    with True ws1(1) refl opts show ?thesis by (cases b) (simp_all add: ws_set_maximized_def)
  next
    case False
    then have ws: "w \<in> set (scrolling_windows (ws_scrolling ws))" using w by (simp add: ws_windows_def)
    from find_tile_Some [OF ws] obtain t where "find_tile w (ws_scrolling ws) = Some t" by blast
    with False ws1(1,2) mx [OF ok ws] show ?thesis by (simp add: ws_set_maximized_def)
  qed
qed

lemma ws_toggle_sizing_keeps:
  assumes cv: "parents_acyclic cv" and ok: "ws_ok cv ws" and w: "w \<in> set (ws_windows ws)"
  shows "returns (toggle_fullscreen cv w ws) (ws_keeps cv ws)"
    and "returns (toggle_maximized cv w ws) (ws_keeps cv ws)"
proof -
  have "w \<in> set (map win (concat (map tiles (columns (ws_scrolling ws))) @ fl_tiles (ws_floating ws)))"
    using w by (simp add: ws_windows_def windows_tiles fl_windows_def)
  from find_win [OF this] obtain t where
    "List.find (\<lambda>t. win t = w) (concat (map tiles (columns (ws_scrolling ws))) @ fl_tiles (ws_floating ws)) = Some t"
    by blast
  with ws_sizing_keeps(1) [OF assms] show "returns (toggle_fullscreen cv w ws) (ws_keeps cv ws)"
    by (simp add: toggle_fullscreen_def)
  show "returns (toggle_maximized cv w ws) (ws_keeps cv ws)"
    unfolding toggle_maximized_def by (rule ws_sizing_keeps(2) [OF assms])
qed

lemma set_window_floating_keeps:
  assumes cv: "parents_acyclic cv" and ok: "ws_ok cv ws"
    and w: "\<And>w. window = Some w \<Longrightarrow> w \<in> set (ws_windows ws)"
  shows "returns (set_window_floating cv window b ws) (ws_keeps cv ws)"
proof -
  have "returns (toggle_window_floating cv window ws) (ws_keeps cv ws)"
    by (rule returns_mono [OF toggle_window_floating_returns [OF cv ok w]]) auto
  with ws_keeps_refl [OF ok] show ?thesis by (simp add: set_window_floating_def)
qed

section \<open>Activation and resizing\<close>

lemma ws_activate_window_returns:
  assumes cv: "parents_acyclic cv" and ok: "ws_ok cv ws"
  shows "returns (ws_activate_window cv w ws) (\<lambda>(ws', b). ws_keeps cv ws ws' \<and>
           (b \<longleftrightarrow> w \<in> set (ws_windows ws)) \<and> (b \<longrightarrow> ws_active_window ws' = Some (Some w)))"
proof -
  let ?s = "ws_scrolling ws" and ?f = "ws_floating ws"
  from fl_activate_window_returns [OF cv ws_okD(2) [OF ok], of w] obtain f b where
    f: "fl_activate_window cv w ?f = Some (f, b)" "fl_keeps cv ?f f" "b \<longleftrightarrow> w \<in> set (fl_windows ?f)"
      "b \<Longrightarrow> fl_active f = Some w"
    by (auto simp: fl_keeps_def elim!: returnsE)
  show ?thesis
  proof (cases b)
    case True
    let ?ws = "ws\<lparr>ws_floating := f\<rparr>"
    have k: "ws_keeps cv ws ?ws" by (rule ws_keeps_floating [OF ok f(2)])
    have "fl_tiles f \<noteq> []" using True f(3) fl_keeps_empty [OF f(2)] by (auto simp: fl_windows_def)
    then have "ws_keeps cv ws (?ws\<lparr>floating_is_active := FloatingYes\<rparr>)"
      using k by (simp add: ws_keeps_def ws_ok_def spaces_ok_def ws_mset_def)
    moreover have "fl_active_window f = Some w"
      using f(2,4) True fl_active_window_eq [of cv f] by (simp add: fl_keeps_def)
    ultimately show ?thesis
      using True f(1,3) by (simp add: ws_activate_window_def ws_active_window_def floating_active_get_def
          ws_windows_def)
  next
    case False
    from activate_window_keeps [OF ws_okD(1) [OF ok], of w] obtain s found where
      s: "activate_window w ?s = Some (s, found)" "keeps ?s s" "found \<longleftrightarrow> w \<in> set (scrolling_windows ?s)"
        "found \<Longrightarrow> scrolling_active_window s = Some (Some w)"
      by (auto elim!: returnsE)
    let ?ws = "ws\<lparr>ws_scrolling := s\<rparr>"
    have k: "ws_keeps cv ws ?ws" by (rule ws_keeps_scrolling [OF ok s(2)])
    have "columns s \<noteq> []" if found
      using that s(3) keeps_set [OF s(2)] by (auto simp: scrolling_windows_def)
    then have "ws_keeps cv ws (?ws\<lparr>floating_is_active := FloatingNo\<rparr>)" if found
      using k that by (simp add: ws_keeps_def ws_ok_def spaces_ok_def ws_mset_def)
    then show ?thesis
      using False f(1,3) s ws_keeps_refl [OF ok]
      by (auto simp: ws_activate_window_def ws_active_window_def floating_active_get_def ws_windows_def)
  qed
qed

lemma ws_activate_without_raising_keeps:
  assumes ok: "ws_ok cv ws"
  shows "returns (ws_activate_window_without_raising w ws) (\<lambda>(ws', b). ws_keeps cv ws ws' \<and>
           (b \<longleftrightarrow> w \<in> set (ws_windows ws)))"
proof -
  let ?s = "ws_scrolling ws" and ?f = "ws_floating ws"
  obtain f b where f: "fl_activate_window_without_raising w ?f = (f, b)" by fastforce
  have fk: "fl_keeps cv ?f f" "b \<longleftrightarrow> w \<in> set (fl_windows ?f)"
    using fl_activate_without_raising_keeps [OF ws_okD(2) [OF ok], of w] f idx_of_None [of w ?f]
    by (auto simp: fl_activate_window_without_raising_def split: if_splits)
  show ?thesis
  proof (cases b)
    case True
    have k: "ws_keeps cv ws (ws\<lparr>ws_floating := f\<rparr>)" by (rule ws_keeps_floating [OF ok fk(1)])
    have "fl_tiles f \<noteq> []" using True fk(2) fl_keeps_empty [OF fk(1)] by (auto simp: fl_windows_def)
    then have "ws_keeps cv ws (ws\<lparr>ws_floating := f, floating_is_active := FloatingYes\<rparr>)"
      using k by (simp add: ws_keeps_def ws_ok_def spaces_ok_def ws_mset_def)
    with True f fk(2) show ?thesis by (simp add: ws_activate_window_without_raising_def ws_windows_def)
  next
    case False
    from activate_window_keeps [OF ws_okD(1) [OF ok], of w] obtain s found where
      s: "activate_window w ?s = Some (s, found)" "keeps ?s s" "found \<longleftrightarrow> w \<in> set (scrolling_windows ?s)"
      by (auto elim!: returnsE)
    have k: "ws_keeps cv ws (ws\<lparr>ws_scrolling := s\<rparr>)" by (rule ws_keeps_scrolling [OF ok s(2)])
    have "columns s \<noteq> []" if found
      using that s(3) keeps_set [OF s(2)] by (auto simp: scrolling_windows_def)
    then have "ws_keeps cv ws (ws\<lparr>ws_scrolling := s, floating_is_active := a\<rparr>)" if found "a \<noteq> FloatingYes" for a
      using k that by (simp add: ws_keeps_def ws_ok_def spaces_ok_def ws_mset_def)
    with False f fk(2) s(1,3) ws_keeps_refl [OF ok] show ?thesis
      by (auto simp: ws_activate_window_without_raising_def ws_windows_def split: floating_active.splits)
  qed
qed

lemma ws_descendants_added_keeps:
  assumes "parents_acyclic cv" "ws_ok cv ws"
  shows "returns (ws_descendants_added cv w ws) (\<lambda>(ws', b). ws_keeps cv ws ws')"
  unfolding ws_descendants_added_def
  by (rule on_floating_flag_keeps [OF assms(2)],
      rule returns_mono [OF descendants_added_keeps [OF assms(1) ws_okD(2) [OF assms(2)]]])
    (auto simp: fl_keeps_def)

lemma ws_resize_keeps:
  assumes "ws_ok cv ws"
  shows "w \<in> set (ws_windows ws) \<Longrightarrow> returns (ws_interactive_resize_begin w ws) (\<lambda>(ws', b). ws_keeps cv ws ws')"
    and "returns (ws_interactive_resize_end window ws) (ws_keeps cv ws)"
proof -
  show "returns (ws_interactive_resize_begin w ws) (\<lambda>(ws', b). ws_keeps cv ws ws')"
    if "w \<in> set (ws_windows ws)"
  proof (cases "w \<in> set (fl_windows (ws_floating ws))")
    case True
    with on_floating_flag_keeps [where f = "fl_interactive_resize_begin w", OF assms
        fl_resize_begin_keeps [OF ws_okD(2) [OF assms] True]]
    show ?thesis by (simp add: ws_interactive_resize_begin_def)
  next
    case False
    with that have "w \<in> set (scrolling_windows (ws_scrolling ws))" by (simp add: ws_windows_def)
    from on_scrolling_flag_keeps [where f = "sc_resize_begin w", OF assms
        sc_resize_begin_keeps [OF ws_okD(1) [OF assms] this]] False
    show ?thesis by (simp add: ws_interactive_resize_begin_def)
  qed
  have fl: "returns (on_floating (\<lambda>f. Some (fl_interactive_resize_end x f)) ws) (ws_keeps cv ws)" for x
    by (rule on_floating_keeps [OF assms]) (simp add: fl_resize_end_keeps [OF ws_okD(2) [OF assms]])
  have sc: "returns (on_scrolling (sc_resize_end x) ws') (ws_keeps cv ws')" if "ws_ok cv ws'" for x ws'
    by (rule on_scrolling_keeps [OF that]) (rule sc_resize_end_keeps [OF ws_okD(1) [OF that]])
  show "returns (ws_interactive_resize_end window ws) (ws_keeps cv ws)"
  proof (cases window)
    case (Some x)
    with fl sc [OF assms] show ?thesis by (simp add: ws_interactive_resize_end_def)
  next
    case None
    from fl [of None] obtain ws' where ws': "on_floating (\<lambda>f. Some (fl_interactive_resize_end None f)) ws = Some ws'"
      "ws_keeps cv ws ws'" by (auto elim!: returnsE)
    from sc [OF ws_keeps_ok [OF ws'(2)], of None] ws' None show ?thesis
      by (auto simp: ws_interactive_resize_end_def elim!: returns_mono intro: ws_keeps_trans)
  qed
qed

end
