(* ===== verification/WorkspaceSpec.thy ===== *)
theory WorkspaceSpec
  imports WorkspaceInv
begin

text \<open>The workspace as a state machine, and what it promises to the monitor that owns it.\<close>

section \<open>Operations as data\<close>

datatype ws_op =
    WsAddTile tile add_window_target activate_request column_width bool bool
  | WsAddTileToColumn nat "nat option" tile bool
  | WsAddColumn column bool
  | WsRemoveTile win_id
  | WsRemoveActiveColumn
  | WsFocusLeft | WsFocusRight | WsFocusUp | WsFocusDown
  | WsFocusColumnInDirection bool | WsFocusColumnFirst | WsFocusColumnLast
  | WsFocusColumnRightOrFirst | WsFocusColumnLeftOrLast | WsFocusColumn nat | WsFocusWindowInColumn nat
  | WsFocusDownOrLeft | WsFocusDownOrRight | WsFocusUpOrLeft | WsFocusUpOrRight
  | WsFocusWindowTop | WsFocusWindowBottom | WsFocusWindowDownOrTop | WsFocusWindowUpOrBottom
  | WsMoveLeft | WsMoveRight | WsMoveUp | WsMoveDown
  | WsMoveColumnToFirst | WsMoveColumnToLast | WsMoveColumnToIndex nat
  | WsConsumeOrExpelLeft "win_id option" | WsConsumeOrExpelRight "win_id option"
  | WsConsumeIntoColumn | WsExpelFromColumn | WsSwap scroll_direction
  | WsToggleTabbed | WsSetDisplay column_display
  | WsSetFullscreen win_id bool | WsToggleFullscreen win_id
  | WsSetMaximized win_id bool | WsToggleMaximized win_id
  | WsToggleFloating "win_id option" | WsSetFloating "win_id option" bool
  | WsFocusFloating | WsFocusTiling | WsSwitchFocus
  | WsActivate win_id | WsActivateWithoutRaising win_id | WsDescendantsAdded win_id
  | WsResizeBegin win_id | WsResizeEnd "win_id option"
  | WsUpdateConfig options | WsUpdateLayoutConfig "layout_part option" | WsUnname
  | WsSetOutput "wl_output option"

fun ws_exec :: "client_view \<Rightarrow> ws_op \<Rightarrow> workspace \<Rightarrow> workspace option" where
  "ws_exec cv (WsAddTile t tg a w f fl) ws = ws_add_tile cv t tg a w f fl ws"
| "ws_exec cv (WsAddTileToColumn c i t a) ws = ws_add_tile_to_column c i t a ws"
| "ws_exec cv (WsAddColumn c a) ws = ws_add_column c a ws"
| "ws_exec cv (WsRemoveTile w) ws = map_option snd (ws_remove_tile cv w ws)"
| "ws_exec cv WsRemoveActiveColumn ws = map_option snd (ws_remove_active_column ws)"
| "ws_exec cv WsFocusLeft ws = map_option fst (ws_focus_left cv ws)"
| "ws_exec cv WsFocusRight ws = map_option fst (ws_focus_right cv ws)"
| "ws_exec cv WsFocusUp ws = map_option fst (ws_focus_up cv ws)"
| "ws_exec cv WsFocusDown ws = map_option fst (ws_focus_down cv ws)"
| "ws_exec cv (WsFocusColumnInDirection b) ws = focus_column_in_direction cv b ws"
| "ws_exec cv WsFocusColumnFirst ws = ws_focus_column_first cv ws"
| "ws_exec cv WsFocusColumnLast ws = ws_focus_column_last cv ws"
| "ws_exec cv WsFocusColumnRightOrFirst ws = focus_column_right_or_first cv ws"
| "ws_exec cv WsFocusColumnLeftOrLast ws = focus_column_left_or_last cv ws"
| "ws_exec cv (WsFocusColumn k) ws = ws_focus_column k ws"
| "ws_exec cv (WsFocusWindowInColumn k) ws = ws_focus_window_in_column k ws"
| "ws_exec cv WsFocusDownOrLeft ws = ws_focus_down_or_left cv ws"
| "ws_exec cv WsFocusDownOrRight ws = ws_focus_down_or_right cv ws"
| "ws_exec cv WsFocusUpOrLeft ws = ws_focus_up_or_left cv ws"
| "ws_exec cv WsFocusUpOrRight ws = ws_focus_up_or_right cv ws"
| "ws_exec cv WsFocusWindowTop ws = focus_window_top cv ws"
| "ws_exec cv WsFocusWindowBottom ws = focus_window_bottom cv ws"
| "ws_exec cv WsFocusWindowDownOrTop ws = focus_window_down_or_top cv ws"
| "ws_exec cv WsFocusWindowUpOrBottom ws = focus_window_up_or_bottom cv ws"
| "ws_exec cv WsMoveLeft ws = map_option fst (ws_move_left ws)"
| "ws_exec cv WsMoveRight ws = map_option fst (ws_move_right ws)"
| "ws_exec cv WsMoveUp ws = map_option fst (ws_move_up ws)"
| "ws_exec cv WsMoveDown ws = map_option fst (ws_move_down ws)"
| "ws_exec cv WsMoveColumnToFirst ws = ws_move_column_to_first ws"
| "ws_exec cv WsMoveColumnToLast ws = ws_move_column_to_last ws"
| "ws_exec cv (WsMoveColumnToIndex k) ws = ws_move_column_to_index k ws"
| "ws_exec cv (WsConsumeOrExpelLeft w) ws = ws_consume_or_expel_window_left w ws"
| "ws_exec cv (WsConsumeOrExpelRight w) ws = ws_consume_or_expel_window_right w ws"
| "ws_exec cv WsConsumeIntoColumn ws = ws_consume_into_column ws"
| "ws_exec cv WsExpelFromColumn ws = ws_expel_from_column ws"
| "ws_exec cv (WsSwap d) ws = ws_swap_window_in_direction d ws"
| "ws_exec cv WsToggleTabbed ws = ws_toggle_column_tabbed_display ws"
| "ws_exec cv (WsSetDisplay d) ws = ws_set_column_display d ws"
| "ws_exec cv (WsSetFullscreen w b) ws = ws_set_fullscreen cv w b ws"
| "ws_exec cv (WsToggleFullscreen w) ws = toggle_fullscreen cv w ws"
| "ws_exec cv (WsSetMaximized w b) ws = ws_set_maximized cv w b ws"
| "ws_exec cv (WsToggleMaximized w) ws = toggle_maximized cv w ws"
| "ws_exec cv (WsToggleFloating w) ws = toggle_window_floating cv w ws"
| "ws_exec cv (WsSetFloating w b) ws = set_window_floating cv w b ws"
| "ws_exec cv WsFocusFloating ws = Some (focus_floating ws)"
| "ws_exec cv WsFocusTiling ws = Some (focus_tiling ws)"
| "ws_exec cv WsSwitchFocus ws = Some (switch_focus_floating_tiling ws)"
| "ws_exec cv (WsActivate w) ws = map_option fst (ws_activate_window cv w ws)"
| "ws_exec cv (WsActivateWithoutRaising w) ws = map_option fst (ws_activate_window_without_raising w ws)"
| "ws_exec cv (WsDescendantsAdded w) ws = map_option fst (ws_descendants_added cv w ws)"
| "ws_exec cv (WsResizeBegin w) ws = map_option fst (ws_interactive_resize_begin w ws)"
| "ws_exec cv (WsResizeEnd w) ws = ws_interactive_resize_end w ws"
| "ws_exec cv (WsUpdateConfig opts) ws = Some (ws_update_config opts ws)"
| "ws_exec cv (WsUpdateLayoutConfig part) ws = Some (ws_update_layout_config part ws)"
| "ws_exec cv WsUnname ws = Some (ws_unname ws)"
| "ws_exec cv (WsSetOutput out) ws = Some (ws_set_output out ws)"

text \<open>What the monitor and the layout guarantee before they forward an operation\<close>

definition in_workspace :: "win_id option \<Rightarrow> workspace \<Rightarrow> bool" where
  "in_workspace window ws = (case window of Some w \<Rightarrow> w \<in> set (ws_windows ws) | None \<Rightarrow> True)"

fun ws_enabled :: "ws_op \<Rightarrow> workspace \<Rightarrow> bool" where
  "ws_enabled (WsAddTile t tg a w f fl) ws = (win t \<notin> set (ws_windows ws) \<and> target_valid tg ws)"
| "ws_enabled (WsAddTileToColumn c i t a) ws =
     (win t \<notin> set (ws_windows ws) \<and> c < length (columns (ws_scrolling ws)) \<and>
      (case i of Some k \<Rightarrow> k \<le> length (tiles (columns (ws_scrolling ws) ! c)) | None \<Rightarrow> True))"
| "ws_enabled (WsAddColumn c a) ws =
     (col_ok c \<and> distinct (wins c) \<and> set (wins c) \<inter> set (ws_windows ws) = {})"
| "ws_enabled (WsRemoveTile w) ws = (w \<in> set (ws_windows ws))"
| "ws_enabled (WsConsumeOrExpelLeft w) ws = in_workspace w ws"
| "ws_enabled (WsConsumeOrExpelRight w) ws = in_workspace w ws"
| "ws_enabled (WsSetFullscreen w b) ws = (w \<in> set (ws_windows ws))"
| "ws_enabled (WsToggleFullscreen w) ws = (w \<in> set (ws_windows ws))"
| "ws_enabled (WsSetMaximized w b) ws = (w \<in> set (ws_windows ws))"
| "ws_enabled (WsToggleMaximized w) ws = (w \<in> set (ws_windows ws))"
| "ws_enabled (WsToggleFloating w) ws = in_workspace w ws"
| "ws_enabled (WsSetFloating w b) ws = in_workspace w ws"
| "ws_enabled (WsResizeBegin w) ws = (w \<in> set (ws_windows ws))"
| "ws_enabled _ ws = True"

definition ws_good :: "client_view \<Rightarrow> workspace \<Rightarrow> bool" where
  "ws_good cv ws \<longleftrightarrow> parents_acyclic cv \<and> ws_ok cv ws"

lemma ws_consume_keeps:
  assumes "ws_ok cv ws" "in_workspace window ws"
  shows "returns (ws_consume_or_expel_window_left window ws) (ws_keeps cv ws)"
    and "returns (ws_consume_or_expel_window_right window ws) (ws_keeps cv ws)"
proof -
  have w: "w \<in> set (scrolling_windows (ws_scrolling ws))"
    if "\<not> targets_floating window ws" "window = Some w" for w
    using that assms(2) ws_okD(2) [OF assms(1)]
    by (auto simp: targets_floating_def in_workspace_def ws_windows_def fl_has_window_def fl_windows_def)
  note sc = ws_okD(1) [OF assms(1)]
  show "returns (ws_consume_or_expel_window_left window ws) (ws_keeps cv ws)"
  proof (cases "targets_floating window ws")
    case False
    have "returns (consume_or_expel_window_left (ws_options ws) window (ws_scrolling ws))
        (keeps (ws_scrolling ws))"
      by (rule consume_or_expel_window_left_keeps [OF sc]) (use w [OF False] in auto)
    from on_scrolling_keeps [where f = "consume_or_expel_window_left (ws_options ws) window",
        OF assms(1) this] False
    show ?thesis by (simp add: ws_consume_or_expel_window_left_def)
  qed (simp add: ws_consume_or_expel_window_left_def ws_keeps_refl [OF assms(1)])
  show "returns (ws_consume_or_expel_window_right window ws) (ws_keeps cv ws)"
  proof (cases "targets_floating window ws")
    case False
    have "returns (consume_or_expel_window_right (ws_options ws) window (ws_scrolling ws))
        (keeps (ws_scrolling ws))"
      by (rule consume_or_expel_window_right_keeps [OF sc]) (use w [OF False] in auto)
    from on_scrolling_keeps [where f = "consume_or_expel_window_right (ws_options ws) window",
        OF assms(1) this] False
    show ?thesis by (simp add: ws_consume_or_expel_window_right_def)
  qed (simp add: ws_consume_or_expel_window_right_def ws_keeps_refl [OF assms(1)])
qed

lemma ws_tiling_only_keeps:
  assumes "ws_ok cv ws"
  shows "returns (ws_focus_window_in_column k ws) (ws_keeps cv ws)"
    "returns (ws_move_column_to_first ws) (ws_keeps cv ws)"
    "returns (ws_move_column_to_last ws) (ws_keeps cv ws)"
    "returns (ws_move_column_to_index k ws) (ws_keeps cv ws)"
    "returns (ws_consume_into_column ws) (ws_keeps cv ws)"
    "returns (ws_expel_from_column ws) (ws_keeps cv ws)"
    "returns (ws_swap_window_in_direction d ws) (ws_keeps cv ws)"
    "returns (ws_toggle_column_tabbed_display ws) (ws_keeps cv ws)"
    "returns (ws_set_column_display disp ws) (ws_keeps cv ws)"
  unfolding ws_focus_window_in_column_def ws_move_column_to_first_def ws_move_column_to_last_def
    ws_move_column_to_index_def ws_consume_into_column_def ws_expel_from_column_def
    ws_swap_window_in_direction_def ws_toggle_column_tabbed_display_def ws_set_column_display_def
  using set_column_display_keeps [OF ws_okD(1) [OF assms] ws_okD(4) [OF assms]]
    toggle_column_tabbed_display_keeps [OF ws_okD(1) [OF assms] ws_okD(4) [OF assms]]
  by (auto intro!: tiling_only_keeps [OF assms] simp: sc_plain_steps [OF ws_okD(1) [OF assms]])

lemma ws_config_ok:
  assumes "ws_ok cv ws"
  shows "ws_ok cv (ws_update_config opts ws)" "ws_ok cv (ws_update_layout_config part ws)"
    "ws_ok cv (ws_unname ws)" "ws_ok cv (ws_set_output out ws)"
  using assms
  by (auto simp: ws_ok_def ws_update_config_def ws_update_layout_config_def ws_unname_def
      ws_set_output_def split: option.splits)

text \<open>The operations that neither take windows in nor out, and change no setting\<close>

fun keeping :: "ws_op \<Rightarrow> bool" where
  "keeping (WsAddTile t tg a w f fl) = False"
| "keeping (WsAddTileToColumn c i t a) = False"
| "keeping (WsAddColumn c a) = False"
| "keeping (WsRemoveTile w) = False"
| "keeping WsRemoveActiveColumn = False"
| "keeping (WsUpdateConfig opts) = False"
| "keeping (WsUpdateLayoutConfig part) = False"
| "keeping WsUnname = False"
| "keeping (WsSetOutput out) = False"
| "keeping _ = True"

lemma ws_step_keeps:
  assumes cv: "parents_acyclic cv" and ok: "ws_ok cv ws" and "keeping op" "ws_enabled op ws"
  shows "returns (ws_exec cv op ws) (ws_keeps cv ws)"
proof -
  have flag: "returns m (\<lambda>x. ws_keeps cv ws (fst x))" if "returns m (\<lambda>(ws', b). ws_keeps cv ws ws')" for m :: "(workspace \<times> bool) option"
    using that by (auto elim!: returns_mono)
  have act: "returns (ws_activate_window cv w ws) (\<lambda>(ws', b). ws_keeps cv ws ws')" for w
    by (rule returns_mono [OF ws_activate_window_returns [OF cv ok]]) auto
  have act2: "returns (ws_activate_window_without_raising w ws) (\<lambda>(ws', b). ws_keeps cv ws ws')" for w
    by (rule returns_mono [OF ws_activate_without_raising_keeps [OF ok]]) auto
  note flags = ws_focus_keeps [OF cv ok, THEN flag] ws_move_keeps [OF ok, THEN flag]
    act [THEN flag] act2 [THEN flag] ws_descendants_added_keeps [OF cv ok, THEN flag]
  note keeps = ws_focus_edges_keep(1-4,7) [OF cv ok] ws_focus_wrap_keeps [OF cv ok]
    ws_focus_or_side_keeps [OF cv ok] ws_focus_column_keeps [OF ok]
    ws_tiling_only_keeps [OF ok] ws_resize_keeps(2) [OF ok]
    focus_floating_keeps [OF ok] switch_focus_keeps [OF ok]
  show ?thesis
  proof (cases op)
    case (WsConsumeOrExpelLeft w)
    with assms(4) ws_consume_keeps(1) [OF ok] show ?thesis by simp
  next
    case (WsConsumeOrExpelRight w)
    with assms(4) ws_consume_keeps(2) [OF ok] show ?thesis by simp
  next
    case (WsSetFullscreen w b)
    with assms(4) ws_sizing_keeps(1) [OF cv ok] show ?thesis by simp
  next
    case (WsToggleFullscreen w)
    with assms(4) ws_toggle_sizing_keeps(1) [OF cv ok] show ?thesis by simp
  next
    case (WsSetMaximized w b)
    with assms(4) ws_sizing_keeps(2) [OF cv ok] show ?thesis by simp
  next
    case (WsToggleMaximized w)
    with assms(4) ws_toggle_sizing_keeps(2) [OF cv ok] show ?thesis by simp
  next
    case (WsToggleFloating w)
    then have w: "\<And>x. w = Some x \<Longrightarrow> x \<in> set (ws_windows ws)"
      using assms(4) by (simp add: in_workspace_def)
    have "returns (toggle_window_floating cv w ws) (ws_keeps cv ws)"
      by (rule returns_mono [OF toggle_window_floating_returns [OF cv ok w]]) auto
    with WsToggleFloating show ?thesis by simp
  next
    case (WsSetFloating w b)
    then have w: "\<And>x. w = Some x \<Longrightarrow> x \<in> set (ws_windows ws)"
      using assms(4) by (simp add: in_workspace_def)
    have "returns (set_window_floating cv w b ws) (ws_keeps cv ws)"
      by (rule set_window_floating_keeps [OF cv ok]) (use w in auto)
    with WsSetFloating show ?thesis by simp
  next
    case (WsResizeBegin w)
    with assms(4) flag [OF ws_resize_keeps(1) [OF ok]] show ?thesis by simp
  qed (use assms(3) in \<open>simp_all add: flags keeps\<close>)
qed

lemma ws_step_good:
  assumes "ws_good cv ws" "ws_enabled op ws"
  shows "returns (ws_exec cv op ws) (ws_good cv)"
proof -
  have cv: "parents_acyclic cv" and ok: "ws_ok cv ws" using assms(1) by (simp_all add: ws_good_def)
  have gain: "returns m (ws_good cv)" if "returns m (ws_gains cv ms ws)" for m ms
    using that cv by (auto simp: ws_gains_def ws_good_def elim!: returns_mono)
  have cfg: "ws_good cv (ws_update_config opts ws)" "ws_good cv (ws_update_layout_config part ws)"
    "ws_good cv (ws_unname ws)" "ws_good cv (ws_set_output out ws)" for opts part out
    using ws_config_ok [OF ok] cv by (simp_all add: ws_good_def)
  show ?thesis
  proof (cases "keeping op")
    case True
    from ws_step_keeps [OF cv ok True assms(2)] show ?thesis
      by (rule returns_mono) (use cv in \<open>simp add: ws_keeps_def ws_good_def\<close>)
  next
    case False
    then show ?thesis
    proof (cases op)
      case (WsAddTile t tg a w f fl)
      with assms(2) gain [OF ws_add_tile_returns [OF cv ok]] show ?thesis by simp
    next
      case (WsAddTileToColumn c i t a)
      with assms(2) gain [OF ws_add_tile_to_column_returns [OF ok]] show ?thesis by simp
    next
      case (WsAddColumn c a)
      with assms(2) gain [OF ws_add_column_returns [OF ok]] show ?thesis by simp
    next
      case (WsRemoveTile w)
      with assms(2) have "w \<in> set (ws_windows ws)" by simp
      from returns_mono [OF ws_remove_tile_returns [OF ok this], of "\<lambda>x. ws_good cv (snd x)"]
      show ?thesis using WsRemoveTile cv by (auto simp: ws_loses_def ws_good_def)
    next
      case WsRemoveActiveColumn
      have "returns (ws_remove_active_column ws) (\<lambda>x. ws_good cv (snd x))"
        by (rule returns_mono [OF ws_remove_active_column_returns [OF ok]])
          (use cv ok in \<open>auto simp: ws_loses_def ws_good_def split: option.splits\<close>)
      with WsRemoveActiveColumn show ?thesis by simp
    qed (use cfg in simp_all)
  qed
qed

interpretation ws: component "ws_good cv" ws_enabled "ws_exec cv" for cv
  by unfold_locales (rule ws_step_good)

lemma new_with_config_ok: "ws_ok cv (new_with_config i out c opts)"
  "ws_ok cv (new_with_config_no_outputs i c opts)"
  using scrolling_ok_empty fl_ok_empty
  by (simp_all add: new_with_config_def new_with_config_no_outputs_def Let_def ws_ok_def spaces_ok_def)
    (simp_all add: empty_scrolling_def empty_floating_def scrolling_windows_def fl_windows_def)

section \<open>Fullscreening a floating window and back\<close>

lemma toggle_to_tiling:
  assumes cv: "parents_acyclic cv" and ok: "ws_ok cv ws"
    and w: "w \<in> set (fl_windows (ws_floating ws))"
  obtains ws' ci c where "toggle_window_floating cv (Some w) ws = Some ws'" "ws_keeps cv ws ws'"
    "ci < length (columns (ws_scrolling ws'))" "columns (ws_scrolling ws') ! ci = c"
    "wins c = [w]" "pending_sizing_mode c = ModeNormal"
proof -
  have w': "w \<in> set (ws_windows ws)" using w by (simp add: ws_windows_def)
  from toggle_window_floating_returns [OF cv ok, of "Some w"] w' obtain ws' where
    run: "toggle_window_floating cv (Some w) ws = Some ws'" "ws_keeps cv ws ws'"
    by (auto elim!: returnsE)
  from ws_active_window_returns [OF ok] obtain active where a: "ws_active_window ws = Some active"
    by (auto elim!: returnsE)
  from fl_remove_tile_returns [OF ws_okD(2) [OF ok] w] obtain r f where
    r: "fl_remove_tile cv w (ws_floating ws) = Some (r, f)" "win (rt_tile r) = w"
      "pending_mode (rt_tile r) = ModeNormal"
    by (auto elim!: returnsE)
  from new_with_tile_returns [of "ws_options ws" "rt_tile r" "rt_width r" "rt_is_full_width r"] r obtain c where
    c: "new_with_tile (ws_options ws) (rt_tile r) (rt_width r) (rt_is_full_width r) = Some c"
      "col_ok c" "wins c = [w]" "pending_sizing_mode c = ModeNormal"
    by (auto elim!: returnsE)
  note le = add_column_index_None [OF ws_okD(1) [OF ok]]
  from add_column_returns [OF ws_okD(1) [OF ok] c(2) le, of "Some w = active"] obtain s where
    s: "add_column None c (Some w = active) (ws_scrolling ws) = Some s"
      "columns s = insert_at (add_column_index None (ws_scrolling ws)) c (columns (ws_scrolling ws))"
    by (auto elim!: returnsE)
  have "ws_scrolling ws' = s"
    using run(1) a r(1) c(1) s(1) w w'
    by (auto simp: toggle_window_floating_def ws_has_window_def add_tile_def Let_def focus_tiling_if_def
        split: if_splits)
  with run c(3,4) s(2) le show ?thesis
    by (intro that [of ws' "add_column_index None (ws_scrolling ws)" c]) (simp_all add: nth_insert_at)
qed

lemma position_alone:
  assumes "scrolling_ok s" "distinct (scrolling_windows s)" "ci < length (columns s)" "wins (columns s ! ci) = [w]"
  shows "position (column_contains w) (columns s) = Some ci"
  using distinct_position [of "columns s" ci w] assms
  by (simp add: scrolling_windows_wins)

lemma wins_single: "wins c = [w] \<Longrightarrow> \<exists>t. tiles c = [t] \<and> win t = w"
  by (auto simp: wins_def)

lemma find_tile_alone:
  assumes "distinct (scrolling_windows s)" "ci < length (columns s)" "tiles (columns s ! ci) = [t]"
  shows "find_tile (win t) s = Some t"
proof -
  let ?ts = "concat (map tiles (columns s))"
  have t: "t \<in> set ?ts" using assms(2,3) by (auto intro!: bexI [of _ "columns s ! ci"])
  then have "win t \<in> set (scrolling_windows s)" by (auto simp: windows_tiles)
  from find_tile_Some [OF this] obtain t' where t': "find_tile (win t) s = Some t'" "win t' = win t" by blast
  then have "t' \<in> set ?ts" unfolding find_tile_def find_Some_iff by (metis nth_mem)
  with t t'(2) assms(1) have "t' = t" by (metis distinct_map inj_onD windows_tiles)
  with t'(1) show ?thesis by simp
qed

text \<open>A window alone in its column goes fullscreen, and is marked to return to the floating layer\<close>

lemma fullscreen_alone:
  assumes ok: "ws_ok cv ws" and ci: "ci < length (columns (ws_scrolling ws))"
    and c: "columns (ws_scrolling ws) ! ci = c" "wins c = [w]" "pending_sizing_mode c = ModeNormal"
  shows "\<exists>s c' t. change_sizing (set_fullscreen opts w True) w True ws = Some (ws\<lparr>ws_scrolling := s\<rparr>) \<and>
    columns s = (columns (ws_scrolling ws))[ci := c'] \<and> is_pending_fullscreen c' \<and>
    \<not> is_pending_maximized c' \<and> tiles c' = [t] \<and> win t = w \<and> restore_to_floating t"
proof -
  let ?s = "ws_scrolling ws"
  have sc: "scrolling_ok ?s" and d: "distinct (scrolling_windows ?s)" using ws_okD(1,4) [OF ok] .
  have pos: "position (column_contains w) (columns ?s) = Some ci"
    by (rule position_alone [OF sc d ci]) (simp add: c)
  from wins_single [OF c(2)] obtain t where t: "tiles c = [t]" "win t = w" by blast
  have flags: "\<not> is_pending_fullscreen c" "\<not> is_pending_maximized c"
    using c(3) by (auto simp: pending_sizing_mode_def split: if_splits)
  have "col_ok c" using cols_ok_nth scrolling_okD(1) [OF sc] ci c(1) by blast
  then have m: "pending_mode t = ModeNormal" using t c(3) by (simp add: col_ok_def)
  define c1 where "c1 = c\<lparr>is_pending_fullscreen := True, tiles := [t\<lparr>pending_mode := Fullscreen\<rparr>]\<rparr>"
  define s1 where "s1 = set_column ci c1 (cancel_resize_for_column c ?s)"
  have cols1: "columns s1 = (columns ?s)[ci := c1]" by (simp add: s1_def cancel_resize_for_column_def)
  have set: "set_fullscreen opts w True ?s = Some (s1, True)"
    using pos ci c(1) t flags
    by (simp add: set_fullscreen_def Let_def column_set_fullscreen_def update_tile_sizes_Some s1_def
        c1_def pending_sizing_mode_def cancel_resize_for_column_def)
  have "w \<in> set (scrolling_windows ?s)"
    using position_SomeD [OF pos] by (auto simp: scrolling_windows_wins)
  from set_fullscreen_keeps [OF sc this, of opts True] set have "keeps ?s s1" by simp
  then have s1: "scrolling_ok s1" "distinct (scrolling_windows s1)"
    using d distinct_by_mset by (auto simp: keeps_def win_mset_scrolling)
  have c1: "columns s1 ! ci = c1" "ci < length (columns s1)" using cols1 ci by simp_all
  have t1: "tiles c1 = [t\<lparr>pending_mode := Fullscreen\<rparr>]" by (simp add: c1_def)
  have pos1: "position (column_contains w) (columns s1) = Some ci"
    by (rule position_alone [OF s1 c1(2)]) (simp add: c1 wins_def t1 t)
  define c2 where "c2 = c1\<lparr>tiles := [t\<lparr>pending_mode := Fullscreen, restore_to_floating := True\<rparr>]\<rparr>"
  have f0: "find_tile w ?s = Some t" using find_tile_alone [OF d ci, of t] c(1) t by simp
  have f1: "find_tile w s1 = Some (t\<lparr>pending_mode := Fullscreen\<rparr>)"
    using find_tile_alone [OF s1(2) c1(2), of "t\<lparr>pending_mode := Fullscreen\<rparr>"] c1 t1 t by simp
  have restore: "set_restore_to_floating w True s1 = Some (set_column ci c2 s1)"
    using pos1 c1 t1 t by (simp add: set_restore_to_floating_def column_position_def c2_def)
  have "change_sizing (set_fullscreen opts w True) w True ws = Some (ws\<lparr>ws_scrolling := set_column ci c2 s1\<rparr>)"
    using f0 f1 set restore m by (simp add: change_sizing_def)
  with cols1 t flags show ?thesis
    by (intro exI [of _ "set_column ci c2 s1"] exI [of _ c2]) (simp add: c2_def c1_def)
qed

section \<open>A workspace with both layers in use\<close>

definition demo_output :: wl_output where
  "demo_output = \<lparr>out_handle = 0, out_name = \<lparr>on_connector = ''DP-1'', on_make = None, on_model = None,
                   on_serial = None\<rparr>\<rparr>"

definition demo_options :: options where
  "demo_options = \<lparr>default_column_display = DisplayNormal, empty_workspace_above_first = False,
                   main_axis_vertical = False\<rparr>"

definition demo_workspace :: workspace where
  "demo_workspace = (workspace_new 1 demo_output demo_options)
     \<lparr>ws_scrolling := empty_scrolling\<lparr>columns := [demo_column [11, 12] 1, demo_column [13] 0]\<rparr>,
      ws_floating := demo_floating\<rparr>"

lemma demo_workspace_ok: "ws_ok demo_clients demo_workspace"
  using demo_floating_ok
  by (simp add: demo_workspace_def workspace_new_def new_with_config_def ws_ok_def spaces_ok_def
      empty_scrolling_def demo_column_def demo_tile_def scrolling_ok_def col_ok_def
      pending_sizing_mode_def scrolling_windows_def fl_windows_def demo_floating_def demo_tile_of_def)

lemma demo_workspace_windows: "ws_windows demo_workspace = [11, 12, 13, 4, 3, 5, 2, 1, 6]"
  by (simp add: demo_workspace_def ws_windows_def scrolling_windows_def fl_windows_def
      demo_column_def demo_tile_def demo_floating_def demo_tile_of_def empty_scrolling_def)

section \<open>Properties\<close>

text \<open>
  C11. No sequence of operations on a new workspace panics, and at every point the focus flag
  agrees with the two layers: it never points at an empty layer while the other has windows,
  and no window is in both.
\<close>

theorem workspace_runs_never_panic:
  assumes "parents_acyclic cv"
  shows "\<exists>ws. run_ops ws_enabled (ws_exec cv) ops (new_with_config i out c opts) = Some ws \<and>
           ws_ok cv ws \<and> distinct (ws_windows ws) \<and>
           (\<exists>a. ws_active_window ws = Some a \<and> (a = None \<longleftrightarrow> ws_windows ws = []) \<and>
                set_option a \<subseteq> set (ws_windows ws))"
proof -
  have "ws_good cv (new_with_config i out c opts)"
    using assms new_with_config_ok(1) by (simp add: ws_good_def)
  from ws.run_good [OF this, of ops] obtain ws where
    ws: "run_ops ws_enabled (ws_exec cv) ops (new_with_config i out c opts) = Some ws" "ws_ok cv ws"
    by (auto simp: ws_good_def elim!: returnsE)
  from ws_active_window_returns [OF ws(2)] obtain a where a: "ws_active_window ws = Some a"
    "a = None \<Longrightarrow> ws_windows ws = []" "set_option a \<subseteq> set (ws_windows ws)"
    by (cases "ws_active_window ws") (auto simp: ws_windows_def split: option.splits if_splits)
  then have "a = None \<longleftrightarrow> ws_windows ws = []" by (cases a) auto
  with a ws ws_okD(3) show ?thesis by blast
qed

lemma workspace_runs_never_panic_witness:
  "\<exists>ws. run_ops ws_enabled (ws_exec demo_clients)
       [WsAddTile (demo_tile 11) Auto ActivateSmart (Proportion 1) False False,
        WsAddTile (demo_tile 2) Auto ActivateYes (Proportion 1) False True,
        WsToggleFloating None, WsSetFullscreen 11 True, WsRemoveTile 2]
       (new_with_config 1 demo_output None demo_options) = Some ws \<and>
     ws_ok demo_clients ws \<and> distinct (ws_windows ws)"
  using workspace_runs_never_panic [OF demo_clients_acyclic] by blast

text \<open>
  C14. Activating a window of the workspace makes it the active window of the workspace,
  whichever layer it is in, and neither moves nor loses a window; a window that is not in
  the workspace is reported as not found.
\<close>

theorem activation_focuses_the_window:
  assumes "parents_acyclic cv" "ws_ok cv ws"
  shows "\<exists>ws'. ws_activate_window cv w ws = Some (ws', w \<in> set (ws_windows ws)) \<and>
           set (ws_windows ws') = set (ws_windows ws) \<and> ws_ok cv ws' \<and>
           (w \<in> set (ws_windows ws) \<longrightarrow> ws_active_window ws' = Some (Some w))"
  using ws_activate_window_returns [OF assms, of w] ws_keeps_ok ws_keeps_set
  by (fastforce elim!: returnsE)

lemma activation_focuses_the_window_witness:
  "\<exists>ws'. ws_activate_window demo_clients 13 demo_workspace = Some (ws', True) \<and>
      ws_active_window ws' = Some (Some 13)"
  using activation_focuses_the_window [OF demo_clients_acyclic demo_workspace_ok, of 13]
  by (simp add: demo_workspace_windows) blast

text \<open>
  C13. Toggling a window between tiling and floating moves exactly that window to the other
  layer, and toggling it again moves it back; the windows of the workspace stay the same.
\<close>

theorem toggling_floating_twice_returns:
  assumes "parents_acyclic cv" "ws_ok cv ws" "w \<in> set (ws_windows ws)"
  shows "\<exists>ws1 ws2. toggle_window_floating cv (Some w) ws = Some ws1 \<and>
           toggle_window_floating cv (Some w) ws1 = Some ws2 \<and>
           (ws_is_floating w ws1 \<longleftrightarrow> \<not> ws_is_floating w ws) \<and>
           (ws_is_floating w ws2 \<longleftrightarrow> ws_is_floating w ws) \<and>
           mset (ws_windows ws1) = mset (ws_windows ws) \<and>
           mset (ws_windows ws2) = mset (ws_windows ws)"
proof -
  from toggle_window_floating_returns [OF assms(1,2), of "Some w"] assms(3) obtain ws1 where
    ws1: "toggle_window_floating cv (Some w) ws = Some ws1" "ws_keeps cv ws ws1"
      "w \<in> set (fl_windows (ws_floating ws1)) \<longleftrightarrow> w \<notin> set (fl_windows (ws_floating ws))"
    by (auto elim!: returnsE)
  have "w \<in> set (ws_windows ws1)" using assms(3) ws_keeps_set [OF ws1(2)] by simp
  with toggle_window_floating_returns [OF assms(1) ws_keeps_ok [OF ws1(2)], of "Some w"] obtain ws2 where
    ws2: "toggle_window_floating cv (Some w) ws1 = Some ws2" "ws_keeps cv ws1 ws2"
      "w \<in> set (fl_windows (ws_floating ws2)) \<longleftrightarrow> w \<notin> set (fl_windows (ws_floating ws1))"
    by (auto elim!: returnsE)
  from ws1 ws2 show ?thesis
    by (auto simp: ws_is_floating_def ws_keeps_def ws_mset_windows)
qed

lemma toggling_floating_twice_returns_witness:
  "\<exists>ws1. toggle_window_floating demo_clients (Some 3) demo_workspace = Some ws1 \<and>
      \<not> ws_is_floating 3 ws1 \<and> (\<exists>ws2. toggle_window_floating demo_clients (Some 3) ws1 = Some ws2)"
proof -
  have "ws_is_floating 3 demo_workspace"
    by (simp add: ws_is_floating_def demo_workspace_def fl_windows_def demo_floating_def demo_tile_of_def)
  with toggling_floating_twice_returns [OF demo_clients_acyclic demo_workspace_ok, of 3] show ?thesis
    by (auto simp: demo_workspace_windows)
qed

text \<open>
  C12. A floating window that goes fullscreen becomes a column of its own in the tiling
  layer; when it leaves fullscreen it is floating again, and no window is lost on the way.
\<close>

theorem leaving_fullscreen_restores_floating:
  assumes "parents_acyclic cv" "ws_ok cv ws" "ws_is_floating w ws"
  shows "\<exists>ws1 ws2. ws_set_fullscreen cv w True ws = Some ws1 \<and>
           ws_set_fullscreen cv w False ws1 = Some ws2 \<and>
           (\<exists>c \<in> set (columns (ws_scrolling ws1)). wins c = [w] \<and> is_pending_fullscreen c) \<and>
           ws_is_floating w ws2 \<and>
           mset (ws_windows ws1) = mset (ws_windows ws) \<and>
           mset (ws_windows ws2) = mset (ws_windows ws)"
proof -
  have w: "w \<in> set (fl_windows (ws_floating ws))" "w \<in> set (ws_windows ws)"
    using assms(3) by (simp_all add: ws_is_floating_def ws_windows_def)
  from toggle_to_tiling [OF assms(1,2) w(1)] obtain ws0 ci c where
    t: "toggle_window_floating cv (Some w) ws = Some ws0" "ws_keeps cv ws ws0"
      "ci < length (columns (ws_scrolling ws0))" "columns (ws_scrolling ws0) ! ci = c"
      "wins c = [w]" "pending_sizing_mode c = ModeNormal" .
  from fullscreen_alone [OF ws_keeps_ok [OF t(2)] t(3-6), of "ws_options ws0"] obtain s c' t' where
    f: "change_sizing (set_fullscreen (ws_options ws0) w True) w True ws0 = Some (ws0\<lparr>ws_scrolling := s\<rparr>)"
      "columns s = (columns (ws_scrolling ws0))[ci := c']" "is_pending_fullscreen c'"
      "\<not> is_pending_maximized c'" "tiles c' = [t']" "win t' = w" "restore_to_floating t'"
    by blast
  define ws1 where "ws1 = ws0\<lparr>ws_scrolling := s\<rparr>"
  have run1: "ws_set_fullscreen cv w True ws = Some ws1"
    using w(1) t(1) f(1) by (simp add: ws_set_fullscreen_def ws1_def)
  from ws_sizing_keeps(1) [OF assms(1,2) w(2), of True] run1 have k1: "ws_keeps cv ws ws1" by simp
  note ok1 = ws_keeps_ok [OF k1]
  have c': "ci < length (columns (ws_scrolling ws1))" "columns (ws_scrolling ws1) ! ci = c'" "wins c' = [w]"
    using t(3) f(2,5,6) by (simp_all add: ws1_def wins_def)
  have "position (column_contains w) (columns (ws_scrolling ws1)) = Some ci"
    by (rule position_alone [OF ws_okD(1,4) [OF ok1] c'(1)]) (simp add: c')
  from find_column_position [OF this] c' have col: "find_column w (ws_scrolling ws1) = Some c'" by simp
  have sw: "w \<in> set (scrolling_windows (ws_scrolling ws1))"
    unfolding in_windows_conv using c' by (intro exI [of _ ci]) simp
  then have nf: "w \<notin> set (fl_windows (ws_floating ws1))" using ws_okD(6) [OF ok1] by blast
  have w1: "w \<in> set (ws_windows ws1)" using sw by (simp add: ws_windows_def)
  from toggle_window_floating_returns [OF assms(1) ok1, of "Some w"] w1 obtain ws2 where
    t2: "toggle_window_floating cv (Some w) ws1 = Some ws2" "ws_keeps cv ws1 ws2"
      "w \<in> set (fl_windows (ws_floating ws2))"
    using nf by (auto elim!: returnsE)
  have run2: "ws_set_fullscreen cv w False ws1 = Some ws2"
    using nf col f(3-7) t2(1) by (simp add: ws_set_fullscreen_def)
  have "c' \<in> set (columns (ws_scrolling ws1))" using c' nth_mem by blast
  with run1 run2 k1 t2(2,3) f(3) c'(3) show ?thesis
    by (auto simp: ws_is_floating_def ws_keeps_def ws_mset_windows)
qed

lemma leaving_fullscreen_restores_floating_witness:
  "\<exists>ws1 ws2. ws_set_fullscreen demo_clients 3 True demo_workspace = Some ws1 \<and>
      ws_set_fullscreen demo_clients 3 False ws1 = Some ws2 \<and> ws_is_floating 3 ws2"
proof -
  have "ws_is_floating 3 demo_workspace"
    by (simp add: ws_is_floating_def demo_workspace_def fl_windows_def demo_floating_def demo_tile_of_def)
  from leaving_fullscreen_restores_floating [OF demo_clients_acyclic demo_workspace_ok this]
  show ?thesis by blast
qed

end
