(* ===== verification/MonitorInv.thy ===== *)
theory MonitorInv
  imports MonitorMoves WorkspaceSpec
begin

text \<open>
  The invariant of a monitor (\<open>Monitor::verify_invariants\<close>) in two halves. What the
  workspaces contain is stated on their multiset, so that reordering and removing empty
  workspaces keeps it; where they are is stated on the lists of visible and hidden ones.
\<close>

section \<open>Multisets without duplicates\<close>

definition distinct_mset :: "'a multiset \<Rightarrow> bool" where
  "distinct_mset M \<longleftrightarrow> (\<exists>xs. mset xs = M \<and> distinct xs)"

lemma distinct_mset_mset [simp]: "distinct_mset (mset xs) \<longleftrightarrow> distinct xs"
  unfolding distinct_mset_def by (metis distinct_by_mset)

lemma distinct_mset_add [simp]: "distinct_mset (add_mset x M) \<longleftrightarrow> x \<notin># M \<and> distinct_mset M"
proof -
  obtain xs where "mset xs = M" using ex_mset by blast
  then have "add_mset x M = mset (x # xs)" "M = mset xs" by simp_all
  then show ?thesis by (simp only: distinct_mset_mset distinct.simps set_mset_mset)
qed

lemma distinct_mset_mono:
  assumes "distinct_mset (A + B)"
  shows "distinct_mset A"
proof -
  obtain xs ys where "mset xs = A" "mset ys = B" using ex_mset by metis
  then have "A + B = mset (xs @ ys)" "A = mset xs" by simp_all
  with assms show ?thesis by (simp only: distinct_mset_mset distinct_append)
qed

lemma distinct_mset_subset: "A \<subseteq># B \<Longrightarrow> distinct_mset B \<Longrightarrow> distinct_mset A"
  by (metis distinct_mset_mono subset_mset.add_diff_inverse)

lemma distinct_mset_union:
  "distinct_mset (A + B) \<longleftrightarrow> distinct_mset A \<and> distinct_mset B \<and> set_mset A \<inter> set_mset B = {}"
proof -
  obtain xs ys where xs: "mset xs = A" "mset ys = B" using ex_mset by metis
  then have "A + B = mset (xs @ ys)" by simp
  with xs show ?thesis by (metis distinct_append distinct_mset_mset set_mset_mset)
qed

section \<open>What the workspaces contain\<close>

definition core :: "workspace \<Rightarrow> workspace" where
  "core ws = ws\<lparr>original_idx := None\<rparr>"

lemma core_simps [simp]:
  "ws_id (core ws) = ws_id ws" "ws_name (core ws) = ws_name ws" "ws_hidden (core ws) = ws_hidden ws"
  "needs_hidden (core ws) = needs_hidden ws" "ws_scrolling (core ws) = ws_scrolling ws"
  "ws_floating (core ws) = ws_floating ws" "floating_is_active (core ws) = floating_is_active ws"
  "base_options (core ws) = base_options ws" "ws_options (core ws) = ws_options ws"
  "ws_output (core ws) = ws_output ws" "layout_config (core ws) = layout_config ws"
  "original_outputs (core ws) = original_outputs ws"
  by (simp_all add: core_def)

lemma core_core [simp]: "core (core ws) = core ws"
  by (simp add: core_def)

lemma core_windows [simp]:
  "ws_windows (core ws) = ws_windows ws" "ws_mset (core ws) = ws_mset ws"
  "has_windows_or_name (core ws) = has_windows_or_name ws" "ws_ok cv (core ws) = ws_ok cv ws"
  "ws_has_window w (core ws) = ws_has_window w ws"
  by (simp_all add: ws_windows_def ws_mset_def has_windows_or_name_def ws_has_windows_def ws_ok_def
      ws_has_window_def)

definition cores :: "monitor \<Rightarrow> workspace multiset" where
  "cores m = image_mset core (mset (workspaces m))"

text \<open>The part of a workspace that structural changes of the monitor never touch\<close>

definition body ::
  "workspace \<Rightarrow> nat \<times> string option \<times> scrolling \<times> floating \<times> floating_active" where
  "body ws = (ws_id ws, ws_name ws, ws_scrolling ws, ws_floating ws, floating_is_active ws)"

lemma body_core [simp]: "body (core ws) = body ws"
  by (simp add: body_def)

definition bodies_of where
  "bodies_of M = image_mset body (filter_mset has_windows_or_name M)"

definition bodies where
  "bodies m = bodies_of (cores m)"

definition name_keys :: "workspace \<Rightarrow> string multiset" where
  "name_keys ws = (case ws_name ws of None \<Rightarrow> {#} | Some n \<Rightarrow> {#map ascii_lower n#})"

definition fits :: "client_view \<Rightarrow> wl_output \<Rightarrow> options \<Rightarrow> nat \<Rightarrow> workspace \<Rightarrow> bool" where
  "fits cv out opts nxt ws \<longleftrightarrow>
     ws_id ws < nxt \<and> ws_ok cv ws \<and> base_options ws = opts \<and> ws_output ws = Some out \<and>
     (ws_hidden ws \<or> needs_hidden ws \<longrightarrow> ws_name ws \<noteq> None)"

definition cores_ok ::
  "client_view \<Rightarrow> wl_output \<Rightarrow> options \<Rightarrow> nat \<Rightarrow> win_id multiset \<Rightarrow> workspace multiset \<Rightarrow> bool" where
  "cores_ok cv out opts nxt st M \<longleftrightarrow>
     (\<forall>ws \<in># M. fits cv out opts nxt ws) \<and>
     distinct_mset (image_mset ws_id M) \<and>
     distinct_mset (\<Sum>\<^sub># (image_mset name_keys M)) \<and>
     distinct_mset (st + \<Sum>\<^sub># (image_mset ws_mset M))"

definition content_ok :: "client_view \<Rightarrow> monitor \<Rightarrow> bool" where
  "content_ok cv m \<longleftrightarrow>
     cores_ok cv (mon_output m) (mon_options m) (next_ws_id m) (fl_mset (sticky m)) (cores m) \<and>
     fl_ok cv (sticky m) \<and> (active_space m = SpaceSticky \<longrightarrow> fl_tiles (sticky m) \<noteq> []) \<and>
     mon_options m = with_merged_layout (mon_layout_config m) (mon_base_options m)"

definition mon_mset :: "monitor \<Rightarrow> win_id multiset" where
  "mon_mset m = fl_mset (sticky m) + \<Sum>\<^sub># (image_mset ws_mset (cores m))"

lemma mon_mset_windows: "mon_mset m = mset (mon_windows m)"
  by (simp add: mon_mset_def mon_windows_def cores_def fl_mset_def mset_concat ws_mset_windows
      image_mset.compositionality comp_def sum_mset_sum_list del: mset_map flip: mset_map)

lemma sum_subset_split:
  assumes "A \<subseteq># B"
  shows "\<exists>C. \<Sum>\<^sub># (image_mset f B) = \<Sum>\<^sub># (image_mset f A) + (C :: 'b multiset)"
proof -
  from assms obtain D where "B = A + D" by (metis subset_mset.add_diff_inverse)
  then show ?thesis by auto
qed

lemma cores_ok_subset:
  assumes "cores_ok cv out opts nxt st B" "A \<subseteq># B"
  shows "cores_ok cv out opts nxt st A"
proof -
  from assms(2) obtain D where B: "B = A + D" by (metis subset_mset.add_diff_inverse)
  have "distinct_mset (image_mset ws_id A)" "distinct_mset (\<Sum>\<^sub># (image_mset name_keys A))"
    "distinct_mset (st + \<Sum>\<^sub># (image_mset ws_mset A))"
    using assms(1) unfolding cores_ok_def B
    by (auto simp: distinct_mset_union add.assoc [symmetric])
  then show ?thesis using assms(1) B by (auto simp: cores_ok_def)
qed

lemma ws_mset_new [simp]:
  "ws_mset (workspace_new i out opts) = {#}"
  by (simp add: workspace_new_def new_with_config_def ws_mset_def win_mset_def empty_scrolling_def
      fl_mset_def fl_windows_def empty_floating_def Let_def)

lemma workspace_new_simps [simp]:
  "ws_id (workspace_new i out opts) = i" "ws_name (workspace_new i out opts) = None"
  "\<not> ws_hidden (workspace_new i out opts)" "\<not> needs_hidden (workspace_new i out opts)"
  "ws_output (workspace_new i out opts) = Some out" "base_options (workspace_new i out opts) = opts"
  "core (workspace_new i out opts) = workspace_new i out opts"
  "original_idx (workspace_new i out opts) = None"
  by (simp_all add: workspace_new_def new_with_config_def core_def)

lemma has_windows_or_name_iff: "has_windows_or_name ws \<longleftrightarrow> ws_mset ws \<noteq> {#} \<or> ws_name ws \<noteq> None"
  by (auto simp: has_windows_or_name_def ws_has_windows_def ws_mset_windows)

lemma new_is_empty [simp]: "\<not> has_windows_or_name (workspace_new i out opts)"
  by (simp add: has_windows_or_name_iff)

lemma workspace_new_fits:
  "i < nxt \<Longrightarrow> fits cv out opts nxt (workspace_new i out opts)"
  using new_with_config_ok(1) by (simp add: fits_def) (simp add: workspace_new_def)

lemma fits_mono: "fits cv out opts nxt ws \<Longrightarrow> nxt \<le> nxt' \<Longrightarrow> fits cv out opts nxt' ws"
  by (auto simp: fits_def)

lemma cores_ok_new:
  assumes "cores_ok cv out opts nxt st M"
  shows "cores_ok cv out opts (nxt + 1) st (add_mset (workspace_new nxt out opts) M)"
proof -
  have "nxt \<notin> ws_id ` set_mset M" using assms by (auto simp: cores_ok_def fits_def)
  then show ?thesis using assms workspace_new_fits [of nxt "nxt + 1"] fits_mono [of cv out opts nxt _ "nxt + 1"]
    by (auto simp: cores_ok_def name_keys_def)
qed

text \<open>Exchanging one workspace\<close>

lemma cores_ok_exchange:
  assumes "cores_ok cv out opts nxt st (add_mset ws M)" "fits cv out opts nxt ws'" "ws_id ws' = ws_id ws"
    and "name_keys ws' \<subseteq># name_keys ws" "distinct_mset (st' + ws_mset ws' + \<Sum>\<^sub># (image_mset ws_mset M))"
  shows "cores_ok cv out opts nxt st' (add_mset ws' M)"
proof -
  have "name_keys ws' + \<Sum>\<^sub># (image_mset name_keys M) \<subseteq># name_keys ws + \<Sum>\<^sub># (image_mset name_keys M)"
    using assms(4) by simp
  from distinct_mset_subset [OF this] assms show ?thesis by (auto simp: cores_ok_def add.assoc)
qed

lemma cores_ok_same:
  assumes "cores_ok cv out opts nxt st (add_mset ws M)" "fits cv out opts nxt ws'" "ws_id ws' = ws_id ws"
    and "name_keys ws' \<subseteq># name_keys ws" "ws_mset ws' = ws_mset ws"
  shows "cores_ok cv out opts nxt st (add_mset ws' M)"
  by (rule cores_ok_exchange [OF assms(1-4)]) (use assms(1,5) in \<open>simp add: cores_ok_def add.assoc\<close>)

lemma bodies_of_simps [simp]:
  "bodies_of {#} = {#}"
  "bodies_of (add_mset ws M) = (if has_windows_or_name ws then add_mset (body ws) (bodies_of M) else bodies_of M)"
  "bodies_of (A + B) = bodies_of A + bodies_of B"
  by (simp_all add: bodies_of_def)

text \<open>The windows of a monitor are those of its bodies\<close>

definition body_mset where
  "body_mset b = (case b of (i, n, s, f, a) \<Rightarrow> win_mset (columns s) + fl_mset f)"

lemma body_mset_body [simp]: "body_mset (body ws) = ws_mset ws"
  by (simp add: body_mset_def body_def ws_mset_def)

lemma ws_mset_bodies:
  "\<Sum>\<^sub># (image_mset ws_mset M) = \<Sum>\<^sub># (image_mset body_mset (bodies_of M))"
  by (induction M) (auto simp: has_windows_or_name_iff)

lemma mon_mset_bodies: "mon_mset m = fl_mset (sticky m) + \<Sum>\<^sub># (image_mset body_mset (bodies m))"
  by (simp add: mon_mset_def bodies_def ws_mset_bodies)

section \<open>Where the workspaces are\<close>

definition vis :: "monitor \<Rightarrow> workspace list" where
  "vis m = filter (\<lambda>ws. \<not> ws_hidden ws) (workspaces m)"

definition hid :: "monitor \<Rightarrow> workspace list" where
  "hid m = filter ws_hidden (workspaces m)"

lemma vis_hid_I:
  assumes "workspaces m = v @ h" "\<forall>ws \<in> set v. \<not> ws_hidden ws" "\<forall>ws \<in> set h. ws_hidden ws"
  shows "vis m = v" "hid m = h"
  using assms by (simp_all add: vis_def hid_def filter_empty_conv filter_id_conv)

lemma vis_visible: "ws \<in> set (vis m) \<Longrightarrow> \<not> ws_hidden ws"
  by (simp add: vis_def)

lemma hid_hidden: "ws \<in> set (hid m) \<Longrightarrow> ws_hidden ws"
  by (simp add: hid_def)

abbreviation blank :: "workspace \<Rightarrow> bool" where
  "blank ws \<equiv> \<not> has_windows_or_name ws"

text \<open>The visible region starts and ends as it should; the rest follows from a clean-up\<close>

definition loose :: "monitor \<Rightarrow> bool" where
  "loose m \<longleftrightarrow>
     workspaces m = vis m @ hid m \<and> active_workspace_idx m < length (vis m) \<and>
     blank (last (vis m)) \<and> (above_first m \<longrightarrow> blank (hd (vis m)))"

definition tight :: "monitor \<Rightarrow> bool" where
  "tight m \<longleftrightarrow>
     (\<forall>i < length (vis m) - 1. (if above_first m then 1 else 0) \<le> i \<longrightarrow> i \<noteq> active_workspace_idx m \<longrightarrow>
        has_windows_or_name (vis m ! i))"

fun switch_ok :: "switch_state option \<Rightarrow> nat \<Rightarrow> nat \<Rightarrow> bool" where
  "switch_ok None n len = True"
| "switch_ok (Some (SwitchAnimation to)) n len = (to < len)"
| "switch_ok (Some (SwitchGesture g)) n len =
     (sg_center_idx g < n \<and> (sg_dnd g \<longrightarrow> 0 \<le> sg_current_idx g \<and> sg_current_idx g \<le> real n))"

definition shape :: "bool \<Rightarrow> monitor \<Rightarrow> bool" where
  "shape t m \<longleftrightarrow>
     loose m \<and> (above_first m \<and> hid m = [] \<longrightarrow> length (vis m) \<noteq> 2) \<and>
     switch_ok (workspace_switch m) (length (vis m)) (length (workspaces m)) \<and>
     (t \<longrightarrow> workspace_switch m = None \<longrightarrow> tight m)"

definition mon_ok :: "client_view \<Rightarrow> monitor \<Rightarrow> bool" where
  "mon_ok cv m \<longleftrightarrow> content_ok cv m \<and> shape True m"

lemma looseD:
  assumes "loose m"
  shows "workspaces m = vis m @ hid m" "active_workspace_idx m < length (vis m)" "vis m \<noteq> []"
    "blank (last (vis m))" "above_first m \<Longrightarrow> blank (hd (vis m))"
  using assms by (auto simp: loose_def)

lemma position_split:
  assumes "\<forall>x \<in> set v. \<not> P x" "\<forall>x \<in> set h. P x"
  shows "position P (v @ h) = (if h = [] then None else Some (length v))"
proof (cases h)
  case Nil
  with assms(1) show ?thesis by (simp add: position_None)
next
  case (Cons x xs)
  have "position P (v @ h) = Some (length v)"
    by (rule position_SomeI) (use assms Cons in \<open>auto simp: nth_append\<close>)
  with Cons show ?thesis by simp
qed

lemma position_hidden:
  assumes "workspaces m = vis m @ hid m"
  shows "position ws_hidden (workspaces m) = (if hid m = [] then None else Some (length (vis m)))"
proof -
  have "position ws_hidden (vis m @ hid m) = (if hid m = [] then None else Some (length (vis m)))"
    by (rule position_split) (auto simp: vis_def hid_def)
  then show ?thesis by (simp only: assms [symmetric])
qed

lemma visible_count:
  assumes "workspaces m = vis m @ hid m"
  shows "visible_workspace_count m = length (vis m)"
  using position_hidden [OF assms] arg_cong [OF assms, of length]
  by (simp add: visible_workspace_count_def)

lemma nth_vis:
  assumes "workspaces m = vis m @ hid m" "i < length (vis m)"
  shows "workspaces m ! i = vis m ! i" "i < length (workspaces m)"
  using assms by (metis nth_append, metis length_append trans_less_add1)

section \<open>Adding an empty workspace\<close>

definition steady :: "monitor \<Rightarrow> monitor \<Rightarrow> bool" where
  "steady m m' \<longleftrightarrow>
     mon_output m' = mon_output m \<and> mon_options m' = mon_options m \<and>
     mon_base_options m' = mon_base_options m \<and> mon_layout_config m' = mon_layout_config m \<and>
     sticky m' = sticky m \<and> active_space m' = active_space m \<and> overview_open m' = overview_open m \<and>
     next_ws_id m \<le> next_ws_id m'"

lemma steady_refl [simp]: "steady m m"
  by (simp add: steady_def)

lemma steady_trans: "steady a b \<Longrightarrow> steady b c \<Longrightarrow> steady a c"
  by (auto simp: steady_def)

text \<open>Structural changes: the same content, other places\<close>

definition rearranged :: "client_view \<Rightarrow> monitor \<Rightarrow> monitor \<Rightarrow> bool" where
  "rearranged cv m m' \<longleftrightarrow> steady m m' \<and> content_ok cv m' \<and> bodies m' = bodies m"

lemma rearranged_refl: "content_ok cv m \<Longrightarrow> rearranged cv m m"
  by (simp add: rearranged_def)

lemma rearranged_trans: "rearranged cv a b \<Longrightarrow> rearranged cv b c \<Longrightarrow> rearranged cv a c"
  by (auto simp: rearranged_def intro: steady_trans)

lemma rearranged_windows: "rearranged cv m m' \<Longrightarrow> mon_mset m' = mon_mset m"
  by (simp add: rearranged_def mon_mset_bodies steady_def)

lemma rearrangedI:
  assumes "content_ok cv m" "steady m m'" "bodies m' = bodies m"
    and "cores_ok cv (mon_output m) (mon_options m) (next_ws_id m') (fl_mset (sticky m)) (cores m')"
  shows "rearranged cv m m'"
  using assms by (auto simp: rearranged_def content_ok_def steady_def)

lemma content_okD:
  "content_ok cv m \<Longrightarrow>
     cores_ok cv (mon_output m) (mon_options m) (next_ws_id m) (fl_mset (sticky m)) (cores m)"
  unfolding content_ok_def by (rule conjunct1)

lemma core_shift [simp]: "core (shift_hidden f ws) = core ws"
  by (simp add: shift_hidden_def core_def)

lemma shift_hidden_simps [simp]:
  "ws_hidden (shift_hidden f ws) = ws_hidden ws"
  "has_windows_or_name (shift_hidden f ws) = has_windows_or_name ws"
  "ws_id (shift_hidden f ws) = ws_id ws" "ws_name (shift_hidden f ws) = ws_name ws"
  "\<not> ws_hidden ws \<Longrightarrow> shift_hidden f ws = ws"
  by (simp_all add: shift_hidden_def has_windows_or_name_def ws_has_windows_def ws_windows_def)

lemma map_shift_visible: "\<forall>ws \<in> set v. \<not> ws_hidden ws \<Longrightarrow> map (shift_hidden f) v = v"
  by (simp add: map_idI)

lemma map_shift_vis [simp]: "map (shift_hidden f) (vis m) = vis m"
  by (rule map_shift_visible) (simp add: vis_def)

lemma insert_at_left: "i \<le> length v \<Longrightarrow> insert_at i x (v @ h) = insert_at i x v @ h"
  by (simp add: insert_at_def)

lemma remove_at_left: "i < length v \<Longrightarrow> remove_at i (v @ h) = remove_at i v @ h"
  by (simp add: remove_at_def)

definition add_result :: "nat \<Rightarrow> monitor \<Rightarrow> monitor" where
  "add_result idx m =
     m\<lparr>workspaces := insert_at idx (workspace_new (next_ws_id m) (mon_output m) (mon_options m)) (vis m) @
         map (shift_hidden (\<lambda>i. if idx \<le> i then i + 1 else i)) (hid m),
       next_ws_id := next_ws_id m + 1,
       active_workspace_idx :=
         (if idx \<le> active_workspace_idx m then active_workspace_idx m + 1 else active_workspace_idx m),
       workspace_switch :=
         map_option (\<lambda>s. if real idx \<le> switch_target_idx s then switch_offset_1 s else s)
           (workspace_switch m)\<rparr>"

lemma add_workspace_at_eq:
  assumes "workspaces m = vis m @ hid m" "idx \<le> length (vis m)"
  shows "add_workspace_at idx m = Some (add_result idx m)"
proof -
  let ?new = "workspace_new (next_ws_id m) (mon_output m) (mon_options m)"
  let ?f = "\<lambda>i. if idx \<le> i then i + 1 else i"
  have "vec_insert idx ?new (workspaces m) = Some (insert_at idx ?new (vis m) @ hid m)"
    by (subst assms(1)) (use assms(2) in \<open>simp add: insert_at_left\<close>)
  moreover have "map (shift_hidden ?f) (insert_at idx ?new (vis m) @ hid m) =
      insert_at idx ?new (vis m) @ map (shift_hidden ?f) (hid m)"
    by (simp add: map_insert_at)
  ultimately show ?thesis
    by (simp add: add_workspace_at_def add_result_def shift_hidden_original_indices_for_insertion_def Let_def)
qed

lemma add_result_simps [simp]:
  assumes "idx \<le> length (vis m)"
  shows "vis (add_result idx m) =
      insert_at idx (workspace_new (next_ws_id m) (mon_output m) (mon_options m)) (vis m)"
    "hid (add_result idx m) = map (shift_hidden (\<lambda>i. if idx \<le> i then i + 1 else i)) (hid m)"
proof -
  let ?new = "workspace_new (next_ws_id m) (mon_output m) (mon_options m)"
  let ?f = "shift_hidden (\<lambda>i. if idx \<le> i then i + 1 else i)"
  have w: "workspaces (add_result idx m) = insert_at idx ?new (vis m) @ map ?f (hid m)"
    by (simp add: add_result_def)
  have v: "\<forall>ws \<in> set (insert_at idx ?new (vis m)). \<not> ws_hidden ws" by (simp add: vis_def)
  have h: "\<forall>ws \<in> set (map ?f (hid m)). ws_hidden ws" by (simp add: hid_def)
  show "vis (add_result idx m) = insert_at idx ?new (vis m)" by (rule vis_hid_I(1) [OF w v h])
  show "hid (add_result idx m) = map ?f (hid m)" by (rule vis_hid_I(2) [OF w v h])
qed

lemma add_result_fields [simp]:
  "active_workspace_idx (add_result idx m) =
     (if idx \<le> active_workspace_idx m then active_workspace_idx m + 1 else active_workspace_idx m)"
  "mon_output (add_result idx m) = mon_output m" "mon_options (add_result idx m) = mon_options m"
  "sticky (add_result idx m) = sticky m" "next_ws_id (add_result idx m) = next_ws_id m + 1"
  "previous_workspace_id (add_result idx m) = previous_workspace_id m"
  "workspace_switch m = None \<Longrightarrow> workspace_switch (add_result idx m) = None"
  "workspace_switch (add_result idx m) = None \<longleftrightarrow> workspace_switch m = None"
  by (simp_all add: add_result_def)

lemma workspaces_add_result:
  "idx \<le> length (vis m) \<Longrightarrow> workspaces (add_result idx m) = vis (add_result idx m) @ hid (add_result idx m)"
  by simp (simp add: add_result_def)

lemma cores_split: "workspaces m = vis m @ hid m \<Longrightarrow>
    cores m = image_mset core (mset (vis m)) + image_mset core (mset (hid m))"
  by (metis cores_def image_mset_union mset_append)

lemma mset_core_shift [simp]:
  "image_mset core (mset (map (shift_hidden f) xs)) = image_mset core (mset xs)"
  by (simp add: image_mset.compositionality comp_def)

lemma cores_add_result:
  assumes "workspaces m = vis m @ hid m" "idx \<le> length (vis m)"
  shows "cores (add_result idx m) =
    add_mset (workspace_new (next_ws_id m) (mon_output m) (mon_options m)) (cores m)"
  using assms by (simp add: cores_split [OF assms(1)] cores_split [OF workspaces_add_result] image_mset.compositionality comp_def)

lemma add_result_rearranged:
  assumes "content_ok cv m" "workspaces m = vis m @ hid m" "idx \<le> length (vis m)"
  shows "rearranged cv m (add_result idx m)"
proof (rule rearrangedI [OF assms(1)])
  show "steady m (add_result idx m)" by (simp add: steady_def add_result_def)
  show "bodies (add_result idx m) = bodies m"
    by (simp add: bodies_def cores_add_result [OF assms(2,3)])
  show "cores_ok cv (mon_output m) (mon_options m) (next_ws_id (add_result idx m)) (fl_mset (sticky m))
      (cores (add_result idx m))"
    using cores_ok_new [OF content_okD [OF assms(1)]] by (simp add: cores_add_result [OF assms(2,3)])
qed

lemma last_insert_at: "i < length xs \<Longrightarrow> last (insert_at i x xs) = last xs"
  by (simp add: insert_at_def last_append)

lemma hd_insert_at: "0 < i \<Longrightarrow> xs \<noteq> [] \<Longrightarrow> hd (insert_at i x xs) = hd xs"
  by (cases xs; cases i) (simp_all add: insert_at_def)

lemma add_result_loose:
  assumes "workspaces m = vis m @ hid m" "idx \<le> length (vis m)" "active_workspace_idx m < length (vis m)"
    and "idx = length (vis m) \<or> blank (last (vis m))" "above_first m \<Longrightarrow> idx = 0 \<or> blank (hd (vis m))"
  shows "loose (add_result idx m)"
  unfolding loose_def
proof (intro conjI impI)
  have v: "vis m \<noteq> []" using assms(3) by auto
  show "workspaces (add_result idx m) = vis (add_result idx m) @ hid (add_result idx m)"
    by (rule workspaces_add_result [OF assms(2)])
  show "active_workspace_idx (add_result idx m) < length (vis (add_result idx m))"
    using assms(2,3) by simp
  show "blank (last (vis (add_result idx m)))"
    using assms(2,4) v last_insert_at [of idx "vis m"] by (cases "idx = length (vis m)") auto
  assume "above_first (add_result idx m)"
  with assms(5) have "idx = 0 \<or> blank (hd (vis m))" by simp
  with assms(2) v hd_insert_at [of idx "vis m"] show "blank (hd (vis (add_result idx m)))"
    by (cases "idx = 0") auto
qed

lemma switch_ok_add:
  assumes "switch_ok s n len" "n' = n + 1" "len' = len + 1"
  shows "switch_ok (map_option (\<lambda>s. if real idx \<le> switch_target_idx s then switch_offset_1 s else s) s) n' len'"
  using assms
  by (cases "(s, n, len)" rule: switch_ok.cases)
    (auto simp: switch_target_idx_def switch_offset_1_def)

lemma add_result_switch_ok:
  assumes "workspaces m = vis m @ hid m" "idx \<le> length (vis m)"
    and "switch_ok (workspace_switch m) (length (vis m)) (length (workspaces m))"
  shows "switch_ok (workspace_switch (add_result idx m)) (length (vis (add_result idx m)))
           (length (workspaces (add_result idx m)))"
proof -
  have "length (workspaces (add_result idx m)) = length (workspaces m) + 1"
    using arg_cong [OF assms(1), of length] assms(2) by (simp add: add_result_def)
  moreover have "length (vis (add_result idx m)) = length (vis m) + 1" using assms(2) by simp
  ultimately show ?thesis using switch_ok_add [OF assms(3), of _ _ idx]
    by (simp add: add_result_def)
qed

end
