(* ===== verification/MonitorTidy.thy ===== *)
theory MonitorTidy
  imports MonitorInv
begin

text \<open>
  Cleaning up, hiding, unhiding, inserting and activating workspaces: every one of these
  returns, leaves the monitor in the shape \<open>verify_invariants\<close> asks for, and touches no
  workspace that has windows or a name, apart from its place.
\<close>

section \<open>Clean-up\<close>

definition drop_visible :: "nat \<Rightarrow> monitor \<Rightarrow> monitor" where
  "drop_visible idx m =
     m\<lparr>workspaces := remove_at idx (vis m) @
         map (shift_hidden (\<lambda>i. if idx < i then i - 1 else i)) (hid m),
       active_workspace_idx :=
         (if idx < active_workspace_idx m then active_workspace_idx m - 1 else active_workspace_idx m)\<rparr>"

lemma drop_visible_simps [simp]:
  "vis (drop_visible idx m) = remove_at idx (vis m)"
  "hid (drop_visible idx m) = map (shift_hidden (\<lambda>i. if idx < i then i - 1 else i)) (hid m)"
proof -
  let ?f = "shift_hidden (\<lambda>i. if idx < i then i - 1 else i)"
  have w: "workspaces (drop_visible idx m) = remove_at idx (vis m) @ map ?f (hid m)"
    by (simp add: drop_visible_def)
  have v: "\<forall>ws \<in> set (remove_at idx (vis m)). \<not> ws_hidden ws"
    using set_remove_at_subset [of idx "vis m"] by (auto simp: vis_def)
  have h: "\<forall>ws \<in> set (map ?f (hid m)). ws_hidden ws" by (simp add: hid_def)
  show "vis (drop_visible idx m) = remove_at idx (vis m)" by (rule vis_hid_I(1) [OF w v h])
  show "hid (drop_visible idx m) = map ?f (hid m)" by (rule vis_hid_I(2) [OF w v h])
qed

lemma workspaces_drop_visible:
  "workspaces (drop_visible idx m) = vis (drop_visible idx m) @ hid (drop_visible idx m)"
  by simp (simp add: drop_visible_def)

lemma active_drop_visible [simp]:
  "active_workspace_idx (drop_visible idx m) =
     (if idx < active_workspace_idx m then active_workspace_idx m - 1 else active_workspace_idx m)"
  by (simp add: drop_visible_def)

lemma clean_up_at_eq:
  assumes "workspaces m = vis m @ hid m" "idx < length (vis m)"
  shows "clean_up_at idx m =
    Some (if active_workspace_idx m = idx \<or> has_windows_or_name (vis m ! idx) then m
          else drop_visible idx m)"
proof -
  let ?f = "shift_hidden (\<lambda>i. if idx < i then i - 1 else i)"
  note at = nth_vis [OF assms]
  have nh: "\<not> ws_hidden (vis m ! idx)" using assms(2) nth_mem vis_visible by blast
  have "vec_remove idx (workspaces m) = Some (vis m ! idx, remove_at idx (vis m) @ hid m)"
    using at assms(2) remove_at_left [OF assms(2), of "hid m"] assms(1) by simp
  moreover have "map ?f (remove_at idx (vis m) @ hid m) = remove_at idx (vis m) @ map ?f (hid m)"
    by (simp add: map_remove_at)
  ultimately show ?thesis
    using at nh
    by (simp add: clean_up_at_def drop_visible_def shift_hidden_original_indices_for_removal_def Let_def)
qed

text \<open>What the clean-up may change\<close>

definition places_only :: "monitor \<Rightarrow> monitor \<Rightarrow> bool" where
  "places_only m m' \<longleftrightarrow>
     m' = m\<lparr>workspaces := workspaces m', active_workspace_idx := active_workspace_idx m'\<rparr>"

lemma places_only_refl [simp]: "places_only m m"
  by (simp add: places_only_def)

lemma places_only_trans:
  assumes "places_only a b" "places_only b c"
  shows "places_only a c"
proof -
  from assms(1) obtain w i where b: "b = a\<lparr>workspaces := w, active_workspace_idx := i\<rparr>"
    unfolding places_only_def by blast
  from assms(2) obtain w' i' where "c = b\<lparr>workspaces := w', active_workspace_idx := i'\<rparr>"
    unfolding places_only_def by blast
  with b show ?thesis by (simp add: places_only_def)
qed

lemma places_onlyD:
  assumes "places_only m m'"
  shows "steady m m'" "workspace_switch m' = workspace_switch m" "mon_options m' = mon_options m"
    "previous_workspace_id m' = previous_workspace_id m" "next_ws_id m' = next_ws_id m"
    "sticky m' = sticky m" "mon_output m' = mon_output m"
proof -
  from assms obtain w i where "m' = m\<lparr>workspaces := w, active_workspace_idx := i\<rparr>"
    unfolding places_only_def by blast
  then show "steady m m'" "workspace_switch m' = workspace_switch m" "mon_options m' = mon_options m"
    "previous_workspace_id m' = previous_workspace_id m" "next_ws_id m' = next_ws_id m"
    "sticky m' = sticky m" "mon_output m' = mon_output m"
    by (simp_all add: steady_def)
qed

definition trimmed :: "nat \<Rightarrow> monitor \<Rightarrow> monitor \<Rightarrow> bool" where
  "trimmed s m m' \<longleftrightarrow>
     workspaces m' = vis m' @ hid m' \<and> active_workspace_idx m' < length (vis m') \<and>
     vis m' ! active_workspace_idx m' = vis m ! active_workspace_idx m \<and>
     last (vis m') = last (vis m) \<and> take s (vis m') = take s (vis m) \<and>
     filter has_windows_or_name (vis m') = filter has_windows_or_name (vis m) \<and>
     mset (vis m') \<subseteq># mset (vis m) \<and> map core (hid m') = map core (hid m) \<and>
     places_only m m'"

lemma trimmed_refl:
  "workspaces m = vis m @ hid m \<Longrightarrow> active_workspace_idx m < length (vis m) \<Longrightarrow> trimmed s m m"
  by (simp add: trimmed_def)

lemma trimmed_trans: "trimmed s a b \<Longrightarrow> trimmed s b c \<Longrightarrow> trimmed s a c"
  by (auto simp: trimmed_def intro: places_only_trans)

lemma filter_remove_at: "i < length xs \<Longrightarrow> \<not> P (xs ! i) \<Longrightarrow> filter P (remove_at i xs) = filter P xs"
  by (simp add: remove_at_def) (metis (no_types) filter.simps(2) filter_append id_take_nth_drop)

lemma last_remove_at: "i + 1 < length xs \<Longrightarrow> last (remove_at i xs) = last xs"
  by (simp add: remove_at_def last_append)

lemma take_remove_at: "s \<le> i \<Longrightarrow> i < length xs \<Longrightarrow> take s (remove_at i xs) = take s xs"
  by (simp add: remove_at_def)

lemma mset_remove_at_subset: "mset (remove_at i xs) \<subseteq># mset xs"
  by (cases "i < length xs")
    (metis mset_remove_at add_mset_add_single mset_subset_eq_add_left, simp add: remove_at_def)

lemma map_core_shift [simp]: "map core (map (shift_hidden f) xs) = map core xs"
  by simp

lemma drop_visible_trimmed:
  assumes "workspaces m = vis m @ hid m" "active_workspace_idx m < length (vis m)"
    and "s \<le> idx" "idx + 1 < length (vis m)" "idx \<noteq> active_workspace_idx m" "blank (vis m ! idx)"
  shows "trimmed s m (drop_visible idx m)"
  unfolding trimmed_def
proof (intro conjI)
  let ?m = "drop_visible idx m"
  show "workspaces ?m = vis ?m @ hid ?m" by (rule workspaces_drop_visible)
  show "active_workspace_idx ?m < length (vis ?m)" using assms by auto
  show "vis ?m ! active_workspace_idx ?m = vis m ! active_workspace_idx m"
    using assms by (auto simp: nth_remove_at)
  show "last (vis ?m) = last (vis m)" using assms(4) by (simp add: last_remove_at)
  show "take s (vis ?m) = take s (vis m)" using assms(3,4) by (simp add: take_remove_at)
  show "filter has_windows_or_name (vis ?m) = filter has_windows_or_name (vis m)"
    using assms(4,6) by (simp add: filter_remove_at)
  show "mset (vis ?m) \<subseteq># mset (vis m)" by (simp add: mset_remove_at_subset)
  show "map core (hid ?m) = map core (hid m)" by simp
  show "places_only m ?m" by (simp add: places_only_def drop_visible_def)
qed

definition clean_from :: "nat \<Rightarrow> monitor \<Rightarrow> bool" where
  "clean_from k m \<longleftrightarrow>
     (\<forall>i. k \<le> i \<longrightarrow> i < length (vis m) - 1 \<longrightarrow> i \<noteq> active_workspace_idx m \<longrightarrow> has_windows_or_name (vis m ! i))"

lemma clean_from_drop:
  assumes "clean_from (Suc k) m" "k + 1 < length (vis m)" "k \<noteq> active_workspace_idx m"
  shows "clean_from k (drop_visible k m)"
  unfolding clean_from_def
proof (intro allI impI)
  fix i assume i: "k \<le> i" "i < length (vis (drop_visible k m)) - 1"
    "i \<noteq> active_workspace_idx (drop_visible k m)"
  then have "Suc i \<noteq> active_workspace_idx m" "Suc i < length (vis m) - 1"
    using assms(2,3) by (auto split: if_splits)
  with assms(1) i(1) have "has_windows_or_name (vis m ! Suc i)" by (simp add: clean_from_def)
  with i assms(2) show "has_windows_or_name (vis (drop_visible k m) ! i)"
    by (simp add: nth_remove_at)
qed

lemma clean_from_same:
  assumes "clean_from (Suc k) m" "k = active_workspace_idx m \<or> has_windows_or_name (vis m ! k)"
  shows "clean_from k m"
  using assms unfolding clean_from_def by (metis le_antisym not_less_eq_eq)

lemma clean_up_all_returns:
  assumes "workspaces m = vis m @ hid m" "active_workspace_idx m < length (vis m)"
    and "s \<le> k" "k < length (vis m)" "clean_from k m"
  shows "returns (clean_up_all (rev [s..<k]) m) (\<lambda>m'. trimmed s m m' \<and> clean_from s m')"
  using assms
proof (induction k arbitrary: m)
  case 0
  then show ?case by (simp add: trimmed_refl)
next
  case (Suc k)
  show ?case
  proof (cases "s = Suc k")
    case True
    with Suc.prems show ?thesis by (simp add: trimmed_refl)
  next
    case False
    then have s: "s \<le> k" using Suc.prems(3) by simp
    have k: "k < length (vis m)" using Suc.prems(4) by simp
    define m1 where "m1 = (if active_workspace_idx m = k \<or> has_windows_or_name (vis m ! k) then m
      else drop_visible k m)"
    have run: "clean_up_at k m = Some m1"
      using clean_up_at_eq [OF Suc.prems(1) k] by (simp add: m1_def)
    have t: "trimmed s m m1"
      using trimmed_refl [OF Suc.prems(1,2)] drop_visible_trimmed [OF Suc.prems(1,2) s] Suc.prems(4)
      by (auto simp: m1_def)
    have c: "clean_from k m1"
      using clean_from_same [OF Suc.prems(5)] clean_from_drop [OF Suc.prems(5)] Suc.prems(4)
      by (auto simp: m1_def)
    have "workspaces m1 = vis m1 @ hid m1" "active_workspace_idx m1 < length (vis m1)"
      using t by (simp_all add: trimmed_def)
    moreover have "k < length (vis m1)" using Suc.prems(4) by (auto simp: m1_def)
    ultimately have "returns (clean_up_all (rev [s..<k]) m1) (\<lambda>m'. trimmed s m1 m' \<and> clean_from s m')"
      using Suc.IH [of m1] s c by blast
    then have "returns (clean_up_all (rev [s..<k]) m1) (\<lambda>m'. trimmed s m m' \<and> clean_from s m')"
      by (rule returns_mono) (use t trimmed_trans in blast)
    with s run show ?thesis by simp
  qed
qed

lemma bodies_of_list: "bodies_of (image_mset core (mset xs)) = mset (map body (filter has_windows_or_name xs))"
  by (induction xs) auto

lemma bodies_lists:
  assumes "workspaces m = vis m @ hid m"
  shows "bodies m = mset (map body (filter has_windows_or_name (vis m)) @ map body (filter has_windows_or_name (hid m)))"
  by (simp add: bodies_def cores_split [OF assms] bodies_of_list)

lemma filter_core: "map core xs = map core ys \<Longrightarrow>
    map core (filter has_windows_or_name xs) = map core (filter has_windows_or_name ys)"
proof (induction xs arbitrary: ys)
  case (Cons x xs)
  then obtain y ys' where "ys = y # ys'" "core x = core y" "map core xs = map core ys'"
    by (cases ys) auto
  with Cons.IH [of ys'] show ?case by (metis core_windows(3) filter.simps(2) list.simps(9))
qed simp

lemma body_filter_core: "map core xs = map core ys \<Longrightarrow>
    map body (filter has_windows_or_name xs) = map body (filter has_windows_or_name ys)"
  using arg_cong [OF filter_core, of xs ys "map body"] by (simp add: comp_def)

lemma mset_core_subset: "mset xs \<subseteq># mset ys \<Longrightarrow> image_mset core (mset xs) \<subseteq># image_mset core (mset ys)"
  by (rule image_mset_subseteq_mono)

lemma mset_core_map: "map core xs = map core ys \<Longrightarrow> image_mset core (mset xs) = image_mset core (mset ys)"
  by (metis mset_map)

lemma trimmed_cores:
  assumes "trimmed s m m'" "workspaces m = vis m @ hid m"
  shows "cores m' \<subseteq># cores m" "bodies m' = bodies m"
proof -
  have w: "workspaces m' = vis m' @ hid m'" using assms(1) by (simp add: trimmed_def)
  show "cores m' \<subseteq># cores m"
    using assms(1) mset_core_subset [of "vis m'" "vis m"] mset_core_map [of "hid m'" "hid m"]
    by (simp add: cores_split [OF w] cores_split [OF assms(2)] trimmed_def)
  show "bodies m' = bodies m"
    using assms(1) body_filter_core [of "hid m'" "hid m"]
    by (simp add: bodies_lists [OF w] bodies_lists [OF assms(2)] trimmed_def)
qed

definition tidied :: "monitor \<Rightarrow> monitor \<Rightarrow> bool" where
  "tidied m m' \<longleftrightarrow>
     shape True m' \<and> workspace_switch m' = None \<and> places_only m m' \<and>
     cores m' \<subseteq># cores m \<and> bodies m' = bodies m \<and> map core (hid m') = map core (hid m) \<and>
     filter has_windows_or_name (vis m') = filter has_windows_or_name (vis m) \<and>
     (vis m' ! active_workspace_idx m' = vis m ! active_workspace_idx m \<or>
      blank (vis m ! active_workspace_idx m) \<and> length (vis m') = 1)"

lemma list_ex_hidden:
  assumes "workspaces m = vis m @ hid m"
  shows "list_ex ws_hidden (workspaces m) \<longleftrightarrow> hid m \<noteq> []"
  by (auto simp: list_ex_iff hid_def filter_empty_conv)

lemma clean_up_workspaces_returns:
  assumes "loose m" "workspace_switch m = None"
  shows "returns (clean_up_workspaces m) (tidied m)"
proof -
  note l = looseD [OF assms(1)]
  let ?s = "if above_first m then 1 else 0 :: nat" and ?k = "length (vis m) - 1"
  have last_idx: "(case position ws_hidden (workspaces m) of
      Some hidden_idx \<Rightarrow> sub_usize hidden_idx 1
    | None \<Rightarrow> sub_usize (length (workspaces m)) 1) = Some ?k"
    using position_hidden [OF l(1)] l(2) arg_cong [OF l(1), of length] by auto
  have "returns (clean_up_all (rev [?s..<?k]) m) (\<lambda>m'. trimmed ?s m m' \<and> clean_from ?s m')"
  proof (cases "?s \<le> ?k")
    case True
    show ?thesis
      by (rule clean_up_all_returns [OF l(1,2) True]) (use l(3) in \<open>auto simp: clean_from_def\<close>)
  next
    case False
    then have "clean_from ?s m" by (auto simp: clean_from_def split: if_splits)
    with False trimmed_refl [OF l(1,2)] show ?thesis by simp
  qed
  then obtain m1 where m1: "clean_up_all (rev [?s..<?k]) m = Some m1" "trimmed ?s m m1" "clean_from ?s m1"
    by (auto elim!: returnsE)
  have t: "workspaces m1 = vis m1 @ hid m1" "active_workspace_idx m1 < length (vis m1)"
    "vis m1 ! active_workspace_idx m1 = vis m ! active_workspace_idx m" "last (vis m1) = last (vis m)"
    "take ?s (vis m1) = take ?s (vis m)" "places_only m m1"
    "filter has_windows_or_name (vis m1) = filter has_windows_or_name (vis m)"
    "map core (hid m1) = map core (hid m)"
    using m1(2) by (simp_all add: trimmed_def)
  note p = places_onlyD [OF t(6)] and c = trimmed_cores [OF m1(2) l(1)]
  have v1: "vis m1 \<noteq> []" using t(2) by auto
  have hd1: "above_first m \<Longrightarrow> hd (vis m1) = hd (vis m)"
    using t(5) v1 l(3) by (cases "vis m1"; cases "vis m") auto
  have loose1: "loose m1" unfolding loose_def using t l(4,5) hd1 p(3) by simp
  have tight1: "tight m1" using m1(3) p(3) by (simp add: tight_def clean_from_def)
  have run: "clean_up_workspaces m =
    (if above_first m1 \<and> length (workspaces m1) = 2 \<and> \<not> list_ex ws_hidden (workspaces m1) then do {
         assert_that (\<not> has_windows_or_name (workspaces m1 ! 0));
         assert_that (\<not> has_windows_or_name (workspaces m1 ! 1));
         Some (m1\<lparr>workspaces := remove_at 1 (workspaces m1), active_workspace_idx := 0\<rparr>)
       } else Some m1)"
    using m1(1) assms(2) last_idx by (simp add: clean_up_workspaces_def)
  show ?thesis
  proof (cases "above_first m1 \<and> length (workspaces m1) = 2 \<and> \<not> list_ex ws_hidden (workspaces m1)")
    case False
    then have "shape True m1"
      using loose1 tight1 p(2) assms(2) list_ex_hidden [OF t(1)] t(1)
      by (auto simp: shape_def)
    then have "tidied m m1" using t p assms(2) c by (simp add: tidied_def)
    then show ?thesis by (simp only: run if_not_P [OF False] returns_Some)
  next
    case True
    then have h1: "hid m1 = []" using list_ex_hidden [OF t(1)] by simp
    with t(1) True obtain x y where xy: "vis m1 = [x, y]" "workspaces m1 = [x, y]"
      by (auto simp: length_Suc_conv numeral_2_eq_2)
    have b: "blank x" "blank y"
      using xy hd1 l(4,5) t(4) True p(3) by auto
    define m2 where "m2 = m1\<lparr>workspaces := remove_at 1 (workspaces m1), active_workspace_idx := 0\<rparr>"
    have x: "\<not> ws_hidden x" using xy vis_visible [of x m1] by simp
    have w2: "workspaces m2 = [x] @ []" by (simp add: m2_def xy remove_at_def)
    have vh: "vis m2 = [x]" "hid m2 = []" using vis_hid_I [OF w2] x by simp_all
    have sw: "workspace_switch m2 = None" using p(2) assms(2) by (simp add: m2_def)
    have po: "places_only m m2"
      by (rule places_only_trans [OF t(6)]) (simp add: places_only_def m2_def)
    have shape2: "shape True m2"
      using b vh w2 sw by (simp add: shape_def loose_def tight_def) (simp add: m2_def)
    have "cores m2 \<subseteq># cores m1" by (simp add: cores_def w2 xy)
    then have "cores m2 \<subseteq># cores m" using c(1) by simp
    moreover have "bodies m2 = bodies m1"
      using b by (simp add: bodies_def cores_def w2 xy)
    moreover have "blank (vis m ! active_workspace_idx m)"
      using nth_mem [OF t(2)] t(3) xy(1) b by auto
    ultimately have "tidied m m2"
      using shape2 sw po vh h1 t(7,8) b xy c(2) by (simp add: tidied_def)
    with True run xy b show ?thesis by (simp add: m2_def)
  qed
qed

section \<open>Hiding\<close>

lemma ensure_empty_eq:
  assumes "workspaces m = vis m @ hid m" "vis m \<noteq> []"
  shows "ensure_empty_before_hidden m =
    Some (if hid m \<noteq> [] \<and> has_windows_or_name (last (vis m)) then add_result (length (vis m)) m else m)"
proof -
  have "workspaces m ! (length (vis m) - 1) = last (vis m)" "length (vis m) - 1 < length (workspaces m)"
    using nth_vis [OF assms(1), of "length (vis m) - 1"] assms(2) by (simp_all add: last_conv_nth)
  then show ?thesis
    using position_hidden [OF assms(1)] add_workspace_at_eq [OF assms(1) order_refl] assms(2)
    by (simp add: ensure_empty_before_hidden_def)
qed

lemma places_set:
  assumes "places_only (m\<lparr>workspaces := w, active_workspace_idx := a, workspace_switch := None\<rparr>) m'"
  shows "steady m m'" "previous_workspace_id m' = previous_workspace_id m" "mon_options m' = mon_options m"
    "next_ws_id m' = next_ws_id m" "sticky m' = sticky m" "mon_output m' = mon_output m"
  using places_onlyD [OF assms] by (simp_all add: steady_def)

lemma active_if:
  "(if b then m\<lparr>active_workspace_idx := x\<rparr> else m) =
     m\<lparr>active_workspace_idx := (if b then x else active_workspace_idx m)\<rparr>"
  by simp

text \<open>Taking out a hidden workspace, wherever it stands\<close>

lemma remove_hidden_returns:
  assumes w: "workspaces m = xs @ w # ys" "ws_hidden w" "xs @ ys = v @ h"
    and v: "\<forall>ws \<in> set v. \<not> ws_hidden ws" "\<forall>ws \<in> set h. ws_hidden ws" "v \<noteq> []" "blank (last v)"
    and top: "above_first m \<Longrightarrow> xs \<noteq> [] \<and> blank (hd v)"
    and a: "a = (if length xs \<le> active_workspace_idx m \<and> 0 < active_workspace_idx m
                 then active_workspace_idx m - 1 else active_workspace_idx m)" "a < length v"
  shows "returns (remove_workspace_by_idx (length xs) m) (\<lambda>(ws, m'). ws = w \<and>
           tidied (m\<lparr>workspaces := v @ h, active_workspace_idx := a, workspace_switch := None\<rparr>) m')"
proof -
  let ?m = "m\<lparr>workspaces := v @ h, active_workspace_idx := a, workspace_switch := None\<rparr>"
  have vh: "vis ?m = v" "hid ?m = h" using vis_hid_I [of ?m v h] v by simp_all
  have "loose ?m" using v(3,4) top a(2) by (simp add: loose_def vh)
  then have clean: "returns (clean_up_workspaces ?m) (tidied ?m)"
    by (rule clean_up_workspaces_returns) simp
  have "visible_workspace_count m \<noteq> length xs + 1"
  proof -
    obtain i where i: "position ws_hidden (workspaces m) = Some i"
      using w(1,2) position_None [of ws_hidden "workspaces m"] by auto
    have "i \<le> length xs"
    proof (rule ccontr)
      assume "\<not> i \<le> length xs"
      then have "\<not> ws_hidden (workspaces m ! length xs)" using position_SomeD [OF i] by simp
      with w(1,2) show False by simp
    qed
    with i show ?thesis by (simp add: visible_workspace_count_def)
  qed
  moreover have "vec_remove (length xs) (workspaces m) = Some (w, v @ h)"
    using w by (simp add: remove_at_def)
  moreover have "\<not> (above_first m \<and> xs = [])" using top by blast
  moreover have "(if 0 < active_workspace_idx m then active_workspace_idx m - 1 else active_workspace_idx m) = a"
    if "xs = []" using that a(1) by simp
  moreover have "(if length xs \<le> active_workspace_idx m \<and> 0 < active_workspace_idx m
      then active_workspace_idx m - Suc 0 else active_workspace_idx m) = a"
    using a(1) by simp
  ultimately have "remove_workspace_by_idx (length xs) m =
      do { m \<leftarrow> clean_up_workspaces ?m; Some (w, m) }"
    using w(2) by (cases "xs = []")
      (simp_all add: remove_workspace_by_idx_def Let_def active_if cong: if_cong split del: if_split)
  with clean show ?thesis by simp
qed

lemma cores_list: "workspaces m = xs \<Longrightarrow> cores m = image_mset core (mset xs)"
  by (simp add: cores_def)

lemma tidied_shape: "tidied m m' \<Longrightarrow> shape t m'"
  by (auto simp: tidied_def shape_def)

lemma shape_loose: "shape t m \<Longrightarrow> loose m"
  by (simp add: shape_def)

lemma named_not_blank: "ws_name ws \<noteq> None \<Longrightarrow> has_windows_or_name ws"
  by (simp add: has_windows_or_name_def)

text \<open>The hidden workspace is put back at the end\<close>

lemma push_hidden:
  assumes "tidied m0 m" "ws_hidden w"
  shows "ensure_empty_before_hidden (m\<lparr>workspaces := workspaces m @ [w]\<rparr>) = Some (m\<lparr>workspaces := workspaces m @ [w]\<rparr>)"
    "shape True (m\<lparr>workspaces := workspaces m @ [w]\<rparr>)"
    "vis (m\<lparr>workspaces := workspaces m @ [w]\<rparr>) = vis m"
    "hid (m\<lparr>workspaces := workspaces m @ [w]\<rparr>) = hid m @ [w]"
proof -
  let ?m = "m\<lparr>workspaces := workspaces m @ [w]\<rparr>"
  have sh: "shape True m" "workspace_switch m = None" using assms(1) by (simp_all add: tidied_def)
  note l = looseD [OF shape_loose [OF sh(1)]]
  show vh: "vis ?m = vis m" "hid ?m = hid m @ [w]" using assms(2) by (simp_all add: vis_def hid_def)
  then have split: "workspaces ?m = vis ?m @ hid ?m" using l(1) by simp
  show "ensure_empty_before_hidden ?m = Some ?m"
    using ensure_empty_eq [OF split] vh l(3,4) by simp
  show "shape True ?m"
    using sh vh split by (simp add: shape_def loose_def tight_def)
qed

lemma hide_visible_returns:
  assumes "content_ok cv m" "loose m" "idx < length (vis m)" "ws_name (vis m ! idx) \<noteq> None"
  shows "returns (hide_workspace_by_idx idx m) (\<lambda>m'. rearranged cv m m' \<and> shape True m' \<and>
           workspace_switch m' = None \<and> previous_workspace_id m' = previous_workspace_id m \<and>
           filter has_windows_or_name (vis m') = filter has_windows_or_name (remove_at idx (vis m)) \<and>
           map core (hid m') = map core (hid m) @ [core (vis m ! idx)\<lparr>ws_hidden := True, needs_hidden := False\<rparr>] \<and>
           original_idx (last (hid m')) = Some idx \<and>
           (active_workspace_idx m \<noteq> idx \<longrightarrow>
              vis m' ! active_workspace_idx m' = vis m ! active_workspace_idx m \<or>
              blank (vis m ! active_workspace_idx m) \<and> length (vis m') = 1))"
proof -
  note l = looseD [OF assms(2)]
  let ?v = "vis m" and ?h = "hid m" and ?a = "active_workspace_idx m"
  have nb: "has_windows_or_name (?v ! idx)" using assms(4) by (rule named_not_blank)
  have "idx \<noteq> length ?v - 1" using nb l(3,4) by (auto simp: last_conv_nth)
  then have idx: "idx + 1 < length ?v" using assms(3) by simp
  have top: "above_first m \<Longrightarrow> 0 < idx" using nb l(3,5) by (cases idx) (auto simp: hd_conv_nth)
  define w where "w = (?v ! idx)\<lparr>ws_hidden := True, needs_hidden := False\<rparr>"
  define m1 where "m1 = set_workspace idx w m"
  define a where "a = (if idx \<le> ?a \<and> 0 < ?a then ?a - 1 else ?a)"
  have at: "workspaces m ! idx = ?v ! idx" "idx < length (workspaces m)" using nth_vis [OF l(1) assms(3)] by simp_all
  have len: "length (workspaces m) = length ?v + length ?h" using arg_cong [OF l(1), of length] by simp
  have "?v @ ?h = take idx ?v @ ?v ! idx # drop (Suc idx) ?v @ ?h"
    using id_take_nth_drop [OF assms(3)] by simp
  then have ws1: "workspaces m1 = take idx ?v @ w # drop (Suc idx) ?v @ ?h"
    using l(1) assms(3) by (simp add: m1_def set_workspace_def) (metis (no_types, lifting) append_Cons append_assoc length_take list_update_length min.absorb4)
  have alt: "a < length (remove_at idx ?v)" using idx l(2) by (auto simp: a_def)
  have "returns (remove_workspace_by_idx (length (take idx ?v)) m1) (\<lambda>(ws, m'). ws = w \<and>
      tidied (m1\<lparr>workspaces := remove_at idx ?v @ ?h, active_workspace_idx := a, workspace_switch := None\<rparr>) m')"
  proof (rule remove_hidden_returns [OF ws1])
    show "ws_hidden w" by (simp add: w_def)
    show "take idx ?v @ drop (Suc idx) ?v @ ?h = remove_at idx ?v @ ?h" by (simp add: remove_at_def)
    show "\<forall>ws \<in> set (remove_at idx ?v). \<not> ws_hidden ws"
      using set_remove_at_subset [of idx ?v] vis_visible by blast
    show "\<forall>ws \<in> set ?h. ws_hidden ws" using hid_hidden by blast
    show "remove_at idx ?v \<noteq> []" using alt by auto
    show "blank (last (remove_at idx ?v))" using idx l(4) by (simp add: last_remove_at)
    show "above_first m1 \<Longrightarrow> take idx ?v \<noteq> [] \<and> blank (hd (remove_at idx ?v))"
      using top l(3,5) by (auto simp: m1_def set_workspace_def remove_at_def hd_append)
    show "a = (if length (take idx ?v) \<le> active_workspace_idx m1 \<and> 0 < active_workspace_idx m1
        then active_workspace_idx m1 - 1 else active_workspace_idx m1)"
      using assms(3) by (simp add: a_def m1_def set_workspace_def)
    show "a < length (remove_at idx ?v)" by (rule alt)
  qed
  then obtain m2 where m2: "remove_workspace_by_idx idx m1 = Some (w, m2)"
    "tidied (m1\<lparr>workspaces := remove_at idx ?v @ ?h, active_workspace_idx := a, workspace_switch := None\<rparr>) m2"
    using assms(3) by (auto elim!: returnsE)
  let ?m1 = "m\<lparr>workspaces := remove_at idx ?v @ ?h, active_workspace_idx := a, workspace_switch := None\<rparr>"
  have t: "tidied ?m1 m2" using m2(2) by (simp add: m1_def set_workspace_def)
  have vh: "vis ?m1 = remove_at idx ?v" "hid ?m1 = ?h"
    using vis_hid_I [of ?m1 "remove_at idx ?v" ?h] set_remove_at_subset [of idx ?v] vis_visible hid_hidden by auto
  define w' where "w' = w\<lparr>original_idx := Some idx\<rparr>"
  define m3 where "m3 = m2\<lparr>workspaces := workspaces m2 @ [w']\<rparr>"
  have hw: "ws_hidden w'" by (simp add: w'_def w_def)
  note push = push_hidden [OF t hw, folded m3_def]
  have run: "hide_workspace_by_idx idx m = Some m3"
    using at idx len top m2(1) push(1)
    by (auto simp: hide_workspace_by_idx_def on_workspace_def Let_def m1_def w_def w'_def m3_def)
  have po: "places_only ?m1 m2" using t by (simp add: tidied_def)
  note p = places_set [OF po]
  have "mset ?v = add_mset (?v ! idx) (mset (remove_at idx ?v))" by (rule mset_remove_at [OF assms(3)])
  then have cm: "cores m = add_mset (core (?v ! idx)) (cores ?m1)"
    by (simp only: cores_split [OF l(1)]) (simp add: cores_def)
  have c3: "cores m3 = add_mset (core w) (cores m2)"
    by (simp add: cores_def m3_def w'_def core_def)
  have okm: "cores_ok cv (mon_output m) (mon_options m) (next_ws_id m) (fl_mset (sticky m)) (cores m)"
    by (rule content_okD [OF assms(1)])
  have fitw: "fits cv (mon_output m) (mon_options m) (next_ws_id m) (core w)"
    using okm assms(4) by (simp add: cores_ok_def cm fits_def) (simp add: w_def ws_ok_def)
  have "cores_ok cv (mon_output m) (mon_options m) (next_ws_id m) (fl_mset (sticky m)) (add_mset (core w) (cores ?m1))"
    by (rule cores_ok_same [OF okm [unfolded cm] fitw])
      (simp_all add: w_def name_keys_def ws_mset_def)
  from cores_ok_subset [OF this, of "cores m3"] t p(4)
  have ok3: "cores_ok cv (mon_output m) (mon_options m) (next_ws_id m3) (fl_mset (sticky m)) (cores m3)"
    by (simp add: c3 tidied_def) (simp add: m3_def)
  have b: "bodies m3 = bodies m"
  proof -
    have "bodies m2 = bodies ?m1" using t by (simp add: tidied_def)
    moreover have "body (core w) = body (?v ! idx)" "has_windows_or_name w"
      using assms(4) by (simp_all add: w_def body_def has_windows_or_name_def)
    ultimately show ?thesis using nb by (simp add: bodies_def c3 cm)
  qed
  have "rearranged cv m m3"
    by (rule rearrangedI [OF assms(1) _ b ok3]) (use p(1) in \<open>simp add: steady_def m3_def\<close>)
  moreover have "?a \<noteq> idx \<Longrightarrow> remove_at idx ?v ! a = ?v ! ?a"
    using idx l(2) by (auto simp: a_def nth_remove_at)
  moreover have "core w' = core (?v ! idx)\<lparr>ws_hidden := True, needs_hidden := False\<rparr>" "original_idx w' = Some idx"
    by (simp_all add: w'_def w_def core_def)
  ultimately show ?thesis
    using run push t p(2) vh by (auto simp: tidied_def m3_def)
qed

section \<open>Activation\<close>

lemma same_bodies_exists:
  assumes "bodies m' = bodies m" "ws \<in> set (workspaces m)" "has_windows_or_name ws"
  shows "\<exists>ws' \<in> set (workspaces m'). body ws' = body ws"
proof -
  have "body ws \<in># bodies m"
    using assms(2,3) by (auto simp: bodies_def cores_def bodies_of_def image_iff intro!: exI [of _ "core ws"])
  then have "body ws \<in># bodies m'" using assms(1) by simp
  then show ?thesis by (auto simp: bodies_def cores_def bodies_of_def)
qed

lemma body_idD: "body ws = body ws' \<Longrightarrow> ws_id ws = ws_id ws' \<and> ws_name ws = ws_name ws' \<and>
    ws_scrolling ws = ws_scrolling ws' \<and> ws_floating ws = ws_floating ws' \<and> ws_windows ws = ws_windows ws'"
  by (simp add: body_def ws_windows_def)

lemma ids_distinct:
  assumes "content_ok cv m"
  shows "distinct (map ws_id (workspaces m))"
proof -
  have "distinct_mset (image_mset ws_id (cores m))"
    using content_okD [OF assms] by (simp add: cores_ok_def)
  then show ?thesis by (simp add: cores_def image_mset.compositionality comp_def del: mset_map flip: mset_map)
qed

lemma idx_of_ws_nth:
  assumes "content_ok cv m" "i < length (workspaces m)"
  shows "idx_of_ws (ws_id (workspaces m ! i)) m = Some i"
  unfolding idx_of_ws_def
proof (rule position_SomeI)
  fix j assume "j < i"
  then show "ws_id (workspaces m ! j) \<noteq> ws_id (workspaces m ! i)"
    using nth_eq_iff_index_eq [OF ids_distinct [OF assms(1)], of j i] assms(2) by simp
qed (use assms in simp_all)

lemma idx_of_ws_SomeD: "idx_of_ws i m = Some k \<Longrightarrow> k < length (workspaces m) \<and> ws_id (workspaces m ! k) = i"
  using position_SomeD [of "\<lambda>ws. ws_id ws = i" "workspaces m" k] by (simp add: idx_of_ws_def)

definition active_id :: "monitor \<Rightarrow> nat" where
  "active_id m = ws_id (workspaces m ! active_workspace_idx m)"

lemma active_id_vis: "loose m \<Longrightarrow> active_id m = ws_id (vis m ! active_workspace_idx m)"
  by (simp add: active_id_def nth_vis(1) [OF looseD(1,2)])

lemma content_upd [simp]:
  "content_ok cv (m\<lparr>active_workspace_idx := i\<rparr>) = content_ok cv m"
  "content_ok cv (m\<lparr>previous_workspace_id := p\<rparr>) = content_ok cv m"
  "content_ok cv (m\<lparr>workspace_switch := s\<rparr>) = content_ok cv m"
  by (simp_all add: content_ok_def cores_def)

lemma lists_upd [simp]:
  "vis (m\<lparr>active_workspace_idx := i\<rparr>) = vis m" "hid (m\<lparr>active_workspace_idx := i\<rparr>) = hid m"
  "vis (m\<lparr>previous_workspace_id := p\<rparr>) = vis m" "hid (m\<lparr>previous_workspace_id := p\<rparr>) = hid m"
  "vis (m\<lparr>workspace_switch := s\<rparr>) = vis m" "hid (m\<lparr>workspace_switch := s\<rparr>) = hid m"
  "cores (m\<lparr>active_workspace_idx := i\<rparr>) = cores m" "cores (m\<lparr>previous_workspace_id := p\<rparr>) = cores m"
  "cores (m\<lparr>workspace_switch := s\<rparr>) = cores m"
  by (simp_all add: vis_def hid_def cores_def)

lemma bodies_upd [simp]:
  "bodies (m\<lparr>active_workspace_idx := i\<rparr>) = bodies m"
  "bodies (m\<lparr>previous_workspace_id := p\<rparr>) = bodies m"
  "bodies (m\<lparr>workspace_switch := s\<rparr>) = bodies m"
  by (simp_all add: bodies_def)

lemma steady_upd [simp]:
  "steady m (m\<lparr>active_workspace_idx := i\<rparr>)" "steady m (m\<lparr>previous_workspace_id := p\<rparr>)"
  "steady m (m\<lparr>workspace_switch := s\<rparr>)"
  by (simp_all add: steady_def)

lemma rearranged_upd:
  assumes "content_ok cv m"
  shows "rearranged cv m (m\<lparr>active_workspace_idx := i\<rparr>)" "rearranged cv m (m\<lparr>previous_workspace_id := p\<rparr>)"
    "rearranged cv m (m\<lparr>workspace_switch := s\<rparr>)"
  using assms by (simp_all add: rearranged_def)

text \<open>Hiding the workspace that was active before keeps the new active one\<close>

lemma hide_then_reactivate:
  assumes "content_ok cv m" "loose m" "prev < length (vis m)" "ws_name (vis m ! prev) \<noteq> None"
    and "active_workspace_idx m \<noteq> prev"
  shows "returns (hide_workspace_by_idx prev m) (\<lambda>m'. rearranged cv m m' \<and> shape True m' \<and>
           (let target = ws_id (vis m ! active_workspace_idx m) in
            (case idx_of_ws target m' of
               Some i \<Rightarrow> i = active_workspace_idx m'
             | None \<Rightarrow> blank (vis m ! active_workspace_idx m) \<and> length (vis m') = 1)))"
proof -
  let ?t = "vis m ! active_workspace_idx m"
  have show_idx: "case idx_of_ws (ws_id ?t) m' of
        Some i \<Rightarrow> i = active_workspace_idx m' | None \<Rightarrow> blank ?t \<and> length (vis m') = 1"
    if m': "rearranged cv m m'" "shape True m'"
      "map core (hid m') = map core (hid m) @ [core (vis m ! prev)\<lparr>ws_hidden := True, needs_hidden := False\<rparr>]"
      "vis m' ! active_workspace_idx m' = ?t \<or> blank ?t \<and> length (vis m') = 1" for m'
  proof -
    note l = looseD [OF assms(2)] and l' = looseD [OF shape_loose [OF m'(2)]]
    have c': "content_ok cv m'" using m'(1) by (simp add: rearranged_def)
    show ?thesis
    proof (cases "vis m' ! active_workspace_idx m' = ?t")
      case True
      have "workspaces m' ! active_workspace_idx m' = ?t" "active_workspace_idx m' < length (workspaces m')"
        using nth_vis [OF l'(1,2)] True by simp_all
      with idx_of_ws_nth [OF c', of "active_workspace_idx m'"] show ?thesis by simp
    next
      case False
      then have b: "blank ?t" "length (vis m') = 1" using m'(4) by simp_all
      show ?thesis
      proof (cases "idx_of_ws (ws_id ?t) m'")
        case None
        with b show ?thesis by simp
      next
        case (Some i)
        from idx_of_ws_SomeD [OF Some] have i: "i < length (workspaces m')" "ws_id (workspaces m' ! i) = ws_id ?t"
          by simp_all
        have "i < length (vis m')"
        proof (rule ccontr)
          assume "\<not> i < length (vis m')"
          then have "workspaces m' ! i \<in> set (hid m')"
            using l'(1) i(1) by (metis length_append less_diff_conv2 nat_add_left_cancel_less not_less nth_append nth_mem le_add_diff_inverse add.commute)
          then have "core (workspaces m' ! i) \<in> set (map core (hid m'))" by simp
          then have "ws_id ?t \<in> ws_id ` set (map core (hid m'))"
            using i(2) by (metis core_simps(1) image_eqI)
          then have "ws_id ?t \<in> ws_id ` set (hid m) \<or> ws_id ?t = ws_id (vis m ! prev)"
            unfolding m'(3) by auto
          moreover have d: "distinct (map ws_id (vis m) @ map ws_id (hid m))"
            using ids_distinct [OF assms(1)] l(1) by (metis map_append)
          then have "ws_id ?t \<noteq> ws_id (vis m ! prev)"
            using assms(3,5) l(2) nth_eq_iff_index_eq [of "map ws_id (vis m)" "active_workspace_idx m" prev] by simp
          moreover have "ws_id ?t \<notin> ws_id ` set (hid m)"
            using d nth_mem [OF l(2)] by (auto simp: disjoint_iff)
          ultimately show False by blast
        qed
        with b(2) l'(2) Some show ?thesis by simp
      qed
    qed
  qed
  show ?thesis
    using hide_visible_returns [OF assms(1-4)] assms(5) show_idx
    by (auto simp: Let_def elim!: returns_mono)
qed

text \<open>
  Activating a visible workspace. The switch becomes an animation, stays the drag-and-drop
  gesture, or is over at once because the previous workspace had to be hidden again.
\<close>

lemma activate_workspace_returns:
  assumes "content_ok cv m" "shape t m" "idx < length (vis m)"
  shows "returns (activate_workspace idx m) (\<lambda>m'. rearranged cv m m' \<and> shape t m' \<and>
           (has_windows_or_name (vis m ! idx) \<or> \<not> needs_hidden (vis m ! active_workspace_idx m) \<longrightarrow>
              active_id m' = ws_id (vis m ! idx)))"
proof -
  note l = looseD [OF shape_loose [OF assms(2)]]
  let ?a = "active_workspace_idx m"
  note at = nth_vis [OF l(1,2)] and at' = nth_vis [OF l(1) assms(3)]
  define m1 where "m1 = (if ?a \<noteq> idx then m\<lparr>previous_workspace_id := Some (ws_id (vis m ! ?a))\<rparr> else m)"
  define m2 where "m2 = m1\<lparr>active_workspace_idx := idx\<rparr>"
  have act: "active_workspace_idx m1 = ?a" by (simp add: m1_def)
  have vh: "vis m2 = vis m" "hid m2 = hid m" "workspaces m2 = workspaces m" "workspace_switch m2 = workspace_switch m"
    "mon_options m2 = mon_options m" "active_workspace_idx m2 = idx"
    by (simp_all add: m2_def m1_def)
  have r2: "rearranged cv m m2"
    using assms(1) by (simp add: m2_def m1_def rearranged_def steady_def)
  have c2: "content_ok cv m2" using r2 by (simp add: rearranged_def)
  have loose2: "loose m2" using l assms(3) by (simp add: loose_def vh)
  have sw: "switch_ok (workspace_switch m) (length (vis m)) (length (workspaces m))"
    "above_first m \<and> hid m = [] \<longrightarrow> length (vis m) \<noteq> 2" using assms(2) by (simp_all add: shape_def)
  define animate where "animate = (if ?a = idx then Some m2
         else do {
           target \<leftarrow> vec_get (workspaces m2) idx;
           (m, was_hidden) \<leftarrow> hide_needs_hidden ?a m2;
           if was_hidden then do {
             idx \<leftarrow> (case idx_of_ws (ws_id target) m of
                 Some i \<Rightarrow> Some i
               | None \<Rightarrow> do { last \<leftarrow> sub_usize (visible_workspace_count m) 1; Some (min idx last) });
             Some (m\<lparr>active_workspace_idx := idx\<rparr>)
           } else Some (m\<lparr>workspace_switch := Some (SwitchAnimation idx)\<rparr>)
         })"
  have pre: "(if ?a \<noteq> idx then do {
        ws \<leftarrow> active_workspace m;
        Some (m\<lparr>previous_workspace_id := Some (ws_id ws)\<rparr>)
      } else Some m) = Some m1"
    using at by (simp add: m1_def active_workspace_def)
  have run: "activate_workspace idx m =
    (case workspace_switch m2 of
          Some (SwitchGesture g) \<Rightarrow>
            (if sg_dnd g
             then Some (m2\<lparr>workspace_switch :=
                    Some (SwitchGesture (g\<lparr>sg_center_idx := idx, sg_current_idx := real idx\<rparr>))\<rparr>)
             else animate)
        | _ \<Rightarrow> animate)"
    by (simp only: activate_workspace_def pre Option.bind.simps Let_def act animate_def m2_def)
  have aid: "active_id m2 = ws_id (vis m ! idx)" by (simp add: active_id_vis [OF loose2] vh)
  have shape_sw: "shape t (m2\<lparr>workspace_switch := Some s\<rparr>)"
    if "switch_ok (Some s) (length (vis m)) (length (workspaces m))" for s
    using loose2 sw(2) that by (simp add: shape_def loose_def vh)
  have anim: "returns animate (\<lambda>m'. rearranged cv m m' \<and> shape t m' \<and>
      (has_windows_or_name (vis m ! idx) \<or> \<not> needs_hidden (vis m ! ?a) \<longrightarrow> active_id m' = ws_id (vis m ! idx)))"
  proof (cases "?a = idx")
    case True
    then have "m2 = m" by (simp add: m2_def m1_def)
    with True assms(2) r2 aid show ?thesis by (simp add: animate_def)
  next
    case False
    show ?thesis
    proof (cases "needs_hidden (vis m ! ?a)")
      case no: False
      have "active_id (m2\<lparr>workspace_switch := Some (SwitchAnimation idx)\<rparr>) = active_id m2"
        by (simp add: active_id_def)
      moreover have "rearranged cv m (m2\<lparr>workspace_switch := Some (SwitchAnimation idx)\<rparr>)"
        using rearranged_trans [OF r2 rearranged_upd(3) [OF c2]] .
      moreover have "switch_ok (Some (SwitchAnimation idx)) (length (vis m)) (length (workspaces m))"
        using at'(2) by simp
      ultimately show ?thesis
        using False no at at' aid shape_sw by (simp add: animate_def hide_needs_hidden_def vh)
    next
      case True
      have "core (vis m ! ?a) \<in># cores m"
        using l(2) by (subst cores_split [OF l(1)]) (auto intro!: imageI)
      then have "fits cv (mon_output m) (mon_options m) (next_ws_id m) (core (vis m ! ?a))"
        using content_okD [OF assms(1)] by (simp add: cores_ok_def)
      then have nm: "ws_name (vis m ! ?a) \<noteq> None" using True by (simp add: fits_def)
      have "returns (hide_workspace_by_idx ?a m2) (\<lambda>m'. rearranged cv m2 m' \<and> shape True m' \<and>
           (case idx_of_ws (ws_id (vis m ! idx)) m' of
               Some i \<Rightarrow> i = active_workspace_idx m'
             | None \<Rightarrow> blank (vis m ! idx) \<and> length (vis m') = 1))"
        using hide_then_reactivate [OF c2 loose2, of ?a, unfolded vh Let_def] l(2) nm False by blast
      then obtain m3 where m3: "hide_workspace_by_idx ?a m2 = Some m3" "rearranged cv m2 m3" "shape True m3"
          "case idx_of_ws (ws_id (vis m ! idx)) m3 of
             Some i \<Rightarrow> i = active_workspace_idx m3 | None \<Rightarrow> blank (vis m ! idx) \<and> length (vis m3) = 1"
        by (auto elim!: returnsE)
      note l3 = looseD [OF shape_loose [OF m3(3)]]
      have st: "shape t m3" using m3(3) by (simp add: shape_def)
      have keep: "m3\<lparr>active_workspace_idx := active_workspace_idx m3\<rparr> = m3" by simp
      have r3: "rearranged cv m m3" by (rule rearranged_trans [OF r2 m3(2)])
      have hide: "hide_needs_hidden ?a m2 = Some (m3, True)"
        using at True m3(1) by (simp add: hide_needs_hidden_def vh)
      show ?thesis
      proof (cases "idx_of_ws (ws_id (vis m ! idx)) m3")
        case None
        then have one: "blank (vis m ! idx)" "length (vis m3) = 1" using m3(4) by simp_all
        then have "active_workspace_idx m3 = 0" using l3(2) by simp
        then have "m3\<lparr>active_workspace_idx := 0\<rparr> = m3" using keep by simp
        with None one hide st r3 False True at' visible_count [OF l3(1)] show ?thesis
          by (simp add: animate_def vh)
      next
        case (Some i)
        then have i: "i = active_workspace_idx m3" using m3(4) by simp
        then have "m3\<lparr>active_workspace_idx := i\<rparr> = m3" by simp
        moreover have "active_id m3 = ws_id (vis m ! idx)"
          using idx_of_ws_SomeD [OF Some] i by (simp add: active_id_def)
        ultimately show ?thesis
          using Some hide st r3 False True at' by (simp add: animate_def vh)
      qed
    qed
  qed
  show ?thesis
  proof (cases "\<exists>g. workspace_switch m = Some (SwitchGesture g) \<and> sg_dnd g")
    case False
    then have "activate_workspace idx m = animate"
      by (auto simp: run vh split: option.splits switch_state.splits)
    with anim show ?thesis by simp
  next
    case True
    then obtain g where g: "workspace_switch m = Some (SwitchGesture g)" "sg_dnd g" by blast
    let ?s = "SwitchGesture (g\<lparr>sg_center_idx := idx, sg_current_idx := real idx\<rparr>)"
    have "shape t (m2\<lparr>workspace_switch := Some ?s\<rparr>)"
      by (rule shape_sw) (use assms(3) in simp)
    moreover have "active_id (m2\<lparr>workspace_switch := Some ?s\<rparr>) = active_id m2" by (simp add: active_id_def)
    moreover have "rearranged cv m (m2\<lparr>workspace_switch := Some ?s\<rparr>)"
      using rearranged_trans [OF r2 rearranged_upd(3) [OF c2]] .
    ultimately show ?thesis using g aid by (simp add: run vh)
  qed
qed

end
