(* ===== verification/MonitorInsert.thy ===== *)
theory MonitorInsert
  imports MonitorTidy
begin

text \<open>
  Inserting, unhiding, unnaming, removing and appending whole workspaces: the monitor keeps
  its invariant and gains or loses exactly those workspaces.
\<close>

section \<open>Insertion\<close>

lemma body_by_id:
  assumes "content_ok cv m" "b \<in># bodies m" "i < length (workspaces m)" "ws_id (workspaces m ! i) = fst b"
  shows "body (workspaces m ! i) = b" "has_windows_or_name (workspaces m ! i)"
proof -
  from assms(2) obtain ws where ws: "ws \<in> set (workspaces m)" "body ws = b" "has_windows_or_name ws"
    by (auto simp: bodies_def bodies_of_def cores_def)
  then obtain j where j: "j < length (workspaces m)" "workspaces m ! j = ws" by (auto simp: in_set_conv_nth)
  have "ws_id ws = fst b" using ws(2) by (auto simp: body_def)
  then have "j = i"
    using idx_of_ws_nth [OF assms(1) j(1)] idx_of_ws_nth [OF assms(1,3)] j(2) assms(4) by simp
  with j ws show "body (workspaces m ! i) = b" "has_windows_or_name (workspaces m ! i)" by simp_all
qed

definition insert_result :: "nat \<Rightarrow> workspace \<Rightarrow> monitor \<Rightarrow> monitor" where
  "insert_result idx ws m =
     m\<lparr>workspaces := insert_at idx ws (vis m) @ map (shift_hidden (\<lambda>i. if idx \<le> i then i + 1 else i)) (hid m),
       active_workspace_idx :=
         (if idx \<le> active_workspace_idx m then active_workspace_idx m + 1 else active_workspace_idx m)\<rparr>"

lemma insert_result_lists:
  assumes "\<not> ws_hidden ws"
  shows "vis (insert_result idx ws m) = insert_at idx ws (vis m)"
    "hid (insert_result idx ws m) = map (shift_hidden (\<lambda>i. if idx \<le> i then i + 1 else i)) (hid m)"
    "workspaces (insert_result idx ws m) = vis (insert_result idx ws m) @ hid (insert_result idx ws m)"
proof -
  let ?f = "shift_hidden (\<lambda>i. if idx \<le> i then i + 1 else i)"
  have w: "workspaces (insert_result idx ws m) = insert_at idx ws (vis m) @ map ?f (hid m)"
    by (simp add: insert_result_def)
  have v: "\<forall>x \<in> set (insert_at idx ws (vis m)). \<not> ws_hidden x" using assms by (simp add: vis_def)
  have h: "\<forall>x \<in> set (map ?f (hid m)). ws_hidden x" by (simp add: hid_def)
  show "vis (insert_result idx ws m) = insert_at idx ws (vis m)" by (rule vis_hid_I(1) [OF w v h])
  moreover show "hid (insert_result idx ws m) = map ?f (hid m)" by (rule vis_hid_I(2) [OF w v h])
  ultimately show "workspaces (insert_result idx ws m) = vis (insert_result idx ws m) @ hid (insert_result idx ws m)"
    using w by simp
qed

lemma insert_result_fields [simp]:
  "active_workspace_idx (insert_result idx ws m) =
     (if idx \<le> active_workspace_idx m then active_workspace_idx m + 1 else active_workspace_idx m)"
  "mon_options (insert_result idx ws m) = mon_options m" "mon_output (insert_result idx ws m) = mon_output m"
  "sticky (insert_result idx ws m) = sticky m" "next_ws_id (insert_result idx ws m) = next_ws_id m"
  "workspace_switch (insert_result idx ws m) = workspace_switch m"
  "steady m (insert_result idx ws m)"
  by (simp_all add: insert_result_def steady_def)

lemma cores_insert_result:
  assumes "workspaces m = vis m @ hid m" "idx \<le> length (vis m)" "\<not> ws_hidden ws"
  shows "cores (insert_result idx ws m) = add_mset (core ws) (cores m)"
  by (simp add: cores_split [OF assms(1)] cores_split [OF insert_result_lists(3) [OF assms(3)]]
      insert_result_lists [OF assms(3)] image_mset.compositionality comp_def assms(2))

lemma content_cores:
  assumes "content_ok cv m" "steady m m'"
    and "cores_ok cv (mon_output m) (mon_options m) (next_ws_id m') (fl_mset (sticky m)) (cores m')"
  shows "content_ok cv m'"
  using assms by (auto simp: content_ok_def steady_def)

lemma cores_ok_new_after:
  assumes "cores_ok cv out opts nxt st (add_mset w M)"
  shows "cores_ok cv out opts (nxt + 1) st (add_mset w (add_mset (workspace_new nxt out opts) M))"
  using cores_ok_new [OF assms] by (simp add: add_mset_commute)

text \<open>The room made for a workspace that arrives at index 0\<close>

definition make_room :: "nat \<Rightarrow> monitor \<Rightarrow> nat \<times> monitor" where
  "make_room idx m =
     (let n = length (vis m);
          idx = (if idx < n then idx else n - 1)
      in if idx = 0 \<and> above_first m then (1, add_result 0 m) else (idx, m))"

lemma make_room:
  assumes "content_ok cv m" "loose m" "make_room idx m = (k, m1)"
    and "cores_ok cv (mon_output m) (mon_options m) (next_ws_id m) (fl_mset (sticky m)) (add_mset w (cores m))"
  shows "loose m1" "k < length (vis m1)" "above_first m \<Longrightarrow> 0 < k \<and> 2 \<le> length (vis m1)"
    "rearranged cv m m1" "workspace_switch m1 = None \<longleftrightarrow> workspace_switch m = None"
    "vis m1 ! active_workspace_idx m1 = vis m ! active_workspace_idx m"
    "cores_ok cv (mon_output m) (mon_options m) (next_ws_id m1) (fl_mset (sticky m)) (add_mset w (cores m1))"
    "filter has_windows_or_name (vis m1) = filter has_windows_or_name (vis m)"
proof -
  note l = looseD [OF assms(2)]
  have zero: "0 \<le> length (vis m)" by simp
  have a: "loose (add_result 0 m)"
    by (rule add_result_loose [OF l(1) zero l(2)]) (use l(4) in simp_all)
  note r = add_result_rearranged [OF assms(1) l(1) zero]
  note c = cores_add_result [OF l(1) zero]
  have k: "make_room idx m = (if (if idx < length (vis m) then idx else length (vis m) - 1) = 0 \<and> above_first m
      then (1, add_result 0 m) else ((if idx < length (vis m) then idx else length (vis m) - 1), m))"
    by (simp add: make_room_def Let_def)
  show "loose m1" using assms(2,3) a by (auto simp: k split: if_splits)
  show "k < length (vis m1)" using assms(3) l(3) by (auto simp: k split: if_splits)
  show "0 < k \<and> 2 \<le> length (vis m1)" if "above_first m"
    using assms(3) l(3) that by (auto simp: k Suc_le_eq split: if_splits)
  show "rearranged cv m m1"
    using assms(3) r rearranged_refl [OF assms(1)] by (auto simp: k split: if_splits)
  show "workspace_switch m1 = None \<longleftrightarrow> workspace_switch m = None"
    using assms(3) by (auto simp: k split: if_splits)
  show "vis m1 ! active_workspace_idx m1 = vis m ! active_workspace_idx m"
    using assms(3) by (auto simp: k nth_insert_at split: if_splits)
  show "cores_ok cv (mon_output m) (mon_options m) (next_ws_id m1) (fl_mset (sticky m)) (add_mset w (cores m1))"
    using assms(3,4) cores_ok_new_after [OF assms(4)] by (auto simp: k c split: if_splits)
  show "filter has_windows_or_name (vis m1) = filter has_windows_or_name (vis m)"
    using assms(3) by (auto simp: k split: if_splits)
qed

lemma adopt_simps [simp]:
  "ws_id (adopt m ws) = ws_id ws" "ws_name (adopt m ws) = ws_name ws" "ws_hidden (adopt m ws) = ws_hidden ws"
  "needs_hidden (adopt m ws) = needs_hidden ws" "body (adopt m ws) = body ws" "ws_mset (adopt m ws) = ws_mset ws"
  "has_windows_or_name (adopt m ws) = has_windows_or_name ws" "ws_windows (adopt m ws) = ws_windows ws"
  "base_options (adopt m ws) = mon_options m" "ws_output (adopt m ws) = Some (mon_output m)"
  "ws_ok cv (adopt m ws) = ws_ok cv ws" "original_idx (adopt m ws) = original_idx ws"
  by (simp_all add: adopt_def ws_update_config_def ws_set_output_def body_def ws_mset_def has_windows_or_name_def
      ws_has_windows_def ws_windows_def ws_ok_def split: option.splits)

lemma insert_result_loose:
  assumes "loose m" "k < length (vis m)" "above_first m \<Longrightarrow> 0 < k" "\<not> ws_hidden ws"
  shows "loose (insert_result k ws m)"
proof -
  note l = looseD [OF assms(1)]
  have "last (insert_at k ws (vis m)) = last (vis m)" using assms(2) by (rule last_insert_at)
  moreover have "above_first m \<Longrightarrow> hd (insert_at k ws (vis m)) = hd (vis m)"
    using hd_insert_at [of k "vis m" ws] assms(3) l(3) by simp
  moreover have "active_workspace_idx (insert_result k ws m) < length (insert_at k ws (vis m))"
    using l(2) by simp
  ultimately show ?thesis
    unfolding loose_def insert_result_lists(3) [OF assms(4)] insert_result_lists(1,2) [OF assms(4)]
    using l(4,5) by simp
qed

lemma insert_workspace_returns:
  assumes ok: "content_ok cv m" "loose m" "\<not> ws_hidden ws"
    and fit: "cores_ok cv (mon_output m) (mon_options m) (next_ws_id m) (fl_mset (sticky m))
        (add_mset (core (adopt m ws)) (cores m))"
  shows "returns (insert_workspace ws idx activate m) (\<lambda>(i, m'). steady m m' \<and> content_ok cv m' \<and>
           bodies m' = bodies_of (add_mset (core (adopt m ws)) (cores m)) \<and> shape True m' \<and>
           workspace_switch m' = None \<and>
           (has_windows_or_name ws \<longrightarrow> idx_of_ws (ws_id ws) m' = Some i \<and> i < length (vis m') \<and>
              (\<not> activate \<longrightarrow> vis m' ! active_workspace_idx m' = vis m ! active_workspace_idx m)))"
proof -
  note l = looseD [OF ok(2)]
  define w where "w = adopt m ws"
  have hw: "\<not> ws_hidden w" and idw: "ws_id w = ws_id ws" using ok(3) by (simp_all add: w_def)
  obtain k m1 where room: "make_room idx m = (k, m1)" by fastforce
  note mr = make_room [OF ok(1,2) room fit [folded w_def]]
  note l1 = looseD [OF mr(1)]
  define m2 where "m2 = insert_result k w m1"
  note il = insert_result_lists [OF hw, of k m1, folded m2_def]
  have opts: "mon_options m1 = mon_options m" "mon_output m1 = mon_output m" "sticky m1 = sticky m"
    using mr(4) by (simp_all add: rearranged_def steady_def)
  have loose2: "loose m2"
    unfolding m2_def by (rule insert_result_loose [OF mr(1,2) _ hw]) (use mr(3) opts in simp)
  have cores2: "cores m2 = add_mset (core w) (cores m1)"
    unfolding m2_def by (rule cores_insert_result [OF l1(1) less_imp_le [OF mr(2)] hw])
  have steady2: "steady m m2"
    using steady_trans [of m m1 m2] mr(4) by (simp add: rearranged_def m2_def)
  have content2: "content_ok cv m2"
    by (rule content_cores [OF ok(1) steady2]) (use mr(7) cores2 in \<open>simp add: m2_def\<close>)
  have bodies2: "bodies m2 = bodies_of (add_mset (core w) (cores m))"
    using mr(4) by (simp add: bodies_def cores2 rearranged_def)
  define m3 where "m3 = m2\<lparr>workspace_switch := None\<rparr>"
  have two: "above_first m \<Longrightarrow> length (vis m2) \<noteq> 2" using mr(3) mr(2) by (auto simp: il)
  have shape3: "shape False m3"
    using loose2 two opts by (simp add: shape_def m3_def loose_def) (simp add: m2_def)
  have vm2: "vis m2 ! k = w" "k < length (vis m2)" using mr(2) by (simp_all add: il nth_insert_at)
  obtain m4 where m4: "(if activate then activate_workspace k m3 else Some m2) = Some m4"
    "steady m m4" "content_ok cv m4" "bodies m4 = bodies m2" "loose m4"
    "\<not> activate \<longrightarrow> m4 = m2"
    "activate \<and> has_windows_or_name ws \<longrightarrow> active_id m4 = ws_id ws"
  proof (cases activate)
    case False
    with that [of m2] steady2 content2 loose2 show ?thesis by simp
  next
    case True
    have c3: "content_ok cv m3" using content2 by (simp add: m3_def)
    from activate_workspace_returns [OF c3 shape3, of k] vm2(2) obtain m4 where
      a: "activate_workspace k m3 = Some m4" "rearranged cv m3 m4" "shape False m4"
        "has_windows_or_name ws \<longrightarrow> active_id m4 = ws_id ws"
      using vm2 by (auto simp: m3_def w_def elim!: returnsE)
    have "steady m m4" using steady2 a(2) steady_trans [of m m2 m4]
      by (simp add: rearranged_def m3_def steady_def)
    with that [of m4] a True show ?thesis by (simp add: rearranged_def shape_def m3_def)
  qed
  define m5 where "m5 = m4\<lparr>workspace_switch := None\<rparr>"
  have "loose m5" using m4(5) by (simp add: m5_def loose_def)
  from clean_up_workspaces_returns [OF this] obtain m6 where m6: "clean_up_workspaces m5 = Some m6" "tidied m5 m6"
    by (auto simp: m5_def elim!: returnsE)
  have s6: "shape True m6" "workspace_switch m6 = None" "cores m6 \<subseteq># cores m4" "bodies m6 = bodies m4"
    "places_only m5 m6"
    using m6(2) by (simp_all add: tidied_def m5_def)
  have steady6: "steady m m6"
    using m4(2) places_onlyD(1) [OF s6(5)] by (auto simp: m5_def steady_def)
  have "next_ws_id m6 = next_ws_id m4" using places_onlyD(5) [OF s6(5)] by (simp add: m5_def)
  then have content6: "content_ok cv m6"
    using content_cores [OF ok(1) steady6] cores_ok_subset [OF content_okD [OF m4(3)] s6(3)] m4(2)
    by (simp add: steady_def)
  have vi: "vec_insert k w (workspaces m1) = Some (insert_at k w (vis m1) @ hid m1)"
    by (subst l1(1)) (use mr(2) in \<open>simp add: insert_at_left\<close>)
  have sh: "map (shift_hidden f) (insert_at k w (vis m1) @ hid m1) =
      insert_at k w (vis m1) @ map (shift_hidden f) (hid m1)" for f
    using hw by (simp add: map_insert_at)
  define landed where "landed = (case idx_of_ws (ws_id ws) m6 of Some i \<Rightarrow> i
      | None \<Rightarrow> min k (length (workspaces m6) - 1))"
  have run: "insert_workspace ws idx activate m = Some (landed, m6)"
  proof -
    have pos: "0 < length (vis m)" using l(3) by simp
    have idx: "(if min idx (length (vis m)) = length (vis m) \<and> 0 < min idx (length (vis m))
        then min idx (length (vis m)) - 1 else min idx (length (vis m))) =
        (if idx < length (vis m) then idx else length (vis m) - 1)"
      using pos by auto
    have make: "(if (if idx < length (vis m) then idx else length (vis m) - 1) = 0 \<and> above_first m
        then do { m \<leftarrow> add_workspace_top m;
                  Some (m, (if idx < length (vis m') then idx else length (vis m') - 1) + 1) }
        else Some (m, if idx < length (vis m') then idx else length (vis m') - 1)) = Some (m1, k)"
      if "m' = m" for m'
      using room add_workspace_at_eq [OF l(1), of 0] that
      by (auto simp: make_room_def Let_def add_workspace_top_def split: if_splits)
    have step: "(let m = shift_hidden_original_indices_for_insertion k (m1\<lparr>workspaces := insert_at k w (vis m1) @ hid m1\<rparr>)
        in (if k \<le> active_workspace_idx m then m\<lparr>active_workspace_idx := active_workspace_idx m + 1\<rparr> else m)) = m2"
      using hw by (simp add: Let_def shift_hidden_original_indices_for_insertion_def m2_def insert_result_def map_insert_at)
    show ?thesis
      using ok(3) m4(1) m6(1)
      by (simp only: insert_workspace_def if_False Let_def visible_count [OF l(1)] idx w_def [symmetric]
          make [OF refl] vi idw step [unfolded Let_def] Option.bind.simps case_prod_conv m3_def m5_def landed_def)
  qed
  have found: "idx_of_ws (ws_id ws) m6 = Some landed \<and> landed < length (vis m6) \<and>
      (\<not> activate \<longrightarrow> vis m6 ! active_workspace_idx m6 = vis m ! active_workspace_idx m)"
    if nb: "has_windows_or_name ws"
  proof -
    note l6 = looseD [OF shape_loose [OF s6(1)]]
    have "w \<in> set (filter has_windows_or_name (vis m2))"
      using nb by (simp add: il w_def)
    have "body w \<in># bodies m6" using nb s6(4) m4(4) bodies2 by (simp add: w_def)
    then obtain ws' where ws': "ws' \<in> set (workspaces m6)" "body ws' = body w"
      by (auto simp: bodies_def bodies_of_def cores_def)
    then obtain j where j: "j < length (workspaces m6)" "workspaces m6 ! j = ws'" by (auto simp: in_set_conv_nth)
    have id: "ws_id ws' = ws_id ws" using body_idD [OF ws'(2)] by (simp add: w_def)
    from idx_of_ws_nth [OF content6 j(1)] j(2) id have at: "idx_of_ws (ws_id ws) m6 = Some j" by simp
    have uniq: "j = i" if "i < length (vis m6)" "ws_id (vis m6 ! i) = ws_id ws" for i
    proof -
      have "i < length (workspaces m6)" "ws_id (workspaces m6 ! i) = ws_id ws"
        using nth_vis [OF l6(1) that(1)] that(2) by simp_all
      with idx_of_ws_nth [OF content6 this(1)] at show ?thesis by simp
    qed
    have track: "vis m6 ! active_workspace_idx m6 = vis m4 ! active_workspace_idx m4 \<or>
        blank (vis m4 ! active_workspace_idx m4) \<and> length (vis m6) = 1"
      using m6(2) by (simp add: tidied_def m5_def)
    have sub: "filter has_windows_or_name (vis m6) = filter has_windows_or_name (vis m4)"
      using m6(2) by (simp add: tidied_def m5_def)
    show ?thesis
    proof (cases activate)
      case True
      note a4 = active_id_vis [OF m4(5)]
      have "active_id m4 = ws_id ws" using m4(7) True nb by simp
      moreover have "has_windows_or_name (vis m4 ! active_workspace_idx m4)"
      proof -
        note l4 = looseD [OF m4(5)]
        have "body w \<in># bodies m4" using nb m4(4) bodies2 by (simp add: w_def)
        moreover have "fst (body w) = ws_id ws" by (simp add: body_def w_def)
        ultimately show ?thesis
          using body_by_id(2) [OF m4(3), of "body w" "active_workspace_idx m4"] nth_vis [OF l4(1,2)] a4
            \<open>active_id m4 = ws_id ws\<close> by simp
      qed
      ultimately have "ws_id (vis m6 ! active_workspace_idx m6) = ws_id ws" using track a4 by simp
      with uniq [OF l6(2)] at True l6(2) show ?thesis by (simp add: landed_def)
    next
      case False
      then have m42: "m4 = m2" using m4(6) by simp
      have "w \<in> set (filter has_windows_or_name (vis m2))" using nb by (simp add: il w_def)
      then have win: "w \<in> set (vis m6)" using sub m42 by (metis filter_is_subset subsetD)
      then obtain i where i: "i < length (vis m6)" "vis m6 ! i = w" by (auto simp: in_set_conv_nth)
      have ji: "j = i" by (rule uniq [OF i(1)]) (simp add: i(2) w_def)
      have "length (vis m6) \<noteq> 1"
      proof
        assume "length (vis m6) = 1"
        then have "vis m6 = [w]" using win by (cases "vis m6") auto
        with l6(4) nb show False by (simp add: w_def)
      qed
      then have "vis m6 ! active_workspace_idx m6 = vis m2 ! active_workspace_idx m2"
        using track m42 by simp
      also have "\<dots> = vis m1 ! active_workspace_idx m1"
        using l1(2) mr(2) by (simp add: il nth_insert_at) (simp add: m2_def nth_insert_at)
      finally show ?thesis using mr(6) at i(1) ji by (simp add: landed_def)
    qed
  qed
  show ?thesis unfolding run
    using steady6 content6 bodies2 m4(4) s6 found by (simp add: w_def)
qed

section \<open>Unhiding\<close>

lemma eq_ignore_keys: "eq_ignore_ascii_case a b \<longleftrightarrow> map ascii_lower a = map ascii_lower b"
  by (simp add: eq_ignore_ascii_case_def)

text \<open>A name, up to case, belongs to one workspace only\<close>

lemma named_unique:
  assumes "content_ok cv m" "i < length (workspaces m)" "ws_name (workspaces m ! i) = Some name"
  shows "find_named_workspace_index name m = Some i"
  unfolding find_named_workspace_index_def
proof (rule position_SomeI [OF assms(2)])
  show "named name (workspaces m ! i)" using assms(3) by (simp add: named_def eq_ignore_keys)
  fix j assume j: "j < i"
  show "\<not> named name (workspaces m ! j)"
  proof
    assume "named name (workspaces m ! j)"
    then obtain other where o': "ws_name (workspaces m ! j) = Some other" "map ascii_lower other = map ascii_lower name"
      by (auto simp: named_def eq_ignore_keys split: option.splits)
    let ?w = "workspaces m"
    have jr: "j < length (remove_at i ?w)" "remove_at i ?w ! j = ?w ! j"
      using j assms(2) by (simp_all add: nth_remove_at)
    have c: "cores m = add_mset (core (?w ! i)) (image_mset core (mset (remove_at i ?w)))"
      unfolding cores_def by (subst mset_remove_at [OF assms(2)]) simp
    have "distinct_mset (\<Sum>\<^sub># (image_mset name_keys (cores m)))"
      using content_okD [OF assms(1)] by (simp add: cores_ok_def)
    then have "map ascii_lower name \<notin># \<Sum>\<^sub># (image_mset name_keys (image_mset core (mset (remove_at i ?w))))"
      using assms(3) by (simp add: c name_keys_def)
    moreover have "map ascii_lower name \<in># name_keys (core (?w ! j))" using o' by (simp add: name_keys_def)
    moreover have "?w ! j \<in> set (remove_at i ?w)" using jr nth_mem by metis
    ultimately show False by auto
  qed
qed

lemma find_conv_position: "List.find P xs = map_option ((!) xs) (position P xs)"
  by (induction xs) (auto simp: option.map_comp comp_def)

lemma name_of_ws_idx: "name_of_ws i m = Option.bind (idx_of_ws i m) (\<lambda>k. ws_name (workspaces m ! k))"
  by (cases "position (\<lambda>ws. ws_id ws = i) (workspaces m)") (simp_all add: name_of_ws_def idx_of_ws_def find_conv_position)

lemma fits_of:
  assumes "content_ok cv m" "i < length (workspaces m)"
  shows "fits cv (mon_output m) (mon_options m) (next_ws_id m) (core (workspaces m ! i))"
  using content_okD [OF assms(1)] assms(2) by (auto simp: cores_ok_def cores_def)

lemma cores_at:
  assumes "i < length (workspaces m)"
  shows "cores m = add_mset (core (workspaces m ! i)) (image_mset core (mset (remove_at i (workspaces m))))"
  unfolding cores_def by (subst mset_remove_at [OF assms]) simp

lemma hid_nth:
  assumes "workspaces m = vis m @ hid m" "i < length (workspaces m)"
  shows "ws_hidden (workspaces m ! i) \<longleftrightarrow> length (vis m) \<le> i"
proof
  assume h: "ws_hidden (workspaces m ! i)"
  show "length (vis m) \<le> i"
  proof (rule ccontr)
    assume "\<not> length (vis m) \<le> i"
    then have "workspaces m ! i = vis m ! i" "vis m ! i \<in> set (vis m)" using nth_vis [OF assms(1)] by simp_all
    with h vis_visible show False by metis
  qed
next
  assume le: "length (vis m) \<le> i"
  then have "workspaces m ! i = hid m ! (i - length (vis m))" by (subst assms(1)) (simp add: nth_append)
  moreover have "i - length (vis m) < length (hid m)"
    using le assms(2) arg_cong [OF assms(1), of length] by simp
  ultimately show "ws_hidden (workspaces m ! i)" using hid_hidden nth_mem by metis
qed

lemma unhide_workspace_by_id_returns:
  assumes ok: "content_ok cv m" "loose m"
  shows "returns (unhide_workspace_by_id i needs m) (\<lambda>(found, m').
     (case idx_of_ws i m of
        Some k \<Rightarrow> if ws_hidden (workspaces m ! k)
          then (\<exists>f. found = Some f \<and> f < length (vis m') \<and> idx_of_ws i m' = Some f) \<and> rearranged cv m m' \<and>
               shape True m' \<and> (vis m' ! active_workspace_idx m' = vis m ! active_workspace_idx m \<or>
                 blank (vis m ! active_workspace_idx m))
          else found = None \<and> m' = m
      | None \<Rightarrow> found = None \<and> m' = m))"
proof (cases "idx_of_ws i m")
  case None
  then show ?thesis by (simp add: unhide_workspace_by_id_def name_of_ws_idx)
next
  case (Some k)
  note l = looseD [OF ok(2)]
  from idx_of_ws_SomeD [OF Some] have k: "k < length (workspaces m)" "ws_id (workspaces m ! k) = i" by simp_all
  let ?w = "workspaces m ! k"
  show ?thesis
  proof (cases "ws_hidden ?w")
    case False
    show ?thesis
    proof (cases "ws_name ?w")
      case None
      with Some False show ?thesis by (simp add: unhide_workspace_by_id_def name_of_ws_idx)
    next
      case (Some name)
      with \<open>idx_of_ws i m = Some k\<close> False named_unique [OF ok(1) k(1) Some] k(1) show ?thesis
        by (simp add: unhide_workspace_by_id_def name_of_ws_idx)
    qed
  next
    case True
    then obtain name where name: "ws_name ?w = Some name"
      using fits_of [OF ok(1) k(1)] by (auto simp: fits_def)
    have kv: "length (vis m) \<le> k" using hid_nth [OF l(1) k(1)] True by simp
    let ?h = "remove_at (k - length (vis m)) (hid m)"
    have lk: "length (take k (workspaces m)) = k" using k(1) by simp
    have wl: "workspaces m = take k (workspaces m) @ ?w # drop (Suc k) (workspaces m)"
      by (rule id_take_nth_drop [OF k(1)])
    have "remove_at k (vis m @ hid m) = vis m @ ?h"
      using kv by (simp add: remove_at_def Suc_diff_le)
    then have rest: "take k (workspaces m) @ drop (Suc k) (workspaces m) = vis m @ ?h"
      using l(1) by (simp add: remove_at_def)
    define m0 where "m0 = m\<lparr>workspaces := vis m @ ?h, active_workspace_idx := active_workspace_idx m, workspace_switch := None\<rparr>"
    have "returns (remove_workspace_by_idx (length (take k (workspaces m))) m) (\<lambda>(ws, m'). ws = ?w \<and>
        tidied m0 m')"
      unfolding m0_def
    proof (rule remove_hidden_returns [OF wl True rest])
      show "\<forall>ws \<in> set (vis m). \<not> ws_hidden ws" using vis_visible by blast
      show "\<forall>ws \<in> set ?h. ws_hidden ws" using set_remove_at_subset hid_hidden by (metis subsetD)
      show "above_first m \<Longrightarrow> take k (workspaces m) \<noteq> [] \<and> blank (hd (vis m))" using l kv by (auto simp: l(1))
      show "active_workspace_idx m = (if length (take k (workspaces m)) \<le> active_workspace_idx m \<and> 0 < active_workspace_idx m
          then active_workspace_idx m - 1 else active_workspace_idx m)" using lk kv l(2) by simp
    qed (use l in simp_all)
    then obtain m1 where m1: "remove_workspace_by_idx k m = Some (?w, m1)"
      "tidied m0 m1"
      unfolding lk by (auto elim!: returnsE)
    have hh: "\<forall>ws \<in> set ?h. ws_hidden ws" using set_remove_at_subset hid_hidden by (metis subsetD)
    have v0: "vis m0 = vis m"
      by (rule vis_hid_I(1) [OF _ _ hh]) (use vis_visible in \<open>auto simp: m0_def\<close>)
    have cm: "cores m = add_mset (core ?w) (cores m0)"
    proof -
      have "remove_at k (workspaces m) = vis m @ ?h" using rest by (simp add: remove_at_def)
      then show ?thesis using cores_at [OF k(1)] by (simp add: cores_def m0_def)
    qed
    have a0: "active_workspace_idx m0 = active_workspace_idx m" by (simp add: m0_def)
    have t: "shape True m1" "cores m1 \<subseteq># cores m0" "bodies m1 = bodies m0" "places_only m0 m1"
      "vis m1 ! active_workspace_idx m1 = vis m ! active_workspace_idx m \<or> blank (vis m ! active_workspace_idx m)"
      using m1(2) by (auto simp: tidied_def v0 a0)
    note p = places_set [OF t(4) [unfolded m0_def]]
    define w2 where "w2 = ?w\<lparr>ws_hidden := False, needs_hidden := needs, original_idx := None\<rparr>"
    have w2: "\<not> ws_hidden w2" "ws_id w2 = i" "body w2 = body ?w" "has_windows_or_name w2" "ws_name w2 = ws_name ?w"
      using k(2) name by (simp_all add: w2_def body_def has_windows_or_name_def)
    have okm: "cores_ok cv (mon_output m) (mon_options m) (next_ws_id m) (fl_mset (sticky m)) (add_mset (core ?w) (cores m0))"
      using content_okD [OF ok(1)] cm by simp
    have "fits cv (mon_output m) (mon_options m) (next_ws_id m) (core (adopt m1 w2))"
      using fits_of [OF ok(1) k(1)] name p by (simp add: fits_def) (simp add: w2_def ws_ok_def)
    from cores_ok_same [OF okm this] have "cores_ok cv (mon_output m) (mon_options m) (next_ws_id m) (fl_mset (sticky m))
        (add_mset (core (adopt m1 w2)) (cores m0))"
      using w2 k(2) by (simp add: name_keys_def) (simp add: w2_def ws_mset_def)
    then have fit: "cores_ok cv (mon_output m1) (mon_options m1) (next_ws_id m1) (fl_mset (sticky m1))
        (add_mset (core (adopt m1 w2)) (cores m1))"
      using cores_ok_subset [of cv _ _ _ _ _ "add_mset (core (adopt m1 w2)) (cores m1)"] t(2) p by simp
    have c1: "content_ok cv m1"
      by (rule content_cores [OF ok(1) p(1)])
        (use cores_ok_subset [OF fit, of "cores m1"] p in simp)
    from insert_workspace_returns [OF c1 shape_loose [OF t(1)] w2(1) fit,
        of "case original_idx ?w of Some k \<Rightarrow> k | None \<Rightarrow> k" False] obtain f m2 where
      m2: "insert_workspace w2 (case original_idx ?w of Some k \<Rightarrow> k | None \<Rightarrow> k) False m1 = Some (f, m2)"
        "steady m1 m2" "content_ok cv m2" "bodies m2 = bodies_of (add_mset (core (adopt m1 w2)) (cores m1))"
        "shape True m2" "idx_of_ws i m2 = Some f" "f < length (vis m2)"
        "vis m2 ! active_workspace_idx m2 = vis m1 ! active_workspace_idx m1"
      using w2 by (auto elim!: returnsE)
    have "bodies m2 = bodies m"
      using m2(4) t(3) w2 name by (simp add: bodies_def cm has_windows_or_name_def)
    then have "rearranged cv m m2"
      using m2(3) steady_trans [OF p(1) m2(2)] by (simp add: rearranged_def)
    moreover have "unhide_workspace_by_id i needs m = Some (Some f, m2)"
      using Some k(1) name True named_unique [OF ok(1) k(1) name] m1(1) m2(1)
      by (simp add: unhide_workspace_by_id_def name_of_ws_idx Let_def w2_def)
    ultimately show ?thesis using Some True m2 t(5) by auto
  qed
qed

section \<open>Hidden workspaces arriving, and hiding by index\<close>

lemma append_hidden_lists:
  assumes "loose m" "\<forall>ws \<in> set hs. ws_hidden ws"
  shows "vis (m\<lparr>workspaces := workspaces m @ hs, workspace_switch := s\<rparr>) = vis m"
    "hid (m\<lparr>workspaces := workspaces m @ hs, workspace_switch := s\<rparr>) = hid m @ hs"
    "loose (m\<lparr>workspaces := workspaces m @ hs, workspace_switch := s\<rparr>)"
proof -
  note l = looseD [OF assms(1)]
  let ?m = "m\<lparr>workspaces := workspaces m @ hs, workspace_switch := s\<rparr>"
  show v: "vis ?m = vis m" "hid ?m = hid m @ hs"
    using assms(2) by (simp_all add: vis_def hid_def filter_empty_conv filter_id_conv)
  show "loose ?m" unfolding loose_def v using l by simp
qed

lemma insert_hidden_workspace_returns:
  assumes ok: "content_ok cv m" "loose m" "ws_hidden ws"
    and fit: "cores_ok cv (mon_output m) (mon_options m) (next_ws_id m) (fl_mset (sticky m))
        (add_mset (core (adopt m ws)) (cores m))"
  shows "returns (insert_hidden_workspace ws idx m) (\<lambda>m'. steady m m' \<and> content_ok cv m' \<and>
           bodies m' = bodies_of (add_mset (core (adopt m ws)) (cores m)) \<and> shape True m' \<and>
           workspace_switch m' = None)"
proof -
  note l = looseD [OF ok(2)]
  have "workspaces m \<noteq> []" using l(1,3) by (metis Nil_is_append_conv)
  then obtain idx' where idx': "(if idx = length (workspaces m) then sub_usize idx 1 else Some idx) = Some idx'"
    by (cases "idx = length (workspaces m)") (auto simp: Suc_le_eq)
  define i where "i = (if idx' = 0 \<and> above_first m then idx' + 1 else idx')"
  define w where "w = (adopt m ws)\<lparr>original_idx := Some i\<rparr>"
  have w: "ws_hidden w" "core w = core (adopt m ws)" using ok(3) by (simp_all add: w_def) (simp add: core_def)
  define m1 where "m1 = m\<lparr>workspaces := workspaces m @ [w], workspace_switch := None\<rparr>"
  have a: "vis m1 = vis m" "hid m1 = hid m @ [w]" "loose m1"
    using append_hidden_lists [OF ok(2), of "[w]" None] w(1) by (simp_all add: m1_def)
  from clean_up_workspaces_returns [OF a(3)] obtain m2 where
    m2: "clean_up_workspaces m1 = Some m2" "tidied m1 m2" by (auto simp: m1_def elim!: returnsE)
  have t: "shape True m2" "workspace_switch m2 = None" "places_only m1 m2" "cores m2 \<subseteq># cores m1" "bodies m2 = bodies m1"
    using m2(2) by (simp_all add: tidied_def)
  note l2 = looseD [OF shape_loose [OF t(1)]]
  have c1: "cores m1 = add_mset (core w) (cores m)" by (simp add: m1_def cores_def)
  have s2: "steady m m2" "next_ws_id m2 = next_ws_id m"
    using places_onlyD(1,5) [OF t(3)] by (simp_all add: m1_def steady_def)
  have "content_ok cv m2"
    by (rule content_cores [OF ok(1) s2(1)])
      (use cores_ok_subset [OF fit, of "cores m2"] t(4) c1 w(2) s2(2) in simp)
  moreover have "bodies m2 = bodies_of (add_mset (core (adopt m ws)) (cores m))"
    using t(5) c1 w(2) by (simp add: bodies_def)
  moreover have "insert_hidden_workspace ws idx m = Some m2"
    using idx' m2(1) ensure_empty_eq [OF l2(1,3)] l2(4)
    by (simp add: insert_hidden_workspace_def Let_def i_def [symmetric] w_def [symmetric] m1_def)
  ultimately show ?thesis using s2(1) t(1,2) by simp
qed

lemma hide_named_returns:
  assumes ok: "content_ok cv m" "shape True m" "idx < length (workspaces m)"
    "ws_name (workspaces m ! idx) \<noteq> None"
  shows "returns (hide_workspace_by_idx idx m) (\<lambda>m'. rearranged cv m m' \<and> shape True m')"
proof (cases "idx < length (vis m)")
  case True
  note l = looseD [OF shape_loose [OF ok(2)]]
  show ?thesis
    by (rule returns_mono [OF hide_visible_returns [OF ok(1) shape_loose [OF ok(2)] True]])
      (use ok(4) nth_vis(1) [OF l(1) True] in auto)
next
  case False
  note l = looseD [OF shape_loose [OF ok(2)]]
  let ?w = "workspaces m ! idx"
  have hidden: "ws_hidden ?w" using hid_nth [OF l(1) ok(3)] False by simp
  have nz: "idx \<noteq> 0" using False l(3) by (cases "idx = 0") simp_all
  show ?thesis
  proof (cases "idx = length (workspaces m) - 1")
    case True
    moreover have "workspaces m \<noteq> []" using ok(3) by auto
    ultimately show ?thesis using ok(2) rearranged_refl [OF ok(1)]
      by (simp add: hide_workspace_by_idx_def Suc_le_eq)
  next
    case notlast: False
    define w where "w = ?w\<lparr>ws_hidden := True, needs_hidden := False\<rparr>"
    define m1 where "m1 = set_workspace idx w m"
    let ?h = "remove_at (idx - length (vis m)) (hid m)"
    have cw: "core w = core ?w\<lparr>needs_hidden := False\<rparr>" using hidden by (simp add: w_def core_def)
    have kv: "length (vis m) \<le> idx" using False by simp
    have lk: "length (take idx (workspaces m)) = idx" using ok(3) by simp
    have wl: "workspaces m1 = take idx (workspaces m) @ w # drop (Suc idx) (workspaces m)"
      using ok(3) by (simp add: m1_def set_workspace_def upd_conv_take_nth_drop)
    have "remove_at idx (vis m @ hid m) = vis m @ ?h"
      using kv by (simp add: remove_at_def Suc_diff_le)
    then have rest: "take idx (workspaces m) @ drop (Suc idx) (workspaces m) = vis m @ ?h"
      using l(1) by (simp add: remove_at_def)
    have hh: "\<forall>ws \<in> set ?h. ws_hidden ws" using set_remove_at_subset hid_hidden by (metis subsetD)
    define m0 where "m0 = m1\<lparr>workspaces := vis m @ ?h, active_workspace_idx := active_workspace_idx m, workspace_switch := None\<rparr>"
    have "returns (remove_workspace_by_idx (length (take idx (workspaces m))) m1) (\<lambda>(ws, m'). ws = w \<and> tidied m0 m')"
      unfolding m0_def
    proof (rule remove_hidden_returns [OF wl _ rest])
      show "\<forall>ws \<in> set (vis m). \<not> ws_hidden ws" using vis_visible by blast
      show "above_first m1 \<Longrightarrow> take idx (workspaces m) \<noteq> [] \<and> blank (hd (vis m))"
        using l(1,3,5) nz by (auto simp: m1_def set_workspace_def)
      show "active_workspace_idx m = (if length (take idx (workspaces m)) \<le> active_workspace_idx m1 \<and> 0 < active_workspace_idx m1
          then active_workspace_idx m1 - 1 else active_workspace_idx m1)"
        using lk kv l(2) by (simp add: m1_def set_workspace_def)
    qed (use l hh in \<open>simp_all add: w_def\<close>)
    then obtain m2 where m2: "remove_workspace_by_idx idx m1 = Some (w, m2)" "tidied m0 m2"
      unfolding lk by (auto elim!: returnsE)
    define w' where "w' = w\<lparr>original_idx := Some idx\<rparr>"
    define m3 where "m3 = m2\<lparr>workspaces := workspaces m2 @ [w']\<rparr>"
    have hw: "ws_hidden w'" by (simp add: w'_def w_def)
    note push = push_hidden [OF m2(2) hw, folded m3_def]
    have run: "hide_workspace_by_idx idx m = Some m3"
      using notlast nz ok(3) m2(1) push(1) length_pos_if_in_set [OF nth_mem [OF ok(3)]]
      by (auto simp: hide_workspace_by_idx_def on_workspace_def Let_def m1_def w_def w'_def m3_def Suc_le_eq)
    have "places_only (m\<lparr>workspaces := vis m @ ?h, active_workspace_idx := active_workspace_idx m, workspace_switch := None\<rparr>) m2"
      using m2(2) by (simp add: tidied_def m0_def m1_def set_workspace_def)
    note p = places_set [OF this]
    have cm: "cores m = add_mset (core ?w) (cores m0)"
      using cores_at [OF ok(3)] rest by (simp add: cores_def m0_def remove_at_def)
    have c3: "cores m3 = add_mset (core w) (cores m2)" by (simp add: cores_def m3_def w'_def core_def)
    note okm = content_okD [OF ok(1)]
    have "fits cv (mon_output m) (mon_options m) (next_ws_id m) (core w)"
      using fits_of [OF ok(1,3)] hidden by (simp add: fits_def) (simp add: w_def ws_ok_def)
    from cores_ok_same [OF okm [unfolded cm] this]
    have "cores_ok cv (mon_output m) (mon_options m) (next_ws_id m) (fl_mset (sticky m)) (add_mset (core w) (cores m0))"
      by (simp add: w_def name_keys_def ws_mset_def)
    from cores_ok_subset [OF this, of "cores m3"]
    have ok3: "cores_ok cv (mon_output m) (mon_options m) (next_ws_id m3) (fl_mset (sticky m)) (cores m3)"
      using m2(2) p(4) by (simp add: c3 tidied_def) (simp add: m3_def)
    have "bodies m3 = bodies m"
      using m2(2) ok(4)
      by (simp add: bodies_def c3 cm tidied_def) (simp add: w_def body_def has_windows_or_name_def)
    then have "rearranged cv m m3"
      by (intro rearrangedI [OF ok(1) _ _ ok3]) (use p(1) in \<open>simp_all add: steady_def m3_def\<close>)
    with run push(2) show ?thesis by simp
  qed
qed

end
