(* ===== verification/MonitorSteps.thy ===== *)
theory MonitorSteps
  imports MonitorInsert
begin

text \<open>
  Operations that change one workspace of a monitor: windows and columns arriving, leaving
  and moving. Each returns, keeps \<open>verify_invariants\<close> and accounts for every window.
\<close>

section \<open>Exchanging one workspace\<close>

lemma shape_weaken: "shape t m \<Longrightarrow> shape False m"
  by (simp add: shape_def)

lemma shape_strengthen: "shape True m \<Longrightarrow> shape t m"
  by (simp add: shape_def)

lemma shape_busy: "shape t m \<Longrightarrow> workspace_switch m \<noteq> None \<Longrightarrow> shape True m"
  by (auto simp: shape_def)

definition alike :: "workspace \<Rightarrow> workspace \<Rightarrow> bool" where
  "alike ws ws' \<longleftrightarrow>
     ws_id ws' = ws_id ws \<and> ws_name ws' = ws_name ws \<and> ws_hidden ws' = ws_hidden ws \<and>
     needs_hidden ws' = needs_hidden ws \<and> base_options ws' = base_options ws \<and>
     ws_output ws' = ws_output ws"

lemma alike_frame: "ws_frame ws ws' \<Longrightarrow> alike ws ws'"
  using ws_frameD [of ws ws'] by (simp add: alike_def)

lemma own_if_unnamed_simps [simp]:
  "ws_mset (own_if_unnamed out ws) = ws_mset ws" "ws_ok cv (own_if_unnamed out ws) = ws_ok cv ws"
  "has_windows_or_name (own_if_unnamed out ws) = has_windows_or_name ws"
  "body (own_if_unnamed out ws) = body ws" "alike ws' (own_if_unnamed out ws) = alike ws' ws"
  "ws_windows (own_if_unnamed out ws) = ws_windows ws" "ws_hidden (own_if_unnamed out ws) = ws_hidden ws"
  by (simp_all add: own_if_unnamed_def alike_def has_windows_or_name_iff body_def ws_windows_def)
    (simp_all add: ws_mset_def ws_ok_def)

lemma set_workspace_fields [simp]:
  "active_workspace_idx (set_workspace i ws m) = active_workspace_idx m"
  "mon_output (set_workspace i ws m) = mon_output m" "mon_options (set_workspace i ws m) = mon_options m"
  "sticky (set_workspace i ws m) = sticky m" "next_ws_id (set_workspace i ws m) = next_ws_id m"
  "workspace_switch (set_workspace i ws m) = workspace_switch m"
  "previous_workspace_id (set_workspace i ws m) = previous_workspace_id m"
  "workspaces (set_workspace i ws m) = (workspaces m)[i := ws]"
  "active_space (set_workspace i ws m) = active_space m"
  "steady m (set_workspace i ws m)"
  by (simp_all add: set_workspace_def steady_def)

lemma set_lists:
  assumes "workspaces m = vis m @ hid m" "i < length (workspaces m)" "ws_hidden ws = ws_hidden (workspaces m ! i)"
  shows "vis (set_workspace i ws m) = (vis m)[i := ws]"
    "hid (set_workspace i ws m) = (if length (vis m) \<le> i then (hid m)[i - length (vis m) := ws] else hid m)"
    "workspaces (set_workspace i ws m) = vis (set_workspace i ws m) @ hid (set_workspace i ws m)"
proof -
  let ?m = "set_workspace i ws m"
  let ?h = "if length (vis m) \<le> i then (hid m)[i - length (vis m) := ws] else hid m"
  have w: "workspaces ?m = (vis m)[i := ws] @ ?h"
    using arg_cong [OF assms(1), of "\<lambda>xs. xs[i := ws]"]
    by (cases "i < length (vis m)") (simp_all add: list_update_append list_update_beyond)
  note h = hid_nth [OF assms(1,2)]
  have v: "\<forall>x \<in> set ((vis m)[i := ws]). \<not> ws_hidden x"
  proof (cases "i < length (vis m)")
    case True
    with h assms(3) have "\<not> ws_hidden ws" by simp
    then show ?thesis using set_update_subset_insert [of "vis m" i ws] vis_visible by blast
  qed (simp add: list_update_beyond vis_visible)
  have hd: "\<forall>x \<in> set ?h. ws_hidden x"
  proof (cases "length (vis m) \<le> i")
    case True
    with h assms(3) have "ws_hidden ws" by simp
    then show ?thesis using set_update_subset_insert [of "hid m" "i - length (vis m)" ws] hid_hidden by auto
  qed (simp add: hid_def)
  show a: "vis ?m = (vis m)[i := ws]" by (rule vis_hid_I(1) [OF w v hd])
  show b: "hid ?m = ?h" by (rule vis_hid_I(2) [OF w v hd])
  show "workspaces ?m = vis ?m @ hid ?m" unfolding a b by (rule w)
qed

lemma cores_set:
  assumes "i < length (workspaces m)"
  shows "cores (set_workspace i ws m) = add_mset (core ws) (image_mset core (mset (remove_at i (workspaces m))))"
  using assms by (simp add: cores_def list_update_conv_insert_remove)

lemma ws_mset_within:
  assumes "i < length (workspaces m)"
  shows "ws_mset (workspaces m ! i) \<subseteq># mon_mset m"
  using cores_at [OF assms] by (simp add: mon_mset_def)

lemma mon_mset_distinct: "content_ok cv m \<Longrightarrow> distinct_mset (mon_mset m)"
  using content_okD [of cv m] by (simp add: cores_ok_def mon_mset_def)

lemma content_set:
  assumes ok: "content_ok cv m" and i: "i < length (workspaces m)"
    and ws: "ws_ok cv ws" "alike (workspaces m ! i) ws"
    and d: "distinct_mset (ws_mset ws + (mon_mset m - ws_mset (workspaces m ! i)))"
  shows "content_ok cv (set_workspace i ws m)"
    "mon_mset (set_workspace i ws m) = ws_mset ws + (mon_mset m - ws_mset (workspaces m ! i))"
proof -
  let ?R = "image_mset core (mset (remove_at i (workspaces m)))" and ?w = "workspaces m ! i"
  have cm: "cores m = add_mset (core ?w) ?R" by (rule cores_at [OF i])
  have mm: "mon_mset m = ws_mset ?w + (fl_mset (sticky m) + \<Sum>\<^sub># (image_mset ws_mset ?R))"
    by (simp add: mon_mset_def cm)
  have d': "distinct_mset (fl_mset (sticky m) + ws_mset (core ws) + \<Sum>\<^sub># (image_mset ws_mset ?R))"
    using d unfolding mm by (simp add: ac_simps)
  have "fits cv (mon_output m) (mon_options m) (next_ws_id m) (core ws)"
    using fits_of [OF ok i] ws by (simp add: fits_def alike_def)
  moreover have "name_keys (core ws) \<subseteq># name_keys (core ?w)" "ws_id (core ws) = ws_id (core ?w)"
    using ws(2) by (simp_all add: name_keys_def alike_def)
  ultimately have "cores_ok cv (mon_output m) (mon_options m) (next_ws_id m) (fl_mset (sticky m)) (add_mset (core ws) ?R)"
    using cores_ok_exchange [OF content_okD [OF ok, unfolded cm] _ _ _ d'] by simp
  then have c: "cores_ok cv (mon_output m) (mon_options m) (next_ws_id (set_workspace i ws m))
      (fl_mset (sticky m)) (cores (set_workspace i ws m))"
    by (simp add: cores_set [OF i])
  show "content_ok cv (set_workspace i ws m)"
    by (rule content_cores [OF ok _ c]) simp
  show "mon_mset (set_workspace i ws m) = ws_mset ws + (mon_mset m - ws_mset ?w)"
    unfolding mm by (simp add: mon_mset_def cores_set [OF i] ac_simps)
qed

text \<open>The shape only sees which workspaces are blank\<close>

lemma shape_set:
  assumes "shape t m" "i < length (workspaces m)" "ws_hidden ws = ws_hidden (workspaces m ! i)"
    and "has_windows_or_name ws \<Longrightarrow> has_windows_or_name (workspaces m ! i)"
    and "t \<Longrightarrow> i \<noteq> active_workspace_idx m \<Longrightarrow> has_windows_or_name (workspaces m ! i) \<Longrightarrow> has_windows_or_name ws"
  shows "shape t (set_workspace i ws m)"
proof -
  note l = looseD [OF shape_loose [OF assms(1)]]
  note s = set_lists [OF l(1) assms(2,3)]
  have at: "has_windows_or_name ((vis m)[i := ws] ! k) \<Longrightarrow> has_windows_or_name (vis m ! k)" if "k < length (vis m)" for k
    using that assms(4) nth_vis(1) [OF l(1), of i] by (cases "k = i") auto
  have "blank (last ((vis m)[i := ws]))" using at [of "length (vis m) - 1"] l(3,4) by (auto simp: last_conv_nth)
  moreover have "above_first m \<Longrightarrow> blank (hd ((vis m)[i := ws]))"
    using at [of 0] l(3,5) by (auto simp: hd_conv_nth)
  ultimately have loose: "loose (set_workspace i ws m)"
    unfolding loose_def using s l(2) by simp
  have "has_windows_or_name ((vis m)[i := ws] ! k)"
    if "t" "workspace_switch m = None" "k < length (vis m) - 1" "(if above_first m then 1 else 0) \<le> k" "k \<noteq> active_workspace_idx m" for k
  proof -
    have "has_windows_or_name (vis m ! k)" using assms(1) that by (simp add: shape_def tight_def)
    then show ?thesis using that(1,3,5) assms(5) nth_vis(1) [OF l(1), of k] by (cases "k = i") auto
  qed
  then have "t \<Longrightarrow> workspace_switch m = None \<Longrightarrow> tight (set_workspace i ws m)"
    by (simp add: tight_def s)
  moreover have "hid (set_workspace i ws m) = [] \<longleftrightarrow> hid m = []" using s(2) by auto
  ultimately show ?thesis using assms(1) loose s(1) by (simp add: shape_def)
qed

section \<open>Operations on one workspace that move no window away\<close>

definition mon_keeps :: "client_view \<Rightarrow> monitor \<Rightarrow> monitor \<Rightarrow> bool" where
  "mon_keeps cv m m' \<longleftrightarrow> content_ok cv m' \<and> mon_mset m' = mon_mset m \<and> steady m m'"

lemma mon_keeps_refl: "content_ok cv m \<Longrightarrow> mon_keeps cv m m"
  by (simp add: mon_keeps_def)

lemma mon_keeps_trans: "mon_keeps cv a b \<Longrightarrow> mon_keeps cv b c \<Longrightarrow> mon_keeps cv a c"
  by (auto simp: mon_keeps_def intro: steady_trans)

lemma rearranged_keeps: "rearranged cv m m' \<Longrightarrow> mon_keeps cv m m'"
  using rearranged_windows [of cv m m'] by (simp add: mon_keeps_def rearranged_def)

lemma set_workspace_keeps:
  assumes "content_ok cv m" "shape t m" "i < length (workspaces m)" "ws_keeps cv (workspaces m ! i) ws"
  shows "mon_keeps cv m (set_workspace i ws m)" "shape t (set_workspace i ws m)"
proof -
  have k: "ws_ok cv ws" "ws_mset ws = ws_mset (workspaces m ! i)" "alike (workspaces m ! i) ws"
    using assms(4) alike_frame by (simp_all add: ws_keeps_def)
  have sub: "ws_mset (workspaces m ! i) \<subseteq># mon_mset m" by (rule ws_mset_within [OF assms(3)])
  then have e: "ws_mset ws + (mon_mset m - ws_mset (workspaces m ! i)) = mon_mset m" using k(2) by simp
  note c = content_set [OF assms(1,3) k(1,3), unfolded e, OF mon_mset_distinct [OF assms(1)]]
  show "mon_keeps cv m (set_workspace i ws m)" using c by (simp add: mon_keeps_def)
  show "shape t (set_workspace i ws m)"
    by (rule shape_set [OF assms(2,3)]) (use k in \<open>simp_all add: alike_def has_windows_or_name_iff\<close>)
qed

lemma on_workspace_keeps:
  assumes "content_ok cv m" "shape t m" "i < length (workspaces m)"
    and "returns (f (workspaces m ! i)) (ws_keeps cv (workspaces m ! i))"
  shows "returns (on_workspace i f m) (\<lambda>m'. mon_keeps cv m m' \<and> shape t m')"
  using assms set_workspace_keeps [OF assms(1-3)] by (auto simp: on_workspace_def elim!: returns_mono)

section \<open>Windows arriving at one workspace\<close>

lemma add_result_mset:
  assumes "workspaces m = vis m @ hid m" "idx \<le> length (vis m)"
  shows "mon_mset (add_result idx m) = mon_mset m" "bodies (add_result idx m) = bodies m"
  by (simp_all add: mon_mset_def bodies_def cores_add_result [OF assms])

lemma tight_bottom:
  assumes "tight m" "vis m \<noteq> []" "length (vis m) - 1 \<noteq> active_workspace_idx m \<Longrightarrow> has_windows_or_name (last (vis m))"
    "active_workspace_idx m < length (vis m)"
  shows "tight (add_result (length (vis m)) m)"
  unfolding tight_def
proof (intro allI impI)
  fix i assume i: "i < length (vis (add_result (length (vis m)) m)) - 1"
    "(if above_first (add_result (length (vis m)) m) then 1 else 0) \<le> i"
    "i \<noteq> active_workspace_idx (add_result (length (vis m)) m)"
  then have i': "i < length (vis m)" "(if above_first m then 1 else 0) \<le> i" "i \<noteq> active_workspace_idx m"
    using assms(4) by simp_all
  then have "has_windows_or_name (vis m ! i)"
    using assms(1,3) by (cases "i = length (vis m) - 1") (auto simp: tight_def last_conv_nth [OF assms(2)])
  with i'(1) show "has_windows_or_name (vis (add_result (length (vis m)) m) ! i)"
    by (simp add: nth_append)
qed

lemma tight_top:
  assumes "tight m" "above_first m" "0 \<noteq> active_workspace_idx m \<Longrightarrow> has_windows_or_name (vis m ! 0)"
  shows "tight (add_result 0 m)"
  unfolding tight_def
proof (intro allI impI)
  fix i assume i: "i < length (vis (add_result 0 m)) - 1"
    "(if above_first (add_result 0 m) then 1 else 0) \<le> i" "i \<noteq> active_workspace_idx (add_result 0 m)"
  then have i': "i - 1 < length (vis m) - 1 \<or> i - 1 = 0" "1 \<le> i" "i - 1 \<noteq> active_workspace_idx m"
    using assms(2) by auto
  then have "has_windows_or_name (vis m ! (i - 1))"
    using assms by (cases "i - 1") (auto simp: tight_def)
  with i'(2) show "has_windows_or_name (vis (add_result 0 m) ! i)"
    by (cases i) simp_all
qed

lemma is_last_visible_eq:
  assumes "workspaces m = vis m @ hid m"
  shows "is_last_visible i m \<longleftrightarrow> i + 1 = length (vis m)"
  using position_hidden [OF assms] arg_cong [OF assms, of length] by (simp add: is_last_visible_def)

text \<open>The empty workspaces that an arriving window makes necessary\<close>

definition with_empties :: "nat \<Rightarrow> monitor \<Rightarrow> nat \<times> monitor" where
  "with_empties idx m =
     (let m = (if idx + 1 = length (vis m) then add_result (length (vis m)) m else m)
      in if above_first m \<and> idx = 0 then (1, add_result 0 m) else (idx, m))"

lemma with_empties:
  assumes ok: "content_ok cv m" and w: "workspaces m = vis m @ hid m" and a: "active_workspace_idx m < length (vis m)"
    and i: "idx < length (workspaces m)" and ne: "has_windows_or_name (workspaces m ! idx)"
    and last: "idx + 1 \<noteq> length (vis m) \<longrightarrow> blank (last (vis m))"
    and first: "above_first m \<longrightarrow> idx \<noteq> 0 \<longrightarrow> blank (hd (vis m))"
    and two: "above_first m \<longrightarrow> hid m = [] \<longrightarrow> length (vis m) \<noteq> 2"
    and sw: "switch_ok (workspace_switch m) (length (vis m)) (length (workspaces m))"
    and tight: "t \<longrightarrow> workspace_switch m = None \<longrightarrow> tight m"
    and run: "with_empties idx m = (k, m')"
  shows "rearranged cv m m'" "shape t m'" "k < length (workspaces m')" "idx < length (vis m) \<Longrightarrow> k < length (vis m')"
    "workspaces m' ! k = workspaces m ! idx \<or> length (vis m) \<le> idx \<and> k = idx \<and> m' = m"
    "vis m' ! active_workspace_idx m' = vis m ! active_workspace_idx m"
    "previous_workspace_id m' = previous_workspace_id m"
proof -
  let ?n = "length (vis m)"
  have v: "vis m \<noteq> []" using a by auto
  have len: "length (workspaces m) = ?n + length (hid m)" using arg_cong [OF w, of length] by simp
  define m1 where "m1 = (if idx + 1 = ?n then add_result ?n m else m)"
  have m': "(k, m') = (if above_first m1 \<and> idx = 0 then (1, add_result 0 m1) else (idx, m1))"
    using run unfolding with_empties_def m1_def [symmetric] Let_def by simp
  have w1: "workspaces m1 = vis m1 @ hid m1"
    using w workspaces_add_result [OF order_refl, of m] by (simp add: m1_def)
  have a1: "active_workspace_idx m1 = active_workspace_idx m" "active_workspace_idx m1 < length (vis m1)"
    using a by (auto simp: m1_def)
  have at1: "vis m1 ! j = vis m ! j" if "j < ?n" for j using that by (simp add: m1_def nth_append)
  have o1: "above_first m1 = above_first m" by (simp add: m1_def)
  have r1: "rearranged cv m m1"
    using add_result_rearranged [OF ok w order_refl] rearranged_refl [OF ok] by (simp add: m1_def)
  have c1: "content_ok cv m1" using r1 by (simp add: rearranged_def)
  have p1: "previous_workspace_id m1 = previous_workspace_id m" by (simp add: m1_def)
  have sw1: "switch_ok (workspace_switch m1) (length (vis m1)) (length (workspaces m1))"
    using add_result_switch_ok [OF w order_refl sw] sw by (simp add: m1_def)
  have n1: "workspace_switch m1 = None \<longleftrightarrow> workspace_switch m = None" by (simp add: m1_def)
  have nlast: "idx + 1 = ?n \<Longrightarrow> has_windows_or_name (last (vis m))"
    using ne nth_vis(1) [OF w, of idx] last_conv_nth [OF v] by (metis add_diff_cancel_right' less_add_one)
  have t1: "t \<Longrightarrow> workspace_switch m1 = None \<Longrightarrow> tight m1"
    using tight tight_bottom [OF _ v _ a] nlast n1 by (auto simp: m1_def)
  have last1: "blank (last (vis m1))" using last by (simp add: m1_def)
  have first1: "idx = 0 \<or> blank (hd (vis m1))" if "above_first m" using first that v by (auto simp: m1_def)
  have vis1: "workspaces m1 ! idx = workspaces m ! idx" if "idx < ?n"
    using nth_vis(1) [OF w that] nth_vis(1) [OF w1, of idx] at1 [OF that] that by (simp add: m1_def)
  have ge1: "?n \<le> length (vis m1)" by (simp add: m1_def)
  show "rearranged cv m m'" using m' r1 rearranged_trans [OF r1 add_result_rearranged [OF c1 w1, of 0]] by (auto split: if_splits)
  show "previous_workspace_id m' = previous_workspace_id m" using m' p1 by (auto split: if_splits)
  show "shape t m'"
  proof (cases "above_first m \<and> idx = 0")
    case True
    then have m2: "m' = add_result 0 m1" using m' o1 by simp
    have 0: "0 < ?n" using v by simp
    have "loose m'" unfolding m2
      by (rule add_result_loose [OF w1 _ a1(2)]) (use last1 in simp_all)
    moreover have "switch_ok (workspace_switch m') (length (vis m')) (length (workspaces m'))"
      unfolding m2 by (rule add_result_switch_ok [OF w1 _ sw1]) simp
    moreover have "tight m'" if "t" "workspace_switch m' = None"
      unfolding m2
    proof (rule tight_top)
      show "tight m1" using t1 that m2 by simp
      show "above_first m1" using True o1 by simp
      show "has_windows_or_name (vis m1 ! 0)" using ne True nth_vis(1) [OF w 0] at1 [OF 0] by simp
    qed
    moreover have "length (vis m') \<noteq> 2"
      using True 0 by (auto simp: m2 m1_def)
    ultimately show ?thesis by (simp add: shape_def)
  next
    case False
    then have m2: "m' = m1" using m' o1 by (auto split: if_splits)
    have "loose m1" unfolding loose_def using w1 a1(2) last1 first1 False o1 by auto
    moreover have "above_first m1 \<Longrightarrow> hid m1 = [] \<Longrightarrow> length (vis m1) \<noteq> 2"
      using two False o1 by (auto simp: m1_def split: if_splits)
    ultimately show ?thesis using m2 sw1 t1 by (simp add: shape_def)
  qed
  show "idx < length (vis m) \<Longrightarrow> k < length (vis m')" using m' ge1 by (auto split: if_splits)
  have hidx: "m1 = m" "idx \<noteq> 0" if "\<not> idx < ?n" using that v by (cases "vis m"; auto simp: m1_def)+
  have top: "workspaces m' ! k = workspaces m ! idx \<and> k < length (workspaces m')" if "idx < ?n"
  proof (cases "above_first m1 \<and> idx = 0")
    case True
    then have m2: "m' = add_result 0 m1" "k = 1" using m' by simp_all
    have w2: "workspaces m' = vis m' @ hid m'" unfolding m2 by (rule workspaces_add_result) simp
    have lt: "1 < length (vis m')" using that ge1 True by (simp add: m2 length_greater_0_conv [symmetric] del: length_greater_0_conv)
    have "vis m' ! 1 = vis m1 ! 0" by (simp add: m2)
    also have "\<dots> = workspaces m ! idx" using True that at1 nth_vis(1) [OF w that] by simp
    finally show ?thesis using nth_vis [OF w2 lt] m2(2) by simp
  next
    case False
    then have "m' = m1" "k = idx" using m' by (auto split: if_splits)
    with vis1 [OF that] nth_vis(2) [OF w1, of idx] that ge1 show ?thesis by simp
  qed
  show "k < length (workspaces m')"
    using top hidx i m' by (cases "idx < ?n") (auto split: if_splits)
  show "workspaces m' ! k = workspaces m ! idx \<or> length (vis m) \<le> idx \<and> k = idx \<and> m' = m"
    using top hidx m' by (cases "idx < ?n") (auto split: if_splits)
  have "vis m' ! active_workspace_idx m' = vis m1 ! active_workspace_idx m1"
    using m' by (auto split: if_splits)
  then show "vis m' ! active_workspace_idx m' = vis m ! active_workspace_idx m"
    using at1 [OF a] a1(1) by simp
qed

lemma add_to_workspace_returns:
  assumes ok: "content_ok cv m" and sh: "shape t m" and i: "idx < length (workspaces m)"
    and f: "returns (f (workspaces m ! idx)) (\<lambda>ws. ws_gains cv new (workspaces m ! idx) ws \<and> Q (body ws))"
    and new: "new \<noteq> {#}" "distinct_mset (new + mon_mset m)"
  shows "returns (add_to_workspace idx f m) (\<lambda>(k, m'). content_ok cv m' \<and> shape t m' \<and> steady m m' \<and>
           mon_mset m' = new + mon_mset m \<and> k < length (workspaces m') \<and>
           (idx < length (vis m) \<longrightarrow> k < length (vis m')) \<and>
           ws_id (workspaces m' ! k) = ws_id (workspaces m ! idx) \<and>
           ws_mset (workspaces m' ! k) = new + ws_mset (workspaces m ! idx) \<and> Q (body (workspaces m' ! k)) \<and>
           active_id m' = active_id m \<and> previous_workspace_id m' = previous_workspace_id m \<and>
           active_space m' = active_space m)"
proof -
  note l = looseD [OF shape_loose [OF sh]]
  let ?w = "workspaces m ! idx"
  from f obtain w0 where w0: "f ?w = Some w0" "ws_gains cv new ?w w0" "Q (body w0)" by (auto elim!: returnsE)
  define w where "w = own_if_unnamed (mon_output m) w0"
  have w: "ws_ok cv w" "ws_mset w = new + ws_mset ?w" "alike ?w w" "Q (body w)"
    using w0(2,3) alike_frame by (simp_all add: ws_gains_def w_def)
  have hw: "ws_hidden w = ws_hidden ?w" using w(3) by (simp add: alike_def)
  define m1 where "m1 = set_workspace idx w m"
  note s1 = set_lists [OF l(1) i hw, folded m1_def]
  have sub: "ws_mset ?w \<subseteq># mon_mset m" by (rule ws_mset_within [OF i])
  then have e: "ws_mset w + (mon_mset m - ws_mset ?w) = new + mon_mset m" using w(2) by (simp add: add.assoc)
  note c1 = content_set [OF ok i w(1,3), unfolded e, OF new(2), folded m1_def]
  have f1: "active_workspace_idx m1 = active_workspace_idx m" "mon_options m1 = mon_options m"
    "workspace_switch m1 = workspace_switch m" "workspaces m1 = (workspaces m)[idx := w]"
    "previous_workspace_id m1 = previous_workspace_id m" "steady m m1" "active_space m1 = active_space m"
    by (simp_all add: m1_def)
  have len: "length (vis m1) = length (vis m)" "hid m1 = [] \<longleftrightarrow> hid m = []" by (auto simp: s1)
  have ne: "has_windows_or_name w" using w(2) new(1) by (simp add: has_windows_or_name_iff)
  obtain k m2 where e2: "with_empties idx m1 = (k, m2)" by fastforce
  have t1: "tight m1" if "t" "workspace_switch m1 = None"
  proof -
    have "tight m" using sh that f1 by (simp add: shape_def)
    moreover have "has_windows_or_name ((vis m)[idx := w] ! k)" if "k < length (vis m)" "has_windows_or_name (vis m ! k)" for k
      using that ne by (cases "k = idx") simp_all
    ultimately show ?thesis by (auto simp: tight_def s1 f1)
  qed
  have sh': "switch_ok (workspace_switch m) (length (vis m)) (length (workspaces m))"
    "above_first m \<Longrightarrow> hid m = [] \<Longrightarrow> length (vis m) \<noteq> 2"
    using sh by (auto simp: shape_def)
  have last: "blank (last (vis m1))" if "idx + 1 \<noteq> length (vis m1)"
  proof -
    have "last ((vis m)[idx := w]) = last (vis m)"
      using that l(3) by (cases "idx = length (vis m) - 1") (simp_all add: s1 last_conv_nth)
    then show ?thesis using l(4) by (simp add: s1)
  qed
  have first: "blank (hd (vis m1))" if "above_first m1" "idx \<noteq> 0"
    using that l(3,5) by (simp add: s1 f1 hd_conv_nth)
  have ne1: "has_windows_or_name (workspaces m1 ! idx)" using ne i by (simp add: f1)
  have sw1: "switch_ok (workspace_switch m1) (length (vis m1)) (length (workspaces m1))"
    using sh'(1) by (simp add: f1 len)
  have a1: "active_workspace_idx m1 < length (vis m1)" using l(2) by (simp add: f1 len)
  have i1: "idx < length (workspaces m1)" using i by (simp add: f1)
  have two1: "above_first m1 \<longrightarrow> hid m1 = [] \<longrightarrow> length (vis m1) \<noteq> 2"
    using sh'(2) by (simp add: f1 len)
  have last1: "idx + 1 \<noteq> length (vis m1) \<longrightarrow> blank (last (vis m1))"
    and first1: "above_first m1 \<longrightarrow> idx \<noteq> 0 \<longrightarrow> blank (hd (vis m1))"
    and t1': "t \<longrightarrow> workspace_switch m1 = None \<longrightarrow> tight m1"
    using last first t1 by blast+
  note we = with_empties [OF c1(1) s1(3) a1 i1 ne1 last1 first1 two1 sw1 t1' e2]
  have run: "add_to_workspace idx f m = Some (k, m2)"
  proof -
    have on: "on_workspace idx (\<lambda>ws. map_option (own_if_unnamed (mon_output m)) (f ws)) m = Some m1"
      using i w0(1) by (simp add: on_workspace_def m1_def w_def)
    have ens: "(if position ws_hidden (workspaces m) \<noteq> None then ensure_empty_before_hidden m1
        else add_workspace_bottom m1) = Some (add_result (length (vis m1)) m1)" if "idx + 1 = length (vis m)"
    proof -
      have "vis m1 \<noteq> []" using that len by auto
      moreover have "idx = length (vis m) - 1" using that by simp
      then have "last (vis m1) = w" using l(3) by (simp add: s1 last_conv_nth)
      ultimately show ?thesis
        using ensure_empty_eq [OF s1(3)] ne add_workspace_at_eq [OF s1(3) order_refl] position_hidden [OF l(1)] len(2)
        by (simp add: add_workspace_bottom_def visible_count [OF s1(3)])
    qed
    have top: "add_workspace_top m' = Some (add_result 0 m')" if "m' = (if idx + 1 = length (vis m1) then add_result (length (vis m1)) m1 else m1)" for m'
      using that add_workspace_at_eq [of m' 0] s1(3) workspaces_add_result [OF order_refl, of m1]
      by (simp add: add_workspace_top_def)
    define m1' where "m1' = (if idx + 1 = length (vis m1) then add_result (length (vis m1)) m1 else m1)"
    have step: "(if is_last_visible idx m
             then (if position ws_hidden (workspaces m) \<noteq> None then ensure_empty_before_hidden m1 else add_workspace_bottom m1)
             else Some m1) = Some m1'"
      using ens by (simp add: is_last_visible_eq [OF l(1)] m1'_def len)
    have "add_to_workspace idx f m =
      (if above_first m1' \<and> idx = 0 then do { m \<leftarrow> add_workspace_top m1'; Some (idx + 1, m) } else Some (idx, m1'))"
      unfolding add_to_workspace_def Let_def on by (simp only: Option.bind.simps step)
    also have "\<dots> = Some (with_empties idx m1)"
      unfolding with_empties_def Let_def m1'_def [symmetric] using top [OF m1'_def] by simp
    finally show ?thesis using e2 by simp
  qed
  have "steady m1 m2" using we(1) by (simp add: rearranged_def)
  then have st: "steady m m2" by (rule steady_trans [OF f1(6)])
  have mm2: "mon_mset m2 = new + mon_mset m" using rearranged_windows [OF we(1)] c1(2) by simp
  have kw: "workspaces m2 ! k = w" using we(5) i by (auto simp: f1)
  have aid: "active_id m2 = active_id m"
  proof -
    have "active_id m2 = ws_id (vis m1 ! active_workspace_idx m1)"
      using active_id_vis [OF shape_loose [OF we(2)]] we(6) by simp
    also have "\<dots> = ws_id (vis m ! active_workspace_idx m)"
      using w(3) nth_vis(1) [OF l(1), of idx] l(2) by (cases "idx = active_workspace_idx m") (simp_all add: s1 f1 alike_def)
    finally show ?thesis using active_id_vis [OF shape_loose [OF sh]] by simp
  qed
  have c2: "content_ok cv m2" using we(1) by (simp add: rearranged_def)
  have idw: "ws_id w = ws_id ?w" using w(3) by (simp add: alike_def)
  have sp: "active_space m2 = active_space m" using st by (simp add: steady_def)
  have kv: "idx < length (vis m) \<longrightarrow> k < length (vis m2)" using we(4) len(1) by simp
  have pv: "previous_workspace_id m2 = previous_workspace_id m" using we(7) f1(5) by simp
  show ?thesis
    unfolding run returns_Some case_prod_conv kw idw w(2)
    by (intro conjI c2 we(2,3) st mm2 kv refl w(4) aid pv sp)
qed

section \<open>Tiles and columns arriving at the monitor\<close>

lemma find_body:
  assumes "content_ok cv m" "b \<in># bodies m"
  shows "\<exists>k. idx_of_ws (fst b) m = Some k \<and> k < length (workspaces m) \<and> body (workspaces m ! k) = b"
proof -
  from assms(2) obtain ws where ws: "ws \<in> set (workspaces m)" "body ws = b"
    by (auto simp: bodies_def bodies_of_def cores_def)
  then obtain k where k: "k < length (workspaces m)" "workspaces m ! k = ws" by (auto simp: in_set_conv_nth)
  have "ws_id ws = fst b" using ws(2) by (auto simp: body_def)
  with idx_of_ws_nth [OF assms(1) k(1)] k ws show ?thesis by auto
qed

lemma in_bodies:
  assumes "k < length (workspaces m)" "has_windows_or_name (workspaces m ! k)"
  shows "body (workspaces m ! k) \<in># bodies m"
  using assms by (auto simp: bodies_def bodies_of_def cores_def intro!: image_eqI [of _ body "core (workspaces m ! k)"])

lemma body_eqD:
  assumes "body a = body b"
  shows "ws_id a = ws_id b" "ws_mset a = ws_mset b" "ws_windows a = ws_windows b"
    "target_valid tg a = target_valid tg b" "ws_scrolling a = ws_scrolling b"
  using body_idD [OF assms] by (cases tg; simp add: ws_mset_windows)+

lemma unhide_if_returns:
  assumes ok: "content_ok cv m" and sh: "shape t m" and i: "idx < length (workspaces m)"
  shows "returns (unhide_if wanted idx m) (\<lambda>(k, m'). rearranged cv m m' \<and> shape t m' \<and>
           k < length (workspaces m') \<and> body (workspaces m' ! k) = body (workspaces m ! idx) \<and>
           (wanted \<longrightarrow> k < length (vis m')) \<and>
           (\<not> wanted \<or> \<not> ws_hidden (workspaces m ! idx) \<longrightarrow> k = idx \<and> m' = m))"
proof (cases "wanted \<and> ws_hidden (workspaces m ! idx)")
  case False
  note l = looseD [OF shape_loose [OF sh]]
  show ?thesis using False i sh rearranged_refl [OF ok] hid_nth [OF l(1) i]
    by (auto simp: unhide_if_def)
next
  case True
  let ?i = "ws_id (workspaces m ! idx)"
  have at: "idx_of_ws ?i m = Some idx" by (rule idx_of_ws_nth [OF ok i])
  from unhide_workspace_by_id_returns [OF ok shape_loose [OF sh], of ?i True] at True
  obtain f m' where m': "unhide_workspace_by_id ?i True m = Some (Some f, m')" "f < length (vis m')"
    "idx_of_ws ?i m' = Some f" "rearranged cv m m'" "shape True m'"
    by (auto elim!: returnsE)
  have ok': "content_ok cv m'" using m'(4) by (simp add: rearranged_def)
  have "has_windows_or_name (workspaces m ! idx)"
    using fits_of [OF ok i] True by (simp add: fits_def named_not_blank)
  from in_bodies [OF i this] have "body (workspaces m ! idx) \<in># bodies m'"
    using m'(4) by (simp add: rearranged_def)
  from find_body [OF ok' this] m'(3) have "f < length (workspaces m') \<and> body (workspaces m' ! f) = body (workspaces m ! idx)"
    by (auto simp: body_def)
  with True i m' shape_strengthen [OF m'(5)] show ?thesis by (simp add: unhide_if_def)
qed

text \<open>The monitor took in these windows, in the workspace with that id\<close>

definition took_in where
  "took_in cv t new Q i m m' \<longleftrightarrow>
     content_ok cv m' \<and> shape t m' \<and> steady m m' \<and> mon_mset m' = new + mon_mset m \<and>
     (\<exists>b \<in># bodies m'. fst b = i \<and> new \<subseteq># body_mset b \<and> Q b)"

lemma took_inI:
  assumes "content_ok cv m'" "shape t m'" "steady m m'" "mon_mset m' = new + mon_mset m"
    and "k < length (workspaces m')" "ws_id (workspaces m' ! k) = i" "new \<noteq> {#}" "new \<subseteq># ws_mset (workspaces m' ! k)"
    "Q (body (workspaces m' ! k))"
  shows "took_in cv t new Q i m m'"
proof -
  have "has_windows_or_name (workspaces m' ! k)" using assms(7,8) by (auto simp: has_windows_or_name_iff)
  from in_bodies [OF assms(5) this] assms show ?thesis
    by (auto simp: took_in_def body_def intro!: bexI [of _ "body (workspaces m' ! k)"] simp flip: body_mset_body)
qed

lemma took_in_rearranged:
  assumes "took_in cv t new Q i m m1" "rearranged cv m1 m2" "shape t' m2"
  shows "took_in cv t' new Q i m m2"
  using assms rearranged_windows [OF assms(2)] steady_trans [of m m1 m2]
  by (auto simp: took_in_def rearranged_def)

lemma add_and_activate:
  assumes ok: "content_ok cv m" and sh: "shape t m" and i: "idx < length (workspaces m)"
    and f: "\<And>ws. body ws = body (workspaces m ! idx) \<Longrightarrow> ws_ok cv ws \<Longrightarrow> returns (f ws) (\<lambda>ws'. ws_gains cv new ws ws' \<and> Q (body ws'))"
    and new: "new \<noteq> {#}" "distinct_mset (new + mon_mset m)" and act: "activate \<Longrightarrow> wanted"
  shows "returns (do {
           (idx, m) \<leftarrow> unhide_if wanted idx m;
           (idx, m) \<leftarrow> add_to_workspace idx f m;
           if activate then activate_workspace idx m else Some m
         }) (\<lambda>m'. took_in cv t new Q (ws_id (workspaces m ! idx)) m m' \<and>
              (activate \<longrightarrow> active_id m' = ws_id (workspaces m ! idx)) \<and>
              (\<not> activate \<and> \<not> wanted \<longrightarrow> active_id m' = active_id m))"
proof -
  let ?id = "ws_id (workspaces m ! idx)"
  from unhide_if_returns [OF ok sh i, of wanted] obtain k1 m1 where
    m1: "unhide_if wanted idx m = Some (k1, m1)" "rearranged cv m m1" "shape t m1" "k1 < length (workspaces m1)"
      "body (workspaces m1 ! k1) = body (workspaces m ! idx)" "wanted \<longrightarrow> k1 < length (vis m1)"
      "\<not> wanted \<longrightarrow> m1 = m"
    by (auto elim!: returnsE)
  have ok1: "content_ok cv m1" using m1(2) by (simp add: rearranged_def)
  have "ws_ok cv (workspaces m1 ! k1)" using fits_of [OF ok1 m1(4)] by (simp add: fits_def)
  from f [OF m1(5) this] have f1: "returns (f (workspaces m1 ! k1)) (\<lambda>ws'. ws_gains cv new (workspaces m1 ! k1) ws' \<and> Q (body ws'))" .
  have mm: "mon_mset m1 = mon_mset m" by (rule rearranged_windows [OF m1(2)])
  from add_to_workspace_returns [OF ok1 m1(3,4) _ new(1), of f Q] f1 new(2) mm obtain k2 m2 where
    m2: "add_to_workspace k1 f m1 = Some (k2, m2)" "content_ok cv m2" "shape t m2" "steady m1 m2"
      "mon_mset m2 = new + mon_mset m" "k2 < length (workspaces m2)"
      "k1 < length (vis m1) \<longrightarrow> k2 < length (vis m2)" "ws_id (workspaces m2 ! k2) = ws_id (workspaces m1 ! k1)"
      "ws_mset (workspaces m2 ! k2) = new + ws_mset (workspaces m1 ! k1)" "active_id m2 = active_id m1"
      "Q (body (workspaces m2 ! k2))"
    by (auto elim!: returnsE)
  have id: "ws_id (workspaces m2 ! k2) = ?id" using m2(8) body_eqD(1) [OF m1(5)] by simp
  have st: "steady m m2" using m1(2) m2(4) steady_trans by (auto simp: rearranged_def)
  have tk: "took_in cv t new Q ?id m m2"
    by (rule took_inI [where Q = Q, OF m2(2,3) st m2(5,6) id new(1)]) (simp_all add: m2(9,11))
  show ?thesis
  proof (cases activate)
    case False
    with m1(1,7) m2(1,10) tk show ?thesis by simp
  next
    case True
    then have k2: "k2 < length (vis m2)" using act m1(6) m2(7) by simp
    note at = nth_vis(1) [OF looseD(1) [OF shape_loose [OF m2(3)]] k2]
    have "has_windows_or_name (vis m2 ! k2)"
      using m2(9) new(1) at by (simp add: has_windows_or_name_iff)
    with activate_workspace_returns [OF m2(2,3) k2] obtain m3 where
      m3: "activate_workspace k2 m2 = Some m3" "rearranged cv m2 m3" "shape t m3" "active_id m3 = ?id"
      using at id by (auto elim!: returnsE)
    with True m1(1) m2(1) took_in_rearranged [OF tk m3(2,3)] show ?thesis by simp
  qed
qed

lemma ws_add_column_holds:
  assumes "ws_ok cv ws" "col_ok c"
  shows "returns (ws_add_column c activate ws) (\<lambda>ws'. c \<in> set (columns (ws_scrolling ws')))"
  using add_column_returns [OF ws_okD(1) [OF assms(1)] assms(2) add_column_index_None [OF ws_okD(1) [OF assms(1)]],
      of activate]
  by (auto simp: ws_add_column_def on_scrolling_def focus_tiling_if_def elim!: returns_mono)

lemma mon_add_column_returns:
  assumes "content_ok cv m" "shape t m" "idx < length (workspaces m)"
    and "col_ok c" "distinct (wins c)" "set (wins c) \<inter> set_mset (mon_mset m) = {}"
  shows "returns (mon_add_column idx c activate m) (\<lambda>m'. took_in cv t (mset (wins c)) (\<lambda>(_, _, s, _). c \<in> set (columns s)) (ws_id (workspaces m ! idx)) m m' \<and>
           (activate \<longrightarrow> active_id m' = ws_id (workspaces m ! idx)) \<and>
           (\<not> activate \<longrightarrow> active_id m' = active_id m))"
proof -
  have ne: "mset (wins c) \<noteq> {#}" using col_okD(1) [OF assms(4)] by (simp add: wins_def)
  have "distinct_mset (mset (wins c) + mon_mset m)"
    using assms(5,6) mon_mset_distinct [OF assms(1)] by (simp add: distinct_mset_union)
  note d = this
  let ?Q = "\<lambda>(_, _, s, _). c \<in> set (columns s)"
  have "returns (ws_add_column c activate ws) (\<lambda>ws'. ws_gains cv (mset (wins c)) ws ws' \<and> ?Q (body ws'))"
    if "body ws = body (workspaces m ! idx)" "ws_ok cv ws" for ws
  proof -
    have "set (ws_windows ws) = set_mset (ws_mset (workspaces m ! idx))"
      using body_eqD(2) [OF that(1)] by (metis ws_mset_windows set_mset_mset)
    also have "\<dots> \<subseteq> set_mset (mon_mset m)" using ws_mset_within [OF assms(3)] by (rule set_mset_mono)
    finally have "set (wins c) \<inter> set (ws_windows ws) = {}" using assms(6) by blast
    from returns_conj [OF ws_add_column_returns [OF that(2) assms(4,5) this] ws_add_column_holds [OF that(2) assms(4)]]
    show ?thesis by (rule returns_mono) (simp add: body_def)
  qed
  from add_and_activate [OF assms(1-3) this ne d, of activate activate] show ?thesis
    by (simp add: mon_add_column_def)
qed

lemma map_smart_value: "returns (map_smart a (Some False)) (\<lambda>_. True)"
  by (cases a) simp_all

lemma mon_add_tile_returns:
  assumes cv: "parents_acyclic cv" and ok: "content_ok cv m" "shape t m"
    and target: "resolve_add_window_target target m = Some (idx, tg)" "idx < length (workspaces m)"
      "target_valid tg (workspaces m ! idx)" and fresh: "win new_tile \<notin># mon_mset m"
  shows "returns (mon_add_tile cv new_tile target activate allow width full fl force m) (\<lambda>m'.
           took_in cv t {#win new_tile#} (\<lambda>_. True) (ws_id (workspaces m ! idx)) m m' \<and>
           (allow \<and> activate = ActivateYes \<longrightarrow> active_id m' = ws_id (workspaces m ! idx)))"
proof -
  obtain wants where wants: "map_smart activate (Some False) = Some wants"
    using map_smart_value [of activate] by (auto elim!: returnsE)
  have "returns (ws_add_tile cv new_tile tg activate width full fl ws) (\<lambda>ws'. ws_gains cv {#win new_tile#} ws ws' \<and> True)"
    if "body ws = body (workspaces m ! idx)" "ws_ok cv ws" for ws
  proof -
    have "set (ws_windows ws) = set_mset (ws_mset (workspaces m ! idx))"
      using body_eqD(2) [OF that(1)] by (metis ws_mset_windows set_mset_mset)
    also have "\<dots> \<subseteq> set_mset (mon_mset m)" using ws_mset_within [OF target(2)] by (rule set_mset_mono)
    finally have "win new_tile \<notin> set (ws_windows ws)" using fresh by blast
    moreover have "target_valid tg ws" using target(3) body_eqD(4) [OF that(1)] by simp
    ultimately show ?thesis using ws_add_tile_returns [OF cv that(2)] by simp
  qed
  moreover have "distinct_mset ({#win new_tile#} + mon_mset m)"
    using fresh mon_mset_distinct [OF ok(1)] by simp
  ultimately have "returns (do {
           (idx, m) \<leftarrow> unhide_if (force \<or> allow \<and> wants) idx m;
           (idx, m) \<leftarrow> add_to_workspace idx (ws_add_tile cv new_tile tg activate width full fl) m;
           if allow \<and> wants then activate_workspace idx m else Some m
         }) (\<lambda>m'. took_in cv t {#win new_tile#} (\<lambda>_. True) (ws_id (workspaces m ! idx)) m m' \<and>
              (allow \<and> wants \<longrightarrow> active_id m' = ws_id (workspaces m ! idx)) \<and>
              (\<not> (allow \<and> wants) \<and> \<not> (force \<or> allow \<and> wants) \<longrightarrow> active_id m' = active_id m))"
    by (intro add_and_activate [OF ok target(2)]) simp_all
  moreover have "activate = ActivateYes \<Longrightarrow> wants" using wants by simp
  ultimately show ?thesis
    using target(1) wants by (auto simp: mon_add_tile_def Let_def elim!: returns_mono)
qed

end
