(* ===== verification/MonitorTravel.thy ===== *)
theory MonitorTravel
  imports MonitorSteps
begin

text \<open>
  Windows and columns moving between the workspaces of a monitor: they arrive, nothing else
  is lost, and the clean-up afterwards leaves the invariant.
\<close>

section \<open>Leaving a workspace\<close>

lemma tidied_rearranged:
  assumes "content_ok cv m" "tidied m m'"
  shows "rearranged cv m m'" "shape True m'"
proof -
  have t: "places_only m m'" "cores m' \<subseteq># cores m" "bodies m' = bodies m" "shape True m'"
    using assms(2) by (simp_all add: tidied_def)
  note p = places_onlyD [OF t(1)]
  show "rearranged cv m m'"
    by (rule rearrangedI [OF assms(1) p(1) t(3)])
      (use cores_ok_subset [OF content_okD [OF assms(1)] t(2)] p in simp)
  show "shape True m'" by (rule t(4))
qed

definition settle :: "monitor \<Rightarrow> monitor option" where
  "settle m = (if workspace_switch m = None then clean_up_workspaces m else Some m)"

lemma settle_returns:
  assumes "content_ok cv m" "shape False m"
  shows "returns (settle m) (\<lambda>m'. rearranged cv m m' \<and> shape True m' \<and>
           (has_windows_or_name (workspaces m ! active_workspace_idx m) \<longrightarrow> active_id m' = active_id m))"
proof (cases "workspace_switch m = None")
  case True
  note l = looseD [OF shape_loose [OF assms(2)]]
  have same: "active_id m' = active_id m"
    if "tidied m m'" "has_windows_or_name (workspaces m ! active_workspace_idx m)" for m'
  proof -
    have "vis m' ! active_workspace_idx m' = vis m ! active_workspace_idx m"
      using that nth_vis(1) [OF l(1,2)] by (auto simp: tidied_def)
    then show ?thesis
      using active_id_vis [OF shape_loose [OF assms(2)]] active_id_vis [OF shape_loose [OF tidied_shape [OF that(1)]]]
      by simp
  qed
  show ?thesis
    using True clean_up_workspaces_returns [OF shape_loose [OF assms(2)] True] tidied_rearranged [OF assms(1)] same
    by (auto simp: settle_def elim!: returns_mono)
next
  case False
  with assms shape_busy [OF assms(2)] rearranged_refl show ?thesis by (auto simp: settle_def)
qed

lemma has_gone:
  assumes "ws_loses cv gone ws ws'" "has_windows_or_name ws'"
  shows "has_windows_or_name ws"
  using assms ws_frameD(2) [of ws ws'] by (auto simp: ws_loses_def has_windows_or_name_iff)

lemma idx_of_ws_map: "idx_of_ws j m = position (\<lambda>i. i = j) (map ws_id (workspaces m))"
proof -
  have "position (\<lambda>ws. ws_id ws = j) xs = position (\<lambda>i. i = j) (map ws_id xs)" for xs :: "workspace list"
    by (induction xs) auto
  then show ?thesis by (simp add: idx_of_ws_def)
qed

lemma lose_from:
  assumes ok: "content_ok cv m" and sh: "shape t m" and s: "s < length (workspaces m)"
    and l: "ws_loses cv gone (workspaces m ! s) ws"
  shows "content_ok cv (set_workspace s ws m)" "shape False (set_workspace s ws m)"
    "mon_mset m = gone + mon_mset (set_workspace s ws m)"
    "i \<noteq> s \<Longrightarrow> workspaces (set_workspace s ws m) ! i = workspaces m ! i"
    "idx_of_ws j (set_workspace s ws m) = idx_of_ws j m"
    "active_id (set_workspace s ws m) = active_id m"
    "s = active_workspace_idx m \<Longrightarrow> shape t (set_workspace s ws m)"
proof -
  let ?w = "workspaces m ! s"
  have k: "ws_ok cv ws" "ws_mset ?w = gone + ws_mset ws" "alike ?w ws"
    using l alike_frame by (simp_all add: ws_loses_def)
  obtain R where R: "mon_mset m = ws_mset ?w + R"
    using ws_mset_within [OF s] by (metis subset_mset.add_diff_inverse)
  have e: "ws_mset ws + (mon_mset m - ws_mset ?w) = ws_mset ws + R" by (simp add: R)
  have "mon_mset m = gone + (ws_mset ws + R)" using R k(2) by (simp add: add.assoc)
  then have d: "distinct_mset (ws_mset ws + (mon_mset m - ws_mset ?w))"
    using mon_mset_distinct [OF ok] unfolding e by (metis add.commute distinct_mset_mono)
  note c = content_set [OF ok s k(1,3) d]
  show "content_ok cv (set_workspace s ws m)" by (rule c(1))
  show "mon_mset m = gone + mon_mset (set_workspace s ws m)"
    using \<open>mon_mset m = gone + (ws_mset ws + R)\<close> c(2) e by simp
  show "shape False (set_workspace s ws m)"
    by (rule shape_set [OF shape_weaken [OF sh] s]) (use k(3) has_gone [OF l] in \<open>simp_all add: alike_def\<close>)
  show "s = active_workspace_idx m \<Longrightarrow> shape t (set_workspace s ws m)"
    by (rule shape_set [OF sh s]) (use k(3) has_gone [OF l] in \<open>simp_all add: alike_def\<close>)
  show "i \<noteq> s \<Longrightarrow> workspaces (set_workspace s ws m) ! i = workspaces m ! i" by simp
  have id: "ws_id ws = ws_id ?w" using k(3) by (simp add: alike_def)
  then have "map ws_id ((workspaces m)[s := ws]) = map ws_id (workspaces m)"
    by (metis list_update_id map_update)
  then show "idx_of_ws j (set_workspace s ws m) = idx_of_ws j m"
    by (simp only: idx_of_ws_map set_workspace_fields)
  show "active_id (set_workspace s ws m) = active_id m"
    using id s by (cases "active_workspace_idx m = s") (simp_all add: active_id_def)
qed

section \<open>Moving a window\<close>

lemma visible_end:
  assumes "shape t m"
  shows "returns (clamp_target_workspace_idx idx hidden m) (\<lambda>k. k < length (workspaces m) \<and>
           (\<not> hidden \<longrightarrow> k < length (vis m)) \<and> (idx < length (vis m) \<longrightarrow> k = idx))"
proof -
  note l = looseD [OF shape_loose [OF assms]]
  have len: "length (workspaces m) = length (vis m) + length (hid m)" using arg_cong [OF l(1), of length] by simp
  have "0 < length (vis m)" using l(3) by simp
  then have "1 \<le> length (vis m)" by linarith
  then show ?thesis using visible_count [OF l(1)] len
    by (auto simp: clamp_target_workspace_idx_def)
qed

lemma active_workspace_Some:
  assumes "shape t m"
  shows "active_workspace m = Some (workspaces m ! active_workspace_idx m)"
    "active_workspace_idx m < length (workspaces m)"
  using nth_vis [OF looseD(1,2) [OF shape_loose [OF assms]]] by (simp_all add: active_workspace_def)

lemma ws_ok_of: "content_ok cv m \<Longrightarrow> i < length (workspaces m) \<Longrightarrow> ws_ok cv (workspaces m ! i)"
  using fits_of [of cv m i] by (simp add: fits_def)

lemma mon_active_window_returns:
  assumes "content_ok cv m" "shape t m"
  shows "returns (mon_active_window m) (\<lambda>_. True)"
proof -
  note a = active_workspace_Some [OF assms(2)]
  have "returns (ws_active_window (workspaces m ! active_workspace_idx m)) (\<lambda>_. True)"
    by (rule returns_mono [OF ws_active_window_returns [OF ws_ok_of [OF assms(1) a(2)]]]) simp
  then show ?thesis using a by (auto simp: mon_active_window_def split: option.splits)
qed

lemma ws_has_window_iff: "ws_has_window w ws \<longleftrightarrow> w \<in># ws_mset ws"
  by (simp add: ws_has_window_def ws_mset_windows)

lemma rearranged_body: "rearranged cv m m' \<Longrightarrow> b \<in># bodies m \<Longrightarrow> b \<in># bodies m'"
  by (simp add: rearranged_def)

text \<open>
  The source is the workspace of the window, or the active one; the window ends up in the
  workspace the clamped index stands for
\<close>

definition move_source :: "win_id option \<Rightarrow> monitor \<Rightarrow> nat option" where
  "move_source window m =
     (case window of
        Some w \<Rightarrow> position (ws_has_window w) (workspaces m)
      | None \<Rightarrow> Some (active_workspace_idx m))"

lemma move_to_workspace_returns:
  assumes cv: "parents_acyclic cv" and ok: "content_ok cv m" "shape True m"
    and src: "move_source window m = Some s" "s < length (workspaces m)"
  shows "returns (move_to_workspace cv window idx activate hidden m) (\<lambda>m'. mon_keeps cv m m' \<and> shape True m' \<and>
           (\<forall>w. window = Some w \<longrightarrow> returns (clamp_target_workspace_idx idx hidden m) (\<lambda>k. k \<noteq> s \<longrightarrow>
              (\<exists>b \<in># bodies m'. fst b = ws_id (workspaces m ! k) \<and> w \<in># body_mset b) \<and>
              (activate = ActivateYes \<longrightarrow> active_id m' = ws_id (workspaces m ! k)))))"
proof -
  from visible_end [OF ok(2), of idx hidden] obtain k where
    k: "clamp_target_workspace_idx idx hidden m = Some k" "k < length (workspaces m)"
    by (auto elim!: returnsE)
  show ?thesis
  proof (cases "k = s")
    case True
    with k src ok mon_keeps_refl [OF ok(1)] show ?thesis
      by (simp add: move_to_workspace_def move_source_def [symmetric])
  next
    case False
    let ?w = "workspaces m ! s" and ?target = "workspaces m ! k"
    have "returns (map_smart activate (case window of None \<Rightarrow> Some True
        | Some w \<Rightarrow> do { a \<leftarrow> mon_active_window m; Some (a = Some w) })) (\<lambda>_. True)"
      by (rule map_smart_returns) (use mon_active_window_returns [OF ok] in \<open>auto split: option.splits elim!: returns_mono\<close>)
    then obtain act where act: "map_smart activate (case window of None \<Rightarrow> Some True
        | Some w \<Rightarrow> do { a \<leftarrow> mon_active_window m; Some (a = Some w) }) = Some act"
      by (auto elim!: returnsE)
    have okw: "ws_ok cv ?w" by (rule ws_ok_of [OF ok(1) src(2)])
    have "returns (case window of Some w \<Rightarrow> Some (Some w) | None \<Rightarrow> ws_active_window ?w)
        (\<lambda>found. (case found of Some w \<Rightarrow> w \<in> set (ws_windows ?w) | None \<Rightarrow> window = None) \<and>
                 (\<forall>w. window = Some w \<longrightarrow> found = Some w))"
    proof (cases window)
      case None
      then show ?thesis using ws_active_window_returns [OF okw]
        by (auto simp: ws_windows_def elim!: returns_mono split: option.splits if_splits)
    next
      case (Some w)
      with src(1) show ?thesis
        using position_SomeD [of "ws_has_window w" "workspaces m" s] by (simp add: move_source_def ws_has_window_def)
    qed
    then obtain found where found: "(case window of Some w \<Rightarrow> Some (Some w) | None \<Rightarrow> ws_active_window ?w) = Some found"
      "case found of Some w \<Rightarrow> w \<in> set (ws_windows ?w) | None \<Rightarrow> window = None" "\<forall>w. window = Some w \<longrightarrow> found = Some w"
      by (auto elim!: returnsE)
    show ?thesis
    proof (cases found)
      case None
      then have "move_to_workspace cv window idx activate hidden m = Some m"
        using False k src act found(1)
        by (simp add: move_to_workspace_def move_source_def [symmetric])
      with None found(2) ok mon_keeps_refl [OF ok(1)] show ?thesis by simp
    next
      case (Some w)
      with found(2) have w: "w \<in> set (ws_windows ?w)" by simp
      from ws_remove_tile_returns [OF okw w] obtain r ws where
        r: "ws_remove_tile cv w ?w = Some (r, ws)" "ws_loses cv {#w#} ?w ws" "win (rt_tile r) = w"
        by (auto elim!: returnsE)
      define m1 where "m1 = set_workspace s ws m"
      note lf = lose_from [OF ok src(2) r(2), folded m1_def]
      have k1: "k < length (workspaces m1)" "workspaces m1 ! k = ?target"
        using k(2) lf(4) [of k] False by (simp_all add: m1_def)
      have at: "idx_of_ws (ws_id ?target) m1 = Some k" using lf(5) idx_of_ws_nth [OF ok(1) k(2)] by simp
      have res: "resolve_add_window_target (MonWorkspace (ws_id ?target) None) m1 = Some (k, Auto)"
        using at by (simp add: resolve_add_window_target_def)
      have fresh: "win (rt_tile r) \<notin># mon_mset m1"
        using mon_mset_distinct [OF ok(1)] lf(3) r(3) by simp
      from mon_add_tile_returns [OF cv lf(1,2) res k1(1) _ fresh, of "if act then ActivateYes else ActivateNo" True
          "rt_width r" "rt_is_full_width r" "rt_is_floating r" act]
      obtain m2 where m2: "mon_add_tile cv (rt_tile r) (MonWorkspace (ws_id ?target) None)
            (if act then ActivateYes else ActivateNo) True (rt_width r) (rt_is_full_width r) (rt_is_floating r) act m1 = Some m2"
          "took_in cv False {#w#} (\<lambda>_. True) (ws_id ?target) m1 m2" "act \<longrightarrow> active_id m2 = ws_id ?target"
        by (cases act) (auto simp: r(3) k1(2) elim!: returnsE)
      have t2: "content_ok cv m2" "shape False m2" "steady m1 m2" "mon_mset m2 = mon_mset m"
        using m2(2) lf(3) by (simp_all add: took_in_def)
      from m2(2) obtain b where b: "b \<in># bodies m2" "fst b = ws_id ?target" "w \<in># body_mset b"
        by (auto simp: took_in_def)
      from settle_returns [OF t2(1,2)] obtain m3 where
        m3: "settle m2 = Some m3" "rearranged cv m2 m3" "shape True m3"
          "has_windows_or_name (workspaces m2 ! active_workspace_idx m2) \<longrightarrow> active_id m3 = active_id m2"
        by (auto elim!: returnsE)
      have c3: "content_ok cv m3" using m3(2) by (simp add: rearranged_def)
      have b3: "b \<in># bodies m3" by (rule rearranged_body [OF m3(2) b(1)])
      from find_body [OF c3 b3] obtain j where
        j: "idx_of_ws (ws_id ?target) m3 = Some j" "j < length (workspaces m3)" "body (workspaces m3 ! j) = b"
        using b(2) by auto
      have hw: "ws_has_window w (workspaces m3 ! j)"
        using b(3) j(3) body_mset_body [of "workspaces m3 ! j"] by (simp add: ws_has_window_iff)
      have w': "ws_has_window w ?w" using w by (simp add: ws_has_window_iff ws_mset_windows)
      have run: "move_to_workspace cv window idx activate hidden m = Some m3"
        using False k src act found(1) Some w' r(1) m2(1) m3(1) j(1,2) hw
        by (simp add: move_to_workspace_def move_source_def [symmetric] m1_def settle_def [symmetric])
      have keeps: "mon_keeps cv m m3"
        using rearranged_keeps [OF m3(2)] t2(3,4) steady_trans [of m m1 m2] steady_trans [of m m2 m3]
        by (simp add: mon_keeps_def m1_def)
      have act3: "active_id m3 = ws_id ?target" if "activate = ActivateYes"
      proof -
        have a2: "active_id m2 = ws_id ?target" using m2(3) act that by simp
        have "active_workspace_idx m2 < length (workspaces m2)"
          using active_workspace_Some(2) [OF t2(2)] .
        from body_by_id(2) [OF t2(1) b(1) this] a2 b(2) have "has_windows_or_name (workspaces m2 ! active_workspace_idx m2)"
          by (simp add: active_id_def)
        with m3(4) a2 show ?thesis by simp
      qed
      show ?thesis using run keeps m3(3) b3 b(2,3) k(1) found(3) Some act3 by auto
    qed
  qed
qed

lemma vis_pos: "shape t m \<Longrightarrow> 1 \<le> length (vis m) \<and> 1 \<le> length (workspaces m)"
  using looseD(1,3) [OF shape_loose, of t m] by (metis (no_types, lifting) One_nat_def Suc_leI append_is_Nil_conv length_greater_0_conv)

text \<open>The moved column arrives as it was\<close>

lemma move_column_to_workspace_returns:
  assumes cv: "parents_acyclic cv" and ok: "content_ok cv m" "shape True m"
  shows "returns (move_column_to_workspace cv idx activate hidden m) (\<lambda>m'. mon_keeps cv m m' \<and> shape True m')"
proof -
  let ?s = "active_workspace_idx m"
  let ?w = "workspaces m ! ?s"
  note a = active_workspace_Some [OF ok(2)]
  note refl = mon_keeps_refl [OF ok(1)]
  have okw: "ws_ok cv ?w" by (rule ws_ok_of [OF ok(1) a(2)])
  from visible_end [OF ok(2), of idx hidden] obtain k where
    k: "clamp_target_workspace_idx idx hidden m = Some k" "k < length (workspaces m)"
    by (auto elim!: returnsE)
  consider "k = ?s" | "k \<noteq> ?s" "floating_active_get ?w" | "k \<noteq> ?s" "\<not> floating_active_get ?w" "columns (ws_scrolling ?w) = []"
    | "k \<noteq> ?s" "\<not> floating_active_get ?w" "columns (ws_scrolling ?w) \<noteq> []" by blast
  then show ?thesis
  proof cases
    case 1
    with k ok refl show ?thesis by (simp add: move_column_to_workspace_def)
  next
    case 2
    have "returns (move_to_workspace cv None k (if activate then ActivateSmart else ActivateNo) hidden m)
        (\<lambda>m'. mon_keeps cv m m' \<and> shape True m')"
      by (rule returns_mono [OF move_to_workspace_returns [OF cv ok _ a(2)]]) (auto simp: move_source_def)
    with 2 k a show ?thesis by (simp add: move_column_to_workspace_def)
  next
    case 3
    with k a ok refl show ?thesis by (simp add: move_column_to_workspace_def)
  next
    case 4
    have "ws_remove_active_column ?w \<noteq> Some (None, ?w)"
      using 4 remove_active_column_win_mset [OF ws_okD(1) [OF okw]]
      by (auto simp: ws_remove_active_column_def elim!: returnsE split: option.splits)
    with ws_remove_active_column_returns [OF okw] obtain c ws where
      r: "ws_remove_active_column ?w = Some (Some c, ws)" "col_ok c" "distinct (wins c)"
        "ws_loses cv (mset (wins c)) ?w ws"
      by (auto elim!: returnsE split: option.splits)
    define m1 where "m1 = set_workspace ?s ws m"
    note lf = lose_from [OF ok a(2) r(4), folded m1_def]
    have k1: "k < length (workspaces m1)" "workspaces m1 ! k = workspaces m ! k"
      using k(2) lf(4) [of k] 4(1) by (simp_all add: m1_def)
    have fresh: "set (wins c) \<inter> set_mset (mon_mset m1) = {}"
      using mon_mset_distinct [OF ok(1)] unfolding lf(3) distinct_mset_union by simp
    have sh1: "shape True m1" using lf(7) by simp
    from mon_add_column_returns [OF lf(1) sh1 k1(1) r(2,3) fresh, of activate] obtain m2 where
      m2: "mon_add_column k c activate m1 = Some m2"
        "took_in cv True (mset (wins c)) (\<lambda>(_, _, s, _). c \<in> set (columns s)) (ws_id (workspaces m ! k)) m1 m2"
      by (auto simp: k1(2) elim!: returnsE)
    have t2: "content_ok cv m2" "shape True m2" "steady m1 m2" "mon_mset m2 = mon_mset m"
      using m2(2) lf(3) by (simp_all add: took_in_def)
    from m2(2) obtain b where b: "b \<in># bodies m2" "fst b = ws_id (workspaces m ! k)"
      "(\<lambda>(_, _, s, _). c \<in> set (columns s)) b"
      by (auto simp: took_in_def)
    from find_body [OF t2(1) b(1)] obtain j where
      j: "idx_of_ws (ws_id (workspaces m ! k)) m2 = Some j" "j < length (workspaces m2)" "body (workspaces m2 ! j) = b"
      using b(2) by auto
    have "c \<in> set (columns (ws_scrolling (workspaces m2 ! j)))"
      using b(3) unfolding j(3) [symmetric] by (simp add: body_def)
    then have "list_ex (\<lambda>c'. map win (tiles c') = map win (tiles c)) (columns (ws_scrolling (workspaces m2 ! j)))"
      by (auto simp: list_ex_iff)
    then have run: "move_column_to_workspace cv idx activate hidden m = Some m2"
      using 4 k(1) a r(1) k1 m2(1) j(1,2) by (simp add: move_column_to_workspace_def m1_def)
    have "mon_keeps cv m m2"
      using t2 steady_trans [of m m1 m2] by (simp add: mon_keeps_def m1_def)
    with run t2(2) show ?thesis by simp
  qed
qed

lemma move_up_down_returns:
  assumes cv: "parents_acyclic cv" and ok: "content_ok cv m" "shape True m"
  shows "returns (move_to_workspace_up cv activate m) (\<lambda>m'. mon_keeps cv m m' \<and> shape True m')"
    "returns (move_to_workspace_down cv activate m) (\<lambda>m'. mon_keeps cv m m' \<and> shape True m')"
    "returns (move_column_to_workspace_up cv b m) (\<lambda>m'. mon_keeps cv m m' \<and> shape True m')"
    "returns (move_column_to_workspace_down cv b m) (\<lambda>m'. mon_keeps cv m m' \<and> shape True m')"
proof -
  have mv: "returns (move_to_workspace cv None k activate False m) (\<lambda>m'. mon_keeps cv m m' \<and> shape True m')" for k
    by (rule returns_mono [OF move_to_workspace_returns [OF cv ok _ active_workspace_Some(2) [OF ok(2)]]])
      (auto simp: move_source_def)
  note n = visible_count [OF looseD(1) [OF shape_loose [OF ok(2)]]] vis_pos [OF ok(2)]
  show "returns (move_to_workspace_up cv activate m) (\<lambda>m'. mon_keeps cv m m' \<and> shape True m')"
    "returns (move_to_workspace_down cv activate m) (\<lambda>m'. mon_keeps cv m m' \<and> shape True m')"
    "returns (move_column_to_workspace_up cv b m) (\<lambda>m'. mon_keeps cv m m' \<and> shape True m')"
    "returns (move_column_to_workspace_down cv b m) (\<lambda>m'. mon_keeps cv m m' \<and> shape True m')"
    using mv n move_column_to_workspace_returns [OF cv ok]
    by (simp_all add: move_to_workspace_up_def move_to_workspace_down_def move_column_to_workspace_up_def
        move_column_to_workspace_down_def)
qed

section \<open>Operations of the active workspace\<close>

lemma on_active_returns:
  assumes ok: "content_ok cv m" "shape t m"
    and f: "\<And>ws. ws_ok cv ws \<Longrightarrow> returns (f ws) (ws_keeps cv ws)"
  shows "returns (on_active_workspace f m) (\<lambda>m'. mon_keeps cv m m' \<and> shape t m')"
  unfolding on_active_workspace_def
  using active_workspace_Some(2) [OF ok(2)] ws_ok_of [OF ok(1)]
  by (intro on_workspace_keeps [OF ok]) (auto intro: f)

lemma active_flag_returns:
  assumes ok: "content_ok cv m" "shape t m"
    and f: "\<And>ws. ws_ok cv ws \<Longrightarrow> returns (f ws) (\<lambda>(ws', b). ws_keeps cv ws ws')"
  shows "returns (active_workspace_flag f m) (\<lambda>(m', b). mon_keeps cv m m' \<and> shape t m')"
proof -
  note a = active_workspace_Some [OF ok(2)]
  from f [OF ws_ok_of [OF ok(1) a(2)]] obtain ws' b where
    r: "f (workspaces m ! active_workspace_idx m) = Some (ws', b)" "ws_keeps cv (workspaces m ! active_workspace_idx m) ws'"
    by (auto elim!: returnsE)
  from set_workspace_keeps [OF ok a(2) r(2)] a r(1) show ?thesis
    by (simp add: active_workspace_flag_def)
qed

end
