(* ===== verification/MonitorSwitch.thy ===== *)
theory MonitorSwitch
  imports MonitorTravel
begin

text \<open>
  Switching between the workspaces of a monitor and reordering them, gestures, names and
  configuration changes.
\<close>

declare skip_hidden_down.simps [simp del]

section \<open>Switching\<close>

lemma skip_hidden_up_visible: "\<not> ws_hidden (wss ! i) \<Longrightarrow> skip_hidden_up wss i = i"
  by (cases i) simp_all

lemma skip_hidden_down_le: "i \<le> k \<Longrightarrow> skip_hidden_down wss k i \<le> k"
  by (induction wss k i rule: skip_hidden_down.induct)
    (subst skip_hidden_down.simps, simp add: Suc_le_eq)

lemma skip_hidden_down_ge: "i \<le> skip_hidden_down wss k i"
proof (induction wss k i rule: skip_hidden_down.induct)
  case (1 wss k i)
  then show ?case by (subst skip_hidden_down.simps) auto
qed

lemma skip_hidden_down_visible: "\<not> ws_hidden (wss ! i) \<Longrightarrow> skip_hidden_down wss k i = i"
  by (subst skip_hidden_down.simps) simp

lemma dnd_range:
  assumes "shape t m" "dnd_gesture m = Some g"
  shows "0 \<le> sg_current_idx g" "sg_current_idx g \<le> real (length (vis m))"
  using assms by (auto simp: dnd_gesture_def shape_def split: option.splits switch_state.splits if_splits)

definition switches :: "client_view \<Rightarrow> nat \<Rightarrow> monitor \<Rightarrow> monitor \<Rightarrow> bool" where
  "switches cv k m m' \<longleftrightarrow> rearranged cv m m' \<and> shape True m' \<and>
     (has_windows_or_name (vis m ! k) \<or> \<not> needs_hidden (vis m ! active_workspace_idx m) \<longrightarrow>
        active_id m' = ws_id (vis m ! k))"

lemma activates:
  assumes "content_ok cv m" "shape True m" "k < length (vis m)"
  shows "returns (activate_workspace k m) (switches cv k m)"
  by (rule returns_mono [OF activate_workspace_returns [OF assms]]) (simp add: switches_def)

lemma switch_workspace_up_returns:
  assumes ok: "content_ok cv m" "shape True m"
  shows "returns (switch_workspace_up m) (\<lambda>m'. \<exists>k < length (vis m). switches cv k m m' \<and>
           (dnd_gesture m = None \<longrightarrow> k = active_workspace_idx m - 1))"
proof (cases "dnd_gesture m")
  case None
  note l = looseD [OF shape_loose [OF ok(2)]]
  let ?k = "active_workspace_idx m - 1"
  have k: "?k < length (vis m)" using l(2) by simp
  have nh: "\<not> ws_hidden (workspaces m ! ?k)" using nth_vis [OF l(1) k] hid_nth [OF l(1), of ?k] k by simp
  have "returns (activate_workspace ?k m) (\<lambda>m'. \<exists>k < length (vis m). switches cv k m m' \<and>
           (dnd_gesture m = None \<longrightarrow> k = active_workspace_idx m - 1))"
    by (rule returns_mono [OF activates [OF ok k]]) (use k in blast)
  with None nh skip_hidden_up_visible [OF nh] nth_vis(2) [OF l(1) k] show ?thesis
    by (simp add: switch_workspace_up_def)
next
  case (Some g)
  let ?k = "nat (max 0 (min (int (length (workspaces m) - 1)) (\<lceil>sg_current_idx g\<rceil> - 1)))"
  note n = vis_pos [OF ok(2)]
  have "\<lceil>sg_current_idx g\<rceil> \<le> int (length (vis m))"
    using dnd_range(2) [OF ok(2) Some] by (simp add: ceiling_le_iff)
  then have k: "?k < length (vis m)" using n by auto
  have "returns (activate_workspace ?k m) (\<lambda>m'. \<exists>k < length (vis m). switches cv k m m' \<and>
           (dnd_gesture m = None \<longrightarrow> k = active_workspace_idx m - 1))"
    by (rule returns_mono [OF activates [OF ok k]]) (use k Some in auto)
  with Some n show ?thesis by (simp add: switch_workspace_up_def)
qed

lemma switch_workspace_down_returns:
  assumes ok: "content_ok cv m" "shape True m"
  shows "returns (switch_workspace_down m) (\<lambda>m'. m' = m \<and> active_workspace_idx m + 1 = length (vis m) \<or>
           (\<exists>k < length (vis m). switches cv k m m' \<and>
              (dnd_gesture m = None \<longrightarrow> k = min (active_workspace_idx m + 1) (length (vis m) - 1))))"
proof (cases "dnd_gesture m")
  case (Some g)
  note n = vis_pos [OF ok(2)]
  let ?k = "nat (max 0 (min (int (length (vis m) - 1)) (\<lfloor>sg_current_idx g\<rfloor> + 1)))"
  have k: "?k < length (vis m)" using n by auto
  show ?thesis
    using Some visible_count [OF looseD(1) [OF shape_loose [OF ok(2)]]] n activates [OF ok k] k
    by (auto simp: switch_workspace_down_def elim!: returns_mono)
next
  case None
  note l = looseD [OF shape_loose [OF ok(2)]]
  note n = vis_pos [OF ok(2)]
  let ?e = "length (workspaces m) - 1"
  let ?i = "min (active_workspace_idx m + 1) ?e"
  define k where "k = skip_hidden_down (workspaces m) ?e ?i"
  have "k \<le> ?e" using skip_hidden_down_le [of ?i ?e] by (simp add: k_def)
  then have k: "k < length (workspaces m)" using n by linarith
  have len: "length (workspaces m) = length (vis m) + length (hid m)" using arg_cong [OF l(1), of length] by simp
  have run: "switch_workspace_down m = (if ws_hidden (workspaces m ! k) then Some m else activate_workspace k m)"
    using None n k by (simp add: switch_workspace_down_def Let_def k_def)
  have vi: "k = ?i" if "\<not> ws_hidden (workspaces m ! ?i)"
    using skip_hidden_down_visible [OF that] by (simp add: k_def)
  have il: "?i < length (workspaces m)" using n by linarith
  show ?thesis
  proof (cases "ws_hidden (workspaces m ! k)")
    case True
    have "active_workspace_idx m + 1 = length (vis m)"
    proof (rule ccontr)
      assume "active_workspace_idx m + 1 \<noteq> length (vis m)"
      then have "?i < length (vis m)" using l(2) by simp
      then have "\<not> ws_hidden (workspaces m ! ?i)" using hid_nth [OF l(1) il] by (metis not_le)
      with vi True show False by simp
    qed
    with True show ?thesis by (simp add: run)
  next
    case False
    have kv: "k < length (vis m)" using False hid_nth [OF l(1) k] by simp
    have "k = min (active_workspace_idx m + 1) (length (vis m) - 1)"
    proof (cases "ws_hidden (workspaces m ! ?i)")
      case True
      then have "length (vis m) \<le> ?i" using hid_nth [OF l(1) il] by (metis not_le)
      moreover have "?i \<le> k" unfolding k_def by (rule skip_hidden_down_ge)
      ultimately show ?thesis using kv by linarith
    next
      case vis: False
      then have "?i < length (vis m)" using hid_nth [OF l(1) il] by (metis not_le)
      then show ?thesis using vi [OF vis] len n by auto
    qed
    with kv have "returns (activate_workspace k m) (\<lambda>m'. m' = m \<and> active_workspace_idx m + 1 = length (vis m) \<or>
           (\<exists>k < length (vis m). switches cv k m m' \<and>
              (dnd_gesture m = None \<longrightarrow> k = min (active_workspace_idx m + 1) (length (vis m) - 1))))"
      by (intro returns_mono [OF activates [OF ok kv]]) blast
    with False show ?thesis by (simp add: run)
  qed
qed

lemma switch_workspace_returns:
  assumes ok: "content_ok cv m" "shape True m"
  shows "returns (switch_workspace idx force m) (\<lambda>m'. rearranged cv m m' \<and> shape True m' \<and>
           (idx < length (vis m) \<longrightarrow> switches cv idx m m'))"
proof -
  note l = looseD [OF shape_loose [OF ok(2)]]
  note n = vis_pos [OF ok(2)]
  let ?a = "min idx (length (workspaces m) - 1)"
  have a: "?a < length (workspaces m)" using n by auto
  note sw = nth_vis [OF l(1)]
  have vis_a: "?a = idx" "\<not> ws_hidden (workspaces m ! ?a)" if "idx < length (vis m)"
    using sw [OF that] vis_visible [OF nth_mem [OF that]] by (simp_all add: min_absorb1)
  have act: "returns (activate_workspace k m1) (\<lambda>m'. rearranged cv m m' \<and> shape True m')"
    if "k < length (vis m1)" "rearranged cv m m1" "shape True m1" for k m1
  proof -
    have "content_ok cv m1" using that(2) by (simp add: rearranged_def)
    from activates [OF this that(3,1)] show ?thesis
      by (rule returns_mono) (use rearranged_trans [OF that(2)] in \<open>auto simp: switches_def\<close>)
  qed
  note refl = rearranged_refl [OF ok(1)]
  show ?thesis
  proof (cases "ws_hidden (workspaces m ! ?a)")
    case False
    then have v: "?a < length (vis m)" using hid_nth [OF l(1) a] by (metis not_le)
    have "switch_workspace idx force m = activate_workspace ?a m"
    proof (cases force)
      case True
      have at: "idx_of_ws (ws_id (workspaces m ! ?a)) m = Some ?a" by (rule idx_of_ws_nth [OF ok(1) a])
      with unhide_workspace_by_id_returns [OF ok(1) shape_loose [OF ok(2)], of "ws_id (workspaces m ! ?a)" True] False
      have "unhide_workspace_by_id (ws_id (workspaces m ! ?a)) True m = Some (None, m)"
        by (auto elim!: returnsE)
      with True False a n show ?thesis by (simp add: switch_workspace_def Let_def)
    next
      case nf: False
      with False a n show ?thesis by (simp add: switch_workspace_def Let_def)
    qed
    with activates [OF ok v] vis_a show ?thesis by (auto simp: switches_def elim!: returns_mono)
  next
    case True
    then have nv: "\<not> idx < length (vis m)" using vis_a by blast
    show ?thesis
    proof (cases force)
      case False
      show ?thesis
      proof (cases "List.find (\<lambda>i. \<not> ws_hidden (workspaces m ! i)) (rev [0..<?a])")
        case None
        with True False a n ok refl nv show ?thesis by (simp add: switch_workspace_def Let_def)
      next
        case (Some k)
        then have "k \<in> set (rev [0..<?a])" "\<not> ws_hidden (workspaces m ! k)"
          unfolding find_Some_iff by (metis nth_mem)+
        moreover from this have "k < length (workspaces m)" by auto
        ultimately have "k < length (vis m)" using hid_nth [OF l(1)] by (metis not_le)
        from act [OF this refl ok(2)] Some True False a n nv show ?thesis
          by (simp add: switch_workspace_def Let_def)
      qed
    next
      case yes: True
      let ?id = "ws_id (workspaces m ! ?a)"
      have at: "idx_of_ws ?id m = Some ?a" by (rule idx_of_ws_nth [OF ok(1) a])
      from unhide_workspace_by_id_returns [OF ok(1) shape_loose [OF ok(2)], of ?id True] at True
      obtain f m1 where m1: "unhide_workspace_by_id ?id True m = Some (Some f, m1)" "f < length (vis m1)"
        "rearranged cv m m1" "shape True m1"
        by (auto elim!: returnsE)
      have "f < length (workspaces m1)" using nth_vis(2) [OF looseD(1) [OF shape_loose [OF m1(4)]] m1(2)] .
      with act [OF m1(2-4)] m1(1) yes True a n nv show ?thesis
        by (simp add: switch_workspace_def Let_def)
    qed
  qed
qed

lemma switch_previous_returns:
  assumes ok: "content_ok cv m" "shape True m"
  shows "returns (switch_workspace_previous m) (\<lambda>m'. rearranged cv m m' \<and> shape True m')"
    "returns (switch_workspace_auto_back_and_forth idx m) (\<lambda>m'. rearranged cv m m' \<and> shape True m')"
proof -
  have sw: "returns (switch_workspace k False m) (\<lambda>m'. rearranged cv m m' \<and> shape True m')" for k
    by (rule returns_mono [OF switch_workspace_returns [OF ok]]) simp
  show "returns (switch_workspace_previous m) (\<lambda>m'. rearranged cv m m' \<and> shape True m')"
    "returns (switch_workspace_auto_back_and_forth idx m) (\<lambda>m'. rearranged cv m m' \<and> shape True m')"
    using sw rearranged_refl [OF ok(1)] ok(2) vis_pos [OF ok(2)]
    by (auto simp: switch_workspace_previous_def switch_workspace_auto_back_and_forth_def Let_def split: option.splits)
qed

section \<open>Reordering\<close>

text \<open>The visible workspaces in another order\<close>

definition reorder :: "workspace list \<Rightarrow> monitor \<Rightarrow> monitor" where
  "reorder v m = m\<lparr>workspaces := v @ hid m\<rparr>"

lemma reorder:
  assumes "content_ok cv m" "workspaces m = vis m @ hid m" "mset v = mset (vis m)"
  shows "vis (reorder v m) = v" "hid (reorder v m) = hid m" "workspaces (reorder v m) = vis (reorder v m) @ hid (reorder v m)"
    "rearranged cv m (reorder v m)" "active_workspace_idx (reorder v m) = active_workspace_idx m"
    "workspace_switch (reorder v m) = workspace_switch m" "mon_options (reorder v m) = mon_options m"
    "length v = length (vis m)" "previous_workspace_id (reorder v m) = previous_workspace_id m"
proof -
  have s: "set v = set (vis m)" using assms(3) by (metis set_mset_mset)
  have w: "workspaces (reorder v m) = v @ hid m" by (simp add: reorder_def)
  have v: "\<forall>ws \<in> set v. \<not> ws_hidden ws" "\<forall>ws \<in> set (hid m). ws_hidden ws"
    using s vis_visible hid_hidden by auto
  show vh: "vis (reorder v m) = v" "hid (reorder v m) = hid m" by (rule vis_hid_I [OF w v])+
  show "workspaces (reorder v m) = vis (reorder v m) @ hid (reorder v m)" unfolding vh by (rule w)
  have "mset (workspaces (reorder v m)) = mset (vis m @ hid m)" using assms(3) by (simp add: w)
  then have c: "cores (reorder v m) = cores m" using assms(2) by (simp add: cores_def)
  show "rearranged cv m (reorder v m)"
    by (rule rearrangedI [OF assms(1)])
      (use c content_okD [OF assms(1)] in \<open>simp_all add: bodies_def steady_def reorder_def\<close>)
  show "active_workspace_idx (reorder v m) = active_workspace_idx m"
    "workspace_switch (reorder v m) = workspace_switch m" "mon_options (reorder v m) = mon_options m"
    "previous_workspace_id (reorder v m) = previous_workspace_id m"
    by (simp_all add: reorder_def)
  show "length v = length (vis m)" using assms(3) by (metis size_mset)
qed

text \<open>Empty workspaces put back at the ends after a reordering\<close>

definition with_ends :: "bool \<Rightarrow> bool \<Rightarrow> monitor \<Rightarrow> monitor" where
  "with_ends bottom on_top m =
     (let m = (if bottom then add_result (length (vis m)) m else m)
      in if on_top then add_result 0 m else m)"

lemma with_ends:
  assumes ok: "content_ok cv m" "workspaces m = vis m @ hid m" "active_workspace_idx m < length (vis m)"
    and ends: "bottom \<or> blank (last (vis m))" "above_first m \<longrightarrow> on_top \<or> blank (hd (vis m))"
    and m': "m' = with_ends bottom on_top m"
  shows "rearranged cv m m'" "loose m'" "active_workspace_idx m' = active_workspace_idx m + (if on_top then 1 else 0)"
    "length (vis m') = length (vis m) + (if bottom then 1 else 0) + (if on_top then 1 else 0)"
    "k < length (vis m) \<Longrightarrow> vis m' ! (k + (if on_top then 1 else 0)) = vis m ! k"
    "hid m' = [] \<longleftrightarrow> hid m = []" "mon_options m' = mon_options m"
    "switch_ok (workspace_switch m) (length (vis m)) (length (workspaces m)) \<Longrightarrow>
       switch_ok (workspace_switch m') (length (vis m')) (length (workspaces m'))"
proof -
  define m1 where "m1 = (if bottom then add_result (length (vis m)) m else m)"
  have m2: "m' = (if on_top then add_result 0 m1 else m1)" using m' by (simp add: with_ends_def m1_def)
  have w1: "workspaces m1 = vis m1 @ hid m1"
    using ok(2) workspaces_add_result [OF order_refl, of m] by (simp add: m1_def)
  have a1: "active_workspace_idx m1 = active_workspace_idx m" "active_workspace_idx m1 < length (vis m1)"
    using ok(3) by (auto simp: m1_def)
  have r1: "rearranged cv m m1"
    using add_result_rearranged [OF ok(1,2) order_refl] rearranged_refl [OF ok(1)] by (simp add: m1_def)
  have c1: "content_ok cv m1" using r1 by (simp add: rearranged_def)
  have v: "vis m \<noteq> []" using ok(3) by auto
  have last1: "blank (last (vis m1))" using ends(1) by (auto simp: m1_def)
  have hd1: "above_first m1 \<Longrightarrow> on_top \<or> blank (hd (vis m1))" using ends(2) v by (auto simp: m1_def split: if_splits)
  show "rearranged cv m m'"
    using r1 rearranged_trans [OF r1 add_result_rearranged [OF c1 w1, of 0]] by (simp add: m2)
  show "loose m'"
  proof (cases on_top)
    case True
    then show ?thesis unfolding m2
      using add_result_loose [OF w1 _ a1(2), of 0] last1 by simp
  next
    case False
    then show ?thesis unfolding m2 loose_def using w1 a1(2) last1 hd1 by auto
  qed
  show "active_workspace_idx m' = active_workspace_idx m + (if on_top then 1 else 0)"
    using a1 by (simp add: m2)
  show "length (vis m') = length (vis m) + (if bottom then 1 else 0) + (if on_top then 1 else 0)"
    by (simp add: m2 m1_def)
  show "k < length (vis m) \<Longrightarrow> vis m' ! (k + (if on_top then 1 else 0)) = vis m ! k"
    by (simp add: m2 m1_def nth_append)
  show "hid m' = [] \<longleftrightarrow> hid m = []" "mon_options m' = mon_options m" by (simp_all add: m2 m1_def)
  assume sw: "switch_ok (workspace_switch m) (length (vis m)) (length (workspaces m))"
  then have "switch_ok (workspace_switch m1) (length (vis m1)) (length (workspaces m1))"
    using add_result_switch_ok [OF ok(2) order_refl] by (simp add: m1_def)
  then show "switch_ok (workspace_switch m') (length (vis m')) (length (workspaces m'))"
    using add_result_switch_ok [OF w1, of 0] by (simp add: m2)
qed

lemma follow_returns:
  assumes "content_ok cv m" "shape False m" "k < length (vis m)"
  shows "returns (follow_moved_workspace k m) (\<lambda>m'. rearranged cv m m' \<and> shape True m' \<and>
           (has_windows_or_name (vis m ! k) \<longrightarrow> active_id m' = ws_id (vis m ! k)))"
proof -
  from activate_workspace_returns [OF assms] obtain m1 where
    m1: "activate_workspace k m = Some m1" "rearranged cv m m1" "shape False m1"
      "has_windows_or_name (vis m ! k) \<longrightarrow> active_id m1 = ws_id (vis m ! k)"
    by (auto elim!: returnsE)
  define m2 where "m2 = m1\<lparr>workspace_switch := None, previous_workspace_id := previous_workspace_id m\<rparr>"
  have v2: "vis m2 = vis m1" "hid m2 = hid m1" "active_id m2 = active_id m1" "workspace_switch m2 = None"
    "active_workspace_idx m2 = active_workspace_idx m1" "workspaces m2 = workspaces m1"
    by (simp_all add: m2_def active_id_def)
  have c2: "content_ok cv m2" and r2: "rearranged cv m1 m2"
    using m1(2) by (simp_all add: m2_def rearranged_def steady_def)
  have l2: "loose m2" using shape_loose [OF m1(3)] by (simp add: loose_def v2) (simp add: m2_def)
  from clean_up_workspaces_returns [OF l2 v2(4)] obtain m3 where m3: "clean_up_workspaces m2 = Some m3" "tidied m2 m3"
    by (auto elim!: returnsE)
  note t3 = tidied_rearranged [OF c2 m3(2)]
  have "active_id m3 = ws_id (vis m ! k)" if nb: "has_windows_or_name (vis m ! k)"
  proof -
    have "body (vis m ! k) \<in># bodies m"
      using assms(3) nb nth_vis [OF looseD(1) [OF shape_loose [OF assms(2)]] assms(3)] in_bodies by metis
    then have b: "body (vis m ! k) \<in># bodies m2" using m1(2) r2 by (simp add: rearranged_def)
    note a2 = nth_vis [OF looseD(1,2) [OF l2]]
    have "has_windows_or_name (vis m2 ! active_workspace_idx m2)"
      using body_by_id(2) [OF c2 b a2(2)] m1(4) nb v2(3) a2(1) by (simp add: active_id_def body_def)
    then have "vis m3 ! active_workspace_idx m3 = vis m2 ! active_workspace_idx m2"
      using m3(2) by (auto simp: tidied_def)
    then have "active_id m3 = active_id m2"
      using active_id_vis [OF l2] active_id_vis [OF shape_loose [OF t3(2)]] by simp
    with m1(4) nb v2(3) show ?thesis by simp
  qed
  then show ?thesis
    using m1(1,2) m3(1) t3 rearranged_trans [OF rearranged_trans [OF m1(2) r2] t3(1)]
    by (simp add: follow_moved_workspace_def m2_def)
qed

text \<open>Two visible workspaces trade places; the one now at \<open>k\<close> is followed\<close>

lemma swap_and_follow:
  assumes ok: "content_ok cv m" "shape True m" and i: "i < length (vis m)" "j < length (vis m)" "i \<noteq> j"
    and ends: "bottom \<longleftrightarrow> i = length (vis m) - 1 \<or> j = length (vis m) - 1"
      "on_top \<longleftrightarrow> above_first m \<and> (i = 0 \<or> j = 0)"
  shows "returns (follow_moved_workspace (j + (if on_top then 1 else 0))
           (with_ends bottom on_top (reorder ((vis m)[i := vis m ! j, j := vis m ! i]) m)))
         (\<lambda>m'. rearranged cv m m' \<and> shape True m' \<and>
           (has_windows_or_name (vis m ! i) \<longrightarrow> active_id m' = ws_id (vis m ! i)))"
proof -
  note l = looseD [OF shape_loose [OF ok(2)]]
  let ?v = "(vis m)[i := vis m ! j, j := vis m ! i]"
  have ms: "mset ?v = mset (vis m)" using mset_swap [OF i(2,1)] by simp
  define m1 where "m1 = reorder ?v m"
  note r = reorder [OF ok(1) l(1) ms, folded m1_def]
  have c1: "content_ok cv m1" using r(4) by (simp add: rearranged_def)
  have a1: "active_workspace_idx m1 < length (vis m1)" using l(2) by (simp add: r)
  define m2 where "m2 = with_ends bottom on_top m1"
  have n: "length (vis m) \<noteq> 0" using l(3) by simp
  have last: "bottom \<or> blank (last (vis m1))"
  proof (cases bottom)
    case False
    then have "last ?v = last (vis m)"
      using ends(1) n by (simp add: last_conv_nth)
    with l(4) show ?thesis by (simp add: r)
  qed simp
  have first: "above_first m1 \<longrightarrow> on_top \<or> blank (hd (vis m1))"
  proof
    assume af: "above_first m1"
    show "on_top \<or> blank (hd (vis m1))"
    proof (cases on_top)
      case False
      then have "i \<noteq> 0" "j \<noteq> 0" using ends(2) af r(7) by auto
      then have "hd ?v = hd (vis m)" using l(3) by (simp add: hd_conv_nth)
      with l(5) af r(1,7) show ?thesis by simp
    qed simp
  qed
  note we = with_ends [OF c1 r(3) a1 last first m2_def]
  have len: "length (workspaces m1) = length (workspaces m)"
    using arg_cong [OF r(3), of length] arg_cong [OF l(1), of length] r(8) by (simp add: r)
  have "switch_ok (workspace_switch m1) (length (vis m1)) (length (workspaces m1))"
    using ok(2) r(8) by (simp add: shape_def r(1,6) len)
  note sw = we(8) [OF this]
  have n2: "2 \<le> length (vis m)" using i by linarith
  have two: "length (vis m2) \<noteq> 2" if "above_first m2" "hid m2 = []"
  proof -
    have "length (vis m) \<noteq> 2" using ok(2) that r(2,7) we(6,7) by (simp add: shape_def)
    then show ?thesis using n2 we(4) r(8) by (simp add: r(1))
  qed
  have shape2: "shape False m2" using we(2) sw two by (auto simp: shape_def)
  have c2: "content_ok cv m2" using we(1) by (simp add: rearranged_def)
  have k: "j + (if on_top then 1 else 0) < length (vis m2)" using i(2) we(4) r(8) by (simp add: r(1))
  have at: "vis m2 ! (j + (if on_top then 1 else 0)) = vis m ! i"
    using we(5) [of j] i r(8) by (simp add: r(1))
  have "returns (follow_moved_workspace (j + (if on_top then 1 else 0)) m2)
         (\<lambda>m'. rearranged cv m m' \<and> shape True m' \<and>
           (has_windows_or_name (vis m ! i) \<longrightarrow> active_id m' = ws_id (vis m ! i)))"
    using follow_returns [OF c2 shape2 k] unfolding at
    by (rule returns_mono) (use rearranged_trans [OF rearranged_trans [OF r(4) we(1)]] in blast)
  then show ?thesis by (simp only: m2_def m1_def)
qed

lemma vec_swap_visible:
  assumes "workspaces m = vis m @ hid m" "i < length (vis m)" "j < length (vis m)"
  shows "vec_swap i j (workspaces m) = Some ((vis m)[i := vis m ! j, j := vis m ! i] @ hid m)"
proof -
  have "vec_swap i j (vis m @ hid m) = Some ((vis m)[i := vis m ! j, j := vis m ! i] @ hid m)"
    using assms(2,3) by (simp add: vec_swap_def nth_append list_update_append)
  then show ?thesis by (simp add: assms(1) [symmetric])
qed

lemma with_ends_run:
  assumes "workspaces m = vis m @ hid m"
  shows "(if bottom then add_workspace_bottom m else Some m) = Some (with_ends bottom False m)"
    "(if on_top then add_workspace_top (with_ends bottom False m) else Some (with_ends bottom False m)) =
       Some (with_ends bottom on_top m)"
proof -
  show "(if bottom then add_workspace_bottom m else Some m) = Some (with_ends bottom False m)"
    using add_workspace_at_eq [OF assms order_refl]
    by (simp add: with_ends_def Let_def add_workspace_bottom_def visible_count [OF assms])
  have "workspaces (with_ends bottom False m) = vis (with_ends bottom False m) @ hid (with_ends bottom False m)"
    using assms workspaces_add_result [OF order_refl, of m] by (simp add: with_ends_def Let_def)
  from add_workspace_at_eq [OF this, of 0]
  show "(if on_top then add_workspace_top (with_ends bottom False m) else Some (with_ends bottom False m)) =
       Some (with_ends bottom on_top m)"
    by (simp add: with_ends_def Let_def add_workspace_top_def)
qed

lemma top_fold:
  fixes k :: nat
  shows "(if c then do { m \<leftarrow> add_workspace_top m; Some (m, k + 1) } else Some (m, k)) =
     map_option (\<lambda>m. (m, k + (if c then 1 else 0))) (if c then add_workspace_top m else Some m)"
  by (cases "add_workspace_top m") simp_all

lemma move_workspace_down_returns:
  assumes ok: "content_ok cv m" "shape True m"
  shows "returns (move_workspace_down m) (\<lambda>m'. rearranged cv m m' \<and> shape True m' \<and>
           (has_windows_or_name (vis m ! active_workspace_idx m) \<longrightarrow> active_id m' = active_id m))"
proof -
  note l = looseD [OF shape_loose [OF ok(2)]]
  let ?a = "active_workspace_idx m" and ?e = "length (vis m) - 1"
  let ?k = "min (?a + 1) ?e"
  note n = visible_count [OF l(1)] vis_pos [OF ok(2)]
  show ?thesis
  proof (cases "?k = ?a")
    case True
    with n ok(2) rearranged_refl [OF ok(1)] show ?thesis by (simp add: move_workspace_down_def)
  next
    case False
    then have k: "?k = ?a + 1" "?a + 1 < length (vis m)" using l(2) by (auto simp: min_def split: if_splits)
    let ?b = "?a + 1 = ?e" and ?t = "above_first m \<and> ?a = 0"
    let ?v = "(vis m)[?a := vis m ! (?a + 1), ?a + 1 := vis m ! ?a]"
    define m1 where "m1 = reorder ?v m"
    have ms: "mset ?v = mset (vis m)" using mset_swap [OF k(2) l(2)] by simp
    note r = reorder [OF ok(1) l(1) ms, folded m1_def]
    have sw: "vec_swap ?a (?a + 1) (workspaces m) = Some (?v @ hid m)"
      by (rule vec_swap_visible [OF l(1,2) k(2)])
    define mb where "mb = with_ends ?b False m1"
    have tb: "(above_first mb \<and> active_workspace_idx mb = 0) = ?t"
      using l(2) r(5,7,8) by (auto simp: mb_def with_ends_def Let_def r(1))
    have step1: "(if ?k = ?e then add_workspace_bottom m1 else Some m1) = Some mb"
      using with_ends_run(1) [OF r(3), of ?b] unfolding k(1) mb_def .
    have step2: "(if ?t then add_workspace_top mb else Some mb) = Some (with_ends ?b ?t m1)"
      using with_ends_run(2) [OF r(3), of ?t ?b] unfolding mb_def .
    have "move_workspace_down m = do {
        m \<leftarrow> (if ?k = ?e then add_workspace_bottom m1 else Some m1);
        (m, k) \<leftarrow> (if above_first m \<and> active_workspace_idx m = 0
             then do { m \<leftarrow> add_workspace_top m; Some (m, ?k + 1) } else Some (m, ?k));
        follow_moved_workspace k m }"
      unfolding move_workspace_down_def Let_def n(1) sub_usize_Some [OF conjunct1 [OF n(2)]]
        Option.bind.simps if_not_P [OF False]
      unfolding k(1) sw Option.bind.simps m1_def reorder_def by (rule refl)
    also have "\<dots> = follow_moved_workspace (?a + 1 + (if ?t then 1 else 0)) (with_ends ?b ?t m1)"
      unfolding step1 Option.bind.simps
      unfolding tb
      unfolding top_fold step2 option.map Option.bind.simps case_prod_conv k(1) by (rule refl)
    finally have run: "move_workspace_down m = follow_moved_workspace (?a + 1 + (if ?t then 1 else 0)) (with_ends ?b ?t m1)" .
    have ends: "?b \<longleftrightarrow> ?a = ?e \<or> ?a + 1 = ?e" "?t \<longleftrightarrow> above_first m \<and> (?a = 0 \<or> ?a + 1 = 0)" "?a \<noteq> ?a + 1"
      using k(2) by auto
    show ?thesis
      using swap_and_follow [OF ok l(2) k(2) ends(3,1,2)]
      unfolding run m1_def active_id_vis [OF shape_loose [OF ok(2)]] .
  qed
qed

lemma move_workspace_up_returns:
  assumes ok: "content_ok cv m" "shape True m"
  shows "returns (move_workspace_up m) (\<lambda>m'. rearranged cv m m' \<and> shape True m' \<and>
           (has_windows_or_name (vis m ! active_workspace_idx m) \<longrightarrow> active_id m' = active_id m))"
proof -
  note l = looseD [OF shape_loose [OF ok(2)]]
  let ?a = "active_workspace_idx m" and ?e = "length (vis m) - 1"
  let ?k = "?a - 1"
  show ?thesis
  proof (cases "?k = ?a")
    case True
    with ok(2) rearranged_refl [OF ok(1)] show ?thesis by (simp add: move_workspace_up_def)
  next
    case False
    then have k: "?k < length (vis m)" "0 < ?a" using l(2) by auto
    let ?b = "?a = ?e" and ?t = "above_first m \<and> ?k = 0"
    let ?v = "(vis m)[?a := vis m ! ?k, ?k := vis m ! ?a]"
    define m1 where "m1 = reorder ?v m"
    have ms: "mset ?v = mset (vis m)" using mset_swap [OF k(1) l(2)] by simp
    note r = reorder [OF ok(1) l(1) ms, folded m1_def]
    have sw: "vec_swap ?a ?k (workspaces m) = Some (?v @ hid m)"
      by (rule vec_swap_visible [OF l(1,2) k(1)])
    have n: "visible_workspace_count m1 = length (vis m)" "1 \<le> length (vis m)"
      using visible_count [OF r(3)] r(8) vis_pos [OF ok(2)] by (simp_all add: r(1))
    define mb where "mb = with_ends ?b False m1"
    have tb: "(above_first mb \<and> ?k = 0) = ?t"
      using r(7) by (auto simp: mb_def with_ends_def Let_def)
    have step1: "(if ?a = ?e then add_workspace_bottom m1 else Some m1) = Some mb"
      using with_ends_run(1) [OF r(3), of ?b] unfolding mb_def .
    have step2: "(if ?t then add_workspace_top mb else Some mb) = Some (with_ends ?b ?t m1)"
      using with_ends_run(2) [OF r(3), of ?t ?b] unfolding mb_def .
    have "move_workspace_up m = do {
        m \<leftarrow> (if ?a = ?e then add_workspace_bottom m1 else Some m1);
        (m, k) \<leftarrow> (if above_first m \<and> ?k = 0
             then do { m \<leftarrow> add_workspace_top m; Some (m, ?k + 1) } else Some (m, ?k));
        follow_moved_workspace k m }"
      unfolding move_workspace_up_def Let_def if_not_P [OF False] sw Option.bind.simps
        reorder_def [symmetric] m1_def [symmetric] n(1) sub_usize_Some [OF n(2)] r(5) by (rule refl)
    also have "\<dots> = follow_moved_workspace (?k + (if ?t then 1 else 0)) (with_ends ?b ?t m1)"
      unfolding step1 Option.bind.simps
      unfolding tb
      unfolding top_fold step2 option.map Option.bind.simps case_prod_conv by (rule refl)
    finally have run: "move_workspace_up m = follow_moved_workspace (?k + (if ?t then 1 else 0)) (with_ends ?b ?t m1)" .
    have ends: "?b \<longleftrightarrow> ?a = ?e \<or> ?k = ?e" "?t \<longleftrightarrow> above_first m \<and> (?a = 0 \<or> ?k = 0)" "?a \<noteq> ?k"
      using k l(2) by auto
    show ?thesis
      using swap_and_follow [OF ok l(2) k(1) ends(3,1,2)]
      unfolding run m1_def active_id_vis [OF shape_loose [OF ok(2)]] .
  qed
qed

end
