(* ===== verification/MonitorConfig.thy ===== *)
theory MonitorConfig
  imports MonitorSwitch
begin

text \<open>
  The remaining operations of a monitor: moving a workspace to an index, gestures, hiding
  and naming, sticky windows and configuration changes.
\<close>

section \<open>Moving a workspace to an index\<close>

lemma move_workspace_to_idx_returns:
  assumes ok: "content_ok cv m" "shape True m"
  shows "returns (move_workspace_to_idx old_idx new_idx m) (\<lambda>m'. rearranged cv m m' \<and> shape True m')"
proof -
  note l = looseD [OF shape_loose [OF ok(2)]]
  note n = visible_count [OF l(1)] vis_pos [OF ok(2)]
  note refl = rearranged_refl [OF ok(1)]
  let ?e = "length (vis m) - 1"
  let ?k = "min new_idx ?e"
  show ?thesis
  proof (cases "old_idx < length (vis m) \<and> old_idx \<noteq> ?k")
    case False
    have "old_idx < length (vis m) \<Longrightarrow> old_idx < length (workspaces m)" using nth_vis(2) [OF l(1)] by blast
    then have "move_workspace_to_idx old_idx new_idx m = Some m"
      using False hid_nth [OF l(1), of old_idx] n
      by (auto simp: move_workspace_to_idx_def)
    with refl ok(2) show ?thesis by simp
  next
    case True
    then have o': "old_idx < length (vis m)" "old_idx \<noteq> ?k" by simp_all
    note at = nth_vis [OF l(1) o'(1)]
    have k: "?k < length (vis m)" using l(3) by (simp add: min_less_iff_disj)
    let ?w = "vis m ! old_idx"
    let ?r = "remove_at old_idx (vis m)"
    let ?v = "insert_at ?k ?w ?r"
    let ?b = "max old_idx ?k = ?e" and ?t = "above_first m \<and> min old_idx ?k = 0"
    have nh: "\<not> ws_hidden (workspaces m ! old_idx)" using hid_nth [OF l(1) at(2)] o'(1) by simp
    have nl: "\<not> length (workspaces m) \<le> old_idx" using at(2) by simp
    have kr: "?k \<le> length ?r" using k o'(1) by simp
    have ms: "mset ?v = mset (vis m)" by (simp add: mset_remove_at [OF o'(1), symmetric])
    have vr: "vec_remove old_idx (workspaces m) = Some (?w, ?r @ hid m)"
      using at remove_at_left [OF o'(1), of "hid m"] l(1) by simp
    have vi: "vec_insert ?k ?w (?r @ hid m) = Some (?v @ hid m)"
      using kr by (simp add: insert_at_left)
    define m1 where "m1 = reorder ?v m"
    note r = reorder [OF ok(1) l(1) ms, folded m1_def]
    have c1: "content_ok cv m1" using r(4) by (simp add: rearranged_def)
    have a1: "active_workspace_idx m1 < length (vis m1)" using l(2) r(8) by (simp add: r(1,5))
    define mb where "mb = with_ends ?b False m1"
    define m2 where "m2 = with_ends ?b ?t m1"
    have tb: "(above_first mb \<and> min old_idx ?k = 0) = ?t"
      using r(7) by (auto simp: mb_def with_ends_def Let_def)
    have last: "?b \<or> blank (last (vis m1))"
    proof (cases ?b)
      case False
      then have lt: "old_idx + 1 < length (vis m)" "?k < length ?r" using o'(1) k by auto
      then have "last ?v = last (vis m)" by (simp add: last_insert_at last_remove_at)
      with l(4) show ?thesis by (simp add: r(1))
    qed simp
    have first: "above_first m1 \<longrightarrow> ?t \<or> blank (hd (vis m1))"
    proof
      assume "above_first m1"
      then have af: "above_first m" by (simp add: r(7))
      show "?t \<or> blank (hd (vis m1))"
      proof (cases ?t)
        case False
        then have pos: "0 < old_idx" "0 < ?k" using af by auto
        have "hd ?r = hd (vis m)" "?r \<noteq> []"
          using pos(1) o'(1) l(3) by (auto simp: remove_at_def hd_append)
        then have "hd ?v = hd (vis m)" using pos(2) hd_insert_at by metis
        with l(5) [OF af] show ?thesis by (simp add: r(1))
      qed simp
    qed
    note we = with_ends [OF c1 r(3) a1 last first m2_def]
    let ?k' = "?k + (if ?t then 1 else 0)" and ?a = "active_workspace_idx m2"
    let ?a' = "if ?a = old_idx then ?k' else if ?k' \<le> ?a \<and> ?a < old_idx then ?a + 1
      else if ?a \<le> ?k' \<and> old_idx < ?a then ?a - 1 else ?a"
    have n2: "length (vis m2) = length (vis m) + (if ?b then 1 else 0) + (if ?t then 1 else 0)"
      using we(4) r(8) by (simp add: r(1))
    have a2: "?a' < length (vis m2)"
    proof -
      have "?a < length (vis m2)" using looseD(2) [OF we(2)] .
      moreover have "?k' < length (vis m2)" using n2 k by (simp split: if_split)
      moreover have "?a < old_idx \<Longrightarrow> ?a + 1 < length (vis m2)" using n2 o'(1) by (simp split: if_split)
      ultimately show ?thesis by (auto split: if_splits)
    qed
    define m3 where "m3 = m2\<lparr>active_workspace_idx := ?a', workspace_switch := None\<rparr>"
    have v3: "vis m3 = vis m2" "hid m3 = hid m2" "workspaces m3 = workspaces m2" "workspace_switch m3 = None"
      "mon_options m3 = mon_options m2" "active_workspace_idx m3 = ?a'"
      by (simp_all add: m3_def vis_def hid_def)
    have l3: "loose m3" using we(2) a2 by (simp add: loose_def v3)
    have c2: "content_ok cv m2" using we(1) by (simp add: rearranged_def)
    have r3: "rearranged cv m2 m3" using c2
      by (simp add: rearranged_def m3_def steady_def)
    have c3: "content_ok cv m3" using r3 by (simp add: rearranged_def)
    from clean_up_workspaces_returns [OF l3 v3(4)] obtain m4 where m4: "clean_up_workspaces m3 = Some m4" "tidied m3 m4"
      by (auto elim!: returnsE)
    note t4 = tidied_rearranged [OF c3 m4(2)]
    have step1: "(if max old_idx ?k = ?e then add_workspace_bottom m1 else Some m1) = Some mb"
      using with_ends_run(1) [OF r(3), of ?b] unfolding mb_def .
    have step2: "(if ?t then add_workspace_top mb else Some mb) = Some m2"
      using with_ends_run(2) [OF r(3), of ?t ?b] unfolding mb_def m2_def .
    have "move_workspace_to_idx old_idx new_idx m = do {
        m \<leftarrow> (if max old_idx ?k = ?e then add_workspace_bottom m1 else Some m1);
        (m, k) \<leftarrow> (if above_first m \<and> min old_idx ?k = 0
             then do { m \<leftarrow> add_workspace_top m; Some (m, ?k + 1) } else Some (m, ?k));
        let active = active_workspace_idx m;
        let m = m\<lparr>active_workspace_idx :=
              (if active = old_idx then k
               else if k \<le> active \<and> active < old_idx then active + 1
               else if active \<le> k \<and> old_idx < active then active - 1
               else active)\<rparr>;
        clean_up_workspaces (m\<lparr>workspace_switch := None\<rparr>) }"
      unfolding move_workspace_to_idx_def Let_def if_not_P [OF nl] if_not_P [OF nh] vec_get_Some [OF at(2)] Option.bind.simps
        n(1) sub_usize_Some [OF conjunct1 [OF n(2)]] if_not_P [OF o'(2)] vr vi case_prod_conv
        m1_def reorder_def by simp
    also have "\<dots> = clean_up_workspaces m3"
      unfolding step1 Option.bind.simps
      unfolding tb
      unfolding top_fold step2 option.map Option.bind.simps case_prod_conv Let_def m3_def by simp
    finally show ?thesis
      using m4(1) t4 rearranged_trans [OF rearranged_trans [OF rearranged_trans [OF r(4) we(1)] r3] t4(1)] by simp
  qed
qed

section \<open>Gestures and animations\<close>

lemma shape_switch:
  assumes "shape t m" "switch_ok (Some s) (length (vis m)) (length (workspaces m))"
  shows "shape t' (m\<lparr>workspace_switch := Some s\<rparr>)"
  using assms by (simp add: shape_def loose_def)

lemma gesture_returns:
  assumes ok: "content_ok cv m" "shape True m"
  shows "rearranged cv m (workspace_switch_gesture_begin pos touchpad m) \<and> shape True (workspace_switch_gesture_begin pos touchpad m)"
    "0 \<le> pos \<Longrightarrow> pos \<le> real (length (vis m)) \<Longrightarrow>
       rearranged cv m (dnd_scroll_gesture_begin pos m) \<and> shape True (dnd_scroll_gesture_begin pos m)"
    "rearranged cv m (fst (workspace_switch_gesture_update pos touchpad m)) \<and>
       shape True (fst (workspace_switch_gesture_update pos touchpad m))"
proof -
  note l = looseD [OF shape_loose [OF ok(2)]]
  show "rearranged cv m (workspace_switch_gesture_begin pos touchpad m) \<and> shape True (workspace_switch_gesture_begin pos touchpad m)"
    using rearranged_upd(3) [OF ok(1)] shape_switch [OF ok(2)] l(2)
    by (simp add: workspace_switch_gesture_begin_def)
  show "rearranged cv m (dnd_scroll_gesture_begin pos m) \<and> shape True (dnd_scroll_gesture_begin pos m)"
    if "0 \<le> pos" "pos \<le> real (length (vis m))"
    using rearranged_upd(3) [OF ok(1)] rearranged_refl [OF ok(1)] shape_switch [OF ok(2)] l(2) ok(2) that
    by (simp add: dnd_scroll_gesture_begin_def)
  show "rearranged cv m (fst (workspace_switch_gesture_update pos touchpad m)) \<and>
       shape True (fst (workspace_switch_gesture_update pos touchpad m))"
  proof (cases "\<exists>g. workspace_switch m = Some (SwitchGesture g)")
    case True
    then obtain g where g: "workspace_switch m = Some (SwitchGesture g)" by blast
    have "sg_center_idx g < length (vis m)" using ok(2) g by (simp add: shape_def)
    then have "\<not> sg_dnd g \<Longrightarrow> shape True (m\<lparr>workspace_switch := Some (SwitchGesture (g\<lparr>sg_current_idx := pos\<rparr>))\<rparr>)"
      by (intro shape_switch [OF ok(2)]) simp
    with g rearranged_upd(3) [OF ok(1)] rearranged_refl [OF ok(1)] ok(2) show ?thesis
      by (simp add: workspace_switch_gesture_update_def)
  next
    case False
    then have "workspace_switch_gesture_update pos touchpad m = (m, None)"
      by (auto simp: workspace_switch_gesture_update_def split: option.splits switch_state.splits)
    with rearranged_refl [OF ok(1)] ok(2) show ?thesis by simp
  qed
qed

text \<open>The range of a gesture is never empty, and rounding stays inside it\<close>

lemma gesture_range:
  assumes "sg_center_idx g < n"
  shows "returns (gesture_min_max g n) (\<lambda>(lo, hi). lo \<le> hi \<and> hi < n)"
  using assms by (auto simp: gesture_min_max_def)

lemma clamped_index:
  assumes "lo \<le> hi"
  shows "returns (clamp_real lo hi x) (\<lambda>y. real lo \<le> y \<and> y \<le> real hi \<and> lo \<le> round_half_up y \<and> round_half_up y \<le> hi)"
proof -
  let ?y = "max (real lo) (min (real hi) x)"
  have b: "real lo \<le> ?y" "?y \<le> real hi" using assms by auto
  have "int lo \<le> \<lfloor>?y + 1 / 2\<rfloor>" using b(1) by linarith
  moreover have "\<lfloor>?y + 1 / 2\<rfloor> < int hi + 1" using b(2) by linarith
  ultimately have "lo \<le> round_half_up ?y" "round_half_up ?y \<le> hi" by (auto simp: round_half_up_def)
  with assms b show ?thesis by (simp add: clamp_real_def)
qed

lemma gesture_end_returns:
  assumes ok: "content_ok cv m" "shape True m"
  shows "returns (workspace_switch_gesture_end touchpad pos m) (\<lambda>(m', b). rearranged cv m m' \<and> shape True m' \<and>
           (b \<longrightarrow> workspace_switch m' = Some (SwitchAnimation (active_workspace_idx m'))))"
    "returns (dnd_scroll_gesture_scroll pos m) (\<lambda>m'. rearranged cv m m' \<and> shape True m')"
    "returns (dnd_scroll_gesture_end pos m) (\<lambda>m'. rearranged cv m m' \<and> shape True m')"
proof -
  note l = looseD [OF shape_loose [OF ok(2)]]
  note n = visible_count [OF l(1)]
  note refl = rearranged_refl [OF ok(1)]
  note act = active_workspace_Some [OF ok(2)]
  have gend: "returns (workspace_switch_gesture_end touchpad pos m) (\<lambda>(m', b). rearranged cv m m' \<and> shape True m' \<and>
           (b \<longrightarrow> workspace_switch m' = Some (SwitchAnimation (active_workspace_idx m'))))" for touchpad
  proof (cases "\<exists>g. workspace_switch m = Some (SwitchGesture g) \<and>
      \<not> (case touchpad of Some x \<Rightarrow> sg_is_touchpad g \<noteq> x | None \<Rightarrow> False)")
    case False
    then have "workspace_switch_gesture_end touchpad pos m = Some (m, False)"
      by (auto simp: workspace_switch_gesture_end_def split: option.splits switch_state.splits)
    with refl ok(2) show ?thesis by simp
  next
    case True
    then obtain g where g: "workspace_switch m = Some (SwitchGesture g)"
      "\<not> (case touchpad of Some x \<Rightarrow> sg_is_touchpad g \<noteq> x | None \<Rightarrow> False)" by blast
    have "sg_center_idx g < length (vis m)" using ok(2) g(1) by (simp add: shape_def)
    from gesture_range [OF this] obtain lo hi where r: "gesture_min_max g (length (vis m)) = Some (lo, hi)" "lo \<le> hi" "hi < length (vis m)"
      by (auto elim!: returnsE)
    from clamped_index [OF r(2), of pos] obtain y where y: "clamp_real lo hi pos = Some y" "round_half_up y \<le> hi"
      by (auto elim!: returnsE)
    let ?k = "round_half_up y"
    define m1 where "m1 = (if active_workspace_idx m \<noteq> ?k
      then m\<lparr>previous_workspace_id := Some (ws_id (workspaces m ! active_workspace_idx m))\<rparr> else m)"
    define m2 where "m2 = m1\<lparr>active_workspace_idx := ?k, workspace_switch := Some (SwitchAnimation ?k)\<rparr>"
    have run: "workspace_switch_gesture_end touchpad pos m = Some (m2, True)"
      using g r(1) y(1) act n by (simp add: workspace_switch_gesture_end_def Let_def m1_def m2_def)
    have k: "?k < length (vis m)" using y(2) r(3) by simp
    have v2: "vis m2 = vis m" "hid m2 = hid m" "workspaces m2 = workspaces m" "mon_options m2 = mon_options m"
      "active_workspace_idx m2 = ?k" "workspace_switch m2 = Some (SwitchAnimation ?k)"
      by (simp_all add: m2_def m1_def vis_def hid_def)
    have "rearranged cv m m2"
      using ok(1) by (simp add: rearranged_def m2_def m1_def steady_def)
    moreover have "shape True m2"
      using ok(2) k nth_vis(2) [OF l(1) k] by (simp add: shape_def loose_def v2)
    ultimately show ?thesis using run v2 by simp
  qed
  show "returns (workspace_switch_gesture_end touchpad pos m) (\<lambda>(m', b). rearranged cv m m' \<and> shape True m' \<and>
           (b \<longrightarrow> workspace_switch m' = Some (SwitchAnimation (active_workspace_idx m'))))" by (rule gend)
  show "returns (dnd_scroll_gesture_end pos m) (\<lambda>m'. rearranged cv m m' \<and> shape True m')"
    using refl ok(2) gend [of None] by (auto simp: dnd_scroll_gesture_end_def elim!: returns_mono)
  show "returns (dnd_scroll_gesture_scroll pos m) (\<lambda>m'. rearranged cv m m' \<and> shape True m')"
  proof (cases "\<exists>g. workspace_switch m = Some (SwitchGesture g) \<and> sg_dnd g")
    case False
    then have "dnd_scroll_gesture_scroll pos m = Some m"
      by (auto simp: dnd_scroll_gesture_scroll_def split: option.splits switch_state.splits)
    with refl ok(2) show ?thesis by simp
  next
    case True
    then obtain g where g: "workspace_switch m = Some (SwitchGesture g)" "sg_dnd g" by blast
    have c: "sg_center_idx g < length (vis m)" using ok(2) g(1) by (simp add: shape_def)
    from gesture_range [OF c] obtain lo hi where r: "gesture_min_max g (length (vis m)) = Some (lo, hi)" "lo \<le> hi" "hi < length (vis m)"
      by (auto elim!: returnsE)
    from clamped_index [OF r(2), of pos] obtain y where y: "clamp_real lo hi pos = Some y" "real lo \<le> y" "y \<le> real hi"
      by (auto elim!: returnsE)
    have "0 \<le> y" "y \<le> real (length (vis m))" using y(2,3) r(3) by auto
    then have "shape True (m\<lparr>workspace_switch := Some (SwitchGesture (g\<lparr>sg_current_idx := y\<rparr>))\<rparr>)"
      using c by (intro shape_switch [OF ok(2)]) simp
    with g r(1) y(1) n rearranged_upd(3) [OF ok(1)] show ?thesis
      by (simp add: dnd_scroll_gesture_scroll_def)
  qed
qed

lemma advance_returns:
  assumes ok: "content_ok cv m" "shape True m"
  shows "returns (mon_advance_animations d m) (\<lambda>m'. rearranged cv m m' \<and> shape True m')"
proof (cases "(\<exists>k. workspace_switch m = Some (SwitchAnimation k)) \<and> d")
  case False
  then have "mon_advance_animations d m = Some m"
    by (auto simp: mon_advance_animations_def split: option.splits switch_state.splits)
  with rearranged_refl [OF ok(1)] ok(2) show ?thesis by simp
next
  case True
  have l: "loose (m\<lparr>workspace_switch := None\<rparr>)" using ok(2) by (simp add: shape_def loose_def)
  have c: "content_ok cv (m\<lparr>workspace_switch := None\<rparr>)" using ok(1) by simp
  have "returns (clean_up_workspaces (m\<lparr>workspace_switch := None\<rparr>)) (\<lambda>m'. rearranged cv m m' \<and> shape True m')"
    by (rule returns_mono [OF clean_up_workspaces_returns [OF l]])
      (use tidied_rearranged [OF c] rearranged_trans [OF rearranged_upd(3) [OF ok(1)]] in auto)
  with True show ?thesis by (auto simp: mon_advance_animations_def)
qed

section \<open>Hiding and unnaming\<close>

lemma hide_by_name_returns:
  assumes ok: "content_ok cv m" "shape True m"
  shows "returns (hide_workspace_by_name name m) (\<lambda>m'. rearranged cv m m' \<and> shape True m')"
    "returns (hide_workspace_by_id i m) (\<lambda>(m', b). rearranged cv m m' \<and> shape True m' \<and> (b \<longleftrightarrow> name_of_ws i m \<noteq> None))"
proof -
  have hide: "returns (hide_workspace_by_name name m) (\<lambda>m'. rearranged cv m m' \<and> shape True m')" for name
  proof (cases "find_named_workspace_index name m")
    case None
    with ok(2) rearranged_refl [OF ok(1)] show ?thesis by (simp add: hide_workspace_by_name_def)
  next
    case (Some k)
    from position_SomeD [OF this [unfolded find_named_workspace_index_def]]
    have "k < length (workspaces m)" "ws_name (workspaces m ! k) \<noteq> None"
      by (auto simp: named_def split: option.splits)
    from hide_named_returns [OF ok this] Some show ?thesis by (simp add: hide_workspace_by_name_def)
  qed
  show "returns (hide_workspace_by_name name m) (\<lambda>m'. rearranged cv m m' \<and> shape True m')" by (rule hide)
  show "returns (hide_workspace_by_id i m) (\<lambda>(m', b). rearranged cv m m' \<and> shape True m' \<and> (b \<longleftrightarrow> name_of_ws i m \<noteq> None))"
    using hide ok(2) rearranged_refl [OF ok(1)] by (auto simp: hide_workspace_by_id_def split: option.splits)
qed

lemma unname_simps [simp]:
  "ws_id (ws_unname ws) = ws_id ws" "ws_name (ws_unname ws) = None" "ws_hidden (ws_unname ws) = ws_hidden ws"
  "needs_hidden (ws_unname ws) = needs_hidden ws" "ws_mset (ws_unname ws) = ws_mset ws"
  "ws_ok cv (ws_unname ws) = ws_ok cv ws" "base_options (ws_unname ws) = base_options ws"
  "ws_output (ws_unname ws) = ws_output ws"
  "ws_mset (ws\<lparr>needs_hidden := b\<rparr>) = ws_mset ws" "ws_ok cv (ws\<lparr>needs_hidden := b\<rparr>) = ws_ok cv ws"
  by (simp_all add: ws_unname_def ws_mset_def ws_ok_def)

lemma unname_returns:
  assumes ok: "content_ok cv m" "shape True m"
  shows "returns (unname_workspace i m) (\<lambda>(m', b). mon_keeps cv m m' \<and> shape True m' \<and> (b \<longleftrightarrow> idx_of_ws i m \<noteq> None))"
proof -
  from unhide_workspace_by_id_returns [OF ok(1) shape_loose [OF ok(2)], of i False] obtain f m1 where
    u: "unhide_workspace_by_id i False m = Some (f, m1)"
      "case idx_of_ws i m of
        Some k \<Rightarrow> if ws_hidden (workspaces m ! k)
          then (\<exists>g. f = Some g \<and> g < length (vis m1) \<and> idx_of_ws i m1 = Some g) \<and> rearranged cv m m1 \<and>
               shape True m1 \<and> (vis m1 ! active_workspace_idx m1 = vis m ! active_workspace_idx m \<or>
                 blank (vis m ! active_workspace_idx m))
          else f = None \<and> m1 = m
      | None \<Rightarrow> f = None \<and> m1 = m"
    by (auto elim!: returnsE)
  show ?thesis
  proof (cases "idx_of_ws i m")
    case None
    with u ok(2) mon_keeps_refl [OF ok(1)] show ?thesis by (simp add: unname_workspace_def)
  next
    case (Some k0)
    have "\<exists>k. idx_of_ws i m1 = Some k \<and> k < length (workspaces m1) \<and> \<not> ws_hidden (workspaces m1 ! k) \<and>
        rearranged cv m m1 \<and> shape True m1"
    proof (cases "ws_hidden (workspaces m ! k0)")
      case True
      with Some u(2) obtain g where g: "g < length (vis m1)" "idx_of_ws i m1 = Some g" "rearranged cv m m1" "shape True m1"
        by auto
      note l1 = looseD [OF shape_loose [OF g(4)]]
      have "\<not> ws_hidden (workspaces m1 ! g)" using nth_vis [OF l1(1) g(1)] hid_nth [OF l1(1), of g] g(1) by simp
      with g nth_vis(2) [OF l1(1) g(1)] show ?thesis by blast
    next
      case False
      with Some u(2) have "m1 = m" by simp
      with Some False idx_of_ws_SomeD [OF Some] rearranged_refl [OF ok(1)] ok(2) show ?thesis by auto
    qed
    then obtain k where k: "idx_of_ws i m1 = Some k" "k < length (workspaces m1)" "\<not> ws_hidden (workspaces m1 ! k)"
      "rearranged cv m m1" "shape True m1" by blast
    have c1: "content_ok cv m1" using k(4) by (simp add: rearranged_def)
    let ?w = "workspaces m1 ! k"
    define w where "w = ws_unname (?w\<lparr>needs_hidden := False\<rparr>)"
    define m2 where "m2 = set_workspace k w m1"
    note cm = cores_at [OF k(2)]
    have w: "ws_hidden w = ws_hidden ?w" "ws_mset w = ws_mset ?w" by (simp_all add: w_def)
    have "fits cv (mon_output m1) (mon_options m1) (next_ws_id m1) (core w)"
      using fits_of [OF c1 k(2)] k(3) by (simp add: fits_def w_def)
    from cores_ok_same [OF content_okD [OF c1, unfolded cm] this]
    have "cores_ok cv (mon_output m1) (mon_options m1) (next_ws_id m2) (fl_mset (sticky m1)) (cores m2)"
      unfolding m2_def by (simp add: cores_set [OF k(2)] w(2)) (simp add: w_def name_keys_def)
    then have c2: "content_ok cv m2"
      by (intro content_cores [OF c1]) (simp_all add: m2_def)
    have mm: "mon_mset m2 = mon_mset m1"
      by (simp add: mon_mset_def m2_def cores_set [OF k(2)] cm w(2))
    have sh2: "shape False m2"
      unfolding m2_def by (rule shape_set [OF shape_weaken [OF k(5)] k(2) w(1)]) (use w(2) in \<open>auto simp: has_windows_or_name_iff w_def\<close>)
    from settle_returns [OF c2 sh2] obtain m3 where m3: "settle m2 = Some m3" "rearranged cv m2 m3" "shape True m3"
      by (auto elim!: returnsE)
    have "mon_keeps cv m1 m2" using c2 mm by (simp add: mon_keeps_def m2_def)
    then have "mon_keeps cv m m3"
      using rearranged_keeps [OF k(4)] rearranged_keeps [OF m3(2)] mon_keeps_trans by blast
    moreover have "unname_workspace i m = Some (m3, True)"
      using u(1) k(1,2) m3(1)
      by (simp add: unname_workspace_def on_workspace_def settle_def [symmetric] m2_def w_def)
    ultimately show ?thesis using m3(3) Some by simp
  qed
qed

section \<open>Configuration\<close>

lemma ws_update_config_simps [simp]:
  "ws_id (ws_update_config opts ws) = ws_id ws" "ws_name (ws_update_config opts ws) = ws_name ws"
  "ws_hidden (ws_update_config opts ws) = ws_hidden ws" "needs_hidden (ws_update_config opts ws) = needs_hidden ws"
  "ws_mset (ws_update_config opts ws) = ws_mset ws" "ws_ok cv (ws_update_config opts ws) = ws_ok cv ws"
  "base_options (ws_update_config opts ws) = opts" "ws_output (ws_update_config opts ws) = ws_output ws"
  "has_windows_or_name (ws_update_config opts ws) = has_windows_or_name ws"
  "core (ws_update_config opts ws) = ws_update_config opts (core ws)"
  by (simp_all add: ws_update_config_def ws_mset_def ws_ok_def has_windows_or_name_def ws_has_windows_def
      ws_windows_def core_def)

lemma name_keys_config: "name_keys (ws_update_config opts ws) = name_keys ws"
  by (simp add: name_keys_def)

lemma cores_ok_config:
  assumes "cores_ok cv out opts nxt st M"
  shows "cores_ok cv out opts' nxt st (image_mset (ws_update_config opts') M)"
  using assms name_keys_config [of opts']
  by (auto simp: cores_ok_def fits_def image_mset.compositionality comp_def)

definition reconfigured :: "options \<Rightarrow> options \<Rightarrow> monitor \<Rightarrow> monitor" where
  "reconfigured base opts m =
     m\<lparr>workspaces := map (ws_update_config opts) (workspaces m), mon_base_options := base, mon_options := opts\<rparr>"

lemma reconfigured_lists:
  assumes "workspaces m = vis m @ hid m"
  shows "vis (reconfigured base opts m) = map (ws_update_config opts) (vis m)"
    "hid (reconfigured base opts m) = map (ws_update_config opts) (hid m)"
    "workspaces (reconfigured base opts m) = vis (reconfigured base opts m) @ hid (reconfigured base opts m)"
proof -
  have w: "workspaces (reconfigured base opts m) = map (ws_update_config opts) (vis m) @ map (ws_update_config opts) (hid m)"
    using arg_cong [OF assms, of "map (ws_update_config opts)"] by (simp add: reconfigured_def)
  have v: "\<forall>ws \<in> set (map (ws_update_config opts) (vis m)). \<not> ws_hidden ws"
    "\<forall>ws \<in> set (map (ws_update_config opts) (hid m)). ws_hidden ws"
    using vis_visible hid_hidden by auto
  show vh: "vis (reconfigured base opts m) = map (ws_update_config opts) (vis m)"
    "hid (reconfigured base opts m) = map (ws_update_config opts) (hid m)" by (rule vis_hid_I [OF w v])+
  show "workspaces (reconfigured base opts m) = vis (reconfigured base opts m) @ hid (reconfigured base opts m)"
    unfolding vh by (rule w)
qed

lemma reconfigured_fields [simp]:
  "active_workspace_idx (reconfigured base opts m) = active_workspace_idx m" "mon_options (reconfigured base opts m) = opts"
  "workspace_switch (reconfigured base opts m) = workspace_switch m" "sticky (reconfigured base opts m) = sticky m"
  "length (workspaces (reconfigured base opts m)) = length (workspaces m)"
  by (simp_all add: reconfigured_def)

lemma reconfigured_shape:
  assumes w: "workspaces m = vis m @ hid m" "active_workspace_idx m < length (vis m)" "blank (last (vis m))"
    and top: "empty_workspace_above_first opts \<longrightarrow> blank (hd (vis m)) \<and> (hid m = [] \<longrightarrow> length (vis m) \<noteq> 2)"
    and sw: "switch_ok (workspace_switch m) (length (vis m)) (length (workspaces m))"
    and full: "workspace_switch m = None \<longrightarrow> (\<forall>i < length (vis m) - 1.
        (if empty_workspace_above_first opts then 1 else 0) \<le> i \<longrightarrow> i \<noteq> active_workspace_idx m \<longrightarrow>
        has_windows_or_name (vis m ! i))"
  shows "shape True (reconfigured base opts m)"
proof -
  note r = reconfigured_lists [OF w(1), of base opts]
  have v: "vis m \<noteq> []" using w(2) by auto
  have "loose (reconfigured base opts m)" unfolding loose_def
    using r w(2,3) top v by (simp add: last_map hd_map)
  moreover have "workspace_switch m = None \<longrightarrow> tight (reconfigured base opts m)"
    using full by (simp add: tight_def r)
  moreover have "switch_ok (workspace_switch m) (length (vis (reconfigured base opts m)))
      (length (workspaces (reconfigured base opts m)))"
    using sw unfolding reconfigured_fields r(1) length_map .
  ultimately show ?thesis using top unfolding shape_def by (simp add: r(1,2))
qed

lemma mset_blank_sum: "blank ws \<Longrightarrow> ws_mset ws = {#}"
  by (simp add: has_windows_or_name_iff)

text \<open>
  \<open>m\<close> and \<open>m\<close> with the layout part it had before the update differ in nothing an
  intermediate step looks at
\<close>

lemma mon_update_config_returns:
  assumes c: "content_ok cv (m\<lparr>mon_layout_config := part\<rparr>)" and sh: "shape True m"
  shows "returns (mon_update_config base m) (\<lambda>m'. content_ok cv m' \<and> shape True m' \<and> mon_mset m' = mon_mset m \<and>
           mon_layout_config m' = mon_layout_config m \<and> mon_base_options m' = base)"
proof -
  define opts where "opts = with_merged_layout (mon_layout_config m) base"
  note l = looseD [OF shape_loose [OF sh]]
  let ?on = "empty_workspace_above_first opts"
  have len: "length (workspaces m) = length (vis m) + length (hid m)" using arg_cong [OF l(1), of length] by simp
  have sw: "switch_ok (workspace_switch m) (length (vis m)) (length (workspaces m))"
    and two: "above_first m \<longrightarrow> hid m = [] \<longrightarrow> length (vis m) \<noteq> 2"
    and tight: "workspace_switch m = None \<longrightarrow> tight m"
    using sh by (simp_all add: shape_def)
  have cm: "cores_ok cv (mon_output m) (mon_options m) (next_ws_id m) (fl_mset (sticky m)) (cores m)"
    using content_okD [OF c] by (simp add: cores_def)
  have rest: "fl_ok cv (sticky m)" "active_space m = SpaceSticky \<longrightarrow> fl_tiles (sticky m) \<noteq> []"
    using c by (simp_all add: content_ok_def)
  have cr: "cores (reconfigured base opts m1) = image_mset (ws_update_config opts) (cores m1)" for m1
    by (simp add: cores_def reconfigured_def image_mset.compositionality comp_def)
  have content: "content_ok cv (reconfigured base opts m1)"
    if "cores_ok cv (mon_output m) (mon_options m) (next_ws_id m1) (fl_mset (sticky m)) (cores m1)"
      "steady m m1" for m1
    using cores_ok_config [OF that(1), of opts] that(2) rest unfolding content_ok_def cr
    by (simp add: steady_def reconfigured_def opts_def)
  have ms: "mon_mset (reconfigured base opts m1) = mon_mset m1" for m1
    by (simp add: mon_mset_def cr image_mset.compositionality comp_def)
  have conf: "mon_layout_config (reconfigured base opts m1) = mon_layout_config m"
    "mon_base_options (reconfigured base opts m1) = base" if "steady m m1" for m1
    using that by (simp_all add: reconfigured_def steady_def)
  have run: "mon_update_config base m = do {
      m \<leftarrow> (if above_first m \<noteq> ?on \<and> 1 < length (workspaces m)
            then (if ?on then add_workspace_top m
                  else if workspace_switch m = None \<and> active_workspace_idx m \<noteq> 0
                  then do {
                    (_, wss) \<leftarrow> vec_remove 0 (workspaces m);
                    Some (m\<lparr>workspaces := wss, active_workspace_idx := active_workspace_idx m - 1\<rparr>)
                  } else Some m)
            else Some m);
      Some (reconfigured base opts m) }"
    by (simp add: mon_update_config_def Let_def opts_def reconfigured_def cong: if_cong)
  consider (same) "above_first m = ?on \<or> length (workspaces m) \<le> 1"
    | (on) "\<not> above_first m" "?on" "1 < length (workspaces m)"
    | (off) "above_first m" "\<not> ?on" "1 < length (workspaces m)" "workspace_switch m = None" "active_workspace_idx m \<noteq> 0"
    | (keep) "above_first m" "\<not> ?on" "1 < length (workspaces m)" "\<not> (workspace_switch m = None \<and> active_workspace_idx m \<noteq> 0)"
    by fastforce
  then show ?thesis
  proof cases
    case same
    have "shape True (reconfigured base opts m)"
    proof (rule reconfigured_shape [OF l(1,2,4) _ sw])
      show "?on \<longrightarrow> blank (hd (vis m)) \<and> (hid m = [] \<longrightarrow> length (vis m) \<noteq> 2)"
      proof (cases "above_first m = ?on")
        case True
        with l(5) two show ?thesis by auto
      next
        case False
        with same have "length (workspaces m) \<le> 1" by blast
        with len l(3) have "length (vis m) = 1" by (cases "vis m") auto
        then have "hd (vis m) = last (vis m)" by (cases "vis m") auto
        with l(4) \<open>length (vis m) = 1\<close> show ?thesis by simp
      qed
      show "workspace_switch m = None \<longrightarrow> (\<forall>i < length (vis m) - 1. (if ?on then 1 else 0) \<le> i \<longrightarrow>
          i \<noteq> active_workspace_idx m \<longrightarrow> has_windows_or_name (vis m ! i))"
      proof (cases "above_first m = ?on")
        case True
        with tight show ?thesis by (simp add: tight_def)
      next
        case False
        with same len show ?thesis by auto
      qed
    qed
    with same run content [of m] cm ms conf [of m] show ?thesis by auto
  next
    case on
    let ?m = "add_result 0 m"
    have w1: "workspaces ?m = vis ?m @ hid ?m" by (rule workspaces_add_result) simp
    have st: "steady m ?m" by (simp add: steady_def add_result_def)
    have "shape True (reconfigured base opts ?m)"
    proof (rule reconfigured_shape [OF w1])
      show "active_workspace_idx ?m < length (vis ?m)" using l(2) by simp
      show "blank (last (vis ?m))" using l(3,4) by simp
      show "?on \<longrightarrow> blank (hd (vis ?m)) \<and> (hid ?m = [] \<longrightarrow> length (vis ?m) \<noteq> 2)"
        using on(3) len by auto
      show "switch_ok (workspace_switch ?m) (length (vis ?m)) (length (workspaces ?m))"
        by (rule add_result_switch_ok [OF l(1) _ sw]) simp
      show "workspace_switch ?m = None \<longrightarrow> (\<forall>i < length (vis ?m) - 1. (if ?on then 1 else 0) \<le> i \<longrightarrow>
          i \<noteq> active_workspace_idx ?m \<longrightarrow> has_windows_or_name (vis ?m ! i))"
      proof (intro impI allI)
        fix i assume i: "workspace_switch ?m = None" "i < length (vis ?m) - 1" "(if ?on then 1 else 0) \<le> i"
          "i \<noteq> active_workspace_idx ?m"
        then obtain j where j: "i = Suc j" using on(2) by (cases i) auto
        with i on(1) tight show "has_windows_or_name (vis ?m ! i)" by (simp add: tight_def)
      qed
    qed
    moreover have "cores_ok cv (mon_output m) (mon_options m) (next_ws_id ?m) (fl_mset (sticky m)) (cores ?m)"
      using cores_ok_new [OF cm] by (simp add: cores_add_result [OF l(1)])
    moreover have "mon_mset ?m = mon_mset m" by (simp add: add_result_mset [OF l(1)])
    moreover have "add_workspace_top m = Some ?m"
      unfolding add_workspace_top_def by (rule add_workspace_at_eq [OF l(1)]) simp
    ultimately show ?thesis using on run content [OF _ st] ms conf [OF st] by simp
  next
    case off
    then have n2: "1 < length (vis m)" using l(2) by simp
    obtain e v where ev: "vis m = e # v" "v \<noteq> []" using n2 by (cases "vis m"; cases "tl (vis m)") auto
    have be: "blank e" using l(5) off(1) ev by simp
    define m1 where "m1 = m\<lparr>workspaces := v @ hid m, active_workspace_idx := active_workspace_idx m - 1\<rparr>"
    have vh: "vis m1 = v" "hid m1 = hid m"
      by (rule vis_hid_I; use ev vis_visible [of _ m] hid_hidden in \<open>auto simp: m1_def\<close>)+
    have w1: "workspaces m1 = vis m1 @ hid m1" unfolding vh by (simp add: m1_def)
    have cc: "cores m = add_mset (core e) (cores m1)"
      using cores_split [OF l(1)] cores_split [OF w1] by (simp add: vh ev)
    have st: "steady m m1" by (simp add: m1_def steady_def)
    have "vec_remove 0 (workspaces m) = Some (e, v @ hid m)"
      by (subst l(1)) (simp add: ev remove_at_def)
    then have go: "mon_update_config base m = Some (reconfigured base opts m1)"
      using off run by (simp add: m1_def)
    have "shape True (reconfigured base opts m1)"
    proof (rule reconfigured_shape [OF w1])
      show "active_workspace_idx m1 < length (vis m1)" unfolding vh using l(2) ev off(5) by (simp add: m1_def)
      show "blank (last (vis m1))" using l(4) ev by (simp add: vh)
      show "?on \<longrightarrow> blank (hd (vis m1)) \<and> (hid m1 = [] \<longrightarrow> length (vis m1) \<noteq> 2)" using off(2) by simp
      show "switch_ok (workspace_switch m1) (length (vis m1)) (length (workspaces m1))" using off(4) by (simp add: m1_def)
      show "workspace_switch m1 = None \<longrightarrow> (\<forall>i < length (vis m1) - 1. (if ?on then 1 else 0) \<le> i \<longrightarrow>
          i \<noteq> active_workspace_idx m1 \<longrightarrow> has_windows_or_name (vis m1 ! i))"
      proof (intro impI allI)
        fix i assume i: "i < length (vis m1) - 1" "i \<noteq> active_workspace_idx m1"
        have "has_windows_or_name (vis m ! Suc i)"
        proof -
          have "Suc i < length (vis m) - 1" using i(1) by (simp add: vh ev)
          moreover have "Suc i \<noteq> active_workspace_idx m" using i(2) off(5) by (simp add: m1_def)
          ultimately show ?thesis using tight off(1,4) by (simp add: tight_def)
        qed
        then show "has_windows_or_name (vis m1 ! i)" by (simp add: vh ev)
      qed
    qed
    moreover have "cores_ok cv (mon_output m) (mon_options m) (next_ws_id m1) (fl_mset (sticky m)) (cores m1)"
      using cores_ok_subset [OF cm, of "cores m1"] cc by (simp add: m1_def)
    moreover have "mon_mset m1 = mon_mset m" using mset_blank_sum [OF be] by (simp add: mon_mset_def cc) (simp add: m1_def)
    ultimately show ?thesis using go content [OF _ st] ms conf [OF st] by simp
  next
    case keep
    have "shape True (reconfigured base opts m)"
    proof (rule reconfigured_shape [OF l(1,2,4) _ sw])
      show "?on \<longrightarrow> blank (hd (vis m)) \<and> (hid m = [] \<longrightarrow> length (vis m) \<noteq> 2)" using keep(2) by simp
      show "workspace_switch m = None \<longrightarrow> (\<forall>i < length (vis m) - 1. (if ?on then 1 else 0) \<le> i \<longrightarrow>
          i \<noteq> active_workspace_idx m \<longrightarrow> has_windows_or_name (vis m ! i))"
      proof (intro impI allI)
        fix i assume i: "workspace_switch m = None" "i < length (vis m) - 1" "i \<noteq> active_workspace_idx m"
        then have "1 \<le> i" using keep(4) by (cases i) auto
        with i tight keep(1) show "has_windows_or_name (vis m ! i)" by (simp add: tight_def)
      qed
    qed
    moreover have "mon_update_config base m = Some (reconfigured base opts m)" using keep run by auto
    ultimately show ?thesis using content [of m] cm ms conf [of m] by simp
  qed
qed

lemma mon_update_layout_config_returns:
  assumes "content_ok cv m" "shape True m"
  shows "returns (mon_update_layout_config part m) (\<lambda>(m', b). content_ok cv m' \<and> shape True m' \<and> mon_mset m' = mon_mset m \<and>
           (b \<longleftrightarrow> mon_layout_config m \<noteq> part))"
proof (cases "mon_layout_config m = part")
  case True
  with assms show ?thesis by (simp add: mon_update_layout_config_def)
next
  case False
  let ?m = "m\<lparr>mon_layout_config := part\<rparr>"
  have "?m\<lparr>mon_layout_config := mon_layout_config m\<rparr> = m" by simp
  then have "content_ok cv (?m\<lparr>mon_layout_config := mon_layout_config m\<rparr>)" using assms(1) by simp
  moreover have "shape True ?m" using assms(2) by (simp add: shape_def loose_def tight_def vis_def hid_def)
  ultimately have "returns (mon_update_config (mon_base_options m) ?m) (\<lambda>m'. content_ok cv m' \<and> shape True m' \<and> mon_mset m' = mon_mset ?m)"
    by (intro returns_mono [OF mon_update_config_returns [of cv "mon_layout_config m" ?m]]) auto
  moreover have "mon_mset ?m = mon_mset m" by (simp add: mon_mset_def cores_def)
  ultimately show ?thesis using False by (simp add: mon_update_layout_config_def)
qed

end
