(* ===== verification/MonitorSpec.thy ===== *)
theory MonitorSpec
  imports MonitorConfig
begin

text \<open>
  Sticky windows, the monitor as a state machine, and what it promises: no sequence of
  operations panics or breaks \<open>verify_invariants\<close>, windows are only gained and lost where an
  operation says so, and switching, hiding and moving do what their names say.
\<close>

section \<open>Sticky windows\<close>

lemma content_sticky:
  assumes ok: "content_ok cv m" and f: "fl_ok cv f" "a = SpaceSticky \<Longrightarrow> fl_tiles f \<noteq> []"
    and d: "distinct_mset (fl_mset f + (mon_mset m - fl_mset (sticky m)))"
  shows "content_ok cv (m\<lparr>sticky := f, active_space := a\<rparr>)"
    "mon_mset (m\<lparr>sticky := f, active_space := a\<rparr>) = fl_mset f + (mon_mset m - fl_mset (sticky m))"
    "shape t (m\<lparr>sticky := f, active_space := a\<rparr>) = shape t m"
proof -
  let ?m = "m\<lparr>sticky := f, active_space := a\<rparr>"
  have c: "cores ?m = cores m" by (simp add: cores_def)
  show "mon_mset ?m = fl_mset f + (mon_mset m - fl_mset (sticky m))"
    by (simp add: mon_mset_def c)
  have "distinct_mset (fl_mset f + \<Sum>\<^sub># (image_mset ws_mset (cores m)))"
    using d by (simp add: mon_mset_def)
  then have "cores_ok cv (mon_output m) (mon_options m) (next_ws_id m) (fl_mset f) (cores m)"
    using content_okD [OF ok] by (simp add: cores_ok_def)
  with ok f show "content_ok cv ?m" by (simp add: content_ok_def c)
  show "shape t ?m = shape t m" by (simp add: shape_def loose_def tight_def vis_def hid_def)
qed

lemma sticky_within: "mon_mset m = fl_mset (sticky m) + (mon_mset m - fl_mset (sticky m))"
  by (simp add: mon_mset_def)

lemma fl_mset_empty: "fl_tiles f = [] \<longleftrightarrow> fl_mset f = {#}"
  by (simp add: fl_mset_tiles)

lemma add_sticky_tile_returns:
  assumes cv: "parents_acyclic cv" and ok: "content_ok cv m" "shape t m" and fresh: "win new_tile \<notin># mon_mset m"
  shows "returns (add_sticky_tile cv new_tile activate m) (\<lambda>m'. content_ok cv m' \<and> shape t m' \<and>
           mon_mset m' = add_mset (win new_tile) (mon_mset m) \<and>
           (activate \<longrightarrow> mon_active_window m' = Some (Some (win new_tile))))"
proof -
  have f: "fl_ok cv (sticky m)" using ok(1) by (simp add: content_ok_def)
  let ?t = "new_tile\<lparr>restore_to_floating := True\<rparr>"
  from fl_add_tile_returns [OF cv f, of ?t activate] obtain g where
    g: "fl_add_tile cv ?t activate (sticky m) = Some g" "fl_ok cv g" "fl_mset g = add_mset (win new_tile) (fl_mset (sticky m))"
      "fl_active g = (if activate \<or> fl_tiles (sticky m) = [] then Some (win new_tile) else fl_active (sticky m))"
    by (auto elim!: returnsE)
  have ne: "fl_tiles g \<noteq> []" using g(3) by (simp add: fl_mset_empty)
  have e: "fl_mset g + (mon_mset m - fl_mset (sticky m)) = add_mset (win new_tile) (mon_mset m)"
    using sticky_within [of m] g(3) by simp
  define a where "a = (if activate then SpaceSticky else active_space m)"
  have "distinct_mset (fl_mset g + (mon_mset m - fl_mset (sticky m)))"
    using mon_mset_distinct [OF ok(1)] fresh unfolding e by simp
  note cs = content_sticky [where a = a, OF ok(1) g(2) _ this]
  have "add_sticky_tile cv new_tile activate m = Some (m\<lparr>sticky := g, active_space := a\<rparr>)"
    using g(1) by (simp add: add_sticky_tile_def Let_def a_def)
  moreover have "activate \<Longrightarrow> mon_active_window (m\<lparr>sticky := g, active_space := a\<rparr>) = Some (Some (win new_tile))"
    using fl_active_window_eq [OF g(2)] g(4) by (simp add: mon_active_window_def a_def)
  ultimately show ?thesis using cs ne ok(2) unfolding e by simp
qed

lemma remove_sticky_tile_returns:
  assumes ok: "content_ok cv m" "shape t m"
  shows "returns (remove_sticky_tile cv w m) (\<lambda>(r, m'). content_ok cv m' \<and> shape t m' \<and>
           (case r of
              None \<Rightarrow> m' = m \<and> w \<notin> set (fl_windows (sticky m))
            | Some r \<Rightarrow> win (rt_tile r) = w \<and> rt_is_sticky r \<and> mon_mset m = add_mset w (mon_mset m')))"
proof (cases "w \<in> set (fl_windows (sticky m))")
  case False
  with ok show ?thesis by (simp add: remove_sticky_tile_def)
next
  case True
  have f: "fl_ok cv (sticky m)" using ok(1) by (simp add: content_ok_def)
  from fl_remove_tile_returns [OF f True] obtain r g where
    r: "fl_remove_tile cv w (sticky m) = Some (r, g)" "fl_ok cv g" "win (rt_tile r) = w"
      "fl_mset (sticky m) = add_mset w (fl_mset g)"
    by (auto elim!: returnsE)
  define a where "a = (if active_space m = SpaceSticky \<and> fl_active_window g = None then SpaceWorkspace else active_space m)"
  have e: "mon_mset m = add_mset w (fl_mset g + (mon_mset m - fl_mset (sticky m)))"
    using sticky_within [of m] r(4) by simp
  have d: "distinct_mset (fl_mset g + (mon_mset m - fl_mset (sticky m)))"
    using mon_mset_distinct [OF ok(1)] by (subst (asm) e) simp
  have ne: "a = SpaceSticky \<Longrightarrow> fl_tiles g \<noteq> []"
    using fl_active_window_eq [OF r(2)] fl_okD(2) [OF r(2)] by (auto simp: a_def split: if_splits)
  note cs = content_sticky [OF ok(1) r(2) ne d]
  have "remove_sticky_tile cv w m = Some (Some (r\<lparr>rt_is_sticky := True\<rparr>), m\<lparr>sticky := g, active_space := a\<rparr>)"
    using True r(1) by (simp add: remove_sticky_tile_def Let_def a_def)
  moreover have "mon_mset m = add_mset w (mon_mset (m\<lparr>sticky := g, active_space := a\<rparr>))"
    using e cs(2) by simp
  ultimately show ?thesis using cs(1,3) ok(2) r(3) by simp
qed

lemma sticky_keeps:
  assumes "content_ok cv m" "shape t m" "fl_keeps cv (sticky m) f" "a = SpaceSticky \<Longrightarrow> fl_tiles f \<noteq> []"
  shows "content_ok cv (m\<lparr>sticky := f, active_space := a\<rparr>) \<and> shape t (m\<lparr>sticky := f, active_space := a\<rparr>) \<and>
           mon_mset (m\<lparr>sticky := f, active_space := a\<rparr>) = mon_mset m"
proof -
  have k: "fl_ok cv f" "fl_mset f = fl_mset (sticky m)" using assms(3) by (simp_all add: fl_keeps_def)
  have e: "fl_mset f + (mon_mset m - fl_mset (sticky m)) = mon_mset m" using sticky_within [of m] k(2) by simp
  have "distinct_mset (fl_mset f + (mon_mset m - fl_mset (sticky m)))"
    using mon_mset_distinct [OF assms(1)] unfolding e .
  from content_sticky [OF assms(1) k(1) assms(4) this] assms(2) show ?thesis unfolding e by simp
qed

definition keeps_windows :: "client_view \<Rightarrow> monitor \<Rightarrow> monitor \<Rightarrow> bool" where
  "keeps_windows cv m m' \<longleftrightarrow> mon_ok cv m' \<and> mon_mset m' = mon_mset m"

lemma keeps_windowsI: "content_ok cv m' \<Longrightarrow> shape True m' \<Longrightarrow> mon_mset m' = mon_mset m \<Longrightarrow> keeps_windows cv m m'"
  by (simp add: keeps_windows_def mon_ok_def)

lemma rearranged_keeps_windows: "rearranged cv m m' \<Longrightarrow> shape True m' \<Longrightarrow> keeps_windows cv m m'"
  using rearranged_windows [of cv m m'] by (simp add: keeps_windows_def mon_ok_def rearranged_def)

lemma mon_keeps_windows: "mon_keeps cv m m' \<Longrightarrow> shape True m' \<Longrightarrow> keeps_windows cv m m'"
  by (simp add: keeps_windows_def mon_ok_def mon_keeps_def)

lemma sticky_ops_keep:
  assumes cv: "parents_acyclic cv" and ok: "mon_ok cv m"
  shows "returns (activate_sticky_window cv w m) (\<lambda>(m', b). keeps_windows cv m m' \<and>
           (b \<longleftrightarrow> w \<in> set (fl_windows (sticky m))) \<and> (b \<longrightarrow> mon_active_window m' = Some (Some w)))"
    "keeps_windows cv m (fst (activate_sticky_window_without_raising w m))"
    "keeps_windows cv m (focus_workspace m)"
    "returns (mon_focus_floating m) (keeps_windows cv m)"
    "returns (mon_focus_tiling m) (keeps_windows cv m)"
    "returns (mon_switch_focus_floating_tiling m) (keeps_windows cv m)"
proof -
  have c: "content_ok cv m" and sh: "shape True m" using ok by (simp_all add: mon_ok_def)
  have f: "fl_ok cv (sticky m)" using c by (simp add: content_ok_def)
  have refl: "keeps_windows cv m m" using ok by (simp add: keeps_windows_def)
  note a = active_workspace_Some [OF sh]
  have stick: "keeps_windows cv m (m\<lparr>sticky := g, active_space := s\<rparr>)"
    if "fl_keeps cv (sticky m) g" "s = SpaceSticky \<Longrightarrow> fl_tiles g \<noteq> []" for g s
    using sticky_keeps [OF c sh that] by (blast intro: keeps_windowsI)
  have space: "keeps_windows cv m (m\<lparr>active_space := s\<rparr>)" if "s = SpaceSticky \<Longrightarrow> fl_tiles (sticky m) \<noteq> []" for s
    using stick [OF fl_keeps_refl [OF f], of s] that by simp
  from fl_activate_window_returns [OF cv f, of w] obtain g b where
    g: "fl_activate_window cv w (sticky m) = Some (g, b)" "fl_keeps cv (sticky m) g"
      "b \<longleftrightarrow> w \<in> set (fl_windows (sticky m))" "b \<Longrightarrow> fl_active g = Some w"
    by (auto simp: fl_keeps_def elim!: returnsE)
  have gne: "b \<Longrightarrow> fl_tiles g \<noteq> []" using fl_keeps_empty [OF g(2)] g(3) by (auto simp: fl_windows_def)
  have "b \<Longrightarrow> mon_active_window (m\<lparr>sticky := g, active_space := SpaceSticky\<rparr>) = Some (Some w)"
    using fl_active_window_eq g(2,4) by (auto simp: mon_active_window_def fl_keeps_def)
  then show "returns (activate_sticky_window cv w m) (\<lambda>(m', b). keeps_windows cv m m' \<and>
           (b \<longleftrightarrow> w \<in> set (fl_windows (sticky m))) \<and> (b \<longrightarrow> mon_active_window m' = Some (Some w)))"
    using g stick [OF g(2), of SpaceSticky] gne refl by (cases b) (simp_all add: activate_sticky_window_def)
  show "keeps_windows cv m (fst (activate_sticky_window_without_raising w m))"
  proof (cases "fl_activate_window_without_raising w (sticky m)")
    case (Pair g b)
    have k: "fl_keeps cv (sticky m) g" using fl_activate_without_raising_keeps [OF f, of w] Pair by simp
    have "b \<Longrightarrow> fl_tiles (sticky m) \<noteq> []"
      using Pair idx_of_None [of w "sticky m"] by (auto simp: fl_activate_window_without_raising_def fl_windows_def split: if_splits)
    with Pair k stick [OF k, of SpaceSticky] fl_keeps_empty [OF k] refl show ?thesis
      by (cases b) (simp_all add: activate_sticky_window_without_raising_def)
  qed
  show fw: "keeps_windows cv m (focus_workspace m)" using space [of SpaceWorkspace] by (simp add: focus_workspace_def)
  have on: "returns (on_active_workspace f m') (\<lambda>m''. keeps_windows cv m m'')"
    if "keeps_windows cv m m'" "\<And>ws. ws_ok cv ws \<Longrightarrow> returns (f ws) (ws_keeps cv ws)" for f m'
  proof -
    have "content_ok cv m'" "shape True m'" "mon_mset m' = mon_mset m"
      using that(1) by (simp_all add: keeps_windows_def mon_ok_def)
    with on_active_returns [OF this(1,2) that(2)] show ?thesis
      by (auto simp: mon_keeps_def intro: keeps_windowsI elim!: returns_mono)
  qed
  show fl: "returns (mon_focus_floating m) (keeps_windows cv m)"
    using a refl space [of SpaceSticky] on [OF refl, of "\<lambda>ws. Some (focus_floating ws)"] focus_floating_keeps
    by (auto simp: mon_focus_floating_def)
  show ti: "returns (mon_focus_tiling m) (keeps_windows cv m)"
    using a refl on [OF fw, of "\<lambda>ws. Some (focus_tiling ws)"] focus_floating_keeps
    by (auto simp: mon_focus_tiling_def)
  show "returns (mon_switch_focus_floating_tiling m) (keeps_windows cv m)"
    using a fl ti by (simp add: mon_switch_focus_floating_tiling_def)
qed

section \<open>Operations as data\<close>

datatype mon_op =
    MonAddWindow tile mon_add_target activate_request column_width bool bool bool bool
  | MonAddColumn nat column bool
  | MonAddTileToColumn nat nat "nat option" tile bool bool
  | MonRemoveSticky win_id | MonActivateSticky win_id | MonActivateStickyQuietly win_id
  | MonFocusWorkspace | MonFocusFloating | MonFocusTiling | MonSwitchFocus
  | MonActive ws_op
  | MonMoveToWorkspace "win_id option" nat activate_request bool
  | MonMoveToWorkspaceUp activate_request | MonMoveToWorkspaceDown activate_request
  | MonMoveColumnToWorkspace nat bool bool
  | MonMoveColumnToWorkspaceUp bool | MonMoveColumnToWorkspaceDown bool
  | MonMoveDownOrWorkspaceDown | MonMoveUpOrWorkspaceUp
  | MonFocusDownOrWorkspaceDown | MonFocusUpOrWorkspaceUp
  | MonSwitchUp | MonSwitchDown | MonSwitch nat bool | MonSwitchBackAndForth nat | MonSwitchPrevious
  | MonMoveWorkspaceUp | MonMoveWorkspaceDown | MonMoveWorkspaceToIdx nat nat
  | MonHideByName string | MonHideById nat | MonUnhideById nat bool | MonUnname nat
  | MonGestureBegin real bool | MonGestureUpdate real bool | MonGestureEnd "bool option" real
  | MonDndBegin real | MonDndScroll real | MonDndEnd real
  | MonAdvance bool
  | MonUpdateConfig options | MonUpdateLayoutConfig "layout_part option"

fun mon_exec :: "client_view \<Rightarrow> mon_op \<Rightarrow> monitor \<Rightarrow> monitor option" where
  "mon_exec cv (MonAddWindow t tg a w full fl st force) m = mon_add_window cv t tg a w full fl st force m"
| "mon_exec cv (MonAddColumn k c a) m = mon_add_column k c a m"
| "mon_exec cv (MonAddTileToColumn k ci ti t a allow) m = mon_add_tile_to_column k ci ti t a allow m"
| "mon_exec cv (MonRemoveSticky w) m = map_option snd (remove_sticky_tile cv w m)"
| "mon_exec cv (MonActivateSticky w) m = map_option fst (activate_sticky_window cv w m)"
| "mon_exec cv (MonActivateStickyQuietly w) m = Some (fst (activate_sticky_window_without_raising w m))"
| "mon_exec cv MonFocusWorkspace m = Some (focus_workspace m)"
| "mon_exec cv MonFocusFloating m = mon_focus_floating m"
| "mon_exec cv MonFocusTiling m = mon_focus_tiling m"
| "mon_exec cv MonSwitchFocus m = mon_switch_focus_floating_tiling m"
| "mon_exec cv (MonActive op) m = on_active_workspace (ws_exec cv op) m"
| "mon_exec cv (MonMoveToWorkspace w k a h) m = move_to_workspace cv w k a h m"
| "mon_exec cv (MonMoveToWorkspaceUp a) m = move_to_workspace_up cv a m"
| "mon_exec cv (MonMoveToWorkspaceDown a) m = move_to_workspace_down cv a m"
| "mon_exec cv (MonMoveColumnToWorkspace k a h) m = move_column_to_workspace cv k a h m"
| "mon_exec cv (MonMoveColumnToWorkspaceUp a) m = move_column_to_workspace_up cv a m"
| "mon_exec cv (MonMoveColumnToWorkspaceDown a) m = move_column_to_workspace_down cv a m"
| "mon_exec cv MonMoveDownOrWorkspaceDown m = move_down_or_to_workspace_down cv m"
| "mon_exec cv MonMoveUpOrWorkspaceUp m = move_up_or_to_workspace_up cv m"
| "mon_exec cv MonFocusDownOrWorkspaceDown m = focus_window_or_workspace_down cv m"
| "mon_exec cv MonFocusUpOrWorkspaceUp m = focus_window_or_workspace_up cv m"
| "mon_exec cv MonSwitchUp m = switch_workspace_up m"
| "mon_exec cv MonSwitchDown m = switch_workspace_down m"
| "mon_exec cv (MonSwitch k force) m = switch_workspace k force m"
| "mon_exec cv (MonSwitchBackAndForth k) m = switch_workspace_auto_back_and_forth k m"
| "mon_exec cv MonSwitchPrevious m = switch_workspace_previous m"
| "mon_exec cv MonMoveWorkspaceUp m = move_workspace_up m"
| "mon_exec cv MonMoveWorkspaceDown m = move_workspace_down m"
| "mon_exec cv (MonMoveWorkspaceToIdx i k) m = move_workspace_to_idx i k m"
| "mon_exec cv (MonHideByName n) m = hide_workspace_by_name n m"
| "mon_exec cv (MonHideById i) m = map_option fst (hide_workspace_by_id i m)"
| "mon_exec cv (MonUnhideById i needs) m = map_option snd (unhide_workspace_by_id i needs m)"
| "mon_exec cv (MonUnname i) m = map_option fst (unname_workspace i m)"
| "mon_exec cv (MonGestureBegin pos tp) m = Some (workspace_switch_gesture_begin pos tp m)"
| "mon_exec cv (MonGestureUpdate pos tp) m = Some (fst (workspace_switch_gesture_update pos tp m))"
| "mon_exec cv (MonGestureEnd tp pos) m = map_option fst (workspace_switch_gesture_end tp pos m)"
| "mon_exec cv (MonDndBegin pos) m = Some (dnd_scroll_gesture_begin pos m)"
| "mon_exec cv (MonDndScroll pos) m = dnd_scroll_gesture_scroll pos m"
| "mon_exec cv (MonDndEnd pos) m = dnd_scroll_gesture_end pos m"
| "mon_exec cv (MonAdvance is_done) m = mon_advance_animations is_done m"
| "mon_exec cv (MonUpdateConfig opts) m = mon_update_config opts m"
| "mon_exec cv (MonUpdateLayoutConfig part) m = map_option fst (mon_update_layout_config part m)"

text \<open>
  What the layout guarantees: a window that arrives is new to the monitor, targets exist, a
  window that is moved is there. The drag-and-drop gesture starts at the rendered position,
  which lies between the first and the last visible workspace.
\<close>

definition add_enabled :: "tile \<Rightarrow> mon_add_target \<Rightarrow> bool \<Rightarrow> monitor \<Rightarrow> bool" where
  "add_enabled t target is_sticky m \<longleftrightarrow>
     win t \<notin> set (mon_windows m) \<and>
     (is_sticky \<or>
      (case resolve_add_window_target target m of
         None \<Rightarrow> False
       | Some (k, tg) \<Rightarrow> k < length (workspaces m) \<and> target_valid tg (workspaces m ! k)))"

fun mon_enabled :: "mon_op \<Rightarrow> monitor \<Rightarrow> bool" where
  "mon_enabled (MonAddWindow t tg a w full fl st force) m = add_enabled t tg st m"
| "mon_enabled (MonAddColumn k c a) m =
     (k < length (workspaces m) \<and> col_ok c \<and> distinct (wins c) \<and> set (wins c) \<inter> set (mon_windows m) = {})"
| "mon_enabled (MonAddTileToColumn k ci ti t a allow) m =
     (k < length (workspaces m) \<and> win t \<notin> set (mon_windows m) \<and>
      ci < length (columns (ws_scrolling (workspaces m ! k))) \<and>
      (case ti of Some i \<Rightarrow> i \<le> length (tiles (columns (ws_scrolling (workspaces m ! k)) ! ci)) | None \<Rightarrow> True))"
| "mon_enabled (MonActive op) m =
     (keeping op \<and> (\<forall>ws \<in> set (workspaces m). active_workspace m = Some ws \<longrightarrow> ws_enabled op ws))"
| "mon_enabled (MonMoveToWorkspace w k a h) m =
     (case w of Some w \<Rightarrow> list_ex (ws_has_window w) (workspaces m) | None \<Rightarrow> True)"
| "mon_enabled (MonDndBegin pos) m = (0 \<le> pos \<and> pos \<le> real (visible_workspace_count m))"
| "mon_enabled _ m = True"

text \<open>The operations that take a window in or out\<close>

fun trades_windows :: "mon_op \<Rightarrow> bool" where
  "trades_windows (MonAddWindow t tg a w full fl st force) = True"
| "trades_windows (MonAddColumn k c a) = True"
| "trades_windows (MonAddTileToColumn k ci ti t a allow) = True"
| "trades_windows (MonRemoveSticky w) = True"
| "trades_windows _ = False"

definition mon_good :: "client_view \<Rightarrow> monitor \<Rightarrow> bool" where
  "mon_good cv m \<longleftrightarrow> parents_acyclic cv \<and> mon_ok cv m"

lemma mon_add_tile_to_column_returns:
  assumes ok: "content_ok cv m" "shape True m" and k: "k < length (workspaces m)"
    and t: "win new_tile \<notin># mon_mset m" "ci < length (columns (ws_scrolling (workspaces m ! k)))"
      "case ti of Some i \<Rightarrow> i \<le> length (tiles (columns (ws_scrolling (workspaces m ! k)) ! ci)) | None \<Rightarrow> True"
  shows "returns (mon_add_tile_to_column k ci ti new_tile activate allow m) (\<lambda>m'. content_ok cv m' \<and> shape True m' \<and>
           mon_mset m' = add_mset (win new_tile) (mon_mset m))"
proof -
  from unhide_if_returns [OF ok k, of "allow \<and> activate"] obtain j m1 where
    m1: "unhide_if (allow \<and> activate) k m = Some (j, m1)" "rearranged cv m m1" "shape True m1" "j < length (workspaces m1)"
      "body (workspaces m1 ! j) = body (workspaces m ! k)" "allow \<and> activate \<longrightarrow> j < length (vis m1)"
    by (auto elim!: returnsE)
  have c1: "content_ok cv m1" and ms: "mon_mset m1 = mon_mset m"
    using m1(2) rearranged_windows [OF m1(2)] by (simp_all add: rearranged_def)
  let ?w = "workspaces m1 ! j"
  have okw: "ws_ok cv ?w" by (rule ws_ok_of [OF c1 m1(4)])
  have sub: "ws_mset ?w \<subseteq># mon_mset m1" by (rule ws_mset_within [OF m1(4)])
  then have "win new_tile \<notin># ws_mset ?w" using t(1) ms by (metis mset_subset_eqD)
  then have "returns (ws_add_tile_to_column ci ti new_tile activate ?w) (ws_gains cv {#win new_tile#} ?w)"
    using ws_add_tile_to_column_returns [OF okw, of new_tile ci ti activate] t(2,3)
    unfolding body_eqD(5) [OF m1(5)] by (simp add: ws_mset_windows)
  then obtain w0 where w0: "ws_add_tile_to_column ci ti new_tile activate ?w = Some w0" "ws_gains cv {#win new_tile#} ?w w0"
    by (auto elim!: returnsE)
  define w where "w = own_if_unnamed (mon_output m1) w0"
  have w: "ws_ok cv w" "ws_mset w = add_mset (win new_tile) (ws_mset ?w)" "alike ?w w"
    using w0(2) alike_frame by (simp_all add: ws_gains_def w_def)
  define m2 where "m2 = set_workspace j w m1"
  have e: "ws_mset w + (mon_mset m1 - ws_mset ?w) = add_mset (win new_tile) (mon_mset m)"
    using sub w(2) ms by simp
  have "distinct_mset (ws_mset w + (mon_mset m1 - ws_mset ?w))"
    unfolding e using t(1) mon_mset_distinct [OF ok(1)] by simp
  note c2 = content_set [OF c1 m1(4) w(1,3) this, folded m2_def, unfolded e]
  have cne: "columns (ws_scrolling ?w) \<noteq> []" using t(2) body_eqD(5) [OF m1(5)] by auto
  then have "ws_mset ?w \<noteq> {#}"
    using scrolling_empty_iff [OF ws_okD(1) [OF okw]] by (simp add: ws_mset_def)
  then have h: "has_windows_or_name ?w" by (simp add: has_windows_or_name_iff)
  have "shape True m2"
    unfolding m2_def by (rule shape_set [OF m1(3,4)]) (use w(2,3) h in \<open>simp_all add: alike_def has_windows_or_name_iff\<close>)
  note sh2 = this
  have run: "mon_add_tile_to_column k ci ti new_tile activate allow m = (if allow \<and> activate then activate_workspace j m2 else Some m2)"
    using m1(1,4) w0(1) by (simp add: mon_add_tile_to_column_def on_workspace_def m2_def w_def)
  show ?thesis
  proof (cases "allow \<and> activate")
    case False
    with run c2 sh2 show ?thesis by auto
  next
    case True
    have "length (vis m2) = length (vis m1)"
      using set_lists(1) [OF looseD(1) [OF shape_loose [OF m1(3)]] m1(4), of w] w(3) by (simp add: m2_def alike_def)
    then have "j < length (vis m2)" using True m1(6) by simp
    from activates [OF c2(1) sh2 this] True run show ?thesis
      using rearranged_windows c2(2) by (auto simp: switches_def rearranged_def elim!: returns_mono)
  qed
qed

lemma mon_add_window_returns:
  assumes cv: "parents_acyclic cv" and ok: "content_ok cv m" "shape True m"
    and en: "add_enabled new_tile target is_sticky m"
  shows "returns (mon_add_window cv new_tile target activate width full fl is_sticky force m)
           (\<lambda>m'. content_ok cv m' \<and> shape True m' \<and> mon_mset m' = add_mset (win new_tile) (mon_mset m))"
proof -
  have fresh: "win new_tile \<notin># mon_mset m" using en by (simp add: add_enabled_def mon_mset_windows)
  note a = active_workspace_Some [OF ok(2)]
  show ?thesis
  proof (cases is_sticky)
    case True
    have "returns (map_smart activate (do { ws \<leftarrow> active_workspace m;
                map_option Not (is_active_pending_fullscreen (ws_scrolling ws)) })) (\<lambda>_. True)"
      using a fullscreen_returns [OF ws_okD(1) [OF ws_ok_of [OF ok(1) a(2)]]]
      by (intro map_smart_returns) (simp add: returns_def)
    then obtain act where "map_smart activate (do { ws \<leftarrow> active_workspace m;
                map_option Not (is_active_pending_fullscreen (ws_scrolling ws)) }) = Some act"
      by (auto elim!: returnsE)
    with True add_sticky_tile_returns [OF cv ok fresh, of act] show ?thesis
      by (auto simp: mon_add_window_def elim!: returns_mono)
  next
    case False
    with en obtain k tg where r: "resolve_add_window_target target m = Some (k, tg)" "k < length (workspaces m)"
      "target_valid tg (workspaces m ! k)"
      by (auto simp: add_enabled_def split: option.splits)
    have "workspaces m \<noteq> []" using r(2) by auto
    moreover have "returns (mon_add_tile cv new_tile target activate True width full is_floating force m)
        (\<lambda>m'. content_ok cv m' \<and> shape True m' \<and> mon_mset m' = add_mset (win new_tile) (mon_mset m))" for is_floating
      by (rule returns_mono [OF mon_add_tile_returns [OF cv ok r fresh]]) (simp add: took_in_def)
    ultimately show ?thesis using False by (simp add: mon_add_window_def)
  qed
qed

lemma trade_step:
  assumes cv: "parents_acyclic cv" and ok: "mon_ok cv m" and en: "mon_enabled op m" and tr: "trades_windows op"
  shows "returns (mon_exec cv op m) (mon_ok cv)"
proof -
  have c: "content_ok cv m" and sh: "shape True m" using ok by (simp_all add: mon_ok_def)
  show ?thesis
  proof (cases op)
    case (MonAddWindow t tg a w full fl st force)
    with en mon_add_window_returns [OF cv c sh, of t tg st a w full fl force] show ?thesis
      by (auto simp: mon_ok_def elim!: returns_mono)
  next
    case (MonAddColumn k col a)
    with en mon_add_column_returns [OF c sh, of k col a] show ?thesis
      by (auto simp: mon_ok_def mon_mset_windows took_in_def elim!: returns_mono)
  next
    case (MonAddTileToColumn k ci ti t a allow)
    with en mon_add_tile_to_column_returns [OF c sh, of k t ci ti a allow] show ?thesis
      by (auto simp: mon_ok_def mon_mset_windows elim!: returns_mono)
  next
    case (MonRemoveSticky w)
    with remove_sticky_tile_returns [OF c sh, of w] show ?thesis
      by (auto simp: mon_ok_def elim!: returns_mono)
  qed (use tr in simp_all)
qed

lemma keep_step:
  assumes cv: "parents_acyclic cv" and ok: "mon_ok cv m" and en: "mon_enabled op m" and tr: "\<not> trades_windows op"
  shows "returns (mon_exec cv op m) (keeps_windows cv m)"
proof -
  have c: "content_ok cv m" and sh: "shape True m" using ok by (simp_all add: mon_ok_def)
  note a = active_workspace_Some [OF sh]
  have re: "returns r (keeps_windows cv m)" if "returns r (\<lambda>m'. rearranged cv m m' \<and> shape True m')" for r
    using that by (auto intro: rearranged_keeps_windows elim!: returns_mono)
  have mk: "returns r (keeps_windows cv m)" if "returns r (\<lambda>m'. mon_keeps cv m m' \<and> shape True m')" for r
    using that by (auto intro: mon_keeps_windows elim!: returns_mono)
  have up: "returns (switch_workspace_up m') (keeps_windows cv m)" "returns (switch_workspace_down m') (keeps_windows cv m)"
    if "keeps_windows cv m m'" for m'
  proof -
    have k: "content_ok cv m'" "shape True m'" "mon_mset m' = mon_mset m" using that by (simp_all add: keeps_windows_def mon_ok_def)
    then have "keeps_windows cv m m''" if "rearranged cv m' m''" "shape True m''" for m''
      using rearranged_keeps_windows [OF that] by (simp add: keeps_windows_def)
    note k2 = this
    show "returns (switch_workspace_up m') (keeps_windows cv m)"
      by (rule returns_mono [OF switch_workspace_up_returns [OF k(1,2)]]) (use k2 in \<open>auto simp: switches_def\<close>)
    show "returns (switch_workspace_down m') (keeps_windows cv m)"
      by (rule returns_mono [OF switch_workspace_down_returns [OF k(1,2)]]) (use k2 that in \<open>auto simp: switches_def\<close>)
  qed
  have mv: "returns (move_to_workspace_up cv x m') (keeps_windows cv m)" "returns (move_to_workspace_down cv x m') (keeps_windows cv m)"
    if "keeps_windows cv m m'" for m' x
  proof -
    have k: "content_ok cv m'" "shape True m'" "mon_mset m' = mon_mset m" using that by (simp_all add: keeps_windows_def mon_ok_def)
    then have "keeps_windows cv m m''" if "mon_keeps cv m' m''" "shape True m''" for m''
      using mon_keeps_windows [OF that] by (simp add: keeps_windows_def)
    note k2 = this
    show "returns (move_to_workspace_up cv x m') (keeps_windows cv m)"
      by (rule returns_mono [OF move_up_down_returns(1) [OF cv k(1,2)]]) (use k2 in blast)
    show "returns (move_to_workspace_down cv x m') (keeps_windows cv m)"
      by (rule returns_mono [OF move_up_down_returns(2) [OF cv k(1,2)]]) (use k2 in blast)
  qed
  have refl: "keeps_windows cv m m" using ok by (simp add: keeps_windows_def)
  have flag: "returns (active_workspace_flag f m) (\<lambda>(m', b). keeps_windows cv m m')"
    if "\<And>ws. ws_ok cv ws \<Longrightarrow> returns (f ws) (\<lambda>(ws', b). ws_keeps cv ws ws')" for f
    using active_flag_returns [OF c sh that] by (auto intro: mon_keeps_windows elim!: returns_mono)
  note flags = flag [OF ws_move_keeps(3)] flag [OF ws_move_keeps(4)]
  have fl: "returns (active_workspace_flag (ws_focus_down cv) m) (\<lambda>(m', b). keeps_windows cv m m')"
    "returns (active_workspace_flag (ws_focus_up cv) m) (\<lambda>(m', b). keeps_windows cv m m')"
    "returns (active_workspace_flag ws_move_down m) (\<lambda>(m', b). keeps_windows cv m m')"
    "returns (active_workspace_flag ws_move_up m) (\<lambda>(m', b). keeps_windows cv m m')"
    using ws_focus_keeps [OF cv] ws_move_keeps by (auto intro!: flag)
  note st = sticky_ops_keep [OF cv ok]
  show ?thesis
  proof (cases op)
    case (MonActivateSticky w)
    with st(1) [of w] show ?thesis by (auto elim!: returns_mono)
  next
    case (MonActive ws_op)
    let ?w = "workspaces m ! active_workspace_idx m"
    have okw: "ws_ok cv ?w" by (rule ws_ok_of [OF c a(2)])
    have "keeping ws_op" "ws_enabled ws_op ?w" using en MonActive a by auto
    note k = ws_step_keeps [OF cv okw this]
    have "returns (on_workspace (active_workspace_idx m) (ws_exec cv ws_op) m) (\<lambda>m'. mon_keeps cv m m' \<and> shape True m')"
      by (rule on_workspace_keeps [OF c sh a(2)]) (rule k)
    with MonActive show ?thesis
      by (auto simp: on_active_workspace_def intro: mon_keeps_windows elim!: returns_mono)
  next
    case (MonMoveToWorkspace w k x h)
    obtain s where s: "move_source w m = Some s" "s < length (workspaces m)"
    proof (cases w)
      case None
      with that a(2) show ?thesis by (simp add: move_source_def)
    next
      case (Some v)
      with en MonMoveToWorkspace have "\<exists>ws \<in> set (workspaces m). ws_has_window v ws" by (auto simp: list_ex_iff)
      then obtain i where "position (ws_has_window v) (workspaces m) = Some i"
        using position_None [of "ws_has_window v" "workspaces m"] by (cases "position (ws_has_window v) (workspaces m)") auto
      with that Some position_SomeD show ?thesis by (fastforce simp: move_source_def)
    qed
    from move_to_workspace_returns [OF cv c sh s, of k x h] MonMoveToWorkspace show ?thesis
      by (auto intro: mon_keeps_windows elim!: returns_mono)
  next
    case MonMoveDownOrWorkspaceDown
    with fl(3) mv show ?thesis by (auto simp: move_down_or_to_workspace_down_def elim!: returns_mono)
  next
    case MonMoveUpOrWorkspaceUp
    with fl(4) mv show ?thesis by (auto simp: move_up_or_to_workspace_up_def elim!: returns_mono)
  next
    case MonFocusDownOrWorkspaceDown
    with fl(1) up show ?thesis by (auto simp: focus_window_or_workspace_down_def elim!: returns_mono)
  next
    case MonFocusUpOrWorkspaceUp
    with fl(2) up show ?thesis by (auto simp: focus_window_or_workspace_up_def elim!: returns_mono)
  next
    case (MonSwitch k force)
    have "returns (switch_workspace k force m) (\<lambda>m'. rearranged cv m m' \<and> shape True m')"
      by (rule returns_mono [OF switch_workspace_returns [OF c sh]]) simp
    with MonSwitch re show ?thesis by simp
  next
    case MonMoveWorkspaceUp
    have "returns (move_workspace_up m) (\<lambda>m'. rearranged cv m m' \<and> shape True m')"
      by (rule returns_mono [OF move_workspace_up_returns [OF c sh]]) simp
    with MonMoveWorkspaceUp re show ?thesis by simp
  next
    case MonMoveWorkspaceDown
    have "returns (move_workspace_down m) (\<lambda>m'. rearranged cv m m' \<and> shape True m')"
      by (rule returns_mono [OF move_workspace_down_returns [OF c sh]]) simp
    with MonMoveWorkspaceDown re show ?thesis by simp
  next
    case (MonHideById i)
    with hide_by_name_returns(2) [OF c sh, of i] show ?thesis
      by (auto intro: rearranged_keeps_windows elim!: returns_mono)
  next
    case (MonUnhideById i needs)
    have "returns (unhide_workspace_by_id i needs m) (\<lambda>(f, m'). keeps_windows cv m m')"
      by (rule returns_mono [OF unhide_workspace_by_id_returns [OF c shape_loose [OF sh]]])
        (use refl in \<open>auto intro: rearranged_keeps_windows split: option.splits if_splits\<close>)
    with MonUnhideById show ?thesis by (auto elim!: returns_mono)
  next
    case (MonUnname i)
    with unname_returns [OF c sh, of i] show ?thesis by (auto intro: mon_keeps_windows elim!: returns_mono)
  next
    case (MonGestureEnd tp pos)
    with gesture_end_returns(1) [OF c sh, of tp pos] show ?thesis
      by (auto intro: rearranged_keeps_windows elim!: returns_mono)
  next
    case (MonDndBegin pos)
    with en gesture_returns(2) [OF c sh, of pos] visible_count [OF looseD(1) [OF shape_loose [OF sh]]] show ?thesis
      by (auto intro: rearranged_keeps_windows)
  next
    case (MonUpdateConfig opts)
    have "m\<lparr>mon_layout_config := mon_layout_config m\<rparr> = m" by simp
    with c have "content_ok cv (m\<lparr>mon_layout_config := mon_layout_config m\<rparr>)" by simp
    from mon_update_config_returns [OF this sh, of opts] MonUpdateConfig show ?thesis
      by (auto intro: keeps_windowsI elim!: returns_mono)
  next
    case (MonUpdateLayoutConfig part)
    with mon_update_layout_config_returns [OF c sh, of part] show ?thesis
      by (auto intro: keeps_windowsI elim!: returns_mono)
  qed (use tr in \<open>simp_all add: st mk [OF move_up_down_returns(3) [OF cv c sh]] mk [OF move_up_down_returns(4) [OF cv c sh]]
      mk [OF move_column_to_workspace_returns [OF cv c sh]] up [OF refl] mv [OF refl]
      re [OF switch_previous_returns(1) [OF c sh]] re [OF switch_previous_returns(2) [OF c sh]]
      re [OF move_workspace_to_idx_returns [OF c sh]] re [OF hide_by_name_returns(1) [OF c sh]]
      rearranged_keeps_windows [OF conjunct1 conjunct2, OF gesture_returns(1) [OF c sh] gesture_returns(1) [OF c sh]]
      rearranged_keeps_windows [OF conjunct1 conjunct2, OF gesture_returns(3) [OF c sh] gesture_returns(3) [OF c sh]]
      re [OF gesture_end_returns(2) [OF c sh]] re [OF gesture_end_returns(3) [OF c sh]] re [OF advance_returns [OF c sh]]\<close>)
qed

lemma mon_step_good:
  assumes "mon_good cv m" "mon_enabled op m"
  shows "returns (mon_exec cv op m) (mon_good cv)"
proof -
  have "parents_acyclic cv" "mon_ok cv m" using assms(1) by (simp_all add: mon_good_def)
  with trade_step [OF this assms(2)] keep_step [OF this assms(2)] show ?thesis
    by (cases "trades_windows op") (auto simp: mon_good_def keeps_windows_def elim!: returns_mono)
qed

interpretation mon: component "mon_good cv" mon_enabled "mon_exec cv" for cv
  by unfold_locales (rule mon_step_good)

end
