(* ===== verification/MonitorNew.thy ===== *)
theory MonitorNew
  imports MonitorSpec
begin

text \<open>
  A monitor comes into being with the workspaces of its output (\<open>Monitor::new\<close>) and hands
  them on when the output goes away (\<open>into_workspaces\<close>): what arrives and what leaves has the
  same windows and fits the next monitor.
\<close>

section \<open>Construction\<close>

text \<open>The workspaces that an output brings along\<close>

definition arriving_ok :: "client_view \<Rightarrow> nat \<Rightarrow> workspace list \<Rightarrow> bool" where
  "arriving_ok cv nxt wss \<longleftrightarrow>
     (\<forall>ws \<in> set wss. has_windows_or_name ws \<and> ws_ok cv ws \<and> ws_id ws < nxt \<and>
        (ws_hidden ws \<or> needs_hidden ws \<longrightarrow> ws_name ws \<noteq> None)) \<and>
     distinct (map ws_id wss) \<and>
     distinct (map (map ascii_lower) (List.map_filter ws_name wss)) \<and>
     distinct (concat (map ws_windows wss))"

lemma name_keys_list:
  "\<Sum>\<^sub># (image_mset name_keys (mset wss)) = mset (map (map ascii_lower) (List.map_filter ws_name wss))"
  by (induction wss) (auto simp: name_keys_def List.map_filter_simps split: option.splits)

lemma windows_list: "\<Sum>\<^sub># (image_mset ws_mset (mset wss)) = mset (concat (map ws_windows wss))"
  by (induction wss) (simp_all add: ws_mset_windows)

lemma mset_split_filter: "filter_mset (\<lambda>x. \<not> P x) M + filter_mset P M = M"
  by (metis multiset_partition union_commute)

lemma image_core:
  "image_mset ws_id (image_mset core M) = image_mset ws_id M"
  "image_mset name_keys (image_mset core M) = image_mset name_keys M"
  "image_mset ws_mset (image_mset core M) = image_mset ws_mset M"
  by (simp_all add: image_mset.compositionality comp_def name_keys_def [abs_def])

lemma cores_ok_list:
  "cores_ok cv out opts nxt st (image_mset core (mset wss)) \<longleftrightarrow>
     (\<forall>ws \<in> set wss. fits cv out opts nxt (core ws)) \<and> distinct (map ws_id wss) \<and>
     distinct (map (map ascii_lower) (List.map_filter ws_name wss)) \<and>
     distinct_mset (st + mset (concat (map ws_windows wss)))"
  unfolding cores_ok_def image_core name_keys_list windows_list distinct_mset_mset
  by (simp del: mset_map flip: mset_map)

definition joined :: "wl_output \<Rightarrow> options \<Rightarrow> workspace \<Rightarrow> workspace" where
  "joined out opts ws = ws_update_config opts (ws_set_output (Some out) ws)"

lemma set_output_simps [simp]:
  "ws_id (ws_set_output o' ws) = ws_id ws" "ws_name (ws_set_output o' ws) = ws_name ws"
  "ws_hidden (ws_set_output o' ws) = ws_hidden ws" "needs_hidden (ws_set_output o' ws) = needs_hidden ws"
  "ws_mset (ws_set_output o' ws) = ws_mset ws" "ws_windows (ws_set_output o' ws) = ws_windows ws"
  "ws_ok cv (ws_set_output o' ws) = ws_ok cv ws" "ws_output (ws_set_output o' ws) = o'"
  "has_windows_or_name (ws_set_output o' ws) = has_windows_or_name ws"
  "base_options (ws_set_output o' ws) = base_options ws"
  by (simp_all add: ws_set_output_def ws_mset_def ws_windows_def ws_ok_def has_windows_or_name_def
      ws_has_windows_def split: option.splits)

lemma joined_simps [simp]:
  "ws_id (joined out opts ws) = ws_id ws" "ws_name (joined out opts ws) = ws_name ws"
  "ws_hidden (joined out opts ws) = ws_hidden ws" "needs_hidden (joined out opts ws) = needs_hidden ws"
  "ws_windows (joined out opts ws) = ws_windows ws" "ws_ok cv (joined out opts ws) = ws_ok cv ws"
  "ws_output (joined out opts ws) = Some out" "base_options (joined out opts ws) = opts"
  "has_windows_or_name (joined out opts ws) = has_windows_or_name ws"
  by (simp_all add: joined_def) (simp add: ws_update_config_def ws_windows_def ws_set_output_def split: option.splits)

lemma extract_hidden_lists:
  assumes "extract_hidden pre wss a = (v, h, a')"
  shows "v = pre @ filter (\<lambda>ws. \<not> ws_hidden ws) wss \<and> map core h = map core (filter ws_hidden wss)"
  using assms
proof (induction wss arbitrary: pre a v h a')
  case (Cons ws wss)
  show ?case
  proof (cases "ws_hidden ws")
    case True
    with Cons.prems obtain b h1 where e: "extract_hidden pre wss b = (v, h1, a')" and "map core h = core ws # map core h1"
      by (auto simp: Let_def core_def split: prod.splits)
    with Cons.IH [OF e] True show ?thesis by simp
  next
    case False
    then have e: "extract_hidden (pre @ [ws]) wss a = (v, h, a')" using Cons.prems by simp
    from Cons.IH [OF e] False show ?thesis by simp
  qed
qed simp

lemma extract_hidden_before:
  assumes "extract_hidden pre wss a = (v, h, a')" "a < length pre"
  shows "a' = a"
  using assms by (induction wss arbitrary: pre h) (auto simp: Let_def split: prod.splits if_splits)

lemma extract_hidden_bound:
  assumes "extract_hidden pre wss a = (v, h, a')" "a \<le> length pre + length wss"
  shows "a' \<le> length v"
  using assms
proof (induction wss arbitrary: pre a h)
  case (Cons ws wss)
  show ?case
  proof (cases "ws_hidden ws")
    case True
    with Cons.prems(1) obtain h1 where
      e: "extract_hidden pre wss (if length pre < a then a - 1 else a) = (v, h1, a')"
      by (auto simp: Let_def split: prod.splits)
    show ?thesis by (rule Cons.IH [OF e]) (use Cons.prems(2) in auto)
  next
    case False
    then have e: "extract_hidden (pre @ [ws]) wss a = (v, h, a')" using Cons.prems by simp
    show ?thesis by (rule Cons.IH [OF e]) (use Cons.prems(2) in simp)
  qed
qed simp

lemma extract_hidden_follows:
  assumes "extract_hidden pre wss a = (v, h, a')" "length pre \<le> a" "a < length pre + length wss"
    "\<not> ws_hidden (wss ! (a - length pre))"
  shows "a' < length v \<and> v ! a' = wss ! (a - length pre)"
  using assms
proof (induction wss arbitrary: pre a h)
  case (Cons ws wss)
  show ?case
  proof (cases "ws_hidden ws")
    case True
    then have a: "length pre < a" using Cons.prems(2,4) by (cases "a = length pre") auto
    with True Cons.prems(1) obtain h1 where e: "extract_hidden pre wss (a - 1) = (v, h1, a')"
      by (auto simp: Let_def split: prod.splits)
    have n: "(ws # wss) ! (a - length pre) = wss ! (a - 1 - length pre)"
      using less_imp_Suc_add [OF a] by auto
    show ?thesis unfolding n
      by (rule Cons.IH [OF e]) (use a Cons.prems(3,4) n in auto)
  next
    case False
    then have e: "extract_hidden (pre @ [ws]) wss a = (v, h, a')" using Cons.prems by simp
    show ?thesis
    proof (cases "a = length pre")
      case True
      with extract_hidden_before [OF e] extract_hidden_lists [OF e] show ?thesis
        by (simp add: nth_append)
    next
      case neq: False
      then have n: "(ws # wss) ! (a - length pre) = wss ! (a - length (pre @ [ws]))"
        using Cons.prems(2) by (auto simp: nth_Cons')
      show ?thesis unfolding n
        by (rule Cons.IH [OF e]) (use neq Cons.prems(2,3,4) n in auto)
    qed
  qed
qed simp

text \<open>
  \<open>Monitor::new\<close> establishes the invariant. The requested workspace is active unless it is
  hidden, and the windows are those of the workspaces.
\<close>

lemma monitor_new_returns:
  assumes arr: "arriving_ok cv nxt wss"
  shows "returns (monitor_new nxt out wss to_activate base part) (\<lambda>m. mon_ok cv m \<and>
           mon_windows m = concat (map ws_windows (filter (\<lambda>ws. \<not> ws_hidden ws) wss @ filter ws_hidden wss)) \<and>
           (\<forall>i k. to_activate = Some i \<longrightarrow> k < length wss \<longrightarrow> ws_id (wss ! k) = i \<longrightarrow> \<not> ws_hidden (wss ! k) \<longrightarrow>
              active_id m = i))"
proof -
  define opts where "opts = with_merged_layout part base"
  define a where "a = (case to_activate of
           None \<Rightarrow> 0
         | Some i \<Rightarrow> (case position (\<lambda>ws. ws_id ws = i) wss of Some k \<Rightarrow> k | None \<Rightarrow> 0))"
  define js where "js = map (joined out opts) wss"
  obtain v h a' where e: "extract_hidden [] js a = (v, h, a')" by (cases "extract_hidden [] js a")
  note ex = extract_hidden_lists [OF e] extract_hidden_bound [OF e] extract_hidden_follows [OF e]
  have al: "a \<le> length js"
    using position_SomeD [of _ wss] by (fastforce simp: a_def js_def split: option.splits)
  have v: "v = filter (\<lambda>ws. \<not> ws_hidden ws) js" using ex(1) by simp
  have v_vis: "\<forall>ws \<in> set v. \<not> ws_hidden ws" by (simp add: v)
  have "\<forall>c \<in> set (map core h). ws_hidden c" using ex(1) by simp
  then have h_hid: "\<forall>ws \<in> set h. ws_hidden ws" by simp
  have v_full: "\<forall>ws \<in> set v. has_windows_or_name ws" using arr by (auto simp: v js_def arriving_ok_def)
  define above where "above \<longleftrightarrow> empty_workspace_above_first opts \<and> v \<noteq> []"
  define n1 where "n1 = (if above then nxt + 1 else nxt)"
  define v1 where "v1 = (if above then workspace_new nxt out opts # v else v)"
  define m where "m = \<lparr>mon_output = out, workspaces = v1 @ [workspace_new n1 out opts] @ h,
             active_workspace_idx = (if above then a' + 1 else a'),
             previous_workspace_id = None, workspace_switch = None, sticky = empty_floating,
             active_space = SpaceWorkspace, overview_open = False, mon_base_options = base,
             mon_options = opts, mon_layout_config = part, next_ws_id = n1 + 1\<rparr>"
  have run: "monitor_new nxt out wss to_activate base part = Some m"
  proof -
    have "list_all has_windows_or_name wss" using arr by (simp add: arriving_ok_def list_all_iff)
    then have "monitor_new nxt out wss to_activate base part =
        (let (v, h, a') = extract_hidden [] js a; above = (empty_workspace_above_first opts \<and> v \<noteq> []);
             v = (if above then workspace_new nxt out opts # v else v); n = (if above then nxt + 1 else nxt)
         in Some \<lparr>mon_output = out, workspaces = v @ [workspace_new n out opts] @ h,
             active_workspace_idx = (if above then a' + 1 else a'),
             previous_workspace_id = None, workspace_switch = None, sticky = empty_floating,
             active_space = SpaceWorkspace, overview_open = False, mon_base_options = base,
             mon_options = opts, mon_layout_config = part, next_ws_id = n + 1\<rparr>)"
      by (simp add: monitor_new_def opts_def a_def js_def joined_def [abs_def] Let_def case_prod_unfold cong: if_cong)
    then show ?thesis
      by (simp add: e Let_def m_def v1_def n1_def above_def cong: if_cong)
  qed
  have split: "workspaces m = (v1 @ [workspace_new n1 out opts]) @ h" by (simp add: m_def)
  have vis: "vis m = v1 @ [workspace_new n1 out opts]" "hid m = h"
    by (rule vis_hid_I [OF split]; use v_vis h_hid in \<open>auto simp: v1_def\<close>)+
  have al': "a' \<le> length v" using ex(2) al by simp
  have "loose m" unfolding loose_def vis
    using al' by (auto simp: m_def v1_def above_def)
  moreover have "length (vis m) \<noteq> 2" if "above_first m"
    using that unfolding vis by (cases "v = []") (auto simp: m_def v1_def above_def)
  moreover have "tight m"
    unfolding tight_def vis
  proof (intro allI impI)
    fix i assume i: "i < length (v1 @ [workspace_new n1 out opts]) - 1" "(if above_first m then 1 else 0) \<le> i"
    have "v1 ! i \<in> set v"
    proof (cases above)
      case True
      then have "1 \<le> i" "i - 1 < length v" using i by (simp_all add: v1_def above_def m_def)
      with True show ?thesis by (simp add: v1_def nth_Cons')
    next
      case False
      with i show ?thesis by (simp add: v1_def)
    qed
    with v_full i(1) show "has_windows_or_name ((v1 @ [workspace_new n1 out opts]) ! i)"
      by (simp add: nth_append)
  qed
  ultimately have sh: "shape True m" by (simp add: shape_def) (simp add: m_def)
  have mset_js: "image_mset core (mset v) + image_mset core (mset h) = image_mset core (mset js)"
  proof -
    have "image_mset core (mset h) = image_mset core (mset (filter ws_hidden js))"
      using ex(1) by (metis mset_map)
    then show ?thesis unfolding v by (simp add: mset_split_filter flip: image_mset_union)
  qed
  have fits: "fits cv out opts nxt (core (joined out opts ws))" if "ws \<in> set wss" for ws
    using arr that unfolding arriving_ok_def fits_def by simp
  have lists: "map ws_id js = map ws_id wss" "List.map_filter ws_name js = List.map_filter ws_name wss"
    "concat (map ws_windows js) = concat (map ws_windows wss)"
    by (simp_all add: js_def comp_def List.map_filter_def filter_map)
  have "cores_ok cv out opts nxt {#} (image_mset core (mset js))"
    unfolding cores_ok_list lists using arr fits
    by (simp add: arriving_ok_def js_def)
  then have "cores_ok cv out opts n1 {#} (image_mset core (mset v1) + image_mset core (mset h))"
    using cores_ok_new [of cv out opts nxt "{#}"] mset_js by (simp add: n1_def v1_def)
  from cores_ok_new [OF this] have "cores_ok cv out opts (n1 + 1) {#} (cores m)"
    by (simp add: cores_def m_def)
  then have "content_ok cv m"
    using fl_ok_empty [of cv] by (simp add: content_ok_def m_def opts_def fl_mset_def fl_windows_def empty_floating_def)
  moreover have "mon_windows m = concat (map ws_windows (filter (\<lambda>ws. \<not> ws_hidden ws) wss @ filter ws_hidden wss))"
  proof -
    have new: "ws_windows (workspace_new i out opts) = []" for i
      using ws_mset_new [of i out opts] by (simp add: ws_mset_windows)
    have "ws_windows ws = ws_windows (core ws)" for ws by simp
    then have "map ws_windows h = map ws_windows (filter ws_hidden js)"
      using arg_cong [OF conjunct2 [OF ex(1)], of "map ws_windows"] by (simp add: comp_def)
    then show ?thesis
      by (simp add: mon_windows_def m_def v1_def v new js_def filter_map comp_def empty_floating_def fl_windows_def)
  qed
  moreover have "active_id m = i" if "to_activate = Some i" "k < length wss" "ws_id (wss ! k) = i" "\<not> ws_hidden (wss ! k)" for i k
  proof -
    have "position (\<lambda>ws. ws_id ws = i) wss = Some k"
    proof (rule position_SomeI)
      show "k < length wss" "ws_id (wss ! k) = i" using that by simp_all
      fix j assume "j < k"
      with arr that(2,3) show "ws_id (wss ! j) \<noteq> i"
        using nth_eq_iff_index_eq [of "map ws_id wss" j k] by (auto simp: arriving_ok_def)
    qed
    then have "a = k" using that(1) by (simp add: a_def)
    with ex(3) that have "a' < length v" "v ! a' = js ! k" by (simp_all add: js_def)
    with that(2,3) show ?thesis by (simp add: active_id_def m_def v1_def nth_append js_def)
  qed
  ultimately show ?thesis using run sh by (auto simp: mon_ok_def)
qed

section \<open>Handing the workspaces on\<close>

lemma into_workspaces_arriving:
  assumes "mon_ok cv m"
  shows "arriving_ok cv (next_ws_id m) (into_workspaces m)"
proof -
  let ?ws = "filter has_windows_or_name (workspaces m)"
  have "mset ?ws \<subseteq># mset (workspaces m)" by simp
  then have "image_mset core (mset ?ws) \<subseteq># cores m" unfolding cores_def by (rule image_mset_subseteq_mono)
  moreover have "content_ok cv m" using assms by (simp add: mon_ok_def)
  ultimately have "cores_ok cv (mon_output m) (mon_options m) (next_ws_id m) (fl_mset (sticky m)) (image_mset core (mset ?ws))"
    by (intro cores_ok_subset [OF content_okD])
  then have c: "\<forall>ws \<in> set ?ws. fits cv (mon_output m) (mon_options m) (next_ws_id m) (core ws)"
    "distinct (map ws_id ?ws)" "distinct (map (map ascii_lower) (List.map_filter ws_name ?ws))"
    "distinct (concat (map ws_windows ?ws))"
    unfolding cores_ok_list by (auto simp: distinct_mset_union)
  have names: "List.map_filter ws_name (map (ws_set_output None) xs) = List.map_filter ws_name xs" for xs
    by (simp add: List.map_filter_def filter_map comp_def)
  show ?thesis
    using c unfolding into_workspaces_def arriving_ok_def names
    by (auto simp: fits_def comp_def)
qed

text \<open>No window is lost on the way out\<close>

lemma into_workspaces_windows:
  "mset (concat (map ws_windows (fst (into_workspaces_and_sticky m))) @ map win (snd (into_workspaces_and_sticky m))) =
     mset (mon_windows m)"
proof -
  have "concat (map ws_windows (filter has_windows_or_name xs)) = concat (map ws_windows xs)" for xs
    by (induction xs) (auto simp: has_windows_or_name_def ws_has_windows_def)
  then show ?thesis
    by (simp add: into_workspaces_and_sticky_def into_workspaces_def mon_windows_def comp_def fl_windows_def)
qed

end
