(* ===== verification/MonitorClaims.thy ===== *)
theory MonitorClaims
  imports MonitorNew
begin

text \<open>
  The properties of a monitor: the assertions of \<open>Monitor::verify_invariants\<close>, written in the
  order of the code, and what the operations promise.
\<close>

section \<open>The assertions of the code\<close>

definition mon_verify_invariants :: "monitor \<Rightarrow> bool" where
  "mon_verify_invariants m \<longleftrightarrow>
     (let wss = workspaces m;
          visible_count = (case position ws_hidden wss of Some i \<Rightarrow> i | None \<Rightarrow> length wss);
          last_visible = wss ! (visible_count - 1);
          pre_skip = (if above_first m then 1 else 0)
      in mon_options m = with_merged_layout (mon_layout_config m) (mon_base_options m) \<and>
         wss \<noteq> [] \<and> active_workspace_idx m < length wss \<and>
         (case workspace_switch m of Some (SwitchAnimation to) \<Rightarrow> to < length wss | _ \<Rightarrow> True) \<and>
         list_all (\<lambda>ws. ws_hidden ws \<and> ws_name ws \<noteq> None) (drop visible_count wss) \<and>
         0 < visible_count \<and> active_workspace_idx m < visible_count \<and>
         \<not> ws_has_windows last_visible \<and>
         (above_first m \<longrightarrow> \<not> ws_has_windows (hd wss)) \<and>
         ws_name last_visible = None \<and>
         (above_first m \<longrightarrow> ws_name (hd wss) = None) \<and>
         (above_first m \<and> visible_count = length wss \<longrightarrow> length wss \<noteq> 2) \<and>
         (workspace_switch m = None \<longrightarrow>
            list_all (\<lambda>(idx, ws). pre_skip \<le> idx \<and> idx \<noteq> visible_count - 1 \<and> idx \<noteq> active_workspace_idx m \<longrightarrow>
                has_windows_or_name ws) (zip [0..<visible_count] (take visible_count wss))) \<and>
         list_all (\<lambda>ws. base_options ws = mon_options m) wss)"

lemma hidden_named:
  assumes "content_ok cv m" "ws \<in> set (workspaces m)" "ws_hidden ws"
  shows "ws_name ws \<noteq> None"
  using assms content_okD [OF assms(1)] by (auto simp: cores_ok_def cores_def fits_def)

lemma mon_ok_verify:
  assumes "mon_ok cv m"
  shows "mon_verify_invariants m"
proof -
  have c: "content_ok cv m" and sh: "shape True m" using assms by (simp_all add: mon_ok_def)
  note l = looseD [OF shape_loose [OF sh]]
  define n where "n = length (vis m)"
  have count: "(case position ws_hidden (workspaces m) of Some i \<Rightarrow> i | None \<Rightarrow> length (workspaces m)) = n"
    using visible_count [OF l(1)] by (simp add: visible_workspace_count_def n_def)
  have n0: "0 < n" using l(3) by (simp add: n_def)
  have parts: "take n (workspaces m) = vis m" "drop n (workspaces m) = hid m"
    using arg_cong [OF l(1), of "take n"] arg_cong [OF l(1), of "drop n"] by (simp_all add: n_def)
  have len: "length (workspaces m) = n + length (hid m)"
    using arg_cong [OF l(1), of length] by (simp add: n_def)
  have last: "workspaces m ! (n - 1) = last (vis m)"
    using nth_vis(1) [OF l(1), of "n - 1"] n0 l(3) by (simp add: n_def last_conv_nth)
  have hd: "hd (workspaces m) = hd (vis m)" using arg_cong [OF l(1), of hd] l(3) by simp
  have blank: "blank (last (vis m))" "above_first m \<Longrightarrow> blank (hd (vis m))" using l by simp_all
  have hidden: "list_all (\<lambda>ws. ws_hidden ws \<and> ws_name ws \<noteq> None) (hid m)"
    using hidden_named [OF c] by (auto simp: list_all_iff hid_def)
  have base: "list_all (\<lambda>ws. base_options ws = mon_options m) (workspaces m)"
    using content_okD [OF c] by (auto simp: list_all_iff cores_ok_def cores_def fits_def)
  have tight: "list_all (\<lambda>(idx, ws). (if above_first m then 1 else 0) \<le> idx \<and> idx \<noteq> n - 1 \<and> idx \<noteq> active_workspace_idx m \<longrightarrow>
      has_windows_or_name ws) (zip [0..<n] (vis m))" if "workspace_switch m = None"
  proof -
    have "tight m" using sh that by (simp add: shape_def)
    then show ?thesis by (auto simp: tight_def list_all_length n_def)
  qed
  have switch: "case workspace_switch m of Some (SwitchAnimation to) \<Rightarrow> to < length (workspaces m) | _ \<Rightarrow> True"
    using sh by (auto simp: shape_def split: option.splits switch_state.splits)
  have opts: "mon_options m = with_merged_layout (mon_layout_config m) (mon_base_options m)"
    using c by (simp add: content_ok_def)
  have two: "above_first m \<Longrightarrow> n = length (workspaces m) \<Longrightarrow> length (workspaces m) \<noteq> 2"
    using sh len by (simp add: shape_def n_def)
  have idx: "active_workspace_idx m < n" "active_workspace_idx m < length (workspaces m)" "workspaces m \<noteq> []"
    using l(2) len n0 by (auto simp: n_def)
  show ?thesis
    unfolding mon_verify_invariants_def Let_def count parts last hd
    using opts idx switch hidden n0 blank two tight base
    by (auto simp: has_windows_or_name_def)
qed

section \<open>A monitor with four workspaces\<close>

definition demo_named :: "nat \<Rightarrow> string option \<Rightarrow> column list \<Rightarrow> workspace" where
  "demo_named i name cols = (workspace_new i demo_output demo_options)
     \<lparr>ws_scrolling := empty_scrolling\<lparr>columns := cols\<rparr>, ws_name := name\<rparr>"

definition demo_arrivals :: "workspace list" where
  "demo_arrivals = [demo_workspace, demo_named 2 (Some ''web'') [demo_column [21, 22] 0],
     demo_named 3 (Some ''mail'') [demo_column [31] 0], demo_named 4 (Some ''notes'') []]"

definition demo_monitor :: monitor where
  "demo_monitor = \<lparr>mon_output = demo_output,
     workspaces = demo_arrivals @ [workspace_new 10 demo_output demo_options],
     active_workspace_idx = 0, previous_workspace_id = None, workspace_switch = None,
     sticky = empty_floating, active_space = SpaceWorkspace, overview_open = False,
     mon_base_options = demo_options, mon_options = demo_options, mon_layout_config = None, next_ws_id = 11\<rparr>"

lemma demo_named_ok:
  "ws_ok demo_clients (demo_named i name [])" "ws_ok demo_clients (demo_named i name [demo_column [a] 0])"
  "a \<noteq> b \<Longrightarrow> ws_ok demo_clients (demo_named i name [demo_column [a, b] 0])"
  using fl_ok_empty [of demo_clients]
  by (simp_all add: demo_named_def workspace_new_def new_with_config_def ws_ok_def spaces_ok_def
      empty_scrolling_def demo_column_def demo_tile_def scrolling_ok_def col_ok_def
      pending_sizing_mode_def scrolling_windows_def fl_windows_def empty_floating_def)

lemma demo_named_windows:
  "ws_windows (demo_named i name cols) = concat (map wins cols)"
  by (simp add: demo_named_def workspace_new_def new_with_config_def ws_windows_def fl_windows_def
      empty_floating_def empty_scrolling_def scrolling_windows_wins)

lemma demo_named_fields [simp]:
  "ws_id (demo_named i name cols) = i" "ws_name (demo_named i name cols) = name"
  "ws_hidden (demo_named i name cols) = False" "needs_hidden (demo_named i name cols) = False"
  by (simp_all add: demo_named_def workspace_new_def new_with_config_def)

lemma demo_workspace_fields [simp]:
  "ws_id demo_workspace = 1" "ws_name demo_workspace = None"
  "ws_hidden demo_workspace = False" "needs_hidden demo_workspace = False"
  by (simp_all add: demo_workspace_def workspace_new_def new_with_config_def)

lemma demo_arrivals_ok: "arriving_ok demo_clients 10 demo_arrivals"
  using demo_workspace_ok demo_named_ok
  by (simp add: arriving_ok_def demo_arrivals_def has_windows_or_name_def ws_has_windows_def
      demo_workspace_windows demo_named_windows wins_def demo_column_def demo_tile_def List.map_filter_simps
      ascii_lower_def)


lemma demo_monitor_run: "monitor_new 10 demo_output demo_arrivals (Some 1) demo_options None = Some demo_monitor"
  by (simp add: monitor_new_def demo_arrivals_def demo_monitor_def demo_named_def demo_workspace_def with_merged_layout_def
      has_windows_or_name_def ws_has_windows_def ws_windows_def workspace_new_def new_with_config_def ws_set_output_def
      ws_update_config_def assert_that_def demo_options_def empty_scrolling_def demo_column_def demo_tile_def Let_def
      scrolling_windows_def)

lemma demo_monitor_ok: "mon_ok demo_clients demo_monitor"
  using monitor_new_returns [OF demo_arrivals_ok, of demo_output "Some 1" demo_options None, unfolded demo_monitor_run]
  by simp

lemma workspace_new_windows: "ws_windows (workspace_new i out opts) = []"
  by (simp add: workspace_new_def new_with_config_def ws_windows_def scrolling_windows_def empty_scrolling_def
      fl_windows_def empty_floating_def)

lemma demo_monitor_windows: "mon_windows demo_monitor = [11, 12, 13, 4, 3, 5, 2, 1, 6, 21, 22, 31]"
  by (simp add: demo_monitor_def demo_arrivals_def mon_windows_def demo_workspace_windows demo_named_windows
      workspace_new_windows) (simp add: wins_def demo_column_def demo_tile_def fl_windows_def empty_floating_def)

section \<open>What the windows of a monitor are to the outside\<close>

text \<open>
  The abstract monitor is a multiset of windows, with the sticky ones among them: it takes
  windows in, lets a sticky one go, and otherwise stays as it is. A request to remove a sticky
  window removes exactly that window; it changes nothing only when the window is not sticky.
\<close>

inductive window_step :: "mon_op \<Rightarrow> win_id set \<Rightarrow> win_id multiset \<Rightarrow> win_id multiset \<Rightarrow> bool" where
  opens: "win t \<notin># M \<Longrightarrow> window_step (MonAddWindow t tg a w full fl st force) S M (add_mset (win t) M)"
| opens_column: "window_step (MonAddColumn k c a) S M (mset (wins c) + M)"
| opens_in_column: "win t \<notin># M \<Longrightarrow> window_step (MonAddTileToColumn k ci ti t a allow) S M (add_mset (win t) M)"
| closes: "w \<in> S \<Longrightarrow> w \<in># M \<Longrightarrow> window_step (MonRemoveSticky w) S M (M - {#w#})"
| not_sticky: "w \<notin> S \<Longrightarrow> window_step (MonRemoveSticky w) S M M"
| keeps: "\<not> trades_windows op \<Longrightarrow> window_step op S M M"

text \<open>The sticky windows of a monitor.\<close>

definition sticky_windows :: "monitor \<Rightarrow> win_id set" where
  "sticky_windows m = set (fl_windows (sticky m))"

lemma trade_refines:
  assumes cv: "parents_acyclic cv" and ok: "mon_ok cv m" and en: "mon_enabled op m" and tr: "trades_windows op"
  shows "returns (mon_exec cv op m) (\<lambda>m'. mon_ok cv m' \<and> window_step op (sticky_windows m) (mon_mset m) (mon_mset m'))"
proof -
  have c: "content_ok cv m" and sh: "shape True m" using ok by (simp_all add: mon_ok_def)
  show ?thesis
  proof (cases op)
    case (MonAddWindow t tg a w full fl st force)
    then have "win t \<notin># mon_mset m" using en by (simp add: add_enabled_def mon_mset_windows)
    note step = window_step.opens [OF this]
    from MonAddWindow en mon_add_window_returns [OF cv c sh, of t tg st a w full fl force] show ?thesis
      by (auto simp: mon_ok_def step elim!: returns_mono)
  next
    case (MonAddColumn k col a)
    with en mon_add_column_returns [OF c sh, of k col a] show ?thesis
      by (auto simp: mon_ok_def mon_mset_windows [of m] took_in_def window_step.opens_column elim!: returns_mono)
  next
    case (MonAddTileToColumn k ci ti t a allow)
    then have fresh: "win t \<notin># mon_mset m" using en by (simp add: mon_mset_windows)
    from MonAddTileToColumn en mon_add_tile_to_column_returns [OF c sh _ fresh, of k ci ti a allow] show ?thesis
      by (auto simp: mon_ok_def window_step.opens_in_column [OF fresh] elim!: returns_mono)
  next
    case (MonRemoveSticky w)
    from remove_sticky_tile_returns [OF c sh, of w] obtain r m' where
      run: "remove_sticky_tile cv w m = Some (r, m')" "content_ok cv m'" "shape True m'"
      and r: "case r of None \<Rightarrow> m' = m \<and> w \<notin> set (fl_windows (sticky m))
        | Some r \<Rightarrow> win (rt_tile r) = w \<and> rt_is_sticky r \<and> mon_mset m = add_mset w (mon_mset m')"
      by (auto elim!: returnsE)
    have "window_step (MonRemoveSticky w) (sticky_windows m) (mon_mset m) (mon_mset m')"
    proof (cases r)
      case None
      with r show ?thesis by (simp add: window_step.not_sticky sticky_windows_def)
    next
      case (Some x)
      then have "w \<in># mon_mset m" "mon_mset m' = mon_mset m - {#w#}" using r by simp_all
      moreover have "w \<in> sticky_windows m"
        using Some run(1) by (cases "w \<in> set (fl_windows (sticky m))")
          (simp_all add: remove_sticky_tile_def sticky_windows_def)
      ultimately show ?thesis using window_step.closes by metis
    qed
    with MonRemoveSticky run show ?thesis by (simp add: mon_ok_def)
  qed (use tr in simp_all)
qed

lemma content_distinct:
  assumes "content_ok cv m"
  shows "distinct (mon_windows m)" "distinct (map ws_id (workspaces m))"
    "distinct (map (map ascii_lower) (List.map_filter ws_name (workspaces m)))"
proof -
  have "distinct_mset (mset (mon_windows m))"
    using mon_mset_distinct [OF assms] by (simp add: mon_mset_windows)
  then show "distinct (mon_windows m)" by simp
  from content_okD [OF assms] show "distinct (map ws_id (workspaces m))"
    "distinct (map (map ascii_lower) (List.map_filter ws_name (workspaces m)))"
    unfolding cores_def cores_ok_list by simp_all
qed

lemma distinct_concat_disjoint:
  assumes "distinct (concat xss)" "i < j" "j < length xss" "x \<in> set (xss ! i)"
  shows "x \<notin> set (xss ! j)"
proof -
  have split: "xss = take j xss @ xss ! j # drop (Suc j) xss" using assms(3) by (rule id_take_nth_drop)
  have "xss ! i \<in> set (take j xss)" using assms(2,3) by (auto simp: in_set_conv_nth intro!: exI [of _ i])
  with assms(4) have "x \<in> set (concat (take j xss))" by auto
  then show ?thesis using assms(1) arg_cong [OF split, of concat] by auto
qed

lemma move_source_at:
  assumes "content_ok cv m" "s < length (workspaces m)" "w \<in> set (ws_windows (workspaces m ! s))"
  shows "move_source (Some w) m = Some s"
proof -
  have d: "distinct (concat (map ws_windows (workspaces m)))"
    using content_distinct(1) [OF assms(1)] by (simp add: mon_windows_def)
  have "position (ws_has_window w) (workspaces m) = Some s"
  proof (rule position_SomeI)
    show "s < length (workspaces m)" "ws_has_window w (workspaces m ! s)" using assms by (simp_all add: ws_has_window_def)
    fix j assume "j < s"
    with distinct_concat_disjoint [OF d this, of w] assms(2,3) show "\<not> ws_has_window w (workspaces m ! j)"
      by (auto simp: ws_has_window_def)
  qed
  then show ?thesis by (simp add: move_source_def)
qed

lemma clamp_visible:
  assumes "shape True m" "k < visible_workspace_count m"
  shows "clamp_target_workspace_idx k False m = Some k"
  using assms by (simp add: clamp_target_workspace_idx_def sub_usize_def min_def)

section \<open>Properties\<close>

text \<open>
  C21. No sequence of operations on a monitor panics. After every one of them the assertions
  of \<open>verify_invariants\<close> hold, no window is in two places, and no two workspaces have the
  same id or, up to case, the same name.
\<close>

theorem monitor_runs_never_panic:
  assumes "parents_acyclic cv" "mon_ok cv m"
  shows "\<exists>m'. run_ops mon_enabled (mon_exec cv) ops m = Some m' \<and> mon_verify_invariants m' \<and>
           distinct (mon_windows m') \<and> distinct (map ws_id (workspaces m')) \<and>
           distinct (map (map ascii_lower) (List.map_filter ws_name (workspaces m')))"
proof -
  have "mon_good cv m" using assms by (simp add: mon_good_def)
  from mon.run_good [OF this, of ops] obtain m' where
    "run_ops mon_enabled (mon_exec cv) ops m = Some m'" "mon_ok cv m'"
    by (auto simp: mon_good_def elim!: returnsE)
  with mon_ok_verify [OF this(2)] content_distinct [of cv m'] show ?thesis
    by (auto simp: mon_ok_def)
qed

theorem monitor_runs_never_panic_witness:
  "\<exists>m'. run_ops mon_enabled (mon_exec demo_clients)
      [MonHideById 3, MonMoveToWorkspace (Some 21) 0 ActivateYes False, MonSwitchDown, MonMoveWorkspaceUp,
       MonUnhideById 3 False, MonSwitchPrevious, MonAdvance True] demo_monitor = Some m' \<and>
    mon_verify_invariants m' \<and> distinct (mon_windows m')"
  using monitor_runs_never_panic [OF demo_clients_acyclic demo_monitor_ok] by blast

text \<open>
  C22. A monitor refines a multiset of windows, with the sticky ones among them: an operation
  of \<open>mon_op\<close> that takes a window or a column in adds exactly its windows, a request to remove a
  sticky window removes exactly that one, and changes nothing only when the window is not
  sticky; every other operation of \<open>mon_op\<close>, moving, hiding or reordering workspaces
  included, keeps all windows.
\<close>

theorem monitor_refines_window_multiset:
  assumes "parents_acyclic cv" "mon_ok cv m" "mon_enabled op m"
  shows "\<exists>m'. mon_exec cv op m = Some m' \<and> mon_ok cv m' \<and>
           window_step op (sticky_windows m) (mset (mon_windows m)) (mset (mon_windows m'))"
proof (cases "trades_windows op")
  case True
  from trade_refines [OF assms this] show ?thesis
    by (auto simp: mon_mset_windows elim!: returnsE)
next
  case False
  from keep_step [OF assms this] window_step.keeps [OF this] show ?thesis
    by (auto simp: keeps_windows_def mon_mset_windows elim!: returnsE)
qed

theorem monitor_refines_window_multiset_witness:
  "\<exists>m'. mon_exec demo_clients (MonMoveColumnToWorkspace 2 True False) demo_monitor = Some m' \<and>
     window_step (MonMoveColumnToWorkspace 2 True False) (sticky_windows demo_monitor)
       (mset (mon_windows demo_monitor)) (mset (mon_windows m'))"
  using monitor_refines_window_multiset [OF demo_clients_acyclic demo_monitor_ok,
      of "MonMoveColumnToWorkspace 2 True False"] by auto

text \<open>
  C23. A window sent to another workspace arrives there: the target workspace still exists
  under its id and has the window, the focus follows when asked to, and no other window
  appears or disappears.
\<close>

theorem moved_window_arrives:
  assumes "parents_acyclic cv" "mon_ok cv m" "s < length (workspaces m)"
    "w \<in> set (ws_windows (workspaces m ! s))" "k < visible_workspace_count m" "k \<noteq> s"
  shows "\<exists>m' i. move_to_workspace cv (Some w) k activate False m = Some m' \<and>
           idx_of_ws (ws_id (workspaces m ! k)) m' = Some i \<and> ws_has_window w (workspaces m' ! i) \<and>
           (activate = ActivateYes \<longrightarrow> active_workspace_idx m' = i) \<and>
           mset (mon_windows m') = mset (mon_windows m)"
proof -
  have c: "content_ok cv m" and sh: "shape True m" using assms(2) by (simp_all add: mon_ok_def)
  have k: "clamp_target_workspace_idx k False m = Some k" by (rule clamp_visible [OF sh assms(5)])
  from move_to_workspace_returns [OF assms(1) c sh move_source_at [OF c assms(3,4)] assms(3), of k activate False]
  obtain m' where m': "move_to_workspace cv (Some w) k activate False m = Some m'" "mon_keeps cv m m'" "shape True m'"
    "\<exists>b \<in># bodies m'. fst b = ws_id (workspaces m ! k) \<and> w \<in># body_mset b"
    "activate = ActivateYes \<Longrightarrow> active_id m' = ws_id (workspaces m ! k)"
    using assms(6) k by (auto elim!: returnsE)
  have c': "content_ok cv m'" and win: "mon_mset m' = mon_mset m" using m'(2) by (simp_all add: mon_keeps_def)
  from m'(4) find_body [OF c'] obtain i where i: "idx_of_ws (ws_id (workspaces m ! k)) m' = Some i"
    "i < length (workspaces m')" "w \<in># ws_mset (workspaces m' ! i)"
    by (metis body_mset_body)
  have "active_workspace_idx m' = i" if "activate = ActivateYes"
    using idx_of_ws_nth [OF c', of "active_workspace_idx m'"] active_workspace_Some [OF m'(3)] m'(5) [OF that] i(1)
    by (simp add: active_id_def)
  with m'(1) i win show ?thesis by (auto simp: ws_has_window_def ws_mset_windows mon_mset_windows)
qed

theorem moved_window_arrives_witness:
  "\<exists>m' i. move_to_workspace demo_clients (Some 21) 2 ActivateYes False demo_monitor = Some m' \<and>
     idx_of_ws 3 m' = Some i \<and> ws_has_window 21 (workspaces m' ! i) \<and> active_workspace_idx m' = i"
proof -
  have "(1::nat) < length (workspaces demo_monitor)" "(21::nat) \<in> set (ws_windows (workspaces demo_monitor ! 1))"
    "2 < visible_workspace_count demo_monitor" "(2::nat) \<noteq> 1"
    by (simp_all add: demo_monitor_def demo_arrivals_def demo_named_windows wins_def demo_column_def demo_tile_def
        visible_workspace_count_def workspace_new_def new_with_config_def)
  from moved_window_arrives [OF demo_clients_acyclic demo_monitor_ok this, of ActivateYes] show ?thesis
    by (auto simp: demo_monitor_def demo_arrivals_def)
qed

text \<open>
  C24. Switching goes to the workspace it should: up to the one above, or stays at the first;
  down to the one below, or stays at the last visible one; and by number to that workspace.
  This holds outside drag-and-drop scrolling and unless the workspace that is left has to be
  hidden again.
\<close>

theorem switching_focuses_target:
  assumes "mon_ok cv m" "dnd_gesture m = None" "\<not> needs_hidden (workspaces m ! active_workspace_idx m)"
    and "k < visible_workspace_count m"
  shows "(\<exists>m'. switch_workspace_up m = Some m' \<and> mon_ok cv m' \<and>
            active_id m' = ws_id (workspaces m ! (active_workspace_idx m - 1))) \<and>
         (\<exists>m'. switch_workspace_down m = Some m' \<and> mon_ok cv m' \<and>
            active_id m' = ws_id (workspaces m ! min (active_workspace_idx m + 1) (visible_workspace_count m - 1))) \<and>
         (\<exists>m'. switch_workspace k force m = Some m' \<and> mon_ok cv m' \<and>
            active_id m' = ws_id (workspaces m ! k))"
proof -
  have c: "content_ok cv m" and sh: "shape True m" using assms(1) by (simp_all add: mon_ok_def)
  note l = looseD [OF shape_loose [OF sh]]
  have n: "visible_workspace_count m = length (vis m)" by (rule visible_count [OF l(1)])
  have sw: "mon_ok cv m' \<and> active_id m' = ws_id (workspaces m ! j)"
    if "switches cv j m m'" "j < length (vis m)" for j m'
    using that assms(3) nth_vis(1) [OF l(1,2)] nth_vis(1) [OF l(1) that(2)]
    by (simp add: switches_def mon_ok_def rearranged_def)
  have up: "\<exists>m'. switch_workspace_up m = Some m' \<and> mon_ok cv m' \<and>
      active_id m' = ws_id (workspaces m ! (active_workspace_idx m - 1))"
    using switch_workspace_up_returns [OF c sh] assms(2) sw by (auto elim!: returnsE)
  have last: "active_workspace_idx m = min (active_workspace_idx m + 1) (length (vis m) - 1)"
    if "active_workspace_idx m + 1 = length (vis m)"
    using that by simp
  from switch_workspace_down_returns [OF c sh] obtain m' where
    down: "switch_workspace_down m = Some m'" "m' = m \<and> active_workspace_idx m + 1 = length (vis m) \<or>
      switches cv (min (active_workspace_idx m + 1) (length (vis m) - 1)) m m'"
    using assms(2) by (auto elim!: returnsE)
  have "min (active_workspace_idx m + 1) (length (vis m) - 1) < length (vis m)" using l(2) by (auto simp: min_def)
  with down(2) sw last assms(1) have "mon_ok cv m' \<and>
      active_id m' = ws_id (workspaces m ! min (active_workspace_idx m + 1) (visible_workspace_count m - 1))"
    unfolding n by (metis active_id_def)
  moreover have "\<exists>m'. switch_workspace k force m = Some m' \<and> mon_ok cv m' \<and> active_id m' = ws_id (workspaces m ! k)"
    using switch_workspace_returns [OF c sh, of k force] assms(4) sw n by (auto elim!: returnsE)
  ultimately show ?thesis using up down(1) by blast
qed

lemma demo_monitor_idle:
  "dnd_gesture demo_monitor = None" "\<not> needs_hidden (workspaces demo_monitor ! active_workspace_idx demo_monitor)"
  "visible_workspace_count demo_monitor = 5"
  by (simp_all add: demo_monitor_def demo_arrivals_def dnd_gesture_def visible_workspace_count_def
      workspace_new_def new_with_config_def)

theorem switching_focuses_target_witness:
  "(\<exists>m'. switch_workspace_down demo_monitor = Some m' \<and> active_id m' = 2) \<and>
   (\<exists>m'. switch_workspace 3 False demo_monitor = Some m' \<and> active_id m' = 4)"
  using switching_focuses_target [OF demo_monitor_ok demo_monitor_idle(1,2), of 3 False]
  by (auto simp: demo_monitor_idle) (auto simp: demo_monitor_def demo_arrivals_def)



text \<open>
  C26. However far the fingers travelled, a workspace gesture ends on a visible workspace, and
  outside the overview at most one workspace away from where it began.
\<close>

theorem gesture_ends_on_visible_workspace:
  assumes "mon_ok cv m" "workspace_switch m = Some (SwitchGesture g)" "touchpad = None \<or> touchpad = Some (sg_is_touchpad g)"
  shows "\<exists>m'. workspace_switch_gesture_end touchpad projected m = Some (m', True) \<and> mon_ok cv m' \<and>
           active_workspace_idx m' < visible_workspace_count m' \<and>
           \<not> ws_hidden (workspaces m' ! active_workspace_idx m') \<and>
           (\<not> sg_is_clamped g \<or>
            active_workspace_idx m' \<le> sg_center_idx g + 1 \<and> sg_center_idx g \<le> active_workspace_idx m' + 1)"
proof -
  have c: "content_ok cv m" and sh: "shape True m" using assms(1) by (simp_all add: mon_ok_def)
  note l = looseD [OF shape_loose [OF sh]]
  have n: "visible_workspace_count m = length (vis m)" by (rule visible_count [OF l(1)])
  have center: "sg_center_idx g < length (vis m)" using sh assms(2) by (simp add: shape_def)
  obtain lo hi where lim: "gesture_min_max g (length (vis m)) = Some (lo, hi)" "lo \<le> hi" "hi < length (vis m)"
    using gesture_range [OF center] by (auto elim!: returnsE)
  from clamped_index [OF lim(2), of projected] obtain y where
    y: "clamp_real lo hi projected = Some y" "lo \<le> round_half_up y" "round_half_up y \<le> hi"
    by (auto elim!: returnsE)
  from gesture_end_returns(1) [OF c sh, of touchpad projected] obtain m' b where
    run: "workspace_switch_gesture_end touchpad projected m = Some (m', b)" "rearranged cv m m'" "shape True m'"
    by (auto elim!: returnsE)
  have idx: "active_workspace_idx m' = round_half_up y \<and> b"
    using run(1) assms(2,3) lim(1) y(1) n
    by (auto simp: workspace_switch_gesture_end_def Let_def split: if_splits elim!: bind_eq_Some_conv [THEN iffD1, elim_format])
  note l' = looseD [OF shape_loose [OF run(3)]]
  have "sg_is_clamped g \<Longrightarrow> active_workspace_idx m' \<le> sg_center_idx g + 1 \<and> sg_center_idx g \<le> active_workspace_idx m' + 1"
    using lim(1) y(2,3) idx by (auto simp: gesture_min_max_def sub_usize_def split: if_splits)
  moreover have "\<not> ws_hidden (workspaces m' ! active_workspace_idx m')"
    using nth_vis(1) [OF l'(1,2)] vis_visible [OF nth_mem [OF l'(2)]] by simp
  ultimately show ?thesis
    using run idx l'(2) visible_count [OF l'(1)] by (auto simp: mon_ok_def rearranged_def)
qed

lemma demo_gesture:
  "mon_ok demo_clients (workspace_switch_gesture_begin 0 True demo_monitor)"
  "workspace_switch (workspace_switch_gesture_begin 0 True demo_monitor) = Some (SwitchGesture
     \<lparr>sg_center_idx = 0, sg_current_idx = 0, sg_is_touchpad = True, sg_is_clamped = True, sg_dnd = False\<rparr>)"
  using gesture_returns(1) [of demo_clients demo_monitor 0 True] demo_monitor_ok
  by (simp_all add: mon_ok_def rearranged_def) (simp add: workspace_switch_gesture_begin_def demo_monitor_def)

theorem gesture_ends_on_visible_workspace_witness:
  "\<exists>m'. workspace_switch_gesture_end (Some True) 17 (workspace_switch_gesture_begin 0 True demo_monitor) = Some (m', True) \<and>
     active_workspace_idx m' \<le> 1"
  using gesture_ends_on_visible_workspace [OF demo_gesture, of "Some True" 17] by auto

text \<open>
  C27. A new monitor is well formed and focuses the workspace that was asked for, whatever
  workspaces its output brings along, hidden ones included.
\<close>

theorem new_monitor_is_well_formed:
  assumes "arriving_ok cv nxt wss" "k < length wss" "\<not> ws_hidden (wss ! k)"
  shows "\<exists>m. monitor_new nxt out wss (Some (ws_id (wss ! k))) base part = Some m \<and>
           mon_ok cv m \<and> mon_verify_invariants m \<and> active_id m = ws_id (wss ! k)"
  using monitor_new_returns [OF assms(1), of out "Some (ws_id (wss ! k))" base part] assms(2,3) mon_ok_verify
  by (auto elim!: returnsE)

theorem new_monitor_is_well_formed_witness:
  "\<exists>m. monitor_new 10 demo_output demo_arrivals (Some 3) demo_options None = Some m \<and> active_id m = 3"
  using new_monitor_is_well_formed [OF demo_arrivals_ok, of 2 demo_output demo_options None]
  by (auto simp: demo_arrivals_def)

lemma mset_visible_hidden:
  "mset (concat (map ws_windows (filter (\<lambda>ws. \<not> ws_hidden ws) xs @ filter ws_hidden xs))) =
     mset (concat (map ws_windows xs))"
  by (induction xs) simp_all

text \<open>
  C28. Unplugging an output and plugging it in again loses nothing: the workspaces that the
  old monitor hands on make a well-formed new monitor, and its windows together with the
  sticky ones handed on separately are exactly the windows there were.
\<close>

theorem replugging_keeps_windows:
  assumes "mon_ok cv m"
  shows "\<exists>m'. monitor_new (next_ws_id m) out (fst (into_workspaces_and_sticky m)) to_activate base part = Some m' \<and>
           mon_ok cv m' \<and>
           mset (mon_windows m') + mset (map win (snd (into_workspaces_and_sticky m))) = mset (mon_windows m)"
proof -
  let ?wss = "fst (into_workspaces_and_sticky m)"
  have "arriving_ok cv (next_ws_id m) ?wss"
    using into_workspaces_arriving [OF assms] by (simp add: into_workspaces_and_sticky_def)
  from monitor_new_returns [OF this, of out to_activate base part] obtain m' where
    m': "monitor_new (next_ws_id m) out ?wss to_activate base part = Some m'" "mon_ok cv m'"
    "mon_windows m' = concat (map ws_windows (filter (\<lambda>ws. \<not> ws_hidden ws) ?wss @ filter ws_hidden ?wss))"
    by (auto elim!: returnsE)
  have "mset (mon_windows m') = mset (concat (map ws_windows ?wss))"
    unfolding m'(3) by (rule mset_visible_hidden)
  then have "mset (mon_windows m') + mset (map win (snd (into_workspaces_and_sticky m))) = mset (mon_windows m)"
    using into_workspaces_windows [of m] by (simp only: mset_append)
  with m'(1,2) show ?thesis by blast
qed

theorem replugging_keeps_windows_witness:
  "\<exists>m'. monitor_new (next_ws_id demo_monitor) demo_output (fst (into_workspaces_and_sticky demo_monitor)) None
          demo_options None = Some m' \<and>
     mset (mon_windows m') + mset (map win (snd (into_workspaces_and_sticky demo_monitor))) =
       {#11, 12, 13, 4, 3, 5, 2, 1, 6, 21, 22, 31#}"
  using replugging_keeps_windows [OF demo_monitor_ok, of demo_output None demo_options None]
  by (auto simp: demo_monitor_windows ac_simps)

text \<open>
  C29. Moving a window fails, by the \<open>unwrap\<close> on its workspace, exactly when no workspace of
  the monitor has the window.
\<close>

theorem move_to_workspace_panics_iff_missing:
  assumes "parents_acyclic cv" "mon_ok cv m"
  shows "move_to_workspace cv (Some w) k activate hidden m = None \<longleftrightarrow>
           \<not> list_ex (ws_has_window w) (workspaces m)"
proof (cases "list_ex (ws_has_window w) (workspaces m)")
  case True
  then have "mon_enabled (MonMoveToWorkspace (Some w) k activate hidden) m" by simp
  from keep_step [OF assms this] True show ?thesis by (auto elim!: returnsE)
next
  case False
  then have "position (ws_has_window w) (workspaces m) = None"
    by (simp add: position_None list_ex_iff)
  with False show ?thesis by (simp add: move_to_workspace_def)
qed

theorem move_to_workspace_panics_iff_missing_witness:
  "move_to_workspace demo_clients (Some 99) 2 ActivateNo False demo_monitor = None \<and>
   move_to_workspace demo_clients (Some 31) 0 ActivateNo False demo_monitor \<noteq> None"
  using move_to_workspace_panics_iff_missing [OF demo_clients_acyclic demo_monitor_ok]
  by (simp add: demo_monitor_def demo_arrivals_def ws_has_window_def demo_workspace_windows demo_named_windows
      wins_def demo_column_def demo_tile_def workspace_new_windows)

section \<open>Two places where order and focus go astray\<close>

definition ids :: "monitor \<Rightarrow> nat list" where
  "ids m = map ws_id (workspaces m)"

text \<open>
  \<open>hide_workspace_by_idx\<close> marks the workspace hidden before it removes it, so
  \<open>remove_workspace_by_idx\<close> does not shift the remembered positions of the other hidden
  workspaces: hiding 3, then 2, then showing 3 again puts it after 4, before which it stood.
\<close>

lemma unhiding_misplaces_workspace:
  "Option.bind (hide_workspace_by_id 3 demo_monitor) (\<lambda>(m, _).
     Option.bind (hide_workspace_by_id 2 m) (\<lambda>(m, _).
       map_option (\<lambda>(_, m). ids m) (unhide_workspace_by_id 3 False m))) = Some [1, 4, 3, 10, 2] \<and>
   ids demo_monitor = [1, 2, 3, 4, 10]"
  by code_simp

text \<open>
  With \<open>empty_workspace_above_first\<close>, moving a workspace to the top adds an empty one above it
  and thereby shifts the active index, which \<open>move_workspace_to_idx\<close> then compares with the old
  positions: the focus moves from the active workspace to the one that was moved.
\<close>

definition demo_above :: monitor where
  "demo_above =
     (let opts = demo_options\<lparr>empty_workspace_above_first := True\<rparr>
      in demo_monitor\<lparr>workspaces := workspace_new 9 demo_output opts # map (ws_update_config opts) (workspaces demo_monitor),
           active_workspace_idx := 1, mon_options := opts, mon_base_options := opts\<rparr>)"

lemma move_workspace_to_idx_steals_focus:
  "mon_verify_invariants demo_above \<and> active_id demo_above = 1 \<and>
   map_option (\<lambda>m. (take 3 (ids m), active_id m)) (move_workspace_to_idx 2 0 demo_above) = Some ([11, 2, 1], 2)"
  by code_simp

end
