(* ===== verification/MonitorFrame.thy ===== *)
theory MonitorFrame
  imports MonitorMoves
begin

text \<open>
  What an operation of a monitor does to the identity of its workspaces: ids, names and
  original outputs only come from the workspaces that were there, from fresh empty ones, and
  from those that the operation is given. The rules state this for whatever result an operation
  has, if it has one, and are applied step by step along its definition.
\<close>

section \<open>Frames\<close>

text \<open>
  A frame is a property of an id, a name and the original outputs, the output of the monitor,
  the first id that was free, and the options of the layout
\<close>

type_synonym frame = "(nat \<Rightarrow> string option \<Rightarrow> output_id list \<Rightarrow> bool) \<times> wl_output \<times> nat \<times> options"

definition frame_closed :: "frame \<Rightarrow> bool" where
  "frame_closed fr \<longleftrightarrow>
     (case fr of (T, out, n0, base) \<Rightarrow>
        (\<forall>i \<ge> n0. T i None [output_id_new out]) \<and>
        (\<forall>i nm os. T i nm os \<longrightarrow> T i None os \<and> T i nm [output_id_new out] \<and> T i nm (normalize_original_outputs os out)))"

section \<open>Results, if any\<close>

definition yields :: "frame \<Rightarrow> 'a option \<Rightarrow> ('a \<Rightarrow> bool) \<Rightarrow> bool" where
  "yields fr r P \<longleftrightarrow> (frame_closed fr \<longrightarrow> (\<forall>x. r = Some x \<longrightarrow> P x))"

lemma yields_simps [simp]:
  "yields fr None P" "yields fr (Option.bind r f) Q \<longleftrightarrow> yields fr r (\<lambda>x. yields fr (f x) Q)"
  "yields fr (map_option g r) Q \<longleftrightarrow> yields fr r (\<lambda>x. Q (g x))"
  by (auto simp: yields_def bind_eq_Some_conv)

lemma yields_Some [intro!]: "P x \<Longrightarrow> yields fr (Some x) P"
  by (simp add: yields_def)

lemma yieldsD: "yields fr r P \<Longrightarrow> frame_closed fr \<Longrightarrow> r = Some x \<Longrightarrow> P x"
  by (simp add: yields_def)

lemma yields_mono: "yields fr r P \<Longrightarrow> (\<And>x. P x \<Longrightarrow> Q x) \<Longrightarrow> yields fr r Q"
  by (simp add: yields_def)

lemma yields_any: "(\<And>x. P x) \<Longrightarrow> yields fr r P"
  by (simp add: yields_def)

lemma yields_get: "(\<And>x. x \<in> set xs \<Longrightarrow> P x) \<Longrightarrow> yields fr (vec_get xs i) P"
  by (simp add: yields_def vec_get_def)

lemma yields_vec_remove:
  "(\<And>x ys. x \<in> set xs \<Longrightarrow> set ys \<subseteq> set xs \<Longrightarrow> P (x, ys)) \<Longrightarrow> yields fr (vec_remove i xs) P"
  using set_remove_at_subset [of i xs] by (auto simp: yields_def vec_remove_def)

lemma yields_vec_insert:
  "(\<And>ys. set ys = insert x (set xs) \<Longrightarrow> P ys) \<Longrightarrow> yields fr (vec_insert i x xs) P"
  by (auto simp: yields_def vec_insert_def)

lemma yields_vec_swap:
  "(\<And>ys. set ys = set xs \<Longrightarrow> P ys) \<Longrightarrow> yields fr (vec_swap i j xs) P"
  by (auto simp: yields_def vec_swap_def)

definition tagged :: "frame \<Rightarrow> workspace \<Rightarrow> bool" where
  "tagged fr ws \<longleftrightarrow> fst fr (ws_id ws) (ws_name ws) (original_outputs ws)"

definition housed :: "frame \<Rightarrow> monitor \<Rightarrow> bool" where
  "housed fr m \<longleftrightarrow>
     frame_closed fr \<and>
     (case fr of (T, out, n0, base) \<Rightarrow> mon_output m = out \<and> mon_base_options m = base \<and> n0 \<le> next_ws_id m)"

definition stays :: "frame \<Rightarrow> monitor \<Rightarrow> bool" where
  "stays fr m \<longleftrightarrow> housed fr m \<and> (\<forall>ws \<in> set (workspaces m). tagged fr ws)"

lemma housed_upd [simp]:
  "housed fr (m\<lparr>active_workspace_idx := i\<rparr>) = housed fr m" "housed fr (m\<lparr>previous_workspace_id := p\<rparr>) = housed fr m"
  "housed fr (m\<lparr>workspace_switch := s\<rparr>) = housed fr m" "housed fr (m\<lparr>sticky := f\<rparr>) = housed fr m"
  "housed fr (m\<lparr>active_space := a\<rparr>) = housed fr m" "housed fr (m\<lparr>overview_open := b\<rparr>) = housed fr m"
  "housed fr (m\<lparr>workspaces := wss\<rparr>) = housed fr m"
  by (simp_all add: housed_def)

lemma stays_upd [simp]:
  "stays fr (m\<lparr>active_workspace_idx := i\<rparr>) = stays fr m" "stays fr (m\<lparr>previous_workspace_id := p\<rparr>) = stays fr m"
  "stays fr (m\<lparr>workspace_switch := s\<rparr>) = stays fr m" "stays fr (m\<lparr>sticky := f\<rparr>) = stays fr m"
  "stays fr (m\<lparr>active_space := a\<rparr>) = stays fr m" "stays fr (m\<lparr>overview_open := b\<rparr>) = stays fr m"
  by (simp_all add: stays_def)

lemma stays_wss [simp]:
  "stays fr (m\<lparr>workspaces := wss\<rparr>) \<longleftrightarrow> housed fr m \<and> (\<forall>ws \<in> set wss. tagged fr ws)"
  by (auto simp: stays_def)

lemma stays_housed [simp]: "stays fr m \<Longrightarrow> housed fr m"
  by (simp add: stays_def)

lemma stays_tagged [intro]: "stays fr m \<Longrightarrow> ws \<in> set (workspaces m) \<Longrightarrow> tagged fr ws"
  by (simp add: stays_def)

lemma tagged_upd [simp]:
  "tagged fr (ws\<lparr>ws_hidden := b\<rparr>) = tagged fr ws" "tagged fr (ws\<lparr>needs_hidden := b\<rparr>) = tagged fr ws"
  "tagged fr (ws\<lparr>original_idx := k\<rparr>) = tagged fr ws" "tagged fr (ws\<lparr>ws_scrolling := s\<rparr>) = tagged fr ws"
  "tagged fr (ws\<lparr>ws_floating := f\<rparr>) = tagged fr ws" "tagged fr (ws\<lparr>floating_is_active := a\<rparr>) = tagged fr ws"
  "tagged fr (ws\<lparr>ws_output := o'\<rparr>) = tagged fr ws" "tagged fr (ws\<lparr>base_options := bo\<rparr>) = tagged fr ws"
  "tagged fr (ws\<lparr>ws_options := wo\<rparr>) = tagged fr ws" "tagged fr (ws_update_config opts ws) = tagged fr ws"
  "tagged fr (shift_hidden g ws) = tagged fr ws" "tagged fr (ws_set_output None ws) = tagged fr ws"
  by (simp_all add: tagged_def ws_update_config_def shift_hidden_def ws_set_output_def)

lemma stays_map_shift [simp]:
  "stays fr (shift_hidden_original_indices_for_removal k m) = stays fr m"
  "stays fr (shift_hidden_original_indices_for_insertion k m) = stays fr m"
  by (auto simp: stays_def housed_def shift_hidden_original_indices_for_removal_def shift_hidden_original_indices_for_insertion_def)

lemma shift_fields [simp]:
  "mon_output (shift_hidden_original_indices_for_insertion k m) = mon_output m"
  "mon_options (shift_hidden_original_indices_for_insertion k m) = mon_options m"
  "next_ws_id (shift_hidden_original_indices_for_insertion k m) = next_ws_id m"
  "active_workspace_idx (shift_hidden_original_indices_for_insertion k m) = active_workspace_idx m"
  "workspace_switch (shift_hidden_original_indices_for_insertion k m) = workspace_switch m"
  "active_workspace_idx (shift_hidden_original_indices_for_removal k m) = active_workspace_idx m"
  by (simp_all add: shift_hidden_original_indices_for_insertion_def shift_hidden_original_indices_for_removal_def)

lemma tagged_adopt: "stays fr m \<Longrightarrow> tagged fr ws \<Longrightarrow> tagged fr (adopt m ws)"
  by (auto simp: adopt_def tagged_def stays_def housed_def frame_closed_def ws_update_config_def ws_set_output_def)

lemma tagged_own: "stays fr m \<Longrightarrow> tagged fr ws \<Longrightarrow> tagged fr (own_if_unnamed (mon_output m) ws)"
  by (auto simp: own_if_unnamed_def tagged_def stays_def housed_def frame_closed_def)

lemma tagged_unname: "stays fr m \<Longrightarrow> tagged fr ws \<Longrightarrow> tagged fr (ws_unname ws)"
  by (auto simp: ws_unname_def tagged_def stays_def housed_def frame_closed_def)

lemma stays_new:
  "stays fr m \<Longrightarrow> stays fr (m\<lparr>next_ws_id := next_ws_id m + 1\<rparr>) \<and>
     tagged fr (workspace_new (next_ws_id m) (mon_output m) (mon_options m))"
  by (auto simp: stays_def housed_def frame_closed_def tagged_def workspace_new_def new_with_config_def Let_def)

named_theorems frames "steps that stay in a frame"

lemma yields_ignored [frames]:
  "(\<And>x. P x) \<Longrightarrow> yields fr (sub_usize a b) P" "(\<And>x. P' x) \<Longrightarrow> yields fr (assert_that c) P'"
  "(\<And>x. P x) \<Longrightarrow> yields fr (position p xs) P" "(\<And>x. P x) \<Longrightarrow> yields fr (idx_of_ws i m) P"
  "(\<And>x. Pb x) \<Longrightarrow> yields fr (map_smart act r) Pb" "(\<And>x. Pw x) \<Longrightarrow> yields fr (ws_active_window ws) Pw"
  "(\<And>x. Pw x) \<Longrightarrow> yields fr (mon_active_window m) Pw"
  "(\<And>x. P2 x) \<Longrightarrow> yields fr (gesture_min_max g n) P2" "(\<And>x. Pr x) \<Longrightarrow> yields fr (clamp_real lo hi z) Pr"
  "(\<And>x. P x) \<Longrightarrow> yields fr (clamp_target_workspace_idx k h m) P"
  by (simp_all add: yields_def)

lemma tagged_get [frames]:
  "\<forall>ws \<in> set xs. tagged fr ws \<Longrightarrow> (\<And>x. tagged fr x \<Longrightarrow> P x) \<Longrightarrow> yields fr (vec_get xs i) P"
  by (auto intro: yields_get)

lemma tagged_remove [frames]:
  assumes "\<forall>ws \<in> set xs. tagged fr ws" "\<And>x ys. tagged fr x \<Longrightarrow> \<forall>ws \<in> set ys. tagged fr ws \<Longrightarrow> P (x, ys)"
  shows "yields fr (vec_remove i xs) P"
  by (rule yields_vec_remove) (use assms in blast)

lemmas [frames] = yields_Some yields_vec_insert yields_vec_swap

section \<open>Structure\<close>

lemma stays_add_workspace_at [frames]:
  assumes "stays fr m" and Q: "\<And>m'. stays fr m' \<Longrightarrow> Q m'"
  shows "yields fr (add_workspace_at idx m) Q"
proof -
  note n = stays_new [OF assms(1)]
  have "stays fr (m\<lparr>workspaces := wss, next_ws_id := next_ws_id m + 1\<rparr>)"
    if "set wss = insert (workspace_new (next_ws_id m) (mon_output m) (mon_options m)) (set (workspaces m))" for wss
    using n assms(1) that by (auto simp: stays_def housed_def)
  then show ?thesis
    unfolding add_workspace_at_def Let_def
    by (auto intro!: frames Q)
qed

lemma stays_add_top_bottom [frames]:
  "stays fr m \<Longrightarrow> (\<And>m'. stays fr m' \<Longrightarrow> Q m') \<Longrightarrow> yields fr (add_workspace_top m) Q"
  "stays fr m \<Longrightarrow> (\<And>m'. stays fr m' \<Longrightarrow> Q m') \<Longrightarrow> yields fr (add_workspace_bottom m) Q"
  by (simp_all add: add_workspace_top_def add_workspace_bottom_def stays_add_workspace_at)

lemma stays_ensure_empty [frames]:
  assumes "stays fr m" and Q: "\<And>m'. stays fr m' \<Longrightarrow> Q m'"
  shows "yields fr (ensure_empty_before_hidden m) Q"
  unfolding ensure_empty_before_hidden_def using assms(1)
  by (auto split: option.split intro!: frames Q)

lemma stays_clean_up_at [frames]:
  assumes "stays fr m" and Q: "\<And>m'. stays fr m' \<Longrightarrow> Q m'"
  shows "yields fr (clean_up_at idx m) Q"
  unfolding clean_up_at_def Let_def using assms(1)
  by (auto intro!: frames Q)

lemma stays_clean_up_all [frames]:
  assumes "stays fr m" and Q: "\<And>m'. stays fr m' \<Longrightarrow> Q m'"
  shows "yields fr (clean_up_all idxs m) Q"
  using assms(1) by (induction idxs arbitrary: m) (auto intro!: frames Q)

lemma stays_clean_up [frames]:
  assumes "stays fr m" and Q: "\<And>m'. stays fr m' \<Longrightarrow> Q m'"
  shows "yields fr (clean_up_workspaces m) Q"
proof -
  have "tagged fr ws" if "stays fr m'" "ws \<in> set (remove_at (Suc 0) (workspaces m'))" for m' ws
    using that set_remove_at_subset [of "Suc 0" "workspaces m'"] by (auto)
  note r = this
  show ?thesis
    unfolding clean_up_workspaces_def Let_def using assms(1)
    by (auto intro!: frames Q intro: r split: option.split)
qed

lemma stays_remove_workspace [frames]:
  assumes "stays fr m" and Q: "\<And>ws m'. tagged fr ws \<Longrightarrow> stays fr m' \<Longrightarrow> Q (ws, m')"
  shows "yields fr (remove_workspace_by_idx idx m) Q"
  unfolding remove_workspace_by_idx_def Let_def using assms(1)
  by (auto intro!: frames Q split: prod.split)

section \<open>Hidden workspaces and activation\<close>

lemma stays_on_workspace [frames]:
  assumes "stays fr m" "\<And>ws. tagged fr ws \<Longrightarrow> yields fr (f ws) (tagged fr)" and Q: "\<And>m'. stays fr m' \<Longrightarrow> Q m'"
  shows "yields fr (on_workspace idx f m) Q"
proof -
  have "stays fr (set_workspace idx ws m)" if "tagged fr ws" for ws
    using assms(1) that set_update_subset_insert [of "workspaces m" idx ws] by (auto simp: set_workspace_def)
  with assms(2) show ?thesis
    unfolding on_workspace_def using assms(1) by (auto intro!: frames Q yields_mono [OF assms(2)])
qed

lemma stays_set_workspace [simp]: "stays fr m \<Longrightarrow> tagged fr ws \<Longrightarrow> stays fr (set_workspace idx ws m)"
  using set_update_subset_insert [of "workspaces m" idx ws] by (auto simp: set_workspace_def)

lemma tagged_set_workspace [intro]:
  "stays fr m \<Longrightarrow> tagged fr ws \<Longrightarrow> w \<in> set (workspaces (set_workspace idx ws m)) \<Longrightarrow> tagged fr w"
  using stays_set_workspace by blast

lemma stays_hide_by_idx [frames]:
  assumes "stays fr m" and Q: "\<And>m'. stays fr m' \<Longrightarrow> Q m'"
  shows "yields fr (hide_workspace_by_idx idx m) Q"
  unfolding hide_workspace_by_idx_def Let_def using assms(1)
  by (auto intro!: frames Q split: prod.split)

lemma stays_hide_by_name [frames]:
  assumes "stays fr m" and Q: "\<And>m'. stays fr m' \<Longrightarrow> Q m'"
  shows "yields fr (hide_workspace_by_name n m) Q"
  unfolding hide_workspace_by_name_def using assms(1)
  by (auto intro!: frames Q split: option.split)

lemma stays_hide_by_id [frames]:
  assumes "stays fr m" and Q: "\<And>m' b. stays fr m' \<Longrightarrow> Q (m', b)"
  shows "yields fr (hide_workspace_by_id i m) Q"
  unfolding hide_workspace_by_id_def using assms(1)
  by (auto intro!: frames Q split: option.split)

lemma stays_hide_needs_hidden [frames]:
  assumes "stays fr m" and Q: "\<And>m' b. stays fr m' \<Longrightarrow> Q (m', b)"
  shows "yields fr (hide_needs_hidden idx m) Q"
  unfolding hide_needs_hidden_def using assms(1)
  by (auto intro!: frames Q)

lemma yields_active_workspace [frames]:
  "stays fr m \<Longrightarrow> (\<And>ws. tagged fr ws \<Longrightarrow> Q ws) \<Longrightarrow> yields fr (active_workspace m) Q"
  unfolding active_workspace_def by (auto intro!: frames)

lemma stays_activate [frames]:
  assumes "stays fr m" and Q: "\<And>m'. stays fr m' \<Longrightarrow> Q m'"
  shows "yields fr (activate_workspace idx m) Q"
  unfolding activate_workspace_def Let_def using assms(1)
  by (auto intro!: frames Q split: option.split switch_state.split prod.split)

lemma stays_insert_hidden [frames]:
  assumes "stays fr m" "tagged fr ws" and Q: "\<And>m'. stays fr m' \<Longrightarrow> Q m'"
  shows "yields fr (insert_hidden_workspace ws idx m) Q"
  unfolding insert_hidden_workspace_def Let_def using assms(1,2) tagged_adopt [OF assms(1,2)]
  by (auto intro!: frames Q)

lemma stays_insert_workspace [frames]:
  assumes "stays fr m" "tagged fr ws" and Q: "\<And>i m'. stays fr m' \<Longrightarrow> Q (i, m')"
  shows "yields fr (insert_workspace ws idx activate m) Q"
  unfolding insert_workspace_def Let_def using assms(1,2) tagged_adopt [OF assms(1,2)]
  by (auto intro!: frames Q split: option.split prod.split)

lemma stays_unhide [frames]:
  assumes "stays fr m" and Q: "\<And>i m'. stays fr m' \<Longrightarrow> Q (i, m')"
  shows "yields fr (unhide_workspace_by_id i needs m) Q"
  unfolding unhide_workspace_by_id_def Let_def using assms(1)
  by (auto intro!: frames Q split: option.split prod.split)

lemma stays_append [frames]:
  assumes "stays fr m" "\<forall>ws \<in> set wss. tagged fr ws" and Q: "\<And>m'. stays fr m' \<Longrightarrow> Q m'"
  shows "yields fr (append_workspaces wss m) Q"
proof -
  have "stays fr ((shift_hidden_original_indices_for_insertion k ^^ n) m')" if "stays fr m'" for k n m'
    using that by (induction n) simp_all
  note sh = this
  have "tagged fr w" if "w \<in> set (workspaces ((shift_hidden_original_indices_for_insertion k ^^ n) m))" for w k n
    using sh [OF assms(1)] that by blast
  then show ?thesis
    unfolding append_workspaces_def Let_def using assms(1,2) tagged_adopt [OF assms(1)] sh [OF assms(1)]
    by (auto intro!: frames Q dest!: in_set_takeD in_set_dropD split: option.split)
qed

lemma stays_unname [frames]:
  assumes "stays fr m" and Q: "\<And>i m'. stays fr m' \<Longrightarrow> Q (m', i)"
  shows "yields fr (unname_workspace i m) Q"
  unfolding unname_workspace_def Let_def using assms(1)
  by (auto intro!: frames Q tagged_unname [OF assms(1)] split: option.split prod.split)

section \<open>Windows in workspaces\<close>

lemma tagged_spaces [frames]:
  "(\<And>s. Q (ws\<lparr>ws_scrolling := s\<rparr>)) \<Longrightarrow> yields fr (on_scrolling f ws) Q"
  "(\<And>s. Q (ws\<lparr>ws_floating := s\<rparr>)) \<Longrightarrow> yields fr (on_floating g ws) Q"
  "(\<And>s b. R (ws\<lparr>ws_scrolling := s\<rparr>, b)) \<Longrightarrow> yields fr (on_scrolling_flag h ws) R"
  "(\<And>s b. R (ws\<lparr>ws_floating := s\<rparr>, b)) \<Longrightarrow> yields fr (on_floating_flag k ws) R"
  by (auto simp: on_scrolling_def on_floating_def on_scrolling_flag_def on_floating_flag_def yields_def bind_eq_Some_conv)

lemma tagged_focus [simp]:
  "tagged fr (focus_tiling_if a ws) = tagged fr ws" "tagged fr (focus_floating_if a ws) = tagged fr ws"
  "tagged fr (update_focus_floating_tiling_after_removing b ws) = tagged fr ws"
  "tagged fr (switch_focus_floating_tiling ws) = tagged fr ws" "tagged fr (focus_floating ws) = tagged fr ws"
  "tagged fr (focus_tiling ws) = tagged fr ws"
  by (simp_all add: focus_tiling_if_def focus_floating_if_def update_focus_floating_tiling_after_removing_def
      switch_focus_floating_tiling_def focus_floating_def focus_tiling_def)

lemma tagged_ws_add_tile [frames]:
  assumes "tagged fr ws" and Q: "\<And>ws'. tagged fr ws' \<Longrightarrow> Q ws'"
  shows "yields fr (ws_add_tile cv t target activate width full is_floating ws) Q"
  unfolding ws_add_tile_def Let_def using assms(1)
  by (auto intro!: frames Q split: add_window_target.split)

lemma tagged_ws_add [frames]:
  assumes "tagged fr ws" and Q: "\<And>ws'. tagged fr ws' \<Longrightarrow> Q ws'"
  shows "yields fr (ws_add_tile_to_column c i t a ws) Q" "yields fr (ws_add_column col a ws) Q"
  unfolding ws_add_tile_to_column_def ws_add_column_def using assms(1) by (auto intro!: frames Q)

lemma tagged_ws_remove [frames]:
  assumes "tagged fr ws" and Q: "\<And>r ws'. tagged fr ws' \<Longrightarrow> Q (r, ws')"
  shows "yields fr (ws_remove_tile cv w ws) Q"
  using assms(1) by (auto simp: ws_remove_tile_def yields_def bind_eq_Some_conv intro!: Q)

lemma tagged_ws_remove_column [frames]:
  assumes "tagged fr ws" and Q: "\<And>r ws'. tagged fr ws' \<Longrightarrow> Q (r, ws')"
  shows "yields fr (ws_remove_active_column ws) Q"
  using assms(1) by (auto simp: ws_remove_active_column_def yields_def bind_eq_Some_conv intro!: Q split: option.splits)

lemma tagged_ws_flags [frames]:
  assumes "tagged fr ws" and Q: "\<And>r ws'. tagged fr ws' \<Longrightarrow> Q (ws', r)"
  shows "yields fr (ws_move_down ws) Q" "yields fr (ws_move_up ws) Q" "yields fr (ws_focus_down cv ws) Q" "yields fr (ws_focus_up cv ws) Q"
  unfolding ws_move_down_def ws_move_up_def ws_focus_down_def ws_focus_up_def floating_moved_def
  using assms(1) by (auto intro!: frames Q)

section \<open>Windows between workspaces\<close>

lemma stays_unhide_if [frames]:
  assumes "stays fr m" and Q: "\<And>i m'. stays fr m' \<Longrightarrow> Q (i, m')"
  shows "yields fr (unhide_if wanted idx m) Q"
  unfolding unhide_if_def using assms(1) by (auto intro!: frames Q)

lemma stays_add_to_workspace [frames]:
  assumes "stays fr m" "\<And>ws. tagged fr ws \<Longrightarrow> yields fr (f ws) (tagged fr)" and Q: "\<And>i m'. stays fr m' \<Longrightarrow> Q (i, m')"
  shows "yields fr (add_to_workspace idx f m) Q"
  unfolding add_to_workspace_def Let_def using assms(1)
  by (auto intro!: frames Q yields_mono [OF assms(2)] tagged_own [OF assms(1)])

lemma stays_mon_add_column [frames]:
  assumes "stays fr m" and Q: "\<And>m'. stays fr m' \<Longrightarrow> Q m'"
  shows "yields fr (mon_add_column idx c activate m) Q"
  unfolding mon_add_column_def using assms(1) by (auto intro!: frames Q split: prod.split)

lemma yields_resolve [frames]: "(\<And>x. P x) \<Longrightarrow> yields fr (resolve_add_window_target target m) P"
  by (simp add: yields_def)

lemma stays_mon_add_tile [frames]:
  assumes "stays fr m" and Q: "\<And>m'. stays fr m' \<Longrightarrow> Q m'"
  shows "yields fr (mon_add_tile cv t target activate allow width full is_floating force m) Q"
  unfolding mon_add_tile_def Let_def using assms(1) by (auto intro!: frames Q split: prod.split)

lemma stays_mon_add_tile_to_column [frames]:
  assumes "stays fr m" and Q: "\<And>m'. stays fr m' \<Longrightarrow> Q m'"
  shows "yields fr (mon_add_tile_to_column idx c i t activate allow m) Q"
  unfolding mon_add_tile_to_column_def using assms(1)
  by (auto intro!: frames Q tagged_own split: prod.split)

lemma stays_sticky [frames]:
  assumes "stays fr m"
  shows "(\<And>m'. stays fr m' \<Longrightarrow> Q m') \<Longrightarrow> yields fr (add_sticky_tile cv t activate m) Q"
    "(\<And>r m'. stays fr m' \<Longrightarrow> R (r, m')) \<Longrightarrow> yields fr (remove_sticky_tile cv w m) R"
    "(\<And>b m'. stays fr m' \<Longrightarrow> S (m', b)) \<Longrightarrow> yields fr (activate_sticky_window cv w m) S"
    "stays fr (fst (activate_sticky_window_without_raising w m))" "stays fr (focus_workspace m)"
  using assms
  by (auto simp: add_sticky_tile_def remove_sticky_tile_def activate_sticky_window_def focus_workspace_def
      activate_sticky_window_without_raising_def Let_def yields_def bind_eq_Some_conv split: prod.splits if_splits bool.splits)

lemma stays_mon_add_window [frames]:
  assumes "stays fr m" and Q: "\<And>m'. stays fr m' \<Longrightarrow> Q m'"
  shows "yields fr (mon_add_window cv t target activate width full is_floating is_sticky force m) Q"
  unfolding mon_add_window_def using assms(1) by (auto intro!: frames Q)

lemma stays_on_active [frames]:
  assumes "stays fr m" "\<And>ws. tagged fr ws \<Longrightarrow> yields fr (f ws) (tagged fr)" and Q: "\<And>m'. stays fr m' \<Longrightarrow> Q m'"
  shows "yields fr (on_active_workspace f m) Q"
  unfolding on_active_workspace_def using assms by (intro frames)

lemma stays_focus [frames]:
  assumes "stays fr m" and Q: "\<And>m'. stays fr m' \<Longrightarrow> Q m'"
  shows "yields fr (mon_focus_floating m) Q" "yields fr (mon_focus_tiling m) Q" "yields fr (mon_switch_focus_floating_tiling m) Q"
proof -
  show f: "yields fr (mon_focus_floating m) Q" unfolding mon_focus_floating_def using assms(1) by (auto intro!: frames Q)
  show t: "yields fr (mon_focus_tiling m) Q" unfolding mon_focus_tiling_def using assms(1) by (auto intro!: frames Q)
  show "yields fr (mon_switch_focus_floating_tiling m) Q"
    unfolding mon_switch_focus_floating_tiling_def using assms(1) f t by (auto intro!: frames)
qed

lemma stays_switch [frames]:
  assumes "stays fr m" and Q: "\<And>m'. stays fr m' \<Longrightarrow> Q m'"
  shows "yields fr (switch_workspace_up m) Q" "yields fr (switch_workspace_down m) Q" "yields fr (switch_workspace k force m) Q"
    "yields fr (switch_workspace_auto_back_and_forth k m) Q" "yields fr (switch_workspace_previous m) Q"
proof -
  show "yields fr (switch_workspace_up m) Q"
    unfolding switch_workspace_up_def Let_def using assms(1) by (auto intro!: frames Q split: option.split)
  show "yields fr (switch_workspace_down m) Q"
    unfolding switch_workspace_down_def Let_def using assms(1)
    by (auto simp del: skip_hidden_down.simps intro!: frames Q split: option.split)
  have sw: "yields fr (switch_workspace k force m) Q" for k force
    unfolding switch_workspace_def Let_def using assms(1) by (auto intro!: frames Q split: option.split prod.split)
  then show "yields fr (switch_workspace k force m) Q" .
  show "yields fr (switch_workspace_auto_back_and_forth k m) Q"
    unfolding switch_workspace_auto_back_and_forth_def Let_def using assms(1) by (auto intro!: frames Q sw split: option.split)
  show "yields fr (switch_workspace_previous m) Q"
    unfolding switch_workspace_previous_def using assms(1) by (auto intro!: Q sw frames split: option.split)
qed

lemma stays_move_to_workspace [frames]:
  assumes "stays fr m" and Q: "\<And>m'. stays fr m' \<Longrightarrow> Q m'"
  shows "yields fr (move_to_workspace cv w k a h m) Q"
proof -
  have core: "yields fr (do {
       assert_that (ws_has_window v ws);
       (r, ws) \<leftarrow> ws_remove_tile cv v ws;
       m \<leftarrow> mon_add_tile cv (rt_tile r) (MonWorkspace (ws_id target) None) act True (rt_width r)
             (rt_is_full_width r) (rt_is_floating r) force (set_workspace source ws m);
       m \<leftarrow> (if workspace_switch m = None then clean_up_workspaces m else Some m);
       new_idx \<leftarrow> idx_of_ws (ws_id target) m;
       ws \<leftarrow> vec_get (workspaces m) new_idx;
       assert_that (ws_has_window v ws);
       Some m}) Q" if "tagged fr ws" for v ws target act force source
    using assms(1) that by (auto intro!: frames Q split: prod.split)
  show ?thesis
  proof (cases w)
    case None
    then show ?thesis
      unfolding move_to_workspace_def Let_def None option.case using assms(1)
      by (auto intro!: frames core Q split: option.split)
  next
    case (Some v)
    then show ?thesis
      unfolding move_to_workspace_def Let_def Some option.case using assms(1)
      by (auto intro!: frames core Q split: option.split)
  qed
qed

lemma stays_move_to_workspace_up_down [frames]:
  assumes "stays fr m" and Q: "\<And>m'. stays fr m' \<Longrightarrow> Q m'"
  shows "yields fr (move_to_workspace_up cv a m) Q" "yields fr (move_to_workspace_down cv a m) Q"
  unfolding move_to_workspace_up_def move_to_workspace_down_def using assms(1) by (auto intro!: frames Q)

lemma stays_move_column [frames]:
  assumes "stays fr m" and Q: "\<And>m'. stays fr m' \<Longrightarrow> Q m'"
  shows "yields fr (move_column_to_workspace cv k a h m) Q"
proof -
  have any: "(\<And>x. P x) \<Longrightarrow> yields fr (c :: column option) P" for P c
    by (rule yields_any)
  show ?thesis
    unfolding move_column_to_workspace_def Let_def using assms(1)
    by (auto intro!: frames any Q split: prod.split)
qed

lemma stays_move_column_up_down [frames]:
  assumes "stays fr m" and Q: "\<And>m'. stays fr m' \<Longrightarrow> Q m'"
  shows "yields fr (move_column_to_workspace_up cv a m) Q" "yields fr (move_column_to_workspace_down cv a m) Q"
  unfolding move_column_to_workspace_up_def move_column_to_workspace_down_def using assms(1) by (auto intro!: frames Q)

lemma stays_or_workspace [frames]:
  assumes "stays fr m" and Q: "\<And>m'. stays fr m' \<Longrightarrow> Q m'"
  shows "yields fr (move_down_or_to_workspace_down cv m) Q" "yields fr (move_up_or_to_workspace_up cv m) Q"
    "yields fr (focus_window_or_workspace_down cv m) Q" "yields fr (focus_window_or_workspace_up cv m) Q"
  unfolding move_down_or_to_workspace_down_def move_up_or_to_workspace_up_def focus_window_or_workspace_down_def
    focus_window_or_workspace_up_def active_workspace_flag_def
  using assms(1) by (auto intro!: frames Q split: prod.split)

section \<open>Order and gestures\<close>

lemma stays_follow [frames]:
  assumes "stays fr m" and Q: "\<And>m'. stays fr m' \<Longrightarrow> Q m'"
  shows "yields fr (follow_moved_workspace k m) Q"
  unfolding follow_moved_workspace_def Let_def using assms(1) by (auto intro!: frames Q)

lemma stays_move_workspace [frames]:
  assumes "stays fr m" and Q: "\<And>m'. stays fr m' \<Longrightarrow> Q m'"
  shows "yields fr (move_workspace_down m) Q" "yields fr (move_workspace_up m) Q" "yields fr (move_workspace_to_idx i k m) Q"
proof -
  show "yields fr (move_workspace_down m) Q"
    unfolding move_workspace_down_def Let_def using assms(1) by (auto intro!: frames Q split: prod.split)
  show "yields fr (move_workspace_up m) Q"
    unfolding move_workspace_up_def Let_def using assms(1) by (auto intro!: frames Q split: prod.split)
  show "yields fr (move_workspace_to_idx i k m) Q"
    unfolding move_workspace_to_idx_def Let_def using assms(1)
    by (auto simp del: vec_get_Some vec_remove_Some vec_insert_Some intro!: frames Q split: prod.split)
qed

lemma stays_gestures [frames]:
  assumes "stays fr m"
  shows "stays fr (workspace_switch_gesture_begin pos tp m)" "stays fr (dnd_scroll_gesture_begin pos m)"
    "stays fr (fst (workspace_switch_gesture_update pos tp m))"
  using assms by (auto simp: workspace_switch_gesture_begin_def dnd_scroll_gesture_begin_def workspace_switch_gesture_update_def
      split: option.split switch_state.split)

lemma stays_gesture_end [frames]:
  assumes "stays fr m" and Q: "\<And>m'. stays fr m' \<Longrightarrow> Q m'" and R: "\<And>b m'. stays fr m' \<Longrightarrow> R (m', b)"
  shows "yields fr (workspace_switch_gesture_end tp pos m) R" "yields fr (dnd_scroll_gesture_scroll pos m) Q"
    "yields fr (dnd_scroll_gesture_end pos m) Q" "yields fr (mon_advance_animations b m) Q"
proof -
  have e: "yields fr (workspace_switch_gesture_end tp pos m) R" if "\<And>b m'. stays fr m' \<Longrightarrow> R (m', b)" for tp R
    unfolding workspace_switch_gesture_end_def Let_def using assms(1)
    by (auto intro!: frames that split: option.split switch_state.split prod.split)
  show "yields fr (workspace_switch_gesture_end tp pos m) R" by (rule e) (rule R)
  show "yields fr (dnd_scroll_gesture_end pos m) Q"
    unfolding dnd_scroll_gesture_end_def using assms(1) by (auto intro!: Q e)
  show "yields fr (dnd_scroll_gesture_scroll pos m) Q"
    unfolding dnd_scroll_gesture_scroll_def using assms(1)
    by (auto intro!: frames Q split: option.split switch_state.split prod.split)
  show "yields fr (mon_advance_animations b m) Q"
    unfolding mon_advance_animations_def using assms(1)
    by (auto intro!: frames Q split: option.split switch_state.split)
qed

end
