(* ===== verification/Layout.thy ===== *)
theory Layout
  imports MonitorMoves
begin

text \<open>
  \<open>src/layout/mod.rs\<close>, the \<open>Layout\<close>: the monitors of the connected outputs, or the bare
  workspaces when there is no output, the window that is being dragged, and the operations
  that reach across monitors: outputs coming and going, windows opening and closing, focus.

  Of the overview the flags are kept that say which monitors take part in it; its zoom and the
  carousel only scale what is drawn. Widths come from sizes in pixels and the positions of
  scroll gestures from the view, so both are arguments.
\<close>

section \<open>State\<close>

text \<open>\<open>InteractiveMoveData\<close> and \<open>InteractiveMoveState\<close>, without pointer positions\<close>

record move_data =
  md_tile :: tile
  md_output :: wl_output
  md_width :: column_width
  md_is_full_width :: bool
  md_is_floating :: bool
  md_is_sticky :: bool

datatype move_state = MoveStarting win_id | Moving move_data

text \<open>The connected monitors with the indices of the primary and of the active one\<close>

datatype monitor_set = Normal "monitor list" nat nat | NoOutputs "workspace list"

text \<open>
  \<open>lt_next_ws_id\<close> is the global counter behind \<open>WorkspaceId::next\<close>, \<open>lt_consolidated\<close> says
  that the consolidated carousel is configured, and \<open>lt_isolated\<close> holds the outputs whose
  monitors have the flag \<open>isolated\<close>
\<close>

record layout =
  lt_set :: monitor_set
  last_active_workspace_id :: "string \<rightharpoonup> nat"
  lt_interactive_move :: "move_state option"
  lt_overview_open :: bool
  lt_consolidated :: bool
  lt_isolated :: "wl_output list"
  lt_options :: options
  lt_next_ws_id :: nat

text \<open>A monitor works with the current value of the counter\<close>

definition at_counter :: "nat \<Rightarrow> monitor \<Rightarrow> monitor" where
  "at_counter n m = m\<lparr>next_ws_id := n\<rparr>"

definition lt_monitors :: "layout \<Rightarrow> monitor list" where
  "lt_monitors L = (case lt_set L of Normal mons _ _ \<Rightarrow> mons | NoOutputs _ \<Rightarrow> [])"

definition lt_workspaces :: "layout \<Rightarrow> workspace list" where
  "lt_workspaces L =
     (case lt_set L of Normal mons _ _ \<Rightarrow> concat (map workspaces mons) | NoOutputs wss \<Rightarrow> wss)"

definition moving_data :: "layout \<Rightarrow> move_data option" where
  "moving_data L = (case lt_interactive_move L of Some (Moving md) \<Rightarrow> Some md | _ \<Rightarrow> None)"

definition is_moved :: "win_id \<Rightarrow> layout \<Rightarrow> bool" where
  "is_moved w L \<longleftrightarrow> (case moving_data L of Some md \<Rightarrow> win (md_tile md) = w | None \<Rightarrow> False)"

text \<open>The guard \<open>window.is_none() || window == Some(moved window)\<close> of many operations\<close>

definition drag_captures :: "win_id option \<Rightarrow> layout \<Rightarrow> bool" where
  "drag_captures w L \<longleftrightarrow> moving_data L \<noteq> None \<and> (case w of None \<Rightarrow> True | Some w \<Rightarrow> is_moved w L)"

definition lt_windows :: "layout \<Rightarrow> win_id list" where
  "lt_windows L =
     (case moving_data L of Some md \<Rightarrow> [win (md_tile md)] | None \<Rightarrow> []) @
     concat (map (\<lambda>m. fl_windows (sticky m)) (lt_monitors L)) @
     concat (map ws_windows (lt_workspaces L))"

definition lt_has_window :: "win_id \<Rightarrow> layout \<Rightarrow> bool" where
  "lt_has_window w L \<longleftrightarrow> w \<in> set (lt_windows L)"

definition sticky_has_window :: "win_id \<Rightarrow> monitor \<Rightarrow> bool" where
  "sticky_has_window w m = fl_has_window w (sticky m)"

definition is_sticky_window :: "win_id \<Rightarrow> layout \<Rightarrow> bool" where
  "is_sticky_window w L = list_ex (sticky_has_window w) (lt_monitors L)"

definition sticky_is_active :: "monitor \<Rightarrow> bool" where
  "sticky_is_active m \<longleftrightarrow> active_space m = SpaceSticky"

definition in_workspaces :: "win_id \<Rightarrow> monitor \<Rightarrow> bool" where
  "in_workspaces w m = list_ex (ws_has_window w) (workspaces m)"

definition outputs_of :: "monitor list \<Rightarrow> wl_output list" where
  "outputs_of mons = map mon_output mons"

definition monitor_of_output :: "wl_output \<Rightarrow> monitor list \<Rightarrow> nat option" where
  "monitor_of_output out mons = position (\<lambda>m. mon_output m = out) mons"

definition output_connector :: "wl_output \<Rightarrow> string" where
  "output_connector out = on_connector (out_name out)"

section \<open>Running an operation on one monitor\<close>

definition on_monitor ::
  "nat \<Rightarrow> (monitor \<Rightarrow> ('a \<times> monitor) option) \<Rightarrow> layout \<Rightarrow> ('a \<times> layout) option" where
  "on_monitor k f L =
     (case lt_set L of
        NoOutputs _ \<Rightarrow> None
      | Normal mons p a \<Rightarrow> do {
          m \<leftarrow> vec_get mons k;
          (x, m) \<leftarrow> f (at_counter (lt_next_ws_id L) m);
          Some (x, L\<lparr>lt_set := Normal (mons[k := m]) p a, lt_next_ws_id := next_ws_id m\<rparr>)
        })"

definition change_monitor :: "nat \<Rightarrow> (monitor \<Rightarrow> monitor option) \<Rightarrow> layout \<Rightarrow> layout option" where
  "change_monitor k f L = map_option snd (on_monitor k (\<lambda>m. map_option (Pair ()) (f m)) L)"

definition set_active_monitor :: "nat \<Rightarrow> layout \<Rightarrow> layout" where
  "set_active_monitor k L =
     (case lt_set L of
        NoOutputs _ \<Rightarrow> L
      | Normal mons p _ \<Rightarrow> L\<lparr>lt_set := Normal mons p k\<rparr>)"

text \<open>\<open>let Some(monitor) = self.active_monitor() else { return }\<close>\<close>

definition on_active_monitor :: "(monitor \<Rightarrow> monitor option) \<Rightarrow> layout \<Rightarrow> layout option" where
  "on_active_monitor f L =
     (case lt_set L of NoOutputs _ \<Rightarrow> Some L | Normal _ _ a \<Rightarrow> change_monitor a f L)"

text \<open>\<open>let Some(workspace) = self.active_workspace_mut() else { return }\<close>, which also takes the focus off a sticky window\<close>

definition on_focused_workspace :: "(workspace \<Rightarrow> workspace option) \<Rightarrow> layout \<Rightarrow> layout option" where
  "on_focused_workspace f L = on_active_monitor (\<lambda>m. on_active_workspace f (focus_workspace m)) L"

definition lt_active_monitor :: "layout \<Rightarrow> monitor option" where
  "lt_active_monitor L = (case lt_set L of NoOutputs _ \<Rightarrow> None | Normal mons _ a \<Rightarrow> vec_get mons a)"

section \<open>The overview\<close>

definition takes_part :: "layout \<Rightarrow> nat \<Rightarrow> nat \<Rightarrow> wl_output \<Rightarrow> bool" where
  "takes_part L active k out \<longleftrightarrow>
     lt_overview_open L \<and> out \<notin> set (lt_isolated L) \<and> (\<not> lt_consolidated L \<or> k = active)"

definition set_monitors_overview_state :: "layout \<Rightarrow> layout" where
  "set_monitors_overview_state L =
     (case lt_set L of
        NoOutputs _ \<Rightarrow> L
      | Normal mons p a \<Rightarrow>
          L\<lparr>lt_set := Normal
            (map (\<lambda>(k, m). m\<lparr>overview_open := takes_part L a k (mon_output m)\<rparr>) (zip [0..<length mons] mons)) p a\<rparr>)"

definition toggle_overview :: "layout \<Rightarrow> layout" where
  "toggle_overview L = set_monitors_overview_state (L\<lparr>lt_overview_open := \<not> lt_overview_open L\<rparr>)"

definition open_overview :: "layout \<Rightarrow> bool \<times> layout" where
  "open_overview L = (if lt_overview_open L then (False, L) else (True, toggle_overview L))"

definition close_overview :: "layout \<Rightarrow> bool \<times> layout" where
  "close_overview L = (if \<not> lt_overview_open L then (False, L) else (True, toggle_overview L))"

definition close_overview_preserving_zoom :: "layout \<Rightarrow> bool \<times> layout" where
  "close_overview_preserving_zoom L =
     (if \<not> lt_overview_open L then (False, L)
      else (True, set_monitors_overview_state (L\<lparr>lt_overview_open := False\<rparr>)))"

definition toggle_overview_to_workspace :: "nat \<Rightarrow> layout \<Rightarrow> layout option" where
  "toggle_overview_to_workspace idx L = map_option toggle_overview (on_active_monitor (activate_workspace idx) L)"

definition on_active_monitor_changed :: "layout \<Rightarrow> layout" where
  "on_active_monitor_changed L = (if lt_overview_open L then set_monitors_overview_state L else L)"

text \<open>The assignment to the active monitor together with the call that follows when it changed\<close>

definition switch_active_monitor :: "nat \<Rightarrow> layout \<Rightarrow> layout" where
  "switch_active_monitor k L =
     (case lt_set L of
        NoOutputs _ \<Rightarrow> L
      | Normal _ _ a \<Rightarrow>
          if k = a then L else on_active_monitor_changed (set_active_monitor k L))"

section \<open>Loops over all monitors\<close>

text \<open>A loop that may panic\<close>

fun map_all :: "('a \<Rightarrow> 'b option) \<Rightarrow> 'a list \<Rightarrow> 'b list option" where
  "map_all f [] = Some []"
| "map_all f (x # xs) = do { y \<leftarrow> f x; ys \<leftarrow> map_all f xs; Some (y # ys) }"

definition on_all_monitors :: "(monitor \<Rightarrow> monitor option) \<Rightarrow> layout \<Rightarrow> layout option" where
  "on_all_monitors f L =
     (case lt_set L of
        NoOutputs _ \<Rightarrow> Some L
      | Normal mons p a \<Rightarrow> map_option (\<lambda>mons. L\<lparr>lt_set := Normal mons p a\<rparr>) (map_all f mons))"

text \<open>\<open>for mon in self.monitors_mut() { mon.dnd_scroll_gesture_end() }\<close>; \<open>pos\<close> is where the gesture of an output ends\<close>

definition end_scroll_gestures :: "(wl_output \<Rightarrow> real) \<Rightarrow> layout \<Rightarrow> layout option" where
  "end_scroll_gestures pos L = on_all_monitors (\<lambda>m. dnd_scroll_gesture_end (pos (mon_output m)) m) L"

section \<open>Construction\<close>

fun numbered :: "nat \<Rightarrow> workspace_config list \<Rightarrow> options \<Rightarrow> workspace list" where
  "numbered n [] opts = []"
| "numbered n (c # cs) opts = new_with_config_no_outputs n (Some c) opts # numbered (n + 1) cs opts"

definition with_options_and_workspaces :: "nat \<Rightarrow> workspace_config list \<Rightarrow> bool \<Rightarrow> options \<Rightarrow> layout" where
  "with_options_and_workspaces fresh_id cfgs consolidated opts =
     \<lparr>lt_set = NoOutputs (numbered fresh_id cfgs opts), last_active_workspace_id = Map.empty,
      lt_interactive_move = None, lt_overview_open = False, lt_consolidated = consolidated, lt_isolated = [],
      lt_options = opts, lt_next_ws_id = fresh_id + length cfgs\<rparr>"

section \<open>An output is connected\<close>

text \<open>
  The loop that moves the workspaces preferring the new output out of one monitor, from the
  last position to the first; \<open>stopped\<close> says that a workspace switch was cut off
\<close>

fun take_preferred ::
  "(workspace \<Rightarrow> bool) \<Rightarrow> nat list \<Rightarrow> bool \<Rightarrow> monitor \<Rightarrow> workspace list
   \<Rightarrow> (monitor \<times> bool \<times> workspace list) option" where
  "take_preferred preferred [] stopped m taken = Some (m, stopped, taken)"
| "take_preferred preferred (i # is) stopped m taken =
     do {
       ws \<leftarrow> vec_get (workspaces m) i;
       if \<not> preferred ws then take_preferred preferred is stopped m taken
       else do {
         (ws, wss) \<leftarrow> vec_remove i (workspaces m);
         let stopped = (stopped \<or> workspace_switch m \<noteq> None);
         let m = m\<lparr>workspaces := wss, workspace_switch := None\<rparr>;
         let taken = (if has_windows_or_name ws then taken @ [ws] else taken);
         let m = (if i \<le> active_workspace_idx m \<and> \<not> (above_first m \<and> active_workspace_idx m = 1)
                  then m\<lparr>active_workspace_idx := active_workspace_idx m - 1\<rparr> else m);
         take_preferred preferred is stopped m taken
       }
     }"

definition give_up_preferred ::
  "(workspace \<Rightarrow> bool) \<Rightarrow> monitor \<Rightarrow> workspace list \<Rightarrow> (monitor \<times> workspace list) option" where
  "give_up_preferred preferred m taken =
     do {
       (m, stopped, taken) \<leftarrow> take_preferred preferred (rev [0..<length (workspaces m)]) False m taken;
       m \<leftarrow> (if stopped \<or> (workspace_switch m = None \<and> above_first m \<and> length (workspaces m) = 2)
             then clean_up_workspaces m else Some m);
       Some (m, taken)
     }"

fun collect_preferred ::
  "(workspace \<Rightarrow> bool) \<Rightarrow> monitor list \<Rightarrow> workspace list \<Rightarrow> (monitor list \<times> workspace list) option" where
  "collect_preferred preferred [] taken = Some ([], taken)"
| "collect_preferred preferred (m # mons) taken =
     do {
       (m, taken) \<leftarrow> give_up_preferred preferred m taken;
       (mons, taken) \<leftarrow> collect_preferred preferred mons taken;
       Some (m # mons, taken)
     }"

definition prefers :: "wl_output list \<Rightarrow> wl_output \<Rightarrow> workspace \<Rightarrow> bool" where
  "prefers outs new ws \<longleftrightarrow>
     find_preferred_output (original_outputs ws) (outs @ [new]) = Some (length outs)"

definition add_output :: "wl_output \<Rightarrow> layout_part option \<Rightarrow> bool \<Rightarrow> layout \<Rightarrow> layout option" where
  "add_output out part isolated L =
     do {
       (mons, p, a, wss, joins) \<leftarrow>
         (case lt_set L of
            Normal mons p a \<Rightarrow> do {
              (mons, taken) \<leftarrow> collect_preferred (prefers (outputs_of mons) out) mons [];
              Some (mons, p, a, rev taken, lt_overview_open L \<and> \<not> isolated \<and> \<not> lt_consolidated L)
            }
          | NoOutputs wss \<Rightarrow> Some ([], 0, 0, wss, lt_overview_open L \<and> \<not> isolated));
       m \<leftarrow> monitor_new (lt_next_ws_id L) out wss (last_active_workspace_id L (output_connector out))
             (lt_options L) part;
       Some (L\<lparr>lt_set := Normal (mons @ [m\<lparr>overview_open := joins\<rparr>]) p a,
               last_active_workspace_id := (last_active_workspace_id L)(output_connector out := None),
               lt_isolated := (if isolated then [out] else []) @ filter (\<lambda>o'. o' \<noteq> out) (lt_isolated L),
               lt_next_ws_id := next_ws_id m\<rparr>)
     }"

section \<open>A window opens\<close>

text \<open>\<open>layout::AddWindowTarget\<close>\<close>

datatype layout_add_target = LtAuto | LtOutput wl_output | LtWorkspace nat | LtNextTo win_id

definition next_to_in :: "win_id \<Rightarrow> monitor list \<Rightarrow> (nat \<times> mon_add_target) option" where
  "next_to_in w mons =
     (case position (sticky_has_window w) mons of
        Some k \<Rightarrow> Some (k, MonAuto)
      | None \<Rightarrow> do { k \<leftarrow> position (in_workspaces w) mons; Some (k, MonNextTo w) })"

definition lt_resolve_target ::
  "layout \<Rightarrow> monitor list \<Rightarrow> nat \<Rightarrow> layout_add_target \<Rightarrow> (nat \<times> mon_add_target) option" where
  "lt_resolve_target L mons active target =
     (case target of
        LtAuto \<Rightarrow> Some (active, MonAuto)
      | LtOutput out \<Rightarrow> do { k \<leftarrow> monitor_of_output out mons; Some (k, MonAuto) }
      | LtWorkspace i \<Rightarrow> do {
          k \<leftarrow> position (\<lambda>m. list_ex (\<lambda>ws. ws_id ws = i) (workspaces m)) mons;
          Some (k, MonWorkspace i None)
        }
      | LtNextTo w \<Rightarrow>
          (if is_moved w L
           then (case moving_data L of
                   Some md \<Rightarrow> Some (case monitor_of_output (md_output md) mons of Some k \<Rightarrow> k | None \<Rightarrow> active, MonAuto)
                 | None \<Rightarrow> None)
           else next_to_in w mons))"

text \<open>Without outputs a window that may go anywhere goes to the first workspace, a new one if there is none\<close>

definition first_workspace :: "layout \<Rightarrow> workspace list \<Rightarrow> workspace list \<times> nat" where
  "first_workspace L wss =
     (if wss = [] then ([workspace_new_no_outputs (lt_next_ws_id L) (lt_options L)], lt_next_ws_id L + 1)
      else (wss, lt_next_ws_id L))"

definition no_outputs_target ::
  "layout \<Rightarrow> workspace list \<Rightarrow> layout_add_target \<Rightarrow> (nat \<times> add_window_target \<times> workspace list \<times> nat) option" where
  "no_outputs_target L wss target =
     (case target of
        LtAuto \<Rightarrow> Some (0, Auto, first_workspace L wss)
      | LtOutput _ \<Rightarrow> None
      | LtWorkspace i \<Rightarrow> do {
          k \<leftarrow> position (\<lambda>ws. ws_id ws = i) wss;
          Some (k, Auto, wss, lt_next_ws_id L)
        }
      | LtNextTo w \<Rightarrow>
          (if is_moved w L then Some (0, Auto, first_workspace L wss)
           else do {
             k \<leftarrow> position (ws_has_window w) wss;
             Some (k, NextTo w, wss, lt_next_ws_id L)
           }))"

text \<open>\<open>height\<close> says that a height is asked for, which looks the window up in a workspace\<close>

definition add_window ::
  "client_view \<Rightarrow> tile \<Rightarrow> layout_add_target \<Rightarrow> column_width \<Rightarrow> bool \<Rightarrow> bool \<Rightarrow> bool \<Rightarrow> bool
   \<Rightarrow> activate_request \<Rightarrow> bool \<Rightarrow> layout \<Rightarrow> (wl_output option \<times> layout) option" where
  "add_window cv t target width height full is_floating is_sticky activate force_unhide L =
     (case lt_set L of
        Normal mons p a \<Rightarrow> do {
          (k, target) \<leftarrow> lt_resolve_target L mons a target;
          m \<leftarrow> vec_get mons k;
          (ws_idx, _) \<leftarrow> resolve_add_window_target target m;
          _ \<leftarrow> vec_get (workspaces m) ws_idx;
          (out, L) \<leftarrow> on_monitor k (\<lambda>m. do {
            m \<leftarrow> mon_add_window cv t target activate width full is_floating is_sticky force_unhide m;
            assert_that (\<not> is_floating \<and> height \<longrightarrow> in_workspaces (win t) m);
            Some (mon_output m, m)
          }) L;
          activates \<leftarrow> map_smart activate (Some False);
          Some (Some out, if activates then set_active_monitor k L else L)
        }
      | NoOutputs wss \<Rightarrow> do {
          (k, target, wss, n) \<leftarrow> no_outputs_target L wss target;
          ws \<leftarrow> vec_get wss k;
          ws \<leftarrow> ws_add_tile cv t target activate width full (is_floating \<or> is_sticky) ws;
          Some (None, L\<lparr>lt_set := NoOutputs (wss[k := ws]), lt_next_ws_id := n\<rparr>)
        })"

section \<open>A window closes\<close>

text \<open>
  The end of a drag that has not moved the window yet: where it was the active one it is
  activated again after the view has been unlocked
\<close>

definition ws_reactivate :: "client_view \<Rightarrow> win_id \<Rightarrow> workspace \<Rightarrow> workspace option" where
  "ws_reactivate cv w ws =
     do {
       a \<leftarrow> ws_active_window ws;
       if a = Some w then map_option fst (ws_activate_window cv w ws) else Some ws
     }"

definition mon_reactivate :: "client_view \<Rightarrow> win_id \<Rightarrow> monitor \<Rightarrow> monitor option" where
  "mon_reactivate cv w m =
     do {
       wss \<leftarrow> map_all (ws_reactivate cv w) (workspaces m);
       let m = m\<lparr>workspaces := wss\<rparr>;
       if fl_active_window (sticky m) = Some w then map_option fst (activate_sticky_window cv w m)
       else Some m
     }"

definition end_starting_move :: "client_view \<Rightarrow> (wl_output \<Rightarrow> real) \<Rightarrow> win_id \<Rightarrow> layout \<Rightarrow> layout option" where
  "end_starting_move cv pos w L =
     do {
       L \<leftarrow> end_scroll_gestures pos (L\<lparr>lt_interactive_move := None\<rparr>);
       (case lt_set L of
          Normal _ _ _ \<Rightarrow> on_all_monitors (mon_reactivate cv w) L
        | NoOutputs wss \<Rightarrow> map_option (\<lambda>wss. L\<lparr>lt_set := NoOutputs wss\<rparr>) (map_all (ws_reactivate cv w) wss))
     }"

definition mon_remove_window ::
  "client_view \<Rightarrow> win_id \<Rightarrow> monitor \<Rightarrow> (removed_tile option \<times> monitor) option" where
  "mon_remove_window cv w m =
     do {
       (removed, m) \<leftarrow> remove_sticky_tile cv w m;
       (case removed of
          Some r \<Rightarrow> Some (Some r, m)
        | None \<Rightarrow>
            (case position (ws_has_window w) (workspaces m) of
               None \<Rightarrow> Some (None, m)
             | Some idx \<Rightarrow> do {
                 ws \<leftarrow> vec_get (workspaces m) idx;
                 (r, ws) \<leftarrow> ws_remove_tile cv w ws;
                 let m = set_workspace idx ws m;
                 m \<leftarrow> (if \<not> has_windows_or_name ws \<and> idx \<noteq> active_workspace_idx m \<and>
                          idx \<noteq> length (workspaces m) - 1 \<and> workspace_switch m = None
                       then do {
                         (_, wss) \<leftarrow> vec_remove idx (workspaces m);
                         let m = shift_hidden_original_indices_for_removal idx (m\<lparr>workspaces := wss\<rparr>);
                         Some (if idx < active_workspace_idx m
                               then m\<lparr>active_workspace_idx := active_workspace_idx m - 1\<rparr> else m)
                       } else Some m);
                 m \<leftarrow> (if above_first m \<and> length (workspaces m) = 2 \<and> workspace_switch m = None \<and>
                          \<not> list_ex ws_hidden (workspaces m)
                       then do {
                         assert_that (\<not> has_windows_or_name (workspaces m ! 0));
                         assert_that (\<not> has_windows_or_name (workspaces m ! 1));
                         Some (m\<lparr>workspaces := remove_at 1 (workspaces m), active_workspace_idx := 0\<rparr>)
                       } else Some m);
                 Some (Some r, m)
               }))
     }"

fun remove_from_monitors ::
  "client_view \<Rightarrow> win_id \<Rightarrow> monitor list \<Rightarrow> (removed_tile option \<times> monitor list) option" where
  "remove_from_monitors cv w [] = Some (None, [])"
| "remove_from_monitors cv w (m # mons) =
     do {
       (removed, m) \<leftarrow> mon_remove_window cv w m;
       (case removed of
          Some r \<Rightarrow> Some (Some r, m # mons)
        | None \<Rightarrow> do {
            (removed, mons) \<leftarrow> remove_from_monitors cv w mons;
            Some (removed, m # mons)
          })
     }"

definition remove_from_workspaces ::
  "client_view \<Rightarrow> win_id \<Rightarrow> workspace list \<Rightarrow> (removed_tile option \<times> workspace list) option" where
  "remove_from_workspaces cv w wss =
     (case position (ws_has_window w) wss of
        None \<Rightarrow> Some (None, wss)
      | Some idx \<Rightarrow> do {
          ws \<leftarrow> vec_get wss idx;
          (r, ws) \<leftarrow> ws_remove_tile cv w ws;
          Some (Some r, if \<not> has_windows_or_name ws then remove_at idx wss else wss[idx := ws])
        })"

definition removed_of_move :: "move_data \<Rightarrow> removed_tile" where
  "removed_of_move md =
     \<lparr>rt_tile = md_tile md, rt_width = md_width md, rt_is_full_width = md_is_full_width md,
      rt_is_floating = md_is_floating md, rt_is_sticky = md_is_sticky md\<rparr>"

definition remove_placed :: "client_view \<Rightarrow> win_id \<Rightarrow> layout \<Rightarrow> (removed_tile option \<times> layout) option" where
  "remove_placed cv w L =
     (case lt_set L of
        Normal mons p a \<Rightarrow> do {
          (r, mons) \<leftarrow> remove_from_monitors cv w mons;
          Some (r, L\<lparr>lt_set := Normal mons p a\<rparr>)
        }
      | NoOutputs wss \<Rightarrow> do {
          (r, wss) \<leftarrow> remove_from_workspaces cv w wss;
          Some (r, L\<lparr>lt_set := NoOutputs wss\<rparr>)
        })"

definition remove_window ::
  "client_view \<Rightarrow> (wl_output \<Rightarrow> real) \<Rightarrow> win_id \<Rightarrow> layout \<Rightarrow> (removed_tile option \<times> layout) option" where
  "remove_window cv pos w L =
     do {
       L \<leftarrow> (if lt_interactive_move L = Some (MoveStarting w) then end_starting_move cv pos w L else Some L);
       (case moving_data L of
          Some md \<Rightarrow>
            if win (md_tile md) = w
            then map_option (Pair (Some (removed_of_move md))) (end_scroll_gestures pos (L\<lparr>lt_interactive_move := None\<rparr>))
            else remove_placed cv w L
        | None \<Rightarrow> remove_placed cv w L)
     }"

end
