(* ===== verification/LayoutMoves.thy ===== *)
theory LayoutMoves
  imports Layout
begin

text \<open>
  \<open>src/layout/mod.rs\<close>, continued: activating windows, moving windows, columns and workspaces
  between outputs, naming and hiding workspaces, configuration, and dragging a window.
\<close>

section \<open>Focus\<close>

text \<open>
  The workspace part of \<open>activate_window\<close>: \<open>act\<close> is the operation of the workspace, which
  succeeds exactly on the workspace that has the window. In the middle of a swipe next to that
  workspace there is no switch.
\<close>

definition activate_in_monitor ::
  "(workspace \<Rightarrow> (workspace \<times> bool) option) \<Rightarrow> win_id \<Rightarrow> monitor \<Rightarrow> monitor option" where
  "activate_in_monitor act w m =
     do {
       idx \<leftarrow> position (ws_has_window w) (workspaces m);
       ws \<leftarrow> vec_get (workspaces m) idx;
       (ws, _) \<leftarrow> act ws;
       let m = focus_workspace (set_workspace idx ws m);
       (case workspace_switch m of
          Some (SwitchGesture g) \<Rightarrow>
            if \<lfloor>sg_current_idx g\<rfloor> = int idx \<or> \<lceil>sg_current_idx g\<rceil> = int idx then Some m
            else switch_workspace idx False m
        | _ \<Rightarrow> switch_workspace idx False m)
     }"

definition activate_with ::
  "(monitor \<Rightarrow> (monitor \<times> bool) option) \<Rightarrow> (workspace \<Rightarrow> (workspace \<times> bool) option) \<Rightarrow> win_id
   \<Rightarrow> layout \<Rightarrow> layout option" where
  "activate_with act_sticky act w L =
     (if is_moved w L then Some L
      else case lt_set L of
        NoOutputs _ \<Rightarrow> Some L
      | Normal mons p a \<Rightarrow>
          (case position (sticky_has_window w) mons of
             Some k \<Rightarrow> do {
               (found, L) \<leftarrow> on_monitor k (\<lambda>m. map_option prod.swap (act_sticky m)) L;
               Some (if found then switch_active_monitor k L else L)
             }
           | None \<Rightarrow>
               (case position (in_workspaces w) mons of
                  None \<Rightarrow> Some L
                | Some k \<Rightarrow> map_option (switch_active_monitor k) (change_monitor k (activate_in_monitor act w) L))))"

definition lt_activate_window :: "client_view \<Rightarrow> win_id \<Rightarrow> layout \<Rightarrow> layout option" where
  "lt_activate_window cv w L =
     activate_with (activate_sticky_window cv w) (ws_activate_window cv w) w L"

definition lt_activate_window_without_raising :: "win_id \<Rightarrow> layout \<Rightarrow> layout option" where
  "lt_activate_window_without_raising w L =
     activate_with (\<lambda>m. Some (activate_sticky_window_without_raising w m))
       (ws_activate_window_without_raising w) w L"

definition focus_output :: "wl_output \<Rightarrow> layout \<Rightarrow> layout" where
  "focus_output out L =
     (case monitor_of_output out (lt_monitors L) of
        Some k \<Rightarrow> switch_active_monitor k L
      | None \<Rightarrow> L)"

section \<open>Operations on the workspace of a window\<close>

text \<open>\<open>workspace_for_window_mut\<close>\<close>

definition on_workspace_of :: "win_id \<Rightarrow> (workspace \<Rightarrow> workspace option) \<Rightarrow> layout \<Rightarrow> layout option" where
  "on_workspace_of w f L =
     (case lt_set L of
        Normal mons p a \<Rightarrow>
          (case position (in_workspaces w) mons of
             None \<Rightarrow> Some L
           | Some k \<Rightarrow> change_monitor k (\<lambda>m. do {
               idx \<leftarrow> position (ws_has_window w) (workspaces m);
               on_workspace idx f m
             }) L)
      | NoOutputs wss \<Rightarrow>
          (case position (ws_has_window w) wss of
             None \<Rightarrow> Some L
           | Some idx \<Rightarrow> do {
               ws \<leftarrow> vec_get wss idx;
               ws \<leftarrow> f ws;
               Some (L\<lparr>lt_set := NoOutputs (wss[idx := ws])\<rparr>)
             }))"

definition focus_is_sticky :: "layout \<Rightarrow> bool" where
  "focus_is_sticky L \<longleftrightarrow> (case lt_active_monitor L of Some m \<Rightarrow> sticky_is_active m | None \<Rightarrow> False)"

text \<open>
  The frame of the operations on a window or, without one, on the focused window: nothing
  happens to a window that is being dragged or is sticky
\<close>

definition on_window_workspace ::
  "win_id option \<Rightarrow> (workspace \<Rightarrow> workspace option) \<Rightarrow> layout \<Rightarrow> layout option" where
  "on_window_workspace window f L =
     (if drag_captures window L then Some L
      else case window of
        Some w \<Rightarrow> if is_sticky_window w L then Some L else on_workspace_of w f L
      | None \<Rightarrow> if focus_is_sticky L then Some L else on_focused_workspace f L)"

definition lt_consume_or_expel_window_left :: "win_id option \<Rightarrow> layout \<Rightarrow> layout option" where
  "lt_consume_or_expel_window_left w L = on_window_workspace w (ws_consume_or_expel_window_left w) L"

definition lt_consume_or_expel_window_right :: "win_id option \<Rightarrow> layout \<Rightarrow> layout option" where
  "lt_consume_or_expel_window_right w L = on_window_workspace w (ws_consume_or_expel_window_right w) L"

text \<open>A dragged window only changes the layer it is dropped on\<close>

definition lt_toggle_window_floating :: "client_view \<Rightarrow> win_id option \<Rightarrow> layout \<Rightarrow> layout option" where
  "lt_toggle_window_floating cv w L =
     (case moving_data L of
        Some md \<Rightarrow>
          if drag_captures w L
          then Some (if md_is_sticky md then L
                else L\<lparr>lt_interactive_move := Some (Moving (md\<lparr>md_is_floating := \<not> md_is_floating md\<rparr>))\<rparr>)
          else on_window_workspace w (toggle_window_floating cv w) L
      | None \<Rightarrow> on_window_workspace w (toggle_window_floating cv w) L)"

definition lt_set_window_floating :: "client_view \<Rightarrow> win_id option \<Rightarrow> bool \<Rightarrow> layout \<Rightarrow> layout option" where
  "lt_set_window_floating cv w floating L =
     (case moving_data L of
        Some md \<Rightarrow>
          if drag_captures w L
          then (if \<not> md_is_sticky md \<and> md_is_floating md \<noteq> floating then lt_toggle_window_floating cv w L
                else Some L)
          else on_window_workspace w (set_window_floating cv w floating) L
      | None \<Rightarrow> on_window_workspace w (set_window_floating cv w floating) L)"

text \<open>Fullscreen and maximized, which pass over sticky windows because no workspace has them\<close>

definition lt_set_fullscreen :: "client_view \<Rightarrow> win_id \<Rightarrow> bool \<Rightarrow> layout \<Rightarrow> layout option" where
  "lt_set_fullscreen cv w b L =
     (if is_moved w L then Some L else on_workspace_of w (ws_set_fullscreen cv w b) L)"

definition lt_toggle_fullscreen :: "client_view \<Rightarrow> win_id \<Rightarrow> layout \<Rightarrow> layout option" where
  "lt_toggle_fullscreen cv w L =
     (if is_moved w L then Some L else on_workspace_of w (toggle_fullscreen cv w) L)"

definition lt_set_maximized :: "client_view \<Rightarrow> win_id \<Rightarrow> bool \<Rightarrow> layout \<Rightarrow> layout option" where
  "lt_set_maximized cv w b L =
     (if is_moved w L then Some L else on_workspace_of w (ws_set_maximized cv w b) L)"

definition lt_toggle_maximized :: "client_view \<Rightarrow> win_id \<Rightarrow> layout \<Rightarrow> layout option" where
  "lt_toggle_maximized cv w L =
     (if is_moved w L then Some L else on_workspace_of w (toggle_maximized cv w) L)"

section \<open>Windows and columns to another workspace of the monitor\<close>

definition lt_move_to_workspace_up :: "client_view \<Rightarrow> bool \<Rightarrow> layout \<Rightarrow> layout option" where
  "lt_move_to_workspace_up cv focus L =
     (if focus_is_sticky L then Some L
      else on_active_monitor (move_to_workspace_up cv (if focus then ActivateSmart else ActivateNo)) L)"

definition lt_move_to_workspace_down :: "client_view \<Rightarrow> bool \<Rightarrow> layout \<Rightarrow> layout option" where
  "lt_move_to_workspace_down cv focus L =
     (if focus_is_sticky L then Some L
      else on_active_monitor (move_to_workspace_down cv (if focus then ActivateSmart else ActivateNo)) L)"

definition lt_move_to_workspace ::
  "client_view \<Rightarrow> win_id option \<Rightarrow> nat \<Rightarrow> activate_request \<Rightarrow> bool \<Rightarrow> layout \<Rightarrow> layout option" where
  "lt_move_to_workspace cv window idx activate allow_hidden L =
     (if drag_captures window L then Some L
      else case window of
        None \<Rightarrow>
          if focus_is_sticky L then Some L
          else on_active_monitor (move_to_workspace cv None idx activate allow_hidden) L
      | Some w \<Rightarrow>
          if is_sticky_window w L then Some L
          else (case lt_set L of
                  NoOutputs _ \<Rightarrow> Some L
                | Normal mons _ _ \<Rightarrow> do {
                    k \<leftarrow> position (\<lambda>m. w \<in> set (mon_windows m)) mons;
                    change_monitor k (move_to_workspace cv (Some w) idx activate allow_hidden) L
                  }))"

section \<open>To another output\<close>

definition is_active_on :: "win_id \<Rightarrow> nat \<Rightarrow> nat \<Rightarrow> monitor \<Rightarrow> bool option" where
  "is_active_on w k active m =
     (if k = active then do { a \<leftarrow> mon_active_window m; Some (a = Some w) } else Some False)"

definition move_sticky_to_output ::
  "client_view \<Rightarrow> win_id \<Rightarrow> nat \<Rightarrow> nat \<Rightarrow> activate_request \<Rightarrow> monitor list \<Rightarrow> nat \<Rightarrow> layout \<Rightarrow> layout option" where
  "move_sticky_to_output cv w k new_idx activate mons active L =
     (if k = new_idx then Some L
      else do {
        m \<leftarrow> vec_get mons k;
        activates \<leftarrow> map_smart activate (is_active_on w k active m);
        (removed, L) \<leftarrow> on_monitor k (remove_sticky_tile cv w) L;
        (case removed of
           None \<Rightarrow> Some L
         | Some r \<Rightarrow> do {
             L \<leftarrow> change_monitor new_idx (add_sticky_tile cv (rt_tile r) activates) L;
             Some (if activates then set_active_monitor new_idx L else L)
           })
      })"

definition place_of :: "win_id option \<Rightarrow> nat \<Rightarrow> monitor list \<Rightarrow> (nat \<times> nat) option" where
  "place_of window active mons =
     (case window of
        Some w \<Rightarrow> do {
          k \<leftarrow> position (in_workspaces w) mons;
          m \<leftarrow> vec_get mons k;
          idx \<leftarrow> position (ws_has_window w) (workspaces m);
          Some (k, idx)
        }
      | None \<Rightarrow> do { m \<leftarrow> vec_get mons active; Some (active, active_workspace_idx m) })"

text \<open>Taking a tile out of a workspace, putting it on another monitor and cleaning up behind it\<close>

definition carry_tile ::
  "client_view \<Rightarrow> win_id \<Rightarrow> nat \<Rightarrow> nat \<Rightarrow> nat \<Rightarrow> nat \<Rightarrow> bool \<Rightarrow> layout \<Rightarrow> layout option" where
  "carry_tile cv w k ws_idx new_idx target_id activates L =
     do {
       (r, L) \<leftarrow> on_monitor k (\<lambda>m. do {
         ws \<leftarrow> vec_get (workspaces m) ws_idx;
         (r, ws) \<leftarrow> ws_remove_tile cv w ws;
         Some (r, set_workspace ws_idx ws m)
       }) L;
       L \<leftarrow> change_monitor new_idx
             (mon_add_tile cv (rt_tile r) (MonWorkspace target_id None)
                (if activates then ActivateYes else ActivateNo) True (rt_width r) (rt_is_full_width r)
                (rt_is_floating r) activates) L;
       let L = (if activates then set_active_monitor new_idx L else L);
       change_monitor k (\<lambda>m. if workspace_switch m = None then clean_up_workspaces m else Some m) L
     }"

definition move_tile_to_output ::
  "client_view \<Rightarrow> win_id option \<Rightarrow> nat \<Rightarrow> nat option \<Rightarrow> activate_request \<Rightarrow> monitor list \<Rightarrow> nat
   \<Rightarrow> layout \<Rightarrow> layout option" where
  "move_tile_to_output cv window new_idx target_ws_idx activate mons active L =
     do {
       (k, ws_idx) \<leftarrow> place_of window active mons;
       target \<leftarrow> vec_get mons new_idx;
       let workspace_idx = (case target_ws_idx of Some i \<Rightarrow> i | None \<Rightarrow> active_workspace_idx target);
       if (k = new_idx \<and> ws_idx = workspace_idx) \<or> length (workspaces target) \<le> workspace_idx then Some L
       else do {
         target_ws \<leftarrow> vec_get (workspaces target) workspace_idx;
         m \<leftarrow> vec_get mons k;
         activates \<leftarrow> map_smart activate
           (case window of None \<Rightarrow> Some True | Some w \<Rightarrow> is_active_on w k active m);
         ws \<leftarrow> vec_get (workspaces m) ws_idx;
         found \<leftarrow> (case window of Some w \<Rightarrow> Some (Some w) | None \<Rightarrow> ws_active_window ws);
         (case found of
            None \<Rightarrow> Some L
          | Some w \<Rightarrow> carry_tile cv w k ws_idx new_idx (ws_id target_ws) activates L)
       }
     }"

definition move_to_output ::
  "client_view \<Rightarrow> win_id option \<Rightarrow> wl_output \<Rightarrow> nat option \<Rightarrow> activate_request \<Rightarrow> layout \<Rightarrow> layout option" where
  "move_to_output cv window out target_ws_idx activate L =
     (if drag_captures window L then Some L
      else case lt_set L of
        NoOutputs _ \<Rightarrow> Some L
      | Normal mons p a \<Rightarrow> do {
          m \<leftarrow> vec_get mons a;
          let window = (case window of
              Some w \<Rightarrow> Some w
            | None \<Rightarrow> if sticky_is_active m then fl_active_window (sticky m) else None);
          new_idx \<leftarrow> monitor_of_output out mons;
          (case Option.bind window (\<lambda>w. map_option (Pair w) (position (sticky_has_window w) mons)) of
             Some (w, k) \<Rightarrow> move_sticky_to_output cv w k new_idx activate mons a L
           | None \<Rightarrow> move_tile_to_output cv window new_idx target_ws_idx activate mons a L)
        })"

definition add_column_by_idx :: "nat \<Rightarrow> nat \<Rightarrow> column \<Rightarrow> bool \<Rightarrow> layout \<Rightarrow> layout option" where
  "add_column_by_idx k ws_idx c activate L =
     do {
       L \<leftarrow> change_monitor k (mon_add_column ws_idx c activate) L;
       Some (if activate then set_active_monitor k L else L)
     }"

definition move_column_to_output ::
  "client_view \<Rightarrow> wl_output \<Rightarrow> nat option \<Rightarrow> bool \<Rightarrow> layout \<Rightarrow> layout option" where
  "move_column_to_output cv out target_ws_idx activate L =
     (case lt_set L of
        NoOutputs _ \<Rightarrow> Some L
      | Normal mons p a \<Rightarrow> do {
          new_idx \<leftarrow> monitor_of_output out mons;
          m \<leftarrow> vec_get mons a;
          ws \<leftarrow> active_workspace m;
          if floating_active_get ws then move_to_output cv None out None ActivateSmart L
          else do {
            (c, L) \<leftarrow> on_monitor a (\<lambda>m. do {
              ws \<leftarrow> active_workspace m;
              (c, ws) \<leftarrow> ws_remove_active_column ws;
              Some (c, set_workspace (active_workspace_idx m) ws m)
            }) L;
            (case c of
               None \<Rightarrow> Some L
             | Some c \<Rightarrow> do {
                 target \<leftarrow> vec_get (lt_monitors L) new_idx;
                 end_idx \<leftarrow> sub_usize (length (workspaces target)) 1;
                 add_column_by_idx new_idx
                   (min (case target_ws_idx of Some i \<Rightarrow> i | None \<Rightarrow> active_workspace_idx target) end_idx)
                   c activate L
               })
          }
        })"

definition own_original_output :: "wl_output \<Rightarrow> workspace \<Rightarrow> workspace" where
  "own_original_output out ws = ws\<lparr>original_outputs := [output_id_new out]\<rparr>"

definition move_workspace_to_output_by_id ::
  "nat \<Rightarrow> wl_output option \<Rightarrow> wl_output \<Rightarrow> layout \<Rightarrow> (bool \<times> layout) option" where
  "move_workspace_to_output_by_id old_idx old_output new_output L =
     (case lt_set L of
        NoOutputs _ \<Rightarrow> Some (False, L)
      | Normal mons p a \<Rightarrow> do {
          current_idx \<leftarrow> (case old_output of Some out \<Rightarrow> monitor_of_output out mons | None \<Rightarrow> Some a);
          target_idx \<leftarrow> monitor_of_output new_output mons;
          current \<leftarrow> vec_get mons current_idx;
          if length (workspaces current) \<le> old_idx then Some (False, L)
          else if current_idx = target_idx then do {
            L \<leftarrow> change_monitor current_idx
                  (\<lambda>m. on_workspace old_idx (\<lambda>ws. Some (own_original_output (mon_output m) ws)) m) L;
            Some (False, L)
          } else do {
            let activate = (current_idx = a \<and> old_idx = active_workspace_idx current);
            (ws, L) \<leftarrow> on_monitor current_idx (remove_workspace_by_idx old_idx) L;
            L \<leftarrow> change_monitor target_idx (\<lambda>m. map_option snd
                  (insert_workspace (own_original_output new_output ws) (active_workspace_idx m + 1) activate m)) L;
            Some (activate, if activate then set_active_monitor target_idx L else L)
          }
        })"

definition move_workspace_to_output :: "wl_output \<Rightarrow> layout \<Rightarrow> (bool \<times> layout) option" where
  "move_workspace_to_output out L =
     (case lt_set L of
        NoOutputs _ \<Rightarrow> Some (False, L)
      | Normal mons p a \<Rightarrow> do {
          m \<leftarrow> vec_get mons a;
          move_workspace_to_output_by_id (active_workspace_idx m) None out L
        })"

text \<open>\<open>reference\<close> names an output and an index on it; by default both are the active ones\<close>

definition lt_move_workspace_to_idx ::
  "(wl_output option \<times> nat) option \<Rightarrow> nat \<Rightarrow> layout \<Rightarrow> layout option" where
  "lt_move_workspace_to_idx reference new_idx L =
     (case reference of
        Some (Some out, old_idx) \<Rightarrow>
          (case monitor_of_output out (lt_monitors L) of
             None \<Rightarrow> Some L
           | Some k \<Rightarrow> change_monitor k (move_workspace_to_idx old_idx new_idx) L)
      | Some (None, old_idx) \<Rightarrow> on_active_monitor (move_workspace_to_idx old_idx new_idx) L
      | None \<Rightarrow> on_active_monitor (\<lambda>m. move_workspace_to_idx (active_workspace_idx m) new_idx m) L)"

section \<open>Names\<close>

definition find_workspace_by_name :: "string \<Rightarrow> layout \<Rightarrow> workspace option" where
  "find_workspace_by_name name L = List.find (named name) (lt_workspaces L)"

definition find_workspace_by_id :: "nat \<Rightarrow> layout \<Rightarrow> workspace option" where
  "find_workspace_by_id i L = List.find (\<lambda>ws. ws_id ws = i) (lt_workspaces L)"

text \<open>\<open>WorkspaceReference\<close>; the operations go on with the id of what it refers to\<close>

datatype workspace_ref = RefIndex nat | RefName string | RefId nat

definition find_workspace_by_ref :: "workspace_ref \<Rightarrow> layout \<Rightarrow> workspace option" where
  "find_workspace_by_ref r L =
     (case r of
        RefIndex i \<Rightarrow>
          Option.bind (lt_active_monitor L) (\<lambda>m.
            if i - 1 < visible_workspace_count m then vec_get (workspaces m) (i - 1) else None)
      | RefName name \<Rightarrow> find_workspace_by_name name L
      | RefId i \<Rightarrow> find_workspace_by_id i L)"

text \<open>
  The workspace an operation is about; without a reference it is the active one, and taking
  it takes the focus off a sticky window
\<close>

definition resolve_ref :: "workspace_ref option \<Rightarrow> layout \<Rightarrow> (workspace option \<times> layout) option" where
  "resolve_ref r L =
     (case r of
        Some r \<Rightarrow> Some (find_workspace_by_ref r L, L)
      | None \<Rightarrow> do {
          L \<leftarrow> on_active_monitor (\<lambda>m. Some (focus_workspace m)) L;
          Some (Option.bind (lt_active_monitor L) active_workspace, L)
        })"

text \<open>\<open>unname_workspace\<close> of a monitor that does not have the workspace changes nothing\<close>

definition unname_workspace_by_id :: "nat \<Rightarrow> layout \<Rightarrow> layout option" where
  "unname_workspace_by_id i L =
     (case lt_set L of
        Normal mons p a \<Rightarrow>
          (case position (\<lambda>m. idx_of_ws i m \<noteq> None) mons of
             None \<Rightarrow> Some L
           | Some k \<Rightarrow> change_monitor k (\<lambda>m. map_option fst (unname_workspace i m)) L)
      | NoOutputs wss \<Rightarrow>
          (case position (\<lambda>ws. ws_id ws = i) wss of
             None \<Rightarrow> Some L
           | Some idx \<Rightarrow> do {
               ws \<leftarrow> vec_get wss idx;
               let ws = ws_unname (ws\<lparr>ws_hidden := False, needs_hidden := False\<rparr>);
               Some (L\<lparr>lt_set := NoOutputs (if \<not> ws_has_windows ws then remove_at idx wss else wss[idx := ws])\<rparr>)
             }))"

lemma unname_elsewhere:
  assumes "idx_of_ws i m = None"
  shows "unname_workspace i m = Some (m, False)"
proof -
  have "\<forall>ws \<in> set (workspaces m). ws_id ws \<noteq> i" using assms by (simp only: idx_of_ws_def position_None)
  then have "List.find (\<lambda>ws. ws_id ws = i) (workspaces m) = None" by (simp add: find_None_iff)
  with assms show ?thesis by (simp add: unname_workspace_def unhide_workspace_by_id_def name_of_ws_def)
qed

definition unset_workspace_name :: "workspace_ref option \<Rightarrow> layout \<Rightarrow> layout option" where
  "unset_workspace_name r L =
     do {
       (ws, L) \<leftarrow> resolve_ref r L;
       (case ws of None \<Rightarrow> Some L | Some ws \<Rightarrow> unname_workspace_by_id (ws_id ws) L)
     }"

definition unname_workspace_by_ref :: "workspace_ref \<Rightarrow> layout \<Rightarrow> layout option" where
  "unname_workspace_by_ref r L =
     (case find_workspace_by_ref r L of None \<Rightarrow> Some L | Some ws \<Rightarrow> unname_workspace_by_id (ws_id ws) L)"

text \<open>The monitor keeps an empty workspace around the one that has just been named\<close>

definition name_on_monitor :: "string \<Rightarrow> nat \<Rightarrow> monitor \<Rightarrow> monitor option" where
  "name_on_monitor name i m =
     do {
       idx \<leftarrow> idx_of_ws i m;
       m \<leftarrow> on_workspace idx (\<lambda>ws. Some (ws\<lparr>ws_name := Some name\<rparr>)) m;
       m \<leftarrow> (if above_first m \<and> (case workspaces m of ws # _ \<Rightarrow> ws_id ws = i | [] \<Rightarrow> False)
             then add_workspace_top m else Some m);
       let visible_end = visible_workspace_count m;
       if 0 < visible_end \<and> ws_id (workspaces m ! (visible_end - 1)) = i then add_workspace_bottom m
       else Some m
     }"

definition set_workspace_name :: "string \<Rightarrow> workspace_ref option \<Rightarrow> layout \<Rightarrow> layout option" where
  "set_workspace_name name r L =
     (if find_workspace_by_name name L \<noteq> None then Some L
      else do {
        (ws, L) \<leftarrow> resolve_ref r L;
        (case ws of
           None \<Rightarrow> Some L
         | Some ws \<Rightarrow>
             (case lt_set L of
                Normal mons p a \<Rightarrow> do {
                  k \<leftarrow> position (\<lambda>m. idx_of_ws (ws_id ws) m \<noteq> None) mons;
                  change_monitor k (name_on_monitor name (ws_id ws)) L
                }
              | NoOutputs wss \<Rightarrow>
                  Some (L\<lparr>lt_set := NoOutputs
                    (map (\<lambda>w. if ws_id w = ws_id ws then w\<lparr>ws_name := Some name\<rparr> else w) wss)\<rparr>)))
      })"

definition ensure_named_workspace :: "workspace_config \<Rightarrow> layout \<Rightarrow> layout option" where
  "ensure_named_workspace c L =
     (if find_workspace_by_name (cfg_name c) L \<noteq> None then Some L
      else case lt_set L of
        Normal mons p a \<Rightarrow> do {
          let k = (if cfg_open_on_output c = [] then a
                   else case find_preferred_output (cfg_open_on_output c) (outputs_of mons) of
                     Some k \<Rightarrow> k
                   | None \<Rightarrow> p);
          change_monitor k (\<lambda>m. do {
            let ws = new_with_config (next_ws_id m) (mon_output m) (Some c) (lt_options L);
            let m = m\<lparr>next_ws_id := next_ws_id m + 1\<rparr>;
            if ws_hidden ws then insert_hidden_workspace ws 0 m
            else map_option snd (insert_workspace ws 0 False m)
          }) L
        }
      | NoOutputs wss \<Rightarrow>
          Some (L\<lparr>lt_set := NoOutputs (new_with_config_no_outputs (lt_next_ws_id L) (Some c) (lt_options L) # wss),
                  lt_next_ws_id := lt_next_ws_id L + 1\<rparr>))"

section \<open>Hidden workspaces\<close>

text \<open>\<open>monitor_for_workspace_mut\<close>; the inner result is \<open>None\<close> where there is no such workspace\<close>

definition monitor_for_workspace :: "string \<Rightarrow> layout \<Rightarrow> nat option" where
  "monitor_for_workspace name L = position (\<lambda>m. list_ex (named name) (workspaces m)) (lt_monitors L)"

definition on_named ::
  "string \<Rightarrow> (nat \<Rightarrow> monitor \<Rightarrow> (bool \<times> monitor) option) \<Rightarrow> layout \<Rightarrow> (bool option \<times> layout) option" where
  "on_named name f L =
     (case monitor_for_workspace name L of
        None \<Rightarrow> Some (None, L)
      | Some k \<Rightarrow> do {
          (b, L) \<leftarrow> on_monitor k (\<lambda>m. do {
            idx \<leftarrow> find_named_workspace_index name m;
            f idx m
          }) L;
          Some (Some b, L)
        })"

definition hide_workspace :: "string \<Rightarrow> layout \<Rightarrow> (bool option \<times> layout) option" where
  "hide_workspace name L =
     on_named name (\<lambda>idx m. do {
       ws \<leftarrow> vec_get (workspaces m) idx;
       if ws_hidden ws then Some (False, m)
       else map_option (Pair True) (hide_workspace_by_idx idx m)
     }) L"

definition unhide_workspace :: "string \<Rightarrow> layout \<Rightarrow> (bool option \<times> layout) option" where
  "unhide_workspace name L =
     on_named name (\<lambda>idx m. do {
       ws \<leftarrow> vec_get (workspaces m) idx;
       if \<not> ws_hidden ws
       then Some (needs_hidden ws, set_workspace idx (ws\<lparr>needs_hidden := False\<rparr>) m)
       else do {
         (_, m) \<leftarrow> unhide_workspace_by_id (ws_id ws) False m;
         map_option (Pair True) (clean_up_workspaces m)
       }
     }) L"

definition toggle_workspace_visibility :: "string \<Rightarrow> layout \<Rightarrow> (bool option \<times> layout) option" where
  "toggle_workspace_visibility name L =
     (case Option.bind (monitor_for_workspace name L) (vec_get (lt_monitors L)) of
        None \<Rightarrow> Some (None, L)
      | Some m \<Rightarrow> do {
          idx \<leftarrow> find_named_workspace_index name m;
          ws \<leftarrow> vec_get (workspaces m) idx;
          if ws_hidden ws then map_option (\<lambda>(_, L). (Some True, L)) (unhide_workspace name L)
          else map_option (\<lambda>(_, L). (Some False, L)) (hide_workspace name L)
        })"

section \<open>Configuration\<close>

text \<open>A workspace takes the layout section configured under exactly its name\<close>

definition ws_reconfigure :: "workspace_config list \<Rightarrow> workspace \<Rightarrow> workspace" where
  "ws_reconfigure cfgs ws =
     (case ws_name ws of
        None \<Rightarrow> ws
      | Some name \<Rightarrow>
          (case List.find (\<lambda>c. cfg_name c = name) cfgs of
             None \<Rightarrow> ws
           | Some c \<Rightarrow> ws_update_layout_config (cfg_layout c) ws))"

fun update_monitors :: "options \<Rightarrow> nat \<Rightarrow> monitor list \<Rightarrow> (monitor list \<times> nat) option" where
  "update_monitors opts n [] = Some ([], n)"
| "update_monitors opts n (m # mons) =
     do {
       m \<leftarrow> mon_update_config opts (at_counter n m);
       (mons, n) \<leftarrow> update_monitors opts (next_ws_id m) mons;
       Some (m # mons, n)
     }"

text \<open>
  \<open>isolated\<close> is the flag of the output in the new configuration, \<open>consolidated\<close> whether it has
  the consolidated carousel
\<close>

definition configured_monitor :: "workspace_config list \<Rightarrow> (wl_output \<Rightarrow> bool) \<Rightarrow> monitor \<Rightarrow> monitor" where
  "configured_monitor cfgs isolated m =
     m\<lparr>workspaces := map (ws_reconfigure cfgs) (workspaces m),
       overview_open := overview_open m \<and> \<not> isolated (mon_output m)\<rparr>"

definition lt_update_config ::
  "workspace_config list \<Rightarrow> (wl_output \<Rightarrow> bool) \<Rightarrow> bool \<Rightarrow> options \<Rightarrow> layout \<Rightarrow> layout option" where
  "lt_update_config cfgs isolated consolidated opts L =
     map_option (\<lambda>L. L\<lparr>lt_options := opts, lt_consolidated := consolidated\<rparr>)
       (case lt_set L of
          Normal mons p a \<Rightarrow> do {
            (mons, n) \<leftarrow> update_monitors opts (lt_next_ws_id L) (map (configured_monitor cfgs isolated) mons);
            Some (L\<lparr>lt_set := Normal mons p a, lt_next_ws_id := n,
                    lt_isolated := filter isolated (outputs_of mons)\<rparr>)
          }
        | NoOutputs wss \<Rightarrow>
            Some (L\<lparr>lt_set := NoOutputs (map (\<lambda>ws. ws_update_config opts (ws_reconfigure cfgs ws)) wss)\<rparr>))"

section \<open>Dragging a window\<close>

text \<open>
  \<open>shown\<close> are the workspaces that are drawn at the moment, \<open>far\<close> says that the pointer has
  moved far enough to pull a tiled window out of the layout
\<close>

definition interactive_move_begin ::
  "(nat \<Rightarrow> bool) \<Rightarrow> (wl_output \<Rightarrow> real) \<Rightarrow> win_id \<Rightarrow> wl_output \<Rightarrow> layout \<Rightarrow> (bool \<times> layout) option" where
  "interactive_move_begin shown pos w out L =
     (let started = map_option (Pair True)
            (on_all_monitors (\<lambda>m. Some (dnd_scroll_gesture_begin (pos (mon_output m)) m))
               (L\<lparr>lt_interactive_move := Some (MoveStarting w)\<rparr>)) in
      if lt_interactive_move L \<noteq> None then Some (False, L)
      else if list_ex (\<lambda>m. sticky_has_window w m \<and> mon_output m = out) (lt_monitors L) then started
      else case List.find (\<lambda>m. list_ex (\<lambda>ws. \<not> ws_hidden ws \<and> shown (ws_id ws) \<and> ws_has_window w ws) (workspaces m))
                  (lt_monitors L) of
        None \<Rightarrow> Some (False, L)
      | Some m \<Rightarrow> if mon_output m = out then started else Some (False, L))"

definition pull_out :: "client_view \<Rightarrow> (wl_output \<Rightarrow> real) \<Rightarrow> win_id \<Rightarrow> wl_output \<Rightarrow> layout \<Rightarrow> layout option" where
  "pull_out cv pos w out L =
     do {
       let L = L\<lparr>lt_interactive_move := None\<rparr>;
       L \<leftarrow> (if is_sticky_window w L then Some L
             else on_workspace_of w (\<lambda>ws. do {
               ws \<leftarrow> ws_set_fullscreen cv w False ws;
               ws_set_maximized cv w False ws
             }) L);
       (r, L) \<leftarrow> remove_window cv pos w L;
       r \<leftarrow> r;
       Some (L\<lparr>lt_interactive_move := Some (Moving
         \<lparr>md_tile = rt_tile r, md_output = out, md_width = rt_width r, md_is_full_width = rt_is_full_width r,
          md_is_floating = rt_is_floating r, md_is_sticky = rt_is_sticky r\<rparr>)\<rparr>)
     }"

definition is_floating_window :: "win_id \<Rightarrow> layout \<Rightarrow> bool option" where
  "is_floating_window w L =
     (if is_sticky_window w L then Some True
      else map_option (ws_is_floating w) (List.find (ws_has_window w) (lt_workspaces L)))"

definition interactive_move_update ::
  "client_view \<Rightarrow> (wl_output \<Rightarrow> real) \<Rightarrow> bool \<Rightarrow> win_id \<Rightarrow> wl_output \<Rightarrow> layout \<Rightarrow> (bool \<times> layout) option" where
  "interactive_move_update cv pos far w out L =
     (case lt_interactive_move L of
        None \<Rightarrow> Some (False, L)
      | Some (MoveStarting v) \<Rightarrow>
          if v \<noteq> w then Some (False, L)
          else do {
            floating \<leftarrow> is_floating_window w L;
            if \<not> floating \<and> \<not> far then Some (True, L)
            else map_option (Pair True) (pull_out cv pos w out L)
          }
      | Some (Moving md) \<Rightarrow>
          if win (md_tile md) \<noteq> w then Some (False, L)
          else Some (True,
            if out = md_output md then L
            else (focus_output out L)\<lparr>lt_interactive_move := Some (Moving (md\<lparr>md_output := out\<rparr>))\<rparr>))"

text \<open>\<open>InsertWorkspace\<close> and \<open>InsertPosition\<close>, as the pointer position decides them\<close>

datatype insert_workspace_at = Existing nat | NewAt nat

datatype insert_position = NewColumn nat | InColumn nat nat | InFloating

text \<open>The index of the workspace to drop on, which may be a new one\<close>

definition drop_workspace :: "insert_workspace_at \<Rightarrow> monitor \<Rightarrow> (nat \<times> monitor) option" where
  "drop_workspace place m =
     (case place of
        Existing i \<Rightarrow> do { idx \<leftarrow> idx_of_ws i m; Some (idx, m) }
      | NewAt idx \<Rightarrow> do {
          end_idx \<leftarrow> sub_usize (length (workspaces m)) 1;
          if above_first m \<and> idx = 0 then Some (0, m)
          else if end_idx \<le> idx then Some (end_idx, m)
          else do { m \<leftarrow> add_workspace_at idx m; Some (idx, m) }
        })"

definition drop_position :: "bool \<Rightarrow> insert_workspace_at \<Rightarrow> insert_position \<Rightarrow> insert_position" where
  "drop_position is_floating place pos =
     (if is_floating then InFloating else case place of NewAt _ \<Rightarrow> NewColumn 0 | Existing _ \<Rightarrow> pos)"

text \<open>The animation that follows looks for the window in the visible workspaces\<close>

definition drop_on_monitor ::
  "client_view \<Rightarrow> insert_workspace_at \<Rightarrow> insert_position \<Rightarrow> bool \<Rightarrow> move_data \<Rightarrow> monitor \<Rightarrow> monitor option" where
  "drop_on_monitor cv place pos allow md m =
     do {
       (idx, m) \<leftarrow> drop_workspace place m;
       ws \<leftarrow> vec_get (workspaces m) idx;
       m \<leftarrow> (case drop_position (md_is_floating md) place pos of
           NewColumn c \<Rightarrow>
             mon_add_tile cv (md_tile md) (MonWorkspace (ws_id ws) (Some c)) ActivateYes allow
               (md_width md) (md_is_full_width md) False False m
         | InColumn c t \<Rightarrow> mon_add_tile_to_column idx c (Some t) (md_tile md) True allow m
         | InFloating \<Rightarrow>
             mon_add_tile cv (md_tile md) (MonWorkspace (ws_id ws) None) ActivateYes allow
               (md_width md) (md_is_full_width md) True False m);
       assert_that (list_ex (\<lambda>ws. \<not> ws_hidden ws \<and> ws_has_window (win (md_tile md)) ws) (workspaces m));
       Some m
     }"

text \<open>The index of the first workspace, where a window goes whose output is gone\<close>

definition first_existing :: "monitor list \<Rightarrow> nat \<Rightarrow> insert_workspace_at option" where
  "first_existing mons k = do { m \<leftarrow> vec_get mons k; ws \<leftarrow> vec_get (workspaces m) 0; Some (Existing (ws_id ws)) }"

definition drop_window ::
  "client_view \<Rightarrow> insert_workspace_at \<Rightarrow> insert_position \<Rightarrow> move_data \<Rightarrow> layout \<Rightarrow> layout option" where
  "drop_window cv place pos md L =
     (case lt_set L of
        Normal mons p a \<Rightarrow>
          (case monitor_of_output (md_output md) mons of
             Some k \<Rightarrow>
               if md_is_sticky md then change_monitor k (add_sticky_tile cv (md_tile md) True) L
               else change_monitor k (drop_on_monitor cv place pos (\<not> lt_overview_open L) md) L
           | None \<Rightarrow>
               if md_is_sticky md then change_monitor a (add_sticky_tile cv (md_tile md) True) L
               else do {
                 place \<leftarrow> first_existing mons a;
                 change_monitor a (drop_on_monitor cv place pos (\<not> lt_overview_open L) md) L
               })
      | NoOutputs wss \<Rightarrow> do {
          let (wss, n) = first_workspace L wss;
          ws \<leftarrow> vec_get wss 0;
          ws \<leftarrow> ws_add_tile cv (md_tile md) Auto ActivateYes (md_width md) (md_is_full_width md)
                (md_is_floating md) ws;
          Some (L\<lparr>lt_set := NoOutputs (wss[0 := ws]), lt_next_ws_id := n\<rparr>)
        })"

definition interactive_move_end ::
  "client_view \<Rightarrow> (wl_output \<Rightarrow> real) \<Rightarrow> insert_workspace_at \<Rightarrow> insert_position \<Rightarrow> win_id \<Rightarrow> layout \<Rightarrow> layout option"
  where
  "interactive_move_end cv ends place pos w L =
     (case lt_interactive_move L of
        None \<Rightarrow> Some L
      | Some (MoveStarting v) \<Rightarrow> if v = w then end_starting_move cv ends w L else Some L
      | Some (Moving md) \<Rightarrow>
          if win (md_tile md) \<noteq> w then Some L
          else do {
            L \<leftarrow> end_scroll_gestures ends (L\<lparr>lt_interactive_move := None\<rparr>);
            drop_window cv place pos md L
          })"

end
