(* ===== verification/LayoutInv.thy ===== *)
theory LayoutInv
  imports MonitorClaims MonitorFrame LayoutMoves
begin

text \<open>
  The invariant of the layout (\<open>Layout::verify_invariants\<close>): every monitor is well formed, no
  window, workspace id or workspace name is in two places, and every workspace is on the
  connected output it prefers, or on the primary one. What an operation of one monitor keeps of
  its own invariant carries over to the layout.
\<close>

section \<open>Preferred outputs\<close>

text \<open>The canonical name of an output stands for no other connected output\<close>

definition outputs_apart :: "wl_output list \<Rightarrow> bool" where
  "outputs_apart outs \<longleftrightarrow>
     (\<forall>i < length outs. \<forall>j < length outs. output_id_matches (output_id_new (outs ! i)) (outs ! j) \<longrightarrow> i = j)"

definition settled :: "wl_output list \<Rightarrow> nat \<Rightarrow> nat \<Rightarrow> output_id list \<Rightarrow> bool" where
  "settled outs p k os \<longleftrightarrow> (case find_preferred_output os outs of Some j \<Rightarrow> j | None \<Rightarrow> p) = k"

lemma position_unique:
  assumes "k < length xs" "P (xs ! k)" "\<And>j. j < length xs \<Longrightarrow> P (xs ! j) \<Longrightarrow> j = k"
  shows "position P xs = Some k"
proof (rule position_SomeI)
  show "k < length xs" "P (xs ! k)" using assms(1,2) .
  fix j assume "j < k"
  then have "j < length xs" "j \<noteq> k" using assms(1) by auto
  with assms(3) show "\<not> P (xs ! j)" by blast
qed

lemma own_position:
  assumes "outputs_apart outs" "k < length outs"
  shows "position (output_id_matches (output_id_new (outs ! k))) outs = Some k"
  by (rule position_unique) (use assms in \<open>auto simp: outputs_apart_def\<close>)

lemma settled_own [simp]:
  "outputs_apart outs \<Longrightarrow> k < length outs \<Longrightarrow> settled outs p k [output_id_new (outs ! k)]"
  by (simp add: settled_def own_position)

text \<open>Dropping duplicates keeps the first occurrences, so it does not matter to what is preferred\<close>

lemma find_preferred_append:
  "find_preferred_output (xs @ ys) outs =
     (case find_preferred_output xs outs of Some k \<Rightarrow> Some k | None \<Rightarrow> find_preferred_output ys outs)"
  by (induction xs) (auto split: option.split)

lemma find_preferred_member:
  assumes "x \<in> set xs" "find_preferred_output xs outs = None"
  shows "position (output_id_matches x) outs = None"
  using assms by (induction xs) (auto split: option.splits)

lemma find_preferred_remdups:
  "find_preferred_output (rev (remdups (rev xs))) outs = find_preferred_output xs outs"
proof (induction xs rule: rev_induct)
  case (snoc x xs)
  then show ?case
  proof (cases "x \<in> set xs")
    case True
    with snoc find_preferred_member [OF True] show ?thesis
      by (auto simp: find_preferred_append split: option.split)
  qed (simp add: find_preferred_append)
qed simp

lemma find_preferred_renamed:
  assumes "outputs_apart outs" "k < length outs"
    "find_preferred_output os outs = Some k \<or> find_preferred_output os outs = None"
  shows "find_preferred_output (map (\<lambda>x. if output_id_matches x (outs ! k) then output_id_new (outs ! k) else x) os) outs =
    find_preferred_output os outs"
  using assms(3)
proof (induction os)
  case (Cons x os)
  show ?case
  proof (cases "output_id_matches x (outs ! k)")
    case True
    then have "position (output_id_matches x) outs \<noteq> None"
      using assms(2) nth_mem unfolding position_None by blast
    with Cons.prems have "position (output_id_matches x) outs = Some k" by (auto split: option.splits)
    with True own_position [OF assms(1,2)] show ?thesis by simp
  next
    case False
    then have "position (output_id_matches x) outs \<noteq> Some k" using position_SomeD by blast
    with Cons.prems have "position (output_id_matches x) outs = None" by (auto split: option.splits)
    with Cons False show ?thesis by simp
  qed
qed simp

lemma settled_normalize:
  assumes "outputs_apart outs" "k < length outs" "settled outs p k os"
  shows "settled outs p k (normalize_original_outputs os (outs ! k))"
proof -
  have "find_preferred_output os outs = Some k \<or> find_preferred_output os outs = None"
    using assms(3) by (auto simp: settled_def split: option.splits)
  from find_preferred_renamed [OF assms(1,2) this] assms(3) show ?thesis
    by (simp add: settled_def normalize_original_outputs_def Let_def drop_duplicates_all find_preferred_remdups)
qed

section \<open>Local and global parts of the invariant\<close>

definition ids_of :: "monitor \<Rightarrow> nat set" where
  "ids_of m = ws_id ` set (workspaces m)"

definition name_key :: "workspace \<Rightarrow> string option" where
  "name_key ws = map_option (map ascii_lower) (ws_name ws)"

definition keys_of :: "workspace list \<Rightarrow> string set" where
  "keys_of wss = {key. \<exists>ws \<in> set wss. name_key ws = Some key}"

abbreviation names_of :: "monitor \<Rightarrow> string set" where
  "names_of m \<equiv> keys_of (workspaces m)"

definition mons_mset :: "monitor list \<Rightarrow> win_id multiset" where
  "mons_mset mons = \<Sum>\<^sub># (mset (map mon_mset mons))"

text \<open>The part that each monitor has for itself; \<open>n\<close> is the value of the counter\<close>

definition mon_fits :: "client_view \<Rightarrow> options \<Rightarrow> nat \<Rightarrow> monitor \<Rightarrow> bool" where
  "mon_fits cv base n m \<longleftrightarrow> mon_ok cv m \<and> mon_base_options m = base \<and> next_ws_id m \<le> n"

definition mon_settled :: "wl_output list \<Rightarrow> nat \<Rightarrow> nat \<Rightarrow> monitor \<Rightarrow> bool" where
  "mon_settled outs p k m \<longleftrightarrow> (\<forall>ws \<in> set (workspaces m). settled outs p k (original_outputs ws))"

definition apart :: "monitor list \<Rightarrow> bool" where
  "apart mons \<longleftrightarrow>
     (\<forall>i < length mons. \<forall>j < length mons. i \<noteq> j \<longrightarrow>
        ids_of (mons ! i) \<inter> ids_of (mons ! j) = {} \<and> names_of (mons ! i) \<inter> names_of (mons ! j) = {})"

definition mons_ok :: "client_view \<Rightarrow> options \<Rightarrow> nat \<Rightarrow> nat \<Rightarrow> monitor list \<Rightarrow> bool" where
  "mons_ok cv base n p mons \<longleftrightarrow>
     (\<forall>m \<in> set mons. mon_fits cv base n m) \<and>
     (\<forall>k < length mons. mon_settled (outputs_of mons) p k (mons ! k)) \<and>
     apart mons \<and> outputs_apart (outputs_of mons) \<and> p < length mons"

definition moved_mset :: "layout \<Rightarrow> win_id multiset" where
  "moved_mset L = (case moving_data L of Some md \<Rightarrow> {#win (md_tile md)#} | None \<Rightarrow> {#})"

definition placed_mset :: "layout \<Rightarrow> win_id multiset" where
  "placed_mset L =
     (case lt_set L of
        Normal mons _ _ \<Rightarrow> mons_mset mons
      | NoOutputs wss \<Rightarrow> mset (concat (map ws_windows wss)))"

definition lt_mset :: "layout \<Rightarrow> win_id multiset" where
  "lt_mset L = moved_mset L + placed_mset L"

definition started_in :: "win_id multiset \<Rightarrow> move_state option \<Rightarrow> bool" where
  "started_in M state \<longleftrightarrow> (\<forall>w. state = Some (MoveStarting w) \<longrightarrow> w \<in># M)"

text \<open>Without outputs there are only workspaces that a monitor would take over\<close>

definition lt_ok :: "client_view \<Rightarrow> layout \<Rightarrow> bool" where
  "lt_ok cv L \<longleftrightarrow>
     distinct_mset (lt_mset L) \<and>
     (case lt_set L of
        Normal mons p a \<Rightarrow> mons_ok cv (lt_options L) (lt_next_ws_id L) p mons \<and> a < length mons
      | NoOutputs wss \<Rightarrow> arriving_ok cv (lt_next_ws_id L) wss \<and> (\<forall>ws \<in> set wss. base_options ws = lt_options L)) \<and>
     started_in (placed_mset L) (lt_interactive_move L)"

lemma lt_windows_mset: "mset (lt_windows L) = lt_mset L"
proof -
  have "mset (concat (map (\<lambda>m. fl_windows (sticky m)) mons)) + mset (concat (map ws_windows (concat (map workspaces mons)))) =
      mons_mset mons" for mons
    by (induction mons) (simp_all add: mons_mset_def mon_mset_windows mon_windows_def)
  then show ?thesis
    by (auto simp: lt_windows_def lt_mset_def moved_mset_def placed_mset_def lt_monitors_def lt_workspaces_def
        split: monitor_set.split option.split)
qed

section \<open>Changing one monitor\<close>

lemma mons_mset_split: "k < length mons \<Longrightarrow> mons_mset mons = mon_mset (mons ! k) + mons_mset (remove_at k mons)"
proof -
  assume "k < length mons"
  then have "mset mons = add_mset (mons ! k) (mset (remove_at k mons))" by (simp add: mset_remove_at)
  then show ?thesis by (simp add: mons_mset_def)
qed

lemma remove_at_update: "remove_at k (xs[k := x]) = remove_at k xs"
  by (simp add: remove_at_def)

lemma mons_mset_update:
  "k < length mons \<Longrightarrow> mons_mset (mons[k := m]) = mon_mset m + mons_mset (remove_at k mons)"
  using mons_mset_split [of k "mons[k := m]"] by (simp add: remove_at_update)

lemma outputs_of_update: "mon_output m = mon_output (mons ! k) \<Longrightarrow> outputs_of (mons[k := m]) = outputs_of mons"
  unfolding outputs_of_def by (metis list_update_id map_update)

definition others :: "nat \<Rightarrow> monitor list \<Rightarrow> (monitor \<Rightarrow> 'a set) \<Rightarrow> 'a set" where
  "others k mons f = \<Union> {f (mons ! j) | j. j < length mons \<and> j \<noteq> k}"

lemma others_sub: "j < length mons \<Longrightarrow> j \<noteq> k \<Longrightarrow> f (mons ! j) \<subseteq> others k mons f"
  by (auto simp: others_def)

lemma mons_ok_apart:
  assumes "mons_ok cv base n p mons" "k < length mons"
  shows "ids_of (mons ! k) \<inter> others k mons ids_of = {}" "names_of (mons ! k) \<inter> others k mons names_of = {}"
    "\<forall>i \<in> others k mons ids_of. i < n"
proof -
  show "ids_of (mons ! k) \<inter> others k mons ids_of = {}" "names_of (mons ! k) \<inter> others k mons names_of = {}"
    using assms unfolding mons_ok_def apart_def others_def by blast+
  have "i < n" if "m \<in> set mons" "i \<in> ids_of m" for m i
  proof -
    have "mon_fits cv base n m" using assms(1) that(1) by (simp add: mons_ok_def)
    then have "i < next_ws_id m" "next_ws_id m \<le> n"
      using that(2) content_okD [of cv m] by (auto simp: mon_fits_def mon_ok_def cores_ok_def cores_def fits_def ids_of_def)
    then show ?thesis by simp
  qed
  then show "\<forall>i \<in> others k mons ids_of. i < n" unfolding others_def by (blast intro: nth_mem)
qed

lemma mon_ok_counter: "mon_ok cv m \<Longrightarrow> next_ws_id m \<le> n \<Longrightarrow> mon_ok cv (at_counter n m)"
proof -
  assume ok: "mon_ok cv m" and n: "next_ws_id m \<le> n"
  have c: "cores (at_counter n m) = cores m" by (simp add: at_counter_def cores_def)
  have "content_ok cv (at_counter n m)"
    using ok n fits_mono [of cv _ _ "next_ws_id m" _ n]
    by (auto simp: mon_ok_def content_ok_def c cores_ok_def) (auto simp: at_counter_def)
  moreover have "shape True (at_counter n m)"
    using ok by (simp add: mon_ok_def shape_def loose_def tight_def vis_def hid_def at_counter_def)
  ultimately show ?thesis by (simp add: mon_ok_def)
qed

lemma at_counter_simps [simp]:
  "mon_mset (at_counter n m) = mon_mset m" "workspaces (at_counter n m) = workspaces m"
  "mon_output (at_counter n m) = mon_output m" "mon_base_options (at_counter n m) = mon_base_options m"
  "next_ws_id (at_counter n m) = n" "sticky (at_counter n m) = sticky m" "mon_windows (at_counter n m) = mon_windows m"
  "active_workspace_idx (at_counter n m) = active_workspace_idx m" "mon_options (at_counter n m) = mon_options m"
  "workspace_switch (at_counter n m) = workspace_switch m" "active_space (at_counter n m) = active_space m"
  "vis (at_counter n m) = vis m" "hid (at_counter n m) = hid m" "active_workspace (at_counter n m) = active_workspace m"
  "active_id (at_counter n m) = active_id m" "mon_active_window (at_counter n m) = mon_active_window m"
  "visible_workspace_count (at_counter n m) = visible_workspace_count m" "idx_of_ws i (at_counter n m) = idx_of_ws i m"
  by (simp_all add: at_counter_def mon_mset_def cores_def mon_windows_def vis_def hid_def active_workspace_def
      active_id_def mon_active_window_def visible_workspace_count_def idx_of_ws_def cong: option.case_cong)

text \<open>
  The frame of the monitor at index \<open>k\<close>: ids are among \<open>I\<close> or new, names among \<open>N\<close>, and the
  workspace is settled
\<close>

definition mon_frame ::
  "wl_output list \<Rightarrow> nat \<Rightarrow> nat \<Rightarrow> nat set \<Rightarrow> string set \<Rightarrow> nat \<Rightarrow> options \<Rightarrow> frame" where
  "mon_frame outs p k I N n base =
     (\<lambda>i nm os. (i \<in> I \<or> n \<le> i) \<and> (\<forall>x. nm = Some x \<longrightarrow> map ascii_lower x \<in> N) \<and> settled outs p k os,
      outs ! k, n, base)"

lemma mon_frame_closed:
  "outputs_apart outs \<Longrightarrow> k < length outs \<Longrightarrow> frame_closed (mon_frame outs p k I N n base)"
  by (simp add: frame_closed_def mon_frame_def settled_normalize)

lemma tagged_frame:
  "tagged (mon_frame outs p k I N n base) ws \<longleftrightarrow>
     (ws_id ws \<in> I \<or> n \<le> ws_id ws) \<and> (\<forall>key. name_key ws = Some key \<longrightarrow> key \<in> N) \<and> settled outs p k (original_outputs ws)"
  by (auto simp: tagged_def mon_frame_def name_key_def)

lemma stays_frame:
  assumes "outputs_apart outs" "k < length outs"
  shows "stays (mon_frame outs p k I N n base) m \<longleftrightarrow>
    mon_output m = outs ! k \<and> mon_base_options m = base \<and> n \<le> next_ws_id m \<and>
    ids_of m \<subseteq> I \<union> {n..} \<and> names_of m \<subseteq> N \<and> mon_settled outs p k m"
  using mon_frame_closed [OF assms, of p I N n base]
  by (auto simp: stays_def housed_def tagged_frame ids_of_def keys_of_def mon_settled_def) (auto simp: mon_frame_def)

text \<open>\<open>I\<close> and \<open>N\<close> are the ids and names the monitor may have, which no other monitor has\<close>

lemma mons_ok_update:
  assumes ok: "mons_ok cv base n p mons" and k: "k < length mons"
    and m: "mon_ok cv m" "stays (mon_frame (outputs_of mons) p k I N n base) m"
    and free: "I \<inter> others k mons ids_of = {}" "N \<inter> others k mons names_of = {}"
  shows "mons_ok cv base (next_ws_id m) p (mons[k := m])"
proof -
  have out: "outputs_apart (outputs_of mons)" "k < length (outputs_of mons)" "outputs_of mons ! k = mon_output (mons ! k)"
    using ok k by (simp_all add: mons_ok_def outputs_of_def)
  note st = m(2) [unfolded stays_frame [OF out(1,2)]]
  have outs: "outputs_of (mons[k := m]) = outputs_of mons"
    by (rule outputs_of_update) (use st out(3) in simp)
  have new: "ids_of m \<inter> ids_of (mons ! j) = {} \<and> names_of m \<inter> names_of (mons ! j) = {}" if "j < length mons" "j \<noteq> k" for j
  proof -
    have o': "ids_of (mons ! j) \<subseteq> others k mons ids_of" "names_of (mons ! j) \<subseteq> others k mons names_of"
      by (rule others_sub [OF that])+
    then have "\<forall>i \<in> ids_of (mons ! j). i < n" using mons_ok_apart(3) [OF ok k] by blast
    then have "{n..} \<inter> ids_of (mons ! j) = {}" by fastforce
    moreover have "I \<inter> ids_of (mons ! j) = {}" "N \<inter> names_of (mons ! j) = {}" using free o' by blast+
    moreover have "ids_of m \<subseteq> I \<union> {n..}" "names_of m \<subseteq> N" using st by blast+
    ultimately show ?thesis by blast
  qed
  have "apart (mons[k := m])"
    unfolding apart_def
  proof (intro allI impI)
    fix i j assume "i < length (mons[k := m])" "j < length (mons[k := m])" "i \<noteq> j"
    then show "ids_of (mons[k := m] ! i) \<inter> ids_of (mons[k := m] ! j) = {} \<and>
        names_of (mons[k := m] ! i) \<inter> names_of (mons[k := m] ! j) = {}"
      using new ok by (cases "i = k"; cases "j = k") (auto simp: mons_ok_def apart_def)
  qed
  moreover have "\<forall>x \<in> set (mons[k := m]). mon_fits cv base (next_ws_id m) x"
    using ok st m(1) set_update_subset_insert [of mons k m] by (fastforce simp: mons_ok_def mon_fits_def)
  moreover have "mon_settled (outputs_of mons) p j (mons[k := m] ! j)" if "j < length mons" for j
    using ok st that by (cases "j = k") (auto simp: mons_ok_def)
  ultimately show ?thesis using ok by (simp add: mons_ok_def outs)
qed


lemma mons_ok_nth:
  assumes "mons_ok cv base n p mons" "k < length mons"
  shows "mon_ok cv (at_counter n (mons ! k))" "mon_output (mons ! k) = outputs_of mons ! k"
    "stays (mon_frame (outputs_of mons) p k (ids_of (mons ! k)) (names_of (mons ! k)) n base) (at_counter n (mons ! k))"
    "outputs_apart (outputs_of mons)" "k < length (outputs_of mons)"
proof -
  have f: "mon_fits cv base n (mons ! k)" and s: "mon_settled (outputs_of mons) p k (mons ! k)"
    using assms by (simp_all add: mons_ok_def)
  show out: "mon_output (mons ! k) = outputs_of mons ! k" "outputs_apart (outputs_of mons)" "k < length (outputs_of mons)"
    using assms by (simp_all add: outputs_of_def mons_ok_def)
  show "mon_ok cv (at_counter n (mons ! k))" using f by (simp add: mon_fits_def mon_ok_counter)
  show "stays (mon_frame (outputs_of mons) p k (ids_of (mons ! k)) (names_of (mons ! k)) n base) (at_counter n (mons ! k))"
    unfolding stays_frame [OF out(2,3)] using f s out(1) by (simp add: mon_fits_def ids_of_def mon_settled_def)
qed

text \<open>A step of one monitor that stays in its frame\<close>

lemma mons_ok_step:
  assumes ok: "mons_ok cv base n p mons" and k: "k < length mons" and m: "mon_ok cv m"
    and frame: "\<And>fr. stays fr (at_counter n (mons ! k)) \<Longrightarrow> stays fr m"
  shows "mons_ok cv base (next_ws_id m) p (mons[k := m])"
  by (rule mons_ok_update [OF ok k m frame [OF mons_ok_nth(3) [OF ok k]]]) (rule mons_ok_apart [OF ok k])+

definition lt_keeps :: "client_view \<Rightarrow> layout \<Rightarrow> layout \<Rightarrow> bool" where
  "lt_keeps cv L L' \<longleftrightarrow>
     lt_ok cv L' \<and> placed_mset L' = placed_mset L \<and> lt_interactive_move L' = lt_interactive_move L \<and>
     lt_options L' = lt_options L \<and> outputs_of (lt_monitors L') = outputs_of (lt_monitors L)"

lemma lt_keeps_refl: "lt_ok cv L \<Longrightarrow> lt_keeps cv L L"
  by (simp add: lt_keeps_def)

lemma lt_keeps_trans: "lt_keeps cv A B \<Longrightarrow> lt_keeps cv B C \<Longrightarrow> lt_keeps cv A C"
  by (simp add: lt_keeps_def)

lemma moving_data_cong: "lt_interactive_move L' = lt_interactive_move L \<Longrightarrow> moving_data L' = moving_data L"
  by (simp add: moving_data_def)

lemma lt_ok_NormalD:
  assumes "lt_ok cv L" "lt_set L = Normal mons p a"
  shows "mons_ok cv (lt_options L) (lt_next_ws_id L) p mons" "a < length mons" "p < length mons"
    "distinct_mset (moved_mset L + mons_mset mons)" "placed_mset L = mons_mset mons"
  using assms by (auto simp: lt_ok_def lt_mset_def placed_mset_def mons_ok_def)

lemma lt_ok_NoOutputsD:
  assumes "lt_ok cv L" "lt_set L = NoOutputs wss"
  shows "arriving_ok cv (lt_next_ws_id L) wss" "\<forall>ws \<in> set wss. base_options ws = lt_options L"
    "distinct_mset (moved_mset L + mset (concat (map ws_windows wss)))"
    "placed_mset L = mset (concat (map ws_windows wss))"
  using assms by (auto simp: lt_ok_def lt_mset_def placed_mset_def)

definition lt_put :: "monitor list \<Rightarrow> nat \<Rightarrow> nat \<Rightarrow> nat \<Rightarrow> layout \<Rightarrow> layout" where
  "lt_put mons p a n L = L\<lparr>lt_set := Normal mons p a, lt_next_ws_id := n\<rparr>"

lemma lt_put_simps [simp]:
  "lt_set (lt_put mons p a n L) = Normal mons p a" "lt_next_ws_id (lt_put mons p a n L) = n"
  "lt_interactive_move (lt_put mons p a n L) = lt_interactive_move L" "lt_options (lt_put mons p a n L) = lt_options L"
  "moved_mset (lt_put mons p a n L) = moved_mset L" "placed_mset (lt_put mons p a n L) = mons_mset mons"
  "lt_monitors (lt_put mons p a n L) = mons" "moving_data (lt_put mons p a n L) = moving_data L"
  "lt_put mons' p' a' n' (lt_put mons p a n L) = lt_put mons' p' a' n' L"
  "set_active_monitor k (lt_put mons p a n L) = lt_put mons p k n L"
  "lt_overview_open (lt_put mons p a n L) = lt_overview_open L"
  by (simp_all add: lt_put_def moved_mset_def moving_data_def placed_mset_def lt_monitors_def set_active_monitor_def)

lemma lt_put_self: "lt_set L = Normal mons p a \<Longrightarrow> lt_put mons p a (lt_next_ws_id L) L = L"
  by (simp add: lt_put_def)

lemma lt_ok_put:
  assumes "mons_ok cv (lt_options L) n p mons" "a < length mons" "distinct_mset (moved_mset L + mons_mset mons)"
    and "started_in (mons_mset mons) (lt_interactive_move L)"
  shows "lt_ok cv (lt_put mons p a n L)"
  using assms by (simp add: lt_ok_def lt_mset_def)

text \<open>The same windows on the same outputs\<close>

lemma lt_keeps_put:
  assumes "lt_ok cv L" "lt_set L = Normal mons p a" "mons_ok cv (lt_options L) n p mons'" "a' < length mons'"
    "mons_mset mons' = mons_mset mons" "outputs_of mons' = outputs_of mons"
  shows "lt_keeps cv L (lt_put mons' p a' n L)"
  using assms lt_ok_NormalD(4,5) [OF assms(1,2)]
  by (simp add: lt_keeps_def lt_ok_def lt_mset_def) (simp add: lt_monitors_def)

lemma on_monitor_eq:
  assumes "lt_set L = Normal mons p a" "k < length mons"
  shows "on_monitor k f L =
    map_option (\<lambda>(x, m). (x, lt_put (mons[k := m]) p a (next_ws_id m) L)) (f (at_counter (lt_next_ws_id L) (mons ! k)))"
  using assms by (simp add: on_monitor_def lt_put_def case_prod_unfold split: bind_split)

lemma change_monitor_eq:
  assumes "lt_set L = Normal mons p a" "k < length mons"
  shows "change_monitor k f L =
    map_option (\<lambda>m. lt_put (mons[k := m]) p a (next_ws_id m) L) (f (at_counter (lt_next_ws_id L) (mons ! k)))"
  by (simp add: change_monitor_def on_monitor_eq [OF assms] option.map_comp comp_def)

text \<open>An operation of one monitor that keeps its windows, as a step of the layout\<close>

lemma keep_on_monitor:
  assumes ok: "lt_ok cv L" and L: "lt_set L = Normal mons p a" and k: "k < length mons"
    and run: "returns (f (at_counter (lt_next_ws_id L) (mons ! k)))
      (\<lambda>(x, m'). keeps_windows cv (at_counter (lt_next_ws_id L) (mons ! k)) m' \<and> Q x m')"
    and frame: "\<And>fr x m'. stays fr (at_counter (lt_next_ws_id L) (mons ! k)) \<Longrightarrow>
      f (at_counter (lt_next_ws_id L) (mons ! k)) = Some (x, m') \<Longrightarrow> stays fr m'"
  shows "returns (on_monitor k f L) (\<lambda>(x, L'). lt_keeps cv L L' \<and>
           (\<exists>m'. L' = lt_put (mons[k := m']) p a (next_ws_id m') L \<and> Q x m'))"
proof -
  note n = lt_ok_NormalD [OF ok L]
  from run obtain x m' where r: "f (at_counter (lt_next_ws_id L) (mons ! k)) = Some (x, m')" "mon_ok cv m'"
    "mon_mset m' = mon_mset (mons ! k)" "Q x m'"
    by (auto simp: keeps_windows_def elim!: returnsE)
  have fr: "stays fr m'" if "stays fr (at_counter (lt_next_ws_id L) (mons ! k))" for fr
    using frame [OF that r(1)] .
  have "mons_mset (mons[k := m']) = mons_mset mons"
    using k r(3) by (simp add: mons_mset_update mons_mset_split [OF k])
  moreover have "outputs_of (mons[k := m']) = outputs_of mons"
    using fr [OF mons_ok_nth(3) [OF n(1) k]] mons_ok_nth(2) [OF n(1) k]
    by (intro outputs_of_update) (simp add: stays_frame [OF mons_ok_nth(4,5) [OF n(1) k]])
  ultimately have "lt_keeps cv L (lt_put (mons[k := m']) p a (next_ws_id m') L)"
    using lt_keeps_put [OF ok L mons_ok_step [OF n(1) k r(2) fr]] n(2) by simp
  with r show ?thesis by (auto simp: on_monitor_eq [OF L k])
qed

text \<open>What an operation of a monitor has to promise, and where the promises come from\<close>

definition keeps_framed :: "client_view \<Rightarrow> (monitor \<Rightarrow> monitor option) \<Rightarrow> monitor \<Rightarrow> bool" where
  "keeps_framed cv f m \<longleftrightarrow>
     returns (f m) (keeps_windows cv m) \<and> (\<forall>fr m'. stays fr m \<longrightarrow> f m = Some m' \<longrightarrow> stays fr m')"

lemma stays_result: "stays fr m \<Longrightarrow> yields fr r (stays fr) \<Longrightarrow> r = Some m' \<Longrightarrow> stays fr m'"
  by (auto simp: yields_def stays_def housed_def)

lemma keeps_framedI:
  assumes "returns (f m) (keeps_windows cv m)" "\<And>fr. stays fr m \<Longrightarrow> yields fr (f m) (stays fr)"
  shows "keeps_framed cv f m"
  using assms stays_result by (auto simp: keeps_framed_def)

lemma on_workspace_framed:
  assumes ok: "mon_ok cv m" and i: "i < length (workspaces m)"
    and f: "returns (f (workspaces m ! i)) (ws_keeps cv (workspaces m ! i))"
  shows "keeps_framed cv (on_workspace i f) m"
proof -
  have "content_ok cv m" "shape True m" using ok by (simp_all add: mon_ok_def)
  from on_workspace_keeps [where f = f, OF this i f] have "returns (on_workspace i f m) (keeps_windows cv m)"
    by (auto intro: mon_keeps_windows elim!: returns_mono)
  moreover have "stays fr m'" if "stays fr m" "on_workspace i f m = Some m'" for fr m'
  proof -
    from f obtain ws where ws: "f (workspaces m ! i) = Some ws" "ws_frame (workspaces m ! i) ws"
      by (auto simp: ws_keeps_def elim!: returnsE)
    have "tagged fr (workspaces m ! i)" using that(1) i by (auto simp: stays_def)
    then have "tagged fr ws" using ws_frameD [OF ws(2)] by (simp add: tagged_def)
    with that i ws(1) show ?thesis by (auto simp: on_workspace_def)
  qed
  ultimately show ?thesis by (simp add: keeps_framed_def)
qed

lemma keep_change_monitor:
  assumes "lt_ok cv L" "lt_set L = Normal mons p a" "k < length mons"
    and f: "\<And>m. m = at_counter (lt_next_ws_id L) (mons ! k) \<Longrightarrow> mon_ok cv m \<Longrightarrow> keeps_framed cv f m"
  shows "returns (change_monitor k f L) (lt_keeps cv L)"
proof -
  note m = f [OF refl mons_ok_nth(1) [OF lt_ok_NormalD(1) [OF assms(1,2)] assms(3)]]
  have "returns (on_monitor k (\<lambda>m. map_option (Pair ()) (f m)) L) (\<lambda>(x, L'). lt_keeps cv L L' \<and>
      (\<exists>m'. L' = lt_put (mons[k := m']) p a (next_ws_id m') L \<and> True))"
    by (rule keep_on_monitor [OF assms(1-3)]) (use m in \<open>auto simp: keeps_framed_def\<close>)
  then show ?thesis by (auto simp: change_monitor_def elim!: returns_mono)
qed

lemma keep_active_monitor:
  assumes "lt_ok cv L"
    and f: "\<And>m mons p a. lt_set L = Normal mons p a \<Longrightarrow> m = at_counter (lt_next_ws_id L) (mons ! a) \<Longrightarrow> mon_ok cv m \<Longrightarrow>
      keeps_framed cv f m"
  shows "returns (on_active_monitor f L) (lt_keeps cv L)"
proof (cases "lt_set L")
  case (Normal mons p a)
  from keep_change_monitor [OF assms(1) Normal lt_ok_NormalD(2) [OF assms(1) Normal] f [OF Normal]] show ?thesis
    by (simp add: on_active_monitor_def Normal)
next
  case (NoOutputs wss)
  with lt_keeps_refl [OF assms(1)] show ?thesis by (simp add: on_active_monitor_def)
qed

text \<open>Changes of the focus and of the overview flags\<close>

lemma lt_keeps_active:
  assumes "lt_ok cv L" "lt_set L = Normal mons p a" "k < length mons"
  shows "lt_keeps cv L (set_active_monitor k L)"
proof -
  have "set_active_monitor k L = lt_put mons p k (lt_next_ws_id L) L"
    using assms(2) by (simp add: set_active_monitor_def lt_put_def)
  then show ?thesis using lt_keeps_put [OF assms(1,2) lt_ok_NormalD(1) [OF assms(1,2)] assms(3)] by simp
qed

lemma overview_flag_ok:
  "mon_fits cv base n (m\<lparr>overview_open := b\<rparr>) = mon_fits cv base n m" "mon_mset (m\<lparr>overview_open := b\<rparr>) = mon_mset m"
proof -
  let ?m = "m\<lparr>overview_open := b\<rparr>"
  have c: "cores ?m = cores m" by (simp add: cores_def)
  show "mon_mset ?m = mon_mset m" by (simp add: mon_mset_def c)
  show "mon_fits cv base n ?m = mon_fits cv base n m"
    by (simp add: mon_fits_def mon_ok_def content_ok_def c shape_def loose_def tight_def vis_def hid_def)
qed

lemma mons_ok_flags:
  assumes "mons_ok cv base n p mons" "length bs = length mons"
  shows "mons_ok cv base n p (map2 (\<lambda>b m. m\<lparr>overview_open := b\<rparr>) bs mons)" (is "mons_ok cv base n p ?ms")
    "mons_mset (map2 (\<lambda>b m. m\<lparr>overview_open := b\<rparr>) bs mons) = mons_mset mons"
    "outputs_of (map2 (\<lambda>b m. m\<lparr>overview_open := b\<rparr>) bs mons) = outputs_of mons"
proof -
  have nth: "?ms ! k = (mons ! k)\<lparr>overview_open := bs ! k\<rparr>" if "k < length mons" for k
    using that assms(2) by simp
  have map: "map f ?ms = map f mons" if "\<And>m b. f (m\<lparr>overview_open := b\<rparr>) = f m" for f :: "monitor \<Rightarrow> 'a"
    by (rule nth_equalityI) (use assms(2) that nth in auto)
  show outs: "outputs_of ?ms = outputs_of mons" by (simp only: outputs_of_def) (rule map, simp)
  show "mons_mset ?ms = mons_mset mons" by (simp only: mons_mset_def) (subst map, simp_all add: overview_flag_ok)
  have "\<forall>m \<in> set ?ms. mon_fits cv base n m"
    using assms by (auto simp: set_zip mons_ok_def overview_flag_ok)
  moreover have "mon_settled outs p k (?ms ! k) = mon_settled outs p k (mons ! k)" if "k < length mons" for outs k
    using nth [OF that] by (simp add: mon_settled_def)
  moreover have "apart ?ms = apart mons"
    using assms(2) nth by (simp add: apart_def ids_of_def)
  ultimately show "mons_ok cv base n p ?ms" using assms outs by (simp add: mons_ok_def)
qed

lemma lt_keeps_overview:
  assumes "lt_ok cv L"
  shows "lt_keeps cv L (set_monitors_overview_state L)" "lt_keeps cv L (on_active_monitor_changed L)"
    "lt_keeps cv L (L\<lparr>lt_overview_open := b\<rparr>)"
proof -
  show o': "lt_keeps cv L (L\<lparr>lt_overview_open := b\<rparr>)"
    using assms by (simp add: lt_keeps_def lt_ok_def lt_mset_def moved_mset_def moving_data_def placed_mset_def lt_monitors_def
        split: monitor_set.splits)
  show s: "lt_keeps cv L (set_monitors_overview_state L)"
  proof (cases "lt_set L")
    case (Normal mons p a)
    let ?bs = "map (\<lambda>(k, m). takes_part L a k (mon_output m)) (zip [0..<length mons] mons)"
    have e: "set_monitors_overview_state L = lt_put (map2 (\<lambda>b m. m\<lparr>overview_open := b\<rparr>) ?bs mons) p a (lt_next_ws_id L) L"
    proof -
      have "map2 (\<lambda>k m. m\<lparr>overview_open := takes_part L a k (mon_output m)\<rparr>) [0..<length mons] mons =
          map2 (\<lambda>b m. m\<lparr>overview_open := b\<rparr>) ?bs mons"
        by (rule nth_equalityI) simp_all
      then show ?thesis by (simp add: set_monitors_overview_state_def Normal lt_put_def)
    qed
    note fl = mons_ok_flags [OF lt_ok_NormalD(1) [OF assms Normal], of ?bs]
    show ?thesis unfolding e
      by (rule lt_keeps_put [OF assms Normal]) (use fl lt_ok_NormalD(2) [OF assms Normal] in simp_all)
  next
    case (NoOutputs wss)
    with lt_keeps_refl [OF assms] show ?thesis by (simp add: set_monitors_overview_state_def)
  qed
  with lt_keeps_refl [OF assms] show "lt_keeps cv L (on_active_monitor_changed L)"
    by (simp add: on_active_monitor_changed_def)
qed

lemma lt_keeps_switch:
  assumes "lt_ok cv L" "lt_set L = Normal mons p a" "k < length mons"
  shows "lt_keeps cv L (switch_active_monitor k L)"
proof -
  note k = lt_keeps_active [OF assms]
  have "lt_ok cv (set_active_monitor k L)" using k by (simp add: lt_keeps_def)
  from lt_keeps_trans [OF k lt_keeps_overview(2) [OF this]] lt_keeps_refl [OF assms(1)] assms(2) show ?thesis
    by (simp add: switch_active_monitor_def)
qed

end
