(* ===== verification/LayoutActions.thy ===== *)
theory LayoutActions
  imports LayoutMoves
begin

text \<open>
  \<open>src/layout/mod.rs\<close>, continued: the actions on the focused window, column or workspace,
  which the layout hands to the active workspace or to the active monitor, the actions that go
  on to another output at the edge, and the swipe between workspaces, which is on one output at
  a time. The rendered positions of a swipe are arguments, as they are of the monitor.
\<close>

section \<open>Actions of the active workspace\<close>

text \<open>Moving windows and columns\<close>

definition lt_move_left :: "layout \<Rightarrow> layout option" where
  "lt_move_left L = on_focused_workspace (\<lambda>ws. map_option fst (ws_move_left ws)) L"

definition lt_move_right :: "layout \<Rightarrow> layout option" where
  "lt_move_right L = on_focused_workspace (\<lambda>ws. map_option fst (ws_move_right ws)) L"

definition lt_move_column_to_first :: "layout \<Rightarrow> layout option" where
  "lt_move_column_to_first L = on_focused_workspace ws_move_column_to_first L"

definition lt_move_column_to_last :: "layout \<Rightarrow> layout option" where
  "lt_move_column_to_last L = on_focused_workspace ws_move_column_to_last L"

definition lt_move_column_to_index :: "nat \<Rightarrow> layout \<Rightarrow> layout option" where
  "lt_move_column_to_index i L = on_focused_workspace (ws_move_column_to_index i) L"

definition lt_move_down :: "layout \<Rightarrow> layout option" where
  "lt_move_down L = on_focused_workspace (\<lambda>ws. map_option fst (ws_move_down ws)) L"

definition lt_move_up :: "layout \<Rightarrow> layout option" where
  "lt_move_up L = on_focused_workspace (\<lambda>ws. map_option fst (ws_move_up ws)) L"

definition lt_consume_into_column :: "layout \<Rightarrow> layout option" where
  "lt_consume_into_column L = on_focused_workspace ws_consume_into_column L"

definition lt_expel_from_column :: "layout \<Rightarrow> layout option" where
  "lt_expel_from_column L = on_focused_workspace ws_expel_from_column L"

definition lt_swap_window_in_direction :: "scroll_direction \<Rightarrow> layout \<Rightarrow> layout option" where
  "lt_swap_window_in_direction d L = on_focused_workspace (ws_swap_window_in_direction d) L"

definition lt_toggle_column_tabbed_display :: "layout \<Rightarrow> layout option" where
  "lt_toggle_column_tabbed_display L = on_focused_workspace ws_toggle_column_tabbed_display L"

definition lt_set_column_display :: "column_display \<Rightarrow> layout \<Rightarrow> layout option" where
  "lt_set_column_display d L = on_focused_workspace (ws_set_column_display d) L"

text \<open>Moving the focus\<close>

definition lt_focus_left :: "client_view \<Rightarrow> layout \<Rightarrow> layout option" where
  "lt_focus_left cv L = on_focused_workspace (\<lambda>ws. map_option fst (ws_focus_left cv ws)) L"

definition lt_focus_right :: "client_view \<Rightarrow> layout \<Rightarrow> layout option" where
  "lt_focus_right cv L = on_focused_workspace (\<lambda>ws. map_option fst (ws_focus_right cv ws)) L"

definition lt_focus_column_first :: "client_view \<Rightarrow> layout \<Rightarrow> layout option" where
  "lt_focus_column_first cv L = on_focused_workspace (ws_focus_column_first cv) L"

definition lt_focus_column_last :: "client_view \<Rightarrow> layout \<Rightarrow> layout option" where
  "lt_focus_column_last cv L = on_focused_workspace (ws_focus_column_last cv) L"

definition lt_focus_column_right_or_first :: "client_view \<Rightarrow> layout \<Rightarrow> layout option" where
  "lt_focus_column_right_or_first cv L = on_focused_workspace (focus_column_right_or_first cv) L"

definition lt_focus_column_left_or_last :: "client_view \<Rightarrow> layout \<Rightarrow> layout option" where
  "lt_focus_column_left_or_last cv L = on_focused_workspace (focus_column_left_or_last cv) L"

definition lt_focus_column :: "nat \<Rightarrow> layout \<Rightarrow> layout option" where
  "lt_focus_column i L = on_focused_workspace (ws_focus_column i) L"

definition lt_focus_window_in_column :: "nat \<Rightarrow> layout \<Rightarrow> layout option" where
  "lt_focus_window_in_column i L = on_focused_workspace (ws_focus_window_in_column i) L"

definition lt_focus_down :: "client_view \<Rightarrow> layout \<Rightarrow> layout option" where
  "lt_focus_down cv L = on_focused_workspace (\<lambda>ws. map_option fst (ws_focus_down cv ws)) L"

definition lt_focus_up :: "client_view \<Rightarrow> layout \<Rightarrow> layout option" where
  "lt_focus_up cv L = on_focused_workspace (\<lambda>ws. map_option fst (ws_focus_up cv ws)) L"

definition lt_focus_down_or_left :: "client_view \<Rightarrow> layout \<Rightarrow> layout option" where
  "lt_focus_down_or_left cv L = on_focused_workspace (ws_focus_down_or_left cv) L"

definition lt_focus_down_or_right :: "client_view \<Rightarrow> layout \<Rightarrow> layout option" where
  "lt_focus_down_or_right cv L = on_focused_workspace (ws_focus_down_or_right cv) L"

definition lt_focus_up_or_left :: "client_view \<Rightarrow> layout \<Rightarrow> layout option" where
  "lt_focus_up_or_left cv L = on_focused_workspace (ws_focus_up_or_left cv) L"

definition lt_focus_up_or_right :: "client_view \<Rightarrow> layout \<Rightarrow> layout option" where
  "lt_focus_up_or_right cv L = on_focused_workspace (ws_focus_up_or_right cv) L"

definition lt_focus_window_top :: "client_view \<Rightarrow> layout \<Rightarrow> layout option" where
  "lt_focus_window_top cv L = on_focused_workspace (focus_window_top cv) L"

definition lt_focus_window_bottom :: "client_view \<Rightarrow> layout \<Rightarrow> layout option" where
  "lt_focus_window_bottom cv L = on_focused_workspace (focus_window_bottom cv) L"

definition lt_focus_window_down_or_top :: "client_view \<Rightarrow> layout \<Rightarrow> layout option" where
  "lt_focus_window_down_or_top cv L = on_focused_workspace (focus_window_down_or_top cv) L"

definition lt_focus_window_up_or_bottom :: "client_view \<Rightarrow> layout \<Rightarrow> layout option" where
  "lt_focus_window_up_or_bottom cv L = on_focused_workspace (focus_window_up_or_bottom cv) L"

section \<open>Actions of the active monitor\<close>

definition lt_move_down_or_to_workspace_down :: "client_view \<Rightarrow> layout \<Rightarrow> layout option" where
  "lt_move_down_or_to_workspace_down cv L = on_active_monitor (move_down_or_to_workspace_down cv) L"

definition lt_move_up_or_to_workspace_up :: "client_view \<Rightarrow> layout \<Rightarrow> layout option" where
  "lt_move_up_or_to_workspace_up cv L = on_active_monitor (move_up_or_to_workspace_up cv) L"

definition lt_focus_window_or_workspace_down :: "client_view \<Rightarrow> layout \<Rightarrow> layout option" where
  "lt_focus_window_or_workspace_down cv L = on_active_monitor (focus_window_or_workspace_down cv) L"

definition lt_focus_window_or_workspace_up :: "client_view \<Rightarrow> layout \<Rightarrow> layout option" where
  "lt_focus_window_or_workspace_up cv L = on_active_monitor (focus_window_or_workspace_up cv) L"

definition lt_move_column_to_workspace_up :: "client_view \<Rightarrow> bool \<Rightarrow> layout \<Rightarrow> layout option" where
  "lt_move_column_to_workspace_up cv activate L = on_active_monitor (move_column_to_workspace_up cv activate) L"

definition lt_move_column_to_workspace_down :: "client_view \<Rightarrow> bool \<Rightarrow> layout \<Rightarrow> layout option" where
  "lt_move_column_to_workspace_down cv activate L = on_active_monitor (move_column_to_workspace_down cv activate) L"

definition lt_move_column_to_workspace :: "client_view \<Rightarrow> nat \<Rightarrow> bool \<Rightarrow> bool \<Rightarrow> layout \<Rightarrow> layout option" where
  "lt_move_column_to_workspace cv idx activate allow_hidden L = on_active_monitor (move_column_to_workspace cv idx activate allow_hidden) L"

definition lt_switch_workspace_up :: "layout \<Rightarrow> layout option" where
  "lt_switch_workspace_up L = on_active_monitor switch_workspace_up L"

definition lt_switch_workspace_down :: "layout \<Rightarrow> layout option" where
  "lt_switch_workspace_down L = on_active_monitor switch_workspace_down L"

definition lt_switch_workspace :: "nat \<Rightarrow> bool \<Rightarrow> layout \<Rightarrow> layout option" where
  "lt_switch_workspace idx force_unhide L = on_active_monitor (switch_workspace idx force_unhide) L"

definition lt_switch_workspace_auto_back_and_forth :: "nat \<Rightarrow> layout \<Rightarrow> layout option" where
  "lt_switch_workspace_auto_back_and_forth idx L = on_active_monitor (switch_workspace_auto_back_and_forth idx) L"

definition lt_switch_workspace_previous :: "layout \<Rightarrow> layout option" where
  "lt_switch_workspace_previous L = on_active_monitor switch_workspace_previous L"

definition lt_focus_floating :: "layout \<Rightarrow> layout option" where
  "lt_focus_floating L = on_active_monitor mon_focus_floating L"

definition lt_focus_tiling :: "layout \<Rightarrow> layout option" where
  "lt_focus_tiling L = on_active_monitor mon_focus_tiling L"

definition lt_switch_focus_floating_tiling :: "layout \<Rightarrow> layout option" where
  "lt_switch_focus_floating_tiling L = on_active_monitor mon_switch_focus_floating_tiling L"

definition lt_move_workspace_down :: "layout \<Rightarrow> layout option" where
  "lt_move_workspace_down L = on_active_monitor move_workspace_down L"

definition lt_move_workspace_up :: "layout \<Rightarrow> layout option" where
  "lt_move_workspace_up L = on_active_monitor move_workspace_up L"

section \<open>At the edge, on to another output\<close>

text \<open>\<open>if let Some(workspace) = self.active_workspace_mut()\<close> with an operation that says whether it did something\<close>

definition focused_did :: "(workspace \<Rightarrow> (workspace \<times> bool) option) \<Rightarrow> layout \<Rightarrow> (bool \<times> layout) option" where
  "focused_did f L =
     (case lt_set L of
        NoOutputs _ \<Rightarrow> Some (False, L)
      | Normal _ _ a \<Rightarrow> on_monitor a (\<lambda>m. do {
          let m = focus_workspace m;
          ws \<leftarrow> active_workspace m;
          (ws, did) \<leftarrow> f ws;
          Some (did, set_workspace (active_workspace_idx m) ws m)
        }) L)"

text \<open>The answer is whether the action went on to the output\<close>

definition focus_or_output ::
  "(workspace \<Rightarrow> (workspace \<times> bool) option) \<Rightarrow> wl_output \<Rightarrow> layout \<Rightarrow> (bool \<times> layout) option" where
  "focus_or_output f out L =
     do {
       (did, L) \<leftarrow> focused_did f L;
       Some (if did then (False, L) else (True, focus_output out L))
     }"

definition lt_focus_window_up_or_output :: "client_view \<Rightarrow> wl_output \<Rightarrow> layout \<Rightarrow> (bool \<times> layout) option" where
  "lt_focus_window_up_or_output cv = focus_or_output (ws_focus_up cv)"

definition lt_focus_window_down_or_output :: "client_view \<Rightarrow> wl_output \<Rightarrow> layout \<Rightarrow> (bool \<times> layout) option" where
  "lt_focus_window_down_or_output cv = focus_or_output (ws_focus_down cv)"

definition lt_focus_column_left_or_output :: "client_view \<Rightarrow> wl_output \<Rightarrow> layout \<Rightarrow> (bool \<times> layout) option" where
  "lt_focus_column_left_or_output cv = focus_or_output (ws_focus_left cv)"

definition lt_focus_column_right_or_output :: "client_view \<Rightarrow> wl_output \<Rightarrow> layout \<Rightarrow> (bool \<times> layout) option" where
  "lt_focus_column_right_or_output cv = focus_or_output (ws_focus_right cv)"

definition lt_move_column_left_or_to_output ::
  "client_view \<Rightarrow> wl_output \<Rightarrow> layout \<Rightarrow> (bool \<times> layout) option" where
  "lt_move_column_left_or_to_output cv out L =
     do {
       (did, L) \<leftarrow> focused_did ws_move_left L;
       if did then Some (False, L) else map_option (Pair True) (move_column_to_output cv out None True L)
     }"

definition lt_move_column_right_or_to_output ::
  "client_view \<Rightarrow> wl_output \<Rightarrow> layout \<Rightarrow> (bool \<times> layout) option" where
  "lt_move_column_right_or_to_output cv out L =
     do {
       (did, L) \<leftarrow> focused_did ws_move_right L;
       if did then Some (False, L) else map_option (Pair True) (move_column_to_output cv out None True L)
     }"

section \<open>The swipe between workspaces\<close>

text \<open>A swipe begins on one output and ends on the others, where \<open>pos\<close> is its position there\<close>

definition lt_workspace_switch_gesture_begin ::
  "(wl_output \<Rightarrow> real) \<Rightarrow> wl_output \<Rightarrow> bool \<Rightarrow> layout \<Rightarrow> layout option" where
  "lt_workspace_switch_gesture_begin pos out is_touchpad L =
     (case lt_set L of
        NoOutputs _ \<Rightarrow> None
      | Normal _ _ _ \<Rightarrow> on_all_monitors (\<lambda>m.
          if mon_output m \<noteq> out then map_option fst (workspace_switch_gesture_end None (pos (mon_output m)) m)
          else Some (workspace_switch_gesture_begin (pos out) is_touchpad m)) L)"

text \<open>The loops that stop at the first monitor whose answer satisfies \<open>hit\<close>\<close>

fun first_monitor ::
  "(monitor \<Rightarrow> (monitor \<times> 'b) option) \<Rightarrow> ('b \<Rightarrow> bool) \<Rightarrow> monitor list
   \<Rightarrow> (monitor list \<times> ('b \<times> wl_output) option) option" where
  "first_monitor f hit [] = Some ([], None)"
| "first_monitor f hit (m # mons) =
     do {
       (m, x) \<leftarrow> f m;
       if hit x then Some (m # mons, Some (x, mon_output m))
       else do {
         (mons, found) \<leftarrow> first_monitor f hit mons;
         Some (m # mons, found)
       }
     }"

definition on_first_monitor ::
  "(monitor \<Rightarrow> (monitor \<times> 'b) option) \<Rightarrow> ('b \<Rightarrow> bool) \<Rightarrow> layout \<Rightarrow> (('b \<times> wl_output) option \<times> layout) option" where
  "on_first_monitor f hit L =
     (case lt_set L of
        NoOutputs _ \<Rightarrow> Some (None, L)
      | Normal mons p a \<Rightarrow> do {
          (mons, found) \<leftarrow> first_monitor f hit mons;
          Some (found, L\<lparr>lt_set := Normal mons p a\<rparr>)
        })"

text \<open>The answer of an update is the output to draw again, if there was a swipe to update\<close>

definition lt_workspace_switch_gesture_update ::
  "(wl_output \<Rightarrow> real) \<Rightarrow> bool \<Rightarrow> layout \<Rightarrow> (wl_output option option \<times> layout) option" where
  "lt_workspace_switch_gesture_update pos is_touchpad L =
     do {
       (found, L) \<leftarrow> on_first_monitor
         (\<lambda>m. Some (workspace_switch_gesture_update (pos (mon_output m)) is_touchpad m)) (\<lambda>refresh. refresh \<noteq> None) L;
       Some (map_option (\<lambda>(refresh, out). if refresh = Some True then Some out else None) found, L)
     }"

definition lt_workspace_switch_gesture_end ::
  "(wl_output \<Rightarrow> real) \<Rightarrow> bool option \<Rightarrow> layout \<Rightarrow> (wl_output option \<times> layout) option" where
  "lt_workspace_switch_gesture_end pos is_touchpad L =
     do {
       (found, L) \<leftarrow> on_first_monitor
         (\<lambda>m. workspace_switch_gesture_end is_touchpad (pos (mon_output m)) m) (\<lambda>ended. ended) L;
       Some (map_option snd found, L)
     }"

end
