(* ===== verification/LayoutSteps.thy ===== *)
theory LayoutSteps
  imports LayoutInv LayoutActions
begin

text \<open>
  The operations of the layout that neither take in nor give away a window or a workspace: the
  actions of the active workspace and monitor, activation, fullscreen and floating, hiding, the
  swipe. Each returns and keeps the invariant, all windows and all outputs.
\<close>

section \<open>One monitor\<close>

lemma keeps_framed_some: "keeps_windows cv m m' \<Longrightarrow> (\<And>fr. stays fr m \<Longrightarrow> stays fr m') \<Longrightarrow> f m = Some m' \<Longrightarrow> keeps_framed cv f m"
  by (simp add: keeps_framed_def)

lemma keeps_windows_refl: "mon_ok cv m \<Longrightarrow> keeps_windows cv m m"
  by (simp add: keeps_windows_def)

lemma keeps_framed_bind:
  assumes "keeps_framed cv f m" "\<And>m'. f m = Some m' \<Longrightarrow> mon_ok cv m' \<Longrightarrow> keeps_framed cv g m'"
  shows "keeps_framed cv (\<lambda>m. Option.bind (f m) g) m"
proof -
  from assms(1) obtain m' where m': "f m = Some m'" "keeps_windows cv m m'"
    by (auto simp: keeps_framed_def elim!: returnsE)
  with assms(2) [OF m'(1)] have "keeps_framed cv g m'" by (simp add: keeps_windows_def)
  then obtain m'' where m'': "g m' = Some m''" "keeps_windows cv m' m''"
    by (auto simp: keeps_framed_def elim!: returnsE)
  have "stays fr m''" if "stays fr m" for fr
    using that assms(1) \<open>keeps_framed cv g m'\<close> m'(1) m''(1) by (simp add: keeps_framed_def del: split_paired_All)
  moreover have "keeps_windows cv m m''" using m'(2) m''(2) by (simp add: keeps_windows_def)
  ultimately show ?thesis by (intro keeps_framed_some [where m' = m'']) (simp_all add: m'(1) m''(1))
qed

lemma focus_workspace_stays: "stays fr m \<Longrightarrow> stays fr (focus_workspace m)"
  by (simp add: focus_workspace_def)

lemma focus_workspace_framed:
  assumes "parents_acyclic cv" "mon_ok cv m"
  shows "keeps_framed cv (\<lambda>m. Some (focus_workspace m)) m"
  using sticky_ops_keep(3) [OF assms] focus_workspace_stays by (simp add: keeps_framed_def)

lemma active_framed:
  assumes "mon_ok cv m" "\<And>ws. ws_ok cv ws \<Longrightarrow> ws \<in> set (workspaces m) \<Longrightarrow> returns (f ws) (ws_keeps cv ws)"
  shows "keeps_framed cv (on_active_workspace f) m"
proof -
  have ok: "content_ok cv m" "shape True m" using assms(1) by (simp_all add: mon_ok_def)
  note a = active_workspace_Some(2) [OF ok(2)]
  have "keeps_framed cv (on_workspace (active_workspace_idx m) f) m"
    by (rule on_workspace_framed [OF assms(1) a]) (rule assms(2) [OF ws_ok_of [OF ok(1) a] nth_mem [OF a]])
  then show ?thesis by (simp add: keeps_framed_def on_active_workspace_def)
qed

lemma focused_framed:
  assumes "parents_acyclic cv" "mon_ok cv m" "\<And>ws. ws_ok cv ws \<Longrightarrow> returns (f ws) (ws_keeps cv ws)"
  shows "keeps_framed cv (\<lambda>m. on_active_workspace f (focus_workspace m)) m"
  using keeps_framed_bind [OF focus_workspace_framed [OF assms(1,2)], of "on_active_workspace f"]
    active_framed [of cv _ f] assms(3) by simp

text \<open>The operations of a monitor that the layout calls without giving it a window or new options\<close>

fun stays_home :: "mon_op \<Rightarrow> bool" where
  "stays_home (MonUpdateConfig opts) = False"
| "stays_home (MonUpdateLayoutConfig part) = False"
| "stays_home op = (\<not> trades_windows op)"

lemma stays_home_frame:
  assumes "stays_home op" "stays fr m" "\<And>op'. op \<noteq> MonActive op'"
  shows "yields fr (mon_exec cv op m) (stays fr)"
  using assms by (cases op) (auto intro!: frames)

lemma mon_exec_framed:
  assumes cv: "parents_acyclic cv" and ok: "mon_ok cv m" and en: "mon_enabled op m" and home: "stays_home op"
  shows "keeps_framed cv (mon_exec cv op) m"
proof (cases "\<exists>op'. op = MonActive op'")
  case True
  then obtain op' where op: "op = MonActive op'" by blast
  have a: "active_workspace m = Some (workspaces m ! active_workspace_idx m)" "active_workspace_idx m < length (workspaces m)"
    using active_workspace_Some ok by (auto simp: mon_ok_def)
  let ?ws = "workspaces m ! active_workspace_idx m"
  have "ws_ok cv ?ws" using ws_ok_of ok a(2) by (simp add: mon_ok_def)
  with en a ws_step_keeps [OF cv] have "returns (ws_exec cv op' ?ws) (ws_keeps cv ?ws)" by (simp add: op)
  from on_workspace_framed [where f = "ws_exec cv op'", OF ok a(2) this] show ?thesis by (simp add: op on_active_workspace_def keeps_framed_def)
next
  case False
  have "\<not> trades_windows op" using home by (cases op) simp_all
  from keep_step [OF cv ok en this] stays_home_frame [OF home] False show ?thesis
    by (intro keeps_framedI) auto
qed

section \<open>The active monitor\<close>

text \<open>An operation of the active monitor, which is enabled there\<close>

lemma active_monitor_keeps:
  assumes "parents_acyclic cv" "lt_ok cv L" "stays_home op" "\<And>m. mon_enabled op m" "\<And>m. mon_exec cv op m = f m"
  shows "returns (on_active_monitor f L) (lt_keeps cv L)"
proof -
  have "f = mon_exec cv op" using assms(5) by (simp add: fun_eq_iff)
  then show ?thesis
    using keep_active_monitor [OF assms(2) mon_exec_framed [OF assms(1) _ assms(4,3)]] by simp
qed

lemma focused_keeps:
  assumes "parents_acyclic cv" "lt_ok cv L" "\<And>ws. ws_ok cv ws \<Longrightarrow> returns (f ws) (ws_keeps cv ws)"
  shows "returns (on_focused_workspace f L) (lt_keeps cv L)"
  unfolding on_focused_workspace_def by (rule keep_active_monitor [OF assms(2)]) (rule focused_framed [OF assms(1) _ assms(3)])

lemma focused_op_keeps:
  assumes "parents_acyclic cv" "lt_ok cv L" "keeping op" "\<And>ws. ws_enabled op ws" "\<And>ws. ws_exec cv op ws = f ws"
  shows "returns (on_focused_workspace f L) (lt_keeps cv L)"
  by (rule focused_keeps [OF assms(1,2)]) (use ws_step_keeps [OF assms(1) _ assms(3,4)] assms(5) in simp)

text \<open>The actions as the layout names them\<close>

datatype action =
    DoMoveLeft | DoMoveRight | DoMoveColumnToFirst | DoMoveColumnToLast | DoMoveColumnToIndex nat
  | DoMoveDown | DoMoveUp | DoConsumeIntoColumn | DoExpelFromColumn
  | DoSwapWindowInDirection scroll_direction | DoToggleColumnTabbedDisplay
  | DoSetColumnDisplay column_display | DoFocusLeft | DoFocusRight | DoFocusColumnFirst | DoFocusColumnLast
  | DoFocusColumnRightOrFirst | DoFocusColumnLeftOrLast | DoFocusColumn nat | DoFocusWindowInColumn nat
  | DoFocusDown | DoFocusUp | DoFocusDownOrLeft | DoFocusDownOrRight | DoFocusUpOrLeft | DoFocusUpOrRight
  | DoFocusWindowTop | DoFocusWindowBottom | DoFocusWindowDownOrTop | DoFocusWindowUpOrBottom
  | DoMoveDownOrToWorkspaceDown | DoMoveUpOrToWorkspaceUp | DoFocusWindowOrWorkspaceDown
  | DoFocusWindowOrWorkspaceUp | DoMoveColumnToWorkspaceUp bool | DoMoveColumnToWorkspaceDown bool
  | DoMoveColumnToWorkspace nat bool bool | DoSwitchWorkspaceUp | DoSwitchWorkspaceDown
  | DoSwitchWorkspace nat bool | DoSwitchWorkspaceAutoBackAndForth nat | DoSwitchWorkspacePrevious
  | DoFocusFloating | DoFocusTiling | DoSwitchFocusFloatingTiling | DoMoveWorkspaceDown | DoMoveWorkspaceUp

fun do_action :: "client_view \<Rightarrow> action \<Rightarrow> layout \<Rightarrow> layout option" where
  "do_action cv DoMoveLeft L = lt_move_left L"
| "do_action cv DoMoveRight L = lt_move_right L"
| "do_action cv DoMoveColumnToFirst L = lt_move_column_to_first L"
| "do_action cv DoMoveColumnToLast L = lt_move_column_to_last L"
| "do_action cv (DoMoveColumnToIndex i) L = lt_move_column_to_index i L"
| "do_action cv DoMoveDown L = lt_move_down L"
| "do_action cv DoMoveUp L = lt_move_up L"
| "do_action cv DoConsumeIntoColumn L = lt_consume_into_column L"
| "do_action cv DoExpelFromColumn L = lt_expel_from_column L"
| "do_action cv (DoSwapWindowInDirection d) L = lt_swap_window_in_direction d L"
| "do_action cv DoToggleColumnTabbedDisplay L = lt_toggle_column_tabbed_display L"
| "do_action cv (DoSetColumnDisplay d) L = lt_set_column_display d L"
| "do_action cv DoFocusLeft L = lt_focus_left cv L"
| "do_action cv DoFocusRight L = lt_focus_right cv L"
| "do_action cv DoFocusColumnFirst L = lt_focus_column_first cv L"
| "do_action cv DoFocusColumnLast L = lt_focus_column_last cv L"
| "do_action cv DoFocusColumnRightOrFirst L = lt_focus_column_right_or_first cv L"
| "do_action cv DoFocusColumnLeftOrLast L = lt_focus_column_left_or_last cv L"
| "do_action cv (DoFocusColumn i) L = lt_focus_column i L"
| "do_action cv (DoFocusWindowInColumn i) L = lt_focus_window_in_column i L"
| "do_action cv DoFocusDown L = lt_focus_down cv L"
| "do_action cv DoFocusUp L = lt_focus_up cv L"
| "do_action cv DoFocusDownOrLeft L = lt_focus_down_or_left cv L"
| "do_action cv DoFocusDownOrRight L = lt_focus_down_or_right cv L"
| "do_action cv DoFocusUpOrLeft L = lt_focus_up_or_left cv L"
| "do_action cv DoFocusUpOrRight L = lt_focus_up_or_right cv L"
| "do_action cv DoFocusWindowTop L = lt_focus_window_top cv L"
| "do_action cv DoFocusWindowBottom L = lt_focus_window_bottom cv L"
| "do_action cv DoFocusWindowDownOrTop L = lt_focus_window_down_or_top cv L"
| "do_action cv DoFocusWindowUpOrBottom L = lt_focus_window_up_or_bottom cv L"
| "do_action cv DoMoveDownOrToWorkspaceDown L = lt_move_down_or_to_workspace_down cv L"
| "do_action cv DoMoveUpOrToWorkspaceUp L = lt_move_up_or_to_workspace_up cv L"
| "do_action cv DoFocusWindowOrWorkspaceDown L = lt_focus_window_or_workspace_down cv L"
| "do_action cv DoFocusWindowOrWorkspaceUp L = lt_focus_window_or_workspace_up cv L"
| "do_action cv (DoMoveColumnToWorkspaceUp activate) L = lt_move_column_to_workspace_up cv activate L"
| "do_action cv (DoMoveColumnToWorkspaceDown activate) L = lt_move_column_to_workspace_down cv activate L"
| "do_action cv (DoMoveColumnToWorkspace idx activate allow_hidden) L = lt_move_column_to_workspace cv idx activate allow_hidden L"
| "do_action cv DoSwitchWorkspaceUp L = lt_switch_workspace_up L"
| "do_action cv DoSwitchWorkspaceDown L = lt_switch_workspace_down L"
| "do_action cv (DoSwitchWorkspace idx force_unhide) L = lt_switch_workspace idx force_unhide L"
| "do_action cv (DoSwitchWorkspaceAutoBackAndForth idx) L = lt_switch_workspace_auto_back_and_forth idx L"
| "do_action cv DoSwitchWorkspacePrevious L = lt_switch_workspace_previous L"
| "do_action cv DoFocusFloating L = lt_focus_floating L"
| "do_action cv DoFocusTiling L = lt_focus_tiling L"
| "do_action cv DoSwitchFocusFloatingTiling L = lt_switch_focus_floating_tiling L"
| "do_action cv DoMoveWorkspaceDown L = lt_move_workspace_down L"
| "do_action cv DoMoveWorkspaceUp L = lt_move_workspace_up L"

lemma do_action_keeps:
  assumes "parents_acyclic cv" "lt_ok cv L"
  shows "returns (do_action cv a L) (lt_keeps cv L)"
proof -
  note f = focused_op_keeps [OF assms] and m = active_monitor_keeps [OF assms]
  show ?thesis
  proof (cases a)
    case DoMoveLeft
    then show ?thesis using f [of WsMoveLeft] by (simp add: lt_move_left_def)
  next
    case DoMoveRight
    then show ?thesis using f [of WsMoveRight] by (simp add: lt_move_right_def)
  next
    case DoMoveColumnToFirst
    then show ?thesis using f [of WsMoveColumnToFirst] by (simp add: lt_move_column_to_first_def)
  next
    case DoMoveColumnToLast
    then show ?thesis using f [of WsMoveColumnToLast] by (simp add: lt_move_column_to_last_def)
  next
    case (DoMoveColumnToIndex i)
    then show ?thesis by (simp add: lt_move_column_to_index_def) (rule f [of "WsMoveColumnToIndex i"], simp_all)
  next
    case DoMoveDown
    then show ?thesis using f [of WsMoveDown] by (simp add: lt_move_down_def)
  next
    case DoMoveUp
    then show ?thesis using f [of WsMoveUp] by (simp add: lt_move_up_def)
  next
    case DoConsumeIntoColumn
    then show ?thesis using f [of WsConsumeIntoColumn] by (simp add: lt_consume_into_column_def)
  next
    case DoExpelFromColumn
    then show ?thesis using f [of WsExpelFromColumn] by (simp add: lt_expel_from_column_def)
  next
    case (DoSwapWindowInDirection d)
    then show ?thesis by (simp add: lt_swap_window_in_direction_def) (rule f [of "WsSwap d"], simp_all)
  next
    case DoToggleColumnTabbedDisplay
    then show ?thesis using f [of WsToggleTabbed] by (simp add: lt_toggle_column_tabbed_display_def)
  next
    case (DoSetColumnDisplay d)
    then show ?thesis by (simp add: lt_set_column_display_def) (rule f [of "WsSetDisplay d"], simp_all)
  next
    case DoFocusLeft
    then show ?thesis using f [of WsFocusLeft] by (simp add: lt_focus_left_def)
  next
    case DoFocusRight
    then show ?thesis using f [of WsFocusRight] by (simp add: lt_focus_right_def)
  next
    case DoFocusColumnFirst
    then show ?thesis using f [of WsFocusColumnFirst] by (simp add: lt_focus_column_first_def)
  next
    case DoFocusColumnLast
    then show ?thesis using f [of WsFocusColumnLast] by (simp add: lt_focus_column_last_def)
  next
    case DoFocusColumnRightOrFirst
    then show ?thesis using f [of WsFocusColumnRightOrFirst] by (simp add: lt_focus_column_right_or_first_def)
  next
    case DoFocusColumnLeftOrLast
    then show ?thesis using f [of WsFocusColumnLeftOrLast] by (simp add: lt_focus_column_left_or_last_def)
  next
    case (DoFocusColumn i)
    then show ?thesis by (simp add: lt_focus_column_def) (rule f [of "WsFocusColumn i"], simp_all)
  next
    case (DoFocusWindowInColumn i)
    then show ?thesis by (simp add: lt_focus_window_in_column_def) (rule f [of "WsFocusWindowInColumn i"], simp_all)
  next
    case DoFocusDown
    then show ?thesis using f [of WsFocusDown] by (simp add: lt_focus_down_def)
  next
    case DoFocusUp
    then show ?thesis using f [of WsFocusUp] by (simp add: lt_focus_up_def)
  next
    case DoFocusDownOrLeft
    then show ?thesis using f [of WsFocusDownOrLeft] by (simp add: lt_focus_down_or_left_def)
  next
    case DoFocusDownOrRight
    then show ?thesis using f [of WsFocusDownOrRight] by (simp add: lt_focus_down_or_right_def)
  next
    case DoFocusUpOrLeft
    then show ?thesis using f [of WsFocusUpOrLeft] by (simp add: lt_focus_up_or_left_def)
  next
    case DoFocusUpOrRight
    then show ?thesis using f [of WsFocusUpOrRight] by (simp add: lt_focus_up_or_right_def)
  next
    case DoFocusWindowTop
    then show ?thesis using f [of WsFocusWindowTop] by (simp add: lt_focus_window_top_def)
  next
    case DoFocusWindowBottom
    then show ?thesis using f [of WsFocusWindowBottom] by (simp add: lt_focus_window_bottom_def)
  next
    case DoFocusWindowDownOrTop
    then show ?thesis using f [of WsFocusWindowDownOrTop] by (simp add: lt_focus_window_down_or_top_def)
  next
    case DoFocusWindowUpOrBottom
    then show ?thesis using f [of WsFocusWindowUpOrBottom] by (simp add: lt_focus_window_up_or_bottom_def)
  next
    case DoMoveDownOrToWorkspaceDown
    then show ?thesis using m [of MonMoveDownOrWorkspaceDown] by (simp add: lt_move_down_or_to_workspace_down_def)
  next
    case DoMoveUpOrToWorkspaceUp
    then show ?thesis using m [of MonMoveUpOrWorkspaceUp] by (simp add: lt_move_up_or_to_workspace_up_def)
  next
    case DoFocusWindowOrWorkspaceDown
    then show ?thesis using m [of MonFocusDownOrWorkspaceDown] by (simp add: lt_focus_window_or_workspace_down_def)
  next
    case DoFocusWindowOrWorkspaceUp
    then show ?thesis using m [of MonFocusUpOrWorkspaceUp] by (simp add: lt_focus_window_or_workspace_up_def)
  next
    case (DoMoveColumnToWorkspaceUp activate)
    then show ?thesis by (simp add: lt_move_column_to_workspace_up_def) (rule m [of "MonMoveColumnToWorkspaceUp activate"], simp_all)
  next
    case (DoMoveColumnToWorkspaceDown activate)
    then show ?thesis by (simp add: lt_move_column_to_workspace_down_def) (rule m [of "MonMoveColumnToWorkspaceDown activate"], simp_all)
  next
    case (DoMoveColumnToWorkspace idx activate allow_hidden)
    then show ?thesis by (simp add: lt_move_column_to_workspace_def) (rule m [of "MonMoveColumnToWorkspace idx activate allow_hidden"], simp_all)
  next
    case DoSwitchWorkspaceUp
    then show ?thesis using m [of MonSwitchUp] by (simp add: lt_switch_workspace_up_def)
  next
    case DoSwitchWorkspaceDown
    then show ?thesis using m [of MonSwitchDown] by (simp add: lt_switch_workspace_down_def)
  next
    case (DoSwitchWorkspace idx force_unhide)
    then show ?thesis by (simp add: lt_switch_workspace_def) (rule m [of "MonSwitch idx force_unhide"], simp_all)
  next
    case (DoSwitchWorkspaceAutoBackAndForth idx)
    then show ?thesis by (simp add: lt_switch_workspace_auto_back_and_forth_def) (rule m [of "MonSwitchBackAndForth idx"], simp_all)
  next
    case DoSwitchWorkspacePrevious
    then show ?thesis using m [of MonSwitchPrevious] by (simp add: lt_switch_workspace_previous_def)
  next
    case DoFocusFloating
    then show ?thesis using m [of MonFocusFloating] by (simp add: lt_focus_floating_def)
  next
    case DoFocusTiling
    then show ?thesis using m [of MonFocusTiling] by (simp add: lt_focus_tiling_def)
  next
    case DoSwitchFocusFloatingTiling
    then show ?thesis using m [of MonSwitchFocus] by (simp add: lt_switch_focus_floating_tiling_def)
  next
    case DoMoveWorkspaceDown
    then show ?thesis using m [of MonMoveWorkspaceDown] by (simp add: lt_move_workspace_down_def)
  next
    case DoMoveWorkspaceUp
    then show ?thesis using m [of MonMoveWorkspaceUp] by (simp add: lt_move_workspace_up_def)
  qed
qed

end
