(* ===== verification/LayoutKeeps.thy ===== *)
theory LayoutKeeps
  imports LayoutSteps
begin

text \<open>
  Operations that keep all windows, continued: loops over all monitors, activation, the
  operations on the workspace of a window, hiding, and the actions at the edge of an output.
\<close>

section \<open>Lists of monitors\<close>

text \<open>The same windows in workspaces with the same identity\<close>

definition ident :: "workspace \<Rightarrow> nat \<times> string option \<times> output_id list" where
  "ident ws = (ws_id ws, ws_name ws, original_outputs ws)"

definition homely :: "client_view \<Rightarrow> monitor \<Rightarrow> monitor \<Rightarrow> bool" where
  "homely cv m m' \<longleftrightarrow>
     keeps_windows cv m m' \<and> mon_output m' = mon_output m \<and> mon_base_options m' = mon_base_options m \<and>
     next_ws_id m' = next_ws_id m \<and> map ident (workspaces m') = map ident (workspaces m)"

lemma homely_refl: "mon_ok cv m \<Longrightarrow> homely cv m m"
  by (simp add: homely_def keeps_windows_def)

lemma homely_trans: "homely cv a b \<Longrightarrow> homely cv b c \<Longrightarrow> homely cv a c"
  by (simp add: homely_def keeps_windows_def)

lemma homely_rearranged:
  assumes "rearranged cv m m'" "shape True m'" "workspaces m' = workspaces m" "next_ws_id m' = next_ws_id m"
  shows "homely cv m m'"
  using assms rearranged_keeps_windows [OF assms(1,2)] by (simp add: homely_def rearranged_def steady_def)

lemma ident_sets:
  assumes "map ident wss' = map ident wss"
  shows "ws_id ` set wss' = ws_id ` set wss" "keys_of wss' = keys_of wss"
    "(\<forall>ws \<in> set wss'. P (original_outputs ws)) \<longleftrightarrow> (\<forall>ws \<in> set wss. P (original_outputs ws))"
proof -
  have s: "ident ` set wss' = ident ` set wss" using arg_cong [OF assms, of set] by simp
  have i: "ws_id = fst \<circ> ident" by (simp add: ident_def fun_eq_iff)
  show "ws_id ` set wss' = ws_id ` set wss" unfolding i image_comp [symmetric] s ..
  have k: "keys_of ws = {key. \<exists>x \<in> ident ` set ws. map_option (map ascii_lower) (fst (snd x)) = Some key}" for ws
    by (auto simp: keys_of_def name_key_def ident_def)
  show "keys_of wss' = keys_of wss" unfolding k s ..
  have o': "(\<forall>ws \<in> set xs. P (original_outputs ws)) \<longleftrightarrow> (\<forall>x \<in> ident ` set xs. P (snd (snd x)))" for xs
    by (auto simp: ident_def)
  show "(\<forall>ws \<in> set wss'. P (original_outputs ws)) \<longleftrightarrow> (\<forall>ws \<in> set wss. P (original_outputs ws))" unfolding o' s ..
qed

lemma homelyD:
  assumes "homely cv m m'"
  shows "ids_of m' = ids_of m" "names_of m' = names_of m" "mon_settled outs p k m' = mon_settled outs p k m"
    "mon_fits cv base n m \<Longrightarrow> mon_fits cv base n m'" "mon_mset m' = mon_mset m" "mon_output m' = mon_output m"
proof -
  have i: "map ident (workspaces m') = map ident (workspaces m)" using assms by (simp add: homely_def)
  show "ids_of m' = ids_of m" "names_of m' = names_of m" using ident_sets(1,2) [OF i] by (simp_all add: ids_of_def)
  show "mon_settled outs p k m' = mon_settled outs p k m" using ident_sets(3) [OF i] by (simp add: mon_settled_def)
  show "mon_fits cv base n m \<Longrightarrow> mon_fits cv base n m'" "mon_mset m' = mon_mset m" "mon_output m' = mon_output m"
    using assms by (simp_all add: homely_def mon_fits_def keeps_windows_def)
qed

lemma mons_ok_homely:
  assumes ok: "mons_ok cv base n p mons" and h: "list_all2 (homely cv) mons mons'"
  shows "mons_ok cv base n p mons'" "mons_mset mons' = mons_mset mons" "outputs_of mons' = outputs_of mons"
proof -
  have len: "length mons' = length mons" using h by (simp add: list_all2_lengthD)
  have at: "homely cv (mons ! k) (mons' ! k)" if "k < length mons" for k
    using h that by (rule list_all2_nthD)
  have map: "map f mons' = map f mons" if "\<And>k. k < length mons \<Longrightarrow> f (mons' ! k) = f (mons ! k)" for f :: "monitor \<Rightarrow> 'a"
    by (rule nth_equalityI) (use len that in simp_all)
  show outs: "outputs_of mons' = outputs_of mons" unfolding outputs_of_def by (rule map) (rule homelyD(6) [OF at])
  show "mons_mset mons' = mons_mset mons" unfolding mons_mset_def using map [of mon_mset] homelyD(5) [OF at] by simp
  have "mon_fits cv base n m" if "m \<in> set mons'" for m
  proof -
    obtain k where k: "k < length mons" "m = mons' ! k" using \<open>m \<in> set mons'\<close> len by (auto simp: in_set_conv_nth)
    then have "mon_fits cv base n (mons ! k)" using ok by (simp add: mons_ok_def)
    from homelyD(4) [OF at [OF k(1)] this] show ?thesis using k(2) by simp
  qed
  moreover have "apart mons'" using ok len homelyD(1,2) [OF at] by (simp add: mons_ok_def apart_def)
  ultimately show "mons_ok cv base n p mons'"
    using ok len homelyD(3) [OF at] by (simp add: mons_ok_def outs)
qed

lemma lt_keeps_homely:
  assumes "lt_ok cv L" "lt_set L = Normal mons p a" "list_all2 (homely cv) mons mons'"
  shows "lt_keeps cv L (L\<lparr>lt_set := Normal mons' p a\<rparr>)"
proof -
  have "L\<lparr>lt_set := Normal mons' p a\<rparr> = lt_put mons' p a (lt_next_ws_id L) L" by (simp add: lt_put_def)
  moreover have "a < length mons'" using lt_ok_NormalD(2) [OF assms(1,2)] list_all2_lengthD [OF assms(3)] by simp
  ultimately show ?thesis
    using lt_keeps_put [OF assms(1,2) mons_ok_homely(1) [OF lt_ok_NormalD(1) [OF assms(1,2)] assms(3)]]
      mons_ok_homely(2,3) [OF lt_ok_NormalD(1) [OF assms(1,2)] assms(3)] by simp
qed

lemma map_all_returns:
  "(\<And>x. x \<in> set xs \<Longrightarrow> returns (f x) (R x)) \<Longrightarrow> returns (map_all f xs) (list_all2 R xs)"
proof (induction xs)
  case (Cons x xs)
  have "returns (f x) (R x)" "returns (map_all f xs) (list_all2 R xs)" using Cons by simp_all
  then show ?case by (auto elim!: returns_mono)
qed simp

lemma mons_ok_each: "mons_ok cv base n p mons \<Longrightarrow> m \<in> set mons \<Longrightarrow> mon_ok cv m"
  by (simp add: mons_ok_def mon_fits_def)

lemma all_monitors_keep:
  assumes "lt_ok cv L" "\<And>m. m \<in> set (lt_monitors L) \<Longrightarrow> mon_ok cv m \<Longrightarrow> returns (f m) (homely cv m)"
  shows "returns (on_all_monitors f L) (lt_keeps cv L)"
proof (cases "lt_set L")
  case (Normal mons p a)
  have "returns (map_all f mons) (list_all2 (homely cv) mons)"
    using assms(2) mons_ok_each [OF lt_ok_NormalD(1) [OF assms(1) Normal]]
    by (intro map_all_returns) (simp add: lt_monitors_def Normal)
  with lt_keeps_homely [OF assms(1) Normal] show ?thesis
    by (auto simp: on_all_monitors_def Normal elim!: returns_mono)
next
  case (NoOutputs wss)
  with lt_keeps_refl [OF assms(1)] show ?thesis by (simp add: on_all_monitors_def)
qed

lemma first_monitor_returns:
  assumes "\<And>m. m \<in> set mons \<Longrightarrow> mon_ok cv m" "\<And>m. mon_ok cv m \<Longrightarrow> returns (f m) (\<lambda>(m', x). homely cv m m')"
  shows "returns (first_monitor f hit mons) (\<lambda>(mons', found). list_all2 (homely cv) mons mons')"
  using assms(1)
proof (induction mons)
  case (Cons m mons)
  have "mon_ok cv m" using Cons.prems by simp
  from assms(2) [OF this] obtain m' x where m': "f m = Some (m', x)" "homely cv m m'" by (auto elim!: returnsE)
  have "list_all2 (homely cv) mons mons" using Cons.prems homely_refl by (simp add: list_all2_same)
  with m' Cons show ?case by (auto elim!: returns_mono)
qed simp

section \<open>Swipes\<close>

lemma swipe_homely:
  assumes "mon_ok cv m"
  shows "homely cv m (workspace_switch_gesture_begin pos touchpad m)"
    "homely cv m (fst (workspace_switch_gesture_update pos touchpad m))"
    "returns (workspace_switch_gesture_end tp pos m) (\<lambda>(m', b). homely cv m m')"
    "returns (dnd_scroll_gesture_end pos m) (homely cv m)"
    "0 \<le> pos \<Longrightarrow> pos \<le> real (visible_workspace_count m) \<Longrightarrow> homely cv m (dnd_scroll_gesture_begin pos m)"
proof -
  have ok: "content_ok cv m" "shape True m" using assms by (simp_all add: mon_ok_def)
  note g = gesture_returns [OF ok] and e = gesture_end_returns [OF ok]
  show "homely cv m (workspace_switch_gesture_begin pos touchpad m)"
    by (rule homely_rearranged) (use g(1) in \<open>auto simp: workspace_switch_gesture_begin_def\<close>)
  show "homely cv m (fst (workspace_switch_gesture_update pos touchpad m))"
    by (rule homely_rearranged)
      (use g(3) in \<open>auto simp: workspace_switch_gesture_update_def split: option.split switch_state.split\<close>)
  have same: "workspace_switch_gesture_end tp pos m = Some (m', b) \<Longrightarrow> workspaces m' = workspaces m \<and> next_ws_id m' = next_ws_id m"
    for tp m' b
    by (auto simp: workspace_switch_gesture_end_def Let_def bind_eq_Some_conv split: option.splits switch_state.splits if_splits prod.splits)
  from e(1) [of tp pos] show "returns (workspace_switch_gesture_end tp pos m) (\<lambda>(m', b). homely cv m m')"
    by (auto simp: same intro!: homely_rearranged elim!: returnsE)
  have "dnd_scroll_gesture_end pos m = Some m' \<Longrightarrow> workspaces m' = workspaces m \<and> next_ws_id m' = next_ws_id m" for m'
    using same by (auto simp: dnd_scroll_gesture_end_def split: option.splits switch_state.splits if_splits)
  with e(3) [of pos] show "returns (dnd_scroll_gesture_end pos m) (homely cv m)"
    by (auto intro!: homely_rearranged elim!: returnsE)
  assume p: "0 \<le> pos" "pos \<le> real (visible_workspace_count m)"
  show "homely cv m (dnd_scroll_gesture_begin pos m)"
    by (rule homely_rearranged)
      (use g(2) [OF p(1)] p(2) visible_count [OF looseD(1) [OF shape_loose [OF ok(2)]]] in
        \<open>auto simp: dnd_scroll_gesture_begin_def\<close>)
qed

lemma swipes_keep:
  assumes ok: "lt_ok cv L"
  shows "lt_monitors L \<noteq> [] \<Longrightarrow> returns (lt_workspace_switch_gesture_begin pos out touchpad L) (lt_keeps cv L)"
    "returns (lt_workspace_switch_gesture_update pos touchpad L) (\<lambda>(x, L'). lt_keeps cv L L')"
    "returns (lt_workspace_switch_gesture_end pos tp L) (\<lambda>(x, L'). lt_keeps cv L L')"
    "returns (end_scroll_gestures pos L) (lt_keeps cv L)"
proof -
  have "returns (map_option fst (workspace_switch_gesture_end None pos m)) (homely cv m)" if "mon_ok cv m" for m pos
    using swipe_homely(3) [OF that, of None pos] by (auto elim!: returns_mono)
  then show "lt_monitors L \<noteq> [] \<Longrightarrow> returns (lt_workspace_switch_gesture_begin pos out touchpad L) (lt_keeps cv L)"
    using all_monitors_keep [OF ok] swipe_homely(1)
    by (auto simp: lt_workspace_switch_gesture_begin_def lt_monitors_def split: monitor_set.splits)
  show "returns (end_scroll_gestures pos L) (lt_keeps cv L)"
    unfolding end_scroll_gestures_def by (rule all_monitors_keep [OF ok]) (rule swipe_homely(4))
  have first: "returns (on_first_monitor f hit L) (\<lambda>(found, L'). lt_keeps cv L L')"
    if f: "\<And>m. mon_ok cv m \<Longrightarrow> returns (f m) (\<lambda>(m', x). homely cv m m')" for f :: "monitor \<Rightarrow> (monitor \<times> 'b) option" and hit
  proof (cases "lt_set L")
    case (Normal mons p a)
    from first_monitor_returns [OF mons_ok_each [OF lt_ok_NormalD(1) [OF ok Normal]] f, where hit = hit]
    have "returns (first_monitor f hit mons) (\<lambda>(mons', found). list_all2 (homely cv) mons mons')" by simp
    then show ?thesis using lt_keeps_homely [OF ok Normal]
      by (auto simp: on_first_monitor_def Normal elim!: returns_mono)
  next
    case (NoOutputs wss)
    with lt_keeps_refl [OF ok] show ?thesis by (simp add: on_first_monitor_def)
  qed
  have "returns (Some (workspace_switch_gesture_update pos touchpad m)) (\<lambda>(m', x). homely cv m m')" if "mon_ok cv m" for m pos
    using swipe_homely(2) [OF that, of pos touchpad] by (simp add: case_prod_unfold)
  from first [OF this] show "returns (lt_workspace_switch_gesture_update pos touchpad L) (\<lambda>(x, L'). lt_keeps cv L L')"
    by (auto simp: lt_workspace_switch_gesture_update_def case_prod_unfold elim!: returns_mono)
  from first [OF swipe_homely(3)] show "returns (lt_workspace_switch_gesture_end pos tp L) (\<lambda>(x, L'). lt_keeps cv L L')"
    by (auto simp: lt_workspace_switch_gesture_end_def case_prod_unfold elim!: returns_mono)
qed

section \<open>The workspace of a window\<close>

lemma position_in_workspaces:
  "position (in_workspaces w) mons = Some k \<Longrightarrow> k < length mons \<and> (\<exists>idx. position (ws_has_window w) (workspaces (mons ! k)) = Some idx)"
  using position_SomeD [of "in_workspaces w" mons k] position_None [of "ws_has_window w" "workspaces (mons ! k)"]
  by (auto simp: in_workspaces_def list_ex_iff)

lemma position_window:
  "position (ws_has_window w) wss = Some idx \<Longrightarrow> idx < length wss \<and> w \<in> set (ws_windows (wss ! idx))"
  using position_SomeD [of "ws_has_window w" wss idx] by (simp add: ws_has_window_def)

lemma map_filter_as_map: "List.map_filter f xs = List.map_filter id (map f xs)"
  by (simp add: List.map_filter_def filter_map comp_def)

lemma arriving_update:
  assumes ok: "arriving_ok cv n wss" and i: "i < length wss" and k: "ws_keeps cv (wss ! i) ws"
  shows "arriving_ok cv n (wss[i := ws])" "mset (concat (map ws_windows (wss[i := ws]))) = mset (concat (map ws_windows wss))"
    "base_options ws = base_options (wss ! i)"
proof -
  have ws: "ws_ok cv ws" "ws_mset ws = ws_mset (wss ! i)" "ws_frame (wss ! i) ws" using k by (simp_all add: ws_keeps_def)
  note f = ws_frameD [OF ws(3)]
  show "base_options ws = base_options (wss ! i)" by (rule f)
  have same: "map g (wss[i := ws]) = map g wss" if "g ws = g (wss ! i)" for g :: "workspace \<Rightarrow> 'a"
    using that i by (metis list_update_id map_update)
  have names: "List.map_filter ws_name (wss[i := ws]) = List.map_filter ws_name wss"
    using same [of ws_name] f(2) by (simp add: map_filter_as_map [of ws_name])
  show w: "mset (concat (map ws_windows (wss[i := ws]))) = mset (concat (map ws_windows wss))"
    using same [of ws_mset] ws(2) by (simp add: windows_list [symmetric] flip: mset_map)
  have "distinct (concat (map ws_windows (wss[i := ws])))"
    using ok w mset_eq_imp_distinct_iff by (auto simp: arriving_ok_def)
  moreover have "has_windows_or_name ws = has_windows_or_name (wss ! i)" using ws(2) f(2) by (simp add: has_windows_or_name_iff)
  moreover have "x = ws \<or> x \<in> set wss" if "x \<in> set (wss[i := ws])" for x
    using that set_update_subset_insert [of wss i ws] by blast
  moreover have "wss ! i \<in> set wss" using i by simp
  ultimately show "arriving_ok cv n (wss[i := ws])"
    using ok same [of ws_id] f ws(1) names unfolding arriving_ok_def by metis
qed

lemma lt_keeps_NoOutputs:
  assumes ok: "lt_ok cv L" "lt_set L = NoOutputs wss" and i: "i < length wss" and k: "ws_keeps cv (wss ! i) ws"
  shows "lt_keeps cv L (L\<lparr>lt_set := NoOutputs (wss[i := ws])\<rparr>)"
proof -
  note n = lt_ok_NoOutputsD [OF ok]
  note a = arriving_update [OF n(1) i k]
  have "\<forall>ws \<in> set (wss[i := ws]). base_options ws = lt_options L"
    using n(2) a(3) i set_update_subset_insert [of wss i ws] by fastforce
  then show ?thesis using ok n(3,4) a(1,2)
    by (simp add: lt_keeps_def lt_ok_def lt_mset_def placed_mset_def moved_mset_def moving_data_def lt_monitors_def)
qed

lemma workspace_of_keeps:
  assumes ok: "lt_ok cv L" and f: "\<And>ws. ws_ok cv ws \<Longrightarrow> w \<in> set (ws_windows ws) \<Longrightarrow> returns (f ws) (ws_keeps cv ws)"
  shows "returns (on_workspace_of w f L) (lt_keeps cv L)"
proof (cases "lt_set L")
  case (Normal mons p a)
  show ?thesis
  proof (cases "position (in_workspaces w) mons")
    case None
    with lt_keeps_refl [OF ok] show ?thesis by (simp add: on_workspace_of_def Normal)
  next
    case (Some k)
    from position_in_workspaces [OF this] obtain idx where k: "k < length mons"
      "position (ws_has_window w) (workspaces (mons ! k)) = Some idx" by blast
    have "returns (change_monitor k (\<lambda>m. do { idx \<leftarrow> position (ws_has_window w) (workspaces m); on_workspace idx f m }) L) (lt_keeps cv L)"
    proof (rule keep_change_monitor [OF ok Normal k(1)])
      fix m assume m: "m = at_counter (lt_next_ws_id L) (mons ! k)" "mon_ok cv m"
      have p: "position (ws_has_window w) (workspaces m) = Some idx" using k(2) by (simp add: m(1))
      note i = position_window [OF p]
      have "ws_ok cv (workspaces m ! idx)" using ws_ok_of m(2) i by (auto simp: mon_ok_def)
      with f i have "returns (f (workspaces m ! idx)) (ws_keeps cv (workspaces m ! idx))" by blast
      with on_workspace_framed [where f = f, OF m(2)] i have "keeps_framed cv (on_workspace idx f) m" by blast
      then show "keeps_framed cv (\<lambda>m. do { idx \<leftarrow> position (ws_has_window w) (workspaces m); on_workspace idx f m }) m"
        using p by (simp add: keeps_framed_def)
    qed
    then show ?thesis by (simp add: on_workspace_of_def Normal Some)
  qed
next
  case (NoOutputs wss)
  show ?thesis
  proof (cases "position (ws_has_window w) wss")
    case None
    with lt_keeps_refl [OF ok] show ?thesis by (simp add: on_workspace_of_def NoOutputs)
  next
    case (Some idx)
    note i = position_window [OF Some]
    have "ws_ok cv (wss ! idx)" using lt_ok_NoOutputsD(1) [OF ok NoOutputs] i by (simp add: arriving_ok_def)
    with f i have "returns (f (wss ! idx)) (ws_keeps cv (wss ! idx))" by blast
    with i lt_keeps_NoOutputs [OF ok NoOutputs, of idx] show ?thesis
      by (auto simp: on_workspace_of_def NoOutputs Some elim!: returns_mono)
  qed
qed

lemma window_workspace_keeps:
  assumes cv: "parents_acyclic cv" and ok: "lt_ok cv L"
    and f: "\<And>ws. ws_ok cv ws \<Longrightarrow> in_workspace window ws \<Longrightarrow> returns (f ws) (ws_keeps cv ws)"
  shows "returns (on_window_workspace window f L) (lt_keeps cv L)"
proof (cases window)
  case None
  with focused_keeps [OF cv ok, of f] f lt_keeps_refl [OF ok] show ?thesis
    by (simp add: on_window_workspace_def in_workspace_def)
next
  case (Some w)
  with workspace_of_keeps [OF ok, of w f] f lt_keeps_refl [OF ok] show ?thesis
    by (simp add: on_window_workspace_def in_workspace_def)
qed

text \<open>The operations on a window, named or focused\<close>

lemma window_ops_keep:
  assumes cv: "parents_acyclic cv" and ok: "lt_ok cv L"
  shows "returns (lt_consume_or_expel_window_left window L) (lt_keeps cv L)"
    "returns (lt_consume_or_expel_window_right window L) (lt_keeps cv L)"
    "returns (on_window_workspace window (toggle_window_floating cv window) L) (lt_keeps cv L)"
    "returns (on_window_workspace window (set_window_floating cv window b) L) (lt_keeps cv L)"
proof -
  have f: "returns (on_window_workspace window f L) (lt_keeps cv L)"
    if "keeping op" "\<And>ws. ws_exec cv op ws = f ws" "\<And>ws. in_workspace window ws \<Longrightarrow> ws_enabled op ws" for op f
    by (rule window_workspace_keeps [OF cv ok]) (use ws_step_keeps [OF cv _ that(1)] that(2,3) in auto)
  show "returns (lt_consume_or_expel_window_left window L) (lt_keeps cv L)"
    unfolding lt_consume_or_expel_window_left_def by (rule f [of "WsConsumeOrExpelLeft window"]) simp_all
  show "returns (lt_consume_or_expel_window_right window L) (lt_keeps cv L)"
    unfolding lt_consume_or_expel_window_right_def by (rule f [of "WsConsumeOrExpelRight window"]) simp_all
  show "returns (on_window_workspace window (toggle_window_floating cv window) L) (lt_keeps cv L)"
    by (rule f [of "WsToggleFloating window"]) simp_all
  show "returns (on_window_workspace window (set_window_floating cv window b) L) (lt_keeps cv L)"
    by (rule f [of "WsSetFloating window b"]) simp_all
qed

lemma sizing_ops_keep:
  assumes cv: "parents_acyclic cv" and ok: "lt_ok cv L"
  shows "returns (on_workspace_of w (ws_set_fullscreen cv w b) L) (lt_keeps cv L)"
    "returns (on_workspace_of w (toggle_fullscreen cv w) L) (lt_keeps cv L)"
    "returns (on_workspace_of w (ws_set_maximized cv w b) L) (lt_keeps cv L)"
    "returns (on_workspace_of w (toggle_maximized cv w) L) (lt_keeps cv L)"
proof -
  have f: "returns (on_workspace_of w f L) (lt_keeps cv L)"
    if "keeping op" "\<And>ws. ws_exec cv op ws = f ws" "\<And>ws. w \<in> set (ws_windows ws) \<Longrightarrow> ws_enabled op ws" for op f
    by (rule workspace_of_keeps [OF ok]) (use ws_step_keeps [OF cv _ that(1)] that(2,3) in auto)
  show "returns (on_workspace_of w (ws_set_fullscreen cv w b) L) (lt_keeps cv L)"
    by (rule f [of "WsSetFullscreen w b"]) simp_all
  show "returns (on_workspace_of w (toggle_fullscreen cv w) L) (lt_keeps cv L)"
    by (rule f [of "WsToggleFullscreen w"]) simp_all
  show "returns (on_workspace_of w (ws_set_maximized cv w b) L) (lt_keeps cv L)"
    by (rule f [of "WsSetMaximized w b"]) simp_all
  show "returns (on_workspace_of w (toggle_maximized cv w) L) (lt_keeps cv L)"
    by (rule f [of "WsToggleMaximized w"]) simp_all
qed

lemma lt_sizing_keep:
  assumes "parents_acyclic cv" "lt_ok cv L"
  shows "returns (lt_set_fullscreen cv w b L) (lt_keeps cv L)" "returns (lt_toggle_fullscreen cv w L) (lt_keeps cv L)"
    "returns (lt_set_maximized cv w b L) (lt_keeps cv L)" "returns (lt_toggle_maximized cv w L) (lt_keeps cv L)"
  using sizing_ops_keep [OF assms] lt_keeps_refl [OF assms(2)]
  by (simp_all add: lt_set_fullscreen_def lt_toggle_fullscreen_def lt_set_maximized_def lt_toggle_maximized_def)

end
