(* ===== verification/LayoutFocus.thy ===== *)
theory LayoutFocus
  imports LayoutKeeps
begin

text \<open>
  Operations that keep all windows, continued: activation, the focus between outputs, moves
  within a monitor, the overview, hiding and names.
\<close>

section \<open>Activation\<close>

lemma keeps_framed_cong: "f m = g m \<Longrightarrow> keeps_framed cv f m = keeps_framed cv g m"
  by (simp add: keeps_framed_def)

lemma keeps_framed_refl: "mon_ok cv m \<Longrightarrow> f m = Some m \<Longrightarrow> keeps_framed cv f m"
  by (simp add: keeps_framed_def keeps_windows_def)

lemma lt_keeps_length: "lt_keeps cv L L' \<Longrightarrow> length (lt_monitors L') = length (lt_monitors L)"
  by (metis length_map lt_keeps_def outputs_of_def)

lemma lt_keepsD: "lt_keeps cv L L' \<Longrightarrow> lt_ok cv L'"
  by (simp add: lt_keeps_def)

lemma lt_keeps_after: "lt_keeps cv L L' \<Longrightarrow> returns r (lt_keeps cv L') \<Longrightarrow> returns r (lt_keeps cv L)"
  by (auto intro: lt_keeps_trans elim!: returns_mono)

lemma switch_keeps: "lt_ok cv L \<Longrightarrow> k < length (lt_monitors L) \<Longrightarrow> lt_keeps cv L (switch_active_monitor k L)"
  using lt_keeps_switch by (cases "lt_set L") (auto simp: lt_monitors_def)

lemma switch_keeps_after:
  "lt_keeps cv L L' \<Longrightarrow> k < length (lt_monitors L) \<Longrightarrow> lt_keeps cv L (switch_active_monitor k L')"
  by (metis lt_keepsD lt_keeps_length lt_keeps_trans switch_keeps)

lemma activate_in_monitor_framed:
  assumes cv: "parents_acyclic cv" and ok: "mon_ok cv m" and w: "in_workspaces w m"
    and act: "\<And>ws. ws_ok cv ws \<Longrightarrow> returns (act ws) (\<lambda>(ws', b). ws_keeps cv ws ws')"
  shows "keeps_framed cv (activate_in_monitor act w) m"
proof -
  from w obtain idx where idx: "position (ws_has_window w) (workspaces m) = Some idx"
    using position_None [of "ws_has_window w" "workspaces m"] by (auto simp: in_workspaces_def list_ex_iff)
  note i = position_window [OF idx]
  let ?f = "\<lambda>ws. map_option fst (act ws)"
  let ?go = "\<lambda>m. case workspace_switch m of
      Some (SwitchGesture g) \<Rightarrow>
        if \<lfloor>sg_current_idx g\<rfloor> = int idx \<or> \<lceil>sg_current_idx g\<rceil> = int idx then Some m else switch_workspace idx False m
    | _ \<Rightarrow> switch_workspace idx False m"
  have "ws_ok cv (workspaces m ! idx)" using ws_ok_of ok i by (auto simp: mon_ok_def)
  then have "returns (?f (workspaces m ! idx)) (ws_keeps cv (workspaces m ! idx))"
    using act by (fastforce elim!: returns_mono)
  with on_workspace_framed [where f = ?f, OF ok] i have a: "keeps_framed cv (on_workspace idx ?f) m" by blast
  have go: "keeps_framed cv ?go m'" if ok': "mon_ok cv m'" for m'
  proof -
    have "keeps_framed cv (switch_workspace idx False) m'"
      using mon_exec_framed [OF cv ok', of "MonSwitch idx False"] by (simp add: keeps_framed_def)
    with keeps_framed_refl [OF ok', of Some] show ?thesis
      by (auto simp: keeps_framed_def split: option.split switch_state.split)
  qed
  have "keeps_framed cv (\<lambda>m. Option.bind (on_workspace idx ?f m) (\<lambda>m. Option.bind (Some (focus_workspace m)) ?go)) m"
    by (intro keeps_framed_bind [OF a] keeps_framed_bind [OF focus_workspace_framed [OF cv]] go)
  moreover have "activate_in_monitor act w m =
      Option.bind (on_workspace idx ?f m) (\<lambda>m. Option.bind (Some (focus_workspace m)) ?go)"
    using idx i by (cases "act (workspaces m ! idx)")
      (simp_all add: activate_in_monitor_def on_workspace_def case_prod_unfold Let_def)
  ultimately show ?thesis by (simp add: keeps_framed_def)
qed

lemma activate_with_keeps:
  assumes cv: "parents_acyclic cv" and ok: "lt_ok cv L"
    and st: "\<And>m. mon_ok cv m \<Longrightarrow> returns (act_sticky m) (\<lambda>(m', b). keeps_windows cv m m')"
      "\<And>fr m m' b. stays fr m \<Longrightarrow> act_sticky m = Some (m', b) \<Longrightarrow> stays fr m'"
    and act: "\<And>ws. ws_ok cv ws \<Longrightarrow> returns (act ws) (\<lambda>(ws', b). ws_keeps cv ws ws')"
  shows "returns (activate_with act_sticky act w L) (lt_keeps cv L)"
proof (cases "lt_set L")
  case (NoOutputs wss)
  with lt_keeps_refl [OF ok] show ?thesis by (simp add: activate_with_def)
next
  case (Normal mons p a)
  have len: "length (lt_monitors L) = length mons" by (simp add: lt_monitors_def Normal)
  show ?thesis
  proof (cases "position (sticky_has_window w) mons")
    case (Some k)
    then have k: "k < length mons" using position_SomeD by blast
    let ?f = "\<lambda>m. map_option prod.swap (act_sticky m)"
    have "returns (on_monitor k ?f L) (\<lambda>(x, L'). lt_keeps cv L L' \<and>
        (\<exists>m'. L' = lt_put (mons[k := m']) p a (next_ws_id m') L \<and> True))"
      by (rule keep_on_monitor [OF ok Normal k])
        (use st(1) [OF mons_ok_nth(1) [OF lt_ok_NormalD(1) [OF ok Normal] k]] st(2) in \<open>auto elim!: returns_mono\<close>)
    then have "returns (on_monitor k ?f L) (\<lambda>(x, L'). lt_keeps cv L L')" by (auto elim!: returns_mono)
    then show ?thesis using lt_keeps_refl [OF ok] switch_keeps_after k len
      by (auto simp: activate_with_def Normal Some elim!: returns_mono)
  next
    case None
    show ?thesis
    proof (cases "position (in_workspaces w) mons")
      case None': None
      with None lt_keeps_refl [OF ok] show ?thesis by (simp add: activate_with_def Normal)
    next
      case (Some k)
      then have k: "k < length mons" "in_workspaces w (mons ! k)" using position_SomeD by blast+
      have "in_workspaces w (at_counter n (mons ! k))" for n using k(2) by (simp add: in_workspaces_def)
      then have "returns (change_monitor k (activate_in_monitor act w) L) (lt_keeps cv L)"
        by (intro keep_change_monitor [OF ok Normal k(1)]) (simp add: activate_in_monitor_framed [OF cv _ _ act])
      then show ?thesis using None Some lt_keeps_refl [OF ok] switch_keeps_after k(1) len
        by (auto simp: activate_with_def Normal elim!: returns_mono)
    qed
  qed
qed

lemma lt_activate_keeps:
  assumes cv: "parents_acyclic cv" and ok: "lt_ok cv L"
  shows "returns (lt_activate_window cv w L) (lt_keeps cv L)"
    "returns (lt_activate_window_without_raising w L) (lt_keeps cv L)"
proof -
  have s: "stays fr m'" if "stays fr m" "activate_sticky_window cv w m = Some (m', b)" for fr m m' b
    using that by (auto simp: activate_sticky_window_def bind_eq_Some_conv split: if_splits prod.splits)
  have s': "stays fr m'" if "stays fr m" "Some (activate_sticky_window_without_raising w m) = Some (m', b)" for fr m m' b
    using that by (auto simp: activate_sticky_window_without_raising_def split: if_splits prod.splits bool.splits)
  show "returns (lt_activate_window cv w L) (lt_keeps cv L)"
    unfolding lt_activate_window_def
  proof (rule activate_with_keeps [OF cv ok _ s])
    show "mon_ok cv m \<Longrightarrow> returns (activate_sticky_window cv w m) (\<lambda>(m', b). keeps_windows cv m m')" for m
      using sticky_ops_keep(1) [OF cv, of m w] by (auto elim!: returns_mono)
    show "ws_ok cv ws \<Longrightarrow> returns (ws_activate_window cv w ws) (\<lambda>(ws', b). ws_keeps cv ws ws')" for ws
      using ws_activate_window_returns [OF cv, of ws w] by (auto elim!: returns_mono)
  qed
  show "returns (lt_activate_window_without_raising w L) (lt_keeps cv L)"
    unfolding lt_activate_window_without_raising_def
  proof (rule activate_with_keeps [OF cv ok _ s'])
    show "mon_ok cv m \<Longrightarrow> returns (Some (activate_sticky_window_without_raising w m)) (\<lambda>(m', b). keeps_windows cv m m')" for m
      using sticky_ops_keep(2) [OF cv, of m w] by (simp add: case_prod_unfold)
    show "ws_ok cv ws \<Longrightarrow> returns (ws_activate_window_without_raising w ws) (\<lambda>(ws', b). ws_keeps cv ws ws')" for ws
      using ws_activate_without_raising_keeps [of cv ws w] by (auto elim!: returns_mono)
  qed
qed

section \<open>Between outputs\<close>

lemma focus_output_keeps: "lt_ok cv L \<Longrightarrow> lt_keeps cv L (focus_output out L)"
  using switch_keeps lt_keeps_refl
  by (auto simp: focus_output_def monitor_of_output_def dest!: position_SomeD split: option.split)

lemma focused_did_keeps:
  assumes cv: "parents_acyclic cv" and ok: "lt_ok cv L"
    and f: "\<And>ws. ws_ok cv ws \<Longrightarrow> returns (f ws) (\<lambda>(ws', b). ws_keeps cv ws ws')"
  shows "returns (focused_did f L) (\<lambda>(did, L'). lt_keeps cv L L')"
proof (cases "lt_set L")
  case (NoOutputs wss)
  with lt_keeps_refl [OF ok] show ?thesis by (simp add: focused_did_def)
next
  case (Normal mons p a)
  let ?f = "\<lambda>m. do {
      let m = focus_workspace m;
      ws \<leftarrow> active_workspace m;
      (ws, did) \<leftarrow> f ws;
      Some (did, set_workspace (active_workspace_idx m) ws m)
    }"
  let ?g = "\<lambda>ws. map_option fst (f ws)"
  let ?m = "at_counter (lt_next_ws_id L) (mons ! a)"
  note n = lt_ok_NormalD [OF ok Normal]
  have okm: "mon_ok cv ?m" by (rule mons_ok_nth(1) [OF n(1,2)])
  have same: "map_option snd (?f m) = on_active_workspace ?g (focus_workspace m)" for m
  proof (cases "active_workspace (focus_workspace m)")
    case (Some ws)
    then show ?thesis
      by (cases "f ws") (simp_all add: on_active_workspace_def on_workspace_def active_workspace_def case_prod_unfold Let_def)
  qed (simp add: on_active_workspace_def on_workspace_def active_workspace_def)
  have "keeps_framed cv (\<lambda>m. on_active_workspace ?g (focus_workspace m)) ?m"
    by (rule focused_framed [OF cv okm]) (use f in \<open>fastforce elim!: returns_mono\<close>)
  then have k: "returns (map_option snd (?f ?m)) (keeps_windows cv ?m)"
    "\<And>fr m'. stays fr ?m \<Longrightarrow> map_option snd (?f ?m) = Some m' \<Longrightarrow> stays fr m'"
    by (simp_all only: keeps_framed_def same)
  have "returns (on_monitor a ?f L) (\<lambda>(x, L'). lt_keeps cv L L' \<and>
      (\<exists>m'. L' = lt_put (mons[a := m']) p a (next_ws_id m') L \<and> True))"
  proof (rule keep_on_monitor [OF ok Normal n(2)])
    show "returns (?f ?m) (\<lambda>(x, m'). keeps_windows cv ?m m' \<and> True)"
      using k(1) by (simp only: returns_map_option case_prod_unfold simp_thms)
    show "stays fr m'" if "stays fr ?m" "?f ?m = Some (x, m')" for fr x m'
      by (rule k(2) [OF that(1)]) (simp only: that(2) option.map snd_conv)
  qed
  then show ?thesis by (auto simp: focused_did_def Normal elim!: returns_mono)
qed

lemma edge_actions_keep:
  assumes cv: "parents_acyclic cv" and ok: "lt_ok cv L"
  shows "returns (lt_focus_window_up_or_output cv out L) (\<lambda>(b, L'). lt_keeps cv L L')"
    "returns (lt_focus_window_down_or_output cv out L) (\<lambda>(b, L'). lt_keeps cv L L')"
    "returns (lt_focus_column_left_or_output cv out L) (\<lambda>(b, L'). lt_keeps cv L L')"
    "returns (lt_focus_column_right_or_output cv out L) (\<lambda>(b, L'). lt_keeps cv L L')"
proof -
  have e: "returns (focus_or_output f out L) (\<lambda>(b, L'). lt_keeps cv L L')"
    if f: "\<And>ws. ws_ok cv ws \<Longrightarrow> returns (f ws) (\<lambda>(ws', b). ws_keeps cv ws ws')" for f
    using focused_did_keeps [OF cv ok f] focus_output_keeps lt_keepsD lt_keeps_trans
    by (fastforce simp: focus_or_output_def elim!: returns_mono)
  show "returns (lt_focus_window_up_or_output cv out L) (\<lambda>(b, L'). lt_keeps cv L L')"
    "returns (lt_focus_window_down_or_output cv out L) (\<lambda>(b, L'). lt_keeps cv L L')"
    "returns (lt_focus_column_left_or_output cv out L) (\<lambda>(b, L'). lt_keeps cv L L')"
    "returns (lt_focus_column_right_or_output cv out L) (\<lambda>(b, L'). lt_keeps cv L L')"
    unfolding lt_focus_window_up_or_output_def lt_focus_window_down_or_output_def
      lt_focus_column_left_or_output_def lt_focus_column_right_or_output_def
    by (rule e, rule ws_focus_keeps [OF cv], assumption)+
qed

section \<open>Within a monitor\<close>

lemma lt_move_to_workspace_keeps:
  assumes cv: "parents_acyclic cv" and ok: "lt_ok cv L"
  shows "returns (lt_move_to_workspace_up cv b L) (lt_keeps cv L)"
    "returns (lt_move_to_workspace_down cv b L) (lt_keeps cv L)"
proof -
  note m = active_monitor_keeps [OF cv ok] and refl = lt_keeps_refl [OF ok]
  show "returns (lt_move_to_workspace_up cv b L) (lt_keeps cv L)"
    using refl by (auto simp: lt_move_to_workspace_up_def intro!: m [of "MonMoveToWorkspaceUp (if b then ActivateSmart else ActivateNo)"])
  show "returns (lt_move_to_workspace_down cv b L) (lt_keeps cv L)"
    using refl by (auto simp: lt_move_to_workspace_down_def intro!: m [of "MonMoveToWorkspaceDown (if b then ActivateSmart else ActivateNo)"])
qed

text \<open>A window that the layout has and that is neither dragged nor sticky is in a workspace\<close>

lemma placed_in_workspace:
  assumes "lt_has_window w L" "\<not> is_moved w L" "\<not> is_sticky_window w L" "lt_set L = Normal mons p a"
  shows "list_ex (in_workspaces w) mons"
  using assms
  by (auto simp: lt_has_window_def lt_windows_def is_moved_def is_sticky_window_def lt_monitors_def lt_workspaces_def
      list_ex_iff sticky_has_window_def fl_has_window_def in_workspaces_def ws_has_window_def split: option.splits)

lemma lt_move_window_keeps:
  assumes cv: "parents_acyclic cv" and ok: "lt_ok cv L"
    and w: "\<And>w. window = Some w \<Longrightarrow> lt_has_window w L"
  shows "returns (lt_move_to_workspace cv window idx activate hidden L) (lt_keeps cv L)"
proof (cases window)
  case None
  with lt_keeps_refl [OF ok] active_monitor_keeps [OF cv ok, of "MonMoveToWorkspace None idx activate hidden"] show ?thesis
    by (auto simp: lt_move_to_workspace_def)
next
  case (Some w)
  show ?thesis
  proof (cases "drag_captures window L \<or> is_sticky_window w L \<or> (\<exists>wss. lt_set L = NoOutputs wss)")
    case True
    with Some lt_keeps_refl [OF ok] show ?thesis by (auto simp: lt_move_to_workspace_def split: monitor_set.split)
  next
    case False
    then obtain mons p a where L: "lt_set L = Normal mons p a" by (cases "lt_set L") auto
    have moved: "\<not> is_moved w L" using False Some by (auto simp: drag_captures_def is_moved_def split: option.splits)
    have st: "\<not> sticky_has_window w m" if "m \<in> set mons" for m
      using False that by (auto simp: is_sticky_window_def lt_monitors_def L list_ex_iff)
    have eq: "w \<in> set (mon_windows m) \<longleftrightarrow> in_workspaces w m" if "m \<in> set mons" for m
      using st [OF that] by (auto simp: sticky_has_window_def fl_has_window_def mon_windows_def in_workspaces_def
          list_ex_iff ws_has_window_def)
    have "list_ex (in_workspaces w) mons" using placed_in_workspace [OF w [OF Some] moved _ L] False by blast
    then obtain k where k: "position (\<lambda>m. w \<in> set (mon_windows m)) mons = Some k"
      using position_None [of "\<lambda>m. w \<in> set (mon_windows m)" mons] eq by (auto simp: list_ex_iff)
    then have k': "k < length mons" "in_workspaces w (mons ! k)" using position_SomeD [OF k] eq by auto
    have "returns (change_monitor k (move_to_workspace cv (Some w) idx activate hidden) L) (lt_keeps cv L)"
    proof (rule keep_change_monitor [OF ok L k'(1)])
      fix m assume m: "m = at_counter (lt_next_ws_id L) (mons ! k)" "mon_ok cv m"
      have "mon_enabled (MonMoveToWorkspace (Some w) idx activate hidden) m" using k'(2) m(1) by (simp add: in_workspaces_def)
      from mon_exec_framed [OF cv m(2) this] show "keeps_framed cv (move_to_workspace cv (Some w) idx activate hidden) m"
        by (simp add: keeps_framed_def)
    qed
    with False Some k L show ?thesis by (simp add: lt_move_to_workspace_def)
  qed
qed

lemma monitor_op_keeps:
  assumes cv: "parents_acyclic cv" and ok: "lt_ok cv L" and k: "lt_set L = Normal mons p a" "k < length mons"
    and op: "stays_home op" "\<And>m. mon_enabled op m" "\<And>m. mon_exec cv op m = f m"
  shows "returns (change_monitor k f L) (lt_keeps cv L)"
proof -
  have "f = mon_exec cv op" using op(3) by (simp add: fun_eq_iff)
  then show ?thesis by (intro keep_change_monitor [OF ok k]) (simp add: mon_exec_framed [OF cv _ op(2,1)])
qed

lemma lt_move_workspace_keeps:
  assumes cv: "parents_acyclic cv" and ok: "lt_ok cv L"
  shows "returns (lt_move_workspace_to_idx ref new_idx L) (lt_keeps cv L)"
proof -
  have act: "returns (on_active_monitor (\<lambda>m. move_workspace_to_idx (i m) new_idx m) L) (lt_keeps cv L)" for i
    by (rule keep_active_monitor [OF ok])
      (use mon_exec_framed [OF cv, of _ "MonMoveWorkspaceToIdx _ new_idx"] in \<open>simp add: keeps_framed_def\<close>)
  show ?thesis
  proof (cases ref)
    case None
    with act show ?thesis by (simp add: lt_move_workspace_to_idx_def)
  next
    case (Some r)
    then obtain o' i where r: "ref = Some (o', i)" by (cases r) simp
    show ?thesis
    proof (cases o')
      case None
      with r act [of "\<lambda>_. i"] show ?thesis by (simp add: lt_move_workspace_to_idx_def)
    next
      case (Some out)
      have "returns (change_monitor k (move_workspace_to_idx i new_idx) L) (lt_keeps cv L)"
        if "monitor_of_output out (lt_monitors L) = Some k" for k
      proof -
        from that have "k < length (lt_monitors L)" using position_SomeD by (auto simp: monitor_of_output_def)
        then obtain mons p a where "lt_set L = Normal mons p a" "k < length mons"
          by (cases "lt_set L") (auto simp: lt_monitors_def)
        from monitor_op_keeps [OF cv ok this, of "MonMoveWorkspaceToIdx i new_idx"] show ?thesis by simp
      qed
      with Some r lt_keeps_refl [OF ok] show ?thesis
        by (auto simp: lt_move_workspace_to_idx_def split: option.split)
    qed
  qed
qed

end
