(* ===== verification/LayoutNames.thy ===== *)
theory LayoutNames
  imports LayoutFocus
begin

text \<open>
  Hiding workspaces, taking names away and the overview: the last of the operations that keep
  all windows where they are.
\<close>

section \<open>Hidden workspaces\<close>

lemma clean_up_idle: "clean_up_workspaces m = Some m' \<Longrightarrow> workspace_switch m' = None"
proof -
  have at: "clean_up_at i m = Some m' \<Longrightarrow> workspace_switch m' = workspace_switch m" for i m m'
    by (auto simp: clean_up_at_def Let_def bind_eq_Some_conv shift_hidden_original_indices_for_removal_def split: if_splits)
  have "clean_up_all is m = Some m' \<Longrightarrow> workspace_switch m' = workspace_switch m" for "is" m m'
    by (induction "is" arbitrary: m) (auto simp: bind_eq_Some_conv dest: at)
  then show "clean_up_workspaces m = Some m' \<Longrightarrow> workspace_switch m' = None"
    by (auto simp: clean_up_workspaces_def Let_def bind_eq_Some_conv assert_that_def split: if_splits)
qed

lemma insert_idle: "insert_workspace ws idx a m = Some (i, m') \<Longrightarrow> \<not> ws_hidden ws \<Longrightarrow> workspace_switch m' = None"
  by (auto simp: insert_workspace_def Let_def bind_eq_Some_conv case_prod_unfold dest: clean_up_idle)

lemma unhide_idle:
  assumes "unhide_workspace_by_id i needs m = Some (Some k, m')"
  shows "workspace_switch m' = None"
proof -
  have "workspace_switch m' = None"
    if "insert_workspace (ws\<lparr>ws_hidden := False, needs_hidden := needs, original_idx := None\<rparr>) idx False m1 = Some (j, m')" for ws idx m1 j
    by (rule insert_idle [OF that]) simp
  with assms show ?thesis
    by (auto simp: unhide_workspace_by_id_def Let_def bind_eq_Some_conv split: option.splits if_splits)
qed

lemma named_found: "list_ex (named name) (workspaces m) \<Longrightarrow> \<exists>idx. find_named_workspace_index name m = Some idx"
  using position_None [of "named name" "workspaces m"] by (auto simp: find_named_workspace_index_def list_ex_iff)

lemma on_named_keeps:
  assumes ok: "lt_ok cv L"
    and f: "\<And>idx m. mon_ok cv m \<Longrightarrow> idx < length (workspaces m) \<Longrightarrow> ws_name (workspaces m ! idx) \<noteq> None \<Longrightarrow>
      returns (f idx m) (\<lambda>(b, m'). keeps_windows cv m m')"
      "\<And>idx fr m b m'. stays fr m \<Longrightarrow> f idx m = Some (b, m') \<Longrightarrow> stays fr m'"
  shows "returns (on_named name f L) (\<lambda>(b, L'). lt_keeps cv L L')"
proof (cases "monitor_for_workspace name L")
  case None
  with lt_keeps_refl [OF ok] show ?thesis by (simp add: on_named_def)
next
  case (Some k)
  from position_SomeD [OF Some [unfolded monitor_for_workspace_def]] have k: "k < length (lt_monitors L)"
    "list_ex (named name) (workspaces (lt_monitors L ! k))" by simp_all
  then obtain mons p a where L: "lt_set L = Normal mons p a" "lt_monitors L = mons" "k < length mons"
    by (cases "lt_set L") (auto simp: lt_monitors_def)
  let ?f = "\<lambda>m. do { idx \<leftarrow> find_named_workspace_index name m; f idx m }"
  let ?m = "at_counter (lt_next_ws_id L) (mons ! k)"
  have okm: "mon_ok cv ?m" by (rule mons_ok_nth(1) [OF lt_ok_NormalD(1) [OF ok L(1)] L(3)])
  have "list_ex (named name) (workspaces ?m)" using k(2) L(2) by simp
  then obtain idx where idx: "find_named_workspace_index name ?m = Some idx" using named_found by blast
  then have i: "idx < length (workspaces ?m)" "named name (workspaces ?m ! idx)"
    using position_SomeD unfolding find_named_workspace_index_def by blast+
  then have "ws_name (workspaces ?m ! idx) \<noteq> None" by (auto simp: named_def split: option.splits)
  from f(1) [OF okm i(1) this] have r: "returns (?f ?m) (\<lambda>(b, m'). keeps_windows cv ?m m' \<and> True)"
    by (simp add: idx)
  have "returns (on_monitor k ?f L) (\<lambda>(b, L'). lt_keeps cv L L' \<and>
      (\<exists>m'. L' = lt_put (mons[k := m']) p a (next_ws_id m') L \<and> True))"
    by (rule keep_on_monitor [OF ok L(1,3)], rule r) (auto simp: bind_eq_Some_conv intro: f(2))
  then show ?thesis by (auto simp: on_named_def Some elim!: returns_mono)
qed

lemma hide_workspace_keeps:
  assumes ok: "lt_ok cv L"
  shows "returns (hide_workspace name L) (\<lambda>(b, L'). lt_keeps cv L L')"
  unfolding hide_workspace_def
proof (rule on_named_keeps [OF ok])
  fix idx m assume m: "mon_ok cv m" and i: "idx < length (workspaces m)" "ws_name (workspaces m ! idx) \<noteq> None"
  have c: "content_ok cv m" "shape True m" using m by (simp_all add: mon_ok_def)
  from hide_named_returns [OF c i] have "returns (hide_workspace_by_idx idx m) (keeps_windows cv m)"
    by (auto intro: rearranged_keeps_windows elim!: returns_mono)
  then show "returns (do {
       ws \<leftarrow> vec_get (workspaces m) idx;
       if ws_hidden ws then Some (False, m)
       else map_option (Pair True) (hide_workspace_by_idx idx m)
     }) (\<lambda>(b, m'). keeps_windows cv m m')"
    using i keeps_windows_refl [OF m] by simp
next
  fix idx fr m b m'
  assume st: "stays fr m" and r: "(do {
       ws \<leftarrow> vec_get (workspaces m) idx;
       if ws_hidden ws then Some (False, m)
       else map_option (Pair True) (hide_workspace_by_idx idx m)
     }) = Some (b, m')"
  have "yields fr (hide_workspace_by_idx idx m) (stays fr)" using st by (intro frames)
  with st r show "stays fr m'" by (auto simp: bind_eq_Some_conv split: if_splits dest: stays_result)
qed

lemma unhide_workspace_keeps:
  assumes ok: "lt_ok cv L"
  shows "returns (unhide_workspace name L) (\<lambda>(b, L'). lt_keeps cv L L')"
  unfolding unhide_workspace_def
proof (rule on_named_keeps [OF ok])
  fix idx m assume m: "mon_ok cv m" and i: "idx < length (workspaces m)" "ws_name (workspaces m ! idx) \<noteq> None"
  have c: "content_ok cv m" "shape True m" using m by (simp_all add: mon_ok_def)
  let ?w = "workspaces m ! idx"
  show "returns (do {
       ws \<leftarrow> vec_get (workspaces m) idx;
       if \<not> ws_hidden ws then Some (needs_hidden ws, set_workspace idx (ws\<lparr>needs_hidden := False\<rparr>) m)
       else do {
         (_, m) \<leftarrow> unhide_workspace_by_id (ws_id ws) False m;
         map_option (Pair True) (clean_up_workspaces m)
       }
     }) (\<lambda>(b, m'). keeps_windows cv m m')"
  proof (cases "ws_hidden ?w")
    case False
    let ?w' = "?w\<lparr>needs_hidden := False\<rparr>"
    define m2 where "m2 = set_workspace idx ?w' m"
    note cm = cores_at [OF i(1)]
    have "fits cv (mon_output m) (mon_options m) (next_ws_id m) (core ?w')"
      using fits_of [OF c(1) i(1)] False by (simp add: fits_def)
    from cores_ok_same [OF content_okD [OF c(1), unfolded cm] this]
    have "cores_ok cv (mon_output m) (mon_options m) (next_ws_id m2) (fl_mset (sticky m)) (cores m2)"
      unfolding m2_def by (simp add: cores_set [OF i(1)] name_keys_def)
    then have c2: "content_ok cv m2" by (intro content_cores [OF c(1)]) (simp_all add: m2_def)
    have mm: "mon_mset m2 = mon_mset m" by (simp add: mon_mset_def m2_def cores_set [OF i(1)] cm)
    have "shape True m2"
      unfolding m2_def by (rule shape_set [OF c(2) i(1)]) (use False in \<open>auto simp: has_windows_or_name_iff\<close>)
    with c2 mm have "keeps_windows cv m m2" by (simp add: keeps_windows_def mon_ok_def)
    then show ?thesis using i(1) False by (simp add: m2_def)
  next
    case True
    have idx: "idx_of_ws (ws_id ?w) m = Some idx" by (rule idx_of_ws_nth [OF c(1) i(1)])
    from unhide_workspace_by_id_returns [OF c(1) shape_loose [OF c(2)], of "ws_id ?w" False] obtain f m1 where
      u: "unhide_workspace_by_id (ws_id ?w) False m = Some (Some f, m1)" "rearranged cv m m1" "shape True m1"
      using idx True by (auto elim!: returnsE)
    have c1: "content_ok cv m1" using u(2) by (simp add: rearranged_def)
    have sw: "workspace_switch m1 = None" by (rule unhide_idle [OF u(1)])
    have "returns (clean_up_workspaces m1) (\<lambda>m'. rearranged cv m1 m' \<and> shape True m')"
      using settle_returns [OF c1 shape_weaken [OF u(3)]] sw by (auto simp: settle_def elim!: returns_mono)
    then have "returns (clean_up_workspaces m1) (keeps_windows cv m)"
      using rearranged_trans [OF u(2)] by (auto intro: rearranged_keeps_windows elim!: returns_mono)
    then show ?thesis using i(1) True u(1) by simp
  qed
next
  fix idx fr m b m'
  assume st: "stays fr m" and r: "(do {
       ws \<leftarrow> vec_get (workspaces m) idx;
       if \<not> ws_hidden ws then Some (needs_hidden ws, set_workspace idx (ws\<lparr>needs_hidden := False\<rparr>) m)
       else do {
         (_, m) \<leftarrow> unhide_workspace_by_id (ws_id ws) False m;
         map_option (Pair True) (clean_up_workspaces m)
       }
     }) = Some (b, m')"
  have "yields fr (do {
       ws \<leftarrow> vec_get (workspaces m) idx;
       if \<not> ws_hidden ws then Some (needs_hidden ws, set_workspace idx (ws\<lparr>needs_hidden := False\<rparr>) m)
       else do {
         (_, m) \<leftarrow> unhide_workspace_by_id (ws_id ws) False m;
         map_option (Pair True) (clean_up_workspaces m)
       }
     }) (\<lambda>x. stays fr (snd x))"
    using st by (auto intro!: frames split: prod.split)
  from yieldsD [OF this _ r] st show "stays fr m'" by (auto simp: stays_def housed_def)
qed

lemma toggle_visibility_keeps:
  assumes ok: "lt_ok cv L"
  shows "returns (toggle_workspace_visibility name L) (\<lambda>(b, L'). lt_keeps cv L L')"
proof (cases "monitor_for_workspace name L")
  case None
  with lt_keeps_refl [OF ok] show ?thesis by (simp add: toggle_workspace_visibility_def)
next
  case (Some k)
  from position_SomeD [OF Some [unfolded monitor_for_workspace_def]] have k: "k < length (lt_monitors L)"
    "list_ex (named name) (workspaces (lt_monitors L ! k))" by simp_all
  from named_found [OF k(2)] obtain idx where idx: "find_named_workspace_index name (lt_monitors L ! k) = Some idx" by blast
  then have "idx < length (workspaces (lt_monitors L ! k))"
    using position_SomeD unfolding find_named_workspace_index_def by blast
  with idx k(1) Some hide_workspace_keeps [OF ok, of name] unhide_workspace_keeps [OF ok, of name] show ?thesis
    by (auto simp: toggle_workspace_visibility_def case_prod_unfold elim!: returns_mono)
qed

section \<open>Names taken away\<close>

lemma unname_framed:
  assumes "mon_ok cv m"
  shows "keeps_framed cv (\<lambda>m. map_option fst (unname_workspace i m)) m"
proof (rule keeps_framedI)
  have c: "content_ok cv m" "shape True m" using assms by (simp_all add: mon_ok_def)
  from unname_returns [OF c, of i] show "returns (map_option fst (unname_workspace i m)) (keeps_windows cv m)"
    by (auto intro: mon_keeps_windows elim!: returns_mono)
  show "stays fr m \<Longrightarrow> yields fr (map_option fst (unname_workspace i m)) (stays fr)" for fr
    by (auto intro!: frames)
qed

lemma arriving_remove:
  assumes "arriving_ok cv n wss"
  shows "arriving_ok cv n (remove_at i wss)"
proof -
  have s: "set (remove_at i wss) \<subseteq> set wss" by (rule set_remove_at_subset)
  have e: "remove_at i wss = take i wss @ drop (Suc i) wss" by (simp add: remove_at_def)
  have w: "wss = take i wss @ drop i wss" by simp
  have d: "distinct (f (remove_at i wss))" if "distinct (f wss)" "\<And>xs ys. f (xs @ ys) = f xs @ f ys" for f :: "workspace list \<Rightarrow> 'b list"
  proof -
    have "wss = take i wss @ take 1 (drop i wss) @ drop 1 (drop i wss)" by (simp only: append_take_drop_id)
    then have "f wss = f (take i wss) @ f (take 1 (drop i wss)) @ f (drop (Suc i) wss)"
      by (metis that(2) drop_drop plus_1_eq_Suc)
    with that show ?thesis by (auto simp: e)
  qed
  show ?thesis
    using assms s d [of "map ws_id"] d [of "\<lambda>w. map (map ascii_lower) (List.map_filter ws_name w)"] d [of "\<lambda>w. concat (map ws_windows w)"]
    by (auto simp: arriving_ok_def List.map_filter_def)
qed

text \<open>A workspace without windows that loses its name disappears where there are no outputs\<close>

lemma unname_by_id_keeps:
  assumes ok: "lt_ok cv L"
  shows "returns (unname_workspace_by_id i L) (lt_keeps cv L)"
proof (cases "lt_set L")
  case (Normal mons p a)
  have "returns (change_monitor k (\<lambda>m. map_option fst (unname_workspace i m)) L) (lt_keeps cv L)"
    if "position (\<lambda>m. idx_of_ws i m \<noteq> None) mons = Some k" for k
    using keep_change_monitor [OF ok Normal _ unname_framed] position_SomeD [OF that] by blast
  then show ?thesis using lt_keeps_refl [OF ok] by (auto simp: unname_workspace_by_id_def Normal split: option.split)
next
  case (NoOutputs wss)
  note n = lt_ok_NoOutputsD [OF ok NoOutputs]
  show ?thesis
  proof (cases "position (\<lambda>ws. ws_id ws = i) wss")
    case None
    with lt_keeps_refl [OF ok] show ?thesis by (simp add: unname_workspace_by_id_def NoOutputs)
  next
    case (Some idx)
    then have i: "idx < length wss" using position_SomeD by blast
    let ?w = "wss ! idx"
    define w where "w = ws_unname (?w\<lparr>ws_hidden := False, needs_hidden := False\<rparr>)"
    have w: "ws_windows w = ws_windows ?w" "ws_id w = ws_id ?w" "ws_ok cv w = ws_ok cv ?w" "ws_name w = None"
      "\<not> ws_hidden w" "\<not> needs_hidden w" "base_options w = base_options ?w"
      by (simp_all add: w_def ws_unname_def ws_windows_def ws_ok_def)
    have put: "lt_keeps cv L (L\<lparr>lt_set := NoOutputs wss'\<rparr>)"
      if "arriving_ok cv (lt_next_ws_id L) wss'" "mset (concat (map ws_windows wss')) = mset (concat (map ws_windows wss))"
        "\<forall>ws \<in> set wss'. base_options ws = lt_options L" for wss'
      using ok n(3,4) that
      by (simp add: lt_keeps_def lt_ok_def lt_mset_def placed_mset_def moved_mset_def moving_data_def lt_monitors_def NoOutputs)
    show ?thesis
    proof (cases "ws_has_windows w")
      case False
      then have "ws_windows ?w = []" using w(1) by (simp add: ws_has_windows_def)
      then have e: "mset (concat (map ws_windows (remove_at idx wss))) = mset (concat (map ws_windows wss))"
        using i by (simp add: windows_list [symmetric] mset_remove_at ws_mset_windows)
      have "\<forall>ws \<in> set (remove_at idx wss). base_options ws = lt_options L" using n(2) set_remove_at_subset [of idx wss] by blast
      from put [OF arriving_remove [OF n(1)] e this] show ?thesis
        using Some i False by (simp add: unname_workspace_by_id_def NoOutputs w_def)
    next
      case True
      have at: "?w \<in> set wss" using i by simp
      have m: "mset (concat (map ws_windows (wss[idx := w]))) = mset (concat (map ws_windows wss))"
        by (metis w(1) list_update_id map_update)
      have named: "List.map_filter ws_name (wss[idx := w]) = List.map_filter ws_name (remove_at idx wss)"
        using i w(4) by (simp add: upd_conv_take_nth_drop List.map_filter_def remove_at_def)
      have "arriving_ok cv (lt_next_ws_id L) (remove_at idx wss)" by (rule arriving_remove [OF n(1)])
      then have d: "distinct (map (map ascii_lower) (List.map_filter ws_name (wss[idx := w])))"
        unfolding named by (simp add: arriving_ok_def)
      have ids: "map ws_id (wss[idx := w]) = map ws_id wss" by (metis w(2) list_update_id map_update)
      have dw: "distinct (concat (map ws_windows (wss[idx := w])))"
        using n(1) m mset_eq_imp_distinct_iff by (auto simp: arriving_ok_def)
      have sub: "x = w \<or> x \<in> set wss" if "x \<in> set (wss[idx := w])" for x
        using that set_update_subset_insert [of wss idx w] by blast
      have "has_windows_or_name w" using True by (simp add: has_windows_or_name_def)
      then have "arriving_ok cv (lt_next_ws_id L) (wss[idx := w])"
        using n(1) at w sub d ids dw unfolding arriving_ok_def by metis
      moreover have "\<forall>ws \<in> set (wss[idx := w]). base_options ws = lt_options L"
        using n(2) at w(7) sub by metis
      ultimately show ?thesis using put [OF _ m] Some i True
        by (simp add: unname_workspace_by_id_def NoOutputs w_def)
    qed
  qed
qed

lemma resolve_ref_keeps:
  assumes "parents_acyclic cv" "lt_ok cv L"
  shows "returns (resolve_ref r L) (\<lambda>(ws, L'). lt_keeps cv L L')"
proof (cases r)
  case None
  have "returns (on_active_monitor (\<lambda>m. Some (focus_workspace m)) L) (lt_keeps cv L)"
    by (rule keep_active_monitor [OF assms(2)]) (rule focus_workspace_framed [OF assms(1)])
  with None show ?thesis by (auto simp: resolve_ref_def elim!: returns_mono)
next
  case (Some r')
  with lt_keeps_refl [OF assms(2)] show ?thesis by (simp add: resolve_ref_def)
qed

lemma unset_name_keeps:
  assumes "parents_acyclic cv" "lt_ok cv L"
  shows "returns (unset_workspace_name r L) (lt_keeps cv L)" "returns (unname_workspace_by_ref rf L) (lt_keeps cv L)"
proof -
  show "returns (unname_workspace_by_ref rf L) (lt_keeps cv L)"
    using unname_by_id_keeps [OF assms(2)] lt_keeps_refl [OF assms(2)]
    by (auto simp: unname_workspace_by_ref_def split: option.split)
  from resolve_ref_keeps [OF assms, of r] obtain ws L' where r: "resolve_ref r L = Some (ws, L')" "lt_keeps cv L L'"
    by (auto elim!: returnsE)
  from lt_keeps_after [OF r(2) unname_by_id_keeps [OF lt_keepsD [OF r(2)]]] r show "returns (unset_workspace_name r L) (lt_keeps cv L)"
    by (simp add: unset_workspace_name_def split: option.split)
qed

section \<open>The overview\<close>

lemma overview_keeps:
  assumes ok: "lt_ok cv L"
  shows "lt_keeps cv L (toggle_overview L)" "lt_keeps cv L (snd (open_overview L))" "lt_keeps cv L (snd (close_overview L))"
    "lt_keeps cv L (snd (close_overview_preserving_zoom L))"
proof -
  have t: "lt_keeps cv L (set_monitors_overview_state (L\<lparr>lt_overview_open := b\<rparr>))" for b
    using lt_keeps_trans [OF lt_keeps_overview(3) [OF ok] lt_keeps_overview(1) [OF lt_keepsD [OF lt_keeps_overview(3) [OF ok]]]] .
  show "lt_keeps cv L (toggle_overview L)" using t by (simp add: toggle_overview_def)
  then show "lt_keeps cv L (snd (open_overview L))" "lt_keeps cv L (snd (close_overview L))"
    using lt_keeps_refl [OF ok] by (simp_all add: open_overview_def close_overview_def)
  show "lt_keeps cv L (snd (close_overview_preserving_zoom L))"
    using t lt_keeps_refl [OF ok] by (simp add: close_overview_preserving_zoom_def)
qed

text \<open>Clicking a workspace in the overview: the workspace is a visible one of the active monitor\<close>

lemma overview_to_workspace_keeps:
  assumes ok: "lt_ok cv L" and i: "\<And>m. lt_active_monitor L = Some m \<Longrightarrow> idx < visible_workspace_count m"
  shows "returns (toggle_overview_to_workspace idx L) (lt_keeps cv L)"
proof -
  have "returns (on_active_monitor (activate_workspace idx) L) (lt_keeps cv L)"
  proof (rule keep_active_monitor [OF ok])
    fix m mons p a
    assume L: "lt_set L = Normal mons p a" and m: "m = at_counter (lt_next_ws_id L) (mons ! a)" "mon_ok cv m"
    have c: "content_ok cv m" "shape True m" using m(2) by (simp_all add: mon_ok_def)
    have "idx < visible_workspace_count m"
      using i lt_ok_NormalD(2) [OF ok L] by (simp add: lt_active_monitor_def L m(1))
    then have "idx < length (vis m)" using visible_count [OF looseD(1) [OF shape_loose [OF c(2)]]] by simp
    from activates [OF c this] have "returns (activate_workspace idx m) (keeps_windows cv m)"
      by (auto simp: switches_def intro: rearranged_keeps_windows elim!: returns_mono)
    then show "keeps_framed cv (activate_workspace idx) m" by (rule keeps_framedI) (auto intro!: frames)
  qed
  then show ?thesis using overview_keeps(1) lt_keepsD lt_keeps_trans
    by (fastforce simp: toggle_overview_to_workspace_def elim!: returns_mono)
qed

end
