(* ===== verification/LayoutTrade.thy ===== *)
theory LayoutTrade
  imports LayoutNames
begin

text \<open>
  Windows that open and close. Closing a window tidies up one workspace only; it is shown to do
  what the general clean-up does, and inherits the invariant from it.
\<close>

section \<open>A window leaves a monitor\<close>

lemma clean_up_all_append: "clean_up_all (xs @ ys) m = Option.bind (clean_up_all xs m) (clean_up_all ys)"
  by (induction xs arbitrary: m) (auto split: bind_split)

lemma clean_up_all_noop:
  assumes "workspaces m = vis m @ hid m"
    "\<And>i. i \<in> set is \<Longrightarrow> i < length (vis m) \<and> (i \<noteq> active_workspace_idx m \<longrightarrow> has_windows_or_name (vis m ! i))"
  shows "clean_up_all is m = Some m"
  using assms(2)
proof (induction "is")
  case (Cons i "is")
  then have "clean_up_at i m = Some m" using clean_up_at_eq [OF assms(1), of i] by auto
  with Cons show ?case by simp
qed simp

lemma clean_up_all_drops:
  assumes w: "workspaces m = vis m @ hid m" "active_workspace_idx m < length (vis m)"
    and i: "s \<le> idx" "idx + 1 < length (vis m)" "blank (vis m ! idx)" "idx \<noteq> active_workspace_idx m"
    and others: "\<And>i. s \<le> i \<Longrightarrow> i + 1 < length (vis m) \<Longrightarrow> i \<noteq> idx \<Longrightarrow> i \<noteq> active_workspace_idx m \<Longrightarrow> has_windows_or_name (vis m ! i)"
  shows "clean_up_all (rev [s..<length (vis m) - 1]) m = Some (drop_visible idx m)"
proof -
  let ?k = "length (vis m) - 1"
  have "[s..<?k] = [s..<idx] @ idx # [Suc idx..<?k]"
    using i(1,2) upt_add_eq_append [of s idx "?k - idx"] upt_conv_Cons [of idx ?k] by simp
  then have r: "rev [s..<?k] = rev [Suc idx..<?k] @ idx # rev [s..<idx]" by simp
  have "clean_up_all (rev [Suc idx..<?k]) m = Some m"
    by (rule clean_up_all_noop [OF w(1)]) (use i others in auto)
  moreover have "clean_up_at idx m = Some (drop_visible idx m)"
    using clean_up_at_eq [OF w(1), of idx] i by simp
  moreover have "clean_up_all (rev [s..<idx]) (drop_visible idx m) = Some (drop_visible idx m)"
    by (rule clean_up_all_noop [OF workspaces_drop_visible]) (use i others in \<open>auto simp: nth_remove_at\<close>)
  ultimately show ?thesis unfolding r clean_up_all_append by simp
qed

definition collapse :: "monitor \<Rightarrow> monitor option" where
  "collapse m =
     (if above_first m \<and> length (workspaces m) = 2 \<and> workspace_switch m = None \<and> \<not> list_ex ws_hidden (workspaces m)
      then do {
        assert_that (\<not> has_windows_or_name (workspaces m ! 0));
        assert_that (\<not> has_windows_or_name (workspaces m ! 1));
        Some (m\<lparr>workspaces := remove_at 1 (workspaces m), active_workspace_idx := 0\<rparr>)
      } else Some m)"

lemma clean_up_idle_eq:
  assumes "workspaces m = vis m @ hid m" "vis m \<noteq> []" "workspace_switch m = None"
    "clean_up_all (rev [if above_first m then 1 else 0..<length (vis m) - 1]) m = Some m'" "workspace_switch m' = None"
  shows "clean_up_workspaces m = collapse m'"
proof -
  have len: "1 \<le> length (vis m)" using assms(2) by (cases "vis m") simp_all
  then have "(case position ws_hidden (workspaces m) of
      Some hidden_idx \<Rightarrow> sub_usize hidden_idx 1
    | None \<Rightarrow> sub_usize (length (workspaces m)) 1) = Some (length (vis m) - 1)"
    using position_hidden [OF assms(1)] arg_cong [OF assms(1), of length] by (auto simp: sub_usize_def)
  with assms(3-5) show ?thesis by (simp add: clean_up_workspaces_def collapse_def)
qed

text \<open>What \<open>remove_window\<close> does to the workspaces after the window is gone\<close>

definition drop_emptied :: "nat \<Rightarrow> monitor \<Rightarrow> monitor option" where
  "drop_emptied idx m =
     (if \<not> has_windows_or_name (workspaces m ! idx) \<and> idx \<noteq> active_workspace_idx m \<and>
         idx \<noteq> length (workspaces m) - 1 \<and> workspace_switch m = None
      then do {
        (_, wss) \<leftarrow> vec_remove idx (workspaces m);
        let m = shift_hidden_original_indices_for_removal idx (m\<lparr>workspaces := wss\<rparr>);
        Some (if idx < active_workspace_idx m
              then m\<lparr>active_workspace_idx := active_workspace_idx m - 1\<rparr> else m)
      } else Some m)"

lemma drop_emptied_settles:
  assumes ok: "mon_ok cv m" and i: "idx < length (workspaces m)" "has_windows_or_name (workspaces m ! idx)"
    and ws: "ws_hidden ws = ws_hidden (workspaces m ! idx)" "ws_name ws = ws_name (workspaces m ! idx)"
  shows "Option.bind (drop_emptied idx (set_workspace idx ws m)) collapse = settle (set_workspace idx ws m)"
proof (cases "workspace_switch m = None")
  case False
  then have b: "workspace_switch (set_workspace idx ws m) \<noteq> None" by simp
  then show ?thesis by (simp only: drop_emptied_def collapse_def settle_def b simp_thms if_False Option.bind.simps)
next
  case True
  define m2 where "m2 = set_workspace idx ws m"
  have sh: "shape True m" and c: "content_ok cv m" using ok by (simp_all add: mon_ok_def)
  note l = looseD [OF shape_loose [OF sh]]
  have tight: "tight m" using sh True by (simp add: shape_def)
  let ?s = "if above_first m then 1 else 0 :: nat"
  note s2 = set_lists [OF l(1) i(1) ws(1), folded m2_def]
  have f2: "active_workspace_idx m2 = active_workspace_idx m" "workspace_switch m2 = None" "above_first m2 = above_first m"
    "length (workspaces m2) = length (workspaces m)" "workspaces m2 ! idx = ws"
    using True i(1) by (simp_all add: m2_def)
  have v2: "vis m2 \<noteq> []" "active_workspace_idx m2 < length (vis m2)" using s2(1) l(2,3) f2(1) by simp_all
  have clean: "has_windows_or_name (vis m2 ! j)"
    if "?s \<le> j" "j + 1 < length (vis m2)" "j \<noteq> idx" "j \<noteq> active_workspace_idx m2" for j
    using tight that s2(1) f2(1) by (simp add: tight_def)
  let ?drops = "\<not> has_windows_or_name ws \<and> idx \<noteq> active_workspace_idx m \<and> idx < length (vis m)"
  have run: "drop_emptied idx m2 = Some (if ?drops then drop_visible idx m2 else m2)"
  proof (cases ?drops)
    case True
    then have at: "vis m ! idx = workspaces m ! idx" using nth_vis(1) [OF l(1)] by simp
    have "idx \<noteq> length (vis m) - 1" using l(3,4) i(2) at by (auto simp: last_conv_nth)
    then have "idx + 1 < length (vis m)" using True by linarith
    then have "idx \<noteq> length (workspaces m) - 1" using arg_cong [OF l(1), of length] by simp
    then have n: "(\<not> has_windows_or_name ws \<and> idx \<noteq> active_workspace_idx m2 \<and> idx \<noteq> length (workspaces m2) - 1 \<and>
        workspace_switch m2 = None) = True"
      using True f2 by simp
    have "\<not> ws_hidden (vis m ! idx)" using True nth_mem vis_visible by blast
    then have "\<not> ws_hidden ws" using ws(1) at by simp
    then have "clean_up_at idx m2 = drop_emptied idx m2"
      unfolding drop_emptied_def f2(5) n using True f2 i(1) by (simp add: clean_up_at_def)
    moreover have "clean_up_at idx m2 = Some (drop_visible idx m2)"
      using clean_up_at_eq [OF s2(3), of idx] True f2(1) s2(1) by simp
    ultimately show ?thesis using True by simp
  next
    case False
    have "has_windows_or_name ws" if "length (vis m) \<le> idx"
    proof -
      have "ws_hidden (workspaces m ! idx)" using hid_nth [OF l(1) i(1)] that by simp
      then show ?thesis using fits_of [OF c i(1)] ws(2) by (simp add: fits_def has_windows_or_name_def)
    qed
    with False f2 show ?thesis by (auto simp: drop_emptied_def)
  qed
  have "clean_up_all (rev [?s..<length (vis m2) - 1]) m2 = Some (if ?drops then drop_visible idx m2 else m2)"
  proof (cases ?drops)
    case True
    then have at: "vis m ! idx = workspaces m ! idx" using nth_vis(1) [OF l(1)] by simp
    have "idx \<noteq> length (vis m) - 1" using l(3,4) i(2) at by (auto simp: last_conv_nth)
    moreover have "above_first m \<Longrightarrow> idx \<noteq> 0" using l(3,5) i(2) at by (cases "idx = 0") (auto simp: hd_conv_nth)
    moreover have "blank (vis m2 ! idx)" using True s2(1) by simp
    ultimately have "clean_up_all (rev [?s..<length (vis m2) - 1]) m2 = Some (drop_visible idx m2)"
      using True f2 s2(1) clean by (intro clean_up_all_drops [OF s2(3) v2(2)]) auto
    with True show ?thesis by simp
  next
    case False
    have "clean_up_all (rev [?s..<length (vis m2) - 1]) m2 = Some m2"
    proof (rule clean_up_all_noop [OF s2(3)], intro conjI impI)
      fix j assume j: "j \<in> set (rev [?s..<length (vis m2) - 1])"
      then show "j < length (vis m2)" by auto
      assume "j \<noteq> active_workspace_idx m2"
      with j False clean [of j] s2(1) f2(1) show "has_windows_or_name (vis m2 ! j)" by (cases "j = idx") auto
    qed
    then show ?thesis by (simp only: if_not_P [OF False])
  qed
  from clean_up_idle_eq [OF s2(3) v2(1) f2(2) this [folded f2(3)]] f2(2) have
    "clean_up_workspaces m2 = collapse (if ?drops then drop_visible idx m2 else m2)"
    by (simp add: drop_visible_def)
  then show ?thesis using run f2(2) by (simp add: settle_def m2_def)
qed

text \<open>Workspaces may disappear, but none changes its identity\<close>

definition idents :: "workspace list \<Rightarrow> (nat \<times> string option \<times> output_id list) set" where
  "idents wss = ident ` set wss"

lemma idents_remove: "idents (remove_at i wss) \<subseteq> idents wss"
  unfolding idents_def by (rule image_mono [OF set_remove_at_subset])

lemma idents_shift: "idents (map (shift_hidden f) wss) = idents wss"
proof -
  have "ident (shift_hidden f ws) = ident ws" for ws by (simp add: ident_def shift_hidden_def)
  then show ?thesis by (simp add: idents_def image_image)
qed

definition thinned :: "monitor \<Rightarrow> monitor \<Rightarrow> bool" where
  "thinned m m' \<longleftrightarrow>
     mon_output m' = mon_output m \<and> mon_base_options m' = mon_base_options m \<and> next_ws_id m' = next_ws_id m \<and>
     idents (workspaces m') \<subseteq> idents (workspaces m)"

lemma thinned_refl: "thinned m m"
  by (simp add: thinned_def)

lemma thinned_trans: "thinned a b \<Longrightarrow> thinned b c \<Longrightarrow> thinned a c"
  by (auto simp: thinned_def)

lemma thinned_steps:
  "drop_emptied idx m = Some m' \<Longrightarrow> thinned m m'" "collapse m = Some m' \<Longrightarrow> thinned m m'"
  "ident ws = ident (workspaces m ! idx) \<Longrightarrow> idx < length (workspaces m) \<Longrightarrow> thinned m (set_workspace idx ws m)"
proof -
  have thin: "thinned m m'"
    if "idents (workspaces m') = idents (remove_at i (workspaces m))" "mon_output m' = mon_output m"
      "mon_base_options m' = mon_base_options m" "next_ws_id m' = next_ws_id m" for i m'
    using that idents_remove by (simp add: thinned_def)
  show "thinned m m'" if d: "drop_emptied idx m = Some m'"
  proof (cases "m' = m")
    case False
    from d False obtain x where v: "vec_remove idx (workspaces m) = Some (x, remove_at idx (workspaces m))"
      by (cases "idx < length (workspaces m)") (auto simp: drop_emptied_def vec_remove_def split: if_splits)
    define m1 where "m1 = shift_hidden_original_indices_for_removal idx (m\<lparr>workspaces := remove_at idx (workspaces m)\<rparr>)"
    have "m' = m1 \<or> m' = m1\<lparr>active_workspace_idx := active_workspace_idx m1 - 1\<rparr>"
      using d False v by (simp add: drop_emptied_def m1_def Let_def split: if_splits)
    then show ?thesis
      by (intro thin [where i = idx]) (auto simp: m1_def shift_hidden_original_indices_for_removal_def idents_shift)
  qed (simp add: thinned_refl)
  show "thinned m m'" if d: "collapse m = Some m'"
  proof (cases "m' = m")
    case False
    with d have "m' = m\<lparr>workspaces := remove_at 1 (workspaces m), active_workspace_idx := 0\<rparr>"
      by (auto simp: collapse_def bind_eq_Some_conv split: if_splits)
    then show ?thesis by (intro thin [where i = 1]) simp_all
  qed (simp add: thinned_refl)
  assume i: "ident ws = ident (workspaces m ! idx)" "idx < length (workspaces m)"
  then have "map ident ((workspaces m)[idx := ws]) = map ident (workspaces m)"
    by (metis list_update_id map_update)
  then have "idents ((workspaces m)[idx := ws]) = idents (workspaces m)" unfolding idents_def by (metis set_map)
  then show "thinned m (set_workspace idx ws m)" by (simp add: thinned_def set_workspace_def)
qed

lemma ident_subsets:
  assumes "idents wss' \<subseteq> idents wss"
  shows "ws_id ` set wss' \<subseteq> ws_id ` set wss" "keys_of wss' \<subseteq> keys_of wss"
    "(\<forall>ws \<in> set wss. P (original_outputs ws)) \<Longrightarrow> (\<forall>ws \<in> set wss'. P (original_outputs ws))"
proof -
  note assms = assms [unfolded idents_def]
  have i: "ws_id ` S = fst ` ident ` S" for S by (simp add: image_image ident_def)
  show "ws_id ` set wss' \<subseteq> ws_id ` set wss" unfolding i by (rule image_mono [OF assms])
  have k: "keys_of ws = {key. \<exists>x \<in> ident ` set ws. map_option (map ascii_lower) (fst (snd x)) = Some key}" for ws
    by (auto simp: keys_of_def name_key_def ident_def)
  show "keys_of wss' \<subseteq> keys_of wss" unfolding k using assms by blast
  have o': "(\<forall>ws \<in> set xs. P (original_outputs ws)) \<longleftrightarrow> (\<forall>x \<in> ident ` set xs. P (snd (snd x)))" for xs
    by (simp add: ident_def)
  show "(\<forall>ws \<in> set wss. P (original_outputs ws)) \<Longrightarrow> (\<forall>ws \<in> set wss'. P (original_outputs ws))"
    unfolding o' using assms by blast
qed

lemma thinnedD:
  assumes "thinned m m'"
  shows "ids_of m' \<subseteq> ids_of m" "names_of m' \<subseteq> names_of m" "mon_settled outs p k m \<Longrightarrow> mon_settled outs p k m'"
    "mon_fits cv base n m \<Longrightarrow> mon_ok cv m' \<Longrightarrow> mon_fits cv base n m'" "mon_output m' = mon_output m"
proof -
  have i: "idents (workspaces m') \<subseteq> idents (workspaces m)" using assms by (simp add: thinned_def)
  show "ids_of m' \<subseteq> ids_of m" "names_of m' \<subseteq> names_of m" using ident_subsets(1,2) [OF i] by (simp_all add: ids_of_def)
  show "mon_settled outs p k m \<Longrightarrow> mon_settled outs p k m'" using ident_subsets(3) [OF i] by (simp add: mon_settled_def)
  show "mon_fits cv base n m \<Longrightarrow> mon_ok cv m' \<Longrightarrow> mon_fits cv base n m'" "mon_output m' = mon_output m"
    using assms by (simp_all add: thinned_def mon_fits_def)
qed

lemma mons_ok_thinned:
  assumes ok: "mons_ok cv base n p mons" and k: "k < length mons" and t: "thinned (mons ! k) m" "mon_ok cv m"
  shows "mons_ok cv base n p (mons[k := m])"
proof -
  note d = thinnedD [OF t(1)]
  have outs: "outputs_of (mons[k := m]) = outputs_of mons" by (rule outputs_of_update) (rule d(5))
  have "mon_fits cv base n m" using ok k t(2) by (intro d(4)) (simp_all add: mons_ok_def)
  then have fits: "mon_fits cv base n x" if "x \<in> set (mons[k := m])" for x
    using ok that set_update_subset_insert [of mons k m] by (auto simp: mons_ok_def)
  have "apart (mons[k := m])"
    unfolding apart_def
  proof (intro allI impI)
    fix i j assume "i < length (mons[k := m])" "j < length (mons[k := m])" "i \<noteq> j"
    then have "ids_of (mons ! i) \<inter> ids_of (mons ! j) = {}" "names_of (mons ! i) \<inter> names_of (mons ! j) = {}"
      using ok by (simp_all add: mons_ok_def apart_def)
    moreover have "ids_of (mons[k := m] ! i) \<subseteq> ids_of (mons ! i)" "names_of (mons[k := m] ! i) \<subseteq> names_of (mons ! i)" for i
      using d(1,2) k by (cases "i = k"; simp)+
    ultimately show "ids_of (mons[k := m] ! i) \<inter> ids_of (mons[k := m] ! j) = {} \<and>
        names_of (mons[k := m] ! i) \<inter> names_of (mons[k := m] ! j) = {}"
      by blast
  qed
  moreover have "mon_settled (outputs_of mons) p j (mons[k := m] ! j)" if "j < length mons" for j
    using ok that d(3) by (cases "j = k") (auto simp: mons_ok_def)
  ultimately show ?thesis using ok fits by (simp add: mons_ok_def outs)
qed

lemma remove_tile_settles:
  assumes ok: "mon_ok cv m" and i: "idx < length (workspaces m)" "w \<in> set (ws_windows (workspaces m ! idx))"
  shows "returns (do {
      (r, ws) \<leftarrow> ws_remove_tile cv w (workspaces m ! idx);
      m \<leftarrow> drop_emptied idx (set_workspace idx ws m);
      m \<leftarrow> collapse m;
      Some (Some r, m)
    }) (\<lambda>(r, m'). (\<exists>r'. r = Some r' \<and> win (rt_tile r') = w) \<and> mon_ok cv m' \<and> mon_mset m = add_mset w (mon_mset m') \<and>
          thinned m m')"
proof -
  have c: "content_ok cv m" "shape True m" using ok by (simp_all add: mon_ok_def)
  from ws_remove_tile_returns [OF ws_ok_of [OF c(1) i(1)] i(2)] obtain r ws where
    r: "ws_remove_tile cv w (workspaces m ! idx) = Some (r, ws)" "ws_loses cv {#w#} (workspaces m ! idx) ws" "win (rt_tile r) = w"
    by (auto elim!: returnsE)
  note lo = lose_from [OF c i(1) r(2)]
  have f: "ws_hidden ws = ws_hidden (workspaces m ! idx)" "ws_name ws = ws_name (workspaces m ! idx)"
    "ident ws = ident (workspaces m ! idx)"
    using ws_frameD [of "workspaces m ! idx" ws] r(2) by (simp_all add: ws_loses_def ident_def)
  have "has_windows_or_name (workspaces m ! idx)" using i(2) by (auto simp: has_windows_or_name_def ws_has_windows_def)
  from drop_emptied_settles [OF ok i(1) this f(1,2)] have e:
    "Option.bind (drop_emptied idx (set_workspace idx ws m)) collapse = settle (set_workspace idx ws m)" .
  from settle_returns [OF lo(1,2)] obtain m3 where m3: "settle (set_workspace idx ws m) = Some m3"
    "rearranged cv (set_workspace idx ws m) m3" "shape True m3" by (auto elim!: returnsE)
  have "mon_mset m = add_mset w (mon_mset m3)" using rearranged_windows [OF m3(2)] lo(3) by simp
  moreover have "mon_ok cv m3" using m3(2,3) by (simp add: mon_ok_def rearranged_def)
  moreover obtain m1 where m1: "drop_emptied idx (set_workspace idx ws m) = Some m1" "collapse m1 = Some m3"
    using e m3(1) by (auto simp: bind_eq_Some_conv)
  moreover have "thinned m m3"
    using thinned_trans [OF thinned_steps(3) [OF f(3) i(1)]] thinned_trans [OF thinned_steps(1) [OF m1(1)] thinned_steps(2) [OF m1(2)]]
    by blast
  ultimately show ?thesis using r(1,3) by simp
qed

lemma mon_remove_window_eq:
  "mon_remove_window cv w m =
     do {
       (removed, m) \<leftarrow> remove_sticky_tile cv w m;
       (case removed of
          Some r \<Rightarrow> Some (Some r, m)
        | None \<Rightarrow>
            (case position (ws_has_window w) (workspaces m) of
               None \<Rightarrow> Some (None, m)
             | Some idx \<Rightarrow> do {
                 ws \<leftarrow> vec_get (workspaces m) idx;
                 (r, ws) \<leftarrow> ws_remove_tile cv w ws;
                 m \<leftarrow> drop_emptied idx (set_workspace idx ws m);
                 m \<leftarrow> collapse m;
                 Some (Some r, m)
               }))
     }"
proof -
  have "(do {
      ws \<leftarrow> vec_get (workspaces m) idx;
      (r, ws) \<leftarrow> ws_remove_tile cv w ws;
      m \<leftarrow> drop_emptied idx (set_workspace idx ws m);
      m \<leftarrow> collapse m;
      Some (Some r, m)
    }) = (do {
      ws \<leftarrow> vec_get (workspaces m) idx;
      (r, ws) \<leftarrow> ws_remove_tile cv w ws;
      let m = set_workspace idx ws m;
      m \<leftarrow> (if \<not> has_windows_or_name ws \<and> idx \<noteq> active_workspace_idx m \<and>
               idx \<noteq> length (workspaces m) - 1 \<and> workspace_switch m = None
            then do {
              (_, wss) \<leftarrow> vec_remove idx (workspaces m);
              let m = shift_hidden_original_indices_for_removal idx (m\<lparr>workspaces := wss\<rparr>);
              Some (if idx < active_workspace_idx m
                    then m\<lparr>active_workspace_idx := active_workspace_idx m - 1\<rparr> else m)
            } else Some m);
      m \<leftarrow> collapse m;
      Some (Some r, m)
    })" for idx m
    by (cases "idx < length (workspaces m)"; cases "ws_remove_tile cv w (workspaces m ! idx)")
      (simp_all add: drop_emptied_def Let_def vec_get_def case_prod_unfold)
  then show ?thesis by (simp only: mon_remove_window_def collapse_def Let_def)
qed

lemma mon_remove_window_returns:
  assumes ok: "mon_ok cv m"
  shows "returns (mon_remove_window cv w m) (\<lambda>(r, m'). mon_ok cv m' \<and> thinned m m' \<and>
           (case r of
              None \<Rightarrow> m' = m \<and> w \<notin># mon_mset m
            | Some r \<Rightarrow> win (rt_tile r) = w \<and> mon_mset m = add_mset w (mon_mset m')))"
proof -
  have c: "content_ok cv m" "shape True m" using ok by (simp_all add: mon_ok_def)
  from remove_sticky_tile_returns [OF c, of w] obtain r m1 where
    r: "remove_sticky_tile cv w m = Some (r, m1)" "content_ok cv m1" "shape True m1"
      "case r of None \<Rightarrow> m1 = m \<and> w \<notin> set (fl_windows (sticky m))
       | Some r \<Rightarrow> win (rt_tile r) = w \<and> rt_is_sticky r \<and> mon_mset m = add_mset w (mon_mset m1)"
    by (auto elim!: returnsE)
  show ?thesis
  proof (cases r)
    case (Some t)
    have "thinned m m1" using r(1) by (auto simp: remove_sticky_tile_def thinned_def Let_def bind_eq_Some_conv split: if_splits)
    with Some r show ?thesis by (simp add: mon_remove_window_eq mon_ok_def)
  next
    case None
    with r have m1: "m1 = m" "w \<notin> set (fl_windows (sticky m))" by simp_all
    show ?thesis
    proof (cases "position (ws_has_window w) (workspaces m)")
      case None': None
      then have "w \<notin># mon_mset m" using m1(2)
        by (auto simp: mon_mset_windows mon_windows_def position_None ws_has_window_def)
      with None None' m1(1) r(1) ok thinned_refl show ?thesis by (simp add: mon_remove_window_eq)
    next
      case (Some idx)
      note i = position_window [OF Some]
      have "mon_remove_window cv w m = (do {
          (r, ws) \<leftarrow> ws_remove_tile cv w (workspaces m ! idx);
          m \<leftarrow> drop_emptied idx (set_workspace idx ws m);
          m \<leftarrow> collapse m;
          Some (Some r, m)
        })"
        using None Some m1(1) r(1) i by (simp add: mon_remove_window_eq)
      then show ?thesis
        by (simp only:) (rule returns_mono [OF remove_tile_settles [OF ok]], use i in auto)
    qed
  qed
qed

section \<open>A window leaves the layout\<close>

lemma remove_from_monitors_returns:
  assumes "\<And>m. m \<in> set mons \<Longrightarrow> mon_ok cv m"
  shows "returns (remove_from_monitors cv w mons) (\<lambda>(r, mons').
           case r of
             None \<Rightarrow> mons' = mons \<and> w \<notin># mons_mset mons
           | Some r \<Rightarrow> win (rt_tile r) = w \<and>
               (\<exists>k m. k < length mons \<and> mons' = mons[k := m] \<and> mon_ok cv m \<and> thinned (mons ! k) m \<and>
                  mon_mset (mons ! k) = add_mset w (mon_mset m)))"
  using assms
proof (induction mons)
  case Nil
  then show ?case by (simp add: mons_mset_def)
next
  case (Cons m mons)
  have "mon_ok cv m" using Cons.prems by simp
  from mon_remove_window_returns [OF this, of w] obtain r m' where
    m': "mon_remove_window cv w m = Some (r, m')" "mon_ok cv m'" "thinned m m'"
      "case r of None \<Rightarrow> m' = m \<and> w \<notin># mon_mset m
       | Some r \<Rightarrow> win (rt_tile r) = w \<and> mon_mset m = add_mset w (mon_mset m')"
    by (auto elim!: returnsE)
  show ?case
  proof (cases r)
    case (Some t)
    then have "m' # mons = (m # mons)[0 := m'] \<and> mon_mset ((m # mons) ! 0) = add_mset w (mon_mset m')" using m'(4) by simp
    with Some m' show ?thesis
      by (simp del: list_update.simps) (rule exI [of _ 0], auto)
  next
    case None
    then have n: "m' = m" "w \<notin># mon_mset m" using m'(4) by simp_all
    from Cons.IH Cons.prems obtain r2 mons2 where
      IH: "remove_from_monitors cv w mons = Some (r2, mons2)"
        "case r2 of None \<Rightarrow> mons2 = mons \<and> w \<notin># mons_mset mons
         | Some r \<Rightarrow> win (rt_tile r) = w \<and>
             (\<exists>k m. k < length mons \<and> mons2 = mons[k := m] \<and> mon_ok cv m \<and> thinned (mons ! k) m \<and>
                mon_mset (mons ! k) = add_mset w (mon_mset m))"
      by (auto elim!: returnsE)
    show ?thesis
    proof (cases r2)
      case None': None
      with None n IH m'(1) show ?thesis by (simp add: mons_mset_def)
    next
      case (Some t)
      with IH(2) obtain k m2 where k: "win (rt_tile t) = w" "k < length mons" "mons2 = mons[k := m2]" "mon_ok cv m2"
        "thinned (mons ! k) m2" "mon_mset (mons ! k) = add_mset w (mon_mset m2)" by auto
      have "\<exists>k' m'. k' < length (m # mons) \<and> m # mons2 = (m # mons)[k' := m'] \<and> mon_ok cv m' \<and>
          thinned ((m # mons) ! k') m' \<and> mon_mset ((m # mons) ! k') = add_mset w (mon_mset m')"
        by (rule exI [of _ "Suc k"], rule exI [of _ m2]) (use k in simp)
      with None Some n IH(1) m'(1) k(1) show ?thesis by simp
    qed
  qed
qed

text \<open>What is left of a layout that has given a window away\<close>

definition lt_loses :: "client_view \<Rightarrow> win_id \<Rightarrow> layout \<Rightarrow> layout \<Rightarrow> bool" where
  "lt_loses cv w L L' \<longleftrightarrow>
     lt_ok cv L' \<and> lt_mset L = add_mset w (lt_mset L') \<and> outputs_of (lt_monitors L') = outputs_of (lt_monitors L) \<and>
     lt_options L' = lt_options L"

lemma started_mono: "started_in M s \<Longrightarrow> s \<noteq> Some (MoveStarting w) \<Longrightarrow> M = add_mset w N \<Longrightarrow> started_in N s"
  by (auto simp: started_in_def)

lemma arriving_window_removed:
  assumes ok: "arriving_ok cv n wss" and i: "i < length wss" and l: "ws_loses cv {#w#} (wss ! i) ws"
    and has: "has_windows_or_name ws"
  shows "arriving_ok cv n (wss[i := ws])"
    "mset (concat (map ws_windows wss)) = add_mset w (mset (concat (map ws_windows (wss[i := ws]))))"
proof -
  have ws: "ws_ok cv ws" "ws_mset (wss ! i) = add_mset w (ws_mset ws)" "ws_frame (wss ! i) ws" using l by (simp_all add: ws_loses_def)
  note f = ws_frameD [OF ws(3)]
  have same: "map g (wss[i := ws]) = map g wss" if "g ws = g (wss ! i)" for g :: "workspace \<Rightarrow> 'a"
    using that i by (metis list_update_id map_update)
  have names: "List.map_filter ws_name (wss[i := ws]) = List.map_filter ws_name wss"
    using same [of ws_name] f(2) by (simp add: map_filter_as_map [of ws_name])
  have rest: "mset (wss[i := ws]) = add_mset ws (mset (remove_at i wss))" "mset wss = add_mset (wss ! i) (mset (remove_at i wss))"
    using i mset_remove_at [of i "wss[i := ws]"] mset_remove_at [of i wss] by (simp_all add: remove_at_update)
  show w: "mset (concat (map ws_windows wss)) = add_mset w (mset (concat (map ws_windows (wss[i := ws]))))"
    unfolding windows_list [symmetric] rest using ws(2) by simp
  have "distinct_mset (mset (concat (map ws_windows wss)))" using ok by (simp add: arriving_ok_def)
  then have "distinct (concat (map ws_windows (wss[i := ws])))" unfolding w by simp
  moreover have "x = ws \<or> x \<in> set wss" if "x \<in> set (wss[i := ws])" for x
    using that set_update_subset_insert [of wss i ws] by blast
  moreover have "wss ! i \<in> set wss" using i by simp
  ultimately show "arriving_ok cv n (wss[i := ws])"
    using ok same [of ws_id] f ws(1) names has unfolding arriving_ok_def by metis
qed

lemma lt_set_same: "lt_set L = s \<Longrightarrow> L\<lparr>lt_set := s\<rparr> = L"
  by auto

lemma remove_placed_returns:
  assumes ok: "lt_ok cv L" and start: "lt_interactive_move L \<noteq> Some (MoveStarting w)"
  shows "returns (remove_placed cv w L) (\<lambda>(r, L'). lt_interactive_move L' = lt_interactive_move L \<and>
           (case r of
              None \<Rightarrow> lt_keeps cv L L' \<and> w \<notin># placed_mset L
            | Some r \<Rightarrow> win (rt_tile r) = w \<and> lt_loses cv w L L'))"
proof (cases "lt_set L")
  case (Normal mons p a)
  note n = lt_ok_NormalD [OF ok Normal]
  from remove_from_monitors_returns [of mons cv w, OF mons_ok_each [OF n(1)]] obtain r mons' where
    r: "remove_from_monitors cv w mons = Some (r, mons')"
      "case r of None \<Rightarrow> mons' = mons \<and> w \<notin># mons_mset mons
       | Some r \<Rightarrow> win (rt_tile r) = w \<and>
           (\<exists>k m. k < length mons \<and> mons' = mons[k := m] \<and> mon_ok cv m \<and> thinned (mons ! k) m \<and>
              mon_mset (mons ! k) = add_mset w (mon_mset m))"
    by (auto elim!: returnsE)
  have put: "L\<lparr>lt_set := Normal mons' p a\<rparr> = lt_put mons' p a (lt_next_ws_id L) L" by (simp add: lt_put_def)
  show ?thesis
  proof (cases r)
    case None
    then have "mons' = mons" "w \<notin># mons_mset mons" using r(2) by simp_all
    with None r(1) n(5) Normal lt_keeps_refl [OF ok] show ?thesis by (simp add: remove_placed_def lt_set_same)
  next
    case (Some t)
    with r(2) obtain k m where k: "win (rt_tile t) = w" "k < length mons" "mons' = mons[k := m]" "mon_ok cv m"
      "thinned (mons ! k) m" "mon_mset (mons ! k) = add_mset w (mon_mset m)" by auto
    have ms: "mons_mset mons = add_mset w (mons_mset mons')"
      using k(6) by (simp add: k(3) mons_mset_update [OF k(2)] mons_mset_split [OF k(2)])
    have outs: "outputs_of mons' = outputs_of mons" unfolding k(3) by (rule outputs_of_update) (rule thinnedD(5) [OF k(5)])
    have "distinct_mset (add_mset w (moved_mset L + mons_mset mons'))" using n(4) ms by simp
    then have d: "distinct_mset (moved_mset L + mons_mset mons')" by simp
    have st: "started_in (mons_mset mons') (lt_interactive_move L)"
      using ok n(5) started_mono [OF _ start ms] by (simp add: lt_ok_def)
    have "mons_ok cv (lt_options L) (lt_next_ws_id L) p mons'" unfolding k(3) by (rule mons_ok_thinned [OF n(1) k(2,5,4)])
    from lt_ok_put [OF this _ d st, of a] n(2) have "lt_ok cv (lt_put mons' p a (lt_next_ws_id L) L)" by (simp add: k(3))
    then have "lt_loses cv w L (lt_put mons' p a (lt_next_ws_id L) L)"
      using ms n(5) outs by (simp add: lt_loses_def lt_mset_def) (simp add: lt_monitors_def Normal)
    with Some r(1) k(1) show ?thesis by (simp add: remove_placed_def Normal put)
  qed
next
  case (NoOutputs wss)
  note n = lt_ok_NoOutputsD [OF ok NoOutputs]
  show ?thesis
  proof (cases "position (ws_has_window w) wss")
    case None
    then have "w \<notin># placed_mset L" unfolding n(4) by (auto simp: position_None ws_has_window_def)
    with None lt_keeps_refl [OF ok] NoOutputs show ?thesis by (simp add: remove_placed_def remove_from_workspaces_def lt_set_same)
  next
    case (Some idx)
    note i = position_window [OF Some]
    have "ws_ok cv (wss ! idx)" using n(1) i by (simp add: arriving_ok_def)
    with ws_remove_tile_returns i obtain r ws where
      r: "ws_remove_tile cv w (wss ! idx) = Some (r, ws)" "ws_loses cv {#w#} (wss ! idx) ws" "win (rt_tile r) = w"
      by (blast elim!: returnsE)
    have ws: "ws_mset (wss ! idx) = add_mset w (ws_mset ws)" "base_options ws = base_options (wss ! idx)"
      using r(2) ws_frameD [of "wss ! idx" ws] by (simp_all add: ws_loses_def)
    define wss' where "wss' = (if \<not> has_windows_or_name ws then remove_at idx wss else wss[idx := ws])"
    have rest: "mset wss = add_mset (wss ! idx) (mset (remove_at idx wss))" using i by (simp add: mset_remove_at)
    have ms: "mset (concat (map ws_windows wss)) = add_mset w (mset (concat (map ws_windows wss')))"
    proof (cases "has_windows_or_name ws")
      case True
      with arriving_window_removed(2) [OF n(1) _ r(2) True] i show ?thesis by (simp add: wss'_def)
    next
      case False
      then have "ws_mset ws = {#}" by (simp add: has_windows_or_name_iff)
      with ws(1) rest False show ?thesis by (simp add: wss'_def windows_list [symmetric])
    qed
    have ar: "arriving_ok cv (lt_next_ws_id L) wss'"
      using arriving_remove [OF n(1)] arriving_window_removed(1) [OF n(1) _ r(2)] i by (simp add: wss'_def)
    have base: "\<forall>x \<in> set wss'. base_options x = lt_options L"
    proof
      fix x assume "x \<in> set wss'"
      then have "x = ws \<or> x \<in> set wss"
        using set_remove_at_subset [of idx wss] set_update_subset_insert [of wss idx ws] by (auto simp: wss'_def split: if_splits)
      then show "base_options x = lt_options L" using n(2) ws(2) i by auto
    qed
    define L' where "L' = L\<lparr>lt_set := NoOutputs wss'\<rparr>"
    have mv: "moved_mset L' = moved_mset L" by (simp add: L'_def moved_mset_def moving_data_def)
    have pl: "placed_mset L' = mset (concat (map ws_windows wss'))" by (simp add: L'_def placed_mset_def)
    have "distinct_mset (moved_mset L + placed_mset L')" using n(3) unfolding ms pl by simp
    moreover have "started_in (placed_mset L') (lt_interactive_move L)"
      using ok started_mono [OF _ start, of "placed_mset L" "placed_mset L'"] n(4) ms pl by (simp add: lt_ok_def)
    ultimately have "lt_ok cv L'" using ar base mv by (simp add: lt_ok_def lt_mset_def) (simp add: L'_def)
    then have "lt_loses cv w L L'" using mv pl n(4) ms by (simp add: lt_loses_def lt_mset_def) (simp add: L'_def lt_monitors_def NoOutputs)
    moreover have "remove_placed cv w L = Some (Some r, L')"
      using Some i r(1) by (simp add: remove_placed_def remove_from_workspaces_def NoOutputs L'_def wss'_def)
    ultimately show ?thesis using r(3) by (simp add: L'_def)
  qed
qed

end
