(* ===== verification/LayoutWindows.thy ===== *)
theory LayoutWindows
  imports LayoutTrade
begin

text \<open>
  Windows that open and close, continued: the end of a drag, closing a window in whatever state
  it is, and opening one at every target.
\<close>

section \<open>The same windows, whoever drags them\<close>

definition lt_same :: "client_view \<Rightarrow> layout \<Rightarrow> layout \<Rightarrow> bool" where
  "lt_same cv L L' \<longleftrightarrow>
     lt_ok cv L' \<and> lt_mset L' = lt_mset L \<and> outputs_of (lt_monitors L') = outputs_of (lt_monitors L) \<and>
     lt_options L' = lt_options L"

lemma lt_same_refl: "lt_ok cv L \<Longrightarrow> lt_same cv L L"
  by (simp add: lt_same_def)

lemma lt_same_trans: "lt_same cv A B \<Longrightarrow> lt_same cv B C \<Longrightarrow> lt_same cv A C"
  by (simp add: lt_same_def)

lemma lt_sameD: "lt_same cv L L' \<Longrightarrow> lt_ok cv L'"
  by (simp add: lt_same_def)

lemma keeps_moved: "lt_keeps cv L L' \<Longrightarrow> moved_mset L' = moved_mset L"
  using moving_data_cong [of L' L] by (simp add: lt_keeps_def moved_mset_def)

lemma keeps_mset: "lt_keeps cv L L' \<Longrightarrow> lt_mset L' = lt_mset L"
  using keeps_moved [of cv L L'] by (simp add: lt_mset_def lt_keeps_def)

lemma keeps_same: "lt_keeps cv L L' \<Longrightarrow> lt_same cv L L'"
  using keeps_moved [of cv L L'] by (simp add: lt_same_def lt_mset_def) (simp add: lt_keeps_def)

lemma lt_same_after: "lt_same cv L L' \<Longrightarrow> returns r (lt_same cv L') \<Longrightarrow> returns r (lt_same cv L)"
  by (auto intro: lt_same_trans elim!: returns_mono)

text \<open>Only the state of the drag changes\<close>

lemma lt_move_simps [simp]:
  "lt_set (L\<lparr>lt_interactive_move := s\<rparr>) = lt_set L" "placed_mset (L\<lparr>lt_interactive_move := s\<rparr>) = placed_mset L"
  "lt_monitors (L\<lparr>lt_interactive_move := s\<rparr>) = lt_monitors L" "lt_options (L\<lparr>lt_interactive_move := s\<rparr>) = lt_options L"
  "lt_next_ws_id (L\<lparr>lt_interactive_move := s\<rparr>) = lt_next_ws_id L"
  by (simp_all add: placed_mset_def lt_monitors_def)

definition state_mset :: "move_state option \<Rightarrow> win_id multiset" where
  "state_mset s = (case s of Some (Moving md) \<Rightarrow> {#win (md_tile md)#} | _ \<Rightarrow> {#})"

lemma state_mset_simps [simp]:
  "state_mset None = {#}" "state_mset (Some (MoveStarting w)) = {#}" "state_mset (Some (Moving md)) = {#win (md_tile md)#}"
  by (simp_all add: state_mset_def)

lemma moved_mset_state: "moved_mset L = state_mset (lt_interactive_move L)"
  by (auto simp: moved_mset_def moving_data_def state_mset_def split: option.split move_state.split)

lemma lt_ok_move:
  assumes "lt_ok cv L" "distinct_mset (state_mset s + placed_mset L)" "started_in (placed_mset L) s"
  shows "lt_ok cv (L\<lparr>lt_interactive_move := s\<rparr>)"
  using assms by (simp add: lt_ok_def lt_mset_def moved_mset_state cong: monitor_set.case_cong)

lemma lt_same_move:
  assumes "lt_ok cv L" "state_mset s = state_mset (lt_interactive_move L)" "started_in (placed_mset L) s"
  shows "lt_same cv L (L\<lparr>lt_interactive_move := s\<rparr>)"
proof -
  have d: "distinct_mset (state_mset s + placed_mset L)"
    using assms(1,2) by (simp add: lt_ok_def lt_mset_def moved_mset_state)
  from lt_ok_move [OF assms(1) d assms(3)] assms(2) show ?thesis by (simp add: lt_same_def lt_mset_def moved_mset_state)
qed

section \<open>The end of a drag that has not begun to move\<close>

lemma set_workspace_homely:
  assumes ok: "mon_ok cv m" and i: "i < length (workspaces m)" and k: "ws_keeps cv (workspaces m ! i) ws"
  shows "homely cv m (set_workspace i ws m)"
proof -
  have c: "content_ok cv m" "shape True m" using ok by (simp_all add: mon_ok_def)
  note s = set_workspace_keeps [OF c i k]
  have "ident ws = ident (workspaces m ! i)"
    using k ws_frameD [of "workspaces m ! i" ws] by (simp add: ws_keeps_def ident_def)
  then have "map ident ((workspaces m)[i := ws]) = map ident (workspaces m)" by (metis list_update_id map_update)
  then show ?thesis using mon_keeps_windows [OF s] by (simp add: homely_def set_workspace_def)
qed

lemma workspaces_homely:
  assumes ok: "mon_ok cv m" and k: "list_all2 (ws_keeps cv) (workspaces m) wss"
  shows "homely cv m (m\<lparr>workspaces := wss\<rparr>)"
proof -
  have len: "length wss = length (workspaces m)" using k by (simp add: list_all2_lengthD)
  let ?m = "\<lambda>i. m\<lparr>workspaces := take i wss @ drop i (workspaces m)\<rparr>"
  have "homely cv m (?m i)" if "i \<le> length wss" for i
    using that
  proof (induction i)
    case 0
    then show ?case using homely_refl [OF ok] by simp
  next
    case (Suc i)
    then have h: "homely cv m (?m i)" and i: "i < length wss" by simp_all
    have okm: "mon_ok cv (?m i)" using h by (simp add: homely_def keeps_windows_def)
    have at: "workspaces (?m i) ! i = workspaces m ! i" using i len by (simp add: nth_append)
    have "ws_keeps cv (workspaces (?m i) ! i) (wss ! i)" unfolding at using k i len by (simp add: list_all2_conv_all_nth)
    moreover have "i < length (workspaces (?m i))" using i len by simp
    ultimately have "homely cv (?m i) (set_workspace i (wss ! i) (?m i))" by (intro set_workspace_homely [OF okm])
    moreover have "set_workspace i (wss ! i) (?m i) = ?m (Suc i)"
    proof -
      have "drop i (workspaces m) = workspaces m ! i # drop (Suc i) (workspaces m)" using i len by (simp add: Cons_nth_drop_Suc)
      then have "(take i wss @ drop i (workspaces m))[i := wss ! i] = take (Suc i) wss @ drop (Suc i) (workspaces m)"
        using i by (simp add: list_update_append take_Suc_conv_app_nth)
      then show ?thesis by (simp add: set_workspace_def)
    qed
    ultimately show ?case using homely_trans [OF h] by simp
  qed
  from this [of "length wss"] len show ?thesis by simp
qed

lemma ws_reactivate_returns:
  assumes cv: "parents_acyclic cv" and ok: "ws_ok cv ws"
  shows "returns (ws_reactivate cv w ws) (ws_keeps cv ws)"
proof -
  from ws_active_window_returns [OF ok] obtain a where a: "ws_active_window ws = Some a" by (auto elim!: returnsE)
  have "returns (map_option fst (ws_activate_window cv w ws)) (ws_keeps cv ws)"
    using ws_activate_window_returns [OF cv ok, of w] by (auto elim!: returns_mono)
  with a ws_keeps_refl [OF ok] show ?thesis by (simp add: ws_reactivate_def)
qed

lemma mon_reactivate_returns:
  assumes cv: "parents_acyclic cv" and ok: "mon_ok cv m"
  shows "returns (mon_reactivate cv w m) (homely cv m)"
proof -
  have "ws_ok cv ws" if "ws \<in> set (workspaces m)" for ws
    using that ok ws_ok_of [of cv m] by (auto simp: mon_ok_def in_set_conv_nth)
  then have "returns (map_all (ws_reactivate cv w) (workspaces m)) (list_all2 (ws_keeps cv) (workspaces m))"
    by (intro map_all_returns ws_reactivate_returns [OF cv])
  then obtain wss where wss: "map_all (ws_reactivate cv w) (workspaces m) = Some wss"
    "list_all2 (ws_keeps cv) (workspaces m) wss" by (auto elim!: returnsE)
  define m1 where "m1 = m\<lparr>workspaces := wss\<rparr>"
  have h: "homely cv m m1" unfolding m1_def by (rule workspaces_homely [OF ok wss(2)])
  then have ok1: "mon_ok cv m1" by (simp add: homely_def keeps_windows_def)
  have "homely cv m1 m2" if "activate_sticky_window cv w m1 = Some (m2, b)" "keeps_windows cv m1 m2" for m2 b
    using that by (auto simp: homely_def activate_sticky_window_def bind_eq_Some_conv split: if_splits prod.splits)
  with sticky_ops_keep(1) [OF cv ok1, of w] have "returns (map_option fst (activate_sticky_window cv w m1)) (homely cv m)"
    using homely_trans [OF h] by (auto elim!: returnsE)
  with wss(1) h show ?thesis by (simp add: mon_reactivate_def m1_def Let_def)
qed

lemma arriving_all2:
  assumes ok: "arriving_ok cv n wss" and k: "list_all2 (ws_keeps cv) wss wss'"
  shows "arriving_ok cv n wss'" "mset (concat (map ws_windows wss')) = mset (concat (map ws_windows wss))"
    "map base_options wss' = map base_options wss"
proof -
  have len: "length wss' = length wss" using k by (simp add: list_all2_lengthD)
  have at: "ws_keeps cv (wss ! i) (wss' ! i)" if "i < length wss" for i using k that by (rule list_all2_nthD)
  have fr: "ws_frame (wss ! i) (wss' ! i)" if "i < length wss" for i using at [OF that] by (simp add: ws_keeps_def)
  note f = ws_frameD [OF fr]
  have map: "map g wss' = map g wss" if "\<And>i. i < length wss \<Longrightarrow> g (wss' ! i) = g (wss ! i)" for g :: "workspace \<Rightarrow> 'a"
    by (rule nth_equalityI) (use len that in simp_all)
  show "map base_options wss' = map base_options wss" by (rule map) (rule f)
  have ms: "map ws_mset wss' = map ws_mset wss" by (rule map) (use at in \<open>simp add: ws_keeps_def\<close>)
  then show w: "mset (concat (map ws_windows wss')) = mset (concat (map ws_windows wss))"
    by (simp add: windows_list [symmetric] flip: mset_map)
  have names: "List.map_filter ws_name wss' = List.map_filter ws_name wss"
    using map [of ws_name] f(2) by (simp add: map_filter_as_map [of ws_name])
  have ids: "map ws_id wss' = map ws_id wss" by (rule map) (rule f)
  have d: "distinct (concat (map ws_windows wss'))" using ok w mset_eq_imp_distinct_iff by (auto simp: arriving_ok_def)
  have all: "has_windows_or_name ws \<and> ws_ok cv ws \<and> ws_id ws < n \<and> (ws_hidden ws \<or> needs_hidden ws \<longrightarrow> ws_name ws \<noteq> None)"
    if "ws \<in> set wss'" for ws
  proof -
    obtain i where i: "i < length wss" "ws = wss' ! i" using \<open>ws \<in> set wss'\<close> len unfolding in_set_conv_nth by auto
    have k: "ws_ok cv (wss' ! i)" "ws_mset (wss' ! i) = ws_mset (wss ! i)" using at [OF i(1)] by (simp_all add: ws_keeps_def)
    have "wss ! i \<in> set wss" using i(1) by simp
    then show ?thesis using ok i(2) k f [OF i(1)] by (simp add: arriving_ok_def has_windows_or_name_iff)
  qed
  show "arriving_ok cv n wss'" using ok all d ids names by (simp add: arriving_ok_def)
qed

lemma end_starting_move_returns:
  assumes cv: "parents_acyclic cv" and ok: "lt_ok cv L" and start: "lt_interactive_move L = Some (MoveStarting v)"
  shows "returns (end_starting_move cv pos w L) (\<lambda>L'. lt_same cv L L' \<and> lt_interactive_move L' = None)"
proof -
  define L0 where "L0 = L\<lparr>lt_interactive_move := None\<rparr>"
  have s0: "lt_same cv L L0"
    unfolding L0_def by (rule lt_same_move [OF ok]) (simp_all add: start started_in_def)
  from swipes_keep(4) [OF lt_sameD [OF s0], of pos] obtain L1 where
    L1: "end_scroll_gestures pos L0 = Some L1" "lt_keeps cv L0 L1" by (auto elim!: returnsE)
  have k: "returns (case lt_set L1 of
        Normal _ _ _ \<Rightarrow> on_all_monitors (mon_reactivate cv w) L1
      | NoOutputs wss \<Rightarrow> map_option (\<lambda>wss. L1\<lparr>lt_set := NoOutputs wss\<rparr>) (map_all (ws_reactivate cv w) wss)) (lt_keeps cv L1)"
  proof (cases "lt_set L1")
    case (Normal mons p a)
    with all_monitors_keep [OF lt_keepsD [OF L1(2)] mon_reactivate_returns [OF cv]] show ?thesis by simp
  next
    case (NoOutputs wss)
    note ok1 = lt_keepsD [OF L1(2)]
    note n = lt_ok_NoOutputsD [OF ok1 NoOutputs]
    have "returns (map_all (ws_reactivate cv w) wss) (list_all2 (ws_keeps cv) wss)"
      using n(1) by (intro map_all_returns ws_reactivate_returns [OF cv]) (simp add: arriving_ok_def)
    then obtain wss' where w: "map_all (ws_reactivate cv w) wss = Some wss'" "list_all2 (ws_keeps cv) wss wss'"
      by (auto elim!: returnsE)
    note a = arriving_all2 [OF n(1) w(2)]
    have "base_options ` set wss' = base_options ` set wss" using a(3) by (metis set_map)
    then have "\<forall>ws \<in> set wss'. base_options ws = lt_options L1" using n(2) by (metis image_iff)
    then have "lt_keeps cv L1 (L1\<lparr>lt_set := NoOutputs wss'\<rparr>)" using ok1 n(3,4) a(1,2)
      by (simp add: lt_keeps_def lt_ok_def lt_mset_def placed_mset_def moved_mset_def moving_data_def lt_monitors_def NoOutputs)
    with w(1) NoOutputs show ?thesis by simp
  qed
  have none: "lt_interactive_move L1 = None" using L1(2) by (simp add: lt_keeps_def L0_def)
  have s1: "lt_same cv L L1" by (rule lt_same_trans [OF s0 keeps_same [OF L1(2)]])
  have "returns (end_starting_move cv pos w L) (lt_keeps cv L1)" using k L1(1) by (simp add: end_starting_move_def L0_def Let_def)
  then show ?thesis
    by (rule returns_mono) (use none lt_same_trans [OF s1 keeps_same] in \<open>auto simp: lt_keeps_def\<close>)
qed

section \<open>Closing a window\<close>

lemma end_scroll_keeps_none:
  assumes ok: "lt_ok cv L"
  shows "returns (end_scroll_gestures pos L) (\<lambda>L'. lt_keeps cv L L')"
  by (rule swipes_keep(4) [OF ok])

lemma keeps_then_loses: "lt_same cv L L1 \<Longrightarrow> lt_loses cv w L1 L2 \<Longrightarrow> lt_loses cv w L L2"
  by (simp add: lt_same_def lt_loses_def)

lemma remove_window_returns:
  assumes cv: "parents_acyclic cv" and ok: "lt_ok cv L"
  shows "returns (remove_window cv pos w L) (\<lambda>(r, L'). case r of
           None \<Rightarrow> lt_same cv L L' \<and> \<not> lt_has_window w L
         | Some r \<Rightarrow> win (rt_tile r) = w \<and> lt_loses cv w L L')"
proof -
  have has: "lt_has_window w L \<longleftrightarrow> w \<in># lt_mset L" for L by (simp add: lt_has_window_def lt_windows_mset [symmetric])
  have "returns (if lt_interactive_move L = Some (MoveStarting w) then end_starting_move cv pos w L else Some L)
      (\<lambda>L1. lt_same cv L L1 \<and> lt_interactive_move L1 \<noteq> Some (MoveStarting w))"
    using end_starting_move_returns [OF cv ok, of w pos w] lt_same_refl [OF ok] by (auto elim!: returns_mono)
  then obtain L1 where L1: "(if lt_interactive_move L = Some (MoveStarting w) then end_starting_move cv pos w L else Some L) = Some L1"
    "lt_same cv L L1" "lt_interactive_move L1 \<noteq> Some (MoveStarting w)"
    by (auto elim!: returnsE)
  note ok1 = lt_sameD [OF L1(2)]
  have ms: "lt_mset L1 = lt_mset L" using L1(2) by (simp add: lt_same_def)
  have placed: "returns (remove_placed cv w L1) (\<lambda>(r, L'). case r of
      None \<Rightarrow> lt_same cv L L' \<and> \<not> lt_has_window w L
    | Some r \<Rightarrow> win (rt_tile r) = w \<and> lt_loses cv w L L')"
    if mv: "w \<notin># moved_mset L1"
  proof (rule returns_mono [OF remove_placed_returns [OF ok1 L1(3)]], clarify)
    fix r L'
    assume m: "lt_interactive_move L' = lt_interactive_move L1"
      and r: "case r of None \<Rightarrow> lt_keeps cv L1 L' \<and> w \<notin># placed_mset L1 | Some r \<Rightarrow> win (rt_tile r) = w \<and> lt_loses cv w L1 L'"
    show "case r of None \<Rightarrow> lt_same cv L L' \<and> \<not> lt_has_window w L | Some r \<Rightarrow> win (rt_tile r) = w \<and> lt_loses cv w L L'"
    proof (cases r)
      case None
      then have "w \<notin># lt_mset L1" using r mv by (simp add: lt_mset_def)
      then show ?thesis using None r lt_same_trans [OF L1(2) keeps_same] by (simp add: has ms)
    next
      case (Some t)
      with r keeps_then_loses [OF L1(2)] show ?thesis by simp
    qed
  qed
  show ?thesis
  proof (cases "moving_data L1")
    case None
    then have "w \<notin># moved_mset L1" by (simp add: moved_mset_def)
    from placed [OF this] None L1(1) show ?thesis by (simp add: remove_window_def)
  next
    case (Some md)
    show ?thesis
    proof (cases "win (md_tile md) = w")
      case False
      then have "w \<notin># moved_mset L1" using Some by (simp add: moved_mset_def)
      from placed [OF this] Some False L1(1) show ?thesis by (simp add: remove_window_def)
    next
      case True
      have mv: "lt_interactive_move L1 = Some (Moving md)"
        using Some by (auto simp: moving_data_def split: option.splits move_state.splits)
      define L2 where "L2 = L1\<lparr>lt_interactive_move := None\<rparr>"
      have "lt_ok cv L2"
        unfolding L2_def using ok1
        by (intro lt_ok_move) (simp_all add: started_in_def lt_ok_def lt_mset_def distinct_mset_union)
      from swipes_keep(4) [OF this, of pos] obtain L3 where L3: "end_scroll_gestures pos L2 = Some L3" "lt_keeps cv L2 L3"
        by (auto elim!: returnsE)
      have "lt_mset L1 = add_mset w (lt_mset L2)" using mv True by (simp add: lt_mset_def moved_mset_state L2_def)
      then have "lt_loses cv w L1 L3"
        using keeps_same [OF L3(2)] by (simp add: lt_loses_def lt_same_def) (simp add: L2_def)
      then have "lt_loses cv w L L3" by (rule keeps_then_loses [OF L1(2)])
      with Some True L1(1) L3(1) show ?thesis by (simp add: remove_window_def L2_def removed_of_move_def)
    qed
  qed
qed

section \<open>Opening a window\<close>

definition lt_gains :: "client_view \<Rightarrow> win_id \<Rightarrow> layout \<Rightarrow> layout \<Rightarrow> bool" where
  "lt_gains cv w L L' \<longleftrightarrow>
     lt_ok cv L' \<and> lt_mset L' = add_mset w (lt_mset L) \<and> outputs_of (lt_monitors L') = outputs_of (lt_monitors L) \<and>
     lt_options L' = lt_options L \<and> lt_interactive_move L' = lt_interactive_move L"

text \<open>A step of one monitor that takes a window in\<close>

lemma gain_on_monitor:
  assumes ok: "lt_ok cv L" and L: "lt_set L = Normal mons p a" and k: "k < length mons" and w: "w \<notin># lt_mset L"
    and run: "returns (f (at_counter (lt_next_ws_id L) (mons ! k)))
      (\<lambda>(x, m'). mon_ok cv m' \<and> mon_mset m' = add_mset w (mon_mset (mons ! k)) \<and> Q x m')"
    and frame: "\<And>fr x m'. stays fr (at_counter (lt_next_ws_id L) (mons ! k)) \<Longrightarrow>
      f (at_counter (lt_next_ws_id L) (mons ! k)) = Some (x, m') \<Longrightarrow> stays fr m'"
  shows "returns (on_monitor k f L) (\<lambda>(x, L'). lt_gains cv w L L' \<and>
           (\<exists>m'. L' = lt_put (mons[k := m']) p a (next_ws_id m') L \<and> Q x m'))"
proof -
  note n = lt_ok_NormalD [OF ok L]
  from run obtain x m' where r: "f (at_counter (lt_next_ws_id L) (mons ! k)) = Some (x, m')" "mon_ok cv m'"
    "mon_mset m' = add_mset w (mon_mset (mons ! k))" "Q x m'"
    by (auto elim!: returnsE)
  have fr: "stays fr m'" if "stays fr (at_counter (lt_next_ws_id L) (mons ! k))" for fr
    using frame [OF that r(1)] .
  let ?L = "lt_put (mons[k := m']) p a (next_ws_id m') L"
  have ms: "mons_mset (mons[k := m']) = add_mset w (mons_mset mons)"
    using r(3) by (simp add: mons_mset_update [OF k] mons_mset_split [OF k])
  have outs: "outputs_of (mons[k := m']) = outputs_of mons"
    using fr [OF mons_ok_nth(3) [OF n(1) k]] mons_ok_nth(2) [OF n(1) k]
    by (intro outputs_of_update) (simp add: stays_frame [OF mons_ok_nth(4,5) [OF n(1) k]])
  have "distinct_mset (moved_mset L + mons_mset (mons[k := m']))"
    using n(4,5) w by (simp add: ms lt_mset_def)
  moreover have "started_in (mons_mset (mons[k := m'])) (lt_interactive_move L)"
    using ok n(5) by (auto simp: lt_ok_def started_in_def ms)
  ultimately have "lt_ok cv ?L"
    using lt_ok_put [OF mons_ok_step [OF n(1) k r(2) fr]] n(2) by simp
  then have "lt_gains cv w L ?L"
    using ms outs n(5) by (simp add: lt_gains_def lt_mset_def) (simp add: lt_monitors_def L)
  with r show ?thesis by (auto simp: on_monitor_eq [OF L k])
qed

lemma gains_active:
  assumes "lt_gains cv w L L'" "k < length (lt_monitors L)"
  shows "lt_gains cv w L (set_active_monitor k L')"
proof (cases "lt_set L'")
  case (Normal mons p a)
  have ok: "lt_ok cv L'" using assms(1) by (simp add: lt_gains_def)
  have "length (lt_monitors L') = length (lt_monitors L)"
    using assms(1) by (metis length_map lt_gains_def outputs_of_def)
  then have "k < length mons" using assms(2) by (simp add: lt_monitors_def Normal)
  note k = lt_keeps_active [OF ok Normal this]
  from keeps_mset [OF k] k assms(1) show ?thesis by (simp add: lt_gains_def lt_keeps_def)
qed (use assms in \<open>simp add: set_active_monitor_def\<close>)

text \<open>A target that the caller of \<open>add_window\<close> may name\<close>

definition target_exists :: "layout_add_target \<Rightarrow> layout \<Rightarrow> bool" where
  "target_exists target L \<longleftrightarrow>
     (case target of
        LtAuto \<Rightarrow> True
      | LtOutput out \<Rightarrow> out \<in> set (outputs_of (lt_monitors L))
      | LtWorkspace i \<Rightarrow> i \<in> ws_id ` set (lt_workspaces L)
      | LtNextTo w \<Rightarrow> lt_has_window w L)"

lemma position_found: "list_ex P xs \<Longrightarrow> \<exists>k. position P xs = Some k \<and> k < length xs \<and> P (xs ! k)"
  using position_None [of P xs] position_SomeD [of P xs] by (cases "position P xs") (auto simp: list_ex_iff)

lemma monitor_target_enabled:
  assumes ok: "lt_ok cv L" and L: "lt_set L = Normal mons p a" and t: "target_exists target L"
  shows "\<exists>k tg idx tgt. lt_resolve_target L mons a target = Some (k, tg) \<and> k < length mons \<and>
    resolve_add_window_target tg (mons ! k) = Some (idx, tgt) \<and> idx < length (workspaces (mons ! k)) \<and>
    target_valid tgt (workspaces (mons ! k) ! idx)"
proof -
  note n = lt_ok_NormalD [OF ok L]
  have auto: "\<exists>idx tgt. resolve_add_window_target MonAuto (mons ! k) = Some (idx, tgt) \<and> idx < length (workspaces (mons ! k)) \<and>
      target_valid tgt (workspaces (mons ! k) ! idx)" if "k < length mons" for k
    using mons_ok_each [OF n(1)] that active_workspace_Some(2) [of True "mons ! k"]
    by (simp add: resolve_add_window_target_def mon_ok_def)
  show ?thesis
  proof (cases target)
    case LtAuto
    with auto [OF n(2)] n(2) show ?thesis by (simp add: lt_resolve_target_def)
  next
    case (LtOutput out)
    then have "list_ex (\<lambda>m. mon_output m = out) mons"
      using t by (auto simp: target_exists_def lt_monitors_def L outputs_of_def list_ex_iff)
    from position_found [OF this] obtain k where "monitor_of_output out mons = Some k" "k < length mons"
      by (auto simp: monitor_of_output_def)
    with auto LtOutput show ?thesis by (simp add: lt_resolve_target_def)
  next
    case (LtWorkspace i)
    then have "list_ex (\<lambda>m. list_ex (\<lambda>ws. ws_id ws = i) (workspaces m)) mons"
      using t by (auto simp: target_exists_def lt_workspaces_def L list_ex_iff)
    from position_found [OF this] obtain k where
      k: "position (\<lambda>m. list_ex (\<lambda>ws. ws_id ws = i) (workspaces m)) mons = Some k" "k < length mons"
        "list_ex (\<lambda>ws. ws_id ws = i) (workspaces (mons ! k))" by auto
    from position_found [OF k(3)] obtain idx where "idx_of_ws i (mons ! k) = Some idx" "idx < length (workspaces (mons ! k))"
      by (auto simp: idx_of_ws_def)
    with k LtWorkspace show ?thesis by (simp add: lt_resolve_target_def resolve_add_window_target_def)
  next
    case (LtNextTo w)
    show ?thesis
    proof (cases "is_moved w L")
      case True
      then obtain md where md: "moving_data L = Some md" by (auto simp: is_moved_def split: option.splits)
      define k where "k = (case monitor_of_output (md_output md) mons of Some k \<Rightarrow> k | None \<Rightarrow> a)"
      have "k < length mons" using n(2) position_SomeD by (auto simp: k_def monitor_of_output_def split: option.split)
      with auto [OF this] LtNextTo True md show ?thesis by (simp add: lt_resolve_target_def k_def)
    next
      case False
      show ?thesis
      proof (cases "position (sticky_has_window w) mons")
        case (Some k)
        then have "k < length mons" using position_SomeD by blast
        with auto [OF this] Some LtNextTo False show ?thesis by (simp add: lt_resolve_target_def next_to_in_def)
      next
        case None
        then have "\<not> is_sticky_window w L" by (auto simp: position_None is_sticky_window_def lt_monitors_def L list_ex_iff)
        with placed_in_workspace [OF _ False _ L] t LtNextTo have "list_ex (in_workspaces w) mons"
          by (simp add: target_exists_def)
        from position_found [OF this] obtain k where k: "position (in_workspaces w) mons = Some k" "k < length mons"
          "in_workspaces w (mons ! k)" by auto
        from position_found [OF k(3) [unfolded in_workspaces_def]] obtain idx where
          "position (ws_has_window w) (workspaces (mons ! k)) = Some idx" "idx < length (workspaces (mons ! k))"
          "w \<in> set (ws_windows (workspaces (mons ! k) ! idx))" by (auto simp: ws_has_window_def)
        with k None LtNextTo False show ?thesis
          by (simp add: lt_resolve_target_def next_to_in_def resolve_add_window_target_def)
      qed
    qed
  qed
qed

lemma mon_add_window_placed:
  assumes cv: "parents_acyclic cv" and ok: "mon_ok cv m" and en: "add_enabled t target is_sticky m"
  shows "returns (mon_add_window cv t target activate width full fl is_sticky force m)
           (\<lambda>m'. mon_ok cv m' \<and> mon_mset m' = add_mset (win t) (mon_mset m) \<and>
              (\<not> is_sticky \<longrightarrow> in_workspaces (win t) m'))"
proof (cases is_sticky)
  case True
  have c: "content_ok cv m" "shape True m" using ok by (simp_all add: mon_ok_def)
  from mon_add_window_returns [OF cv c en] True show ?thesis by (auto simp: mon_ok_def elim!: returns_mono)
next
  case False
  have c: "content_ok cv m" "shape True m" using ok by (simp_all add: mon_ok_def)
  from en False obtain k tg where r: "resolve_add_window_target target m = Some (k, tg)" "k < length (workspaces m)"
    "target_valid tg (workspaces m ! k)"
    by (auto simp: add_enabled_def split: option.splits)
  have ne: "workspaces m \<noteq> []" using r(2) by auto
  have fresh: "win t \<notin># mon_mset m" using en by (simp add: add_enabled_def mon_mset_windows)
  have "returns (mon_add_tile cv t target activate True width full fl force m)
      (\<lambda>m'. mon_ok cv m' \<and> mon_mset m' = add_mset (win t) (mon_mset m) \<and> in_workspaces (win t) m')"
  proof (rule returns_mono [OF mon_add_tile_returns [OF cv c r fresh]], elim conjE)
    fix m' assume took: "took_in cv True {#win t#} (\<lambda>_. True) (ws_id (workspaces m ! k)) m m'"
    have c': "content_ok cv m'" "shape True m'" "mon_mset m' = add_mset (win t) (mon_mset m)"
      using took by (simp_all add: took_in_def)
    from took obtain b where b: "b \<in># bodies m'" "win t \<in># body_mset b" by (auto simp: took_in_def)
    from find_body [OF c'(1) b(1)] obtain i where "i < length (workspaces m')" "body (workspaces m' ! i) = b" by blast
    then have "ws_has_window (win t) (workspaces m' ! i)" using b(2) by (metis body_mset_body ws_has_window_iff)
    then have "in_workspaces (win t) m'" using \<open>i < length (workspaces m')\<close> by (auto simp: in_workspaces_def list_ex_iff)
    with c' show "mon_ok cv m' \<and> mon_mset m' = add_mset (win t) (mon_mset m) \<and> in_workspaces (win t) m'"
      by (simp add: mon_ok_def)
  qed
  with False ne show ?thesis by (auto simp: mon_add_window_def elim!: returns_mono)
qed

lemma no_outputs_new_simps [simp]:
  "ws_mset (workspace_new_no_outputs i opts) = {#}" "ws_name (workspace_new_no_outputs i opts) = None"
  "\<not> ws_hidden (workspace_new_no_outputs i opts)" "\<not> needs_hidden (workspace_new_no_outputs i opts)"
  "ws_id (workspace_new_no_outputs i opts) = i" "base_options (workspace_new_no_outputs i opts) = opts"
  "ws_ok cv (workspace_new_no_outputs i opts)" "ws_windows (workspace_new_no_outputs i opts) = []"
  using new_with_config_ok(2) [of cv i None opts]
  by (simp_all add: workspace_new_no_outputs_def)
    (simp_all add: new_with_config_no_outputs_def ws_mset_def win_mset_def empty_scrolling_def fl_mset_def fl_windows_def
      empty_floating_def Let_def ws_windows_def scrolling_windows_def)

lemma arriving_gain:
  assumes ok: "arriving_ok cv n wss" and i: "i < length wss" and g: "ws_gains cv {#w#} (wss ! i) ws"
    and fresh: "w \<notin> set (concat (map ws_windows wss))"
  shows "arriving_ok cv n (wss[i := ws])"
    "mset (concat (map ws_windows (wss[i := ws]))) = add_mset w (mset (concat (map ws_windows wss)))"
proof -
  have ws: "ws_ok cv ws" "ws_mset ws = add_mset w (ws_mset (wss ! i))" "ws_frame (wss ! i) ws" using g by (simp_all add: ws_gains_def)
  note f = ws_frameD [OF ws(3)]
  have same: "map g (wss[i := ws]) = map g wss" if "g ws = g (wss ! i)" for g :: "workspace \<Rightarrow> 'a"
    using that i by (metis list_update_id map_update)
  have names: "List.map_filter ws_name (wss[i := ws]) = List.map_filter ws_name wss"
    using same [of ws_name] f(2) by (simp add: map_filter_as_map [of ws_name])
  have rest: "mset (wss[i := ws]) = add_mset ws (mset (remove_at i wss))" "mset wss = add_mset (wss ! i) (mset (remove_at i wss))"
    using i mset_remove_at [of i "wss[i := ws]"] mset_remove_at [of i wss] by (simp_all add: remove_at_update)
  show w: "mset (concat (map ws_windows (wss[i := ws]))) = add_mset w (mset (concat (map ws_windows wss)))"
    unfolding windows_list [symmetric] rest using ws(2) by simp
  have "distinct_mset (add_mset w (mset (concat (map ws_windows wss))))" using ok fresh by (simp add: arriving_ok_def)
  then have "distinct (concat (map ws_windows (wss[i := ws])))" unfolding w [symmetric] by simp
  moreover have "x = ws \<or> x \<in> set wss" if "x \<in> set (wss[i := ws])" for x
    using that set_update_subset_insert [of wss i ws] by blast
  moreover have "wss ! i \<in> set wss" using i by simp
  moreover have "has_windows_or_name ws" using ws(2) by (simp add: has_windows_or_name_iff)
  ultimately show "arriving_ok cv n (wss[i := ws])"
    using ok same [of ws_id] f ws(1) names unfolding arriving_ok_def by metis
qed

text \<open>A window put on a workspace without outputs, which may be a new one\<close>

lemma gain_NoOutputs:
  assumes cv: "parents_acyclic cv" and ok: "lt_ok cv L" and L: "lt_set L = NoOutputs wss"
    and wss': "(wss', n) = first_workspace L wss \<or> wss' = wss \<and> n = lt_next_ws_id L" "k < length wss'"
    and t: "win t \<notin># lt_mset L" "target_valid target (wss' ! k)"
  shows "returns (do {
      ws \<leftarrow> vec_get wss' k;
      ws \<leftarrow> ws_add_tile cv t target activate width full fl ws;
      Some (L\<lparr>lt_set := NoOutputs (wss'[k := ws]), lt_next_ws_id := n\<rparr>)
    }) (lt_gains cv (win t) L)"
proof -
  note no = lt_ok_NoOutputsD [OF ok L]
  have fresh: "win t \<notin> set (concat (map ws_windows wss))" using t(1) no(4) by (simp add: lt_mset_def del: set_concat)
  have new: "wss = [] \<and> wss' = [workspace_new_no_outputs (lt_next_ws_id L) (lt_options L)] \<and> n = lt_next_ws_id L + 1 \<or>
      wss' = wss \<and> n = lt_next_ws_id L"
    using wss'(1) by (auto simp: first_workspace_def split: if_splits)
  have w: "wss' ! k \<in> set wss'" using wss'(2) by simp
  have okw: "ws_ok cv (wss' ! k)" "base_options (wss' ! k) = lt_options L" "win t \<notin> set (ws_windows (wss' ! k))"
    using new no(1,2) w wss'(2) fresh by (auto simp: arriving_ok_def)
  from ws_add_tile_returns [OF cv okw(1,3) t(2), of activate width full fl] obtain ws where
    ws: "ws_add_tile cv t target activate width full fl (wss' ! k) = Some ws" "ws_gains cv {#win t#} (wss' ! k) ws"
    by (auto elim!: returnsE)
  have b: "base_options ws = lt_options L" using ws(2) ws_frameD(8) [of "wss' ! k" ws] okw(2) by (simp add: ws_gains_def)
  define L' where "L' = L\<lparr>lt_set := NoOutputs (wss'[k := ws]), lt_next_ws_id := n\<rparr>"
  have ar: "arriving_ok cv n (wss'[k := ws]) \<and>
      mset (concat (map ws_windows (wss'[k := ws]))) = add_mset (win t) (mset (concat (map ws_windows wss)))"
    using new
  proof
    assume a: "wss = [] \<and> wss' = [workspace_new_no_outputs (lt_next_ws_id L) (lt_options L)] \<and> n = lt_next_ws_id L + 1"
    then have k: "k = 0" using wss'(2) by simp
    have g: "ws_ok cv ws" "ws_mset ws = {#win t#}" "ws_id ws = lt_next_ws_id L" "ws_name ws = None" "\<not> ws_hidden ws" "\<not> needs_hidden ws"
      using ws(2) a k ws_frameD [of "wss' ! k" ws] by (simp_all add: ws_gains_def)
    have "mset (ws_windows ws) = mset [win t]" using g(2) by (simp add: ws_mset_windows)
    then have "ws_windows ws = [win t]" by simp
    then show ?thesis using a k g
      by (simp add: arriving_ok_def has_windows_or_name_def ws_has_windows_def List.map_filter_simps)
  next
    assume a: "wss' = wss \<and> n = lt_next_ws_id L"
    with arriving_gain [OF no(1) _ _ fresh] wss'(2) ws(2) show ?thesis by simp
  qed
  have base: "\<forall>x \<in> set (wss'[k := ws]). base_options x = lt_options L"
  proof
    fix x assume "x \<in> set (wss'[k := ws])"
    then have "x = ws \<or> x \<in> set wss'" using set_update_subset_insert [of wss' k ws] by blast
    then show "base_options x = lt_options L" using new no(2) b by auto
  qed
  have mv: "moved_mset L' = moved_mset L" by (simp add: L'_def moved_mset_def moving_data_def)
  have pl: "placed_mset L' = add_mset (win t) (placed_mset L)" using ar no(4) by (simp add: L'_def placed_mset_def)
  have "distinct_mset (moved_mset L + placed_mset L')" using no(3,4) t(1) by (simp add: pl lt_mset_def)
  moreover have "started_in (placed_mset L') (lt_interactive_move L)"
    using ok by (auto simp: pl lt_ok_def started_in_def)
  ultimately have "lt_ok cv L'" using ar base mv by (simp add: lt_ok_def lt_mset_def) (simp add: L'_def)
  then have "lt_gains cv (win t) L L'" using mv pl by (simp add: lt_gains_def lt_mset_def) (simp add: L'_def lt_monitors_def L)
  with wss'(2) ws(1) show ?thesis by (simp add: L'_def)
qed

lemma no_outputs_target_valid:
  assumes ok: "lt_ok cv L" and L: "lt_set L = NoOutputs wss" and t: "target_exists target L"
  shows "\<exists>k tg wss' n. no_outputs_target L wss target = Some (k, tg, wss', n) \<and> k < length wss' \<and> target_valid tg (wss' ! k) \<and>
    ((wss', n) = first_workspace L wss \<or> wss' = wss \<and> n = lt_next_ws_id L)"
proof -
  have first: "0 < length (fst (first_workspace L wss))" by (simp add: first_workspace_def)
  obtain f fn where f: "first_workspace L wss = (f, fn)" by fastforce
  show ?thesis
  proof (cases target)
    case LtAuto
    with first f show ?thesis by (simp add: no_outputs_target_def)
  next
    case (LtOutput out)
    with t show ?thesis by (simp add: target_exists_def lt_monitors_def L outputs_of_def)
  next
    case (LtWorkspace i)
    then have "list_ex (\<lambda>ws. ws_id ws = i) wss" using t by (auto simp: target_exists_def lt_workspaces_def L list_ex_iff)
    from position_found [OF this] LtWorkspace show ?thesis by (auto simp: no_outputs_target_def)
  next
    case (LtNextTo w)
    show ?thesis
    proof (cases "is_moved w L")
      case True
      with first f LtNextTo show ?thesis by (simp add: no_outputs_target_def)
    next
      case False
      then have "list_ex (ws_has_window w) wss" using t LtNextTo
        by (auto simp: target_exists_def lt_has_window_def lt_windows_def lt_monitors_def lt_workspaces_def L list_ex_iff
            ws_has_window_def is_moved_def split: option.splits)
      from position_found [OF this] LtNextTo False show ?thesis by (auto simp: no_outputs_target_def ws_has_window_def)
    qed
  qed
qed

lemma on_monitor_length: "lt_set L = Normal mons p a \<Longrightarrow> length (lt_monitors L) = length mons"
  by (simp add: lt_monitors_def)

lemma add_window_returns:
  assumes cv: "parents_acyclic cv" and ok: "lt_ok cv L" and t: "target_exists target L" "\<not> lt_has_window (win t) L"
    and h: "height \<Longrightarrow> is_sticky \<Longrightarrow> is_floating"
  shows "returns (add_window cv t target width height full is_floating is_sticky activate force L)
           (\<lambda>(out, L'). lt_gains cv (win t) L L')"
proof -
  have fresh: "win t \<notin># lt_mset L" using t(2) by (simp add: lt_has_window_def lt_windows_mset [symmetric])
  show ?thesis
  proof (cases "lt_set L")
    case (NoOutputs wss)
    from no_outputs_target_valid [OF ok NoOutputs t(1)] obtain k tg wss' n where
      k: "no_outputs_target L wss target = Some (k, tg, wss', n)" "k < length wss'" "target_valid tg (wss' ! k)"
        "(wss', n) = first_workspace L wss \<or> wss' = wss \<and> n = lt_next_ws_id L" by blast
    from gain_NoOutputs [OF cv ok NoOutputs k(4,2) fresh k(3), of activate width full "is_floating \<or> is_sticky"] k(1,2)
    show ?thesis by (simp add: add_window_def NoOutputs)
  next
    case (Normal mons p a)
    note n = lt_ok_NormalD [OF ok Normal]
    from monitor_target_enabled [OF ok Normal t(1)] obtain k tg idx tgt where
      k: "lt_resolve_target L mons a target = Some (k, tg)" "k < length mons"
        "resolve_add_window_target tg (mons ! k) = Some (idx, tgt)" "idx < length (workspaces (mons ! k))"
        "target_valid tgt (workspaces (mons ! k) ! idx)" by blast
    let ?m = "at_counter (lt_next_ws_id L) (mons ! k)"
    let ?add = "mon_add_window cv t tg activate width full is_floating is_sticky force"
    let ?f = "\<lambda>m. do {
        m \<leftarrow> ?add m;
        assert_that (\<not> is_floating \<and> height \<longrightarrow> in_workspaces (win t) m);
        Some (mon_output m, m)
      }"
    have "mons_mset mons = mon_mset (mons ! k) + mons_mset (remove_at k mons)" by (rule mons_mset_split [OF k(2)])
    then have "win t \<notin># mon_mset (mons ! k)" using fresh n(5) by (simp add: lt_mset_def)
    then have en: "add_enabled t tg is_sticky ?m"
      using k(3-5) by (simp add: add_enabled_def mon_mset_windows resolve_add_window_target_def split: mon_add_target.splits)
    have "returns (?f ?m) (\<lambda>(x, m'). mon_ok cv m' \<and> mon_mset m' = add_mset (win t) (mon_mset (mons ! k)) \<and> True)"
      using mon_add_window_placed [OF cv mons_ok_nth(1) [OF n(1) k(2)] en, of activate width full is_floating force] h
      by (cases is_sticky) (auto simp: assert_that_def elim!: returnsE)
    then have "returns (on_monitor k ?f L) (\<lambda>(x, L'). lt_gains cv (win t) L L' \<and>
        (\<exists>m'. L' = lt_put (mons[k := m']) p a (next_ws_id m') L \<and> True))"
    proof (rule gain_on_monitor [OF ok Normal k(2) fresh])
      fix fr x m' assume st: "stays fr ?m" and r: "?f ?m = Some (x, m')"
      have "yields fr (?add ?m) (stays fr)" using st by (intro frames)
      moreover have "?add ?m = Some m'" using r by (auto simp: bind_eq_Some_conv)
      ultimately show "stays fr m'" using st stays_result by blast
    qed
    then obtain out L1 where L1: "on_monitor k ?f L = Some (out, L1)" "lt_gains cv (win t) L L1" by (auto elim!: returnsE)
    from map_smart_returns [of "Some False" activate] obtain b where b: "map_smart activate (Some False) = Some b"
      by (auto elim!: returnsE)
    have "lt_gains cv (win t) L (set_active_monitor k L1)"
      by (rule gains_active [OF L1(2)]) (simp add: on_monitor_length [OF Normal] k(2))
    with L1 b k show ?thesis by (simp add: add_window_def Normal)
  qed
qed

end
