(* ===== verification/LayoutTravel.thy ===== *)
theory LayoutTravel
  imports LayoutWindows
begin

text \<open>
  Windows and columns that go to another output. In between, the monitor they leave has not
  been tidied up yet, so the invariant is put together from both monitors at the end.
\<close>

section \<open>Two monitors\<close>

definition framed_to :: "monitor \<Rightarrow> monitor \<Rightarrow> bool" where
  "framed_to m m' \<longleftrightarrow> (\<forall>fr. stays fr m \<longrightarrow> stays fr m')"

lemma framed_toD: "framed_to m m' \<Longrightarrow> stays fr m \<Longrightarrow> stays fr m'"
  by (simp add: framed_to_def del: split_paired_All)

lemma framed_toI: "(\<And>fr. stays fr m \<Longrightarrow> stays fr m') \<Longrightarrow> framed_to m m'"
  by (simp add: framed_to_def)

lemma framed_to_trans: "framed_to a b \<Longrightarrow> framed_to b c \<Longrightarrow> framed_to a c"
  using framed_toD by (blast intro: framed_toI)

lemma framed_to_yields: "(\<And>fr. stays fr m \<Longrightarrow> yields fr r (stays fr)) \<Longrightarrow> r = Some m' \<Longrightarrow> framed_to m m'"
  using stays_result by (blast intro: framed_toI)

lemma framed_to_counter: "n \<le> n' \<Longrightarrow> framed_to (at_counter n m) (at_counter n' m)"
  by (intro framed_toI) (auto simp: stays_def housed_def at_counter_def)

lemma mons_ok_framed:
  assumes "mons_ok cv base n p mons" "k < length mons" "mon_ok cv m" "framed_to (at_counter n (mons ! k)) m"
  shows "mons_ok cv base (next_ws_id m) p (mons[k := m])" "outputs_of (mons[k := m]) = outputs_of mons"
proof -
  note fr = framed_toD [OF assms(4)]
  show "mons_ok cv base (next_ws_id m) p (mons[k := m])" by (rule mons_ok_step [OF assms(1-3) fr])
  show "outputs_of (mons[k := m]) = outputs_of mons"
    using fr [OF mons_ok_nth(3) [OF assms(1,2)]] mons_ok_nth(2) [OF assms(1,2)]
    by (intro outputs_of_update) (simp add: stays_frame [OF mons_ok_nth(4,5) [OF assms(1,2)]])
qed

lemma settle_framed: "settle m = Some m' \<Longrightarrow> framed_to m m'"
proof (rule framed_to_yields [where r = "settle m"])
  show "stays fr m \<Longrightarrow> yields fr (settle m) (stays fr)" for fr by (auto simp: settle_def intro!: frames)
qed

lemma mons_mset_two:
  assumes "k < length mons" "j < length mons" "k \<noteq> j"
    and "mon_mset (mons ! k) = G + mon_mset mk" "mon_mset mj = G + mon_mset (mons ! j)"
  shows "mons_mset (mons[j := mj, k := mk]) = mons_mset mons"
proof -
  have "mons_mset (mons[j := mj]) = G + mons_mset mons"
    using assms(5) by (simp add: mons_mset_update [OF assms(2)] mons_mset_split [OF assms(2)])
  moreover have "mons_mset (mons[j := mj]) = mon_mset (mons ! k) + mons_mset (remove_at k (mons[j := mj]))"
    using mons_mset_split [of k "mons[j := mj]"] assms(1,3) by simp
  moreover have "mons_mset (mons[j := mj, k := mk]) = mon_mset mk + mons_mset (remove_at k (mons[j := mj]))"
    using assms(1) by (simp add: mons_mset_update)
  ultimately have "G + mons_mset (mons[j := mj, k := mk]) = G + mons_mset mons"
    unfolding assms(4) by (simp add: add.assoc)
  then show ?thesis by simp
qed

section \<open>A tile\<close>

lemma set_workspace_counter: "set_workspace i ws (at_counter n m) = at_counter n (set_workspace i ws m)"
  by (simp add: set_workspace_def at_counter_def)

lemma set_workspace_framed:
  assumes "i < length (workspaces m)" "ws_frame (workspaces m ! i) ws"
  shows "framed_to m (set_workspace i ws m)"
proof (rule framed_toI)
  fix fr assume st: "stays fr m"
  have "tagged fr (workspaces m ! i)" using st assms(1) by (auto simp: stays_def)
  then have "tagged fr ws" using ws_frameD [OF assms(2)] by (simp add: tagged_def)
  with st show "stays fr (set_workspace i ws m)" by simp
qed

lemma add_tile_at:
  assumes cv: "parents_acyclic cv" and ok: "content_ok cv m" "shape t m" and i: "idx_of_ws i m = Some idx"
    and fresh: "win new_tile \<notin># mon_mset m"
  shows "returns (mon_add_tile cv new_tile (MonWorkspace i None) activate allow width full fl force m)
    (\<lambda>m'. content_ok cv m' \<and> shape t m' \<and> mon_mset m' = add_mset (win new_tile) (mon_mset m) \<and> framed_to m m')"
proof -
  have "resolve_add_window_target (MonWorkspace i None) m = Some (idx, Auto)" using i by (simp add: resolve_add_window_target_def)
  from mon_add_tile_returns [OF cv ok this _ _ fresh, of activate allow width full fl force] idx_of_ws_SomeD [OF i]
  obtain m' where m': "mon_add_tile cv new_tile (MonWorkspace i None) activate allow width full fl force m = Some m'"
    "content_ok cv m'" "shape t m'" "mon_mset m' = add_mset (win new_tile) (mon_mset m)"
    by (auto simp: took_in_def elim!: returnsE)
  have "framed_to m m'" by (rule framed_to_yields [OF _ m'(1)]) (intro frames)
  with m' show ?thesis by simp
qed

lemma carry_tile_returns:
  assumes cv: "parents_acyclic cv" and ok: "lt_ok cv L" and L: "lt_set L = Normal mons p a"
    and k: "k < length mons" "s < length (workspaces (mons ! k))" "w \<in> set (ws_windows (workspaces (mons ! k) ! s))"
    and j: "j < length mons" "idx_of_ws i (mons ! j) = Some t"
  shows "returns (carry_tile cv w k s j i activates L) (lt_keeps cv L)"
proof -
  note n = lt_ok_NormalD [OF ok L]
  define mk where "mk = at_counter (lt_next_ws_id L) (mons ! k)"
  have "mon_ok cv mk" unfolding mk_def by (rule mons_ok_nth(1) [OF n(1) k(1)])
  then have ck: "content_ok cv mk" "shape True mk" by (simp_all add: mon_ok_def)
  have s: "s < length (workspaces mk)" "w \<in> set (ws_windows (workspaces mk ! s))" using k by (simp_all add: mk_def)
  from ws_remove_tile_returns [OF ws_ok_of [OF ck(1) s(1)] s(2)] obtain r ws where
    r: "ws_remove_tile cv w (workspaces mk ! s) = Some (r, ws)" "ws_loses cv {#w#} (workspaces mk ! s) ws" "win (rt_tile r) = w"
    by (auto elim!: returnsE)
  note lo = lose_from [OF ck s(1) r(2)]
  define m1 where "m1 = set_workspace s ws mk"
  have m1: "content_ok cv m1" "shape False m1" "mon_mset mk = add_mset w (mon_mset m1)" using lo(1-3) by (simp_all add: m1_def)
  have fr1: "framed_to mk m1" unfolding m1_def by (rule set_workspace_framed [OF s(1)]) (use r(2) in \<open>simp add: ws_loses_def\<close>)
  have nx1: "next_ws_id m1 = lt_next_ws_id L" by (simp add: m1_def mk_def set_workspace_def)
  let ?go = "mon_add_tile cv (rt_tile r) (MonWorkspace i None) (if activates then ActivateYes else ActivateNo) True
      (rt_width r) (rt_is_full_width r) (rt_is_floating r) activates"
  let ?L1 = "lt_put (mons[k := m1]) p a (lt_next_ws_id L) L"
  have step1: "on_monitor k (\<lambda>m. do {
       ws \<leftarrow> vec_get (workspaces m) s;
       (r, ws) \<leftarrow> ws_remove_tile cv w ws;
       Some (r, set_workspace s ws m)
     }) L = Some (r, ?L1)"
    using s(1) r(1) nx1 by (simp add: on_monitor_eq [OF L k(1)] mk_def m1_def)
  have wk: "w \<notin># mon_mset m1" using mon_mset_distinct [OF ck(1)] m1(3) by simp
  have mk_mset: "mon_mset (mons ! k) = {#w#} + mon_mset m1" using m1(3) by (simp add: mk_def)
  have idx: "idx_of_ws i (at_counter n' (mons ! j)) = Some t" for n' using j(2) by simp
  show ?thesis
  proof (cases "k = j")
    case True
    have "idx_of_ws i m1 = Some t" using idx True lo(5) by (simp add: m1_def mk_def)
    from add_tile_at [OF cv m1(1,2) this wk [folded r(3)], of "if activates then ActivateYes else ActivateNo" True "rt_width r"
        "rt_is_full_width r" "rt_is_floating r" activates] r(3) obtain m2 where
      m2: "?go m1 = Some m2" "content_ok cv m2" "shape False m2" "mon_mset m2 = add_mset w (mon_mset m1)" "framed_to m1 m2"
      by (auto elim!: returnsE)
    let ?a = "if activates then j else a"
    have "at_counter (lt_next_ws_id L) m1 = m1" using nx1 by (simp add: at_counter_def)
    then have step2: "change_monitor j ?go ?L1 = Some (lt_put (mons[k := m2]) p a (next_ws_id m2) L)"
      using True k(1) m2(1) by (simp add: change_monitor_eq [where k = j])
    from settle_returns [OF m2(2,3)] obtain m3 where m3: "settle m2 = Some m3" "rearranged cv m2 m3" "shape True m3"
      by (auto elim!: returnsE)
    have ok3: "mon_ok cv m3" using m3(2,3) by (simp add: mon_ok_def rearranged_def)
    have fr3: "framed_to mk m3" using framed_to_trans [OF fr1 framed_to_trans [OF m2(5) settle_framed [OF m3(1)]]] .
    note fin = mons_ok_framed [OF n(1) k(1) ok3 fr3 [unfolded mk_def]]
    have "at_counter (next_ws_id m2) m2 = m2" by (simp add: at_counter_def)
    then have step3: "change_monitor k (\<lambda>m. if workspace_switch m = None then clean_up_workspaces m else Some m)
        (lt_put (mons[k := m2]) p ?a (next_ws_id m2) L) = Some (lt_put (mons[k := m3]) p ?a (next_ws_id m3) L)"
      using m3(1) k(1) by (simp add: change_monitor_eq [where k = k] settle_def [symmetric])
    have "mon_mset m3 = mon_mset (mons ! k)" using rearranged_windows [OF m3(2)] m2(4) mk_mset by simp
    then have "mons_mset (mons[k := m3]) = mons_mset mons" by (simp add: mons_mset_update [OF k(1)] mons_mset_split [OF k(1)])
    then have "lt_keeps cv L (lt_put (mons[k := m3]) p ?a (next_ws_id m3) L)"
      using lt_keeps_put [OF ok L fin(1)] fin(2) n(2) j(1) by simp
    then show ?thesis using step1 step2 step3 by (cases activates) (simp_all add: carry_tile_def)
  next
    case False
    define mj where "mj = at_counter (lt_next_ws_id L) (mons ! j)"
    have "mon_ok cv mj" unfolding mj_def by (rule mons_ok_nth(1) [OF n(1) j(1)])
    then have cj: "content_ok cv mj" "shape True mj" by (simp_all add: mon_ok_def)
    have "mons ! k \<in> set (remove_at j mons)"
    proof -
      have "remove_at j mons ! (if k < j then k else k - 1) = mons ! k" "(if k < j then k else k - 1) < length (remove_at j mons)"
        using False k(1) j(1) by (auto simp: nth_remove_at)
      then show ?thesis by (metis nth_mem)
    qed
    moreover have "w \<in># mon_mset (mons ! k)" by (simp add: mk_mset)
    ultimately have "w \<in># mons_mset (remove_at j mons)" by (auto simp: mons_mset_def)
    then have wj: "w \<notin># mon_mset mj" using n(4) mons_mset_split [OF j(1)] by (auto simp: mj_def distinct_mset_union)
    from add_tile_at [OF cv cj idx [of "lt_next_ws_id L", folded mj_def] wj [folded r(3)], of "if activates then ActivateYes else ActivateNo" True
        "rt_width r" "rt_is_full_width r" "rt_is_floating r" activates] r(3) obtain m2 where
      m2: "?go mj = Some m2" "content_ok cv m2" "shape True m2" "mon_mset m2 = add_mset w (mon_mset mj)" "framed_to mj m2"
      by (auto elim!: returnsE)
    let ?a = "if activates then j else a"
    have ok2: "mon_ok cv m2" using m2(2,3) by (simp add: mon_ok_def)
    note f2 = mons_ok_framed [OF n(1) j(1) ok2 m2(5) [unfolded mj_def]]
    have step2: "change_monitor j ?go ?L1 = Some (lt_put (mons[k := m1, j := m2]) p a (next_ws_id m2) L)"
      using False j(1) m2(1) by (simp add: change_monitor_eq [where k = j] mj_def)
    have le: "lt_next_ws_id L \<le> next_ws_id m2"
      using framed_toD [OF m2(5) mons_ok_nth(3) [OF n(1) j(1), folded mj_def]]
      by (simp add: stays_frame [OF mons_ok_nth(4,5) [OF n(1) j(1)]])
    define m1' where "m1' = at_counter (next_ws_id m2) m1"
    have m1': "m1' = set_workspace s ws (at_counter (next_ws_id m2) (mons ! k))"
      by (simp add: m1'_def m1_def mk_def set_workspace_counter) (simp add: at_counter_def)
    have okk: "mon_ok cv (at_counter (next_ws_id m2) (mons ! k))"
      using mons_ok_nth(1) [OF f2(1), of k] k(1) False by simp
    then have ckk: "content_ok cv (at_counter (next_ws_id m2) (mons ! k))" "shape True (at_counter (next_ws_id m2) (mons ! k))"
      by (simp_all add: mon_ok_def)
    have lws: "ws_loses cv {#w#} (workspaces (at_counter (next_ws_id m2) (mons ! k)) ! s) ws" using r(2) by (simp add: mk_def)
    note lo' = lose_from [OF ckk _ lws]
    have c1': "content_ok cv m1'" "shape False m1'" using lo'(1,2) k(2) by (simp_all add: m1')
    from settle_returns [OF c1'] obtain m3 where m3: "settle m1' = Some m3" "rearranged cv m1' m3" "shape True m3"
      by (auto elim!: returnsE)
    have ok3: "mon_ok cv m3" using m3(2,3) by (simp add: mon_ok_def rearranged_def)
    have "framed_to (at_counter (next_ws_id m2) (mons ! k)) m1'"
      unfolding m1' by (rule set_workspace_framed) (use k(2) lws in \<open>simp_all add: ws_loses_def\<close>)
    from framed_to_trans [OF this settle_framed [OF m3(1)]]
    have fr3: "framed_to (at_counter (next_ws_id m2) (mons[j := m2] ! k)) m3" using False by simp
    have k': "k < length (mons[j := m2])" using k(1) by simp
    note fin = mons_ok_framed [OF f2(1) k' ok3 fr3]
    have step3: "change_monitor k (\<lambda>m. if workspace_switch m = None then clean_up_workspaces m else Some m)
        (lt_put (mons[k := m1, j := m2]) p ?a (next_ws_id m2) L) = Some (lt_put (mons[j := m2, k := m3]) p ?a (next_ws_id m3) L)"
      using m3(1) k(1) False by (simp add: change_monitor_eq [where k = k] settle_def [symmetric] m1'_def list_update_swap)
    have "mon_mset (mons ! k) = {#w#} + mon_mset m3"
      using rearranged_windows [OF m3(2)] mk_mset by (simp add: m1'_def)
    moreover have "mon_mset m2 = {#w#} + mon_mset (mons ! j)" using m2(4) by (simp add: mj_def)
    ultimately have "mons_mset (mons[j := m2, k := m3]) = mons_mset mons" by (rule mons_mset_two [OF k(1) j(1) False])
    then have "lt_keeps cv L (lt_put (mons[j := m2, k := m3]) p ?a (next_ws_id m3) L)"
      using lt_keeps_put [OF ok L fin(1)] fin(2) f2(2) n(2) j(1) by simp
    then show ?thesis using step1 step2 step3 by (cases activates) (simp_all add: carry_tile_def)
  qed
qed

lemma is_active_on_returns: "mon_ok cv m \<Longrightarrow> returns (is_active_on w k active m) (\<lambda>_. True)"
  using mon_active_window_returns [of cv m True] by (auto simp: is_active_on_def mon_ok_def elim!: returns_mono)

lemma place_of_returns:
  assumes ok: "lt_ok cv L" and L: "lt_set L = Normal mons p a"
    and w: "\<And>w. window = Some w \<Longrightarrow> list_ex (in_workspaces w) mons"
  shows "returns (place_of window a mons) (\<lambda>(k, s). k < length mons \<and> s < length (workspaces (mons ! k)) \<and>
           (\<forall>w. window = Some w \<longrightarrow> w \<in> set (ws_windows (workspaces (mons ! k) ! s))))"
proof (cases window)
  case None
  note n = lt_ok_NormalD [OF ok L]
  have "active_workspace_idx (mons ! a) < length (workspaces (mons ! a))"
    using active_workspace_Some(2) [of True "mons ! a"] mons_ok_each [OF n(1), of "mons ! a"] n(2) by (simp add: mon_ok_def)
  with None n(2) show ?thesis by (simp add: place_of_def)
next
  case (Some w)
  from position_found [OF w [OF Some]] obtain k where k: "position (in_workspaces w) mons = Some k" "k < length mons"
    "in_workspaces w (mons ! k)" by auto
  from position_found [OF k(3) [unfolded in_workspaces_def]] obtain s where
    "position (ws_has_window w) (workspaces (mons ! k)) = Some s" "s < length (workspaces (mons ! k))"
    "w \<in> set (ws_windows (workspaces (mons ! k) ! s))" by (auto simp: ws_has_window_def)
  with k Some show ?thesis by (simp add: place_of_def)
qed

lemma move_tile_to_output_returns:
  assumes cv: "parents_acyclic cv" and ok: "lt_ok cv L" and L: "lt_set L = Normal mons p a"
    and w: "\<And>w. window = Some w \<Longrightarrow> list_ex (in_workspaces w) mons" and j: "j < length mons"
  shows "returns (move_tile_to_output cv window j target activate mons a L) (lt_keeps cv L)"
proof -
  note n = lt_ok_NormalD [OF ok L]
  from place_of_returns [of cv L mons p a window, OF ok L w] obtain k s where
    k: "place_of window a mons = Some (k, s)" "k < length mons" "s < length (workspaces (mons ! k))"
      "\<And>w. window = Some w \<Longrightarrow> w \<in> set (ws_windows (workspaces (mons ! k) ! s))"
    by (auto elim!: returnsE)
  define t where "t = (case target of Some i \<Rightarrow> i | None \<Rightarrow> active_workspace_idx (mons ! j))"
  show ?thesis
  proof (cases "(k = j \<and> s = t) \<or> length (workspaces (mons ! j)) \<le> t")
    case True
    then have "((k = j \<and> s = t) \<or> length (workspaces (mons ! j)) \<le> t) = True" by (rule eqTrueI)
    then show ?thesis using k(1) j lt_keeps_refl [OF ok] by (simp add: move_tile_to_output_def t_def Let_def)
  next
    case False
    then have tl: "t < length (workspaces (mons ! j))" by simp
    have okk: "mon_ok cv (mons ! k)" and okj: "mon_ok cv (mons ! j)" using mons_ok_each [OF n(1)] k(2) j by simp_all
    have okw: "ws_ok cv (workspaces (mons ! k) ! s)" using ws_ok_of [of cv "mons ! k"] okk k(3) by (simp add: mon_ok_def)
    have "returns (map_smart activate (case window of None \<Rightarrow> Some True | Some w \<Rightarrow> is_active_on w k a (mons ! k))) (\<lambda>_. True)"
      using is_active_on_returns [OF okk] by (intro map_smart_returns) (simp split: option.split)
    then obtain b where b: "map_smart activate (case window of None \<Rightarrow> Some True | Some w \<Rightarrow> is_active_on w k a (mons ! k)) = Some b"
      by (auto elim!: returnsE)
    from ws_active_window_returns [OF okw] obtain aw where aw: "ws_active_window (workspaces (mons ! k) ! s) = Some aw"
      "\<And>w. aw = Some w \<Longrightarrow> w \<in> set (ws_windows (workspaces (mons ! k) ! s))"
      by (auto simp: ws_windows_def elim!: returnsE split: if_splits option.splits)
    define found where "found = (case window of Some w \<Rightarrow> Some w | None \<Rightarrow> aw)"
    have found: "w \<in> set (ws_windows (workspaces (mons ! k) ! s))" if "found = Some w" for w
      using that k(4) aw(2) by (auto simp: found_def split: option.splits)
    have f: "(case window of Some w \<Rightarrow> Some (Some w) | None \<Rightarrow> ws_active_window (workspaces (mons ! k) ! s)) = Some found"
      using aw(1) by (simp add: found_def split: option.split)
    have "idx_of_ws (ws_id (workspaces (mons ! j) ! t)) (mons ! j) = Some t"
      using idx_of_ws_nth [OF _ tl, of cv] okj by (simp add: mon_ok_def)
    then have carry: "returns (carry_tile cv w k s j (ws_id (workspaces (mons ! j) ! t)) b L) (lt_keeps cv L)" if "found = Some w" for w
      by (rule carry_tile_returns [OF cv ok L k(2,3) found [OF that] j])
    have "move_tile_to_output cv window j target activate mons a L =
        (case found of None \<Rightarrow> Some L | Some w \<Rightarrow> carry_tile cv w k s j (ws_id (workspaces (mons ! j) ! t)) b L)"
      unfolding move_tile_to_output_def
      using k(1) j tl k(2,3) b f False by (auto simp: t_def [symmetric])
    then show ?thesis using carry lt_keeps_refl [OF ok] by (simp split: option.split)
  qed
qed

section \<open>A sticky window\<close>

lemma not_elsewhere:
  assumes d: "distinct_mset (M + mons_mset mons)" and kj: "k < length mons" "j < length mons" "k \<noteq> j" and w: "w \<in># mon_mset (mons ! k)"
  shows "w \<notin># mon_mset (mons ! j)"
proof -
  have "remove_at j mons ! (if k < j then k else k - 1) = mons ! k" "(if k < j then k else k - 1) < length (remove_at j mons)"
    using kj by (auto simp: nth_remove_at)
  then have "mons ! k \<in> set (remove_at j mons)" by (metis nth_mem)
  with w have "w \<in># mons_mset (remove_at j mons)" by (auto simp: mons_mset_def)
  then show ?thesis using d mons_mset_split [OF kj(2)] by (auto simp: distinct_mset_union)
qed

lemma move_sticky_to_output_returns:
  assumes cv: "parents_acyclic cv" and ok: "lt_ok cv L" and L: "lt_set L = Normal mons p a"
    and k: "k < length mons" "sticky_has_window w (mons ! k)" and j: "j < length mons"
  shows "returns (move_sticky_to_output cv w k j activate mons a L) (lt_keeps cv L)"
proof (cases "k = j")
  case True
  with lt_keeps_refl [OF ok] show ?thesis by (simp add: move_sticky_to_output_def)
next
  case False
  note n = lt_ok_NormalD [OF ok L]
  have okk: "mon_ok cv (mons ! k)" using mons_ok_each [OF n(1)] k(1) by simp
  have "returns (map_smart activate (is_active_on w k a (mons ! k))) (\<lambda>_. True)"
    by (rule map_smart_returns [OF is_active_on_returns [OF okk]])
  then obtain b where b: "map_smart activate (is_active_on w k a (mons ! k)) = Some b" by (auto elim!: returnsE)
  define mk where "mk = at_counter (lt_next_ws_id L) (mons ! k)"
  have "mon_ok cv mk" unfolding mk_def by (rule mons_ok_nth(1) [OF n(1) k(1)])
  then have ck: "content_ok cv mk" "shape True mk" by (simp_all add: mon_ok_def)
  have "w \<in> set (fl_windows (sticky mk))" using k(2) by (simp add: sticky_has_window_def fl_has_window_def mk_def)
  with remove_sticky_tile_returns [OF ck, of w] obtain r m1 where
    r: "remove_sticky_tile cv w mk = Some (Some r, m1)" "content_ok cv m1" "shape True m1" "win (rt_tile r) = w"
      "mon_mset mk = add_mset w (mon_mset m1)"
    by (auto elim!: returnsE split: option.splits)
  have ok1: "mon_ok cv m1" using r(2,3) by (simp add: mon_ok_def)
  have fr1: "framed_to mk m1"
  proof (rule framed_toI)
    fix fr assume st: "stays fr mk"
    have "yields fr (map_option snd (remove_sticky_tile cv w mk)) (stays fr)" using st by (auto intro!: frames)
    from stays_result [OF st this] r(1) show "stays fr m1" by simp
  qed
  note f1 = mons_ok_framed [OF n(1) k(1) ok1 fr1 [unfolded mk_def]]
  define mj where "mj = at_counter (next_ws_id m1) (mons ! j)"
  have j': "j < length (mons[k := m1])" using j by simp
  have "mon_ok cv mj" using mons_ok_nth(1) [OF f1(1) j'] False by (simp add: mj_def)
  then have cj: "content_ok cv mj" "shape True mj" by (simp_all add: mon_ok_def)
  have "w \<in># mon_mset (mons ! k)" using r(5) by (simp add: mk_def)
  with not_elsewhere [OF n(4) k(1) j False] r(4) have fresh: "win (rt_tile r) \<notin># mon_mset mj" by (simp add: mj_def)
  from add_sticky_tile_returns [OF cv cj fresh, of b] obtain m2 where
    m2: "add_sticky_tile cv (rt_tile r) b mj = Some m2" "content_ok cv m2" "shape True m2" "mon_mset m2 = add_mset w (mon_mset mj)"
    using r(4) by (auto elim!: returnsE)
  have ok2: "mon_ok cv m2" using m2(2,3) by (simp add: mon_ok_def)
  have "framed_to mj m2" by (rule framed_to_yields [OF _ m2(1)]) (auto intro!: frames)
  then have fr2: "framed_to (at_counter (next_ws_id m1) (mons[k := m1] ! j)) m2" using False by (simp add: mj_def)
  note f2 = mons_ok_framed [OF f1(1) j' ok2 fr2]
  let ?a = "if b then j else a"
  have s1: "on_monitor k (remove_sticky_tile cv w) L = Some (Some r, lt_put (mons[k := m1]) p a (next_ws_id m1) L)"
    using r(1) by (simp add: on_monitor_eq [OF L k(1)] mk_def)
  have s2: "change_monitor j (add_sticky_tile cv (rt_tile r) b) (lt_put (mons[k := m1]) p a (next_ws_id m1) L) =
      Some (lt_put (mons[k := m1, j := m2]) p a (next_ws_id m2) L)"
    using m2(1) j False by (simp add: change_monitor_eq [where k = j] mj_def)
  have "mons_mset (mons[j := m2, k := m1]) = mons_mset mons"
    using r(5) m2(4) by (intro mons_mset_two [OF k(1) j False, where G = "{#w#}"]) (simp_all add: mk_def mj_def)
  then have "mons_mset (mons[k := m1, j := m2]) = mons_mset mons" using False by (simp add: list_update_swap)
  then have "lt_keeps cv L (lt_put (mons[k := m1, j := m2]) p ?a (next_ws_id m2) L)"
    using lt_keeps_put [OF ok L f2(1)] f1(2) f2(2) n(2) j by simp
  then show ?thesis using s1 s2 b k(1) False by (cases b) (simp_all add: move_sticky_to_output_def)
qed

section \<open>\<open>move_to_output\<close>\<close>

lemma output_position:
  "out \<in> set (outputs_of mons) \<Longrightarrow> \<exists>j. monitor_of_output out mons = Some j \<and> j < length mons"
  using position_found [of "\<lambda>m. mon_output m = out" mons] by (auto simp: monitor_of_output_def outputs_of_def list_ex_iff)

lemma move_to_output_returns:
  assumes cv: "parents_acyclic cv" and ok: "lt_ok cv L" and w: "\<And>w. window = Some w \<Longrightarrow> lt_has_window w L"
    and out: "lt_monitors L \<noteq> [] \<Longrightarrow> out \<in> set (outputs_of (lt_monitors L))"
  shows "returns (move_to_output cv window out target activate L) (lt_keeps cv L)"
proof (cases "drag_captures window L")
  case True
  with lt_keeps_refl [OF ok] show ?thesis by (simp add: move_to_output_def)
next
  case False
  show ?thesis
  proof (cases "lt_set L")
    case (NoOutputs wss)
    with lt_keeps_refl [OF ok] show ?thesis by (simp add: move_to_output_def)
  next
    case (Normal mons p a)
    note n = lt_ok_NormalD [OF ok Normal]
    have ne: "mons \<noteq> []" using n(2) by auto
    with out output_position obtain j where j: "monitor_of_output out mons = Some j" "j < length mons"
      by (auto simp: lt_monitors_def Normal)
    define win' where "win' = (case window of Some w \<Rightarrow> Some w
        | None \<Rightarrow> if sticky_is_active (mons ! a) then fl_active_window (sticky (mons ! a)) else None)"
    define st where "st = Option.bind win' (\<lambda>w. map_option (Pair w) (position (sticky_has_window w) mons))"
    have e: "move_to_output cv window out target activate L =
        (case st of Some (w, k) \<Rightarrow> move_sticky_to_output cv w k j activate mons a L
         | None \<Rightarrow> move_tile_to_output cv win' j target activate mons a L)"
      using False j(1) n(2) by (simp add: move_to_output_def Normal Let_def win'_def [symmetric] st_def [symmetric])
        (simp add: win'_def split: option.split)
    show ?thesis
    proof (cases st)
      case (Some x)
      then obtain w k where wk: "st = Some (w, k)" "position (sticky_has_window w) mons = Some k"
        by (auto simp: st_def bind_eq_Some_conv)
      then have "k < length mons" "sticky_has_window w (mons ! k)" using position_SomeD by blast+
      from move_sticky_to_output_returns [OF cv ok Normal this j(2)] wk(1) e show ?thesis by simp
    next
      case None
      have "list_ex (in_workspaces w) mons" if w': "win' = Some w" for w
      proof -
        have nst: "position (sticky_has_window w) mons = None" using None w' by (simp add: st_def)
        then have "\<not> is_sticky_window w L" by (auto simp: position_None is_sticky_window_def lt_monitors_def Normal list_ex_iff)
        moreover have "window = Some w"
        proof (rule ccontr)
          assume "window \<noteq> Some w"
          then have "fl_active_window (sticky (mons ! a)) = Some w"
            using w' by (auto simp: win'_def split: option.splits if_splits)
          moreover have fo: "fl_ok cv (sticky (mons ! a))"
            using mons_ok_each [OF n(1), of "mons ! a"] n(2) by (simp add: mon_ok_def content_ok_def)
          ultimately have "sticky_has_window w (mons ! a)"
            using fl_active_window_eq [OF fo] fl_okD(3) [OF fo] by (auto simp: sticky_has_window_def fl_has_window_def)
          then show False using nst n(2) nth_mem unfolding position_None by blast
        qed
        moreover have "\<not> is_moved w L"
          using False \<open>window = Some w\<close> by (auto simp: drag_captures_def is_moved_def split: option.splits)
        ultimately show ?thesis using placed_in_workspace w Normal by blast
      qed
      from move_tile_to_output_returns [OF cv ok Normal this j(2)] None e show ?thesis by simp
    qed
  qed
qed

section \<open>A column\<close>

lemma keeps_active_put:
  assumes "lt_keeps cv L (lt_put mons p a n L)" "k < length mons"
  shows "lt_keeps cv L (lt_put mons p k n L)"
proof -
  have ok: "lt_ok cv (lt_put mons p a n L)" using assms(1) by (simp add: lt_keeps_def)
  from lt_keeps_trans [OF assms(1) lt_keeps_active [OF ok lt_put_simps(1) assms(2)]] show ?thesis by simp
qed

lemma move_column_to_output_returns:
  assumes cv: "parents_acyclic cv" and ok: "lt_ok cv L"
    and out: "lt_monitors L \<noteq> [] \<Longrightarrow> out \<in> set (outputs_of (lt_monitors L))"
  shows "returns (move_column_to_output cv out target activate L) (lt_keeps cv L)"
proof (cases "lt_set L")
  case (NoOutputs wss)
  with lt_keeps_refl [OF ok] show ?thesis by (simp add: move_column_to_output_def)
next
  case (Normal mons p a)
  note n = lt_ok_NormalD [OF ok Normal]
  have ne: "mons \<noteq> []" using n(2) by auto
  with out output_position obtain j where j: "monitor_of_output out mons = Some j" "j < length mons"
    by (auto simp: lt_monitors_def Normal)
  define mk where "mk = at_counter (lt_next_ws_id L) (mons ! a)"
  have "mon_ok cv mk" unfolding mk_def by (rule mons_ok_nth(1) [OF n(1,2)])
  then have ck: "content_ok cv mk" "shape True mk" by (simp_all add: mon_ok_def)
  note act = active_workspace_Some [OF ck(2)]
  let ?i = "active_workspace_idx mk"
  define w0 where "w0 = workspaces mk ! ?i"
  have aw: "active_workspace (mons ! a) = Some w0" using act(1) by (simp add: mk_def w0_def)
  show ?thesis
  proof (cases "floating_active_get w0")
    case True
    from move_to_output_returns [OF cv ok, of None out None ActivateSmart] out True j(1) n(2) aw show ?thesis
      by (simp add: move_column_to_output_def Normal)
  next
    case False
    from ws_remove_active_column_returns [OF ws_ok_of [OF ck(1) act(2)], folded w0_def] obtain c ws where
      c: "ws_remove_active_column w0 = Some (c, ws)"
        "case c of None \<Rightarrow> ws = w0 | Some c \<Rightarrow> col_ok c \<and> distinct (wins c) \<and> ws_loses cv (mset (wins c)) w0 ws"
      by (auto elim!: returnsE)
    define m1 where "m1 = set_workspace ?i ws mk"
    have nx: "next_ws_id m1 = lt_next_ws_id L" by (simp add: m1_def mk_def set_workspace_def)
    have step1: "on_monitor a (\<lambda>m. do {
        ws \<leftarrow> active_workspace m;
        (c, ws) \<leftarrow> ws_remove_active_column ws;
        Some (c, set_workspace (active_workspace_idx m) ws m)
      }) L = Some (c, lt_put (mons[a := m1]) p a (lt_next_ws_id L) L)"
      using act(1) c(1) nx by (simp add: on_monitor_eq [OF Normal n(2)] mk_def [symmetric] m1_def w0_def)
    show ?thesis
    proof (cases c)
      case None
      then have "m1 = mk" using c(2) act(2) by (simp add: m1_def w0_def set_workspace_def)
      then have "ws_frame w0 ws" using None c(2) by simp
      have ok1: "mon_ok cv m1" using ck \<open>m1 = mk\<close> by (simp add: mon_ok_def)
      have "framed_to mk m1" using \<open>m1 = mk\<close> by (simp add: framed_to_def)
      note f1 = mons_ok_framed [OF n(1,2) ok1 this [unfolded mk_def]]
      have "mons_mset (mons[a := m1]) = mons_mset mons"
        using \<open>m1 = mk\<close> by (simp add: mons_mset_update [OF n(2)] mons_mset_split [OF n(2)] mk_def)
      with lt_keeps_put [OF ok Normal f1(1), of a] f1(2) n(2) nx
      have "lt_keeps cv L (lt_put (mons[a := m1]) p a (lt_next_ws_id L) L)" by simp
      with None step1 False j(1) n(2) aw show ?thesis by (simp add: move_column_to_output_def Normal)
    next
      case (Some col)
      then have col: "col_ok col" "distinct (wins col)" "ws_loses cv (mset (wins col)) w0 ws" using c(2) by simp_all
      note lo = lose_from [OF ck act(2) col(3) [unfolded w0_def], folded m1_def]
      have ok1: "mon_ok cv m1" using lo(1,7) by (simp add: mon_ok_def)
      have "framed_to mk m1"
        unfolding m1_def by (rule set_workspace_framed [OF act(2)]) (use col(3) in \<open>simp add: ws_loses_def w0_def\<close>)
      note f1 = mons_ok_framed [OF n(1,2) ok1 this [unfolded mk_def], unfolded nx]
      have ms1: "mons_mset mons = mset (wins col) + mons_mset (mons[a := m1])"
        using lo(3) by (simp add: mons_mset_update [OF n(2)] mons_mset_split [OF n(2)] mk_def add.assoc)
      define mons1 where "mons1 = mons[a := m1]"
      have j1: "j < length mons1" using j(2) by (simp add: mons1_def)
      define mj where "mj = at_counter (lt_next_ws_id L) (mons1 ! j)"
      have okj: "mon_ok cv mj" unfolding mj_def mons1_def by (rule mons_ok_nth(1) [OF f1(1) j1 [unfolded mons1_def]])
      then have cj: "content_ok cv mj" "shape True mj" by (simp_all add: mon_ok_def)
      define idx where "idx = min (case target of Some i \<Rightarrow> i | None \<Rightarrow> active_workspace_idx (mons1 ! j)) (length (workspaces (mons1 ! j)) - 1)"
      have len: "0 < length (workspaces mj)" using active_workspace_Some(2) [OF cj(2)] by linarith
      then have idx: "idx < length (workspaces mj)" "1 \<le> length (workspaces (mons1 ! j))"
        by (auto simp: idx_def mj_def Suc_le_eq min_less_iff_disj)
      have "distinct_mset (mset (wins col) + mons_mset mons1)"
        using n(4) ms1 by (simp add: mons1_def distinct_mset_union)
      then have "set (wins col) \<inter> set_mset (mon_mset mj) = {}"
        using mons_mset_split [OF j1] by (auto simp: distinct_mset_union mj_def)
      from mon_add_column_returns [OF cj idx(1) col(1,2) this, of activate] obtain m2 where
        m2: "mon_add_column idx col activate mj = Some m2" "content_ok cv m2" "shape True m2" "mon_mset m2 = mset (wins col) + mon_mset mj"
        by (auto simp: took_in_def elim!: returnsE)
      have ok2: "mon_ok cv m2" using m2(2,3) by (simp add: mon_ok_def)
      have "framed_to mj m2" by (rule framed_to_yields [OF _ m2(1)]) (auto intro!: frames)
      note f2 = mons_ok_framed [OF f1(1) [folded mons1_def] j1 ok2 this [unfolded mj_def]]
      have "mons_mset (mons1[j := m2]) = mset (wins col) + mons_mset mons1"
        using m2(4) by (simp add: mons_mset_update [OF j1] mons_mset_split [OF j1] mj_def add.assoc)
      then have ms2: "mons_mset (mons1[j := m2]) = mons_mset mons" using ms1 by (simp add: mons1_def)
      have "lt_keeps cv L (lt_put (mons1[j := m2]) p a (next_ws_id m2) L)"
        using lt_keeps_put [OF ok Normal f2(1) _ ms2, of a] f1(2) f2(2) n(2) by (simp add: mons1_def)
      then have k: "lt_keeps cv L (lt_put (mons1[j := m2]) p (if activate then j else a) (next_ws_id m2) L)"
        using keeps_active_put j1 by simp
      have step2: "change_monitor j (mon_add_column idx col activate) (lt_put mons1 p a (lt_next_ws_id L) L) =
          Some (lt_put (mons1[j := m2]) p a (next_ws_id m2) L)"
        using m2(1) j1 by (simp add: change_monitor_eq [where k = j] mj_def)
      show ?thesis
        using Some step1 [folded mons1_def] step2 k False j(1) n(2) aw j1 idx(2)
        by (cases activate) (simp_all add: move_column_to_output_def Normal add_column_by_idx_def idx_def)
    qed
  qed
qed

lemma column_edge_keeps:
  assumes cv: "parents_acyclic cv" and ok: "lt_ok cv L"
    and out: "lt_monitors L \<noteq> [] \<Longrightarrow> out \<in> set (outputs_of (lt_monitors L))"
  shows "returns (lt_move_column_left_or_to_output cv out L) (\<lambda>(b, L'). lt_keeps cv L L')"
    "returns (lt_move_column_right_or_to_output cv out L) (\<lambda>(b, L'). lt_keeps cv L L')"
proof -
  have e: "returns (do {
      (did, L) \<leftarrow> focused_did f L;
      if did then Some (False, L) else map_option (Pair True) (move_column_to_output cv out None True L)
    }) (\<lambda>(b, L'). lt_keeps cv L L')"
    if "\<And>ws. ws_ok cv ws \<Longrightarrow> returns (f ws) (\<lambda>(ws', b). ws_keeps cv ws ws')" for f
  proof -
    from focused_did_keeps [OF cv ok that] obtain did L1 where L1: "focused_did f L = Some (did, L1)" "lt_keeps cv L L1"
      by (auto elim!: returnsE)
    have outs: "outputs_of (lt_monitors L1) = outputs_of (lt_monitors L)" using L1(2) by (simp add: lt_keeps_def)
    have "lt_monitors L1 \<noteq> [] \<Longrightarrow> out \<in> set (outputs_of (lt_monitors L1))"
    proof -
      assume "lt_monitors L1 \<noteq> []"
      then have "lt_monitors L \<noteq> []" using arg_cong [OF outs, of length] by (auto simp: outputs_of_def)
      then show ?thesis using out outs by simp
    qed
    from lt_keeps_after [OF L1(2) move_column_to_output_returns [OF cv lt_keepsD [OF L1(2)] this]] L1
    show ?thesis by simp
  qed
  show "returns (lt_move_column_left_or_to_output cv out L) (\<lambda>(b, L'). lt_keeps cv L L')"
    "returns (lt_move_column_right_or_to_output cv out L) (\<lambda>(b, L'). lt_keeps cv L L')"
    unfolding lt_move_column_left_or_to_output_def lt_move_column_right_or_to_output_def
    by (rule e, rule ws_move_keeps, assumption)+
qed

end
