(* ===== verification/LayoutDrag.thy ===== *)
theory LayoutDrag
  imports LayoutTravel
begin

text \<open>
  Dragging a window: from where the drag begins until the window is dropped, possibly on another
  output and on a new workspace, the window is in exactly one place, and dropping it on a place
  that is shown never panics.
\<close>

section \<open>Dropping on a monitor\<close>

definition shows_window :: "win_id \<Rightarrow> monitor \<Rightarrow> bool" where
  "shows_window w m = list_ex (\<lambda>ws. \<not> ws_hidden ws \<and> ws_has_window w ws) (workspaces m)"

lemma shows_windowI:
  assumes "loose m" "k < length (vis m)" "w \<in># ws_mset (workspaces m ! k)"
  shows "shows_window w m"
proof -
  have "vis m ! k = workspaces m ! k" "vis m ! k \<in> set (vis m)" using assms(2) nth_vis(1) [OF looseD(1) [OF assms(1)]] by simp_all
  then have "workspaces m ! k \<in> set (workspaces m)" "\<not> ws_hidden (workspaces m ! k)" by (auto simp: vis_def)
  with assms(3) show ?thesis by (auto simp: shows_window_def list_ex_iff ws_has_window_def ws_mset_windows)
qed

lemma activate_shows:
  assumes ok: "content_ok cv m" "shape t m" and k: "k < length (vis m)" and w: "w \<in># ws_mset (workspaces m ! k)"
  shows "returns (activate_workspace k m) (\<lambda>m'. content_ok cv m' \<and> shape t m' \<and> mon_mset m' = mon_mset m \<and> shows_window w m')"
proof -
  note v = nth_vis(1) [OF looseD(1) [OF shape_loose [OF ok(2)]] k]
  have l: "k < length (workspaces m)" using k arg_cong [OF looseD(1) [OF shape_loose [OF ok(2)]], of length] by simp
  have h: "has_windows_or_name (workspaces m ! k)" using w by (auto simp: has_windows_or_name_iff)
  from activate_workspace_returns [OF ok k] h v obtain m' where
    m': "activate_workspace k m = Some m'" "rearranged cv m m'" "shape t m'" "active_id m' = ws_id (workspaces m ! k)"
    by (auto elim!: returnsE)
  have c': "content_ok cv m'" using m'(2) by (simp add: rearranged_def)
  have "body (workspaces m ! k) \<in># bodies m'" using in_bodies [OF l h] m'(2) by (simp add: rearranged_def)
  from find_body [OF c' this] obtain j where
    j: "idx_of_ws (ws_id (workspaces m ! k)) m' = Some j" "body (workspaces m' ! j) = body (workspaces m ! k)"
    by (auto simp: body_def)
  note a = looseD(2) [OF shape_loose [OF m'(3)]]
  note av = nth_vis(1) [OF looseD(1) [OF shape_loose [OF m'(3)]] a]
  have al: "active_workspace_idx m' < length (workspaces m')"
    using a arg_cong [OF looseD(1) [OF shape_loose [OF m'(3)]], of length] by simp
  have "ws_id (workspaces m' ! active_workspace_idx m') = ws_id (workspaces m ! k)"
    using m'(4) active_id_vis [OF shape_loose [OF m'(3)]] av by simp
  with idx_of_ws_nth [OF c' al] j(1) have "j = active_workspace_idx m'" by simp
  with shows_windowI [OF shape_loose [OF m'(3)] a, of w] j(2) w body_eqD(2) have "shows_window w m'" by metis
  with m' c' rearranged_windows [OF m'(2)] show ?thesis by simp
qed

lemma unhide_shown:
  assumes "loose m" "k < length (vis m)"
  shows "unhide_if wanted k m = Some (k, m)"
proof -
  have "vis m ! k = workspaces m ! k" using nth_vis(1) [OF looseD(1) [OF assms(1)] assms(2)] by simp
  moreover have "vis m ! k \<in> set (vis m)" using assms(2) by simp
  ultimately have "\<not> ws_hidden (workspaces m ! k)" by (auto simp: vis_def)
  moreover have "k < length (workspaces m)" using assms(2) arg_cong [OF looseD(1) [OF assms(1)], of length] by simp
  ultimately show ?thesis by (simp add: unhide_if_def)
qed

text \<open>What a drop has to lead to\<close>

definition dropped :: "client_view \<Rightarrow> win_id \<Rightarrow> monitor \<Rightarrow> monitor \<Rightarrow> bool" where
  "dropped cv w m m' \<longleftrightarrow> mon_ok cv m' \<and> mon_mset m' = add_mset w (mon_mset m) \<and> shows_window w m'"

lemma drop_tile_returns:
  assumes cv: "parents_acyclic cv" and ok: "mon_ok cv m"
    and k: "resolve_add_window_target target m = Some (k, tg)" "k < length (vis m)" "target_valid tg (workspaces m ! k)"
    and fresh: "win t \<notin># mon_mset m"
  shows "returns (mon_add_tile cv t target ActivateYes allow width full fl False m) (dropped cv (win t) m)"
proof -
  have c: "content_ok cv m" and sh: "shape True m" using ok by (simp_all add: mon_ok_def)
  note l = shape_loose [OF sh]
  have kl: "k < length (workspaces m)" using k(2) arg_cong [OF looseD(1) [OF l], of length] by simp
  have okw: "ws_ok cv (workspaces m ! k)" by (rule ws_ok_of [OF c kl])
  have "ws_mset (workspaces m ! k) \<subseteq># mon_mset m" by (rule ws_mset_within [OF kl])
  then have "win t \<notin> set (ws_windows (workspaces m ! k))" using fresh by (metis mset_subset_eqD set_mset_mset ws_mset_windows)
  from ws_add_tile_returns [OF cv okw this k(3), of ActivateYes width full fl]
  have "returns (ws_add_tile cv t tg ActivateYes width full fl (workspaces m ! k)) (\<lambda>ws. ws_gains cv {#win t#} (workspaces m ! k) ws \<and> True)"
    by simp
  note add = add_to_workspace_returns [where Q = "\<lambda>_. True" and f = "ws_add_tile cv t tg ActivateYes width full fl",
    OF c sh kl this]
  have "distinct_mset ({#win t#} + mon_mset m)" using fresh mon_mset_distinct [OF c] by simp
  with add obtain j m2 where
    m2: "add_to_workspace k (ws_add_tile cv t tg ActivateYes width full fl) m = Some (j, m2)" "content_ok cv m2" "shape True m2"
      "mon_mset m2 = {#win t#} + mon_mset m" "j < length (vis m2)" "ws_mset (workspaces m2 ! j) = {#win t#} + ws_mset (workspaces m ! k)"
    using k(2) by (auto elim!: returnsE)
  have w2: "win t \<in># ws_mset (workspaces m2 ! j)" using m2(6) by simp
  have run: "mon_add_tile cv t target ActivateYes allow width full fl False m = (if allow then activate_workspace j m2 else Some m2)"
    using k(1) m2(1) unhide_shown [OF l k(2)] by (simp add: mon_add_tile_def Let_def)
  show ?thesis
  proof (cases allow)
    case False
    with run m2 shows_windowI [OF shape_loose [OF m2(3)] m2(5) w2] show ?thesis by (simp add: dropped_def mon_ok_def)
  next
    case True
    with run activate_shows [OF m2(2,3,5) w2] m2(4) show ?thesis
      by (auto simp: dropped_def mon_ok_def elim!: returns_mono)
  qed
qed

lemma drop_in_column_returns:
  assumes ok: "mon_ok cv m" and k: "k < length (vis m)"
    and t: "win t \<notin># mon_mset m" "ci < length (columns (ws_scrolling (workspaces m ! k)))"
      "i \<le> length (tiles (columns (ws_scrolling (workspaces m ! k)) ! ci))"
  shows "returns (mon_add_tile_to_column k ci (Some i) t True allow m) (dropped cv (win t) m)"
proof -
  have c: "content_ok cv m" and sh: "shape True m" using ok by (simp_all add: mon_ok_def)
  note l = shape_loose [OF sh]
  have kl: "k < length (workspaces m)" using k arg_cong [OF looseD(1) [OF l], of length] by simp
  from mon_add_tile_to_column_returns [OF c sh kl t(1,2), of "Some i" True False] t(3) obtain m2 where
    m2: "mon_add_tile_to_column k ci (Some i) t True False m = Some m2" "content_ok cv m2" "shape True m2"
      "mon_mset m2 = add_mset (win t) (mon_mset m)"
    by (auto elim!: returnsE)
  have okw: "ws_ok cv (workspaces m ! k)" by (rule ws_ok_of [OF c kl])
  have "ws_mset (workspaces m ! k) \<subseteq># mon_mset m" by (rule ws_mset_within [OF kl])
  then have "win t \<notin> set (ws_windows (workspaces m ! k))" using t(1) by (metis mset_subset_eqD set_mset_mset ws_mset_windows)
  from ws_add_tile_to_column_returns [OF okw this t(2), of "Some i" True] t(3) obtain w0 where
    w0: "ws_add_tile_to_column ci (Some i) t True (workspaces m ! k) = Some w0" "ws_gains cv {#win t#} (workspaces m ! k) w0"
    by (auto elim!: returnsE)
  define w where "w = own_if_unnamed (mon_output m) w0"
  have e: "m2 = set_workspace k w m"
    using m2(1) w0(1) kl by (simp add: mon_add_tile_to_column_def unhide_if_def on_workspace_def w_def)
  have w: "alike (workspaces m ! k) w" "win t \<in># ws_mset w" using w0(2) alike_frame by (simp_all add: ws_gains_def w_def)
  then have h: "ws_hidden w = ws_hidden (workspaces m ! k)" by (simp add: alike_def)
  have k2: "k < length (vis m2)" using set_lists(1) [OF looseD(1) [OF l] kl h] k by (simp add: e)
  have w2: "win t \<in># ws_mset (workspaces m2 ! k)" using w(2) kl by (simp add: e set_workspace_def)
  have run: "mon_add_tile_to_column k ci (Some i) t True allow m = (if allow then activate_workspace k m2 else Some m2)"
    using m2(1) unhide_shown [OF l k] by (simp add: mon_add_tile_to_column_def)
  show ?thesis
  proof (cases allow)
    case False
    with run m2 shows_windowI [OF shape_loose [OF m2(3)] k2 w2] show ?thesis by (simp add: dropped_def mon_ok_def)
  next
    case True
    with run activate_shows [OF m2(2,3) k2 w2] m2(4) show ?thesis
      by (auto simp: dropped_def mon_ok_def elim!: returns_mono)
  qed
qed


text \<open>A new workspace between the others, which is at once filled\<close>

lemma new_at_place:
  assumes ok: "mon_ok cv m" and i: "idx < length (vis m)"
  defines "m1 \<equiv> add_result idx m"
  shows "add_workspace_at idx m = Some m1" "rearranged cv m m1" "loose m \<Longrightarrow> idx < length (workspaces m1)"
    "workspaces m1 ! idx = workspace_new (next_ws_id m) (mon_output m) (mon_options m)"
    "vis m1 = insert_at idx (workspace_new (next_ws_id m) (mon_output m) (mon_options m)) (vis m)" "idx < length (vis m1)"
    "\<not> is_last_visible idx m1" "workspaces m1 = vis m1 @ hid m1"
proof -
  have c: "content_ok cv m" and sh: "shape True m" using ok by (simp_all add: mon_ok_def)
  note l = looseD [OF shape_loose [OF sh]]
  have le: "idx \<le> length (vis m)" using i by simp
  show "add_workspace_at idx m = Some m1" unfolding m1_def by (rule add_workspace_at_eq [OF l(1) le])
  show "rearranged cv m m1" unfolding m1_def by (rule add_result_rearranged [OF c l(1) le])
  show v: "vis m1 = insert_at idx (workspace_new (next_ws_id m) (mon_output m) (mon_options m)) (vis m)"
    unfolding m1_def by (simp add: add_result_simps [OF le])
  then show k: "idx < length (vis m1)" using le by simp
  show w: "workspaces m1 = vis m1 @ hid m1" unfolding m1_def by (rule workspaces_add_result [OF le])
  then show "idx < length (workspaces m1)" using k by simp
  have "workspaces m1 ! idx = vis m1 ! idx" by (subst w) (use k in \<open>simp add: nth_append\<close>)
  then show "workspaces m1 ! idx = workspace_new (next_ws_id m) (mon_output m) (mon_options m)"
    unfolding v using le by (simp add: insert_at_def nth_append)
  have "length (vis m1) = length (vis m) + 1" unfolding v using le by simp
  then show "\<not> is_last_visible idx m1"
    using i by (simp add: is_last_visible_eq [OF w])
qed

lemma filled_shape:
  assumes sh: "shape True m" and i: "idx < length (vis m)" "\<not> (above_first m \<and> idx = 0)"
    and w: "has_windows_or_name w" "ws_hidden w = ws_hidden (workspaces (add_result idx m) ! idx)"
  shows "shape True (set_workspace idx w (add_result idx m))" (is "shape True ?m")
proof -
  note l = looseD [OF shape_loose [OF sh]]
  let ?V = "vis m"
  have le: "idx \<le> length ?V" using i by simp
  note w1 = workspaces_add_result [OF le]
  have i1: "idx < length (workspaces (add_result idx m))" by (subst w1) (use le in simp)
  note s = set_lists [OF w1 i1 w(2)]
  have v: "vis ?m = insert_at idx w ?V"
    using le by (simp add: s(1) insert_at_def list_update_append)
  have h: "hid ?m = map (shift_hidden (\<lambda>i. if idx \<le> i then i + 1 else i)) (hid m)"
    using le i by (simp add: s(2))
  have len: "length (vis ?m) = length ?V + 1" using le by (simp add: v)
  have a: "active_workspace_idx ?m = (if idx \<le> active_workspace_idx m then active_workspace_idx m + 1 else active_workspace_idx m)"
    by (simp add: set_workspace_def)
  have af: "above_first ?m = above_first m" and sw: "workspace_switch ?m = workspace_switch (add_result idx m)"
    by (simp_all add: set_workspace_def)
  have "blank (last (vis ?m))" using l(4) last_insert_at [OF i(1), of w] by (simp add: v)
  moreover have "above_first ?m \<Longrightarrow> blank (hd (vis ?m))"
    using i(2) l(3,5) hd_insert_at [of idx ?V w] by (simp add: v af)
  ultimately have lo: "loose ?m" using s(3) l(2) len by (simp add: loose_def a)
  have "tight ?m" if "workspace_switch ?m = None"
  proof -
    have t: "tight m" using that sh by (simp add: sw shape_def)
    have "has_windows_or_name (vis ?m ! j)"
      if j: "j < length (vis ?m) - 1" "(if above_first m then 1 else 0) \<le> j" "j \<noteq> active_workspace_idx ?m" for j
    proof (cases "j < idx")
      case True
      then have "vis ?m ! j = ?V ! j" using i by (simp add: v insert_at_def nth_append)
      moreover have "j < length ?V - 1" "j \<noteq> active_workspace_idx m" using True i j(3) by (auto simp: a)
      ultimately show ?thesis using t j(2) by (auto simp: tight_def split: if_splits)
    next
      case False
      show ?thesis
      proof (cases "j = idx")
        case True
        then show ?thesis using w(1) le by (simp add: v insert_at_def nth_append)
      next
        case False
        with \<open>\<not> j < idx\<close> have g: "idx < j" by simp
        then have "vis ?m ! j = ?V ! (j - 1)" using i j(1) len by (simp add: v insert_at_def nth_append nth_Cons')
        moreover have "j - 1 < length ?V - 1" "j - 1 \<noteq> active_workspace_idx m" using g j(1,3) len by (auto simp: a split: if_splits)
        moreover have "(if above_first m then 1 else 0) \<le> j - 1" using g i(2) by auto
        ultimately show ?thesis using t by (auto simp: tight_def split: if_splits)
      qed
    qed
    then show ?thesis by (simp add: tight_def af)
  qed
  moreover have "switch_ok (workspace_switch ?m) (length (vis ?m)) (length (workspaces ?m))"
    using add_result_switch_ok [OF l(1) le] sh len le by (simp add: sw shape_def set_workspace_def)
  moreover have "\<not> (above_first ?m \<and> length (vis ?m) = 2)" using i len by (auto simp: af)
  ultimately show ?thesis using lo by (auto simp: shape_def)
qed


lemma drop_new_returns:
  assumes cv: "parents_acyclic cv" and ok: "mon_ok cv m"
    and i: "idx < length (vis m)" "\<not> (above_first m \<and> idx = 0)" and fresh: "win t \<notin># mon_mset m"
    and col: "col = None \<or> col = Some 0"
  defines "m1 \<equiv> add_result idx m"
  shows "returns (mon_add_tile cv t (MonWorkspace (ws_id (workspaces m1 ! idx)) col) ActivateYes allow width full fl False m1)
           (dropped cv (win t) m)"
proof -
  have c: "content_ok cv m" and sh: "shape True m" using ok by (simp_all add: mon_ok_def)
  note p = new_at_place [OF ok i(1), folded m1_def]
  let ?N = "workspace_new (next_ws_id m) (mon_output m) (mon_options m)"
  let ?tg = "case col of Some c \<Rightarrow> NewColumnAt c | None \<Rightarrow> Auto"
  have kl: "idx < length (workspaces m1)" by (rule p(3) [OF shape_loose [OF sh]])
  have c1: "content_ok cv m1" and ms: "mon_mset m1 = mon_mset m"
    using p(2) rearranged_windows [OF p(2)] by (simp_all add: rearranged_def)
  have okw: "ws_ok cv ?N" using ws_ok_of [OF c1 kl] by (simp add: p(4))
  have "target_valid ?tg ?N" using col by auto
  with ws_add_tile_returns [OF cv okw _ this, of t ActivateYes width full fl] obtain w0 where
    w0: "ws_add_tile cv t ?tg ActivateYes width full fl ?N = Some w0" "ws_gains cv {#win t#} ?N w0"
    by (auto simp: workspace_new_windows elim!: returnsE)
  define w where "w = own_if_unnamed (mon_output m1) w0"
  have w': "ws_ok cv w" "ws_mset w = {#win t#}" "alike ?N w"
    using w0(2) alike_frame by (simp_all add: ws_gains_def w_def)
  have "ws_hidden w = ws_hidden ?N" using w'(3) unfolding alike_def by blast
  note w = w' this
  define m2 where "m2 = set_workspace idx w m1"
  have "distinct_mset (ws_mset w + (mon_mset m1 - ws_mset (workspaces m1 ! idx)))"
    using fresh mon_mset_distinct [OF c] by (simp add: w(2) p(4) ms)
  from content_set [OF c1 kl w(1) _ this] w(3) p(4)
  have c2: "content_ok cv m2" "mon_mset m2 = add_mset (win t) (mon_mset m)" by (simp_all add: m2_def w(2) ms)
  have sh2: "shape True m2" unfolding m2_def m1_def
    by (rule filled_shape [OF sh i]) (use w(2,4) p(4) in \<open>simp_all add: has_windows_or_name_iff m1_def\<close>)
  have k2: "idx < length (vis m2)" using set_lists(1) [OF p(8) kl] w(4) p(4,6) by (simp add: m2_def)
  have w2: "win t \<in># ws_mset (workspaces m2 ! idx)" using kl by (simp add: m2_def set_workspace_def w(2))
  have nh: "\<not> ws_hidden (workspaces m1 ! idx)" by (simp add: p(4))
  have "above_first m1 = above_first m" by (simp add: m1_def)
  then have "add_to_workspace idx (ws_add_tile cv t ?tg ActivateYes width full fl) m1 = Some (idx, m2)"
    using kl p(4,7) w0(1) i(2) by (auto simp: add_to_workspace_def on_workspace_def m2_def w_def)
  moreover have "unhide_if wanted idx m1 = Some (idx, m1)" for wanted using kl nh by (simp add: unhide_if_def)
  moreover have "resolve_add_window_target (MonWorkspace (ws_id (workspaces m1 ! idx)) col) m1 = Some (idx, ?tg)"
    using idx_of_ws_nth [OF c1 kl] by (simp add: resolve_add_window_target_def)
  ultimately have run: "mon_add_tile cv t (MonWorkspace (ws_id (workspaces m1 ! idx)) col) ActivateYes allow width full fl False m1 =
      (if allow then activate_workspace idx m2 else Some m2)"
    by (simp add: mon_add_tile_def)
  show ?thesis
  proof (cases allow)
    case False
    with run c2 sh2 shows_windowI [OF shape_loose [OF sh2] k2 w2] show ?thesis by (simp add: dropped_def mon_ok_def)
  next
    case True
    with run activate_shows [OF c2(1) sh2 k2 w2] c2(2) show ?thesis
      by (auto simp: dropped_def mon_ok_def elim!: returns_mono)
  qed
qed

text \<open>
  Where a window may be dropped: on a workspace that is shown, at a place that is there, or on
  a new workspace before the last shown one; at the very end only if no workspace is hidden
\<close>

definition position_fits :: "insert_position \<Rightarrow> workspace \<Rightarrow> bool" where
  "position_fits pos ws =
     (case pos of
        NewColumn c \<Rightarrow> c \<le> length (columns (ws_scrolling ws))
      | InColumn c t \<Rightarrow> c < length (columns (ws_scrolling ws)) \<and> t \<le> length (tiles (columns (ws_scrolling ws) ! c))
      | InFloating \<Rightarrow> True)"

definition drop_fits :: "bool \<Rightarrow> insert_workspace_at \<Rightarrow> insert_position \<Rightarrow> monitor \<Rightarrow> bool" where
  "drop_fits is_floating place pos m =
     (case place of
        Existing i \<Rightarrow>
          (case idx_of_ws i m of
             None \<Rightarrow> False
           | Some idx \<Rightarrow> idx < visible_workspace_count m \<and> (\<not> is_floating \<longrightarrow> position_fits pos (workspaces m ! idx)))
      | NewAt idx \<Rightarrow> idx < visible_workspace_count m \<or> visible_workspace_count m = length (workspaces m))"

lemma drop_on_monitor_returns:
  assumes cv: "parents_acyclic cv" and ok: "mon_ok cv m" and fresh: "win (md_tile md) \<notin># mon_mset m"
    and fits: "drop_fits (md_is_floating md) place pos m"
  shows "returns (drop_on_monitor cv place pos allow md m) (\<lambda>m'. mon_ok cv m' \<and> mon_mset m' = add_mset (win (md_tile md)) (mon_mset m))"
proof -
  have c: "content_ok cv m" and sh: "shape True m" using ok by (simp_all add: mon_ok_def)
  note l = looseD [OF shape_loose [OF sh]]
  note vc = visible_count [OF l(1)]
  have len: "length (vis m) \<le> length (workspaces m)" using arg_cong [OF l(1), of length] by simp
  have ne: "1 \<le> length (workspaces m)" using len l(3) by (cases "vis m") simp_all
  have fin: "returns (do { m' \<leftarrow> r; assert_that (list_ex (\<lambda>ws. \<not> ws_hidden ws \<and> ws_has_window (win (md_tile md)) ws) (workspaces m'));
        Some m' }) (\<lambda>m'. mon_ok cv m' \<and> mon_mset m' = add_mset (win (md_tile md)) (mon_mset m))"
    if "returns r (dropped cv (win (md_tile md)) m)" for r
    using that by (auto simp: dropped_def shows_window_def elim!: returnsE)
  define new where "new = (\<exists>idx. place = NewAt idx \<and> \<not> (above_first m \<and> idx = 0) \<and> idx < length (workspaces m) - 1)"
  show ?thesis
  proof (cases new)
    case True
    then obtain idx where n: "place = NewAt idx" "\<not> (above_first m \<and> idx = 0)" "idx < length (workspaces m) - 1"
      by (auto simp: new_def)
    have i: "idx < length (vis m)" using fits n(1,3) vc by (auto simp: drop_fits_def)
    note p = new_at_place [OF ok i]
    have "drop_workspace place m = Some (idx, add_result idx m)"
      using n p(1) by (auto simp: drop_workspace_def sub_usize_def)
    moreover have "drop_position (md_is_floating md) place pos \<in> {NewColumn 0, InFloating}"
      by (simp add: drop_position_def n(1))
    ultimately show ?thesis
      using p(3) [OF shape_loose [OF sh]] fin [OF drop_new_returns [OF cv ok i n(2) fresh]]
      by (auto simp: drop_on_monitor_def)
  next
    case False
    have "\<exists>idx. drop_workspace place m = Some (idx, m) \<and> idx < length (vis m) \<and>
        position_fits (drop_position (md_is_floating md) place pos) (workspaces m ! idx)"
    proof (cases place)
      case (Existing i)
      with fits vc show ?thesis
        by (auto simp: drop_fits_def drop_workspace_def drop_position_def position_fits_def split: option.splits)
    next
      case (NewAt idx)
      show ?thesis
      proof (cases "above_first m \<and> idx = 0")
        case True
        with NewAt l(3) ne show ?thesis
          by (auto simp: drop_workspace_def drop_position_def position_fits_def sub_usize_def)
      next
        case first: False
        with False NewAt have e: "length (workspaces m) - 1 \<le> idx" by (auto simp: new_def)
        with NewAt fits vc len have "length (vis m) = length (workspaces m) \<or> length (workspaces m) = idx + 1 \<and> idx < length (vis m)"
          by (auto simp: drop_fits_def)
        with e NewAt first l(3) ne show ?thesis
          by (auto simp: drop_workspace_def drop_position_def position_fits_def sub_usize_def)
      qed
    qed
    then obtain idx where d: "drop_workspace place m = Some (idx, m)" "idx < length (vis m)"
      "position_fits (drop_position (md_is_floating md) place pos) (workspaces m ! idx)" by blast
    have kl: "idx < length (workspaces m)" using d(2) len by simp
    have r: "resolve_add_window_target (MonWorkspace (ws_id (workspaces m ! idx)) col) m =
        Some (idx, case col of Some c \<Rightarrow> NewColumnAt c | None \<Rightarrow> Auto)" for col
      using idx_of_ws_nth [OF c kl] by (simp add: resolve_add_window_target_def)
    show ?thesis
    proof (cases "drop_position (md_is_floating md) place pos")
      case (NewColumn ci)
      with d(3) have "target_valid (NewColumnAt ci) (workspaces m ! idx)" by (simp add: position_fits_def)
      with fin [OF drop_tile_returns [OF cv ok r d(2) _ fresh, of "Some ci"]] d(1) kl NewColumn show ?thesis
        by (simp add: drop_on_monitor_def)
    next
      case (InColumn ci ti)
      with d(3) have "ci < length (columns (ws_scrolling (workspaces m ! idx)))"
        "ti \<le> length (tiles (columns (ws_scrolling (workspaces m ! idx)) ! ci))" by (simp_all add: position_fits_def)
      with fin [OF drop_in_column_returns [OF ok d(2) fresh this]] d(1) kl InColumn show ?thesis
        by (simp add: drop_on_monitor_def)
    next
      case InFloating
      with fin [OF drop_tile_returns [OF cv ok r d(2) _ fresh, of None]] d(1) kl show ?thesis
        by (simp add: drop_on_monitor_def)
    qed
  qed
qed

lemma stays_drop [frames]:
  assumes "stays fr m" and Q: "\<And>m'. stays fr m' \<Longrightarrow> Q m'"
  shows "yields fr (drop_on_monitor cv place pos allow md m) Q"
proof -
  have "yields fr (drop_workspace place m) (\<lambda>(i, m'). stays fr m')"
    unfolding drop_workspace_def using assms(1) by (auto intro!: frames split: insert_workspace_at.split)
  then show ?thesis
    unfolding drop_on_monitor_def
    by (auto intro!: frames Q split: insert_position.split elim!: yields_mono)
qed


section \<open>The drag begins\<close>

lemma placed_in:
  assumes ok: "lt_ok cv L" and w: "w \<in># placed_mset L"
  shows "is_sticky_window w L \<or> List.find (ws_has_window w) (lt_workspaces L) \<noteq> None"
proof -
  have "w \<in> set (concat (map (\<lambda>m. fl_windows (sticky m)) (lt_monitors L))) \<union> set (concat (map ws_windows (lt_workspaces L)))"
  proof -
    have "mset (lt_windows L) = moved_mset L + placed_mset L" by (simp add: lt_windows_mset lt_mset_def)
    then have "placed_mset L = mset (concat (map (\<lambda>m. fl_windows (sticky m)) (lt_monitors L)) @ concat (map ws_windows (lt_workspaces L)))"
      by (auto simp: lt_windows_def moved_mset_def split: option.splits)
    with w show ?thesis by simp
  qed
  then show ?thesis
    by (auto simp: is_sticky_window_def list_ex_iff sticky_has_window_def fl_has_window_def find_None_iff ws_has_window_def fl_windows_def)
qed

lemma placed_on_monitor:
  assumes "m \<in> set (lt_monitors L)" "w \<in># mon_mset m"
  shows "w \<in># placed_mset L"
proof (cases "lt_set L")
  case (Normal mons p a)
  with assms obtain k where "k < length mons" "mons ! k = m" by (auto simp: lt_monitors_def in_set_conv_nth)
  with mons_mset_split [OF this(1)] assms(2) show ?thesis by (simp add: placed_mset_def Normal)
qed (use assms in \<open>simp add: lt_monitors_def\<close>)

lemma drag_begins:
  assumes ok: "lt_ok cv L" and pos: "\<And>m. m \<in> set (lt_monitors L) \<Longrightarrow> 0 \<le> pos (mon_output m) \<and> pos (mon_output m) \<le> real (visible_workspace_count m)"
  shows "returns (interactive_move_begin shown pos w out L) (\<lambda>(b, L'). lt_same cv L L')"
proof -
  let ?L = "L\<lparr>lt_interactive_move := Some (MoveStarting w)\<rparr>"
  have start: "returns (on_all_monitors (\<lambda>m. Some (dnd_scroll_gesture_begin (pos (mon_output m)) m)) ?L) (lt_same cv L)"
    if "w \<in># placed_mset L" "lt_interactive_move L = None"
  proof -
    have s: "lt_same cv L ?L" by (rule lt_same_move [OF ok]) (use that in \<open>simp_all add: started_in_def\<close>)
    have "returns (on_all_monitors (\<lambda>m. Some (dnd_scroll_gesture_begin (pos (mon_output m)) m)) ?L) (lt_keeps cv ?L)"
      by (rule all_monitors_keep [OF lt_sameD [OF s]]) (use pos swipe_homely(5) in simp)
    then show ?thesis by (rule lt_same_after [OF s, OF returns_mono]) (rule keeps_same)
  qed
  have sticky: "w \<in># placed_mset L" if "list_ex (\<lambda>m. sticky_has_window w m \<and> mon_output m = out) (lt_monitors L)"
  proof -
    from that obtain m where "m \<in> set (lt_monitors L)" "sticky_has_window w m" by (auto simp: list_ex_iff)
    with placed_on_monitor [OF this(1)] show ?thesis
      by (simp add: sticky_has_window_def fl_has_window_def mon_mset_windows mon_windows_def)
  qed
  have found: "w \<in># placed_mset L"
    if "List.find (\<lambda>m. list_ex (\<lambda>ws. \<not> ws_hidden ws \<and> shown (ws_id ws) \<and> ws_has_window w ws) (workspaces m)) (lt_monitors L) = Some m" for m
  proof -
    from that have "m \<in> set (lt_monitors L)" "list_ex (ws_has_window w) (workspaces m)"
      by (auto simp: find_Some_iff list_ex_iff)
    with placed_on_monitor [OF this(1)] show ?thesis
      by (auto simp: list_ex_iff ws_has_window_def mon_mset_windows mon_windows_def)
  qed
  show ?thesis
    using start sticky found lt_same_refl [OF ok]
    by (auto simp: interactive_move_begin_def Let_def split: option.split elim!: returnsE)
qed

section \<open>The window is pulled out\<close>

lemma pull_out_returns:
  assumes cv: "parents_acyclic cv" and ok: "lt_ok cv L" and w: "lt_interactive_move L = Some (MoveStarting w)"
  shows "returns (pull_out cv pos w out L) (lt_same cv L)"
proof -
  let ?L = "L\<lparr>lt_interactive_move := None\<rparr>"
  have s0: "lt_same cv L ?L" by (rule lt_same_move [OF ok]) (simp_all add: w started_in_def)
  note ok0 = lt_sameD [OF s0]
  have placed: "w \<in># placed_mset L" using ok w by (simp add: lt_ok_def started_in_def)
  have "returns (if is_sticky_window w ?L then Some ?L
      else on_workspace_of w (\<lambda>ws. do { ws \<leftarrow> ws_set_fullscreen cv w False ws; ws_set_maximized cv w False ws }) ?L) (lt_keeps cv ?L)"
  proof (cases "is_sticky_window w ?L")
    case True
    with lt_keeps_refl [OF ok0] show ?thesis by simp
  next
    case False
    have "returns (do { ws \<leftarrow> ws_set_fullscreen cv w False ws; ws_set_maximized cv w False ws }) (ws_keeps cv ws)"
      if "ws_ok cv ws" "w \<in> set (ws_windows ws)" for ws
    proof -
      from ws_step_keeps [OF cv that(1), of "WsSetFullscreen w False"] that(2) obtain ws1 where
        ws1: "ws_set_fullscreen cv w False ws = Some ws1" "ws_keeps cv ws ws1"
        by (auto elim!: returnsE)
      have "ws_ok cv ws1" "w \<in> set (ws_windows ws1)"
        using ws1(2) that(2) by (auto simp: ws_keeps_def) (metis set_mset_mset ws_mset_windows)
      from ws_step_keeps [OF cv this(1), of "WsSetMaximized w False"] this(2) ws1 show ?thesis
        by (auto simp: ws_keeps_def elim!: returnsE intro: ws_frame_trans)
    qed
    with False workspace_of_keeps [OF ok0] show ?thesis by simp
  qed
  then obtain L1 where L1: "(if is_sticky_window w ?L then Some ?L
      else on_workspace_of w (\<lambda>ws. do { ws \<leftarrow> ws_set_fullscreen cv w False ws; ws_set_maximized cv w False ws }) ?L) = Some L1"
    "lt_keeps cv ?L L1"
    by (auto elim!: returnsE)
  have ok1: "lt_ok cv L1" and none: "lt_interactive_move L1 = None" and p1: "w \<in># placed_mset L1"
    using L1(2) placed by (simp_all add: lt_keeps_def)
  from remove_placed_returns [OF ok1, of w] none obtain r L2 where
    L2: "remove_placed cv w L1 = Some (r, L2)" "lt_interactive_move L2 = None"
      "case r of None \<Rightarrow> lt_keeps cv L1 L2 \<and> w \<notin># placed_mset L1 | Some r \<Rightarrow> win (rt_tile r) = w \<and> lt_loses cv w L1 L2"
    by (auto elim!: returnsE)
  from L2(3) p1 obtain x where x: "r = Some x" "win (rt_tile x) = w" "lt_loses cv w L1 L2" by (cases r) auto
  have rm: "remove_window cv pos w L1 = Some (Some x, L2)"
    using L2(1) none x(1) by (simp add: remove_window_def moving_data_def)
  define md where "md = \<lparr>md_tile = rt_tile x, md_output = out, md_width = rt_width x, md_is_full_width = rt_is_full_width x,
    md_is_floating = rt_is_floating x, md_is_sticky = rt_is_sticky x\<rparr>"
  have ms: "lt_mset L = add_mset w (placed_mset L2)"
    using x(3) L1(2) s0 L2(2) none keeps_mset [OF L1(2)]
    by (simp add: lt_loses_def lt_same_def) (simp add: lt_mset_def moved_mset_state)
  have "distinct_mset (lt_mset L)" using ok by (simp add: lt_ok_def)
  then have "distinct_mset (state_mset (Some (Moving md)) + placed_mset L2)" using ms x(2) by (simp add: md_def)
  from lt_ok_move [OF _ this] x(3) have "lt_ok cv (L2\<lparr>lt_interactive_move := Some (Moving md)\<rparr>)"
    by (simp add: lt_loses_def started_in_def)
  then have "lt_same cv L (L2\<lparr>lt_interactive_move := Some (Moving md)\<rparr>)"
    using ms x(2,3) L1(2) s0 by (simp add: lt_same_def lt_loses_def lt_keeps_def lt_mset_def moved_mset_state md_def)
  moreover have "pull_out cv pos w out L = Some (L2\<lparr>lt_interactive_move := Some (Moving md)\<rparr>)"
    using L1(1) rm by (simp add: pull_out_def Let_def md_def)
  ultimately show ?thesis by simp
qed

lemma drag_updates:
  assumes cv: "parents_acyclic cv" and ok: "lt_ok cv L"
  shows "returns (interactive_move_update cv pos far w out L) (\<lambda>(b, L'). lt_same cv L L')"
proof -
  note refl = lt_same_refl [OF ok]
  show ?thesis
  proof (cases "lt_interactive_move L")
    case None
    with refl show ?thesis by (simp add: interactive_move_update_def)
  next
    case (Some st)
    show ?thesis
    proof (cases st)
      case (MoveStarting v)
      show ?thesis
      proof (cases "v = w")
        case False
        with Some MoveStarting refl show ?thesis by (simp add: interactive_move_update_def)
      next
        case True
        then have "w \<in># placed_mset L" using ok Some MoveStarting by (simp add: lt_ok_def started_in_def)
        from placed_in [OF ok this] have "is_floating_window w L \<noteq> None"
          by (auto simp: is_floating_window_def)
        then obtain fl where "is_floating_window w L = Some fl" by blast
        with Some MoveStarting True refl pull_out_returns [OF cv ok, of w pos out] show ?thesis
          by (auto simp: interactive_move_update_def elim!: returnsE)
      qed
    next
      case (Moving md)
      have "lt_same cv L ((focus_output out L)\<lparr>lt_interactive_move := Some (Moving (md\<lparr>md_output := out\<rparr>))\<rparr>)"
      proof -
        note k = focus_output_keeps [OF ok, of out]
        have "lt_same cv (focus_output out L) ((focus_output out L)\<lparr>lt_interactive_move := Some (Moving (md\<lparr>md_output := out\<rparr>))\<rparr>)"
          by (rule lt_same_move [OF lt_keepsD [OF k]]) (use k Some Moving in \<open>simp_all add: lt_keeps_def started_in_def\<close>)
        then show ?thesis by (rule lt_same_trans [OF keeps_same [OF k]])
      qed
      with Some Moving refl show ?thesis by (simp add: interactive_move_update_def)
    qed
  qed
qed


section \<open>The window is dropped\<close>

lemma map_all_same:
  assumes "map_all f xs = Some ys" "\<And>x y. f x = Some y \<Longrightarrow> g y = g x"
  shows "map g ys = map g xs"
  using assms(1) by (induction xs arbitrary: ys) (auto simp: assms(2) bind_eq_Some_conv)

lemma dnd_end_workspaces: "dnd_scroll_gesture_end pos m = Some m' \<Longrightarrow> workspaces m' = workspaces m"
  by (auto simp: dnd_scroll_gesture_end_def workspace_switch_gesture_end_def Let_def bind_eq_Some_conv
      split: option.splits switch_state.splits if_splits prod.splits)

lemma end_scroll_workspaces:
  assumes "end_scroll_gestures pos L = Some L'" "lt_set L = Normal mons p a"
  shows "\<exists>mons'. lt_set L' = Normal mons' p a \<and> map workspaces mons' = map workspaces mons"
  using assms map_all_same [where g = workspaces, OF _ dnd_end_workspaces]
  by (auto simp: end_scroll_gestures_def on_all_monitors_def)

lemma drop_fits_cong: "workspaces m' = workspaces m \<Longrightarrow> drop_fits fl place pos m' = drop_fits fl place pos m"
  by (simp add: drop_fits_def idx_of_ws_def visible_workspace_count_def cong: option.case_cong insert_workspace_at.case_cong)

lemma position_map: "position P (map f xs) = position (\<lambda>x. P (f x)) xs"
  by (induction xs) simp_all

lemma monitor_of_output_outputs: "monitor_of_output out mons = position (\<lambda>x. x = out) (outputs_of mons)"
  by (simp add: monitor_of_output_def outputs_of_def position_map)

definition drop_allowed :: "insert_workspace_at \<Rightarrow> insert_position \<Rightarrow> move_data \<Rightarrow> layout \<Rightarrow> bool" where
  "drop_allowed place pos md L \<longleftrightarrow>
     md_is_sticky md \<or>
     (case lt_set L of
        NoOutputs _ \<Rightarrow> True
      | Normal mons p a \<Rightarrow>
          (case monitor_of_output (md_output md) mons of
             Some k \<Rightarrow> drop_fits (md_is_floating md) place pos (mons ! k)
           | None \<Rightarrow> md_is_floating md \<or> position_fits pos (workspaces (mons ! a) ! 0)))"

lemma gain_change_monitor:
  assumes ok: "lt_ok cv L" and L: "lt_set L = Normal mons p a" and k: "k < length mons" and w: "w \<notin># lt_mset L"
    and run: "returns (f (at_counter (lt_next_ws_id L) (mons ! k))) (\<lambda>m'. mon_ok cv m' \<and> mon_mset m' = add_mset w (mon_mset (mons ! k)))"
    and frame: "\<And>fr m. stays fr m \<Longrightarrow> yields fr (f m) (stays fr)"
  shows "returns (change_monitor k f L) (lt_gains cv w L)"
proof -
  have "returns (on_monitor k (\<lambda>m. map_option (Pair ()) (f m)) L) (\<lambda>(x, L'). lt_gains cv w L L' \<and>
           (\<exists>m'. L' = lt_put (mons[k := m']) p a (next_ws_id m') L \<and> True))"
  proof (rule gain_on_monitor [OF ok L k w])
    show "returns (map_option (Pair ()) (f (at_counter (lt_next_ws_id L) (mons ! k))))
        (\<lambda>(x, m'). mon_ok cv m' \<and> mon_mset m' = add_mset w (mon_mset (mons ! k)) \<and> True)"
      using run by (auto elim!: returnsE)
    fix fr x m'
    assume st: "stays fr (at_counter (lt_next_ws_id L) (mons ! k))"
      and "map_option (Pair ()) (f (at_counter (lt_next_ws_id L) (mons ! k))) = Some (x, m')"
    then have "f (at_counter (lt_next_ws_id L) (mons ! k)) = Some m'" by simp
    then show "stays fr m'" by (rule stays_result [OF st frame [OF st]])
  qed
  then show ?thesis by (auto simp: change_monitor_def elim!: returnsE)
qed

lemma drop_window_returns:
  assumes cv: "parents_acyclic cv" and ok: "lt_ok cv L" and w: "win (md_tile md) \<notin># lt_mset L"
    and al: "drop_allowed place pos md L"
  shows "returns (drop_window cv place pos md L) (lt_gains cv (win (md_tile md)) L)"
proof (cases "lt_set L")
  case (NoOutputs wss)
  obtain wss' n where f: "first_workspace L wss = (wss', n)" by fastforce
  have "0 < length wss'" using f by (auto simp: first_workspace_def split: if_splits)
  from gain_NoOutputs [OF cv ok NoOutputs _ this w, of n Auto ActivateYes "md_width md" "md_is_full_width md" "md_is_floating md"] f
  show ?thesis by (simp add: drop_window_def NoOutputs)
next
  case (Normal mons p a)
  note n = lt_ok_NormalD [OF ok Normal]
  have fresh: "win (md_tile md) \<notin># mon_mset (mons ! k)" if "k < length mons" for k
    using w placed_on_monitor [of "mons ! k" L "win (md_tile md)"] that by (auto simp: lt_monitors_def Normal lt_mset_def)
  have sticky: "returns (change_monitor k (add_sticky_tile cv (md_tile md) True) L) (lt_gains cv (win (md_tile md)) L)"
    if k: "k < length mons" for k
  proof (rule gain_change_monitor [OF ok Normal k w])
    have "mon_ok cv (at_counter (lt_next_ws_id L) (mons ! k))" by (rule mons_ok_nth(1) [OF n(1) k])
    then have m: "content_ok cv (at_counter (lt_next_ws_id L) (mons ! k))" "shape True (at_counter (lt_next_ws_id L) (mons ! k))"
      by (simp_all add: mon_ok_def)
    show "returns (add_sticky_tile cv (md_tile md) True (at_counter (lt_next_ws_id L) (mons ! k)))
        (\<lambda>m'. mon_ok cv m' \<and> mon_mset m' = add_mset (win (md_tile md)) (mon_mset (mons ! k)))"
      by (rule returns_mono [OF add_sticky_tile_returns [OF cv m]]) (use fresh [OF k] in \<open>simp_all add: mon_ok_def\<close>)
  qed (auto intro!: frames)
  have drop: "returns (change_monitor k (drop_on_monitor cv pl pos allow md) L) (lt_gains cv (win (md_tile md)) L)"
    if k: "k < length mons" and fits: "drop_fits (md_is_floating md) pl pos (mons ! k)" for k pl allow
  proof (rule gain_change_monitor [OF ok Normal k w])
    have f: "drop_fits (md_is_floating md) pl pos (at_counter (lt_next_ws_id L) (mons ! k))"
      using fits drop_fits_cong [of "at_counter (lt_next_ws_id L) (mons ! k)" "mons ! k"] by simp
    show "returns (drop_on_monitor cv pl pos allow md (at_counter (lt_next_ws_id L) (mons ! k)))
        (\<lambda>m'. mon_ok cv m' \<and> mon_mset m' = add_mset (win (md_tile md)) (mon_mset (mons ! k)))"
      using drop_on_monitor_returns [OF cv mons_ok_nth(1) [OF n(1) k] _ f, of allow] fresh [OF k] by simp
  qed (auto intro!: frames)
  show ?thesis
  proof (cases "monitor_of_output (md_output md) mons")
    case (Some k)
    then have k: "k < length mons" by (auto simp: monitor_of_output_def dest: position_SomeD)
    from sticky [OF k] drop [OF k] al show ?thesis
      by (auto simp: drop_window_def Normal Some drop_allowed_def)
  next
    case None
    show ?thesis
    proof (cases "md_is_sticky md")
      case True
      with sticky [OF n(2)] show ?thesis by (simp add: drop_window_def Normal None)
    next
      case False
      let ?m = "mons ! a"
      have ok': "mon_ok cv ?m" using n(1,2) by (simp add: mons_ok_def mon_fits_def)
      then have c: "content_ok cv ?m" and sh: "shape True ?m" by (simp_all add: mon_ok_def)
      note l = looseD [OF shape_loose [OF sh]]
      have ne: "0 < length (vis ?m)" "0 < length (workspaces ?m)"
        using l(3) arg_cong [OF l(1), of length] by auto
      have "first_existing mons a = Some (Existing (ws_id (workspaces ?m ! 0)))"
        using n(2) ne(2) by (simp add: first_existing_def)
      moreover have "drop_fits (md_is_floating md) (Existing (ws_id (workspaces ?m ! 0))) pos ?m"
        using idx_of_ws_nth [OF c ne(2)] visible_count [OF l(1)] ne(1) al False by (auto simp: drop_fits_def drop_allowed_def Normal None)
      ultimately show ?thesis
        using False drop [OF n(2)] by (simp add: drop_window_def Normal None)
    qed
  qed
qed

lemma drag_ends:
  assumes cv: "parents_acyclic cv" and ok: "lt_ok cv L"
    and al: "\<And>md. moving_data L = Some md \<Longrightarrow> win (md_tile md) = w \<Longrightarrow> drop_allowed place pos md L"
  shows "returns (interactive_move_end cv ends place pos w L) (lt_same cv L)"
proof (cases "lt_interactive_move L")
  case None
  with lt_same_refl [OF ok] show ?thesis by (simp add: interactive_move_end_def)
next
  case (Some st)
  show ?thesis
  proof (cases st)
    case (MoveStarting v)
    with Some lt_same_refl [OF ok] end_starting_move_returns [OF cv ok, of v ends w] show ?thesis
      by (auto simp: interactive_move_end_def elim!: returns_mono)
  next
    case (Moving md)
    show ?thesis
    proof (cases "win (md_tile md) = w")
      case False
      with Some Moving lt_same_refl [OF ok] show ?thesis by (simp add: interactive_move_end_def)
    next
      case True
      have md: "moving_data L = Some md" using Some Moving by (simp add: moving_data_def)
      let ?L = "L\<lparr>lt_interactive_move := None\<rparr>"
      have ms: "lt_mset L = add_mset w (lt_mset ?L)"
        using Some Moving True by (simp add: lt_mset_def moved_mset_state)
      have d: "distinct_mset (lt_mset L)" using ok by (simp add: lt_ok_def)
      then have ok0: "lt_ok cv ?L"
        using ms by (intro lt_ok_move [OF ok]) (simp_all add: started_in_def lt_mset_def moved_mset_state)
      from end_scroll_keeps_none [OF ok0, of ends] obtain L1 where L1: "end_scroll_gestures ends ?L = Some L1" "lt_keeps cv ?L L1"
        by (auto elim!: returnsE)
      have al1: "drop_allowed place pos md L1"
      proof (cases "lt_set L")
        case (Normal mons p a)
        then have "lt_set ?L = Normal mons p a" by simp
        from end_scroll_workspaces [OF L1(1) this] obtain mons' where
          m': "lt_set L1 = Normal mons' p a" "map workspaces mons' = map workspaces mons" by blast
        have len: "length mons' = length mons" using arg_cong [OF m'(2), of length] by simp
        have ws: "workspaces (mons' ! k) = workspaces (mons ! k)" if "k < length mons" for k
          using arg_cong [OF m'(2), of "\<lambda>xs. xs ! k"] that len by simp
        have "outputs_of mons' = outputs_of mons" using L1(2) m'(1) Normal by (simp add: lt_keeps_def lt_monitors_def)
        then have "monitor_of_output out mons' = monitor_of_output out mons" for out
          by (simp add: monitor_of_output_outputs)
        note mo = this
        have a: "a < length mons" by (rule lt_ok_NormalD(2) [OF ok Normal])
        show ?thesis
        proof (cases "monitor_of_output (md_output md) mons")
          case None
          with al [OF md True] ws [OF a] show ?thesis by (simp add: drop_allowed_def Normal m'(1) mo)
        next
          case (Some k)
          then have "k < length mons" by (auto simp: monitor_of_output_def dest: position_SomeD)
          from drop_fits_cong [OF ws [OF this]] al [OF md True] show ?thesis
            by (simp add: drop_allowed_def Normal m'(1) mo Some)
        qed
      next
        case (NoOutputs wss)
        with L1(1) show ?thesis by (auto simp: drop_allowed_def end_scroll_gestures_def on_all_monitors_def)
      qed
      have "win (md_tile md) \<notin># lt_mset L1" using d ms L1(2) keeps_mset [OF L1(2)] True by simp
      from drop_window_returns [OF cv lt_keepsD [OF L1(2)] this al1] obtain L2 where
        L2: "drop_window cv place pos md L1 = Some L2" "lt_gains cv w L1 L2"
        using True by (auto elim!: returnsE)
      have "lt_same cv L L2"
        using L2(2) L1(2) ms keeps_mset [OF L1(2)] by (simp add: lt_gains_def lt_same_def lt_keeps_def)
      with L1(1) L2(1) Some Moving True show ?thesis by (simp add: interactive_move_end_def)
    qed
  qed
qed

end
