(* ===== verification/MonitorAppend.thy ===== *)
theory MonitorAppend
  imports LayoutDrag
begin

text \<open>
  \<open>append_workspaces\<close>: a monitor takes over the workspaces of an output that has gone. They come
  before its last empty workspace, the hidden ones after all others.
\<close>

lemma core_shift_hidden [simp]: "core (shift_hidden f ws) = core ws"
  by (simp add: shift_hidden_def core_def)

lemma shifted_many:
  assumes "workspaces m = v @ h" "\<forall>ws \<in> set v. \<not> ws_hidden ws" "\<forall>ws \<in> set h. ws_hidden ws"
  shows "\<exists>h'. ((shift_hidden_original_indices_for_insertion k) ^^ n) m = m\<lparr>workspaces := v @ h'\<rparr> \<and>
    map core h' = map core h \<and> (\<forall>ws \<in> set h'. ws_hidden ws)"
proof (induction n)
  case 0
  have "m = m\<lparr>workspaces := v @ h\<rparr>" using assms(1) by (metis monitor.surjective monitor.update_convs(2))
  then show ?case using assms(3) by auto
next
  case (Suc n)
  then obtain h' where h': "((shift_hidden_original_indices_for_insertion k) ^^ n) m = m\<lparr>workspaces := v @ h'\<rparr>"
    "map core h' = map core h" "\<forall>ws \<in> set h'. ws_hidden ws" by blast
  let ?f = "shift_hidden (\<lambda>i. if k \<le> i then i + 1 else i)"
  have "map ?f v = v" using assms(2) by (simp add: map_idI)
  then have "((shift_hidden_original_indices_for_insertion k) ^^ Suc n) m = m\<lparr>workspaces := v @ map ?f h'\<rparr>"
    using h'(1) by (simp add: shift_hidden_original_indices_for_insertion_def)
  moreover have "map core (map ?f h') = map core h" using h'(2) by (simp add: comp_def)
  ultimately show ?case using h'(3) by (intro exI [of _ "map ?f h'"]) simp
qed

lemma append_workspaces_returns:
  assumes ok: "content_ok cv m" "shape True m"
    and fit: "cores_ok cv (mon_output m) (mon_options m) (next_ws_id m) (fl_mset (sticky m))
      (image_mset core (mset (map (adopt m) xs)) + cores m)"
  shows "returns (append_workspaces xs m) (\<lambda>m'. content_ok cv m' \<and> shape True m' \<and>
           mon_mset m' = mset (concat (map ws_windows xs)) + mon_mset m)"
proof (cases "xs = []")
  case True
  with ok show ?thesis by (simp add: append_workspaces_def)
next
  case False
  note l = looseD [OF shape_loose [OF ok(2)]]
  define ys where "ys = map (adopt m) xs"
  define V where "V = filter (\<lambda>ws. \<not> ws_hidden ws) ys"
  define H where "H = map (\<lambda>ws. ws\<lparr>original_idx := None\<rparr>) (filter ws_hidden ys)"
  define e where "e = length (vis m) - 1"
  have e: "e < length (vis m)" using l(3) by (simp add: e_def)
  have split: "vis m = take e (vis m) @ [last (vis m)]" using append_butlast_last_id [OF l(3)] unfolding e_def butlast_conv_take by simp
  have "\<forall>ws \<in> set (hid m). ws_hidden ws" "\<forall>ws \<in> set (vis m). \<not> ws_hidden ws" by (simp_all add: hid_def vis_def)
  from shifted_many [OF l(1) this(2,1), where k = e and n = "length V"] obtain h where
    h: "((shift_hidden_original_indices_for_insertion e) ^^ length V) m = m\<lparr>workspaces := vis m @ h\<rparr>"
      "map core h = map core (hid m)" "\<forall>ws \<in> set h. ws_hidden ws" by blast
  define m2 where "m2 = m\<lparr>workspaces := (take e (vis m) @ V @ [last (vis m)]) @ h @ H\<rparr>"
  have w2: "workspaces m2 = (take e (vis m) @ V @ [last (vis m)]) @ h @ H" by (simp add: m2_def)
  have vh2: "vis m2 = take e (vis m) @ V @ [last (vis m)]" "hid m2 = h @ H"
  proof -
    have v: "\<forall>ws \<in> set (take e (vis m) @ V @ [last (vis m)]). \<not> ws_hidden ws"
      using l(3) last_in_set [OF l(3)] by (auto simp: V_def vis_def dest: in_set_takeD)
    have hh: "\<forall>ws \<in> set (h @ H). ws_hidden ws" using h(3) by (auto simp: H_def)
    show "vis m2 = take e (vis m) @ V @ [last (vis m)]" "hid m2 = h @ H" by (rule vis_hid_I [OF w2 v hh])+
  qed
  have cores2: "cores m2 = image_mset core (mset ys) + cores m"
  proof -
    have hid: "image_mset core (mset h) = image_mset core (mset (hid m))" using h(2) by (metis mset_map)
    have vis: "mset (vis m) = mset (take e (vis m)) + {#last (vis m)#}" by (subst split) simp
    have HH: "image_mset core (mset H) = image_mset core (mset (filter ws_hidden ys))"
      by (simp add: H_def image_mset.compositionality comp_def core_def [abs_def])
    have VH: "image_mset core (mset V) + image_mset core (mset (filter ws_hidden ys)) = image_mset core (mset ys)"
      unfolding V_def by (metis image_mset_union mset_filter mset_split_filter)
    have "cores m2 = image_mset core (mset (vis m)) + image_mset core (mset (hid m)) +
        (image_mset core (mset V) + image_mset core (mset (filter ws_hidden ys)))"
      by (simp add: cores_def w2 hid HH vis)
    then show ?thesis unfolding VH cores_split [OF l(1)] by (simp add: ac_simps)
  qed
  have st2: "steady m m2" by (simp add: steady_def m2_def)
  have "next_ws_id m2 = next_ws_id m" by (simp add: m2_def)
  then have c2: "content_ok cv m2"
    by (intro content_cores [OF ok(1) st2]) (use fit in \<open>simp add: cores2 ys_def\<close>)
  have ms2: "mon_mset m2 = mset (concat (map ws_windows xs)) + mon_mset m"
  proof -
    have "\<Sum>\<^sub># (image_mset ws_mset (image_mset core (mset ys))) = mset (concat (map ws_windows ys))"
      unfolding image_core(3) windows_list ..
    moreover have "map ws_windows ys = map ws_windows xs"
      by (simp add: ys_def adopt_def comp_def flip: joined_def)
    ultimately show ?thesis by (simp add: mon_mset_def cores2) (simp add: m2_def)
  qed
  have blast2: "blank (last (vis m2))" using l(4) by (simp add: vh2)
  have "active_workspace_idx m2 = active_workspace_idx m" by (simp add: m2_def)
  then have act2: "active_workspace_idx m2 < length (vis m2)" using l(2) e by (simp add: vh2 e_def)
  have len2: "0 < length (workspaces m2)" by (simp add: w2)
  define top where "top = (above_first m2 \<and> has_windows_or_name (workspaces m2 ! 0))"
  define m3 where "m3 = (if top then add_result 0 m2 else m2)"
  have w2': "workspaces m2 = vis m2 @ hid m2" using w2 vh2 by simp
  have run3: "(if top then add_workspace_top m2 else Some m2) = Some m3"
    using add_workspace_at_eq [OF w2', of 0] by (simp add: m3_def add_workspace_top_def)
  have r3: "rearranged cv m2 m3"
    unfolding m3_def using add_result_rearranged [OF c2 w2', of 0] rearranged_refl [OF c2] by simp
  have first: "workspaces m2 ! 0 = hd (vis m2)" using w2' vh2(1) by (simp add: hd_conv_nth nth_append)
  have loose3: "loose m3"
  proof (cases top)
    case True
    have "loose (add_result 0 m2)"
      by (rule add_result_loose [OF w2' _ act2]) (use blast2 in simp_all)
    with True show ?thesis by (simp add: m3_def)
  next
    case False
    with w2' act2 blast2 first show ?thesis by (auto simp: m3_def loose_def top_def)
  qed
  note l3 = looseD [OF loose3]
  have c3: "content_ok cv m3" using r3 by (simp add: rearranged_def)
  have last3: "last (vis m3) = last (vis m)"
    using act2 by (simp add: m3_def vh2)
  have k3: "length (vis m3) - 1 < length (vis m3)" using l3(3) by simp
  have lenv: "length (vis m3) - 1 < length (workspaces m3)" "workspaces m3 ! (length (vis m3) - 1) = last (vis m)"
  proof -
    show "length (vis m3) - 1 < length (workspaces m3)" using k3 arg_cong [OF l3(1), of length] by simp
    show "workspaces m3 ! (length (vis m3) - 1) = last (vis m)"
      using nth_vis(1) [OF l3(1) k3] last_conv_nth [OF l3(3)] last3 by simp
  qed
  have found: "idx_of_ws (ws_id (last (vis m))) m3 = Some (length (vis m3) - 1)"
    using idx_of_ws_nth [OF c3 lenv(1)] unfolding lenv(2) .
  define m4 where "m4 = (if active_workspace_idx m = e then m3\<lparr>active_workspace_idx := length (vis m3) - 1\<rparr> else m3)"
  have vh4: "vis m4 = vis m3" "hid m4 = hid m3" "workspaces m4 = workspaces m3" "above_first m4 = above_first m3"
    by (simp_all add: m4_def vis_def hid_def)
  define m5 where "m5 = m4\<lparr>workspace_switch := None\<rparr>"
  have vh5: "vis m5 = vis m3" "hid m5 = hid m3" "workspaces m5 = workspaces m3" "above_first m5 = above_first m3"
    "workspace_switch m5 = None" "active_workspace_idx m5 = active_workspace_idx m4"
    using vh4 by (simp_all add: m5_def vis_def hid_def)
  have "active_workspace_idx m5 < length (vis m5)" using l3(2,3) by (simp add: vh5 m4_def)
  then have loose5: "loose m5" using l3 by (simp add: loose_def vh5)
  have c5: "content_ok cv m5"
  proof -
    have cc: "cores m5 = cores m3" by (simp add: cores_def vh5)
    have st: "steady m3 m5" and "next_ws_id m5 = next_ws_id m3" by (simp_all add: steady_def m5_def m4_def)
    then show ?thesis using content_cores [OF c3 st] content_okD [OF c3] by (simp add: cc)
  qed
  have ms5: "mon_mset m5 = mon_mset m3"
    by (simp add: mon_mset_def cores_def vh5) (simp add: m5_def m4_def)
  from clean_up_workspaces_returns [OF loose5 vh5(5)] obtain m6 where
    m6: "clean_up_workspaces m5 = Some m6" "tidied m5 m6" by (auto elim!: returnsE)
  have r6: "rearranged cv m5 m6" by (rule tidied_rearranged [OF c5 m6(2)])
  have empty: "sub_usize (visible_workspace_count m) 1 = Some e" "vec_get (workspaces m) e = Some (last (vis m))"
  proof -
    show "sub_usize (visible_workspace_count m) 1 = Some e"
      using visible_count [OF l(1)] l(3) by (simp add: sub_usize_def e_def Suc_le_eq)
    have "workspaces m ! e = last (vis m)" using nth_vis(1) [OF l(1) e] l(3) by (simp add: e_def last_conv_nth)
    moreover have "e < length (workspaces m)" using e arg_cong [OF l(1), of length] by simp
    ultimately show "vec_get (workspaces m) e = Some (last (vis m))" by simp
  qed
  have "take e (vis m @ h) = take e (vis m)" "drop e (vis m @ h) = last (vis m) # h"
    using e arg_cong [OF split, of "drop e"] by simp_all
  then have m2': "m\<lparr>workspaces := take e (vis m @ h) @ V @ drop e (vis m @ h) @ H\<rparr> = m2"
    by (simp add: m2_def)
  have "append_workspaces xs m = Some m6"
  proof -
    have m2w: "(m\<lparr>workspaces := vis m @ h\<rparr>)\<lparr>workspaces := take e (workspaces (m\<lparr>workspaces := vis m @ h\<rparr>)) @ V @
        drop e (workspaces (m\<lparr>workspaces := vis m @ h\<rparr>)) @ H\<rparr> = m2"
      using m2' by simp
    have first: "vec_get (workspaces m2) 0 = Some (workspaces m2 ! 0)" using len2 by simp
    have focus: "(if active_workspace_idx m = e then do { idx \<leftarrow> idx_of_ws (ws_id (last (vis m))) m3; Some (m3\<lparr>active_workspace_idx := idx\<rparr>) }
        else Some m3) = Some m4"
      using found by (simp add: m4_def)
    show ?thesis
      unfolding append_workspaces_def Let_def if_not_P [OF False] ys_def [symmetric] V_def [symmetric] H_def [symmetric] empty
        bind.bind_lunit h(1) m2w first run3 [unfolded top_def] focus
      using m6(1) by (simp add: m5_def)
  qed
  then show ?thesis
    using r6 rearranged_windows [OF r6] rearranged_windows [OF r3] ms5 ms2 m6(2)
    by (simp add: rearranged_def tidied_def)
qed

end
