(* ===== verification/LayoutOutputs.thy ===== *)
theory LayoutOutputs
  imports MonitorAppend
begin

text \<open>
  An output is disconnected (\<open>Layout::remove_output\<close>): every workspace of it with windows or a
  name goes to the connected output it prefers, or to the primary one, the sticky windows go to
  the primary output, and no window is lost. The last output leaves its workspaces without one.
\<close>

section \<open>An output is disconnected\<close>

fun add_sticky_tiles :: "client_view \<Rightarrow> tile list \<Rightarrow> monitor \<Rightarrow> monitor option" where
  "add_sticky_tiles cv [] m = Some m"
| "add_sticky_tiles cv (t # ts) m = do { m \<leftarrow> add_sticky_tile cv t False m; add_sticky_tiles cv ts m }"

fun add_floating_tiles :: "client_view \<Rightarrow> (win_id \<Rightarrow> column_width) \<Rightarrow> tile list \<Rightarrow> workspace \<Rightarrow> workspace option" where
  "add_floating_tiles cv width [] ws = Some ws"
| "add_floating_tiles cv width (t # ts) ws =
     do {
       ws \<leftarrow> ws_add_tile cv t Auto ActivateNo (width (win t)) False True ws;
       add_floating_tiles cv width ts ws
     }"

text \<open>\<open>extract_if\<close> of one target at a time\<close>

definition goes_to :: "wl_output list \<Rightarrow> nat \<Rightarrow> workspace \<Rightarrow> nat" where
  "goes_to outs p ws = (case find_preferred_output (original_outputs ws) outs of Some k \<Rightarrow> k | None \<Rightarrow> p)"

fun distribute ::
  "(workspace \<Rightarrow> nat) \<Rightarrow> nat \<Rightarrow> workspace list \<Rightarrow> nat \<Rightarrow> monitor list \<Rightarrow> (monitor list \<times> nat) option"
  where
  "distribute target k wss n [] = Some ([], n)"
| "distribute target k wss n (m # mons) =
     do {
       m \<leftarrow> append_workspaces (filter (\<lambda>ws. target ws = k) wss) (at_counter n m);
       (mons, n) \<leftarrow> distribute target (k + 1) (filter (\<lambda>ws. target ws \<noteq> k) wss) (next_ws_id m) mons;
       Some (m # mons, n)
     }"

text \<open>
  \<open>remove_output\<close> takes the monitors out of the layout before it looks for the output, and
  returns early when it does not find it. At the end it refreshes the overview like
  \<open>on_active_monitor_changed\<close> does.
\<close>

definition remove_output ::
  "client_view \<Rightarrow> (win_id \<Rightarrow> column_width) \<Rightarrow> wl_output \<Rightarrow> layout \<Rightarrow> layout option" where
  "remove_output cv width out L = map_option on_active_monitor_changed
     (case lt_set L of
        NoOutputs _ \<Rightarrow> None
      | Normal mons p a \<Rightarrow>
          (case monitor_of_output out mons of
             None \<Rightarrow> Some (L\<lparr>lt_set := NoOutputs []\<rparr>)
           | Some idx \<Rightarrow> do {
               (removed, mons) \<leftarrow> vec_remove idx mons;
               active \<leftarrow> active_workspace removed;
               let L = L\<lparr>last_active_workspace_id :=
                 (last_active_workspace_id L)(output_connector (mon_output removed) \<mapsto> ws_id active)\<rparr>;
               let (wss, tiles) = into_workspaces_and_sticky removed;
               if mons = [] then do {
                 let wss = map (ws_update_config (lt_options L)) wss;
                 let fresh = (wss = [] \<and> tiles \<noteq> []);
                 let wss = (if fresh then [workspace_new_no_outputs (lt_next_ws_id L) (lt_options L)] else wss);
                 wss \<leftarrow> (if tiles = [] then Some wss
                   else do {
                     ws \<leftarrow> vec_get wss 0;
                     ws \<leftarrow> add_floating_tiles cv width tiles ws;
                     Some (wss[0 := ws])
                   });
                 Some (L\<lparr>lt_set := NoOutputs wss,
                         lt_next_ws_id := lt_next_ws_id L + (if fresh then 1 else 0)\<rparr>)
               } else do {
                 let p = (if idx \<le> p then p - 1 else p);
                 let a = (if idx \<le> a then a - 1 else a);
                 (mons, n) \<leftarrow> distribute (goes_to (outputs_of mons) p) 0 wss (lt_next_ws_id L) mons;
                 primary \<leftarrow> vec_get mons p;
                 primary \<leftarrow> add_sticky_tiles cv tiles (at_counter n primary);
                 Some (L\<lparr>lt_set := Normal (mons[p := primary]) p a, lt_next_ws_id := n\<rparr>)
               }
             }))"

section \<open>The outputs that are left\<close>

lemma position_remove:
  assumes "position P xs = Some j" "j \<noteq> i" "i < length xs"
  shows "position P (remove_at i xs) = Some (if i < j then j - 1 else j)"
proof -
  note j = position_SomeD [OF assms(1)]
  show ?thesis
  proof (rule position_SomeI)
    show "(if i < j then j - 1 else j) < length (remove_at i xs)" "P (remove_at i xs ! (if i < j then j - 1 else j))"
      using assms(2,3) j by (auto simp: nth_remove_at)
    fix k assume "k < (if i < j then j - 1 else j)"
    then show "\<not> P (remove_at i xs ! k)" using assms(2,3) j by (auto simp: nth_remove_at split: if_splits)
  qed
qed

lemma position_remove_None: "position P xs = None \<Longrightarrow> position P (remove_at i xs) = None"
  using set_remove_at_subset [of i xs] by (auto simp: position_None)

lemma find_preferred_remove:
  assumes "i < length outs" "find_preferred_output os outs \<noteq> Some i"
  shows "find_preferred_output os (remove_at i outs) =
    map_option (\<lambda>j. if i < j then j - 1 else j) (find_preferred_output os outs)"
  using assms(2)
proof (induction os)
  case (Cons x os)
  show ?case
  proof (cases "position (output_id_matches x) outs")
    case None
    with Cons position_remove_None [OF None, of i] show ?thesis by simp
  next
    case (Some j)
    with Cons.prems position_remove [OF Some _ assms(1)] show ?thesis by simp
  qed
qed simp

lemma settled_remove:
  assumes "settled outs p k os" "k \<noteq> i" "i < length outs"
  shows "settled (remove_at i outs) (if i \<le> p then p - 1 else p) (if i < k then k - 1 else k) os"
proof -
  have "find_preferred_output os outs \<noteq> Some i" using assms(1,2) by (auto simp: settled_def)
  from find_preferred_remove [OF assms(3) this] show ?thesis
    using assms(1,2) by (auto simp: settled_def split: option.splits)
qed

lemma outputs_of_remove: "outputs_of (remove_at i mons) = remove_at i (outputs_of mons)"
  by (simp add: outputs_of_def remove_at_def take_map drop_map)

lemma mons_ok_remove:
  assumes ok: "mons_ok cv base n p mons" and i: "i < length mons" and left: "remove_at i mons \<noteq> []"
  shows "mons_ok cv base n (if i \<le> p then p - 1 else p) (remove_at i mons)"
proof -
  let ?f = "\<lambda>k. if k < i then k else k + 1"
  have len: "length (remove_at i mons) = length mons - 1" and two: "1 < length mons"
    using i left by (auto simp: remove_at_def)
  have nth: "remove_at i mons ! k = mons ! ?f k" if "k < length mons - 1" for k
    using that i by (simp add: nth_remove_at)
  have f: "?f k < length mons" "?f k \<noteq> i" "(if i < ?f k then ?f k - 1 else ?f k) = k" if "k < length mons - 1" for k
    using that by auto
  have lo: "length (outputs_of mons) = length mons" by (simp add: outputs_of_def)
  have s: "mon_settled (remove_at i (outputs_of mons)) (if i \<le> p then p - 1 else p) k (remove_at i mons ! k)"
    if "k < length mons - 1" for k
    unfolding mon_settled_def nth [OF that]
  proof
    fix ws assume "ws \<in> set (workspaces (mons ! ?f k))"
    then have "settled (outputs_of mons) p (?f k) (original_outputs ws)"
      using ok f(1) [OF that] by (simp add: mons_ok_def mon_settled_def)
    from settled_remove [OF this f(2) [OF that]] i show
      "settled (remove_at i (outputs_of mons)) (if i \<le> p then p - 1 else p) k (original_outputs ws)"
      unfolding f(3) [OF that] by (simp add: lo)
  qed
  have ap: "apart (remove_at i mons)"
    unfolding apart_def len
  proof (intro allI impI)
    fix k j assume "k < length mons - 1" "j < length mons - 1" "k \<noteq> j"
    then have "?f k < length mons" "?f j < length mons" "?f k \<noteq> ?f j" by auto
    with ok show "ids_of (remove_at i mons ! k) \<inter> ids_of (remove_at i mons ! j) = {} \<and>
        names_of (remove_at i mons ! k) \<inter> names_of (remove_at i mons ! j) = {}"
      unfolding nth [OF \<open>k < length mons - 1\<close>] nth [OF \<open>j < length mons - 1\<close>] mons_ok_def apart_def by blast
  qed
  have oap: "outputs_apart (remove_at i (outputs_of mons))"
    unfolding outputs_apart_def
  proof (intro allI impI)
    fix k j
    assume k: "k < length (remove_at i (outputs_of mons))" and j: "j < length (remove_at i (outputs_of mons))"
      and m: "output_id_matches (output_id_new (remove_at i (outputs_of mons) ! k)) (remove_at i (outputs_of mons) ! j)"
    have kj: "k < length mons - 1" "j < length mons - 1" using k j i by (simp_all add: remove_at_def lo min_def split: if_splits)
    have "remove_at i (outputs_of mons) ! k = outputs_of mons ! ?f k" "remove_at i (outputs_of mons) ! j = outputs_of mons ! ?f j"
      using kj i by (simp_all add: nth_remove_at lo)
    with m have "output_id_matches (output_id_new (outputs_of mons ! ?f k)) (outputs_of mons ! ?f j)" by simp
    moreover have "outputs_apart (outputs_of mons)" using ok by (simp add: mons_ok_def)
    ultimately have "?f k = ?f j" using f(1) [OF kj(1)] f(1) [OF kj(2)] unfolding outputs_apart_def lo by blast
    then show "k = j" by (auto split: if_splits)
  qed
  have "p < length mons" using ok by (simp add: mons_ok_def)
  then have "(if i \<le> p then p - 1 else p) < length (remove_at i mons)" using i two by (auto simp: len)
  moreover have "\<forall>m \<in> set (remove_at i mons). mon_fits cv base n m"
    using ok set_remove_at_subset [of i mons] by (auto simp: mons_ok_def)
  ultimately show ?thesis using s ap oap by (simp add: mons_ok_def outputs_of_remove len)
qed

section \<open>Workspaces arrive on a monitor\<close>

lemma map_filter_names_append:
  "List.map_filter f (xs @ ys) = List.map_filter f xs @ List.map_filter f ys"
  by (simp add: List.map_filter_def)

lemma lower_names: "set (map (map ascii_lower) (List.map_filter ws_name wss)) = keys_of wss"
  by (induction wss) (auto simp: keys_of_def name_key_def List.map_filter_simps split: option.splits)

lemma arriving_filter:
  assumes "arriving_ok cv n wss"
  shows "arriving_ok cv n (filter P wss)"
proof -
  have "mset (filter P wss) \<subseteq># mset wss" by simp
  then have "distinct_mset (\<Sum>\<^sub># (image_mset f (mset (filter P wss))))"
    if "distinct_mset (\<Sum>\<^sub># (image_mset f (mset wss)))" for f :: "workspace \<Rightarrow> 'b multiset"
    using that sum_subset_split by (metis distinct_mset_union)
  from this [of name_keys] this [of ws_mset] assms show ?thesis
    unfolding arriving_ok_def name_keys_list windows_list distinct_mset_mset
    by (auto simp: distinct_map_filter)
qed

lemma arriving_mono: "arriving_ok cv n wss \<Longrightarrow> n \<le> n' \<Longrightarrow> arriving_ok cv n' wss"
  by (auto simp: arriving_ok_def)

lemma arriving_fits:
  assumes m: "content_ok cv m" and xs: "arriving_ok cv (next_ws_id m) xs"
    and new: "ids_of m \<inter> ws_id ` set xs = {}" "names_of m \<inter> keys_of xs = {}"
    and w: "distinct_mset (mset (concat (map ws_windows xs)) + mon_mset m)"
  shows "cores_ok cv (mon_output m) (mon_options m) (next_ws_id m) (fl_mset (sticky m))
    (image_mset core (mset (map (adopt m) xs)) + cores m)"
proof -
  have adopt: "adopt m = joined (mon_output m) (mon_options m)" by (simp add: fun_eq_iff adopt_def joined_def)
  let ?ys = "map (adopt m) xs"
  have e: "image_mset core (mset ?ys) + cores m = image_mset core (mset (?ys @ workspaces m))" by (simp add: cores_def)
  have c: "\<forall>ws \<in> set (workspaces m). fits cv (mon_output m) (mon_options m) (next_ws_id m) (core ws)"
    "distinct (map ws_id (workspaces m))" "distinct (map (map ascii_lower) (List.map_filter ws_name (workspaces m)))"
    using content_okD [OF m] unfolding cores_def cores_ok_list by auto
  have names: "List.map_filter ws_name ?ys = List.map_filter ws_name xs"
    by (simp add: List.map_filter_def filter_map comp_def adopt)
  have "fits cv (mon_output m) (mon_options m) (next_ws_id m) (core (adopt m ws))" if "ws \<in> set xs" for ws
    using that xs by (auto simp: fits_def adopt arriving_ok_def)
  moreover have "distinct (map ws_id (?ys @ workspaces m))"
    using c(2) xs new(1) by (auto simp: adopt comp_def arriving_ok_def ids_of_def)
  moreover have "distinct (map (map ascii_lower) (List.map_filter ws_name (?ys @ workspaces m)))"
    unfolding map_filter_names_append names map_append distinct_append lower_names
    using c(3) xs new(2) by (auto simp: arriving_ok_def)
  moreover have "distinct_mset (fl_mset (sticky m) + mset (concat (map ws_windows (?ys @ workspaces m))))"
  proof -
    have "ws_windows \<circ> adopt m = ws_windows" by (simp add: fun_eq_iff adopt)
    moreover have "\<Sum>\<^sub># (image_mset ws_mset (cores m)) = mset (concat (map ws_windows (workspaces m)))"
      unfolding cores_def image_core windows_list ..
    ultimately show ?thesis using w by (simp add: mon_mset_def add_ac)
  qed
  ultimately show ?thesis unfolding e cores_ok_list using c(1) by auto
qed

text \<open>The workspaces are dealt out to the monitors that stay\<close>

lemma keys_of_filter: "keys_of (filter P wss) \<subseteq> keys_of wss" "ws_id ` set (filter P wss) \<subseteq> ws_id ` set wss"
  by (auto simp: keys_of_def)

lemma mset_windows_filter:
  "mset (concat (map ws_windows wss)) =
     mset (concat (map ws_windows (filter P wss))) + mset (concat (map ws_windows (filter (\<lambda>ws. \<not> P ws) wss)))"
  by (induction wss) (simp_all add: ac_simps)

lemma arriving_apart:
  assumes "arriving_ok cv n wss"
  shows "ws_id ` set (filter P wss) \<inter> ws_id ` set (filter (\<lambda>ws. \<not> P ws) wss) = {}"
    "keys_of (filter P wss) \<inter> keys_of (filter (\<lambda>ws. \<not> P ws) wss) = {}"
proof -
  have "distinct (map ws_id wss)" using assms by (simp add: arriving_ok_def)
  then show "ws_id ` set (filter P wss) \<inter> ws_id ` set (filter (\<lambda>ws. \<not> P ws) wss) = {}"
    by (auto simp: distinct_map dest: inj_onD)
  let ?key = "\<lambda>wss. map (map ascii_lower) (List.map_filter ws_name wss)"
  have "mset (?key wss) = mset (?key (filter P wss) @ ?key (filter (\<lambda>ws. \<not> P ws) wss))"
    by (induction wss) (auto simp: List.map_filter_simps split: option.split)
  moreover have "distinct (?key wss)" using assms by (simp add: arriving_ok_def)
  ultimately have "distinct (?key (filter P wss) @ ?key (filter (\<lambda>ws. \<not> P ws) wss))" using mset_eq_imp_distinct_iff by blast
  then show "keys_of (filter P wss) \<inter> keys_of (filter (\<lambda>ws. \<not> P ws) wss) = {}"
    by (simp add: distinct_append lower_names del: map_map set_map flip: lower_names)
qed

text \<open>Workspaces that may come to the monitors \<open>mons\<close>\<close>

definition newcomers :: "monitor list \<Rightarrow> workspace list \<Rightarrow> bool" where
  "newcomers mons wss \<longleftrightarrow>
     (\<forall>m \<in> set mons. ids_of m \<inter> ws_id ` set wss = {} \<and> names_of m \<inter> keys_of wss = {}) \<and>
     distinct_mset (mset (concat (map ws_windows wss)) + mons_mset mons)"

lemma newcomers_some:
  assumes "newcomers mons wss" "m \<in> set mons"
  shows "ids_of m \<inter> ws_id ` set (filter P wss) = {}" "names_of m \<inter> keys_of (filter P wss) = {}"
proof -
  have n: "ids_of m \<inter> ws_id ` set wss = {}" "names_of m \<inter> keys_of wss = {}" using assms by (auto simp: newcomers_def)
  have sub: "A \<inter> B = {}" if "A \<inter> C = {}" "B \<subseteq> C" for A B C :: "'x set" using that by blast
  show "ids_of m \<inter> ws_id ` set (filter P wss) = {}" by (rule sub [OF n(1) keys_of_filter(2)])
  show "names_of m \<inter> keys_of (filter P wss) = {}" by (rule sub [OF n(2) keys_of_filter(1)])
qed

lemma take_one:
  assumes ok: "mons_ok cv base n p (pre @ m # ms)" and arr: "arriving_ok cv n wss" and new: "newcomers (pre @ m # ms) wss"
    and xs: "\<forall>ws \<in> set xs. settled (outputs_of (pre @ m # ms)) p (length pre) (original_outputs ws)"
    and P: "xs = filter P wss"
  shows "returns (append_workspaces xs (at_counter n m)) (\<lambda>m'. mons_ok cv base (next_ws_id m') p (pre @ m' # ms) \<and>
      n \<le> next_ws_id m' \<and> mon_output m' = mon_output m \<and> newcomers (pre @ m' # ms) (filter (\<lambda>ws. \<not> P ws) wss) \<and>
      mon_mset m' = mset (concat (map ws_windows xs)) + mon_mset m)"
proof -
  let ?mons = "pre @ m # ms" and ?k = "length pre" and ?m = "at_counter n m"
  let ?I = "ids_of m \<union> ws_id ` set xs" and ?N = "names_of m \<union> keys_of xs"
  let ?fr = "mon_frame (outputs_of ?mons) p ?k ?I ?N n base"
  have k: "?k < length ?mons" and mk: "?mons ! ?k = m" by simp_all
  note nth = mons_ok_nth [OF ok k, unfolded mk]
  have ids: "ids_of ?m = ids_of m" by (simp add: ids_of_def)
  have cont: "content_ok cv ?m" "shape True ?m" using nth(1) by (simp_all add: mon_ok_def)
  have xsw: "arriving_ok cv n xs" using arriving_filter [OF arr] by (simp add: P)
  have disj: "ids_of ?m \<inter> ws_id ` set xs = {}" "names_of ?m \<inter> keys_of xs = {}"
    using newcomers_some [OF new, of m P] ids by (simp_all add: P)
  have split: "mset (concat (map ws_windows wss)) = mset (concat (map ws_windows xs)) + mset (concat (map ws_windows (filter (\<lambda>ws. \<not> P ws) wss)))"
    unfolding P by (rule mset_windows_filter)
  have "mons_mset ?mons = mon_mset m + mons_mset (pre @ ms)" by (simp add: mons_mset_def)
  then have wd: "distinct_mset (mset (concat (map ws_windows xs)) + mon_mset ?m)"
    using new unfolding newcomers_def split by (simp add: add_ac) (metis distinct_mset_union add_ac)
  from append_workspaces_returns [OF cont arriving_fits [OF cont(1) _ disj wd]] xsw obtain m' where
    m': "append_workspaces xs ?m = Some m'" "content_ok cv m'" "shape True m'"
      "mon_mset m' = mset (concat (map ws_windows xs)) + mon_mset m"
    by (auto elim!: returnsE)
  have "stays ?fr ?m"
    using nth(3) unfolding stays_frame [OF nth(4,5)] by auto
  moreover have "\<forall>ws \<in> set xs. tagged ?fr ws" using xs by (auto simp: tagged_frame keys_of_def)
  ultimately have "yields ?fr (append_workspaces xs ?m) (stays ?fr)" by (intro stays_append)
  then have st: "stays ?fr m'" using m'(1) \<open>stays ?fr ?m\<close> by (rule stays_result [rotated])
  note s = st [unfolded stays_frame [OF nth(4,5)]]
  have free: "?I \<inter> others ?k ?mons ids_of = {}" "?N \<inter> others ?k ?mons names_of = {}"
  proof -
    have "ids_of (?mons ! j) \<inter> ws_id ` set xs = {} \<and> names_of (?mons ! j) \<inter> keys_of xs = {}" if "j < length ?mons" for j
      using newcomers_some [OF new nth_mem [OF that], of P] unfolding P [symmetric] by simp
    then have "others ?k ?mons ids_of \<inter> ws_id ` set xs = {}" "others ?k ?mons names_of \<inter> keys_of xs = {}"
      unfolding others_def by blast+
    with mons_ok_apart [OF ok k] show "?I \<inter> others ?k ?mons ids_of = {}" "?N \<inter> others ?k ?mons names_of = {}"
      unfolding mk by blast+
  qed
  have "mons_ok cv base (next_ws_id m') p (?mons[?k := m'])"
    by (rule mons_ok_update [OF ok k _ st free]) (use m'(2,3) in \<open>simp add: mon_ok_def\<close>)
  then have ok': "mons_ok cv base (next_ws_id m') p (pre @ m' # ms)" by simp
  have "newcomers (pre @ m' # ms) (filter (\<lambda>ws. \<not> P ws) wss)"
  proof -
    have low: "\<forall>i \<in> ws_id ` set wss. i < n" using arr by (auto simp: arriving_ok_def)
    have r: "ids_of m0 \<inter> ws_id ` set (filter (\<lambda>ws. \<not> P ws) wss) = {} \<and> names_of m0 \<inter> keys_of (filter (\<lambda>ws. \<not> P ws) wss) = {}"
      if "m0 \<in> set ?mons" for m0
      using newcomers_some [OF new that] by simp
    have sub: "A \<inter> C = {}" if "A \<subseteq> B1 \<union> B2 \<union> B3" "B1 \<inter> C = {}" "B2 \<inter> C = {}" "B3 \<inter> C = {}" for A B1 B2 B3 C :: "'x set"
      using that by blast
    have ids': "ids_of m' \<subseteq> ids_of m \<union> ws_id ` set xs \<union> {n..}" and names': "names_of m' \<subseteq> names_of m \<union> keys_of xs \<union> {}"
      and mm: "m \<in> set ?mons" using s by simp_all
    have "{n..} \<inter> ws_id ` set (filter (\<lambda>ws. \<not> P ws) wss) = {}" using low by fastforce
    then have "ids_of m' \<inter> ws_id ` set (filter (\<lambda>ws. \<not> P ws) wss) = {}"
      by (rule sub [OF ids' conjunct1 [OF r [OF mm]] arriving_apart(1) [OF arr, of P, folded P]])
    moreover have "names_of m' \<inter> keys_of (filter (\<lambda>ws. \<not> P ws) wss) = {}"
      by (rule sub [OF names' conjunct2 [OF r [OF mm]] arriving_apart(2) [OF arr, of P, folded P]]) simp
    moreover have "distinct_mset (mset (concat (map ws_windows (filter (\<lambda>ws. \<not> P ws) wss))) + mons_mset (pre @ m' # ms))"
      using new unfolding newcomers_def split by (simp add: mons_mset_def m'(4) add_ac)
    ultimately show ?thesis using r unfolding newcomers_def by auto
  qed
  then show ?thesis using m' ok' s nth(2) by simp
qed

lemma distribute_returns:
  assumes "mons_ok cv base n p (pre @ ms)" "arriving_ok cv n wss" "newcomers (pre @ ms) wss" "k = length pre"
    and "\<forall>ws \<in> set wss. k \<le> target ws \<and> target ws < k + length ms \<and>
      settled (outputs_of (pre @ ms)) p (target ws) (original_outputs ws)"
  shows "returns (distribute target k wss n ms) (\<lambda>(ms', n'). mons_ok cv base n' p (pre @ ms') \<and>
      outputs_of ms' = outputs_of ms \<and> mons_mset ms' = mset (concat (map ws_windows wss)) + mons_mset ms)"
  using assms
proof (induction ms arbitrary: pre k n wss)
  case Nil
  from Nil.prems(5) have "wss = []" by (cases wss) auto
  with Nil show ?case by simp
next
  case (Cons m ms)
  let ?xs = "filter (\<lambda>ws. target ws = k) wss" and ?rest = "filter (\<lambda>ws. target ws \<noteq> k) wss"
  have "\<forall>ws \<in> set ?xs. settled (outputs_of (pre @ m # ms)) p (length pre) (original_outputs ws)"
    using Cons.prems(4,5) by auto
  from take_one [OF Cons.prems(1-3) this refl] obtain m' where
    m': "append_workspaces ?xs (at_counter n m) = Some m'" "mons_ok cv base (next_ws_id m') p (pre @ m' # ms)"
      "n \<le> next_ws_id m'" "mon_output m' = mon_output m" "newcomers (pre @ m' # ms) ?rest"
      "mon_mset m' = mset (concat (map ws_windows ?xs)) + mon_mset m"
    by (auto elim!: returnsE)
  have outs: "outputs_of (pre @ m' # ms) = outputs_of (pre @ m # ms)" by (simp add: outputs_of_def m'(4))
  have "k + 1 \<le> target ws \<and> target ws < (k + 1) + length ms \<and>
      settled (outputs_of ((pre @ [m']) @ ms)) p (target ws) (original_outputs ws)" if "ws \<in> set ?rest" for ws
    using that Cons.prems(5) outs by (simp add: Suc_le_eq) (metis le_neq_implies_less)
  with Cons.IH [where pre = "pre @ [m']" and k = "k + 1" and n = "next_ws_id m'" and wss = ?rest] m'(2,5) Cons.prems(4)
    arriving_mono [OF arriving_filter [OF Cons.prems(2)] m'(3), of "\<lambda>ws. target ws \<noteq> k"]
  obtain ms' n' where
    d: "distribute target (k + 1) ?rest (next_ws_id m') ms = Some (ms', n')" "mons_ok cv base n' p (pre @ m' # ms')"
      "outputs_of ms' = outputs_of ms" "mons_mset ms' = mset (concat (map ws_windows ?rest)) + mons_mset ms"
    by (auto elim!: returnsE)
  have "mons_mset (m' # ms') = mset (concat (map ws_windows wss)) + mons_mset (m # ms)"
    using m'(6) d(4) mset_windows_filter [of wss "\<lambda>ws. target ws = k"] by (simp add: mons_mset_def ac_simps)
  moreover have "outputs_of (m' # ms') = outputs_of (m # ms)" using m'(4) d(3) by (simp add: outputs_of_def)
  ultimately show ?case using m'(1) d(1,2) by simp
qed

section \<open>The sticky windows go on\<close>

lemma add_sticky_tiles_returns:
  assumes cv: "parents_acyclic cv" and ok: "mon_ok cv m"
    and fresh: "distinct_mset (mset (map win ts) + mon_mset m)"
  shows "returns (add_sticky_tiles cv ts m) (\<lambda>m'. mon_ok cv m' \<and> mon_mset m' = mset (map win ts) + mon_mset m \<and>
    next_ws_id m' = next_ws_id m \<and> (\<forall>fr. stays fr m \<longrightarrow> stays fr m'))"
  using assms(2,3)
proof (induction ts arbitrary: m)
  case (Cons t ts)
  have c: "content_ok cv m" "shape True m" using Cons.prems(1) by (simp_all add: mon_ok_def)
  have "distinct_mset (add_mset (win t) (mset (map win ts) + mon_mset m))" using Cons.prems(2) by simp
  then have "win t \<notin># mon_mset m" by simp
  from add_sticky_tile_returns [OF cv c this, of False] obtain m1 where
    m1: "add_sticky_tile cv t False m = Some m1" "mon_ok cv m1" "mon_mset m1 = add_mset (win t) (mon_mset m)"
    by (auto simp: mon_ok_def elim!: returnsE)
  have n1: "next_ws_id m1 = next_ws_id m"
    using m1(1) by (auto simp: add_sticky_tile_def Let_def bind_eq_Some_conv split: if_splits)
  have s1: "stays fr m1" if "stays fr m" for fr
    by (rule stays_result [OF that _ m1(1)]) (auto intro!: frames that)
  have "distinct_mset (mset (map win ts) + mon_mset m1)" using Cons.prems(2) m1(3) by simp
  from Cons.IH [OF m1(2) this] m1(1) n1 s1 m1(3) show ?case by (auto elim!: returnsE)
qed simp

lemma add_floating_tiles_returns:
  assumes cv: "parents_acyclic cv" and ok: "ws_ok cv ws" and fresh: "distinct_mset (mset (map win ts) + ws_mset ws)"
  shows "returns (add_floating_tiles cv width ts ws) (ws_gains cv (mset (map win ts)) ws)"
  using assms(2,3)
proof (induction ts arbitrary: ws)
  case Nil
  then show ?case by (simp add: ws_gains_def)
next
  case (Cons t ts)
  have "distinct_mset (add_mset (win t) (mset (map win ts) + ws_mset ws))" using Cons.prems(2) by simp
  then have "win t \<notin> set (ws_windows ws)" by (simp add: ws_mset_fresh)
  from ws_add_tile_returns [OF cv Cons.prems(1) this, where target = Auto and activate = ActivateNo and width = "width (win t)"
      and full = False and fl = True] obtain ws1 where
    w1: "ws_add_tile cv t Auto ActivateNo (width (win t)) False True ws = Some ws1" "ws_gains cv {#win t#} ws ws1"
    by (auto elim!: returnsE)
  have "distinct_mset (mset (map win ts) + ws_mset ws1)" "ws_ok cv ws1" using Cons.prems(2) w1(2) by (simp_all add: ws_gains_def)
  from Cons.IH [OF this(2,1)] w1 show ?case
    by (auto simp: ws_gains_def intro: ws_frame_trans elim!: returnsE)
qed

section \<open>An output is disconnected: nothing is lost\<close>

lemma arriving_update_config:
  assumes "arriving_ok cv n wss"
  shows "arriving_ok cv n (map (ws_update_config opts) wss)"
    "map ws_windows (map (ws_update_config opts) wss) = map ws_windows wss"
proof -
  have s: "ws_id (ws_update_config opts ws) = ws_id ws" "ws_name (ws_update_config opts ws) = ws_name ws"
    "ws_hidden (ws_update_config opts ws) = ws_hidden ws" "needs_hidden (ws_update_config opts ws) = needs_hidden ws"
    "ws_windows (ws_update_config opts ws) = ws_windows ws" "ws_ok cv (ws_update_config opts ws) = ws_ok cv ws"
    "has_windows_or_name (ws_update_config opts ws) = has_windows_or_name ws" for ws
    by (simp_all add: ws_update_config_def ws_windows_def ws_ok_def has_windows_or_name_def ws_has_windows_def)
  show "map ws_windows (map (ws_update_config opts) wss) = map ws_windows wss" by (simp add: s)
  have "List.map_filter ws_name (map (ws_update_config opts) wss) = List.map_filter ws_name wss"
    by (simp add: List.map_filter_def filter_map comp_def s)
  then show "arriving_ok cv n (map (ws_update_config opts) wss)"
    using assms by (auto simp: arriving_ok_def s comp_def)
qed

text \<open>The first workspace takes the sticky windows when there is no output left\<close>

lemma arriving_gain_many:
  assumes ok: "arriving_ok cv n wss \<or> wss = [workspace_new_no_outputs n' opts] \<and> n' < n" and ne: "wss \<noteq> []"
    and g: "ws_gains cv M (wss ! 0) ws" and M: "M \<noteq> {#}"
    and fresh: "distinct_mset (M + mset (concat (map ws_windows wss)))"
  shows "arriving_ok cv n (wss[0 := ws])"
    "mset (concat (map ws_windows (wss[0 := ws]))) = M + mset (concat (map ws_windows wss))"
proof -
  obtain w0 rest where wss: "wss = w0 # rest" using ne by (cases wss) auto
  have ws: "ws_ok cv ws" "ws_mset ws = M + ws_mset w0" "ws_frame w0 ws" using g by (simp_all add: ws_gains_def wss)
  note f = ws_frameD [OF ws(3)]
  show w: "mset (concat (map ws_windows (wss[0 := ws]))) = M + mset (concat (map ws_windows wss))"
    using ws(2) by (simp add: wss flip: ws_mset_windows)
  have "distinct (concat (map ws_windows (wss[0 := ws])))" using fresh unfolding w [symmetric] by simp
  moreover have "has_windows_or_name ws" using ws(2) M by (simp add: has_windows_or_name_iff)
  ultimately show "arriving_ok cv n (wss[0 := ws])"
    using ok ws(1) f unfolding wss arriving_ok_def by (auto simp: List.map_filter_simps)
qed

lemma find_preferred_bound: "find_preferred_output os outs = Some j \<Longrightarrow> j < length outs"
  using position_SomeD by (induction os) (fastforce split: option.splits)+

lemma into_workspaces_sub:
  "ws_id ` set (into_workspaces m) \<subseteq> ids_of m" "keys_of (into_workspaces m) \<subseteq> names_of m"
  by (auto simp: into_workspaces_def ids_of_def keys_of_def name_key_def)

lemma newcomers_left:
  assumes ok: "mons_ok cv base n p mons" and i: "i < length mons"
    and w: "distinct_mset (mset (concat (map ws_windows (into_workspaces (mons ! i)))) + mons_mset (remove_at i mons))"
  shows "newcomers (remove_at i mons) (into_workspaces (mons ! i))"
proof -
  have "ids_of m \<inter> ids_of (mons ! i) = {} \<and> names_of m \<inter> names_of (mons ! i) = {}" if "m \<in> set (remove_at i mons)" for m
  proof -
    from that obtain k where "k < length (remove_at i mons)" "m = remove_at i mons ! k" by (metis in_set_conv_nth)
    moreover have "length (remove_at i mons) = length mons - 1" using i by (simp add: remove_at_def)
    ultimately have "(if k < i then k else k + 1) < length mons \<and> (if k < i then k else k + 1) \<noteq> i \<and> m = mons ! (if k < i then k else k + 1)"
      using i by (auto simp: nth_remove_at)
    then obtain j where "j < length mons" "j \<noteq> i" "m = mons ! j" by blast
    with ok i show ?thesis unfolding mons_ok_def apart_def by blast
  qed
  moreover have "A \<inter> C = {}" if "A \<inter> B = {}" "C \<subseteq> B" for A B C :: "'x set" using that by blast
  ultimately show ?thesis using w into_workspaces_sub [of "mons ! i"] unfolding newcomers_def by meson
qed

lemma remove_output_returns:
  assumes cv: "parents_acyclic cv" and ok: "lt_ok cv L"
    and L: "lt_set L = Normal mons p a" and idx: "monitor_of_output out mons = Some idx"
  shows "returns (remove_output cv width out L) (\<lambda>L'. lt_ok cv L' \<and> placed_mset L' = placed_mset L \<and>
    lt_interactive_move L' = lt_interactive_move L \<and> lt_options L' = lt_options L \<and>
    outputs_of (lt_monitors L') = remove_at idx (outputs_of mons))"
proof -
  note n = lt_ok_NormalD [OF ok L]
  have i: "idx < length mons" using position_SomeD [OF idx [unfolded monitor_of_output_def]] by simp
  let ?m = "mons ! idx" and ?left = "remove_at idx mons"
  let ?wss = "into_workspaces ?m" and ?tiles = "fl_tiles (sticky ?m)" and ?n = "lt_next_ws_id L"
  have fit: "mon_fits cv (lt_options L) ?n ?m" using n(1) i by (simp add: mons_ok_def)
  then have okm: "mon_ok cv ?m" and nx: "next_ws_id ?m \<le> ?n" by (simp_all add: mon_fits_def)
  obtain active where active: "active_workspace ?m = Some active" using active_workspace_Some okm by (auto simp: mon_ok_def)
  have arr: "arriving_ok cv ?n ?wss" using arriving_mono [OF into_workspaces_arriving [OF okm] nx] .
  have wins: "mset (map win ?tiles) + mset (concat (map ws_windows ?wss)) = mon_mset ?m"
    using into_workspaces_windows [of ?m] by (simp add: into_workspaces_and_sticky_def mon_mset_windows add_ac)
  have all: "mons_mset mons = mset (map win ?tiles) + (mset (concat (map ws_windows ?wss)) + mons_mset ?left)"
    unfolding mons_mset_split [OF i] wins [symmetric] by (simp add: add_ac)
  have dist: "distinct_mset (mset (map win ?tiles) + (mset (concat (map ws_windows ?wss)) + mons_mset ?left))"
    using n(4) unfolding all by (simp add: distinct_mset_union)
  have started: "started_in (mons_mset mons) (lt_interactive_move L)" using ok n(5) by (simp add: lt_ok_def)
  define L1 where "L1 = L\<lparr>last_active_workspace_id :=
      (last_active_workspace_id L)(output_connector (mon_output ?m) \<mapsto> ws_id active)\<rparr>"
  have L1: "lt_options L1 = lt_options L" "lt_next_ws_id L1 = ?n" "lt_interactive_move L1 = lt_interactive_move L"
    "moved_mset L1 = moved_mset L"
    by (simp_all add: L1_def moved_mset_def moving_data_def)
  have vr: "vec_remove idx mons = Some (?m, ?left)" using i by (simp add: vec_remove_def)
  have goal: "?thesis" if run: "remove_output cv width out L = Some (on_active_monitor_changed L2)" "lt_ok cv L2"
    "placed_mset L2 = mons_mset mons" "lt_interactive_move L2 = lt_interactive_move L" "lt_options L2 = lt_options L"
    "outputs_of (lt_monitors L2) = remove_at idx (outputs_of mons)" for L2
    using that(1,3-) lt_keeps_overview(2) [OF that(2)] by (simp add: lt_keeps_def n(5))
  show ?thesis
  proof (cases "?left = []")
    case True
    let ?opts = "lt_options L" and ?wss1 = "map (ws_update_config (lt_options L)) (into_workspaces (mons ! idx))"
    define fresh where "fresh = (?wss1 = [] \<and> ?tiles \<noteq> [])"
    define wss2 where "wss2 = (if fresh then [workspace_new_no_outputs ?n ?opts] else ?wss1)"
    define n2 where "n2 = ?n + (if fresh then 1 else 0)"
    note arr1 = arriving_update_config [OF arr, of ?opts]
    have w2: "concat (map ws_windows wss2) = concat (map ws_windows ?wss)"
    proof (cases fresh)
      case True
      then have "?wss = []" by (simp add: fresh_def)
      with True show ?thesis by (simp add: wss2_def)
    next
      case False
      then show ?thesis unfolding wss2_def using arr1(2) by (simp del: map_map)
    qed
    have b2: "\<forall>ws \<in> set wss2. base_options ws = ?opts" by (auto simp: wss2_def ws_update_config_def)
    have all': "mons_mset mons = mset (map win ?tiles) + mset (concat (map ws_windows wss2))"
      using all True by (simp add: w2 mons_mset_def)
    have ended: "lt_ok cv (L1\<lparr>lt_set := NoOutputs wss, lt_next_ws_id := n2\<rparr>)"
      "placed_mset (L1\<lparr>lt_set := NoOutputs wss, lt_next_ws_id := n2\<rparr>) = mons_mset mons"
      if "arriving_ok cv n2 wss" "\<forall>ws \<in> set wss. base_options ws = ?opts" "mset (concat (map ws_windows wss)) = mons_mset mons" for wss
    proof -
      show pm: "placed_mset (L1\<lparr>lt_set := NoOutputs wss, lt_next_ws_id := n2\<rparr>) = mons_mset mons"
        using that(3) by (simp add: placed_mset_def)
      have "moved_mset (L1\<lparr>lt_set := NoOutputs wss, lt_next_ws_id := n2\<rparr>) = moved_mset L"
        by (simp add: moved_mset_def moving_data_def L1_def)
      then show "lt_ok cv (L1\<lparr>lt_set := NoOutputs wss, lt_next_ws_id := n2\<rparr>)"
        using that n(4) started pm by (simp add: lt_ok_def lt_mset_def L1)
    qed
    have outs: "outputs_of (lt_monitors (L1\<lparr>lt_set := NoOutputs wss, lt_next_ws_id := n2\<rparr>)) = remove_at idx (outputs_of mons)" for wss
      using True by (simp add: lt_monitors_def flip: outputs_of_remove)
    show ?thesis
    proof (cases "?tiles = []")
      case nt: True
      then have e: "wss2 = ?wss1" "n2 = ?n" by (simp_all add: wss2_def n2_def fresh_def)
      have "remove_output cv width out L = Some (on_active_monitor_changed (L1\<lparr>lt_set := NoOutputs ?wss1, lt_next_ws_id := n2\<rparr>))"
        using True vr active nt by (simp add: remove_output_def L idx into_workspaces_and_sticky_def L1_def n2_def fresh_def)
      moreover have "arriving_ok cv n2 ?wss1" using arr1(1) by (simp add: e)
      ultimately show ?thesis
        using ended [of ?wss1] outs [of ?wss1] b2 all' nt
        by (intro goal [of "L1\<lparr>lt_set := NoOutputs ?wss1, lt_next_ws_id := n2\<rparr>"]) (simp_all add: e L1)
    next
      case nt: False
      then have ne: "wss2 \<noteq> []" by (auto simp: wss2_def fresh_def)
      have M: "mset (map win ?tiles) \<noteq> {#}" using nt by simp
      have dw: "distinct_mset (mset (map win ?tiles) + mset (concat (map ws_windows wss2)))"
        using n(4) unfolding all' by (simp add: distinct_mset_union)
      have arr2: "arriving_ok cv n2 wss2 \<or> wss2 = [workspace_new_no_outputs ?n ?opts] \<and> ?n < n2"
        using arr1(1) by (auto simp: wss2_def n2_def)
      obtain w0 rest where w0: "wss2 = w0 # rest" using ne by (cases wss2) auto
      have "ws_ok cv (wss2 ! 0)" using arr2 w0 by (auto simp: arriving_ok_def)
      moreover have "distinct_mset (mset (map win ?tiles) + ws_mset (wss2 ! 0))"
        using dw by (auto simp: w0 ws_mset_windows distinct_mset_union)
      ultimately obtain ws where ws: "add_floating_tiles cv width ?tiles (wss2 ! 0) = Some ws"
        "ws_gains cv (mset (map win ?tiles)) (wss2 ! 0) ws"
        using add_floating_tiles_returns [OF cv] by (blast elim!: returnsE)
      note g = arriving_gain_many [OF arr2 ne ws(2) M dw]
      have "ws_frame (wss2 ! 0) ws" using ws(2) by (simp add: ws_gains_def)
      then have "\<forall>ws \<in> set (wss2[0 := ws]). base_options ws = ?opts" using b2 ws_frameD(8) by (auto simp: w0)
      note fin = ended [OF g(1) this g(2) [folded all']]
      have run: "remove_output cv width out L = Some (on_active_monitor_changed (L1\<lparr>lt_set := NoOutputs (wss2[0 := ws]), lt_next_ws_id := n2\<rparr>))"
      proof (cases "?wss = []")
        case we: True
        with nt have e: "wss2 = [workspace_new_no_outputs ?n ?opts]" "n2 = ?n + 1" by (simp_all add: wss2_def n2_def fresh_def)
        show ?thesis using True vr active nt we ws(1)
          by (simp add: remove_output_def L idx into_workspaces_and_sticky_def L1_def e)
      next
        case we: False
        with nt have e: "wss2 = ?wss1" "n2 = ?n" by (simp_all add: wss2_def n2_def fresh_def)
        show ?thesis using True vr active nt we ws(1)
          by (simp add: remove_output_def L idx into_workspaces_and_sticky_def L1_def e)
      qed
      show ?thesis by (rule goal [OF run fin]) (simp_all add: L1 outs)
    qed
  next
    case False
    let ?p = "if idx \<le> p then p - 1 else p" and ?a = "if idx \<le> a then a - 1 else a"
    note left = mons_ok_remove [OF n(1) i False]
    have lenl: "length ?left = length mons - 1" "0 < length ?left" using i False by (auto simp: remove_at_def)
    have a': "?a < length ?left" using n(2) lenl i by auto
    have new: "newcomers ?left ?wss" by (rule newcomers_left [OF n(1) i]) (use dist in \<open>simp add: distinct_mset_union\<close>)
    have "goes_to (outputs_of ?left) ?p ws < length ?left \<and>
        settled (outputs_of ?left) ?p (goes_to (outputs_of ?left) ?p ws) (original_outputs ws)" for ws
      using left find_preferred_bound [of "original_outputs ws" "outputs_of ?left"]
      by (auto simp: goes_to_def settled_def mons_ok_def outputs_of_def split: option.split)
    then have "returns (distribute (goes_to (outputs_of ?left) ?p) 0 ?wss ?n ?left) (\<lambda>(ms', n'). mons_ok cv (lt_options L) n' ?p ([] @ ms') \<and>
        outputs_of ms' = outputs_of ?left \<and> mons_mset ms' = mset (concat (map ws_windows ?wss)) + mons_mset ?left)"
      using left arr new by (intro distribute_returns) simp_all
    then obtain ms n' where d: "distribute (goes_to (outputs_of ?left) ?p) 0 ?wss ?n ?left = Some (ms, n')"
      "mons_ok cv (lt_options L) n' ?p ms" "outputs_of ms = outputs_of ?left"
      "mons_mset ms = mset (concat (map ws_windows ?wss)) + mons_mset ?left"
      by (auto elim!: returnsE)
    have lenm: "length ms = length ?left" using d(3) by (metis outputs_of_def length_map)
    have pm: "?p < length ms" using d(2) by (simp add: mons_ok_def)
    have "distinct_mset (mset (map win ?tiles) + mon_mset (at_counter n' (ms ! ?p)))"
      using dist unfolding d(4) [symmetric] mons_mset_split [OF pm] at_counter_simps(1) add.assoc [symmetric]
      by (rule distinct_mset_union [THEN iffD1, THEN conjunct1])
    from add_sticky_tiles_returns [OF cv mons_ok_nth(1) [OF d(2) pm] this] obtain m2 where
      m2: "add_sticky_tiles cv ?tiles (at_counter n' (ms ! ?p)) = Some m2" "mon_ok cv m2" "next_ws_id m2 = n'"
        "mon_mset m2 = mset (map win ?tiles) + mon_mset (ms ! ?p)" "\<And>fr. stays fr (at_counter n' (ms ! ?p)) \<Longrightarrow> stays fr m2"
      by (auto elim!: returnsE)
    have ok2: "mons_ok cv (lt_options L) n' ?p (ms[?p := m2])" using mons_ok_step [OF d(2) pm m2(2,5)] by (simp add: m2(3))
    have ms2: "mons_mset (ms[?p := m2]) = mons_mset mons"
      unfolding mons_mset_update [OF pm] m2(4) all d(4) [symmetric] mons_mset_split [OF pm] by (simp add: add_ac)
    have outs: "outputs_of (ms[?p := m2]) = remove_at idx (outputs_of mons)"
    proof -
      have "mon_output m2 = mon_output (ms ! ?p)"
        using m2(5) [OF mons_ok_nth(3) [OF d(2) pm]] mons_ok_nth(2) [OF d(2) pm]
        by (simp add: stays_frame [OF mons_ok_nth(4,5) [OF d(2) pm]])
      from outputs_of_update [OF this] d(3) show ?thesis by (simp add: outputs_of_remove)
    qed
    have "lt_ok cv (lt_put (ms[?p := m2]) ?p ?a n' L1)"
      by (rule lt_ok_put) (use ok2 a' lenm n(4) started in \<open>simp_all add: ms2 L1\<close>)
    moreover have "remove_output cv width out L = Some (on_active_monitor_changed (lt_put (ms[?p := m2]) ?p ?a n' L1))"
      using False d(1) m2(1) pm vr active
      by (simp add: remove_output_def L idx into_workspaces_and_sticky_def lt_put_def L1_def Let_def del: add_sticky_tiles.simps)
    ultimately show ?thesis by (intro goal [of "lt_put (ms[?p := m2]) ?p ?a n' L1"]) (simp_all add: ms2 outs L1)
  qed
qed

end
