(* ===== verification/LayoutConnect.thy ===== *)
theory LayoutConnect
  imports LayoutOutputs
begin

text \<open>
  An output is connected (\<open>Layout::add_output\<close>): the other monitors give up the workspaces that
  prefer it, and the new monitor takes them. No window is lost, every workspace is on the output
  it prefers, and each monitor keeps an empty workspace at its end.
\<close>

section \<open>A monitor gives up workspaces\<close>

definition took :: "nat \<Rightarrow> monitor \<Rightarrow> monitor" where
  "took i m = m\<lparr>workspaces := remove_at i (workspaces m), workspace_switch := None,
     active_workspace_idx :=
       (if i \<le> active_workspace_idx m \<and> \<not> (above_first m \<and> active_workspace_idx m = 1)
        then active_workspace_idx m - 1 else active_workspace_idx m)\<rparr>"

lemma took_simps [simp]:
  "workspace_switch (took i m) = None" "steady m (took i m)" "next_ws_id (took i m) = next_ws_id m"
  "workspaces (took i m) = remove_at i (workspaces m)" "above_first (took i m) = above_first m"
  by (simp_all add: took_def steady_def)

text \<open>Neither the last workspace shown nor, with an empty one above, the first one goes\<close>

definition edges_stay :: "(workspace \<Rightarrow> bool) \<Rightarrow> monitor \<Rightarrow> bool" where
  "edges_stay preferred m \<longleftrightarrow> \<not> preferred (last (vis m)) \<and> (above_first m \<longrightarrow> \<not> preferred (hd (vis m)))"

lemma took_shape:
  assumes l: "loose m" and e: "edges_stay pref m" and i: "i < length (workspaces m)" "pref (workspaces m ! i)"
  shows "loose (took i m)" "tight m \<Longrightarrow> tight (took i m)" "edges_stay pref (took i m)"
proof -
  note d = looseD [OF l]
  let ?v = "vis m" and ?h = "hid m" and ?a = "active_workspace_idx m"
  have vh: "\<forall>ws \<in> set ?v. \<not> ws_hidden ws" "\<forall>ws \<in> set ?h. ws_hidden ws" by (simp_all add: vis_visible hid_hidden)
  have P: "loose (took i m) \<and> (tight m \<longrightarrow> tight (took i m)) \<and> edges_stay pref (took i m)"
  proof (cases "i < length ?v")
    case True
    have w: "workspaces (took i m) = remove_at i ?v @ ?h" using d(1) True by (simp add: remove_at_left)
    have s: "vis (took i m) = remove_at i ?v" "hid (took i m) = ?h"
      using vis_hid_I [OF w] vh set_remove_at_subset [of i ?v] by blast+
    have iv: "workspaces m ! i = ?v ! i" using nth_vis(1) [OF d(1) True] .
    have il: "i \<noteq> length ?v - 1" using e i(2) d(3) unfolding iv by (auto simp: edges_stay_def last_conv_nth)
    have i0: "i \<noteq> 0" if "above_first m" using e i(2) d(3) that unfolding iv by (cases i) (auto simp: edges_stay_def hd_conv_nth)
    have len: "length (remove_at i ?v) = length ?v - 1" "1 < length ?v" using True il by (auto simp: remove_at_def)
    have nth: "remove_at i ?v ! j = ?v ! (if j < i then j else j + 1)" if "j < length ?v - 1" for j
      using that True by (simp add: nth_remove_at)
    have ne: "remove_at i ?v \<noteq> []" using len by auto
    have last: "last (remove_at i ?v) = last ?v"
      using len d(3) il True nth [of "length ?v - 2"] ne by (simp add: last_conv_nth numeral_2_eq_2 Suc_diff_Suc)
    have hd: "hd (remove_at i ?v) = hd ?v" if "above_first m"
      using len d(3) i0 [OF that] nth [of 0] ne by (simp add: hd_conv_nth)
    have act: "active_workspace_idx (took i m) =
        (if i \<le> ?a \<and> \<not> (above_first m \<and> ?a = 1) then ?a - 1 else ?a)" by (simp add: took_def)
    have "active_workspace_idx (took i m) < length ?v - 1"
      using d(2) True il i0 len(2) unfolding act by (auto split: if_splits)
    then have "loose (took i m)" using d(4,5) last hd w s by (simp add: loose_def len(1))
    moreover have "tight (took i m)" if t: "tight m"
      unfolding tight_def s took_simps(5) len(1)
    proof (intro allI impI)
      fix j assume j: "j < length ?v - 1 - 1" "(if above_first m then 1 else 0) \<le> j" "j \<noteq> active_workspace_idx (took i m)"
      let ?j = "if j < i then j else j + 1"
      have "?j \<noteq> ?a" using j(2,3) i0 unfolding act by (auto split: if_splits)
      moreover have "?j < length ?v - 1" using j(1) by auto
      moreover have "(if above_first m then 1 else 0) \<le> ?j" using j(2) by auto
      ultimately show "has_windows_or_name (remove_at i ?v ! j)" using t j(1) nth [of j] unfolding tight_def by simp
    qed
    moreover have "edges_stay pref (took i m)" using e last hd by (simp add: edges_stay_def s)
    ultimately show ?thesis by blast
  next
    case False
    have w: "workspaces (took i m) = ?v @ remove_at (i - length ?v) ?h"
      using d(1) False by (simp add: remove_at_def Suc_diff_le)
    have s: "vis (took i m) = ?v" "hid (took i m) = remove_at (i - length ?v) ?h"
      using vis_hid_I [OF w] vh set_remove_at_subset [of "i - length ?v" ?h] by blast+
    have act: "active_workspace_idx (took i m) = ?a" using False d(2) by (simp add: took_def)
    show ?thesis using l e w by (simp add: loose_def tight_def edges_stay_def s act)
  qed
  then show "loose (took i m)" "tight m \<Longrightarrow> tight (took i m)" "edges_stay pref (took i m)" by blast+
qed

text \<open>What the loop has done: the workspaces \<open>gone\<close> have left, which all were preferred\<close>

definition gave :: "(workspace \<Rightarrow> bool) \<Rightarrow> monitor \<Rightarrow> workspace list \<Rightarrow> monitor \<Rightarrow> bool" where
  "gave preferred m gone m' \<longleftrightarrow>
     loose m' \<and> (tight m \<longrightarrow> tight m') \<and> edges_stay preferred m' \<and> steady m m' \<and> next_ws_id m' = next_ws_id m \<and>
     mset (workspaces m) = mset gone + mset (workspaces m') \<and> (\<forall>ws \<in> set gone. preferred ws) \<and>
     (if gone = [] then m' = m else workspace_switch m' = None)"

lemma take_preferred_returns:
  assumes "loose m" "edges_stay pref m" "n \<le> length (workspaces m)" "\<forall>ws \<in> set (drop n (workspaces m)). \<not> pref ws"
  shows "returns (take_preferred pref (rev [0..<n]) stopped m taken) (\<lambda>(m', s, taken'). \<exists>gone. gave pref m gone m' \<and>
    taken' = taken @ filter has_windows_or_name gone \<and> s = (stopped \<or> gone \<noteq> [] \<and> workspace_switch m \<noteq> None) \<and>
    (\<forall>ws \<in> set (workspaces m'). \<not> pref ws))"
  using assms
proof (induction n arbitrary: m stopped taken)
  case 0
  then show ?case by (auto simp: gave_def intro!: exI [of _ "[]"])
next
  case (Suc n)
  let ?ws = "workspaces m ! n"
  have n: "n < length (workspaces m)" using Suc.prems(3) by simp
  then have dn: "drop n (workspaces m) = ?ws # drop (Suc n) (workspaces m)" by (simp add: Cons_nth_drop_Suc)
  show ?case
  proof (cases "pref ?ws")
    case False
    have "\<forall>ws \<in> set (drop n (workspaces m)). \<not> pref ws" using Suc.prems(4) False by (simp add: dn)
    from Suc.IH [OF Suc.prems(1,2) _ this] n False show ?thesis by simp
  next
    case True
    let ?t = "if has_windows_or_name ?ws then taken @ [?ws] else taken" and ?s = "stopped \<or> workspace_switch m \<noteq> None"
    note t = took_shape [OF Suc.prems(1,2) n True]
    have len: "n \<le> length (workspaces (took n m))" using n by (simp add: remove_at_def)
    have "drop n (remove_at n (workspaces m)) = drop (Suc n) (workspaces m)" using n by (simp add: remove_at_def)
    then have "\<forall>ws \<in> set (drop n (workspaces (took n m))). \<not> pref ws" using Suc.prems(4) by simp
    from Suc.IH [OF t(1,3) len this, of ?s ?t] obtain m' s' t' gone where
      r: "take_preferred pref (rev [0..<n]) ?s (took n m) ?t = Some (m', s', t')" "gave pref (took n m) gone m'"
        "t' = ?t @ filter has_windows_or_name gone" "s' = ?s" "\<forall>ws \<in> set (workspaces m'). \<not> pref ws"
      by (auto elim!: returnsE)
    have run: "take_preferred pref (rev [0..<Suc n]) stopped m taken = Some (m', s', t')"
    proof -
      have "m\<lparr>workspaces := remove_at n (workspaces m), workspace_switch := None\<rparr>\<lparr>active_workspace_idx :=
          active_workspace_idx m - 1\<rparr> = took n m" if "n \<le> active_workspace_idx m \<and> \<not> (above_first m \<and> active_workspace_idx m = 1)"
        using that by (simp add: took_def)
      moreover have "m\<lparr>workspaces := remove_at n (workspaces m), workspace_switch := None\<rparr> = took n m"
        if "\<not> (n \<le> active_workspace_idx m \<and> \<not> (above_first m \<and> active_workspace_idx m = 1))"
        unfolding took_def if_not_P [OF that] by (cases m) simp
      ultimately show ?thesis using r(1) True n by (cases "has_windows_or_name ?ws") (simp_all add: vec_remove_def Let_def)
    qed
    have "gave pref m (?ws # gone) m'"
    proof -
      note g = r(2) [unfolded gave_def took_simps]
      have "workspace_switch m' = None" using g by (cases "gone = []") simp_all
      moreover have "steady m m'" using g steady_trans [OF took_simps(2)] by blast
      moreover have "mset (workspaces m) = mset (?ws # gone) + mset (workspaces m')"
        unfolding mset_remove_at [OF n] using g by simp
      ultimately show ?thesis using g t(2) True by (simp add: gave_def)
    qed
    with run r(3-5) show ?thesis by (intro returnsI) (auto intro!: exI [of _ "?ws # gone"])
  qed
qed

text \<open>Preferences do not depend on where a hidden workspace goes back to\<close>

definition core_only :: "(workspace \<Rightarrow> bool) \<Rightarrow> bool" where
  "core_only preferred \<longleftrightarrow> (\<forall>ws. preferred (core ws) = preferred ws)"

lemma cores_sub_ids:
  assumes "cores m' \<subseteq># cores m"
  shows "ids_of m' \<subseteq> ids_of m" "names_of m' \<subseteq> names_of m"
    "ws' \<in> set (workspaces m') \<Longrightarrow> \<exists>ws \<in> set (workspaces m). core ws = core ws'"
proof -
  have c: "\<exists>ws \<in> set (workspaces m). core ws = core ws'" if "ws' \<in> set (workspaces m')" for ws'
  proof -
    have "core ws' \<in># cores m" using mset_subset_eqD [OF assms, of "core ws'"] that by (simp add: cores_def)
    then show ?thesis by (auto simp: cores_def)
  qed
  then show "ws' \<in> set (workspaces m') \<Longrightarrow> \<exists>ws \<in> set (workspaces m). core ws = core ws'" .
  show "ids_of m' \<subseteq> ids_of m"
  proof
    fix i assume "i \<in> ids_of m'"
    then obtain ws' where "ws' \<in> set (workspaces m')" "i = ws_id ws'" by (auto simp: ids_of_def)
    with c [of ws'] obtain ws where "ws \<in> set (workspaces m)" "core ws = core ws'" by auto
    then show "i \<in> ids_of m" using \<open>i = ws_id ws'\<close> core_simps(1) by (metis ids_of_def imageI)
  qed
  show "names_of m' \<subseteq> names_of m"
  proof
    fix key assume "key \<in> names_of m'"
    then obtain ws' where w: "ws' \<in> set (workspaces m')" "name_key ws' = Some key" by (auto simp: keys_of_def)
    with c [of ws'] obtain ws where "ws \<in> set (workspaces m)" "core ws = core ws'" by auto
    moreover from this have "name_key ws = name_key ws'" using core_simps(2) unfolding name_key_def by metis
    ultimately show "key \<in> names_of m" using w(2) by (auto simp: keys_of_def)
  qed
qed

definition given_up :: "client_view \<Rightarrow> (workspace \<Rightarrow> bool) \<Rightarrow> monitor \<Rightarrow> workspace list \<Rightarrow> monitor \<Rightarrow> bool" where
  "given_up cv preferred m gone m' \<longleftrightarrow>
     mon_ok cv m' \<and> steady m m' \<and> next_ws_id m' = next_ws_id m \<and>
     image_mset core (mset gone) + cores m' \<subseteq># cores m \<and> (\<forall>ws \<in> set gone. preferred ws) \<and> (\<forall>ws \<in> set (workspaces m'). \<not> preferred ws) \<and>
     mon_mset m = mset (concat (map ws_windows gone)) + mon_mset m'"

lemma give_up_preferred_returns:
  assumes ok: "mon_ok cv m" and e: "edges_stay pref m" and p: "core_only pref"
  shows "returns (give_up_preferred pref m taken) (\<lambda>(m', taken'). \<exists>gone. given_up cv pref m gone m' \<and>
    taken' = taken @ filter has_windows_or_name gone)"
proof -
  have c: "content_ok cv m" and sh: "shape True m" using ok by (simp_all add: mon_ok_def)
  have "returns (take_preferred pref (rev [0..<length (workspaces m)]) False m taken) (\<lambda>(m', s, taken'). \<exists>gone. gave pref m gone m' \<and>
      taken' = taken @ filter has_windows_or_name gone \<and> s = (False \<or> gone \<noteq> [] \<and> workspace_switch m \<noteq> None) \<and>
      (\<forall>ws \<in> set (workspaces m'). \<not> pref ws))"
    by (rule take_preferred_returns [OF shape_loose [OF sh] e]) simp_all
  then obtain m1 s taken' gone where r: "take_preferred pref (rev [0..<length (workspaces m)]) False m taken = Some (m1, s, taken')"
    "gave pref m gone m1" "taken' = taken @ filter has_windows_or_name gone" "s = (gone \<noteq> [] \<and> workspace_switch m \<noteq> None)"
    "\<forall>ws \<in> set (workspaces m1). \<not> pref ws"
    by (auto elim!: returnsE)
  note g = r(2) [unfolded gave_def]
  have cs: "cores m = image_mset core (mset gone) + cores m1" using g by (simp add: cores_def)
  have cs1: "cores m1 \<subseteq># cores m" unfolding cs by simp
  have st: "steady m m1" "next_ws_id m1 = next_ws_id m" using g by blast+
  have "cores_ok cv (mon_output m) (mon_options m) (next_ws_id m1) (fl_mset (sticky m)) (cores m1)"
    unfolding st(2) by (rule cores_ok_subset [OF content_okD [OF c] cs1])
  then have c1: "content_ok cv m1" by (rule content_cores [OF c st(1)])
  have ms1: "mon_mset m = mset (concat (map ws_windows gone)) + mon_mset m1"
  proof -
    have "\<Sum>\<^sub># (image_mset ws_mset (image_mset core (mset gone))) = mset (concat (map ws_windows gone))"
      unfolding image_core windows_list ..
    then show ?thesis using st(1) by (simp add: mon_mset_def cs steady_def)
  qed
  show ?thesis
  proof (cases "s \<or> (workspace_switch m1 = None \<and> above_first m1 \<and> length (workspaces m1) = 2)")
    case True
    then have "workspace_switch m1 = None" using g r(4) by (auto split: if_splits)
    moreover have "loose m1" using g by blast
    ultimately obtain m2 where m2: "clean_up_workspaces m1 = Some m2" "tidied m1 m2"
      using clean_up_workspaces_returns by (blast elim!: returnsE)
    have r2: "rearranged cv m1 m2" by (rule tidied_rearranged [OF c1 m2(2)])
    have "next_ws_id m2 = next_ws_id m1" using m2(2) places_onlyD(5) [of m1 m2] by (simp add: tidied_def)
    moreover have "cores m2 \<subseteq># cores m1" using m2(2) by (simp add: tidied_def)
    moreover have "\<not> pref ws" if "ws \<in> set (workspaces m2)" for ws
      using cores_sub_ids(3) [OF \<open>cores m2 \<subseteq># cores m1\<close> that] r(5) p unfolding core_only_def by metis
    ultimately have "given_up cv pref m gone m2"
      using r2 m2(2) st cs ms1 g rearranged_windows [OF r2] steady_trans [OF st(1), of m2]
      by (auto simp: given_up_def mon_ok_def rearranged_def tidied_def)
    with r(1,3) True m2(1) show ?thesis by (auto simp: give_up_preferred_def)
  next
    case False
    have "shape True m1"
    proof (cases "gone = []")
      case True
      then have "m1 = m" using g by simp
      with sh show ?thesis by simp
    next
      case ne: False
      then have sw: "workspace_switch m1 = None" "workspace_switch m = None" using g r(4) False by auto
      have l1: "loose m1" "tight m1" using g sh sw(2) by (auto simp: shape_def)
      have "length (vis m1) \<noteq> 2" if "above_first m1" "hid m1 = []"
        using False sw(1) that arg_cong [OF looseD(1) [OF l1(1)], of length] by simp
      with l1 sw(1) show ?thesis by (simp add: shape_def)
    qed
    then have "given_up cv pref m gone m1"
      using c1 st cs ms1 g r(5) by (simp add: given_up_def mon_ok_def)
    with r(1,3) False show ?thesis by (auto simp: give_up_preferred_def)
  qed
qed

lemma keys_mset: "set_mset (\<Sum>\<^sub># (image_mset name_keys (mset wss))) = keys_of wss"
  by (simp only: name_keys_list set_mset_mset lower_names)

lemma given_up_apart:
  assumes g: "given_up cv pref m gone m'" and c: "content_ok cv m"
  shows "ids_of m' \<inter> ws_id ` set gone = {}" "names_of m' \<inter> keys_of gone = {}"
    "ws_id ` set gone \<subseteq> ids_of m" "keys_of gone \<subseteq> names_of m" "cores m' \<subseteq># cores m"
    "arriving_ok cv (next_ws_id m) (filter has_windows_or_name gone)"
proof -
  from g obtain D where D: "cores m = image_mset core (mset gone) + cores m' + D"
    unfolding given_up_def by (metis subset_mset.add_diff_inverse)
  have ok: "cores_ok cv (mon_output m) (mon_options m) (next_ws_id m) (fl_mset (sticky m)) (cores m)" using content_okD [OF c] by simp
  show "cores m' \<subseteq># cores m" unfolding D by simp
  have ids: "image_mset ws_id (mset (workspaces m)) =
      image_mset ws_id (mset gone) + image_mset ws_id (mset (workspaces m')) + image_mset ws_id D"
    using arg_cong [OF D, of "image_mset ws_id"] by (simp add: cores_def image_core)
  have di: "distinct_mset (image_mset ws_id (mset (workspaces m)))" using ok by (simp add: cores_ok_def cores_def image_core)
  have set: "set_mset (image_mset ws_id (mset (workspaces x))) = ids_of x" for x by (simp add: ids_of_def)
  show "ids_of m' \<inter> ws_id ` set gone = {}"
    using di unfolding ids distinct_mset_union by (auto simp: ids_of_def)
  show "ws_id ` set gone \<subseteq> ids_of m" unfolding set [symmetric] ids by auto
  have names: "\<Sum>\<^sub># (image_mset name_keys (mset (workspaces m))) = \<Sum>\<^sub># (image_mset name_keys (mset gone)) +
      \<Sum>\<^sub># (image_mset name_keys (mset (workspaces m'))) + \<Sum>\<^sub># (image_mset name_keys D)"
    using arg_cong [OF D, of "\<lambda>M. \<Sum>\<^sub># (image_mset name_keys M)"] by (simp add: cores_def image_core)
  have dn: "distinct_mset (\<Sum>\<^sub># (image_mset name_keys (mset (workspaces m))))"
    using ok by (simp add: cores_ok_def cores_def image_core)
  show "names_of m' \<inter> keys_of gone = {}"
    using dn unfolding names distinct_mset_union keys_mset by auto
  show "keys_of gone \<subseteq> names_of m" unfolding keys_mset [symmetric] names by auto
  have "mset (filter has_windows_or_name gone) \<subseteq># mset gone" by simp
  then have "image_mset core (mset (filter has_windows_or_name gone)) \<subseteq># cores m"
    unfolding D by (metis image_mset_subseteq_mono mset_subset_eq_add_left subset_mset.order_trans)
  from cores_ok_subset [OF ok this] show "arriving_ok cv (next_ws_id m) (filter has_windows_or_name gone)"
    unfolding cores_ok_list arriving_ok_def by (auto simp: fits_def distinct_mset_union)
qed

text \<open>A monitor that only lost workspaces\<close>

lemma mons_ok_fewer:
  assumes ok: "mons_ok cv base n p mons" and k: "k < length mons" and c: "cores m' \<subseteq># cores (mons ! k)"
    and m': "mon_fits cv base n m'" "mon_output m' = mon_output (mons ! k)"
  shows "mons_ok cv base n p (mons[k := m'])"
proof -
  note sub = cores_sub_ids [OF c]
  have outs: "outputs_of (mons[k := m']) = outputs_of mons" by (rule outputs_of_update [OF m'(2)])
  have s: "mon_settled (outputs_of mons) p k m'"
    unfolding mon_settled_def
  proof
    fix ws' assume "ws' \<in> set (workspaces m')"
    from sub(3) [OF this] obtain ws where ws: "ws \<in> set (workspaces (mons ! k))" "core ws = core ws'" by blast
    have "original_outputs ws' = original_outputs ws" using core_simps(12) ws(2) by metis
    moreover have "settled (outputs_of mons) p k (original_outputs ws)"
      using ok k ws(1) by (simp add: mons_ok_def mon_settled_def)
    ultimately show "settled (outputs_of mons) p k (original_outputs ws')" by simp
  qed
  have i: "ids_of (mons[k := m'] ! j) \<subseteq> ids_of (mons ! j)" "names_of (mons[k := m'] ! j) \<subseteq> names_of (mons ! j)"
    if "j < length mons" for j
    using that sub(1,2) by (cases "j = k"; simp)+
  have "apart (mons[k := m'])"
    unfolding apart_def length_list_update
  proof (intro allI impI)
    fix a b assume ab: "a < length mons" "b < length mons" "a \<noteq> b"
    then have d: "ids_of (mons ! a) \<inter> ids_of (mons ! b) = {}" "names_of (mons ! a) \<inter> names_of (mons ! b) = {}"
      using ok unfolding mons_ok_def apart_def by blast+
    have "A \<inter> B = {}" if "A \<subseteq> C" "B \<subseteq> D" "C \<inter> D = {}" for A B C D :: "'x set" using that by blast
    then show "ids_of (mons[k := m'] ! a) \<inter> ids_of (mons[k := m'] ! b) = {} \<and>
        names_of (mons[k := m'] ! a) \<inter> names_of (mons[k := m'] ! b) = {}"
      using i [OF ab(1)] i [OF ab(2)] d by meson
  qed
  moreover have "mon_fits cv base n m" if "m \<in> set (mons[k := m'])" for m
    using that ok m'(1) set_update_subset_insert [of mons k m'] by (auto simp: mons_ok_def)
  moreover have "mon_settled (outputs_of mons) p j (mons[k := m'] ! j)" if "j < length mons" for j
    using that ok s by (cases "j = k") (simp_all add: mons_ok_def)
  ultimately show ?thesis using ok by (simp add: mons_ok_def outs)
qed

lemma arriving_append:
  assumes "arriving_ok cv n xs" "arriving_ok cv n ys" "ws_id ` set xs \<inter> ws_id ` set ys = {}" "keys_of xs \<inter> keys_of ys = {}"
    and w: "distinct_mset (mset (concat (map ws_windows (xs @ ys))))"
  shows "arriving_ok cv n (xs @ ys)"
proof -
  have "distinct (map (map ascii_lower) (List.map_filter ws_name (xs @ ys)))"
    unfolding map_filter_names_append map_append distinct_append lower_names using assms(1,2,4) by (simp add: arriving_ok_def)
  moreover have "distinct (map ws_id (xs @ ys))" using assms(1-3) by (simp add: arriving_ok_def)
  moreover have "distinct (concat (map ws_windows (xs @ ys)))" using w unfolding distinct_mset_mset .
  ultimately show ?thesis using assms(1,2) by (auto simp: arriving_ok_def)
qed

lemma newcomersD:
  "newcomers mons t \<Longrightarrow> m \<in> set mons \<Longrightarrow> ids_of m \<inter> ws_id ` set t = {}"
  "newcomers mons t \<Longrightarrow> m \<in> set mons \<Longrightarrow> names_of m \<inter> keys_of t = {}"
  by (simp_all add: newcomers_def)

lemma give_one:
  assumes ok: "mons_ok cv base n p (pre @ m # ms)" and arr: "arriving_ok cv n t" and new: "newcomers (pre @ m # ms) t"
    and g: "given_up cv pref m gone m'"
  defines "ws \<equiv> filter has_windows_or_name gone"
  shows "mons_ok cv base n p (pre @ m' # ms)" "arriving_ok cv n (t @ ws)" "newcomers (pre @ m' # ms) (t @ ws)"
    "mset (concat (map ws_windows (t @ ws))) + mons_mset (pre @ m' # ms) =
       mset (concat (map ws_windows t)) + mons_mset (pre @ m # ms)"
    "mon_output m' = mon_output m"
proof -
  let ?mons = "pre @ m # ms" and ?k = "length pre"
  have k: "?k < length ?mons" and mk: "?mons ! ?k = m" by simp_all
  have fit: "mon_fits cv base n m" using ok by (simp add: mons_ok_def)
  then have c: "content_ok cv m" and nx: "next_ws_id m \<le> n" by (simp_all add: mon_fits_def mon_ok_def)
  note a = given_up_apart [OF g c]
  have st: "steady m m'" using g by (simp add: given_up_def)
  then show out: "mon_output m' = mon_output m" by (simp add: steady_def)
  have "mon_fits cv base n m'" using g fit by (simp add: given_up_def mon_fits_def steady_def)
  then have "mons_ok cv base n p (?mons[?k := m'])"
    by (intro mons_ok_fewer [OF ok k]) (use a(5) out mk in simp_all)
  then show "mons_ok cv base n p (pre @ m' # ms)" by simp
  have sub: "ws_id ` set ws \<subseteq> ids_of m" "keys_of ws \<subseteq> names_of m"
    using a(3,4) keys_of_filter [of has_windows_or_name gone] unfolding ws_def by blast+
  have ww: "concat (map ws_windows ws) = concat (map ws_windows gone)"
    unfolding ws_def by (induction gone) (auto simp: has_windows_or_name_def ws_has_windows_def)
  show wins: "mset (concat (map ws_windows (t @ ws))) + mons_mset (pre @ m' # ms) =
      mset (concat (map ws_windows t)) + mons_mset (pre @ m # ms)"
    using g by (simp add: ww mons_mset_def given_up_def add_ac)
  have dw: "distinct_mset (mset (concat (map ws_windows (t @ ws))) + mons_mset (pre @ m' # ms))"
    using new unfolding wins newcomers_def by blast
  have nm: "ids_of m \<inter> ws_id ` set t = {}" "names_of m \<inter> keys_of t = {}" using new by (simp_all add: newcomers_def)
  have disj: "A \<inter> B = {}" if "A \<subseteq> C" "B \<subseteq> D" "C \<inter> D = {}" for A B C D :: "'x set" using that by blast
  have "ws_id ` set t \<inter> ws_id ` set ws = {}" "keys_of t \<inter> keys_of ws = {}"
    using disj [OF sub(1) subset_refl nm(1)] disj [OF sub(2) subset_refl nm(2)] by (simp_all add: Int_commute)
  moreover have "arriving_ok cv n ws" using arriving_mono [OF a(6) nx] by (simp add: ws_def)
  moreover have "distinct_mset (mset (concat (map ws_windows (t @ ws))))" using dw unfolding distinct_mset_union by blast
  ultimately show "arriving_ok cv n (t @ ws)" using arr by (intro arriving_append)
  have ut: "ws_id ` set (t @ ws) = ws_id ` set t \<union> ws_id ` set ws" "keys_of (t @ ws) = keys_of t \<union> keys_of ws"
    by (auto simp: keys_of_def)
  have "ids_of m0 \<inter> ws_id ` set (t @ ws) = {} \<and> names_of m0 \<inter> keys_of (t @ ws) = {}" if m0: "m0 \<in> set (pre @ m' # ms)" for m0
  proof (cases "m0 = m'")
    case True
    have "ids_of m' \<inter> ws_id ` set t = {}" "names_of m' \<inter> keys_of t = {}"
      using disj [OF cores_sub_ids(1) [OF a(5)] subset_refl nm(1)] disj [OF cores_sub_ids(2) [OF a(5)] subset_refl nm(2)] by blast+
    moreover have "ids_of m' \<inter> ws_id ` set ws = {}" "names_of m' \<inter> keys_of ws = {}"
      using disj [OF subset_refl keys_of_filter(2) a(1)] disj [OF subset_refl keys_of_filter(1) a(2)] unfolding ws_def by blast+
    ultimately show ?thesis unfolding True ut Int_Un_distrib by simp
  next
    case False
    then have "m0 \<in> set (pre @ ms)" using m0 by auto
    then obtain j where j: "j < length ?mons" "j \<noteq> ?k" "?mons ! j = m0"
    proof -
      have "\<exists>j. j < length ?mons \<and> j \<noteq> ?k \<and> ?mons ! j = m0"
      proof (cases "m0 \<in> set pre")
        case True
        then obtain i where "i < length pre" "pre ! i = m0" by (auto simp: in_set_conv_nth)
        then show ?thesis by (intro exI [of _ i]) (simp add: nth_append)
      next
        case False
        then obtain i where "i < length ms" "ms ! i = m0" using \<open>m0 \<in> set (pre @ ms)\<close> by (auto simp: in_set_conv_nth)
        then show ?thesis by (intro exI [of _ "Suc (length pre + i)"]) (simp add: nth_append)
      qed
      then show thesis using that by blast
    qed
    then have "ids_of m0 \<inter> ids_of m = {}" "names_of m0 \<inter> names_of m = {}"
      using ok k mk unfolding mons_ok_def apart_def by metis+
    then have "ids_of m0 \<inter> ws_id ` set ws = {}" "names_of m0 \<inter> keys_of ws = {}"
      using disj [OF subset_refl sub(1)] disj [OF subset_refl sub(2)] by blast+
    moreover have "ids_of m0 \<inter> ws_id ` set t = {}" "names_of m0 \<inter> keys_of t = {}"
      using newcomersD [OF new nth_mem [OF j(1)]] unfolding j(3) by blast+
    ultimately show ?thesis unfolding ut Int_Un_distrib by simp
  qed
  then show "newcomers (pre @ m' # ms) (t @ ws)" using dw unfolding newcomers_def by blast
qed

lemma collect_preferred_returns:
  assumes "mons_ok cv base n p (pre @ ms)" "arriving_ok cv n t" "newcomers (pre @ ms) t"
    and "\<forall>m \<in> set ms. edges_stay pref m" "core_only pref" "\<forall>ws \<in> set t. pref ws"
    and "\<forall>m \<in> set pre. \<forall>ws \<in> set (workspaces m). \<not> pref ws"
  shows "returns (collect_preferred pref ms t) (\<lambda>(ms', t'). mons_ok cv base n p (pre @ ms') \<and>
    outputs_of ms' = outputs_of ms \<and> arriving_ok cv n t' \<and> newcomers (pre @ ms') t' \<and>
    (\<forall>ws \<in> set t'. pref ws) \<and> (\<forall>m \<in> set (pre @ ms'). \<forall>ws \<in> set (workspaces m). \<not> pref ws) \<and>
    mset (concat (map ws_windows t')) + mons_mset (pre @ ms') = mset (concat (map ws_windows t)) + mons_mset (pre @ ms))"
  using assms
proof (induction ms arbitrary: pre t)
  case Nil
  then show ?case by simp
next
  case (Cons m ms)
  have "mon_ok cv m" using Cons.prems(1) by (simp add: mons_ok_def mon_fits_def)
  moreover have "edges_stay pref m" using Cons.prems(4) by simp
  ultimately obtain m' gone where r: "give_up_preferred pref m t = Some (m', t @ filter has_windows_or_name gone)"
    "given_up cv pref m gone m'"
    using give_up_preferred_returns [OF _ _ Cons.prems(5), of cv m t] by (auto elim!: returnsE)
  let ?t = "t @ filter has_windows_or_name gone"
  note g = give_one [OF Cons.prems(1-3) r(2)]
  have e: "(pre @ [m']) @ xs = pre @ m' # xs" for xs by simp
  have "\<forall>m \<in> set (pre @ [m']). \<forall>ws \<in> set (workspaces m). \<not> pref ws" "\<forall>ws \<in> set ?t. pref ws"
    using Cons.prems(6,7) r(2) by (auto simp: given_up_def)
  with Cons.IH [of "pre @ [m']" ?t] g(1-3) Cons.prems(4,5) obtain ms' t' where
    s: "collect_preferred pref ms ?t = Some (ms', t')" "mons_ok cv base n p (pre @ m' # ms')" "outputs_of ms' = outputs_of ms"
      "arriving_ok cv n t'" "newcomers (pre @ m' # ms') t'" "\<forall>ws \<in> set t'. pref ws"
      "\<forall>m \<in> set (pre @ m' # ms'). \<forall>ws \<in> set (workspaces m). \<not> pref ws"
      "mset (concat (map ws_windows t')) + mons_mset (pre @ m' # ms') = mset (concat (map ws_windows ?t)) + mons_mset (pre @ m' # ms)"
    unfolding e by (auto elim!: returnsE)
  have "outputs_of (m' # ms') = outputs_of (m # ms)" using s(3) g(5) by (simp add: outputs_of_def)
  with r(1) s g(4) show ?case by simp
qed

section \<open>The new monitor\<close>

lemma extract_hidden_cores:
  assumes "extract_hidden pre wss a = (v, h, a')"
  shows "set (map core (v @ h)) \<subseteq> set (map core (pre @ wss))"
proof -
  note l = extract_hidden_lists [OF assms]
  have "set (map core h) = set (map core (filter ws_hidden wss))" using l by simp
  moreover have "set (map core v) = set (map core (pre @ filter (\<lambda>ws. \<not> ws_hidden ws) wss))" using l by simp
  ultimately show ?thesis unfolding map_append set_append by auto
qed

lemma monitor_new_framed:
  assumes fr: "frame_closed (T, out, n, base)" and wss: "\<forall>ws \<in> set wss. tagged (T, out, n, base) ws"
    and m: "monitor_new n out wss to_activate base part = Some m"
  shows "stays (T, out, n, base) m" "sticky m = empty_floating"
proof -
  define opts where "opts = with_merged_layout part base"
  define js where "js = map (joined out opts) wss"
  define a where "a = (case to_activate of None \<Rightarrow> 0
      | Some i \<Rightarrow> (case position (\<lambda>ws. ws_id ws = i) wss of Some k \<Rightarrow> k | None \<Rightarrow> 0))"
  obtain v h a' where e: "extract_hidden [] js a = (v, h, a')" by (cases "extract_hidden [] js a")
  define n1 where "n1 = (if empty_workspace_above_first opts \<and> v \<noteq> [] then n + 1 else n)"
  have m': "workspaces m = (if empty_workspace_above_first opts \<and> v \<noteq> [] then workspace_new n out opts # v else v) @
      [workspace_new n1 out opts] @ h" "mon_output m = out" "mon_base_options m = base" "next_ws_id m = n1 + 1"
    and st: "sticky m = empty_floating"
    using m e by (auto simp: monitor_new_def opts_def js_def a_def n1_def Let_def joined_def [abs_def] bind_eq_Some_conv split: if_splits)
  have tag: "tagged (T, out, n, base) (core ws) = tagged (T, out, n, base) ws" for ws by (simp add: tagged_def)
  have "tagged (T, out, n, base) ws" if "ws \<in> set (v @ h)" for ws
  proof -
    have "core ws \<in> set (map core js)" using extract_hidden_cores [OF e] that by auto
    then obtain w where w: "w \<in> set wss" "core ws = core (joined out opts w)" by (auto simp: js_def)
    have "tagged (T, out, n, base) (joined out opts w)"
      using wss w(1) fr by (auto simp: joined_def tagged_def frame_closed_def ws_update_config_def ws_set_output_def)
    then show ?thesis using w(2) tag by metis
  qed
  moreover have "tagged (T, out, n, base) (workspace_new i out opts)" if "n \<le> i" for i
    using fr that by (auto simp: tagged_def frame_closed_def workspace_new_def new_with_config_def Let_def)
  ultimately show "stays (T, out, n, base) m"
    unfolding stays_def housed_def m' using fr by (auto simp: m'(2-4) n1_def)
  show "sticky m = empty_floating" by (rule st)
qed

text \<open>A monitor at the end of the list\<close>

lemma mons_ok_snoc:
  assumes ok: "\<forall>m \<in> set mons. mon_fits cv base n m" "\<forall>k < length mons. mon_settled (outputs_of (mons @ [m])) p k (mons ! k)"
    "apart mons" "p < length (mons @ [m])" "outputs_apart (outputs_of (mons @ [m]))"
    and m: "mon_fits cv base n m" "mon_settled (outputs_of (mons @ [m])) p (length mons) m"
    and d: "\<forall>m0 \<in> set mons. ids_of m0 \<inter> ids_of m = {} \<and> names_of m0 \<inter> names_of m = {}"
  shows "mons_ok cv base n p (mons @ [m])"
proof -
  have "mon_settled (outputs_of (mons @ [m])) p k ((mons @ [m]) ! k)" if "k < length (mons @ [m])" for k
    using ok(2) m(2) that by (cases "k = length mons") (auto simp: nth_append)
  moreover have "apart (mons @ [m])"
    unfolding apart_def
  proof (intro allI impI)
    fix i j assume ij: "i < length (mons @ [m])" "j < length (mons @ [m])" "i \<noteq> j"
    consider "i < length mons" "j < length mons" | "i = length mons" "j < length mons" | "j = length mons" "i < length mons"
      using ij by fastforce
    then show "ids_of ((mons @ [m]) ! i) \<inter> ids_of ((mons @ [m]) ! j) = {} \<and>
        names_of ((mons @ [m]) ! i) \<inter> names_of ((mons @ [m]) ! j) = {}"
    proof cases
      case 1
      with ok(3) ij(3) show ?thesis by (simp add: nth_append apart_def)
    next
      case 2
      with d nth_mem [OF 2(2)] show ?thesis by (simp add: nth_append Int_commute [of "ids_of m"] Int_commute [of "names_of m"])
    next
      case 3
      with d nth_mem [OF 3(2)] show ?thesis by (simp add: nth_append)
    qed
  qed
  ultimately show ?thesis using ok m(1) by (auto simp: mons_ok_def)
qed

lemma find_preferred_snoc:
  assumes "find_preferred_output os (outs @ [out]) \<noteq> Some (length outs)"
  shows "find_preferred_output os (outs @ [out]) = find_preferred_output os outs"
  using assms by (induction os) (auto simp: position_snoc split: option.splits if_splits)

lemma arriving_rev: "arriving_ok cv n wss \<Longrightarrow> arriving_ok cv n (rev wss)"
proof -
  assume a: "arriving_ok cv n wss"
  have "mset (concat (map ws_windows (rev wss))) = mset (concat (map ws_windows wss))" by (simp flip: windows_list)
  moreover have "mset (map (map ascii_lower) (List.map_filter ws_name (rev wss))) =
      mset (map (map ascii_lower) (List.map_filter ws_name wss))"
    unfolding name_keys_list [symmetric] by simp
  ultimately show "arriving_ok cv n (rev wss)"
    using a mset_eq_imp_distinct_iff unfolding arriving_ok_def by (metis (no_types, lifting) distinct_rev rev_map set_rev)
qed

lemma newcomers_rev: "newcomers mons (rev wss) = newcomers mons wss"
proof -
  have "mset (concat (map ws_windows (rev wss))) = mset (concat (map ws_windows wss))" by (simp flip: windows_list)
  then show ?thesis by (simp add: newcomers_def keys_of_def)
qed

text \<open>The new monitor takes workspaces that belong on it\<close>

lemma new_output_joins:
  assumes mons: "\<forall>m \<in> set mons. mon_fits cv base n m" "apart mons" "p \<le> length mons"
    and outs: "outputs_apart (outputs_of mons @ [out])"
    and s: "\<forall>k < length mons. mon_settled (outputs_of mons @ [out]) p k (mons ! k)"
    and t: "arriving_ok cv n t" "newcomers mons t"
      "\<forall>ws \<in> set t. settled (outputs_of mons @ [out]) p (length mons) (original_outputs ws)"
  shows "returns (monitor_new n out t to_activate base part) (\<lambda>m. mon_output m = out \<and>
    mons_ok cv base (next_ws_id m) p (mons @ [m\<lparr>overview_open := b\<rparr>]) \<and>
    mons_mset (mons @ [m\<lparr>overview_open := b\<rparr>]) = mset (concat (map ws_windows t)) + mons_mset mons)"
proof -
  from monitor_new_returns [OF t(1), of out to_activate base part] obtain m where
    m: "monitor_new n out t to_activate base part = Some m" "mon_ok cv m"
      "mon_windows m = concat (map ws_windows (filter (\<lambda>ws. \<not> ws_hidden ws) t @ filter ws_hidden t))"
    by (auto elim!: returnsE)
  let ?outs = "outputs_of mons @ [out]" and ?k = "length mons"
  have k: "?k < length ?outs" and ko: "?outs ! ?k = out" by (simp_all add: outputs_of_def nth_append)
  let ?fr = "mon_frame ?outs p ?k (ws_id ` set t) (keys_of t) n base"
  obtain T where fr: "?fr = (T, out, n, base)" by (simp add: mon_frame_def ko)
  have "\<forall>ws \<in> set t. tagged ?fr ws" using t(3) unfolding tagged_frame by (auto simp: keys_of_def)
  with monitor_new_framed(1) [OF _ _ m(1), of T] mon_frame_closed [OF outs k, of p "ws_id ` set t" "keys_of t" n base]
  have "stays ?fr m" unfolding fr by blast
  note st = this [unfolded stays_frame [OF outs k], unfolded ko]
  let ?m = "m\<lparr>overview_open := b\<rparr>"
  have ids: "ids_of ?m = ids_of m" "mon_settled o' p' j ?m = mon_settled o' p' j m" for o' p' j
    by (simp_all add: ids_of_def mon_settled_def)
  have oo: "outputs_of (mons @ [?m]) = ?outs" using st by (simp add: outputs_of_def)
  have "ids_of m0 \<inter> ids_of ?m = {} \<and> names_of m0 \<inter> names_of ?m = {}" if "m0 \<in> set mons" for m0
  proof -
    have f: "mon_fits cv base n m0" using mons(1) that by blast
    have "\<forall>i \<in> ids_of m0. i < n"
      using f content_okD [of cv m0] by (auto simp: mon_fits_def mon_ok_def cores_ok_def cores_def fits_def ids_of_def)
    then have "ids_of m0 \<inter> {n..} = {}" by fastforce
    moreover have "A \<inter> B = {}" if "B \<subseteq> C \<union> D" "A \<inter> C = {}" "A \<inter> D = {}" for A B C D :: "'x set" using that by blast
    ultimately have "ids_of m0 \<inter> ids_of m = {}" using st newcomersD(1) [OF t(2) that] by blast
    moreover have "names_of m0 \<inter> names_of m = {}" using st newcomersD(2) [OF t(2) that] by blast
    ultimately show ?thesis by (simp add: ids)
  qed
  moreover have "mon_fits cv base (next_ws_id m) m0" if "m0 \<in> set mons" for m0
    using mons(1) that st by (force simp: mon_fits_def)
  moreover have "mon_fits cv base (next_ws_id m) ?m" unfolding overview_flag_ok using m(2) st by (simp add: mon_fits_def)
  ultimately have "mons_ok cv base (next_ws_id m) p (mons @ [?m])"
    using mons(2,3) s st outs by (intro mons_ok_snoc) (simp_all add: oo ids)
  moreover have "mons_mset (mons @ [?m]) = mset (concat (map ws_windows t)) + mons_mset mons"
  proof -
    have "mon_mset m = mset (concat (map ws_windows t))"
      using mset_windows_filter [of t "\<lambda>ws. \<not> ws_hidden ws"] by (simp add: mon_mset_windows m(3))
    then show ?thesis by (simp add: mons_mset_def overview_flag_ok)
  qed
  ultimately show ?thesis using m(1) st by simp
qed

lemma settled_snoc:
  assumes "settled outs p k os" "find_preferred_output os (outs @ [out]) \<noteq> Some (length outs)"
  shows "settled (outs @ [out]) p k os"
  using assms(1) unfolding settled_def find_preferred_snoc [OF assms(2)] .

lemma add_output_returns:
  assumes ok: "lt_ok cv L" and outs: "outputs_apart (outputs_of (lt_monitors L) @ [out])"
    and edges: "\<forall>m \<in> set (lt_monitors L). edges_stay (prefers (outputs_of (lt_monitors L)) out) m"
  shows "returns (add_output out part isolated L) (\<lambda>L'. lt_ok cv L' \<and> placed_mset L' = placed_mset L \<and>
    lt_interactive_move L' = lt_interactive_move L \<and> lt_options L' = lt_options L \<and>
    outputs_of (lt_monitors L') = outputs_of (lt_monitors L) @ [out])"
proof -
  have started: "started_in (placed_mset L) (lt_interactive_move L)" and dist: "distinct_mset (lt_mset L)" using ok by (simp_all add: lt_ok_def)
  have built: "lt_ok cv L' \<and> placed_mset L' = placed_mset L"
    if "lt_set L' = Normal mons p a" "lt_next_ws_id L' = n" "lt_options L' = lt_options L" "lt_interactive_move L' = lt_interactive_move L"
      "mons_ok cv (lt_options L) n p mons" "a < length mons" "mons_mset mons = placed_mset L" for L' mons p a n
  proof -
    have "placed_mset L' = placed_mset L" "moved_mset L' = moved_mset L"
      using that(1,4,7) by (simp_all add: placed_mset_def moved_mset_def moving_data_def)
    with that started dist show ?thesis by (simp add: lt_ok_def lt_mset_def)
  qed
  show ?thesis
  proof (cases "lt_set L")
    case (NoOutputs wss)
    note n = lt_ok_NoOutputsD [OF ok NoOutputs]
    have "settled [out] 0 0 os" for os
      using find_preferred_bound [of os "[out]"] by (auto simp: settled_def split: option.split)
    then have "returns (monitor_new (lt_next_ws_id L) out wss to_activate (lt_options L) part) (\<lambda>m. mon_output m = out \<and>
        mons_ok cv (lt_options L) (next_ws_id m) 0 ([] @ [m\<lparr>overview_open := b\<rparr>]) \<and>
        mons_mset ([] @ [m\<lparr>overview_open := b\<rparr>]) = mset (concat (map ws_windows wss)) + mons_mset [])" for to_activate b
      using n(1,3) outs NoOutputs
      by (intro new_output_joins) (simp_all add: outputs_of_def apart_def newcomers_def mons_mset_def lt_monitors_def distinct_mset_union)
    then have join: "returns (monitor_new (lt_next_ws_id L) out wss to_activate (lt_options L) part) (\<lambda>m. mon_output m = out \<and>
        mons_ok cv (lt_options L) (next_ws_id m) 0 [m\<lparr>overview_open := b\<rparr>] \<and>
        mons_mset [m\<lparr>overview_open := b\<rparr>] = placed_mset L)" for to_activate b
      by (simp add: n(4) mons_mset_def)
    from join [of "last_active_workspace_id L (output_connector out)" "lt_overview_open L \<and> \<not> isolated"] obtain m where
      m: "monitor_new (lt_next_ws_id L) out wss (last_active_workspace_id L (output_connector out)) (lt_options L) part = Some m"
        "mon_output m = out" "mons_ok cv (lt_options L) (next_ws_id m) 0 [m\<lparr>overview_open := lt_overview_open L \<and> \<not> isolated\<rparr>]"
        "mons_mset [m\<lparr>overview_open := lt_overview_open L \<and> \<not> isolated\<rparr>] = placed_mset L"
      by (auto elim!: returnsE)
    have lm: "lt_monitors L = []" by (simp add: lt_monitors_def NoOutputs)
    show ?thesis
      unfolding add_output_def NoOutputs lm using m built [OF _ _ _ _ m(3) _ m(4)]
      by (simp add: lt_monitors_def outputs_of_def)
  next
    case (Normal mons p a)
    note n = lt_ok_NormalD [OF ok Normal]
    have lm: "lt_monitors L = mons" by (simp add: lt_monitors_def Normal)
    let ?pref = "prefers (outputs_of mons) out"
    let ?b = "lt_overview_open L \<and> \<not> isolated \<and> \<not> lt_consolidated L"
    have "returns (collect_preferred ?pref mons []) (\<lambda>(ms', t'). mons_ok cv (lt_options L) (lt_next_ws_id L) p ([] @ ms') \<and>
        outputs_of ms' = outputs_of mons \<and> arriving_ok cv (lt_next_ws_id L) t' \<and> newcomers ([] @ ms') t' \<and>
        (\<forall>ws \<in> set t'. ?pref ws) \<and> (\<forall>m \<in> set ([] @ ms'). \<forall>ws \<in> set (workspaces m). \<not> ?pref ws) \<and>
        mset (concat (map ws_windows t')) + mons_mset ([] @ ms') = mset (concat (map ws_windows [])) + mons_mset ([] @ mons))"
    proof (rule collect_preferred_returns)
      show "mons_ok cv (lt_options L) (lt_next_ws_id L) p ([] @ mons)" using n(1) by simp
      show "arriving_ok cv (lt_next_ws_id L) []" by (simp add: arriving_ok_def)
      show "newcomers ([] @ mons) []" using n(4) by (simp add: newcomers_def keys_of_def distinct_mset_union)
      show "\<forall>m \<in> set mons. edges_stay ?pref m" using edges by (simp add: lm)
      show "core_only ?pref" by (simp add: core_only_def prefers_def)
    qed simp_all
    then obtain ms t where c: "collect_preferred ?pref mons [] = Some (ms, t)"
      "mons_ok cv (lt_options L) (lt_next_ws_id L) p ms" "outputs_of ms = outputs_of mons"
      "arriving_ok cv (lt_next_ws_id L) t" "newcomers ms t" "\<forall>ws \<in> set t. ?pref ws"
      "\<forall>m \<in> set ms. \<forall>ws \<in> set (workspaces m). \<not> ?pref ws" "mset (concat (map ws_windows t)) + mons_mset ms = mons_mset mons"
      by (auto elim!: returnsE)
    have len: "length ms = length (outputs_of mons)" using c(3) by (metis outputs_of_def length_map)
    have stay: "mon_settled (outputs_of ms @ [out]) p k (ms ! k)" if "k < length ms" for k
      unfolding mon_settled_def
    proof
      fix ws assume ws: "ws \<in> set (workspaces (ms ! k))"
      then have "settled (outputs_of ms) p k (original_outputs ws)" using c(2) that by (simp add: mons_ok_def mon_settled_def)
      moreover have "find_preferred_output (original_outputs ws) (outputs_of ms @ [out]) \<noteq> Some (length (outputs_of ms))"
        using c(7) nth_mem [OF that] ws unfolding c(3) prefers_def by blast
      ultimately show "settled (outputs_of ms @ [out]) p k (original_outputs ws)" by (rule settled_snoc)
    qed
    have come: "settled (outputs_of ms @ [out]) p (length ms) (original_outputs ws)" if "ws \<in> set (rev t)" for ws
      using c(6) that by (simp add: prefers_def settled_def c(3) len)
    have "returns (monitor_new (lt_next_ws_id L) out (rev t) to_activate (lt_options L) part) (\<lambda>m. mon_output m = out \<and>
        mons_ok cv (lt_options L) (next_ws_id m) p (ms @ [m\<lparr>overview_open := b\<rparr>]) \<and>
        mons_mset (ms @ [m\<lparr>overview_open := b\<rparr>]) = mset (concat (map ws_windows (rev t))) + mons_mset ms)" for to_activate b
    proof (rule new_output_joins)
      show "\<forall>m \<in> set ms. mon_fits cv (lt_options L) (lt_next_ws_id L) m" "apart ms" "p \<le> length ms"
        using c(2) by (simp_all add: mons_ok_def)
      show "outputs_apart (outputs_of ms @ [out])" using outs by (simp add: c(3) lm)
      show "\<forall>k < length ms. mon_settled (outputs_of ms @ [out]) p k (ms ! k)" using stay by blast
      show "arriving_ok cv (lt_next_ws_id L) (rev t)" by (rule arriving_rev [OF c(4)])
      show "newcomers ms (rev t)" using c(5) by (simp add: newcomers_rev)
      show "\<forall>ws \<in> set (rev t). settled (outputs_of ms @ [out]) p (length ms) (original_outputs ws)" using come by blast
    qed
    from this [of "last_active_workspace_id L (output_connector out)" ?b] obtain m where
      m: "monitor_new (lt_next_ws_id L) out (rev t) (last_active_workspace_id L (output_connector out)) (lt_options L) part = Some m"
        "mon_output m = out" "mons_ok cv (lt_options L) (next_ws_id m) p (ms @ [m\<lparr>overview_open := ?b\<rparr>])"
        "mons_mset (ms @ [m\<lparr>overview_open := ?b\<rparr>]) = mset (concat (map ws_windows (rev t))) + mons_mset ms"
      by (auto elim!: returnsE)
    have "mset (concat (map ws_windows (rev t))) = mset (concat (map ws_windows t))" by (simp flip: windows_list)
    then have ms: "mons_mset (ms @ [m\<lparr>overview_open := ?b\<rparr>]) = placed_mset L" using m(4) c(8) n(5) by simp
    have a: "a < length (ms @ [m\<lparr>overview_open := ?b\<rparr>])" using n(2) len by (simp add: outputs_of_def)
    define L' where "L' = L\<lparr>lt_set := Normal (ms @ [m\<lparr>overview_open := ?b\<rparr>]) p a,
               last_active_workspace_id := (last_active_workspace_id L)(output_connector out := None),
               lt_isolated := (if isolated then [out] else []) @ filter (\<lambda>o'. o' \<noteq> out) (lt_isolated L),
               lt_next_ws_id := next_ws_id m\<rparr>"
    have f: "lt_set L' = Normal (ms @ [m\<lparr>overview_open := ?b\<rparr>]) p a" "lt_next_ws_id L' = next_ws_id m" "lt_options L' = lt_options L"
      "lt_interactive_move L' = lt_interactive_move L"
      by (simp_all add: L'_def)
    have "add_output out part isolated L = Some L'"
      using c(1) m(1) by (simp add: add_output_def Normal L'_def)
    moreover have "outputs_of (lt_monitors L') = outputs_of (lt_monitors L) @ [out]"
      using m(2) c(3) by (simp add: lt_monitors_def f(1) Normal) (simp add: outputs_of_def)
    ultimately show ?thesis using built [OF f m(3) a ms] f by simp
  qed
qed

end
