(* ===== verification/MonitorTake.thy ===== *)
theory MonitorTake
  imports MonitorAppend
begin

text \<open>
  \<open>remove_workspace_by_idx\<close>: a monitor lets go of a whole workspace. What is left is a well-formed
  monitor without its id, its name and its windows.
\<close>

section \<open>The empty workspaces that are needed first\<close>

lemma with_empties_loose:
  assumes ok: "content_ok cv m" and lo: "loose m" and i: "i < length (vis m)" and run: "with_empties i m = (k, m')"
  shows "rearranged cv m m'" "loose m'" "k + 1 < length (vis m')" "vis m' ! k = vis m ! i" "above_first m \<longrightarrow> 0 < k"
    "if i + 1 = length (vis m) then
       (if above_first m \<and> i = 0 then k = 1 \<and> m' = add_result 0 (add_result (length (vis m)) m)
        else k = i \<and> m' = add_result (length (vis m)) m)
     else if above_first m \<and> i = 0 then k = 1 \<and> m' = add_result 0 m else k = i \<and> m' = m"
proof -
  note l = looseD [OF lo]
  let ?n = "length (vis m)"
  define m1 where "m1 = (if i + 1 = ?n then add_result ?n m else m)"
  have m': "(k, m') = (if above_first m1 \<and> i = 0 then (1, add_result 0 m1) else (i, m1))"
    using run unfolding with_empties_def m1_def [symmetric] Let_def by simp
  have o1: "above_first m1 = above_first m" by (simp add: m1_def)
  have r1: "rearranged cv m m1"
    using add_result_rearranged [OF ok l(1) order_refl] rearranged_refl [OF ok] by (simp add: m1_def)
  then have c1: "content_ok cv m1" by (simp add: rearranged_def)
  have lo1: "loose m1"
    using lo add_result_loose [OF l(1) order_refl l(2)] l(5) by (simp add: m1_def)
  note l1 = looseD [OF lo1]
  have v1: "vis m1 ! i = vis m ! i" "i + 1 < length (vis m1)" using i by (auto simp: m1_def nth_append)
  show "rearranged cv m m'"
    using m' r1 rearranged_trans [OF r1 add_result_rearranged [OF c1 l1(1), of 0]] by (auto split: if_splits)
  show "loose m'"
    using m' lo1 add_result_loose [OF l1(1) _ l1(2), of 0] l1(4) by (auto split: if_splits)
  show "k + 1 < length (vis m')" "vis m' ! k = vis m ! i" using m' v1 by (auto split: if_splits)
  show "above_first m \<longrightarrow> 0 < k" using m' o1 by (auto split: if_splits)
  show "if i + 1 = length (vis m) then
       (if above_first m \<and> i = 0 then k = 1 \<and> m' = add_result 0 (add_result (length (vis m)) m)
        else k = i \<and> m' = add_result (length (vis m)) m)
     else if above_first m \<and> i = 0 then k = 1 \<and> m' = add_result 0 m else k = i \<and> m' = m"
    using m' by (auto simp: m1_def o1)
qed

section \<open>Taking out a visible workspace\<close>

definition taken_out :: "nat \<Rightarrow> monitor \<Rightarrow> monitor" where
  "taken_out k m =
     m\<lparr>workspaces := remove_at k (vis m) @ map (shift_hidden (\<lambda>i. if k < i then i - 1 else i)) (hid m),
       active_workspace_idx := (if k \<le> active_workspace_idx m \<and> 0 < active_workspace_idx m
         then active_workspace_idx m - 1 else active_workspace_idx m),
       workspace_switch := None\<rparr>"

lemma taken_out_lists:
  shows "vis (taken_out k m) = remove_at k (vis m)"
    "hid (taken_out k m) = map (shift_hidden (\<lambda>i. if k < i then i - 1 else i)) (hid m)"
proof -
  let ?h = "map (shift_hidden (\<lambda>i. if k < i then i - 1 else i)) (hid m)"
  have "\<forall>ws \<in> set (remove_at k (vis m)). \<not> ws_hidden ws"
    using set_remove_at_subset [of k "vis m"] by (auto simp: vis_def)
  moreover have "\<forall>ws \<in> set ?h. ws_hidden ws" by (auto simp: hid_def)
  moreover have "workspaces (taken_out k m) = remove_at k (vis m) @ ?h" by (simp add: taken_out_def)
  ultimately show "vis (taken_out k m) = remove_at k (vis m)" "hid (taken_out k m) = ?h"
    using vis_hid_I by blast+
qed

lemma taken_out_loose:
  assumes lo: "loose m" and k: "k + 1 < length (vis m)" "above_first m \<longrightarrow> 0 < k"
  shows "loose (taken_out k m)"
proof -
  note l = looseD [OF lo]
  have "last (remove_at k (vis m)) = last (vis m)" using k(1) by (rule last_remove_at)
  moreover have "above_first m \<Longrightarrow> hd (remove_at k (vis m)) = hd (vis m)"
    using k l(3) by (cases "vis m"; cases k) (simp_all add: remove_at_def)
  moreover have "active_workspace_idx (taken_out k m) < length (remove_at k (vis m))"
    using l(2) k(1) by (auto simp: taken_out_def remove_at_def)
  moreover have "mon_options (taken_out k m) = mon_options m"
    "workspaces (taken_out k m) = vis (taken_out k m) @ hid (taken_out k m)"
    unfolding taken_out_lists by (simp_all add: taken_out_def)
  ultimately show ?thesis unfolding loose_def taken_out_lists using l(4,5) by simp
qed

lemma cores_taken_out:
  assumes "workspaces m = vis m @ hid m" "k < length (vis m)"
  shows "cores m = add_mset (core (vis m ! k)) (cores (taken_out k m))"
proof -
  have "mset (vis m) = add_mset (vis m ! k) (mset (remove_at k (vis m)))" using assms(2) by (rule mset_remove_at)
  then show ?thesis
    unfolding cores_split [OF assms(1)]
    by (simp add: taken_out_def cores_def image_mset.compositionality comp_def)
qed

lemma remove_visible_eq:
  assumes lo: "loose m" and i: "i < length (vis m)" and e: "with_empties i m = (k, m')" "content_ok cv m"
  shows "remove_workspace_by_idx i m =
    do { m'' \<leftarrow> clean_up_workspaces (taken_out k m'); Some (ws_set_output None (workspaces m ! i), m'') }"
proof -
  note l = looseD [OF lo] and w = with_empties_loose [OF e(2) lo i e(1)]
  note l' = looseD [OF w(2)]
  have hv: "\<not> ws_hidden (workspaces m ! i)" using nth_vis(1) [OF l(1) i] vis_visible nth_mem [OF i] by simp
  have at: "vec_get (workspaces m) i = Some (workspaces m ! i)" using nth_vis(2) [OF l(1) i] by simp
  have k: "k < length (vis m')" using w(3) by simp
  have rem: "vec_remove k (workspaces m') = Some (workspaces m ! i, remove_at k (vis m') @ hid m')"
    using nth_vis [OF l'(1) k] w(4) nth_vis(1) [OF l(1) i] remove_at_left [OF k, of "hid m'"] l'(1)
    by (auto simp: vec_remove_def)
  have sh: "map (shift_hidden f) (remove_at k (vis m')) = remove_at k (vis m')" for f
    by (rule map_shift_visible) (use set_remove_at_subset [of k "vis m'"] in \<open>auto simp: vis_def\<close>)
  define m1 where "m1 = (if i + 1 = length (vis m) then add_result (length (vis m)) m else m)"
  have w1: "workspaces m1 = vis m1 @ hid m1"
    using l(1) workspaces_add_result [OF order_refl, of m] by (simp add: m1_def)
  have bottom: "(if i + 1 = length (vis m) then do {
        ws \<leftarrow> vec_get (workspaces m) i;
        if \<not> ws_hidden ws then add_workspace_bottom m else Some m
      } else Some m) = Some m1"
    using add_workspace_at_eq [OF l(1) order_refl] visible_count [OF l(1)] at hv
    by (simp add: add_workspace_bottom_def m1_def)
  have top: "(if above_first m1 \<and> i = 0 then do { m \<leftarrow> add_workspace_top m1; Some (m, i + 1) } else Some (m1, i)) =
      Some (m', k)"
    using add_workspace_at_eq [OF w1, of 0] e(1) [unfolded with_empties_def m1_def [symmetric] Let_def]
    by (auto simp: add_workspace_top_def split: if_splits)
  have put: "(let (ws, m) = (if \<not> ws_hidden (workspaces m ! i)
        then (ws_set_output None (workspaces m ! i), shift_hidden_original_indices_for_removal k (m'\<lparr>workspaces := remove_at k (vis m') @ hid m'\<rparr>))
        else (workspaces m ! i, m'\<lparr>workspaces := remove_at k (vis m') @ hid m'\<rparr>));
      m = (if k \<le> active_workspace_idx m \<and> 0 < active_workspace_idx m
           then m\<lparr>active_workspace_idx := active_workspace_idx m - 1\<rparr> else m) in
      do { m \<leftarrow> clean_up_workspaces (m\<lparr>workspace_switch := None\<rparr>); Some (ws, m) }) =
    do { m'' \<leftarrow> clean_up_workspaces (taken_out k m'); Some (ws_set_output None (workspaces m ! i), m'') }"
    using hv sh by (simp add: Let_def shift_hidden_original_indices_for_removal_def taken_out_def active_if)
  show ?thesis
    by (simp only: remove_workspace_by_idx_def Let_def visible_count [OF l(1)] bottom top rem
        Option.bind.simps case_prod_conv put [unfolded Let_def])
qed

lemma remove_workspace_returns:
  assumes ok: "content_ok cv m" "shape True m" and i: "i < length (workspaces m)"
  shows "returns (remove_workspace_by_idx i m) (\<lambda>(ws, m'). ws \<in> {workspaces m ! i, ws_set_output None (workspaces m ! i)} \<and>
    steady m m' \<and> content_ok cv m' \<and> shape True m' \<and>
    mon_mset m = ws_mset (workspaces m ! i) + mon_mset m' \<and>
    cores_ok cv (mon_output m) (mon_options m) (next_ws_id m') (fl_mset (sticky m))
      (add_mset (core (workspaces m ! i)) (cores m')))"
proof -
  have lo: "loose m" using ok(2) by (rule shape_loose)
  note l = looseD [OF lo]
  let ?w = "workspaces m ! i"
  have finish: "steady m m' \<and> content_ok cv m' \<and> shape True m' \<and> mon_mset m = ws_mset ?w + mon_mset m' \<and>
      cores_ok cv (mon_output m) (mon_options m) (next_ws_id m') (fl_mset (sticky m)) (add_mset (core ?w) (cores m'))"
    if "rearranged cv m m1" "cores m1 = add_mset (core ?w) (cores m2)" "steady m1 m2" "next_ws_id m2 = next_ws_id m1" "tidied m2 m'"
    for m1 m2 m'
  proof -
    have t: "shape True m'" "places_only m2 m'" "cores m' \<subseteq># cores m2" "bodies m' = bodies m2" using that(5) by (simp_all add: tidied_def)
    have r: "steady m m1" "content_ok cv m1" "bodies m1 = bodies m" using that(1) by (simp_all add: rearranged_def)
    have st: "steady m1 m'" using steady_trans [OF that(3) places_onlyD(1) [OF t(2)]] .
    have s: "steady m m'" using steady_trans [OF r(1) st] .
    have n: "next_ws_id m' = next_ws_id m1" using places_onlyD(5) [OF t(2)] that(4) by simp
    have sub: "add_mset (core ?w) (cores m') \<subseteq># cores m1" using t(3) that(2) by simp
    have same: "mon_output m1 = mon_output m" "mon_options m1 = mon_options m" "sticky m1 = sticky m" "sticky m' = sticky m"
      using r(1) s by (simp_all add: steady_def)
    have c: "cores_ok cv (mon_output m) (mon_options m) (next_ws_id m') (fl_mset (sticky m)) (add_mset (core ?w) (cores m'))"
      using cores_ok_subset [OF content_okD [OF r(2)] sub] n same by simp
    have "cores m' \<subseteq># cores m1" by (rule subset_mset.order_trans [OF _ sub]) simp
    then have "content_ok cv m'"
      using content_cores [OF ok(1) s] cores_ok_subset [OF content_okD [OF r(2)]] n same by simp
    moreover have "mon_mset m = ws_mset ?w + mon_mset m'"
    proof -
      have "mon_mset m = fl_mset (sticky m) + \<Sum>\<^sub># (image_mset ws_mset (cores m1))"
        using r(3) by (simp add: mon_mset_bodies bodies_def ws_mset_bodies)
      also have "\<dots> = ws_mset ?w + (fl_mset (sticky m) + \<Sum>\<^sub># (image_mset ws_mset (cores m2)))" by (simp add: that(2))
      also have "\<Sum>\<^sub># (image_mset ws_mset (cores m2)) = \<Sum>\<^sub># (image_mset ws_mset (cores m'))"
        using t(4) by (simp add: bodies_def ws_mset_bodies)
      finally show ?thesis by (simp add: mon_mset_def same(4))
    qed
    ultimately show ?thesis using s t(1) c by simp
  qed
  show ?thesis
  proof (cases "i < length (vis m)")
    case True
    obtain k m1 where e: "with_empties i m = (k, m1)" by fastforce
    note w = with_empties_loose [OF ok(1) lo True e]
    let ?m2 = "taken_out k m1"
    have "returns (clean_up_workspaces ?m2) (tidied ?m2)"
      by (rule clean_up_workspaces_returns [OF taken_out_loose [OF w(2,3)]])
        (use w in \<open>simp_all add: rearranged_def steady_def taken_out_def\<close>)
    then obtain m' where m': "clean_up_workspaces ?m2 = Some m'" "tidied ?m2 m'" by (auto elim!: returnsE)
    have "cores m1 = add_mset (core ?w) (cores ?m2)"
      using cores_taken_out [OF looseD(1) [OF w(2)], of k] w(3,4) nth_vis(1) [OF l(1) True] by simp
    from finish [OF w(1) this _ _ m'(2)] m'(1) show ?thesis
      by (simp add: remove_visible_eq [OF lo True e ok(1)]) (simp add: steady_def taken_out_def)
  next
    case False
    then have h: "i - length (vis m) < length (hid m)" "?w = hid m ! (i - length (vis m))"
    proof -
      have len: "length (workspaces m) = length (vis m) + length (hid m)" using arg_cong [OF l(1), of length] by simp
      show "i - length (vis m) < length (hid m)" using False i len by simp
      show "?w = hid m ! (i - length (vis m))" using False by (subst l(1)) (simp add: nth_append)
    qed
    let ?j = "i - length (vis m)"
    let ?xs = "vis m @ take ?j (hid m)" and ?ys = "drop (Suc ?j) (hid m)"
    have hw: "ws_hidden ?w" unfolding h(2) by (rule hid_hidden [OF nth_mem [OF h(1)]])
    have ws: "workspaces m = ?xs @ ?w # ?ys"
      using l(1) id_take_nth_drop [OF h(1)] h(2) by simp
    have len: "length ?xs = i" using h(1) False by simp
    let ?h = "take ?j (hid m) @ ?ys"
    have a: "\<not> length ?xs \<le> active_workspace_idx m" using l(2) len False by simp
    let ?m2 = "m\<lparr>workspaces := vis m @ ?h, active_workspace_idx := active_workspace_idx m, workspace_switch := None\<rparr>"
    have "returns (remove_workspace_by_idx (length ?xs) m) (\<lambda>(ws, m'). ws = ?w \<and> tidied ?m2 m')"
      by (rule remove_hidden_returns [OF ws hw])
        (use l a hid_hidden [of _ m] vis_visible [of _ m] in \<open>auto dest: in_set_takeD in_set_dropD\<close>)
    then obtain m' where m': "remove_workspace_by_idx i m = Some (?w, m')" "tidied ?m2 m'"
      unfolding len by (auto elim!: returnsE)
    have "cores m = add_mset (core ?w) (cores ?m2)"
      unfolding cores_list [OF ws] by (simp add: cores_def)
    from finish [OF rearranged_refl [OF ok(1)] this _ _ m'(2)] m'(1) show ?thesis
      by (simp add: steady_def)
  qed
qed

end
