(* ===== verification/LayoutCarry.thy ===== *)
theory LayoutCarry
  imports LayoutConnect MonitorTake
begin

text \<open>
  Workspaces that go to another output on request, get a name, or are made for one in the
  configuration (\<open>move_workspace_to_output\<close>, \<open>set_workspace_name\<close>, \<open>ensure_named_workspace\<close>).
\<close>

section \<open>A workspace joins a monitor\<close>

lemma adopt_fits:
  assumes m: "content_ok cv m"
    and ws: "ws_ok cv ws" "ws_id ws < next_ws_id m" "ws_hidden ws \<or> needs_hidden ws \<longrightarrow> ws_name ws \<noteq> None"
    and new: "ws_id ws \<notin> ids_of m" "\<And>key. name_key ws = Some key \<Longrightarrow> key \<notin> names_of m"
    and w: "distinct_mset (ws_mset ws + mon_mset m)"
  shows "cores_ok cv (mon_output m) (mon_options m) (next_ws_id m) (fl_mset (sticky m))
    (add_mset (core (adopt m ws)) (cores m))"
proof -
  have e: "add_mset (core (adopt m ws)) (cores m) = image_mset core (mset (adopt m ws # workspaces m))" by (simp add: cores_def)
  have c: "\<forall>ws \<in> set (workspaces m). fits cv (mon_output m) (mon_options m) (next_ws_id m) (core ws)"
    "distinct (map ws_id (workspaces m))" "distinct (map (map ascii_lower) (List.map_filter ws_name (workspaces m)))"
    using content_okD [OF m] unfolding cores_def cores_ok_list by auto
  have "fits cv (mon_output m) (mon_options m) (next_ws_id m) (core (adopt m ws))" using ws by (simp add: fits_def)
  moreover have "distinct (map ws_id (adopt m ws # workspaces m))" using c(2) new(1) by (auto simp: ids_of_def)
  moreover have "distinct (map (map ascii_lower) (List.map_filter ws_name (adopt m ws # workspaces m)))"
  proof (cases "ws_name ws")
    case (Some n)
    then have "map ascii_lower n \<notin> names_of m" using new(2) by (simp add: name_key_def)
    then have "map ascii_lower n \<notin> set (map (map ascii_lower) (List.map_filter ws_name (workspaces m)))"
      unfolding lower_names .
    with Some c(3) show ?thesis by (simp add: List.map_filter_simps)
  qed (use c(3) in \<open>simp add: List.map_filter_simps\<close>)
  moreover have "distinct_mset (fl_mset (sticky m) + mset (concat (map ws_windows (adopt m ws # workspaces m))))"
  proof -
    have "\<Sum>\<^sub># (image_mset ws_mset (cores m)) = mset (concat (map ws_windows (workspaces m)))"
      unfolding cores_def image_core windows_list ..
    then show ?thesis using w by (simp add: mon_mset_def add_ac ws_mset_windows)
  qed
  ultimately show ?thesis unfolding e cores_ok_list using c(1) by auto
qed

lemma adopted_mset:
  assumes "steady m m'" "bodies m' = bodies_of (add_mset (core (adopt m ws)) (cores m))"
  shows "mon_mset m' = ws_mset ws + mon_mset m"
proof -
  have "mon_mset m' = fl_mset (sticky m) + \<Sum>\<^sub># (image_mset ws_mset (add_mset (core (adopt m ws)) (cores m)))"
    unfolding ws_mset_bodies using assms by (simp add: mon_mset_bodies steady_def del: bodies_of_simps)
  then show ?thesis by (simp add: mon_mset_def)
qed

lemma insert_any_returns:
  assumes m: "content_ok cv m" "shape True m"
    and fit: "cores_ok cv (mon_output m) (mon_options m) (next_ws_id m) (fl_mset (sticky m)) (add_mset (core (adopt m ws)) (cores m))"
  shows "returns (insert_workspace ws idx activate m) (\<lambda>(i, m'). content_ok cv m' \<and> shape True m' \<and> mon_mset m' = ws_mset ws + mon_mset m)"
proof (cases "ws_hidden ws")
  case False
  from insert_workspace_returns [OF m(1) shape_loose [OF m(2)] False fit, of idx activate] adopted_mset [of m _ ws] show ?thesis
    by (auto elim!: returns_mono)
next
  case True
  from insert_hidden_workspace_returns [OF m(1) shape_loose [OF m(2)] True fit, of idx] obtain m' where
    m': "insert_hidden_workspace ws idx m = Some m'" "steady m m'" "content_ok cv m'" "shape True m'"
      "bodies m' = bodies_of (add_mset (core (adopt m ws)) (cores m))"
    by (auto elim!: returnsE)
  have "workspaces m' \<noteq> []" using looseD(1,3) [OF shape_loose [OF m'(4)]] by (metis Nil_is_append_conv)
  then have "sub_usize (length (workspaces m')) 1 \<noteq> None" by (cases "workspaces m'") simp_all
  with True m' adopted_mset [OF m'(2,5)] show ?thesis
    by (auto simp: insert_workspace_def split: option.split)
qed

text \<open>The ids and names that a monitor may take on when no other monitor has them\<close>

lemma mons_ok_join:
  assumes ok: "mons_ok cv base n p mons" and k: "k < length mons" and m: "mon_ok cv m"
    and new: "\<And>j. j < length mons \<Longrightarrow> j \<noteq> k \<Longrightarrow> I \<inter> ids_of (mons ! j) = {} \<and> N \<inter> names_of (mons ! j) = {}"
    and frame: "\<And>fr. fr = mon_frame (outputs_of mons) p k (ids_of (mons ! k) \<union> I) (names_of (mons ! k) \<union> N) n base \<Longrightarrow>
      frame_closed fr \<Longrightarrow> stays fr (at_counter n (mons ! k)) \<Longrightarrow> stays fr m"
  shows "mons_ok cv base (next_ws_id m) p (mons[k := m])" "outputs_of (mons[k := m]) = outputs_of mons" "n \<le> next_ws_id m"
proof -
  note nth = mons_ok_nth [OF ok k]
  let ?I = "ids_of (mons ! k) \<union> I" and ?N = "names_of (mons ! k) \<union> N"
  let ?fr = "mon_frame (outputs_of mons) p k ?I ?N n base"
  have "stays ?fr (at_counter n (mons ! k))"
    using nth(3) unfolding stays_frame [OF nth(4,5)] by auto
  from frame [OF refl mon_frame_closed [OF nth(4,5)] this] have st: "stays ?fr m" .
  have free: "?I \<inter> others k mons ids_of = {}" "?N \<inter> others k mons names_of = {}"
  proof -
    have "I \<inter> others k mons ids_of = {}" "N \<inter> others k mons names_of = {}"
      using new unfolding others_def by blast+
    with mons_ok_apart [OF ok k] show "?I \<inter> others k mons ids_of = {}" "?N \<inter> others k mons names_of = {}" by blast+
  qed
  show "mons_ok cv base (next_ws_id m) p (mons[k := m])" by (rule mons_ok_update [OF ok k m st free])
  note s = st [unfolded stays_frame [OF nth(4,5)]]
  show "outputs_of (mons[k := m]) = outputs_of mons" by (rule outputs_of_update) (use s nth(2) in simp)
  show "n \<le> next_ws_id m" using s by simp
qed

section \<open>A workspace goes to another output\<close>

lemma own_original_simps [simp]:
  "ws_id (own_original_output out ws) = ws_id ws" "ws_name (own_original_output out ws) = ws_name ws"
  "ws_mset (own_original_output out ws) = ws_mset ws" "ws_ok cv (own_original_output out ws) = ws_ok cv ws"
  "ws_hidden (own_original_output out ws) = ws_hidden ws" "needs_hidden (own_original_output out ws) = needs_hidden ws"
  "name_key (own_original_output out ws) = name_key ws" "original_outputs (own_original_output out ws) = [output_id_new out]"
  by (simp_all add: own_original_output_def ws_mset_def ws_ok_def name_key_def)

lemma removed_simps:
  assumes "w \<in> {ws, ws_set_output None ws}"
  shows "ws_id w = ws_id ws" "ws_name w = ws_name ws" "ws_mset w = ws_mset ws" "ws_ok cv w = ws_ok cv ws"
    "ws_hidden w = ws_hidden ws" "needs_hidden w = needs_hidden ws" "name_key w = name_key ws"
proof -
  have "w = ws \<or> w = ws\<lparr>ws_output := None\<rparr>" using assms by (auto simp: ws_set_output_def)
  then show "ws_id w = ws_id ws" "ws_name w = ws_name ws" "ws_mset w = ws_mset ws" "ws_ok cv w = ws_ok cv ws"
    "ws_hidden w = ws_hidden ws" "needs_hidden w = needs_hidden ws" "name_key w = name_key ws"
    by (elim disjE; simp add: ws_mset_def ws_ok_def name_key_def)+
qed

text \<open>What a removed workspace and the monitor it was on have in common: nothing\<close>

lemma removed_apart:
  assumes "cores_ok cv out opts n st (add_mset (core w) (cores m))"
  shows "ws_id w \<notin> ids_of m" "name_key w = Some key \<Longrightarrow> key \<notin> names_of m"
    "ws_ok cv w" "ws_id w < n" "ws_hidden w \<or> needs_hidden w \<longrightarrow> ws_name w \<noteq> None"
proof -
  have e: "add_mset (core w) (cores m) = image_mset core (mset (w # workspaces m))" by (simp add: cores_def)
  note c = assms [unfolded e cores_ok_list]
  show "ws_id w \<notin> ids_of m" using c by (auto simp: ids_of_def)
  show "ws_ok cv w" "ws_id w < n" "ws_hidden w \<or> needs_hidden w \<longrightarrow> ws_name w \<noteq> None" using c by (auto simp: fits_def)
  assume "name_key w = Some key"
  then obtain nm where nm: "ws_name w = Some nm" "key = map ascii_lower nm" by (auto simp: name_key_def)
  then have "key \<notin> set (map (map ascii_lower) (List.map_filter ws_name (workspaces m)))"
    using c by (simp add: List.map_filter_simps)
  then show "key \<notin> names_of m" unfolding lower_names .
qed

lemma carried_over:
  assumes ok: "lt_ok cv L" and L: "lt_set L = Normal mons p a" and k: "k < length mons" and t: "t < length mons" "t \<noteq> k"
    and i: "i < length (workspaces (mons ! k))"
  shows "returns (do {
      (ws, L) \<leftarrow> on_monitor k (remove_workspace_by_idx i) L;
      change_monitor t (\<lambda>m. map_option snd
        (insert_workspace (own_original_output (mon_output (mons ! t)) ws) (active_workspace_idx m + 1) activate m)) L
    }) (\<lambda>L'. lt_keeps cv L L' \<and> (\<exists>mons' n. L' = lt_put mons' p a n L \<and> length mons' = length mons))"
proof -
  note n = lt_ok_NormalD [OF ok L]
  let ?n = "lt_next_ws_id L" and ?base = "lt_options L" and ?outs = "outputs_of mons"
  let ?m = "at_counter ?n (mons ! k)" and ?w = "workspaces (mons ! k) ! i"
  note nk = mons_ok_nth [OF n(1) k]
  have okm: "content_ok cv ?m" "shape True ?m" using nk(1) by (simp_all add: mon_ok_def)
  from remove_workspace_returns [OF okm, of i] i obtain ws m1 where
    m1: "remove_workspace_by_idx i ?m = Some (ws, m1)" "ws \<in> {?w, ws_set_output None ?w}" "content_ok cv m1" "shape True m1"
      "mon_mset (mons ! k) = ws_mset ?w + mon_mset m1"
    and left: "cores_ok cv (mon_output ?m) (mon_options ?m) (next_ws_id m1) (fl_mset (sticky ?m)) (add_mset (core ?w) (cores m1))"
    by (auto elim!: returnsE)
  note ws = removed_simps [OF m1(2)] and apart = removed_apart [OF left]
  have w0: "?w \<in> set (workspaces (mons ! k))" using i by simp
  have ids0: "ws_id ?w \<in> ids_of (mons ! k)" "\<And>key. name_key ?w = Some key \<Longrightarrow> key \<in> names_of (mons ! k)"
    using w0 by (auto simp: ids_of_def keys_of_def)
  let ?ms = "mons[k := m1]" and ?n1 = "next_ws_id m1"
  have m1_ok: "mon_ok cv m1" using m1 by (simp add: mon_ok_def)
  note step = mons_ok_join [OF n(1) k m1_ok, of "{}" "{}"]
  have frame1: "stays fr m1" if "stays fr ?m" for fr
  proof -
    have "yields fr (remove_workspace_by_idx i ?m) (\<lambda>(ws, m). stays fr m)"
      by (rule stays_remove_workspace [OF that]) simp
    from yieldsD [OF this _ m1(1)] that show ?thesis by (simp add: stays_def housed_def split: prod.splits)
  qed
  have ok1: "mons_ok cv ?base ?n1 p ?ms" and outs1: "outputs_of ?ms = ?outs" and n1: "?n \<le> ?n1"
    using step frame1 by simp_all
  have t1: "t < length ?ms" "?ms ! t = mons ! t" using t by simp_all
  note nt = mons_ok_nth [OF ok1 t1(1), unfolded t1(2) outs1]
  let ?t = "at_counter ?n1 (mons ! t)" and ?v = "own_original_output (mon_output (mons ! t)) ws"
  have okt: "content_ok cv ?t" "shape True ?t" using nt(1) by (simp_all add: mon_ok_def)
  have apart0: "ids_of (mons ! k) \<inter> ids_of (mons ! j) = {}" "names_of (mons ! k) \<inter> names_of (mons ! j) = {}"
    if "j < length mons" "j \<noteq> k" for j
    using n(1) k that by (simp_all add: mons_ok_def apart_def)
  have mm1: "mons_mset mons = ws_mset ?w + mons_mset ?ms"
    using k by (simp add: mons_mset_update mons_mset_split [OF k] m1(5))
  have "mons_mset ?ms = mon_mset (mons ! t) + mons_mset (remove_at t ?ms)"
    using mons_mset_split [OF t1(1)] t1(2) by simp
  then have all: "moved_mset L + mons_mset mons = (ws_mset ?w + mon_mset ?t) + (moved_mset L + mons_mset (remove_at t ?ms))"
    using mm1 by (simp add: add_ac)
  have dist: "distinct_mset (ws_mset ?w + mon_mset ?t)"
    using distinct_mset_mono n(4) unfolding all .
  have fit: "cores_ok cv (mon_output ?t) (mon_options ?t) (next_ws_id ?t) (fl_mset (sticky ?t)) (add_mset (core (adopt ?t ?v)) (cores ?t))"
  proof (rule adopt_fits [OF okt(1)])
    show "ws_id ?v \<notin> ids_of ?t" using apart0(1) [OF t] ids0(1) ws by (auto simp: ids_of_def)
    show "key \<notin> names_of ?t" if "name_key ?v = Some key" for key
      using apart0(2) [OF t] ids0(2) [of key] that ws by auto
  qed (use apart ws dist in simp_all)
  from insert_any_returns [OF okt fit, of "active_workspace_idx ?t + 1" activate] obtain j m2 where
    m2: "insert_workspace ?v (active_workspace_idx ?t + 1) activate ?t = Some (j, m2)" "content_ok cv m2" "shape True m2"
      "mon_mset m2 = ws_mset ?w + mon_mset (mons ! t)"
    using ws by (auto elim!: returnsE)
  have m2_ok: "mon_ok cv m2" using m2 by (simp add: mon_ok_def)
  let ?I = "{ws_id ?w}" and ?N = "keys_of [?w]"
  have new: "?I \<inter> ids_of (?ms ! j) = {} \<and> ?N \<inter> names_of (?ms ! j) = {}" if "j < length ?ms" "j \<noteq> t" for j
  proof (cases "j = k")
    case True
    with k apart(1,2) show ?thesis by (auto simp: keys_of_def)
  next
    case False
    then have j: "j < length mons" "?ms ! j = mons ! j" using that by simp_all
    have "names_of (mons ! j) \<inter> ?N = {}" using apart0(2) [OF j(1) False] ids0(2) by (auto simp: keys_of_def)
    with apart0(1) [OF j(1) False] ids0(1) show ?thesis unfolding j(2) by auto
  qed
  have frame2: "stays fr m2"
    if fr: "fr = mon_frame ?outs p t (ids_of (mons ! t) \<union> ?I) (names_of (mons ! t) \<union> ?N) ?n1 ?base" "frame_closed fr" "stays fr ?t" for fr
  proof -
    have "settled ?outs p t [output_id_new (mon_output (mons ! t))]" unfolding nt(2) by (rule settled_own [OF nt(4,5)])
    then have "tagged fr ?v" unfolding fr(1) tagged_frame using ws by (auto simp: keys_of_def)
    then have "yields fr (insert_workspace ?v (active_workspace_idx ?t + 1) activate ?t) (\<lambda>(j, m). stays fr m)"
      by (intro stays_insert_workspace [OF fr(3)]) simp_all
    from yieldsD [OF this fr(2) m2(1)] show ?thesis by simp
  qed
  let ?ms2 = "?ms[t := m2]"
  note ok2 = mons_ok_join [OF ok1 t1(1) m2_ok new, unfolded t1(2) outs1, OF _ _ frame2]
  have "mons_mset ?ms2 = mons_mset mons"
    using mm1 mons_mset_split [OF t1(1)] t1 by (simp add: mons_mset_update [OF t1(1)] m2(4) add_ac)
  then have "lt_keeps cv L (lt_put ?ms2 p a (next_ws_id m2) L)"
    by (intro lt_keeps_put [OF ok L]) (use ok2 n(2) in auto)
  moreover have "lt_set (lt_put ?ms p a ?n1 L) = Normal ?ms p a" by simp
  ultimately show ?thesis
    using m2(1) [simplified] by (simp add: on_monitor_eq [OF L k] m1(1) change_monitor_eq [OF _ t1(1)] t1(2)) (metis length_list_update)
qed

lemma stays_home:
  assumes ok: "lt_ok cv L" and L: "lt_set L = Normal mons p a" and k: "k < length mons" and i: "i < length (workspaces (mons ! k))"
  shows "returns (change_monitor k (\<lambda>m. on_workspace i (\<lambda>ws. Some (own_original_output (mon_output m) ws)) m) L) (lt_keeps cv L)"
proof -
  note n = lt_ok_NormalD [OF ok L]
  let ?n = "lt_next_ws_id L"
  let ?m = "at_counter ?n (mons ! k)" and ?w = "workspaces (mons ! k) ! i"
  let ?v = "own_original_output (mon_output (mons ! k)) ?w"
  note nk = mons_ok_nth [OF n(1) k]
  have okm: "content_ok cv ?m" "shape True ?m" using nk(1) by (simp_all add: mon_ok_def)
  have im: "i < length (workspaces ?m)" using i by simp
  have wok: "ws_ok cv ?w" using fits_of [OF okm(1) im] by (simp add: fits_def)
  have al: "alike (workspaces ?m ! i) ?v" by (simp add: alike_def own_original_output_def)
  have sub: "ws_mset (workspaces ?m ! i) \<subseteq># mon_mset ?m" by (rule ws_mset_within [OF im])
  then have e: "ws_mset ?v + (mon_mset ?m - ws_mset (workspaces ?m ! i)) = mon_mset ?m" by simp
  let ?m' = "set_workspace i ?v ?m"
  note c = content_set [OF okm(1) im, of ?v, unfolded e, OF _ al mon_mset_distinct [OF okm(1)]]
  have hn: "has_windows_or_name ?v = has_windows_or_name ?w" by (simp add: has_windows_or_name_iff)
  have "shape True ?m'" by (rule shape_set [OF okm(2) im]) (use hn in simp_all)
  with c wok have okm': "mon_ok cv ?m'" by (simp add: mon_ok_def)
  have frame: "stays fr ?m'"
    if fr: "fr = mon_frame (outputs_of mons) p k (ids_of (mons ! k) \<union> {}) (names_of (mons ! k) \<union> {}) ?n (lt_options L)"
      "frame_closed fr" "stays fr ?m" for fr
  proof -
    have w: "tagged fr ?w" using fr(3) im by (simp add: stays_def)
    have "settled (outputs_of mons) p k [output_id_new (mon_output (mons ! k))]"
      unfolding nk(2) by (rule settled_own [OF nk(4,5)])
    with w have "tagged fr ?v" unfolding fr(1) tagged_frame by simp
    with fr(3) show ?thesis by simp
  qed
  note j = mons_ok_join [OF n(1) k okm', of "{}" "{}", OF _ frame]
  have "mons_mset (mons[k := ?m']) = mons_mset mons"
    using c(2) wok by (simp add: mons_mset_update [OF k] mons_mset_split [OF k])
  then have "lt_keeps cv L (lt_put (mons[k := ?m']) p a (next_ws_id ?m') L)"
    by (intro lt_keeps_put [OF ok L]) (use j n(2) in auto)
  then show ?thesis using i by (simp add: change_monitor_eq [OF L k] on_workspace_def)
qed

lemma move_workspace_by_id_keeps:
  assumes ok: "lt_ok cv L"
    and old: "\<And>o'. lt_monitors L \<noteq> [] \<Longrightarrow> old = Some o' \<Longrightarrow> o' \<in> set (outputs_of (lt_monitors L))"
    and new: "lt_monitors L \<noteq> [] \<Longrightarrow> out \<in> set (outputs_of (lt_monitors L))"
  shows "returns (move_workspace_to_output_by_id i old out L) (\<lambda>(b, L'). lt_keeps cv L L')"
proof (cases "lt_set L")
  case (Normal mons p a)
  note n = lt_ok_NormalD [OF ok Normal]
  have ms: "lt_monitors L = mons" "mons \<noteq> []" using Normal n(2) by (auto simp: lt_monitors_def)
  have found: "\<exists>k. monitor_of_output o' mons = Some k \<and> k < length mons \<and> mon_output (mons ! k) = o'"
    if "o' \<in> set (outputs_of mons)" for o'
  proof (cases "monitor_of_output o' mons")
    case None
    with that show ?thesis by (auto simp: monitor_of_output_def position_None outputs_of_def)
  next
    case (Some k)
    with position_SomeD [OF this [unfolded monitor_of_output_def]] show ?thesis by auto
  qed
  obtain t where t: "monitor_of_output out mons = Some t" "t < length mons" "mon_output (mons ! t) = out"
    using found new ms by auto
  obtain k where k: "(case old of Some out \<Rightarrow> monitor_of_output out mons | None \<Rightarrow> Some a) = Some k" "k < length mons"
    using found old ms n(2) by (cases old) fastforce+
  show ?thesis
  proof (cases "i < length (workspaces (mons ! k))")
    case False
    with k t lt_keeps_refl [OF ok] show ?thesis by (simp add: move_workspace_to_output_by_id_def Normal)
  next
    case i: True
    show ?thesis
    proof (cases "t = k")
      case True
      with stays_home [OF ok Normal k(2) i] k t i show ?thesis
        by (auto simp: move_workspace_to_output_by_id_def Normal elim!: returnsE)
    next
      case False
      let ?activate = "k = a \<and> i = active_workspace_idx (mons ! k)"
      from carried_over [OF ok Normal k(2) t(2) False i, of ?activate, unfolded t(3)] obtain mons' n' ws L1 where
        run: "on_monitor k (remove_workspace_by_idx i) L = Some (ws, L1)"
          "change_monitor t (\<lambda>m. map_option snd
            (insert_workspace (own_original_output out ws) (active_workspace_idx m + 1) ?activate m)) L1 = Some (lt_put mons' p a n' L)"
        and kept: "lt_keeps cv L (lt_put mons' p a n' L)" "length mons' = length mons"
        by (auto simp: bind_eq_Some_conv elim!: returnsE)
      have "lt_keeps cv L (set_active_monitor t (lt_put mons' p a n' L))"
        by (rule lt_keeps_trans [OF kept(1) lt_keeps_active [OF lt_keepsD [OF kept(1)], of mons' p a]]) (use t kept in simp_all)
      with kept(1) run k t i False show ?thesis
        by (simp add: move_workspace_to_output_by_id_def Normal Let_def)
    qed
  qed
next
  case (NoOutputs wss)
  with lt_keeps_refl [OF ok] show ?thesis by (simp add: move_workspace_to_output_by_id_def)
qed

lemma move_workspace_keeps:
  assumes "lt_ok cv L" "lt_monitors L \<noteq> [] \<Longrightarrow> out \<in> set (outputs_of (lt_monitors L))"
  shows "returns (move_workspace_to_output out L) (\<lambda>(b, L'). lt_keeps cv L L')"
proof (cases "lt_set L")
  case (Normal mons p a)
  with lt_ok_NormalD(2) [OF assms(1) Normal] move_workspace_by_id_keeps [OF assms(1) _ assms(2), of None] show ?thesis
    by (simp add: move_workspace_to_output_def)
next
  case (NoOutputs wss)
  with lt_keeps_refl [OF assms(1)] show ?thesis by (simp add: move_workspace_to_output_def)
qed

end
