(* ===== verification/LayoutNaming.thy ===== *)
theory LayoutNaming
  imports LayoutCarry
begin

text \<open>
  A workspace gets a name (\<open>Layout::set_workspace_name\<close>): a named workspace is not the empty one
  at the end any more, so the monitor grows others around it. And a named workspace is made that
  the configuration asks for (\<open>Layout::ensure_named_workspace\<close>).
\<close>

lemma named_simps [simp]:
  "has_windows_or_name (ws\<lparr>ws_name := Some name\<rparr>)" "ws_mset (ws\<lparr>ws_name := Some name\<rparr>) = ws_mset ws"
  "ws_ok cv (ws\<lparr>ws_name := Some name\<rparr>) = ws_ok cv ws" "ws_windows (ws\<lparr>ws_name := Some name\<rparr>) = ws_windows ws"
  by (simp_all add: has_windows_or_name_def ws_mset_def ws_ok_def ws_windows_def)

lemma cores_ok_named:
  assumes ok: "content_ok cv m" and i: "i < length (workspaces m)" and free: "map ascii_lower name \<notin> names_of m"
  shows "content_ok cv (set_workspace i ((workspaces m ! i)\<lparr>ws_name := Some name\<rparr>) m)"
    "mon_mset (set_workspace i ((workspaces m ! i)\<lparr>ws_name := Some name\<rparr>) m) = mon_mset m"
proof -
  let ?w = "workspaces m ! i" and ?rest = "remove_at i (workspaces m)"
  let ?w' = "?w\<lparr>ws_name := Some name\<rparr>"
  let ?m = "set_workspace i ?w' m"
  have ms: "mset (workspaces m) = mset (?w # ?rest)" "mset (workspaces ?m) = mset (?w' # ?rest)"
    using i by (simp_all add: mset_remove_at list_update_conv_insert_remove)
  have c: "cores m = image_mset core (mset (?w # ?rest))" "cores ?m = image_mset core (mset (?w' # ?rest))"
    by (simp_all only: cores_def ms)
  note o = content_okD [OF ok, unfolded c(1) cores_ok_list]
  have "keys_of ?rest \<subseteq> names_of m"
    using set_remove_at_subset [of i "workspaces m"] by (auto simp: keys_of_def)
  then have "map ascii_lower name \<notin> set (map (map ascii_lower) (List.map_filter ws_name ?rest))"
    using free unfolding lower_names by blast
  moreover have "distinct (map (map ascii_lower) (List.map_filter ws_name ?rest))"
    using o by (cases "ws_name ?w") (simp_all add: List.map_filter_simps)
  ultimately have "distinct (map (map ascii_lower) (List.map_filter ws_name (?w' # ?rest)))"
    by (simp add: List.map_filter_simps)
  moreover have "fits cv (mon_output m) (mon_options m) (next_ws_id m) (core ?w')"
    using o by (simp add: fits_def)
  ultimately have "cores_ok cv (mon_output m) (mon_options m) (next_ws_id m) (fl_mset (sticky m)) (cores ?m)"
    unfolding c(2) cores_ok_list using o by simp
  then show "content_ok cv ?m" by (intro content_cores [OF ok]) simp_all
  show "mon_mset ?m = mon_mset m" unfolding mon_mset_def c by simp
qed

lemma shape_hidden_named:
  assumes "content_ok cv m" "shape t m" "i < length (workspaces m)" "length (vis m) \<le> i"
  shows "shape t (set_workspace i ((workspaces m ! i)\<lparr>ws_name := Some name\<rparr>) m)"
proof (rule shape_set [OF assms(2,3)])
  have "ws_hidden (workspaces m ! i)" using hid_nth [OF looseD(1) [OF shape_loose [OF assms(2)]] assms(3)] assms(4) by simp
  then have "ws_name (workspaces m ! i) \<noteq> None" using fits_of [OF assms(1,3)] by (simp add: fits_def)
  then show "has_windows_or_name (workspaces m ! i)" by (rule named_not_blank)
qed simp_all

text \<open>The only workspace of the monitor gets one before it and one after it\<close>

lemma surrounded:
  assumes lo: "workspaces m = vis m @ hid m" "active_workspace_idx m < length (vis m)" and one: "vis m = [w]"
    and w: "has_windows_or_name w" and top: "above_first m" and ok: "content_ok cv m"
    and sw: "switch_ok (workspace_switch m) (length (vis m)) (length (workspaces m))"
  shows "shape True (add_result 2 (add_result 0 m))" "rearranged cv m (add_result 2 (add_result 0 m))"
proof -
  let ?a = "add_result 0 m" and ?b = "add_result 2 (add_result 0 m)"
  have wa: "workspaces ?a = vis ?a @ hid ?a" by (rule workspaces_add_result) simp
  have va: "length (vis ?a) = 2" using one by simp
  have aa: "active_workspace_idx ?a = 1" using lo(2) one by simp
  have ra: "rearranged cv m ?a" by (rule add_result_rearranged [OF ok lo(1)]) simp
  then have ca: "content_ok cv ?a" by (simp add: rearranged_def)
  show "rearranged cv m ?b" by (rule rearranged_trans [OF ra add_result_rearranged [OF ca wa]]) (simp only: va order_refl)
  have vb: "vis ?b = [workspace_new (next_ws_id m) (mon_output m) (mon_options m), w,
      workspace_new (next_ws_id m + 1) (mon_output m) (mon_options m)]"
    using va one by (simp add: insert_at_def)
  have oa: "above_first ?a" using top by simp
  have "loose ?b"
    by (rule add_result_loose [OF wa]) (use va aa one in \<open>simp_all add: insert_at_def\<close>)
  moreover have "tight ?b"
    unfolding tight_def vb using w top by (auto simp: less_Suc_eq nth_Cons split: nat.split)
  moreover have "switch_ok (workspace_switch ?b) (length (vis ?b)) (length (workspaces ?b))"
    by (rule add_result_switch_ok [OF wa _ add_result_switch_ok [OF lo(1) _ sw]]) (use one in simp_all)
  ultimately show "shape True ?b" by (simp add: shape_def vb)
qed

lemma name_on_monitor_returns:
  assumes ok: "mon_ok cv m" and i: "idx_of_ws i m = Some idx" and free: "map ascii_lower name \<notin> names_of m"
  shows "returns (name_on_monitor name i m) (\<lambda>m'. mon_ok cv m' \<and> mon_mset m' = mon_mset m)"
proof -
  have c: "content_ok cv m" "shape True m" using ok by (simp_all add: mon_ok_def)
  note l = looseD [OF shape_loose [OF c(2)]]
  have ix: "idx < length (workspaces m)" "ws_id (workspaces m ! idx) = i" using idx_of_ws_SomeD [OF i] by simp_all
  have at: "j = idx" if "j < length (workspaces m)" "ws_id (workspaces m ! j) = i" for j
    using idx_of_ws_nth [OF c(1) that(1)] that(2) i by simp
  let ?w = "(workspaces m ! idx)\<lparr>ws_name := Some name\<rparr>"
  define m1 where "m1 = set_workspace idx ?w m"
  note n1 = cores_ok_named [OF c(1) ix(1) free, folded m1_def]
  have s1: "vis m1 = (vis m)[idx := ?w]" "workspaces m1 = vis m1 @ hid m1"
    "hid m1 = (if length (vis m) \<le> idx then (hid m)[idx - length (vis m) := ?w] else hid m)"
    using set_lists [OF l(1) ix(1), of ?w] by (simp_all add: m1_def)
  have same: "active_workspace_idx m1 = active_workspace_idx m" "mon_options m1 = mon_options m"
    "workspace_switch m1 = workspace_switch m" "length (vis m1) = length (vis m)" "length (workspaces m1) = length (workspaces m)"
    by (simp_all add: s1(1)) (simp_all add: m1_def)
  have ids: "ws_id (workspaces m1 ! j) = i \<longleftrightarrow> j = idx" if "j < length (workspaces m)" for j
    using at [OF that] ix that by (cases "j = idx") (auto simp: m1_def)
  have ne: "workspaces m1 \<noteq> []" using ix(1) same(5) by auto
  have first: "(case workspaces m1 of ws # _ \<Rightarrow> ws_id ws = i | [] \<Rightarrow> False) \<longleftrightarrow> idx = 0"
  proof -
    have "0 < length (workspaces m)" using ix(1) by linarith
    from ids [OF this] ne show ?thesis by (cases "workspaces m1") simp_all
  qed
  have named: "on_workspace idx (\<lambda>ws. Some (ws\<lparr>ws_name := Some name\<rparr>)) m = Some m1"
    using ix(1) by (simp add: on_workspace_def m1_def)
  let ?top = "above_first m \<and> idx = 0" and ?bottom = "idx + 1 = length (vis m)"
  define m2 where "m2 = (if ?top then add_result 0 m1 else m1)"
  have v1: "vis m1 \<noteq> []" using l(3) same(4) by auto
  have s2: "workspaces m2 = vis m2 @ hid m2" "last (vis m2) = last (vis m1)" "vis m2 \<noteq> []"
    using s1(2) v1 workspaces_add_result [of 0 m1] by (simp_all add: m2_def)
  have last: "ws_id (last (vis m1)) = i \<longleftrightarrow> ?bottom"
    using ids [of "length (vis m) - 1"] nth_vis [OF s1(2), of "length (vis m) - 1"] l(2) same(4,5) last_conv_nth [OF v1]
    by auto
  have "workspaces m2 ! (length (vis m2) - 1) = last (vis m1)"
    using nth_vis(1) [OF s2(1), of "length (vis m2) - 1"] s2(2,3) last_conv_nth [OF s2(3)] by simp
  then have bottom: "(if 0 < visible_workspace_count m2 \<and> ws_id (workspaces m2 ! (visible_workspace_count m2 - 1)) = i
      then add_workspace_bottom m2 else Some m2) = Some (if ?bottom then add_result (length (vis m2)) m2 else m2)"
    using add_workspace_at_eq [OF s2(1) order_refl] s2(3) last
    by (simp add: visible_count [OF s2(1)] add_workspace_bottom_def)
  have top: "(if above_first m1 \<and> (case workspaces m1 of ws # _ \<Rightarrow> ws_id ws = i | [] \<Rightarrow> False)
      then add_workspace_top m1 else Some m1) = Some m2"
    using add_workspace_at_eq [OF s1(2), of 0] by (simp add: first same(2) m2_def add_workspace_top_def)
  have run: "name_on_monitor name i m = Some (if ?bottom then add_result (length (vis m2)) m2 else m2)"
    by (simp only: name_on_monitor_def i named top bottom Let_def Option.bind.simps)
  show ?thesis
  proof (cases "idx < length (vis m)")
    case False
    then have "m2 = m1" "\<not> ?bottom" using l(3) by (auto simp: m2_def)
    moreover have "shape True m1"
      unfolding m1_def by (rule shape_hidden_named [OF c ix(1)]) (use False in simp)
    ultimately show ?thesis using n1 by (simp add: run mon_ok_def)
  next
    case True
    have w: "workspaces m1 ! idx = ?w" "vis m1 ! idx = ?w" using True ix(1) by (simp add: m1_def) (simp add: s1(1) True)
    have a: "active_workspace_idx m1 < length (vis m1)" using l(2) same by simp
    have sw: "switch_ok (workspace_switch m1) (length (vis m1)) (length (workspaces m1))"
      using c(2) same by (simp add: shape_def)
    have "hid m1 = hid m" using s1(3) True by simp
    then have two: "above_first m1 \<longrightarrow> hid m1 = [] \<longrightarrow> length (vis m1) \<noteq> 2"
      using c(2) same by (simp add: shape_def)
    have keep: "blank (vis m1 ! j)" if "blank (vis m ! j)" "j \<noteq> idx" for j using that by (simp add: s1(1))
    have rise: "has_windows_or_name (vis m1 ! j)" if "has_windows_or_name (vis m ! j)" for j
      using that True by (cases "j = idx") (simp_all add: s1(1))
    show ?thesis
    proof (cases "?top \<and> ?bottom")
      case True
      have "length (vis m1) = 1" "idx = 0" using True same(4) by auto
      then have "vis m1 = [?w]" using w(2) by (cases "vis m1") simp_all
      moreover have "above_first m1" "has_windows_or_name ?w" using True same(2) by simp_all
      ultimately have r: "shape True (add_result 2 (add_result 0 m1))" "rearranged cv m1 (add_result 2 (add_result 0 m1))"
        using surrounded [OF s1(2) a _ _ _ n1(1) sw] by blast+
      have "length (vis (add_result 0 m1)) = 2" using True same(4) by simp
      then have "name_on_monitor name i m = Some (add_result 2 (add_result 0 m1))"
        using True by (simp add: run m2_def del: add_result_simps)
      with r n1(2) rearranged_windows [OF r(2)] show ?thesis by (simp add: mon_ok_def rearranged_def del: add_result_simps)
    next
      case False
      obtain k m' where e: "with_empties idx m1 = (k, m')" by fastforce
      have "rearranged cv m1 m' \<and> shape True m'"
      proof
        have last': "idx + 1 \<noteq> length (vis m1) \<longrightarrow> blank (last (vis m1))"
        proof
          assume "idx + 1 \<noteq> length (vis m1)"
          then have "length (vis m) - 1 \<noteq> idx" using l(2) same(4) by linarith
          with keep [of "length (vis m) - 1"] l(3,4) same(4) v1 show "blank (last (vis m1))" by (simp add: last_conv_nth)
        qed
        have first': "above_first m1 \<longrightarrow> idx \<noteq> 0 \<longrightarrow> blank (hd (vis m1))"
          using keep [of 0] l(3,5) same v1 by (auto simp: hd_conv_nth)
        have tight': "True \<longrightarrow> workspace_switch m1 = None \<longrightarrow> tight m1"
          using c(2) same rise by (simp add: shape_def tight_def)
        note we = with_empties [OF n1(1) s1(2) a _ _ last' first' two sw tight' e]
        show "rearranged cv m1 m'" by (rule we(1)) (use w ix(1) same in simp_all)
        show "shape True m'" by (rule we(2)) (use w ix(1) same in simp_all)
      qed
      moreover have "name_on_monitor name i m = Some m'"
        using e False same unfolding run m2_def with_empties_def Let_def
        by (auto simp del: add_result_simps split: if_splits)
      ultimately show ?thesis using n1(2) rearranged_windows [of cv m1 m'] by (simp add: mon_ok_def rearranged_def)
    qed
  qed
qed

section \<open>Naming a workspace of the layout\<close>

lemma name_frame:
  assumes "stays fr m" "\<And>ws. tagged fr ws \<Longrightarrow> tagged fr (ws\<lparr>ws_name := Some name\<rparr>)"
  shows "yields fr (name_on_monitor name i m) (stays fr)"
  unfolding name_on_monitor_def Let_def using assms
  by (auto intro!: frames)

lemma find_name_free:
  assumes "find_workspace_by_name name L = None" "ws \<in> set (lt_workspaces L)"
  shows "name_key ws \<noteq> Some (map ascii_lower name)"
  using assms by (auto simp: find_workspace_by_name_def find_None_iff named_def name_key_def eq_ignore_keys split: option.splits)

lemma lt_workspaces_Normal: "lt_set L = Normal mons p a \<Longrightarrow> lt_workspaces L = concat (map workspaces mons)"
  by (simp add: lt_workspaces_def)

lemma name_on_layout:
  assumes ok: "lt_ok cv L" and L: "lt_set L = Normal mons p a" and k: "position (\<lambda>m. idx_of_ws i m \<noteq> None) mons = Some k"
    and free: "find_workspace_by_name name L = None"
  shows "returns (change_monitor k (name_on_monitor name i) L) (lt_keeps cv L)"
proof -
  note n = lt_ok_NormalD [OF ok L]
  have k': "k < length mons" "idx_of_ws i (mons ! k) \<noteq> None" using position_SomeD [OF k] by simp_all
  note nk = mons_ok_nth [OF n(1) k'(1)]
  let ?n = "lt_next_ws_id L" and ?key = "map ascii_lower name"
  let ?m = "at_counter ?n (mons ! k)"
  have fr: "?key \<notin> names_of (mons ! j)" if "j < length mons" for j
    using find_name_free [OF free] nth_mem [OF that] by (auto simp: keys_of_def lt_workspaces_Normal [OF L])
  obtain idx where "idx_of_ws i ?m = Some idx" using k'(2) by auto
  from name_on_monitor_returns [OF nk(1) this, of name] fr [OF k'(1)] obtain m' where
    m': "name_on_monitor name i ?m = Some m'" "mon_ok cv m'" "mon_mset m' = mon_mset (mons ! k)"
    by (auto elim!: returnsE)
  have frame: "stays fr m'"
    if f: "fr = mon_frame (outputs_of mons) p k (ids_of (mons ! k) \<union> {}) (names_of (mons ! k) \<union> {?key}) ?n (lt_options L)"
      "frame_closed fr" "stays fr ?m" for fr
  proof -
    have "tagged fr (ws\<lparr>ws_name := Some name\<rparr>)" if "tagged fr ws" for ws
      using that unfolding f(1) tagged_frame by (simp add: name_key_def)
    from yieldsD [OF name_frame [OF f(3) this] f(2) m'(1)] show ?thesis .
  qed
  have new: "{} \<inter> ids_of (mons ! j) = {} \<and> {?key} \<inter> names_of (mons ! j) = {}" if "j < length mons" "j \<noteq> k" for j
    using fr [OF that(1)] by simp
  note j = mons_ok_join [OF n(1) k'(1) m'(2) new frame]
  have "mons_mset (mons[k := m']) = mons_mset mons"
    by (simp add: mons_mset_update [OF k'(1)] mons_mset_split [OF k'(1)] m'(3))
  then have "lt_keeps cv L (lt_put (mons[k := m']) p a (next_ws_id m') L)"
    by (intro lt_keeps_put [OF ok L]) (use j n(2) in auto)
  then show ?thesis by (simp add: change_monitor_eq [OF L k'(1)] m'(1))
qed

lemma resolve_ref_found:
  assumes "resolve_ref r L = Some (ws, L')"
  shows "lt_workspaces L' = lt_workspaces L" "ws = Some w \<Longrightarrow> w \<in> set (lt_workspaces L')"
proof -
  have act: "w \<in> set (lt_workspaces L)" if "Option.bind (lt_active_monitor L) active_workspace = Some w" for L w
    using that by (auto simp: lt_active_monitor_def lt_workspaces_def active_workspace_def bind_eq_Some_conv vec_get_def
        split: monitor_set.splits if_splits) (meson nth_mem)
  have same: "lt_workspaces L' = lt_workspaces L" if "on_active_monitor (\<lambda>m. Some (focus_workspace m)) L = Some L'" for L'
  proof (cases "lt_set L")
    case (Normal mons p a)
    with that obtain k where "L' = lt_put (mons[a := focus_workspace (at_counter (lt_next_ws_id L) (mons ! a))]) p a k L" "a < length mons"
      by (auto simp: on_active_monitor_def change_monitor_def on_monitor_def lt_put_def bind_eq_Some_conv vec_get_def split: if_splits)
    moreover have "map workspaces (mons[a := focus_workspace (at_counter n (mons ! a))]) = map workspaces mons" for n
      by (simp add: map_update focus_workspace_def list_update_same_conv)
        (metis list_update_id map_update)
    ultimately show ?thesis by (simp add: lt_workspaces_def Normal)
  qed (use that in \<open>simp add: on_active_monitor_def\<close>)
  show "lt_workspaces L' = lt_workspaces L"
    using assms same by (auto simp: resolve_ref_def bind_eq_Some_conv split: option.splits)
  have among: "w \<in> set xs" if "List.find P xs = Some w" for P and xs :: "workspace list"
    using that by (auto simp: find_Some_iff)
  have at: "w \<in> set (lt_workspaces L)" if "lt_active_monitor L = Some m" "vec_get (workspaces m) i = Some w" for m i
    using that by (auto simp: lt_active_monitor_def lt_workspaces_def vec_get_def split: monitor_set.splits if_splits)
      (meson nth_mem)
  have ref: "w \<in> set (lt_workspaces L)" if "find_workspace_by_ref r L = Some w" for r
    using that among at
    by (auto simp: find_workspace_by_ref_def find_workspace_by_name_def find_workspace_by_id_def bind_eq_Some_conv
        split: workspace_ref.splits if_splits)
  show "w \<in> set (lt_workspaces L')" if "ws = Some w"
    using assms that act ref by (auto simp: resolve_ref_def bind_eq_Some_conv split: option.splits)
qed

lemma map_by_id:
  assumes "distinct (map ws_id wss)" "i < length wss"
  shows "map (\<lambda>w. if ws_id w = ws_id (wss ! i) then g w else w) wss = wss[i := g (wss ! i)]"
proof (rule nth_equalityI)
  fix j assume "j < length (map (\<lambda>w. if ws_id w = ws_id (wss ! i) then g w else w) wss)"
  then have j: "j < length wss" by simp
  have "ws_id (wss ! j) = ws_id (wss ! i) \<longleftrightarrow> j = i"
    using assms j nth_eq_iff_index_eq [OF assms(1), of j i] by simp
  with j show "map (\<lambda>w. if ws_id w = ws_id (wss ! i) then g w else w) wss ! j = wss[i := g (wss ! i)] ! j"
    by (cases "j = i") simp_all
qed simp

lemma name_without_outputs:
  assumes ok: "lt_ok cv L" and L: "lt_set L = NoOutputs wss" and ws: "ws \<in> set wss"
    and free: "find_workspace_by_name name L = None"
  shows "lt_keeps cv L (L\<lparr>lt_set := NoOutputs (map (\<lambda>w. if ws_id w = ws_id ws then w\<lparr>ws_name := Some name\<rparr> else w) wss)\<rparr>)"
proof -
  note n = lt_ok_NoOutputsD [OF ok L]
  obtain i where i: "i < length wss" "wss ! i = ws" using ws by (auto simp: in_set_conv_nth)
  let ?w = "ws\<lparr>ws_name := Some name\<rparr>"
  let ?wss = "wss[i := ?w]"
  have e: "map (\<lambda>w. if ws_id w = ws_id ws then w\<lparr>ws_name := Some name\<rparr> else w) wss = ?wss"
    using map_by_id [of wss i "\<lambda>w. w\<lparr>ws_name := Some name\<rparr>"] n(1) i by (simp add: arriving_ok_def)
  have same: "map ws_windows ?wss = map ws_windows wss" "map ws_id ?wss = map ws_id wss"
    using i by (simp_all add: map_update) (metis list_update_id nth_map)+
  have sub: "x = ?w \<or> x \<in> set wss" if "x \<in> set ?wss" for x
    using that set_update_subset_insert [of wss i ?w] by blast
  have w: "has_windows_or_name ?w \<and> ws_ok cv ?w \<and> ws_id ?w < lt_next_ws_id L \<and> base_options ?w = lt_options L"
    using n(1,2) ws by (auto simp: arriving_ok_def)
  have each: "has_windows_or_name x \<and> ws_ok cv x \<and> ws_id x < lt_next_ws_id L \<and>
      (ws_hidden x \<or> needs_hidden x \<longrightarrow> ws_name x \<noteq> None) \<and> base_options x = lt_options L" if "x \<in> set ?wss" for x
    using sub [OF that]
  proof
    assume "x \<in> set wss"
    with n(1,2) show ?thesis unfolding arriving_ok_def by blast
  qed (use w in simp)
  have names: "distinct (map (map ascii_lower) (List.map_filter ws_name ?wss))"
  proof -
    have "keys_of wss \<inter> {map ascii_lower name} = {}"
      using find_name_free [OF free] by (auto simp: keys_of_def lt_workspaces_def L)
    then have fresh: "map ascii_lower name \<notin> set (map (map ascii_lower) (List.map_filter ws_name (take i wss @ drop (Suc i) wss)))"
      unfolding lower_names using set_take_subset [of i wss] set_drop_subset [of "Suc i" wss] by (auto simp: keys_of_def)
    have "distinct (map (map ascii_lower) (List.map_filter ws_name (take i wss @ drop (Suc i) wss)))"
      using arriving_remove [OF n(1), of i] by (simp add: arriving_ok_def remove_at_def)
    with fresh show ?thesis using i(1)
      by (simp add: upd_conv_take_nth_drop map_filter_names_append List.map_filter_simps)
  qed
  have arr: "arriving_ok cv (lt_next_ws_id L) ?wss"
    unfolding arriving_ok_def same using each names n(1) by (simp add: arriving_ok_def)
  show ?thesis unfolding e
    using ok n(3,4) arr each same(1)
    by (simp add: lt_keeps_def lt_ok_def lt_mset_def placed_mset_def moved_mset_def moving_data_def lt_monitors_def L)
qed

lemma set_name_keeps:
  assumes cv: "parents_acyclic cv" and ok: "lt_ok cv L"
  shows "returns (set_workspace_name name r L) (lt_keeps cv L)"
proof (cases "find_workspace_by_name name L")
  case (Some w)
  with lt_keeps_refl [OF ok] show ?thesis by (simp add: set_workspace_name_def)
next
  case None
  from resolve_ref_keeps [OF cv ok, of r] obtain ws L1 where r: "resolve_ref r L = Some (ws, L1)" "lt_keeps cv L L1"
    by (auto elim!: returnsE)
  note f = resolve_ref_found [OF r(1)] and ok1 = lt_keepsD [OF r(2)]
  have free: "find_workspace_by_name name L1 = None" using None by (simp add: find_workspace_by_name_def f(1))
  show ?thesis
  proof (cases ws)
    case None
    with \<open>find_workspace_by_name name L = None\<close> r show ?thesis by (simp add: set_workspace_name_def)
  next
    case (Some w)
    note w = f(2) [OF Some]
    show ?thesis
    proof (cases "lt_set L1")
      case (Normal mons p a)
      then obtain m where m: "m \<in> set mons" "w \<in> set (workspaces m)" using w by (auto simp: lt_workspaces_def)
      then have "idx_of_ws (ws_id w) m \<noteq> None" by (auto simp: idx_of_ws_def position_None)
      with m(1) obtain k where k: "position (\<lambda>m. idx_of_ws (ws_id w) m \<noteq> None) mons = Some k"
        by (cases "position (\<lambda>m. idx_of_ws (ws_id w) m \<noteq> None) mons") (auto simp: position_None)
      from lt_keeps_after [OF r(2) name_on_layout [OF ok1 Normal k free]] None r Some Normal k show ?thesis
        by (simp add: set_workspace_name_def)
    next
      case (NoOutputs wss)
      then have "w \<in> set wss" using w by (simp add: lt_workspaces_def)
      from lt_keeps_trans [OF r(2) name_without_outputs [OF ok1 NoOutputs this free]] None r Some NoOutputs show ?thesis
        by (simp add: set_workspace_name_def)
    qed
  qed
qed

section \<open>A workspace of the configuration\<close>

lemma new_with_config_simps [simp]:
  "ws_id (new_with_config i out c opts) = i" "ws_mset (new_with_config i out c opts) = {#}"
  "ws_windows (new_with_config_no_outputs i c opts) = []" "ws_id (new_with_config_no_outputs i c opts) = i"
  "ws_name (new_with_config i out (Some cfg) opts) = Some (cfg_name cfg)"
  "ws_name (new_with_config_no_outputs i (Some cfg) opts) = Some (cfg_name cfg)"
  "\<not> needs_hidden (new_with_config i out c opts)" "base_options (new_with_config_no_outputs i c opts) = opts"
  by (simp_all add: new_with_config_def new_with_config_no_outputs_def Let_def ws_mset_def ws_windows_def win_mset_def
      empty_scrolling_def empty_floating_def fl_mset_def fl_windows_def scrolling_windows_def)

lemma ensure_named_keeps:
  assumes ok: "lt_ok cv L"
  shows "returns (ensure_named_workspace c L) (lt_keeps cv L)"
proof (cases "find_workspace_by_name (cfg_name c) L")
  case (Some w)
  with lt_keeps_refl [OF ok] show ?thesis by (simp add: ensure_named_workspace_def)
next
  case free: None
  let ?key = "map ascii_lower (cfg_name c)" and ?n = "lt_next_ws_id L"
  show ?thesis
  proof (cases "lt_set L")
    case (NoOutputs wss)
    note n = lt_ok_NoOutputsD [OF ok NoOutputs]
    let ?w = "new_with_config_no_outputs ?n (Some c) (lt_options L)"
    have "?key \<notin> keys_of wss"
      using find_name_free [OF free] by (auto simp: keys_of_def lt_workspaces_def NoOutputs)
    then have "?key \<notin> set (map (map ascii_lower) (List.map_filter ws_name wss))" unfolding lower_names .
    moreover have "?n \<notin> ws_id ` set wss" using n(1) by (auto simp: arriving_ok_def)
    ultimately have "arriving_ok cv (?n + 1) (?w # wss)"
      using n(1) new_with_config_ok(2) [of cv ?n "Some c"]
      by (auto simp: arriving_ok_def List.map_filter_simps named_not_blank)
    with ok n NoOutputs show ?thesis
      by (simp add: ensure_named_workspace_def free lt_keeps_def lt_ok_def lt_mset_def placed_mset_def moved_mset_def
          moving_data_def lt_monitors_def)
  next
    case (Normal mons p a)
    note n = lt_ok_NormalD [OF ok Normal]
    have out: "outputs_apart (outputs_of mons)" using n(1) by (simp add: mons_ok_def)
    define k where "k = (if cfg_open_on_output c = [] then a
      else case find_preferred_output (cfg_open_on_output c) (outputs_of mons) of Some k \<Rightarrow> k | None \<Rightarrow> p)"
    have k: "k < length mons"
      using n(2,3) find_preferred_bound [of "cfg_open_on_output c" "outputs_of mons"]
      by (auto simp: k_def outputs_of_def split: option.split)
    note nk = mons_ok_nth [OF n(1) k]
    let ?m = "at_counter (?n + 1) (mons ! k)"
    let ?w = "new_with_config ?n (mon_output (mons ! k)) (Some c) (lt_options L)"
    have fit: "mon_fits cv (lt_options L) ?n (mons ! k)" using n(1) k by (simp add: mons_ok_def)
    then have okm: "content_ok cv ?m" "shape True ?m"
      using mon_ok_counter [of cv "mons ! k" "?n + 1"] by (simp_all add: mon_fits_def mon_ok_def)
    have fr: "?key \<notin> names_of (mons ! j)" if "j < length mons" for j
      using find_name_free [OF free] nth_mem [OF that] by (auto simp: keys_of_def lt_workspaces_Normal [OF Normal])
    have low: "\<forall>i \<in> ids_of (mons ! k). i < ?n"
    proof -
      have "content_ok cv (mons ! k)" "next_ws_id (mons ! k) \<le> ?n" using fit by (simp_all add: mon_fits_def mon_ok_def)
      then show ?thesis using content_okD [of cv "mons ! k"] by (auto simp: cores_ok_def cores_def fits_def ids_of_def)
    qed
    have "cores_ok cv (mon_output ?m) (mon_options ?m) (next_ws_id ?m) (fl_mset (sticky ?m)) (add_mset (core (adopt ?m ?w)) (cores ?m))"
    proof (rule adopt_fits [OF okm(1)])
      show "ws_id ?w \<notin> ids_of ?m" using low by (auto simp: ids_of_def)
      show "key \<notin> names_of ?m" if "name_key ?w = Some key" for key using that fr [OF k] by (simp add: name_key_def)
    qed (use new_with_config_ok(1) mon_mset_distinct [OF okm(1)] in simp_all)
    note fitw = this
    define g where "g m = (if ws_hidden ?w then insert_hidden_workspace ?w 0 m else map_option snd (insert_workspace ?w 0 False m))" for m
    have "returns (g ?m) (\<lambda>m'. content_ok cv m' \<and> shape True m' \<and> mon_mset m' = mon_mset (mons ! k))"
    proof (cases "ws_hidden ?w")
      case True
      from insert_hidden_workspace_returns [OF okm(1) shape_loose [OF okm(2)] True fitw, of 0] adopted_mset [of ?m _ ?w] True
      show ?thesis by (auto simp: g_def simp del: bodies_of_simps elim!: returns_mono)
    next
      case False
      from insert_any_returns [OF okm fitw, of 0 False] False show ?thesis by (auto simp: g_def elim!: returnsE)
    qed
    then obtain m' where m': "g ?m = Some m'" "mon_ok cv m'" "mon_mset m' = mon_mset (mons ! k)"
      by (auto simp: mon_ok_def elim!: returnsE)
    have settled: "settled (outputs_of mons) p k (original_outputs ?w)"
    proof (cases "cfg_open_on_output c = []")
      case True
      then have "original_outputs ?w = [output_id_new (mon_output (mons ! k))]" by (simp add: new_with_config_def Let_def)
      with settled_own [OF nk(4,5)] show ?thesis by (simp add: nk(2))
    next
      case False
      then have e: "original_outputs ?w = normalize_original_outputs (cfg_open_on_output c) (outputs_of mons ! k)"
        by (simp add: new_with_config_def Let_def nk(2))
      have "settled (outputs_of mons) p k (cfg_open_on_output c)"
        using False by (simp add: settled_def k_def split: option.split)
      from settled_normalize [OF nk(4,5) this] show ?thesis unfolding e .
    qed
    have frame: "stays fr m'"
      if f: "fr = mon_frame (outputs_of mons) p k (ids_of (mons ! k) \<union> {}) (names_of (mons ! k) \<union> {?key}) ?n (lt_options L)"
        "frame_closed fr" "stays fr (at_counter ?n (mons ! k))" for fr
    proof -
      have "stays fr ?m" using f(3) unfolding f(1) stays_frame [OF nk(4,5)] by (simp add: ids_of_def mon_settled_def)
      moreover have "tagged fr ?w" using settled unfolding f(1) tagged_frame by (simp add: name_key_def)
      ultimately have "yields fr (g ?m) (stays fr)" unfolding g_def by (auto intro!: frames)
      from yieldsD [OF this f(2) m'(1)] show ?thesis .
    qed
    have new: "{} \<inter> ids_of (mons ! j) = {} \<and> {?key} \<inter> names_of (mons ! j) = {}" if "j < length mons" "j \<noteq> k" for j
      using fr [OF that(1)] by simp
    note j = mons_ok_join [OF n(1) k m'(2) new frame]
    have "mons_mset (mons[k := m']) = mons_mset mons"
      by (simp add: mons_mset_update [OF k] mons_mset_split [OF k] m'(3))
    then have kept: "lt_keeps cv L (lt_put (mons[k := m']) p a (next_ws_id m') L)"
      by (intro lt_keeps_put [OF ok Normal]) (use j n(2) in auto)
    have "ensure_named_workspace c L = change_monitor k (\<lambda>m. do {
            let ws = new_with_config (next_ws_id m) (mon_output m) (Some c) (lt_options L);
            let m = m\<lparr>next_ws_id := next_ws_id m + 1\<rparr>;
            if ws_hidden ws then insert_hidden_workspace ws 0 m
            else map_option snd (insert_workspace ws 0 False m)
          }) L"
      by (simp only: ensure_named_workspace_def free Normal monitor_set.case k_def [symmetric] Let_def simp_thms if_False)
    also have "\<dots> = map_option (\<lambda>m. lt_put (mons[k := m]) p a (next_ws_id m) L) (g ?m)"
      unfolding change_monitor_eq [OF Normal k] by (simp add: Let_def g_def at_counter_def)
    finally show ?thesis using m'(1) kept by simp
  qed
qed

end
