(* ===== verification/LayoutConfig.thy ===== *)
theory LayoutConfig
  imports LayoutNaming
begin

text \<open>
  The configuration changes (\<open>Layout::update_config\<close>): every monitor and every workspace takes the
  new options, and a monitor may gain or lose the empty workspace above its first one.
\<close>

section \<open>Workspaces and monitors with other options\<close>

lemma ws_reconfigure_simps [simp]:
  "ws_id (ws_reconfigure cfgs ws) = ws_id ws" "ws_name (ws_reconfigure cfgs ws) = ws_name ws"
  "ws_hidden (ws_reconfigure cfgs ws) = ws_hidden ws" "needs_hidden (ws_reconfigure cfgs ws) = needs_hidden ws"
  "ws_mset (ws_reconfigure cfgs ws) = ws_mset ws" "ws_ok cv (ws_reconfigure cfgs ws) = ws_ok cv ws"
  "base_options (ws_reconfigure cfgs ws) = base_options ws" "ws_output (ws_reconfigure cfgs ws) = ws_output ws"
  "has_windows_or_name (ws_reconfigure cfgs ws) = has_windows_or_name ws"
  "original_outputs (ws_reconfigure cfgs ws) = original_outputs ws" "ws_windows (ws_reconfigure cfgs ws) = ws_windows ws"
  by (auto simp: ws_reconfigure_def ws_update_layout_config_def ws_update_config_def ws_mset_def ws_ok_def
      has_windows_or_name_def ws_has_windows_def ws_windows_def split: option.split)

lemma vis_hid_map:
  assumes "\<And>ws. ws_hidden (g ws) = ws_hidden ws"
  shows "vis (m\<lparr>workspaces := map g (workspaces m), overview_open := b\<rparr>) = map g (vis m)"
    "hid (m\<lparr>workspaces := map g (workspaces m), overview_open := b\<rparr>) = map g (hid m)"
  using assms by (simp_all add: vis_def hid_def filter_map comp_def)

lemma shape_map:
  assumes "\<And>ws. ws_hidden (g ws) = ws_hidden ws" "\<And>ws. has_windows_or_name (g ws) = has_windows_or_name ws" "shape t m"
  shows "shape t (m\<lparr>workspaces := map g (workspaces m), overview_open := b\<rparr>)"
proof -
  let ?m = "m\<lparr>workspaces := map g (workspaces m), overview_open := b\<rparr>"
  note v = vis_hid_map [where g = g and m = m and b = b, OF assms(1)] and l = looseD [OF shape_loose [OF assms(3)]]
  have "loose ?m" unfolding loose_def v
  proof (intro conjI impI)
    show "workspaces ?m = map g (vis m) @ map g (hid m)" using arg_cong [OF l(1), of "map g"] by simp
  qed (use l(2-5) in \<open>simp_all add: last_map hd_map assms(2)\<close>)
  moreover have "t \<Longrightarrow> workspace_switch m = None \<Longrightarrow> tight ?m"
    using assms(3) by (simp add: shape_def tight_def v assms(2))
  ultimately show ?thesis using assms(3) by (simp add: shape_def v)
qed

lemma configured_ok:
  assumes ok: "mon_ok cv m"
  shows "mon_ok cv (configured_monitor cfgs isolated m)" "mon_mset (configured_monitor cfgs isolated m) = mon_mset m"
proof -
  let ?g = "ws_reconfigure cfgs" and ?m = "configured_monitor cfgs isolated m"
  have c: "content_ok cv m" "shape True m" using ok by (simp_all add: mon_ok_def)
  have sums: "\<Sum>\<^sub># (image_mset ws_mset (cores ?m)) = \<Sum>\<^sub># (image_mset ws_mset (cores m))"
    by (simp add: cores_def configured_monitor_def image_mset.compositionality comp_def)
  then show ms: "mon_mset ?m = mon_mset m" by (simp add: mon_mset_def configured_monitor_def)
  have "cores_ok cv (mon_output m) (mon_options m) (next_ws_id m) (fl_mset (sticky m)) (cores ?m)"
    using content_okD [OF c(1)] unfolding cores_def cores_ok_list configured_monitor_def
    by (auto simp: fits_def List.map_filter_def filter_map comp_def)
  with c(1) have "content_ok cv ?m" by (simp add: content_ok_def configured_monitor_def)
  moreover have "shape True ?m" unfolding configured_monitor_def by (rule shape_map [OF _ _ c(2)]) simp_all
  ultimately show "mon_ok cv ?m" by (simp add: mon_ok_def)
qed

text \<open>The frame of a monitor, but for the options, which are the new ones\<close>

lemma update_config_stays:
  assumes st: "stays (T, out, n, b) m" and run: "mon_update_config base m = Some m'"
  shows "stays (T, out, n, base) m'"
proof -
  have cl: "frame_closed (T, out, n, b)" using st by (simp add: stays_def housed_def)
  let ?opts = "with_merged_layout (mon_layout_config m) base"
  define pre where "pre = (if above_first m \<noteq> empty_workspace_above_first ?opts \<and> 1 < length (workspaces m)
             then (if empty_workspace_above_first ?opts then add_workspace_top m
                   else if workspace_switch m = None \<and> active_workspace_idx m \<noteq> 0
                   then do {
                     (_, wss) \<leftarrow> vec_remove 0 (workspaces m);
                     Some (m\<lparr>workspaces := wss, active_workspace_idx := active_workspace_idx m - 1\<rparr>)
                   } else Some m)
             else Some m)"
  have "mon_update_config base m = do { m \<leftarrow> pre; Some (reconfigured base ?opts m) }"
    by (simp only: mon_update_config_def pre_def Let_def reconfigured_def)
  with run obtain m1 where m1: "pre = Some m1" "m' = reconfigured base ?opts m1" by (auto simp: bind_eq_Some_conv)
  have "yields (T, out, n, b) pre (stays (T, out, n, b))"
    unfolding pre_def using st by (auto intro!: frames)
  from yieldsD [OF this cl m1(1)] m1(2) have "stays (T, out, n, b) m1" "m' = reconfigured base ?opts m1" by blast+
  with cl show ?thesis by (auto simp: stays_def housed_def frame_closed_def reconfigured_def tagged_def ws_update_config_def)
qed

section \<open>All monitors, one after the other\<close>

text \<open>The invariant of the monitors without their options, which differ while they are changed\<close>

definition placed :: "client_view \<Rightarrow> nat \<Rightarrow> nat \<Rightarrow> monitor list \<Rightarrow> bool" where
  "placed cv n p mons \<longleftrightarrow>
     (\<forall>m \<in> set mons. mon_ok cv m \<and> next_ws_id m \<le> n) \<and>
     (\<forall>k < length mons. mon_settled (outputs_of mons) p k (mons ! k)) \<and>
     apart mons \<and> outputs_apart (outputs_of mons) \<and> p < length mons"

lemma mons_ok_placed:
  "mons_ok cv base n p mons \<longleftrightarrow> placed cv n p mons \<and> (\<forall>m \<in> set mons. mon_base_options m = base)"
  by (auto simp: mons_ok_def placed_def mon_fits_def)

lemma apart_grown:
  assumes ap: "apart mons" and k: "k < length mons" and low: "\<forall>m \<in> set mons. \<forall>i \<in> ids_of m. i < n"
    and m: "ids_of m \<subseteq> ids_of (mons ! k) \<union> {n..}" "names_of m \<subseteq> names_of (mons ! k)"
  shows "apart (mons[k := m])"
proof -
  have new: "ids_of m \<inter> ids_of (mons ! j) = {} \<and> names_of m \<inter> names_of (mons ! j) = {}" if j: "j < length mons" "j \<noteq> k" for j
  proof -
    have "{n..} \<inter> ids_of (mons ! j) = {}" using low nth_mem [OF j(1)] by fastforce
    moreover have "ids_of (mons ! k) \<inter> ids_of (mons ! j) = {}" "names_of (mons ! k) \<inter> names_of (mons ! j) = {}"
      using ap k j unfolding apart_def by blast+
    ultimately show ?thesis using m by blast
  qed
  show ?thesis
    unfolding apart_def
  proof (intro allI impI)
    fix i j assume "i < length (mons[k := m])" "j < length (mons[k := m])" "i \<noteq> j"
    then show "ids_of (mons[k := m] ! i) \<inter> ids_of (mons[k := m] ! j) = {} \<and>
        names_of (mons[k := m] ! i) \<inter> names_of (mons[k := m] ! j) = {}"
      using new [of i] new [of j] ap k by (cases "i = k"; cases "j = k") (simp_all add: apart_def Int_commute)
  qed
qed

lemma mon_ids_low: "mon_ok cv m \<Longrightarrow> i \<in> ids_of m \<Longrightarrow> i < next_ws_id m"
  using content_okD [of cv m] by (auto simp: mon_ok_def cores_ok_def cores_def fits_def ids_of_def)

lemma placed_update:
  assumes ok: "placed cv n p mons" and k: "k < length mons" and m: "mon_ok cv m"
    and st: "stays (mon_frame (outputs_of mons) p k (ids_of (mons ! k)) (names_of (mons ! k)) n base) m"
  shows "placed cv (next_ws_id m) p (mons[k := m])" "outputs_of (mons[k := m]) = outputs_of mons"
proof -
  have out: "outputs_apart (outputs_of mons)" "k < length (outputs_of mons)" "outputs_of mons ! k = mon_output (mons ! k)"
    using ok k by (simp_all add: placed_def outputs_of_def)
  note s = st [unfolded stays_frame [OF out(1,2)]]
  show outs: "outputs_of (mons[k := m]) = outputs_of mons" by (rule outputs_of_update) (use s out(3) in simp)
  have low: "\<forall>m \<in> set mons. \<forall>i \<in> ids_of m. i < n" using ok mon_ids_low by (fastforce simp: placed_def)
  have "apart (mons[k := m])"
    by (rule apart_grown [OF _ k low]) (use ok s in \<open>simp_all add: placed_def\<close>)
  moreover have "\<forall>x \<in> set (mons[k := m]). mon_ok cv x \<and> next_ws_id x \<le> next_ws_id m"
    using ok s m set_update_subset_insert [of mons k m] by (fastforce simp: placed_def)
  moreover have "mon_settled (outputs_of mons) p j (mons[k := m] ! j)" if "j < length mons" for j
    using ok s that by (cases "j = k") (auto simp: placed_def)
  ultimately show "placed cv (next_ws_id m) p (mons[k := m])" using ok by (simp add: placed_def outs)
qed

text \<open>A monitor of the list in its frame, with the counter of the layout\<close>

lemma placed_frame:
  assumes "placed cv n p mons" "k < length mons"
  shows "stays (mon_frame (outputs_of mons) p k (ids_of (mons ! k)) (names_of (mons ! k)) n (mon_base_options (mons ! k)))
    (at_counter n (mons ! k))"
proof -
  have o: "outputs_apart (outputs_of mons)" "k < length (outputs_of mons)" "outputs_of mons ! k = mon_output (mons ! k)"
    using assms by (simp_all add: placed_def outputs_of_def)
  show ?thesis unfolding stays_frame [OF o(1,2)]
    using assms o(3) by (simp add: placed_def ids_of_def mon_settled_def)
qed

lemma update_monitors_returns:
  assumes "placed cv n p (pre @ ms)"
  shows "returns (update_monitors opts n ms) (\<lambda>(ms', n'). placed cv n' p (pre @ ms') \<and>
    outputs_of (pre @ ms') = outputs_of (pre @ ms) \<and> mons_mset (pre @ ms') = mons_mset (pre @ ms) \<and>
    length ms' = length ms \<and> (\<forall>m \<in> set ms'. mon_base_options m = opts))"
  using assms
proof (induction ms arbitrary: pre n)
  case Nil
  then show ?case by simp
next
  case (Cons m ms)
  let ?k = "length pre" and ?m = "at_counter n m"
  have k: "?k < length (pre @ m # ms)" and at: "(pre @ m # ms) ! ?k = m" by simp_all
  have ok: "mon_ok cv m" "next_ws_id m \<le> n" using Cons.prems by (simp_all add: placed_def)
  have okn: "mon_ok cv ?m" by (rule mon_ok_counter [OF ok])
  then have c: "content_ok cv (?m\<lparr>mon_layout_config := mon_layout_config ?m\<rparr>)" "shape True ?m" by (simp_all add: mon_ok_def)
  from mon_update_config_returns [OF c, of opts] obtain m' where
    m': "mon_update_config opts ?m = Some m'" "mon_ok cv m'" "mon_mset m' = mon_mset m" "mon_base_options m' = opts"
    by (auto simp: mon_ok_def elim!: returnsE)
  have st: "stays (mon_frame (outputs_of (pre @ m # ms)) p ?k (ids_of m) (names_of m) n opts) m'"
    using update_config_stays [of _ _ n "mon_base_options m" ?m opts m'] m'(1) placed_frame [OF Cons.prems k] unfolding at mon_frame_def
    by blast
  note u = placed_update [OF Cons.prems k m'(2), unfolded at, OF st]
  have "placed cv (next_ws_id m') p ((pre @ [m']) @ ms)" using u(1) by simp
  from Cons.IH [OF this] obtain ms' n' where
    ms': "update_monitors opts (next_ws_id m') ms = Some (ms', n')" "placed cv n' p ((pre @ [m']) @ ms')"
      "outputs_of ((pre @ [m']) @ ms') = outputs_of ((pre @ [m']) @ ms)" "mons_mset ((pre @ [m']) @ ms') = mons_mset ((pre @ [m']) @ ms)"
      "length ms' = length ms" "\<forall>m \<in> set ms'. mon_base_options m = opts"
    by (auto elim!: returnsE)
  then show ?case using m' u(2) by (simp add: mons_mset_def)
qed

section \<open>The layout\<close>

lemma configured_fields [simp]:
  "mon_output (configured_monitor cfgs isolated m) = mon_output m"
  "next_ws_id (configured_monitor cfgs isolated m) = next_ws_id m"
  "ids_of (configured_monitor cfgs isolated m) = ids_of m" "names_of (configured_monitor cfgs isolated m) = names_of m"
  by (simp_all add: configured_monitor_def ids_of_def keys_of_def name_key_def image_image)

lemma placed_configured:
  assumes "placed cv n p mons"
  shows "placed cv n p (map (configured_monitor cfgs isolated) mons)"
    "outputs_of (map (configured_monitor cfgs isolated) mons) = outputs_of mons"
    "mons_mset (map (configured_monitor cfgs isolated) mons) = mons_mset mons"
proof -
  let ?c = "configured_monitor cfgs isolated"
  show outs: "outputs_of (map ?c mons) = outputs_of mons" by (simp add: outputs_of_def)
  have "map (mon_mset \<circ> ?c) mons = map mon_mset mons"
    using assms configured_ok(2) by (auto simp: placed_def)
  then show "mons_mset (map ?c mons) = mons_mset mons" by (simp only: mons_mset_def map_map)
  have "apart (map ?c mons) = apart mons" by (simp add: apart_def)
  moreover have "mon_settled outs p k (?c m) = mon_settled outs p k m" for outs k m
    by (simp add: mon_settled_def configured_monitor_def)
  ultimately show "placed cv n p (map ?c mons)"
    using assms configured_ok(1) unfolding placed_def outs by auto
qed

lemma update_config_returns:
  assumes ok: "lt_ok cv L"
  shows "returns (lt_update_config cfgs isolated consolidated opts L) (\<lambda>L'. lt_ok cv L' \<and> placed_mset L' = placed_mset L \<and>
    lt_interactive_move L' = lt_interactive_move L \<and> lt_options L' = opts \<and>
    outputs_of (lt_monitors L') = outputs_of (lt_monitors L))"
proof (cases "lt_set L")
  case (Normal mons p a)
  note n = lt_ok_NormalD [OF ok Normal]
  have "placed cv (lt_next_ws_id L) p mons" using n(1) by (simp add: mons_ok_placed)
  note c = placed_configured [OF this, of cfgs isolated]
  from update_monitors_returns [of cv "lt_next_ws_id L" p "[]" "map (configured_monitor cfgs isolated) mons" opts] c
  obtain mons' n' where
    r: "update_monitors opts (lt_next_ws_id L) (map (configured_monitor cfgs isolated) mons) = Some (mons', n')"
      "placed cv n' p mons'" "outputs_of mons' = outputs_of mons" "mons_mset mons' = mons_mset mons" "length mons' = length mons"
      "\<forall>m \<in> set mons'. mon_base_options m = opts"
    by (auto elim!: returnsE)
  then have "mons_ok cv opts n' p mons'" by (simp add: mons_ok_placed)
  with ok n r Normal show ?thesis
    by (simp add: lt_update_config_def lt_ok_def lt_mset_def placed_mset_def moved_mset_def moving_data_def lt_monitors_def)
next
  case (NoOutputs wss)
  note n = lt_ok_NoOutputsD [OF ok NoOutputs]
  let ?c = "map (ws_reconfigure cfgs) wss"
  have c: "arriving_ok cv (lt_next_ws_id L) ?c"
    using n(1) by (auto simp: arriving_ok_def List.map_filter_def filter_map comp_def)
  note u = arriving_update_config [OF c, of opts]
  have e: "map (\<lambda>ws. ws_update_config opts (ws_reconfigure cfgs ws)) wss = map (ws_update_config opts) ?c" by simp
  have w: "map ws_windows (map (ws_update_config opts) ?c) = map ws_windows wss" unfolding u(2) by simp
  have "lt_update_config cfgs isolated consolidated opts L =
      Some (L\<lparr>lt_set := NoOutputs (map (ws_update_config opts) ?c), lt_options := opts, lt_consolidated := consolidated\<rparr>)"
    unfolding e [symmetric] by (simp add: lt_update_config_def NoOutputs)
  moreover have "\<forall>ws \<in> set (map (ws_update_config opts) ?c). base_options ws = opts" by simp
  ultimately show ?thesis
    using ok n u(1) w NoOutputs
    by (simp add: lt_ok_def lt_mset_def placed_mset_def moved_mset_def moving_data_def lt_monitors_def del: map_map)
qed

end
