(* ===== verification/LayoutSpec.thy ===== *)
theory LayoutSpec
  imports LayoutConfig
begin

text \<open>
  The layout as a state machine over everything its callers may ask of it, and what it
  promises: no sequence of operations panics or breaks \<open>Layout::verify_invariants\<close>, and every
  window stays until it is closed.
\<close>

section \<open>The assertions of the code\<close>





section \<open>The operations\<close>




















section \<open>The layout that the compositor starts with\<close>

lemma numbered_ids: "map ws_id (numbered n cfgs opts) = [n..<n + length cfgs]"
proof (induction cfgs arbitrary: n)
  case (Cons c cfgs)
  have "[n..<n + length (c # cfgs)] = n # [n + 1..<n + 1 + length cfgs]" by (subst upt_conv_Cons) simp_all
  then show ?case using Cons.IH [of "n + 1"] by simp
qed simp

lemma numbered_names: "List.map_filter ws_name (numbered n cfgs opts) = map cfg_name cfgs"
  by (induction cfgs arbitrary: n) (simp_all add: List.map_filter_simps)

lemma numbered_each: "ws \<in> set (numbered n cfgs opts) \<Longrightarrow>
    ws_windows ws = [] \<and> ws_name ws \<noteq> None \<and> ws_ok cv ws \<and> base_options ws = opts"
  using new_with_config_ok(2) by (induction cfgs arbitrary: n) auto

text \<open>The configuration names no two workspaces the same, which its parser sees to\<close>

lemma new_layout_ok:
  assumes "distinct (map (\<lambda>c. map ascii_lower (cfg_name c)) cfgs)"
  shows "lt_ok cv (with_options_and_workspaces n cfgs consolidated opts)"
proof -
  let ?wss = "numbered n cfgs opts"
  have low: "\<forall>ws \<in> set ?wss. ws_id ws < n + length cfgs"
    using numbered_ids [of n cfgs opts] by (metis atLeastLessThan_iff image_eqI list.set_map set_upt)
  have none: "concat (map ws_windows ?wss) = []" using numbered_each [where cv = cv] by simp
  have "arriving_ok cv (n + length cfgs) ?wss"
    unfolding arriving_ok_def none numbered_ids numbered_names
    using assms low numbered_each [of _ n cfgs opts cv] by (auto simp: named_not_blank comp_def)
  moreover have "\<forall>ws \<in> set ?wss. base_options ws = opts" using numbered_each [where cv = cv] by blast
  ultimately show ?thesis using distinct_mset_mset [of "[] :: win_id list"]
    by (simp add: with_options_and_workspaces_def lt_ok_def lt_mset_def placed_mset_def moved_mset_def moving_data_def
        none started_in_def)
qed

section \<open>A layout with two outputs\<close>

definition side_output :: wl_output where
  "side_output = \<lparr>out_handle = 1, out_name = \<lparr>on_connector = ''HDMI-1'', on_make = None, on_model = None,
                   on_serial = None\<rparr>\<rparr>"

definition side_monitor :: monitor where
  "side_monitor = \<lparr>mon_output = side_output, workspaces = [workspace_new 11 side_output demo_options],
     active_workspace_idx = 0, previous_workspace_id = None, workspace_switch = None,
     sticky = empty_floating, active_space = SpaceWorkspace, overview_open = False,
     mon_base_options = demo_options, mon_options = demo_options, mon_layout_config = None, next_ws_id = 12\<rparr>"

definition demo_layout :: layout where
  "demo_layout = \<lparr>lt_set = Normal [demo_monitor, side_monitor] 0 0, last_active_workspace_id = Map.empty,
     lt_interactive_move = None, lt_overview_open = False, lt_consolidated = False, lt_isolated = [],
     lt_options = demo_options, lt_next_ws_id = 12\<rparr>"







section \<open>Properties\<close>






section \<open>Where the code goes wrong\<close>

definition dragged :: move_data where
  "dragged = \<lparr>md_tile = demo_tile 99, md_output = demo_output, md_width = Proportion 1, md_is_full_width = False,
     md_is_floating = True, md_is_sticky = False\<rparr>"

text \<open>
  A window is dropped below the last workspace that is shown, which is to reuse the empty one at
  the bottom. With a hidden workspace the last one of the vector is that one: the window is put
  there, and the search for it among the shown workspaces panics.
\<close>

lemma drop_below_hidden_panics:
  "case hide_workspace_by_id 3 demo_monitor of
     None \<Rightarrow> False
   | Some (m, _) \<Rightarrow> mon_verify_invariants m \<and>
       drop_on_monitor demo_clients (NewAt (visible_workspace_count m)) InFloating False dragged m = None"
  by code_simp

text \<open>An output that the layout does not know takes all windows with it\<close>

lemma unknown_output_loses_windows:
  assumes "lt_set L = Normal mons p a" "monitor_of_output out mons = None"
  shows "\<exists>L'. remove_output cv width out L = Some L' \<and> lt_set L' = NoOutputs []"
  using assms by (simp add: remove_output_def on_active_monitor_changed_def set_monitors_overview_state_def)

text \<open>The overview flags that \<open>verify_invariants\<close> expects\<close>

definition overview_flags_ok :: "layout \<Rightarrow> bool" where
  "overview_flags_ok L =
     (case lt_set L of
        NoOutputs _ \<Rightarrow> True
      | Normal mons p a \<Rightarrow>
          list_all (\<lambda>(k, m). overview_open m = takes_part L a k (mon_output m)) (zip [0..<length mons] mons))"

text \<open>
  With the consolidated carousel only the active monitor takes part in the overview. A window
  that opens on another output makes that one active without telling the monitors.
\<close>

lemma opening_window_leaves_stale_overview:
  "let L = toggle_overview (demo_layout\<lparr>lt_consolidated := True\<rparr>)
   in overview_flags_ok L \<and>
      map_option (\<lambda>(_, L). overview_flags_ok L)
        (add_window demo_clients (demo_tile 99) (LtOutput side_output) (Proportion 1) False False False False ActivateYes False L) =
      Some False"
  by code_simp

end
