(* ===== verification/EventStream.thy ===== *)
theory EventStream
  imports Complex_Main Prelude "HOL-Library.AList"
begin

text \<open>
  The event stream of the IPC protocol (\<open>niri-ipc/src/state.rs\<close>): what a client knows, how an
  event changes it, and the events that bring a new client up to date.

  A hash map is the list of its entries in the order of its iterator, with one entry per key;
  the ids are keys only, so they are natural numbers. Floating-point positions are reals. A
  failing \<open>expect\<close> is \<open>None\<close>; \<open>Some (s, None)\<close> says that the event was taken, and
  \<open>Some (s, Some e)\<close> that it is left to other parts of the state.
\<close>

section \<open>Data\<close>

record ipc_workspace =
  iw_id :: nat
  iw_idx :: nat
  iw_name :: "string option"
  iw_output :: "string option"
  iw_is_urgent :: bool
  iw_is_active :: bool
  iw_is_focused :: bool
  iw_active_window_id :: "nat option"
  iw_is_hidden :: bool

record window_layout =
  wl_pos_in_scrolling_layout :: "(nat \<times> nat) option"
  wl_tile_size :: "real \<times> real"
  wl_window_size :: "int \<times> int"
  wl_tile_pos_in_workspace_view :: "(real \<times> real) option"
  wl_window_offset_in_tile :: "real \<times> real"

record timestamp =
  ts_secs :: nat
  ts_nanos :: nat

record ipc_window =
  iwin_id :: nat
  iwin_title :: "string option"
  iwin_app_id :: "string option"
  iwin_pid :: "int option"
  iwin_workspace_id :: "nat option"
  iwin_is_focused :: bool
  iwin_is_floating :: bool
  iwin_is_sticky :: bool
  iwin_is_urgent :: bool
  iwin_layout :: window_layout
  iwin_focus_timestamp :: "timestamp option"

record keyboard_layouts =
  kl_names :: "string list"
  kl_current_idx :: nat

datatype cast_kind = PipeWire | WlrScreencopy | ExtImageCopyCapture

datatype cast_target = CastNothing | CastOutput string | CastWindow nat

record ipc_cast =
  ic_stream_id :: nat
  ic_session_id :: nat
  ic_kind :: cast_kind
  ic_target :: cast_target
  ic_is_dynamic_target :: bool
  ic_is_active :: bool
  ic_pid :: "int option"
  ic_pw_node_id :: "nat option"

datatype event =
    WorkspacesChanged "ipc_workspace list"
  | WorkspaceUrgencyChanged nat bool
  | WorkspaceActivated nat bool
  | WorkspaceActiveWindowChanged nat "nat option"
  | WindowsChanged "ipc_window list"
  | WindowOpenedOrChanged ipc_window
  | WindowClosed nat
  | WindowFocusChanged "nat option"
  | WindowFocusTimestampChanged nat "timestamp option"
  | WindowUrgencyChanged nat bool
  | WindowLayoutsChanged "(nat \<times> window_layout) list"
  | KeyboardLayoutsChanged keyboard_layouts
  | KeyboardLayoutSwitched nat
  | OverviewOpenedOrClosed bool
  | ConfigLoaded bool
  | ScreenshotCaptured "string option"
  | CastsChanged "ipc_cast list"
  | CastStartedOrChanged ipc_cast
  | CastStopped nat
  | TouchpadToggled bool

section \<open>Hash maps\<close>

type_synonym 'v table = "(nat \<times> 'v) list"

definition table_ok :: "('v \<Rightarrow> nat) \<Rightarrow> 'v table \<Rightarrow> bool" where
  "table_ok key t \<longleftrightarrow> distinct (map fst t) \<and> (\<forall>(k, v) \<in> set t. key v = k)"

text \<open>\<open>into_iter().map(|x| (x.id, x)).collect()\<close>\<close>

definition collect_by :: "('v \<Rightarrow> nat) \<Rightarrow> 'v list \<Rightarrow> 'v table" where
  "collect_by key vs = fold (\<lambda>v. AList.update (key v) v) vs []"

definition map_values :: "('v \<Rightarrow> 'v) \<Rightarrow> 'v table \<Rightarrow> 'v table" where
  "map_values f = map (\<lambda>(k, v). (k, f v))"

text \<open>A loop over \<open>values_mut()\<close> that stops at the first value the condition holds of\<close>

fun update_first :: "('v \<Rightarrow> bool) \<Rightarrow> ('v \<Rightarrow> 'v) \<Rightarrow> 'v table \<Rightarrow> 'v table" where
  "update_first c f [] = []"
| "update_first c f ((k, v) # t) = (if c v then (k, f v) # t else (k, v) # update_first c f t)"

text \<open>\<open>get_mut(&id).expect(..)\<close> and an assignment\<close>

definition modify :: "nat \<Rightarrow> ('v \<Rightarrow> 'v) \<Rightarrow> 'v table \<Rightarrow> 'v table option" where
  "modify k f t = (case map_of t k of None \<Rightarrow> None | Some v \<Rightarrow> Some (AList.update k (f v) t))"

section \<open>The parts of the state\<close>

type_synonym 's applied = "('s \<times> event option) option"

definition replicate_workspaces :: "ipc_workspace table \<Rightarrow> event list" where
  "replicate_workspaces t = [WorkspacesChanged (map snd t)]"

definition activate_in :: "nat \<Rightarrow> string option \<Rightarrow> bool \<Rightarrow> ipc_workspace \<Rightarrow> ipc_workspace" where
  "activate_in i output focused ws =
     (let got_activated = (iw_id ws = i);
          ws = (if iw_output ws = output then ws\<lparr>iw_is_active := got_activated\<rparr> else ws)
      in if focused then ws\<lparr>iw_is_focused := got_activated\<rparr> else ws)"

fun apply_workspaces :: "event \<Rightarrow> ipc_workspace table \<Rightarrow> ipc_workspace table applied" where
  "apply_workspaces (WorkspacesChanged wss) t = Some (collect_by iw_id wss, None)"
| "apply_workspaces (WorkspaceUrgencyChanged i urgent) t =
     Some (map_values (\<lambda>ws. if iw_id ws = i then ws\<lparr>iw_is_urgent := urgent\<rparr> else ws) t, None)"
| "apply_workspaces (WorkspaceActivated i focused) t =
     (case map_of t i of
        None \<Rightarrow> None
      | Some ws \<Rightarrow> Some (map_values (activate_in i (iw_output ws) focused) t, None))"
| "apply_workspaces (WorkspaceActiveWindowChanged i w) t =
     map_option (\<lambda>t. (t, None)) (modify i (\<lambda>ws. ws\<lparr>iw_active_window_id := w\<rparr>) t)"
| "apply_workspaces e t = Some (t, Some e)"

definition replicate_windows :: "ipc_window table \<Rightarrow> event list" where
  "replicate_windows t = [WindowsChanged (map snd t)]"

fun apply_layout_changes :: "(nat \<times> window_layout) list \<Rightarrow> ipc_window table \<Rightarrow> ipc_window table option" where
  "apply_layout_changes [] t = Some t"
| "apply_layout_changes ((i, l) # changes) t =
     do { t \<leftarrow> modify i (\<lambda>w. w\<lparr>iwin_layout := l\<rparr>) t; apply_layout_changes changes t }"

fun apply_windows :: "event \<Rightarrow> ipc_window table \<Rightarrow> ipc_window table applied" where
  "apply_windows (WindowsChanged ws) t = Some (collect_by iwin_id ws, None)"
| "apply_windows (WindowOpenedOrChanged w) t =
     (let t = AList.update (iwin_id w) w t
      in Some (if iwin_is_focused w
           then map_values (\<lambda>v. if iwin_id v \<noteq> iwin_id w then v\<lparr>iwin_is_focused := False\<rparr> else v) t
           else t, None))"
| "apply_windows (WindowClosed i) t =
     (case map_of t i of None \<Rightarrow> None | Some _ \<Rightarrow> Some (AList.delete i t, None))"
| "apply_windows (WindowFocusChanged i) t =
     Some (map_values (\<lambda>v. v\<lparr>iwin_is_focused := (Some (iwin_id v) = i)\<rparr>) t, None)"
| "apply_windows (WindowFocusTimestampChanged i ts) t =
     Some (update_first (\<lambda>v. iwin_id v = i) (\<lambda>v. v\<lparr>iwin_focus_timestamp := ts\<rparr>) t, None)"
| "apply_windows (WindowUrgencyChanged i urgent) t =
     Some (update_first (\<lambda>v. iwin_id v = i) (\<lambda>v. v\<lparr>iwin_is_urgent := urgent\<rparr>) t, None)"
| "apply_windows (WindowLayoutsChanged changes) t =
     map_option (\<lambda>t. (t, None)) (apply_layout_changes changes t)"
| "apply_windows e t = Some (t, Some e)"

definition replicate_keyboard :: "keyboard_layouts option \<Rightarrow> event list" where
  "replicate_keyboard k = (case k of Some l \<Rightarrow> [KeyboardLayoutsChanged l] | None \<Rightarrow> [])"

fun apply_keyboard :: "event \<Rightarrow> keyboard_layouts option \<Rightarrow> keyboard_layouts option applied" where
  "apply_keyboard (KeyboardLayoutsChanged l) k = Some (Some l, None)"
| "apply_keyboard (KeyboardLayoutSwitched idx) k =
     (case k of None \<Rightarrow> None | Some l \<Rightarrow> Some (Some (l\<lparr>kl_current_idx := idx\<rparr>), None))"
| "apply_keyboard e k = Some (k, Some e)"

definition replicate_overview :: "bool \<Rightarrow> event list" where
  "replicate_overview is_open = [OverviewOpenedOrClosed is_open]"

fun apply_overview :: "event \<Rightarrow> bool \<Rightarrow> bool applied" where
  "apply_overview (OverviewOpenedOrClosed is_open) b = Some (is_open, None)"
| "apply_overview e b = Some (b, Some e)"

definition replicate_config :: "bool \<Rightarrow> event list" where
  "replicate_config failed = [ConfigLoaded failed]"

fun apply_config :: "event \<Rightarrow> bool \<Rightarrow> bool applied" where
  "apply_config (ConfigLoaded failed) b = Some (failed, None)"
| "apply_config e b = Some (b, Some e)"

definition replicate_casts :: "ipc_cast table \<Rightarrow> event list" where
  "replicate_casts t = [CastsChanged (map snd t)]"

fun apply_casts :: "event \<Rightarrow> ipc_cast table \<Rightarrow> ipc_cast table applied" where
  "apply_casts (CastsChanged cs) t = Some (collect_by ic_stream_id cs, None)"
| "apply_casts (CastStartedOrChanged c) t = Some (AList.update (ic_stream_id c) c t, None)"
| "apply_casts (CastStopped i) t =
     (case map_of t i of None \<Rightarrow> None | Some _ \<Rightarrow> Some (AList.delete i t, None))"
| "apply_casts e t = Some (t, Some e)"

definition replicate_touchpad :: "bool \<Rightarrow> event list" where
  "replicate_touchpad on = [TouchpadToggled on]"

fun apply_touchpad :: "event \<Rightarrow> bool \<Rightarrow> bool applied" where
  "apply_touchpad (TouchpadToggled on) b = Some (on, None)"
| "apply_touchpad e b = Some (b, Some e)"

section \<open>The whole state\<close>

record event_stream_state =
  es_workspaces :: "ipc_workspace table"
  es_windows :: "ipc_window table"
  es_keyboard_layouts :: "keyboard_layouts option"
  es_overview :: bool
  es_config :: bool
  es_casts :: "ipc_cast table"
  es_touchpad :: bool

definition event_stream_default :: event_stream_state where
  "event_stream_default = \<lparr>es_workspaces = [], es_windows = [], es_keyboard_layouts = None,
     es_overview = False, es_config = False, es_casts = [], es_touchpad = False\<rparr>"

definition replicate_all :: "event_stream_state \<Rightarrow> event list" where
  "replicate_all s =
     replicate_workspaces (es_workspaces s) @ replicate_windows (es_windows s) @
     replicate_keyboard (es_keyboard_layouts s) @ replicate_overview (es_overview s) @
     replicate_config (es_config s) @ replicate_casts (es_casts s) @ replicate_touchpad (es_touchpad s)"

text \<open>One line \<open>let event = part.apply(event)?;\<close>\<close>

definition then_apply ::
  "(event \<Rightarrow> 'p \<Rightarrow> 'p applied) \<Rightarrow> ('s \<Rightarrow> 'p) \<Rightarrow> ('p \<Rightarrow> 's \<Rightarrow> 's) \<Rightarrow> 's \<times> event option \<Rightarrow> 's applied" where
  "then_apply f get put r =
     (case r of
        (s, None) \<Rightarrow> Some (s, None)
      | (s, Some e) \<Rightarrow> map_option (\<lambda>(p, r). (put p s, r)) (f e (get s)))"

definition apply_all :: "event \<Rightarrow> event_stream_state \<Rightarrow> event_stream_state applied" where
  "apply_all e s =
     do {
       r \<leftarrow> then_apply apply_workspaces es_workspaces (\<lambda>p s. s\<lparr>es_workspaces := p\<rparr>) (s, Some e);
       r \<leftarrow> then_apply apply_windows es_windows (\<lambda>p s. s\<lparr>es_windows := p\<rparr>) r;
       r \<leftarrow> then_apply apply_keyboard es_keyboard_layouts (\<lambda>p s. s\<lparr>es_keyboard_layouts := p\<rparr>) r;
       r \<leftarrow> then_apply apply_overview es_overview (\<lambda>p s. s\<lparr>es_overview := p\<rparr>) r;
       r \<leftarrow> then_apply apply_config es_config (\<lambda>p s. s\<lparr>es_config := p\<rparr>) r;
       r \<leftarrow> then_apply apply_casts es_casts (\<lambda>p s. s\<lparr>es_casts := p\<rparr>) r;
       then_apply apply_touchpad es_touchpad (\<lambda>p s. s\<lparr>es_touchpad := p\<rparr>) r
     }"

text \<open>A client reads events one after the other\<close>

fun consume :: "(event \<Rightarrow> 's \<Rightarrow> 's applied) \<Rightarrow> event list \<Rightarrow> 's \<Rightarrow> 's option" where
  "consume f [] s = Some s"
| "consume f (e # es) s = (case f e s of None \<Rightarrow> None | Some (s, _) \<Rightarrow> consume f es s)"

section \<open>Tables\<close>

lemma table_ok_alt:
  "table_ok key t \<longleftrightarrow> distinct (map fst t) \<and> (\<forall>k v. map_of t k = Some v \<longrightarrow> key v = k)"
  by (auto simp: table_ok_def dest: map_of_SomeD)

lemma keys_map_values [simp]: "map fst (map_values f t) = map fst t"
  by (induction t) (auto simp: map_values_def)

lemma map_of_map_values: "map_of (map_values f t) = map_option f \<circ> map_of t"
  by (induction t) (auto simp: map_values_def)

lemma table_ok_map_values: "table_ok key t \<Longrightarrow> (\<And>v. key (f v) = key v) \<Longrightarrow> table_ok key (map_values f t)"
  by (auto simp: table_ok_def map_values_def comp_def case_prod_beta)

lemma table_ok_update: "table_ok key t \<Longrightarrow> key v = k \<Longrightarrow> table_ok key (AList.update k v t)"
  by (auto simp: table_ok_alt AList.distinct_update AList.update_conv')

lemma table_ok_delete: "table_ok key t \<Longrightarrow> table_ok key (AList.delete k t)"
  by (auto simp: table_ok_alt AList.distinct_delete AList.delete_conv')

lemma table_ok_key: "table_ok key t \<Longrightarrow> map_of t k = Some v \<Longrightarrow> key v = k"
  by (auto simp: table_ok_def dest: map_of_SomeD)

lemma table_ok_modify:
  "table_ok key t \<Longrightarrow> modify k f t = Some t' \<Longrightarrow> (\<And>v. key (f v) = key v) \<Longrightarrow> table_ok key t'"
  by (auto simp: modify_def table_ok_key intro!: table_ok_update split: option.splits)

lemma map_of_modify: "modify k f t = Some t' \<Longrightarrow> map_of t' = (map_of t)(k := map_option f (map_of t k))"
  by (auto simp: modify_def AList.update_conv' split: option.splits)

lemma update_first_id: "(\<And>v. \<not> c v) \<Longrightarrow> update_first c f t = t"
  by (induction t) auto

lemma keys_update_first [simp]: "map fst (update_first c f t) = map fst t"
  by (induction t) auto

lemma update_first_none: "\<forall>(k, v) \<in> set t. \<not> c v \<Longrightarrow> update_first c f t = t"
  by (induction t) auto

text \<open>When every value sits under its own key, stopping at the first match updates all matches\<close>

lemma update_first_key:
  assumes "table_ok key t"
  shows "update_first (\<lambda>v. key v = i) f t = map_values (\<lambda>v. if key v = i then f v else v) t"
  using assms
proof (induction t)
  case (Cons kv t)
  obtain k v where kv: "kv = (k, v)" by (cases kv)
  from Cons.prems have ok: "table_ok key t" "key v = k" and "k \<notin> fst ` set t"
    by (auto simp: kv table_ok_def)
  then have "\<forall>(k', v') \<in> set t. key v' \<noteq> k" by (force simp: table_ok_def)
  then have "key v = i \<Longrightarrow> map_values (\<lambda>v. if key v = i then f v else v) t = t"
    using ok(2) by (induction t) (auto simp: map_values_def)
  with Cons.IH [OF ok(1)] show ?case by (simp add: kv map_values_def)
qed (simp add: map_values_def)

lemma table_ok_update_first:
  "table_ok key t \<Longrightarrow> (\<And>v. key (f v) = key v) \<Longrightarrow> table_ok key (update_first c f t)"
proof (induction t)
  case (Cons kv t)
  obtain k v where kv: "kv = (k, v)" by (cases kv)
  have "fst ` set (update_first c f t) = fst ` set t"
    by (metis keys_update_first list.set_map)
  moreover have "table_ok key t" using Cons.prems(1) by (simp add: kv table_ok_def)
  ultimately show ?case using Cons by (auto simp: kv table_ok_def)
qed (simp add: table_ok_def)

lemma collect_fold:
  "map_of (fold (\<lambda>v. AList.update (key v) v) vs t) = map_of t ++ map_of (rev (map (\<lambda>v. (key v, v)) vs))"
  by (induction vs arbitrary: t) (simp_all add: AList.update_conv' map_add_assoc flip: fun_upd_apply)

lemma table_ok_collect: "table_ok key (collect_by key vs)"
proof -
  have "table_ok key (fold (\<lambda>v. AList.update (key v) v) vs t)" if "table_ok key t" for t
    using that by (induction vs arbitrary: t) (simp_all add: table_ok_update)
  from this [of "[]"] show ?thesis by (simp add: collect_by_def table_ok_def)
qed

lemma map_of_collect:
  fixes key :: "'b \<Rightarrow> nat"
  assumes "distinct (map key vs)"
  shows "map_of (collect_by key vs) = map_of (map (\<lambda>v. (key v, v)) vs)"
proof -
  have "map_of (rev xs) = map_of xs" if "distinct (map fst xs)" for xs :: "(nat \<times> 'b) list"
    using that by (intro ext) (metis distinct_rev map_of_eq_Some_iff not_Some_eq rev_map set_rev)
  from this [of "map (\<lambda>v. (key v, v)) vs"] show ?thesis
    using assms by (simp add: collect_by_def collect_fold comp_def)
qed

lemma collect_table:
  assumes "table_ok key t"
  shows "map_of (collect_by key (map snd t)) = map_of t"
proof -
  have "map (\<lambda>v. (key v, v)) (map snd t) = t" "map key (map snd t) = map fst t"
    using assms by (auto simp: table_ok_def intro!: map_idI)
  moreover have "distinct (map fst t)" using assms by (simp add: table_ok_def)
  ultimately show ?thesis using map_of_collect [of key "map snd t"] by (simp del: map_map)
qed

section \<open>The contract of a part\<close>

text \<open>
  \<open>EventStreamStatePart\<close> as an interface: which events a part handles, that it hands every
  other one back and stays as it is, and that its own events rebuild it from the default.
  \<open>view\<close> forgets the order in which a hash map happens to iterate.
\<close>

locale state_part =
  fixes apply_part :: "event \<Rightarrow> 's \<Rightarrow> 's applied"
    and replicate_part :: "'s \<Rightarrow> event list"
    and initial :: 's
    and ok :: "'s \<Rightarrow> bool"
    and view :: "'s \<Rightarrow> 'v"
    and handles :: "event \<Rightarrow> bool"
  assumes passes: "\<not> handles e \<Longrightarrow> apply_part e s = Some (s, Some e)"
    and takes: "handles e \<Longrightarrow> apply_part e s = Some (s', r) \<Longrightarrow> r = None"
    and own: "e \<in> set (replicate_part s) \<Longrightarrow> handles e"
    and restores: "ok s \<Longrightarrow> returns (consume apply_part (replicate_part s) initial) (\<lambda>s'. ok s' \<and> view s' = view s)"
    and stays_ok: "ok s \<Longrightarrow> apply_part e s = Some (s', r) \<Longrightarrow> ok s'"
begin

lemma foreign_events: "\<forall>e \<in> set es. \<not> handles e \<Longrightarrow> consume apply_part es s = Some s"
  by (induction es arbitrary: s) (simp_all add: passes)

lemma consume_app: "consume apply_part (es @ fs) s = Option.bind (consume apply_part es s) (consume apply_part fs)"
  by (induction es arbitrary: s) (auto split: option.splits)

lemma own_among_foreign:
  assumes "\<forall>e \<in> set before. \<not> handles e" "\<forall>e \<in> set behind. \<not> handles e" "ok s"
  shows "returns (consume apply_part (before @ replicate_part s @ behind) initial) (\<lambda>s'. ok s' \<and> view s' = view s)"
  using restores [OF assms(3)] foreign_events [OF assms(1)] foreign_events [OF assms(2)]
  by (auto simp: consume_app elim!: returnsE)

lemma consume_ok: "ok s \<Longrightarrow> consume apply_part es s = Some s' \<Longrightarrow> ok s'"
  by (induction es arbitrary: s) (auto split: option.splits dest: stays_ok)

lemma handled_or_passed: "apply_part e s = Some (s', r) \<Longrightarrow> r = (if handles e then None else Some e)"
  using passes [of e s] takes [of e s s' r] by auto

end

fun handles_workspaces :: "event \<Rightarrow> bool" where
  "handles_workspaces (WorkspacesChanged _) = True"
| "handles_workspaces (WorkspaceUrgencyChanged _ _) = True"
| "handles_workspaces (WorkspaceActivated _ _) = True"
| "handles_workspaces (WorkspaceActiveWindowChanged _ _) = True"
| "handles_workspaces _ = False"

fun handles_windows :: "event \<Rightarrow> bool" where
  "handles_windows (WindowsChanged _) = True"
| "handles_windows (WindowOpenedOrChanged _) = True"
| "handles_windows (WindowClosed _) = True"
| "handles_windows (WindowFocusChanged _) = True"
| "handles_windows (WindowFocusTimestampChanged _ _) = True"
| "handles_windows (WindowUrgencyChanged _ _) = True"
| "handles_windows (WindowLayoutsChanged _) = True"
| "handles_windows _ = False"

fun handles_keyboard :: "event \<Rightarrow> bool" where
  "handles_keyboard (KeyboardLayoutsChanged _) = True"
| "handles_keyboard (KeyboardLayoutSwitched _) = True"
| "handles_keyboard _ = False"

fun handles_casts :: "event \<Rightarrow> bool" where
  "handles_casts (CastsChanged _) = True"
| "handles_casts (CastStartedOrChanged _) = True"
| "handles_casts (CastStopped _) = True"
| "handles_casts _ = False"

fun handles_overview :: "event \<Rightarrow> bool" where
  "handles_overview (OverviewOpenedOrClosed _) = True"
| "handles_overview _ = False"

fun handles_config :: "event \<Rightarrow> bool" where
  "handles_config (ConfigLoaded _) = True"
| "handles_config _ = False"

fun handles_touchpad :: "event \<Rightarrow> bool" where
  "handles_touchpad (TouchpadToggled _) = True"
| "handles_touchpad _ = False"

lemma activate_in_id [simp]: "iw_id (activate_in i out f ws) = iw_id ws"
  by (simp add: activate_in_def Let_def)

lemma layout_changes_ok: "table_ok iwin_id t \<Longrightarrow> apply_layout_changes cs t = Some t' \<Longrightarrow> table_ok iwin_id t'"
proof (induction cs arbitrary: t)
  case (Cons c cs)
  obtain i l where c: "c = (i, l)" by (cases c)
  with Cons.prems obtain t1 where t1: "modify i (\<lambda>w. w\<lparr>iwin_layout := l\<rparr>) t = Some t1" "apply_layout_changes cs t1 = Some t'"
    by (auto simp: bind_eq_Some_conv)
  have "table_ok iwin_id t1" by (rule table_ok_modify [OF Cons.prems(1) t1(1)]) simp
  from Cons.IH [OF this t1(2)] show ?case .
qed simp

lemma windows_stay_ok:
  assumes "table_ok iwin_id s" "apply_windows e s = Some (s', r)"
  shows "table_ok iwin_id s'"
proof (cases e)
  case (WindowOpenedOrChanged w)
  have "table_ok iwin_id (AList.update (iwin_id w) w s)" using assms(1) by (rule table_ok_update) simp
  moreover from this have "table_ok iwin_id (map_values (\<lambda>v. if iwin_id v \<noteq> iwin_id w then v\<lparr>iwin_is_focused := False\<rparr> else v)
      (AList.update (iwin_id w) w s))" by (rule table_ok_map_values) simp
  ultimately show ?thesis using assms(2) WindowOpenedOrChanged by (simp add: Let_def split: if_splits)
next
  case (WindowLayoutsChanged cs)
  with assms layout_changes_ok [OF assms(1), of cs] show ?thesis by auto
next
  case (WindowClosed i)
  with assms table_ok_delete [OF assms(1), of i] show ?thesis by (simp split: option.splits)
next
  case (WindowFocusChanged i)
  with assms table_ok_map_values [OF assms(1)] show ?thesis by auto
next
  case (WindowFocusTimestampChanged i ts)
  with assms table_ok_update_first [OF assms(1)] show ?thesis by auto
next
  case (WindowUrgencyChanged i u)
  with assms table_ok_update_first [OF assms(1)] show ?thesis by auto
next
  case (WindowsChanged ws)
  with assms show ?thesis using table_ok_collect [of iwin_id ws] by auto
qed (use assms in simp_all)

interpretation workspaces_part: state_part apply_workspaces replicate_workspaces "[]" "table_ok iw_id" map_of handles_workspaces
proof
  fix e :: event and s s' r
  show "\<not> handles_workspaces e \<Longrightarrow> apply_workspaces e s = Some (s, Some e)" by (cases e) simp_all
  show "handles_workspaces e \<Longrightarrow> apply_workspaces e s = Some (s', r) \<Longrightarrow> r = None"
    by (cases e) (auto split: option.splits)
  show "e \<in> set (replicate_workspaces s) \<Longrightarrow> handles_workspaces e" by (auto simp: replicate_workspaces_def)
  show "table_ok iw_id s \<Longrightarrow> returns (consume apply_workspaces (replicate_workspaces s) []) (\<lambda>s'. table_ok iw_id s' \<and> map_of s' = map_of s)"
    by (simp add: replicate_workspaces_def table_ok_collect collect_table)
  show "table_ok iw_id s \<Longrightarrow> apply_workspaces e s = Some (s', r) \<Longrightarrow> table_ok iw_id s'"
    by (cases e) (auto simp: table_ok_collect intro!: table_ok_map_values split: option.splits dest: table_ok_modify)
qed

interpretation windows_part: state_part apply_windows replicate_windows "[]" "table_ok iwin_id" map_of handles_windows
proof
  fix e :: event and s s' r
  show "\<not> handles_windows e \<Longrightarrow> apply_windows e s = Some (s, Some e)" by (cases e) simp_all
  show "handles_windows e \<Longrightarrow> apply_windows e s = Some (s', r) \<Longrightarrow> r = None"
    by (cases e) (auto simp: Let_def split: option.splits)
  show "e \<in> set (replicate_windows s) \<Longrightarrow> handles_windows e" by (auto simp: replicate_windows_def)
  show "table_ok iwin_id s \<Longrightarrow> returns (consume apply_windows (replicate_windows s) []) (\<lambda>s'. table_ok iwin_id s' \<and> map_of s' = map_of s)"
    by (simp add: replicate_windows_def table_ok_collect collect_table)
  show "table_ok iwin_id s \<Longrightarrow> apply_windows e s = Some (s', r) \<Longrightarrow> table_ok iwin_id s'"
    by (rule windows_stay_ok)
qed

interpretation casts_part: state_part apply_casts replicate_casts "[]" "table_ok ic_stream_id" map_of handles_casts
proof
  fix e :: event and s s' r
  show "\<not> handles_casts e \<Longrightarrow> apply_casts e s = Some (s, Some e)" by (cases e) simp_all
  show "handles_casts e \<Longrightarrow> apply_casts e s = Some (s', r) \<Longrightarrow> r = None"
    by (cases e) (auto split: option.splits)
  show "e \<in> set (replicate_casts s) \<Longrightarrow> handles_casts e" by (auto simp: replicate_casts_def)
  show "table_ok ic_stream_id s \<Longrightarrow> returns (consume apply_casts (replicate_casts s) []) (\<lambda>s'. table_ok ic_stream_id s' \<and> map_of s' = map_of s)"
    by (simp add: replicate_casts_def table_ok_collect collect_table)
  show "table_ok ic_stream_id s \<Longrightarrow> apply_casts e s = Some (s', r) \<Longrightarrow> table_ok ic_stream_id s'"
    by (cases e) (auto simp: table_ok_collect intro!: table_ok_update table_ok_delete split: option.splits)
qed

interpretation keyboard_part: state_part apply_keyboard replicate_keyboard None "\<lambda>_. True" "\<lambda>k. k" handles_keyboard
proof
  fix e :: event and s s' r
  show "\<not> handles_keyboard e \<Longrightarrow> apply_keyboard e s = Some (s, Some e)" by (cases e) simp_all
  show "handles_keyboard e \<Longrightarrow> apply_keyboard e s = Some (s', r) \<Longrightarrow> r = None"
    by (cases e) (auto split: option.splits)
  show "e \<in> set (replicate_keyboard s) \<Longrightarrow> handles_keyboard e" by (auto simp: replicate_keyboard_def split: option.splits)
  show "returns (consume apply_keyboard (replicate_keyboard s) None) (\<lambda>s'. True \<and> s' = s)"
    by (simp add: replicate_keyboard_def split: option.splits)
qed simp_all

interpretation overview_part: state_part apply_overview replicate_overview False "\<lambda>_. True" "\<lambda>b. b" handles_overview
proof
  fix e :: event and s s' r
  show "\<not> handles_overview e \<Longrightarrow> apply_overview e s = Some (s, Some e)" by (cases e) simp_all
  show "handles_overview e \<Longrightarrow> apply_overview e s = Some (s', r) \<Longrightarrow> r = None" by (cases e) auto
qed (auto simp: replicate_overview_def)

interpretation config_part: state_part apply_config replicate_config False "\<lambda>_. True" "\<lambda>b. b" handles_config
proof
  fix e :: event and s s' r
  show "\<not> handles_config e \<Longrightarrow> apply_config e s = Some (s, Some e)" by (cases e) simp_all
  show "handles_config e \<Longrightarrow> apply_config e s = Some (s', r) \<Longrightarrow> r = None" by (cases e) auto
qed (auto simp: replicate_config_def)

interpretation touchpad_part: state_part apply_touchpad replicate_touchpad False "\<lambda>_. True" "\<lambda>b. b" handles_touchpad
proof
  fix e :: event and s s' r
  show "\<not> handles_touchpad e \<Longrightarrow> apply_touchpad e s = Some (s, Some e)" by (cases e) simp_all
  show "handles_touchpad e \<Longrightarrow> apply_touchpad e s = Some (s', r) \<Longrightarrow> r = None" by (cases e) auto
qed (auto simp: replicate_touchpad_def)

section \<open>The whole state runs as its parts do\<close>

definition in_parts :: "event list \<Rightarrow> event_stream_state \<Rightarrow> event_stream_state option" where
  "in_parts es s =
     do {
       ws \<leftarrow> consume apply_workspaces es (es_workspaces s);
       wins \<leftarrow> consume apply_windows es (es_windows s);
       kb \<leftarrow> consume apply_keyboard es (es_keyboard_layouts s);
       ov \<leftarrow> consume apply_overview es (es_overview s);
       cf \<leftarrow> consume apply_config es (es_config s);
       cs \<leftarrow> consume apply_casts es (es_casts s);
       tp \<leftarrow> consume apply_touchpad es (es_touchpad s);
       Some \<lparr>es_workspaces = ws, es_windows = wins, es_keyboard_layouts = kb, es_overview = ov,
             es_config = cf, es_casts = cs, es_touchpad = tp\<rparr>
     }"

lemma then_apply_simps [simp]:
  "then_apply f get put (s, None) = Some (s, None)"
  "then_apply f get put (s, Some e) = map_option (\<lambda>(p, r). (put p s, r)) (f e (get s))"
  by (simp_all add: then_apply_def)

lemma apply_all_in_parts: "map_option fst (apply_all e s) = in_parts [e] s"
  by (cases s; cases e)
    (simp_all add: apply_all_def in_parts_def option.map_comp Let_def map_option_bind comp_def split: option.splits)

lemma in_parts_Cons: "in_parts (e # es) s = Option.bind (in_parts [e] s) (in_parts es)"
  by (simp add: in_parts_def split: option.splits prod.splits)

lemma consume_all_in_parts: "consume apply_all es s = in_parts es s"
proof (induction es arbitrary: s)
  case Nil
  show ?case by (simp add: in_parts_def)
next
  case (Cons e es)
  have "consume apply_all (e # es) s = Option.bind (map_option fst (apply_all e s)) (consume apply_all es)"
    by (auto split: option.splits)
  also have "\<dots> = in_parts (e # es) s"
    unfolding apply_all_in_parts in_parts_Cons [of e es] Cons.IH [abs_def] ..
  finally show ?case .
qed

end
