(* ===== verification/IpcRefresh.thy ===== *)
theory IpcRefresh
  imports EventStream
begin

text \<open>
  The refresh of the IPC server (\<open>src/ipc/server.rs\<close>): it compares the layout with the state
  it last reported, sends the events that tell clients what changed, and applies them to its
  own copy of the state.
\<close>

section \<open>What the refresh reads of the layout\<close>

text \<open>
  One workspace of \<open>Layout::workspaces\<close>: its monitor's output name and active index, its index
  in the vector of the monitor, and its own fields
\<close>

record seen_workspace =
  sw_output :: "string option"
  sw_mon_active_idx :: "nat option"
  sw_ws_idx :: nat
  sw_id :: nat
  sw_name :: "string option"
  sw_hidden :: bool
  sw_urgent :: bool
  sw_active_window :: "nat option"

definition u8_index :: "nat \<Rightarrow> nat" where
  "u8_index i = (if i + 1 \<le> 255 then i + 1 else 255)"

definition sw_active :: "seen_workspace \<Rightarrow> bool" where
  "sw_active ws \<longleftrightarrow> sw_mon_active_idx ws = Some (sw_ws_idx ws)"

text \<open>The visible index starts again at every new output name\<close>

definition visible_place :: "seen_workspace \<Rightarrow> string option \<times> nat \<Rightarrow> string option \<times> nat" where
  "visible_place ws place = (if fst place \<noteq> sw_output ws then (sw_output ws, 0) else place)"

section \<open>Workspaces\<close>

definition workspace_changes :: "nat option \<Rightarrow> ipc_workspace \<Rightarrow> seen_workspace \<Rightarrow> event list" where
  "workspace_changes focused known ws =
     (if iw_active_window_id known \<noteq> sw_active_window ws
      then [WorkspaceActiveWindowChanged (sw_id ws) (sw_active_window ws)] else []) @
     (if sw_urgent ws \<noteq> iw_is_urgent known then [WorkspaceUrgencyChanged (sw_id ws) (sw_urgent ws)] else []) @
     (if Some (sw_id ws) = focused \<and> \<not> iw_is_focused known then [WorkspaceActivated (sw_id ws) True]
      else if sw_active ws \<and> \<not> iw_is_active known then [WorkspaceActivated (sw_id ws) False] else [])"

text \<open>
  The loop of \<open>ipc_refresh_workspaces\<close>: whether the whole list has to be sent, the ids seen and
  the events
\<close>

fun scan_workspaces ::
  "ipc_workspace table \<Rightarrow> nat option \<Rightarrow> seen_workspace list \<Rightarrow> string option \<times> nat \<Rightarrow> nat list \<Rightarrow> event list
     \<Rightarrow> bool \<times> nat list \<times> event list" where
  "scan_workspaces t focused [] place seen events = (False, seen, events)"
| "scan_workspaces t focused (ws # wss) place seen events =
     (let seen = sw_id ws # seen
      in if sw_hidden ws then scan_workspaces t focused wss place seen events
         else let place = visible_place ws place
         in case map_of t (sw_id ws) of
              None \<Rightarrow> (True, seen, events)
            | Some known \<Rightarrow>
                if iw_idx known \<noteq> u8_index (snd place) \<or> iw_name known \<noteq> sw_name ws \<or> iw_output known \<noteq> sw_output ws
                then (True, seen, events)
                else scan_workspaces t focused wss (fst place, snd place + 1) seen
                       (events @ workspace_changes focused known ws))"

fun report_workspaces :: "nat option \<Rightarrow> seen_workspace list \<Rightarrow> string option \<times> nat \<Rightarrow> ipc_workspace list" where
  "report_workspaces focused [] place = []"
| "report_workspaces focused (ws # wss) place =
     (if sw_hidden ws then report_workspaces focused wss place
      else let place = visible_place ws place
      in \<lparr>iw_id = sw_id ws, iw_idx = u8_index (snd place), iw_name = sw_name ws, iw_output = sw_output ws,
          iw_is_urgent = sw_urgent ws, iw_is_active = sw_active ws,
          iw_is_focused = (Some (sw_id ws) = focused), iw_active_window_id = sw_active_window ws,
          iw_is_hidden = False\<rparr> # report_workspaces focused wss (fst place, snd place + 1))"

definition needs_all_workspaces :: "ipc_workspace table \<Rightarrow> nat option \<Rightarrow> seen_workspace list \<Rightarrow> bool" where
  "needs_all_workspaces t focused wss =
     (let (need, seen, _) = scan_workspaces t focused wss (None, 0) [] []
      in need \<or> list_ex (\<lambda>(i, ws). i \<notin> set seen \<and> \<not> iw_is_hidden ws) t)"

definition workspace_events :: "ipc_workspace table \<Rightarrow> nat option \<Rightarrow> seen_workspace list \<Rightarrow> event list" where
  "workspace_events t focused wss =
     (if needs_all_workspaces t focused wss then [WorkspacesChanged (report_workspaces focused wss (None, 0))]
      else snd (snd (scan_workspaces t focused wss (None, 0) [] [])))"

definition hidden_workspace :: "seen_workspace \<Rightarrow> ipc_workspace" where
  "hidden_workspace ws =
     \<lparr>iw_id = sw_id ws, iw_idx = u8_index (sw_ws_idx ws), iw_name = sw_name ws, iw_output = sw_output ws,
      iw_is_urgent = sw_urgent ws, iw_is_active = False, iw_is_focused = False,
      iw_active_window_id = sw_active_window ws, iw_is_hidden = True\<rparr>"

text \<open>The events that are sent, and the state the server keeps\<close>

definition ipc_refresh_workspaces ::
  "nat option \<Rightarrow> seen_workspace list \<Rightarrow> ipc_workspace table \<Rightarrow> (event list \<times> ipc_workspace table) option" where
  "ipc_refresh_workspaces focused wss t =
     do {
       let events = workspace_events t focused wss;
       t \<leftarrow> consume apply_workspaces events t;
       Some (events, fold (\<lambda>ws. AList.update (sw_id ws) (hidden_workspace ws)) (filter sw_hidden wss) t)
     }"

section \<open>Windows\<close>

text \<open>\<open>with_windows\<close> yields the windows in the form that \<open>make_ipc_window\<close> gives them\<close>

definition window_reopened :: "ipc_window \<Rightarrow> ipc_window \<Rightarrow> bool" where
  "window_reopened known w \<longleftrightarrow>
     iwin_workspace_id known \<noteq> iwin_workspace_id w \<or> iwin_is_floating known \<noteq> iwin_is_floating w \<or>
     iwin_is_sticky known \<noteq> iwin_is_sticky w \<or> iwin_title known \<noteq> iwin_title w \<or> iwin_app_id known \<noteq> iwin_app_id w"

definition window_changes :: "ipc_window table \<Rightarrow> ipc_window \<Rightarrow> event list" where
  "window_changes t w =
     (case map_of t (iwin_id w) of
        None \<Rightarrow> [WindowOpenedOrChanged w]
      | Some known \<Rightarrow>
          if window_reopened known w then [WindowOpenedOrChanged w]
          else (if iwin_is_focused w \<and> \<not> iwin_is_focused known then [WindowFocusChanged (Some (iwin_id w))] else []) @
               (if iwin_focus_timestamp w \<noteq> iwin_focus_timestamp known
                then [WindowFocusTimestampChanged (iwin_id w) (iwin_focus_timestamp w)] else []) @
               (if iwin_is_urgent w \<noteq> iwin_is_urgent known
                then [WindowUrgencyChanged (iwin_id w) (iwin_is_urgent w)] else []))"

definition layout_changes :: "ipc_window table \<Rightarrow> ipc_window list \<Rightarrow> (nat \<times> window_layout) list" where
  "layout_changes t ws =
     concat (map (\<lambda>w. case map_of t (iwin_id w) of
         None \<Rightarrow> []
       | Some known \<Rightarrow> if \<not> window_reopened known w \<and> iwin_layout known \<noteq> iwin_layout w
                      then [(iwin_id w, iwin_layout w)] else []) ws)"

definition window_events :: "ipc_window table \<Rightarrow> ipc_window list \<Rightarrow> event list" where
  "window_events t ws =
     concat (map (window_changes t) ws) @
     (if layout_changes t ws \<noteq> [] then [WindowLayoutsChanged (layout_changes t ws)] else []) @
     map WindowClosed (filter (\<lambda>i. i \<notin> set (map iwin_id ws)) (map fst t)) @
     (if \<not> list_ex iwin_is_focused ws \<and> list_ex (iwin_is_focused \<circ> snd) t then [WindowFocusChanged None] else [])"

definition ipc_refresh_windows ::
  "ipc_window list \<Rightarrow> ipc_window table \<Rightarrow> (event list \<times> ipc_window table) option" where
  "ipc_refresh_windows ws t =
     do {
       let events = window_events t ws;
       t \<leftarrow> consume apply_windows events t;
       Some (events, t)
     }"

section \<open>Overview and keyboard\<close>

definition ipc_refresh_overview :: "bool \<Rightarrow> bool \<Rightarrow> (event list \<times> bool) option" where
  "ipc_refresh_overview is_open known =
     (if known = is_open then Some ([], known)
      else map_option (\<lambda>s. ([OverviewOpenedOrClosed is_open], s)) (consume apply_overview [OverviewOpenedOrClosed is_open] known))"

definition ipc_refresh_keyboard_layout_index ::
  "nat \<Rightarrow> keyboard_layouts option \<Rightarrow> (event list \<times> keyboard_layouts option) option" where
  "ipc_refresh_keyboard_layout_index idx known =
     do {
       kb \<leftarrow> known;
       if kl_current_idx kb = idx then Some ([], known)
       else map_option (\<lambda>s. ([KeyboardLayoutSwitched idx], s)) (consume apply_keyboard [KeyboardLayoutSwitched idx] known)
     }"

section \<open>Folding changes\<close>

text \<open>A field that every step either leaves or sets to the same value\<close>

lemma fold_settles:
  assumes "\<And>e x. e \<in> set es \<Longrightarrow> keep x \<Longrightarrow> keep (g e x) \<and> f (g e x) = (if sets e then v else f x)" "keep x"
  shows "f (fold g es x) = (if \<exists>e \<in> set es. sets e then v else f x) \<and> keep (fold g es x)"
  using assms
proof (induction es arbitrary: x)
  case (Cons e es)
  from Cons.prems(1) [of e x] Cons.prems(2) have s: "keep (g e x)" "f (g e x) = (if sets e then v else f x)" by simp_all
  have "f (fold g es (g e x)) = (if \<exists>e \<in> set es. sets e then v else f (g e x)) \<and> keep (fold g es (g e x))"
    by (rule Cons.IH) (use Cons.prems(1) s(1) in auto)
  with s(2) show ?case by auto
qed simp

section \<open>Windows, one id at a time\<close>

fun key_step :: "event \<Rightarrow> nat \<Rightarrow> ipc_window option \<Rightarrow> ipc_window option" where
  "key_step (WindowOpenedOrChanged w) k v =
     (if k = iwin_id w then Some w else if iwin_is_focused w then map_option (\<lambda>v. v\<lparr>iwin_is_focused := False\<rparr>) v else v)"
| "key_step (WindowClosed i) k v = (if k = i then None else v)"
| "key_step (WindowFocusChanged i) k v = map_option (\<lambda>v. v\<lparr>iwin_is_focused := (Some k = i)\<rparr>) v"
| "key_step (WindowFocusTimestampChanged i ts) k v =
     (if k = i then map_option (\<lambda>v. v\<lparr>iwin_focus_timestamp := ts\<rparr>) v else v)"
| "key_step (WindowUrgencyChanged i u) k v = (if k = i then map_option (\<lambda>v. v\<lparr>iwin_is_urgent := u\<rparr>) v else v)"
| "key_step (WindowLayoutsChanged cs) k v =
     (case map_of cs k of None \<Rightarrow> v | Some l \<Rightarrow> map_option (\<lambda>v. v\<lparr>iwin_layout := l\<rparr>) v)"
| "key_step e k v = v"

fun stepwise :: "event \<Rightarrow> bool" where
  "stepwise (WindowsChanged _) = False"
| "stepwise (WindowLayoutsChanged cs) = distinct (map fst cs)"
| "stepwise _ = True"

lemma layout_changes_map:
  assumes "apply_layout_changes cs t = Some t'" "distinct (map fst cs)"
  shows "map_of t' k = (case map_of cs k of None \<Rightarrow> map_of t k | Some l \<Rightarrow> map_option (\<lambda>v. v\<lparr>iwin_layout := l\<rparr>) (map_of t k))"
  using assms
proof (induction cs arbitrary: t)
  case (Cons c cs)
  obtain i l where c: "c = (i, l)" by (cases c)
  with Cons.prems(1) obtain t1 where t1: "modify i (\<lambda>w. w\<lparr>iwin_layout := l\<rparr>) t = Some t1" "apply_layout_changes cs t1 = Some t'"
    by (auto simp: bind_eq_Some_conv)
  have "map_of cs i = None" using Cons.prems(2) by (simp add: c map_of_eq_None_iff)
  with Cons.IH [OF t1(2)] Cons.prems(2) map_of_modify [OF t1(1)] show ?case
    by (auto simp: c split: option.splits)
qed simp

lemma map_of_if: "map_of (if b then map_values f T else T) k = (if b then map_option f (map_of T k) else map_of T k)"
  by (simp add: map_of_map_values)

lemma opened_key:
  assumes "table_ok iwin_id t"
  shows "map_of (if iwin_is_focused w
            then map_values (\<lambda>v. if iwin_id v \<noteq> iwin_id w then v\<lparr>iwin_is_focused := False\<rparr> else v) (AList.update (iwin_id w) w t)
            else AList.update (iwin_id w) w t) k = key_step (WindowOpenedOrChanged w) k (map_of t k)"
proof (cases "k = iwin_id w")
  case True
  then show ?thesis unfolding map_of_if AList.update_conv' by simp
next
  case False
  then show ?thesis unfolding map_of_if AList.update_conv'
    using table_ok_key [OF assms, of k] by (cases "map_of t k") simp_all
qed

lemma apply_windows_key:
  assumes ok: "table_ok iwin_id t" and run: "apply_windows e t = Some (t', r)" and st: "stepwise e"
  shows "map_of t' k = key_step e k (map_of t k)"
proof (cases e)
  case (WindowOpenedOrChanged w)
  with run show ?thesis
    using opened_key [OF ok, of w k] by (simp add: Let_def)
next
  case (WindowFocusChanged i)
  have "map_option (\<lambda>v. v\<lparr>iwin_is_focused := (Some (iwin_id v) = i)\<rparr>) (map_of t k) =
      map_option (\<lambda>v. v\<lparr>iwin_is_focused := (Some k = i)\<rparr>) (map_of t k)"
    using table_ok_key [OF ok, of k] by (cases "map_of t k") simp_all
  with run WindowFocusChanged show ?thesis by (auto simp: map_of_map_values)
next
  case (WindowFocusTimestampChanged i ts)
  with run show ?thesis using table_ok_key [OF ok, of k]
    by (cases "map_of t k") (auto simp: update_first_key [OF ok] map_of_map_values)
next
  case (WindowUrgencyChanged i u)
  with run show ?thesis using table_ok_key [OF ok, of k]
    by (cases "map_of t k") (auto simp: update_first_key [OF ok] map_of_map_values)
next
  case (WindowLayoutsChanged cs)
  with run st layout_changes_map [of cs t t' k] show ?thesis by auto
qed (use run st in \<open>auto simp: AList.delete_conv' split: option.splits\<close>)

lemma consume_windows_key:
  assumes "table_ok iwin_id t" "consume apply_windows es t = Some t'" "\<forall>e \<in> set es. stepwise e"
  shows "map_of t' k = fold (\<lambda>e. key_step e k) es (map_of t k)"
  using assms
proof (induction es arbitrary: t)
  case (Cons e es)
  then obtain t1 r where t1: "apply_windows e t = Some (t1, r)" "consume apply_windows es t1 = Some t'"
    by (auto split: option.splits)
  from Cons.IH [OF windows_stay_ok [OF Cons.prems(1) t1(1)] t1(2)] apply_windows_key [OF Cons.prems(1) t1(1)] Cons.prems(3)
  show ?case by simp
qed simp

text \<open>No event of a refresh names a window that the receiver does not know\<close>

fun quiet :: "event \<Rightarrow> bool" where
  "quiet (WindowClosed _) = False"
| "quiet (WindowLayoutsChanged _) = False"
| "quiet (WindowsChanged _) = False"
| "quiet _ = True"

lemma consume_quiet:
  assumes "\<forall>e \<in> set es. quiet e"
  shows "returns (consume apply_windows es t) (\<lambda>t'. fst ` set t \<subseteq> fst ` set t')"
  using assms
proof (induction es arbitrary: t)
  case (Cons e es)
  have keys: "fst ` set (map_values f t) = fst ` set t" for f and t :: "ipc_window table"
    by (metis keys_map_values list.set_map)
  have keys1: "fst ` set (update_first c f t) = fst ` set t" for c f and t :: "ipc_window table"
    by (metis keys_update_first list.set_map)
  have "returns (apply_windows e t) (\<lambda>(t', _). fst ` set t \<subseteq> fst ` set t')"
    using Cons.prems by (cases e) (auto simp: Let_def keys keys1 AList.dom_update)
  then obtain t1 r where t1: "apply_windows e t = Some (t1, r)" "fst ` set t \<subseteq> fst ` set t1"
    by (auto elim!: returnsE)
  with Cons.IH [of t1] Cons.prems show ?case by (auto elim!: returns_mono)
qed simp

lemma layout_changes_known:
  assumes "fst ` set cs \<subseteq> fst ` set t"
  shows "returns (apply_layout_changes cs t) (\<lambda>t'. fst ` set t' = fst ` set t)"
  using assms
proof (induction cs arbitrary: t)
  case (Cons c cs)
  obtain i l where c: "c = (i, l)" by (cases c)
  then obtain v where v: "map_of t i = Some v" using Cons.prems by (metis (no_types) image_insert insert_subset list.simps(15) fst_conv map_of_eq_None_iff not_None_eq)
  let ?t = "AList.update i (v\<lparr>iwin_layout := l\<rparr>) t"
  have "i \<in> fst ` set t" using map_of_SomeD [OF v] by force
  then have "fst ` set ?t = fst ` set t" by (auto simp: AList.dom_update)
  with Cons.IH [of ?t] Cons.prems v show ?case by (simp add: c modify_def)
qed simp

lemma consume_closed:
  assumes "distinct is" "set is \<subseteq> fst ` set t" "distinct (map fst t)"
  shows "consume apply_windows (map WindowClosed is) t \<noteq> None"
  using assms
proof (induction "is" arbitrary: t)
  case (Cons i "is")
  then obtain v where v: "map_of t i = Some v" by (metis insert_subset list.simps(15) map_of_eq_None_iff not_None_eq)
  have "consume apply_windows (map WindowClosed is) (AList.delete i t) \<noteq> None"
    by (rule Cons.IH) (use Cons.prems in \<open>auto simp: AList.distinct_delete AList.delete_conv' simp flip: dom_map_of_conv_image_fst\<close>)
  with v show ?case by simp
qed simp

section \<open>The windows after a refresh\<close>

lemma fold_stable: "(\<And>e. e \<in> set es \<Longrightarrow> g e x = x) \<Longrightarrow> fold g es x = x"
  by (induction es) simp_all

definition relaid :: "ipc_window table \<Rightarrow> ipc_window \<Rightarrow> bool" where
  "relaid t w \<longleftrightarrow> (case map_of t (iwin_id w) of
     None \<Rightarrow> False | Some known \<Rightarrow> \<not> window_reopened known w \<and> iwin_layout known \<noteq> iwin_layout w)"

lemma layout_changes_eq: "layout_changes t ws = map (\<lambda>w. (iwin_id w, iwin_layout w)) (filter (relaid t) ws)"
  by (induction ws) (auto simp: layout_changes_def relaid_def split: option.splits)

lemma window_event_cases:
  assumes "e \<in> set (window_events t ws)"
  obtains (change) w where "w \<in> set ws" "e \<in> set (window_changes t w)"
    | (layouts) "e = WindowLayoutsChanged (layout_changes t ws)"
    | (closed) i where "i \<notin> iwin_id ` set ws" "e = WindowClosed i"
    | (unfocus) "e = WindowFocusChanged None" "\<forall>w \<in> set ws. \<not> iwin_is_focused w"
  using assms by (auto simp: window_events_def list_ex_iff split: if_splits)

lemma window_change_cases:
  assumes "e \<in> set (window_changes t w)"
  obtains (opened) "e = WindowOpenedOrChanged w"
      "\<forall>known. map_of t (iwin_id w) = Some known \<longrightarrow> window_reopened known w"
    | (focus) "e = WindowFocusChanged (Some (iwin_id w))" "iwin_is_focused w"
    | (stamp) "e = WindowFocusTimestampChanged (iwin_id w) (iwin_focus_timestamp w)"
    | (urgency) "e = WindowUrgencyChanged (iwin_id w) (iwin_is_urgent w)"
  using assms by (auto simp: window_changes_def split: option.splits if_splits)

text \<open>
  What holds of the layout and of the state reported before: one entry per window, at most one
  focused window, and a process id that a window keeps
\<close>

definition windows_refreshable :: "ipc_window table \<Rightarrow> ipc_window list \<Rightarrow> bool" where
  "windows_refreshable t ws \<longleftrightarrow>
     table_ok iwin_id t \<and> distinct (map iwin_id ws) \<and>
     (\<forall>a \<in> set ws. \<forall>b \<in> set ws. iwin_is_focused a \<longrightarrow> iwin_is_focused b \<longrightarrow> iwin_id a = iwin_id b) \<and>
     (\<forall>(i, a) \<in> set t. \<forall>(j, b) \<in> set t. iwin_is_focused a \<longrightarrow> iwin_is_focused b \<longrightarrow> i = j) \<and>
     (\<forall>w \<in> set ws. \<forall>(i, known) \<in> set t. iwin_id w = i \<longrightarrow> iwin_pid known = iwin_pid w)"

lemma windows_refreshable_facts:
  assumes r: "windows_refreshable t ws"
  shows known_ok: "table_ok iwin_id t" and ids: "distinct (map iwin_id ws)"
    and by_id: "a \<in> set ws \<Longrightarrow> b \<in> set ws \<Longrightarrow> iwin_id a = iwin_id b \<Longrightarrow> a = b"
    and one_focused: "a \<in> set ws \<Longrightarrow> b \<in> set ws \<Longrightarrow> iwin_is_focused a \<Longrightarrow> iwin_is_focused b \<Longrightarrow> a = b"
    and one_known_focused: "map_of t i = Some x \<Longrightarrow> map_of t j = Some y \<Longrightarrow> iwin_is_focused x \<Longrightarrow> iwin_is_focused y \<Longrightarrow> i = j"
    and same_pid: "a \<in> set ws \<Longrightarrow> map_of t (iwin_id a) = Some x \<Longrightarrow> iwin_pid x = iwin_pid a"
proof -
  show "table_ok iwin_id t" and d: "distinct (map iwin_id ws)" using r by (simp_all add: windows_refreshable_def)
  show i: "a = b" if "a \<in> set ws" "b \<in> set ws" "iwin_id a = iwin_id b" for a b
    using d that by (auto simp: distinct_map dest: inj_onD)
  show "a \<in> set ws \<Longrightarrow> b \<in> set ws \<Longrightarrow> iwin_is_focused a \<Longrightarrow> iwin_is_focused b \<Longrightarrow> a = b"
  proof -
    assume a: "a \<in> set ws" "b \<in> set ws" "iwin_is_focused a" "iwin_is_focused b"
    have "\<forall>a \<in> set ws. \<forall>b \<in> set ws. iwin_is_focused a \<longrightarrow> iwin_is_focused b \<longrightarrow> iwin_id a = iwin_id b"
      using r unfolding windows_refreshable_def by (elim conjE)
    with a have "iwin_id a = iwin_id b" by blast
    with i a show "a = b" by blast
  qed
  show "map_of t i = Some x \<Longrightarrow> map_of t j = Some y \<Longrightarrow> iwin_is_focused x \<Longrightarrow> iwin_is_focused y \<Longrightarrow> i = j"
  proof -
    assume m: "map_of t i = Some x" "map_of t j = Some y" and f: "iwin_is_focused x" "iwin_is_focused y"
    have "\<forall>(i, a) \<in> set t. \<forall>(j, b) \<in> set t. iwin_is_focused a \<longrightarrow> iwin_is_focused b \<longrightarrow> i = j"
      using r unfolding windows_refreshable_def by (elim conjE)
    from bspec [OF this map_of_SomeD [OF m(1)]] have "\<forall>(j, b) \<in> set t. iwin_is_focused x \<longrightarrow> iwin_is_focused b \<longrightarrow> i = j"
      by simp
    from bspec [OF this map_of_SomeD [OF m(2)]] f show "i = j" by simp
  qed
  show "a \<in> set ws \<Longrightarrow> map_of t (iwin_id a) = Some x \<Longrightarrow> iwin_pid x = iwin_pid a"
  proof -
    assume a: "a \<in> set ws" "map_of t (iwin_id a) = Some x"
    have "\<forall>w \<in> set ws. \<forall>(i, known) \<in> set t. iwin_id w = i \<longrightarrow> iwin_pid known = iwin_pid w"
      using r unfolding windows_refreshable_def by (elim conjE)
    from bspec [OF bspec [OF this a(1)] map_of_SomeD [OF a(2)]] show "iwin_pid x = iwin_pid a" by simp
  qed
qed

lemma changes_at:
  assumes r: "windows_refreshable t ws" and w: "w \<in> set ws"
  shows "map_of (layout_changes t ws) (iwin_id w) = (if relaid t w then Some (iwin_layout w) else None)"
proof (cases "relaid t w")
  case True
  have "distinct (map fst (layout_changes t ws))"
    using ids [OF r] by (simp add: layout_changes_eq comp_def distinct_map_filter)
  moreover have "(iwin_id w, iwin_layout w) \<in> set (layout_changes t ws)"
    using w True by (auto simp: layout_changes_eq)
  ultimately show ?thesis using True by simp
next
  case False
  then have "iwin_id w \<notin> fst ` set (layout_changes t ws)"
    using by_id [OF r _ w] by (auto simp: layout_changes_eq)
  with False show ?thesis by (simp add: map_of_eq_None_iff)
qed

lemma stepwise_events:
  assumes r: "windows_refreshable t ws" and e: "e \<in> set (window_events t ws)"
  shows "stepwise e"
  using e ids [OF r] by (cases rule: window_event_cases)
    (auto elim!: window_change_cases simp: layout_changes_eq comp_def distinct_map_filter)

lemma reached_stays:
  assumes r: "windows_refreshable t ws" and w: "w \<in> set ws" and e: "e \<in> set (window_events t ws)"
  shows "key_step e (iwin_id w) (Some w) = Some w"
  using e
proof (cases rule: window_event_cases)
  case (change v)
  from change(2) show ?thesis
  proof (cases rule: window_change_cases)
    case opened
    have "iwin_id w = iwin_id v \<Longrightarrow> w = v" using by_id [OF r w change(1)] .
    moreover have "iwin_is_focused v \<Longrightarrow> w \<noteq> v \<Longrightarrow> w\<lparr>iwin_is_focused := False\<rparr> = w"
      using one_focused [OF r w change(1)] by (cases w) auto
    ultimately show ?thesis by (auto simp: opened(1))
  next
    case focus
    have "(iwin_id w = iwin_id v) = iwin_is_focused w"
      using by_id [OF r w change(1)] one_focused [OF r w change(1)] focus(2) by auto
    then show ?thesis by (simp add: focus(1))
  next
    case stamp
    with by_id [OF r w change(1)] show ?thesis by auto
  next
    case urgency
    with by_id [OF r w change(1)] show ?thesis by auto
  qed
next
  case layouts
  with changes_at [OF r w] show ?thesis by simp
next
  case (closed i)
  with w show ?thesis by auto
next
  case unfocus
  with w show ?thesis by simp
qed

lemma gone_stays:
  assumes "k \<notin> iwin_id ` set ws" "e \<in> set (window_events t ws)"
  shows "key_step e k None = None"
  using assms(2)
proof (cases rule: window_event_cases)
  case (change v)
  with assms(1) show ?thesis by (auto elim!: window_change_cases)
next
  case layouts
  have "map_of (layout_changes t ws) k = None"
    using assms(1) by (auto simp: layout_changes_eq map_of_eq_None_iff)
  with layouts show ?thesis by simp
qed simp_all

definition static :: "ipc_window \<Rightarrow> nat \<times> string option \<times> string option \<times> int option \<times> nat option \<times> bool \<times> bool" where
  "static w = (iwin_id w, iwin_title w, iwin_app_id w, iwin_pid w, iwin_workspace_id w, iwin_is_floating w, iwin_is_sticky w)"

lemma field_settles:
  assumes step: "\<And>e v. e \<in> set es \<Longrightarrow> static v = static w \<Longrightarrow> g e (Some v) \<noteq> None \<and>
        static (the (g e (Some v))) = static w \<and> f (the (g e (Some v))) = (if hits e then f w else f v)"
    and reach: "f known \<noteq> f w \<Longrightarrow> \<exists>e \<in> set es. hits e" and k0: "static known = static w"
  shows "\<exists>y. fold g es (Some known) = Some y \<and> static y = static w \<and> f y = f w"
proof -
  define keep where "keep x \<longleftrightarrow> (\<exists>v. x = Some v \<and> static v = static w)" for x
  have "f (the (fold g es (Some known))) = (if \<exists>e \<in> set es. hits e then f w else f (the (Some known))) \<and>
      keep (fold g es (Some known))"
  proof (rule fold_settles [where f = "\<lambda>x. f (the x)"])
    fix e x assume e: "e \<in> set es" and "keep x"
    then obtain v where v: "x = Some v" "static v = static w" by (auto simp: keep_def)
    from step [OF e v(2)] v(1)
    show "keep (g e x) \<and> f (the (g e x)) = (if hits e then f w else f (the x))"
      by (auto simp: keep_def)
  qed (simp add: keep_def k0)
  with reach show ?thesis by (cases "f known = f w") (auto simp: keep_def)
qed

text \<open>A window that is known and not reported anew: each of its changing fields settles on the new value\<close>

lemma known_window_settles:
  assumes r: "windows_refreshable t ws" and w: "w \<in> set ws"
    and known: "map_of t (iwin_id w) = Some known" "\<not> window_reopened known w"
  shows "fold (\<lambda>e. key_step e (iwin_id w)) (window_events t ws) (Some known) = Some w"
proof -
  let ?k = "iwin_id w" and ?E = "window_events t ws"
  have k0: "static known = static w"
    using known(2) table_ok_key [OF known_ok [OF r] known(1)] same_pid [OF r w known(1)]
    by (simp add: static_def window_reopened_def)
  have at: "iwin_id v \<noteq> ?k" if ev: "e = WindowOpenedOrChanged v" "e \<in> set ?E" for e v
  proof
    assume id: "iwin_id v = ?k"
    from ev(2) obtain u where u: "u \<in> set ws" "e \<in> set (window_changes t u)"
      by (cases rule: window_event_cases) (use ev(1) in auto)
    then have uv: "u = v" using ev(1) by (auto elim!: window_change_cases)
    then have "v = w" using by_id [OF r _ w] u(1) id by blast
    with u uv ev(1) known show False by (auto elim!: window_change_cases)
  qed
  have step: "key_step e ?k (Some v) \<noteq> None \<and> static (the (key_step e ?k (Some v))) = static w"
    if "e \<in> set ?E" "static v = static w" for e v
    using that(1)
  proof (cases rule: window_event_cases)
    case (change u)
    from change(2) show ?thesis
    proof (cases rule: window_change_cases)
      case opened
      with at [OF opened(1) that(1)] that(2) show ?thesis by (simp add: static_def)
    qed (use that(2) in \<open>simp_all add: static_def\<close>)
  next
    case (closed i)
    with w that(2) show ?thesis by auto
  qed (use that(2) in \<open>auto simp: static_def split: option.splits\<close>)
  have own: "e \<in> set (window_changes t w) \<Longrightarrow> e \<in> set ?E" for e
    using w by (auto simp: window_events_def)
  have fields: "iwin_is_urgent (the (key_step e ?k (Some v))) =
        (if e = WindowUrgencyChanged ?k (iwin_is_urgent w) then iwin_is_urgent w else iwin_is_urgent v) \<and>
      iwin_focus_timestamp (the (key_step e ?k (Some v))) =
        (if e = WindowFocusTimestampChanged ?k (iwin_focus_timestamp w) then iwin_focus_timestamp w else iwin_focus_timestamp v) \<and>
      iwin_layout (the (key_step e ?k (Some v))) =
        (if e = WindowLayoutsChanged (layout_changes t ws) \<and> relaid t w then iwin_layout w else iwin_layout v) \<and>
      iwin_is_focused (the (key_step e ?k (Some v))) =
        (if (\<exists>i. e = WindowFocusChanged i) \<or> (\<exists>u. e = WindowOpenedOrChanged u \<and> iwin_is_focused u)
         then iwin_is_focused w else iwin_is_focused v)"
    if e: "e \<in> set ?E" and v: "static v = static w" for e v
    using e
  proof (cases rule: window_event_cases)
    case (change u)
    note same = by_id [OF r w change(1)]
    from change(2) show ?thesis
    proof (cases rule: window_change_cases)
      case opened
      have "iwin_id u \<noteq> ?k" using at [OF opened(1) e] .
      moreover have "iwin_is_focused u \<Longrightarrow> \<not> iwin_is_focused w"
        using one_focused [OF r change(1) w] calculation by auto
      ultimately show ?thesis by (simp add: opened(1))
    next
      case focus
      have "(?k = iwin_id u) = iwin_is_focused w" using same one_focused [OF r change(1) w focus(2)] focus(2) by auto
      then show ?thesis by (simp add: focus(1))
    next
      case stamp
      with same show ?thesis by auto
    next
      case urgency
      with same show ?thesis by auto
    qed
  next
    case layouts
    then show ?thesis using changes_at [OF r w] by simp
  next
    case (closed i)
    with w show ?thesis by auto
  next
    case unfocus
    with w show ?thesis by simp
  qed
  have urgent: "\<exists>y. fold (\<lambda>e. key_step e ?k) ?E (Some known) = Some y \<and> static y = static w \<and> iwin_is_urgent y = iwin_is_urgent w"
  proof (rule field_settles [where hits = "\<lambda>e. e = WindowUrgencyChanged ?k (iwin_is_urgent w)"])
    assume "iwin_is_urgent known \<noteq> iwin_is_urgent w"
    then have "WindowUrgencyChanged ?k (iwin_is_urgent w) \<in> set (window_changes t w)"
      using known by (auto simp: window_changes_def)
    with own show "\<exists>e \<in> set ?E. e = WindowUrgencyChanged ?k (iwin_is_urgent w)" by blast
  qed (use step fields k0 in blast)+
  have stamp: "\<exists>y. fold (\<lambda>e. key_step e ?k) ?E (Some known) = Some y \<and> static y = static w \<and> iwin_focus_timestamp y = iwin_focus_timestamp w"
  proof (rule field_settles [where hits = "\<lambda>e. e = WindowFocusTimestampChanged ?k (iwin_focus_timestamp w)"])
    assume "iwin_focus_timestamp known \<noteq> iwin_focus_timestamp w"
    then have "WindowFocusTimestampChanged ?k (iwin_focus_timestamp w) \<in> set (window_changes t w)"
      using known by (auto simp: window_changes_def)
    with own show "\<exists>e \<in> set ?E. e = WindowFocusTimestampChanged ?k (iwin_focus_timestamp w)" by blast
  qed (use step fields k0 in blast)+
  have layout: "\<exists>y. fold (\<lambda>e. key_step e ?k) ?E (Some known) = Some y \<and> static y = static w \<and> iwin_layout y = iwin_layout w"
  proof (rule field_settles [where hits = "\<lambda>e. e = WindowLayoutsChanged (layout_changes t ws) \<and> relaid t w"])
    assume "iwin_layout known \<noteq> iwin_layout w"
    then have rl: "relaid t w" using known by (simp add: relaid_def)
    then have "layout_changes t ws \<noteq> []" using w by (auto simp: layout_changes_eq filter_empty_conv)
    then have "WindowLayoutsChanged (layout_changes t ws) \<in> set ?E" by (simp add: window_events_def)
    with rl show "\<exists>e \<in> set ?E. e = WindowLayoutsChanged (layout_changes t ws) \<and> relaid t w" by blast
  qed (use step fields k0 in blast)+
  have focus: "\<exists>y. fold (\<lambda>e. key_step e ?k) ?E (Some known) = Some y \<and> static y = static w \<and> iwin_is_focused y = iwin_is_focused w"
  proof (rule field_settles [where hits = "\<lambda>e. (\<exists>i. e = WindowFocusChanged i) \<or> (\<exists>u. e = WindowOpenedOrChanged u \<and> iwin_is_focused u)"])
    assume differs: "iwin_is_focused known \<noteq> iwin_is_focused w"
    show "\<exists>e \<in> set ?E. (\<exists>i. e = WindowFocusChanged i) \<or> (\<exists>u. e = WindowOpenedOrChanged u \<and> iwin_is_focused u)"
    proof (cases "iwin_is_focused w")
      case True
      then have "WindowFocusChanged (Some ?k) \<in> set (window_changes t w)"
        using known differs by (auto simp: window_changes_def)
      with own show ?thesis by blast
    next
      case False
      then have kf: "iwin_is_focused known" using differs by simp
      show ?thesis
      proof (cases "\<exists>u \<in> set ws. iwin_is_focused u")
        case True
        then obtain u where u: "u \<in> set ws" "iwin_is_focused u" by blast
        then have "iwin_id u \<noteq> ?k" using by_id [OF r u(1) w] False by auto
        then have "map_of t (iwin_id u) = Some x \<Longrightarrow> \<not> iwin_is_focused x" for x
          using one_known_focused [OF r _ known(1) _ kf, of "iwin_id u" x] by auto
        then have "WindowFocusChanged (Some (iwin_id u)) \<in> set (window_changes t u) \<or>
            WindowOpenedOrChanged u \<in> set (window_changes t u)"
          using u(2) by (auto simp: window_changes_def split: option.splits)
        moreover have "set (window_changes t u) \<subseteq> set ?E" using u(1) by (auto simp: window_events_def)
        ultimately show ?thesis using u(2) by blast
      next
        case False
        have "list_ex (iwin_is_focused \<circ> snd) t"
          using map_of_SomeD [OF known(1)] kf by (auto simp: list_ex_iff intro!: bexI [of _ "(?k, known)"])
        with False have "WindowFocusChanged None \<in> set ?E" by (auto simp: window_events_def list_ex_iff)
        then show ?thesis by blast
      qed
    qed
  qed (use step fields k0 in blast)+
  from urgent obtain y where y: "fold (\<lambda>e. key_step e ?k) ?E (Some known) = Some y" "static y = static w" by blast
  have "y = w" using urgent stamp layout focus y by (cases y; cases w) (simp add: static_def)
  with y(1) show ?thesis by simp
qed

text \<open>The server's copy and every client that agreed with it end up with the windows of the layout\<close>

lemma windows_synced:
  assumes r: "windows_refreshable t ws" and c: "table_ok iwin_id c" "map_of c = map_of t"
  shows "returns (consume apply_windows (window_events t ws) c)
           (\<lambda>c'. table_ok iwin_id c' \<and> map_of c' = map_of (map (\<lambda>w. (iwin_id w, w)) ws))"
proof -
  let ?E = "window_events t ws"
  have keys: "fst ` set c = fst ` set t" using c(2) by (metis dom_map_of_conv_image_fst)
  define A where "A = concat (map (window_changes t) ws)"
  define L where "L = (if layout_changes t ws \<noteq> [] then [WindowLayoutsChanged (layout_changes t ws)] else [])"
  define gone where "gone = filter (\<lambda>i. i \<notin> set (map iwin_id ws)) (map fst t)"
  define F where "F = (if \<not> list_ex iwin_is_focused ws \<and> list_ex (iwin_is_focused \<circ> snd) t then [WindowFocusChanged None] else [])"
  have E: "?E = A @ L @ map WindowClosed gone @ F" by (simp add: window_events_def A_def L_def gone_def F_def)
  have "\<forall>e \<in> set A. quiet e" by (auto simp: A_def elim!: window_change_cases)
  from consume_quiet [OF this, of c] obtain c1 where
    c1: "consume apply_windows A c = Some c1" "fst ` set t \<subseteq> fst ` set c1" by (auto simp: keys elim!: returnsE)
  have "fst ` set (layout_changes t ws) \<subseteq> fst ` set t"
    by (auto simp: layout_changes_eq relaid_def split: option.splits dest!: map_of_SomeD intro!: image_eqI [of _ fst])
  then have "fst ` set (layout_changes t ws) \<subseteq> fst ` set c1" using c1(2) by (rule order_trans)
  from layout_changes_known [OF this] obtain c2' where
    "apply_layout_changes (layout_changes t ws) c1 = Some c2'" "fst ` set c2' = fst ` set c1"
    by (auto elim!: returnsE)
  with c1(2) obtain c2 where c2: "consume apply_windows L c1 = Some c2" "fst ` set t \<subseteq> fst ` set c2"
    by (cases "layout_changes t ws = []") (auto simp: L_def)
  have ok2: "table_ok iwin_id c2"
    using windows_part.consume_ok [OF windows_part.consume_ok [OF c(1) c1(1)] c2(1)] .
  have "consume apply_windows (map WindowClosed gone) c2 \<noteq> None"
  proof (rule consume_closed)
    show "distinct gone" using known_ok [OF r] by (simp add: gone_def table_ok_def)
    show "set gone \<subseteq> fst ` set c2" using c2(2) by (auto simp: gone_def)
    show "distinct (map fst c2)" using ok2 by (simp add: table_ok_def)
  qed
  then obtain c3 where c3: "consume apply_windows (map WindowClosed gone) c2 = Some c3" by blast
  have "\<forall>e \<in> set F. quiet e" by (simp add: F_def)
  from consume_quiet [OF this, of c3] obtain c' where c4: "consume apply_windows F c3 = Some c'" by (auto elim!: returnsE)
  have run: "consume apply_windows ?E c = Some c'"
    unfolding E by (simp add: windows_part.consume_app c1(1) c2(1) c3 c4)
  have "map_of c' k = map_of (map (\<lambda>w. (iwin_id w, w)) ws) k" for k
  proof -
    have st: "\<forall>e \<in> set ?E. stepwise e" using stepwise_events [OF r] by blast
    have fold: "map_of c' k = fold (\<lambda>e. key_step e k) ?E (map_of t k)"
      using consume_windows_key [OF c(1) run st] c(2) by simp
    show ?thesis
    proof (cases "k \<in> iwin_id ` set ws")
      case True
      then obtain w where w: "w \<in> set ws" "k = iwin_id w" by blast
      have "(iwin_id w, w) \<in> set (map (\<lambda>w. (iwin_id w, w)) ws)" using w(1) by auto
      then have goal: "map_of (map (\<lambda>w. (iwin_id w, w)) ws) k = Some w"
        using ids [OF r] w(2) by (simp add: comp_def)
      show ?thesis
      proof (cases "\<exists>known. map_of t k = Some known \<and> \<not> window_reopened known w")
        case True
        with known_window_settles [OF r w(1)] w(2) fold goal show ?thesis by auto
      next
        case False
        then have "WindowOpenedOrChanged w \<in> set (window_changes t w)"
          using w(2) by (auto simp: window_changes_def split: option.splits)
        then have "WindowOpenedOrChanged w \<in> set ?E" using w(1) by (auto simp: window_events_def)
        then obtain E1 E2 where split: "?E = E1 @ WindowOpenedOrChanged w # E2" by (meson split_list)
        have "fold (\<lambda>e. key_step e k) E2 (Some w) = Some w"
          by (rule fold_stable) (use reached_stays [OF r w(1)] w(2) split in auto)
        with fold goal w(2) split show ?thesis by simp
      qed
    next
      case False
      then have goal: "map_of (map (\<lambda>w. (iwin_id w, w)) ws) k = None"
        by (auto simp: map_of_eq_None_iff)
      show ?thesis
      proof (cases "map_of t k")
        case None
        have "fold (\<lambda>e. key_step e k) ?E None = None"
          by (rule fold_stable) (rule gone_stays [OF False])
        with None fold goal show ?thesis by simp
      next
        case (Some v)
        then have "k \<in> set gone" using False by (auto simp: gone_def dest: map_of_SomeD intro!: image_eqI [of _ fst])
        then have "WindowClosed k \<in> set ?E" by (simp add: E)
        then obtain E1 E2 where split: "?E = E1 @ WindowClosed k # E2" by (meson split_list)
        have "fold (\<lambda>e. key_step e k) E2 None = None"
        proof (rule fold_stable)
          fix e assume "e \<in> set E2"
          then have "e \<in> set ?E" using split by simp
          then show "key_step e k None = None" by (rule gone_stays [OF False])
        qed
        with fold goal split show ?thesis by simp
      qed
    qed
  qed
  with run windows_part.consume_ok [OF c(1) run] show ?thesis by auto
qed

section \<open>Workspaces, one id at a time\<close>

fun workspace_step :: "(nat \<Rightarrow> string option) \<Rightarrow> event \<Rightarrow> ipc_workspace \<Rightarrow> ipc_workspace" where
  "workspace_step out (WorkspaceUrgencyChanged i u) v = (if iw_id v = i then v\<lparr>iw_is_urgent := u\<rparr> else v)"
| "workspace_step out (WorkspaceActivated i f) v = activate_in i (out i) f v"
| "workspace_step out (WorkspaceActiveWindowChanged i w) v = (if iw_id v = i then v\<lparr>iw_active_window_id := w\<rparr> else v)"
| "workspace_step out e v = v"

fun speaks_of :: "event \<Rightarrow> nat set" where
  "speaks_of (WorkspaceUrgencyChanged i u) = {i}"
| "speaks_of (WorkspaceActivated i f) = {i}"
| "speaks_of (WorkspaceActiveWindowChanged i w) = {i}"
| "speaks_of e = UNIV"

definition lasting :: "ipc_workspace \<Rightarrow> nat \<times> nat \<times> string option \<times> string option \<times> bool" where
  "lasting w = (iw_id w, iw_idx w, iw_name w, iw_output w, iw_is_hidden w)"

lemma activate_in_fields [simp]:
  "iw_idx (activate_in i out f ws) = iw_idx ws" "iw_name (activate_in i out f ws) = iw_name ws"
  "iw_output (activate_in i out f ws) = iw_output ws" "iw_is_hidden (activate_in i out f ws) = iw_is_hidden ws"
  "iw_is_urgent (activate_in i out f ws) = iw_is_urgent ws"
  "iw_active_window_id (activate_in i out f ws) = iw_active_window_id ws"
  "iw_is_active (activate_in i out f ws) = (if iw_output ws = out then iw_id ws = i else iw_is_active ws)"
  "iw_is_focused (activate_in i out f ws) = (if f then iw_id ws = i else iw_is_focused ws)"
  by (simp_all add: activate_in_def Let_def)

lemma lasting_step [simp]: "lasting (workspace_step out e v) = lasting v"
  by (cases e) (simp_all add: lasting_def)

lemma lasting_fold [simp]: "lasting (fold (workspace_step out) es v) = lasting v"
  by (induction es arbitrary: v) simp_all

lemma apply_workspaces_step:
  assumes "table_ok iw_id t" "speaks_of e \<subseteq> dom (map_of t)" "speaks_of e \<noteq> UNIV"
    "\<forall>k v. map_of t k = Some v \<longrightarrow> out k = iw_output v"
  shows "returns (apply_workspaces e t) (\<lambda>(t', _). table_ok iw_id t' \<and>
           (\<forall>k. map_of t' k = map_option (workspace_step out e) (map_of t k)))"
proof -
  have key: "map_of t k = Some v \<Longrightarrow> iw_id v = k" for k v by (rule table_ok_key [OF assms(1)])
  have ok: "apply_workspaces e t = Some (t', r) \<Longrightarrow> table_ok iw_id t'" for t' r
    by (rule workspaces_part.stays_ok [OF assms(1)])
  show ?thesis
  proof (cases e)
    case (WorkspaceUrgencyChanged i u)
    with ok show ?thesis by (auto simp: map_of_map_values intro!: option.map_cong)
  next
    case (WorkspaceActivated i f)
    then obtain v where v: "map_of t i = Some v" using assms(2) by auto
    then have "out i = iw_output v" using assms(4) by blast
    moreover have "workspace_step out (WorkspaceActivated i f) = activate_in i (out i) f" by (rule ext) simp
    ultimately show ?thesis using v ok WorkspaceActivated by (auto simp: map_of_map_values)
  next
    case (WorkspaceActiveWindowChanged i w)
    then obtain v where v: "map_of t i = Some v" using assms(2) by auto
    let ?f = "\<lambda>ws. ws\<lparr>iw_active_window_id := w\<rparr>"
    have "(if k = i then Some (?f v) else map_of t k) =
        map_option (\<lambda>v. if iw_id v = i then ?f v else v) (map_of t k)" for k
      using v key by (cases "map_of t k") auto
    moreover have "workspace_step out (WorkspaceActiveWindowChanged i w) = (\<lambda>v. if iw_id v = i then ?f v else v)"
      by (rule ext) simp
    ultimately show ?thesis using v ok WorkspaceActiveWindowChanged by (auto simp: modify_def AList.update_conv')
  qed (use assms(3) in simp_all)
qed

lemma consume_workspaces_step:
  assumes "table_ok iw_id t" "\<forall>e \<in> set es. speaks_of e \<subseteq> dom (map_of t) \<and> speaks_of e \<noteq> UNIV"
    "\<forall>k v. map_of t k = Some v \<longrightarrow> out k = iw_output v"
  shows "returns (consume apply_workspaces es t) (\<lambda>t'. table_ok iw_id t' \<and>
           (\<forall>k. map_of t' k = map_option (fold (workspace_step out) es) (map_of t k)))"
  using assms
proof (induction es arbitrary: t)
  case Nil
  then show ?case by (simp add: option.map_ident)
next
  case (Cons e es)
  from apply_workspaces_step [OF Cons.prems(1) _ _ Cons.prems(3), of e] Cons.prems(2) obtain t1 r where
    t1: "apply_workspaces e t = Some (t1, r)" "table_ok iw_id t1"
      "\<And>k. map_of t1 k = map_option (workspace_step out e) (map_of t k)"
    by (auto elim!: returnsE)
  have "dom (map_of t1) = dom (map_of t)" using t1(3) by (auto simp: dom_def)
  moreover have "out k = iw_output v" if "map_of t1 k = Some v" for k v
  proof -
    from that t1(3) obtain u where u: "map_of t k = Some u" "v = workspace_step out e u" by auto
    have "iw_output v = iw_output u" using lasting_step [of out e u] u(2) by (simp add: lasting_def)
    with u(1) Cons.prems(3) show ?thesis by simp
  qed
  ultimately have "returns (consume apply_workspaces es t1) (\<lambda>t'. table_ok iw_id t' \<and>
           (\<forall>k. map_of t' k = map_option (fold (workspace_step out) es) (map_of t1 k)))"
    using Cons.IH [OF t1(2)] Cons.prems(2) by simp
  with t1(1,3) show ?case by (auto simp: option.map_comp comp_def elim!: returns_mono)
qed

section \<open>The workspaces after a refresh\<close>

abbreviation displayed :: "seen_workspace list \<Rightarrow> seen_workspace list" where
  "displayed wss \<equiv> filter (\<lambda>ws. \<not> sw_hidden ws) wss"

text \<open>A reported workspace says what the layout has\<close>

definition reports :: "nat option \<Rightarrow> seen_workspace \<Rightarrow> ipc_workspace \<Rightarrow> bool" where
  "reports focused ws w \<longleftrightarrow>
     iw_id w = sw_id ws \<and> iw_name w = sw_name ws \<and> iw_output w = sw_output ws \<and> iw_is_urgent w = sw_urgent ws \<and>
     iw_is_active w = sw_active ws \<and> iw_is_focused w = (Some (sw_id ws) = focused) \<and>
     iw_active_window_id w = sw_active_window ws \<and> \<not> iw_is_hidden w"

lemma report_all2: "list_all2 (reports focused) (displayed wss) (report_workspaces focused wss place)"
  by (induction wss arbitrary: place) (auto simp: reports_def Let_def)

lemma report_ids: "map iw_id (report_workspaces focused wss place) = map sw_id (displayed wss)"
  by (induction wss arbitrary: place) (auto simp: Let_def)

lemma report_of:
  assumes "ws \<in> set (displayed wss)"
  shows "\<exists>w \<in> set (report_workspaces focused wss place). reports focused ws w"
  using assms report_all2 [of focused wss place] by (metis in_set_conv_nth list_all2_conv_all_nth)

lemma reported_from:
  assumes "w \<in> set (report_workspaces focused wss place)"
  shows "\<exists>ws \<in> set (displayed wss). reports focused ws w"
  using assms report_all2 [of focused wss place] by (metis in_set_conv_nth list_all2_conv_all_nth)

lemma scan_result:
  assumes "scan_workspaces t focused wss place seen events = (False, seen', events')"
  shows "set seen' = sw_id ` set wss \<union> set seen \<and>
    events' = events @ concat (map (\<lambda>ws. workspace_changes focused (the (map_of t (sw_id ws))) ws) (displayed wss)) \<and>
    (\<forall>w \<in> set (report_workspaces focused wss place). \<exists>known. map_of t (iw_id w) = Some known \<and>
       iw_idx known = iw_idx w \<and> iw_name known = iw_name w \<and> iw_output known = iw_output w)"
  using assms
proof (induction wss arbitrary: place seen events)
  case (Cons ws wss)
  show ?case
  proof (cases "sw_hidden ws")
    case True
    with Cons.prems have "scan_workspaces t focused wss place (sw_id ws # seen) events = (False, seen', events')" by simp
    from Cons.IH [OF this] True show ?thesis by auto
  next
    case False
    let ?p = "visible_place ws place"
    obtain known where k: "map_of t (sw_id ws) = Some known"
      using Cons.prems False by (cases "map_of t (sw_id ws)") (simp_all add: Let_def)
    have same: "iw_idx known = u8_index (snd ?p)" "iw_name known = sw_name ws" "iw_output known = sw_output ws"
      using Cons.prems False k by (auto simp: Let_def split: if_splits)
    have "scan_workspaces t focused wss (fst ?p, snd ?p + 1) (sw_id ws # seen)
        (events @ workspace_changes focused known ws) = (False, seen', events')"
      using Cons.prems False k same by (simp add: Let_def)
    from Cons.IH [OF this] False k same show ?thesis by (auto simp: Let_def)
  qed
qed simp

definition table_of :: "ipc_workspace list \<Rightarrow> nat \<Rightarrow> ipc_workspace option" where
  "table_of ws = map_of (map (\<lambda>w. (iw_id w, w)) ws)"

definition shown :: "ipc_workspace table \<Rightarrow> nat \<Rightarrow> ipc_workspace option" where
  "shown t k = (case map_of t k of None \<Rightarrow> None | Some w \<Rightarrow> if iw_is_hidden w then None else Some w)"

text \<open>
  A layout has one entry per workspace; every output shows exactly one active workspace, and
  without outputs there is none; the focused workspace is the active one of its output, and
  only a layout without outputs has none
\<close>

definition layout_view_ok :: "nat option \<Rightarrow> seen_workspace list \<Rightarrow> bool" where
  "layout_view_ok focused wss \<longleftrightarrow>
     distinct (map sw_id wss) \<and>
     (\<forall>a \<in> set (displayed wss). \<forall>b \<in> set (displayed wss).
        sw_active a \<longrightarrow> sw_active b \<longrightarrow> sw_output a = sw_output b \<longrightarrow> sw_id a = sw_id b) \<and>
     (\<forall>a \<in> set (displayed wss). sw_output a \<noteq> None \<longrightarrow>
        (\<exists>b \<in> set (displayed wss). sw_output b = sw_output a \<and> sw_active b)) \<and>
     (\<forall>a \<in> set (displayed wss). sw_output a = None \<longrightarrow> \<not> sw_active a) \<and>
     (case focused of
        Some i \<Rightarrow> \<exists>a \<in> set (displayed wss). sw_id a = i \<and> sw_active a
      | None \<Rightarrow> \<forall>a \<in> set (displayed wss). sw_output a = None)"

lemma table_of_report:
  assumes "distinct (map sw_id wss)"
  shows "table_of (report_workspaces focused wss place) k = Some w \<longleftrightarrow>
           w \<in> set (report_workspaces focused wss place) \<and> iw_id w = k"
proof -
  have "distinct (map iw_id (report_workspaces focused wss place))"
    unfolding report_ids using assms by (simp add: distinct_map_filter)
  then show ?thesis by (auto simp: table_of_def comp_def)
qed

lemma layout_view_facts:
  assumes ok: "layout_view_ok focused wss"
  shows view_id: "a \<in> set (displayed wss) \<Longrightarrow> b \<in> set (displayed wss) \<Longrightarrow> sw_id a = sw_id b \<Longrightarrow> a = b"
    and view_one: "a \<in> set (displayed wss) \<Longrightarrow> b \<in> set (displayed wss) \<Longrightarrow> sw_active a \<Longrightarrow> sw_active b \<Longrightarrow>
      sw_output a = sw_output b \<Longrightarrow> a = b"
    and view_active: "a \<in> set (displayed wss) \<Longrightarrow> sw_output a \<noteq> None \<Longrightarrow>
      \<exists>b \<in> set (displayed wss). sw_output b = sw_output a \<and> sw_active b"
    and view_output: "a \<in> set (displayed wss) \<Longrightarrow> sw_active a \<Longrightarrow> sw_output a \<noteq> None"
    and view_focus: "focused = Some i \<Longrightarrow> \<exists>a \<in> set (displayed wss). sw_id a = i \<and> sw_active a"
    and view_no_focus: "focused = None \<Longrightarrow> a \<in> set (displayed wss) \<Longrightarrow> sw_output a = None"
proof -
  have "distinct (map sw_id wss)" using ok unfolding layout_view_ok_def by (elim conjE)
  then show id: "a = b" if "a \<in> set (displayed wss)" "b \<in> set (displayed wss)" "sw_id a = sw_id b" for a b
    using that by (auto simp: distinct_map dest: inj_onD)
  show "a = b" if "a \<in> set (displayed wss)" "b \<in> set (displayed wss)" "sw_active a" "sw_active b" "sw_output a = sw_output b"
    using ok that id unfolding layout_view_ok_def by blast
  show "a \<in> set (displayed wss) \<Longrightarrow> sw_output a \<noteq> None \<Longrightarrow>
      \<exists>b \<in> set (displayed wss). sw_output b = sw_output a \<and> sw_active b"
  proof -
    assume a: "a \<in> set (displayed wss)" "sw_output a \<noteq> None"
    have "\<forall>a \<in> set (displayed wss). sw_output a \<noteq> None \<longrightarrow>
        (\<exists>b \<in> set (displayed wss). sw_output b = sw_output a \<and> sw_active b)"
      using ok unfolding layout_view_ok_def by (elim conjE)
    from bspec [OF this a(1)] a(2) show "\<exists>b \<in> set (displayed wss). sw_output b = sw_output a \<and> sw_active b" by blast
  qed
  show "a \<in> set (displayed wss) \<Longrightarrow> sw_active a \<Longrightarrow> sw_output a \<noteq> None"
    using ok unfolding layout_view_ok_def by blast
  have "case focused of Some i \<Rightarrow> \<exists>a \<in> set (displayed wss). sw_id a = i \<and> sw_active a
      | None \<Rightarrow> \<forall>a \<in> set (displayed wss). sw_output a = None"
    using ok unfolding layout_view_ok_def by (elim conjE)
  then show "focused = Some i \<Longrightarrow> \<exists>a \<in> set (displayed wss). sw_id a = i \<and> sw_active a"
    "focused = None \<Longrightarrow> a \<in> set (displayed wss) \<Longrightarrow> sw_output a = None"
    by (cases focused; simp)+
qed

lemma ipc_workspace_eqI:
  fixes a b :: ipc_workspace
  assumes "lasting a = lasting b" "iw_is_urgent a = iw_is_urgent b" "iw_active_window_id a = iw_active_window_id b"
    "iw_is_active a = iw_is_active b" "iw_is_focused a = iw_is_focused b"
  shows "a = b"
  using assms by (cases a; cases b) (simp add: lasting_def)

text \<open>What is known of a workspace settles on what the layout has\<close>

lemma known_workspace_settles:
  assumes old: "layout_view_ok focused0 wss0" and new: "layout_view_ok focused wss"
    and known: "\<And>ws. ws \<in> set (displayed wss) \<Longrightarrow> \<exists>ws0 \<in> set (displayed wss0).
        reports focused0 ws0 (known (sw_id ws)) \<and> sw_output ws0 = sw_output ws \<and> sw_id ws0 = sw_id ws"
    and out: "\<And>ws. ws \<in> set (displayed wss) \<Longrightarrow> out (sw_id ws) = sw_output ws"
    and ws: "ws \<in> set (displayed wss)" and w: "reports focused ws w" "lasting (known (sw_id ws)) = lasting w"
  shows "fold (workspace_step out) (concat (map (\<lambda>ws. workspace_changes focused (known (sw_id ws)) ws) (displayed wss)))
           (known (sw_id ws)) = w"
proof -
  let ?E = "concat (map (\<lambda>ws. workspace_changes focused (known (sw_id ws)) ws) (displayed wss))"
  let ?v = "known (sw_id ws)"
  let ?y = "fold (workspace_step out) ?E ?v"
  note id = view_id [OF new] and one = view_one [OF new]
  have focus_active: "sw_active a" if "a \<in> set (displayed wss)" "focused = Some (sw_id a)" for a
    using view_focus [OF new that(2)] id [OF _ that(1)] by blast
  obtain ws0 where ws0: "ws0 \<in> set (displayed wss0)" "reports focused0 ws0 ?v" "sw_output ws0 = sw_output ws" "sw_id ws0 = sw_id ws"
    using known [OF ws] by blast
  have own: "e \<in> set (workspace_changes focused (known (sw_id b)) b) \<Longrightarrow> e \<in> set ?E" if "b \<in> set (displayed wss)" for e b
    using that by auto
  have last: "lasting ?y = lasting w" using w(2) by simp
  have settle: "f ?y = (if \<exists>e \<in> set ?E. hits e then x else f ?v)"
    if "\<And>e v. e \<in> set ?E \<Longrightarrow> lasting v = lasting w \<Longrightarrow> f (workspace_step out e v) = (if hits e then x else f v)" for f :: "ipc_workspace \<Rightarrow> 'x" and x hits
    using fold_settles [of ?E "\<lambda>v. lasting v = lasting w" "workspace_step out" f hits x ?v] that w(2) by auto
  have lw: "iw_id v = sw_id ws" "iw_output v = sw_output ws" if "lasting v = lasting w" for v
    using that w(1) by (simp_all add: lasting_def reports_def)
  have urgent: "iw_is_urgent ?y = iw_is_urgent w"
  proof -
    have "iw_is_urgent ?y = (if \<exists>e \<in> set ?E. e = WorkspaceUrgencyChanged (sw_id ws) (sw_urgent ws) then sw_urgent ws else iw_is_urgent ?v)"
    proof (rule settle)
      fix e v assume "e \<in> set ?E" "lasting v = lasting w"
      with lw [of v] id [OF ws] show "iw_is_urgent (workspace_step out e v) =
          (if e = WorkspaceUrgencyChanged (sw_id ws) (sw_urgent ws) then sw_urgent ws else iw_is_urgent v)"
        by (auto simp: workspace_changes_def split: if_splits)
    qed
    moreover have "WorkspaceUrgencyChanged (sw_id ws) (sw_urgent ws) \<in> set ?E" if "iw_is_urgent ?v \<noteq> sw_urgent ws"
      by (rule own [OF ws]) (use that in \<open>simp add: workspace_changes_def\<close>)
    ultimately show ?thesis using w(1) by (auto simp: reports_def)
  qed
  have window: "iw_active_window_id ?y = iw_active_window_id w"
  proof -
    have "iw_active_window_id ?y = (if \<exists>e \<in> set ?E. e = WorkspaceActiveWindowChanged (sw_id ws) (sw_active_window ws)
        then sw_active_window ws else iw_active_window_id ?v)"
    proof (rule settle)
      fix e v assume "e \<in> set ?E" "lasting v = lasting w"
      with lw [of v] id [OF ws] show "iw_active_window_id (workspace_step out e v) =
          (if e = WorkspaceActiveWindowChanged (sw_id ws) (sw_active_window ws) then sw_active_window ws else iw_active_window_id v)"
        by (auto simp: workspace_changes_def split: if_splits)
    qed
    moreover have "WorkspaceActiveWindowChanged (sw_id ws) (sw_active_window ws) \<in> set ?E" if "iw_active_window_id ?v \<noteq> sw_active_window ws"
      by (rule own [OF ws]) (use that in \<open>simp add: workspace_changes_def\<close>)
    ultimately show ?thesis using w(1) by (auto simp: reports_def)
  qed
  have activated: "\<exists>b \<in> set (displayed wss). i = sw_id b \<and> sw_active b \<and> out i = sw_output b \<and> (f \<longrightarrow> focused = Some i)"
    if "WorkspaceActivated i f \<in> set ?E" for i f
    using that focus_active out by (auto simp: workspace_changes_def split: if_splits)
  have active: "iw_is_active ?y = iw_is_active w"
  proof -
    have "iw_is_active ?y = (if \<exists>e \<in> set ?E. \<exists>i f. e = WorkspaceActivated i f \<and> out i = sw_output ws then sw_active ws else iw_is_active ?v)"
    proof (rule settle)
      fix e v assume e: "e \<in> set ?E" and v: "lasting v = lasting w"
      show "iw_is_active (workspace_step out e v) =
          (if \<exists>i f. e = WorkspaceActivated i f \<and> out i = sw_output ws then sw_active ws else iw_is_active v)"
      proof (cases "\<exists>i f. e = WorkspaceActivated i f")
        case True
        then obtain i f where i: "e = WorkspaceActivated i f" by blast
        from activated [OF e [unfolded i]] obtain b where
          b: "b \<in> set (displayed wss)" "i = sw_id b" "sw_active b" "out i = sw_output b" by blast
        have "out i = sw_output ws \<Longrightarrow> (sw_id ws = i) = sw_active ws"
          using one [OF ws b(1)] id [OF ws b(1)] b by auto
        with i lw [OF v] show ?thesis by auto
      next
        case False
        then show ?thesis by (cases e) auto
      qed
    qed
    moreover have "\<exists>e \<in> set ?E. \<exists>i f. e = WorkspaceActivated i f \<and> out i = sw_output ws" if d: "iw_is_active ?v \<noteq> sw_active ws"
    proof (cases "sw_active ws")
      case True
      then have "\<exists>f. WorkspaceActivated (sw_id ws) f \<in> set (workspace_changes focused ?v ws)"
        using d by (auto simp: workspace_changes_def)
      with own [OF ws] out [OF ws] show ?thesis by blast
    next
      case False
      then have a0: "sw_active ws0" using d ws0(2) by (simp add: reports_def)
      then have "sw_output ws \<noteq> None" using view_output [OF old ws0(1)] ws0(3) by simp
      with view_active [OF new ws] obtain b where
        b: "b \<in> set (displayed wss)" "sw_output b = sw_output ws" "sw_active b" by blast
      from known [OF b(1)] obtain b0 where b0: "b0 \<in> set (displayed wss0)" "reports focused0 b0 (known (sw_id b))"
        "sw_output b0 = sw_output b" "sw_id b0 = sw_id b" by blast
      have "sw_id b \<noteq> sw_id ws" using id [OF b(1) ws] b(3) False by auto
      then have "\<not> sw_active b0"
        using view_one [OF old b0(1) ws0(1) _ a0] b0(3,4) ws0(3,4) b(2) by auto
      then have "\<not> iw_is_active (known (sw_id b))" using b0(2) by (simp add: reports_def)
      then have "\<exists>f. WorkspaceActivated (sw_id b) f \<in> set (workspace_changes focused (known (sw_id b)) b)"
        using b(3) by (auto simp: workspace_changes_def)
      with own [OF b(1)] out [OF b(1)] b(2) show ?thesis by metis
    qed
    ultimately show ?thesis using w(1) by (auto simp: reports_def)
  qed
  have focus: "iw_is_focused ?y = iw_is_focused w"
  proof -
    have "iw_is_focused ?y = (if \<exists>e \<in> set ?E. \<exists>i. e = WorkspaceActivated i True then Some (sw_id ws) = focused else iw_is_focused ?v)"
    proof (rule settle)
      fix e v assume e: "e \<in> set ?E" and v: "lasting v = lasting w"
      show "iw_is_focused (workspace_step out e v) =
          (if \<exists>i. e = WorkspaceActivated i True then Some (sw_id ws) = focused else iw_is_focused v)"
      proof (cases "\<exists>i f. e = WorkspaceActivated i f")
        case True
        then obtain i f where i: "e = WorkspaceActivated i f" by blast
        from activated [OF e [unfolded i]] i lw [OF v] show ?thesis by auto
      next
        case False
        then show ?thesis by (cases e) auto
      qed
    qed
    moreover have "\<exists>e \<in> set ?E. \<exists>i. e = WorkspaceActivated i True" if d: "iw_is_focused ?v \<noteq> (Some (sw_id ws) = focused)"
    proof (cases "Some (sw_id ws) = focused")
      case True
      then have "WorkspaceActivated (sw_id ws) True \<in> set (workspace_changes focused ?v ws)"
        using d by (auto simp: workspace_changes_def)
      with own [OF ws] show ?thesis by blast
    next
      case False
      then have f0: "focused0 = Some (sw_id ws)" using d ws0(2,4) by (simp add: reports_def)
      from view_focus [OF old this] obtain a0 where "a0 \<in> set (displayed wss0)" "sw_id a0 = sw_id ws" "sw_active a0" by blast
      then have "sw_active ws0" using view_id [OF old ws0(1), of a0] ws0(4) by simp
      then have "sw_output ws \<noteq> None" using view_output [OF old ws0(1)] ws0(3) by simp
      then obtain i where "focused = Some i" using view_no_focus [OF new _ ws] by (cases focused) auto
      with view_focus [OF new this] obtain b where b: "b \<in> set (displayed wss)" "focused = Some (sw_id b)" by blast
      from known [OF b(1)] have "\<not> iw_is_focused (known (sw_id b))"
        using f0 b(2) False by (auto simp: reports_def)
      then have "WorkspaceActivated (sw_id b) True \<in> set (workspace_changes focused (known (sw_id b)) b)"
        using b(2) by (simp add: workspace_changes_def)
      with own [OF b(1)] show ?thesis by blast
    qed
    ultimately show ?thesis using w(1) by (auto simp: reports_def)
  qed
  show ?thesis
    by (rule ipc_workspace_eqI [OF last urgent window active focus])
qed

lemma shown_Some: "shown t k = Some w \<longleftrightarrow> map_of t k = Some w \<and> \<not> iw_is_hidden w"
  by (auto simp: shown_def split: option.splits)

lemma not_every_nat: "{i :: nat} \<noteq> UNIV"
  by (metis finite.emptyI finite_insert infinite_UNIV_nat)

lemma shown_collect_report:
  assumes "distinct (map sw_id wss)"
  shows "shown (collect_by iw_id (report_workspaces focused wss place)) = table_of (report_workspaces focused wss place)"
proof
  fix k
  have d: "distinct (map iw_id (report_workspaces focused wss place))"
    unfolding report_ids using assms by (simp add: distinct_map_filter)
  have "\<not> iw_is_hidden w" if "w \<in> set (report_workspaces focused wss place)" for w
    using reported_from [OF that] by (auto simp: reports_def)
  then have "\<not> iw_is_hidden w" if "table_of (report_workspaces focused wss place) k = Some w" for w
    using that unfolding table_of_report [OF assms] by blast
  then show "shown (collect_by iw_id (report_workspaces focused wss place)) k = table_of (report_workspaces focused wss place) k"
    by (simp add: shown_def map_of_collect [OF d] table_of_def [symmetric] split: option.splits)
qed

text \<open>The server's copy and every client that showed the same workspaces show those of the layout\<close>

lemma workspaces_synced:
  assumes old: "layout_view_ok focused0 wss0" and new: "layout_view_ok focused wss"
    and t: "table_ok iw_id t" "shown t = table_of (report_workspaces focused0 wss0 (None, 0))"
    and c: "table_ok iw_id c" "shown c = shown t"
    and steady: "needs_all_workspaces t focused wss \<or>
      list_all (\<lambda>ws. list_all (\<lambda>(i, known). i = sw_id ws \<longrightarrow> iw_is_hidden known = sw_hidden ws) t) wss"
  shows "returns (consume apply_workspaces (workspace_events t focused wss) c)
           (\<lambda>c'. table_ok iw_id c' \<and> shown c' = table_of (report_workspaces focused wss (None, 0)))"
proof (cases "needs_all_workspaces t focused wss")
  case True
  have "distinct (map sw_id wss)" using new by (simp add: layout_view_ok_def)
  with True show ?thesis
    by (simp add: workspace_events_def table_ok_collect shown_collect_report)
next
  case False
  let ?R = "report_workspaces focused wss (None, 0)"
  obtain seen events where scan: "scan_workspaces t focused wss (None, 0) [] [] = (False, seen, events)"
    using False by (cases "scan_workspaces t focused wss (None, 0) [] []") (auto simp: needs_all_workspaces_def)
  define known where "known i = the (map_of t i)" for i
  note res = scan_result [OF scan]
  have ev: "workspace_events t focused wss =
      concat (map (\<lambda>ws. workspace_changes focused (known (sw_id ws)) ws) (displayed wss))"
    using False scan res by (simp add: workspace_events_def known_def)
  have dist: "distinct (map sw_id wss)" "distinct (map sw_id wss0)" using old new by (simp_all add: layout_view_ok_def)
  have at: "\<exists>w \<in> set ?R. reports focused ws w \<and> map_of t (sw_id ws) = Some (known (sw_id ws)) \<and>
      \<not> iw_is_hidden (known (sw_id ws)) \<and> lasting (known (sw_id ws)) = lasting w"
    if ws: "ws \<in> set (displayed wss)" for ws
  proof -
    from report_of [OF ws] obtain w where w: "w \<in> set ?R" "reports focused ws w" by blast
    with res obtain k where k: "map_of t (iw_id w) = Some k" "iw_idx k = iw_idx w" "iw_name k = iw_name w" "iw_output k = iw_output w"
      by blast
    have id: "iw_id w = sw_id ws" using w(2) by (simp add: reports_def)
    have "list_all (\<lambda>(i, known). i = sw_id ws \<longrightarrow> iw_is_hidden known = sw_hidden ws) t"
      using steady False ws by (auto simp: list_all_iff)
    then have "\<not> iw_is_hidden k" using map_of_SomeD [OF k(1)] id ws by (auto simp: list_all_iff)
    with w k id table_ok_key [OF t(1) k(1)] show ?thesis
      by (auto simp: known_def lasting_def reports_def intro!: bexI [of _ w])
  qed
  have was: "\<exists>ws0 \<in> set (displayed wss0). reports focused0 ws0 (known (sw_id ws)) \<and> sw_output ws0 = sw_output ws \<and> sw_id ws0 = sw_id ws"
    if ws: "ws \<in> set (displayed wss)" for ws
  proof -
    from at [OF ws] obtain w where w: "reports focused ws w" "map_of t (sw_id ws) = Some (known (sw_id ws))"
      "\<not> iw_is_hidden (known (sw_id ws))" "lasting (known (sw_id ws)) = lasting w" by blast
    then have "shown t (sw_id ws) = Some (known (sw_id ws))" by (simp add: shown_Some)
    then have "known (sw_id ws) \<in> set (report_workspaces focused0 wss0 (None, 0))"
      unfolding t(2) table_of_report [OF dist(2)] by simp
    from reported_from [OF this] w(1,4) show ?thesis by (auto simp: reports_def lasting_def)
  qed
  have in_c: "map_of c (sw_id ws) = Some (known (sw_id ws))" if "ws \<in> set (displayed wss)" for ws
    using at [OF that] fun_cong [OF c(2), of "sw_id ws"] by (auto simp: shown_Some [symmetric])
      (metis shown_Some)
  define out where "out i = iw_output (the (map_of c i))" for i
  have out: "out (sw_id ws) = sw_output ws" if "ws \<in> set (displayed wss)" for ws
    using in_c [OF that] at [OF that] by (auto simp: out_def reports_def lasting_def)
  have "\<forall>e \<in> set (workspace_events t focused wss). speaks_of e \<subseteq> dom (map_of c) \<and> speaks_of e \<noteq> UNIV"
    using in_c by (auto simp: ev workspace_changes_def not_every_nat split: if_splits)
  moreover have "\<forall>k v. map_of c k = Some v \<longrightarrow> out k = iw_output v" by (simp add: out_def)
  ultimately obtain c' where c': "consume apply_workspaces (workspace_events t focused wss) c = Some c'" "table_ok iw_id c'"
    "\<And>k. map_of c' k = map_option (fold (workspace_step out) (workspace_events t focused wss)) (map_of c k)"
    using consume_workspaces_step [OF c(1), of "workspace_events t focused wss" out] by (auto elim!: returnsE)
  have "shown c' k = table_of ?R k" for k
  proof (cases "k \<in> sw_id ` set (displayed wss)")
    case True
    then obtain ws where ws: "ws \<in> set (displayed wss)" "k = sw_id ws" by blast
    from at [OF ws(1)] obtain w where w: "w \<in> set ?R" "reports focused ws w" "lasting (known k) = lasting w"
      by (auto simp: ws(2))
    have "fold (workspace_step out) (workspace_events t focused wss) (known k) = w"
      unfolding ev ws(2)
      by (rule known_workspace_settles [OF old new was out ws(1) w(2)]) (use w(3) ws(2) in auto)
    with c'(3) [of k] in_c [OF ws(1)] ws(2) have "map_of c' k = Some w" by simp
    with w show ?thesis
      using table_of_report [OF dist(1), of focused "(None, 0)" k w] ws(2) by (auto simp: shown_def reports_def)
  next
    case no: False
    have "table_of ?R k = None"
      using no arg_cong [OF report_ids [of focused wss "(None, 0)"], of set]
      by (simp add: table_of_def map_of_eq_None_iff image_image)
    moreover have "shown c' k = None"
    proof (cases "map_of c k")
      case None
      with c'(3) [of k] show ?thesis by (simp add: shown_def)
    next
      case (Some v)
      have "iw_is_hidden v"
      proof (rule ccontr)
        assume "\<not> iw_is_hidden v"
        then have "shown t k = Some v" using Some c(2) by (metis shown_Some)
        then have v: "map_of t k = Some v" "\<not> iw_is_hidden v" by (simp_all add: shown_Some)
        have "k \<in> set seen"
          using False scan map_of_SomeD [OF v(1)] v(2) by (auto simp: needs_all_workspaces_def list_ex_iff)
        then obtain ws where ws: "ws \<in> set wss" "k = sw_id ws" using res by auto
        have "list_all (\<lambda>(i, known). i = sw_id ws \<longrightarrow> iw_is_hidden known = sw_hidden ws) t"
          using steady False ws(1) by (auto simp: list_all_iff)
        then have "\<not> sw_hidden ws" using map_of_SomeD [OF v(1)] v(2) ws(2) by (auto simp: list_all_iff)
        with no ws show False by auto
      qed
      moreover have "iw_is_hidden (fold (workspace_step out) es v) = iw_is_hidden v" for es
        using lasting_fold [of out es v] by (simp add: lasting_def)
      ultimately show ?thesis using c'(3) [of k] Some by (simp add: shown_def)
    qed
    ultimately show ?thesis by simp
  qed
  with c'(1,2) show ?thesis by auto
qed

end
