(* ===== verification/IpcHidden.thy ===== *)
theory IpcHidden
  imports IpcRefresh
begin

text \<open>
  Workspaces that are hidden or shown between two refreshes: \<open>ipc_refresh_workspaces\<close> does not
  look at the flag of the ones it knows, but on a monitor the indices of the workspaces after
  them change, so that the whole list is sent.
\<close>

section \<open>What the monitors look like\<close>

fun grouped :: "seen_workspace list \<Rightarrow> bool" where
  "grouped [] \<longleftrightarrow> True"
| "grouped (ws # wss) \<longleftrightarrow>
     list_all (\<lambda>w. sw_output w \<noteq> sw_output ws) (dropWhile (\<lambda>w. sw_output w = sw_output ws) wss) \<and> grouped wss"

definition on_output :: "string \<Rightarrow> seen_workspace list \<Rightarrow> seen_workspace list" where
  "on_output out wss = filter (\<lambda>ws. sw_output ws = Some out) wss"

text \<open>
  The workspaces of one monitor come by their indices, the hidden ones, which have names, after
  all others, the last of which has no name
\<close>

definition monitor_view :: "seen_workspace list \<Rightarrow> bool" where
  "monitor_view g \<longleftrightarrow>
     map sw_ws_idx g = [0..<length g] \<and> length g < 255 \<and> g = displayed g @ filter sw_hidden g \<and>
     (\<forall>ws \<in> set (filter sw_hidden g). sw_name ws \<noteq> None) \<and>
     (g \<noteq> [] \<longrightarrow> displayed g \<noteq> [] \<and> sw_name (last (displayed g)) = None)"

definition monitors_view :: "seen_workspace list \<Rightarrow> bool" where
  "monitors_view wss \<longleftrightarrow>
     grouped wss \<and> ((\<forall>ws \<in> set wss. sw_output ws = None) \<or> (\<forall>ws \<in> set wss. sw_output ws \<noteq> None)) \<and>
     (\<forall>out. monitor_view (on_output out wss))"

lemma grouped_appendD: "grouped (xs @ ys) \<Longrightarrow> grouped ys"
  by (induction xs) auto

lemma grouped_between:
  assumes "grouped (a # xs @ y # zs)" "sw_output y = sw_output a" "x \<in> set xs"
  shows "sw_output x = sw_output a"
proof (rule ccontr)
  let ?P = "\<lambda>w. sw_output w = sw_output a"
  assume "\<not> ?P x"
  then have "dropWhile ?P (xs @ y # zs) = dropWhile ?P xs @ y # zs" using dropWhile_append1 [OF assms(3), of ?P] by simp
  then have "y \<in> set (dropWhile ?P (xs @ y # zs))" by simp
  with assms(1,2) show False unfolding grouped.simps list_all_iff by blast
qed

section \<open>The index that is reported\<close>

abbreviation shown_on :: "string option \<Rightarrow> seen_workspace list \<Rightarrow> nat" where
  "shown_on out wss \<equiv> length (filter (\<lambda>w. sw_output w = out \<and> \<not> sw_hidden w) wss)"

text \<open>The output and the count that the loop carries past \<open>wss\<close>\<close>

definition place_after :: "seen_workspace list \<Rightarrow> string option \<times> nat" where
  "place_after wss =
     (if displayed wss = [] then (None, 0)
      else (sw_output (last (displayed wss)), shown_on (sw_output (last (displayed wss))) wss))"

lemma place_step:
  assumes "grouped (pre @ ws # rest)" "\<not> sw_hidden ws"
  shows "visible_place ws (place_after pre) = (sw_output ws, shown_on (sw_output ws) pre)"
    "place_after (pre @ [ws]) = (sw_output ws, shown_on (sw_output ws) pre + 1)"
proof -
  show "place_after (pre @ [ws]) = (sw_output ws, shown_on (sw_output ws) pre + 1)"
    using assms(2) by (simp add: place_after_def)
  have none: "shown_on (sw_output ws) pre = 0" if "displayed pre \<noteq> [] \<longrightarrow> sw_output (last (displayed pre)) \<noteq> sw_output ws"
  proof (rule ccontr)
    assume "shown_on (sw_output ws) pre \<noteq> 0"
    then obtain a where a: "a \<in> set pre" "sw_output a = sw_output ws" "\<not> sw_hidden a" by (auto simp: filter_empty_conv)
    let ?l = "last (displayed pre)"
    have ne: "displayed pre \<noteq> []" using a by (auto simp: filter_empty_conv)
    obtain p q where pq: "pre = p @ a # q" using a(1) by (auto simp: in_set_conv_decomp)
    have "?l \<in> set q \<or> ?l = a"
      using a(3) by (cases "displayed q = []") (auto simp: pq dest: last_in_set)
    moreover have "grouped (a # q @ ws # rest)" using grouped_appendD [of p "a # q @ ws # rest"] assms(1) unfolding pq by simp
    ultimately have "sw_output ?l = sw_output a"
    proof (elim disjE)
      assume "?l \<in> set q" "grouped (a # q @ ws # rest)"
      then show ?thesis using a(2) by (intro grouped_between [of a q ws rest ?l]) simp_all
    qed simp
    with that ne a(2) show False by simp
  qed
  show "visible_place ws (place_after pre) = (sw_output ws, shown_on (sw_output ws) pre)"
  proof (cases "displayed pre \<noteq> [] \<and> sw_output (last (displayed pre)) = sw_output ws")
    case True
    then show ?thesis by (simp add: visible_place_def place_after_def)
  next
    case False
    then have "shown_on (sw_output ws) pre = 0" by (intro none) auto
    with False show ?thesis by (auto simp: visible_place_def place_after_def)
  qed
qed

lemma report_places:
  assumes "grouped (pre @ rest)" "w \<in> set (report_workspaces focused rest (place_after pre))"
  shows "\<exists>a ws b. rest = a @ ws # b \<and> \<not> sw_hidden ws \<and> reports focused ws w \<and>
    iw_idx w = u8_index (shown_on (sw_output ws) (pre @ a))"
  using assms
proof (induction rest arbitrary: pre)
  case (Cons ws rest)
  show ?case
  proof (cases "sw_hidden ws")
    case True
    have "place_after (pre @ [ws]) = place_after pre" using True by (simp add: place_after_def)
    with Cons.prems True have "w \<in> set (report_workspaces focused rest (place_after (pre @ [ws])))" by simp
    from Cons.IH [OF _ this] Cons.prems(1) obtain a x b where
      "rest = a @ x # b" "\<not> sw_hidden x" "reports focused x w" "iw_idx w = u8_index (shown_on (sw_output x) ((pre @ [ws]) @ a))"
      by auto
    then show ?thesis by (intro exI [of _ "ws # a"] exI [of _ x] exI [of _ b]) simp
  next
    case False
    note p = place_step [OF Cons.prems(1) False]
    have "w = \<lparr>iw_id = sw_id ws, iw_idx = u8_index (shown_on (sw_output ws) pre), iw_name = sw_name ws, iw_output = sw_output ws,
          iw_is_urgent = sw_urgent ws, iw_is_active = sw_active ws, iw_is_focused = (Some (sw_id ws) = focused),
          iw_active_window_id = sw_active_window ws, iw_is_hidden = False\<rparr> \<or>
        w \<in> set (report_workspaces focused rest (place_after (pre @ [ws])))"
      using Cons.prems(2) False by (auto simp: p Let_def)
    then show ?thesis
    proof
      assume "w \<in> set (report_workspaces focused rest (place_after (pre @ [ws])))"
      from Cons.IH [OF _ this] Cons.prems(1) obtain a x b where
        "rest = a @ x # b" "\<not> sw_hidden x" "reports focused x w" "iw_idx w = u8_index (shown_on (sw_output x) ((pre @ [ws]) @ a))"
        by auto
      then show ?thesis by (intro exI [of _ "ws # a"] exI [of _ x] exI [of _ b]) simp
    qed (use False in \<open>auto simp: reports_def intro!: exI [of _ "[]"]\<close>)
  qed
qed simp

text \<open>On a monitor the index that is reported is the one in its vector\<close>

lemma monitor_view_at:
  assumes g: "monitor_view (on_output out wss)" and wss: "wss = a @ ws # b" "sw_output ws = Some out"
  defines "n \<equiv> length (displayed (on_output out wss))"
  shows "sw_ws_idx ws = length (on_output out a)" "sw_ws_idx ws < 255"
    "\<not> sw_hidden ws \<Longrightarrow> sw_ws_idx ws < n \<and> shown_on (Some out) a = sw_ws_idx ws"
    "sw_hidden ws \<Longrightarrow> n \<le> sw_ws_idx ws \<and> sw_name ws \<noteq> None"
proof -
  let ?g = "on_output out wss" and ?i = "length (on_output out a)"
  have sp: "?g = on_output out a @ ws # on_output out b" by (simp add: on_output_def wss)
  then have i: "?i < length ?g" "?g ! ?i = ws" by simp_all
  have m: "map sw_ws_idx ?g = [0..<length ?g]" "length ?g < 255" "?g = displayed ?g @ filter sw_hidden ?g"
    using g by (simp_all add: monitor_view_def)
  have "map sw_ws_idx ?g ! ?i = [0..<length ?g] ! ?i" using m(1) by simp
  then show idx: "sw_ws_idx ws = ?i" using i by simp
  with i m(2) show "sw_ws_idx ws < 255" by simp
  have lt: "?g ! k \<in> set (displayed ?g)" if "k < n" for k
    using that m(3) unfolding n_def by (metis nth_append nth_mem)
  have ge: "?g ! k \<in> set (filter sw_hidden ?g)" if "n \<le> k" "k < length ?g" for k
    using that m(3) unfolding n_def
    by (metis (no_types, lifting) add_diff_inverse_nat length_append nat_add_left_cancel_less not_less nth_append nth_mem)
  show "n \<le> sw_ws_idx ws \<and> sw_name ws \<noteq> None" if "sw_hidden ws"
  proof
    show "n \<le> sw_ws_idx ws" using lt [of ?i] i that idx by (metis (mono_tags, lifting) mem_Collect_eq not_le set_filter)
    have "ws \<in> set (filter sw_hidden ?g)" using that sp by simp
    then show "sw_name ws \<noteq> None" using g unfolding monitor_view_def by blast
  qed
  show "sw_ws_idx ws < n \<and> shown_on (Some out) a = sw_ws_idx ws" if "\<not> sw_hidden ws"
  proof
    show l: "sw_ws_idx ws < n" using ge [of ?i] i that idx by (metis (mono_tags, lifting) mem_Collect_eq not_le set_filter)
    have "\<not> sw_hidden x" if "x \<in> set (on_output out a)" for x
    proof -
      from that obtain k where k: "k < ?i" "on_output out a ! k = x" by (auto simp: in_set_conv_nth)
      then have "?g ! k = x" "k < n" using l idx by (simp_all add: sp nth_append)
      with lt [of k] show ?thesis by auto
    qed
    then have "displayed (on_output out a) = on_output out a" by (simp add: filter_id_conv)
    then show "shown_on (Some out) a = sw_ws_idx ws" by (simp add: idx on_output_def)
  qed
qed

lemma reported_index:
  assumes v: "monitors_view wss" and w: "w \<in> set (report_workspaces focused wss (None, 0))"
  shows "\<exists>ws \<in> set (displayed wss). reports focused ws w \<and> (sw_output ws \<noteq> None \<longrightarrow> iw_idx w = u8_index (sw_ws_idx ws))"
proof -
  have "place_after [] = (None, 0)" by (simp add: place_after_def)
  with report_places [of "[]" wss w focused] v w obtain a ws b where
    s: "wss = a @ ws # b" "\<not> sw_hidden ws" "reports focused ws w" "iw_idx w = u8_index (shown_on (sw_output ws) a)"
    by (auto simp: monitors_view_def)
  have "iw_idx w = u8_index (sw_ws_idx ws)" if "sw_output ws = Some out" for out
    using monitor_view_at(3) [OF _ s(1) that s(2)] v s(4) by (simp add: monitors_view_def that)
  with s show ?thesis by auto
qed

lemma u8_index_inj: "i < 255 \<Longrightarrow> j < 255 \<Longrightarrow> u8_index i = u8_index j \<longleftrightarrow> i = j"
  by (simp add: u8_index_def)

abbreviation shown_count :: "string \<Rightarrow> seen_workspace list \<Rightarrow> nat" where
  "shown_count out wss \<equiv> length (displayed (on_output out wss))"

text \<open>What there is at every index that is shown\<close>

lemma monitor_shows:
  assumes v: "monitors_view wss" and k: "k < shown_count out wss"
  shows "\<exists>ws \<in> set (displayed wss). sw_output ws = Some out \<and> sw_ws_idx ws = k \<and> (k + 1 = shown_count out wss \<longrightarrow> sw_name ws = None)"
proof -
  let ?g = "on_output out wss" and ?v = "displayed (on_output out wss)"
  have g: "monitor_view ?g" using v by (simp add: monitors_view_def)
  have m: "map sw_ws_idx ?g = [0..<length ?g]" "?g = ?v @ filter sw_hidden ?g" "?g \<noteq> [] \<longrightarrow> sw_name (last ?v) = None"
    using g by (simp_all add: monitor_view_def)
  have kl: "k < length ?g" using k le_less_trans [OF length_filter_le] less_le_trans [OF k length_filter_le] by simp
  have "?g ! k = ?v ! k" using m(2) k by (metis nth_append)
  moreover have "map sw_ws_idx ?g ! k = k" using m(1) kl by simp
  ultimately have "sw_ws_idx (?v ! k) = k" using kl by simp
  moreover have "?v ! k \<in> set ?v" using k by (rule nth_mem)
  moreover have "sw_name (?v ! k) = None" if "k + 1 = length ?v"
  proof -
    have "?v \<noteq> []" using k by auto
    from last_conv_nth [OF this] have "last ?v = ?v ! (length ?v - 1)" .
    moreover have "length ?v - 1 = k" using that by linarith
    ultimately have "?v ! k = last ?v" by simp
    moreover have "?g \<noteq> []" using kl by force
    ultimately show ?thesis using m(3) by metis
  qed
  ultimately show ?thesis by (auto simp: on_output_def intro!: bexI [of _ "?v ! k"])
qed

section \<open>Hiding and showing is noticed\<close>

text \<open>
  Between two refreshes the last workspace shown on a monitor, which has no name, is not hidden,
  and without outputs no workspace is hidden or shown, except that one that loses its name is shown
\<close>

definition hidden_soundly :: "seen_workspace list \<Rightarrow> seen_workspace list \<Rightarrow> bool" where
  "hidden_soundly wss0 wss \<longleftrightarrow>
     (\<forall>ws0 \<in> set wss0. \<forall>ws \<in> set wss. sw_id ws = sw_id ws0 \<longrightarrow>
        (case sw_output ws0 of
           Some out \<Rightarrow> \<not> sw_hidden ws0 \<longrightarrow> sw_ws_idx ws0 + 1 = shown_count out wss0 \<longrightarrow> \<not> sw_hidden ws
         | None \<Rightarrow> sw_output ws = None \<longrightarrow>
             (if sw_hidden ws then sw_hidden ws0 else sw_name ws = sw_name ws0 \<longrightarrow> \<not> sw_hidden ws0)))"

text \<open>What the server knows of the hidden workspaces; one that is gone may be remembered\<close>

definition knows_hidden :: "ipc_workspace table \<Rightarrow> seen_workspace list \<Rightarrow> seen_workspace list \<Rightarrow> bool" where
  "knows_hidden t wss0 wss \<longleftrightarrow>
     (\<forall>(i, known) \<in> set t. iw_is_hidden known \<longrightarrow> i \<in> sw_id ` set wss \<longrightarrow>
        (\<exists>ws0 \<in> set (filter sw_hidden wss0). sw_id ws0 = i \<and> known = hidden_workspace ws0))"

lemma at_place:
  assumes v: "monitors_view wss" and ws: "ws \<in> set wss" "sw_output ws = Some out"
  shows "sw_ws_idx ws < 255" "\<not> sw_hidden ws \<Longrightarrow> sw_ws_idx ws < shown_count out wss"
    "sw_hidden ws \<Longrightarrow> shown_count out wss \<le> sw_ws_idx ws \<and> sw_name ws \<noteq> None"
proof -
  obtain a b where "wss = a @ ws # b" using ws(1) by (auto simp: in_set_conv_decomp)
  moreover have "monitor_view (on_output out wss)" using v by (simp add: monitors_view_def)
  ultimately show "sw_ws_idx ws < 255" "\<not> sw_hidden ws \<Longrightarrow> sw_ws_idx ws < shown_count out wss"
    "sw_hidden ws \<Longrightarrow> shown_count out wss \<le> sw_ws_idx ws \<and> sw_name ws \<noteq> None"
    using monitor_view_at [of out wss a ws b] ws(2) by blast+
qed

lemma monitor_has_last:
  assumes v: "monitors_view wss" and ws: "ws \<in> set wss" "sw_output ws = Some out"
  shows "0 < shown_count out wss"
proof -
  have "on_output out wss \<noteq> []" using ws by (auto simp: on_output_def filter_empty_conv)
  then have "displayed (on_output out wss) \<noteq> []" using v unfolding monitors_view_def monitor_view_def by blast
  then show ?thesis by simp
qed

text \<open>Two refreshes, the second of which does not send the whole list\<close>

definition quiet_refresh ::
  "ipc_workspace table \<Rightarrow> nat option \<Rightarrow> seen_workspace list \<Rightarrow> nat option \<Rightarrow> seen_workspace list \<Rightarrow> bool" where
  "quiet_refresh t focused0 wss0 focused wss \<longleftrightarrow>
     monitors_view wss0 \<and> distinct (map sw_id wss0) \<and> monitors_view wss \<and> distinct (map sw_id wss) \<and>
     table_ok iw_id t \<and> shown t = table_of (report_workspaces focused0 wss0 (None, 0)) \<and> knows_hidden t wss0 wss \<and>
     hidden_soundly wss0 wss \<and> \<not> needs_all_workspaces t focused wss"

lemma same_entry: "distinct (map sw_id wss) \<Longrightarrow> a \<in> set wss \<Longrightarrow> b \<in> set wss \<Longrightarrow> sw_id a = sw_id b \<Longrightarrow> a = b"
  by (auto simp: distinct_map dest: inj_onD)

text \<open>The workspaces that are shown are known with the index they have\<close>

lemma shown_is_known:
  assumes q: "quiet_refresh t focused0 wss0 focused wss" and ws: "ws \<in> set (displayed wss)"
  shows "\<exists>k. map_of t (sw_id ws) = Some k \<and> iw_name k = sw_name ws \<and> iw_output k = sw_output ws \<and>
    (sw_output ws \<noteq> None \<longrightarrow> iw_idx k = u8_index (sw_ws_idx ws))"
proof -
  obtain seen events where scan: "scan_workspaces t focused wss (None, 0) [] [] = (False, seen, events)"
    using q by (cases "scan_workspaces t focused wss (None, 0) [] []") (auto simp: quiet_refresh_def needs_all_workspaces_def)
  from report_of [OF ws] obtain w where w: "w \<in> set (report_workspaces focused wss (None, 0))" "reports focused ws w" by blast
  from reported_index [OF _ w(1)] q obtain x where
    x: "x \<in> set (displayed wss)" "reports focused x w" "sw_output x \<noteq> None \<longrightarrow> iw_idx w = u8_index (sw_ws_idx x)"
    by (auto simp: quiet_refresh_def)
  have "x = ws" using q x(1,2) ws w(2) by (intro same_entry [of wss]) (simp_all add: quiet_refresh_def reports_def)
  with x(3) scan_result [OF scan] w show ?thesis by (auto simp: reports_def)
qed

text \<open>What is known as shown was reported, what is known as hidden was hidden\<close>

lemma known_was_shown:
  assumes q: "quiet_refresh t focused0 wss0 focused wss" and k: "map_of t i = Some k" "\<not> iw_is_hidden k"
  shows "\<exists>ws0 \<in> set (displayed wss0). sw_id ws0 = i \<and> iw_name k = sw_name ws0 \<and> iw_output k = sw_output ws0 \<and>
    (sw_output ws0 \<noteq> None \<longrightarrow> iw_idx k = u8_index (sw_ws_idx ws0))"
proof -
  have v0: "monitors_view wss0" "distinct (map sw_id wss0)" "shown t = table_of (report_workspaces focused0 wss0 (None, 0))"
    using q by (simp_all add: quiet_refresh_def)
  have "shown t i = Some k" using k by (simp add: shown_Some)
  then have "k \<in> set (report_workspaces focused0 wss0 (None, 0))" "iw_id k = i" unfolding v0(3) table_of_report [OF v0(2)] by simp_all
  with reported_index [OF v0(1)] show ?thesis by (fastforce simp: reports_def)
qed

lemma known_was_hidden:
  assumes "quiet_refresh t focused0 wss0 focused wss" "map_of t i = Some k" "iw_is_hidden k" "i \<in> sw_id ` set wss"
  shows "\<exists>ws0 \<in> set wss0. sw_hidden ws0 \<and> sw_id ws0 = i \<and> k = hidden_workspace ws0"
  using assms(1,3,4) map_of_SomeD [OF assms(2)] by (fastforce simp: quiet_refresh_def knows_hidden_def)

text \<open>A shown workspace of a monitor was at its index before, on the same monitor\<close>

lemma index_kept:
  assumes q: "quiet_refresh t focused0 wss0 focused wss" and ws: "ws \<in> set (displayed wss)" "sw_output ws = Some out"
    and low: "sw_name ws = None \<or> sw_ws_idx ws < shown_count out wss0"
  shows "\<exists>ws0 \<in> set (displayed wss0). sw_id ws0 = sw_id ws \<and> sw_output ws0 = Some out \<and> sw_ws_idx ws0 = sw_ws_idx ws"
proof -
  have v0: "monitors_view wss0" and v: "monitors_view wss" using q by (simp_all add: quiet_refresh_def)
  from shown_is_known [OF q ws(1)] ws(2) obtain k where
    k: "map_of t (sw_id ws) = Some k" "iw_name k = sw_name ws" "iw_output k = Some out" "iw_idx k = u8_index (sw_ws_idx ws)" by auto
  have in_wss: "ws \<in> set wss" using ws(1) by simp
  show ?thesis
  proof (cases "iw_is_hidden k")
    case True
    with known_was_hidden [OF q k(1)] in_wss obtain ws0 where
      ws0: "ws0 \<in> set wss0" "sw_hidden ws0" "k = hidden_workspace ws0" by auto
    have o0: "sw_output ws0 = Some out" using k(3) ws0(3) by (simp add: hidden_workspace_def)
    note p0 = at_place [OF v0 ws0(1) o0]
    have "sw_ws_idx ws0 = sw_ws_idx ws"
      using k(4) ws0(3) u8_index_inj [OF p0(1) at_place(1) [OF v in_wss ws(2)]] by (simp add: hidden_workspace_def)
    moreover have "sw_name ws = sw_name ws0" using k(2) ws0(3) by (simp add: hidden_workspace_def)
    ultimately show ?thesis using p0(3) ws0(2) low by simp
  next
    case False
    from known_was_shown [OF q k(1) False] k(3,4) obtain ws0 where
      ws0: "ws0 \<in> set (displayed wss0)" "sw_id ws0 = sw_id ws" "sw_output ws0 = Some out" "u8_index (sw_ws_idx ws) = u8_index (sw_ws_idx ws0)"
      by auto
    have "ws0 \<in> set wss0" using ws0(1) by simp
    from u8_index_inj [OF at_place(1) [OF v in_wss ws(2)] at_place(1) [OF v0 this ws0(3)]] ws0 show ?thesis by auto
  qed
qed

lemma count_kept:
  assumes q: "quiet_refresh t focused0 wss0 focused wss" and pos: "0 < shown_count out wss"
  shows "shown_count out wss \<le> shown_count out wss0"
    "\<exists>ws0 \<in> set (displayed wss0). sw_output ws0 = Some out"
proof -
  have v0: "monitors_view wss0" and v: "monitors_view wss" using q by (simp_all add: quiet_refresh_def)
  let ?k = "shown_count out wss - 1"
  have "?k < shown_count out wss" "?k + 1 = shown_count out wss" using pos by simp_all
  with monitor_shows [OF v] obtain ws where
    ws: "ws \<in> set (displayed wss)" "sw_output ws = Some out" "sw_ws_idx ws = ?k" "sw_name ws = None" by blast
  from index_kept [OF q ws(1,2)] ws(3,4) obtain ws0 where
    ws0: "ws0 \<in> set (displayed wss0)" "sw_output ws0 = Some out" "sw_ws_idx ws0 = ?k" by auto
  then show "\<exists>ws0 \<in> set (displayed wss0). sw_output ws0 = Some out" by blast
  have "?k < shown_count out wss0" using at_place(2) [OF v0, of ws0 out] ws0 by simp
  then show "shown_count out wss \<le> shown_count out wss0" by linarith
qed

lemma shown_was_shown:
  assumes q: "quiet_refresh t focused0 wss0 focused wss" and ws: "ws \<in> set wss" "\<not> sw_hidden ws" and k: "map_of t (sw_id ws) = Some k"
  shows "\<not> iw_is_hidden k"
proof
  assume hk: "iw_is_hidden k"
  have v: "monitors_view wss" and d0: "distinct (map sw_id wss0)" and sound: "hidden_soundly wss0 wss"
    using q by (simp_all add: quiet_refresh_def)
  have d: "ws \<in> set (displayed wss)" using ws by simp
  from known_was_hidden [OF q k hk] ws obtain ws0 where
    ws0: "ws0 \<in> set wss0" "sw_hidden ws0" "sw_id ws0 = sw_id ws" "k = hidden_workspace ws0" by auto
  from shown_is_known [OF q d] k ws0(4) have same: "sw_name ws0 = sw_name ws" "sw_output ws0 = sw_output ws"
    by (auto simp: hidden_workspace_def)
  show False
  proof (cases "sw_output ws")
    case None
    with same have "sw_output ws0 = None" by simp
    with sound ws0 ws None same(1) show False unfolding hidden_soundly_def by force
  next
    case (Some out)
    have "sw_ws_idx ws < shown_count out wss" by (rule at_place(2) [OF v ws(1) Some ws(2)])
    then have "sw_ws_idx ws < shown_count out wss0" using count_kept(1) [OF q, of out] by linarith
    from index_kept [OF q d Some] this obtain x where x: "x \<in> set (displayed wss0)" "sw_id x = sw_id ws" by auto
    then have "x = ws0" using same_entry [OF d0, of x ws0] ws0(1,3) by simp
    with x(1) ws0(2) show False by simp
  qed
qed

text \<open>The last workspace that was shown on a monitor still is, at its index\<close>

lemma last_stays:
  assumes q: "quiet_refresh t focused0 wss0 focused wss" and pos: "0 < shown_count out wss0"
  shows "shown_count out wss0 \<le> shown_count out wss"
proof -
  have v0: "monitors_view wss0" "distinct (map sw_id wss0)" and v: "monitors_view wss" and sound: "hidden_soundly wss0 wss"
    and t: "shown t = table_of (report_workspaces focused0 wss0 (None, 0))"
    using q by (simp_all add: quiet_refresh_def)
  obtain seen events where scan: "scan_workspaces t focused wss (None, 0) [] [] = (False, seen, events)"
    using q by (cases "scan_workspaces t focused wss (None, 0) [] []") (auto simp: quiet_refresh_def needs_all_workspaces_def)
  let ?n0 = "shown_count out wss0"
  have "?n0 - 1 < ?n0" "?n0 - 1 + 1 = ?n0" using pos by simp_all
  with monitor_shows [OF v0(1)] obtain l0 where
    l0: "l0 \<in> set (displayed wss0)" "sw_output l0 = Some out" "sw_ws_idx l0 = ?n0 - 1" by blast
  from report_of [OF l0(1)] obtain w0 where w0: "w0 \<in> set (report_workspaces focused0 wss0 (None, 0))" "reports focused0 l0 w0" by blast
  then have "shown t (sw_id l0) = Some w0" unfolding t table_of_report [OF v0(2)] by (simp add: reports_def)
  then have m: "map_of t (sw_id l0) = Some w0" "\<not> iw_is_hidden w0" by (simp_all add: shown_Some)
  have "sw_id l0 \<in> set seen"
    using q scan map_of_SomeD [OF m(1)] m(2) by (auto simp: quiet_refresh_def needs_all_workspaces_def list_ex_iff)
  then obtain l where l: "l \<in> set wss" "sw_id l = sw_id l0" using scan_result [OF scan] by auto
  have "sw_ws_idx l0 + 1 = ?n0" using l0(3) pos by linarith
  then have vis: "\<not> sw_hidden l" using sound l l0(1,2) unfolding hidden_soundly_def by fastforce
  then have ld: "l \<in> set (displayed wss)" using l(1) by simp
  from shown_is_known [OF q ld] l(2) m(1) w0(2) l0(2) have lo: "sw_output l = Some out" "iw_idx w0 = u8_index (sw_ws_idx l)"
    by (auto simp: reports_def)
  from known_was_shown [OF q m] obtain x where x: "x \<in> set (displayed wss0)" "sw_id x = sw_id l0"
    "sw_output x \<noteq> None \<longrightarrow> iw_idx w0 = u8_index (sw_ws_idx x)" by blast
  have "x = l0" using same_entry [OF v0(2), of x l0] x(1,2) l0(1) by simp
  with x(3) l0(2) have "iw_idx w0 = u8_index (sw_ws_idx l0)" by simp
  moreover have "l0 \<in> set wss0" using l0(1) by simp
  ultimately have "sw_ws_idx l = ?n0 - 1"
    using u8_index_inj [OF at_place(1) [OF v l(1) lo(1)] at_place(1) [OF v0(1) _ l0(2)]] l0(3) lo(2) by simp
  then show ?thesis using at_place(2) [OF v l(1) lo(1) vis] pos by linarith
qed

lemma hidden_was_hidden:
  assumes q: "quiet_refresh t focused0 wss0 focused wss" and ws: "ws \<in> set wss" "sw_hidden ws" and k: "map_of t (sw_id ws) = Some k"
  shows "iw_is_hidden k"
proof (rule ccontr)
  assume hk: "\<not> iw_is_hidden k"
  have v0: "monitors_view wss0" "distinct (map sw_id wss0)" and v: "monitors_view wss" "distinct (map sw_id wss)"
    and sound: "hidden_soundly wss0 wss"
    using q by (simp_all add: quiet_refresh_def)
  from known_was_shown [OF q k hk] obtain ws0 where ws0: "ws0 \<in> set (displayed wss0)" "sw_id ws0 = sw_id ws" by auto
  then have in0: "ws0 \<in> set wss0" "\<not> sw_hidden ws0" by simp_all
  show False
  proof (cases "sw_output ws0")
    case None
    then have all0: "\<forall>x \<in> set wss0. sw_output x = None" using v0(1) in0(1) unfolding monitors_view_def by metis
    show False
    proof (cases "sw_output ws")
      case wn: None
      with sound in0 ws ws0(2) None show False unfolding hidden_soundly_def by force
    next
      case (Some out)
      from count_kept(2) [OF q monitor_has_last [OF v(1) ws(1) Some]] all0 show False by auto
    qed
  next
    case (Some out)
    have i0: "sw_ws_idx ws0 < shown_count out wss0" by (rule at_place(2) [OF v0(1) in0(1) Some in0(2)])
    then have "sw_ws_idx ws0 < shown_count out wss" using last_stays [OF q, of out] by linarith
    with monitor_shows [OF v(1)] obtain x where
      x: "x \<in> set (displayed wss)" "sw_output x = Some out" "sw_ws_idx x = sw_ws_idx ws0" by blast
    from index_kept [OF q x(1,2)] x(3) i0 obtain y where
      y: "y \<in> set (displayed wss0)" "sw_id y = sw_id x" "sw_output y = Some out" "sw_ws_idx y = sw_ws_idx ws0" by auto
    have "distinct (map sw_ws_idx (on_output out wss0))" using v0(1) by (simp add: monitors_view_def monitor_view_def)
    moreover have "y \<in> set (on_output out wss0)" "ws0 \<in> set (on_output out wss0)"
      using y(1,3) in0(1) Some by (simp_all add: on_output_def)
    ultimately have "y = ws0" using y(4) by (auto simp: distinct_map dest: inj_onD)
    then have "x = ws" using same_entry [OF v(2), of x ws] x(1) ws(1) y(2) ws0(2) by simp
    with x(1) ws(2) show False by simp
  qed
qed

lemma hiding_is_noticed:
  assumes "quiet_refresh t focused0 wss0 focused wss"
  shows "list_all (\<lambda>ws. list_all (\<lambda>(i, known). i = sw_id ws \<longrightarrow> iw_is_hidden known = sw_hidden ws) t) wss"
  unfolding list_all_iff
proof (intro ballI, clarify)
  fix ws k assume ws: "ws \<in> set wss" and "(sw_id ws, k) \<in> set t"
  then have k: "map_of t (sw_id ws) = Some k" using assms by (simp add: quiet_refresh_def table_ok_def)
  show "iw_is_hidden k = sw_hidden ws"
    using shown_was_shown [OF assms ws _ k] hidden_was_hidden [OF assms ws _ k] by blast
qed

end
