(* ===== verification/EventStreamClaims.thy ===== *)
theory EventStreamClaims
  imports IpcHidden
begin

text \<open>
  The properties of the event stream: what a new client learns, what every event may do, and
  that the refresh of the server keeps every client in step with the layout.
\<close>

section \<open>The server's own state\<close>

lemma table_ok_hidden:
  "table_ok iw_id t \<Longrightarrow> table_ok iw_id (fold (\<lambda>ws. AList.update (sw_id ws) (hidden_workspace ws)) hs t)"
  by (induction hs arbitrary: t) (simp_all add: table_ok_update hidden_workspace_def)

lemma shown_hidden:
  "shown (fold (\<lambda>ws. AList.update (sw_id ws) (hidden_workspace ws)) hs t) k =
     (if k \<in> sw_id ` set hs then None else shown t k)"
proof (induction hs arbitrary: t)
  case (Cons h hs)
  have "shown (AList.update (sw_id h) (hidden_workspace h) t) k = (if k = sw_id h then None else shown t k)"
    by (simp add: shown_def AList.update_conv' hidden_workspace_def)
  with Cons.IH [of "AList.update (sw_id h) (hidden_workspace h) t"] show ?case by auto
qed simp

lemma server_workspaces_synced:
  assumes old: "layout_view_ok focused0 wss0" and new: "layout_view_ok focused wss"
    and t: "table_ok iw_id t" "shown t = table_of (report_workspaces focused0 wss0 (None, 0))"
    and steady: "needs_all_workspaces t focused wss \<or>
      list_all (\<lambda>ws. list_all (\<lambda>(i, known). i = sw_id ws \<longrightarrow> iw_is_hidden known = sw_hidden ws) t) wss"
  shows "returns (ipc_refresh_workspaces focused wss t) (\<lambda>(events, t'). events = workspace_events t focused wss \<and>
           table_ok iw_id t' \<and> shown t' = table_of (report_workspaces focused wss (None, 0)))"
proof -
  from workspaces_synced [OF old new t t(1) refl steady] obtain c' where
    c': "consume apply_workspaces (workspace_events t focused wss) t = Some c'" "table_ok iw_id c'"
      "shown c' = table_of (report_workspaces focused wss (None, 0))"
    by (auto elim!: returnsE)
  have "table_of (report_workspaces focused wss (None, 0)) k = None" if "k \<in> sw_id ` set (filter sw_hidden wss)" for k
  proof -
    have "distinct (map sw_id wss)" using new by (simp add: layout_view_ok_def)
    with that have "k \<notin> sw_id ` set (displayed wss)" by (auto simp: distinct_map dest: inj_onD)
    with arg_cong [OF report_ids [of focused wss "(None, 0)"], of set] show ?thesis
      by (simp add: table_of_def map_of_eq_None_iff image_image)
  qed
  then have "shown (fold (\<lambda>ws. AList.update (sw_id ws) (hidden_workspace ws)) (filter sw_hidden wss) c') =
      table_of (report_workspaces focused wss (None, 0))"
    unfolding c'(3) [symmetric] by (intro ext) (simp add: shown_hidden c'(3))
  with c' table_ok_hidden [OF c'(2)] show ?thesis by (simp add: ipc_refresh_workspaces_def)
qed

section \<open>Examples\<close>

definition demo_seen :: "nat \<Rightarrow> nat \<Rightarrow> string option \<Rightarrow> bool \<Rightarrow> nat option \<Rightarrow> nat \<Rightarrow> seen_workspace" where
  "demo_seen idx i name hidden w active = \<lparr>sw_output = Some ''DP-1'', sw_mon_active_idx = Some active, sw_ws_idx = idx,
     sw_id = i, sw_name = name, sw_hidden = hidden, sw_urgent = False, sw_active_window = w\<rparr>"

definition demo_before :: "seen_workspace list" where
  "demo_before = [demo_seen 0 1 None False (Some 11) 0, demo_seen 1 2 (Some ''web'') False (Some 21) 0, demo_seen 2 3 None False None 0]"

definition demo_after :: "seen_workspace list" where
  "demo_after = [demo_seen 0 1 None False (Some 12) 1, demo_seen 1 2 (Some ''web'') False (Some 21) 1, demo_seen 2 3 None False None 1]"

definition demo_table :: "ipc_workspace table" where
  "demo_table = map (\<lambda>w. (iw_id w, w)) (report_workspaces (Some 1) demo_before (None, 0))"

definition demo_window :: "nat \<Rightarrow> bool \<Rightarrow> ipc_window" where
  "demo_window i focused = \<lparr>iwin_id = i, iwin_title = None, iwin_app_id = Some ''term'', iwin_pid = None,
     iwin_workspace_id = Some 1, iwin_is_focused = focused, iwin_is_floating = False, iwin_is_sticky = False,
     iwin_is_urgent = False,
     iwin_layout = \<lparr>wl_pos_in_scrolling_layout = Some (1, 1), wl_tile_size = (0, 0), wl_window_size = (0, 0),
       wl_tile_pos_in_workspace_view = None, wl_window_offset_in_tile = (0, 0)\<rparr>,
     iwin_focus_timestamp = None\<rparr>"

lemma demo_layouts_ok: "layout_view_ok (Some 1) demo_before" "layout_view_ok (Some 2) demo_after"
  by (simp_all add: layout_view_ok_def demo_before_def demo_after_def demo_seen_def sw_active_def)

lemma demo_table_ok: "table_ok iw_id demo_table" "shown demo_table = table_of (report_workspaces (Some 1) demo_before (None, 0))"
proof -
  show ok: "table_ok iw_id demo_table"
    by (simp add: demo_table_def table_ok_def demo_before_def demo_seen_def Let_def)
  have "\<not> iw_is_hidden w" if "map_of demo_table k = Some w" for k w
    using map_of_SomeD [OF that] reported_from [of w "Some 1" demo_before "(None, 0)"]
    by (auto simp: demo_table_def reports_def)
  then show "shown demo_table = table_of (report_workspaces (Some 1) demo_before (None, 0))"
    unfolding table_of_def demo_table_def [symmetric] by (intro ext) (auto simp: shown_def split: option.splits)
qed

section \<open>Properties\<close>

text \<open>
  C30. A client that starts from the default state and reads the events of \<open>replicate\<close> has the
  same state as the server: every map has the same entries and every other part is equal.
\<close>

theorem replicating_restores_state:
  assumes "table_ok iw_id (es_workspaces s)" "table_ok iwin_id (es_windows s)" "table_ok ic_stream_id (es_casts s)"
  shows "\<exists>s'. consume apply_all (replicate_all s) event_stream_default = Some s' \<and>
           map_of (es_workspaces s') = map_of (es_workspaces s) \<and> map_of (es_windows s') = map_of (es_windows s) \<and>
           es_keyboard_layouts s' = es_keyboard_layouts s \<and> es_overview s' = es_overview s \<and>
           es_config s' = es_config s \<and> map_of (es_casts s') = map_of (es_casts s) \<and> es_touchpad s' = es_touchpad s"
proof (cases "es_keyboard_layouts s")
  case None
  then show ?thesis
    unfolding consume_all_in_parts in_parts_def
    using assms by (simp add: replicate_all_def event_stream_default_def
      replicate_workspaces_def replicate_windows_def replicate_keyboard_def replicate_overview_def
      replicate_config_def replicate_casts_def replicate_touchpad_def collect_table)
next
  case (Some k)
  then show ?thesis
    unfolding consume_all_in_parts in_parts_def
    using assms by (simp add: replicate_all_def event_stream_default_def
      replicate_workspaces_def replicate_windows_def replicate_keyboard_def replicate_overview_def
      replicate_config_def replicate_casts_def replicate_touchpad_def collect_table)
qed

theorem replicating_restores_state_witness:
  "\<exists>s'. consume apply_all (replicate_all (event_stream_default\<lparr>es_workspaces := demo_table, es_touchpad := True\<rparr>))
      event_stream_default = Some s' \<and> map_of (es_workspaces s') = map_of demo_table \<and> es_touchpad s'"
  using replicating_restores_state [of "event_stream_default\<lparr>es_workspaces := demo_table, es_touchpad := True\<rparr>"] demo_table_ok(1)
  by (auto simp: event_stream_default_def table_ok_def)

text \<open>
  C31. The state as a whole is the product of its parts: feeding it a sequence of events
  does to every part what feeding the same events to that part alone does, whatever the order
  in which events for different parts arrive, and it fails exactly when one of the parts does.
\<close>

theorem stream_runs_part_by_part:
  "consume apply_all es s =
     do {
       ws \<leftarrow> consume apply_workspaces es (es_workspaces s);
       wins \<leftarrow> consume apply_windows es (es_windows s);
       kb \<leftarrow> consume apply_keyboard es (es_keyboard_layouts s);
       ov \<leftarrow> consume apply_overview es (es_overview s);
       cf \<leftarrow> consume apply_config es (es_config s);
       cs \<leftarrow> consume apply_casts es (es_casts s);
       tp \<leftarrow> consume apply_touchpad es (es_touchpad s);
       Some \<lparr>es_workspaces = ws, es_windows = wins, es_keyboard_layouts = kb, es_overview = ov,
             es_config = cf, es_casts = cs, es_touchpad = tp\<rparr>
     }"
  unfolding consume_all_in_parts in_parts_def ..

text \<open>The events whose \<open>expect\<close> fails\<close>

fun speaks_of_unknown :: "event \<Rightarrow> event_stream_state \<Rightarrow> bool" where
  "speaks_of_unknown (WorkspaceActivated i _) s \<longleftrightarrow> map_of (es_workspaces s) i = None"
| "speaks_of_unknown (WorkspaceActiveWindowChanged i _) s \<longleftrightarrow> map_of (es_workspaces s) i = None"
| "speaks_of_unknown (WindowClosed i) s \<longleftrightarrow> map_of (es_windows s) i = None"
| "speaks_of_unknown (WindowLayoutsChanged cs) s \<longleftrightarrow> list_ex (\<lambda>(i, _). map_of (es_windows s) i = None) cs"
| "speaks_of_unknown (KeyboardLayoutSwitched _) s \<longleftrightarrow> es_keyboard_layouts s = None"
| "speaks_of_unknown (CastStopped i) s \<longleftrightarrow> map_of (es_casts s) i = None"
| "speaks_of_unknown _ s \<longleftrightarrow> False"

lemma apply_layout_changes_None:
  "apply_layout_changes cs t = None \<longleftrightarrow> list_ex (\<lambda>(i, _). map_of t i = None) cs"
proof (induction cs arbitrary: t)
  case (Cons c cs)
  obtain i l where c: "c = (i, l)" by (cases c)
  show ?case
  proof (cases "map_of t i")
    case None
    then show ?thesis by (simp add: c modify_def)
  next
    case (Some v)
    have "(map_of (AList.update i (v\<lparr>iwin_layout := l\<rparr>) t) j = None) = (map_of t j = None)" for j
      using Some by (simp add: AList.update_conv')
    with Cons.IH [of "AList.update i (v\<lparr>iwin_layout := l\<rparr>) t"] Some show ?thesis by (simp add: c modify_def)
  qed
qed simp

lemma map_values_others: "list_all (\<lambda>(_, v). key v \<noteq> i) t \<Longrightarrow> map_values (\<lambda>v. if key v = i then f v else v) t = t"
  by (induction t) (auto simp: map_values_def)

lemma update_first_others: "list_all (\<lambda>(_, v). \<not> c v) t \<Longrightarrow> update_first c f t = t"
  by (induction t) auto

text \<open>
  The events about one workspace or window whose handlers look it up and do nothing when it is
  not there. A change of the focus to an unknown window is not among them: it takes the focus
  from all windows.
\<close>

fun ignores_unknown :: "event \<Rightarrow> event_stream_state \<Rightarrow> bool" where
  "ignores_unknown (WorkspaceUrgencyChanged i _) s \<longleftrightarrow> list_all (\<lambda>(_, ws). iw_id ws \<noteq> i) (es_workspaces s)"
| "ignores_unknown (WindowUrgencyChanged i _) s \<longleftrightarrow> list_all (\<lambda>(_, w). iwin_id w \<noteq> i) (es_windows s)"
| "ignores_unknown (WindowFocusTimestampChanged i _) s \<longleftrightarrow> list_all (\<lambda>(_, w). iwin_id w \<noteq> i) (es_windows s)"
| "ignores_unknown _ s \<longleftrightarrow> False"

text \<open>
  C32. Reading an event fails exactly in these cases: it activates an unknown workspace or
  changes the active window of one, it closes an unknown window or changes the layout of one,
  it stops an unknown cast, or it switches the keyboard layout before any was announced. An
  urgency or a focus time of an unknown workspace or window is ignored: the state stays as it is.
\<close>

theorem event_panics_iff_unknown:
  "(apply_all e s = None \<longleftrightarrow> speaks_of_unknown e s) \<and>
   (ignores_unknown e s \<longrightarrow> map_option fst (apply_all e s) = Some s)"
proof
  have "apply_all e s = None \<longleftrightarrow> in_parts [e] s = None"
    unfolding apply_all_in_parts [symmetric] by simp
  also have "\<dots> \<longleftrightarrow> speaks_of_unknown e s"
  proof (cases e)
    case (WindowLayoutsChanged cs)
    then show ?thesis
      using apply_layout_changes_None [of cs "es_windows s"]
      by (cases "apply_layout_changes cs (es_windows s)") (auto simp: in_parts_def)
  qed (simp_all add: in_parts_def modify_def Let_def split: option.splits)
  finally show "apply_all e s = None \<longleftrightarrow> speaks_of_unknown e s" .
  show "ignores_unknown e s \<longrightarrow> map_option fst (apply_all e s) = Some s"
    by (cases e) (auto simp: apply_all_def map_values_others update_first_others)
qed

theorem event_panics_iff_unknown_witness:
  "map_option fst (apply_all (WindowUrgencyChanged 99 True) (event_stream_default\<lparr>es_workspaces := demo_table\<rparr>)) =
     Some (event_stream_default\<lparr>es_workspaces := demo_table\<rparr>)"
  using event_panics_iff_unknown [of "WindowUrgencyChanged 99 True"] by (simp add: event_stream_default_def)

text \<open>
  C33. After a refresh of the windows, the server's copy and every client that agreed with it
  before know exactly the windows of the layout with all their current fields, and none of the
  events sent makes a client fail.
\<close>

theorem refreshed_windows_agree:
  assumes "windows_refreshable t ws" "table_ok iwin_id c" "map_of c = map_of t"
  shows "\<exists>events t' c'. ipc_refresh_windows ws t = Some (events, t') \<and> consume apply_windows events c = Some c' \<and>
           map_of t' = map_of (map (\<lambda>w. (iwin_id w, w)) ws) \<and> map_of c' = map_of t'"
  using windows_synced [OF assms(1) known_ok [OF assms(1)] refl] windows_synced [OF assms]
  by (auto simp: ipc_refresh_windows_def elim!: returnsE)

theorem refreshed_windows_agree_witness:
  "\<exists>events t'. ipc_refresh_windows [demo_window 5 True, demo_window 6 False] [(6, demo_window 6 True), (7, demo_window 7 False)] =
      Some (events, t') \<and> map_of t' 5 = Some (demo_window 5 True) \<and> map_of t' 6 = Some (demo_window 6 False) \<and> map_of t' 7 = None"
proof -
  have "windows_refreshable [(6, demo_window 6 True), (7, demo_window 7 False)] [demo_window 5 True, demo_window 6 False]"
    by (simp add: windows_refreshable_def table_ok_def demo_window_def)
  from refreshed_windows_agree [OF this _ refl] this show ?thesis
    by (auto simp: windows_refreshable_def demo_window_def)
qed

lemma hidden_entries:
  assumes "distinct (map sw_id hs)" "h \<in> set hs"
  shows "map_of (fold (\<lambda>ws. AList.update (sw_id ws) (hidden_workspace ws)) hs t) (sw_id h) = Some (hidden_workspace h)"
proof -
  have other: "map_of (fold (\<lambda>ws. AList.update (sw_id ws) (hidden_workspace ws)) hs t) k = map_of t k"
    if "k \<notin> sw_id ` set hs" for hs t k
    using that by (induction hs arbitrary: t) (auto simp: AList.update_conv')
  show ?thesis
    using assms by (induction hs arbitrary: t) (auto simp: other AList.update_conv')
qed

lemma refresh_knows_hidden:
  assumes d: "distinct (map sw_id wss)" and t': "table_ok iw_id t'" "shown t' = table_of (report_workspaces focused wss (None, 0))"
    and run: "ipc_refresh_workspaces focused wss t = Some (events, t')"
  shows "knows_hidden t' wss wss"
  unfolding knows_hidden_def
proof (clarify)
  fix ws k assume ws: "ws \<in> set wss" and k: "(sw_id ws, k) \<in> set t'" "iw_is_hidden k"
  have m: "map_of t' (sw_id ws) = Some k" using t'(1) k(1) by (simp add: table_ok_def)
  have "sw_hidden ws"
  proof (rule ccontr)
    assume "\<not> sw_hidden ws"
    then have "ws \<in> set (displayed wss)" using ws by simp
    from report_of [OF this] obtain w where w: "w \<in> set (report_workspaces focused wss (None, 0))" "reports focused ws w" by blast
    then have "shown t' (sw_id ws) = Some w" unfolding t'(2) table_of_report [OF d] by (simp add: reports_def)
    with m k(2) show False by (simp add: shown_Some)
  qed
  moreover from run obtain c where "t' = fold (\<lambda>ws. AList.update (sw_id ws) (hidden_workspace ws)) (filter sw_hidden wss) c"
    by (auto simp: ipc_refresh_workspaces_def bind_eq_Some_conv Let_def)
  moreover have "distinct (map sw_id (filter sw_hidden wss))" using d by (simp add: distinct_map_filter)
  ultimately have "k = hidden_workspace ws" using hidden_entries [of "filter sw_hidden wss" ws] ws m by simp
  with \<open>sw_hidden ws\<close> ws show "\<exists>ws0 \<in> set (filter sw_hidden wss). sw_id ws0 = sw_id ws \<and> k = hidden_workspace ws0" by auto
qed

text \<open>
  C34. After a refresh of the workspaces, the server's copy and every client that showed the
  same workspaces before show exactly the visible workspaces of the layout, with the right
  index, name, output, urgency, active window, and active and focused flags, also when
  workspaces were opened, closed, moved, hidden or shown since the last refresh; and the server
  knows the hidden ones. Assumed are what monitors look like (fewer than 255 workspaces in
  order, the hidden ones named and at the end, the last one shown without a name) and that the
  last workspace shown on a monitor was not hidden in between.
\<close>

theorem refreshed_workspaces_agree:
  assumes "layout_view_ok focused0 wss0" "monitors_view wss0" "layout_view_ok focused wss" "monitors_view wss"
    and "hidden_soundly wss0 wss"
    and "table_ok iw_id t" "shown t = table_of (report_workspaces focused0 wss0 (None, 0))" "knows_hidden t wss0 wss"
    and "table_ok iw_id c" "shown c = shown t"
  shows "\<exists>events t' c'. ipc_refresh_workspaces focused wss t = Some (events, t') \<and>
           consume apply_workspaces events c = Some c' \<and> table_ok iw_id t' \<and> table_ok iw_id c' \<and>
           shown t' = table_of (report_workspaces focused wss (None, 0)) \<and> shown c' = shown t' \<and> knows_hidden t' wss wss"
proof -
  have d: "distinct (map sw_id wss0)" "distinct (map sw_id wss)" using assms(1,3) by (simp_all add: layout_view_ok_def)
  have "quiet_refresh t focused0 wss0 focused wss" if "\<not> needs_all_workspaces t focused wss"
    using assms d that by (simp add: quiet_refresh_def)
  then have steady: "needs_all_workspaces t focused wss \<or>
      list_all (\<lambda>ws. list_all (\<lambda>(i, known). i = sw_id ws \<longrightarrow> iw_is_hidden known = sw_hidden ws) t) wss"
    using hiding_is_noticed by blast
  from server_workspaces_synced [OF assms(1,3,6,7) steady] workspaces_synced [OF assms(1,3,6,7,9,10) steady]
    refresh_knows_hidden [OF d(2)]
  show ?thesis by (fastforce elim!: returnsE)
qed

definition demo_hidden :: "seen_workspace list" where
  "demo_hidden = [demo_seen 0 1 None False (Some 12) 1, demo_seen 1 3 None False None 1, demo_seen 2 2 (Some ''web'') True (Some 21) 1]"

lemma demo_monitors: "monitors_view demo_before" "monitors_view demo_hidden" "hidden_soundly demo_before demo_hidden"
proof -
  have other: "monitor_view []" by (simp add: monitor_view_def)
  have on: "on_output out demo_before = (if out = ''DP-1'' then demo_before else [])"
    "on_output out demo_hidden = (if out = ''DP-1'' then demo_hidden else [])" for out
    by (auto simp: on_output_def demo_before_def demo_hidden_def demo_seen_def)
  have "monitor_view demo_before" "monitor_view demo_hidden"
    by (simp_all add: monitor_view_def demo_before_def demo_hidden_def demo_seen_def upt_rec)
  with other show "monitors_view demo_before" "monitors_view demo_hidden"
    by (simp_all add: monitors_view_def on) (simp_all add: demo_before_def demo_hidden_def demo_seen_def)
  have "shown_count ''DP-1'' demo_before = 3" by (simp add: on) (simp add: demo_before_def demo_seen_def)
  then show "hidden_soundly demo_before demo_hidden"
    unfolding hidden_soundly_def by (simp add: demo_before_def demo_hidden_def demo_seen_def)
qed

theorem refreshed_workspaces_agree_witness:
  "\<exists>events t' c'. ipc_refresh_workspaces (Some 3) demo_hidden demo_table = Some (events, t') \<and>
     consume apply_workspaces events demo_table = Some c' \<and>
     shown c' = table_of (report_workspaces (Some 3) demo_hidden (None, 0)) \<and> knows_hidden t' demo_hidden demo_hidden"
proof -
  have "layout_view_ok (Some 3) demo_hidden"
    by (simp add: layout_view_ok_def demo_hidden_def demo_seen_def sw_active_def)
  moreover have "knows_hidden demo_table demo_before demo_hidden"
    by (simp add: knows_hidden_def demo_table_def demo_before_def demo_seen_def Let_def)
  ultimately show ?thesis
    using refreshed_workspaces_agree [OF demo_layouts_ok(1) demo_monitors(1) _ demo_monitors(2,3) demo_table_ok _ demo_table_ok(1) refl]
    by fastforce
qed

section \<open>Hidden workspaces are not announced\<close>

text \<open>
  A hidden workspace is left out of \<open>WorkspacesChanged\<close>, although the documentation says that
  a workspace missing there was deleted; the server then adds it to its own copy without an
  event, so that a client that connects later learns of it and the earlier ones do not.
\<close>

lemma hidden_workspaces_differ:
  "\<exists>events t'. ipc_refresh_workspaces (Some 1) [demo_seen 0 1 None False (Some 11) 0, demo_seen 1 3 None False None 0,
        demo_seen 2 2 (Some ''web'') True (Some 21) 0] demo_table = Some (events, t') \<and>
     map_of t' 2 \<noteq> None \<and> consume apply_workspaces events demo_table \<noteq> None \<and>
     map_of (the (consume apply_workspaces events demo_table)) 2 = None"
  by (simp add: ipc_refresh_workspaces_def workspace_events_def needs_all_workspaces_def demo_table_def demo_before_def
      demo_seen_def Let_def visible_place_def u8_index_def collect_by_def hidden_workspace_def)

end
