(* ===== verification/Transaction.thy ===== *)
theory Transaction
  imports Complex_Main Prelude
begin

text \<open>
  \<open>src/utils/transaction.rs\<close>: a transaction between clients is complete when the last handle on
  it is dropped or its deadline is reached, whatever comes first; then the blockers of the
  commits that wait for it are released and the clients that asked are told. The handles share
  one \<open>Arc\<close>, blockers and the timer hold weak references, so that the strong count is the number
  of handles. The timer and the ping that removes it belong to the event loop: they are part of
  the state, and when the loop runs them is up to the environment. A handle also holds an \<open>Rc\<close>, so
  that all of this happens on one thread. Times are milliseconds.
\<close>

section \<open>State\<close>

datatype deadline = NotRegistered nat | Registered

datatype blocker_status = Released | Pending

text \<open>
  \<open>tx_instances\<close> is the strong count of \<open>inner\<close>; \<open>tx_sent\<close> are the clients sent to the channel of a
  notification; \<open>tx_timer\<close> is the deadline of the timer in the event loop and \<open>tx_ping\<close> a ping that
  the loop has not handled
\<close>

record transaction =
  tx_instances :: nat
  tx_completed :: bool
  tx_notifications :: "(nat \<times> nat list) option"
  tx_deadline :: deadline
  tx_sent :: "(nat \<times> nat) list"
  tx_timer :: "nat option"
  tx_ping :: bool
  tx_now :: nat

definition TIME_LIMIT :: nat where
  "TIME_LIMIT = 300"

definition transaction_new :: "nat \<Rightarrow> transaction" where
  "transaction_new now = \<lparr>tx_instances = 1, tx_completed = False, tx_notifications = None,
     tx_deadline = NotRegistered (now + TIME_LIMIT), tx_sent = [], tx_timer = None, tx_ping = False, tx_now = now\<rparr>"

section \<open>Operations\<close>

definition inner_complete :: "transaction \<Rightarrow> transaction" where
  "inner_complete s =
     (let s = s\<lparr>tx_completed := True\<rparr>
      in case tx_notifications s of
           None \<Rightarrow> s
         | Some (sender, clients) \<Rightarrow>
             s\<lparr>tx_notifications := None, tx_sent := tx_sent s @ map (Pair sender) clients\<rparr>)"

definition tx_clone :: "transaction \<Rightarrow> transaction" where
  "tx_clone s = s\<lparr>tx_instances := tx_instances s + 1\<rparr>"

definition is_last :: "transaction \<Rightarrow> bool" where
  "is_last s \<longleftrightarrow> tx_instances s = 1"

text \<open>\<open>Drop::drop\<close> runs before the fields go, so that it still counts this handle\<close>

definition tx_drop :: "transaction \<Rightarrow> transaction" where
  "tx_drop s =
     (let s = (if is_last s
               then let s = inner_complete s
                    in case tx_deadline s of Registered \<Rightarrow> s\<lparr>tx_ping := True\<rparr> | NotRegistered _ \<Rightarrow> s
               else s)
      in s\<lparr>tx_instances := tx_instances s - 1\<rparr>)"

definition add_notification :: "nat \<Rightarrow> nat \<Rightarrow> transaction \<Rightarrow> transaction" where
  "add_notification sender client s =
     (if tx_completed s then s
      else let (sender, clients) = (case tx_notifications s of None \<Rightarrow> (sender, []) | Some n \<Rightarrow> n)
           in s\<lparr>tx_notifications := Some (sender, clients @ [client])\<rparr>)"

definition register_deadline_timer :: "transaction \<Rightarrow> transaction" where
  "register_deadline_timer s =
     (case tx_deadline s of
        NotRegistered d \<Rightarrow> s\<lparr>tx_timer := Some d, tx_deadline := Registered\<rparr>
      | Registered \<Rightarrow> s)"

text \<open>The callback of the timer: \<open>upgrade\<close> fails when no handle is left\<close>

definition timer_fires :: "transaction \<Rightarrow> transaction" where
  "timer_fires s = (if 0 < tx_instances s then inner_complete s else s)\<lparr>tx_timer := None\<rparr>"

definition ping_received :: "transaction \<Rightarrow> transaction" where
  "ping_received s = s\<lparr>tx_timer := None, tx_ping := False\<rparr>"

definition blocker_state :: "transaction \<Rightarrow> blocker_status" where
  "blocker_state s = (if tx_instances s = 0 \<or> tx_completed s then Released else Pending)"

section \<open>Steps\<close>

text \<open>What the holders of a handle, the clock and the event loop may do\<close>

datatype tx_event =
    CloneHandle | DropHandle | AddNotification nat nat | RegisterTimer
  | TimePasses nat | RunTimers | RunPings

fun tx_enabled :: "tx_event \<Rightarrow> transaction \<Rightarrow> bool" where
  "tx_enabled (TimePasses d) s = True"
| "tx_enabled RunTimers s = True"
| "tx_enabled RunPings s = True"
| "tx_enabled _ s = (0 < tx_instances s)"

fun tx_step :: "tx_event \<Rightarrow> transaction \<Rightarrow> transaction" where
  "tx_step CloneHandle s = tx_clone s"
| "tx_step DropHandle s = tx_drop s"
| "tx_step (AddNotification sender client) s = add_notification sender client s"
| "tx_step RegisterTimer s = register_deadline_timer s"
| "tx_step (TimePasses d) s = s\<lparr>tx_now := tx_now s + d\<rparr>"
| "tx_step RunTimers s =
     (case tx_timer s of
        Some d \<Rightarrow> if d \<le> tx_now s then timer_fires s else s
      | None \<Rightarrow> s)"
| "tx_step RunPings s = (if tx_ping s then ping_received s else s)"

inductive tx_reachable :: "nat \<Rightarrow> transaction \<Rightarrow> bool" for now where
  created: "tx_reachable now (transaction_new now)"
| stepped: "tx_reachable now s \<Longrightarrow> tx_enabled e s \<Longrightarrow> tx_reachable now (tx_step e s)"

section \<open>Invariant\<close>

definition waiting :: "transaction \<Rightarrow> nat list" where
  "waiting s = (case tx_notifications s of None \<Rightarrow> [] | Some (_, clients) \<Rightarrow> clients)"

definition told :: "transaction \<Rightarrow> nat list" where
  "told s = map snd (tx_sent s)"

text \<open>Until the transaction is complete a registered timer is armed\<close>

definition tx_ok :: "nat \<Rightarrow> transaction \<Rightarrow> bool" where
  "tx_ok now s \<longleftrightarrow>
     (tx_completed s \<longrightarrow> tx_notifications s = None) \<and> (\<not> tx_completed s \<longrightarrow> tx_sent s = [] \<and> \<not> tx_ping s) \<and>
     (tx_instances s = 0 \<longrightarrow> tx_completed s) \<and>
     (\<forall>d. tx_deadline s = NotRegistered d \<longrightarrow> d = now + TIME_LIMIT \<and> tx_timer s = None) \<and>
     (\<forall>d. tx_timer s = Some d \<longrightarrow> d = now + TIME_LIMIT) \<and>
     (tx_deadline s = Registered \<and> \<not> tx_completed s \<longrightarrow> tx_timer s \<noteq> None)"

lemma inner_complete_simps [simp]:
  "tx_completed (inner_complete s)" "tx_notifications (inner_complete s) = None"
  "tx_instances (inner_complete s) = tx_instances s" "tx_deadline (inner_complete s) = tx_deadline s"
  "tx_timer (inner_complete s) = tx_timer s" "tx_ping (inner_complete s) = tx_ping s"
  "tx_now (inner_complete s) = tx_now s" "waiting (inner_complete s) = []"
  "told (inner_complete s) = told s @ waiting s"
  by (simp_all add: inner_complete_def Let_def waiting_def told_def comp_def split: option.splits prod.splits)

lemmas tx_op_defs = tx_clone_def is_last_def tx_drop_def add_notification_def register_deadline_timer_def
  timer_fires_def ping_received_def

lemma tx_step_ok: "tx_ok now s \<Longrightarrow> tx_enabled e s \<Longrightarrow> tx_ok now (tx_step e s)"
  by (cases e) (auto simp: tx_ok_def tx_op_defs Let_def split: option.splits deadline.splits prod.splits)

lemma tx_reachable_ok: "tx_reachable now s \<Longrightarrow> tx_ok now s"
  by (induction rule: tx_reachable.induct) (auto simp: tx_step_ok, simp add: tx_ok_def transaction_new_def)

lemma tx_released_iff: "tx_reachable now s \<Longrightarrow> blocker_state s = Released \<longleftrightarrow> tx_completed s"
  using tx_reachable_ok by (auto simp: tx_ok_def blocker_state_def)

text \<open>A complete transaction stays complete\<close>

lemma tx_step_completed: "tx_completed s \<Longrightarrow> tx_completed (tx_step e s)"
  by (cases e) (auto simp: tx_op_defs Let_def split: option.splits deadline.splits prod.splits)

text \<open>Nobody is told twice or forgotten\<close>

lemma tx_step_clients:
  "told (tx_step e s) @ waiting (tx_step e s) =
     told s @ waiting s @ (case e of AddNotification _ c \<Rightarrow> if tx_completed s then [] else [c] | _ \<Rightarrow> [])"
proof (cases e)
  case DropHandle
  have "told (tx_drop s) = (if is_last s then told s @ waiting s else told s)"
    "waiting (tx_drop s) = (if is_last s then [] else waiting s)"
    using inner_complete_simps(8,9) [of s]
    by (simp_all add: tx_drop_def Let_def told_def waiting_def split: deadline.split)
  then show ?thesis by (simp add: DropHandle)
next
  case RunTimers
  have "told (timer_fires s) @ waiting (timer_fires s) = told s @ waiting s"
    using inner_complete_simps(8,9) [of s] by (simp add: timer_fires_def told_def waiting_def)
  then show ?thesis by (simp add: RunTimers split: option.split)
qed (simp_all add: tx_op_defs Let_def told_def waiting_def split: option.splits deadline.splits prod.splits)

section \<open>Runs\<close>

fun tx_run :: "tx_event list \<Rightarrow> transaction \<Rightarrow> transaction option" where
  "tx_run [] s = Some s"
| "tx_run (e # es) s = (if tx_enabled e s then tx_run es (tx_step e s) else None)"

fun accepted :: "tx_event list \<Rightarrow> transaction \<Rightarrow> nat list" where
  "accepted [] s = []"
| "accepted (e # es) s =
     (case e of AddNotification _ c \<Rightarrow> if tx_completed s then [] else [c] | _ \<Rightarrow> []) @ accepted es (tx_step e s)"

lemma tx_run_reachable: "tx_run es s = Some s' \<Longrightarrow> tx_reachable now s \<Longrightarrow> tx_reachable now s'"
  by (induction es arbitrary: s) (auto split: if_splits intro: stepped)

lemma tx_run_clients: "tx_run es s = Some s' \<Longrightarrow> told s' @ waiting s' = told s @ waiting s @ accepted es s"
proof (induction es arbitrary: s)
  case (Cons e es)
  then have "told s' @ waiting s' = told (tx_step e s) @ waiting (tx_step e s) @ accepted es (tx_step e s)"
    by (simp split: if_splits)
  then show ?case using tx_step_clients [of e s] by simp
qed simp

text \<open>An endless run, given by what happens at every moment\<close>

primrec tx_at :: "nat \<Rightarrow> (nat \<Rightarrow> tx_event) \<Rightarrow> nat \<Rightarrow> transaction" where
  "tx_at now es 0 = transaction_new now"
| "tx_at now es (Suc i) = tx_step (es i) (tx_at now es i)"

lemma tx_at_reachable: "(\<And>i. tx_enabled (es i) (tx_at now es i)) \<Longrightarrow> tx_reachable now (tx_at now es i)"
  by (induction i) (auto intro: created stepped)

lemma tx_at_stays: "tx_completed (tx_at now es i) \<Longrightarrow> i \<le> k \<Longrightarrow> tx_completed (tx_at now es k)"
  by (induction k) (auto simp: le_Suc_eq tx_step_completed)

lemma tx_step_now: "tx_now s \<le> tx_now (tx_step e s)"
  by (cases e) (auto simp: tx_op_defs Let_def split: option.splits deadline.splits prod.splits)

lemma tx_at_now: "i \<le> k \<Longrightarrow> tx_now (tx_at now es i) \<le> tx_now (tx_at now es k)"
  by (induction k) (auto simp: le_Suc_eq intro: le_trans [OF _ tx_step_now])

lemma tx_step_registered: "tx_deadline s = Registered \<Longrightarrow> tx_deadline (tx_step e s) = Registered"
  by (cases e) (auto simp: tx_op_defs Let_def split: option.splits deadline.splits prod.splits)

lemma tx_at_registered: "tx_deadline (tx_at now es i) = Registered \<Longrightarrow> i \<le> k \<Longrightarrow> tx_deadline (tx_at now es k) = Registered"
  by (induction k) (auto simp: le_Suc_eq tx_step_registered)

text \<open>The timers complete a transaction whose deadline has passed\<close>

lemma timers_complete:
  assumes "tx_reachable now s" "tx_deadline s = Registered" "now + TIME_LIMIT \<le> tx_now s"
  shows "tx_completed (tx_step RunTimers s)"
proof (cases "tx_completed s")
  case False
  with tx_reachable_ok [OF assms(1)] assms(2,3) show ?thesis
    by (auto simp: tx_ok_def timer_fires_def)
qed (rule tx_step_completed)

section \<open>Properties\<close>

text \<open>
  C35. In every run a client that asked to be notified before the completion is told exactly once and
  in the order of the requests: those told, then those waiting, are those accepted. No client is
  told while the blocker holds commits back, and when it is released none is left waiting.
\<close>

theorem notifications_sent_once:
  assumes "tx_run es (transaction_new now) = Some s"
  shows "told s @ waiting s = accepted es (transaction_new now) \<and>
    (blocker_state s = Pending \<longrightarrow> told s = []) \<and> (blocker_state s = Released \<longrightarrow> waiting s = [])"
proof -
  have r: "tx_reachable now s" by (rule tx_run_reachable [OF assms created])
  have "told (transaction_new now) = []" "waiting (transaction_new now) = []"
    by (simp_all add: told_def waiting_def transaction_new_def)
  with tx_run_clients [OF assms] tx_reachable_ok [OF r] tx_released_iff [OF r] show ?thesis
    by (auto simp: tx_ok_def blocker_state_def told_def waiting_def)
qed

theorem notifications_sent_once_witness:
  "\<exists>s. tx_run [CloneHandle, AddNotification 1 7, RegisterTimer, DropHandle, AddNotification 1 8, DropHandle, RunPings]
      (transaction_new 5) = Some s \<and> told s = [7, 8] \<and> blocker_state s = Released"
proof -
  let ?es = "[CloneHandle, AddNotification 1 7, RegisterTimer, DropHandle, AddNotification 1 8, DropHandle, RunPings]"
  have "\<exists>s. tx_run ?es (transaction_new 5) = Some s \<and> tx_completed s \<and> accepted ?es (transaction_new 5) = [7, 8]"
    by (simp add: transaction_new_def tx_op_defs inner_complete_def Let_def)
  then obtain s where s: "tx_run ?es (transaction_new 5) = Some s" "tx_completed s" "accepted ?es (transaction_new 5) = [7, 8]"
    by blast
  with notifications_sent_once [OF s(1)] show ?thesis by (auto simp: blocker_state_def)
qed

text \<open>
  C36. No client can hang a transaction: once its timer is registered, if time goes on and the event
  loop keeps running its timers, the blocker is released for good and every client that asked has
  been told, whatever the holders of the handles do, even if they never drop them.
\<close>

theorem transaction_completes:
  assumes "\<And>i. tx_enabled (es i) (tx_at now es i)"
    and "tx_deadline (tx_at now es start) = Registered"
    and "\<And>t. \<exists>i. t \<le> tx_now (tx_at now es i)"
    and "\<And>i. \<exists>k \<ge> i. es k = RunTimers"
  shows "\<exists>n. \<forall>k \<ge> n. blocker_state (tx_at now es k) = Released \<and> waiting (tx_at now es k) = []"
proof -
  note r = tx_at_reachable [OF assms(1)]
  obtain i where i: "now + TIME_LIMIT \<le> tx_now (tx_at now es i)" using assms(3) by blast
  obtain k where k: "max i start \<le> k" "es k = RunTimers" using assms(4) by blast
  have "tx_completed (tx_step RunTimers (tx_at now es k))"
  proof (rule timers_complete [OF r])
    show "tx_deadline (tx_at now es k) = Registered" using tx_at_registered [OF assms(2)] k(1) by simp
    show "now + TIME_LIMIT \<le> tx_now (tx_at now es k)" using i tx_at_now [of i k now es] k(1) by simp
  qed
  then have "tx_completed (tx_at now es (Suc k))" using k(2) by simp
  from tx_at_stays [OF this] have "\<forall>j \<ge> Suc k. tx_completed (tx_at now es j)" by simp
  then have "\<forall>j \<ge> Suc k. blocker_state (tx_at now es j) = Released \<and> waiting (tx_at now es j) = []"
    using tx_reachable_ok [OF r] by (auto simp: blocker_state_def tx_ok_def waiting_def)
  then show ?thesis by blast
qed

definition demo_events :: "nat \<Rightarrow> tx_event" where
  "demo_events i = (if i = 0 then RegisterTimer else if odd i then TimePasses 20 else RunTimers)"

lemma tx_now_quiet [simp]:
  "tx_now (register_deadline_timer s) = tx_now s" "tx_now (timer_fires s) = tx_now s"
  by (simp_all add: tx_op_defs split: deadline.split)

lemma demo_step_now: "tx_now (tx_at 0 demo_events (Suc i)) = tx_now (tx_at 0 demo_events i) + (if odd i then 20 else 0)"
  by (cases "i = 0") (auto simp: demo_events_def split: option.split)

lemma demo_now: "i \<le> tx_now (tx_at 0 demo_events i) + 1"
proof -
  have "10 * i \<le> tx_now (tx_at 0 demo_events i) + (if odd i then 10 else 0)" for i
  proof (induction i)
    case (Suc i)
    then show ?case unfolding demo_step_now by (cases "odd i") auto
  qed simp
  from this [of i] show ?thesis by (cases "odd i") auto
qed

theorem transaction_completes_witness:
  "\<exists>n. \<forall>k \<ge> n. blocker_state (tx_at 0 demo_events k) = Released"
proof -
  have one: "0 < tx_instances (tx_at 0 demo_events i)" for i
    by (induction i) (simp_all add: transaction_new_def demo_events_def tx_op_defs Let_def split: option.split deadline.split)
  have "\<exists>n. \<forall>k \<ge> n. blocker_state (tx_at 0 demo_events k) = Released \<and> waiting (tx_at 0 demo_events k) = []"
  proof (rule transaction_completes [where start = 1])
    show "tx_enabled (demo_events i) (tx_at 0 demo_events i)" for i
      using one [of i] by (cases "i = 0") (auto simp: demo_events_def)
    show "tx_deadline (tx_at 0 demo_events 1) = Registered"
      by (simp add: demo_events_def register_deadline_timer_def transaction_new_def)
    show "\<exists>i. t \<le> tx_now (tx_at 0 demo_events i)" for t
      using demo_now [of "t + 1"] by (intro exI [of _ "t + 1"]) simp
    show "\<exists>k \<ge> i. demo_events k = RunTimers" for i
      by (rule exI [of _ "2 * i + 2"]) (simp add: demo_events_def)
  qed
  then show ?thesis by blast
qed

end
