(* ===== verification/Timing.thy ===== *)
theory Timing
  imports Complex_Main Prelude
begin

text \<open>
  \<open>src/frame_clock.rs\<close> and \<open>src/utils/vblank_throttle.rs\<close>: when the next frame will be shown, and
  vertical blanks that come too early. A \<open>Duration\<close> is its number of nanoseconds; additions past
  its range and subtractions below zero panic, and so does overflow of a \<open>u64\<close>, which the build
  profile checks in releases too.
\<close>

section \<open>Durations and 64 bit integers\<close>

definition u64_limit :: nat where
  "u64_limit = 2 ^ 64"

definition second :: nat where
  "second = 1000000000"

definition duration_add :: "nat \<Rightarrow> nat \<Rightarrow> nat option" where
  "duration_add a b = (if a + b < u64_limit * second then Some (a + b) else None)"

definition duration_sub :: "nat \<Rightarrow> nat \<Rightarrow> nat option" where
  "duration_sub a b = (if b \<le> a then Some (a - b) else None)"

definition u64_add :: "nat \<Rightarrow> nat \<Rightarrow> nat option" where
  "u64_add a b = (if a + b < u64_limit then Some (a + b) else None)"

definition u64_mul :: "nat \<Rightarrow> nat \<Rightarrow> nat option" where
  "u64_mul a b = (if a * b < u64_limit then Some (a * b) else None)"

lemma duration_arith [simp]:
  "a + b < u64_limit * second \<Longrightarrow> duration_add a b = Some (a + b)" "b \<le> a \<Longrightarrow> duration_sub a b = Some (a - b)"
  "a + b < u64_limit \<Longrightarrow> u64_add a b = Some (a + b)" "a * b < u64_limit \<Longrightarrow> u64_mul a b = Some (a * b)"
  by (simp_all add: duration_add_def duration_sub_def u64_add_def u64_mul_def)

lemma below_duration: "a < u64_limit \<Longrightarrow> a < u64_limit * second"
  by (simp add: second_def u64_limit_def)

section \<open>The frame clock\<close>

record frame_clock =
  fc_last_presentation_time :: "nat option"
  fc_refresh_interval_ns :: "nat option"
  fc_vrr :: bool

definition frame_clock_new :: "nat option \<Rightarrow> bool \<Rightarrow> frame_clock option" where
  "frame_clock_new interval vrr =
     do {
       refresh \<leftarrow> (case interval of
           None \<Rightarrow> Some None
         | Some interval \<Rightarrow> do {
             assert_that (interval div second = 0);
             assert_that (interval mod second \<noteq> 0);
             Some (Some (interval mod second))
           });
       Some \<lparr>fc_last_presentation_time = None, fc_refresh_interval_ns = refresh, fc_vrr = vrr\<rparr>
     }"

definition set_vrr :: "bool \<Rightarrow> frame_clock \<Rightarrow> frame_clock" where
  "set_vrr vrr c = (if fc_vrr c = vrr then c else c\<lparr>fc_vrr := vrr, fc_last_presentation_time := None\<rparr>)"

definition presented :: "nat \<Rightarrow> frame_clock \<Rightarrow> frame_clock" where
  "presented time c = (if time = 0 then c else c\<lparr>fc_last_presentation_time := Some time\<rparr>)"

text \<open>\<open>now\<close> is the monotonic time\<close>

definition next_presentation_time :: "nat \<Rightarrow> frame_clock \<Rightarrow> nat option" where
  "next_presentation_time now c =
     (case (fc_refresh_interval_ns c, fc_last_presentation_time c) of
        (Some refresh, Some last_time) \<Rightarrow> do {
          now \<leftarrow> (if now \<le> last_time
                then do {
                  now \<leftarrow> duration_add now refresh;
                  if now < last_time then duration_add last_time refresh else Some now
                } else Some now);
          since_last \<leftarrow> duration_sub now last_time;
          secs \<leftarrow> u64_mul (since_last div second) second;
          since_last_ns \<leftarrow> u64_add secs (since_last mod second);
          frames \<leftarrow> u64_add (since_last_ns div refresh) 1;
          to_next_ns \<leftarrow> u64_mul frames refresh;
          if fc_vrr c \<and> refresh < to_next_ns then Some now else duration_add last_time to_next_ns
        }
      | _ \<Rightarrow> Some now)"

definition frame_clock_ok :: "frame_clock \<Rightarrow> bool" where
  "frame_clock_ok c \<longleftrightarrow> (case fc_refresh_interval_ns c of None \<Rightarrow> True | Some r \<Rightarrow> 0 < r \<and> r < second)"

lemma frame_clock_kept [simp]:
  "frame_clock_ok c \<Longrightarrow> frame_clock_ok (set_vrr v c)" "frame_clock_ok c \<Longrightarrow> frame_clock_ok (presented t c)"
  by (simp_all add: frame_clock_ok_def set_vrr_def presented_def)

lemma frame_clock_new_ok: "frame_clock_new interval vrr = Some c \<Longrightarrow> frame_clock_ok c"
  by (auto simp: frame_clock_new_def frame_clock_ok_def assert_that_def second_def split: option.splits if_splits)

text \<open>The time the clock counts from, past the last presentation\<close>

definition adjusted_now :: "nat \<Rightarrow> nat \<Rightarrow> nat \<Rightarrow> nat" where
  "adjusted_now now l refresh =
     (if now \<le> l then if now + refresh < l then l + refresh else now + refresh else now)"

lemma adjusted_now_ge: "l \<le> adjusted_now now l refresh"
  by (auto simp: adjusted_now_def)

lemma next_presentation_time_eq:
  assumes r: "fc_refresh_interval_ns c = Some r" "0 < r" "r < second" and l: "fc_last_presentation_time c = Some l"
    and small: "now < 2 ^ 63" "l < 2 ^ 63"
  shows "next_presentation_time now c = Some
    (let n = adjusted_now now l r; t = l + ((n - l) div r + 1) * r in if fc_vrr c \<and> r \<le> n - l then n else t)"
proof -
  define n where "n = adjusted_now now l r"
  have n: "l \<le> n" "n \<le> max now l + r" using adjusted_now_ge [of l now r] by (auto simp: n_def adjusted_now_def)
  have r9: "r < 1000000000" using r(3) by (simp add: second_def)
  have d: "(n - l) div r * r \<le> n - l" by (rule div_times_less_eq_dividend)
  have lt: "n - l < 2 ^ 63 + 1000000000" using n(2) small r9 by linarith
  define step where "step = ((n - l) div r + 1) * r"
  have t: "step \<le> n - l + r" using d by (simp add: step_def algebra_simps)
  then have st: "step < 2 ^ 63 + 2000000000" using lt r9 by linarith
  have big: "(2 :: nat) ^ 63 + 1000000000 + 1 < 2 ^ 64" by simp
  have "(n - l) div r + 1 \<le> n - l + 1" by simp
  also have "\<dots> < 2 ^ 63 + 1000000000 + 1" using lt by simp
  also note big
  finally have q: "(n - l) div r + 1 < u64_limit" by (simp only: u64_limit_def)
  have parts: "(n - l) div second * second + (n - l) mod second = n - l" by (rule div_mult_mod_eq)
  have run_now: "(if now \<le> l then do { now \<leftarrow> duration_add now r; if now < l then duration_add l r else Some now } else Some now) = Some n"
    using small r9 by (auto simp: n_def adjusted_now_def duration_add_def u64_limit_def second_def)
  have secs: "u64_mul ((n - l) div second) second = Some ((n - l) div second * second)"
    using lt by (intro duration_arith le_less_trans [OF div_times_less_eq_dividend]) (simp add: u64_limit_def)
  have ns: "u64_add ((n - l) div second * second) ((n - l) mod second) = Some (n - l)"
    using lt parts by (subst duration_arith(3)) (simp_all add: u64_limit_def)
  have fr: "u64_add ((n - l) div r) 1 = Some ((n - l) div r + 1)"
    by (rule duration_arith(3) [OF q])
  have to: "u64_mul ((n - l) div r + 1) r = Some step"
    using st unfolding step_def by (intro duration_arith) (simp only: u64_limit_def, simp only: step_def [symmetric], simp)
  have add: "duration_add l step = Some (l + step)"
    using st small by (intro duration_arith) (simp add: u64_limit_def second_def)
  have late: "r < step \<longleftrightarrow> r \<le> n - l"
    unfolding step_def using r(2) div_greater_zero_iff [of "n - l" r] by auto
  have "next_presentation_time now c = Some (if fc_vrr c \<and> r \<le> n - l then n else l + step)"
    unfolding next_presentation_time_def r(1) l option.case prod.case run_now
    using n(1) secs ns fr to add late by (simp add: n_def [symmetric])
  then show ?thesis by (simp only: step_def n_def Let_def)
qed

section \<open>Throttling of vertical blanks\<close>

text \<open>The timer in the event loop is its delay; a new call removes it\<close>

record vblank_throttle =
  vt_last_vblank_timestamp :: "nat option"
  vt_throttle_timer :: "nat option"
  vt_printed_warning :: bool

definition vblank_throttle_new :: vblank_throttle where
  "vblank_throttle_new = \<lparr>vt_last_vblank_timestamp = None, vt_throttle_timer = None, vt_printed_warning = False\<rparr>"

definition throttle :: "nat option \<Rightarrow> nat \<Rightarrow> vblank_throttle \<Rightarrow> vblank_throttle \<times> bool" where
  "throttle refresh_interval timestamp v =
     (let v = v\<lparr>vt_throttle_timer := None\<rparr>;
          pass = (v\<lparr>vt_last_vblank_timestamp := Some timestamp\<rparr>, False)
      in case (vt_last_vblank_timestamp v, refresh_interval) of
           (Some last_time, Some refresh) \<Rightarrow>
             (let passed = timestamp - last_time
              in if passed < refresh div 2
                 then (v\<lparr>vt_printed_warning := True, vt_throttle_timer := Some (refresh - passed)\<rparr>, True)
                 else pass)
         | _ \<Rightarrow> pass)"

text \<open>The vertical blanks that pass of a sequence of them\<close>

fun passing :: "nat option \<Rightarrow> nat list \<Rightarrow> vblank_throttle \<Rightarrow> nat list" where
  "passing refresh [] v = []"
| "passing refresh (t # ts) v =
     (let (v, throttled) = throttle refresh t v
      in if throttled then passing refresh ts v else t # passing refresh ts v)"

lemma throttle_passes:
  assumes "throttle refresh t v = (v', False)"
  shows "vt_last_vblank_timestamp v' = Some t \<and> vt_throttle_timer v' = None \<and>
    (\<forall>l r. vt_last_vblank_timestamp v = Some l \<longrightarrow> refresh = Some r \<longrightarrow> r div 2 \<le> t - l)"
  using assms by (auto simp: throttle_def Let_def split: option.splits if_splits)

lemma throttle_delays:
  assumes "throttle refresh t v = (v', True)"
  shows "vt_last_vblank_timestamp v' = vt_last_vblank_timestamp v \<and>
    (\<exists>l r. vt_last_vblank_timestamp v = Some l \<and> refresh = Some r \<and> t - l < r div 2 \<and>
       vt_throttle_timer v' = Some (r - (t - l)))"
  using assms by (auto simp: throttle_def Let_def split: option.splits if_splits)

text \<open>What passes is at least half a frame apart, whatever the driver reports\<close>

lemma passing_spaced:
  "successively (\<lambda>a b. r div 2 \<le> b - a) (case vt_last_vblank_timestamp v of None \<Rightarrow> passing (Some r) ts v
     | Some l \<Rightarrow> l # passing (Some r) ts v)"
proof (induction ts arbitrary: v)
  case (Cons t ts)
  obtain v' b where th: "throttle (Some r) t v = (v', b)" by fastforce
  show ?case
  proof (cases b)
    case True
    with th throttle_delays [of "Some r" t v v'] Cons.IH [of v'] show ?thesis by auto
  next
    case False
    with th throttle_passes [of "Some r" t v v'] Cons.IH [of v'] show ?thesis by (auto split: option.splits)
  qed
qed (simp split: option.split)

section \<open>Properties\<close>

text \<open>
  C37. The predicted presentation time. Without a refresh interval or a last presentation it is
  the current time. Otherwise, for times of less than 292 years, nothing overflows and it is after
  the last presentation and not in the past; it is at most one frame after a last presentation
  that has passed, exactly one frame after one that is at most a frame away, and at most two
  frames after any other. At a fixed refresh rate it is a whole number of frames after the last
  presentation and in the future; at a variable one it is now when a frame has been missed.
\<close>

theorem presentation_is_predicted:
  assumes "frame_clock_ok c" "now < 2 ^ 63" "\<And>l. fc_last_presentation_time c = Some l \<Longrightarrow> l < 2 ^ 63"
  shows "\<exists>t. next_presentation_time now c = Some t \<and> now \<le> t \<and>
    (fc_refresh_interval_ns c = None \<or> fc_last_presentation_time c = None \<longrightarrow> t = now) \<and>
    (\<forall>r l. fc_refresh_interval_ns c = Some r \<longrightarrow> fc_last_presentation_time c = Some l \<longrightarrow>
       l < t \<and> (l < now \<longrightarrow> t \<le> now + r) \<and> (now < l \<and> l \<le> now + r \<longrightarrow> t = l + r) \<and> (now \<le> l \<longrightarrow> t \<le> l + 2 * r) \<and>
       (\<not> fc_vrr c \<longrightarrow> r dvd t - l \<and> now < t) \<and> (fc_vrr c \<and> l + r \<le> now \<longrightarrow> t = now))"
proof (cases "fc_refresh_interval_ns c = None \<or> fc_last_presentation_time c = None")
  case True
  then show ?thesis by (auto simp: next_presentation_time_def split: option.split)
next
  case False
  then obtain r l where c: "fc_refresh_interval_ns c = Some r" "fc_last_presentation_time c = Some l" by auto
  have r: "0 < r" "r < second" using assms(1) c by (simp_all add: frame_clock_ok_def)
  define n where "n = adjusted_now now l r"
  define k where "k = (n - l) div r"
  define t where "t = l + (k + 1) * r"
  have run: "next_presentation_time now c = Some (if fc_vrr c \<and> r \<le> n - l then n else t)"
    using next_presentation_time_eq [OF c(1) r c(2) assms(2) assms(3) [OF c(2)]]
    by (simp add: n_def k_def t_def Let_def)
  have n: "l \<le> n" "now \<le> n" "l < now \<Longrightarrow> n = now" "now < l \<Longrightarrow> l \<le> now + r \<Longrightarrow> n = now + r" "now \<le> l \<Longrightarrow> n \<le> l + r"
    using adjusted_now_ge [of l now r] by (auto simp: n_def adjusted_now_def)
  have below: "k * r \<le> n - l" unfolding k_def by (rule div_times_less_eq_dividend)
  have above: "n - l < (k + 1) * r" using r(1) dividend_less_div_times [of r "n - l"] by (simp add: k_def algebra_simps)
  have t: "n < t" "t \<le> n + r" "r dvd t - l" "l < t"
    using below above n(1) r(1) by (auto simp: t_def algebra_simps)
  have k: "k = 0" if "now < l" "l \<le> now + r"
    using n(4) [OF that] that r(1) by (simp add: k_def)
  have early: "t = l + r \<and> \<not> r \<le> n - l" if "now < l" "l \<le> now + r"
    using k [OF that] n(4) [OF that] that r(1) by (simp add: t_def)
  have fixed: "now < t" using t(1) n(2) by simp
  show ?thesis
    unfolding run c using t n early fixed r(1) by (auto simp: c)
qed

theorem presentation_is_predicted_witness:
  "\<exists>t. next_presentation_time 1020000000 \<lparr>fc_last_presentation_time = Some 1000000000,
      fc_refresh_interval_ns = Some 16666667, fc_vrr = False\<rparr> = Some t \<and> 1020000000 < t \<and> t \<le> 1036666667 \<and> 16666667 dvd t - 1000000000"
  using presentation_is_predicted [of "\<lparr>fc_last_presentation_time = Some 1000000000,
      fc_refresh_interval_ns = Some 16666667, fc_vrr = False\<rparr>" 1020000000]
  by (auto simp: frame_clock_ok_def second_def)

text \<open>
  When the current time is exactly that of the last presentation, the clock takes it for an
  early vertical blank and predicts two frames ahead, although one nanosecond before and after it
  predicts one.
\<close>

lemma equal_time_skips_a_frame:
  "map (\<lambda>now. next_presentation_time now \<lparr>fc_last_presentation_time = Some 1000000000,
      fc_refresh_interval_ns = Some 16666667, fc_vrr = False\<rparr>) [999999999, 1000000000, 1000000001] =
     [Some 1016666667, Some 1033333334, Some 1016666667]"
  by (simp add: next_presentation_time_def duration_add_def duration_sub_def u64_mul_def u64_add_def u64_limit_def second_def)

end
