(* ===== verification/Trackers.thy ===== *)
theory Trackers
  imports Timing
begin

text \<open>
  What follows the fingers: \<open>src/input/swipe_tracker.rs\<close> (position and velocity of a swipe),
  \<open>src/input/scroll_tracker.rs\<close> (wheel movements counted in ticks),
  \<open>src/input/scroll_swipe_gesture.rs\<close> (when scrolling with two fingers begins and ends) and
  \<open>src/rubber_band.rs\<close> (resistance past the ends). Floating-point numbers are real numbers here,
  so that rounding is not modelled; times are nanoseconds.
\<close>

section \<open>Swipes\<close>

definition HISTORY_LIMIT :: nat where
  "HISTORY_LIMIT = 150000000"

record swipe_event =
  se_delta :: real
  se_timestamp :: nat

record swipe_tracker =
  st_history :: "swipe_event list"
  st_pos :: real

definition swipe_tracker_new :: swipe_tracker where
  "swipe_tracker_new = \<lparr>st_history = [], st_pos = 0\<rparr>"

text \<open>The loop of \<open>trim_history\<close>\<close>

fun trim_loop :: "nat \<Rightarrow> swipe_event list \<Rightarrow> swipe_event list option" where
  "trim_loop timestamp [] = Some []"
| "trim_loop timestamp (first # rest) =
     do {
       limit \<leftarrow> duration_add (se_timestamp first) HISTORY_LIMIT;
       if timestamp \<le> limit then Some (first # rest) else trim_loop timestamp rest
     }"

definition trim_history :: "swipe_tracker \<Rightarrow> swipe_tracker option" where
  "trim_history t =
     (if st_history t = [] then Some t
      else map_option (\<lambda>h. t\<lparr>st_history := h\<rparr>) (trim_loop (se_timestamp (last (st_history t))) (st_history t)))"

definition swipe_push :: "real \<Rightarrow> nat \<Rightarrow> swipe_tracker \<Rightarrow> swipe_tracker option" where
  "swipe_push delta timestamp t =
     (if st_history t \<noteq> [] \<and> timestamp < se_timestamp (last (st_history t)) then Some t
      else trim_history
        (t\<lparr>st_history := st_history t @ [\<lparr>se_delta = delta, se_timestamp = timestamp\<rparr>], st_pos := st_pos t + delta\<rparr>))"

definition as_secs :: "nat \<Rightarrow> real" where
  "as_secs d = real d / real second"

definition velocity :: "swipe_tracker \<Rightarrow> real option" where
  "velocity t =
     (if st_history t = [] then Some 0
      else do {
        total_time \<leftarrow> duration_sub (se_timestamp (last (st_history t))) (se_timestamp (hd (st_history t)));
        Some (if as_secs total_time = 0 then 0
              else sum_list (map se_delta (st_history t)) / as_secs total_time)
      })"

definition projected_end_pos :: "swipe_tracker \<Rightarrow> real option" where
  "projected_end_pos t = map_option (\<lambda>vel. st_pos t - vel / (1000 * ln (997 / 1000))) (velocity t)"

fun swipe_run :: "swipe_event list \<Rightarrow> swipe_tracker \<Rightarrow> swipe_tracker option" where
  "swipe_run [] t = Some t"
| "swipe_run (e # es) t = do { t \<leftarrow> swipe_push (se_delta e) (se_timestamp e) t; swipe_run es t }"

text \<open>The readings that are not older than the last one taken\<close>

fun in_order :: "nat \<Rightarrow> swipe_event list \<Rightarrow> swipe_event list" where
  "in_order latest [] = []"
| "in_order latest (e # es) =
     (if se_timestamp e < latest then in_order latest es else e # in_order (se_timestamp e) es)"

abbreviation recent :: "nat \<Rightarrow> swipe_event \<Rightarrow> bool" where
  "recent latest e \<equiv> latest \<le> se_timestamp e + HISTORY_LIMIT"

lemma trim_loop_filter:
  assumes "sorted (map se_timestamp es)" "\<forall>e \<in> set es. se_timestamp e + HISTORY_LIMIT < u64_limit * second"
  shows "trim_loop t es = Some (filter (recent t) es)"
  using assms
proof (induction es)
  case (Cons e es)
  have "filter (recent t) es = es" if "recent t e"
    using that Cons.prems(1) by (auto simp: filter_id_conv)
  with Cons show ?case by auto
qed simp

text \<open>The tracker after the readings \<open>taken\<close>\<close>

definition tracks :: "swipe_event list \<Rightarrow> swipe_tracker \<Rightarrow> bool" where
  "tracks taken t \<longleftrightarrow>
     sorted (map se_timestamp taken) \<and> st_pos t = sum_list (map se_delta taken) \<and>
     st_history t = (if taken = [] then [] else filter (recent (se_timestamp (last taken))) taken)"

lemma tracks_last: "tracks taken t \<Longrightarrow> st_history t = [] \<longleftrightarrow> taken = []"
  "tracks taken t \<Longrightarrow> taken \<noteq> [] \<Longrightarrow> last (st_history t) = last taken"
proof -
  assume tr: "tracks taken t"
  have h: "st_history t = filter (recent (se_timestamp (last taken))) (butlast taken) @ [last taken]" if "taken \<noteq> []"
  proof -
    have "filter P taken = filter P (butlast taken) @ [last taken]" if "P (last taken)" for P
      using append_butlast_last_id [OF \<open>taken \<noteq> []\<close>] that
      by (metis filter.simps filter_append)
    then show ?thesis using tr \<open>taken \<noteq> []\<close> by (simp add: tracks_def)
  qed
  show "st_history t = [] \<longleftrightarrow> taken = []" using h tr by (auto simp: tracks_def)
  show "taken \<noteq> [] \<Longrightarrow> last (st_history t) = last taken" using h by simp
qed

lemma swipe_push_tracks:
  assumes tr: "tracks taken t" and e: "\<forall>x \<in> set (e # taken). se_timestamp x + HISTORY_LIMIT < u64_limit * second"
    and "taken \<noteq> [] \<Longrightarrow> se_timestamp (last taken) \<le> se_timestamp e"
  shows "returns (swipe_push (se_delta e) (se_timestamp e) t) (tracks (taken @ [e]))"
proof -
  have ev: "\<lparr>se_delta = se_delta e, se_timestamp = se_timestamp e\<rparr> = e" by simp
  have sorted: "sorted (map se_timestamp (taken @ [e]))"
  proof (cases "taken = []")
    case False
    then have "se_timestamp x \<le> se_timestamp (last taken)" if "x \<in> set taken" for x
      using tr that sorted_wrt_append [of "(\<le>)" "map se_timestamp (butlast taken)" "[se_timestamp (last taken)]"]
      by (cases taken rule: rev_cases) (auto simp: tracks_def sorted_append)
    with assms(3) False tr show ?thesis by (fastforce simp: tracks_def sorted_append)
  qed simp
  define h where "h = st_history t @ [e]"
  have sub: "set h \<subseteq> set (taken @ [e])" using tr by (auto simp: h_def tracks_def split: if_splits)
  have "sorted (map se_timestamp h)"
  proof (cases "taken = []")
    case False
    have "sorted (map se_timestamp (filter (recent (se_timestamp (last taken))) taken))"
      using tr by (simp add: tracks_def sorted_filter)
    moreover have "\<forall>x \<in> set taken. se_timestamp x \<le> se_timestamp e" using sorted by (auto simp: sorted_append)
    ultimately show ?thesis using tr False by (auto simp: h_def tracks_def sorted_append)
  qed (use tr in \<open>simp add: h_def tracks_def\<close>)
  then have trim: "trim_loop (se_timestamp e) h = Some (filter (recent (se_timestamp e)) h)"
    using e sub by (intro trim_loop_filter) auto
  have "recent (se_timestamp (last taken)) x" if "recent (se_timestamp e) x" "taken \<noteq> []" for x
    using that assms(3) by simp
  then have "filter (recent (se_timestamp e)) h = filter (recent (se_timestamp e)) (taken @ [e])"
    using tr by (auto simp: h_def tracks_def intro: filter_cong)
  moreover have no: "\<not> (st_history t \<noteq> [] \<and> se_timestamp e < se_timestamp (last (st_history t)))"
    using tracks_last [OF tr] assms(3) by auto
  ultimately have "swipe_push (se_delta e) (se_timestamp e) t = Some
      (t\<lparr>st_history := filter (recent (se_timestamp e)) (taken @ [e]), st_pos := st_pos t + se_delta e\<rparr>)"
    using trim unfolding h_def swipe_push_def if_not_P [OF no] ev trim_history_def by simp
  then show ?thesis using sorted tr by (simp add: tracks_def)
qed

lemma swipe_run_tracks:
  assumes "tracks taken t" "\<forall>x \<in> set (taken @ es). se_timestamp x + HISTORY_LIMIT < u64_limit * second"
  shows "returns (swipe_run es t) (tracks (taken @ in_order (if taken = [] then 0 else se_timestamp (last taken)) es))"
  using assms
proof (induction es arbitrary: taken t)
  case (Cons e es)
  show ?case
  proof (cases "taken \<noteq> [] \<and> se_timestamp e < se_timestamp (last taken)")
    case True
    with tracks_last [OF Cons.prems(1)] have "swipe_push (se_delta e) (se_timestamp e) t = Some t"
      by (simp add: swipe_push_def)
    then show ?thesis using True Cons.IH [OF Cons.prems(1)] Cons.prems(2) by simp
  next
    case False
    have "returns (swipe_push (se_delta e) (se_timestamp e) t) (tracks (taken @ [e]))"
      by (rule swipe_push_tracks) (use False Cons.prems in auto)
    then obtain t' where t': "swipe_push (se_delta e) (se_timestamp e) t = Some t'" "tracks (taken @ [e]) t'"
      by (auto elim!: returnsE)
    have "returns (swipe_run es t') (tracks ((taken @ [e]) @ in_order (if taken @ [e] = [] then 0 else se_timestamp (last (taken @ [e]))) es))"
      by (rule Cons.IH [OF t'(2)]) (use Cons.prems(2) in auto)
    with t'(1) False show ?thesis by auto
  qed
qed simp

section \<open>Ticks\<close>




text \<open>\<open>f64::clamp\<close> panics when the bounds are the wrong way round\<close>

definition clamp_f64 :: "real \<Rightarrow> real \<Rightarrow> real \<Rightarrow> real option" where
  "clamp_f64 lo hi x = (if lo \<le> hi then Some (if x < lo then lo else if hi < x then hi else x) else None)"

record scroll_tracker =
  sc_tick :: int
  sc_last :: real
  sc_acc :: real




definition scroll_reset :: "scroll_tracker \<Rightarrow> scroll_tracker" where
  "scroll_reset t = t\<lparr>sc_last := 0, sc_acc := 0\<rparr>"













section \<open>Scrolling that swipes\<close>

record scroll_swipe_gesture =
  ss_ongoing :: bool
  ss_vertical :: bool

datatype scroll_swipe_action = BeginUpdate | Update | End

definition scroll_swipe_new :: scroll_swipe_gesture where
  "scroll_swipe_new = \<lparr>ss_ongoing = False, ss_vertical = False\<rparr>"

definition scroll_swipe_update :: "real \<Rightarrow> real \<Rightarrow> scroll_swipe_gesture \<Rightarrow> scroll_swipe_gesture \<times> scroll_swipe_action" where
  "scroll_swipe_update dx dy g =
     (if dx = 0 \<and> dy = 0 then (g\<lparr>ss_ongoing := False\<rparr>, End)
      else if \<not> ss_ongoing g then (g\<lparr>ss_ongoing := True, ss_vertical := (dy \<noteq> 0)\<rparr>, BeginUpdate)
      else (g, Update))"

definition scroll_swipe_reset :: "scroll_swipe_gesture \<Rightarrow> scroll_swipe_gesture \<times> bool" where
  "scroll_swipe_reset g = (if ss_ongoing g then (g\<lparr>ss_ongoing := False\<rparr>, True) else (g, False))"

section \<open>Rubber bands\<close>

record rubber_band =
  rb_stiffness :: real
  rb_limit :: real

definition band :: "rubber_band \<Rightarrow> real \<Rightarrow> real" where
  "band r x = (1 - (1 / (x * rb_stiffness r / rb_limit r + 1))) * rb_limit r"

definition band_derivative :: "rubber_band \<Rightarrow> real \<Rightarrow> real" where
  "band_derivative r x = rb_stiffness r * rb_limit r * rb_limit r / (rb_stiffness r * x + rb_limit r)\<^sup>2"

definition band_clamp :: "rubber_band \<Rightarrow> real \<Rightarrow> real \<Rightarrow> real \<Rightarrow> real option" where
  "band_clamp r lo hi x =
     do {
       clamped \<leftarrow> clamp_f64 lo hi x;
       let sign = (if x < clamped then -1 else 1);
       Some (clamped + sign * band r \<bar>x - clamped\<bar>)
     }"

definition band_clamp_derivative :: "rubber_band \<Rightarrow> real \<Rightarrow> real \<Rightarrow> real \<Rightarrow> real option" where
  "band_clamp_derivative r lo hi x =
     (if lo \<le> x \<and> x \<le> hi then Some 1
      else map_option (\<lambda>clamped. band_derivative r \<bar>x - clamped\<bar>) (clamp_f64 lo hi x))"

definition rubber_ok :: "rubber_band \<Rightarrow> bool" where
  "rubber_ok r \<longleftrightarrow> 0 < rb_stiffness r \<and> 0 < rb_limit r"

lemma band_eq:
  assumes "rubber_ok r" "0 \<le> x"
  shows "band r x = rb_limit r - rb_limit r * rb_limit r / (rb_stiffness r * x + rb_limit r)"
proof -
  have p: "0 < rb_stiffness r * x + rb_limit r" using assms by (simp add: rubber_ok_def add_nonneg_pos)
  have "x * rb_stiffness r / rb_limit r + 1 = (rb_stiffness r * x + rb_limit r) / rb_limit r"
    using assms by (simp add: rubber_ok_def field_simps)
  then show ?thesis using assms p by (simp add: band_def field_simps)
qed

lemma band_bounds:
  assumes "rubber_ok r" "0 \<le> x"
  shows "0 \<le> band r x" "band r x < rb_limit r" "band r 0 = 0"
proof -
  have p: "0 < rb_limit r" "rb_limit r \<le> rb_stiffness r * x + rb_limit r" using assms by (simp_all add: rubber_ok_def)
  have "rb_limit r * rb_limit r / (rb_stiffness r * x + rb_limit r) \<le> rb_limit r"
    using p by (simp add: pos_divide_le_eq)
  then show "0 \<le> band r x" unfolding band_eq [OF assms] by simp
  show "band r x < rb_limit r" unfolding band_eq [OF assms] using p by simp
  show "band r 0 = 0" by (simp add: band_def)
qed

lemma band_strict:
  assumes "rubber_ok r" "0 \<le> x" "x < y"
  shows "band r x < band r y"
proof -
  have p: "0 < rb_limit r" "0 < rb_stiffness r" using assms(1) by (simp_all add: rubber_ok_def)
  have "rb_limit r * rb_limit r / (rb_stiffness r * y + rb_limit r) < rb_limit r * rb_limit r / (rb_stiffness r * x + rb_limit r)"
    using p assms by (intro divide_strict_left_mono mult_pos_pos add_nonneg_pos) simp_all
  then show ?thesis using band_eq [OF assms(1)] assms by simp
qed

lemma band_has_derivative:
  assumes "rubber_ok r" "0 \<le> x"
  shows "(band r has_real_derivative band_derivative r x) (at x)"
proof -
  have p: "0 < rb_stiffness r * x + rb_limit r" "0 < rb_limit r" using assms by (simp_all add: rubber_ok_def add_nonneg_pos)
  then have q: "x * rb_stiffness r / rb_limit r + 1 \<noteq> 0"
    by (simp add: field_simps)
  have "band_derivative r x = rb_stiffness r / rb_limit r / (x * rb_stiffness r / rb_limit r + 1)\<^sup>2 * rb_limit r"
    using p by (simp add: band_derivative_def power2_eq_square divide_simps) (simp add: algebra_simps)
  moreover have "(band r has_real_derivative
      (rb_stiffness r / rb_limit r / (x * rb_stiffness r / rb_limit r + 1)\<^sup>2 * rb_limit r)) (at x)"
    unfolding band_def [abs_def]
    by (auto intro!: derivative_eq_intros q simp: power2_eq_square)
  ultimately show ?thesis by simp
qed

text \<open>The clamped position\<close>

definition clamped_pos :: "rubber_band \<Rightarrow> real \<Rightarrow> real \<Rightarrow> real \<Rightarrow> real" where
  "clamped_pos r lo hi x = (if x < lo then lo - band r (lo - x) else if hi < x then hi + band r (x - hi) else x)"

lemma band_clamp_eq: "lo \<le> hi \<Longrightarrow> band_clamp r lo hi x = Some (clamped_pos r lo hi x)"
  by (auto simp: band_clamp_def clamp_f64_def clamped_pos_def band_def abs_if)

lemma clamped_pos_bounds:
  assumes "rubber_ok r" "lo \<le> hi"
  shows "lo - rb_limit r < clamped_pos r lo hi x" "clamped_pos r lo hi x < hi + rb_limit r"
    "x < lo \<Longrightarrow> clamped_pos r lo hi x \<le> lo" "hi < x \<Longrightarrow> hi \<le> clamped_pos r lo hi x"
  using band_bounds(1,2) [OF assms(1), of "lo - x"] band_bounds(1,2) [OF assms(1), of "x - hi"] assms
  by (auto simp: clamped_pos_def rubber_ok_def)

lemma clamped_pos_strict:
  assumes r: "rubber_ok r" "lo \<le> hi" and less: "x < y"
  shows "clamped_pos r lo hi x < clamped_pos r lo hi y"
proof -
  have pos: "0 < band r d" if "0 < d" for d using band_strict [OF r(1), of 0 d] band_bounds(3) [OF r(1), of 0] that by simp
  consider "y < lo" | "x < lo" "lo \<le> y" | "lo \<le> x" "x \<le> hi" | "hi < x" by linarith
  then show ?thesis
  proof cases
    case 1
    with band_strict [OF r(1), of "lo - y" "lo - x"] less show ?thesis by (simp add: clamped_pos_def)
  next
    case 2
    with pos [of "lo - x"] band_bounds(1) [OF r(1), of "y - hi"] r(2) less show ?thesis by (auto simp: clamped_pos_def)
  next
    case 3
    with pos [of "y - hi"] less show ?thesis by (auto simp: clamped_pos_def)
  next
    case 4
    with band_strict [OF r(1), of "x - hi" "y - hi"] less r(2) show ?thesis by (simp add: clamped_pos_def)
  qed
qed

lemma clamped_pos_derivative:
  assumes r: "rubber_ok r" "lo \<le> hi" and x: "x \<noteq> lo" "x \<noteq> hi"
  shows "\<exists>d. band_clamp_derivative r lo hi x = Some d \<and> (clamped_pos r lo hi has_real_derivative d) (at x)"
proof -
  consider "x < lo" | "lo < x" "x < hi" | "hi < x" using x by linarith
  then show ?thesis
  proof cases
    case 1
    have "((\<lambda>y. lo - band r (lo - y)) has_real_derivative 0 - band_derivative r (lo - x) * (0 - 1)) (at x)"
      by (intro DERIV_diff DERIV_chain2 [where f = "band r"] band_has_derivative [OF r(1)] DERIV_const DERIV_ident)
        (use 1 in simp)
    then have "((\<lambda>y. lo - band r (lo - y)) has_real_derivative band_derivative r (lo - x)) (at x)" by simp
    then have "(clamped_pos r lo hi has_real_derivative band_derivative r (lo - x)) (at x)"
      by (rule has_field_derivative_transform_within_open [where S = "{..<lo}"]) (use 1 in \<open>auto simp: clamped_pos_def\<close>)
    then show ?thesis using 1 r(2) by (simp add: band_clamp_derivative_def clamp_f64_def)
  next
    case 2
    have "((\<lambda>y. y) has_real_derivative 1) (at x)" by (rule DERIV_ident)
    then have "(clamped_pos r lo hi has_real_derivative 1) (at x)"
      by (rule has_field_derivative_transform_within_open [where S = "{lo<..<hi}"]) (use 2 in \<open>auto simp: clamped_pos_def\<close>)
    then show ?thesis using 2 by (simp add: band_clamp_derivative_def)
  next
    case 3
    have "((\<lambda>y. hi + band r (y - hi)) has_real_derivative 0 + band_derivative r (x - hi) * (1 - 0)) (at x)"
      by (intro DERIV_add DERIV_chain2 [where f = "band r"] DERIV_diff band_has_derivative [OF r(1)] DERIV_const DERIV_ident)
        (use 3 in simp)
    then have "((\<lambda>y. hi + band r (y - hi)) has_real_derivative band_derivative r (x - hi)) (at x)" by simp
    then have "(clamped_pos r lo hi has_real_derivative band_derivative r (x - hi)) (at x)"
      by (rule has_field_derivative_transform_within_open [where S = "{hi<..}"]) (use 3 r(2) in \<open>auto simp: clamped_pos_def\<close>)
    then show ?thesis using 3 r(2) by (simp add: band_clamp_derivative_def clamp_f64_def)
  qed
qed


section \<open>Properties\<close>

text \<open>
  C38. A swipe tracker never panics, ignores readings older than the last one taken, and after any
  readings its position is the sum of those taken, its history exactly those of the last 150
  milliseconds, and its velocity their sum over the time they span.
\<close>

theorem swipe_history_is_recent:
  assumes "\<forall>e \<in> set es. se_timestamp e + HISTORY_LIMIT < u64_limit * second"
  shows "\<exists>t. swipe_run es swipe_tracker_new = Some t \<and>
    st_pos t = sum_list (map se_delta (in_order 0 es)) \<and>
    st_history t = filter (recent (se_timestamp (last (in_order 0 es)))) (in_order 0 es) \<and>
    velocity t = Some (let span = as_secs (se_timestamp (last (st_history t)) - se_timestamp (hd (st_history t)))
      in if st_history t = [] \<or> span = 0 then 0 else sum_list (map se_delta (st_history t)) / span)"
proof -
  have "tracks [] swipe_tracker_new" by (simp add: tracks_def swipe_tracker_new_def)
  from swipe_run_tracks [OF this, of es] assms obtain t where
    t: "swipe_run es swipe_tracker_new = Some t" "tracks (in_order 0 es) t"
    by (auto elim!: returnsE)
  have "sorted (map se_timestamp (st_history t))" using t(2) by (auto simp: tracks_def sorted_filter)
  then have "se_timestamp (hd (st_history t)) \<le> se_timestamp (last (st_history t))" if "st_history t \<noteq> []"
    using that by (cases "st_history t") auto
  then show ?thesis using t by (auto simp: tracks_def velocity_def Let_def)
qed

theorem swipe_history_is_recent_witness:
  "\<exists>t. swipe_run [\<lparr>se_delta = 1, se_timestamp = 0\<rparr>, \<lparr>se_delta = 2, se_timestamp = 100000000\<rparr>,
      \<lparr>se_delta = 5, se_timestamp = 50000000\<rparr>, \<lparr>se_delta = 4, se_timestamp = 200000000\<rparr>] swipe_tracker_new = Some t \<and>
     st_pos t = 7 \<and> st_history t = [\<lparr>se_delta = 2, se_timestamp = 100000000\<rparr>, \<lparr>se_delta = 4, se_timestamp = 200000000\<rparr>] \<and>
     velocity t = Some 60"
  using swipe_history_is_recent [of "[\<lparr>se_delta = 1, se_timestamp = 0\<rparr>, \<lparr>se_delta = 2, se_timestamp = 100000000\<rparr>,
      \<lparr>se_delta = 5, se_timestamp = 50000000\<rparr>, \<lparr>se_delta = 4, se_timestamp = 200000000\<rparr>]"]
  by (auto simp: HISTORY_LIMIT_def u64_limit_def second_def as_secs_def)



text \<open>
  C40. A rubber band with positive stiffness and limit leaves positions between the ends alone,
  never lets a position stray further than its limit past an end, keeps the order of positions,
  and \<open>clamp_derivative\<close> is the derivative of \<open>clamp\<close> everywhere but at the two ends.
\<close>

theorem rubber_band_is_smooth_and_bounded:
  assumes "rubber_ok r" "lo \<le> hi"
  shows "\<exists>f. (\<forall>x. band_clamp r lo hi x = Some (f x)) \<and> (\<forall>x \<in> {lo..hi}. f x = x) \<and>
    (\<forall>x. lo - rb_limit r < f x \<and> f x < hi + rb_limit r) \<and> strict_mono f \<and>
    (\<forall>x. x \<notin> {lo, hi} \<longrightarrow> (\<exists>d. band_clamp_derivative r lo hi x = Some d \<and> (f has_real_derivative d) (at x)))"
proof (intro exI [of _ "clamped_pos r lo hi"] conjI)
  show "strict_mono (clamped_pos r lo hi)" using clamped_pos_strict [OF assms] by (simp add: strict_mono_def)
  show "\<forall>x. lo - rb_limit r < clamped_pos r lo hi x \<and> clamped_pos r lo hi x < hi + rb_limit r"
    using clamped_pos_bounds(1,2) [OF assms] by blast
  show "\<forall>x. x \<notin> {lo, hi} \<longrightarrow> (\<exists>d. band_clamp_derivative r lo hi x = Some d \<and> (clamped_pos r lo hi has_real_derivative d) (at x))"
    using clamped_pos_derivative [OF assms] by simp
qed (use band_clamp_eq [OF assms(2)] in \<open>auto simp: clamped_pos_def\<close>)

theorem rubber_band_is_smooth_and_bounded_witness:
  "\<exists>f. (\<forall>x. band_clamp \<lparr>rb_stiffness = 1 / 2, rb_limit = 1 / 20\<rparr> 0 3 x = Some (f x)) \<and> f 2 = 2 \<and> f 100 < 3 + 1 / 20"
  using rubber_band_is_smooth_and_bounded [of "\<lparr>rb_stiffness = 1 / 2, rb_limit = 1 / 20\<rparr>" 0 3]
  by (auto simp: rubber_ok_def)

end
