(* ===== verification/Spec2Isabelle.thy ===== *)
theory Spec2Isabelle
  imports Region ScrollingSpec FloatingSpec Outputs MonitorClaims LayoutSpec EventStreamClaims Transaction Trackers
begin

text \<open>
  Verification library of the window-management core of the compositor.
\<close>

end
